(* ===== verification/Prelude.thy ===== *)
theory Prelude
  imports "HOL-Library.Word" "HOL-Library.Monad_Syntax"
begin

text \<open>
  Shared vocabulary of the development.

  \<^item> Go's byte slices are lists of 8-bit words, its fixed-width unsigned integers are words of
    their width, and its \<open>int\<close> is \<open>nat\<close> where it is a length or an offset that the code keeps
    non-negative and \<open>int\<close> otherwise.
  \<^item> A Go expression that can panic (an index or a slice expression) is a value of
    \<open>'a option\<close>: \<open>None\<close> is the run-time panic. A function that can also return an \<open>error\<close>
    is a value of \<open>('e, 'a) go\<close>: \<open>None\<close> is the panic, \<open>Some (Inl e)\<close> the error return and
    \<open>Some (Inr x)\<close> the success. The doc comments of the wire parsers promise that they never
    panic, so that promise is a theorem about each of them, not an artefact of the model.
  \<^item> A slice expression \<open>s[lo:hi]\<close> panics in the model as soon as \<open>hi\<close> exceeds \<open>len(s)\<close>; Go
    allows it up to \<open>cap(s)\<close>. The model is the stricter of the two.
\<close>

unbundle bit_operations_syntax

section \<open>Collections of facts\<close>

named_theorems go_simps "unfolding rules of the panic and error monads and of slice access"
named_theorems caps "the size constants of the source"

section \<open>Types\<close>

type_synonym byte = "8 word"
type_synonym u16 = "16 word"
type_synonym u32 = "32 word"
type_synonym u64 = "64 word"
type_synonym bytes = "8 word list"
type_synonym ('e, 'a) go = "('e + 'a) option"

abbreviation ok :: "'a \<Rightarrow> ('e, 'a) go" where
  "ok x \<equiv> Some (Inr x)"

abbreviation err :: "'e \<Rightarrow> ('e, 'a) go" where
  "err e \<equiv> Some (Inl e)"

abbreviation panic :: "('e, 'a) go" where
  "panic \<equiv> None"

text \<open>The statement \<open>x, err := m(); if err != nil { return err }; f(x)\<close>.\<close>

definition go_bind :: "('e, 'a) go \<Rightarrow> ('a \<Rightarrow> ('e, 'b) go) \<Rightarrow> ('e, 'b) go" where
  "go_bind m f = (case m of None \<Rightarrow> None | Some (Inl e) \<Rightarrow> Some (Inl e) | Some (Inr x) \<Rightarrow> f x)"

lemma go_bind_simps [simp]:
  "go_bind None f = None"
  "go_bind (Some (Inl e)) f = Some (Inl e)"
  "go_bind (Some (Inr x)) f = f x"
  by (simp_all add: go_bind_def)

lemma go_bind_ok_iff [go_simps]:
  "go_bind m f = Some (Inr y) \<longleftrightarrow> (\<exists>x. m = Some (Inr x) \<and> f x = Some (Inr y))"
  by (auto simp: go_bind_def split: option.splits sum.splits)

lemma go_bind_err_iff [go_simps]:
  "go_bind m f = Some (Inl e) \<longleftrightarrow>
     m = Some (Inl e) \<or> (\<exists>x. m = Some (Inr x) \<and> f x = Some (Inl e))"
  by (auto simp: go_bind_def split: option.splits sum.splits)

lemma go_bind_None_iff [go_simps]:
  "go_bind m f = None \<longleftrightarrow> m = None \<or> (\<exists>x. m = Some (Inr x) \<and> f x = None)"
  by (auto simp: go_bind_def split: option.splits sum.splits)

lemma go_bind_no_panic:
  assumes "m \<noteq> None" and "\<And>x. m = Some (Inr x) \<Longrightarrow> f x \<noteq> None"
  shows "go_bind m f \<noteq> None"
  using assms by (auto simp: go_bind_def split: option.splits sum.splits)

lemma go_bind_cong [fundef_cong]:
  "m = m' \<Longrightarrow> (\<And>x. m' = Some (Inr x) \<Longrightarrow> f x = g x) \<Longrightarrow> go_bind m f = go_bind m' g"
  by (auto simp: go_bind_def split: option.splits sum.splits)

lemma go_cases [case_names Panic Err Ok]:
  obtains "m = None" | e where "m = Some (Inl e)" | x where "m = Some (Inr x)"
  by (metis not_None_eq sum.exhaust)

section \<open>Slice access\<close>

definition idx :: "'a list \<Rightarrow> nat \<Rightarrow> 'a option" where
  "idx xs i = (if i < length xs then Some (xs ! i) else None)"

definition slice :: "'a list \<Rightarrow> nat \<Rightarrow> nat \<Rightarrow> 'a list option" where
  "slice xs lo hi = (if lo \<le> hi \<and> hi \<le> length xs then Some (take (hi - lo) (drop lo xs)) else None)"

lemma idx_Some [simp]: "i < length xs \<Longrightarrow> idx xs i = Some (xs ! i)"
  by (simp add: idx_def)

lemma idx_None_iff [simp]: "idx xs i = None \<longleftrightarrow> length xs \<le> i"
  by (simp add: idx_def)

lemma idx_eq_Some_iff [go_simps]: "idx xs i = Some x \<longleftrightarrow> i < length xs \<and> xs ! i = x"
  by (auto simp: idx_def)

lemma slice_Some [simp]:
  "lo \<le> hi \<Longrightarrow> hi \<le> length xs \<Longrightarrow> slice xs lo hi = Some (take (hi - lo) (drop lo xs))"
  by (simp add: slice_def)

lemma slice_None_iff [simp]: "slice xs lo hi = None \<longleftrightarrow> \<not> (lo \<le> hi \<and> hi \<le> length xs)"
  by (simp add: slice_def)

lemma slice_eq_Some_iff [go_simps]:
  "slice xs lo hi = Some ys \<longleftrightarrow>
     lo \<le> hi \<and> hi \<le> length xs \<and> ys = take (hi - lo) (drop lo xs)"
  by (auto simp: slice_def)

lemma slice_all: "off \<le> length xs \<Longrightarrow> slice xs off (length xs) = Some (drop off xs)"
  by simp

lemma slice_length: "slice xs lo hi = Some ys \<Longrightarrow> length ys = hi - lo"
  by (auto simp: slice_def split: if_splits)

lemma slice_append3 [simp]:
  "slice (pre @ mid @ suf) (length pre) (length pre + length mid) = Some mid"
  by (simp add: slice_def)

lemma bind_Some_iff [go_simps]:
  "Option.bind m f = Some y \<longleftrightarrow> (\<exists>x. m = Some x \<and> f x = Some y)"
  by (cases m) auto

lemma bind_no_panic:
  assumes "m \<noteq> None" and "\<And>x. m = Some x \<Longrightarrow> f x \<noteq> None"
  shows "Option.bind m f \<noteq> None"
  using assms by (cases m) auto

text \<open>Two ways to cut the same bytes: the one that reaches further splits at the end of the other.\<close>

lemma append_front:
  assumes "xs @ q = b @ r" "length b \<le> length xs"
  shows "take (length b) xs = b" "drop (length b) xs @ q = r"
proof -
  have "take (length b) (xs @ q) = b" "drop (length b) (xs @ q) = r" using assms(1) by simp_all
  then show "take (length b) xs = b" "drop (length b) xs @ q = r" using assms(2) by simp_all
qed

section \<open>Big-endian integers on the wire\<close>

text \<open>
  \<open>encoding/binary.BigEndian\<close>: \<open>Uint16\<close>, \<open>Uint32\<close> and \<open>Uint64\<close> of the slice at an offset, and
  \<open>PutUint16\<close> / \<open>AppendUint16\<close> and their wider forms as the byte lists they write.
\<close>

definition be16 :: "byte \<Rightarrow> byte \<Rightarrow> u16" where
  "be16 a b = push_bit 8 (ucast a) OR ucast b"

definition be32 :: "byte \<Rightarrow> byte \<Rightarrow> byte \<Rightarrow> byte \<Rightarrow> u32" where
  "be32 a b c d = push_bit 24 (ucast a) OR push_bit 16 (ucast b) OR push_bit 8 (ucast c) OR ucast d"

definition be64 :: "u32 \<Rightarrow> u32 \<Rightarrow> u64" where
  "be64 hi lo = push_bit 32 (ucast hi) OR ucast lo"

definition u16be :: "bytes \<Rightarrow> nat \<Rightarrow> u16 option" where
  "u16be buf i = do { s \<leftarrow> slice buf i (i + 2); a \<leftarrow> idx s 0; b \<leftarrow> idx s 1; Some (be16 a b) }"

definition u32be :: "bytes \<Rightarrow> nat \<Rightarrow> u32 option" where
  "u32be buf i = do {
     s \<leftarrow> slice buf i (i + 4);
     a \<leftarrow> idx s 0; b \<leftarrow> idx s 1; c \<leftarrow> idx s 2; d \<leftarrow> idx s 3;
     Some (be32 a b c d) }"

definition u64be :: "bytes \<Rightarrow> nat \<Rightarrow> u64 option" where
  "u64be buf i = do { hi \<leftarrow> u32be buf i; lo \<leftarrow> u32be buf (i + 4); Some (be64 hi lo) }"

definition put16 :: "u16 \<Rightarrow> bytes" where
  "put16 v = [ucast (drop_bit 8 v), ucast v]"

definition put32 :: "u32 \<Rightarrow> bytes" where
  "put32 v = [ucast (drop_bit 24 v), ucast (drop_bit 16 v), ucast (drop_bit 8 v), ucast v]"

definition put64 :: "u64 \<Rightarrow> bytes" where
  "put64 v = put32 (ucast (drop_bit 32 v)) @ put32 (ucast v)"

lemma length_put [simp]:
  "length (put16 v16) = 2" "length (put32 v32) = 4" "length (put64 v64) = 8"
  by (simp_all add: put16_def put32_def put64_def)

lemma be16_put [simp]: "be16 (ucast (drop_bit 8 v)) (ucast v) = v"
  by (rule bit_word_eqI) (auto simp: be16_def bit_simps)

lemma be32_put [simp]:
  "be32 (ucast (drop_bit 24 v)) (ucast (drop_bit 16 v)) (ucast (drop_bit 8 v)) (ucast v) = v"
proof (rule bit_word_eqI)
  fix n :: nat
  assume "n < LENGTH(32)"
  then consider "n < 8" | "8 \<le> n" "n < 16" | "16 \<le> n" "n < 24" | "24 \<le> n" "n < 32"
    by fastforce
  then show "bit (be32 (ucast (drop_bit 24 v)) (ucast (drop_bit 16 v)) (ucast (drop_bit 8 v))
      (ucast v)) n = bit v n"
    by cases (auto simp: be32_def bit_simps less_diff_conv2)
qed

lemma be64_put [simp]: "be64 (ucast (drop_bit 32 v)) (ucast v) = v"
  by (rule bit_word_eqI) (auto simp: be64_def bit_simps)

lemma u16be_Some [simp]:
  "i + 2 \<le> length buf \<Longrightarrow> u16be buf i = Some (be16 (buf ! i) (buf ! (i + 1)))"
  by (simp add: u16be_def)

lemma u32be_Some [simp]:
  "i + 4 \<le> length buf \<Longrightarrow>
     u32be buf i = Some (be32 (buf ! i) (buf ! (i + 1)) (buf ! (i + 2)) (buf ! (i + 3)))"
  by (simp add: u32be_def)

lemma u64be_Some [simp]:
  "i + 8 \<le> length buf \<Longrightarrow>
     u64be buf i = Some (be64 (be32 (buf ! i) (buf ! (i + 1)) (buf ! (i + 2)) (buf ! (i + 3)))
       (be32 (buf ! (i + 4)) (buf ! (i + 4 + 1)) (buf ! (i + 4 + 2)) (buf ! (i + 4 + 3))))"
  by (simp add: u64be_def)

lemma u16be_None_iff [simp]: "u16be buf i = None \<longleftrightarrow> length buf < i + 2"
  by (auto simp: u16be_def slice_def)

lemma u32be_None_iff [simp]: "u32be buf i = None \<longleftrightarrow> length buf < i + 4"
  by (auto simp: u32be_def slice_def)

section \<open>Words\<close>

lemma unat_byte_less: "unat (b :: byte) < 256"
proof -
  have "unat b < 2 ^ LENGTH(8)" by (rule unsigned_less)
  then show ?thesis by simp
qed

lemma unat_u16_less: "unat (w :: u16) < 65536"
proof -
  have "unat w < 2 ^ LENGTH(16)" by (rule unsigned_less)
  then show ?thesis by simp
qed

lemma unat_word_of_nat_small:
  "n < 2 ^ LENGTH('a) \<Longrightarrow> unat (word_of_nat n :: 'a::len word) = n"
  by (simp add: unat_of_nat take_bit_nat_eq_self)

lemma ucast_as_nat: "ucast w = word_of_nat (unat w)"
  by simp

lemma word_of_nat_diff:
  "a \<le> b \<Longrightarrow> word_of_nat b - word_of_nat a = (word_of_nat (b - a) :: 'a::len word)"
  by (simp add: of_nat_diff)

lemma bit_word_of_nat [bit_simps]:
  "bit (word_of_nat e :: 'a::len word) n \<longleftrightarrow> n < LENGTH('a) \<and> bit e n"
  by (simp add: bit_simps)

section \<open>Fixed-width codecs\<close>

text \<open>Read \<open>n\<close> consecutive fields of \<open>w\<close> bytes with the reader \<open>dec\<close>.\<close>

fun read_seq :: "(bytes \<Rightarrow> nat \<Rightarrow> 'a option) \<Rightarrow> nat \<Rightarrow> bytes \<Rightarrow> nat \<Rightarrow> nat \<Rightarrow> 'a list option" where
  "read_seq dec w buf off 0 = Some []"
| "read_seq dec w buf off (Suc n) = do {
     x \<leftarrow> dec buf off;
     xs \<leftarrow> read_seq dec w buf (off + w) n;
     Some (x # xs) }"

lemma read_seq_length: "read_seq dec w buf off n = Some xs \<Longrightarrow> length xs = n"
  by (induction n arbitrary: off xs) (auto simp: go_simps)

locale fixed_codec =
  fixes enc :: "'a \<Rightarrow> bytes" and dec :: "bytes \<Rightarrow> nat \<Rightarrow> 'a option" and width :: nat
  assumes enc_length: "length (enc x) = width"
    and dec_enc: "dec (pre @ enc x @ suf) (length pre) = Some x"
    and dec_total: "off + width \<le> length buf \<Longrightarrow> dec buf off \<noteq> None"
begin

lemma enc_inj: "enc x = enc y \<longleftrightarrow> x = y"
  by (metis dec_enc option.inject)

lemma length_concat_enc: "length (concat (map enc xs)) = width * length xs"
  by (induction xs) (simp_all add: enc_length)

lemma read_seq_enc:
  "read_seq dec width (pre @ concat (map enc xs) @ suf) (length pre) (length xs) = Some xs"
proof (induction xs arbitrary: pre)
  case Nil
  show ?case by simp
next
  case (Cons x xs)
  have "read_seq dec width ((pre @ enc x) @ concat (map enc xs) @ suf)
          (length (pre @ enc x)) (length xs) = Some xs"
    by (rule Cons.IH)
  then show ?case
    using dec_enc [of pre x "concat (map enc xs) @ suf"] by (simp add: enc_length)
qed

lemma read_seq_total: "off + width * n \<le> length buf \<Longrightarrow> read_seq dec width buf off n \<noteq> None"
proof (induction n arbitrary: off)
  case 0
  show ?case by simp
next
  case (Suc n)
  then have "dec buf off \<noteq> None"
    by (intro dec_total) simp
  moreover have "read_seq dec width buf (off + width) n \<noteq> None"
    using Suc.prems by (intro Suc.IH) (simp add: algebra_simps)
  ultimately show ?case by auto
qed

end

interpretation u16_codec: fixed_codec put16 u16be 2
  by unfold_locales (simp_all add: put16_def nth_append)

interpretation u32_codec: fixed_codec put32 u32be 4
  by unfold_locales (simp_all add: put32_def nth_append)

interpretation u64_codec: fixed_codec put64 u64be 8
  by unfold_locales (simp_all add: put64_def put32_def nth_append)

section \<open>Partial correctness without panics\<close>

text \<open>
  \<open>go_sat Q m\<close>: the call \<open>m\<close> does not panic, and a result it returns satisfies \<open>Q\<close>. The rules in \<open>sat_simps\<close> and \<open>sat_intros\<close> push the condition
  backwards through a sequence of calls.
\<close>

named_theorems sat_simps "weakest preconditions of calls"
named_theorems sat_intros "introduction rules for the conditions on calls"

definition go_sat :: "('a \<Rightarrow> bool) \<Rightarrow> ('e, 'a) go \<Rightarrow> bool" where
  "go_sat Q m = (case m of None \<Rightarrow> False | Some (Inl e) \<Rightarrow> True | Some (Inr x) \<Rightarrow> Q x)"

lemma go_sat_basic [simp]: "go_sat Q (err e)" "go_sat Q (ok x) \<longleftrightarrow> Q x" "\<not> go_sat Q panic"
  by (simp_all add: go_sat_def)

lemma go_sat_bind [sat_simps]: "go_sat Q (go_bind m f) \<longleftrightarrow> go_sat (\<lambda>x. go_sat Q (f x)) m"
  by (auto simp: go_sat_def go_bind_def split: option.splits sum.splits)

lemma go_sat_opt_bind [sat_simps]: "go_sat Q (Option.bind m f) \<longleftrightarrow> (\<exists>x. m = Some x \<and> go_sat Q (f x))"
  by (cases m) auto

lemma go_sat_bindI [sat_intros]: "go_sat (\<lambda>x. go_sat Q (f x)) m \<Longrightarrow> go_sat Q (go_bind m f)"
  by (simp add: go_sat_bind)

lemma go_sat_if [sat_simps]: "go_sat Q (if b then x else y) \<longleftrightarrow> (b \<longrightarrow> go_sat Q x) \<and> (\<not> b \<longrightarrow> go_sat Q y)"
  by simp

lemma go_sat_mono: "go_sat P m \<Longrightarrow> (\<And>x. P x \<Longrightarrow> Q x) \<Longrightarrow> go_sat Q m"
  by (auto simp: go_sat_def split: option.splits sum.splits)

lemma go_satD: "go_sat Q m \<Longrightarrow> m \<noteq> None" "go_sat Q m \<Longrightarrow> m = ok x \<Longrightarrow> Q x"
  by (auto simp: go_sat_def split: option.splits)

lemma go_satI: "m \<noteq> None \<Longrightarrow> (\<And>x. m = ok x \<Longrightarrow> Q x) \<Longrightarrow> go_sat Q m"
  by (auto simp: go_sat_def split: option.splits sum.splits)

section \<open>Runs of a state machine\<close>

text \<open>
  A component that a single goroutine drives is a step function from a state and an input to an
  output and a new state. \<open>run\<close> feeds it a list of inputs and collects the outputs.
\<close>

fun run :: "('s \<Rightarrow> 'i \<Rightarrow> 'o \<times> 's) \<Rightarrow> 's \<Rightarrow> 'i list \<Rightarrow> 'o list \<times> 's" where
  "run step s [] = ([], s)"
| "run step s (i # is) =
     (let (out, s') = step s i; (outs, s'') = run step s' is in (out # outs, s''))"

declare run.simps(2) [simp del]

lemma run_Cons [simp]:
  "fst (run step s (i # is)) = fst (step s i) # fst (run step (snd (step s i)) is)"
  "snd (run step s (i # is)) = snd (run step (snd (step s i)) is)"
  by (simp_all add: run.simps(2) Let_def split: prod.splits)

lemma run_append:
  "fst (run step s (xs @ ys)) = fst (run step s xs) @ fst (run step (snd (run step s xs)) ys)"
  "snd (run step s (xs @ ys)) = snd (run step (snd (run step s xs)) ys)"
  by (induction xs arbitrary: s) simp_all

lemma length_run: "length (fst (run step s xs)) = length xs"
  by (induction xs arbitrary: s) simp_all

text \<open>
  The contract of a component whose operations keep an invariant: every step keeps it, so it holds
  after any run, and what every step guarantees of its output under the invariant holds of every
  output of the run.
\<close>

locale invariant_machine =
  fixes step :: "'s \<Rightarrow> 'i \<Rightarrow> 'o \<times> 's"
    and inv :: "'s \<Rightarrow> bool"
    and good :: "'o \<Rightarrow> bool"
  assumes step_inv: "inv s \<Longrightarrow> inv (snd (step s i))"
    and step_good: "inv s \<Longrightarrow> good (fst (step s i))"
begin

lemma run_inv: "inv s \<Longrightarrow> inv (snd (run step s is))"
  by (induction "is" arbitrary: s) (simp_all add: step_inv)

lemma run_good: "inv s \<Longrightarrow> out \<in> set (fst (run step s is)) \<Longrightarrow> good out"
proof (induction "is" arbitrary: s)
  case (Cons i "is")
  then show ?case using step_inv [of s i] step_good [of s i] by auto
qed simp

end

end
