(* ===== verification/RTP_Packet.thy ===== *)
theory RTP_Packet
  imports Prelude
begin

text \<open>
  The RTP packet codec of \<open>src/rtsp/rtp/packet.go\<close> and \<open>src/rtsp/rtp/marshal.go\<close>: the parsed
  header and packet as records, the parser \<open>ParsePacket\<close> split at the source's own paragraphs
  (fixed header, CSRC list, header extension, padding), and the marshaller \<open>AppendTo\<close> /
  \<open>AppendPacket\<close>. The lemmas show that the parser never panics, that it accepts
  exactly the packets of RFC 3550, extensions and padding included, and that parsing inverts marshalling.
\<close>

section \<open>Data\<close>

definition HeaderSize :: nat where [caps]: "HeaderSize = 12"

definition MaxCSRC :: nat where [caps]: "MaxCSRC = 15"

datatype rtp_error = ErrShortPacket | ErrVersion | ErrTruncatedExtension | ErrBadPadding

datatype marshal_error = ErrMarshalExtension | ErrTooManyCSRC

record rtp_header =
  Version :: byte
  Padding :: bool
  Extension :: bool
  Marker :: bool
  PayloadType :: byte
  SequenceNumber :: u16
  Timestamp :: u32
  SSRC :: u32
  CSRC :: "u32 list"

record rtp_packet =
  Header :: rtp_header
  Payload :: bytes

section \<open>Parsing\<close>

text \<open>The fixed header, without the CSRC list; the caller has checked the length.\<close>

definition parse_fixed :: "byte \<Rightarrow> byte \<Rightarrow> bytes \<Rightarrow> rtp_header option" where
  "parse_fixed version b0 buf = do {
     b1 \<leftarrow> idx buf 1;
     seq \<leftarrow> u16be buf 2;
     ts \<leftarrow> u32be buf 4;
     ssrc \<leftarrow> u32be buf 8;
     Some \<lparr>Version = version,
           Padding = (b0 AND 0x20 \<noteq> 0),
           Extension = (b0 AND 0x10 \<noteq> 0),
           Marker = (b1 AND 0x80 \<noteq> 0),
           PayloadType = b1 AND 0x7f,
           SequenceNumber = seq, Timestamp = ts, SSRC = ssrc, CSRC = []\<rparr> }"

definition parse_csrc :: "bytes \<Rightarrow> nat \<Rightarrow> nat \<Rightarrow> (rtp_error, u32 list \<times> nat) go" where
  "parse_csrc buf off cc =
     (if cc > 0 then
        if length buf < off + cc * 4 then err ErrShortPacket
        else do { cs \<leftarrow> read_seq u32be 4 buf off cc; ok (cs, off + 4 * cc) }
      else ok ([], off))"

definition skip_extension :: "bytes \<Rightarrow> bool \<Rightarrow> nat \<Rightarrow> (rtp_error, nat) go" where
  "skip_extension buf ext off =
     (if ext then
        if length buf < off + 4 then err ErrTruncatedExtension
        else do {
          w \<leftarrow> u16be buf (off + 2);
          let extLen = 4 + unat w * 4 in
          if length buf < off + extLen then err ErrTruncatedExtension
          else ok (off + extLen) }
      else ok off)"

definition strip_padding :: "bytes \<Rightarrow> bool \<Rightarrow> nat \<Rightarrow> (rtp_error, bytes) go" where
  "strip_padding buf pad off = do {
     region \<leftarrow> slice buf off (length buf);
     if pad then
       if length region = 0 then err ErrBadPadding
       else do {
         b \<leftarrow> idx buf (length buf - 1);
         let padLen = unat b in
         if padLen = 0 \<or> padLen > length region then err ErrBadPadding
         else do { r \<leftarrow> slice region 0 (length region - padLen); ok r } }
     else ok region }"

definition ParsePacket :: "bytes \<Rightarrow> (rtp_error, rtp_packet) go" where
  "ParsePacket buf =
     (if length buf < HeaderSize then err ErrShortPacket
      else do {
        b0 \<leftarrow> idx buf 0;
        let version = drop_bit 6 b0 in
        if version \<noteq> 2 then err ErrVersion
        else do {
          h \<leftarrow> parse_fixed version b0 buf;
          let cc = unat (b0 AND 0x0f) in
          go_bind (parse_csrc buf HeaderSize cc) (\<lambda>(cs, off).
          go_bind (skip_extension buf (Extension h) off) (\<lambda>off'.
          go_bind (strip_padding buf (Padding h) off') (\<lambda>region.
            ok \<lparr>Header = h\<lparr>CSRC := cs\<rparr>, Payload = region\<rparr>))) } })"

section \<open>Marshalling\<close>

text \<open>
  Both functions return the destination slice and the error, as the source does: on an error the
  destination comes back unchanged.
\<close>

definition AppendTo :: "rtp_header \<Rightarrow> bytes \<Rightarrow> bytes \<times> marshal_error option" where
  "AppendTo h dst =
     (if Extension h then (dst, Some ErrMarshalExtension)
      else let cc = length (CSRC h) in
      if cc > MaxCSRC then (dst, Some ErrTooManyCSRC)
      else
        let f0 = 0x80 OR word_of_nat cc;
            f1 = PayloadType h AND 0x7f;
            f1' = (if Marker h then f1 OR 0x80 else f1)
        in (dst @ [f0, f1'] @ put16 (SequenceNumber h) @ put32 (Timestamp h) @ put32 (SSRC h)
              @ concat (map put32 (CSRC h)), None))"

definition AppendPacket :: "bytes \<Rightarrow> rtp_header \<Rightarrow> bytes \<Rightarrow> bytes \<times> marshal_error option" where
  "AppendPacket dst h payload =
     (case AppendTo h dst of
        (dst', Some e) \<Rightarrow> (dst', Some e)
      | (dst', None) \<Rightarrow> (dst' @ payload, None))"

section \<open>The parser never panics\<close>

lemma parse_fixed_total: "HeaderSize \<le> length buf \<Longrightarrow> parse_fixed v b0 buf \<noteq> None"
  by (simp add: parse_fixed_def caps)

lemma parse_csrc_no_panic: "parse_csrc buf off cc \<noteq> None"
proof -
  have "off + 4 * cc \<le> length buf \<Longrightarrow> read_seq u32be 4 buf off cc \<noteq> None"
    by (rule u32_codec.read_seq_total)
  then show ?thesis by (auto simp: parse_csrc_def mult.commute)
qed

lemma skip_extension_no_panic: "skip_extension buf ext off \<noteq> None"
  by (auto simp: skip_extension_def Let_def)

lemma strip_padding_no_panic: "off \<le> length buf \<Longrightarrow> strip_padding buf pad off \<noteq> None"
  by (auto simp: strip_padding_def Let_def)

lemma parse_csrc_ok:
  "parse_csrc buf off cc = ok (cs, off') \<Longrightarrow>
     length cs = cc \<and> off' = off + 4 * cc \<and> (off \<le> length buf \<longrightarrow> off' \<le> length buf)"
  by (auto simp: parse_csrc_def go_simps read_seq_length split: if_splits)

lemma skip_extension_ok:
  "skip_extension buf ext off = ok off' \<Longrightarrow> off \<le> off' \<and> (off \<le> length buf \<longrightarrow> off' \<le> length buf)"
  by (auto simp: skip_extension_def Let_def go_simps split: if_splits)

lemma strip_padding_ok:
  assumes "strip_padding buf pad off = ok r" and "off \<le> length buf"
  shows "\<exists>tail. drop off buf = r @ tail \<and>
     length tail = (if pad then unat (last buf) else 0) \<and> (pad \<longrightarrow> tail \<noteq> [])"
proof (cases pad)
  case False
  with assms show ?thesis by (auto simp: strip_padding_def)
next
  case True
  have ne: "buf \<noteq> []"
    using assms True by (auto simp: strip_padding_def)
  from True assms obtain n where n: "n = unat (buf ! (length buf - 1))" "0 < n" "n \<le> length buf - off"
    and r: "r = take (length buf - off - n) (drop off buf)"
    by (auto simp: strip_padding_def Let_def split: if_splits)
  have "drop off buf = r @ drop (length buf - off - n) (drop off buf)"
    unfolding r by (rule append_take_drop_id [symmetric])
  moreover have "length (drop (length buf - off - n) (drop off buf)) = n"
    using n by simp
  ultimately show ?thesis
    using True n ne by (metis last_conv_nth list.size(3) nat_less_le)
qed

text \<open>
  \<open>ParsePacket\<close> is total: whatever bytes arrive, none of its index or slice expressions is out
  of range, so it returns a packet or one of its sentinel errors and never panics.
\<close>

theorem ParsePacket_no_panic: "ParsePacket buf \<noteq> panic"
proof (cases "length buf < HeaderSize")
  case True
  then show ?thesis by (simp add: ParsePacket_def)
next
  case False
  then have len: "HeaderSize \<le> length buf" by simp
  then have "buf \<noteq> []" by (auto simp: caps)
  have rest: "go_bind (parse_csrc buf HeaderSize cc) (\<lambda>(cs, off).
          go_bind (skip_extension buf e off) (\<lambda>off'.
          go_bind (strip_padding buf p off') (\<lambda>region. ok (f cs region)))) \<noteq> None"
    for cc e p and f :: "u32 list \<Rightarrow> bytes \<Rightarrow> rtp_packet"
    using len parse_csrc_no_panic skip_extension_no_panic strip_padding_no_panic
    by (auto simp: go_bind_None_iff iff del: not_None_eq dest!: parse_csrc_ok skip_extension_ok)
  obtain h where h: "parse_fixed 2 (buf ! 0) buf = Some h"
    using parse_fixed_total [OF len] by blast
  show ?thesis
    using False \<open>buf \<noteq> []\<close> h
      rest [of "unat (buf ! 0 AND 15)" "Extension h" "Padding h"
        "\<lambda>cs region. \<lparr>Header = h\<lparr>CSRC := cs\<rparr>, Payload = region\<rparr>"]
    by (auto simp: ParsePacket_def Let_def)
qed

section \<open>What an accepted packet is\<close>

lemma word_and_less_mask: "unat (x AND 0x7f :: byte) < 128" "unat (x AND 0x0f :: byte) \<le> 15"
proof -
  have "x AND 0x7f \<le> 0x7f" and "x AND 0x0f \<le> 0x0f" by (rule word_and_le1)+
  then show "unat (x AND 0x7f) < 128" and "unat (x AND 0x0f) \<le> 15"
    by (simp_all add: word_le_nat_alt)
qed

lemma ParsePacket_ok_cases:
  assumes "ParsePacket buf = ok p"
  obtains b0 h cs off off' where
    "HeaderSize \<le> length buf" "b0 = buf ! 0" "drop_bit 6 b0 = 2"
    "parse_fixed 2 b0 buf = Some h"
    "parse_csrc buf HeaderSize (unat (b0 AND 0x0f)) = ok (cs, off)"
    "skip_extension buf (Extension h) off = ok off'"
    "strip_padding buf (Padding h) off' = ok (Payload p)"
    "Header p = h\<lparr>CSRC := cs\<rparr>"
  using assms
  by (auto simp: ParsePacket_def Let_def go_simps not_less split: if_splits)

text \<open>
  The packet format of RFC 3550, section 5.1, written down as bytes: the two flag octets, the fields of the fixed header, the contributing
  sources, with the X bit a header extension (its 16-bit profile, the number of its 32-bit words, the words), the payload and, with the P bit,
  the padding.
\<close>

definition octet0 :: "rtp_header \<Rightarrow> byte" where
  "octet0 h = 0x80 OR (if Padding h then 0x20 else 0) OR (if Extension h then 0x10 else 0) OR word_of_nat (length (CSRC h))"

definition octet1 :: "rtp_header \<Rightarrow> byte" where
  "octet1 h = (if Marker h then 0x80 else 0) OR PayloadType h"

definition header_wire :: "rtp_header \<Rightarrow> bytes" where
  "header_wire h = [octet0 h, octet1 h] @ put16 (SequenceNumber h) @ put32 (Timestamp h) @ put32 (SSRC h) @ concat (map put32 (CSRC h))"

definition extension_wire :: "rtp_header \<Rightarrow> u16 \<Rightarrow> bytes \<Rightarrow> bytes" where
  "extension_wire h profile ws = (if Extension h then put16 profile @ put16 (word_of_nat (length ws div 4)) @ ws else [])"

definition rtp_wire :: "rtp_packet \<Rightarrow> u16 \<Rightarrow> bytes \<Rightarrow> bytes \<Rightarrow> bytes" where
  "rtp_wire p profile ws pad = header_wire (Header p) @ extension_wire (Header p) profile ws @ Payload p @ pad"

definition rtp_wire_ok :: "rtp_packet \<Rightarrow> bytes \<Rightarrow> bytes \<Rightarrow> bool" where
  "rtp_wire_ok p ws pad \<longleftrightarrow> Version (Header p) = 2 \<and> unat (PayloadType (Header p)) < 128 \<and> length (CSRC (Header p)) \<le> MaxCSRC
     \<and> 4 dvd length ws \<and> length ws div 4 < 2 ^ 16
     \<and> (if Padding (Header p) then pad \<noteq> [] \<and> unat (last pad) = length pad else pad = [])"

lemma low_bits:
  fixes w :: byte
  assumes "w AND m = w"
  shows "m AND k = 0 \<Longrightarrow> w AND k = 0" and "drop_bit i m = 0 \<Longrightarrow> drop_bit i w = 0"
proof -
  show "w AND k = 0" if "m AND k = 0" using that by (subst assms [symmetric]) (simp add: and.assoc)
  show "drop_bit i w = 0" if "drop_bit i m = 0" using that by (subst assms [symmetric]) (simp add: drop_bit_and)
qed

lemma flag_octet:
  assumes "n \<le> 15" "b = (0x80 OR (if p then 0x20 else 0) OR (if x then 0x10 else 0) OR word_of_nat n :: byte)"
  shows "drop_bit 6 b = 2" "b AND 0x20 \<noteq> 0 \<longleftrightarrow> p" "b AND 0x10 \<noteq> 0 \<longleftrightarrow> x" "unat (b AND 0x0f) = n"
proof -
  define w :: byte where "w = word_of_nat n"
  have w: "unat w = n" unfolding w_def using assms(1) by (intro unat_word_of_nat_small) simp
  have "take_bit 4 w = w" unfolding w_def using assms(1) by (simp add: take_bit_of_nat take_bit_nat_eq_self)
  then have m: "w AND 0x0f = w" by (simp add: take_bit_eq_mask mask_eq_exp_minus_1)
  note low = low_bits(1) [OF m, of "0x20"] low_bits(1) [OF m, of "0x10"] low_bits(2) [OF m, of 6]
  show "drop_bit 6 b = 2" "b AND 0x20 \<noteq> 0 \<longleftrightarrow> p" "b AND 0x10 \<noteq> 0 \<longleftrightarrow> x" "unat (b AND 0x0f) = n"
    unfolding assms(2) w_def [symmetric] using low m w by (simp_all add: bit.conj_disj_distrib2 drop_bit_or)
qed

lemma octets_of_byte:
  fixes b :: byte
  shows "drop_bit 6 b = 2 \<Longrightarrow> 0x80 OR (if b AND 0x20 \<noteq> 0 then 0x20 else 0) OR (if b AND 0x10 \<noteq> 0 then 0x10 else 0) OR (b AND 0x0f) = b"
    and "(if b AND 0x80 \<noteq> 0 then 0x80 else 0) OR (b AND 0x7f) = b"
proof -
  have one: "(if b AND 2 ^ k \<noteq> 0 then 2 ^ k else 0) = b AND 2 ^ k" for k
    unfolding and_exp_eq_0_iff_not_bit by (rule bit_word_eqI) (auto simp: bit_simps)
  have f: "(if b AND 0x80 \<noteq> 0 then 0x80 else 0) = b AND 0x80" "(if b AND 0x20 \<noteq> 0 then 0x20 else 0) = b AND 0x20"
      "(if b AND 0x10 \<noteq> 0 then 0x10 else 0) = b AND 0x10"
    using one [of 7] one [of 5] one [of 4] by (simp_all split: if_splits)
  have all: "b AND 0xff = b" using take_bit_length_eq [of b] by (simp add: take_bit_eq_mask mask_eq_exp_minus_1)
  show "(if b AND 0x80 \<noteq> 0 then 0x80 else 0) OR (b AND 0x7f) = b"
    unfolding f by (simp add: all flip: bit.conj_disj_distrib)
  show "0x80 OR (if b AND 0x20 \<noteq> 0 then 0x20 else 0) OR (if b AND 0x10 \<noteq> 0 then 0x10 else 0) OR (b AND 0x0f) = b" if "drop_bit 6 b = 2"
  proof -
    have "0x80 = push_bit 6 (take_bit 2 (drop_bit 6 b))" using that by simp
    also have "\<dots> = b AND 0xc0" unfolding slice_eq_mask by (simp add: mask_eq_exp_minus_1)
    finally have "0x80 = b AND 0xc0" .
    then show ?thesis unfolding f by (rule ssubst) (simp add: all flip: bit.conj_disj_distrib)
  qed
qed

lemma small_payload_type:
  assumes "unat (pt :: byte) < 128"
  shows "((if m then 0x80 else 0) OR pt) AND 0x7f = pt" "((if m then 0x80 else 0) OR pt) AND 0x80 \<noteq> 0 \<longleftrightarrow> m"
proof -
  have "take_bit 7 pt = word_of_nat (take_bit 7 (unat pt))" by (simp add: take_bit_of_nat [symmetric])
  also have "\<dots> = pt" using assms by (simp add: take_bit_nat_eq_self)
  finally have p: "pt AND 0x7f = pt" by (simp add: take_bit_eq_mask mask_eq_exp_minus_1)
  show "((if m then 0x80 else 0) OR pt) AND 0x7f = pt" "((if m then 0x80 else 0) OR pt) AND 0x80 \<noteq> 0 \<longleftrightarrow> m"
    using p low_bits(1) [OF p, of "0x80"] by (simp_all add: bit.conj_disj_distrib2)
qed

lemma put_be: "put16 (be16 a b) = [a, b]" "put32 (be32 a b c d) = [a, b, c, d]"
  unfolding put16_def put32_def list.inject by (intro conjI TrueI refl bit_word_eqI; auto simp: be16_def be32_def bit_simps dest: bit_imp_le_length)+

lemma read_seq_put32: "read_seq u32be 4 buf off n = Some vs \<Longrightarrow> concat (map put32 vs) = take (4 * n) (drop off buf)"
proof (induction n arbitrary: off vs)
  case (Suc n)
  then obtain v ws where v: "u32be buf off = Some v" "read_seq u32be 4 buf (off + 4) n = Some ws" "vs = v # ws" by (auto simp: go_simps)
  then have l: "off + 4 \<le> length buf" by (metis not_less option.distinct(1) u32be_None_iff)
  then have "take 4 (drop off buf) = [buf ! off, buf ! (off + 1), buf ! (off + 2), buf ! (off + 3)]"
    by (intro nth_equalityI) (auto simp: numeral_eq_Suc less_Suc_eq)
  then have "put32 v = take 4 (drop off buf)" using v(1) l by (auto simp: put_be)
  moreover have "take (4 * Suc n) (drop off buf) = take 4 (drop off buf) @ take (4 * n) (drop (off + 4) buf)"
    using take_add [of 4 "4 * n" "drop off buf"] by (simp add: add.commute)
  ultimately show ?case using Suc.IH [OF v(2)] v(3) by simp
qed simp

text \<open>A packet in this format is accepted, and read as what it says.\<close>

lemma ParsePacket_rtp_wire:
  assumes "rtp_wire_ok p ws pad"
  shows "ParsePacket (rtp_wire p profile ws pad) = ok p"
proof -
  define h where "h = Header p"
  define buf where "buf = rtp_wire p profile ws pad"
  define fixed where "fixed = [octet0 h, octet1 h] @ put16 (SequenceNumber h) @ put32 (Timestamp h) @ put32 (SSRC h)"
  define off where "off = 12 + 4 * length (CSRC h)"
  define off' where "off' = off + length (extension_wire h profile ws)"
  have v: "Version h = 2" "unat (PayloadType h) < 128" "length (CSRC h) \<le> 15" "4 * (length ws div 4) = length ws" "length ws div 4 < 2 ^ 16"
    using assms by (simp_all add: rtp_wire_ok_def h_def caps)
  note b0 = flag_octet [OF v(3) octet0_def] and b1 = small_payload_type [OF v(2), of "Marker h", folded octet1_def]
  have lf: "length fixed = 12" "length (header_wire h) = off" by (simp_all add: fixed_def header_wire_def off_def u32_codec.length_concat_enc)
  have w: "buf = fixed @ concat (map put32 (CSRC h)) @ extension_wire h profile ws @ Payload p @ pad"
      "buf = header_wire h @ extension_wire h profile ws @ Payload p @ pad"
    by (simp_all add: buf_def rtp_wire_def fixed_def header_wire_def h_def)
  have l: "length buf = off' + length (Payload p) + length pad" "off \<le> off'" using lf by (simp_all add: w(2) off'_def)
  have "parse_csrc buf 12 (length (CSRC h)) = ok (CSRC h, off)"
    using u32_codec.read_seq_enc [of fixed "CSRC h" "extension_wire h profile ws @ Payload p @ pad"] l
    by (cases "CSRC h = []") (auto simp: parse_csrc_def lf w(1) [symmetric] off_def)
  moreover have "skip_extension buf (Extension h) off = ok off'"
  proof (cases "Extension h")
    case True
    have "u16be buf (off + 2) = Some (word_of_nat (length ws div 4))"
      using u16_codec.dec_enc [of "header_wire h @ put16 profile" "word_of_nat (length ws div 4)" "ws @ Payload p @ pad"] True
      by (simp add: w(2) extension_wire_def lf)
    moreover have "unat (word_of_nat (length ws div 4) :: u16) = length ws div 4" using v(5) by (intro unat_word_of_nat_small) simp
    ultimately show ?thesis using True v(4) l by (simp add: skip_extension_def off'_def extension_wire_def mult.commute)
  qed (simp add: skip_extension_def off'_def extension_wire_def)
  moreover have "strip_padding buf (Padding h) off' = ok (Payload p)"
  proof -
    have d: "drop off' buf = Payload p @ pad" using lf by (simp add: w(2) off'_def)
    show ?thesis
    proof (cases "Padding h")
      case True
      then have q: "pad \<noteq> []" "unat (last pad) = length pad" using assms by (simp_all add: rtp_wire_ok_def h_def)
      then have ne: "buf \<noteq> []" "last buf = last pad" by (simp_all add: w(2))
      then have "buf ! (length buf - 1) = last pad" by (metis last_conv_nth)
      then show ?thesis using True q l d ne(1) by (simp add: strip_padding_def)
    next
      case False
      then have "pad = []" using assms by (simp add: rtp_wire_ok_def h_def)
      then show ?thesis using False l d by (simp add: strip_padding_def)
    qed
  qed
  moreover have "parse_fixed 2 (octet0 h) buf = Some (h\<lparr>CSRC := []\<rparr>)"
    using b0 b1 v(1) l unfolding parse_fixed_def w(1) by (cases h) (simp add: fixed_def put16_def put32_def off_def)
  moreover have "buf \<noteq> []" "buf ! 0 = octet0 h" "12 \<le> length buf" using lf by (simp_all add: w(1) fixed_def)
  ultimately show ?thesis unfolding buf_def [symmetric] using b0 by (simp add: ParsePacket_def caps h_def)
qed

text \<open>And only packets in this format are.\<close>

lemma fixed_header_read:
  assumes "12 \<le> length buf" "drop_bit 6 (buf ! 0) = 2" "parse_fixed 2 (buf ! 0) buf = Some h" "unat (buf ! 0 AND 0x0f) = length cs"
  shows "header_wire (h\<lparr>CSRC := cs\<rparr>) = take 12 buf @ concat (map put32 cs)" "Version h = 2" "unat (PayloadType h) < 128"
proof -
  obtain b0 b1 b2 b3 b4 b5 b6 b7 b8 b9 b10 b11 r where buf: "buf = b0 # b1 # b2 # b3 # b4 # b5 # b6 # b7 # b8 # b9 # b10 # b11 # r"
    using assms(1) by (auto simp: numeral_eq_Suc Suc_le_length_iff)
  have h: "h = \<lparr>Version = 2, Padding = (b0 AND 0x20 \<noteq> 0), Extension = (b0 AND 0x10 \<noteq> 0), Marker = (b1 AND 0x80 \<noteq> 0), PayloadType = b1 AND 0x7f,
      SequenceNumber = be16 b2 b3, Timestamp = be32 b4 b5 b6 b7, SSRC = be32 b8 b9 b10 b11, CSRC = []\<rparr>"
    using assms(3) by (simp add: parse_fixed_def buf)
  have "word_of_nat (length cs) = b0 AND 0x0f" unfolding assms(4) [symmetric] by (simp add: buf)
  then show "header_wire (h\<lparr>CSRC := cs\<rparr>) = take 12 buf @ concat (map put32 cs)"
    using octets_of_byte(1) [of b0] octets_of_byte(2) [of b1] assms(2) by (simp add: header_wire_def octet0_def octet1_def h put_be buf split: if_splits)
  show "Version h = 2" "unat (PayloadType h) < 128" using word_and_less_mask(1) [of b1] by (simp_all add: h)
qed

lemma extension_read:
  assumes "skip_extension buf (Extension h) off = ok off'" "off \<le> length buf"
  obtains profile ws where "take (off' - off) (drop off buf) = extension_wire h profile ws" "4 dvd length ws" "length ws div 4 < 2 ^ 16" "off \<le> off'" "off' \<le> length buf"
proof (cases "Extension h")
  case True
  define n where "n = unat (be16 (buf ! (off + 2)) (buf ! (off + 2 + 1)))"
  have n: "off' = off + (4 + n * 4)" "off + (4 + n * 4) \<le> length buf" "off + 4 \<le> length buf" using assms(1) True by (auto simp: skip_extension_def Let_def go_simps n_def split: if_splits)
  define ws where "ws = take (n * 4) (drop (off + 4) buf)"
  have lw: "length ws = n * 4" using n by (simp add: ws_def)
  have "take 4 (drop off buf) = [buf ! off, buf ! (off + 1), buf ! (off + 2), buf ! (off + 2 + 1)]"
    using n(3) by (intro nth_equalityI) (auto simp: numeral_eq_Suc less_Suc_eq)
  also have "\<dots> = put16 (be16 (buf ! off) (buf ! (off + 1))) @ put16 (word_of_nat n)" by (simp add: n_def put_be)
  finally have "take (4 + n * 4) (drop off buf) = put16 (be16 (buf ! off) (buf ! (off + 1))) @ put16 (word_of_nat n) @ ws"
    by (simp add: take_add ws_def add.commute)
  then show ?thesis using that [of "be16 (buf ! off) (buf ! (off + 1))" ws] True n lw unat_u16_less by (simp add: extension_wire_def n_def)
next
  case False
  then show ?thesis using that [of 0 "[]"] assms by (simp add: extension_wire_def skip_extension_def)
qed

lemma ParsePacket_ok_wire:
  assumes "ParsePacket buf = ok p"
  shows "\<exists>profile ws pad. buf = rtp_wire p profile ws pad \<and> rtp_wire_ok p ws pad"
proof -
  from assms obtain b0 h cs off off' where
    len: "HeaderSize \<le> length buf" and b0: "b0 = buf ! 0" "drop_bit 6 b0 = 2" and
    fixed: "parse_fixed 2 b0 buf = Some h" and
    csrc: "parse_csrc buf HeaderSize (unat (b0 AND 0x0f)) = ok (cs, off)" and
    ext: "skip_extension buf (Extension h) off = ok off'" and
    pad: "strip_padding buf (Padding h) off' = ok (Payload p)" and
    hdr: "Header p = h\<lparr>CSRC := cs\<rparr>"
    by (rule ParsePacket_ok_cases)
  have cs: "unat (b0 AND 0x0f) = length cs" "length cs \<le> MaxCSRC" and off: "off = 12 + 4 * length cs" "off \<le> length buf"
    using parse_csrc_ok [OF csrc] word_and_less_mask(2) [of b0] len by (auto simp: caps)
  have "concat (map put32 cs) = take (4 * length cs) (drop 12 buf)"
    using csrc read_seq_put32 [of buf 12 "length cs" cs] by (auto simp: parse_csrc_def caps go_simps cs(1) split: if_splits)
  then have hw: "header_wire (h\<lparr>CSRC := cs\<rparr>) = take off buf" and hv: "Version h = 2" "unat (PayloadType h) < 128"
    using fixed_header_read [of buf h cs] len b0 fixed cs(1) by (simp_all add: caps off take_add)
  obtain profile ws where x: "take (off' - off) (drop off buf) = extension_wire h profile ws" "4 dvd length ws" "length ws div 4 < 2 ^ 16" "off \<le> off'" "off' \<le> length buf"
    using extension_read [OF ext off(2)] .
  obtain tail where t: "drop off' buf = Payload p @ tail" "length tail = (if Padding h then unat (last buf) else 0)" "Padding h \<Longrightarrow> tail \<noteq> []"
    using strip_padding_ok [OF pad x(5)] by auto
  have "buf = take off buf @ take (off' - off) (drop off buf) @ drop off' buf" using x(4) by (metis append.assoc append_take_drop_id le_add_diff_inverse take_add)
  then have buf: "buf = rtp_wire p profile ws tail" using hw x(1) t(1) by (simp add: rtp_wire_def hdr extension_wire_def)
  have "Padding h \<Longrightarrow> last buf = last tail" using t(3) unfolding buf by (simp add: rtp_wire_def)
  then show ?thesis using buf x(2,3) t cs hv by (intro exI [of _ profile] exI [of _ ws] exI [of _ tail]) (auto simp: rtp_wire_ok_def hdr)
qed

text \<open>
  C11. \<open>ParsePacket\<close> accepts exactly the packets of RFC 3550 and reads them right: it returns the packet \<open>p\<close> if and only if the buffer is \<open>p\<close> in the
  format above, with version 2, a 7-bit payload type, at most \<open>MaxCSRC\<close> contributing sources, the flag bits, sequence number, timestamp and sources of its
  header, with the X bit an extension whose length field counts its words, and with the P bit a non-empty padding that ends in its own length.
\<close>

theorem ParsePacket_exact:
  "ParsePacket buf = ok p \<longleftrightarrow> (\<exists>profile ws pad. buf = rtp_wire p profile ws pad \<and> rtp_wire_ok p ws pad)"
  using ParsePacket_rtp_wire ParsePacket_ok_wire by blast

theorem ParsePacket_exact_witness:
  "ParsePacket [0xB0, 0xE0, 0, 7, 0, 0, 0, 9, 0, 0, 0, 5, 0xBE, 0xDE, 0, 1, 1, 2, 3, 4, 0xAA, 0xBB, 0, 2]
     = ok \<lparr>Header = \<lparr>Version = 2, Padding = True, Extension = True, Marker = True,
         PayloadType = 0x60, SequenceNumber = 7, Timestamp = 9, SSRC = 5, CSRC = []\<rparr>, Payload = [0xAA, 0xBB]\<rparr>"
  unfolding ParsePacket_exact
  by (rule exI [of _ "0xBEDE"], rule exI [of _ "[1, 2, 3, 4]"], rule exI [of _ "[0, 2]"])
    (simp add: rtp_wire_def rtp_wire_ok_def header_wire_def extension_wire_def octet0_def octet1_def put16_def put32_def caps dvd_eq_mod_eq_0)

section \<open>Parsing inverts marshalling\<close>

text \<open>The bytes of a marshalled packet, and that they parse to it.\<close>

definition packet_wire :: "rtp_header \<Rightarrow> bytes \<Rightarrow> bytes" where
  "packet_wire h payload = [0x80 OR word_of_nat (length (CSRC h)),
       (if Marker h then (PayloadType h AND 0x7f) OR 0x80 else PayloadType h AND 0x7f)]
     @ put16 (SequenceNumber h) @ put32 (Timestamp h) @ put32 (SSRC h) @ concat (map put32 (CSRC h)) @ payload"

lemma AppendPacket_wire:
  "\<not> Extension h \<Longrightarrow> length (CSRC h) \<le> MaxCSRC \<Longrightarrow> AppendPacket dst h payload = (dst @ packet_wire h payload, None)"
  by (simp add: AppendPacket_def AppendTo_def Let_def packet_wire_def)

lemma ParsePacket_wire:
  assumes "\<not> Extension h" and "length (CSRC h) \<le> MaxCSRC"
  shows "ParsePacket (packet_wire h payload)
    = ok \<lparr>Header = h\<lparr>Version := 2, Padding := False, PayloadType := PayloadType h AND 0x7f\<rparr>, Payload = payload\<rparr>"
proof -
  define p where "p = \<lparr>Header = h\<lparr>Version := 2, Padding := False, PayloadType := PayloadType h AND 0x7f\<rparr>, Payload = payload\<rparr>"
  have "rtp_wire_ok p [] []" using assms(2) word_and_less_mask(1) by (simp add: rtp_wire_ok_def p_def)
  moreover have "rtp_wire p 0 [] [] = packet_wire h payload"
    using assms(1) by (simp add: rtp_wire_def header_wire_def extension_wire_def octet0_def octet1_def packet_wire_def p_def or.commute)
  ultimately show ?thesis using ParsePacket_rtp_wire [of p "[]" "[]" 0] by (simp add: p_def)
qed

text \<open>
  C12. Parsing inverts marshalling: a header without the extension bit and with at most \<open>MaxCSRC\<close>
  contributing sources is always marshalled, the destination's previous bytes are kept in front, and
  \<open>ParsePacket\<close> of the bytes \<open>AppendPacket\<close> added returns the same header (version forced to 2, no
  padding, payload type masked to 7 bits) and the same payload.
\<close>

theorem ParsePacket_AppendPacket:
  assumes "\<not> Extension h" and "length (CSRC h) \<le> MaxCSRC"
  shows "\<exists>w. AppendPacket dst h payload = (dst @ w, None)
    \<and> ParsePacket w = ok \<lparr>Header = h\<lparr>Version := 2, Padding := False,
                           PayloadType := PayloadType h AND 0x7f\<rparr>, Payload = payload\<rparr>"
  using AppendPacket_wire [OF assms] ParsePacket_wire [OF assms] by blast

theorem ParsePacket_AppendPacket_witness:
  "\<exists>w. AppendPacket [1] \<lparr>Version = 0, Padding = True, Extension = False, Marker = True,
         PayloadType = 97, SequenceNumber = 65535, Timestamp = 4, SSRC = 3, CSRC = [11, 12]\<rparr> [8, 9]
       = ([1] @ w, None)
     \<and> ParsePacket w = ok \<lparr>Header = \<lparr>Version = 2, Padding = False, Extension = False, Marker = True,
         PayloadType = 97, SequenceNumber = 65535, Timestamp = 4, SSRC = 3, CSRC = [11, 12]\<rparr>,
         Payload = [8, 9]\<rparr>"
  using ParsePacket_AppendPacket [of "\<lparr>Version = 0, Padding = True, Extension = False,
      Marker = True, PayloadType = 97, SequenceNumber = 65535, Timestamp = 4, SSRC = 3,
      CSRC = [11, 12]\<rparr>" "[1]" "[8, 9]"]
  by (simp add: caps)

end
