(* ===== verification/RTP_Stream.thy ===== *)
theory RTP_Stream
  imports RTP_Packet
begin

text \<open>
  The per-track reception state of \<open>src/rtsp/rtp/stream.go\<close>: sequence continuity across the 16-bit
  wrap, the 64-bit unwrap of the RTP timestamp, SSRC changes and the cumulative counters. The
  abstract specification is a sender whose packets carry unbounded sequence numbers and timestamps
  of which the wire shows only the low 16 and 32 bits; the lemmas show that the stream recovers them.
\<close>

section \<open>State and operations\<close>

record stream =
  st_init :: bool
  st_ssrc :: u32
  st_lastSeq :: u16
  st_cycles :: u16
  st_lastTS :: u32
  st_ts64 :: u64
  st_received :: u64
  st_seqGaps :: u64
  st_duplicates :: u64
  st_ssrcResets :: u64

definition stream0 :: stream where
  "stream0 = \<lparr>st_init = False, st_ssrc = 0, st_lastSeq = 0, st_cycles = 0, st_lastTS = 0, st_ts64 = 0,
     st_received = 0, st_seqGaps = 0, st_duplicates = 0, st_ssrcResets = 0\<rparr>"

record update =
  Gap :: int
  UTimestamp :: u64
  SSRCReset :: bool
  Duplicate :: bool

definition extendTS :: "stream \<Rightarrow> u32 \<Rightarrow> u64" where
  "extendTS s ts =
     (let d = ts - st_lastTS s in
      if d < 0x80000000 then st_ts64 s + ucast d
      else let back = ucast (- d) :: u64 in
        if back > st_ts64 s then 0 else st_ts64 s - back)"

definition Observe :: "stream \<Rightarrow> rtp_header \<Rightarrow> update \<times> stream" where
  "Observe s0 h =
     (let s = s0\<lparr>st_received := st_received s0 + 1\<rparr> in
      if \<not> st_init s then
        let s' = s\<lparr>st_init := True, st_ssrc := SSRC h, st_lastSeq := SequenceNumber h,
                   st_lastTS := Timestamp h, st_ts64 := ucast (Timestamp h)\<rparr>
        in (\<lparr>Gap = 0, UTimestamp = st_ts64 s', SSRCReset = False, Duplicate = False\<rparr>, s')
      else if SSRC h \<noteq> st_ssrc s then
        let s' = s\<lparr>st_ssrc := SSRC h, st_lastSeq := SequenceNumber h, st_cycles := 0,
                   st_lastTS := Timestamp h, st_ts64 := ucast (Timestamp h),
                   st_ssrcResets := st_ssrcResets s + 1\<rparr>
        in (\<lparr>Gap = 0, UTimestamp = st_ts64 s', SSRCReset = True, Duplicate = False\<rparr>, s')
      else
        let d = SequenceNumber h - st_lastSeq s;
            (gap, dup, s1) =
              (if d = 0 then (0, True, s)
               else if d < 0x8000 then
                 (int (unat d) - 1, False,
                  s\<lparr>st_cycles := (if SequenceNumber h < st_lastSeq s then st_cycles s + 1 else st_cycles s),
                    st_lastSeq := SequenceNumber h\<rparr>)
               else (0, True, s));
            s2 = s1\<lparr>st_seqGaps := st_seqGaps s1 + word_of_int gap\<rparr>;
            ts = extendTS s2 (Timestamp h);
            s3 = (if dup then s2\<lparr>st_duplicates := st_duplicates s2 + 1\<rparr>
                  else s2\<lparr>st_ts64 := ts, st_lastTS := Timestamp h\<rparr>)
        in (\<lparr>Gap = gap, UTimestamp = ts, SSRCReset = False, Duplicate = dup\<rparr>, s3))"

record stream_stats =
  Received :: u64
  SeqGaps :: u64
  Duplicates :: u64
  SSRCResets :: u64
  ExtendedHighestSeq :: u32

definition Stream_Stats :: "stream \<Rightarrow> stream_stats" where
  "Stream_Stats s = \<lparr>Received = st_received s, SeqGaps = st_seqGaps s, Duplicates = st_duplicates s,
     SSRCResets = st_ssrcResets s,
     ExtendedHighestSeq = push_bit 16 (ucast (st_cycles s)) OR ucast (st_lastSeq s)\<rparr>"

text \<open>The extended highest sequence number on its own.\<close>

definition ext_seq :: "stream \<Rightarrow> u32" where
  "ext_seq s = ExtendedHighestSeq (Stream_Stats s)"

section \<open>The abstract sender\<close>

text \<open>
  A sender numbers its packets and their timestamps without wrapping: packet \<open>(e, t)\<close> carries the
  low 16 bits of \<open>e\<close> and the low 32 bits of \<open>t\<close>. \<open>forward\<close> says that a later packet is ahead of an
  earlier one by less than half the number space in both, the range in which the wire form is
  unambiguous.
\<close>

definition wire :: "u32 \<Rightarrow> nat \<times> nat \<Rightarrow> rtp_header" where
  "wire src p = \<lparr>Version = 2, Padding = False, Extension = False, Marker = False, PayloadType = 0,
     SequenceNumber = word_of_nat (fst p), Timestamp = word_of_nat (snd p), SSRC = src, CSRC = []\<rparr>"

definition forward :: "nat \<times> nat \<Rightarrow> nat \<times> nat \<Rightarrow> bool" where
  "forward p q \<longleftrightarrow> fst p < fst q \<and> fst q - fst p < 2 ^ 15 \<and> snd p \<le> snd q \<and> snd q - snd p < 2 ^ 31"

text \<open>The stream has seen the packet \<open>p\<close> last, with the number space unwrapped.\<close>

definition tracks :: "u32 \<Rightarrow> nat \<times> nat \<Rightarrow> stream \<Rightarrow> bool" where
  "tracks src p s \<longleftrightarrow> st_init s \<and> st_ssrc s = src
     \<and> st_lastSeq s = word_of_nat (fst p) \<and> st_cycles s = word_of_nat (fst p div 2 ^ 16)
     \<and> st_lastTS s = word_of_nat (snd p) \<and> st_ts64 s = word_of_nat (snd p)"

section \<open>Recovering the sender's numbers\<close>

lemma ext_seq_tracks:
  "push_bit 16 (ucast (word_of_nat (e div 2 ^ 16) :: u16)) OR ucast (word_of_nat e :: u16)
     = (word_of_nat e :: u32)"
  unfolding drop_bit_eq_div [symmetric]
  by (rule bit_word_eqI) (auto simp: bit_simps less_diff_conv2)

lemma cycle_count:
  fixes e e' :: nat
  assumes "e < e'" "e' - e < 32768"
  shows "e' div 65536 = (if e' mod 65536 < e mod 65536 then e div 65536 + 1 else e div 65536)"
proof -
  have "e' div 65536 = e div 65536 \<or> e' div 65536 = e div 65536 + 1"
    using assms by linarith
  moreover have "e = 65536 * (e div 65536) + e mod 65536" "e mod 65536 < 65536"
    "e' = 65536 * (e' div 65536) + e' mod 65536"
    by simp_all
  ultimately show ?thesis
    using assms by (cases "e' mod 65536 < e mod 65536"; simp only: if_True if_False) linarith+
qed

text \<open>The in-order branch of \<open>Observe\<close>.\<close>

lemma Observe_in_order:
  assumes "st_init s" "SSRC h = st_ssrc s"
    and "d = SequenceNumber h - st_lastSeq s" "d \<noteq> 0" "d < 0x8000"
  shows "Observe s h =
    (\<lparr>Gap = int (unat d) - 1, UTimestamp = extendTS s (Timestamp h), SSRCReset = False,
      Duplicate = False\<rparr>,
     s\<lparr>st_received := st_received s + 1,
       st_cycles := (if SequenceNumber h < st_lastSeq s then st_cycles s + 1 else st_cycles s),
       st_lastSeq := SequenceNumber h,
       st_seqGaps := st_seqGaps s + word_of_int (int (unat d) - 1),
       st_ts64 := extendTS s (Timestamp h), st_lastTS := Timestamp h\<rparr>)"
  using assms by (simp add: Observe_def Let_def extendTS_def)

lemma Observe_forward:
  assumes s: "tracks src p s" and f: "forward p q" and obs: "Observe s (wire src q) = (u, s')"
  shows "tracks src q s'" "Gap u = int (fst q - fst p) - 1" "UTimestamp u = word_of_nat (snd q)"
    "\<not> SSRCReset u" "\<not> Duplicate u" "st_received s' = st_received s + 1"
    "st_seqGaps s' = st_seqGaps s + word_of_nat (fst q - fst p - 1)"
    "st_duplicates s' = st_duplicates s" "st_ssrcResets s' = st_ssrcResets s"
proof -
  define d where "d = fst q - fst p"
  define dt where "dt = snd q - snd p"
  have d: "0 < d" "d < 2 ^ 15" and dt: "dt < 2 ^ 31" and le: "snd p \<le> snd q" "fst p < fst q"
    using f by (auto simp: forward_def d_def dt_def)
  have seq: "word_of_nat (fst q) - lastSeq = (word_of_nat d :: u16)"
    if "lastSeq = word_of_nat (fst p)" for lastSeq :: u16
    unfolding that d_def using le by (intro word_of_nat_diff) simp
  have ud: "unat (word_of_nat d :: u16) = d"
    using d by (simp add: unat_of_nat)
  have d16: "(word_of_nat d :: u16) \<noteq> 0" "(word_of_nat d :: u16) < 0x8000"
    using ud d by (auto simp: word_less_nat_alt)
  have ts: "word_of_nat (snd q) - word_of_nat (snd p) = (word_of_nat dt :: u32)"
    unfolding dt_def using le by (intro word_of_nat_diff)
  have udt: "unat (word_of_nat dt :: u32) = dt"
    using dt by (simp add: unat_of_nat)
  have dt32: "(word_of_nat dt :: u32) < 0x80000000"
    using udt dt by (simp add: word_less_nat_alt)
  have ext: "ucast (word_of_nat dt :: u32) = (word_of_nat dt :: u64)"
    by (simp only: ucast_as_nat udt)
  have ts': "word_of_nat (snd p) + word_of_nat dt = (word_of_nat (snd q) :: u64)"
    using le by (simp add: dt_def of_nat_diff)
  have lt: "(word_of_nat (fst q) :: u16) < word_of_nat (fst p) \<longleftrightarrow> fst q mod 2 ^ 16 < fst p mod 2 ^ 16"
    by (simp add: word_less_nat_alt unat_of_nat)
  have cyc: "(if (word_of_nat (fst q) :: u16) < word_of_nat (fst p)
      then word_of_nat (fst p div 2 ^ 16) + 1 else word_of_nat (fst p div 2 ^ 16))
      = (word_of_nat (fst q div 2 ^ 16) :: u16)"
    unfolding lt using cycle_count [of "fst p" "fst q"] d le by (simp add: d_def)
  have gap: "word_of_int (int d - 1) = (word_of_nat (d - 1) :: u64)"
    using d by simp
  have S: "st_init s" "st_ssrc s = src" "st_lastSeq s = word_of_nat (fst p)"
    "st_cycles s = word_of_nat (fst p div 2 ^ 16)" "st_lastTS s = word_of_nat (snd p)"
    "st_ts64 s = word_of_nat (snd p)"
    using s by (simp_all add: tracks_def)
  have x: "extendTS s (word_of_nat (snd q)) = word_of_nat (snd q)"
    unfolding extendTS_def S ts Let_def using dt32 ext ts' by simp
  have res: "(u, s') = (\<lparr>Gap = int d - 1, UTimestamp = word_of_nat (snd q), SSRCReset = False,
       Duplicate = False\<rparr>,
     s\<lparr>st_received := st_received s + 1, st_cycles := word_of_nat (fst q div 2 ^ 16),
       st_lastSeq := word_of_nat (fst q), st_seqGaps := st_seqGaps s + word_of_nat (d - 1),
       st_ts64 := word_of_nat (snd q), st_lastTS := word_of_nat (snd q)\<rparr>)"
    unfolding obs [symmetric] cyc [symmetric] gap [symmetric]
    by (subst Observe_in_order [where d = "word_of_nat d"])
      (simp_all add: wire_def S seq d16 ud x)
  show "tracks src q s'" "Gap u = int (fst q - fst p) - 1" "UTimestamp u = word_of_nat (snd q)"
    "\<not> SSRCReset u" "\<not> Duplicate u" "st_received s' = st_received s + 1"
    "st_seqGaps s' = st_seqGaps s + word_of_nat (fst q - fst p - 1)"
    "st_duplicates s' = st_duplicates s" "st_ssrcResets s' = st_ssrcResets s"
    using res S by (simp_all add: tracks_def d_def)
qed

text \<open>The first packet starts the stream at its own numbers.\<close>

lemma Observe_first:
  assumes "fst p < 2 ^ 16" "snd p < 2 ^ 32" "Observe stream0 (wire src p) = (u, s)"
  shows "tracks src p s" "UTimestamp u = word_of_nat (snd p)" "st_received s = 1"
    "st_seqGaps s = 0" "st_duplicates s = 0" "st_ssrcResets s = 0"
proof -
  have "unat (word_of_nat (snd p) :: u32) = snd p"
    using assms(2) by (simp add: unat_of_nat)
  then have "ucast (word_of_nat (snd p) :: u32) = (word_of_nat (snd p) :: u64)"
    by (simp only: ucast_as_nat)
  then show "tracks src p s" "UTimestamp u = word_of_nat (snd p)" "st_received s = 1"
    "st_seqGaps s = 0" "st_duplicates s = 0" "st_ssrcResets s = 0"
    using assms by (auto simp: Observe_def stream0_def wire_def tracks_def)
qed

lemma gap_sum:
  assumes "(a::nat) < b" "n \<le> c - b" "b \<le> c"
  shows "word_of_nat (b - a - 1) + word_of_nat (c - b - n) = (word_of_nat (c - a - Suc n) :: u64)"
proof -
  have "b - a - 1 + (c - b - n) = c - a - Suc n" using assms by linarith
  then show ?thesis by (metis of_nat_add)
qed

lemma run_Observe_forward:
  assumes "tracks src p s" "successively forward (p # ps)"
    and "run Observe s (map (wire src) ps) = (us, s')"
  shows "tracks src (last (p # ps)) s' \<and> map UTimestamp us = map (word_of_nat \<circ> snd) ps
    \<and> st_received s' = st_received s + word_of_nat (length ps)
    \<and> st_seqGaps s' = st_seqGaps s + word_of_nat (fst (last (p # ps)) - fst p - length ps)
    \<and> length ps \<le> fst (last (p # ps)) - fst p \<and> fst p \<le> fst (last (p # ps))
    \<and> st_duplicates s' = st_duplicates s \<and> st_ssrcResets s' = st_ssrcResets s"
  using assms
proof (induction ps arbitrary: p s us)
  case Nil
  then show ?case by simp
next
  case (Cons q qs)
  obtain u s1 where obs: "Observe s (wire src q) = (u, s1)" by force
  obtain us1 where run1: "run Observe s1 (map (wire src) qs) = (us1, s')" and us: "us = u # us1"
    using Cons.prems(3) obs by (auto simp: run.simps(2) split: prod.splits)
  have f: "forward p q" and su: "successively forward (q # qs)"
    using Cons.prems(2) by auto
  then have "fst p < fst q" by (simp add: forward_def)
  note fw = Observe_forward [OF Cons.prems(1) f obs]
  note IH = Cons.IH [OF fw(1) su run1]
  have "st_seqGaps s' = st_seqGaps s + word_of_nat (fst (last (q # qs)) - fst p - Suc (length qs))"
    using IH fw(7) gap_sum [OF \<open>fst p < fst q\<close>, of "length qs" "fst (last (q # qs))"]
    by (simp add: add.assoc)
  then show ?case using IH fw us \<open>fst p < fst q\<close> by auto
qed

text \<open>
  C13. The stream recovers the sender's unwrapped numbers. For a fresh stream fed the wire form of any
  sequence of packets in which each is ahead of the one before by less than half the sequence and
  timestamp spaces (so packets may be lost, and both numbers may wrap any number of times), every
  reported timestamp is the sender's own, and afterwards the extended highest sequence number is the
  sender's sequence number, the loss counter is exactly the number of packets that were never
  observed, nothing was called a duplicate and no reset was counted.
\<close>

theorem Observe_unwraps:
  assumes "fst p < 2 ^ 16" "snd p < 2 ^ 32" "successively forward (p # ps)"
    and "run Observe stream0 (map (wire src) (p # ps)) = (us, s)"
  shows "map UTimestamp us = map (word_of_nat \<circ> snd) (p # ps)
    \<and> ExtendedHighestSeq (Stream_Stats s) = word_of_nat (fst (last (p # ps)))
    \<and> SeqGaps (Stream_Stats s) = word_of_nat (fst (last (p # ps)) - fst p - length ps)
    \<and> Received (Stream_Stats s) = word_of_nat (length (p # ps))
    \<and> Duplicates (Stream_Stats s) = 0 \<and> SSRCResets (Stream_Stats s) = 0"
proof -
  obtain u s1 where obs: "Observe stream0 (wire src p) = (u, s1)" by force
  note first = Observe_first [OF assms(1,2) obs]
  obtain us1 where run1: "run Observe s1 (map (wire src) ps) = (us1, s)" and us: "us = u # us1"
    using assms(4) obs by (auto simp: run.simps(2) split: prod.splits)
  note rest = run_Observe_forward [OF first(1) assms(3) run1]
  then have "ExtendedHighestSeq (Stream_Stats s) = word_of_nat (fst (last (p # ps)))"
    using ext_seq_tracks [of "fst (last (p # ps))"] by (simp add: Stream_Stats_def tracks_def)
  then show ?thesis
    using rest first(2-6) by (simp add: us Stream_Stats_def)
qed

theorem Observe_unwraps_witness:
  "\<exists>us s. run Observe stream0 (map (wire 9) [(65534, 100), (65535, 2147483700), (65537, 4294967300)])
       = (us, s)
     \<and> map UTimestamp us = [100, 2147483700, 4294967300]
     \<and> ExtendedHighestSeq (Stream_Stats s) = 65537 \<and> SeqGaps (Stream_Stats s) = 1"
proof -
  obtain us s where r: "run Observe stream0
      (map (wire 9) [(65534, 100), (65535, 2147483700), (65537, 4294967300)]) = (us, s)"
    by force
  show ?thesis
    using r Observe_unwraps [of "(65534, 100)" "[(65535, 2147483700), (65537, 4294967300)]" 9 us s]
    by (auto simp: forward_def)
qed

section \<open>Late and duplicate packets\<close>

lemma word_of_nat_behind:
  fixes a b :: nat
  assumes "b \<le> a" "a - b \<le> 2 ^ (LENGTH('a::len) - 1)" "a \<noteq> b" "1 < LENGTH('a)"
  shows "unat (word_of_nat b - word_of_nat a :: 'a word) = 2 ^ LENGTH('a) - (a - b)"
    and "unat (- (word_of_nat b - word_of_nat a) :: 'a word) = a - b"
proof -
  have p: "(2::nat) ^ LENGTH('a) = 2 * 2 ^ (LENGTH('a) - 1)"
    using assms(4) by (metis One_nat_def Suc_pred less_imp_Suc_add power_Suc zero_less_Suc)
  have m: "a - b < 2 ^ LENGTH('a)" "0 < a - b"
    using assms p by (auto intro: le_less_trans)
  have neg: "- (word_of_nat b - word_of_nat a) = (word_of_nat (a - b) :: 'a word)"
    using word_of_nat_diff [OF assms(1)] by (metis minus_diff_eq)
  show "unat (- (word_of_nat b - word_of_nat a) :: 'a word) = a - b"
    unfolding neg using m by (simp add: unat_of_nat del: of_nat_diff)
  have "word_of_nat (2 ^ LENGTH('a) - (a - b)) = - (word_of_nat (a - b) :: 'a word)"
    using m word_of_nat_diff [of "a - b" "2 ^ LENGTH('a)", where 'a = 'a] by simp
  then have "word_of_nat b - word_of_nat a = (word_of_nat (2 ^ LENGTH('a) - (a - b)) :: 'a word)"
    using neg by (metis minus_minus)
  then show "unat (word_of_nat b - word_of_nat a :: 'a word) = 2 ^ LENGTH('a) - (a - b)"
    using m by (simp add: unat_of_nat del: of_nat_diff)
qed

lemma extendTS_behind:
  assumes "st_lastTS s = word_of_nat t" "st_ts64 s = word_of_nat t"
    and "t' \<le> t" "t - t' \<le> 2 ^ 31" "t < 2 ^ 64"
  shows "extendTS s (word_of_nat t') = word_of_nat t'"
proof (cases "t' = t")
  case True
  with assms show ?thesis by (simp add: extendTS_def)
next
  case False
  note b = word_of_nat_behind [where 'a = 32, of t' t]
  have "\<not> (word_of_nat t' - word_of_nat t :: u32) < 0x80000000"
    using b(1) assms(3,4) False by (simp add: word_less_nat_alt)
  moreover have "ucast (- (word_of_nat t' - word_of_nat t :: u32)) = (word_of_nat (t - t') :: u64)"
    using b(2) assms(3,4) False by (simp only: ucast_as_nat) simp
  moreover have "\<not> (word_of_nat (t - t') :: u64) > word_of_nat t"
    using assms by (simp add: word_less_nat_alt unat_of_nat del: of_nat_diff)
  moreover have "word_of_nat t - word_of_nat (t - t') = (word_of_nat t' :: u64)"
    using assms(3) by simp
  ultimately show ?thesis
    unfolding extendTS_def assms(1,2) Let_def by simp
qed

text \<open>
  A packet at or behind the newest one (by at most half the sequence space) is reported as a
  duplicate with no loss and with its own true timestamp, and it moves nothing but the two counters:
  the sequence view, the cycle count, the timestamp baseline and the loss counter stay as they were.
\<close>

theorem Observe_behind:
  assumes "tracks src p s" "fst q \<le> fst p" "fst p - fst q \<le> 2 ^ 15"
    and "snd q \<le> snd p" "snd p - snd q \<le> 2 ^ 31" "snd p < 2 ^ 64"
  shows "Observe s (wire src q) =
    (\<lparr>Gap = 0, UTimestamp = word_of_nat (snd q), SSRCReset = False, Duplicate = True\<rparr>,
     s\<lparr>st_received := st_received s + 1, st_duplicates := st_duplicates s + 1\<rparr>)"
proof -
  have S: "st_init s" "st_ssrc s = src" "st_lastSeq s = word_of_nat (fst p)"
    "st_lastTS s = word_of_nat (snd p)" "st_ts64 s = word_of_nat (snd p)"
    using assms(1) by (simp_all add: tracks_def)
  have x: "extendTS (s\<lparr>st_received := r\<rparr>) (word_of_nat (snd q)) = word_of_nat (snd q)" for r
    using S assms by (intro extendTS_behind) simp_all
  have d: "(word_of_nat (fst q) - word_of_nat (fst p) :: u16) = 0
      \<or> \<not> (word_of_nat (fst q) - word_of_nat (fst p) :: u16) < 0x8000"
    using word_of_nat_behind(1) [where 'a = 16, of "fst q" "fst p"] assms(2,3)
    by (cases "fst q = fst p") (auto simp: word_less_nat_alt)
  show ?thesis
    using d by (auto simp: Observe_def wire_def S x Let_def)
qed

theorem Observe_behind_witness:
  "Observe (snd (Observe stream0 (wire 9 (10, 500)))) (wire 9 (8, 400))
    = (\<lparr>Gap = 0, UTimestamp = 400, SSRCReset = False, Duplicate = True\<rparr>,
       (snd (Observe stream0 (wire 9 (10, 500))))\<lparr>st_received := 2, st_duplicates := 1\<rparr>)"
proof -
  have "tracks 9 (10, 500) (snd (Observe stream0 (wire 9 (10, 500))))"
    by (simp add: Observe_def stream0_def wire_def tracks_def)
  from Observe_behind [OF this, of "(8, 400)"] show ?thesis
    by (simp add: Observe_def stream0_def wire_def)
qed

text \<open>An SSRC change re-baselines the stream at the new source's numbers and keeps the counters.\<close>

lemma Observe_ssrc_change:
  assumes "st_init s" "SSRC h \<noteq> st_ssrc s"
  shows "Observe s h = (\<lparr>Gap = 0, UTimestamp = ucast (Timestamp h), SSRCReset = True,
      Duplicate = False\<rparr>,
    s\<lparr>st_received := st_received s + 1, st_ssrc := SSRC h, st_lastSeq := SequenceNumber h,
      st_cycles := 0, st_lastTS := Timestamp h, st_ts64 := ucast (Timestamp h),
      st_ssrcResets := st_ssrcResets s + 1\<rparr>)"
  using assms by (simp add: Observe_def Let_def)

end
