(* ===== verification/RTP_Reorder.thy ===== *)
theory RTP_Reorder
  imports Prelude "HOL-Library.Multiset"
begin

text \<open>
  The UDP resequencer of \<open>src/rtsp/rtp/reorder.go\<close>. The ring of \<open>MaxReorderWindow\<close> slots is a
  function from the 7-bit slot index, so that \<open>seq % MaxReorderWindow\<close> is the low seven bits of the
  sequence number. The abstract specification keeps an unbounded release point and a finite map from
  unbounded sequence numbers to payloads; the ring is shown to refine it, and the ordering, loss and
  conservation properties are proved about the specification and carried over.
\<close>

section \<open>State and operations\<close>

definition MaxReorderWindow :: int where [caps]: "MaxReorderWindow = 128"

record slot =
  present :: bool
  slot_seq :: u16
  slot_payload :: bytes

definition slot0 :: slot where
  "slot0 = \<lparr>present = False, slot_seq = 0, slot_payload = []\<rparr>"

record reorderer =
  initialized :: bool
  nextSeq :: u16
  slots :: "7 word \<Rightarrow> slot"
  buffered :: int
  late :: u64
  forced :: u64

definition reorderer0 :: reorderer where
  "reorderer0 = \<lparr>initialized = False, nextSeq = 0, slots = (\<lambda>_. slot0), buffered = 0,
     late = 0, forced = 0\<rparr>"

record released =
  Seq :: u16
  RPayload :: bytes

definition ahead :: "u16 \<Rightarrow> u16 \<Rightarrow> int" where
  "ahead a b = sint (a - b)"

text \<open>The index \<open>seq % MaxReorderWindow\<close>.\<close>

definition slot_idx :: "u16 \<Rightarrow> 7 word" where
  "slot_idx seq = ucast seq"

lemma slot_idx_mod: "unat (slot_idx seq) = unat seq mod 128"
  by (simp add: slot_idx_def unsigned_ucast_eq take_bit_eq_mod)

text \<open>Emit the packet of slot \<open>i\<close>, clear the slot and advance the release point.\<close>

definition emit :: "reorderer \<Rightarrow> released" where
  "emit r = (let sl = slots r (slot_idx (nextSeq r)) in
     \<lparr>Seq = slot_seq sl, RPayload = slot_payload sl\<rparr>)"

definition pop :: "reorderer \<Rightarrow> reorderer" where
  "pop r = r\<lparr>slots := (slots r)(slot_idx (nextSeq r) := slot0), buffered := buffered r - 1,
     nextSeq := nextSeq r + 1\<rparr>"

definition skip :: "reorderer \<Rightarrow> reorderer" where
  "skip r = r\<lparr>forced := forced r + 1, nextSeq := nextSeq r + 1\<rparr>"

lemma ahead_Suc: "0 < ahead a b \<Longrightarrow> ahead a (b + 1) = ahead a b - 1"
proof -
  assume pos: "0 < ahead a b"
  have "ahead a (b + 1) = signed_take_bit 15 (ahead a b - 1)"
    using sint_word_diff [of "a - b" 1] by (simp add: ahead_def diff_diff_eq [symmetric])
  moreover have "ahead a b < 2 ^ 15"
    using sint_less [of "a - b"] by (simp add: ahead_def)
  ultimately show ?thesis
    using pos by (simp add: signed_take_bit_int_eq_self)
qed

function force_release :: "u16 \<Rightarrow> reorderer \<Rightarrow> released list \<Rightarrow> released list \<times> reorderer" where
  "force_release seq r out =
     (if ahead seq (nextSeq r) \<ge> MaxReorderWindow then
        if present (slots r (slot_idx (nextSeq r)))
        then force_release seq (pop r) (out @ [emit r])
        else force_release seq (skip r) out
      else (out, r))"
  by pat_completeness auto
termination
  by (relation "measure (\<lambda>(seq, r, out). nat (ahead seq (nextSeq r)))")
    (auto simp: ahead_Suc pop_def skip_def caps)

function drain :: "reorderer \<Rightarrow> released list \<Rightarrow> released list \<times> reorderer" where
  "drain r out =
     (if present (slots r (slot_idx (nextSeq r))) then drain (pop r) (out @ [emit r])
      else (out, r))"
  by pat_completeness auto
termination
proof (relation "measure (\<lambda>(r, out). card {i. present (slots r i)})", simp)
  fix r :: reorderer and out :: "released list"
  assume p: "present (slots r (slot_idx (nextSeq r)))"
  then have "{i. present (slots (pop r) i)} \<subset> {i. present (slots r i)}"
    by (auto simp: pop_def slot0_def split: if_splits)
  then show "((pop r, out @ [emit r]), r, out) \<in> measure (\<lambda>(r, out). card {i. present (slots r i)})"
    by (simp add: psubset_card_mono)
qed

declare force_release.simps [simp del] drain.simps [simp del]

definition Push :: "reorderer \<Rightarrow> u16 \<times> bytes \<Rightarrow> released list \<times> reorderer" where
  "Push r0 pkt =
     (let (seq, payload) = pkt;
          r = (if \<not> initialized r0 then r0\<lparr>initialized := True, nextSeq := seq\<rparr> else r0);
          d = ahead seq (nextSeq r)
      in if d < 0 then ([], r\<lparr>late := late r + 1\<rparr>)
         else
           let (out, r1) = (if d \<ge> MaxReorderWindow then force_release seq r [] else ([], r));
               i = slot_idx seq
           in if present (slots r1 i) then (out, r1\<lparr>late := late r1 + 1\<rparr>)
              else drain (r1\<lparr>slots := (slots r1)(i := \<lparr>present = True, slot_seq = seq,
                                                slot_payload = payload\<rparr>),
                             buffered := buffered r1 + 1\<rparr>) out)"

text \<open>The loop of \<open>Flush\<close>: \<open>n\<close> counts the iterations that remain of the \<open>MaxReorderWindow\<close>.\<close>

fun flush_loop :: "nat \<Rightarrow> u16 \<Rightarrow> reorderer \<Rightarrow> released list \<Rightarrow> released list \<times> reorderer" where
  "flush_loop 0 seq r out = (out, r)"
| "flush_loop (Suc n) seq r out =
     (if buffered r > 0 then
        let i = slot_idx seq in
        if present (slots r i) then
          flush_loop n (seq + 1)
            (r\<lparr>slots := (slots r)(i := slot0), buffered := buffered r - 1, nextSeq := seq + 1\<rparr>)
            (out @ [\<lparr>Seq = slot_seq (slots r i), RPayload = slot_payload (slots r i)\<rparr>])
        else flush_loop n (seq + 1) r out
      else (out, r))"

definition Flush :: "reorderer \<Rightarrow> released list \<times> reorderer" where
  "Flush r = flush_loop (nat MaxReorderWindow) (nextSeq r) r []"

definition Reset :: "reorderer \<Rightarrow> reorderer" where
  "Reset r = reorderer0"

record reorder_stats =
  Late :: u64
  Forced :: u64
  Buffered :: int

definition Reorderer_Stats :: "reorderer \<Rightarrow> reorder_stats" where
  "Reorderer_Stats r = \<lparr>Late = late r, Forced = forced r, Buffered = buffered r\<rparr>"

section \<open>The abstract resequencer\<close>

text \<open>
  The specification state is the release point and the buffered packets, both under unbounded
  sequence numbers. \<open>entries a b m\<close> lists the buffered packets numbered from \<open>a\<close> to below \<open>b\<close> in
  ascending order; \<open>run_end a m\<close> is the first number from \<open>a\<close> on that is not buffered. A packet that is
  neither behind the release point nor buffered already moves the release point far enough that the
  packet lies inside the window, then past the complete run found there, and releases whatever the
  release point has passed.
\<close>

type_synonym spec_state = "int \<times> (int \<rightharpoonup> bytes)"

definition entries :: "int \<Rightarrow> int \<Rightarrow> (int \<rightharpoonup> bytes) \<Rightarrow> (int \<times> bytes) list" where
  "entries a b m = List.map_filter (\<lambda>e. map_option (Pair e) (m e)) [a..b - 1]"

definition keep_from :: "int \<Rightarrow> (int \<rightharpoonup> bytes) \<Rightarrow> (int \<rightharpoonup> bytes)" where
  "keep_from a m = m |` {a..}"

definition run_end :: "int \<Rightarrow> (int \<rightharpoonup> bytes) \<Rightarrow> int" where
  "run_end a m = a + int (length (takeWhile (\<lambda>e. m e \<noteq> None) [a..a + (MaxReorderWindow - 1)]))"

definition spec_push :: "spec_state \<Rightarrow> int \<times> bytes \<Rightarrow> (int \<times> bytes) list \<times> spec_state" where
  "spec_push st pkt =
     (let (a, m) = st; (e, p) = pkt in
      if e < a \<or> m e \<noteq> None then ([], st)
      else let m' = m(e \<mapsto> p); c = run_end (max a (e - (MaxReorderWindow - 1))) m'
           in (entries a c m', (c, keep_from c m')))"

definition spec_flush :: "spec_state \<Rightarrow> (int \<times> bytes) list" where
  "spec_flush st = (let (a, m) = st in entries a (a + MaxReorderWindow) m)"

section \<open>The ring refines the specification\<close>

definition buf_of :: "int \<Rightarrow> reorderer \<Rightarrow> (int \<rightharpoonup> bytes)" where
  "buf_of a r = (\<lambda>e. if a \<le> e \<and> e < a + 128 \<and> present (slots r (word_of_int e))
     then Some (slot_payload (slots r (word_of_int e))) else None)"

definition ring_ok :: "int \<Rightarrow> reorderer \<Rightarrow> bool" where
  "ring_ok a r \<longleftrightarrow> nextSeq r = word_of_int a
     \<and> (\<forall>e. a \<le> e \<and> e < a + 128 \<and> present (slots r (word_of_int e))
          \<longrightarrow> slot_seq (slots r (word_of_int e)) = word_of_int e)
     \<and> buffered r = int (card {i. present (slots r i)})"

definition wire_pkt :: "int \<times> bytes \<Rightarrow> released" where
  "wire_pkt ep = \<lparr>Seq = word_of_int (fst ep), RPayload = snd ep\<rparr>"

lemma late_update [simp]:
  "ring_ok a (r\<lparr>late := n\<rparr>) = ring_ok a r" "buf_of a (r\<lparr>late := n\<rparr>) = buf_of a r"
  by (simp_all add: ring_ok_def buf_of_def cong: if_cong)

lemma slot_idx_of_int [simp]: "slot_idx (word_of_int e) = word_of_int e"
  unfolding slot_idx_def by (rule bit_word_eqI) (simp add: bit_simps)

text \<open>Two numbers share a slot exactly when they agree modulo the window.\<close>

lemma slot_eq_iff: "(word_of_int e :: 7 word) = word_of_int f \<longleftrightarrow> e mod 128 = f mod 128"
  by (simp add: word_of_int_eq_iff take_bit_eq_mod)

lemma slot_eq_window:
  "a \<le> e \<Longrightarrow> e < a + 128 \<Longrightarrow> a \<le> f \<Longrightarrow> f < a + 128 \<Longrightarrow>
     (word_of_int e :: 7 word) = word_of_int f \<longleftrightarrow> e = f"
  unfolding slot_eq_iff by (smt (verit) mod_pos_pos_trivial mod_diff_cong)

lemma ahead_of_int:
  assumes "- (2 ^ 15) \<le> e - a" "e - a < 2 ^ 15"
  shows "ahead (word_of_int e) (word_of_int a) = e - a"
proof -
  have "ahead (word_of_int e) (word_of_int a) = sint (word_of_int (e - a) :: u16)"
    by (simp add: ahead_def)
  also have "\<dots> = signed_take_bit 15 (e - a)"
    unfolding sint_sbintrunc' by simp
  also have "\<dots> = e - a"
    using assms by (simp add: signed_take_bit_int_eq_self)
  finally show ?thesis .
qed

lemma card_slot_upd:
  fixes f :: "7 word \<Rightarrow> slot"
  shows "present (f i) \<Longrightarrow> \<not> present s \<Longrightarrow>
      int (card {j. present ((f(i := s)) j)}) = int (card {j. present (f j)}) - 1"
    and "\<not> present (f i) \<Longrightarrow> present s \<Longrightarrow>
      int (card {j. present ((f(i := s)) j)}) = int (card {j. present (f j)}) + 1"
proof -
  assume a: "present (f i)" "\<not> present s"
  then have "{j. present (f j)} = insert i {j. present ((f(i := s)) j)}"
    and "i \<notin> {j. present ((f(i := s)) j)}" by auto
  then show "int (card {j. present ((f(i := s)) j)}) = int (card {j. present (f j)}) - 1"
    by simp
next
  assume a: "\<not> present (f i)" "present s"
  then have "{j. present ((f(i := s)) j)} = insert i {j. present (f j)}"
    and "i \<notin> {j. present (f j)}" by auto
  then show "int (card {j. present ((f(i := s)) j)}) = int (card {j. present (f j)}) + 1"
    by simp
qed

lemma entries_step:
  "a < b \<Longrightarrow> entries a b m = (case m a of None \<Rightarrow> [] | Some p \<Rightarrow> [(a, p)]) @ entries (a + 1) b m"
  by (simp add: entries_def upto_rec1 List.map_filter_def split: option.split)

lemma entries_empty [simp]: "b \<le> a \<Longrightarrow> entries a b m = []"
  by (simp add: entries_def List.map_filter_def)

lemma entries_cong: "(\<And>e. a \<le> e \<Longrightarrow> e < b \<Longrightarrow> m e = m' e) \<Longrightarrow> entries a b m = entries a b m'"
  by (auto simp: entries_def List.map_filter_def intro!: arg_cong [where f = "map _"] filter_cong map_cong)

lemma set_entries: "set (map fst (entries a b m)) = {e \<in> dom m. a \<le> e \<and> e < b}"
  by (force simp: entries_def List.map_filter_def)

lemma entries_split: "a \<le> b \<Longrightarrow> b \<le> c \<Longrightarrow> entries a c m = entries a b m @ entries b c m"
  using upto_split1 [of a "b" "c - 1"]
  by (cases "b = c"; cases "a = b") (auto simp: entries_def List.map_filter_def upto_split1)

text \<open>One step of either loop, at a release point whose slot is occupied or empty.\<close>

lemma pop_refines:
  assumes "ring_ok a r" "present (slots r (word_of_int a))"
  shows "ring_ok (a + 1) (pop r)" and "buf_of (a + 1) (pop r) = keep_from (a + 1) (buf_of a r)"
    and "emit r = wire_pkt (a, the (buf_of a r a))"
proof -
  have n: "slot_idx (nextSeq r) = word_of_int a" using assms by (simp add: ring_ok_def)
  have old: "(word_of_int e :: 7 word) = word_of_int a \<longleftrightarrow> e = a \<or> e = a + 128"
    if "a \<le> e" "e \<le> a + 128" for e
    using that slot_eq_window [of a e a] by (cases "e = a + 128") (auto simp: slot_eq_iff)
  have sl: "slots (pop r) (word_of_int e) = slots r (word_of_int e)" if "a < e" "e < a + 128" for e
    using old [of e] that n by (simp add: pop_def)
  have top: "\<not> present (slots (pop r) (word_of_int (a + 128)))"
    using old [of "a + 128"] n by (simp add: pop_def slot0_def)
  show "buf_of (a + 1) (pop r) = keep_from (a + 1) (buf_of a r)"
  proof
    fix e
    show "buf_of (a + 1) (pop r) e = keep_from (a + 1) (buf_of a r) e"
      using sl [of e] top by (cases "e = a + 128") (auto simp: buf_of_def keep_from_def restrict_map_def)
  qed
  show "ring_ok (a + 1) (pop r)"
    unfolding ring_ok_def
  proof (intro conjI allI impI)
    show "nextSeq (pop r) = word_of_int (a + 1)"
      using assms by (simp add: pop_def ring_ok_def)
    show "buffered (pop r) = int (card {i. present (slots (pop r) i)})"
      using assms n card_slot_upd(1) [of "slots r" "word_of_int a" slot0]
      by (simp add: pop_def ring_ok_def slot0_def)
    fix e assume e: "a + 1 \<le> e \<and> e < a + 1 + 128 \<and> present (slots (pop r) (word_of_int e))"
    with top have "e \<noteq> a + 128" by auto
    with e sl [of e] assms(1) show "slot_seq (slots (pop r) (word_of_int e)) = word_of_int e"
      by (simp add: ring_ok_def)
  qed
  show "emit r = wire_pkt (a, the (buf_of a r a))"
    using assms n by (simp add: emit_def wire_pkt_def buf_of_def ring_ok_def Let_def)
qed

lemma skip_refines:
  assumes "ring_ok a r" "\<not> present (slots r (word_of_int a))"
  shows "ring_ok (a + 1) (skip r)" and "buf_of (a + 1) (skip r) = keep_from (a + 1) (buf_of a r)"
proof -
  have "(word_of_int (a + 128) :: 7 word) = word_of_int a" by (simp add: slot_eq_iff)
  then have top: "\<not> present (slots r (word_of_int (a + 128)))" using assms(2) by (simp only:) simp
  show "buf_of (a + 1) (skip r) = keep_from (a + 1) (buf_of a r)"
  proof
    fix e
    show "buf_of (a + 1) (skip r) e = keep_from (a + 1) (buf_of a r) e"
      using top by (cases "e = a + 128") (auto simp: buf_of_def keep_from_def restrict_map_def skip_def)
  qed
  show "ring_ok (a + 1) (skip r)"
    unfolding ring_ok_def
  proof (intro conjI allI impI)
    fix e assume e: "a + 1 \<le> e \<and> e < a + 1 + 128 \<and> present (slots (skip r) (word_of_int e))"
    with top have "e \<noteq> a + 128" by (auto simp: skip_def)
    with e assms(1) show "slot_seq (slots (skip r) (word_of_int e)) = word_of_int e"
      by (simp add: ring_ok_def skip_def)
  qed (use assms in \<open>simp_all add: ring_ok_def skip_def\<close>)
qed

lemma keep_from_keep_from [simp]: "keep_from b (keep_from a m) = keep_from (max a b) m"
  by (auto simp: keep_from_def restrict_map_def fun_eq_iff)

lemma entries_keep_from: "c \<le> a \<Longrightarrow> entries a b (keep_from c m) = entries a b m"
  by (rule entries_cong) (simp add: keep_from_def restrict_map_def)

lemma keep_from_buf_of: "c \<le> a \<Longrightarrow> keep_from c (buf_of a r) = buf_of a r"
  by (auto simp: keep_from_def restrict_map_def buf_of_def fun_eq_iff)

lemma force_release_refines:
  assumes "ring_ok a r" "e - a < 2 ^ 15" "a \<le> e"
    and "force_release (word_of_int e) r out = (out', r')"
  shows "ring_ok (max a (e - 127)) r' \<and> buf_of (max a (e - 127)) r' = keep_from (max a (e - 127)) (buf_of a r)
    \<and> out' = out @ map wire_pkt (entries a (max a (e - 127)) (buf_of a r))
    \<and> initialized r' = initialized r \<and> late r' = late r"
  using assms
proof (induction "nat (e - a)" arbitrary: a r out rule: less_induct)
  case less
  have n: "nextSeq r = word_of_int a" using less.prems(1) by (simp add: ring_ok_def)
  have ah: "ahead (word_of_int e) (nextSeq r) = e - a"
    unfolding n using less.prems by (intro ahead_of_int) simp_all
  show ?case
  proof (cases "e - a \<ge> 128")
    case False
    then have "out' = out" "r' = r"
      using less.prems(4) ah by (auto simp: force_release.simps [of _ r] caps)
    moreover have "max a (e - 127) = a" using False by simp
    ultimately show ?thesis using less.prems(1) by (simp add: keep_from_buf_of)
  next
    case True
    then have m: "max a (e - 127) = e - 127" "max (a + 1) (e - 127) = e - 127" by simp_all
    have small: "nat (e - (a + 1)) < nat (e - a)" "e - (a + 1) < 2 ^ 15" "a + 1 \<le> e"
      using True less.prems(2) by auto
    have step: "entries a (e - 127) (buf_of a r)
      = (case buf_of a r a of None \<Rightarrow> [] | Some p \<Rightarrow> [(a, p)]) @ entries (a + 1) (e - 127) (buf_of a r)"
      using True by (intro entries_step) simp
    show ?thesis
    proof (cases "present (slots r (word_of_int a))")
      case p: True
      have eq: "force_release (word_of_int e) (pop r) (out @ [emit r]) = (out', r')"
        using less.prems(4) True ah p n by (simp add: force_release.simps [of _ r] caps)
      note ref = pop_refines [OF less.prems(1) p]
      note IH = less.hyps [OF small(1) ref(1) small(2,3) eq]
      obtain q where q: "buf_of a r a = Some q" using p by (simp add: buf_of_def)
      then have "map wire_pkt (entries a (e - 127) (buf_of a r))
          = emit r # map wire_pkt (entries (a + 1) (e - 127) (buf_of (a + 1) (pop r)))"
        unfolding step using ref by (simp add: entries_keep_from)
      then show ?thesis using IH m ref(2) True by (simp add: pop_def)
    next
      case np: False
      have eq: "force_release (word_of_int e) (skip r) out = (out', r')"
        using less.prems(4) True ah np n by (simp add: force_release.simps [of _ r] caps)
      note ref = skip_refines [OF less.prems(1) np]
      note IH = less.hyps [OF small(1) ref(1) small(2,3) eq]
      have "buf_of a r a = None" using np by (simp add: buf_of_def)
      then have "entries a (e - 127) (buf_of a r)
          = entries (a + 1) (e - 127) (buf_of (a + 1) (skip r))"
        unfolding step using ref by (simp add: entries_keep_from)
      then show ?thesis using IH m ref(2) True by (simp add: skip_def)
    qed
  qed
qed

lemma run_end_None [simp]: "m a = None \<Longrightarrow> run_end a m = a"
  by (simp add: run_end_def caps upto_rec1)

lemma run_end_Some:
  assumes "m a \<noteq> None" "m (a + 128) = None"
  shows "run_end a m = run_end (a + 1) (keep_from (a + 1) m)"
proof -
  let ?P = "\<lambda>e. m e \<noteq> None"
  have "takeWhile ?P [a..a + 127] = a # takeWhile ?P [a + 1..a + 127]"
    using assms(1) by (simp add: upto_rec1 [of a])
  moreover have "[a + 1..a + 128] = [a + 1..a + 127] @ [a + 128]"
    using upto_rec2 [of "a + 1" "a + 128"] by (simp add: add.commute)
  then have "takeWhile ?P [a + 1..a + 128] = takeWhile ?P [a + 1..a + 127]"
    using assms(2) by (cases "\<forall>e\<in>set [a + 1..a + 127]. ?P e") (auto simp: takeWhile_append intro!: takeWhile_eq_all_conv [THEN iffD2, symmetric])
  moreover have "takeWhile (\<lambda>e. keep_from (a + 1) m e \<noteq> None) [a + 1..a + 128]
      = takeWhile ?P [a + 1..a + 128]"
    by (rule takeWhile_cong) (auto simp: keep_from_def restrict_map_def)
  ultimately show ?thesis by (simp add: run_end_def caps add.commute)
qed

lemma run_end_keep_from: "run_end a (keep_from a m) = run_end a m"
  unfolding run_end_def by (auto simp: keep_from_def restrict_map_def intro!: arg_cong [where f = length] takeWhile_cong)

lemma run_end_ge: "a \<le> run_end a m"
  by (simp add: run_end_def)

lemma drain_refines:
  assumes "ring_ok a r" "drain r out = (out', r')" "c = run_end a (buf_of a r)"
  shows "ring_ok c r' \<and> buf_of c r' = keep_from c (buf_of a r)
    \<and> out' = out @ map wire_pkt (entries a c (buf_of a r))
    \<and> initialized r' = initialized r \<and> late r' = late r \<and> forced r' = forced r"
  using assms
proof (induction r out arbitrary: a rule: drain.induct)
  case (1 r out)
  have n: "slot_idx (nextSeq r) = word_of_int a" using "1.prems"(1) by (simp add: ring_ok_def)
  show ?case
  proof (cases "present (slots r (word_of_int a))")
    case False
    then have "buf_of a r a = None" by (simp add: buf_of_def)
    moreover have "out' = out" "r' = r"
      using "1.prems"(2) False n by (simp_all add: drain.simps [of r])
    ultimately show ?thesis using "1.prems" by (simp add: keep_from_buf_of)
  next
    case p: True
    obtain q where q: "buf_of a r a = Some q" using p by (simp add: buf_of_def)
    note ref = pop_refines [OF "1.prems"(1) p]
    have c: "c = run_end (a + 1) (buf_of (a + 1) (pop r))"
      unfolding "1.prems"(3) ref(2) using q by (intro run_end_Some) (simp_all add: buf_of_def)
    have eq: "drain (pop r) (out @ [emit r]) = (out', r')"
      using "1.prems"(2) p n by (simp add: drain.simps [of r])
    note IH = "1.IH" [OF _ ref(1) eq c]
    have "a + 1 \<le> c" using run_end_ge c by simp
    then have "map wire_pkt (entries a c (buf_of a r))
        = emit r # map wire_pkt (entries (a + 1) c (buf_of (a + 1) (pop r)))"
      using ref q by (simp add: entries_step [of a] entries_keep_from)
    then show ?thesis
      using IH p n ref(2) \<open>a + 1 \<le> c\<close> by (simp add: pop_def)
  qed
qed

text \<open>Buffering a packet inside the window.\<close>

lemma insert_refines:
  assumes "ring_ok a r" "a \<le> e" "e < a + 128" "\<not> present (slots r (word_of_int e))"
    and "r' = r\<lparr>slots := (slots r)(word_of_int e := \<lparr>present = True, slot_seq = word_of_int e,
        slot_payload = p\<rparr>), buffered := buffered r + 1\<rparr>"
  shows "ring_ok a r'" and "buf_of a r' = (buf_of a r)(e \<mapsto> p)"
proof -
  have sl: "slots r' (word_of_int f) = (if f = e then \<lparr>present = True, slot_seq = word_of_int e,
        slot_payload = p\<rparr> else slots r (word_of_int f))" if "a \<le> f" "f < a + 128" for f
    using slot_eq_window [OF that assms(2,3)] by (simp add: assms(5))
  show "ring_ok a r'"
    unfolding ring_ok_def
  proof (intro conjI allI impI)
    show "nextSeq r' = word_of_int a" using assms(1,5) by (simp add: ring_ok_def)
    show "buffered r' = int (card {i. present (slots r' i)})"
      using assms(1,4,5) card_slot_upd(2) [of "slots r" "word_of_int e"] by (simp add: ring_ok_def)
    fix f assume "a \<le> f \<and> f < a + 128 \<and> present (slots r' (word_of_int f))"
    then show "slot_seq (slots r' (word_of_int f)) = word_of_int f"
      using sl [of f] assms(1) by (auto simp: ring_ok_def)
  qed
  show "buf_of a r' = (buf_of a r)(e \<mapsto> p)"
    using sl assms(2,3) by (auto simp: buf_of_def fun_eq_iff split: if_splits)
qed

text \<open>
  The abstract image of an arriving sequence number: the number nearest the release point that shows
  these 16 bits on the wire.
\<close>

definition extend_seq :: "int \<Rightarrow> u16 \<Rightarrow> int" where
  "extend_seq a seq = a + ahead seq (word_of_int a)"

lemma extend_seq_bounds: "- (2 ^ 15) \<le> extend_seq a seq - a" "extend_seq a seq - a < 2 ^ 15"
  using sint_greater_eq [of "seq - word_of_int a"] sint_less [of "seq - word_of_int a"]
  by (simp_all add: extend_seq_def ahead_def)

lemma word_of_extend_seq: "word_of_int (extend_seq a seq) = seq"
  by (simp add: extend_seq_def ahead_def)

lemma extend_seq_eq:
  "- (2 ^ 15) \<le> e - a \<Longrightarrow> e - a < 2 ^ 15 \<Longrightarrow> extend_seq a (word_of_int e) = e"
  using ahead_of_int [of e a] by (simp add: extend_seq_def)

lemma Push_refines:
  assumes ok: "ring_ok a r" and init: "initialized r"
    and push: "Push r (seq, p) = (out, r')"
    and spec: "spec_push (a, buf_of a r) (extend_seq a seq, p) = (sout, (a', m'))"
  shows "out = map wire_pkt sout \<and> ring_ok a' r' \<and> buf_of a' r' = m' \<and> initialized r'"
proof -
  define e where "e = extend_seq a seq"
  have seq: "seq = word_of_int e" by (simp add: e_def word_of_extend_seq)
  have eb: "- (2 ^ 15) \<le> e - a" "e - a < 2 ^ 15" using extend_seq_bounds by (auto simp: e_def)
  have n: "nextSeq r = word_of_int a" using ok by (simp add: ring_ok_def)
  have ah: "ahead seq (nextSeq r) = e - a"
    unfolding seq n by (rule ahead_of_int) (use eb in simp_all)
  show ?thesis
  proof (cases "e < a")
    case True
    then have "out = []" "r' = r\<lparr>late := late r + 1\<rparr>"
      using push init ah by (simp_all add: Push_def)
    moreover have "sout = []" "a' = a" "m' = buf_of a r"
      using spec True by (auto simp: spec_push_def e_def [symmetric])
    ultimately show ?thesis using ok init by simp
  next
    case False
    define b where "b = max a (e - 127)"
    obtain out1 r1
      where fr: "(if e - a \<ge> 128 then force_release (word_of_int e) r [] else ([], r)) = (out1, r1)"
      by force
    have r1: "ring_ok b r1 \<and> buf_of b r1 = keep_from b (buf_of a r)
        \<and> out1 = map wire_pkt (entries a b (buf_of a r)) \<and> initialized r1"
    proof (cases "e - a \<ge> 128")
      case True
      then show ?thesis
        using force_release_refines [OF ok eb(2), of "[]" out1 r1] fr False init
        by (simp add: seq b_def)
    next
      case small: False
      then have "b = a" by (simp add: b_def)
      then show ?thesis using small fr ok init by (simp add: keep_from_buf_of)
    qed
    have win: "b \<le> e" "e < b + 128" using False by (auto simp: b_def)
    have occ: "present (slots r1 (word_of_int e)) \<longleftrightarrow> keep_from b (buf_of a r) e \<noteq> None"
      using r1 win by (metis (no_types, lifting) buf_of_def option.distinct(1))
    show ?thesis
    proof (cases "present (slots r1 (word_of_int e))")
      case True
      then have "out = out1" "r' = r1\<lparr>late := late r1 + 1\<rparr>"
        using push init ah False fr by (simp_all add: Push_def caps seq)
      moreover have "buf_of a r e \<noteq> None"
        using True occ by (auto simp: keep_from_def restrict_map_def split: if_splits)
      then have "b = a" "sout = []" "a' = a" "m' = buf_of a r"
        using spec by (auto simp: spec_push_def e_def [symmetric] b_def buf_of_def split: if_splits)
      ultimately show ?thesis using r1 by (simp add: keep_from_buf_of)
    next
      case free: False
      define r2 where "r2 = r1\<lparr>slots := (slots r1)(word_of_int e := \<lparr>present = True,
        slot_seq = word_of_int e, slot_payload = p\<rparr>), buffered := buffered r1 + 1\<rparr>"
      note ins = insert_refines [OF _ win free r2_def]
      have dr: "drain r2 out1 = (out, r')"
        using push init ah False fr free by (simp add: Push_def caps seq r2_def)
      define m2 where "m2 = (buf_of a r)(e \<mapsto> p)"
      have m2: "buf_of b r2 = keep_from b m2" and ok2: "ring_ok b r2"
        using ins r1 win by (auto simp: m2_def keep_from_def restrict_map_def)
      define c where "c = run_end b m2"
      have "c = run_end b (buf_of b r2)" by (simp add: c_def m2 run_end_keep_from)
      note D = drain_refines [OF ok2 dr this]
      have "b \<le> c" "a \<le> b" by (simp_all add: c_def run_end_ge b_def)
      have "entries a b (buf_of a r) = entries a b m2"
        by (rule entries_cong) (use win in \<open>simp add: m2_def\<close>)
      then have "out = map wire_pkt (entries a c m2)"
        using D r1 \<open>b \<le> c\<close> \<open>a \<le> b\<close> by (simp add: entries_split [of a b c] m2 entries_keep_from)
      moreover have "keep_from b (buf_of a r) e = None" using occ free by simp
      then have "buf_of a r e = None" using win by (simp add: keep_from_def)
      then have "sout = entries a c m2" "a' = c" "m' = keep_from c m2"
        using spec False
        by (auto simp: spec_push_def e_def [symmetric] b_def caps Let_def m2_def c_def)
      moreover have "initialized r2" using r1 by (simp add: r2_def)
      ultimately show ?thesis using D \<open>b \<le> c\<close> by (simp add: m2)
    qed
  qed
qed

section \<open>Ordering\<close>

text \<open>
  \<open>pending st L\<close> holds of a specification state whose last released number is \<open>L\<close>: the next packet it
  can release is at most half the number circle ahead of \<open>L\<close>.
\<close>

definition near :: "int \<Rightarrow> int \<Rightarrow> bool" where
  "near x y \<longleftrightarrow> x < y \<and> y - x \<le> 2 ^ 15"

definition pending :: "spec_state \<Rightarrow> int \<Rightarrow> bool" where
  "pending st L \<longleftrightarrow> (let (a, m) = st in
     L < a \<and> dom m \<subseteq> {a..<a + 128} \<and> (L = a - 1 \<or> (\<exists>e\<in>dom m. e - L \<le> 2 ^ 15)))"

lemma sorted_entries: "sorted_wrt (<) (map fst (entries a b m))"
proof (induction "nat (b - a)" arbitrary: a)
  case (Suc n)
  then have "a < b" by simp
  moreover have "sorted_wrt (<) (map fst (entries (a + 1) b m))" using Suc.hyps(2) by (intro Suc.hyps(1)) simp
  moreover have "\<forall>e\<in>set (map fst (entries (a + 1) b m)). a < e" unfolding set_entries by auto
  ultimately show ?case by (auto simp: entries_step split: option.split)
qed simp

lemma run_end_run: "a \<le> x \<Longrightarrow> x < run_end a m \<Longrightarrow> m x \<noteq> None"
proof -
  assume x: "a \<le> x" "x < run_end a m"
  define n where "n = nat (x - a)"
  have n: "n < length (takeWhile (\<lambda>e. m e \<noteq> None) [a..a + 127])"
    using x by (auto simp: n_def run_end_def caps)
  then have "takeWhile (\<lambda>e. m e \<noteq> None) [a..a + 127] ! n = [a..a + 127] ! n" "n < length [a..a + 127]"
    using length_takeWhile_le [of "\<lambda>e. m e \<noteq> None" "[a..a + 127]"] by (auto simp: takeWhile_nth simp del: length_upto)
  moreover have "x = a + int n" using x by (simp add: n_def)
  ultimately have "x \<in> set (takeWhile (\<lambda>e. m e \<noteq> None) [a..a + 127])"
    using n nth_mem by fastforce
  then show "m x \<noteq> None" by (rule set_takeWhileD [THEN conjunct2])
qed

lemma run_end_stop:
  assumes "m (a + 128) = None"
  shows "m (run_end a m) = None"
proof -
  let ?P = "\<lambda>e. m e \<noteq> None"
  show ?thesis
  proof (cases "length (takeWhile ?P [a..a + 127]) < length [a..a + 127]")
    case True
    then have "\<not> ?P ([a..a + 127] ! length (takeWhile ?P [a..a + 127]))"
      by (rule nth_length_takeWhile)
    then show ?thesis using True by (simp add: run_end_def caps)
  next
    case False
    then have "length (takeWhile ?P [a..a + 127]) = 128"
      using length_takeWhile_le [of ?P "[a..a + 127]"] by simp
    then show ?thesis using assms by (simp add: run_end_def caps)
  qed
qed

lemma successively_near:
  "sorted_wrt (<) xs \<Longrightarrow> set xs \<subseteq> {a..<a + 2 ^ 15} \<Longrightarrow> successively near xs"
proof (induction xs)
  case (Cons x xs)
  then show ?case by (cases xs) (auto simp: near_def)
qed simp

lemma spec_push_order:
  assumes pend: "pending (a, m) L" and e: "e - a < 2 ^ 15"
    and push: "spec_push (a, m) (e, p) = (out, st')"
  shows "successively near (L # map fst out) \<and> pending st' (last (L # map fst out))"
proof (cases "e < a \<or> m e \<noteq> None")
  case True
  then show ?thesis using push pend by (auto simp: spec_push_def)
next
  case False
  define m2 where "m2 = m(e \<mapsto> p)"
  define b where "b = max a (e - 127)"
  define c where "c = run_end b m2"
  define xs where "xs = map fst (entries a c m2)"
  have st: "out = entries a c m2" "st' = (c, keep_from c m2)"
    using push False by (auto simp: spec_push_def m2_def c_def b_def caps Let_def)
  have dm: "L < a" "dom m \<subseteq> {a..<a + 128}" using pend by (auto simp: pending_def)
  then have dm2: "dom m2 \<subseteq> {a..<a + 2 ^ 15}" using e False by (force simp: m2_def)
  have setxs: "set xs = {x \<in> dom m2. a \<le> x \<and> x < c}" unfolding xs_def by (rule set_entries)
  have sorted: "sorted_wrt (<) xs" unfolding xs_def by (rule sorted_entries)
  have bc: "b \<le> c" "a \<le> b" by (simp_all add: c_def run_end_ge b_def)
  have top: "m2 x = None" if "b + 128 \<le> x" for x
  proof -
    have "x \<noteq> e" "\<not> x < a + 128" using that by (auto simp: b_def)
    then show ?thesis using dm(2) by (auto simp: m2_def dom_def)
  qed
  have dom': "dom (keep_from c m2) \<subseteq> {c..<c + 128}"
  proof
    fix x assume "x \<in> dom (keep_from c m2)"
    then have "c \<le> x" "m2 x \<noteq> None" by (auto simp: keep_from_def restrict_map_def split: if_splits)
    then show "x \<in> {c..<c + 128}" using top [of x] bc by (cases "b + 128 \<le> x") auto
  qed
  have e_in: "e \<in> dom m2" "b \<le> e" using False by (auto simp: m2_def b_def)
  show ?thesis
  proof (cases xs)
    case Nil
    have "c = b"
    proof (rule ccontr)
      assume "c \<noteq> b"
      then have "b \<in> set xs" using bc run_end_run [of b b m2] by (auto simp: setxs c_def)
      then show False using Nil by simp
    qed
    have keep: "x \<in> dom (keep_from c m2)" if "x \<in> dom m2" for x
      using that setxs Nil dm2 by (fastforce simp: keep_from_def restrict_map_def not_less)
    have "\<exists>x\<in>dom m2. x - L \<le> 2 ^ 15"
      using pend e e_in by (auto simp: pending_def m2_def)
    then have "\<exists>x\<in>dom (keep_from c m2). x - L \<le> 2 ^ 15" using keep by blast
    then show ?thesis
      using Nil st dm bc dom' by (auto simp: pending_def xs_def)
  next
    case (Cons x ys)
    have xsub: "set xs \<subseteq> {a..<a + 2 ^ 15}" using setxs dm2 by auto
    have le_x: "x \<le> y" if "y \<in> dom m2" for y
    proof (cases "y < c")
      case True
      then have "y \<in> set xs" using that dm2 setxs by auto
      then show ?thesis using sorted Cons by auto
    next
      case False
      moreover have "x \<in> set xs" using Cons by simp
      ultimately show ?thesis unfolding setxs by simp
    qed
    have x: "a \<le> x" "x < a + 2 ^ 15" using xsub Cons by auto
    have "x - L \<le> 2 ^ 15"
    proof (cases "L = a - 1")
      case False
      then obtain y where "y \<in> dom m" "y - L \<le> 2 ^ 15" using pend by (auto simp: pending_def)
      moreover from this have "x \<le> y" by (intro le_x) (simp add: m2_def)
      ultimately show ?thesis by simp
    qed (use x in simp)
    then have "near L x" using x dm by (simp add: near_def)
    have last: "last xs \<in> set xs" using Cons by (intro last_in_set) simp
    have "pending (c, keep_from c m2) (last xs)"
    proof (cases "b < c")
      case True
      then have "c - 1 \<in> set xs" using run_end_run [of b "c - 1" m2] bc by (auto simp: setxs c_def)
      moreover have "\<forall>y\<in>set xs. y \<le> last xs" using sorted
        by (induction xs) (auto simp: less_imp_le)
      ultimately have "last xs = c - 1" using last setxs by force
      then show ?thesis using dom' by (simp add: pending_def)
    next
      case False
      then have "e \<in> dom (keep_from c m2)" using bc e_in by (auto simp: keep_from_def restrict_map_def)
      moreover have "e - last xs \<le> 2 ^ 15" using last xsub e by auto
      ultimately show ?thesis using dom' last setxs by (auto simp: pending_def)
    qed
    then show ?thesis
      using successively_near [OF sorted xsub] \<open>near L x\<close> Cons st by (simp add: xs_def)
  qed
qed

text \<open>The state between two pushes: the ring stands for a specification state whose last release is \<open>L\<close>.\<close>

definition after :: "int \<Rightarrow> reorderer \<Rightarrow> bool" where
  "after L r \<longleftrightarrow> (\<exists>a. ring_ok a r \<and> pending (a, buf_of a r) L) \<and> initialized r"

lemma Push_after:
  assumes "after L r"
  obtains es where "map Seq (fst (Push r pkt)) = map word_of_int es" "successively near (L # es)"
    "after (last (L # es)) (snd (Push r pkt))"
proof -
  obtain a where a: "ring_ok a r" "pending (a, buf_of a r) L" "initialized r"
    using assms by (auto simp: after_def)
  obtain seq p where pkt: "pkt = (seq, p)" by (cases pkt)
  obtain out r' where push: "Push r (seq, p) = (out, r')" by (cases "Push r (seq, p)")
  obtain sout a' m' where spec: "spec_push (a, buf_of a r) (extend_seq a seq, p) = (sout, (a', m'))"
    by (cases "spec_push (a, buf_of a r) (extend_seq a seq, p)") force
  note R = Push_refines [OF a(1,3) push spec]
  have "extend_seq a seq - a < 2 ^ 15" by (rule extend_seq_bounds)
  from spec_push_order [OF a(2) this spec]
  have "successively near (L # map fst sout)" "pending (a', m') (last (L # map fst sout))" by auto
  moreover have "map Seq out = map word_of_int (map fst sout)" using R by (simp add: wire_pkt_def)
  ultimately show thesis
    using that [of "map fst sout"] R pkt push unfolding after_def by auto
qed

lemma successively_glue:
  "successively P (x # xs) \<Longrightarrow> successively P (last (x # xs) # ys) \<Longrightarrow> successively P (x # xs @ ys)"
  by (induction xs arbitrary: x) auto

lemma run_Push_after:
  "after L r \<Longrightarrow> \<exists>es. map Seq (concat (fst (run Push r pkts))) = map word_of_int es
     \<and> successively near (L # es) \<and> after (last (L # es)) (snd (run Push r pkts))"
proof (induction pkts arbitrary: L r)
  case Nil
  then show ?case by (intro exI [of _ "[]"]) simp
next
  case (Cons pkt pkts)
  obtain es where es: "map Seq (fst (Push r pkt)) = map word_of_int es" "successively near (L # es)"
    "after (last (L # es)) (snd (Push r pkt))"
    using Push_after [OF Cons.prems] .
  obtain fs where "map Seq (concat (fst (run Push (snd (Push r pkt)) pkts))) = map word_of_int fs"
    "successively near (last (L # es) # fs)"
    "after (last (last (L # es) # fs)) (snd (run Push (snd (Push r pkt)) pkts))"
    using Cons.IH [OF es(3)] by auto
  then show ?case using es
    by (intro exI [of _ "es @ fs"]) (auto simp: successively_glue split: if_splits)
qed

lemma after_start: "initialized r \<Longrightarrow> nextSeq r = seq \<Longrightarrow> buffered r = 0 \<Longrightarrow> slots r = (\<lambda>_. slot0)
    \<Longrightarrow> after (uint seq - 1) r"
  unfolding after_def
  by (intro conjI exI [of _ "uint seq"]) (simp_all add: ring_ok_def pending_def buf_of_def slot0_def)

lemma Push_first: "Push reorderer0 (seq, p) = Push (reorderer0\<lparr>initialized := True, nextSeq := seq\<rparr>) (seq, p)"
  by (simp add: Push_def reorderer0_def)

section \<open>Flushing\<close>

definition look :: "reorderer \<Rightarrow> (int \<rightharpoonup> bytes)" where
  "look r = (\<lambda>e. if present (slots r (word_of_int e)) then Some (slot_payload (slots r (word_of_int e))) else None)"

text \<open>What the loop needs: every packet sits in one of the \<open>n\<close> slots from \<open>s\<close> on.\<close>

definition span_ok :: "int \<Rightarrow> nat \<Rightarrow> reorderer \<Rightarrow> bool" where
  "span_ok s n r \<longleftrightarrow> n \<le> 128 \<and> buffered r = int (card {i. present (slots r i)})
     \<and> (\<forall>i. present (slots r i) \<longrightarrow> (\<exists>e. s \<le> e \<and> e < s + int n \<and> i = word_of_int e
          \<and> slot_seq (slots r i) = word_of_int e))"

lemma span_ok_empty: "span_ok s n r \<Longrightarrow> \<not> buffered r > 0 \<Longrightarrow> \<not> present (slots r i)"
  by (auto simp: span_ok_def card_gt_0_iff)

lemma span_ok_skip:
  "span_ok s (Suc n) r \<Longrightarrow> \<not> present (slots r (word_of_int s)) \<Longrightarrow> span_ok (s + 1) n r"
  unfolding span_ok_def by (smt (verit) Suc_leD of_nat_Suc)

lemma span_ok_take:
  assumes "span_ok s (Suc n) r" "present (slots r (word_of_int s))"
    and "r' = r\<lparr>slots := (slots r)(word_of_int s := slot0), buffered := buffered r - 1, nextSeq := x\<rparr>"
  shows "span_ok (s + 1) n r'" and "slot_seq (slots r (word_of_int s)) = word_of_int s"
    and "s < e \<Longrightarrow> e < s + 1 + int n \<Longrightarrow> look r' e = look r e"
proof -
  have near_s: "e = s" if "s \<le> e" "e < s + int (Suc n)" "(word_of_int e :: 7 word) = word_of_int s" for e
    using that assms(1) slot_eq_window [of s e s] by (auto simp: span_ok_def)
  then show seq: "slot_seq (slots r (word_of_int s)) = word_of_int s"
    using assms(1,2) by (metis span_ok_def)
  show "span_ok (s + 1) n r'"
    unfolding span_ok_def
  proof (intro conjI allI impI)
    show "buffered r' = int (card {i. present (slots r' i)})"
      using assms card_slot_upd(1) [of "slots r" "word_of_int s" slot0]
      by (simp add: span_ok_def slot0_def)
    fix i assume i: "present (slots r' i)"
    then have "i \<noteq> word_of_int s" "present (slots r i)" "slots r' i = slots r i"
      using assms(3) by (auto simp: slot0_def split: if_splits)
    then show "\<exists>e. s + 1 \<le> e \<and> e < s + 1 + int n \<and> i = word_of_int e
        \<and> slot_seq (slots r' i) = word_of_int e"
      using assms(1) unfolding span_ok_def by (smt (verit) of_nat_Suc)
  qed (use assms(1) in \<open>simp add: span_ok_def\<close>)
  show "look r' e = look r e" if "s < e" "e < s + 1 + int n"
    using near_s [of e] that assms(3) by (auto simp: look_def)
qed

lemma flush_loop_refines:
  assumes "span_ok s n r" "flush_loop n (word_of_int s) r out = (out', r')"
  shows "out' = out @ map wire_pkt (entries s (s + int n) (look r))
    \<and> (\<forall>i. \<not> present (slots r' i)) \<and> buffered r' = 0 \<and> late r' = late r"
  using assms
proof (induction n arbitrary: s r out)
  case 0
  then show ?case by (auto simp: span_ok_def)
next
  case (Suc n)
  have st: "entries s (s + int (Suc n)) (look r)
      = (case look r s of None \<Rightarrow> [] | Some p \<Rightarrow> [(s, p)]) @ entries (s + 1) (s + 1 + int n) (look r)"
    by (subst entries_step) (simp_all add: algebra_simps)
  consider "\<not> buffered r > 0" | "buffered r > 0" "\<not> present (slots r (word_of_int s))"
    | "buffered r > 0" "present (slots r (word_of_int s))" by blast
  then show ?case
  proof cases
    case 1
    then have none: "\<not> present (slots r i)" for i using Suc.prems(1) span_ok_empty by blast
    then have "entries s (s + int (Suc n)) (look r) = []"
      by (simp add: entries_def List.map_filter_def look_def)
    then show ?thesis using 1 Suc.prems none by (auto simp: span_ok_def)
  next
    case 2
    then have "flush_loop n (word_of_int (s + 1)) r out = (out', r')"
      using Suc.prems(2) by simp
    from Suc.IH [OF span_ok_skip [OF Suc.prems(1) 2(2)] this] 2(2)
    show ?thesis unfolding st by (simp add: look_def)
  next
    case 3
    define r1 where "r1 = r\<lparr>slots := (slots r)(word_of_int s := slot0), buffered := buffered r - 1,
      nextSeq := word_of_int (s + 1)\<rparr>"
    note T = span_ok_take [OF Suc.prems(1) 3(2) r1_def]
    have "entries (s + 1) (s + 1 + int n) (look r1) = entries (s + 1) (s + 1 + int n) (look r)"
      by (rule entries_cong) (simp add: T(3))
    moreover have "flush_loop n (word_of_int (s + 1)) r1
        (out @ [wire_pkt (s, slot_payload (slots r (word_of_int s)))]) = (out', r')"
      using Suc.prems(2) 3 T(2) by (simp add: r1_def wire_pkt_def Let_def)
    from Suc.IH [OF T(1) this] have
      "out' = out @ [wire_pkt (s, slot_payload (slots r (word_of_int s)))]
          @ map wire_pkt (entries (s + 1) (s + 1 + int n) (look r1))
        \<and> (\<forall>i. \<not> present (slots r' i)) \<and> buffered r' = 0 \<and> late r' = late r1" by simp
    ultimately show ?thesis unfolding st using 3(2) by (simp add: look_def r1_def)
  qed
qed

lemma ring_ok_span: "ring_ok a r \<Longrightarrow> span_ok a 128 r"
proof -
  assume ok: "ring_ok a r"
  have "\<exists>e. a \<le> e \<and> e < a + 128 \<and> i = word_of_int e" for i :: "7 word"
  proof (intro exI conjI)
    show "i = word_of_int (a + (uint i - a) mod 128)"
      by (metis add_diff_cancel_left' diff_add_cancel mod_add_right_eq slot_eq_iff word_of_int_uint)
  qed simp_all
  then show ?thesis using ok unfolding ring_ok_def span_ok_def by fastforce
qed

lemma Flush_refines:
  assumes "ring_ok a r" "Flush r = (out, r')"
  shows "out = map wire_pkt (spec_flush (a, buf_of a r))" "\<not> present (slots r' i)" "buffered r' = 0"
    "late r' = late r"
proof -
  have "flush_loop 128 (word_of_int a) r [] = (out, r')"
    using assms by (simp add: Flush_def caps ring_ok_def)
  note F = flush_loop_refines [OF ring_ok_span [OF assms(1)] this]
  have "entries a (a + 128) (look r) = entries a (a + 128) (buf_of a r)"
    by (rule entries_cong) (simp add: look_def buf_of_def)
  then show "out = map wire_pkt (spec_flush (a, buf_of a r))" "\<not> present (slots r' i)" "buffered r' = 0"
    "late r' = late r"
    using F by (simp_all add: spec_flush_def caps)
qed

text \<open>What is left after a push is released by \<open>Flush\<close> in the same order.\<close>

lemma Flush_after:
  assumes "after L r"
  shows "\<exists>es. map Seq (fst (Flush r)) = map word_of_int es \<and> successively near (L # es)"
proof -
  obtain a where a: "ring_ok a r" "pending (a, buf_of a r) L"
    using assms by (auto simp: after_def)
  obtain out r' where fl: "Flush r = (out, r')" by (cases "Flush r")
  define es where "es = map fst (entries a (a + 128) (buf_of a r))"
  have out: "map Seq out = map word_of_int es"
    using Flush_refines(1) [OF a(1) fl] by (simp add: es_def wire_pkt_def spec_flush_def caps)
  have set: "set es = {e \<in> dom (buf_of a r). a \<le> e \<and> e < a + 128}" unfolding es_def by (rule set_entries)
  have sorted: "sorted_wrt (<) es" unfolding es_def by (rule sorted_entries)
  have "successively near es" by (rule successively_near [OF sorted, of a]) (auto simp: set)
  moreover have "near L x" if "es = x # xs" for x xs
  proof -
    have x: "a \<le> x" "x < a + 128" using set that by auto
    have "x - L \<le> 2 ^ 15"
    proof (cases "L = a - 1")
      case False
      then obtain y where y: "y \<in> dom (buf_of a r)" "y - L \<le> 2 ^ 15" using a(2) by (auto simp: pending_def)
      then have "y \<in> set es" unfolding set by (auto simp: buf_of_def split: if_splits)
      then have "x \<le> y" using sorted that by auto
      then show ?thesis using y by simp
    qed (use x in simp)
    then show ?thesis using x a(2) by (simp add: pending_def near_def)
  qed
  ultimately have "successively near (L # es)" by (cases es) auto
  then show ?thesis using out fl by auto
qed

lemma run_first:
  "run Push reorderer0 ((seq, p) # rest)
     = run Push (reorderer0\<lparr>initialized := True, nextSeq := seq\<rparr>) ((seq, p) # rest)"
  using Push_first by (simp add: run.simps(2))

lemma Flush_reorderer0: "Flush reorderer0 = ([], reorderer0)"
  by (simp add: Flush_def caps reorderer0_def numeral_eq_Suc)

text \<open>
  C8. Packets leave the resequencer in strictly ascending order. Whatever sequence numbers arrive, in
  whatever order, over however many wraps of the 16-bit counter, the numbers released over a whole
  run and its final \<open>Flush\<close> are the wire images of a strictly increasing sequence of unbounded
  numbers, and two consecutive releases are never more than half the number circle apart, so that
  the ascent is visible in the 16 bits themselves.
\<close>

theorem Push_ascending:
  "\<exists>es. map Seq (concat (fst (run Push reorderer0 pkts)) @ fst (Flush (snd (run Push reorderer0 pkts))))
       = map word_of_int es
     \<and> successively (\<lambda>x y. x < y \<and> y - x \<le> 2 ^ 15) es"
proof (cases pkts)
  case Nil
  then show ?thesis by (intro exI [of _ "[]"]) (simp add: Flush_reorderer0)
next
  case (Cons pkt rest)
  obtain seq p where pkt: "pkt = (seq, p)" by (cases pkt)
  define r where "r = reorderer0\<lparr>initialized := True, nextSeq := seq\<rparr>"
  let ?L = "uint seq - 1"
  have "after ?L r" by (rule after_start) (simp_all add: r_def reorderer0_def)
  then obtain es where es: "map Seq (concat (fst (run Push r pkts))) = map word_of_int es"
      "successively near (?L # es)" "after (last (?L # es)) (snd (run Push r pkts))"
    using run_Push_after by blast
  from Flush_after [OF es(3)] obtain fs
    where "map Seq (fst (Flush (snd (run Push r pkts)))) = map word_of_int fs"
      "successively near (last (?L # es) # fs)" by blast
  moreover have "run Push reorderer0 pkts = run Push r pkts"
    by (simp add: Cons pkt r_def run_first)
  ultimately have "map Seq (concat (fst (run Push reorderer0 pkts))
        @ fst (Flush (snd (run Push reorderer0 pkts)))) = map word_of_int (es @ fs)"
      and "successively near (?L # es @ fs)"
    using es successively_glue by auto
  moreover from this(2) have "successively near (es @ fs)" by (cases "es @ fs") simp_all
  ultimately show ?thesis unfolding near_def [abs_def] by blast
qed

section \<open>Conservation\<close>

definition pkt_of :: "u16 \<times> bytes \<Rightarrow> released" where
  "pkt_of sp = \<lparr>Seq = fst sp, RPayload = snd sp\<rparr>"

definition slot_pkt :: "slot \<Rightarrow> released" where
  "slot_pkt sl = \<lparr>Seq = slot_seq sl, RPayload = slot_payload sl\<rparr>"

definition contents :: "reorderer \<Rightarrow> released multiset" where
  "contents r = image_mset (\<lambda>i. slot_pkt (slots r i)) (mset_set {i. present (slots r i)})"

lemma contents_other [simp]:
  "contents (r\<lparr>late := x\<rparr>) = contents r" "contents (r\<lparr>forced := y\<rparr>) = contents r"
  "contents (r\<lparr>nextSeq := z\<rparr>) = contents r" "contents (r\<lparr>buffered := n\<rparr>) = contents r"
  "contents (r\<lparr>initialized := b\<rparr>) = contents r"
  by (simp_all add: contents_def)

lemma contents_clear:
  assumes "present (slots r i)" "\<not> present s"
  shows "contents r = add_mset (slot_pkt (slots r i)) (contents (r\<lparr>slots := (slots r)(i := s)\<rparr>))"
proof -
  let ?S = "{j. present (((slots r)(i := s)) j)}"
  have "{j. present (slots r j)} = insert i ?S" "i \<notin> ?S" using assms by auto
  moreover have "image_mset (\<lambda>j. slot_pkt (slots r j)) (mset_set ?S)
      = image_mset (\<lambda>j. slot_pkt (((slots r)(i := s)) j)) (mset_set ?S)"
    by (rule image_mset_cong) (use assms in auto)
  ultimately show ?thesis by (simp add: contents_def)
qed

lemma contents_store:
  assumes "\<not> present (slots r i)" "present s"
  shows "contents (r\<lparr>slots := (slots r)(i := s)\<rparr>) = add_mset (slot_pkt s) (contents r)"
  using contents_clear [of "r\<lparr>slots := (slots r)(i := s)\<rparr>" i "slots r i"] assms by simp

lemma contents_pop:
  "present (slots r (slot_idx (nextSeq r))) \<Longrightarrow> contents r = add_mset (emit r) (contents (pop r))"
  using contents_clear [of r "slot_idx (nextSeq r)" slot0]
  by (simp add: emit_def pop_def slot_pkt_def slot0_def contents_def Let_def)

lemma contents_skip: "contents (skip r) = contents r"
  by (simp add: skip_def contents_def)

lemma force_release_conserves:
  "force_release seq r out = (out', r') \<Longrightarrow>
     mset out' + contents r' = mset out + contents r \<and> late r' = late r"
proof (induction seq r out rule: force_release.induct)
  case (1 seq r out)
  then show ?case
    by (auto simp: force_release.simps [of seq r] contents_pop contents_skip pop_def [of r] skip_def [of r]
        split: if_splits)
qed

lemma drain_conserves:
  "drain r out = (out', r') \<Longrightarrow> mset out' + contents r' = mset out + contents r \<and> late r' = late r"
proof (induction r out rule: drain.induct)
  case (1 r out)
  then show ?case
    by (auto simp: drain.simps [of r] contents_pop pop_def [of r] split: if_splits)
qed

lemma flush_loop_conserves:
  "flush_loop n seq r out = (out', r') \<Longrightarrow> mset out' + contents r' = mset out + contents r"
proof (induction n seq r out rule: flush_loop.induct)
  case (2 n seq r out)
  have eq: "contents (r\<lparr>slots := f, buffered := b, nextSeq := x\<rparr>) = contents (r\<lparr>slots := f\<rparr>)"
    for f b x by (simp add: contents_def)
  show ?case
  proof (cases "buffered r > 0 \<and> present (slots r (slot_idx seq))")
    case True
    then show ?thesis
      using 2 contents_clear [of r "slot_idx seq" slot0]
      by (simp add: eq Let_def) (simp add: slot0_def slot_pkt_def)
  next
    case False
    then show ?thesis using 2 by (auto simp: Let_def split: if_splits)
  qed
qed simp

lemma Push_conserves:
  assumes "Push r pkt = (out, r')"
  shows "mset out + contents r' = add_mset (pkt_of pkt) (contents r) \<and> late r' = late r
    \<or> mset out + contents r' = contents r \<and> late r' = late r + 1"
proof -
  obtain seq p where pkt: "pkt = (seq, p)" by (cases pkt)
  define r1 where "r1 = (if \<not> initialized r then r\<lparr>initialized := True, nextSeq := seq\<rparr> else r)"
  have r1: "contents r1 = contents r" "late r1 = late r" by (simp_all add: r1_def contents_def)
  show ?thesis
  proof (cases "ahead seq (nextSeq r1) < 0")
    case True
    then show ?thesis using assms r1 by (auto simp: Push_def pkt r1_def [symmetric] Let_def)
  next
    case False
    obtain out2 r2 where fr: "(if ahead seq (nextSeq r1) \<ge> MaxReorderWindow
        then force_release seq r1 [] else ([], r1)) = (out2, r2)" by force
    then have r2: "mset out2 + contents r2 = contents r" "late r2 = late r"
      using force_release_conserves [of seq r1 "[]"] r1 by (auto split: if_splits)
    define r3 where "r3 = r2\<lparr>slots := (slots r2)(slot_idx seq := \<lparr>present = True, slot_seq = seq,
      slot_payload = p\<rparr>), buffered := buffered r2 + 1\<rparr>"
    have push: "(if present (slots r2 (slot_idx seq)) then (out2, r2\<lparr>late := late r2 + 1\<rparr>)
        else drain r3 out2) = (out, r')"
      using assms unfolding Push_def pkt Let_def prod.case r1_def [symmetric]
      using False fr by (simp add: r3_def split: if_splits)
    show ?thesis
    proof (cases "present (slots r2 (slot_idx seq))")
      case True
      then show ?thesis using push r2 by auto
    next
      case free: False
      then have "contents r3 = add_mset (pkt_of pkt) (contents r2)"
        using contents_store [OF free] by (simp add: r3_def pkt_of_def slot_pkt_def pkt contents_def)
      then show ?thesis
        using drain_conserves [of r3 out2 out r'] push free r2 by (auto simp: r3_def)
    qed
  qed
qed

lemma run_Push_conserves:
  "\<exists>dropped. mset (map pkt_of pkts) + contents r
       = mset (concat (fst (run Push r pkts))) + contents (snd (run Push r pkts)) + mset dropped
     \<and> late (snd (run Push r pkts)) = late r + of_nat (length dropped)"
proof (induction pkts arbitrary: r)
  case Nil
  show ?case by (intro exI [of _ "[]"]) simp
next
  case (Cons pkt pkts)
  obtain out r' where push: "Push r pkt = (out, r')" by (cases "Push r pkt")
  obtain dr where dr: "mset (map pkt_of pkts) + contents r'
       = mset (concat (fst (run Push r' pkts))) + contents (snd (run Push r' pkts)) + mset dr"
    "late (snd (run Push r' pkts)) = late r' + of_nat (length dr)"
    using Cons.IH by blast
  from Push_conserves [OF push] show ?case
  proof
    assume c: "mset out + contents r' = add_mset (pkt_of pkt) (contents r) \<and> late r' = late r"
    have "mset (map pkt_of (pkt # pkts)) + contents r = mset (map pkt_of pkts) + (mset out + contents r')"
      using c by simp
    also have "\<dots> = mset out + (mset (map pkt_of pkts) + contents r')" by (simp add: ac_simps)
    finally show ?thesis using c push by (intro exI [of _ dr]) (simp only: dr, simp add: ac_simps dr)
  next
    assume c: "mset out + contents r' = contents r \<and> late r' = late r + 1"
    then have "mset (map pkt_of (pkt # pkts)) + contents r
        = add_mset (pkt_of pkt) (mset out + (mset (map pkt_of pkts) + contents r'))"
      by (simp add: ac_simps flip: c [THEN conjunct1])
    then show ?thesis using c push
      by (intro exI [of _ "pkt_of pkt # dr"]) (simp only: dr, simp add: ac_simps dr)
  qed
qed

text \<open>The states a run of pushes can reach, and what every push guarantees in them.\<close>

definition reorder_inv :: "reorderer \<Rightarrow> bool" where
  "reorder_inv r \<longleftrightarrow> r = reorderer0 \<or> (\<exists>L. after L r)"

lemma Push_reorder_inv:
  assumes "reorder_inv r"
  shows "(\<exists>L. after L (snd (Push r pkt)))
    \<and> (\<exists>es. map Seq (fst (Push r pkt)) = map word_of_int es \<and> sorted_wrt (<) es)"
proof -
  obtain seq p where pkt: "pkt = (seq, p)" by (cases pkt)
  have "after (uint seq - 1) (reorderer0\<lparr>initialized := True, nextSeq := seq\<rparr>)"
    by (rule after_start) (simp_all add: reorderer0_def)
  then obtain L r' where r': "after L r'" "Push r pkt = Push r' pkt"
    using assms Push_first unfolding reorder_inv_def pkt by metis
  obtain es where es: "map Seq (fst (Push r' pkt)) = map word_of_int es" "successively near (L # es)"
    "after (last (L # es)) (snd (Push r' pkt))"
    using Push_after [OF r'(1)] .
  have "successively (<) (L # es)" using es(2) by (rule successively_mono) (simp add: near_def)
  then have "sorted_wrt (<) (L # es)" by (simp only: successively_conv_sorted_wrt transp_on_less)
  then show ?thesis using es r'(2) by auto
qed

interpretation reorder: invariant_machine Push reorder_inv
  "\<lambda>out. \<exists>es. map Seq out = map word_of_int es \<and> sorted_wrt (<) es"
  by unfold_locales (use Push_reorder_inv in \<open>auto simp: reorder_inv_def\<close>)

lemma reorder_inv_run: "reorder_inv (snd (run Push reorderer0 pkts))"
  by (rule reorder.run_inv) (simp add: reorder_inv_def)

lemma reorder_inv_ring: "reorder_inv r \<Longrightarrow> \<exists>a. ring_ok a r"
proof (cases "r = reorderer0")
  case True
  then show ?thesis by (intro exI [of _ 0]) (simp add: ring_ok_def reorderer0_def slot0_def)
qed (auto simp: reorder_inv_def after_def)

lemma buffered_bound: "0 \<le> buffered (snd (run Push reorderer0 pkts))"
    "buffered (snd (run Push reorderer0 pkts)) \<le> MaxReorderWindow"
proof -
  obtain a where "ring_ok a (snd (run Push reorderer0 pkts))"
    using reorder_inv_ring [OF reorder_inv_run] by blast
  moreover have "card {i. present (slots r i)} \<le> CARD(7 word)" for r :: reorderer
    by (rule card_mono) simp_all
  ultimately show "0 \<le> buffered (snd (run Push reorderer0 pkts))"
    "buffered (snd (run Push reorderer0 pkts)) \<le> MaxReorderWindow"
    by (simp_all add: ring_ok_def caps card_word)
qed

text \<open>
  C9. No packet is invented, duplicated or silently lost. For every sequence of arrivals the pushed
  packets are, as a multiset, exactly those released by the pushes, those released by the final
  \<open>Flush\<close>, and some dropped ones, and the \<open>late\<close> counter is the number of the dropped ones. The flush
  leaves nothing buffered.
\<close>

theorem Push_Flush_conserve:
  "\<exists>dropped. mset (map pkt_of pkts)
       = mset (concat (fst (run Push reorderer0 pkts)))
         + mset (fst (Flush (snd (run Push reorderer0 pkts)))) + mset dropped
     \<and> late (snd (run Push reorderer0 pkts)) = of_nat (length dropped)
     \<and> buffered (snd (Flush (snd (run Push reorderer0 pkts)))) = 0"
proof -
  define r where "r = snd (run Push reorderer0 pkts)"
  obtain out r' where fl: "Flush r = (out, r')" by (cases "Flush r")
  obtain a where ok: "ring_ok a r" using reorder_inv_ring [OF reorder_inv_run] by (auto simp: r_def)
  have "contents r' = {#}" using Flush_refines(2) [OF ok fl] by (simp add: contents_def)
  then have "mset out = contents r"
    using flush_loop_conserves [of "nat MaxReorderWindow" "nextSeq r" r "[]"] fl by (simp add: Flush_def)
  moreover have "contents reorderer0 = {#}" by (simp add: contents_def reorderer0_def slot0_def)
  moreover have "late reorderer0 = 0" by (simp add: reorderer0_def)
  ultimately show ?thesis
    using run_Push_conserves [of pkts reorderer0] Flush_refines(3) [OF ok fl] fl
    by (simp add: r_def [symmetric])
qed

section \<open>Reordering within the window is undone\<close>

definition received :: "(int \<Rightarrow> bytes) \<Rightarrow> int set \<Rightarrow> (int \<rightharpoonup> bytes)" where
  "received pay S = (\<lambda>e. if e \<in> S then Some (pay e) else None)"

lemma entries_received:
  "{a..<b} \<subseteq> S \<Longrightarrow> entries a b (received pay S) = map (\<lambda>e. (e, pay e)) [a..b - 1]"
proof -
  assume "{a..<b} \<subseteq> S"
  then have "\<forall>e\<in>set [a..b - 1]. e \<in> S" by auto
  then show ?thesis
    unfolding entries_def received_def List.map_filter_def by (induction "[a..b - 1]") (auto cong: map_cong)
qed

text \<open>
  \<open>mex_state a0 S a r\<close>: of the numbers from \<open>a0\<close> on, exactly those of \<open>S\<close> have arrived, \<open>a\<close> is the first
  missing one and the ring holds the arrived ones above it.
\<close>

definition mex_state :: "(int \<Rightarrow> bytes) \<Rightarrow> int \<Rightarrow> int set \<Rightarrow> int \<Rightarrow> reorderer \<Rightarrow> bool" where
  "mex_state pay a0 S a r \<longleftrightarrow> ring_ok a r \<and> initialized r \<and> buf_of a r = keep_from a (received pay S)
     \<and> a0 \<le> a \<and> {a0..<a} \<subseteq> S \<and> a \<notin> S"

lemma Push_mex:
  assumes st: "mex_state pay a0 S a r" and e: "a0 \<le> e" "e \<notin> S" "{a0..e - 128} \<subseteq> S"
    and push: "Push r (word_of_int e, pay e) = (out, r')"
  obtains c where "a \<le> c" "mex_state pay a0 (insert e S) c r'"
    "out = map (\<lambda>e. wire_pkt (e, pay e)) [a..c - 1]"
proof -
  have r: "ring_ok a r" "initialized r" "buf_of a r = keep_from a (received pay S)" "a0 \<le> a"
    "{a0..<a} \<subseteq> S" "a \<notin> S" using st by (auto simp: mex_state_def)
  have ae: "a \<le> e" "e < a + 128"
    using e r(4,5,6) by (auto simp: subset_iff not_le [symmetric])
  define m2 where "m2 = (buf_of a r)(e \<mapsto> pay e)"
  define c where "c = run_end a m2"
  have m2: "m2 = keep_from a (received pay (insert e S))"
    using ae by (auto simp: m2_def r(3) keep_from_def restrict_map_def received_def)
  have "buf_of a r e = None" using e r(3) by (simp add: keep_from_def restrict_map_def received_def)
  moreover have "extend_seq a (word_of_int e) = e" using ae by (intro extend_seq_eq) simp_all
  moreover have "max a (e - 127) = a" using ae by simp
  ultimately have "spec_push (a, buf_of a r) (extend_seq a (word_of_int e), pay e)
      = (entries a c m2, (c, keep_from c m2))"
    using ae by (simp add: spec_push_def caps m2_def [symmetric] c_def Let_def)
  note P = Push_refines [OF r(1,2) push this]
  have c: "a \<le> c" by (simp add: c_def run_end_ge)
  have "m2 (a + 128) = None" using ae by (simp add: m2_def buf_of_def)
  then have "m2 c = None" unfolding c_def by (rule run_end_stop)
  then have "c \<notin> insert e S" using c by (auto simp: m2 keep_from_def restrict_map_def received_def split: if_splits)
  moreover have run: "{a..<c} \<subseteq> insert e S"
  proof
    fix x assume "x \<in> {a..<c}"
    then have "m2 x \<noteq> None" using run_end_run [of a x m2] by (auto simp: c_def)
    then show "x \<in> insert e S"
      by (auto simp: m2 keep_from_def restrict_map_def received_def split: if_splits)
  qed
  moreover from this have "{a0..<c} \<subseteq> insert e S"
    using r(5) by (meson atLeastLessThan_iff insertCI not_le subset_iff)
  ultimately have "mex_state pay a0 (insert e S) c r'"
    using P c r(4) by (simp add: mex_state_def m2)
  moreover have "out = map (\<lambda>e. wire_pkt (e, pay e)) [a..c - 1]"
    using P entries_received [OF run] by (simp add: m2 entries_keep_from)
  ultimately show thesis using that c by blast
qed

text \<open>Every arrival finds the numbers \<open>MaxReorderWindow\<close> or more behind it already there.\<close>

definition covered :: "int \<Rightarrow> int set \<Rightarrow> int list \<Rightarrow> bool" where
  "covered a0 S es \<longleftrightarrow> (\<forall>xs e ys. es = xs @ e # ys \<longrightarrow> {a0..e - 128} \<subseteq> S \<union> set xs)"

lemma covered_Cons:
  "covered a0 S (e # es) \<longleftrightarrow> {a0..e - 128} \<subseteq> S \<and> covered a0 (insert e S) es"
proof
  assume c: "covered a0 S (e # es)"
  have "{a0..f - 128} \<subseteq> insert e S \<union> set xs" if "es = xs @ f # ys" for xs f ys
    using c that unfolding covered_def by (metis append_Cons list.set(2) Un_insert_left Un_insert_right)
  moreover have "{a0..e - 128} \<subseteq> S" using c unfolding covered_def by (metis append_Nil list.set(1) Un_empty_right)
  ultimately show "{a0..e - 128} \<subseteq> S \<and> covered a0 (insert e S) es" unfolding covered_def by blast
next
  assume c: "{a0..e - 128} \<subseteq> S \<and> covered a0 (insert e S) es"
  show "covered a0 S (e # es)"
    unfolding covered_def
  proof (intro allI impI)
    fix xs f ys assume "e # es = xs @ f # ys"
    then show "{a0..f - 128} \<subseteq> S \<union> set xs"
      using c unfolding covered_def by (cases xs) auto
  qed
qed

lemma run_Push_mex:
  assumes "mex_state pay a0 S a r" "distinct es" "set es \<inter> S = {}" "set es \<subseteq> {a0..}"
    and "covered a0 S es"
  shows "\<exists>c. a \<le> c \<and> {a0..<c} \<subseteq> S \<union> set es \<and> c \<notin> S \<union> set es
    \<and> concat (fst (run Push r (map (\<lambda>e. (word_of_int e, pay e)) es)))
      = map (\<lambda>e. wire_pkt (e, pay e)) [a..c - 1]"
  using assms
proof (induction es arbitrary: S a r)
  case Nil
  then show ?case by (intro exI [of _ a]) (auto simp: mex_state_def)
next
  case (Cons e es)
  obtain out r' where push: "Push r (word_of_int e, pay e) = (out, r')"
    by (cases "Push r (word_of_int e, pay e)")
  have "{a0..e - 128} \<subseteq> S" and cov: "covered a0 (insert e S) es"
    using Cons.prems(5) by (simp_all add: covered_Cons)
  then obtain c where c: "a \<le> c" "mex_state pay a0 (insert e S) c r'"
      "out = map (\<lambda>e. wire_pkt (e, pay e)) [a..c - 1]"
    using Push_mex [OF Cons.prems(1) _ _ _ push] Cons.prems(3,4) by auto
  from Cons.IH [OF c(2) _ _ _ cov] obtain d where d: "c \<le> d" "{a0..<d} \<subseteq> insert e S \<union> set es"
      "d \<notin> insert e S \<union> set es" "concat (fst (run Push r' (map (\<lambda>e. (word_of_int e, pay e)) es)))
        = map (\<lambda>e. wire_pkt (e, pay e)) [c..d - 1]"
    using Cons.prems(2-4) by (auto simp: disjoint_iff)
  moreover have "[a..d - 1] = [a..c - 1] @ [c..d - 1]"
  proof (cases "c = d")
    case False
    then show ?thesis using c(1) d(1) by (intro upto_split1) simp_all
  qed simp
  ultimately show ?case using push c by (intro exI [of _ d]) simp
qed

lemma Push_window_order:
  assumes "distinct (a # es)" "set (a # es) = {a..<a + int n}"
    and "sorted_wrt (\<lambda>x y. x < y + MaxReorderWindow) (a # es)"
  shows "concat (fst (run Push reorderer0 (map (\<lambda>e. (word_of_int e, pay e)) (a # es))))
    = map (\<lambda>e. \<lparr>Seq = word_of_int e, RPayload = pay e\<rparr>) [a..a + int n - 1]"
proof -
  define r where "r = reorderer0\<lparr>initialized := True, nextSeq := word_of_int a\<rparr>"
  have st: "mex_state pay a {} a r"
    by (simp add: mex_state_def r_def reorderer0_def ring_ok_def buf_of_def slot0_def keep_from_def
        received_def fun_eq_iff restrict_map_def)
  have "{a..e - 128} \<subseteq> {} \<union> set xs" if "a # es = xs @ e # ys" for xs e ys
  proof
    fix x assume x: "x \<in> {a..e - 128}"
    have "e \<in> {a..<a + int n}" using that unfolding assms(2) [symmetric] by simp
    with x have "x \<in> {a..<a + int n}" by simp
    then have "x \<in> set (xs @ e # ys)" unfolding assms(2) [symmetric] that .
    moreover have "x \<notin> set ys"
      using assms(3) x unfolding that by (auto simp: sorted_wrt_append caps)
    ultimately show "x \<in> {} \<union> set xs" using x by auto
  qed
  then have "covered a {} (a # es)" by (simp add: covered_def)
  moreover have "set (a # es) \<subseteq> {a..}" unfolding assms(2) by auto
  ultimately obtain c where c: "a \<le> c" "{a..<c} \<subseteq> set (a # es)"
      "c \<notin> set (a # es)" "concat (fst (run Push r (map (\<lambda>e. (word_of_int e, pay e)) (a # es))))
        = map (\<lambda>e. wire_pkt (e, pay e)) [a..c - 1]"
    using run_Push_mex [OF st assms(1)] by auto
  have "c = a + int n"
  proof (rule ccontr)
    assume "c \<noteq> a + int n"
    moreover have "\<not> c < a + int n" using c(1,3) unfolding assms(2) by simp
    ultimately have "a + int n \<in> {a..<c}" by simp
    then show False using c(2) unfolding assms(2) by auto
  qed
  then show ?thesis using c(4) by (simp add: r_def run_first wire_pkt_def del: run_Cons)
qed

text \<open>
  C10. Reordering inside the window costs nothing. If the packets numbered \<open>a\<close> to \<open>a + n - 1\<close> arrive in any
  order that starts with \<open>a\<close> and in which no packet comes before one that is \<open>MaxReorderWindow\<close> or
  more behind it, the pushes alone release all of them, each with its own payload, in order.
\<close>

theorem Push_in_window:
  assumes "distinct (a # es)" "set (a # es) = {a..<a + int n}"
    and "sorted_wrt (\<lambda>x y. x < y + MaxReorderWindow) (a # es)"
  shows "concat (fst (run Push reorderer0 (map (\<lambda>e. (word_of_int e, pay e)) (a # es))))
    = map (\<lambda>e. \<lparr>Seq = word_of_int e, RPayload = pay e\<rparr>) [a..a + int n - 1]"
  using assms by (rule Push_window_order)

theorem Push_in_window_witness:
  "concat (fst (run Push reorderer0
       [(65534, [10]), (1, [13]), (65535, [11]), (0, [12])]))
     = [\<lparr>Seq = 65534, RPayload = [10]\<rparr>, \<lparr>Seq = 65535, RPayload = [11]\<rparr>,
        \<lparr>Seq = 0, RPayload = [12]\<rparr>, \<lparr>Seq = 1, RPayload = [13]\<rparr>]"
proof -
  have wrap: "(65536 :: u16) = 0" "(65537 :: u16) = 1" by simp_all
  have "{65534..<65534 + int 4} = set [65534, 65537, 65535, 65536]" by auto
  moreover have "[65534..65537 :: int] = [65534, 65535, 65536, 65537]" by (simp add: upto_rec1)
  ultimately show ?thesis
    using Push_in_window [of 65534 "[65537, 65535, 65536]" 4 "\<lambda>e. [word_of_int (e - 65524)]"]
    by (simp add: caps wrap del: run_Cons)
qed

end
