(* ===== verification/RTCP.thy ===== *)
theory RTCP
  imports Prelude "HOL-Library.Signed_Division"
begin

text \<open>
  RTCP: the compound parser, the Sender and Receiver Report marshallers and the NTP clock mapping of
  \<open>src/rtsp/rtp/rtcp.go\<close>, \<open>rtcp_marshal.go\<close> and \<open>ntp.go\<close>, with \<open>SenderClock.WallClock\<close> of
  \<open>src/stats.go\<close>. A \<open>time.Time\<close> is the number of nanoseconds since the Unix epoch, so that
  \<open>Unix()\<close> is its quotient and \<open>Nanosecond()\<close> its remainder by \<open>10 ^ 9\<close>.
\<close>

section \<open>Data\<close>

definition PTSenderReport :: byte where [caps]: "PTSenderReport = 200"
definition PTReceiverReport :: byte where [caps]: "PTReceiverReport = 201"
definition senderInfoSize :: nat where [caps]: "senderInfoSize = 28"
definition maxReportBlocks :: nat where [caps]: "maxReportBlocks = 31"
definition rrHeaderSize :: nat where [caps]: "rrHeaderSize = 8"
definition reportBlockSize :: nat where [caps]: "reportBlockSize = 24"

datatype rtcp_error = ErrShortRTCP | ErrRTCPVersion | ErrRTCPLength

record sender_report =
  SR_SSRC :: u32
  NTPTimestamp :: u64
  RTPTimestamp :: u32
  PacketCount :: u32
  OctetCount :: u32

record report_block =
  RB_SSRC :: u32
  FractionLost :: byte
  CumulativeLost :: u32
  HighestSequence :: u32
  Jitter :: u32
  LastSR :: u32
  DelaySinceLastSR :: u32

record receiver_report =
  ReporterSSRC :: u32
  Blocks :: "report_block list"

section \<open>Compound packets\<close>

text \<open>
  One iteration of the loop of \<open>ParseCompound\<close>: the Sender Report of the sub-packet at \<open>off\<close>, if it
  is one, and the length of the sub-packet.
\<close>

definition read_sender_info :: "bytes \<Rightarrow> nat \<Rightarrow> sender_report option" where
  "read_sender_info buf off = do {
     ssrc \<leftarrow> u32be buf (off + 4);
     hi \<leftarrow> u32be buf (off + 8);
     lo \<leftarrow> u32be buf (off + 12);
     rtp \<leftarrow> u32be buf (off + 16);
     pc \<leftarrow> u32be buf (off + 20);
     oc \<leftarrow> u32be buf (off + 24);
     Some \<lparr>SR_SSRC = ssrc, NTPTimestamp = be64 hi lo, RTPTimestamp = rtp, PacketCount = pc,
           OctetCount = oc\<rparr> }"

definition sub_packet :: "bytes \<Rightarrow> nat \<Rightarrow> (rtcp_error, sender_report list \<times> nat) go" where
  "sub_packet buf off =
     (if length buf - off < 4 then err ErrShortRTCP
      else do {
        b0 \<leftarrow> idx buf off;
        if drop_bit 6 b0 \<noteq> 2 then err ErrRTCPVersion
        else do {
          pt \<leftarrow> idx buf (off + 1);
          wordLen \<leftarrow> u16be buf (off + 2);
          let pktLen = (unat wordLen + 1) * 4 in
          if pktLen > length buf - off then err ErrRTCPLength
          else if pt = PTSenderReport \<and> pktLen \<ge> senderInfoSize then do {
            sr \<leftarrow> read_sender_info buf off;
            ok ([sr], pktLen) }
          else ok ([], pktLen) } })"

lemma sub_packet_length: "sub_packet buf off = ok (srs, n) \<Longrightarrow> 4 \<le> n \<and> off + n \<le> length buf"
  by (auto simp: sub_packet_def Let_def go_simps split: if_splits)

function compound_loop :: "bytes \<Rightarrow> nat \<Rightarrow> sender_report list \<Rightarrow> (rtcp_error, sender_report list) go" where
  "compound_loop buf off reports =
     (if off < length buf then
        go_bind (sub_packet buf off) (\<lambda>(srs, pktLen). compound_loop buf (off + pktLen) (reports @ srs))
      else ok reports)"
  by pat_completeness auto
termination
  by (relation "measure (\<lambda>(buf, off, reports). length buf - off)") (auto dest: sub_packet_length)

declare compound_loop.simps [simp del]

definition ParseCompound :: "bytes \<Rightarrow> (rtcp_error, sender_report list) go" where
  "ParseCompound buf = compound_loop buf 0 []"

section \<open>Marshalling\<close>

definition SenderReport_Marshal :: "sender_report \<Rightarrow> bytes" where
  "SenderReport_Marshal sr =
     [push_bit 6 2, PTSenderReport] @ put16 (word_of_nat (senderInfoSize div 4 - 1))
     @ put32 (SR_SSRC sr) @ put32 (ucast (drop_bit 32 (NTPTimestamp sr))) @ put32 (ucast (NTPTimestamp sr))
     @ put32 (RTPTimestamp sr) @ put32 (PacketCount sr) @ put32 (OctetCount sr)"

definition block_bytes :: "report_block \<Rightarrow> bytes" where
  "block_bytes b =
     put32 (RB_SSRC b)
     @ [FractionLost b, ucast (drop_bit 16 (CumulativeLost b)), ucast (drop_bit 8 (CumulativeLost b)),
        ucast (CumulativeLost b)]
     @ put32 (HighestSequence b) @ put32 (Jitter b) @ put32 (LastSR b) @ put32 (DelaySinceLastSR b)"

definition ReceiverReport_Marshal :: "receiver_report \<Rightarrow> bytes" where
  "ReceiverReport_Marshal r =
     (let n = min (length (Blocks r)) maxReportBlocks;
          size = rrHeaderSize + n * reportBlockSize;
          wordLen = size div 4 - 1
      in [word_of_nat (2 * 2 ^ 6) OR word_of_nat n, PTReceiverReport] @ put16 (word_of_nat wordLen)
         @ put32 (ReporterSSRC r) @ concat (map block_bytes (take n (Blocks r))))"

section \<open>Clocks\<close>

definition ntpUnixOffset :: int where [caps]: "ntpUnixOffset = 2208988800"

definition Second :: int where [caps]: "Second = 10 ^ 9"

text \<open>The zero \<open>time.Time\<close>, 1 January of the year 1.\<close>

definition zero_time :: int where "zero_time = - 62135596800 * Second"

definition NTPTime :: "u64 \<Rightarrow> int" where
  "NTPTime ts =
     (let s0 = uint (drop_bit 32 ts);
          sec = (if s0 < 0x80000000 then s0 + 2 ^ 32 else s0);
          nsec = drop_bit 32 ((ts AND 0xFFFFFFFF) * word_of_int Second)
      in (sec - ntpUnixOffset) * Second + uint nsec)"

definition NTPFromTime :: "int \<Rightarrow> u64" where
  "NTPFromTime t =
     (if t = zero_time then 0
      else let sec = word_of_int (t div Second + ntpUnixOffset) AND 0xFFFFFFFF;
               frac = push_bit 32 (word_of_int (t mod Second)) div word_of_int Second;
               ts = push_bit 32 sec OR frac
           in if ts \<noteq> 0 then ts else 1)"

record sender_clock =
  RTPTime :: u32
  SC_NTPTime :: int
  ReceivedAt :: int
  SC_ClockRate :: int
  Valid :: bool

definition SenderClockFrom :: "sender_report \<Rightarrow> int \<Rightarrow> int \<Rightarrow> sender_clock option" where
  "SenderClockFrom sr receivedAt clockRate =
     (if NTPTimestamp sr = 0 then None
      else Some \<lparr>RTPTime = RTPTimestamp sr, SC_NTPTime = NTPTime (NTPTimestamp sr),
                 ReceivedAt = receivedAt, SC_ClockRate = clockRate, Valid = True\<rparr>)"

text \<open>
  The products and the quotient are \<open>int64\<close> expressions, so each is reduced to 64 bits; the division
  truncates towards zero.
\<close>

definition int64 :: "int \<Rightarrow> int" where
  "int64 x = sint (word_of_int x :: u64)"

definition WallClock :: "sender_clock \<Rightarrow> u32 \<Rightarrow> int" where
  "WallClock sc rtpTime =
     (if \<not> Valid sc \<or> SC_ClockRate sc \<le> 0 then zero_time
      else let delta = sint (rtpTime - RTPTime sc)
           in SC_NTPTime sc + int64 (int64 (delta * Second) sdiv SC_ClockRate sc))"

section \<open>The compound parser\<close>

lemma sub_packet_no_panic: "sub_packet buf off \<noteq> None"
  by (auto simp: sub_packet_def read_sender_info_def Let_def caps)

text \<open>\<open>ParseCompound\<close> never panics, and it always terminates: every sub-packet advances the offset.\<close>

theorem ParseCompound_no_panic: "ParseCompound buf \<noteq> panic"
proof -
  have "compound_loop buf off reports \<noteq> None" for off reports
  proof (induction buf off reports rule: compound_loop.induct)
    case (1 buf off reports)
    then show ?case
      using sub_packet_no_panic [of buf off]
      by (auto simp: compound_loop.simps [of buf off] go_bind_None_iff iff del: not_None_eq)
  qed
  then show ?thesis by (simp add: ParseCompound_def)
qed

lemma length_block_bytes [simp]: "length (block_bytes b) = 24"
  by (simp add: block_bytes_def)

lemma length_concat_blocks: "length (concat (map block_bytes bs)) = 24 * length bs"
  by (induction bs) simp_all

lemma sub_packet_SR:
  "sub_packet (pre @ SenderReport_Marshal sr @ suf) (length pre) = ok ([sr], length (SenderReport_Marshal sr))"
  by (simp add: sub_packet_def read_sender_info_def SenderReport_Marshal_def caps put16_def put32_def
      nth_append be16_def Let_def)

lemma rr_first_byte: "n \<le> 31 \<Longrightarrow> drop_bit 6 (128 OR word_of_nat n :: byte) = 2"
proof -
  assume n: "n \<le> 31"
  have "unat (drop_bit 6 (word_of_nat n :: byte)) = drop_bit 6 n"
    using n by (simp add: unat_drop_bit_eq unat_of_nat take_bit_nat_eq_self)
  also have "\<dots> = 0" using n by (simp add: drop_bit_eq_div)
  finally have "drop_bit 6 (word_of_nat n :: byte) = 0" by (simp add: unat_eq_zero)
  moreover have "drop_bit 6 (128 :: byte) = 2" by simp
  ultimately show ?thesis by (simp only: drop_bit_or or.right_neutral)
qed

lemma length_RR: "length (ReceiverReport_Marshal r)
    = rrHeaderSize + min (length (Blocks r)) maxReportBlocks * reportBlockSize"
  by (simp add: ReceiverReport_Marshal_def Let_def length_concat_blocks caps)

lemma sub_packet_RR:
  "sub_packet (pre @ ReceiverReport_Marshal r @ suf) (length pre) = ok ([], length (ReceiverReport_Marshal r))"
proof -
  define n where "n = min (length (Blocks r)) 31"
  define body where "body = put32 (ReporterSSRC r) @ concat (map block_bytes (take n (Blocks r)))"
  have n: "n \<le> 31" by (simp add: n_def)
  have "(8 + n * 24) div 4 - 1 = 1 + 6 * n" by simp
  then have bytes: "ReceiverReport_Marshal r = [128 OR word_of_nat n, 201] @ put16 (word_of_nat (1 + 6 * n)) @ body"
    by (simp add: ReceiverReport_Marshal_def Let_def caps n_def body_def)
  have "unat (word_of_nat (1 + 6 * n) :: u16) = 1 + 6 * n"
    using n by (simp add: unat_of_nat take_bit_nat_eq_self del: of_nat_Suc of_nat_add of_nat_mult)
  moreover have "length body = 4 + 24 * n" "length body < 65536"
    using n by (auto simp: body_def length_concat_blocks n_def)
  ultimately show ?thesis
    using rr_first_byte [OF n] unfolding bytes
    by (simp add: sub_packet_def Let_def put16_def nth_append caps del: of_nat_Suc of_nat_add of_nat_mult)
qed

text \<open>What this library itself can put into a compound packet.\<close>

datatype rtcp_part = PSR sender_report | PRR receiver_report

fun part_bytes :: "rtcp_part \<Rightarrow> bytes" where
  "part_bytes (PSR sr) = SenderReport_Marshal sr"
| "part_bytes (PRR r) = ReceiverReport_Marshal r"

fun part_reports :: "rtcp_part \<Rightarrow> sender_report list" where
  "part_reports (PSR sr) = [sr]"
| "part_reports (PRR r) = []"

lemma sub_packet_part:
  "sub_packet (pre @ part_bytes x @ suf) (length pre) = ok (part_reports x, length (part_bytes x))"
  by (cases x) (simp_all add: sub_packet_SR sub_packet_RR)

lemma part_bytes_nonempty: "part_bytes x \<noteq> []"
  by (cases x) (simp_all add: SenderReport_Marshal_def ReceiverReport_Marshal_def Let_def)

lemma compound_loop_parts:
  "compound_loop (pre @ concat (map part_bytes xs)) (length pre) acc = ok (acc @ concat (map part_reports xs))"
proof (induction xs arbitrary: pre acc)
  case Nil
  show ?case by (simp add: compound_loop.simps)
next
  case (Cons x xs)
  have "compound_loop ((pre @ part_bytes x) @ concat (map part_bytes xs)) (length (pre @ part_bytes x))
      (acc @ part_reports x) = ok ((acc @ part_reports x) @ concat (map part_reports xs))"
    by (rule Cons.IH)
  then show ?case
    using part_bytes_nonempty [of x] by (simp add: compound_loop.simps [of _ "length pre"] sub_packet_part)
qed

text \<open>
  C14. Parsing inverts marshalling on compound packets: the concatenation of any Sender Reports and
  Receiver Reports, in any order, with any number of report blocks, parses to exactly the Sender
  Reports, field for field and in order. In particular the length word of a Receiver Report always
  agrees with the bytes written, also when more than \<open>maxReportBlocks\<close> blocks were asked for, so that the
  parser steps over it onto the next sub-packet.
\<close>

theorem ParseCompound_roundtrip:
  "ParseCompound (concat (map part_bytes xs)) = ok (concat (map part_reports xs))"
  using compound_loop_parts [of "[]" xs "[]"] by (simp add: ParseCompound_def)

section \<open>NTP and wall-clock time\<close>

text \<open>Both conversions over the integers.\<close>

lemma uint_word_of_int_small: "0 \<le> x \<Longrightarrow> x < 2 ^ 64 \<Longrightarrow> uint (word_of_int x :: u64) = x"
  by (simp add: unsigned_of_int take_bit_int_eq_self)

lemma low_word: "word_of_int x AND (0xFFFFFFFF :: u64) = word_of_int (x mod 2 ^ 32)"
proof -
  have m: "(0xFFFFFFFF :: u64) = mask 32" by (simp add: mask_eq_exp_minus_1)
  show ?thesis
    unfolding m take_bit_eq_mod [symmetric] by (rule bit_word_eqI) (auto simp: bit_simps)
qed

lemma NTPTime_int:
  assumes "ts = push_bit 32 (word_of_int s) OR word_of_int f" "0 \<le> s" "s < 2 ^ 32" "0 \<le> f" "f < 2 ^ 32"
  shows "NTPTime ts = ((if s < 2 ^ 31 then s + 2 ^ 32 else s) - ntpUnixOffset) * Second
    + f * Second div 2 ^ 32"
proof -
  have s: "uint (word_of_int s :: u64) = s" and f: "uint (word_of_int f :: u64) = f"
    using assms by (simp_all add: take_bit_int_eq_self unsigned_of_int)
  have sb: "n < 32" if "bit s n" for n
    using assms(2,3) that by (metis bit_take_bit_iff take_bit_int_eq_self)
  have fb: "n < 32" if "bit f n" for n
    using assms(4,5) that by (metis bit_take_bit_iff take_bit_int_eq_self)
  have hi: "drop_bit 32 ts = word_of_int s"
    using fb sb by (intro bit_word_eqI) (auto simp: assms(1) bit_simps)
  have "(0xFFFFFFFF :: u64) = mask 32" by (simp add: mask_eq_exp_minus_1)
  then have lo: "ts AND 0xFFFFFFFF = word_of_int f"
    unfolding \<open>0xFFFFFFFF = mask 32\<close> using fb by (intro bit_word_eqI) (auto simp: assms(1) bit_simps)
  have fs: "0 \<le> f * Second" "f * Second < 2 ^ 64" using assms(4,5) by (simp_all add: caps)
  then have "uint (word_of_int f * word_of_int Second :: u64) = f * Second"
    using assms(4) uint_word_of_int_small [of "f * Second"] by (simp add: caps)
  then have "uint (drop_bit 32 (word_of_int f * word_of_int Second :: u64)) = f * Second div 2 ^ 32"
    by (simp only: unsigned_drop_bit_eq) (use fs in \<open>simp add: drop_bit_eq_div take_bit_int_eq_self\<close>)
  then show ?thesis by (simp add: NTPTime_def hi lo s Let_def)
qed

lemma NTPFromTime_int:
  assumes "t \<noteq> zero_time" and s: "s = (t div Second + ntpUnixOffset) mod 2 ^ 32"
    and f: "f = t mod Second * 2 ^ 32 div Second"
  shows "NTPFromTime t = (if s = 0 \<and> f = 0 then 1 else push_bit 32 (word_of_int s) OR word_of_int f)"
    and "0 \<le> f" "f < 2 ^ 32"
proof -
  have n: "0 \<le> t mod Second" "t mod Second < Second" by (simp_all add: caps)
  then show fb: "0 \<le> f" "f < 2 ^ 32" by (simp_all add: f caps)
  have sec: "word_of_int (t div Second + ntpUnixOffset) AND (0xFFFFFFFF :: u64) = word_of_int s"
    unfolding s by (rule low_word)
  have "push_bit 32 (word_of_int (t mod Second)) = (word_of_int (t mod Second * 2 ^ 32) :: u64)"
    by (simp add: push_bit_eq_mult)
  moreover have "uint (word_of_int (t mod Second * 2 ^ 32) :: u64) = t mod Second * 2 ^ 32"
    using n by (intro uint_word_of_int_small) (simp_all add: caps)
  moreover have "uint (word_of_int Second :: u64) = Second" by (simp add: caps)
  ultimately have frac: "push_bit 32 (word_of_int (t mod Second)) div word_of_int Second = (word_of_int f :: u64)"
    by (metis f uint_div_distrib word_of_int_uint)
  have "push_bit 32 (word_of_int s) OR word_of_int f = (0 :: u64) \<longleftrightarrow> s = 0 \<and> f = 0"
  proof -
    have "s = 0" if "push_bit 32 (word_of_int s) = (0 :: u64)"
    proof -
      have "uint (push_bit 32 (word_of_int s) :: u64) = s * 2 ^ 32"
        using uint_word_of_int_small [of "s * 2 ^ 32"] by (simp add: push_bit_eq_mult s)
      with that show ?thesis by simp
    qed
    moreover have "f = 0" if "word_of_int f = (0 :: u64)"
      using that fb uint_word_of_int_small [of f] by simp
    ultimately show ?thesis by (auto simp: or_eq_0_iff)
  qed
  then show "NTPFromTime t = (if s = 0 \<and> f = 0 then 1 else push_bit 32 (word_of_int s) OR word_of_int f)"
    unfolding NTPFromTime_def Let_def sec frac using assms(1) by simp
qed

text \<open>
  C15. The NTP encoding is faithful over the years 1968 to 2104: for any time whose NTP seconds lie in
  that window of \<open>2 ^ 32\<close> seconds, decoding the encoded timestamp gives the time back, at most one
  nanosecond early; the nudge away from the all-zero timestamp is inside that nanosecond, and no
  time but the zero \<open>time.Time\<close> encodes to the reserved zero.
\<close>

theorem NTPTime_NTPFromTime:
  assumes "2 ^ 31 \<le> t div Second + ntpUnixOffset" "t div Second + ntpUnixOffset < 2 ^ 31 + 2 ^ 32"
  shows "NTPTime (NTPFromTime t) \<le> t \<and> t \<le> NTPTime (NTPFromTime t) + 1 \<and> NTPFromTime t \<noteq> 0"
proof -
  define s f where "s = (t div Second + ntpUnixOffset) mod 2 ^ 32" and "f = t mod Second * 2 ^ 32 div Second"
  have nz: "t \<noteq> zero_time" using assms by (auto simp: zero_time_def caps)
  note N = NTPFromTime_int [OF nz s_def f_def]
  define ts :: u64 where "ts = push_bit 32 (word_of_int s) OR word_of_int f"
  have era: "(if s < 2 ^ 31 then s + 2 ^ 32 else s) = t div Second + ntpUnixOffset"
    using assms by (auto simp: s_def) (smt (verit) mod_pos_pos_trivial minus_mod_self2)+
  have s: "0 \<le> s" "s < 2 ^ 32" by (simp_all add: s_def)
  have val: "NTPTime ts = t div Second * Second + f * Second div 2 ^ 32"
    using NTPTime_int [OF ts_def s N(2,3)] era by simp
  have "t mod Second * 2 ^ 32 - Second < f * Second" "f * Second \<le> t mod Second * 2 ^ 32"
    by (simp_all add: f_def caps)
  then have fs: "f * Second div 2 ^ 32 \<le> t mod Second" "t mod Second \<le> f * Second div 2 ^ 32 + 1"
    by (simp_all add: caps)
  have tt: "t = t div Second * Second + t mod Second" by simp
  show ?thesis
  proof (cases "s = 0 \<and> f = 0")
    case True
    then have "NTPTime (NTPFromTime t) = NTPTime ts"
      using N(1) NTPTime_int [of 1 0 1] NTPTime_int [OF ts_def s N(2,3)] by (simp add: caps)
    then show ?thesis using N(1) True val fs tt by (metis add_left_mono add.assoc one_neq_zero)
  next
    case False
    have "NTPFromTime t \<noteq> 0"
      using nz False N(1) NTPFromTime_def [of t] by (auto simp: Let_def split: if_splits)
    then show ?thesis using N(1) False val fs tt ts_def by (smt (verit))
  qed
qed

theorem NTPTime_NTPFromTime_witness:
  "NTPTime (NTPFromTime (2085978496 * Second)) \<le> 2085978496 * Second
    \<and> 2085978496 * Second \<le> NTPTime (NTPFromTime (2085978496 * Second)) + 1
    \<and> NTPFromTime (2085978496 * Second) \<noteq> 0"
  using NTPTime_NTPFromTime [of "2085978496 * Second"] by (simp add: caps)

lemma int64_id: "- (2 ^ 63) \<le> x \<Longrightarrow> x < 2 ^ 63 \<Longrightarrow> int64 x = x"
  unfolding int64_def sint_sbintrunc' by (simp add: signed_take_bit_int_eq_self)

lemma sdiv_bounds:
  fixes x r :: int
  assumes "0 < r" shows "\<bar>x sdiv r\<bar> \<le> \<bar>x\<bar>"
proof -
  have "\<bar>x\<bar> div r \<le> \<bar>x\<bar> div 1" using assms by (intro zdiv_mono2) simp_all
  moreover have "0 \<le> \<bar>x\<bar> div r" using assms by (simp add: pos_imp_zdiv_nonneg_iff)
  ultimately show ?thesis using assms by (auto simp: signed_divide_int_def abs_mult sgn_if abs_of_pos abs_of_neg)
qed

text \<open>
  C16. A Sender Report with a usable NTP timestamp maps RTP time to wall-clock time across the 32-bit
  wrap: a timestamp \<open>d\<close> ticks after (or, negative, before) the report's own is mapped to the report's
  wall clock plus \<open>d\<close> ticks at the clock rate, truncated to a nanosecond, and none of the 64-bit
  products overflows.
\<close>

theorem WallClock_extrapolates:
  assumes "SenderClockFrom sr received rate = Some sc" "0 < rate" "- (2 ^ 31) \<le> d" "d < 2 ^ 31"
  shows "WallClock sc (RTPTimestamp sr + word_of_int d)
    = NTPTime (NTPTimestamp sr) + (d * Second) sdiv rate"
proof -
  have sc: "Valid sc" "SC_ClockRate sc = rate" "RTPTime sc = RTPTimestamp sr"
    "SC_NTPTime sc = NTPTime (NTPTimestamp sr)"
    using assms(1) by (auto simp: SenderClockFrom_def split: if_splits)
  have "sint (word_of_int d :: u32) = d"
    unfolding sint_sbintrunc' using assms(3,4) by (simp add: signed_take_bit_int_eq_self)
  moreover have b: "\<bar>d * Second\<bar> < 2 ^ 62" using assms(3,4) by (simp add: caps abs_if)
  then have "int64 (d * Second) = d * Second" by (intro int64_id) auto
  moreover have "int64 ((d * Second) sdiv rate) = (d * Second) sdiv rate"
    using sdiv_bounds [OF assms(2), of "d * Second"] b by (intro int64_id) auto
  ultimately show ?thesis using assms(2) by (simp add: WallClock_def sc)
qed

theorem WallClock_extrapolates_witness:
  "WallClock \<lparr>RTPTime = 0xFFFFFF00, SC_NTPTime = NTPTime (push_bit 32 3900000000), ReceivedAt = 0,
      SC_ClockRate = 8000, Valid = True\<rparr> 7744
    = NTPTime (push_bit 32 3900000000) + Second"
proof -
  have wrap: "(4294975040 :: u32) = 7744" by simp
  show ?thesis
    using WallClock_extrapolates [of "\<lparr>SR_SSRC = 1, NTPTimestamp = push_bit 32 3900000000,
      RTPTimestamp = 0xFFFFFF00, PacketCount = 0, OctetCount = 0\<rparr>" 0 8000 _ 8000]
    by (simp add: SenderClockFrom_def caps signed_divide_int_def wrap)
qed

end
