(* ===== verification/Bits.thy ===== *)
theory Bits
  imports Prelude
begin

text \<open>
  Bit strings. Several formats of the library are read bit by bit, most significant bit first. This
  theory holds the reference reading of a byte string as a list of bits and as a number, against
  which the bit readers of the components are proved.
\<close>

definition byte_bits :: "byte \<Rightarrow> bool list" where
  "byte_bits b = map (bit b) (rev [0..<8])"

definition bits_of :: "bytes \<Rightarrow> bool list" where
  "bits_of bs = concat (map byte_bits bs)"

definition bits_nat :: "bool list \<Rightarrow> nat" where
  "bits_nat bs = foldl (\<lambda>a b. 2 * a + of_bool b) 0 bs"

definition bytes_nat :: "bytes \<Rightarrow> nat" where
  "bytes_nat bs = foldl (\<lambda>a b. 256 * a + unat b) 0 bs"

lemma length_byte_bits [simp]: "length (byte_bits b) = 8"
  by (simp add: byte_bits_def)

lemma bits_of_simps [simp]: "bits_of [] = []" "bits_of (b # bs) = byte_bits b @ bits_of bs"
  "bits_of (xs @ ys) = bits_of xs @ bits_of ys"
  by (simp_all add: bits_of_def)

lemma length_bits_of [simp]: "length (bits_of bs) = 8 * length bs"
  by (induction bs) simp_all

lemma bits_nat_snoc [simp]: "bits_nat [] = 0" "bits_nat (bs @ [b]) = 2 * bits_nat bs + of_bool b"
  by (simp_all add: bits_nat_def)

lemma bits_nat_single [simp]: "bits_nat [b] = of_bool b"
  by (simp add: bits_nat_def)

lemma bits_nat_append: "bits_nat (xs @ ys) = bits_nat xs * 2 ^ length ys + bits_nat ys"
proof (induction ys rule: rev_induct)
  case (snoc y ys)
  have "bits_nat (xs @ ys @ [y]) = 2 * bits_nat (xs @ ys) + of_bool y"
    using bits_nat_snoc(2) [of "xs @ ys" y] by simp
  then show ?case using snoc by (simp add: algebra_simps)
qed simp

lemma bits_nat_less: "bits_nat bs < 2 ^ length bs"
  by (induction bs rule: rev_induct) (auto simp: of_bool_def)

lemma bits_nat_take_high: "bits_nat (xs @ ys) div 2 ^ length ys = bits_nat xs"
  using bits_nat_less [of ys] by (simp add: bits_nat_append)

lemma bits_nat_low: "bits_nat (xs @ ys) mod 2 ^ length ys = bits_nat ys"
  using bits_nat_less [of ys] by (simp add: bits_nat_append)

text \<open>A bit field in the middle: shift the bits after it out, mask the bits before it.\<close>

lemma bits_nat_field:
  "bits_nat (xs @ fs @ ys) div 2 ^ length ys mod 2 ^ length fs = bits_nat fs"
  using bits_nat_take_high [of "xs @ fs" ys] bits_nat_low [of xs fs] by simp

lemma bits_nat_take_bit: "bits_nat (map (bit n) (rev [0..<k])) = take_bit k n"
proof (induction k)
  case (Suc k)
  have "bits_nat (map (bit n) (rev [0..<Suc k])) = bits_nat ([bit n k] @ map (bit n) (rev [0..<k]))" by simp
  also have "\<dots> = of_bool (bit n k) * 2 ^ k + take_bit k n"
    unfolding bits_nat_append by (simp add: Suc)
  finally show ?case by (simp add: take_bit_Suc_from_most mult.commute)
qed simp

lemma unat_bits: "bits_nat (byte_bits b) = unat b"
proof -
  have "byte_bits b = map (bit (unat b)) (rev [0..<8])"
    by (simp add: byte_bits_def bit_unsigned_iff)
  then show ?thesis
    using bits_nat_take_bit [of "unat b" 8] unat_byte_less [of b] by (simp add: take_bit_nat_eq_self)
qed

lemma bytes_nat_simps [simp]: "bytes_nat [] = 0" "bytes_nat (bs @ [b]) = 256 * bytes_nat bs + unat b"
  by (simp_all add: bytes_nat_def)

lemma bits_nat_bytes: "bits_nat (bits_of bs) = bytes_nat bs"
  by (induction bs rule: rev_induct) (simp_all add: bits_nat_append unat_bits)

lemma bytes_nat_less: "bytes_nat bs < 256 ^ length bs"
  using bits_nat_less [of "bits_of bs"] by (simp add: bits_nat_bytes power_mult)

text \<open>Accumulating at most eight bytes in a 64-bit register loses nothing.\<close>

lemma unat_acc64:
  "length bs \<le> 8 \<Longrightarrow> unat (foldl (\<lambda>acc x. push_bit 8 acc OR ucast x) (0 :: u64) bs) = bytes_nat bs"
proof (induction bs rule: rev_induct)
  case (snoc b bs)
  define acc where "acc = foldl (\<lambda>acc x. push_bit 8 acc OR ucast x) (0 :: u64) bs"
  have IH: "unat acc = bytes_nat bs" using snoc by (simp add: acc_def)
  have "bytes_nat bs < 256 ^ 7"
    using bytes_nat_less [of bs] snoc.prems power_increasing [of "length bs" 7 "256 :: nat"] by simp
  then have small: "256 * unat acc < 2 ^ 64" by (simp add: IH)
  have "push_bit 8 acc OR ucast b = push_bit 8 acc + ucast b"
    by (rule disjunctive_add_eq_or [symmetric], rule bit_word_eqI) (auto simp: bit_simps dest: bit_imp_le_length)
  also have "\<dots> = word_of_nat (256 * unat acc + unat b)"
    by (simp only: push_bit_eq_mult ucast_as_nat [of b] of_nat_add of_nat_mult) simp
  finally have "unat (push_bit 8 acc OR ucast b) = 256 * unat acc + unat b"
    using small unat_byte_less [of b] \<open>bytes_nat bs < 256 ^ 7\<close>
    by (simp add: unat_of_nat take_bit_nat_eq_self IH del: of_nat_add of_nat_mult)
  then show ?case by (simp add: acc_def [symmetric] IH)
qed simp

text \<open>Shift down, then mask: the usual extraction of a bit field.\<close>

lemma unat_field:
  fixes a :: "'a::len word"
  shows "unat (drop_bit p a AND (push_bit n 1 - 1)) = unat a div 2 ^ p mod 2 ^ n"
proof -
  have "push_bit n 1 - 1 = (mask n :: 'a word)" by (simp add: mask_eq_exp_minus_1)
  then have "unat (drop_bit p a AND (push_bit n 1 - 1)) = take_bit n (unat (drop_bit p a))"
    by (simp only: take_bit_eq_mask [symmetric] unsigned_take_bit_eq)
  then show ?thesis by (simp only: unat_drop_bit_eq) (simp add: take_bit_eq_mod drop_bit_eq_div)
qed

text \<open>Disjoint fields: or-ing them together is adding them.\<close>

lemma push_or_add: "(y :: nat) < 2 ^ k \<Longrightarrow> push_bit k x OR y = x * 2 ^ k + y"
proof -
  assume y: "y < 2 ^ k"
  have bit: "n < k" if "bit y n" for n
    using y that by (metis bit_take_bit_iff take_bit_nat_eq_self)
  have "push_bit k x AND y = 0" by (rule bit_eqI) (auto simp: bit_simps dest: bit)
  then show ?thesis by (simp add: disjunctive_add_eq_or [symmetric] push_bit_eq_mult)
qed

end
