(* ===== verification/Depacketizer.thy ===== *)
theory Depacketizer
  imports Prelude
begin

text \<open>
  The contract the packages under \<open>src/depacket/\<close> share. A depacketizer is driven by one goroutine
  with two operations, \<open>Depacketize\<close> on a payload and \<open>Reset\<close> on a sequence discontinuity. Whatever
  the sequence of the two, it must not panic and must not hold more than a fixed number of bytes. The
  locale states what each operation promises; the interpretations in the component theories discharge
  it for the code's own definitions.
\<close>

datatype 'i depacket_event = Arrive 'i | Discontinuity

definition on_event ::
  "('s \<Rightarrow> 'i \<Rightarrow> ('e, 'o) go \<times> 's) \<Rightarrow> ('s \<Rightarrow> 's) \<Rightarrow> 's \<Rightarrow> 'i depacket_event \<Rightarrow> ('e, 'o) go list \<times> 's" where
  "on_event step reset s ev =
     (case ev of Arrive i \<Rightarrow> (let (out, s') = step s i in ([out], s')) | Discontinuity \<Rightarrow> ([], reset s))"

abbreviation outputs where
  "outputs step reset s evs \<equiv> concat (fst (run (on_event step reset) s evs))"

abbreviation final_state where
  "final_state step reset s evs \<equiv> snd (run (on_event step reset) s evs)"

locale depacketizer =
  fixes step :: "'s \<Rightarrow> 'i \<Rightarrow> ('e, 'o) go \<times> 's"
    and reset :: "'s \<Rightarrow> 's"
    and inv :: "'s \<Rightarrow> bool"
    and held :: "'s \<Rightarrow> nat"
    and bound :: nat
  assumes reset_inv: "inv s \<Longrightarrow> inv (reset s)"
    and step_inv: "inv s \<Longrightarrow> inv (snd (step s i))"
    and step_no_panic: "inv s \<Longrightarrow> fst (step s i) \<noteq> panic"
    and held_bound: "inv s \<Longrightarrow> held s \<le> bound"

sublocale depacketizer \<subseteq> events: invariant_machine "on_event step reset" inv "\<lambda>out. panic \<notin> set out"
proof
  fix s and ev :: "'i depacket_event"
  assume "inv s"
  then show "inv (snd (on_event step reset s ev))" "panic \<notin> set (fst (on_event step reset s ev))"
    using reset_inv [of s] step_inv [of s] step_no_panic [of s]
    by (auto simp: on_event_def case_prod_beta Let_def eq_commute [of None] iff del: not_None_eq
        split: depacket_event.split)
qed

context depacketizer
begin

lemma no_panic: "inv s \<Longrightarrow> panic \<notin> set (outputs step reset s evs)"
  using events.run_good by fastforce

lemma bounded: "inv s \<Longrightarrow> held (final_state step reset s evs) \<le> bound"
  by (rule held_bound) (rule events.run_inv)

end

end
