(* ===== verification/AAC.thy ===== *)
theory AAC
  imports Bits Depacketizer
begin

text \<open>
  The RFC 3640 depacketizer of \<open>src/depacket/aac\<close>: configuration check, the AU-header parser with its
  bit reader, fragment reassembly and the splitting of a packet into access units. The scratch slices
  \<open>aus\<close> and \<open>headers\<close> of the Go struct hold no state between calls and are not modelled. An \<open>int\<close>
  is 64 bits wide, so that a 31-bit size never wraps.
\<close>

section \<open>Data\<close>

definition MaxAUsPerPacket :: nat where [caps]: "MaxAUsPerPacket = 512"
definition MaxFragmentSize :: nat where [caps]: "MaxFragmentSize = 64 * 1024"

datatype aac_error = AACErrConfigInvalid | ErrTruncatedHeader | ErrAUSizeOverflow
  | ErrFragmentOverflow | ErrInterleavingUnsupported

record aac_config =
  SizeLength :: int
  IndexLength :: int
  IndexDeltaLength :: int
  SamplesPerFrame :: int

record access_unit =
  AU_Data :: bytes
  RTPOffset :: u32

record aac_depacketizer =
  cfg :: aac_config
  frag :: bytes
  fragActive :: bool
  fragTotalSize :: nat

record au_header =
  au_size :: nat
  au_index :: nat

definition aac_New :: "aac_config \<Rightarrow> aac_error + aac_depacketizer" where
  "aac_New c =
     (if SizeLength c < 1 \<or> SizeLength c > 31 then Inl AACErrConfigInvalid
      else if IndexLength c < 0 \<or> IndexLength c > 32 then Inl AACErrConfigInvalid
      else if IndexDeltaLength c < 0 \<or> IndexDeltaLength c > 32 then Inl AACErrConfigInvalid
      else if SamplesPerFrame c < 1 \<or> SamplesPerFrame c > 8192 then Inl AACErrConfigInvalid
      else if SizeLength c + IndexLength c > 64 then Inl AACErrConfigInvalid
      else if SizeLength c + IndexDeltaLength c > 64 then Inl AACErrConfigInvalid
      else Inr \<lparr>cfg = c, frag = [], fragActive = False, fragTotalSize = 0\<rparr>)"

definition aac_Reset :: "aac_depacketizer \<Rightarrow> aac_depacketizer" where
  "aac_Reset d = d\<lparr>fragActive := False, fragTotalSize := 0, frag := []\<rparr>"

section \<open>AU headers\<close>

definition aac_readBits :: "bytes \<Rightarrow> nat \<Rightarrow> nat \<Rightarrow> nat option" where
  "aac_readBits hdr bitPos n =
     (if n = 0 then Some 0
      else let firstByte = bitPos div 8; lastByte = (bitPos + n - 1) div 8 in do {
        span \<leftarrow> slice hdr firstByte (lastByte + 1);
        let acc = foldl (\<lambda>acc x. push_bit 8 acc OR ucast x) (0 :: u64) span;
            rightPad = (lastByte + 1) * 8 - (bitPos + n)
        in Some (unat (drop_bit rightPad acc AND (push_bit n 1 - 1))) })"

text \<open>
  The header loop. The guard on \<open>MaxAUsPerPacket\<close> bounds it whatever the configuration; the check
  \<open>consumed \<noteq> l\<close> behind the loop is the source's backstop.
\<close>

function au_loop :: "aac_config \<Rightarrow> bytes \<Rightarrow> nat \<Rightarrow> nat \<Rightarrow> au_header list \<Rightarrow> (aac_error, au_header list \<times> nat) go" where
  "au_loop c hdr l consumed headers =
     (if consumed < l then
        if length headers \<ge> MaxAUsPerPacket then err ErrTruncatedHeader
        else
          let idxBits = nat (if headers = [] then IndexLength c else IndexDeltaLength c);
              headerBits = nat (SizeLength c) + idxBits
          in if consumed + headerBits > l then err ErrTruncatedHeader
             else case aac_readBits hdr consumed (nat (SizeLength c)) of
                 None \<Rightarrow> panic
               | Some sz \<Rightarrow>
                 (case aac_readBits hdr (consumed + nat (SizeLength c)) idxBits of
                    None \<Rightarrow> panic
                  | Some index \<Rightarrow>
                    if index \<noteq> 0 then err ErrInterleavingUnsupported
                    else au_loop c hdr l (consumed + headerBits)
                           (headers @ [\<lparr>au_size = sz, au_index = index\<rparr>]))
      else ok (headers, consumed))"
  by pat_completeness auto
termination
  by (relation "measure (\<lambda>(c, hdr, l, consumed, headers). MaxAUsPerPacket - length headers)") auto

declare au_loop.simps [simp del]

definition parseAUHeaders :: "aac_config \<Rightarrow> bytes \<Rightarrow> (aac_error, au_header list \<times> nat) go" where
  "parseAUHeaders c payload =
     (if length payload < 2 then err ErrTruncatedHeader
      else do {
        w \<leftarrow> u16be payload 0;
        let l = unat w in
        if l = 0 then err ErrTruncatedHeader
        else
          let headerBytes = (l + 7) div 8; dataStart = 2 + headerBytes in
          if length payload < dataStart then err ErrTruncatedHeader
          else do {
            hdr \<leftarrow> slice payload 2 dataStart;
            go_bind (au_loop c hdr l 0 []) (\<lambda>(headers, consumed).
              if consumed \<noteq> l then err ErrTruncatedHeader else ok (headers, dataStart)) } })"

section \<open>Depacketize\<close>

fun complete_aus :: "aac_config \<Rightarrow> bytes \<Rightarrow> nat \<Rightarrow> nat \<Rightarrow> au_header list \<Rightarrow> (aac_error, access_unit list) go" where
  "complete_aus c payload i offset [] = ok []"
| "complete_aus c payload i offset (h # hs) =
     (if int (au_size h) > int (length payload) - int offset then err ErrAUSizeOverflow
      else do {
        au \<leftarrow> slice payload offset (offset + au_size h);
        go_bind (complete_aus c payload (i + 1) (offset + au_size h) hs) (\<lambda>aus.
          ok (\<lparr>AU_Data = au, RTPOffset = word_of_nat i * word_of_int (SamplesPerFrame c)\<rparr> # aus)) })"

definition continue_fragment ::
  "aac_depacketizer \<Rightarrow> bytes \<Rightarrow> bool \<Rightarrow> au_header list \<Rightarrow> nat \<Rightarrow> (aac_error, access_unit list) go \<times> aac_depacketizer" where
  "continue_fragment d payload marker headers dataStart =
     (if length headers \<noteq> 1 then (err ErrTruncatedHeader, aac_Reset d)
      else if au_size (hd headers) \<noteq> fragTotalSize d then (err ErrAUSizeOverflow, aac_Reset d)
      else if length (frag d) + (length payload - dataStart) > fragTotalSize d
           \<or> length (frag d) + (length payload - dataStart) > MaxFragmentSize
      then (err ErrFragmentOverflow, aac_Reset d)
      else case slice payload dataStart (length payload) of
          None \<Rightarrow> (panic, d)
        | Some piece \<Rightarrow>
          let d1 = d\<lparr>frag := frag d @ piece\<rparr> in
          if marker \<and> length (frag d1) < fragTotalSize d1 then (err ErrAUSizeOverflow, aac_Reset d1)
          else if marker then
            (ok [\<lparr>AU_Data = frag d1, RTPOffset = 0\<rparr>], d1\<lparr>fragActive := False, fragTotalSize := 0\<rparr>)
          else if length (frag d1) = fragTotalSize d1 then (err ErrAUSizeOverflow, aac_Reset d1)
          else (ok [], d1))"

definition aac_Depacketize ::
  "aac_depacketizer \<Rightarrow> bytes \<times> bool \<Rightarrow> (aac_error, access_unit list) go \<times> aac_depacketizer" where
  "aac_Depacketize d pm =
     (let (payload, marker) = pm in
      case parseAUHeaders (cfg d) payload of
        None \<Rightarrow> (panic, d)
      | Some (Inl e) \<Rightarrow> (err e, if fragActive d then aac_Reset d else d)
      | Some (Inr (headers, dataStart)) \<Rightarrow>
        if fragActive d then continue_fragment d payload marker headers dataStart
        else
          let dataLen = length payload - dataStart in
          if length headers = 1 \<and> au_size (hd headers) > dataLen then
            if marker then (err ErrAUSizeOverflow, d)
            else if au_size (hd headers) > MaxFragmentSize then (err ErrFragmentOverflow, d)
            else case slice payload dataStart (length payload) of
                None \<Rightarrow> (panic, d)
              | Some piece \<Rightarrow>
                (ok [], d\<lparr>fragTotalSize := au_size (hd headers), frag := piece, fragActive := True\<rparr>)
          else (complete_aus (cfg d) payload 0 dataStart headers, d))"

section \<open>The bit reader\<close>

lemma readBits_field:
  assumes "bitPos + n \<le> 8 * length hdr" "n \<le> 32"
  shows "aac_readBits hdr bitPos n = Some (bits_nat (take n (drop bitPos (bits_of hdr))))"
proof (cases "n = 0")
  case True
  then show ?thesis by (simp add: aac_readBits_def)
next
  case False
  define f l where "f = bitPos div 8" and "l = (bitPos + n - 1) div 8"
  define span where "span = take (l + 1 - f) (drop f hdr)"
  define pad where "pad = (l + 1) * 8 - (bitPos + n)"
  have fl: "f \<le> l" "l + 1 \<le> length hdr" "l + 1 - f \<le> 8"
    using assms False by (auto simp: f_def l_def div_le_mono)
  have lo: "8 * f \<le> bitPos" "bitPos + n \<le> 8 * (l + 1)"
    using False by (auto simp: f_def l_def)
  have split: "bits_of hdr = bits_of (take f hdr) @ bits_of span @ bits_of (drop (l + 1) hdr)"
  proof -
    have "hdr = take f hdr @ span @ drop (l + 1) hdr"
      using fl by (simp add: span_def) (metis append_take_drop_id drop_drop le_add_diff_inverse2 le_SucI)
    then show ?thesis by (metis bits_of_simps(3))
  qed
  have len: "length (bits_of span) = 8 * (l + 1 - f)" using fl by (simp add: span_def)
  define pre where "pre = take (bitPos - 8 * f) (bits_of span)"
  define fld where "fld = take n (drop (bitPos - 8 * f) (bits_of span))"
  define suf where "suf = drop (bitPos - 8 * f + n) (bits_of span)"
  have parts: "bits_of span = pre @ fld @ suf"
    unfolding pre_def fld_def suf_def by (metis append_take_drop_id drop_drop add.commute)
  have lens: "length fld = n" "length suf = pad"
    using len lo fl by (auto simp: fld_def suf_def pad_def)
  have field: "take n (drop bitPos (bits_of hdr)) = fld"
    using split lo len fl lens by (simp add: fld_def)
  define acc where "acc = foldl (\<lambda>acc x. push_bit 8 acc OR ucast x) (0 :: u64) span"
  have "unat acc = bits_nat (bits_of span)"
    using fl by (simp add: acc_def unat_acc64 bits_nat_bytes span_def)
  then have "unat (drop_bit pad acc AND (push_bit n 1 - 1)) = bits_nat (pre @ fld @ suf) div 2 ^ pad mod 2 ^ n"
    by (simp only: unat_field parts)
  then have "unat (drop_bit pad acc AND (push_bit n 1 - 1)) = bits_nat fld"
    using bits_nat_field [of pre fld suf] lens by simp
  moreover have sl: "slice hdr f (l + 1) = Some span" using fl by (simp add: span_def)
  ultimately show ?thesis
    unfolding aac_readBits_def Let_def f_def [symmetric] l_def [symmetric] field sl
    by (simp only: False if_False Option.bind_lunit acc_def [symmetric] pad_def [symmetric])
qed

text \<open>
  The bit reader is bit-identical to a bit-at-a-time read: for a field of at most 32 bits inside
  the region, loading whole bytes into a 64-bit accumulator, shifting and masking gives the number
  whose binary digits are the \<open>n\<close> bits from \<open>bitPos\<close> on, most significant first.
\<close>

theorem aac_readBits_bitwise:
  assumes "bitPos + n \<le> 8 * length hdr" "n \<le> 32"
  shows "aac_readBits hdr bitPos n = Some (bits_nat (take n (drop bitPos (bits_of hdr))))"
  using assms by (rule readBits_field)

theorem aac_readBits_bitwise_witness:
  "aac_readBits [0x12, 0x34, 0x56] 3 13 = Some (bits_nat (take 13 (drop 3 (bits_of [0x12, 0x34, 0x56]))))"
  by (rule aac_readBits_bitwise) simp_all

section \<open>The header parser\<close>

definition config_ok :: "aac_config \<Rightarrow> bool" where
  "config_ok c \<longleftrightarrow> 1 \<le> SizeLength c \<and> SizeLength c \<le> 31 \<and> 0 \<le> IndexLength c \<and> IndexLength c \<le> 32
     \<and> 0 \<le> IndexDeltaLength c \<and> IndexDeltaLength c \<le> 32 \<and> 1 \<le> SamplesPerFrame c \<and> SamplesPerFrame c \<le> 8192"

lemma aac_New_ok: "aac_New c = Inr d \<longleftrightarrow>
    config_ok c \<and> d = \<lparr>cfg = c, frag = [], fragActive = False, fragTotalSize = 0\<rparr>"
  by (auto simp: aac_New_def config_ok_def)

text \<open>The bit position of the \<open>i\<close>-th AU header.\<close>

definition au_pos :: "aac_config \<Rightarrow> nat \<Rightarrow> nat" where
  "au_pos c i = (if i = 0 then 0
     else nat (SizeLength c) + nat (IndexLength c) + (i - 1) * (nat (SizeLength c) + nat (IndexDeltaLength c)))"

lemma au_pos_Suc: "au_pos c (Suc i) = au_pos c i + nat (SizeLength c)
    + nat (if i = 0 then IndexLength c else IndexDeltaLength c)"
  by (cases i) (simp_all add: au_pos_def)

definition size_field :: "aac_config \<Rightarrow> bytes \<Rightarrow> nat \<Rightarrow> nat" where
  "size_field c hdr i = bits_nat (take (nat (SizeLength c)) (drop (au_pos c i) (bits_of hdr)))"

definition headers_ok :: "aac_config \<Rightarrow> bytes \<Rightarrow> au_header list \<Rightarrow> bool" where
  "headers_ok c hdr hs \<longleftrightarrow> length hs \<le> MaxAUsPerPacket
     \<and> (\<forall>i<length hs. hs ! i = \<lparr>au_size = size_field c hdr i, au_index = 0\<rparr>)"

lemma au_loop_sound:
  assumes "config_ok c" "l \<le> 8 * length hdr" "headers_ok c hdr hs" "consumed = au_pos c (length hs)"
  shows "au_loop c hdr l consumed hs \<noteq> panic
    \<and> (\<forall>hs' n. au_loop c hdr l consumed hs = ok (hs', n) \<longrightarrow>
         headers_ok c hdr hs' \<and> n = au_pos c (length hs') \<and> l \<le> n \<and> (consumed < l \<longrightarrow> n = l \<and> hs' \<noteq> []))"
  using assms
proof (induction c hdr l consumed hs rule: au_loop.induct)
  case (1 c hdr l consumed hs)
  define ib where "ib = nat (if hs = [] then IndexLength c else IndexDeltaLength c)"
  define sl where "sl = nat (SizeLength c)"
  have pos: "au_pos c (Suc (length hs)) = consumed + sl + ib"
    using "1.prems"(4) by (simp add: au_pos_Suc ib_def sl_def)
  consider "\<not> consumed < l" | "consumed < l" "MaxAUsPerPacket \<le> length hs \<or> consumed + (sl + ib) > l"
    | "consumed < l" "length hs < MaxAUsPerPacket" "consumed + (sl + ib) \<le> l" by linarith
  then show ?case
  proof cases
    case 1
    then show ?thesis using "1.prems" by (simp add: au_loop.simps [of c])
  next
    case 2
    then show ?thesis by (auto simp: au_loop.simps [of c] Let_def ib_def sl_def)
  next
    case 3
    have r1: "aac_readBits hdr consumed sl = Some (size_field c hdr (length hs))"
      using 3 "1.prems" by (subst readBits_field) (auto simp: sl_def size_field_def config_ok_def)
    define ix where "ix = bits_nat (take ib (drop (consumed + sl) (bits_of hdr)))"
    have r2: "aac_readBits hdr (consumed + sl) ib = Some ix"
      unfolding ix_def using 3 "1.prems" by (intro readBits_field) (auto simp: ib_def config_ok_def)
    show ?thesis
    proof (cases "ix = 0")
      case False
      then show ?thesis
        using 3 r1 r2 by (simp add: au_loop.simps [of c] Let_def ib_def [symmetric] sl_def [symmetric])
    next
      case True
      define hs2 where "hs2 = hs @ [\<lparr>au_size = size_field c hdr (length hs), au_index = 0\<rparr>]"
      have eq: "au_loop c hdr l consumed hs = au_loop c hdr l (consumed + (sl + ib)) hs2"
        using 3 r1 r2 True
        by (simp add: au_loop.simps [of c _ _ consumed] Let_def ib_def [symmetric] sl_def [symmetric] hs2_def)
      have ok2: "headers_ok c hdr hs2"
        using "1.prems"(3) 3 by (auto simp: headers_ok_def hs2_def nth_append less_Suc_eq)
      have pos2: "consumed + (sl + ib) = au_pos c (length hs2)" using pos by (simp add: hs2_def)
      have IH: "au_loop c hdr l (consumed + (sl + ib)) hs2 \<noteq> panic
        \<and> (\<forall>hs' n. au_loop c hdr l (consumed + (sl + ib)) hs2 = ok (hs', n) \<longrightarrow>
         headers_ok c hdr hs' \<and> n = au_pos c (length hs') \<and> l \<le> n
         \<and> (consumed + (sl + ib) < l \<longrightarrow> n = l \<and> hs' \<noteq> []))"
        using "1.IH" [OF _ _ refl refl, folded ib_def sl_def, of "size_field c hdr (length hs)" ix]
          3 r1 r2 True "1.prems"(1,2) ok2 pos2 by (simp add: hs2_def)
      show ?thesis
      proof (cases "consumed + (sl + ib) < l")
        case False
        then have "au_loop c hdr l (consumed + (sl + ib)) hs2 = ok (hs2, consumed + (sl + ib))"
          by (simp add: au_loop.simps [of c])
        then show ?thesis using IH eq False 3 by (auto simp: hs2_def)
      qed (use IH eq in auto)
    qed
  qed
qed

lemma parseAUHeaders_no_panic: "config_ok c \<Longrightarrow> parseAUHeaders c payload \<noteq> panic"
proof -
  assume c: "config_ok c"
  have "au_loop c hdr l 0 [] \<noteq> None" if "l \<le> 8 * length hdr" for hdr l
    using au_loop_sound [OF c that, of "[]" 0] by (simp add: headers_ok_def au_pos_def)
  then show ?thesis
    by (auto simp: parseAUHeaders_def Let_def go_bind_None_iff iff del: not_None_eq split: if_splits)
qed

definition au_region :: "bytes \<Rightarrow> bytes" where
  "au_region payload = take ((unat (be16 (payload ! 0) (payload ! 1)) + 7) div 8) (drop 2 payload)"

lemma parseAUHeaders_ok:
  assumes "config_ok c" "parseAUHeaders c payload = ok (hs, ds)"
  shows "hs \<noteq> []" "headers_ok c (au_region payload) hs" "ds \<le> length payload"
    "unat (be16 (payload ! 0) (payload ! 1)) = au_pos c (length hs)"
    "ds = 2 + (au_pos c (length hs) + 7) div 8"
proof -
  define l where "l = unat (be16 (payload ! 0) (payload ! 1))"
  from assms(2) have a: "2 + (l + 7) div 8 \<le> length payload" "l \<noteq> 0" "ds = 2 + (l + 7) div 8"
    "au_loop c (au_region payload) l 0 [] = ok (hs, l)"
    by (auto simp: parseAUHeaders_def Let_def go_simps l_def au_region_def not_less split: if_splits)
  then have len: "length (au_region payload) = (l + 7) div 8" by (auto simp: au_region_def l_def)
  then have "l \<le> 8 * length (au_region payload)" by simp
  from au_loop_sound [OF assms(1) this, of "[]" 0] a
  have "headers_ok c (au_region payload) hs" "l = au_pos c (length hs)" "hs \<noteq> []"
    by (auto simp: headers_ok_def au_pos_def)
  then show "hs \<noteq> []" "headers_ok c (au_region payload) hs" "ds \<le> length payload"
    "unat (be16 (payload ! 0) (payload ! 1)) = au_pos c (length hs)"
    "ds = 2 + (au_pos c (length hs) + 7) div 8"
    using a unfolding l_def by auto
qed

section \<open>Splitting a complete packet\<close>

lemma complete_aus_no_panic: "offset \<le> length payload \<Longrightarrow> complete_aus c payload i offset hs \<noteq> None"
proof (induction hs arbitrary: i offset)
  case (Cons h hs)
  then show ?case
    by (auto simp: go_bind_None_iff iff del: not_None_eq)
qed simp

lemma complete_aus_ok:
  "offset \<le> length payload \<Longrightarrow> complete_aus c payload i offset hs = ok aus \<Longrightarrow>
     length aus = length hs
     \<and> (\<exists>rest. drop offset payload = concat (map AU_Data aus) @ rest)
     \<and> map (\<lambda>a. length (AU_Data a)) aus = map au_size hs
     \<and> map RTPOffset aus = map (\<lambda>k. word_of_nat k * word_of_int (SamplesPerFrame c)) [i..<i + length hs]"
proof (induction hs arbitrary: i offset aus)
  case (Cons h hs)
  define a where "a = take (au_size h) (drop offset payload)"
  from Cons.prems obtain aus' where aus': "aus = \<lparr>AU_Data = a,
        RTPOffset = word_of_nat i * word_of_int (SamplesPerFrame c)\<rparr> # aus'"
    "complete_aus c payload (Suc i) (offset + au_size h) hs = ok aus'" "offset + au_size h \<le> length payload"
    by (auto simp: go_simps a_def split: if_splits)
  from Cons.IH [OF aus'(3,2)] obtain rest
    where IH: "length aus' = length hs" "drop (offset + au_size h) payload = concat (map AU_Data aus') @ rest"
      "map (\<lambda>a. length (AU_Data a)) aus' = map au_size hs"
      "map RTPOffset aus' = map (\<lambda>k. word_of_nat k * word_of_int (SamplesPerFrame c)) [Suc i..<Suc i + length hs]"
    by auto
  have "drop offset payload = a @ drop (offset + au_size h) payload"
    unfolding a_def by (metis append_take_drop_id drop_drop add.commute)
  moreover have "length a = au_size h" using aus'(3) by (simp add: a_def)
  moreover have "[i..<Suc (i + length hs)] = i # [Suc i..<Suc (i + length hs)]" by (rule upt_conv_Cons) simp
  ultimately show ?case using IH by (simp add: aus'(1))
qed simp

section \<open>State between packets\<close>

definition aac_inv :: "aac_depacketizer \<Rightarrow> bool" where
  "aac_inv d \<longleftrightarrow> config_ok (cfg d) \<and> length (frag d) \<le> MaxFragmentSize
     \<and> (fragActive d \<longrightarrow> length (frag d) < fragTotalSize d \<and> fragTotalSize d \<le> MaxFragmentSize)"

lemma aac_Reset_simps [simp]:
  "cfg (aac_Reset d) = cfg d" "frag (aac_Reset d) = []" "\<not> fragActive (aac_Reset d)"
  by (simp_all add: aac_Reset_def)

lemma aac_New_inv: "aac_New c = Inr d \<Longrightarrow> aac_inv d"
  by (simp add: aac_New_ok aac_inv_def)

lemma continue_fragment_inv:
  assumes "aac_inv d" "ds \<le> length payload"
  shows "aac_inv (snd (continue_fragment d payload marker hs ds))"
    "fst (continue_fragment d payload marker hs ds) \<noteq> panic"
  using assms by (auto simp: continue_fragment_def aac_inv_def Let_def)

lemma aac_step_inv: "aac_inv d \<Longrightarrow> aac_inv (snd (aac_Depacketize d pm))"
proof -
  assume inv: "aac_inv d"
  obtain payload marker where pm: "pm = (payload, marker)" by (cases pm)
  show ?thesis
  proof (cases "parseAUHeaders (cfg d) payload")
    case None
    then show ?thesis using inv by (simp add: aac_Depacketize_def pm)
  next
    case (Some r)
    show ?thesis
    proof (cases r)
      case (Inl e)
      then show ?thesis using inv Some by (simp add: aac_Depacketize_def pm aac_inv_def)
    next
      case (Inr hd)
      obtain hs ds where hd: "hd = (hs, ds)" by (cases hd)
      have ds: "ds \<le> length payload"
        using parseAUHeaders_ok [of "cfg d" payload hs ds] inv Some Inr hd by (simp add: aac_inv_def)
      show ?thesis
        using inv Some Inr hd ds continue_fragment_inv(1) [OF inv ds]
        by (auto simp: aac_Depacketize_def pm Let_def) (auto simp: aac_inv_def)
    qed
  qed
qed

lemma aac_step_no_panic: "aac_inv d \<Longrightarrow> fst (aac_Depacketize d pm) \<noteq> panic"
proof -
  assume inv: "aac_inv d"
  obtain payload marker where pm: "pm = (payload, marker)" by (cases pm)
  have c: "config_ok (cfg d)" using inv by (simp add: aac_inv_def)
  obtain r where r: "parseAUHeaders (cfg d) payload = Some r"
    using parseAUHeaders_no_panic [OF c] by blast
  show ?thesis
  proof (cases r)
    case (Inl e)
    then show ?thesis using r by (simp add: aac_Depacketize_def pm)
  next
    case (Inr hd)
    obtain hs ds where hd: "hd = (hs, ds)" by (cases hd)
    have ds: "ds \<le> length payload" using parseAUHeaders_ok [OF c] r Inr hd by simp
    show ?thesis
      using r Inr hd ds continue_fragment_inv(2) [OF inv ds] complete_aus_no_panic [OF ds]
      by (auto simp: aac_Depacketize_def pm Let_def iff del: not_None_eq)
  qed
qed

interpretation aac: depacketizer aac_Depacketize aac_Reset aac_inv "\<lambda>d. length (frag d)" MaxFragmentSize
  using aac_step_inv aac_step_no_panic by unfold_locales (auto simp: aac_inv_def)

text \<open>
  C17. The AAC depacketizer is robust: started from any configuration \<open>New\<close> accepts and driven by any
  sequence of payloads, marker bits and resets, it never panics and its reassembly buffer never
  exceeds \<open>MaxFragmentSize\<close>.
\<close>

theorem aac_robust:
  assumes "aac_New c = Inr d"
  shows "panic \<notin> set (outputs aac_Depacketize aac_Reset d evs)
    \<and> length (frag (final_state aac_Depacketize aac_Reset d evs)) \<le> MaxFragmentSize"
  using aac.no_panic [OF aac_New_inv [OF assms]] aac.bounded [OF aac_New_inv [OF assms]] by blast

definition hbr :: aac_config where
  "hbr = \<lparr>SizeLength = 13, IndexLength = 3, IndexDeltaLength = 3, SamplesPerFrame = 1024\<rparr>"

lemma hbr_New: "aac_New hbr = Inr \<lparr>cfg = hbr, frag = [], fragActive = False, fragTotalSize = 0\<rparr>"
  by (simp add: aac_New_def hbr_def)

theorem aac_robust_witness:
  "panic \<notin> set (outputs aac_Depacketize aac_Reset
      \<lparr>cfg = hbr, frag = [], fragActive = False, fragTotalSize = 0\<rparr>
      [Arrive ([0, 16, 0, 32, 1], False), Discontinuity, Arrive ([0, 17], True)])
    \<and> length (frag (final_state aac_Depacketize aac_Reset
      \<lparr>cfg = hbr, frag = [], fragActive = False, fragTotalSize = 0\<rparr>
      [Arrive ([0, 16, 0, 32, 1], False), Discontinuity, Arrive ([0, 17], True)])) \<le> MaxFragmentSize"
  by (rule aac_robust [OF hbr_New])


section \<open>What comes out\<close>

lemmas aac_eval = parseAUHeaders_def au_loop.simps aac_readBits_def hbr_def be16_def Let_def slice_def caps

text \<open>
  A packet that is not part of a fragmented unit is cut exactly where its headers say: the access
  units are consecutive pieces of the data behind the header section, as long as the size fields of
  the bit string say, at most \<open>MaxAUsPerPacket\<close> of them, the \<open>i\<close>-th one stamped \<open>i\<close> frame durations
  after the packet, and the reassembly state is untouched.
\<close>

theorem aac_complete_packet:
  assumes "config_ok (cfg d)" "\<not> fragActive d" "aac_Depacketize d (payload, marker) = (ok aus, d')" "aus \<noteq> []"
  shows "d' = d \<and> length aus \<le> MaxAUsPerPacket
    \<and> (\<exists>rest. drop (2 + (au_pos (cfg d) (length aus) + 7) div 8) payload = concat (map AU_Data aus) @ rest)
    \<and> (\<forall>i<length aus. length (AU_Data (aus ! i)) = size_field (cfg d) (au_region payload) i
         \<and> RTPOffset (aus ! i) = word_of_nat i * word_of_int (SamplesPerFrame (cfg d)))"
proof -
  obtain hs ds where p: "parseAUHeaders (cfg d) payload = ok (hs, ds)"
    using assms(3) by (auto simp: aac_Depacketize_def split: option.splits sum.splits)
  then have c: "complete_aus (cfg d) payload 0 ds hs = ok aus" "d' = d"
    using assms(2-4) by (auto simp: aac_Depacketize_def Let_def split: option.splits if_splits)
  note P = parseAUHeaders_ok [OF assms(1) p]
  from complete_aus_ok [OF P(3) c(1)] obtain rest
    where A: "length aus = length hs" "drop ds payload = concat (map AU_Data aus) @ rest"
      "map (\<lambda>a. length (AU_Data a)) aus = map au_size hs"
      "map RTPOffset aus = map (\<lambda>k. word_of_nat k * word_of_int (SamplesPerFrame (cfg d))) [0..<length hs]"
    by auto
  have each: "length (AU_Data (aus ! i)) = au_size (hs ! i)
      \<and> RTPOffset (aus ! i) = word_of_nat i * word_of_int (SamplesPerFrame (cfg d))" if "i < length aus" for i
  proof -
    have "length (AU_Data (aus ! i)) = map (\<lambda>a. length (AU_Data a)) aus ! i"
      "RTPOffset (aus ! i) = map RTPOffset aus ! i" using that by simp_all
    then show ?thesis unfolding A(3,4) using that A(1) by simp
  qed
  show ?thesis
  proof (intro conjI allI impI)
    show "d' = d" by (fact c(2))
    show "length aus \<le> MaxAUsPerPacket" using A(1) P(2) by (simp add: headers_ok_def)
    show "\<exists>rest. drop (2 + (au_pos (cfg d) (length aus) + 7) div 8) payload = concat (map AU_Data aus) @ rest"
      using A(1,2) P(5) by simp
    fix i assume "i < length aus"
    then show "length (AU_Data (aus ! i)) = size_field (cfg d) (au_region payload) i"
      "RTPOffset (aus ! i) = word_of_nat i * word_of_int (SamplesPerFrame (cfg d))"
      using each [of i] A(1) P(2) by (simp_all add: headers_ok_def)
  qed
qed

theorem aac_complete_packet_witness:
  "\<exists>rest. drop (2 + (au_pos hbr 2 + 7) div 8) [0, 32, 0, 16, 0, 8, 1, 2, 3, 4]
    = concat (map AU_Data [\<lparr>AU_Data = [1, 2], RTPOffset = 0\<rparr>, \<lparr>AU_Data = [3], RTPOffset = 1024\<rparr>]) @ rest"
proof -
  let ?d = "\<lparr>cfg = hbr, frag = [], fragActive = False, fragTotalSize = 0\<rparr>"
  have "config_ok (cfg ?d)" by (simp add: config_ok_def hbr_def)
  moreover have "aac_Depacketize ?d ([0, 32, 0, 16, 0, 8, 1, 2, 3, 4], True)
      = (ok [\<lparr>AU_Data = [1, 2], RTPOffset = 0\<rparr>, \<lparr>AU_Data = [3], RTPOffset = 1024\<rparr>], ?d)"
    by (simp add: aac_Depacketize_def aac_eval)
  ultimately show ?thesis
    using aac_complete_packet [of ?d "[0, 32, 0, 16, 0, 8, 1, 2, 3, 4]" True _ ?d] by (simp add: numeral_2_eq_2)
qed

text \<open>A payload whose only AU header declares \<open>s\<close> bytes and whose data section is \<open>ch\<close>.\<close>

definition carries :: "aac_config \<Rightarrow> nat \<Rightarrow> bytes \<Rightarrow> bytes \<Rightarrow> bool" where
  "carries c s p ch \<longleftrightarrow> (\<exists>ds. parseAUHeaders c p = ok ([\<lparr>au_size = s, au_index = 0\<rparr>], ds)
     \<and> ds \<le> length p \<and> ch = drop ds p)"

lemma fragment_first:
  assumes "\<not> fragActive d" "carries (cfg d) s p ch" "length ch < s" "s \<le> MaxFragmentSize"
  shows "aac_Depacketize d (p, False) = (ok [], d\<lparr>fragTotalSize := s, frag := ch, fragActive := True\<rparr>)"
  using assms by (auto simp: carries_def aac_Depacketize_def)

lemma fragment_middle:
  assumes "fragActive d" "fragTotalSize d \<le> MaxFragmentSize" "carries (cfg d) (fragTotalSize d) p ch"
    "length (frag d @ ch) < fragTotalSize d"
  shows "aac_Depacketize d (p, False) = (ok [], d\<lparr>frag := frag d @ ch\<rparr>)"
  using assms by (auto simp: carries_def aac_Depacketize_def continue_fragment_def Let_def)

lemma fragment_last:
  assumes "fragActive d" "fragTotalSize d \<le> MaxFragmentSize" "carries (cfg d) (fragTotalSize d) p ch"
    "length (frag d @ ch) = fragTotalSize d"
  shows "aac_Depacketize d (p, True) = (ok [\<lparr>AU_Data = frag d @ ch, RTPOffset = 0\<rparr>],
    d\<lparr>frag := frag d @ ch, fragActive := False, fragTotalSize := 0\<rparr>)"
  using assms by (auto simp: carries_def aac_Depacketize_def continue_fragment_def Let_def)

lemma fragment_run:
  assumes "fragActive d" "fragTotalSize d \<le> MaxFragmentSize"
    "list_all2 (carries (cfg d) (fragTotalSize d)) ps chs" "carries (cfg d) (fragTotalSize d) pl chl"
    "chl \<noteq> []" "length (frag d @ concat chs @ chl) = fragTotalSize d"
  shows "fst (run aac_Depacketize d (map (\<lambda>p. (p, False)) ps @ [(pl, True)]))
      = map (\<lambda>p. ok []) ps @ [ok [\<lparr>AU_Data = frag d @ concat chs @ chl, RTPOffset = 0\<rparr>]]
    \<and> \<not> fragActive (snd (run aac_Depacketize d (map (\<lambda>p. (p, False)) ps @ [(pl, True)])))"
  using assms
proof (induction ps arbitrary: d chs)
  case Nil
  then show ?case using fragment_last [of d pl chl] by simp
next
  case (Cons p ps)
  then obtain ch chs' where chs: "chs = ch # chs'" "carries (cfg d) (fragTotalSize d) p ch"
      "list_all2 (carries (cfg d) (fragTotalSize d)) ps chs'"
    by (auto simp: list_all2_Cons1)
  have "aac_Depacketize d (p, False) = (ok [], d\<lparr>frag := frag d @ ch\<rparr>)"
    using Cons.prems chs by (intro fragment_middle) (auto simp flip: length_greater_0_conv)
  then show ?case
    using Cons.IH [of "d\<lparr>frag := frag d @ ch\<rparr>" chs'] Cons.prems chs by simp
qed

text \<open>
  C18. A fragmented access unit is reassembled exactly. When an idle depacketizer receives the
  fragments of a unit of at most \<open>MaxFragmentSize\<close> bytes, each declaring the full size and only the
  last, which is not empty, carrying the marker, it returns nothing until the last fragment and then
  the whole unit, byte for byte, and is idle again.
\<close>

theorem aac_reassembles:
  assumes "\<not> fragActive d" "length au \<le> MaxFragmentSize" "au = ch @ concat chs @ chl" "chl \<noteq> []"
    "carries (cfg d) (length au) p ch" "list_all2 (carries (cfg d) (length au)) ps chs"
    "carries (cfg d) (length au) pl chl"
  shows "fst (run aac_Depacketize d ((p, False) # map (\<lambda>p. (p, False)) ps @ [(pl, True)]))
      = ok [] # map (\<lambda>p. ok []) ps @ [ok [\<lparr>AU_Data = au, RTPOffset = 0\<rparr>]]
    \<and> \<not> fragActive (snd (run aac_Depacketize d ((p, False) # map (\<lambda>p. (p, False)) ps @ [(pl, True)])))"
proof -
  define d1 where "d1 = d\<lparr>fragTotalSize := length au, frag := ch, fragActive := True\<rparr>"
  have "aac_Depacketize d (p, False) = (ok [], d1)"
    unfolding d1_def using assms
    by (intro fragment_first) (auto simp flip: length_greater_0_conv)
  moreover have "fst (run aac_Depacketize d1 (map (\<lambda>p. (p, False)) ps @ [(pl, True)]))
      = map (\<lambda>p. ok []) ps @ [ok [\<lparr>AU_Data = frag d1 @ concat chs @ chl, RTPOffset = 0\<rparr>]]
    \<and> \<not> fragActive (snd (run aac_Depacketize d1 (map (\<lambda>p. (p, False)) ps @ [(pl, True)])))"
    by (rule fragment_run) (use assms in \<open>simp_all add: d1_def\<close>)
  ultimately show ?thesis using assms(3) by (simp add: d1_def)
qed

theorem aac_reassembles_witness:
  "fst (run aac_Depacketize \<lparr>cfg = hbr, frag = [], fragActive = False, fragTotalSize = 0\<rparr>
      [([0, 16, 0, 40, 1, 2], False), ([0, 16, 0, 40, 3, 4], False), ([0, 16, 0, 40, 5], True)])
    = [ok [], ok [], ok [\<lparr>AU_Data = [1, 2, 3, 4, 5], RTPOffset = 0\<rparr>]]"
proof -
  let ?d = "\<lparr>cfg = hbr, frag = [], fragActive = False, fragTotalSize = 0\<rparr>"
  have "parseAUHeaders hbr [0, 16, 0, 40, 1, 2] = ok ([\<lparr>au_size = 5, au_index = 0\<rparr>], 4)"
    "parseAUHeaders hbr [0, 16, 0, 40, 3, 4] = ok ([\<lparr>au_size = 5, au_index = 0\<rparr>], 4)"
    "parseAUHeaders hbr [0, 16, 0, 40, 5] = ok ([\<lparr>au_size = 5, au_index = 0\<rparr>], 4)"
    by (simp_all add: aac_eval)
  then have c: "carries (cfg ?d) (length [1, 2, 3, 4, 5 :: byte]) [0, 16, 0, 40, 1, 2] [1, 2]"
    "list_all2 (carries (cfg ?d) (length [1, 2, 3, 4, 5 :: byte])) [[0, 16, 0, 40, 3, 4]] [[3, 4]]"
    "carries (cfg ?d) (length [1, 2, 3, 4, 5 :: byte]) [0, 16, 0, 40, 5] [5]"
    by (simp_all add: carries_def)
  have "length [1, 2, 3, 4, 5 :: byte] \<le> MaxFragmentSize" by (simp add: caps)
  from aac_reassembles [OF _ this _ _ c] show ?thesis by simp
qed

end
