(* ===== verification/FLAC.thy ===== *)
theory FLAC
  imports Depacketizer
begin

text \<open>
  FLAC over RTP: the fragment reassembler of \<open>src/depacket/flac/flac.go\<close> and the packetizer of
  \<open>src/packet/flac/flac.go\<close>. \<open>Depacketize\<close> returns \<open>ok None\<close> for the source's \<open>(nil, nil)\<close>.
\<close>

section \<open>Reassembly\<close>

definition MaxFrameSize :: nat where [caps]: "MaxFrameSize = 2 ^ 20"

datatype flac_error = FLACErrEmptyPayload | ErrFrameOverflow

record flac_depacketizer =
  flac_frag :: bytes
  flac_fragActive :: bool
  flac_fragTime :: u32

definition flac_New :: flac_depacketizer where
  "flac_New = \<lparr>flac_frag = [], flac_fragActive = False, flac_fragTime = 0\<rparr>"

definition flac_Reset :: "flac_depacketizer \<Rightarrow> flac_depacketizer" where
  "flac_Reset d = d\<lparr>flac_fragActive := False, flac_frag := []\<rparr>"

text \<open>A payload that arrives while no fragment is buffered.\<close>

definition flac_fresh ::
  "flac_depacketizer \<Rightarrow> bytes \<Rightarrow> bool \<Rightarrow> u32 \<Rightarrow> (flac_error, bytes option) go \<times> flac_depacketizer" where
  "flac_fresh d payload marker rtpTime =
     (if marker then (ok (Some payload), d)
      else if length payload > MaxFrameSize then (err ErrFrameOverflow, d)
      else (ok None, d\<lparr>flac_frag := payload, flac_fragActive := True, flac_fragTime := rtpTime\<rparr>))"

text \<open>
  The recursive call of the source is made on a depacketizer that has just been reset and on a
  payload that is not empty, so that it takes the fresh path.
\<close>

definition flac_Depacketize ::
  "flac_depacketizer \<Rightarrow> bytes \<times> bool \<times> u32 \<Rightarrow> (flac_error, bytes option) go \<times> flac_depacketizer" where
  "flac_Depacketize d pkt =
     (let (payload, marker, rtpTime) = pkt in
      if length payload = 0 then
        (err FLACErrEmptyPayload, if flac_fragActive d then flac_Reset d else d)
      else if \<not> flac_fragActive d then flac_fresh d payload marker rtpTime
      else if rtpTime \<noteq> flac_fragTime d then flac_fresh (flac_Reset d) payload marker rtpTime
      else if length (flac_frag d) + length payload > MaxFrameSize then
        (err ErrFrameOverflow, flac_Reset d)
      else
        let d1 = d\<lparr>flac_frag := flac_frag d @ payload\<rparr> in
        if \<not> marker then (ok None, d1)
        else (ok (Some (flac_frag d1)), d1\<lparr>flac_fragActive := False\<rparr>))"

section \<open>Packetizing\<close>

datatype flac_packet_error = ErrEmptyFrame | ErrInvalidMTU

record fragment =
  F_Data :: bytes
  F_Marker :: bool

text \<open>The loop, for a positive \<open>maxPayload\<close>.\<close>

function fragment_loop :: "bytes \<Rightarrow> nat \<Rightarrow> nat \<Rightarrow> fragment list \<Rightarrow> fragment list option" where
  "fragment_loop frame mp off dst =
     (if off < length frame \<and> 0 < mp then
        let end' = off + mp in
        if end' \<ge> length frame then
          (case slice frame off (length frame) of None \<Rightarrow> None
           | Some s \<Rightarrow> Some (dst @ [\<lparr>F_Data = s, F_Marker = True\<rparr>]))
        else
          (case slice frame off end' of None \<Rightarrow> None
           | Some s \<Rightarrow> fragment_loop frame mp (off + mp) (dst @ [\<lparr>F_Data = s, F_Marker = False\<rparr>]))
      else Some dst)"
  by pat_completeness auto
termination
  by (relation "measure (\<lambda>(frame, mp, off, dst). length frame - off)") auto

declare fragment_loop.simps [simp del]

definition flac_Packetize :: "fragment list \<Rightarrow> bytes \<Rightarrow> int \<Rightarrow> (fragment list \<times> flac_packet_error option) option" where
  "flac_Packetize dst frame maxPayload =
     (if maxPayload \<le> 0 then Some (dst, Some ErrInvalidMTU)
      else if length frame = 0 then Some (dst, Some ErrEmptyFrame)
      else do { fs \<leftarrow> fragment_loop frame (nat maxPayload) 0 dst; Some (fs, None) })"

section \<open>Robustness\<close>

definition flac_inv :: "flac_depacketizer \<Rightarrow> bool" where
  "flac_inv d \<longleftrightarrow> length (flac_frag d) \<le> MaxFrameSize"

lemma flac_step_inv: "flac_inv d \<Longrightarrow> flac_inv (snd (flac_Depacketize d pkt))"
  by (auto simp: flac_Depacketize_def flac_fresh_def flac_Reset_def flac_inv_def Let_def split: prod.splits)

interpretation flac: depacketizer flac_Depacketize flac_Reset flac_inv "\<lambda>d. length (flac_frag d)" MaxFrameSize
  using flac_step_inv
  by unfold_locales
    (auto simp: flac_inv_def flac_Reset_def flac_Depacketize_def flac_fresh_def Let_def split: prod.splits)

text \<open>
  Whatever the sequence of payloads, marker bits, timestamps and resets, the FLAC reassembler
  never panics and never holds more than \<open>MaxFrameSize\<close> bytes.
\<close>

theorem flac_robust:
  "panic \<notin> set (outputs flac_Depacketize flac_Reset flac_New evs)
    \<and> length (flac_frag (final_state flac_Depacketize flac_Reset flac_New evs)) \<le> MaxFrameSize"
proof -
  have "flac_inv flac_New" by (simp add: flac_inv_def flac_New_def)
  then show ?thesis using flac.no_panic flac.bounded by blast
qed

section \<open>Packetize and reassemble\<close>

text \<open>What the loop appends from an offset on: the frame in pieces of \<open>mp\<close> bytes, marked at the end.\<close>

lemma fragment_loop_spec:
  assumes "0 < mp" "off < length frame"
  shows "\<exists>ps p. fragment_loop frame mp off dst
       = Some (dst @ map (\<lambda>s. \<lparr>F_Data = s, F_Marker = False\<rparr>) ps @ [\<lparr>F_Data = p, F_Marker = True\<rparr>])
     \<and> concat ps @ p = drop off frame \<and> (\<forall>s\<in>set ps. length s = mp) \<and> 0 < length p \<and> length p \<le> mp"
  using assms
proof (induction frame mp off dst rule: fragment_loop.induct)
  case (1 frame mp off dst)
  show ?case
  proof (cases "off + mp \<ge> length frame")
    case True
    then show ?thesis using "1.prems"
      by (intro exI [of _ "[]"] exI [of _ "drop off frame"]) (simp add: fragment_loop.simps [of frame])
  next
    case False
    define s where "s = take mp (drop off frame)"
    have sl: "slice frame off (off + mp) = Some s" using False by (simp add: s_def)
    from "1.IH" [OF _ refl _ sl] "1.prems" False obtain ps p where
      IH: "fragment_loop frame mp (off + mp) (dst @ [\<lparr>F_Data = s, F_Marker = False\<rparr>])
        = Some ((dst @ [\<lparr>F_Data = s, F_Marker = False\<rparr>]) @ map (\<lambda>s. \<lparr>F_Data = s, F_Marker = False\<rparr>) ps
            @ [\<lparr>F_Data = p, F_Marker = True\<rparr>])"
      "concat ps @ p = drop (off + mp) frame" "\<forall>s\<in>set ps. length s = mp" "0 < length p" "length p \<le> mp"
      by auto
    moreover have "fragment_loop frame mp off dst
        = fragment_loop frame mp (off + mp) (dst @ [\<lparr>F_Data = s, F_Marker = False\<rparr>])"
      using "1.prems" False sl by (simp add: fragment_loop.simps [of frame mp off])
    moreover have "drop off frame = s @ drop (off + mp) frame"
      unfolding s_def by (metis append_take_drop_id drop_drop add.commute)
    moreover have "length s = mp" using False by (simp add: s_def)
    ultimately show ?thesis by (intro exI [of _ "s # ps"] exI [of _ p]) simp
  qed
qed

text \<open>The packets that carry the fragments of one frame: all have its timestamp.\<close>

definition send :: "u32 \<Rightarrow> fragment list \<Rightarrow> (bytes \<times> bool \<times> u32) list" where
  "send t fs = map (\<lambda>f. (F_Data f, F_Marker f, t)) fs"

definition idle_for :: "u32 \<Rightarrow> flac_depacketizer \<Rightarrow> bool" where
  "idle_for t d \<longleftrightarrow> (flac_fragActive d \<longrightarrow> flac_fragTime d \<noteq> t)"

lemma flac_idle_step:
  "idle_for t d \<Longrightarrow> s \<noteq> [] \<Longrightarrow> flac_Depacketize d (s, m, t)
     = flac_fresh (if flac_fragActive d then flac_Reset d else d) s m t"
  by (auto simp: flac_Depacketize_def idle_for_def)

lemma flac_continue:
  assumes "flac_fragActive d" "flac_fragTime d = t" "\<forall>s\<in>set ps. s \<noteq> []" "p \<noteq> []"
    "length (flac_frag d @ concat ps @ p) \<le> MaxFrameSize"
  shows "fst (run flac_Depacketize d (map (\<lambda>s. (s, False, t)) ps @ [(p, True, t)]))
      = map (\<lambda>s. ok None) ps @ [ok (Some (flac_frag d @ concat ps @ p))]
    \<and> \<not> flac_fragActive (snd (run flac_Depacketize d (map (\<lambda>s. (s, False, t)) ps @ [(p, True, t)])))"
  using assms
proof (induction ps arbitrary: d)
  case Nil
  then show ?case by (simp add: flac_Depacketize_def)
next
  case (Cons s ps)
  have "flac_Depacketize d (s, False, t) = (ok None, d\<lparr>flac_frag := flac_frag d @ s\<rparr>)"
    using Cons.prems by (simp add: flac_Depacketize_def)
  then show ?case using Cons.IH [of "d\<lparr>flac_frag := flac_frag d @ s\<rparr>"] Cons.prems by simp
qed

text \<open>
  C19. Reassembly inverts packetizing. A frame of at most \<open>MaxFrameSize\<close> bytes, cut for any positive
  payload size and sent under one timestamp, comes out of the reassembler whole, byte for byte, with
  its last fragment and nothing before it, every fragment but the last exactly filling the payload
  size. This holds from an idle reassembler and also when the tail of an earlier frame was lost: a
  partial frame left under another timestamp is dropped and spoils nothing.
\<close>

theorem flac_roundtrip:
  assumes "0 < maxPayload" "frame \<noteq> []" "length frame \<le> MaxFrameSize" "idle_for t d"
  shows "\<exists>fs. flac_Packetize dst frame maxPayload = Some (dst @ fs, None)
    \<and> fst (run flac_Depacketize d (send t fs)) = replicate (length fs - 1) (ok None) @ [ok (Some frame)]
    \<and> \<not> flac_fragActive (snd (run flac_Depacketize d (send t fs)))
    \<and> (\<forall>f\<in>set (butlast fs). int (length (F_Data f)) = maxPayload)
    \<and> (\<forall>f\<in>set fs. int (length (F_Data f)) \<le> maxPayload)"
proof -
  define mp where "mp = nat maxPayload"
  have mp: "0 < mp" "int mp = maxPayload" using assms(1) by (simp_all add: mp_def)
  from fragment_loop_spec [OF mp(1), of 0 frame dst] assms(2) obtain ps p where
    L: "fragment_loop frame mp 0 dst
       = Some (dst @ map (\<lambda>s. \<lparr>F_Data = s, F_Marker = False\<rparr>) ps @ [\<lparr>F_Data = p, F_Marker = True\<rparr>])"
     "concat ps @ p = frame" "\<forall>s\<in>set ps. length s = mp" "0 < length p" "length p \<le> mp"
    by auto
  define fs where "fs = map (\<lambda>s. \<lparr>F_Data = s, F_Marker = False\<rparr>) ps @ [\<lparr>F_Data = p, F_Marker = True\<rparr>]"
  have send: "send t fs = map (\<lambda>s. (s, False, t)) ps @ [(p, True, t)]"
    by (simp add: send_def fs_def)
  have ne: "\<forall>s\<in>set ps. s \<noteq> []" using L(3) mp(1) by auto
  have out: "fst (run flac_Depacketize d (send t fs)) = map (\<lambda>s. ok None) ps @ [ok (Some frame)]
    \<and> \<not> flac_fragActive (snd (run flac_Depacketize d (send t fs)))"
  proof (cases ps)
    case Nil
    then show ?thesis
      using L assms(4) by (simp add: send flac_idle_step flac_fresh_def flac_Reset_def)
  next
    case (Cons s ps')
    let ?d1 = "(if flac_fragActive d then flac_Reset d else d)\<lparr>flac_frag := s, flac_fragActive := True,
      flac_fragTime := t\<rparr>"
    have "s @ concat ps' @ p = frame" using L(2) Cons by simp
    then have len: "length s + length (concat ps' @ p) \<le> MaxFrameSize"
      using assms(3) by (metis length_append)
    then have "flac_Depacketize d (s, False, t) = (ok None, ?d1)"
      using ne Cons assms(4) by (simp add: flac_idle_step flac_fresh_def)
    moreover have "fst (run flac_Depacketize ?d1 (map (\<lambda>s. (s, False, t)) ps' @ [(p, True, t)]))
        = map (\<lambda>s. ok None) ps' @ [ok (Some (flac_frag ?d1 @ concat ps' @ p))]
      \<and> \<not> flac_fragActive (snd (run flac_Depacketize ?d1 (map (\<lambda>s. (s, False, t)) ps' @ [(p, True, t)])))"
      by (rule flac_continue) (use ne Cons L(4) len in auto)
    ultimately show ?thesis using Cons \<open>s @ concat ps' @ p = frame\<close> by (simp add: send)
  qed
  moreover have "map (\<lambda>s. ok None) ps = replicate (length fs - 1) (ok None)"
    by (simp add: fs_def map_replicate_const)
  moreover have "flac_Packetize dst frame maxPayload = Some (dst @ fs, None)"
    using assms(1,2) L(1) by (simp add: flac_Packetize_def mp_def fs_def)
  ultimately show ?thesis
    using L(3,5) mp(2) by (intro exI [of _ fs]) (auto simp: fs_def)
qed

theorem flac_roundtrip_witness:
  "\<exists>fs. flac_Packetize [] [1, 2, 3, 4, 5] 2 = Some ([] @ fs, None)
    \<and> fst (run flac_Depacketize \<lparr>flac_frag = [9, 9], flac_fragActive = True, flac_fragTime = 100\<rparr> (send 200 fs))
      = replicate (length fs - 1) (ok None) @ [ok (Some [1, 2, 3, 4, 5])]"
  using flac_roundtrip [of 2 "[1, 2, 3, 4, 5]" 200
      "\<lparr>flac_frag = [9, 9], flac_fragActive = True, flac_fragTime = 100\<rparr>" "[]"]
  by (auto simp: idle_for_def caps)

end
