(* ===== verification/PCM.thy ===== *)
theory PCM
  imports Bits "HOL-Library.Signed_Division"
begin

text \<open>
  Sample formats: the G.711 expander of \<open>src/depacket/g711/g711.go\<close>, the L16 packetizer of
  \<open>src/packet/l16/l16.go\<close>, the Opus pass-through of \<open>src/packet/opus\<close> and \<open>src/depacket/opus\<close>, and
  the presentation-time arithmetic of \<open>src/internal/mediatime/mediatime.go\<close>.
\<close>

section \<open>G.711\<close>

datatype law = MuLaw | ALaw | OtherLaw

datatype g711_error = G711ErrShortBuffer | ErrUnknownLaw

definition int16 :: "int \<Rightarrow> int" where
  "int16 x = sint (word_of_int x :: u16)"

definition muLawExpand :: "byte \<Rightarrow> int" where
  "muLawExpand b =
     (let bias = 0x84;
          u = NOT b;
          sign = u AND 0x80;
          exponent = drop_bit 4 u AND 0x07;
          mantissa = u AND 0x0F;
          t = push_bit (unat exponent) (push_bit 3 (uint mantissa) + bias)
      in if sign \<noteq> 0 then int16 (bias - t) else int16 (t - bias))"

definition aLawExpand :: "byte \<Rightarrow> int" where
  "aLawExpand b =
     (let a = b XOR 0x55;
          seg = drop_bit 4 a AND 0x07;
          t0 = push_bit 4 (uint (a AND 0x0F));
          t = (if seg = 0 then t0 + 8
               else if seg = 1 then t0 + 0x108
               else push_bit (unat (seg - 1)) (t0 + 0x108))
      in if a AND 0x80 \<noteq> 0 then int16 t else int16 (- t))"

text \<open>The lookup tables the package builds once; \<open>table[b]\<close> for a byte \<open>b\<close> is always in range.\<close>

definition muLawTable :: "int list" where
  "muLawTable = map (\<lambda>i. muLawExpand (word_of_nat i)) [0..<256]"

definition aLawTable :: "int list" where
  "aLawTable = map (\<lambda>i. aLawExpand (word_of_nat i)) [0..<256]"

text \<open>\<open>binary.LittleEndian.PutUint16(dst[2*i:], v)\<close>\<close>

definition put16le :: "bytes \<Rightarrow> nat \<Rightarrow> u16 \<Rightarrow> bytes option" where
  "put16le dst k v = (if k + 2 \<le> length dst then Some (dst[k := ucast v, k + 1 := ucast (drop_bit 8 v)]) else None)"

fun expand_loop :: "int list \<Rightarrow> bytes \<Rightarrow> nat \<Rightarrow> bytes \<Rightarrow> bytes option" where
  "expand_loop table dst i [] = Some dst"
| "expand_loop table dst i (b # bs) = do {
     s \<leftarrow> idx table (unat b);
     dst' \<leftarrow> put16le dst (2 * i) (word_of_int s);
     expand_loop table dst' (i + 1) bs }"

text \<open>Returns the destination after the call, the byte count and the error.\<close>

definition g711_Depacketize :: "bytes \<Rightarrow> bytes \<Rightarrow> law \<Rightarrow> (bytes \<times> nat \<times> g711_error option) option" where
  "g711_Depacketize dst payload law =
     (if length payload = 0 then Some (dst, 0, None)
      else let need = 2 * length payload in
      if length dst < need then Some (dst, 0, Some G711ErrShortBuffer)
      else case law of
          MuLaw \<Rightarrow> do { dst' \<leftarrow> expand_loop muLawTable dst 0 payload; Some (dst', need, None) }
        | ALaw \<Rightarrow> do { dst' \<leftarrow> expand_loop aLawTable dst 0 payload; Some (dst', need, None) }
        | OtherLaw \<Rightarrow> Some (dst, 0, Some ErrUnknownLaw))"

definition g711_DepacketizeAlloc :: "bytes \<Rightarrow> law \<Rightarrow> (g711_error, bytes) go" where
  "g711_DepacketizeAlloc payload law = do {
     (dst, _, e) \<leftarrow> g711_Depacketize (replicate (2 * length payload) 0) payload law;
     case e of Some e \<Rightarrow> err e | None \<Rightarrow> ok dst }"

definition expand :: "law \<Rightarrow> byte \<Rightarrow> int" where
  "expand law b = (if law = MuLaw then muLawExpand b else aLawExpand b)"

definition le_sample :: "int \<Rightarrow> bytes" where
  "le_sample s = (let w = word_of_int s :: u16 in [ucast w, ucast (drop_bit 8 w)])"

lemma table_lookup [simp]:
  "idx muLawTable (unat b) = Some (muLawExpand b)" "idx aLawTable (unat b) = Some (aLawExpand b)"
  using unat_byte_less [of b] by (simp_all add: muLawTable_def aLawTable_def)

lemma put16le_end: "put16le (pre @ [x, y] @ suf) (length pre) v = Some (pre @ [ucast v, ucast (drop_bit 8 v)] @ suf)"
  by (simp add: put16le_def list_update_append)

lemma expand_loop_spec:
  assumes "\<And>b. idx table (unat b) = Some (f b)" "length pre = 2 * i" "length room = 2 * length bs"
  shows "expand_loop table (pre @ room @ suf) i bs = Some (pre @ concat (map (\<lambda>b. le_sample (f b)) bs) @ suf)"
  using assms(2,3)
proof (induction bs arbitrary: pre room i)
  case (Cons b bs)
  then obtain x y room' where room: "room = [x, y] @ room'"
    by (cases room; cases "tl room") auto
  have "expand_loop table (pre @ room @ suf) i (b # bs)
      = expand_loop table ((pre @ le_sample (f b)) @ room' @ suf) (i + 1) bs"
    using put16le_end [of pre x y "room' @ suf"] Cons.prems
    by (simp add: room assms(1) le_sample_def Let_def)
  also have "\<dots> = Some ((pre @ le_sample (f b)) @ concat (map (\<lambda>b. le_sample (f b)) bs) @ suf)"
    using Cons.prems room by (intro Cons.IH) (simp_all add: le_sample_def Let_def)
  finally show ?case by simp
qed simp

text \<open>The three fields of a companded byte as numbers.\<close>

lemma byte_fields:
  fixes u :: byte
  shows "u AND 0x80 \<noteq> 0 \<longleftrightarrow> 128 \<le> unat u" "unat (drop_bit 4 u AND 0x07) = unat u div 16 mod 8"
    "unat (u AND 0x0F) = unat u mod 16"
proof -
  show "unat (drop_bit 4 u AND 0x07) = unat u div 16 mod 8" using unat_field [of 4 u 3] by simp
  show "unat (u AND 0x0F) = unat u mod 16" using unat_field [of 0 u 4] by simp
  have "unat (drop_bit 7 u AND 1) = unat u div 128 mod 2" using unat_field [of 7 u 1] by simp
  also have "\<dots> = unat u div 128" using unat_byte_less [of u] by (intro mod_less) simp
  finally have "drop_bit 7 u AND 1 \<noteq> 0 \<longleftrightarrow> 128 \<le> unat u"
    by (metis div_greater_zero_iff neq0_conv unat_eq_zero zero_less_numeral)
  moreover have "drop_bit 7 u AND 1 \<noteq> 0 \<longleftrightarrow> bit u 7" by (simp add: and_one_eq bit_iff_odd_drop_bit odd_iff_mod_2_eq_one)
  moreover have "u AND 2 ^ 7 \<noteq> 0 \<longleftrightarrow> bit u 7" by (simp only: and_exp_eq_0_iff_not_bit not_not)
  ultimately show "u AND 0x80 \<noteq> 0 \<longleftrightarrow> 128 \<le> unat u" by simp
qed

lemma int16_id: "- 32768 \<le> x \<Longrightarrow> x < 32768 \<Longrightarrow> int16 x = x"
  unfolding int16_def sint_sbintrunc' by (simp add: signed_take_bit_int_eq_self)

lemma unat_NOT: "unat (NOT b :: byte) = 255 - unat b"
proof -
  have "NOT b = - 1 - b" by (simp add: not_eq_complement)
  moreover have "unat (- 1 - b) = unat (- 1 :: byte) - unat b"
    by (rule unat_sub) (simp add: word_order.extremum)
  moreover have "unat (- 1 :: byte) = 255" by (simp add: unsigned_minus_1_eq_mask mask_eq_exp_minus_1)
  ultimately show ?thesis by simp
qed

lemma uint_as_int: "uint w = int (unat w)"
  by simp

lemma complement_fields:
  assumes "n < (256 :: nat)"
  shows "(255 - n) div 16 mod 8 = 7 - n div 16 mod 8" "(255 - n) mod 16 = 15 - n mod 16"
proof -
  define q r where "q = n div 16" and "r = n mod 16"
  have q: "q \<le> 15" "r \<le> 15" "n = 16 * q + r" using assms by (auto simp: q_def r_def)
  then have c: "255 - n = (15 - r) + 16 * (15 - q)" by simp
  show "(255 - n) mod 16 = 15 - n mod 16" unfolding c r_def [symmetric] by simp
  have "(255 - n) div 16 = 15 - q" unfolding c by simp
  moreover have "(15 - q) mod 8 = 7 - q mod 8"
  proof (cases "q < 8")
    case True
    then have "15 - q = (7 - q) + 8" by simp
    then have "(15 - q) mod 8 = (7 - q) mod 8" by (simp only: mod_add_self2)
    then show ?thesis using True by simp
  next
    case False
    then have "q mod 8 = q - 8" using q(1) by (simp add: mod_if)
    then show ?thesis using False q(1) by simp
  qed
  ultimately show "(255 - n) div 16 mod 8 = 7 - n div 16 mod 8" by (simp add: q_def)
qed

definition mu_magnitude :: "nat \<Rightarrow> nat \<Rightarrow> int" where
  "mu_magnitude e m = (2 * int m + 33) * 2 ^ (e + 2) - 132"

definition a_magnitude :: "nat \<Rightarrow> nat \<Rightarrow> int" where
  "a_magnitude e m = (if e = 0 then 16 * int m + 8 else (16 * int m + 264) * 2 ^ (e - 1))"

lemma magnitude_bounds:
  assumes "e \<le> 7" "m \<le> 15"
  shows "0 \<le> mu_magnitude e m" "mu_magnitude e m \<le> 32124" "8 \<le> a_magnitude e m" "a_magnitude e m \<le> 32256"
proof -
  have e: "(1 :: int) \<le> 2 ^ e" "(2 :: int) ^ e \<le> 2 ^ 7" using assms(1) by (simp_all add: power_increasing del: power_numeral)
  have "33 * 4 \<le> (2 * int m + 33) * (4 * 2 ^ e)" using e by (intro mult_mono) auto
  moreover have "(2 * int m + 33) * (4 * 2 ^ e) \<le> 63 * (4 * 2 ^ 7)" using e assms(2) by (intro mult_mono) auto
  ultimately show "0 \<le> mu_magnitude e m" "mu_magnitude e m \<le> 32124"
    by (simp_all add: mu_magnitude_def mult.commute)
  have f: "(1 :: int) \<le> 2 ^ (e - 1)" "(2 :: int) ^ (e - 1) \<le> 2 ^ 6"
    using assms(1) by (simp_all add: power_increasing del: power_numeral)
  have "264 * 1 \<le> (16 * int m + 264) * 2 ^ (e - 1)" using f by (intro mult_mono) auto
  moreover have "(16 * int m + 264) * 2 ^ (e - 1) \<le> 504 * 2 ^ 6" using f assms(2) by (intro mult_mono) auto
  ultimately show "8 \<le> a_magnitude e m" "a_magnitude e m \<le> 32256"
    using assms(2) by (auto simp: a_magnitude_def)
qed

text \<open>
  The two expanders compute the G.711 quantiser values: with sign, exponent \<open>e\<close> and mantissa \<open>m\<close>
  read off the byte (inverted for mu-law, with the even bits inverted for A-law), mu-law gives
  \<open>\<plusminus> ((2 m + 33) 2 ^ (e + 2) - 132)\<close> and A-law \<open>\<plusminus> (16 m + 8)\<close> in the lowest segment and
  \<open>\<plusminus> (16 m + 264) 2 ^ (e - 1)\<close> in the others; no intermediate value leaves the 16-bit range.
\<close>

theorem g711_expand_values:
  "muLawExpand b = (if 128 \<le> unat b then 1 else - 1)
       * mu_magnitude (7 - unat b div 16 mod 8) (15 - unat b mod 16)
   \<and> aLawExpand b = (if 128 \<le> unat (b XOR 0x55) then 1 else - 1)
       * a_magnitude (unat (b XOR 0x55) div 16 mod 8) (unat (b XOR 0x55) mod 16)
   \<and> \<bar>muLawExpand b\<bar> \<le> 32124 \<and> \<bar>aLawExpand b\<bar> \<le> 32256 \<and> aLawExpand b \<noteq> 0"
proof -
  define n where "n = unat b"
  have n: "n < 256" "unat (NOT b) = 255 - n" using unat_byte_less [of b] by (simp_all add: n_def unat_NOT)
  define e m where "e = 7 - n div 16 mod 8" and "m = 15 - n mod 16"
  have em: "(255 - n) div 16 mod 8 = e" "(255 - n) mod 16 = m" "e \<le> 7" "m \<le> 15"
    using complement_fields [OF n(1)] by (simp_all add: e_def m_def)
  have sign: "128 \<le> 255 - n \<longleftrightarrow> \<not> 128 \<le> n" using n(1) by arith
  have u: "uint (NOT b AND 0x0F) = int m" "unat (drop_bit 4 (NOT b) AND 0x07) = e"
    using byte_fields(2,3) [of "NOT b"] by (simp_all only: uint_as_int n(2) em(1,2))
  note B = magnitude_bounds [OF em(3,4)]
  have mu: "muLawExpand b = (if 128 \<le> n then 1 else - 1) * mu_magnitude e m"
    using byte_fields(1) [of "NOT b"] sign B n(2)
    by (simp add: muLawExpand_def Let_def u push_bit_eq_mult mu_magnitude_def int16_id algebra_simps)
  define a where "a = b XOR 0x55"
  define ae am where "ae = unat a div 16 mod 8" and "am = unat a mod 16"
  have aem: "ae \<le> 7" "am \<le> 15" by (auto simp: ae_def am_def)
  note A = magnitude_bounds [OF aem]
  define seg where "seg = drop_bit 4 a AND 0x07"
  have seg: "unat seg = ae" using byte_fields(2) [of a] by (simp add: seg_def ae_def)
  have "unat (a AND 0x0F) = am" using byte_fields(3) [of a] by (simp add: am_def)
  then have am: "uint (a AND 0x0F) = int am" by (simp only: uint_as_int)
  have segs: "seg = 0 \<longleftrightarrow> ae = 0" "seg = 1 \<longleftrightarrow> ae = 1" "ae \<noteq> 0 \<Longrightarrow> unat (seg - 1) = ae - 1"
    using seg by (auto simp: unat_eq_zero word_unat_eq_iff unat_minus_one)
  have t: "(if seg = 0 then push_bit 4 (int am) + 8 else if seg = 1 then push_bit 4 (int am) + 264
      else push_bit (unat (seg - 1)) (push_bit 4 (int am) + 264)) = a_magnitude ae am"
    using segs by (simp add: a_magnitude_def push_bit_eq_mult)
  have al: "aLawExpand b = (if 128 \<le> unat a then 1 else - 1) * a_magnitude ae am"
    unfolding aLawExpand_def Let_def a_def [symmetric] seg_def [symmetric] am t
    using byte_fields(1) [of a] A by (simp add: int16_id)
  show ?thesis
    unfolding n_def [symmetric] e_def [symmetric] m_def [symmetric] a_def [symmetric]
      ae_def [symmetric] am_def [symmetric] mu al
    using B A by (intro conjI) auto
qed

text \<open>
  \<open>Depacketize\<close> of a companded payload is total and exact: with room in the destination it writes
  the little-endian samples of the payload, one per byte in order, to the front of the destination,
  leaves the rest alone and reports twice the payload length; a short destination or an unknown law
  is reported with the destination untouched, and an empty payload does nothing.
\<close>

theorem g711_Depacketize_spec:
  "g711_Depacketize dst payload law =
     (if payload = [] then Some (dst, 0, None)
      else if length dst < 2 * length payload then Some (dst, 0, Some G711ErrShortBuffer)
      else if law = OtherLaw then Some (dst, 0, Some ErrUnknownLaw)
      else Some (concat (map (\<lambda>b. le_sample (expand law b)) payload) @ drop (2 * length payload) dst,
                 2 * length payload, None))"
proof -
  have "expand_loop table dst 0 payload
      = Some (concat (map (\<lambda>b. le_sample (f b)) payload) @ drop (2 * length payload) dst)"
    if "2 * length payload \<le> length dst" "\<And>b. idx table (unat b) = Some (f b)" for table f
    using expand_loop_spec [of table f "[]" 0 "take (2 * length payload) dst" payload "drop (2 * length payload) dst"]
      that by simp
  then show ?thesis
    by (cases law) (auto simp: g711_Depacketize_def Let_def expand_def)
qed

section \<open>L16\<close>

datatype l16_error = ErrPartialFrame | ErrBadChannels

record l16_packetizer =
  Channels :: int
  MaxBytes :: int

text \<open>The swap loop: one 16-bit sample per step; a trailing odd byte keeps what the buffer held.\<close>

fun swap16 :: "bytes \<Rightarrow> bytes" where
  "swap16 (lo # hi # rest) = hi # lo # swap16 rest"
| "swap16 rest = rest"

text \<open>
  The callback is a step on a state of its own that may fail. \<open>split_loop\<close> returns the frame count, the
  callback's error and its state.
\<close>

function split_loop ::
  "nat \<Rightarrow> nat \<Rightarrow> ('s \<Rightarrow> bytes \<Rightarrow> 'e option \<times> 's) \<Rightarrow> bytes \<Rightarrow> nat \<Rightarrow> nat \<Rightarrow> 's \<Rightarrow> (nat \<times> 'e option \<times> 's) option" where
  "split_loop frameBytes maxPayload fn pcm off frames s =
     (if off < length pcm \<and> 0 < maxPayload then
        let end' = min (off + maxPayload) (length pcm) in
        case slice pcm off end' of None \<Rightarrow> None
        | Some chunk \<Rightarrow>
          (case fn s (swap16 chunk) of
             (Some e, s') \<Rightarrow> Some (frames, Some e, s')
           | (None, s') \<Rightarrow> split_loop frameBytes maxPayload fn pcm end' (frames + length chunk div frameBytes) s')
      else Some (frames, None, s))"
  by pat_completeness auto
termination
  by (relation "measure (\<lambda>(fb, mp, fn, pcm, off, frames, s). length pcm - off)") auto

declare split_loop.simps [simp del]

definition l16_Split ::
  "l16_packetizer \<Rightarrow> bytes \<Rightarrow> ('s \<Rightarrow> bytes \<Rightarrow> 'e option \<times> 's) \<Rightarrow> 's \<Rightarrow> (nat \<times> (l16_error + 'e) option \<times> 's) option" where
  "l16_Split p pcm fn s =
     (if Channels p < 1 then Some (0, Some (Inl ErrBadChannels), s)
      else let frameBytes = nat (2 * Channels p) in
      if length pcm mod frameBytes \<noteq> 0 then Some (0, Some (Inl ErrPartialFrame), s)
      else let maxPayload = max (MaxBytes p - MaxBytes p smod int frameBytes) (int frameBytes) in do {
        (n, e, s') \<leftarrow> split_loop frameBytes (nat maxPayload) fn pcm 0 0 s;
        Some (n, map_option Inr e, s') })"

lemma swap16_append: "even (length xs) \<Longrightarrow> swap16 (xs @ ys) = swap16 xs @ swap16 ys"
  by (induction xs rule: swap16.induct) auto

lemma length_swap16 [simp]: "length (swap16 xs) = length xs"
  by (induction xs rule: swap16.induct) auto

lemma swap16_swap16: "swap16 (swap16 xs) = xs"
  by (induction xs rule: swap16.induct) auto

text \<open>Collecting the payloads: the callback that appends and never fails.\<close>

definition collect :: "bytes list \<Rightarrow> bytes \<Rightarrow> 'e option \<times> bytes list" where
  "collect acc payload = (None, acc @ [payload])"

lemma split_loop_collect:
  assumes "0 < fb" "even fb" "fb dvd mp" "0 < mp" "fb dvd length pcm" "fb dvd off" "off \<le> length pcm"
  shows "\<exists>ps. split_loop fb mp (collect :: _ \<Rightarrow> _ \<Rightarrow> 'e option \<times> _) pcm off n acc
        = Some (n + (length pcm - off) div fb, None, acc @ ps)
      \<and> concat ps = swap16 (drop off pcm) \<and> (\<forall>p\<in>set ps. p \<noteq> [] \<and> fb dvd length p \<and> length p \<le> mp)"
  using assms
proof (induction "length pcm - off" arbitrary: off n acc rule: less_induct)
  case less
  show ?case
  proof (cases "off < length pcm")
    case False
    then show ?thesis using less.prems by (intro exI [of _ "[]"]) (simp add: split_loop.simps [of fb])
  next
    case True
    define e where "e = min (off + mp) (length pcm)"
    define chunk where "chunk = take (e - off) (drop off pcm)"
    have e: "off < e" "e \<le> length pcm" "fb dvd e" using True less.prems by (auto simp: e_def min_def)
    have chunk: "length chunk = e - off" "slice pcm off e = Some chunk" using e by (simp_all add: chunk_def)
    have dv: "fb dvd e - off" using e less.prems(6) by (simp add: dvd_diff_nat)
    obtain ps where ps: "split_loop fb mp (collect :: _ \<Rightarrow> _ \<Rightarrow> 'e option \<times> _) pcm e
          (n + (e - off) div fb) (acc @ [swap16 chunk])
        = Some (n + (e - off) div fb + (length pcm - e) div fb, None, (acc @ [swap16 chunk]) @ ps)"
      "concat ps = swap16 (drop e pcm)" "\<forall>p\<in>set ps. p \<noteq> [] \<and> fb dvd length p \<and> length p \<le> mp"
      using less.hyps [of e "n + (e - off) div fb" "acc @ [swap16 chunk]"] less.prems e diff_less_mono2 [OF e(1) True]
      by auto
    have "split_loop fb mp (collect :: _ \<Rightarrow> _ \<Rightarrow> 'e option \<times> _) pcm off n acc
        = split_loop fb mp collect pcm e (n + (e - off) div fb) (acc @ [swap16 chunk])"
      using True less.prems(4) chunk
      by (simp add: split_loop.simps [of fb mp collect pcm off] e_def [symmetric] collect_def)
    moreover have "(e - off) div fb + (length pcm - e) div fb = (length pcm - off) div fb"
      using e dv less.prems(5) by (subst div_plus_div_distrib_dvd_left [symmetric]) simp_all
    moreover have "drop off pcm = chunk @ drop e pcm"
      unfolding chunk_def using e by (metis append_take_drop_id drop_drop le_add_diff_inverse2 less_imp_le)
    moreover have "even (length chunk)" using chunk(1) dv less.prems(2) by (metis dvd_trans)
    moreover have "e - off \<le> mp" by (simp add: e_def)
    moreover have "swap16 chunk \<noteq> []" using chunk(1) e(1) by (metis length_swap16 list.size(3) zero_less_diff less_irrefl)
    ultimately show ?thesis
      using ps chunk(1) dv e by (intro exI [of _ "swap16 chunk # ps"]) (auto simp: swap16_append)
  qed
qed

lemma smod_round:
  fixes k x :: int
  assumes "0 < k"
  shows "k dvd x - x smod k" "x - x smod k \<le> max x 0"
proof -
  have *: "x smod k = (if 0 \<le> x then x mod k else - ((- x) mod k))"
    using assms by (auto simp: signed_modulo_int_def signed_divide_int_def sgn_if minus_mult_div_eq_mod
        minus_div_mult_eq_mod algebra_simps)
  have "k dvd x - x mod k" "k dvd (- x) - (- x) mod k" by simp_all
  then have "k dvd x + (- x) mod k" by (metis dvd_minus_iff minus_add minus_diff_eq uminus_add_conv_diff diff_minus_eq_add)
  then show "k dvd x - x smod k" using \<open>k dvd x - x mod k\<close> * by auto
  have "(- x) mod k \<le> - x" if "x < 0" using that assms by (intro zmod_le_nonneg_dividend) simp
  moreover have "0 \<le> x mod k" using assms by simp
  ultimately show "x - x smod k \<le> max x 0" using * by auto
qed

text \<open>
  Splitting loses nothing: for a whole number of frames, the payloads handed to the callback are
  non-empty, whole numbers of frames, no longer than \<open>MaxBytes\<close> (or one frame, if that is less), and
  swapping each back and concatenating gives the input PCM; the reported frame count is exact.
\<close>

theorem l16_Split_roundtrip:
  assumes "1 \<le> Channels p" "nat (2 * Channels p) dvd length pcm"
  shows "\<exists>ps. l16_Split p pcm (collect :: _ \<Rightarrow> _ \<Rightarrow> 'e option \<times> _) []
      = Some (length pcm div nat (2 * Channels p), None, ps)
    \<and> concat (map swap16 ps) = pcm
    \<and> (\<forall>x\<in>set ps. x \<noteq> [] \<and> nat (2 * Channels p) dvd length x
          \<and> int (length x) \<le> max (MaxBytes p) (2 * Channels p))"
proof -
  define fb where "fb = nat (2 * Channels p)"
  have fb: "0 < fb" "even fb" "int fb = 2 * Channels p" using assms(1) by (auto simp: fb_def even_nat_iff)
  define m where "m = MaxBytes p - MaxBytes p smod int fb"
  have m: "int fb dvd m" "m \<le> max (MaxBytes p) 0"
    using smod_round [of "int fb" "MaxBytes p"] fb(1) by (simp_all add: m_def)
  define mp where "mp = nat (max m (int fb))"
  have mp: "0 < mp" "fb dvd mp" "int mp \<le> max (MaxBytes p) (2 * Channels p)"
    using fb m by (auto simp: mp_def max_def nat_dvd_iff int_dvd_int_iff [symmetric] simp del: int_dvd_int_iff split: if_splits)
  obtain ps where ps: "split_loop fb mp (collect :: _ \<Rightarrow> _ \<Rightarrow> 'e option \<times> _) pcm 0 0 []
        = Some (length pcm div fb, None, ps)"
      "concat ps = swap16 pcm" "\<forall>p\<in>set ps. p \<noteq> [] \<and> fb dvd length p \<and> length p \<le> mp"
    using split_loop_collect [OF fb(1,2) mp(2,1), of pcm 0 0 "[]"] assms(2) fb_def by auto
  have "concat (map swap16 ps) = swap16 (concat ps)"
    using ps(3) fb(2)
  proof (induction ps)
    case (Cons x xs)
    then have "even (length x)" by (auto intro: dvd_trans)
    then show ?case using Cons by (simp add: swap16_append)
  qed simp
  then have "concat (map swap16 ps) = pcm" by (simp add: ps(2) swap16_swap16)
  moreover have "l16_Split p pcm (collect :: _ \<Rightarrow> _ \<Rightarrow> 'e option \<times> _) [] = Some (length pcm div fb, None, ps)"
    using assms ps(1) unfolding l16_Split_def Let_def fb_def [symmetric] m_def [symmetric] mp_def [symmetric]
    by simp
  ultimately show ?thesis
    using ps(3) mp(3) unfolding fb_def [symmetric] by (intro exI [of _ ps]) auto
qed

theorem l16_Split_roundtrip_witness:
  "\<exists>ps. l16_Split \<lparr>Channels = 2, MaxBytes = 7\<rparr> [1, 2, 3, 4, 5, 6, 7, 8]
      (collect :: _ \<Rightarrow> _ \<Rightarrow> unit option \<times> _) [] = Some (2, None, ps)
    \<and> concat (map swap16 ps) = [1, 2, 3, 4, 5, 6, 7, 8]"
  using l16_Split_roundtrip [of "\<lparr>Channels = 2, MaxBytes = 7\<rparr>" "[1, 2, 3, 4, 5, 6, 7, 8]", where ?'e = unit]
  by (auto simp: dvd_eq_mod_eq_0)

section \<open>Opus\<close>

definition maxPacketBytes :: nat where [caps]: "maxPacketBytes = 1275 * 48 + 2 + 2 * 47"

datatype opus_error = OpusErrEmptyPacket | ErrOversizePacket | OpusErrEmptyPayload

definition opus_Packetize :: "bytes \<Rightarrow> opus_error + bytes" where
  "opus_Packetize pkt =
     (if length pkt = 0 then Inl OpusErrEmptyPacket
      else if length pkt > maxPacketBytes then Inl ErrOversizePacket
      else Inr pkt)"

definition opus_Depacketize :: "bytes \<Rightarrow> opus_error + bytes" where
  "opus_Depacketize payload = (if length payload = 0 then Inl OpusErrEmptyPayload else Inr payload)"

lemma opus_roundtrip: "opus_Packetize pkt = Inr p \<Longrightarrow> opus_Depacketize p = Inr pkt"
  by (auto simp: opus_Packetize_def opus_Depacketize_def split: if_splits)

section \<open>Presentation time\<close>

definition maxPTSSeconds :: int where [caps]: "maxPTSSeconds = (2 ^ 63 - 1) div 10 ^ 9"

text \<open>The products are 64-bit; the result is a signed nanosecond count.\<close>

definition PTSFromSamples :: "u64 \<Rightarrow> int \<Rightarrow> int" where
  "PTSFromSamples samples clockRate =
     (if clockRate \<le> 0 then 0
      else let rate = word_of_int clockRate :: u64;
               sec = samples div rate
           in if sec \<ge> word_of_int maxPTSSeconds then sint (word_of_int maxPTSSeconds * 10 ^ 9 :: u64)
              else let frac = (samples mod rate) * 10 ^ 9 div rate
                   in sint (sec * 10 ^ 9 + frac))"

lemma uint_of_int_u64: "0 \<le> x \<Longrightarrow> x < 2 ^ 64 \<Longrightarrow> uint (word_of_int x :: u64) = x"
  by (simp add: unsigned_of_int take_bit_int_eq_self)

lemma sint_u64_small: "uint (w :: u64) < 2 ^ 63 \<Longrightarrow> sint w = uint w"
proof -
  assume "uint w < 2 ^ 63"
  moreover have "- (2 ^ 63) \<le> uint w" by (rule order_trans [of _ 0]) simp_all
  ultimately have "signed_take_bit 63 (uint w) = uint w" by (intro signed_take_bit_int_eq_self)
  then show "sint w = uint w" by (simp add: sint_uint)
qed

lemma PTSFromSamples_floor:
  assumes "0 < rate" "rate \<le> 18446744073"
  shows "PTSFromSamples n rate = min (uint n * 10 ^ 9 div rate) (maxPTSSeconds * 10 ^ 9)"
proof -
  define q r f where "q = uint n div rate" and "r = uint n mod rate" and "f = r * 10 ^ 9 div rate"
  have r: "0 \<le> r" "r < rate" using assms by (simp_all add: r_def)
  have q: "0 \<le> q" using assms by (simp add: q_def pos_imp_zdiv_nonneg_iff)
  have nn: "uint n = q * rate + r" by (simp add: q_def r_def)
  then have "uint n * 10 ^ 9 = q * 10 ^ 9 * rate + r * 10 ^ 9" by (subst nn) (simp add: algebra_simps)
  then have fl: "uint n * 10 ^ 9 div rate = q * 10 ^ 9 + f"
    using assms(1) by (simp add: f_def)
  have "rate * f \<le> r * 10 ^ 9"
    using mult_div_mod_eq [of rate "r * 10 ^ 9"] pos_mod_sign [OF assms(1), of "r * 10 ^ 9"]
    unfolding f_def by linarith
  then have "rate * f < rate * 10 ^ 9" using r(2) by simp
  then have f: "0 \<le> f" "f < 10 ^ 9"
    using r assms(1) by (simp_all add: f_def pos_imp_zdiv_nonneg_iff)
  define w where "w = (word_of_int rate :: u64)"
  have w: "uint w = rate" using assms unfolding w_def by (intro uint_of_int_u64) auto
  have sec: "uint (n div w) = q" by (simp add: uint_div_distrib w q_def)
  have md: "uint (n mod w) = r" by (simp add: uint_mod_distrib w r_def)
  have mx: "uint (word_of_int maxPTSSeconds :: u64) = maxPTSSeconds" by (simp add: caps)
  have cmp: "word_of_int maxPTSSeconds \<le> n div w \<longleftrightarrow> maxPTSSeconds \<le> q"
    by (simp only: word_le_def sec mx)
  have "uint ((n mod w) * 10 ^ 9) = r * 10 ^ 9"
  proof -
    have "(n mod w) * 10 ^ 9 = word_of_int (r * 10 ^ 9)" by (simp add: md [symmetric])
    moreover have "r * 10 ^ 9 < 2 ^ 64" using r assms(2) by simp
    ultimately show ?thesis using r by (simp only:) (intro uint_of_int_u64, simp_all)
  qed
  then have fr: "uint ((n mod w) * 10 ^ 9 div w) = f" by (simp only: uint_div_distrib w f_def)
  show ?thesis
  proof (cases "maxPTSSeconds \<le> q")
    case True
    have "sint (word_of_int maxPTSSeconds * 10 ^ 9 :: u64) = maxPTSSeconds * 10 ^ 9" by (simp add: caps)
    moreover have "maxPTSSeconds * 10 ^ 9 \<le> q * 10 ^ 9 + f" using True f by simp
    ultimately show ?thesis
      unfolding PTSFromSamples_def Let_def w_def [symmetric] fl using True assms(1) cmp by simp
  next
    case False
    have "(n div w) * 10 ^ 9 + (n mod w) * 10 ^ 9 div w = word_of_int (q * 10 ^ 9 + f)"
      by (simp add: sec [symmetric] fr [symmetric])
    moreover have b: "0 \<le> q * 10 ^ 9 + f" "q * 10 ^ 9 + f < maxPTSSeconds * 10 ^ 9" "maxPTSSeconds * 10 ^ 9 < 2 ^ 63"
      using False f q by (simp_all add: caps)
    ultimately have "uint ((n div w) * 10 ^ 9 + (n mod w) * 10 ^ 9 div w) = q * 10 ^ 9 + f"
      by (simp only:) (intro uint_of_int_u64, simp_all)
    then have "sint ((n div w) * 10 ^ 9 + (n mod w) * 10 ^ 9 div w) = q * 10 ^ 9 + f"
      using b by (subst sint_u64_small) simp_all
    then show ?thesis
      unfolding PTSFromSamples_def Let_def w_def [symmetric] fl using False assms(1) cmp b by simp
  qed
qed

text \<open>
  Presentation time neither overflows nor runs backwards: at any clock rate up to 18446744073 Hz
  the result is the exact nanosecond count rounded down, clamped to the largest whole second a
  duration can hold, for every 64-bit sample count; it is therefore never negative and monotone in
  the sample count.
\<close>

theorem PTSFromSamples_exact:
  assumes "0 < rate" "rate \<le> 18446744073"
  shows "PTSFromSamples n rate = min (uint n * 10 ^ 9 div rate) (maxPTSSeconds * 10 ^ 9)
    \<and> 0 \<le> PTSFromSamples n rate \<and> (n \<le> n' \<longrightarrow> PTSFromSamples n rate \<le> PTSFromSamples n' rate)"
proof -
  have "uint n * 10 ^ 9 div rate \<le> uint n' * 10 ^ 9 div rate" if "n \<le> n'"
    using that assms(1) by (intro zdiv_mono1) (simp_all add: word_le_def)
  moreover have "0 \<le> uint n * 10 ^ 9 div rate" using assms(1) by (simp add: pos_imp_zdiv_nonneg_iff)
  ultimately show ?thesis by (auto simp: PTSFromSamples_floor [OF assms] caps min_le_iff_disj)
qed

theorem PTSFromSamples_exact_witness:
  "PTSFromSamples (2 ^ 64 - 1) 48000 = min (uint (2 ^ 64 - 1 :: u64) * 10 ^ 9 div 48000) (maxPTSSeconds * 10 ^ 9)
    \<and> 0 \<le> PTSFromSamples (2 ^ 64 - 1) 48000"
  using PTSFromSamples_exact [of 48000 "2 ^ 64 - 1" "2 ^ 64 - 1"] by (intro conjI) (simp_all add: caps)

end
