(* ===== verification/MP3_Header.thy ===== *)
theory MP3_Header
  imports Bits
begin

text \<open>
  The MPEG audio frame header parser of \<open>src/internal/mp3/mp3.go\<close>. The Go \<open>int\<close> fields are integers;
  the lookup tables are lists of lists indexed with the panicking access of the prelude.
\<close>

definition HeaderLen :: int where [caps]: "HeaderLen = 4"

datatype mp3_error = ErrInvalidHeader

record mpeg_header =
  MH_Version :: int
  MH_Layer :: int
  MH_ChannelMode :: int
  MH_SampleRate :: int
  MH_Bitrate :: int
  MH_Channels :: int
  MH_SamplesPerFrame :: int
  MH_FrameLen :: int
  MH_Padding :: bool

definition bitrateKbps :: "int list list list" where
  "bitrateKbps =
     (let none = replicate 16 0;
          low3 = [0, 8, 16, 24, 32, 40, 48, 56, 64, 80, 96, 112, 128, 144, 160, 0];
          low1 = [0, 32, 48, 56, 64, 80, 96, 112, 128, 144, 160, 176, 192, 224, 256, 0]
      in [[none, low3, low3, low1],
          [none, none, none, none],
          [none, low3, low3, low1],
          [none,
           [0, 32, 40, 48, 56, 64, 80, 96, 112, 128, 160, 192, 224, 256, 320, 0],
           [0, 32, 48, 56, 64, 80, 96, 112, 128, 160, 192, 224, 256, 320, 384, 0],
           [0, 32, 64, 96, 128, 160, 192, 224, 256, 288, 320, 352, 384, 416, 448, 0]]])"

definition sampleRateHz :: "int list list" where
  "sampleRateHz = [[11025, 12000, 8000, 0], [0, 0, 0, 0], [22050, 24000, 16000, 0], [44100, 48000, 32000, 0]]"

text \<open>Layer III, II and I are 1, 2 and 3; MPEG 2.5, 2 and 1 are 0, 2 and 3.\<close>

definition frameLenBytes :: "nat \<Rightarrow> nat \<Rightarrow> int \<Rightarrow> int \<Rightarrow> int \<Rightarrow> int" where
  "frameLenBytes version layer bps rate padding =
     (if layer = 3 then (12 * bps div rate + padding) * 4
      else if layer = 2 then 144 * bps div rate + padding
      else if version = 3 then 144 * bps div rate + padding
      else 72 * bps div rate + padding)"

definition samplesPerFrame :: "nat \<Rightarrow> nat \<Rightarrow> int" where
  "samplesPerFrame version layer =
     (if layer = 3 then 384
      else if layer = 2 then 1152
      else if version = 3 then 1152
      else 576)"

definition mp3_geometry :: "nat \<Rightarrow> nat \<Rightarrow> nat \<Rightarrow> nat \<Rightarrow> nat \<Rightarrow> nat \<Rightarrow> (mp3_error, mpeg_header) go" where
  "mp3_geometry version layer bitrateIdx srIdx padding channelMode = do {
     vrow \<leftarrow> idx bitrateKbps version;
     lrow \<leftarrow> idx vrow layer;
     kbps \<leftarrow> idx lrow bitrateIdx;
     if kbps = 0 then err ErrInvalidHeader
     else do {
       rrow \<leftarrow> idx sampleRateHz version;
       rate \<leftarrow> idx rrow srIdx;
       if rate = 0 then err ErrInvalidHeader
       else
         let bps = kbps * 1000;
             frameLen = frameLenBytes version layer bps rate (int padding)
         in if frameLen < HeaderLen then err ErrInvalidHeader
            else ok \<lparr>MH_Version = int version, MH_Layer = int layer, MH_ChannelMode = int channelMode,
                     MH_SampleRate = rate, MH_Bitrate = bps,
                     MH_Channels = (if channelMode = 3 then 1 else 2),
                     MH_SamplesPerFrame = samplesPerFrame version layer,
                     MH_FrameLen = frameLen, MH_Padding = (padding = 1)\<rparr> } }"

definition mp3_Parse :: "u32 \<Rightarrow> (mp3_error, mpeg_header) go" where
  "mp3_Parse h =
     (if h AND 0xFFE00000 \<noteq> 0xFFE00000 then err ErrInvalidHeader
      else
        let version = unat (drop_bit 19 h AND 0x3);
            layer = unat (drop_bit 17 h AND 0x3);
            bitrateIdx = unat (drop_bit 12 h AND 0xF);
            srIdx = unat (drop_bit 10 h AND 0x3);
            padding = unat (drop_bit 9 h AND 0x1);
            channelMode = unat (drop_bit 6 h AND 0x3);
            emphasis = unat (h AND 0x3)
        in if version = 1 \<or> layer = 0 \<or> emphasis = 2 then err ErrInvalidHeader
           else mp3_geometry version layer bitrateIdx srIdx padding channelMode)"

definition header_ok :: "mpeg_header \<Rightarrow> bool" where
  "header_ok h \<longleftrightarrow> 24 \<le> MH_FrameLen h \<and> MH_FrameLen h \<le> 2881
     \<and> 8000 \<le> MH_SampleRate h \<and> MH_SampleRate h \<le> 48000
     \<and> MH_SamplesPerFrame h \<in> {384, 576, 1152} \<and> MH_Channels h \<in> {1, 2}"

text \<open>All rows of the tables that \<open>Parse\<close> looks at, padded and not.\<close>

definition entry_ok :: "nat \<Rightarrow> nat \<Rightarrow> int \<Rightarrow> int \<Rightarrow> bool" where
  "entry_ok v l kbps rate \<longleftrightarrow> kbps = 0 \<or> rate = 0
     \<or> 24 \<le> frameLenBytes v l (kbps * 1000) rate 0 \<and> frameLenBytes v l (kbps * 1000) rate 1 \<le> 2881
       \<and> 8000 \<le> rate \<and> rate \<le> 48000"

lemma table_ok:
  "list_all (\<lambda>v. list_all (\<lambda>l. list_all (\<lambda>kbps. list_all (\<lambda>rate. entry_ok v l kbps rate)
     (sampleRateHz ! v)) (bitrateKbps ! v ! l)) [1, 2, 3]) [0, 2, 3]"
  by code_simp

lemma table_shape:
  "length bitrateKbps = 4" "\<forall>v\<in>set bitrateKbps. length v = 4 \<and> (\<forall>l\<in>set v. length l = 16)"
  "length sampleRateHz = 4" "\<forall>r\<in>set sampleRateHz. length r = 4"
  by (auto simp: bitrateKbps_def sampleRateHz_def Let_def)

lemma frameLenBytes_mono:
  "0 \<le> p \<Longrightarrow> p \<le> 1 \<Longrightarrow> frameLenBytes v l b r 0 \<le> frameLenBytes v l b r p
     \<and> frameLenBytes v l b r p \<le> frameLenBytes v l b r 1"
  by (auto simp: frameLenBytes_def)

lemma geometry_ok:
  assumes "v \<in> {0, 2, 3}" "l \<in> {1, 2, 3}" "b < 16" "s < 4" "p < 2"
  shows "mp3_geometry v l b s p cm \<noteq> panic
    \<and> (\<forall>h. mp3_geometry v l b s p cm = ok h \<longrightarrow> header_ok h)"
proof -
  have v: "v < 4" "l < 4" using assms by auto
  have sh: "length (bitrateKbps ! v) = 4" "length (bitrateKbps ! v ! l) = 16" "length (sampleRateHz ! v) = 4"
    using table_shape v nth_mem by (metis, metis, metis)
  define kbps rate where "kbps = bitrateKbps ! v ! l ! b" and "rate = sampleRateHz ! v ! s"
  have "entry_ok v l kbps rate"
    using table_ok assms sh unfolding list_all_iff kbps_def rate_def by auto
  then have "kbps = 0 \<or> rate = 0 \<or> 24 \<le> frameLenBytes v l (kbps * 1000) rate (int p)
      \<and> frameLenBytes v l (kbps * 1000) rate (int p) \<le> 2881 \<and> 8000 \<le> rate \<and> rate \<le> 48000"
    using frameLenBytes_mono [of "int p" v l "kbps * 1000" rate] assms(5) by (auto simp: entry_ok_def)
  moreover have "samplesPerFrame v l \<in> {384, 576, 1152}" by (simp add: samplesPerFrame_def)
  ultimately show ?thesis
    using v sh assms(3,4) table_shape(1,3)
    by (auto simp: mp3_geometry_def kbps_def rate_def Let_def header_ok_def caps split: if_splits)
qed

lemma header_fields:
  fixes h :: u32
  shows "unat (drop_bit k h AND 0x3) < 4" "unat (drop_bit k h AND 0xF) < 16" "unat (drop_bit k h AND 0x1) < 2"
proof -
  show "unat (drop_bit k h AND 0x3) < 4" using unat_field [of k h 2] by simp
  show "unat (drop_bit k h AND 0xF) < 16" using unat_field [of k h 4] by simp
  have "unat (drop_bit k h AND 0x1) = unat h div 2 ^ k mod 2 ^ 1" using unat_field [of k h 1] by simp
  also have "\<dots> < 2" by simp
  finally show "unat (drop_bit k h AND 0x1) < 2" .
qed

lemma mp3_Parse_cases:
  "mp3_Parse h \<noteq> panic \<and> (\<forall>m. mp3_Parse h = ok m \<longrightarrow> header_ok m)"
proof -
  define v l where "v = unat (drop_bit 19 h AND 0x3)" and "l = unat (drop_bit 17 h AND 0x3)"
  have vl: "v < 4" "l < 4" by (simp_all only: v_def l_def header_fields)
  show ?thesis
  proof (cases "h AND 0xFFE00000 \<noteq> 0xFFE00000 \<or> v = 1 \<or> l = 0 \<or> unat (h AND 0x3) = 2")
    case True
    then have "mp3_Parse h = err ErrInvalidHeader"
      unfolding mp3_Parse_def Let_def v_def [symmetric] l_def [symmetric] by auto
    then show ?thesis by simp
  next
    case False
    then have eq: "mp3_Parse h = mp3_geometry v l (unat (drop_bit 12 h AND 0xF)) (unat (drop_bit 10 h AND 0x3))
        (unat (drop_bit 9 h AND 0x1)) (unat (drop_bit 6 h AND 0x3))"
      unfolding mp3_Parse_def Let_def v_def [symmetric] l_def [symmetric] by auto
    have "v \<in> {0, 2, 3}" "l \<in> {1, 2, 3}" using vl False by auto
    then show ?thesis unfolding eq by (rule geometry_ok) (rule header_fields)+
  qed
qed

text \<open>
  The MPEG header parser is total and its geometry is bounded: for each of the \<open>2 ^ 32\<close> header words
  it returns an error or a header, never indexing a table out of range, and every header it returns
  has a frame length between 24 and 2881 bytes, a sample rate between 8 and 48 kHz (so that later
  divisions by it are safe), one of the three frame durations and one or two channels.
\<close>

theorem mp3_Parse_bounds:
  "mp3_Parse h \<noteq> panic
   \<and> (\<forall>m. mp3_Parse h = ok m \<longrightarrow> 24 \<le> MH_FrameLen m \<and> MH_FrameLen m \<le> 2881
        \<and> 8000 \<le> MH_SampleRate m \<and> MH_SampleRate m \<le> 48000
        \<and> MH_SamplesPerFrame m \<in> {384, 576, 1152} \<and> MH_Channels m \<in> {1, 2})"
  using mp3_Parse_cases [of h] unfolding header_ok_def by blast

lemmas mp3_eval = mp3_Parse_def mp3_geometry_def bitrateKbps_def sampleRateHz_def frameLenBytes_def
  samplesPerFrame_def Let_def caps

theorem mp3_Parse_bounds_witness:
  "mp3_Parse 0xFFFB9064 = ok \<lparr>MH_Version = 3, MH_Layer = 1, MH_ChannelMode = 1, MH_SampleRate = 44100,
      MH_Bitrate = 128000, MH_Channels = 2, MH_SamplesPerFrame = 1152, MH_FrameLen = 417, MH_Padding = False\<rparr>
   \<and> (24 :: int) \<le> 417 \<and> (417 :: int) \<le> 2881"
proof -
  have p: "mp3_Parse 0xFFFB9064 = ok \<lparr>MH_Version = 3, MH_Layer = 1, MH_ChannelMode = 1, MH_SampleRate = 44100,
      MH_Bitrate = 128000, MH_Channels = 2, MH_SamplesPerFrame = 1152, MH_FrameLen = 417, MH_Padding = False\<rparr>"
    by (simp add: mp3_eval)
  then show ?thesis using mp3_Parse_bounds [of "0xFFFB9064"] by simp
qed

text \<open>A whole frame: its first four bytes are a valid header, and it is as long as the header says.\<close>

definition word_at :: "bytes \<Rightarrow> nat \<Rightarrow> u32" where
  "word_at data off = be32 (data ! off) (data ! (off + 1)) (data ! (off + 2)) (data ! (off + 3))"

definition is_frame :: "bytes \<Rightarrow> mpeg_header \<Rightarrow> bool" where
  "is_frame f h \<longleftrightarrow> mp3_Parse (word_at f 0) = ok h \<and> length f = nat (MH_FrameLen h)"

lemma is_frame_length: "is_frame f h \<Longrightarrow> 24 \<le> length f \<and> header_ok h"
  using mp3_Parse_cases [of "word_at f 0"] by (auto simp: is_frame_def header_ok_def)

lemma word_at_append: "4 \<le> length f \<Longrightarrow> word_at (pre @ f @ suf) (length pre) = word_at f 0"
  by (auto simp: word_at_def nth_append numeral_2_eq_2)

end
