(* ===== verification/MP3.thy ===== *)
theory MP3
  imports MP3_Header Depacketizer
begin

text \<open>
  The RFC 2250 depacketizer of \<open>src/depacket/mp3/mp3.go\<close>. The reused return slice \<open>frames\<close> is scratch
  and not modelled; the reassembly state is.
\<close>

section \<open>State and operations\<close>

definition headerLen :: nat where [caps]: "headerLen = 4"
definition defaultClockRate :: u32 where [caps]: "defaultClockRate = 90000"
definition maxRTPOffset :: u64 where [caps]: "maxRTPOffset = push_bit 32 1 - 1"

datatype mpa_error = ErrShortHeader | ErrInvalidFrame | ErrOrphanFragment | MPAErrFrameOverflow

record mpa_frame =
  MF_Data :: bytes
  MF_RTPOffset :: u32

record mpa_depacketizer =
  mpa_clockRate :: u32
  mpa_frag :: bytes
  mpa_fragActive :: bool
  mpa_fragTime :: u32
  mpa_expectedLen :: nat

definition mpa_New :: "u32 \<Rightarrow> mpa_depacketizer" where
  "mpa_New clockRate =
     \<lparr>mpa_clockRate = (if clockRate = 0 then defaultClockRate else clockRate), mpa_frag = [],
      mpa_fragActive = False, mpa_fragTime = 0, mpa_expectedLen = 0\<rparr>"

definition mpa_Reset :: "mpa_depacketizer \<Rightarrow> mpa_depacketizer" where
  "mpa_Reset d = d\<lparr>mpa_fragActive := False, mpa_frag := [], mpa_expectedLen := 0\<rparr>"

definition beginFragment :: "mpa_depacketizer \<Rightarrow> bytes \<Rightarrow> u32 \<Rightarrow> nat \<Rightarrow> mpa_depacketizer" where
  "beginFragment d data rtpTime frameLen =
     d\<lparr>mpa_frag := data, mpa_fragActive := True, mpa_fragTime := rtpTime, mpa_expectedLen := frameLen\<rparr>"

text \<open>
  The loop of \<open>startBoundary\<close> from offset \<open>off\<close>, with the ticks and frames so far. The source relies on
  \<open>Parse\<close> for a positive frame length; the test \<open>0 < FrameLen\<close> only makes the recursion visibly
  well founded and never fails.
\<close>

function boundary_loop ::
  "mpa_depacketizer \<Rightarrow> bytes \<Rightarrow> u32 \<Rightarrow> nat \<Rightarrow> u64 \<Rightarrow> mpa_frame list \<Rightarrow> (mpa_error, mpa_frame list) go \<times> mpa_depacketizer" where
  "boundary_loop d data rtpTime off accTicks frames =
     (case slice data off (length data) of
        None \<Rightarrow> (panic, d)
      | Some rest \<Rightarrow>
        (if length rest < nat HeaderLen then
           (if off = 0 then (err ErrInvalidFrame, d) else (ok frames, d))
         else (case u32be rest 0 of
             None \<Rightarrow> (panic, d)
           | Some w \<Rightarrow>
             (case mp3_Parse w of
                None \<Rightarrow> (panic, d)
              | Some (Inl _) \<Rightarrow> (if off = 0 then (err ErrInvalidFrame, d) else (ok frames, d))
              | Some (Inr h) \<Rightarrow>
                (if length rest < nat (MH_FrameLen h) then
                   (if off = 0 then (ok [], beginFragment d rest rtpTime (nat (MH_FrameLen h)))
                    else (ok frames, d))
                 else (case slice rest 0 (nat (MH_FrameLen h)) of
                     None \<Rightarrow> (panic, d)
                   | Some frame \<Rightarrow>
                     (if 0 < MH_FrameLen h then
                        boundary_loop d data rtpTime (off + nat (MH_FrameLen h))
                          (accTicks + word_of_int (MH_SamplesPerFrame h) * ucast (mpa_clockRate d)
                             div word_of_int (MH_SampleRate h))
                          (frames @ [\<lparr>MF_Data = frame, MF_RTPOffset = ucast (min accTicks maxRTPOffset)\<rparr>])
                      else (panic, d))))))))"
  by pat_completeness auto
termination
  by (relation "measure (\<lambda>(d, data, rtpTime, off, accTicks, frames). length data - off)")
    (auto simp: slice_eq_Some_iff)

declare boundary_loop.simps [simp del]

definition startBoundary ::
  "mpa_depacketizer \<Rightarrow> bytes \<Rightarrow> u32 \<Rightarrow> (mpa_error, mpa_frame list) go \<times> mpa_depacketizer" where
  "startBoundary d data rtpTime =
     (let d1 = (if mpa_fragActive d then mpa_Reset d else d) in boundary_loop d1 data rtpTime 0 0 [])"

definition continueFragment ::
  "mpa_depacketizer \<Rightarrow> bytes \<Rightarrow> u32 \<Rightarrow> u32 \<Rightarrow> (mpa_error, mpa_frame list) go \<times> mpa_depacketizer" where
  "continueFragment d data fragOffset rtpTime =
     (if \<not> mpa_fragActive d then (err ErrOrphanFragment, d)
      else if rtpTime \<noteq> mpa_fragTime d \<or> unat fragOffset \<noteq> length (mpa_frag d) then
        (err ErrOrphanFragment, mpa_Reset d)
      else if length (mpa_frag d) + length data > mpa_expectedLen d then
        (err MPAErrFrameOverflow, mpa_Reset d)
      else
        let d1 = d\<lparr>mpa_frag := mpa_frag d @ data\<rparr> in
        if length (mpa_frag d1) < mpa_expectedLen d1 then (ok [], d1)
        else (ok [\<lparr>MF_Data = mpa_frag d1, MF_RTPOffset = 0\<rparr>], d1\<lparr>mpa_fragActive := False\<rparr>))"

definition mpa_Depacketize ::
  "mpa_depacketizer \<Rightarrow> bytes \<times> u32 \<Rightarrow> (mpa_error, mpa_frame list) go \<times> mpa_depacketizer" where
  "mpa_Depacketize d pkt =
     (let (payload, rtpTime) = pkt in
      if length payload < headerLen then
        (err ErrShortHeader, if mpa_fragActive d then mpa_Reset d else d)
      else case u16be payload 2 of
          None \<Rightarrow> (panic, d)
        | Some fragOffset \<Rightarrow>
          (case slice payload headerLen (length payload) of
             None \<Rightarrow> (panic, d)
           | Some data \<Rightarrow>
             if fragOffset = 0 then startBoundary d data rtpTime
             else continueFragment d data (ucast fragOffset) rtpTime))"

section \<open>Robustness\<close>

definition mpa_inv :: "mpa_depacketizer \<Rightarrow> bool" where
  "mpa_inv d \<longleftrightarrow> mpa_expectedLen d \<le> 2881 \<and> length (mpa_frag d) \<le> 2881
     \<and> (mpa_fragActive d \<longrightarrow> length (mpa_frag d) < mpa_expectedLen d)"

lemma mpa_Reset_inv: "mpa_inv (mpa_Reset d)"
  by (simp add: mpa_inv_def mpa_Reset_def)

text \<open>One iteration, with the accesses that cannot fail resolved.\<close>

lemma boundary_stop:
  assumes "off \<le> length data" "length data < off + 4 \<or> (\<exists>e. mp3_Parse (word_at data off) = err e)"
  shows "boundary_loop d data t off acc frames = (if off = 0 then (err ErrInvalidFrame, d) else (ok frames, d))"
  using assms by (auto simp: boundary_loop.simps [of d data] caps word_at_def)

lemma boundary_short:
  assumes "off + 4 \<le> length data" "mp3_Parse (word_at data off) = ok h" "length data < off + nat (MH_FrameLen h)"
  shows "boundary_loop d data t off acc frames
    = (if off = 0 then (ok [], beginFragment d data t (nat (MH_FrameLen h))) else (ok frames, d))"
  using assms by (auto simp: boundary_loop.simps [of d data] caps word_at_def)

lemma boundary_frame:
  assumes "off + 4 \<le> length data" "mp3_Parse (word_at data off) = ok h" "off + nat (MH_FrameLen h) \<le> length data"
  shows "boundary_loop d data t off acc frames = boundary_loop d data t (off + nat (MH_FrameLen h))
      (acc + word_of_int (MH_SamplesPerFrame h) * ucast (mpa_clockRate d) div word_of_int (MH_SampleRate h))
      (frames @ [\<lparr>MF_Data = take (nat (MH_FrameLen h)) (drop off data), MF_RTPOffset = ucast (min acc maxRTPOffset)\<rparr>])"
proof -
  have "0 < MH_FrameLen h" using mp3_Parse_cases [of "word_at data off"] assms(2) by (auto simp: header_ok_def)
  then show ?thesis using assms by (subst boundary_loop.simps) (auto simp: caps word_at_def)
qed

lemma boundary_loop_inv:
  "off \<le> length data \<Longrightarrow> mpa_inv d \<Longrightarrow> \<not> mpa_fragActive d \<Longrightarrow>
     fst (boundary_loop d data t off acc frames) \<noteq> panic \<and> mpa_inv (snd (boundary_loop d data t off acc frames))"
proof (induction "length data - off" arbitrary: off acc frames rule: less_induct)
  case less
  have p: "mp3_Parse (word_at data off) \<noteq> panic" "\<And>m. mp3_Parse (word_at data off) = ok m \<Longrightarrow> header_ok m"
    using mp3_Parse_cases by blast+
  consider "length data < off + 4 \<or> (\<exists>e. mp3_Parse (word_at data off) = err e)"
    | h where "off + 4 \<le> length data" "mp3_Parse (word_at data off) = ok h"
    using p(1) by (metis not_None_eq not_less old.sum.exhaust)
  then show ?case
  proof cases
    case 1
    then show ?thesis using boundary_stop [OF less.prems(1) 1] less.prems by simp
  next
    case 2
    then have h: "24 \<le> MH_FrameLen h" "MH_FrameLen h \<le> 2881" using p(2) by (auto simp: header_ok_def)
    show ?thesis
    proof (cases "length data < off + nat (MH_FrameLen h)")
      case True
      then show ?thesis
        using boundary_short [OF 2 True] h less.prems by (auto simp: beginFragment_def mpa_inv_def)
    next
      case False
      then have "length data - (off + nat (MH_FrameLen h)) < length data - off" using h 2(1) by simp
      then show ?thesis using less.hyps less.prems False boundary_frame [OF 2] by simp
    qed
  qed
qed

lemma mpa_step:
  assumes "mpa_inv d"
  shows "fst (mpa_Depacketize d pkt) \<noteq> panic \<and> mpa_inv (snd (mpa_Depacketize d pkt))"
proof -
  obtain payload t where pkt: "pkt = (payload, t)" by (cases pkt)
  have sb: "fst (startBoundary d data t) \<noteq> panic \<and> mpa_inv (snd (startBoundary d data t))" for data
    using boundary_loop_inv [of 0 data d] boundary_loop_inv [of 0 data "mpa_Reset d"] assms mpa_Reset_inv [of d]
    by (simp add: startBoundary_def Let_def) (simp add: mpa_Reset_def)
  have cf: "fst (continueFragment d data k t) \<noteq> panic \<and> mpa_inv (snd (continueFragment d data k t))" for data k
    using assms mpa_Reset_inv by (auto simp: continueFragment_def Let_def mpa_inv_def)
  show ?thesis
    using sb cf assms mpa_Reset_inv by (auto simp: mpa_Depacketize_def pkt caps)
qed

interpretation mpa: depacketizer mpa_Depacketize mpa_Reset mpa_inv "\<lambda>d. length (mpa_frag d)" 2881
  using mpa_step mpa_Reset_inv by unfold_locales (auto simp: mpa_inv_def)

text \<open>
  The MPEG audio depacketizer is robust: whatever payloads, timestamps and resets arrive, it never
  panics, and its reassembly buffer never exceeds 2881 bytes, the longest frame an MPEG header can
  declare.
\<close>

theorem mpa_robust:
  "panic \<notin> set (outputs mpa_Depacketize mpa_Reset (mpa_New rate) evs)
    \<and> length (mpa_frag (final_state mpa_Depacketize mpa_Reset (mpa_New rate) evs)) \<le> 2881"
proof -
  have "mpa_inv (mpa_New rate)" by (simp add: mpa_inv_def mpa_New_def)
  then show ?thesis using mpa.no_panic mpa.bounded by blast
qed

section \<open>Aggregated frames\<close>

text \<open>The duration of a frame in ticks of the RTP clock.\<close>

definition ticks :: "u32 \<Rightarrow> mpeg_header \<Rightarrow> nat" where
  "ticks clock h = nat (MH_SamplesPerFrame h) * unat clock div nat (MH_SampleRate h)"

fun aggregate :: "u32 \<Rightarrow> u64 \<Rightarrow> (bytes \<times> mpeg_header) list \<Rightarrow> mpa_frame list" where
  "aggregate clock acc [] = []"
| "aggregate clock acc ((f, h) # fs) = \<lparr>MF_Data = f, MF_RTPOffset = ucast (min acc maxRTPOffset)\<rparr>
     # aggregate clock (acc + word_of_int (MH_SamplesPerFrame h) * ucast clock div word_of_int (MH_SampleRate h)) fs"

lemma boundary_aggregate:
  assumes "\<forall>(f, h)\<in>set fs. is_frame f h" "pre \<noteq> [] \<or> fs \<noteq> []"
  shows "boundary_loop d (pre @ concat (map fst fs)) t (length pre) acc frames
    = (ok (frames @ aggregate (mpa_clockRate d) acc fs), d)"
  using assms
proof (induction fs arbitrary: pre acc frames)
  case Nil
  then show ?case by (simp add: boundary_stop)
next
  case (Cons x fs)
  obtain f h where x: "x = (f, h)" by (cases x)
  have f: "is_frame f h" "24 \<le> length f" using Cons.prems x is_frame_length by auto
  let ?data = "pre @ concat (map fst (x # fs))"
  have w: "mp3_Parse (word_at ?data (length pre)) = ok h"
    using f word_at_append [of f pre "concat (map fst fs)"] by (simp add: x is_frame_def)
  have len: "length pre + 4 \<le> length ?data" "length pre + nat (MH_FrameLen h) \<le> length ?data"
    using f by (simp_all add: x is_frame_def)
  have "take (nat (MH_FrameLen h)) (drop (length pre) ?data) = f" using f by (simp add: x is_frame_def)
  moreover have "?data = (pre @ f) @ concat (map fst fs)" "length pre + nat (MH_FrameLen h) = length (pre @ f)"
    using f by (simp_all add: x is_frame_def)
  moreover have "pre @ f \<noteq> []" using f by auto
  ultimately show ?case
    using boundary_frame [OF len(1) w len(2)] Cons.IH [of "pre @ f"] Cons.prems(1) by (simp add: x)
qed

lemma unat_ticks:
  assumes "header_ok h"
  shows "unat (word_of_int (MH_SamplesPerFrame h) * ucast clock div word_of_int (MH_SampleRate h) :: u64) = ticks clock h"
    "ticks clock h < 2 ^ 30"
proof -
  define s r where "s = nat (MH_SamplesPerFrame h)" and "r = nat (MH_SampleRate h)"
  have sr: "MH_SamplesPerFrame h = int s" "MH_SampleRate h = int r" "s \<le> 1152" "8000 \<le> r" "r \<le> 48000"
    using assms by (auto simp: s_def r_def header_ok_def)
  have c: "unat clock < 2 ^ 32"
  proof -
    have "unat clock < 2 ^ LENGTH(32)" by (rule unsigned_less)
    then show ?thesis by simp
  qed
  have p: "s * unat clock < 1152 * 2 ^ 32" if "s \<noteq> 0"
    using sr(3) c that by (intro mult_le_less_imp_less) simp_all
  then have p': "s * unat clock < 2 ^ 43" by (cases "s = 0") auto
  have "unat (word_of_nat s * ucast clock :: u64) = s * unat clock"
  proof -
    have "(word_of_nat s * ucast clock :: u64) = word_of_nat (s * unat clock)"
      by (simp only: ucast_as_nat [of clock] of_nat_mult)
    then show ?thesis using p' by (simp only:) (rule unat_word_of_nat_small, simp)
  qed
  moreover have "unat (word_of_nat r :: u64) = r" using sr by (simp add: unat_of_nat take_bit_nat_eq_self)
  ultimately show "unat (word_of_int (MH_SamplesPerFrame h) * ucast clock div word_of_int (MH_SampleRate h) :: u64)
      = ticks clock h"
    by (simp add: ticks_def sr(1,2) unat_div_distrib)
  have "ticks clock h \<le> s * unat clock div 8000"
    using sr(4) by (simp add: ticks_def s_def [symmetric] r_def [symmetric] div_le_mono2)
  also have "\<dots> < 2 ^ 30" using p' by (cases "s = 0") (use p in auto)
  finally show "ticks clock h < 2 ^ 30" .
qed

lemma unat_saturate: "unat (ucast (min acc maxRTPOffset) :: u32) = min (unat acc) (2 ^ 32 - 1)"
proof -
  have m: "unat maxRTPOffset = 2 ^ 32 - 1" by (simp add: caps)
  have "unat (min acc maxRTPOffset) = min (unat acc) (2 ^ 32 - 1)"
    using m by (simp add: min_def word_le_nat_alt)
  then show ?thesis by (simp add: unsigned_ucast_eq take_bit_nat_eq_self)
qed

lemma aggregate_offsets:
  assumes "\<forall>(f, h)\<in>set fs. header_ok h" "unat acc + length fs * 2 ^ 30 < 2 ^ 64"
  shows "map MF_Data (aggregate clock acc fs) = map fst fs
    \<and> (\<forall>i<length fs. unat (MF_RTPOffset (aggregate clock acc fs ! i))
         = min (unat acc + sum_list (map (\<lambda>x. ticks clock (snd x)) (take i fs))) (2 ^ 32 - 1))"
  using assms
proof (induction fs arbitrary: acc)
  case (Cons x fs)
  obtain f h where x: "x = (f, h)" by (cases x)
  define acc' where "acc' = acc + word_of_int (MH_SamplesPerFrame h) * ucast clock div word_of_int (MH_SampleRate h)"
  have h: "header_ok h" using Cons.prems x by auto
  have acc': "unat acc' = unat acc + ticks clock h"
    using unat_ticks [OF h, of clock] Cons.prems(2)
    by (simp add: acc'_def unat_add_lem [THEN iffD1])
  have "map MF_Data (aggregate clock acc' fs) = map fst fs
    \<and> (\<forall>i<length fs. unat (MF_RTPOffset (aggregate clock acc' fs ! i))
         = min (unat acc' + sum_list (map (\<lambda>x. ticks clock (snd x)) (take i fs))) (2 ^ 32 - 1))"
    using Cons.prems unat_ticks(2) [OF h, of clock] by (intro Cons.IH) (auto simp: acc')
  then show ?case
    using unat_saturate [of acc]
    by (auto simp: x acc'_def [symmetric] acc' less_Suc_eq_0_disj)
qed simp

text \<open>
  A packet that aggregates whole frames is taken apart exactly. After the four bytes of the MPA
  header with a zero fragmentation offset, any non-empty sequence of fewer than \<open>2 ^ 32\<close> valid frames
  comes out as those frames, byte for byte and in order, each stamped with the total duration of its
  predecessors in RTP ticks, saturated at the 32-bit range, so the offsets never run backwards.
\<close>

theorem mpa_aggregate:
  assumes "fs \<noteq> []" "\<forall>(f, h)\<in>set fs. is_frame f h" "length fs < 2 ^ 32"
  shows "\<exists>frames. fst (mpa_Depacketize d ([m0, m1, 0, 0] @ concat (map fst fs), t)) = ok frames
    \<and> map MF_Data frames = map fst fs
    \<and> (\<forall>i<length fs. unat (MF_RTPOffset (frames ! i))
         = min (sum_list (map (\<lambda>x. ticks (mpa_clockRate d) (snd x)) (take i fs))) (2 ^ 32 - 1))"
proof -
  define d1 where "d1 = (if mpa_fragActive d then mpa_Reset d else d)"
  have clock: "mpa_clockRate d1 = mpa_clockRate d" by (simp add: d1_def mpa_Reset_def)
  have "fst (mpa_Depacketize d ([m0, m1, 0, 0] @ concat (map fst fs), t))
      = ok (aggregate (mpa_clockRate d) 0 fs)"
    using boundary_aggregate [OF assms(2), of "[]" d1 t 0 "[]"] assms(1) clock
    by (simp add: mpa_Depacketize_def startBoundary_def d1_def [symmetric] be16_def caps)
  moreover have "\<forall>(f, h)\<in>set fs. header_ok h" using assms(2) is_frame_length by auto
  ultimately show ?thesis
    using aggregate_offsets [of fs 0 "mpa_clockRate d"] assms(3) by auto
qed

section \<open>Fragmented frames\<close>

text \<open>The packets an RFC 2250 sender makes of the pieces of a frame: all share the timestamp.\<close>

fun fragment_packets :: "u32 \<Rightarrow> nat \<Rightarrow> bytes list \<Rightarrow> (bytes \<times> u32) list" where
  "fragment_packets t off [] = []"
| "fragment_packets t off (c # cs) = ([0, 0] @ put16 (word_of_nat off) @ c, t) # fragment_packets t (off + length c) cs"

lemma mpa_continue:
  assumes "mpa_fragActive d" "mpa_fragTime d = t" "mpa_expectedLen d \<le> 2881" "mpa_frag d \<noteq> []" "cs \<noteq> []"
    "\<forall>c\<in>set cs. c \<noteq> []" "length (mpa_frag d @ concat cs) = mpa_expectedLen d"
  shows "fst (run mpa_Depacketize d (fragment_packets t (length (mpa_frag d)) cs))
    = replicate (length cs - 1) (ok []) @ [ok [\<lparr>MF_Data = mpa_frag d @ concat cs, MF_RTPOffset = 0\<rparr>]]"
  using assms
proof (induction cs arbitrary: d)
  case (Cons c cs)
  define off where "off = length (mpa_frag d)"
  have "0 < off" "off < 2881"
    using Cons.prems by (auto simp: off_def simp flip: length_greater_0_conv)
  then have off: "0 < off" "off < 2881" "unat (word_of_nat off :: u16) = off"
    by (simp_all add: unat_of_nat take_bit_nat_eq_self)
  have nz: "(word_of_nat off :: u16) \<noteq> 0" using off by (metis less_irrefl unat_0)
  define d1 where "d1 = d\<lparr>mpa_frag := mpa_frag d @ c\<rparr>"
  have step: "mpa_Depacketize d ([0, 0] @ put16 (word_of_nat off) @ c, t)
      = (if cs = [] then (ok [\<lparr>MF_Data = mpa_frag d @ c, MF_RTPOffset = 0\<rparr>], d1\<lparr>mpa_fragActive := False\<rparr>)
         else (ok [], d1))"
  proof -
    have "u16be ([0, 0] @ put16 (word_of_nat off) @ c) 2 = Some (word_of_nat off)"
      using u16_codec.dec_enc [of "[0, 0]"] by (simp add: numeral_2_eq_2)
    moreover have "slice ([0, 0] @ put16 (word_of_nat off) @ c) headerLen (length ([0, 0] @ put16 (word_of_nat off) @ c)) = Some c"
      by (simp add: caps put16_def)
    moreover have "length (mpa_frag d @ c) < mpa_expectedLen d \<longleftrightarrow> cs \<noteq> []"
      using Cons.prems by (cases cs) (auto simp flip: length_greater_0_conv)
    moreover have "length (mpa_frag d) + length c \<le> mpa_expectedLen d" using Cons.prems by auto
    moreover have "unat (ucast (word_of_nat off :: u16) :: u32) = off"
      using off by (simp only: unsigned_ucast_eq) (simp add: take_bit_nat_eq_self)
    ultimately show ?thesis
      using Cons.prems nz
      by (simp add: mpa_Depacketize_def continueFragment_def d1_def off_def [symmetric] caps)
  qed
  show ?case
  proof (cases "cs = []")
    case True
    then show ?thesis using step by (simp add: off_def)
  next
    case False
    have "fst (run mpa_Depacketize d1 (fragment_packets t (length (mpa_frag d1)) cs))
        = replicate (length cs - 1) (ok []) @ [ok [\<lparr>MF_Data = mpa_frag d1 @ concat cs, MF_RTPOffset = 0\<rparr>]]"
      by (rule Cons.IH) (use Cons.prems False in \<open>auto simp: d1_def\<close>)
    then show ?thesis
      using step False by (simp add: off_def d1_def) (cases cs; simp)
  qed
qed simp

text \<open>
  A fragmented frame is put together again. The pieces of a valid frame, the first at least four
  bytes long and none empty, sent in order under one timestamp with their fragmentation offsets,
  give nothing until the last one and then the frame, byte for byte, whatever partial frame was
  buffered before.
\<close>

theorem mpa_reassembles:
  assumes "is_frame (c @ concat cs) h" "4 \<le> length c" "\<forall>c\<in>set cs. c \<noteq> []"
  shows "fst (run mpa_Depacketize d (fragment_packets t 0 (c # cs)))
    = replicate (length cs) (ok []) @ [ok [\<lparr>MF_Data = c @ concat cs, MF_RTPOffset = 0\<rparr>]]"
proof -
  define d1 where "d1 = (if mpa_fragActive d then mpa_Reset d else d)"
  have w: "mp3_Parse (word_at c 0) = ok h" "length (c @ concat cs) = nat (MH_FrameLen h)" "MH_FrameLen h \<le> 2881"
    using assms(1,2) is_frame_length [OF assms(1)] word_at_append [of c "[]" "concat cs"] 
    by (auto simp: is_frame_def header_ok_def word_at_def nth_append)
  have first: "mpa_Depacketize d ([0, 0] @ put16 (word_of_nat 0) @ c, t) = boundary_loop d1 c t 0 0 []"
    by (simp add: mpa_Depacketize_def startBoundary_def d1_def [symmetric] caps put16_def be16_def Let_def)
  show ?thesis
  proof (cases "cs = []")
    case True
    then have "\<forall>(f, h)\<in>set [(c, h)]. is_frame f h" using assms(1) by simp
    from boundary_aggregate [OF this, of "[]" d1 t 0 "[]"] show ?thesis
      using True first by (simp add: caps)
  next
    case False
    then have ne: "concat cs \<noteq> []" using assms(3) by (cases cs) auto
    then have "length c < nat (MH_FrameLen h)" using w(2) by (metis length_append length_greater_0_conv less_add_same_cancel1)
    then have b: "boundary_loop d1 c t 0 0 [] = (ok [], beginFragment d1 c t (nat (MH_FrameLen h)))"
      using boundary_short [of 0 c h d1 t 0 "[]"] assms(2) w(1) by simp
    have "fst (run mpa_Depacketize (beginFragment d1 c t (nat (MH_FrameLen h)))
          (fragment_packets t (length (mpa_frag (beginFragment d1 c t (nat (MH_FrameLen h))))) cs))
        = replicate (length cs - 1) (ok []) @ [ok [\<lparr>MF_Data
            = mpa_frag (beginFragment d1 c t (nat (MH_FrameLen h))) @ concat cs, MF_RTPOffset = 0\<rparr>]]"
      by (rule mpa_continue) (use w assms(2,3) False in \<open>auto simp: beginFragment_def\<close>)
    then show ?thesis
      using first b False by (simp add: beginFragment_def) (cases cs; simp)
  qed
qed

definition silent_frame :: bytes where
  "silent_frame = [0xFF, 0xF3, 0x14, 0xC4] @ replicate 20 0"

lemma silent_frame: "is_frame silent_frame \<lparr>MH_Version = 2, MH_Layer = 1, MH_ChannelMode = 3, MH_SampleRate = 24000,
    MH_Bitrate = 8000, MH_Channels = 1, MH_SamplesPerFrame = 576, MH_FrameLen = 24, MH_Padding = False\<rparr>"
  by (simp add: is_frame_def word_at_def silent_frame_def be32_def mp3_eval)

theorem mpa_aggregate_witness:
  "\<exists>frames. fst (mpa_Depacketize (mpa_New 0) ([0, 0, 0, 0] @ silent_frame @ silent_frame, 5)) = ok frames
    \<and> map MF_Data frames = [silent_frame, silent_frame]"
proof -
  let ?h = "\<lparr>MH_Version = 2, MH_Layer = 1, MH_ChannelMode = 3, MH_SampleRate = 24000, MH_Bitrate = 8000,
    MH_Channels = 1, MH_SamplesPerFrame = 576, MH_FrameLen = 24, MH_Padding = False\<rparr> :: mpeg_header"
  show ?thesis
    using mpa_aggregate [of "[(silent_frame, ?h), (silent_frame, ?h)]" "mpa_New 0" 0 0 5] silent_frame by auto
qed

theorem mpa_reassembles_witness:
  "fst (run mpa_Depacketize (mpa_New 0) (fragment_packets 7 0 [take 10 silent_frame, drop 10 silent_frame]))
    = [ok [], ok [\<lparr>MF_Data = silent_frame, MF_RTPOffset = 0\<rparr>]]"
proof -
  have "is_frame (take 10 silent_frame @ concat [drop 10 silent_frame]) \<lparr>MH_Version = 2, MH_Layer = 1,
      MH_ChannelMode = 3, MH_SampleRate = 24000, MH_Bitrate = 8000, MH_Channels = 1, MH_SamplesPerFrame = 576,
      MH_FrameLen = 24, MH_Padding = False\<rparr>"
    using silent_frame by simp
  moreover have "4 \<le> length (take 10 silent_frame)" "\<forall>c\<in>set [drop 10 silent_frame]. c \<noteq> []"
    by (simp_all add: silent_frame_def)
  ultimately show ?thesis using mpa_reassembles [of "take 10 silent_frame" "[drop 10 silent_frame]"] by simp
qed

end
