(* ===== verification/Framer.thy ===== *)
theory Framer
  imports Prelude
begin

text \<open>
  The reader loop of \<open>src/httpsource/framer.go\<close> over the interface \<open>compressedFramer\<close>. The operations of
  the interface are arguments of the loop; the locale states what an implementation promises, and the
  two implementations, \<open>adtsframe.Stream\<close> and \<open>mp3Stream\<close>, are interpreted in their own theories.
  A framer's \<open>NextFrame\<close> returns \<open>None\<close> for a panic, and otherwise the deliverable payload and its
  duration, if there is one, with the new state.
\<close>

section \<open>The loop\<close>

type_synonym 's next_frame = "'s \<Rightarrow> ((bytes \<times> int) option \<times> 's) option"

text \<open>The loop of \<open>drainCompressed\<close>; not returning, like a panic, is \<open>None\<close>.\<close>

partial_function (option) drain_loop :: "'s next_frame \<Rightarrow> 's \<Rightarrow> (bytes \<times> int) list \<Rightarrow> ((bytes \<times> int) list \<times> 's) option" where
  "drain_loop nxt s acc = Option.bind (nxt s) (\<lambda>(r, s').
     case r of None \<Rightarrow> Some (acc, s') | Some f \<Rightarrow> drain_loop nxt s' (acc @ [f]))"

definition drainCompressed :: "'s next_frame \<Rightarrow> ('s \<Rightarrow> 's) \<Rightarrow> 's \<Rightarrow> ((bytes \<times> int) list \<times> 's) option" where
  "drainCompressed nxt compact s = do { (fs, s') \<leftarrow> drain_loop nxt s []; Some (fs, compact s') }"

text \<open>
  \<open>readCompressed\<close> on a body that arrives in the given non-empty reads and then fails; \<open>ended\<close> says
  whether the failure is the clean end of the stream. The checks of the \<open>closing\<close> channel, the
  watchdog stamp and the shutdown are not part of the data path and are left out.
\<close>

fun read_loop :: "('s \<Rightarrow> bytes \<Rightarrow> 's) \<Rightarrow> 's next_frame \<Rightarrow> ('s \<Rightarrow> 's) \<Rightarrow> 's \<Rightarrow> bytes list \<Rightarrow> ((bytes \<times> int) list \<times> 's) option" where
  "read_loop feed nxt compact s [] = Some ([], s)"
| "read_loop feed nxt compact s (c # cs) = do {
     (fs, s1) \<leftarrow> drainCompressed nxt compact (feed s c);
     (gs, s2) \<leftarrow> read_loop feed nxt compact s1 cs;
     Some (fs @ gs, s2) }"

definition readCompressed ::
  "('s \<Rightarrow> bytes \<Rightarrow> 's) \<Rightarrow> 's next_frame \<Rightarrow> ('s \<Rightarrow> 's) \<Rightarrow> ('s \<Rightarrow> 's) \<Rightarrow> ('s \<Rightarrow> 's) \<Rightarrow> 's \<Rightarrow> bytes list \<Rightarrow> bool
    \<Rightarrow> ((bytes \<times> int) list \<times> 's) option" where
  "readCompressed feed nxt compact set_eof finish s chunks ended = do {
     (fs, s1) \<leftarrow> read_loop feed nxt compact s chunks;
     if ended then do {
       (gs, s2) \<leftarrow> drainCompressed nxt compact (set_eof s1);
       Some (fs @ gs, finish s2) }
     else Some (fs, s1) }"

text \<open>\<open>deliverCompressed\<close>: the state is the running media time; the frame is stamped before it advances.\<close>

definition deliverCompressed :: "int \<Rightarrow> bytes \<times> int \<Rightarrow> (bytes \<times> int) \<times> int" where
  "deliverCompressed mediaPTS f =
     (let (data, dur) = f in ((data, mediaPTS), if dur > 0 then mediaPTS + dur else mediaPTS))"

lemma deliver_monotone:
  "sorted_wrt (\<le>) (map snd (fst (run deliverCompressed pts fs)))
     \<and> (\<forall>p\<in>set (map snd (fst (run deliverCompressed pts fs))). pts \<le> p)"
proof (induction fs arbitrary: pts)
  case (Cons f fs)
  obtain data dur where f: "f = (data, dur)" by (cases f)
  define pts' where "pts' = (if dur > 0 then pts + dur else pts)"
  have "pts \<le> pts'" by (simp add: pts'_def)
  moreover have "deliverCompressed pts f = ((data, pts), pts')"
    by (simp add: deliverCompressed_def f pts'_def)
  ultimately show ?case using Cons.IH [of pts'] by (auto intro: order_trans)
qed simp

section \<open>The interface\<close>

text \<open>What one pass of the loop in a framer's \<open>NextFrame\<close> comes to: a frame, no frame for now, or another pass.\<close>

datatype 'f iteration = Deliver 'f | Wait | Again

text \<open>
  \<open>at s fs q\<close>: the framer has yet to deliver the frames \<open>fs\<close>, whose encoding is what it has buffered
  followed by \<open>q\<close>, and has counted no discard. \<open>payload\<close> is what is delivered for a frame, and
  \<open>drained\<close> says that nothing is left in the buffer.
\<close>

locale compressed_framer =
  fixes feed :: "'s \<Rightarrow> bytes \<Rightarrow> 's"
    and nxt :: "'s next_frame"
    and compact :: "'s \<Rightarrow> 's"
    and set_eof :: "'s \<Rightarrow> 's"
    and finish :: "'s \<Rightarrow> 's"
    and ended :: "'s \<Rightarrow> bool"
    and drained :: "'s \<Rightarrow> bool"
    and at :: "'s \<Rightarrow> 'f list \<Rightarrow> bytes \<Rightarrow> bool"
    and payload :: "'f \<Rightarrow> bytes \<times> int"
  assumes feed_at: "at s fs (p @ q) \<Longrightarrow> at (feed s p) fs q"
    and next_at: "at s fs q \<Longrightarrow> \<exists>r s'. nxt s = Some (r, s') \<and> ended s' = ended s
        \<and> (case r of None \<Rightarrow> at s' fs q \<and> (ended s \<and> q = [] \<longrightarrow> fs = [] \<and> drained s')
           | Some d \<Rightarrow> fs \<noteq> [] \<and> d = payload (hd fs) \<and> at s' (tl fs) q)"
    and compact_at: "at s fs q \<Longrightarrow> at (compact s) fs q \<and> (drained s \<longrightarrow> drained (compact s))"
    and set_eof_at: "at s fs q \<Longrightarrow> at (set_eof s) fs q \<and> ended (set_eof s)"
    and finish_at: "at s [] [] \<Longrightarrow> drained s \<Longrightarrow> at (finish s) [] []"
begin

lemma drain_loop_at:
  "at s fs q \<Longrightarrow> \<exists>gs hs s'. fs = gs @ hs \<and> drain_loop nxt s acc = Some (acc @ map payload gs, s')
     \<and> at s' hs q \<and> (ended s \<and> q = [] \<longrightarrow> hs = [] \<and> drained s')"
proof (induction fs arbitrary: s acc)
  case Nil
  obtain s' where "nxt s = Some (None, s')" "at s' [] q"
      "ended s \<and> q = [] \<longrightarrow> drained s'"
    using next_at [OF Nil.prems] by (force split: option.splits)
  then show ?case by (simp add: drain_loop.simps [of nxt s])
next
  case (Cons f fs)
  obtain r s' where r: "nxt s = Some (r, s')" "ended s' = ended s"
      "case r of None \<Rightarrow> at s' (f # fs) q \<and> (ended s \<and> q = [] \<longrightarrow> f # fs = [] \<and> drained s')
           | Some d \<Rightarrow> f # fs \<noteq> [] \<and> d = payload (hd (f # fs)) \<and> at s' (tl (f # fs)) q"
    using next_at [OF Cons.prems] by blast
  show ?case
  proof (cases r)
    case None
    then show ?thesis using r by (intro exI [of _ "[]"] exI [of _ "f # fs"] exI [of _ s'])
      (auto simp: drain_loop.simps [of nxt s])
  next
    case (Some d)
    then have "at s' fs q" "d = payload f" using r by auto
    from Cons.IH [OF this(1), of "acc @ [d]"] obtain gs hs s''
      where IH: "fs = gs @ hs" "drain_loop nxt s' (acc @ [d]) = Some ((acc @ [d]) @ map payload gs, s'')"
        "at s'' hs q" "ended s' \<and> q = [] \<longrightarrow> hs = [] \<and> drained s''" by auto
    then show ?thesis using r Some \<open>d = payload f\<close>
      by (intro exI [of _ "f # gs"] exI [of _ hs] exI [of _ s'']) (simp add: drain_loop.simps [of nxt s])
  qed
qed

lemma drain_at:
  assumes "at s fs q"
  obtains gs hs s' where "fs = gs @ hs" "drainCompressed nxt compact s = Some (map payload gs, s')" "at s' hs q"
    "ended s \<and> q = [] \<longrightarrow> hs = [] \<and> drained s'"
  using drain_loop_at [OF assms, of "[]"] compact_at that by (fastforce simp: drainCompressed_def)

lemma read_loop_at:
  "at s fs (concat chunks @ q) \<Longrightarrow>
     \<exists>gs hs s'. fs = gs @ hs \<and> read_loop feed nxt compact s chunks = Some (map payload gs, s') \<and> at s' hs q"
proof (induction chunks arbitrary: s fs)
  case Nil
  then show ?case by (intro exI [of _ "[]"] exI [of _ fs] exI [of _ s]) simp
next
  case (Cons c cs)
  have "at (feed s c) fs (concat cs @ q)" using Cons.prems by (intro feed_at) simp
  then obtain gs hs s1 where d: "fs = gs @ hs" "drainCompressed nxt compact (feed s c) = Some (map payload gs, s1)"
      "at s1 hs (concat cs @ q)" by (rule drain_at)
  from Cons.IH [OF d(3)] obtain gs' hs' s' where "hs = gs' @ hs'"
      "read_loop feed nxt compact s1 cs = Some (map payload gs', s')" "at s' hs' q" by auto
  then show ?case using d by (intro exI [of _ "gs @ gs'"] exI [of _ hs'] exI [of _ s']) simp
qed

lemma read_all:
  assumes "at s0 fs (concat chunks)"
  shows "\<exists>s'. readCompressed feed nxt compact set_eof finish s0 chunks True = Some (map payload fs, s')
    \<and> at s' [] []"
proof -
  obtain gs hs s1 where r: "fs = gs @ hs" "read_loop feed nxt compact s0 chunks = Some (map payload gs, s1)"
      "at s1 hs []"
    using read_loop_at [of s0 fs chunks "[]"] assms by auto
  have "at (set_eof s1) hs []" "ended (set_eof s1)" using set_eof_at [OF r(3)] by auto
  then obtain gs' hs' s2 where "hs = gs' @ hs'" "drainCompressed nxt compact (set_eof s1) = Some (map payload gs', s2)"
      "at s2 hs' []" "hs' = []" "drained s2"
    using drain_at [of "set_eof s1" hs "[]"] by metis
  then show ?thesis using r finish_at by (auto simp: readCompressed_def)
qed

end

section \<open>Robustness on any input\<close>

text \<open>
  What a framer promises on arbitrary bytes: its operations keep an invariant, \<open>NextFrame\<close> does not
  panic, every delivered frame shortens the backlog, and when it has no frame to deliver the backlog
  is bounded.
\<close>

locale bounded_framer =
  fixes feed :: "'s \<Rightarrow> bytes \<Rightarrow> 's"
    and nxt :: "'s next_frame"
    and compact :: "'s \<Rightarrow> 's"
    and set_eof :: "'s \<Rightarrow> 's"
    and finish :: "'s \<Rightarrow> 's"
    and inv :: "'s \<Rightarrow> bool"
    and backlog :: "'s \<Rightarrow> nat"
    and bound :: nat
  assumes feed_inv: "inv s \<Longrightarrow> inv (feed s p)"
    and nxt_inv: "inv s \<Longrightarrow> \<exists>r s'. nxt s = Some (r, s') \<and> inv s'
        \<and> (case r of None \<Rightarrow> backlog s' \<le> bound | Some d \<Rightarrow> backlog s' < backlog s)"
    and compact_inv: "inv s \<Longrightarrow> inv (compact s) \<and> backlog (compact s) = backlog s"
    and set_eof_inv: "inv s \<Longrightarrow> inv (set_eof s)"
    and finish_inv: "inv s \<Longrightarrow> inv (finish s) \<and> backlog (finish s) = backlog s"
begin

lemma drain_loop_total:
  "inv s \<Longrightarrow> \<exists>fs s'. drain_loop nxt s acc = Some (fs, s') \<and> inv s' \<and> backlog s' \<le> bound"
proof (induction "backlog s" arbitrary: s acc rule: less_induct)
  case less
  obtain r s' where r: "nxt s = Some (r, s')" "inv s'"
      "case r of None \<Rightarrow> backlog s' \<le> bound | Some d \<Rightarrow> backlog s' < backlog s"
    using nxt_inv [OF less.prems] by blast
  show ?case
  proof (cases r)
    case None
    then show ?thesis using r by (simp add: drain_loop.simps [of nxt s])
  next
    case (Some d)
    then show ?thesis
      using r less.hyps [of s' "acc @ [d]"] by (simp add: drain_loop.simps [of nxt s])
  qed
qed

lemma drain_total:
  "inv s \<Longrightarrow> \<exists>fs s'. drainCompressed nxt compact s = Some (fs, s') \<and> inv s' \<and> backlog s' \<le> bound"
  using drain_loop_total [of s "[]"] compact_inv by (fastforce simp: drainCompressed_def)

lemma read_loop_total:
  "inv s \<Longrightarrow> backlog s \<le> bound \<Longrightarrow>
     \<exists>fs s'. read_loop feed nxt compact s chunks = Some (fs, s') \<and> inv s' \<and> backlog s' \<le> bound"
proof (induction chunks arbitrary: s)
  case (Cons c cs)
  obtain fs s1 where "drainCompressed nxt compact (feed s c) = Some (fs, s1)" "inv s1" "backlog s1 \<le> bound"
    using drain_total [OF feed_inv [OF Cons.prems(1)]] by blast
  then show ?case using Cons.IH [of s1] by auto
qed simp

lemma read_total:
  assumes "inv s" "backlog s \<le> bound"
  shows "\<exists>fs s'. readCompressed feed nxt compact set_eof finish s chunks e = Some (fs, s')
    \<and> inv s' \<and> backlog s' \<le> bound"
proof -
  obtain fs s1 where 1: "read_loop feed nxt compact s chunks = Some (fs, s1)" "inv s1" "backlog s1 \<le> bound"
    using read_loop_total [OF assms] by blast
  obtain gs s2 where 2: "drainCompressed nxt compact (set_eof s1) = Some (gs, s2)" "inv s2" "backlog s2 \<le> bound"
    using drain_total [OF set_eof_inv [OF 1(2)]] by blast
  show ?thesis using 1 2 finish_inv [OF 2(2)] by (cases e) (auto simp: readCompressed_def)
qed

end

end
