(* ===== verification/MP3_Frame.thy ===== *)
theory MP3_Frame
  imports MP3_Header Framer
begin

text \<open>
  The MPEG audio framer of \<open>src/httpsource/mp3.go\<close>, the second implementation of the reader's
  \<open>compressedFramer\<close> interface. Unlike the ADTS framer it skips ID3v2 tags, delivers a frame whole, and
  in an established sync delivers a good frame that no header follows.
\<close>

section \<open>State and operations\<close>

definition id3v2HeaderLen :: nat where [caps]: "id3v2HeaderLen = 10"
definition id3v2FooterFlag :: byte where [caps]: "id3v2FooterFlag = 0x10"

record mp3_stream =
  ms_buf :: bytes
  ms_off :: nat
  ms_id3Skip :: nat
  ms_synced :: bool
  ms_ended :: bool
  ms_gaps :: u64

text \<open>The framer that \<open>setupMP3\<close> installs.\<close>

definition mp3_NewStream :: mp3_stream where
  "mp3_NewStream = \<lparr>ms_buf = [], ms_off = 0, ms_id3Skip = 0, ms_synced = False, ms_ended = False, ms_gaps = 0\<rparr>"

definition mp3_Feed :: "mp3_stream \<Rightarrow> bytes \<Rightarrow> mp3_stream" where
  "mp3_Feed s p = s\<lparr>ms_buf := ms_buf s @ p\<rparr>"

definition consumeID3 :: "mp3_stream \<Rightarrow> bool \<times> mp3_stream" where
  "consumeID3 s =
     (if ms_id3Skip s = 0 then (True, s)
      else
        let avail = length (ms_buf s) - ms_off s;
            dropped = min (ms_id3Skip s) avail;
            s' = s\<lparr>ms_off := ms_off s + dropped, ms_id3Skip := ms_id3Skip s - dropped\<rparr>
        in (ms_id3Skip s' = 0, s'))"

definition looksLikeID3 :: "bytes \<Rightarrow> (bool \<times> bool) option" where
  "looksLikeID3 rest =
     (if length rest < 3 then Some (False, False)
      else do {
        a \<leftarrow> idx rest 0; b \<leftarrow> idx rest 1; c \<leftarrow> idx rest 2;
        if a \<noteq> 0x49 \<or> b \<noteq> 0x44 \<or> c \<noteq> 0x33 then Some (False, False)
        else if length rest < id3v2HeaderLen then Some (True, True)
        else do {
          s6 \<leftarrow> idx rest 6; s7 \<leftarrow> idx rest 7; s8 \<leftarrow> idx rest 8; s9 \<leftarrow> idx rest 9;
          if s6 AND 0x80 \<noteq> 0 \<or> s7 AND 0x80 \<noteq> 0 \<or> s8 AND 0x80 \<noteq> 0 \<or> s9 AND 0x80 \<noteq> 0
          then Some (False, False)
          else Some (True, False) } })"

definition syncsafe :: "bytes \<Rightarrow> nat option" where
  "syncsafe b = do {
     b0 \<leftarrow> idx b 0; b1 \<leftarrow> idx b 1; b2 \<leftarrow> idx b 2; b3 \<leftarrow> idx b 3;
     Some (push_bit 21 (unat (b0 AND 0x7F)) OR push_bit 14 (unat (b1 AND 0x7F))
       OR push_bit 7 (unat (b2 AND 0x7F)) OR unat (b3 AND 0x7F)) }"

definition id3v2TagLen :: "bytes \<Rightarrow> nat option" where
  "id3v2TagLen head = do {
     field \<leftarrow> slice head 6 10;
     n \<leftarrow> syncsafe field;
     let skip = id3v2HeaderLen + n in do {
     flags \<leftarrow> idx head 5;
     Some (if flags AND id3v2FooterFlag \<noteq> 0 then skip + id3v2HeaderLen else skip) } }"

definition startID3Skip :: "mp3_stream \<Rightarrow> bytes \<Rightarrow> mp3_stream option" where
  "startID3Skip s rest = do { n \<leftarrow> id3v2TagLen rest; Some (s\<lparr>ms_id3Skip := n\<rparr>) }"

definition mp3_discard :: "mp3_stream \<Rightarrow> nat \<Rightarrow> mp3_stream" where
  "mp3_discard s n = s\<lparr>ms_off := ms_off s + n, ms_gaps := ms_gaps s + 1\<rparr>"

definition mp3_dropUnsynced :: "mp3_stream \<Rightarrow> nat \<Rightarrow> mp3_stream" where
  "mp3_dropUnsynced s remLen =
     (let keep = nat HeaderLen - 1 in
      if remLen \<le> keep then s
      else s\<lparr>ms_off := ms_off s + (remLen - keep), ms_synced := False, ms_gaps := ms_gaps s + 1\<rparr>)"

function header_from :: "bytes \<Rightarrow> nat \<Rightarrow> (nat \<times> mpeg_header) option option" where
  "header_from rest i =
     (if i + nat HeaderLen \<le> length rest then
        (case (idx rest i, idx rest (i + 1)) of
           (Some b0, Some b1) \<Rightarrow>
             (if b0 \<noteq> 0xFF \<or> b1 AND 0xE0 \<noteq> 0xE0 then header_from rest (i + 1)
              else (case u32be rest i of
                  None \<Rightarrow> None
                | Some w \<Rightarrow>
                  (case mp3_Parse w of
                     None \<Rightarrow> None
                   | Some (Inr h) \<Rightarrow> Some (Some (i, h))
                   | Some (Inl _) \<Rightarrow> header_from rest (i + 1))))
         | _ \<Rightarrow> None)
      else Some None)"
  by pat_completeness auto
termination
  by (relation "measure (\<lambda>(rest, i). length rest - i)") (auto simp: caps)

declare header_from.simps [simp del]

definition scanHeader :: "bytes \<Rightarrow> (nat \<times> mpeg_header) option option" where
  "scanHeader rest = header_from rest 0"

definition headerConsistent :: "bytes \<Rightarrow> mpeg_header \<Rightarrow> bool option" where
  "headerConsistent rest h = do {
     w \<leftarrow> u32be rest (nat (MH_FrameLen h));
     r \<leftarrow> mp3_Parse w;
     case r of
       Inl _ \<Rightarrow> Some False
     | Inr n \<Rightarrow> Some (MH_Version n = MH_Version h \<and> MH_Layer n = MH_Layer h \<and> MH_SampleRate n = MH_SampleRate h) }"

definition mp3FrameDuration :: "mpeg_header \<Rightarrow> int" where
  "mp3FrameDuration h =
     (if MH_SampleRate h \<le> 0 then 0 else MH_SamplesPerFrame h * 10 ^ 9 div MH_SampleRate h)"

type_synonym mp3_iteration = "(bytes \<times> mpeg_header) iteration \<times> mp3_stream"

definition mp3_emit :: "mp3_stream \<Rightarrow> mpeg_header \<Rightarrow> mp3_iteration option" where
  "mp3_emit s h = do {
     frame \<leftarrow> slice (ms_buf s) (ms_off s) (ms_off s + nat (MH_FrameLen h));
     Some (Deliver (frame, h), s\<lparr>ms_off := ms_off s + nat (MH_FrameLen h)\<rparr>) }"

definition mp3_confirm :: "mp3_stream \<Rightarrow> mpeg_header \<Rightarrow> mp3_iteration option" where
  "mp3_confirm s h = do {
     rest \<leftarrow> slice (ms_buf s) (ms_off s) (length (ms_buf s));
     if int (length rest) < MH_FrameLen h then Some (Wait, s)
     else if int (length rest) \<ge> MH_FrameLen h + HeaderLen then do {
       c \<leftarrow> headerConsistent rest h;
       if c then mp3_emit (s\<lparr>ms_synced := True\<rparr>) h
       else if ms_synced s then mp3_emit (s\<lparr>ms_synced := False\<rparr>) h
       else Some (Again, mp3_discard s 1) }
     else if \<not> ms_synced s \<and> \<not> ms_ended s then Some (Wait, s)
     else mp3_emit s h }"

definition mp3_sync :: "mp3_stream \<Rightarrow> bytes \<Rightarrow> mp3_iteration option" where
  "mp3_sync s rest = do {
     r \<leftarrow> scanHeader rest;
     case r of
       None \<Rightarrow> Some (Wait, mp3_dropUnsynced s (length rest))
     | Some (i, h) \<Rightarrow>
       mp3_confirm (if i > 0 then (mp3_discard s i)\<lparr>ms_synced := False\<rparr> else s) h }"

definition mp3_iter :: "mp3_stream \<Rightarrow> mp3_iteration option" where
  "mp3_iter s =
     (let (ready, s0) = consumeID3 s in
      if \<not> ready then Some (Wait, s0)
      else do {
        rest \<leftarrow> slice (ms_buf s0) (ms_off s0) (length (ms_buf s0));
        (isID3, needMore) \<leftarrow> looksLikeID3 rest;
        if isID3 then
          if needMore then Some (Wait, s0)
          else do { s1 \<leftarrow> startID3Skip s0 rest; Some (Again, s1) }
        else mp3_sync s0 rest })"

section \<open>One iteration\<close>

definition mp3_inv :: "mp3_stream \<Rightarrow> bool" where
  "mp3_inv s \<longleftrightarrow> ms_off s \<le> length (ms_buf s)"

definition mp3_backlog :: "mp3_stream \<Rightarrow> nat" where
  "mp3_backlog s = length (ms_buf s) - ms_off s"

text \<open>A pass that only starts to skip a tag makes the next pass consume at least its header.\<close>

definition mp3_measure :: "mp3_stream \<Rightarrow> nat" where
  "mp3_measure s = 2 * mp3_backlog s + (if ms_id3Skip s = 0 then 1 else 0)"

lemma u32be_word: "i + 4 \<le> length b \<Longrightarrow> u32be b i = Some (word_at b i)"
  by (simp add: word_at_def)

lemma header_from_cases:
  "\<exists>r. header_from rest i = Some r \<and> (\<forall>j h. r = Some (j, h) \<longrightarrow> i \<le> j \<and> j + 4 \<le> length rest
     \<and> mp3_Parse (word_at rest j) = ok h)"
proof (induction "length rest - i" arbitrary: i rule: less_induct)
  case less
  show ?case
  proof (cases "i + 4 \<le> length rest")
    case False
    then show ?thesis by (simp add: header_from.simps [of rest i] caps)
  next
    case True
    then have ix: "idx rest i = Some (rest ! i)" "idx rest (i + 1) = Some (rest ! (i + 1))"
      "u32be rest i = Some (word_at rest i)"
      by (simp_all add: u32be_word del: u32be_Some)
    obtain p where p: "mp3_Parse (word_at rest i) = Some p" using mp3_Parse_cases by blast
    show ?thesis
    proof (cases "rest ! i \<noteq> 0xFF \<or> rest ! (i + 1) AND 0xE0 \<noteq> 0xE0 \<or> (\<exists>e. p = Inl e)")
      case skip: True
      then have "header_from rest i = header_from rest (i + 1)"
        using True ix p by (auto simp: header_from.simps [of rest i] caps)
      moreover have "\<exists>r. header_from rest (i + 1) = Some r \<and> (\<forall>j h. r = Some (j, h) \<longrightarrow> i + 1 \<le> j
          \<and> j + 4 \<le> length rest \<and> mp3_Parse (word_at rest j) = ok h)"
        using True by (intro less.hyps) simp
      ultimately show ?thesis by auto
    next
      case False
      then obtain h where "p = Inr h" by (cases p) auto
      then show ?thesis using True False ix p by (auto simp: header_from.simps [of rest i] caps)
    qed
  qed
qed

lemma headerConsistent_total:
  "nat (MH_FrameLen h) + 4 \<le> length rest \<Longrightarrow> \<exists>c. headerConsistent rest h = Some c"
  using mp3_Parse_cases [of "word_at rest (nat (MH_FrameLen h))"]
  by (auto simp: headerConsistent_def u32be_word simp del: u32be_Some split: sum.split)

text \<open>What a pass keeps, and how it gets closer to the end of the buffer.\<close>

definition progress :: "mp3_stream \<Rightarrow> mp3_iteration option \<Rightarrow> bool" where
  "progress s out \<longleftrightarrow> (\<exists>r s'. out = Some (r, s') \<and> mp3_inv s' \<and> ms_ended s' = ms_ended s
     \<and> (case r of Wait \<Rightarrow> mp3_backlog s' \<le> 2884
        | Deliver _ \<Rightarrow> mp3_backlog s' < mp3_backlog s
        | Again \<Rightarrow> mp3_measure s' < mp3_measure s \<and> mp3_backlog s' \<le> mp3_backlog s))"

lemma progress_mono:
  "progress s1 out \<Longrightarrow> ms_ended s1 = ms_ended s \<Longrightarrow> mp3_backlog s1 \<le> mp3_backlog s \<Longrightarrow> mp3_measure s1 \<le> mp3_measure s
    \<Longrightarrow> progress s out"
  unfolding progress_def by (force split: iteration.splits)

lemma mp3_emit_progress:
  assumes "header_ok h" "ms_off s + nat (MH_FrameLen h) \<le> length (ms_buf s)"
  shows "progress s (mp3_emit (s\<lparr>ms_synced := b\<rparr>) h)"
proof -
  have "0 < nat (MH_FrameLen h)" using assms(1) by (simp add: header_ok_def)
  then show ?thesis using assms(2) by (simp add: progress_def mp3_emit_def mp3_inv_def mp3_backlog_def)
qed

lemma mp3_confirm_progress:
  assumes "header_ok h" "ms_off s + 4 \<le> length (ms_buf s)"
  shows "progress s (mp3_confirm s h)"
proof -
  define n where "n = length (ms_buf s) - ms_off s"
  have fl: "24 \<le> MH_FrameLen h" "MH_FrameLen h \<le> 2881" using assms(1) by (simp_all add: header_ok_def)
  have sl: "slice (ms_buf s) (ms_off s) (length (ms_buf s)) = Some (drop (ms_off s) (ms_buf s))"
    using assms(2) by simp
  have em: "progress s (mp3_emit (s\<lparr>ms_synced := b\<rparr>) h)" if "MH_FrameLen h \<le> int n" for b
    using that fl assms(2) by (intro mp3_emit_progress [OF assms(1)]) (simp add: n_def)
  show ?thesis
  proof (cases "int n \<ge> MH_FrameLen h + 4")
    case True
    then have "nat (MH_FrameLen h) + 4 \<le> n" using fl by arith
    then obtain c where "headerConsistent (drop (ms_off s) (ms_buf s)) h = Some c"
      using headerConsistent_total [of h "drop (ms_off s) (ms_buf s)"] by (auto simp: n_def)
    then have "mp3_confirm s h = (if c then mp3_emit (s\<lparr>ms_synced := True\<rparr>) h
       else if ms_synced s then mp3_emit (s\<lparr>ms_synced := False\<rparr>) h else Some (Again, mp3_discard s 1))"
      using True by (simp add: mp3_confirm_def sl caps n_def)
    then show ?thesis
      using em True assms(2)
      by (auto simp: progress_def mp3_discard_def mp3_inv_def mp3_backlog_def mp3_measure_def)
  next
    case False
    then have "mp3_confirm s h = (if int n < MH_FrameLen h \<or> \<not> ms_synced s \<and> \<not> ms_ended s then Some (Wait, s)
        else mp3_emit s h)"
      by (simp add: mp3_confirm_def sl caps n_def)
    then consider "mp3_confirm s h = Some (Wait, s)" | "MH_FrameLen h \<le> int n" "mp3_confirm s h = mp3_emit s h"
      by (metis not_less)
    then show ?thesis
    proof cases
      case 1
      then show ?thesis using False fl assms(2) by (simp add: progress_def mp3_inv_def mp3_backlog_def n_def)
    next
      case 2
      then show ?thesis using em [of "ms_synced s"] by simp
    qed
  qed
qed

lemma consumeID3_cases:
  assumes "mp3_inv s" "consumeID3 s = (ready, s0)"
  shows "mp3_inv s0 \<and> ms_buf s0 = ms_buf s \<and> ms_ended s0 = ms_ended s \<and> ms_synced s0 = ms_synced s \<and> ms_gaps s0 = ms_gaps s
    \<and> mp3_backlog s0 \<le> mp3_backlog s \<and> (ready \<longleftrightarrow> ms_id3Skip s0 = 0)
    \<and> (ready \<longrightarrow> mp3_measure s0 \<le> mp3_measure s) \<and> (\<not> ready \<longrightarrow> mp3_backlog s0 = 0)"
proof (cases "ms_id3Skip s \<le> length (ms_buf s) - ms_off s")
  case True
  then have "ms_off s + ms_id3Skip s \<le> length (ms_buf s)" using assms(1) by (simp add: mp3_inv_def)
  then show ?thesis using assms True by (auto simp: consumeID3_def Let_def mp3_inv_def mp3_backlog_def mp3_measure_def)
next
  case False
  then show ?thesis using assms by (auto simp: consumeID3_def Let_def mp3_inv_def mp3_backlog_def mp3_measure_def)
qed

lemma looksLikeID3_total: "\<exists>a b. looksLikeID3 rest = Some (a, b) \<and> (b \<longrightarrow> a \<and> length rest < 10) \<and> (a \<and> \<not> b \<longrightarrow> 10 \<le> length rest)"
proof (cases "length rest < 3")
  case False
  then have "idx rest 0 = Some (rest ! 0)" "idx rest 1 = Some (rest ! 1)" "idx rest 2 = Some (rest ! 2)"
    by (auto simp flip: length_greater_0_conv)
  then show ?thesis using False by (cases "length rest < 10") (auto simp: looksLikeID3_def caps)
qed (auto simp: looksLikeID3_def)

definition id3_len :: "bytes \<Rightarrow> nat" where
  "id3_len t = 10 + (push_bit 21 (unat (t ! 6 AND 0x7F)) OR push_bit 14 (unat (t ! 7 AND 0x7F))
     OR push_bit 7 (unat (t ! 8 AND 0x7F)) OR unat (t ! 9 AND 0x7F)) + (if t ! 5 AND 0x10 \<noteq> 0 then 10 else 0)"

lemma id3v2TagLen_eq: "10 \<le> length t \<Longrightarrow> id3v2TagLen t = Some (id3_len t)"
  by (simp add: id3v2TagLen_def syncsafe_def id3_len_def Let_def caps)

lemma mp3_sync_progress:
  assumes "mp3_inv s" "ms_id3Skip s = 0"
  shows "progress s (mp3_sync s (drop (ms_off s) (ms_buf s)))"
proof -
  define rest where "rest = drop (ms_off s) (ms_buf s)"
  have len: "length rest = length (ms_buf s) - ms_off s" by (simp add: rest_def)
  obtain r where r: "scanHeader rest = Some r"
      "\<And>j h. r = Some (j, h) \<Longrightarrow> j + 4 \<le> length rest \<and> header_ok h"
    using header_from_cases [of rest 0] mp3_Parse_cases by (fastforce simp: scanHeader_def)
  show ?thesis
  proof (cases r)
    case None
    then have "mp3_sync s rest = Some (Wait, mp3_dropUnsynced s (length rest))" using r by (simp add: mp3_sync_def)
    then show ?thesis
      using assms len unfolding rest_def [symmetric]
      by (auto simp: progress_def mp3_dropUnsynced_def Let_def caps mp3_inv_def mp3_backlog_def)
  next
    case (Some ih)
    then obtain i h where ih: "r = Some (i, h)" by (cases ih) auto
    define s1 where "s1 = (if i > 0 then (mp3_discard s i)\<lparr>ms_synced := False\<rparr> else s)"
    have s1: "ms_buf s1 = ms_buf s" "ms_off s1 = ms_off s + i" "ms_ended s1 = ms_ended s"
      "mp3_backlog s1 \<le> mp3_backlog s" "mp3_measure s1 \<le> mp3_measure s"
      by (auto simp: s1_def mp3_discard_def mp3_backlog_def mp3_measure_def)
    have "mp3_sync s rest = mp3_confirm s1 h" using r(1) ih by (simp add: mp3_sync_def s1_def)
    moreover have "progress s1 (mp3_confirm s1 h)"
      using r(2) [OF ih] s1 len by (intro mp3_confirm_progress) auto
    ultimately show ?thesis using progress_mono s1 by (simp add: rest_def)
  qed
qed

lemma mp3_iter_progress:
  assumes "mp3_inv s"
  shows "progress s (mp3_iter s)"
proof -
  obtain ready s0 where c: "consumeID3 s = (ready, s0)" by (cases "consumeID3 s")
  note k = consumeID3_cases [OF assms c]
  obtain a b where l: "looksLikeID3 (drop (ms_off s0) (ms_buf s0)) = Some (a, b)"
      "b \<longrightarrow> a \<and> length (drop (ms_off s0) (ms_buf s0)) < 10" "a \<and> \<not> b \<longrightarrow> 10 \<le> length (drop (ms_off s0) (ms_buf s0))"
    using looksLikeID3_total by blast
  have sl: "slice (ms_buf s0) (ms_off s0) (length (ms_buf s0)) = Some (drop (ms_off s0) (ms_buf s0))"
    using k unfolding mp3_inv_def by (intro slice_all) blast
  consider "\<not> ready" | "ready" "b" | "ready" "a" "\<not> b" | "ready" "\<not> a" "\<not> b" using l by blast
  then show ?thesis
  proof cases
    case 1
    then show ?thesis using c k by (auto simp: mp3_iter_def progress_def)
  next
    case 2
    then have "mp3_iter s = Some (Wait, s0)" using c l by (simp add: mp3_iter_def sl)
    then show ?thesis using k l(2) 2 by (simp add: progress_def mp3_backlog_def)
  next
    case 3
    define s1 where "s1 = s0\<lparr>ms_id3Skip := id3_len (drop (ms_off s0) (ms_buf s0))\<rparr>"
    have "startID3Skip s0 (drop (ms_off s0) (ms_buf s0)) = Some s1"
      using 3 l by (simp add: startID3Skip_def id3v2TagLen_eq s1_def)
    then have "mp3_iter s = Some (Again, s1)" using 3 c l by (simp add: mp3_iter_def sl)
    moreover have "mp3_measure s1 < mp3_measure s0" "mp3_backlog s1 = mp3_backlog s0" "mp3_inv s1"
      using k 3 by (auto simp: s1_def mp3_measure_def mp3_backlog_def id3_len_def mp3_inv_def)
    ultimately show ?thesis using k 3 by (simp add: progress_def s1_def)
  next
    case 4
    then have "mp3_iter s = mp3_sync s0 (drop (ms_off s0) (ms_buf s0))" using c l by (simp add: mp3_iter_def sl)
    moreover have "progress s0 (mp3_sync s0 (drop (ms_off s0) (ms_buf s0)))"
      using k 4 by (intro mp3_sync_progress) auto
    ultimately show ?thesis using progress_mono k 4 by simp
  qed
qed

text \<open>The loop of \<open>next\<close>.\<close>

function mp3_next :: "mp3_stream \<Rightarrow> ((bytes \<times> mpeg_header) option \<times> mp3_stream) option" where
  "mp3_next s =
     (if mp3_inv s then
        (case mp3_iter s of
           None \<Rightarrow> None
         | Some (Deliver f, s') \<Rightarrow> Some (Some f, s')
         | Some (Wait, s') \<Rightarrow> Some (None, s')
         | Some (Again, s') \<Rightarrow> mp3_next s')
      else None)"
  by pat_completeness auto
termination
proof (relation "measure mp3_measure", simp)
  fix s :: mp3_stream and a b s'
  assume "mp3_inv s" "mp3_iter s = Some a" "(b, s') = a" "b = Again"
  then show "(s', s) \<in> measure mp3_measure" using mp3_iter_progress [of s] by (auto simp: progress_def)
qed

declare mp3_next.simps [simp del]

definition mp3_NextFrame :: "mp3_stream \<Rightarrow> ((bytes \<times> int) option \<times> mp3_stream) option" where
  "mp3_NextFrame s = do {
     (r, s') \<leftarrow> mp3_next s;
     case r of None \<Rightarrow> Some (None, s') | Some (frame, hdr) \<Rightarrow> Some (Some (frame, mp3FrameDuration hdr), s') }"

definition mp3_Compact :: "mp3_stream \<Rightarrow> mp3_stream" where
  "mp3_Compact s = (if ms_off s = 0 then s else s\<lparr>ms_buf := drop (ms_off s) (ms_buf s), ms_off := 0\<rparr>)"

definition mp3_SetEOF :: "mp3_stream \<Rightarrow> mp3_stream" where
  "mp3_SetEOF s = s\<lparr>ms_ended := True\<rparr>"

definition mp3_Finish :: "mp3_stream \<Rightarrow> mp3_stream" where
  "mp3_Finish s = (if length (ms_buf s) - ms_off s > 0 then s\<lparr>ms_gaps := ms_gaps s + 1\<rparr> else s)"

definition mp3_GapCount :: "mp3_stream \<Rightarrow> u64" where
  "mp3_GapCount s = ms_gaps s"

section \<open>Any input\<close>

lemma mp3_next_total:
  "mp3_inv s \<Longrightarrow> \<exists>r s'. mp3_next s = Some (r, s') \<and> mp3_inv s'
     \<and> (case r of None \<Rightarrow> mp3_backlog s' \<le> 2884 | Some d \<Rightarrow> mp3_backlog s' < mp3_backlog s)"
proof (induction s rule: mp3_next.induct)
  case (1 s)
  obtain r s' where it: "mp3_iter s = Some (r, s')" "mp3_inv s'"
      "case r of Wait \<Rightarrow> mp3_backlog s' \<le> 2884 | Deliver _ \<Rightarrow> mp3_backlog s' < mp3_backlog s
        | Again \<Rightarrow> mp3_backlog s' \<le> mp3_backlog s"
    using mp3_iter_progress [OF 1(2)] unfolding progress_def by (fastforce split: iteration.splits)
  show ?case
  proof (cases r)
    case Again
    then obtain r' s'' where "mp3_next s' = Some (r', s'')" "mp3_inv s''"
       "case r' of None \<Rightarrow> mp3_backlog s'' \<le> 2884 | Some d \<Rightarrow> mp3_backlog s'' < mp3_backlog s'"
      using 1 it by blast
    then show ?thesis using 1(2) it Again by (auto simp: mp3_next.simps [of s] split: option.splits)
  qed (use 1(2) it in \<open>auto simp: mp3_next.simps [of s]\<close>)
qed

lemma mp3_NextFrame_total:
  "mp3_inv s \<Longrightarrow> \<exists>r s'. mp3_NextFrame s = Some (r, s') \<and> mp3_inv s'
     \<and> (case r of None \<Rightarrow> mp3_backlog s' \<le> 2884 | Some d \<Rightarrow> mp3_backlog s' < mp3_backlog s)"
  using mp3_next_total [of s] by (force simp: mp3_NextFrame_def split: option.splits)

interpretation mp3_bounded: bounded_framer mp3_Feed mp3_NextFrame mp3_Compact mp3_SetEOF mp3_Finish
    mp3_inv mp3_backlog 2884
  by unfold_locales
    (use mp3_NextFrame_total in \<open>auto simp: mp3_Feed_def mp3_Compact_def mp3_SetEOF_def mp3_Finish_def
       mp3_inv_def mp3_backlog_def\<close>)

text \<open>
  On any body, in any chunking and whether or not it ends cleanly, the MP3 reader returns (its loops
  end, even on tags that follow each other, and no slice expression is out of range), and what it keeps
  buffered is at most the longest frame and the three bytes that may start the next header; a tag,
  however large, is not buffered.
\<close>

theorem mp3_reader_total:
  "\<exists>frames s'. readCompressed mp3_Feed mp3_NextFrame mp3_Compact mp3_SetEOF mp3_Finish
       mp3_NewStream chunks cleanEnd = Some (frames, s')
     \<and> length (ms_buf s') - ms_off s' \<le> 2884"
  using mp3_bounded.read_total [of mp3_NewStream chunks cleanEnd]
  by (auto simp: mp3_NewStream_def mp3_inv_def mp3_backlog_def)

section \<open>A clean stream behind a tag\<close>

type_synonym mpeg_frame = "bytes \<times> mpeg_header"

text \<open>Whole frames of one version, layer and sampling rate.\<close>

definition mpeg_frames :: "mpeg_frame list \<Rightarrow> bool" where
  "mpeg_frames fs \<longleftrightarrow> (\<forall>(b, h)\<in>set fs. is_frame b h)
     \<and> (\<forall>(b, h)\<in>set fs. \<forall>(b', h')\<in>set fs. MH_Version h' = MH_Version h
          \<and> MH_Layer h' = MH_Layer h \<and> MH_SampleRate h' = MH_SampleRate h)"

text \<open>A whole ID3v2 tag, footer included.\<close>

definition id3_tag :: "bytes \<Rightarrow> bool" where
  "id3_tag t \<longleftrightarrow> 10 \<le> length t \<and> take 3 t = [0x49, 0x44, 0x33]
     \<and> list_all (\<lambda>b. b AND 0x80 = 0) (take 4 (drop 6 t)) \<and> length t = id3_len t"

definition mp3_payload :: "mpeg_frame \<Rightarrow> bytes \<times> int" where
  "mp3_payload f = (fst f, mp3FrameDuration (snd f))"

definition mp3_at :: "mp3_stream \<Rightarrow> mpeg_frame list \<Rightarrow> bytes \<Rightarrow> bool" where
  "mp3_at s fs q \<longleftrightarrow> mp3_inv s \<and> mpeg_frames fs \<and> ms_gaps s = 0
     \<and> (\<exists>tag. drop (ms_off s) (ms_buf s) @ q = tag @ concat (map fst fs)
          \<and> (length tag = ms_id3Skip s \<or> ms_id3Skip s = 0 \<and> id3_tag tag))"

lemma mpeg_framesD:
  assumes "mpeg_frames ((b, h) # fs)"
  shows "is_frame b h" "length b = nat (MH_FrameLen h)" "header_ok h" "24 \<le> length b" "mpeg_frames fs"
    "\<And>b' h'. (b', h') \<in> set fs \<Longrightarrow> MH_Version h' = MH_Version h \<and> MH_Layer h' = MH_Layer h \<and> MH_SampleRate h' = MH_SampleRate h"
proof -
  show f: "is_frame b h" using assms by (simp add: mpeg_frames_def)
  then show "length b = nat (MH_FrameLen h)" "header_ok h" "24 \<le> length b"
    using is_frame_length [of b h] by (auto simp: is_frame_def)
  show "mpeg_frames fs" using assms by (auto simp: mpeg_frames_def)
  show "MH_Version h' = MH_Version h \<and> MH_Layer h' = MH_Layer h \<and> MH_SampleRate h' = MH_SampleRate h"
    if "(b', h') \<in> set fs" for b' h'
    using assms that unfolding mpeg_frames_def list.set by blast
qed

text \<open>A valid header starts with the eleven sync bits, so it is not taken for a tag and the scan stops at it.\<close>

lemma sync_bytes:
  assumes "mp3_Parse (be32 a b c d) = ok h"
  shows "a = 0xFF \<and> b AND 0xE0 = 0xE0"
proof -
  have "be32 a b c d AND 0xFFE00000 = 0xFFE00000"
    using assms by (simp add: mp3_Parse_def split: if_splits)
  then have bits: "bit (be32 a b c d) n" if "bit (0xFFE00000 :: u32) n" for n
    using that by (metis bit_and_iff)
  have m: "bit (0xFFE00000 :: u32) k \<longleftrightarrow> 21 \<le> k \<and> k < 32" for k
  proof -
    have "(0xFFE00000 :: u32) = push_bit 21 (mask 11)" by (simp add: mask_eq_exp_minus_1)
    then show ?thesis by (simp only: bit_simps) auto
  qed
  have top: "bit (be32 a b c d) (24 + n) \<longleftrightarrow> bit a n" "bit (be32 a b c d) (16 + n) \<longleftrightarrow> bit b n" if "n < 8" for n
  proof -
    have "\<not> bit b (8 + n)" "\<not> bit c (16 + n)" "\<not> bit d (24 + n)" "\<not> bit c (8 + n)" "\<not> bit d (16 + n)"
      by (simp_all add: impossible_bit)
    then show "bit (be32 a b c d) (24 + n) \<longleftrightarrow> bit a n" "bit (be32 a b c d) (16 + n) \<longleftrightarrow> bit b n"
      using that by (simp_all add: be32_def bit_simps)
  qed
  have "bit a n" if "n < 8" for n
    using bits [of "24 + n"] top(1) that m [of "24 + n"] by simp
  then have "a = - 1" by (intro bit_word_eqI) (simp add: bit_simps)
  have e: "bit (0xE0 :: byte) n \<longleftrightarrow> n = 5 \<or> n = 6 \<or> n = 7" if "n < 8" for n
  proof -
    have "(0xE0 :: byte) = push_bit 5 (mask 3)" by (simp add: mask_eq_exp_minus_1)
    then show ?thesis using that by (simp only: bit_simps) auto
  qed
  have "bit b n" if "bit (0xE0 :: byte) n" "n < 8" for n
    using bits [of "16 + n"] top(2) that e [of n] m [of "16 + n"] by auto
  then have "b AND 0xE0 = 0xE0" by (intro bit_word_eqI) (auto simp: bit_simps)
  then show ?thesis using \<open>a = - 1\<close> by simp
qed

lemma front_nth: "D @ q = b @ r \<Longrightarrow> i < length D \<Longrightarrow> i < length b \<Longrightarrow> D ! i = b ! i"
  by (metis nth_append)

lemma word_at_front:
  assumes "D @ q = b @ r" "4 \<le> length D" "4 \<le> length b"
  shows "word_at D 0 = word_at b 0"
proof -
  have "D ! i = b ! i" if "i < 4" for i using front_nth [OF assms(1)] assms(2,3) that by simp
  then show ?thesis by (simp add: word_at_def)
qed

lemma word_at_drop: "n + 4 \<le> length D \<Longrightarrow> word_at D n = word_at (drop n D) 0"
  by (simp add: word_at_def add.commute)

lemma is_frame_sync: "is_frame b h \<Longrightarrow> b ! 0 = 0xFF \<and> b ! 1 AND 0xE0 = 0xE0"
  using sync_bytes [of "b ! 0" "b ! 1" "b ! 2" "b ! 3" h] by (simp add: is_frame_def word_at_def numeral_2_eq_2)

lemma scan_at_frame:
  assumes "D @ q = b @ r" "4 \<le> length D" "is_frame b h"
  shows "scanHeader D = Some (Some (0, h))"
proof -
  have b: "24 \<le> length b" using is_frame_length [OF assms(3)] by simp
  then have "D ! i = b ! i" if "i < 4" for i using front_nth [OF assms(1)] assms(2) that by simp
  then have "D ! 0 = 0xFF" "D ! 1 AND 0xE0 = 0xE0" using is_frame_sync [OF assms(3)] by simp_all
  moreover have "mp3_Parse (word_at D 0) = ok h"
    using assms(3) word_at_front [OF assms(1,2)] b by (simp add: is_frame_def)
  moreover have "idx D 0 = Some (D ! 0)" "idx D (0 + 1) = Some (D ! 1)" "u32be D 0 = Some (word_at D 0)"
    using assms(2) u32be_word [of 0 D] by (auto simp del: u32be_Some simp flip: length_greater_0_conv)
  ultimately show ?thesis
    using assms(2) unfolding scanHeader_def header_from.simps [of D 0] by (simp add: caps)
qed

lemma mp3_confirm_clean:
  assumes "mp3_inv s" "D = drop (ms_off s) (ms_buf s)" "D @ q = b @ concat (map fst fs)" "mpeg_frames ((b, h) # fs)"
  shows "mp3_confirm s h = Some (Wait, s) \<and> (length D < length b \<or> \<not> ms_ended s)
     \<or> (\<exists>syn. mp3_confirm s h = mp3_emit (s\<lparr>ms_synced := syn\<rparr>) h) \<and> length b \<le> length D"
proof -
  note f = mpeg_framesD [OF assms(4)]
  have sl: "slice (ms_buf s) (ms_off s) (length (ms_buf s)) = Some D"
    using assms(1) unfolding assms(2) mp3_inv_def by (rule slice_all)
  have fl: "MH_FrameLen h = int (length b)" using f(2,4) by simp
  have "headerConsistent D h = Some True" if long: "length b + 4 \<le> length D"
  proof -
    have rest: "drop (length b) D @ q = concat (map fst fs)"
      using append_front(2) [OF assms(3)] long by simp
    then have "fs \<noteq> []" using long by (auto simp flip: length_greater_0_conv)
    then obtain b' h' fs' where fs: "fs = (b', h') # fs'" "drop (length b) D @ q = b' @ concat (map fst fs')"
      using rest by (cases fs) auto
    note f' = mpeg_framesD [OF f(5) [unfolded fs(1)]]
    have "mp3_Parse (word_at D (length b)) = ok h'"
      using word_at_drop [OF long] word_at_front [OF fs(2)] long f'(1,4) by (simp add: is_frame_def)
    moreover have "u32be D (nat (MH_FrameLen h)) = Some (word_at D (length b))"
      using u32be_word [OF long] by (simp only: fl nat_int)
    ultimately show ?thesis using f(6) [of b' h'] fs(1) by (simp add: headerConsistent_def)
  qed
  then consider "length D < length b" | "length b + 4 \<le> length D" "headerConsistent D h = Some True"
    | "length b \<le> length D" "length D < length b + 4" by linarith
  then show ?thesis
  proof cases
    case 1
    then show ?thesis by (simp add: mp3_confirm_def sl fl)
  next
    case 2
    then have "mp3_confirm s h = mp3_emit (s\<lparr>ms_synced := True\<rparr>) h" by (simp add: mp3_confirm_def sl fl caps)
    then show ?thesis using 2 by auto
  next
    case 3
    then have "mp3_confirm s h = (if \<not> ms_synced s \<and> \<not> ms_ended s then Some (Wait, s) else mp3_emit s h)"
      by (simp add: mp3_confirm_def sl fl caps)
    moreover have "mp3_emit s h = mp3_emit (s\<lparr>ms_synced := ms_synced s\<rparr>) h" by simp
    ultimately show ?thesis using 3 by (metis (no_types))
  qed
qed

text \<open>What a pass does on a clean stream.\<close>

definition clean_pass :: "mp3_stream \<Rightarrow> mpeg_frame list \<Rightarrow> bytes \<Rightarrow> mp3_iteration option \<Rightarrow> bool" where
  "clean_pass s fs q out \<longleftrightarrow> (\<exists>r s'. out = Some (r, s') \<and> ms_ended s' = ms_ended s
     \<and> (case r of Wait \<Rightarrow> mp3_at s' fs q \<and> (ms_ended s \<and> q = [] \<longrightarrow> fs = [] \<and> mp3_backlog s' = 0)
        | Deliver f \<Rightarrow> fs \<noteq> [] \<and> f = hd fs \<and> mp3_at s' (tl fs) q
        | Again \<Rightarrow> mp3_at s' fs q))"

lemma not_id3: "D = [] \<or> D ! 0 \<noteq> 0x49 \<Longrightarrow> looksLikeID3 D = Some (False, False)"
  by (cases D) (auto simp: looksLikeID3_def idx_def)

lemma mp3_iter_ready:
  assumes "mp3_inv s" "ms_id3Skip s = 0"
  shows "mp3_iter s = Option.bind (looksLikeID3 (drop (ms_off s) (ms_buf s))) (\<lambda>(isID3, needMore).
     if isID3 then
       if needMore then Some (Wait, s)
       else do { s1 \<leftarrow> startID3Skip s (drop (ms_off s) (ms_buf s)); Some (Again, s1) }
     else mp3_sync s (drop (ms_off s) (ms_buf s)))"
  using assms by (simp add: mp3_iter_def consumeID3_def mp3_inv_def)

lemma mp3_sync_short:
  "length rest < 4 \<Longrightarrow> mp3_sync s rest = Some (Wait, s)"
  by (simp add: mp3_sync_def scanHeader_def header_from.simps [of rest 0] mp3_dropUnsynced_def caps)

lemma clean_frames:
  assumes "mp3_inv s" "ms_id3Skip s = 0" "mpeg_frames fs" "ms_gaps s = 0"
    and cat: "drop (ms_off s) (ms_buf s) @ q = concat (map fst fs)"
  shows "clean_pass s fs q (mp3_iter s)"
proof -
  define D where "D = drop (ms_off s) (ms_buf s)"
  have len: "length D = mp3_backlog s" by (simp add: D_def mp3_backlog_def)
  have at: "mp3_at s fs q" using assms by (simp add: mp3_at_def)
  have "D = [] \<or> D ! 0 \<noteq> 0x49"
  proof (cases "D = [] \<or> fs = []")
    case True
    then show ?thesis using cat by (auto simp: D_def)
  next
    case False
    then obtain b h gs where fs: "fs = (b, h) # gs" by (cases fs) auto
    have "b ! 0 = 0xFF" "b \<noteq> []" using is_frame_sync mpeg_framesD [OF assms(3) [unfolded fs]] by auto
    then show ?thesis using False cat fs by (auto simp: D_def [symmetric] neq_Nil_conv)
  qed
  then have it: "mp3_iter s = mp3_sync s D" using mp3_iter_ready [OF assms(1,2)] not_id3 by (simp add: D_def)
  show ?thesis
  proof (cases "length D < 4")
    case True
    then have "mp3_iter s = Some (Wait, s)" using it mp3_sync_short by simp
    moreover have "fs = [] \<and> mp3_backlog s = 0" if "q = []"
    proof -
      have "24 \<le> length (concat (map fst fs))" if "fs \<noteq> []"
        using that assms(3) mpeg_framesD(4) by (cases fs) fastforce+
      moreover have "D = concat (map fst fs)" using cat that by (simp add: D_def)
      ultimately have "fs = []" using True by fastforce
      then show ?thesis using that cat len by (simp add: D_def)
    qed
    ultimately show ?thesis using at by (auto simp: clean_pass_def)
  next
    case False
    then have "fs \<noteq> []" using cat by (auto simp: D_def simp flip: length_greater_0_conv)
    then obtain b h gs where fs: "fs = (b, h) # gs" by (cases fs) auto
    note f = mpeg_framesD [OF assms(3) [unfolded fs]]
    have cat': "D @ q = b @ concat (map fst gs)" using cat fs by (simp add: D_def)
    have it': "mp3_iter s = mp3_confirm s h"
      using scan_at_frame [OF cat' _ f(1)] False it by (simp add: mp3_sync_def)
    consider (wait) "mp3_confirm s h = Some (Wait, s)" "length D < length b \<or> \<not> ms_ended s"
      | (emit) syn where "mp3_confirm s h = mp3_emit (s\<lparr>ms_synced := syn\<rparr>) h" "length b \<le> length D"
      using mp3_confirm_clean [OF assms(1) D_def cat' assms(3) [unfolded fs]] by blast
    then show ?thesis
    proof cases
      case wait
      moreover have "length b \<le> length D" if "q = []" using cat' that by simp
      ultimately show ?thesis using it' at by (auto simp: clean_pass_def)
    next
      case emit
      define s' where "s' = s\<lparr>ms_synced := syn, ms_off := ms_off s + length b\<rparr>"
      have fit: "ms_off s + length b \<le> length (ms_buf s)" using emit(2) len f(4) by (simp add: mp3_backlog_def)
      note tk = append_front [OF cat' emit(2)]
      have "mp3_iter s = Some (Deliver (b, h), s')"
        using it' emit(1) fit tk(1) by (simp add: mp3_emit_def s'_def f(2) [symmetric] D_def)
      moreover have "mp3_at s' gs q"
        using fit f(5) assms(2,4) tk(2) by (simp add: mp3_at_def s'_def mp3_inv_def D_def add.commute)
      ultimately show ?thesis by (simp add: clean_pass_def fs s'_def)
    qed
  qed
qed

lemma id3_tagD:
  assumes "id3_tag t" "D @ q = t @ r" "10 \<le> length D"
  shows "looksLikeID3 D = Some (True, False)" "id3_len D = length t"
proof -
  have t: "10 \<le> length t" "length t = id3_len t" using assms(1) by (auto simp: id3_tag_def)
  have D: "D ! i = t ! i" if "i < 10" for i using front_nth [OF assms(2)] assms(3) t(1) that by simp
  have "take 3 t ! i = [0x49, 0x44, 0x33] ! i" for i using assms(1) by (simp add: id3_tag_def)
  then have id: "t ! 0 = 0x49" "t ! 1 = 0x44" "t ! 2 = 0x33"
    using t(1) nth_take [of 0 3 t] nth_take [of 1 3 t] nth_take [of 2 3 t] by (force, force, force)
  have "t ! (6 + i) AND 0x80 = 0" if "i < 4" for i
    using assms(1) that t(1) unfolding id3_tag_def list_all_length by auto
  from this [of 0] this [of 1] this [of 2] this [of 3]
  have safe: "t ! 6 AND 0x80 = 0" "t ! 7 AND 0x80 = 0" "t ! 8 AND 0x80 = 0" "t ! 9 AND 0x80 = 0" by simp_all
  have ix: "idx D i = Some (t ! i)" if "i < 10" for i using D that assms(3) by simp
  show "looksLikeID3 D = Some (True, False)"
    using assms(3) by (simp add: looksLikeID3_def caps id [simplified] safe ix del: idx_Some)
  show "id3_len D = length t" unfolding t(2) by (simp add: id3_len_def D)
qed

lemma clean_tag:
  assumes "mp3_inv s" "ms_id3Skip s = 0" "mpeg_frames fs" "ms_gaps s = 0" "id3_tag tag"
    and cat: "drop (ms_off s) (ms_buf s) @ q = tag @ concat (map fst fs)"
  shows "clean_pass s fs q (mp3_iter s)"
proof -
  define D where "D = drop (ms_off s) (ms_buf s)"
  have t: "10 \<le> length tag" using assms(5) by (simp add: id3_tag_def)
  have at: "mp3_at s fs q" using assms by (auto simp: mp3_at_def)
  show ?thesis
  proof (cases "10 \<le> length D")
    case True
    note tag = id3_tagD [OF assms(5) cat [folded D_def] True]
    define s' where "s' = s\<lparr>ms_id3Skip := length tag\<rparr>"
    have "startID3Skip s D = Some s'" using True tag(2) by (simp add: startID3Skip_def id3v2TagLen_eq s'_def)
    then have "mp3_iter s = Some (Again, s')"
      using tag(1) by (simp add: mp3_iter_ready [OF assms(1,2)] D_def [symmetric])
    moreover have "mp3_at s' fs q" using assms by (auto simp: mp3_at_def s'_def mp3_inv_def)
    ultimately show ?thesis by (simp add: clean_pass_def s'_def)
  next
    case False
    have "length D + length q = length tag + length (concat (map fst fs))"
      using arg_cong [OF cat [folded D_def], of length] by simp
    then have q: "q \<noteq> []" using False t by auto
    have "mp3_iter s = Some (Wait, s)"
    proof (cases "looksLikeID3 D = Some (False, False)")
      case True
      moreover have "length D < 4"
      proof (rule ccontr)
        assume "\<not> length D < 4"
        have "take 3 tag ! i = [0x49, 0x44, 0x33] ! i" for i using assms(5) by (simp add: id3_tag_def)
        then have "tag ! 0 = 0x49" "tag ! 1 = 0x44" "tag ! 2 = 0x33"
          using t nth_take [of 0 3 tag] nth_take [of 1 3 tag] nth_take [of 2 3 tag] by (force, force, force)
        moreover have ix: "idx D i = Some (tag ! i)" if "i < 3" for i
          using front_nth [OF cat [folded D_def]] that t \<open>\<not> length D < 4\<close> by simp
        ultimately show False
          using True False \<open>\<not> length D < 4\<close> by (simp add: looksLikeID3_def caps ix del: idx_Some)
      qed
      ultimately show ?thesis using mp3_sync_short by (simp add: mp3_iter_ready [OF assms(1,2)] D_def [symmetric])
    next
      case nf: False
      then have "looksLikeID3 D = Some (True, True)" using looksLikeID3_total [of D] False by auto
      then show ?thesis by (simp add: mp3_iter_ready [OF assms(1,2)] D_def [symmetric])
    qed
    then show ?thesis using at q by (simp add: clean_pass_def)
  qed
qed

lemma mp3_iter_at:
  assumes "mp3_at s fs q"
  shows "clean_pass s fs q (mp3_iter s)"
proof -
  define D where "D = drop (ms_off s) (ms_buf s)"
  obtain tag where tag: "D @ q = tag @ concat (map fst fs)" "length tag = ms_id3Skip s \<or> ms_id3Skip s = 0 \<and> id3_tag tag"
    and inv: "mp3_inv s" "mpeg_frames fs" "ms_gaps s = 0"
    using assms by (auto simp: mp3_at_def D_def)
  have len: "length D = length (ms_buf s) - ms_off s" by (simp add: D_def)
  consider "ms_id3Skip s = 0" "tag = []" | "ms_id3Skip s = 0" "id3_tag tag"
    | "0 < ms_id3Skip s" "length tag = ms_id3Skip s" "ms_id3Skip s \<le> length D"
    | "0 < ms_id3Skip s" "length tag = ms_id3Skip s" "length D < ms_id3Skip s" using tag(2) by fastforce
  then show ?thesis
  proof cases
    case 1
    then show ?thesis using clean_frames inv tag(1) by (simp add: D_def)
  next
    case 2
    then show ?thesis using clean_tag inv tag(1) by (simp add: D_def)
  next
    case 3
    define s0 where "s0 = s\<lparr>ms_off := ms_off s + length tag, ms_id3Skip := 0\<rparr>"
    have c: "consumeID3 s = (True, s0)" using 3 len by (simp add: consumeID3_def Let_def s0_def)
    have "consumeID3 s0 = (True, s0)" by (simp add: consumeID3_def s0_def)
    then have "mp3_iter s = mp3_iter s0" by (simp add: mp3_iter_def c)
    moreover have "ms_off s0 \<le> length (ms_buf s)" using 3 len inv(1) by (simp add: s0_def mp3_inv_def)
    then have "clean_pass s0 fs q (mp3_iter s0)"
      using inv append_front(2) [OF tag(1)] 3
      by (intro clean_frames) (simp_all add: s0_def mp3_inv_def D_def add.commute)
    ultimately show ?thesis by (simp add: clean_pass_def s0_def cong: iteration.case_cong)
  next
    case 4
    define s0 where "s0 = s\<lparr>ms_off := length (ms_buf s), ms_id3Skip := ms_id3Skip s - length D\<rparr>"
    have "consumeID3 s = (False, s0)"
      using 4 len inv(1) by (auto simp: consumeID3_def Let_def s0_def mp3_inv_def)
    then have "mp3_iter s = Some (Wait, s0)" by (simp add: mp3_iter_def)
    moreover have "q = drop (length D) tag @ concat (map fst fs)"
      using append_front(2) [OF tag(1) [symmetric]] 4 by simp
    then have "mp3_at s0 fs q \<and> q \<noteq> []"
      using inv 4 by (auto simp: mp3_at_def s0_def mp3_inv_def intro!: exI [of _ "drop (length D) tag"])
    ultimately show ?thesis by (simp add: clean_pass_def s0_def)
  qed
qed

lemma mp3_next_at:
  "mp3_at s fs q \<Longrightarrow> \<exists>r s'. mp3_next s = Some (r, s') \<and> ms_ended s' = ms_ended s
    \<and> (case r of None \<Rightarrow> mp3_at s' fs q \<and> (ms_ended s \<and> q = [] \<longrightarrow> fs = [] \<and> mp3_backlog s' = 0)
       | Some d \<Rightarrow> fs \<noteq> [] \<and> d = hd fs \<and> mp3_at s' (tl fs) q)"
proof (induction s rule: mp3_next.induct)
  case (1 s)
  have inv: "mp3_inv s" using 1(2) by (simp add: mp3_at_def)
  obtain r s' where it: "mp3_iter s = Some (r, s')" "ms_ended s' = ms_ended s"
    "case r of Wait \<Rightarrow> mp3_at s' fs q \<and> (ms_ended s \<and> q = [] \<longrightarrow> fs = [] \<and> mp3_backlog s' = 0)
        | Deliver f \<Rightarrow> fs \<noteq> [] \<and> f = hd fs \<and> mp3_at s' (tl fs) q
        | Again \<Rightarrow> mp3_at s' fs q"
    using mp3_iter_at [OF 1(2)] unfolding clean_pass_def by blast
  show ?case
  proof (cases r)
    case Again
    then show ?thesis
      using 1(1) [OF inv it(1) _ Again] it inv by (simp add: mp3_next.simps [of s] cong: option.case_cong)
  qed (use inv it in \<open>auto simp: mp3_next.simps [of s]\<close>)
qed

lemma mp3_NextFrame_at:
  assumes "mp3_at s fs q"
  shows "\<exists>r s'. mp3_NextFrame s = Some (r, s') \<and> ms_ended s' = ms_ended s
    \<and> (case r of None \<Rightarrow> mp3_at s' fs q \<and> (ms_ended s \<and> q = [] \<longrightarrow> fs = [] \<and> mp3_backlog s' = 0)
       | Some d \<Rightarrow> fs \<noteq> [] \<and> d = mp3_payload (hd fs) \<and> mp3_at s' (tl fs) q)"
  using mp3_next_at [OF assms] by (force simp: mp3_NextFrame_def mp3_payload_def split: option.splits)

interpretation mp3_clean: compressed_framer mp3_Feed mp3_NextFrame mp3_Compact mp3_SetEOF mp3_Finish
    ms_ended "\<lambda>s. mp3_backlog s = 0" mp3_at mp3_payload
proof (unfold_locales, goal_cases)
  case (2 s fs q)
  then show ?case by (rule mp3_NextFrame_at)
qed (auto simp: mp3_at_def mp3_backlog_def mp3_Feed_def mp3_inv_def mp3_Compact_def mp3_SetEOF_def mp3_Finish_def)

text \<open>
  C22. A clean MP3 stream, whole frames of one version, layer and sampling rate, possibly behind a
  whole ID3v2 tag, is delivered exactly, however the body is cut into reads: each frame whole with its
  duration, in order, the last one included although no header follows it, nothing of the tag, and with
  a gap count of zero.
\<close>

theorem mp3_clean_stream:
  assumes "mpeg_frames fs" "tag = [] \<or> id3_tag tag" "concat chunks = tag @ concat (map fst fs)"
  shows "\<exists>s'. readCompressed mp3_Feed mp3_NextFrame mp3_Compact mp3_SetEOF mp3_Finish
       mp3_NewStream chunks True = Some (map mp3_payload fs, s')
     \<and> mp3_GapCount s' = 0"
  using mp3_clean.read_all [of mp3_NewStream fs chunks] assms
  by (auto simp: mp3_at_def mp3_NewStream_def mp3_inv_def mp3_GapCount_def)

definition mp3_sample :: bytes where
  "mp3_sample = [0xFF, 0xF3, 0x14, 0xC4] @ replicate 20 0"

definition id3_sample :: bytes where
  "id3_sample = [0x49, 0x44, 0x33, 4, 0, 0, 0, 0, 0, 2, 0xFF, 0xFB]"

lemma mp3_sample: "mp3_Parse (word_at mp3_sample 0) = ok \<lparr>MH_Version = 2, MH_Layer = 1, MH_ChannelMode = 3,
    MH_SampleRate = 24000, MH_Bitrate = 8000, MH_Channels = 1, MH_SamplesPerFrame = 576, MH_FrameLen = 24, MH_Padding = False\<rparr>"
  by (simp add: mp3_sample_def word_at_def be32_def mp3_eval)

theorem mp3_clean_stream_witness:
  "\<exists>s'. readCompressed mp3_Feed mp3_NextFrame mp3_Compact mp3_SetEOF mp3_Finish mp3_NewStream
       [take 5 id3_sample, drop 5 id3_sample @ mp3_sample, mp3_sample] True
     = Some ([(mp3_sample, 24000000), (mp3_sample, 24000000)], s') \<and> mp3_GapCount s' = 0"
proof -
  define h where "h = \<lparr>MH_Version = 2, MH_Layer = 1, MH_ChannelMode = 3,
    MH_SampleRate = 24000, MH_Bitrate = 8000, MH_Channels = 1, MH_SamplesPerFrame = 576, MH_FrameLen = 24, MH_Padding = False\<rparr>"
  have "is_frame mp3_sample h" using mp3_sample by (simp add: is_frame_def h_def) (simp add: mp3_sample_def)
  then have "mpeg_frames [(mp3_sample, h), (mp3_sample, h)]" by (simp add: mpeg_frames_def)
  moreover have "id3_tag id3_sample" by (simp add: id3_tag_def id3_sample_def id3_len_def)
  ultimately show ?thesis
    using mp3_clean_stream [of "[(mp3_sample, h), (mp3_sample, h)]" id3_sample
      "[take 5 id3_sample, drop 5 id3_sample @ mp3_sample, mp3_sample]"]
    by (simp add: mp3_payload_def h_def mp3FrameDuration_def del: append_assoc add: append_assoc [symmetric])
qed

end
