(* ===== verification/ADTS.thy ===== *)
theory ADTS
  imports Bits
begin

text \<open>
  The ADTS header parser of \<open>src/internal/adts/adts.go\<close> and the AudioSpecificConfig it synthesizes.
\<close>

definition MinHeaderLen :: nat where [caps]: "MinHeaderLen = 7"
definition CRCHeaderLen :: nat where [caps]: "CRCHeaderLen = 9"
definition ADTS_SamplesPerFrame :: int where [caps]: "ADTS_SamplesPerFrame = 1024"

datatype adts_error = ADTSErrInvalidHeader

record adts_header =
  AudioObjectType :: nat
  SampleRateIndex :: nat
  AH_SampleRate :: int
  ChannelConfig :: nat
  AH_Channels :: nat
  AH_HeaderLen :: nat
  AH_FrameLen :: nat
  NumRawBlocks :: nat
  MPEG2 :: bool

definition adts_sampleRateHz :: "int list" where
  "adts_sampleRateHz = [96000, 88200, 64000, 48000, 44100, 32000, 24000, 22050,
     16000, 12000, 11025, 8000, 7350, 0, 0, 0]"

definition channelCount :: "nat \<Rightarrow> nat" where
  "channelCount c = (if c = 7 then 8 else c)"

definition adts_fields :: "byte \<Rightarrow> byte \<Rightarrow> byte \<Rightarrow> byte \<Rightarrow> byte \<Rightarrow> byte \<Rightarrow> (adts_error, adts_header) go" where
  "adts_fields b1 b2 b3 b4 b5 b6 =
     (let mpeg2 = (b1 AND 0x08 \<noteq> 0);
          protectionAbsent = (b1 AND 0x01 \<noteq> 0);
          profile = unat (drop_bit 6 b2) AND 0x03;
          srIdx = unat (drop_bit 2 b2) AND 0x0F;
          chanCfg = push_bit 2 (unat (b2 AND 0x01)) OR (unat (drop_bit 6 b3) AND 0x03)
      in do {
        rate \<leftarrow> idx adts_sampleRateHz srIdx;
        if rate = 0 then err ADTSErrInvalidHeader
        else if chanCfg < 1 \<or> chanCfg > 7 then err ADTSErrInvalidHeader
        else
          let frameLen = push_bit 11 (unat (b3 AND 0x03)) OR push_bit 3 (unat b4) OR drop_bit 5 (unat b5);
              headerLen = (if protectionAbsent then MinHeaderLen else CRCHeaderLen)
          in if frameLen \<le> headerLen then err ADTSErrInvalidHeader
             else ok \<lparr>AudioObjectType = profile + 1, SampleRateIndex = srIdx, AH_SampleRate = rate,
                      ChannelConfig = chanCfg, AH_Channels = channelCount chanCfg,
                      AH_HeaderLen = headerLen, AH_FrameLen = frameLen,
                      NumRawBlocks = unat (b6 AND 0x03), MPEG2 = mpeg2\<rparr> })"

definition adts_Parse :: "bytes \<Rightarrow> (adts_error, adts_header) go" where
  "adts_Parse b =
     (if length b < MinHeaderLen then err ADTSErrInvalidHeader
      else do {
        b0 \<leftarrow> idx b 0; b1 \<leftarrow> idx b 1;
        if b0 \<noteq> 0xFF \<or> b1 AND 0xF0 \<noteq> 0xF0 then err ADTSErrInvalidHeader
        else if b1 AND 0x06 \<noteq> 0 then err ADTSErrInvalidHeader
        else do {
          b2 \<leftarrow> idx b 2; b3 \<leftarrow> idx b 3; b4 \<leftarrow> idx b 4; b5 \<leftarrow> idx b 5; b6 \<leftarrow> idx b 6;
          adts_fields b1 b2 b3 b4 b5 b6 } })"

definition AudioSpecificConfig :: "adts_header \<Rightarrow> bytes" where
  "AudioSpecificConfig h =
     (let asc = push_bit 11 (word_of_nat (AudioObjectType h)) OR push_bit 7 (word_of_nat (SampleRateIndex h))
              OR push_bit 3 (word_of_nat (ChannelConfig h)) :: u16
      in [ucast (drop_bit 8 asc), ucast asc])"

definition adts_ok :: "adts_header \<Rightarrow> bool" where
  "adts_ok h \<longleftrightarrow> AudioObjectType h \<in> {1..4} \<and> SampleRateIndex h \<le> 12 \<and> 7350 \<le> AH_SampleRate h
     \<and> AH_SampleRate h \<le> 96000 \<and> ChannelConfig h \<in> {1..7} \<and> AH_Channels h \<in> {1..8}
     \<and> AH_HeaderLen h \<in> {MinHeaderLen, CRCHeaderLen} \<and> AH_HeaderLen h < AH_FrameLen h
     \<and> AH_FrameLen h \<le> 8191 \<and> NumRawBlocks h \<le> 3"

lemma nat_or_less: "x < 2 ^ n \<Longrightarrow> y < 2 ^ n \<Longrightarrow> (x OR y :: nat) < 2 ^ n"
  by (metis take_bit_nat_eq_self take_bit_nat_less_exp take_bit_or)

lemma nat_and_mod: "(x AND 0x03 :: nat) = x mod 4" "(x AND 0x0F :: nat) = x mod 16"
  using take_bit_eq_mask [of 2 x] take_bit_eq_mask [of 4 x] by (simp_all add: take_bit_eq_mod mask_eq_exp_minus_1)

lemma rate_table: "i < 16 \<Longrightarrow> \<exists>r. idx adts_sampleRateHz i = Some r \<and> (r = 0 \<or> 7350 \<le> r \<and> r \<le> 96000 \<and> i \<le> 12)"
proof -
  assume "i < 16"
  moreover have "list_all (\<lambda>i. \<exists>r\<in>set_option (idx adts_sampleRateHz i). r = 0 \<or> 7350 \<le> r \<and> r \<le> 96000 \<and> i \<le> 12) [0..<16]"
    by (simp add: adts_sampleRateHz_def idx_def upt_rec)
  ultimately show ?thesis by (auto simp: list_all_iff)
qed

lemma adts_fields_cases:
  "adts_fields b1 b2 b3 b4 b5 b6 \<noteq> panic \<and> (\<forall>h. adts_fields b1 b2 b3 b4 b5 b6 = ok h \<longrightarrow> adts_ok h)"
proof -
  define i where "i = unat (drop_bit 2 b2) AND 0x0F"
  have "i < 16" by (simp add: i_def nat_and_mod)
  then obtain r where r: "idx adts_sampleRateHz i = Some r" "r = 0 \<or> 7350 \<le> r \<and> r \<le> 96000 \<and> i \<le> 12"
    using rate_table by blast
  define fl where "fl = push_bit 11 (unat (b3 AND 0x03)) OR push_bit 3 (unat b4) OR drop_bit 5 (unat b5)"
  have b: "unat (x AND 0x03 :: byte) < 4" for x using unat_field [of 0 x 2] by simp
  have "push_bit 11 (unat (b3 AND 0x03)) < 2 ^ 13" using b [of b3] by (simp add: push_bit_eq_mult)
  moreover have "push_bit 3 (unat b4) < 2 ^ 13" "drop_bit 5 (unat b5) < 2 ^ 13"
    using unat_byte_less [of b4] unat_byte_less [of b5] by (simp_all add: push_bit_eq_mult drop_bit_eq_div)
  ultimately have "fl < 2 ^ 13" unfolding fl_def by (intro nat_or_less)
  moreover have "unat (drop_bit 6 b2) AND 0x03 \<le> 3" by (simp add: nat_and_mod)
  ultimately show ?thesis
    using r b [of b6] by (auto simp: adts_fields_def Let_def i_def [symmetric] fl_def [symmetric] adts_ok_def channelCount_def)
qed

lemma adts_Parse_long:
  "7 \<le> length b \<Longrightarrow> adts_Parse b =
     (if b ! 0 \<noteq> 0xFF \<or> b ! 1 AND 0xF0 \<noteq> 0xF0 \<or> b ! 1 AND 0x06 \<noteq> 0 then err ADTSErrInvalidHeader
      else adts_fields (b ! 1) (b ! 2) (b ! 3) (b ! 4) (b ! 5) (b ! 6))"
  by (cases "b = []") (auto simp: adts_Parse_def caps)

lemma adts_Parse_short: "length b < 7 \<Longrightarrow> adts_Parse b = err ADTSErrInvalidHeader"
  by (simp add: adts_Parse_def caps)

lemma adts_Parse_cases:
  "adts_Parse b \<noteq> panic \<and> (\<forall>h. adts_Parse b = ok h \<longrightarrow> adts_ok h \<and> 7 \<le> length b
     \<and> b ! 0 = 0xFF \<and> b ! 1 AND 0xF0 = 0xF0 \<and> b ! 1 AND 0x06 = 0)"
  using adts_fields_cases [of "b ! 1" "b ! 2" "b ! 3" "b ! 4" "b ! 5" "b ! 6"]
  by (cases "length b < 7") (simp_all add: adts_Parse_short adts_Parse_long)

text \<open>Only the first seven bytes matter.\<close>

lemma adts_Parse_prefix: "7 \<le> length b \<Longrightarrow> adts_Parse (b @ c) = adts_Parse b"
  by (cases "b = []") (simp_all add: adts_Parse_long nth_append)

text \<open>
  The ADTS parser is total and its geometry is bounded: it never indexes out of range, and an
  accepted header has a 7 or 9 byte header, a frame longer than its header and at most 8191 bytes, an
  object type of 1 to 4, one of the 13 sample rates and 1 to 8 channels.
\<close>

theorem adts_Parse_bounds:
  "adts_Parse b \<noteq> panic
   \<and> (\<forall>h. adts_Parse b = ok h \<longrightarrow> AH_HeaderLen h \<in> {7, 9} \<and> AH_HeaderLen h < AH_FrameLen h
        \<and> AH_FrameLen h \<le> 8191 \<and> AudioObjectType h \<in> {1..4} \<and> SampleRateIndex h \<le> 12
        \<and> 7350 \<le> AH_SampleRate h \<and> AH_SampleRate h \<le> 96000 \<and> AH_Channels h \<in> {1..8})"
  using adts_Parse_cases [of b] by (auto simp: adts_ok_def caps iff del: not_None_eq)

definition adts_sample :: bytes where
  "adts_sample = [0xFF, 0xF1, 0x50, 0x80, 0x01, 0x3F, 0xFC, 0xAA, 0xBB]"

lemma adts_sample: "adts_Parse adts_sample = ok \<lparr>AudioObjectType = 2, SampleRateIndex = 4, AH_SampleRate = 44100,
    ChannelConfig = 2, AH_Channels = 2, AH_HeaderLen = 7, AH_FrameLen = 9, NumRawBlocks = 0, MPEG2 = False\<rparr>"
  by (simp add: adts_sample_def adts_Parse_long adts_fields_def adts_sampleRateHz_def channelCount_def Let_def caps)

theorem adts_Parse_bounds_witness:
  "adts_Parse adts_sample = ok \<lparr>AudioObjectType = 2, SampleRateIndex = 4, AH_SampleRate = 44100,
      ChannelConfig = 2, AH_Channels = 2, AH_HeaderLen = 7, AH_FrameLen = 9, NumRawBlocks = 0, MPEG2 = False\<rparr>
    \<and> (9 :: nat) \<le> 8191"
  using adts_Parse_bounds [of adts_sample] adts_sample by simp


text \<open>
  The AudioSpecificConfig synthesized for an accepted header is two bytes whose bits, read most
  significant first, are the object type in five, the sampling-frequency index in four and the
  channel configuration in four, followed by three zeros, so none of the fields is truncated.
\<close>

theorem AudioSpecificConfig_fields:
  assumes "adts_Parse b = ok h"
  shows "\<exists>x y. AudioSpecificConfig h = [x, y] \<and> unat (be16 x y) mod 8 = 0
    \<and> unat (be16 x y) div 2048 = AudioObjectType h \<and> unat (be16 x y) div 128 mod 16 = SampleRateIndex h
    \<and> unat (be16 x y) div 8 mod 16 = ChannelConfig h"
proof -
  define a s c where "a = AudioObjectType h" and "s = SampleRateIndex h" and "c = ChannelConfig h"
  have bounds: "a \<le> 4" "s \<le> 12" "c \<le> 7"
    using adts_Parse_cases [of b] assms by (auto simp: adts_ok_def a_def s_def c_def)
  define asc :: u16 where "asc = push_bit 11 (word_of_nat a) OR push_bit 7 (word_of_nat s) OR push_bit 3 (word_of_nat c)"
  have "asc = word_of_nat (push_bit 11 a OR (push_bit 7 s OR push_bit 3 c))"
    unfolding asc_def by (rule bit_word_eqI) (auto simp: bit_simps)
  also have "push_bit 7 s OR push_bit 3 c = s * 128 + c * 8"
    using push_or_add [of "c * 8" 7 s] bounds by (simp add: push_bit_eq_mult)
  also have "push_bit 11 a OR (s * 128 + c * 8) = a * 2048 + (s * 128 + c * 8)"
    using push_or_add [of "s * 128 + c * 8" 11 a] bounds by simp
  finally have "asc = word_of_nat (a * 2048 + (s * 128 + c * 8))" .
  then have u: "unat asc = a * 2048 + (s * 128 + c * 8)"
    using bounds by (simp only:) (rule unat_word_of_nat_small, simp)
  have "AudioSpecificConfig h = [ucast (drop_bit 8 asc), ucast asc]"
    by (simp add: AudioSpecificConfig_def asc_def a_def s_def c_def Let_def)
  moreover have "unat asc mod 8 = 0" "unat asc div 2048 = a" "unat asc div 128 mod 16 = s" "unat asc div 8 mod 16 = c"
  proof -
    have e: "a * 2048 + (s * 128 + c * 8) = c * 8 + 128 * (16 * a + s)" by simp
    have "(a * 2048 + (s * 128 + c * 8)) div 128 = 16 * a + s" unfolding e using bounds by simp
    then show "unat asc div 128 mod 16 = s" using bounds by (simp add: u)
    have "(a * 2048 + (s * 128 + c * 8)) div 8 = c + 16 * (16 * a + s)" by simp
    then show "unat asc div 8 mod 16 = c" using bounds by (simp only: u mod_mult_self2) simp
    show "unat asc mod 8 = 0" "unat asc div 2048 = a" using bounds unfolding u by auto
  qed
  ultimately show ?thesis
    by (intro exI [of _ "ucast (drop_bit 8 asc)"] exI [of _ "ucast asc"]) (simp add: a_def s_def c_def)
qed

theorem AudioSpecificConfig_fields_witness:
  "\<exists>h x y. adts_Parse adts_sample = ok h \<and> AudioSpecificConfig h = [x, y] \<and> unat (be16 x y) div 2048 = 2"
  using AudioSpecificConfig_fields [OF adts_sample] adts_sample by auto

end
