(* ===== verification/ADTS_Frame.thy ===== *)
theory ADTS_Frame
  imports ADTS Framer
begin

text \<open>
  The ADTS framer of \<open>src/internal/adtsframe/adtsframe.go\<close>, an implementation of the reader's
  \<open>compressedFramer\<close> interface. One iteration of the loop of \<open>NextFrame\<close> is \<open>adts_iter\<close>; it ends the
  loop with a frame or without one, or goes round again.
\<close>

section \<open>State and operations\<close>

record adts_stream =
  as_buf :: bytes
  as_off :: nat
  as_synced :: bool
  as_ended :: bool
  as_gaps :: u64
  as_hdr :: adts_header

definition adts_header0 :: adts_header where
  "adts_header0 = \<lparr>AudioObjectType = 0, SampleRateIndex = 0, AH_SampleRate = 0, ChannelConfig = 0,
     AH_Channels = 0, AH_HeaderLen = 0, AH_FrameLen = 0, NumRawBlocks = 0, MPEG2 = False\<rparr>"

definition adts_NewStream :: "int \<Rightarrow> adts_stream" where
  "adts_NewStream sizeHint = \<lparr>as_buf = [], as_off = 0, as_synced = False, as_ended = False, as_gaps = 0,
     as_hdr = adts_header0\<rparr>"

definition adts_Feed :: "adts_stream \<Rightarrow> bytes \<Rightarrow> adts_stream" where
  "adts_Feed s p = s\<lparr>as_buf := as_buf s @ p\<rparr>"

definition adts_discard :: "adts_stream \<Rightarrow> nat \<Rightarrow> adts_stream" where
  "adts_discard s n = s\<lparr>as_off := as_off s + n, as_gaps := as_gaps s + 1\<rparr>"

definition adts_dropUnsynced :: "adts_stream \<Rightarrow> nat \<Rightarrow> adts_stream" where
  "adts_dropUnsynced s remLen =
     (let keep = MinHeaderLen - 1 in
      if remLen \<le> keep then s
      else s\<lparr>as_off := as_off s + (remLen - keep), as_synced := False, as_gaps := as_gaps s + 1\<rparr>)"

function scan_from :: "bytes \<Rightarrow> nat \<Rightarrow> (nat \<times> adts_header) option option" where
  "scan_from rest i =
     (if i + MinHeaderLen \<le> length rest then
        (case (idx rest i, idx rest (i + 1)) of
           (Some b0, Some b1) \<Rightarrow>
             (if b0 \<noteq> 0xFF \<or> b1 AND 0xF6 \<noteq> 0xF0 then scan_from rest (i + 1)
              else (case slice rest i (length rest) of
                  None \<Rightarrow> None
                | Some sub \<Rightarrow>
                  (case adts_Parse sub of
                     None \<Rightarrow> None
                   | Some (Inr h) \<Rightarrow> Some (Some (i, h))
                   | Some (Inl _) \<Rightarrow> scan_from rest (i + 1))))
         | _ \<Rightarrow> None)
      else Some None)"
  by pat_completeness auto
termination
  by (relation "measure (\<lambda>(rest, i). length rest - i)") (auto simp: caps)

declare scan_from.simps [simp del]

definition scanADTS :: "bytes \<Rightarrow> (nat \<times> adts_header) option option" where
  "scanADTS rest = scan_from rest 0"

definition Consistent :: "bytes \<Rightarrow> adts_header \<Rightarrow> bool option" where
  "Consistent nxt h =
     (case adts_Parse nxt of
        None \<Rightarrow> None
      | Some (Inl _) \<Rightarrow> Some False
      | Some (Inr n) \<Rightarrow> Some (AudioObjectType n = AudioObjectType h
          \<and> SampleRateIndex n = SampleRateIndex h \<and> ChannelConfig n = ChannelConfig h))"

definition adts_frameDuration :: "adts_header \<Rightarrow> int" where
  "adts_frameDuration h =
     (if AH_SampleRate h \<le> 0 then 0 else ADTS_SamplesPerFrame * 10 ^ 9 div AH_SampleRate h)"

definition adts_emit :: "adts_stream \<Rightarrow> adts_header \<Rightarrow> ((bytes \<times> int) iteration \<times> adts_stream) option" where
  "adts_emit s h = do {
     frame \<leftarrow> slice (as_buf s) (as_off s) (as_off s + AH_FrameLen h);
     let s1 = s\<lparr>as_off := as_off s + AH_FrameLen h\<rparr> in
     if NumRawBlocks h > 0 then Some (Again, s1\<lparr>as_gaps := as_gaps s1 + 1\<rparr>)
     else do {
       au \<leftarrow> slice frame (AH_HeaderLen h) (length frame);
       Some (Deliver (au, adts_frameDuration h), s1\<lparr>as_hdr := h\<rparr>) } }"

definition adts_confirm :: "adts_stream \<Rightarrow> adts_header \<Rightarrow> ((bytes \<times> int) iteration \<times> adts_stream) option" where
  "adts_confirm s h = do {
     rest \<leftarrow> slice (as_buf s) (as_off s) (length (as_buf s));
     if length rest < AH_FrameLen h then Some (Wait, s)
     else if length rest \<ge> AH_FrameLen h + MinHeaderLen then do {
       nxt \<leftarrow> slice rest (AH_FrameLen h) (length rest);
       c \<leftarrow> Consistent nxt h;
       if \<not> c then Some (Again, (adts_discard s 1)\<lparr>as_synced := False\<rparr>)
       else adts_emit (s\<lparr>as_synced := True\<rparr>) h }
     else if \<not> as_synced s \<and> \<not> as_ended s then Some (Wait, s)
     else adts_emit s h }"

definition adts_iter :: "adts_stream \<Rightarrow> ((bytes \<times> int) iteration \<times> adts_stream) option" where
  "adts_iter s = do {
     rest \<leftarrow> slice (as_buf s) (as_off s) (length (as_buf s));
     r \<leftarrow> scanADTS rest;
     case r of
       None \<Rightarrow> Some (Wait, adts_dropUnsynced s (length rest))
     | Some (i, h) \<Rightarrow>
       adts_confirm (if i > 0 then (adts_discard s i)\<lparr>as_synced := False\<rparr> else s) h }"

section \<open>One iteration\<close>

definition adts_inv :: "adts_stream \<Rightarrow> bool" where
  "adts_inv s \<longleftrightarrow> as_off s \<le> length (as_buf s)"

definition adts_backlog :: "adts_stream \<Rightarrow> nat" where
  "adts_backlog s = length (as_buf s) - as_off s"

lemma scan_from_cases:
  "\<exists>r. scan_from rest i = Some r \<and> (\<forall>j h. r = Some (j, h) \<longrightarrow> i \<le> j \<and> j + 7 \<le> length rest
     \<and> adts_Parse (drop j rest) = ok h)"
proof (induction "length rest - i" arbitrary: i rule: less_induct)
  case less
  show ?case
  proof (cases "i + MinHeaderLen \<le> length rest")
    case False
    then show ?thesis by (simp add: scan_from.simps [of rest i])
  next
    case True
    then have ix: "idx rest i = Some (rest ! i)" "idx rest (i + 1) = Some (rest ! (i + 1))" "i \<le> length rest"
      by (simp_all add: caps)
    obtain p where p: "adts_Parse (drop i rest) = Some p" using adts_Parse_cases by blast
    show ?thesis
    proof (cases "rest ! i \<noteq> 0xFF \<or> rest ! (i + 1) AND 0xF6 \<noteq> 0xF0 \<or> (\<exists>e. p = Inl e)")
      case skip: True
      then have "scan_from rest i = scan_from rest (i + 1)"
        using True ix p by (auto simp: scan_from.simps [of rest i])
      moreover have "\<exists>r. scan_from rest (i + 1) = Some r \<and> (\<forall>j h. r = Some (j, h) \<longrightarrow> i + 1 \<le> j
          \<and> j + 7 \<le> length rest \<and> adts_Parse (drop j rest) = ok h)"
        using True by (intro less.hyps) (simp add: caps)
      ultimately show ?thesis by auto
    next
      case False
      then obtain h where "p = Inr h" by (cases p) auto
      then show ?thesis using True False ix p by (auto simp: scan_from.simps [of rest i] caps)
    qed
  qed
qed

lemma adts_emit_eq:
  assumes "adts_ok h" "as_off s + AH_FrameLen h \<le> length (as_buf s)"
  shows "adts_emit s h =
    (if NumRawBlocks h > 0 then Some (Again, s\<lparr>as_off := as_off s + AH_FrameLen h, as_gaps := as_gaps s + 1\<rparr>)
     else Some (Deliver (drop (AH_HeaderLen h) (take (AH_FrameLen h) (drop (as_off s) (as_buf s))), adts_frameDuration h),
       s\<lparr>as_off := as_off s + AH_FrameLen h, as_hdr := h\<rparr>))"
  using assms by (auto simp: adts_emit_def adts_ok_def Let_def)

lemma adts_emit_cases:
  assumes "adts_ok h" "as_off s + AH_FrameLen h \<le> length (as_buf s)"
  shows "\<exists>r s'. adts_emit s h = Some (r, s') \<and> r \<noteq> Wait \<and> adts_inv s' \<and> adts_backlog s' < adts_backlog s
    \<and> as_buf s' = as_buf s \<and> as_ended s' = as_ended s"
  using assms by (auto simp: adts_emit_eq adts_ok_def adts_inv_def adts_backlog_def)

lemma Consistent_total: "\<exists>c. Consistent b h = Some c"
  using adts_Parse_cases [of b] by (auto simp: Consistent_def split: option.split sum.split)

lemma adts_confirm_cases:
  assumes "adts_ok h" "as_off s + 7 \<le> length (as_buf s)"
  shows "\<exists>r s'. adts_confirm s h = Some (r, s') \<and> adts_inv s' \<and> as_ended s' = as_ended s \<and> as_buf s' = as_buf s
    \<and> (if r = Wait then adts_backlog s' \<le> 8191 + 6 else adts_backlog s' < adts_backlog s)"
proof -
  define n where "n = length (as_buf s) - as_off s"
  have fl: "AH_FrameLen h \<le> 8191" using assms by (simp add: adts_ok_def)
  obtain c where c: "Consistent (drop (as_off s + AH_FrameLen h) (as_buf s)) h = Some c"
    using Consistent_total by blast
  then have it: "adts_confirm s h = (if n < AH_FrameLen h then Some (Wait, s)
       else if n \<ge> AH_FrameLen h + 7 then
         (if \<not> c then Some (Again, (adts_discard s 1)\<lparr>as_synced := False\<rparr>)
          else adts_emit (s\<lparr>as_synced := True\<rparr>) h)
       else if \<not> as_synced s \<and> \<not> as_ended s then Some (Wait, s)
       else adts_emit s h)"
    using assms by (auto simp: adts_confirm_def n_def caps add.commute)
  consider "n < AH_FrameLen h \<or> n < AH_FrameLen h + 7 \<and> \<not> as_synced s \<and> \<not> as_ended s"
    | "AH_FrameLen h + 7 \<le> n" "\<not> c"
    | "AH_FrameLen h + 7 \<le> n" "c"
    | "AH_FrameLen h \<le> n" "n < AH_FrameLen h + 7" "as_synced s \<or> as_ended s" by linarith
  then show ?thesis
  proof cases
    case 1
    then show ?thesis using it fl assms by (auto simp: adts_inv_def adts_backlog_def n_def)
  next
    case 2
    then show ?thesis using it assms by (auto simp: adts_inv_def adts_backlog_def adts_discard_def)
  next
    case 3
    then have "adts_confirm s h = adts_emit (s\<lparr>as_synced := True\<rparr>) h" using it by simp
    moreover have "as_off s + AH_FrameLen h \<le> length (as_buf s)" using 3 by (simp add: n_def)
    ultimately show ?thesis
      using adts_emit_cases [OF assms(1), of "s\<lparr>as_synced := True\<rparr>"] by (auto simp: adts_backlog_def)
  next
    case 4
    then have "adts_confirm s h = adts_emit s h" using it by auto
    moreover have "as_off s + AH_FrameLen h \<le> length (as_buf s)" using 4 assms by (simp add: n_def)
    ultimately show ?thesis using adts_emit_cases [OF assms(1), of s] by auto
  qed
qed

lemma adts_iter_cases:
  assumes "adts_inv s"
  shows "\<exists>r s'. adts_iter s = Some (r, s') \<and> adts_inv s' \<and> as_ended s' = as_ended s \<and> as_buf s' = as_buf s
    \<and> (if r = Wait then adts_backlog s' \<le> 8191 + 6 else adts_backlog s' < adts_backlog s)"
proof -
  have len: "as_off s \<le> length (as_buf s)" using assms by (simp add: adts_inv_def)
  obtain r where r: "scanADTS (drop (as_off s) (as_buf s)) = Some r"
      "\<And>j h. r = Some (j, h) \<Longrightarrow> j + 7 \<le> length (as_buf s) - as_off s \<and> adts_ok h"
    using scan_from_cases [of "drop (as_off s) (as_buf s)" 0] adts_Parse_cases by (fastforce simp: scanADTS_def)
  show ?thesis
  proof (cases r)
    case None
    then show ?thesis
      using len r(1) by (auto simp: adts_iter_def adts_dropUnsynced_def Let_def caps adts_inv_def adts_backlog_def)
  next
    case (Some ih)
    then obtain i h where ih: "r = Some (i, h)" by (cases ih) auto
    define s1 where "s1 = (if i > 0 then (adts_discard s i)\<lparr>as_synced := False\<rparr> else s)"
    have s1: "as_buf s1 = as_buf s" "as_off s1 = as_off s + i" "as_ended s1 = as_ended s" "adts_backlog s1 \<le> adts_backlog s"
      by (auto simp: s1_def adts_discard_def adts_backlog_def)
    have "adts_iter s = adts_confirm s1 h" using len r(1) ih by (simp add: adts_iter_def s1_def)
    moreover have "as_off s1 + 7 \<le> length (as_buf s1)" "adts_ok h" using r(2) [OF ih] s1 by auto
    ultimately show ?thesis using adts_confirm_cases [of h s1] s1 by (fastforce split: if_splits)
  qed
qed

text \<open>The loop of \<open>NextFrame\<close>. Every further iteration starts closer to the end of the buffer.\<close>

function adts_NextFrame :: "adts_stream \<Rightarrow> ((bytes \<times> int) option \<times> adts_stream) option" where
  "adts_NextFrame s =
     (if adts_inv s then
        (case adts_iter s of
           None \<Rightarrow> None
         | Some (Deliver f, s') \<Rightarrow> Some (Some f, s')
         | Some (Wait, s') \<Rightarrow> Some (None, s')
         | Some (Again, s') \<Rightarrow> adts_NextFrame s')
      else None)"
  by pat_completeness auto
termination
proof (relation "measure adts_backlog", simp)
  fix s :: adts_stream and a b s'
  assume "adts_inv s" "adts_iter s = Some a" "(b, s') = a" "b = Again"
  then show "(s', s) \<in> measure adts_backlog" using adts_iter_cases [of s] by auto
qed

declare adts_NextFrame.simps [simp del]

definition adts_Compact :: "adts_stream \<Rightarrow> adts_stream" where
  "adts_Compact s = (if as_off s = 0 then s else s\<lparr>as_buf := drop (as_off s) (as_buf s), as_off := 0\<rparr>)"

definition adts_SetEOF :: "adts_stream \<Rightarrow> adts_stream" where
  "adts_SetEOF s = s\<lparr>as_ended := True\<rparr>"

definition adts_Finish :: "adts_stream \<Rightarrow> adts_stream" where
  "adts_Finish s = (if length (as_buf s) - as_off s > 0 then s\<lparr>as_gaps := as_gaps s + 1\<rparr> else s)"

definition adts_GapCount :: "adts_stream \<Rightarrow> u64" where
  "adts_GapCount s = as_gaps s"

section \<open>Any input\<close>

lemma adts_NextFrame_total:
  "adts_inv s \<Longrightarrow> \<exists>r s'. adts_NextFrame s = Some (r, s') \<and> adts_inv s'
     \<and> (case r of None \<Rightarrow> adts_backlog s' \<le> 8191 + 6 | Some d \<Rightarrow> adts_backlog s' < adts_backlog s)"
proof (induction s rule: adts_NextFrame.induct)
  case (1 s)
  obtain r s' where it: "adts_iter s = Some (r, s')" "adts_inv s'"
      "if r = Wait then adts_backlog s' \<le> 8191 + 6 else adts_backlog s' < adts_backlog s"
    using adts_iter_cases [OF 1(2)] by blast
  show ?case
  proof (cases r)
    case Again
    then obtain r' s'' where "adts_NextFrame s' = Some (r', s'')" "adts_inv s''"
       "case r' of None \<Rightarrow> adts_backlog s'' \<le> 8191 + 6 | Some d \<Rightarrow> adts_backlog s'' < adts_backlog s'"
      using 1 it by blast
    then show ?thesis using 1(2) it Again by (auto simp: adts_NextFrame.simps [of s] split: option.splits)
  qed (use 1(2) it in \<open>auto simp: adts_NextFrame.simps [of s]\<close>)
qed

interpretation adts_bounded: bounded_framer adts_Feed adts_NextFrame adts_Compact adts_SetEOF adts_Finish
    adts_inv adts_backlog "8191 + 6"
  by unfold_locales
    (use adts_NextFrame_total in \<open>auto simp: adts_Feed_def adts_Compact_def adts_SetEOF_def adts_Finish_def
       adts_inv_def adts_backlog_def\<close>)

text \<open>
  C20. On any body, in any chunking and whether or not it ends cleanly, the ADTS reader returns (its
  loops end and no slice expression is out of range), and what it keeps buffered is at most one
  maximal frame and the six bytes that may start the next header.
\<close>

theorem adts_reader_total:
  "\<exists>frames s'. readCompressed adts_Feed adts_NextFrame adts_Compact adts_SetEOF adts_Finish
       (adts_NewStream n) chunks cleanEnd = Some (frames, s')
     \<and> length (as_buf s') - as_off s' \<le> 8197"
  using adts_bounded.read_total [of "adts_NewStream n" chunks cleanEnd]
  by (auto simp: adts_NewStream_def adts_inv_def adts_backlog_def)

section \<open>A clean stream\<close>

type_synonym adts_frame = "bytes \<times> adts_header"

text \<open>Whole single-block frames of one configuration.\<close>

definition adts_frames :: "adts_frame list \<Rightarrow> bool" where
  "adts_frames fs \<longleftrightarrow>
     (\<forall>(b, h)\<in>set fs. adts_Parse b = ok h \<and> length b = AH_FrameLen h \<and> NumRawBlocks h = 0)
     \<and> (\<forall>(b, h)\<in>set fs. \<forall>(b', h')\<in>set fs. AudioObjectType h' = AudioObjectType h
          \<and> SampleRateIndex h' = SampleRateIndex h \<and> ChannelConfig h' = ChannelConfig h)"

definition adts_payload :: "adts_frame \<Rightarrow> bytes \<times> int" where
  "adts_payload f = (drop (AH_HeaderLen (snd f)) (fst f), adts_frameDuration (snd f))"

definition adts_at :: "adts_stream \<Rightarrow> adts_frame list \<Rightarrow> bytes \<Rightarrow> bool" where
  "adts_at s fs q \<longleftrightarrow> adts_inv s \<and> drop (as_off s) (as_buf s) @ q = concat (map fst fs)
     \<and> adts_frames fs \<and> as_gaps s = 0"

lemma adts_framesD:
  assumes "adts_frames ((b, h) # fs)"
  shows "adts_Parse b = ok h" "length b = AH_FrameLen h" "NumRawBlocks h = 0" "adts_frames fs" "adts_ok h" "7 < length b"
proof -
  show 1: "adts_Parse b = ok h" "length b = AH_FrameLen h" "NumRawBlocks h = 0" "adts_frames fs"
    using assms by (auto simp: adts_frames_def)
  then show "adts_ok h" "7 < length b" using adts_Parse_cases [of b] by (auto simp: adts_ok_def caps)
qed

text \<open>A buffered prefix of at least seven bytes parses as the frame it starts.\<close>

lemma adts_Parse_front:
  assumes "D @ q = b @ r" "7 \<le> length D" "adts_Parse b = ok h" "7 < length b"
  shows "adts_Parse D = ok h"
  using assms adts_Parse_prefix [of D q] adts_Parse_prefix [of b r] by simp

lemma scan_at_header:
  assumes "adts_Parse D = ok h"
  shows "scanADTS D = Some (Some (0, h))"
proof -
  have D: "7 \<le> length D" "D ! 0 = 0xFF" "D ! 1 AND 0xF0 = 0xF0" "D ! 1 AND 0x06 = 0"
    using adts_Parse_cases [of D] assms by auto
  have "D ! 1 AND 0xF6 = (D ! 1 AND 0xF0) OR (D ! 1 AND 0x06)"
    by (simp flip: bit.conj_disj_distrib)
  then have "D ! 1 AND 0xF6 = 0xF0" using D by simp
  then show ?thesis using D assms by (cases "D = []") (simp_all add: scanADTS_def scan_from.simps [of D 0] caps)
qed

lemma adts_NextFrame_once:
  assumes "adts_inv s" "adts_iter s = Some (r, s')" "r \<noteq> Again"
  shows "adts_NextFrame s = Some (case r of Deliver f \<Rightarrow> Some f | _ \<Rightarrow> None, s')"
  using assms by (cases r) (simp_all add: adts_NextFrame.simps [of s])

lemma adts_wait_short:
  assumes "adts_inv s" "length (as_buf s) - as_off s < 7"
  shows "adts_NextFrame s = Some (None, s)"
proof -
  have "scanADTS (drop (as_off s) (as_buf s)) = Some None"
    using assms(2) by (simp add: scanADTS_def scan_from.simps [of _ 0] caps)
  then have "adts_iter s = Some (Wait, s)"
    using assms by (simp add: adts_iter_def adts_inv_def adts_dropUnsynced_def caps)
  from adts_NextFrame_once [OF assms(1) this] show ?thesis by simp
qed

text \<open>In front of a frame the loop waits for the rest of it, or delivers it.\<close>

lemma adts_confirm_clean:
  assumes "adts_inv s" "D = drop (as_off s) (as_buf s)" "D @ q = b @ concat (map fst fs)" "adts_frames ((b, h) # fs)"
  shows "adts_confirm s h = Some (Wait, s) \<and> (length D < length b \<or> \<not> as_ended s)
     \<or> (\<exists>syn. adts_confirm s h = adts_emit (s\<lparr>as_synced := syn\<rparr>) h) \<and> length b \<le> length D"
proof -
  note f = adts_framesD [OF assms(4)]
  have len: "length D = length (as_buf s) - as_off s" by (simp add: assms(2))
  have conf: "adts_confirm s h = (if length D < AH_FrameLen h then Some (Wait, s)
       else if length D \<ge> AH_FrameLen h + 7 then do {
         c \<leftarrow> Consistent (drop (AH_FrameLen h) D) h;
         if \<not> c then Some (Again, (adts_discard s 1)\<lparr>as_synced := False\<rparr>)
         else adts_emit (s\<lparr>as_synced := True\<rparr>) h }
       else if \<not> as_synced s \<and> \<not> as_ended s then Some (Wait, s)
       else adts_emit s h)"
    using assms(1) by (auto simp: adts_confirm_def adts_inv_def assms(2) caps)
  have "Consistent (drop (AH_FrameLen h) D) h = Some True" if long: "AH_FrameLen h + 7 \<le> length D"
  proof -
    have rest: "drop (AH_FrameLen h) D @ q = concat (map fst fs)"
      using append_front(2) [OF assms(3)] f(2) that by simp
    moreover have "fs \<noteq> []" using that rest by (auto simp flip: length_greater_0_conv)
    ultimately obtain b' h' fs' where fs: "fs = (b', h') # fs'" "drop (AH_FrameLen h) D @ q = b' @ concat (map fst fs')"
      by (cases fs) auto
    note f' = adts_framesD [OF f(4) [unfolded fs(1)]]
    have "adts_Parse (drop (AH_FrameLen h) D) = ok h'"
      using adts_Parse_front [OF fs(2)] that f' by simp
    moreover have "AudioObjectType h' = AudioObjectType h \<and> SampleRateIndex h' = SampleRateIndex h
        \<and> ChannelConfig h' = ChannelConfig h"
      using assms(4) unfolding adts_frames_def fs(1) list.set by blast
    ultimately show ?thesis by (simp add: Consistent_def)
  qed
  then consider "adts_confirm s h = Some (Wait, s)" "length D < length b \<or> \<not> as_ended s"
    | "adts_confirm s h = adts_emit (s\<lparr>as_synced := True\<rparr>) h" "length b \<le> length D"
    | "adts_confirm s h = adts_emit s h" "length b \<le> length D"
    using conf f(2) by (fastforce split: if_splits)
  then show ?thesis by cases (auto intro: exI [of _ "as_synced s"])
qed

lemma adts_next_at:
  assumes "adts_at s fs q"
  shows "\<exists>r s'. adts_NextFrame s = Some (r, s') \<and> as_ended s' = as_ended s
    \<and> (case r of None \<Rightarrow> adts_at s' fs q \<and> (as_ended s \<and> q = [] \<longrightarrow> fs = [] \<and> adts_backlog s' = 0)
       | Some d \<Rightarrow> fs \<noteq> [] \<and> d = adts_payload (hd fs) \<and> adts_at s' (tl fs) q)"
proof -
  define D where "D = drop (as_off s) (as_buf s)"
  have inv: "adts_inv s" and cat: "D @ q = concat (map fst fs)" and fr: "adts_frames fs" and gaps: "as_gaps s = 0"
    using assms by (auto simp: adts_at_def D_def)
  have len: "length D = length (as_buf s) - as_off s" by (simp add: D_def)
  show ?thesis
  proof (cases "length D < 7")
    case True
    then have "adts_NextFrame s = Some (None, s)" using adts_wait_short [OF inv] len by simp
    moreover have "fs = [] \<and> adts_backlog s = 0" if "q = []"
    proof -
      have "fs = []" using that True cat fr adts_framesD(6) by (cases fs) fastforce+
      then show ?thesis using that cat len by (simp add: adts_backlog_def)
    qed
    ultimately show ?thesis using assms by auto
  next
    case False
    then have "fs \<noteq> []" using cat by (auto simp flip: length_greater_0_conv)
    then obtain b h gs where fs: "fs = (b, h) # gs" by (cases fs) auto
    note f = adts_framesD [OF fr [unfolded fs]]
    have cat': "D @ q = b @ concat (map fst gs)" using cat fs by simp
    have "scanADTS D = Some (Some (0, h))"
      using adts_Parse_front [OF cat'] False f by (intro scan_at_header) simp
    then have it: "adts_iter s = adts_confirm s h"
      using inv by (simp add: adts_iter_def adts_inv_def D_def)
    consider (wait) "adts_confirm s h = Some (Wait, s)" "length D < length b \<or> \<not> as_ended s"
      | (emit) syn where "adts_confirm s h = adts_emit (s\<lparr>as_synced := syn\<rparr>) h" "length b \<le> length D"
      using adts_confirm_clean [OF inv D_def cat' fr [unfolded fs]] by blast
    then show ?thesis
    proof cases
      case wait
      moreover have "length b \<le> length D" if "q = []" using cat' that by simp
      ultimately show ?thesis using adts_NextFrame_once [OF inv, of Wait s] it assms by auto
    next
      case emit
      note em = emit(1) and lb = emit(2)
      define s' where "s' = s\<lparr>as_synced := syn, as_off := as_off s + AH_FrameLen h, as_hdr := h\<rparr>"
      have fit: "as_off s + AH_FrameLen h \<le> length (as_buf s)" using lb len f(2,6) by simp
      have tk: "take (AH_FrameLen h) D = b" "drop (AH_FrameLen h) D @ q = concat (map fst gs)"
        using append_front [OF cat' lb] f(2) by simp_all
      have "adts_iter s = Some (Deliver (adts_payload (b, h)), s')"
        using adts_emit_eq [OF f(5), of "s\<lparr>as_synced := syn\<rparr>"] f(3) it em fit tk(1)
        by (simp add: s'_def adts_payload_def D_def)
      then have "adts_NextFrame s = Some (Some (adts_payload (b, h)), s')"
        using adts_NextFrame_once [OF inv] by fastforce
      moreover have "adts_at s' gs q"
        using fit f(4) gaps tk(2) by (simp add: adts_at_def s'_def adts_inv_def D_def add.commute)
      ultimately show ?thesis by (simp add: fs s'_def)
    qed
  qed
qed

interpretation adts_clean: compressed_framer adts_Feed adts_NextFrame adts_Compact adts_SetEOF adts_Finish
    as_ended "\<lambda>s. adts_backlog s = 0" adts_at adts_payload
proof (unfold_locales, goal_cases)
  case (2 s fs q)
  then show ?case by (rule adts_next_at)
qed (auto simp: adts_at_def adts_backlog_def adts_Feed_def adts_inv_def adts_Compact_def adts_SetEOF_def adts_Finish_def)

text \<open>
  C21. A clean ADTS stream, whole single-block frames of one configuration, is delivered exactly,
  however the body is cut into reads: each access unit with its header stripped and its duration, in
  order, the last one included although no header follows it, and with a gap count of zero.
\<close>

theorem adts_clean_stream:
  assumes "adts_frames fs" "concat chunks = concat (map fst fs)"
  shows "\<exists>s'. readCompressed adts_Feed adts_NextFrame adts_Compact adts_SetEOF adts_Finish
       (adts_NewStream n) chunks True = Some (map adts_payload fs, s')
     \<and> adts_GapCount s' = 0"
  using adts_clean.read_all [of "adts_NewStream n" fs chunks] assms
  by (auto simp: adts_at_def adts_NewStream_def adts_inv_def adts_GapCount_def)

theorem adts_clean_stream_witness:
  "\<exists>s'. readCompressed adts_Feed adts_NextFrame adts_Compact adts_SetEOF adts_Finish (adts_NewStream 64)
       [take 4 adts_sample, drop 4 adts_sample @ adts_sample] True
     = Some ([([0xAA, 0xBB], 23219954), ([0xAA, 0xBB], 23219954)], s') \<and> adts_GapCount s' = 0"
proof -
  define h where "h = the (case adts_Parse adts_sample of Some (Inr h) \<Rightarrow> Some h | _ \<Rightarrow> None)"
  have "adts_frames [(adts_sample, h), (adts_sample, h)]"
    using adts_sample by (simp add: adts_frames_def h_def adts_sample_def)
  then show ?thesis
    using adts_clean_stream [of "[(adts_sample, h), (adts_sample, h)]" "[take 4 adts_sample, drop 4 adts_sample @ adts_sample]" 64]
    by (simp add: adts_payload_def h_def adts_sample adts_frameDuration_def caps)
      (simp add: adts_sample_def)
qed

end
