(* ===== verification/TS_Demux.thy ===== *)
theory TS_Demux
  imports ADTS_Frame
begin

text \<open>
  The MPEG-TS demuxer of \<open>src/hlssource/tsdemux.go\<close>: transport packets are routed by PID, the program
  tables are reassembled and parsed, and the elementary stream of the audio PID goes to the ADTS framer.
  The callback \<open>onAU\<close> is the list of the access units handed to it, in order.
\<close>

section \<open>State\<close>

definition tsPacketLen :: nat where [caps]: "tsPacketLen = 188"
definition tsSync :: byte where [caps]: "tsSync = 0x47"
definition nullPID :: u16 where [caps]: "nullPID = 0x1FFF"
definition patPID :: u16 where [caps]: "patPID = 0"
definition streamTypeAAC :: byte where [caps]: "streamTypeAAC = 0x0F"
definition streamTypeMP3a :: byte where [caps]: "streamTypeMP3a = 0x03"
definition streamTypeMP3b :: byte where [caps]: "streamTypeMP3b = 0x04"
definition streamTypeLATM :: byte where [caps]: "streamTypeLATM = 0x11"

datatype ts_error = ErrMalformedSegment | ErrUnsupportedCodec | ErrUnsupportedPlaylist

record ts_demux =
  pmtPID :: u16
  havePMT :: bool
  audioPID :: u16
  haveAudio :: bool
  patSec :: bytes
  pmtSec :: bytes
  pesHdrSkip :: nat
  pesDropping :: bool
  framer :: adts_stream
  asc :: "bytes option"
  accumGaps :: u64
  audioCC :: byte
  haveCC :: bool

type_synonym access_units = "(bytes \<times> int) list"

definition newTSDemux :: ts_demux where
  "newTSDemux = \<lparr>pmtPID = 0, havePMT = False, audioPID = 0, haveAudio = False, patSec = [], pmtSec = [],
     pesHdrSkip = 0, pesDropping = False, framer = adts_NewStream (int tsPacketLen * 8), asc = None,
     accumGaps = 0, audioCC = 0, haveCC = False\<rparr>"

section \<open>Transport packets\<close>

function resync_from :: "bytes \<Rightarrow> nat \<Rightarrow> nat option option" where
  "resync_from b i =
     (if i < length b then
        (case idx b i of
           None \<Rightarrow> None
         | Some x \<Rightarrow>
           if x \<noteq> tsSync then resync_from b (i + 1)
           else if i + tsPacketLen \<ge> length b then Some (Some i)
           else (case idx b (i + tsPacketLen) of
               None \<Rightarrow> None
             | Some y \<Rightarrow> if y = tsSync then Some (Some i) else resync_from b (i + 1)))
      else Some None)"
  by pat_completeness auto
termination
  by (relation "measure (\<lambda>(b, i). length b - i)") auto

declare resync_from.simps [simp del]

definition tsResync :: "bytes \<Rightarrow> nat option option" where
  "tsResync b = resync_from b 0"

definition tsPayload :: "bytes \<Rightarrow> bytes option option" where
  "tsPayload pkt = do {
     b3 \<leftarrow> idx pkt 3;
     let afc = drop_bit 4 b3 AND 0x03 in
     if afc = 0x01 then do { p \<leftarrow> slice pkt 4 (length pkt); Some (Some p) }
     else if afc = 0x03 then do {
       b4 \<leftarrow> idx pkt 4;
       let start = 5 + unat b4 in
       if start \<ge> tsPacketLen then Some None
       else do { p \<leftarrow> slice pkt start (length pkt); Some (Some p) } }
     else Some None }"

definition tsDiscIndicator :: "bytes \<Rightarrow> bool option" where
  "tsDiscIndicator pkt = do {
     b3 \<leftarrow> idx pkt 3;
     let afc = drop_bit 4 b3 AND 0x03 in
     if afc \<noteq> 0x02 \<and> afc \<noteq> 0x03 then Some False
     else do {
       afLen \<leftarrow> idx pkt 4;
       if afLen = 0 then Some False
       else do { flags \<leftarrow> idx pkt 5; Some (flags AND 0x80 \<noteq> 0) } } }"

text \<open>A 13-bit PID and the 12-bit lengths of the tables.\<close>

definition pid_of :: "byte \<Rightarrow> byte \<Rightarrow> u16" where
  "pid_of hi lo = push_bit 8 (ucast (hi AND 0x1F)) OR ucast lo"

definition len12 :: "byte \<Rightarrow> byte \<Rightarrow> nat" where
  "len12 hi lo = push_bit 8 (unat (hi AND 0x0F)) OR unat lo"

section \<open>Program tables\<close>

text \<open>The result and the new contents of the reassembly buffer.\<close>

definition psi_complete :: "bytes \<Rightarrow> (bytes option \<times> bytes) option" where
  "psi_complete sec =
     (if length sec < 3 then Some (None, sec)
      else do {
        s1 \<leftarrow> idx sec 1; s2 \<leftarrow> idx sec 2;
        let total = 3 + len12 s1 s2 in
        if length sec < total then Some (None, sec)
        else do { out \<leftarrow> slice sec 0 total; Some (Some out, []) } })"

definition psiSection :: "bytes \<Rightarrow> bytes \<Rightarrow> bool \<Rightarrow> (bytes option \<times> bytes) option" where
  "psiSection buf payload pusi =
     (if pusi then
        if length payload < 1 then Some (None, buf)
        else do {
          b0 \<leftarrow> idx payload 0;
          let ptr = unat b0 in
          if 1 + ptr > length payload then Some (None, buf)
          else do { sec \<leftarrow> slice payload (1 + ptr) (length payload); psi_complete sec } }
      else if length buf = 0 then Some (None, buf)
      else psi_complete (buf @ payload))"

definition psiBody :: "bytes \<Rightarrow> byte \<Rightarrow> bytes option option" where
  "psiBody sec tableID =
     (if length sec < 12 then Some None
      else do {
        s0 \<leftarrow> idx sec 0;
        if s0 \<noteq> tableID then Some None
        else do {
          s1 \<leftarrow> idx sec 1; s2 \<leftarrow> idx sec 2;
          let end' = 3 + len12 s1 s2 in
          if end' > length sec \<or> end' < 3 + 5 + 4 then Some None
          else do { body \<leftarrow> slice sec 8 (end' - 4); Some (Some body) } } })"

function pat_loop :: "bytes \<Rightarrow> nat \<Rightarrow> u16 option option" where
  "pat_loop body i =
     (if i + 4 \<le> length body then
        (case (idx body i, idx body (i + 1), idx body (i + 2), idx body (i + 3)) of
           (Some b0, Some b1, Some b2, Some b3) \<Rightarrow>
             if be16 b0 b1 \<noteq> 0 then Some (Some (pid_of b2 b3)) else pat_loop body (i + 4)
         | _ \<Rightarrow> None)
      else Some None)"
  by pat_completeness auto
termination
  by (relation "measure (\<lambda>(body, i). length body - i)") auto

declare pat_loop.simps [simp del]

definition parsePAT :: "ts_demux \<Rightarrow> bytes \<Rightarrow> ts_demux option" where
  "parsePAT d sec = do {
     r \<leftarrow> psiBody sec 0x00;
     case r of
       None \<Rightarrow> Some d
     | Some body \<Rightarrow> do {
         p \<leftarrow> pat_loop body 0;
         case p of None \<Rightarrow> Some d | Some pid \<Rightarrow> Some (d\<lparr>pmtPID := pid, havePMT := True\<rparr>) } }"

text \<open>The loop over the elementary streams: the AAC PID, or whether other audio was seen.\<close>

function pmt_loop :: "bytes \<Rightarrow> nat \<Rightarrow> bool \<Rightarrow> (u16 + bool) option" where
  "pmt_loop body i sawOtherAudio =
     (if i + 5 \<le> length body then
        (case (idx body i, idx body (i + 1), idx body (i + 2), idx body (i + 3), idx body (i + 4)) of
           (Some streamType, Some b1, Some b2, Some b3, Some b4) \<Rightarrow>
             let i' = i + 5 + len12 b3 b4 in
             if streamType = streamTypeAAC then Some (Inl (pid_of b1 b2))
             else if streamType = streamTypeMP3a \<or> streamType = streamTypeMP3b \<or> streamType = streamTypeLATM
             then pmt_loop body i' True
             else pmt_loop body i' sawOtherAudio
         | _ \<Rightarrow> None)
      else Some (Inr sawOtherAudio))"
  by pat_completeness auto
termination
  by (relation "measure (\<lambda>(body, i, _). length body - i)") auto

declare pmt_loop.simps [simp del]

definition parsePMT :: "ts_demux \<Rightarrow> bytes \<Rightarrow> (ts_demux \<times> ts_error option) option" where
  "parsePMT d sec = do {
     r \<leftarrow> psiBody sec 0x02;
     case r of
       None \<Rightarrow> Some (d, None)
     | Some body \<Rightarrow>
         if length body < 4 then Some (d, None)
         else do {
           b2 \<leftarrow> idx body 2; b3 \<leftarrow> idx body 3;
           p \<leftarrow> pmt_loop body (4 + len12 b2 b3) False;
           case p of
             Inl pid \<Rightarrow> Some (d\<lparr>audioPID := pid, haveAudio := True\<rparr>, None)
           | Inr sawOtherAudio \<Rightarrow>
               if \<not> haveAudio d \<and> sawOtherAudio then Some (d, Some ErrUnsupportedCodec) else Some (d, None) } }"

section \<open>The elementary stream\<close>

definition adts_Header :: "adts_stream \<Rightarrow> adts_header" where
  "adts_Header s = as_hdr s"

text \<open>The body of the delivery loop: a frame, and the configuration taken from the first one.\<close>

definition ts_next :: "(adts_stream \<times> bytes option) next_frame" where
  "ts_next fa = do {
     (r, s') \<leftarrow> adts_NextFrame (fst fa);
     case r of
       None \<Rightarrow> Some (None, (s', snd fa))
     | Some f \<Rightarrow> Some (Some f, (s', if snd fa = None then Some (AudioSpecificConfig (adts_Header s')) else snd fa)) }"

definition ts_feed :: "ts_demux \<Rightarrow> bytes \<Rightarrow> (access_units \<times> ts_demux) option" where
  "ts_feed d es =
     (if length es = 0 then Some ([], d)
      else do {
        (aus, s', a') \<leftarrow> drain_loop ts_next (adts_Feed (framer d) es, asc d) [];
        Some (aus, d\<lparr>framer := adts_Compact s', asc := a'\<rparr>) })"

definition ts_end :: "ts_demux \<Rightarrow> (access_units \<times> ts_demux) option" where
  "ts_end d = do {
     (aus, s', a') \<leftarrow> drain_loop ts_next (adts_SetEOF (framer d), asc d) [];
     Some (aus, d\<lparr>framer := adts_Finish s', asc := a'\<rparr>) }"

definition resetContinuity :: "ts_demux \<Rightarrow> (access_units \<times> ts_demux) option" where
  "resetContinuity d = do {
     (aus, d1) \<leftarrow> ts_end d;
     Some (aus, d1\<lparr>accumGaps := accumGaps d1 + adts_GapCount (framer d1),
       framer := adts_NewStream (int tsPacketLen * 8), pesHdrSkip := 0, pesDropping := False\<rparr>) }"

definition resetDomain :: "ts_demux \<Rightarrow> (access_units \<times> ts_demux) option" where
  "resetDomain d = do {
     (aus, d1) \<leftarrow> resetContinuity d;
     Some (aus, d1\<lparr>patSec := [], pmtSec := [], havePMT := False, haveAudio := False, haveCC := False\<rparr>) }"

definition ts_gapCount :: "ts_demux \<Rightarrow> u64" where
  "ts_gapCount d = accumGaps d + adts_GapCount (framer d)"

definition handlePES :: "ts_demux \<Rightarrow> bytes \<Rightarrow> bool \<Rightarrow> (access_units \<times> ts_demux) option" where
  "handlePES d payload pusi =
     (if pusi then
        let d1 = d\<lparr>pesHdrSkip := 0, pesDropping := False\<rparr> in
        if length payload < 9 then Some ([], d1\<lparr>pesDropping := True\<rparr>)
        else do {
          p0 \<leftarrow> idx payload 0; p1 \<leftarrow> idx payload 1; p2 \<leftarrow> idx payload 2;
          if p0 \<noteq> 0 \<or> p1 \<noteq> 0 \<or> p2 \<noteq> 1 then Some ([], d1\<lparr>pesDropping := True\<rparr>)
          else do {
            p8 \<leftarrow> idx payload 8;
            let esStart = 9 + unat p8 in
            if esStart \<le> length payload then do {
              es \<leftarrow> slice payload esStart (length payload);
              ts_feed d1 es }
            else Some ([], d1\<lparr>pesHdrSkip := esStart - length payload\<rparr>) } }
      else if pesDropping d then Some ([], d)
      else if pesHdrSkip d > 0 then
        let skip = min (pesHdrSkip d) (length payload) in do {
          payload' \<leftarrow> slice payload skip (length payload);
          ts_feed (d\<lparr>pesHdrSkip := pesHdrSkip d - skip\<rparr>) payload' }
      else ts_feed d payload)"

section \<open>Routing\<close>

type_synonym ts_result = "(access_units \<times> ts_demux \<times> ts_error option) option"

definition audioPacket :: "ts_demux \<Rightarrow> byte \<Rightarrow> bytes \<Rightarrow> bool \<Rightarrow> (access_units \<times> ts_demux) option" where
  "audioPacket d cc payload pusi =
     (if haveCC d \<and> cc = audioCC d then Some ([], d)
      else do {
        (aus, d1) \<leftarrow>
          (if \<not> haveCC d \<or> cc = (audioCC d + 1) AND 0x0F then Some ([], d)
           else do { (aus, d1) \<leftarrow> resetContinuity d; Some (aus, d1\<lparr>accumGaps := accumGaps d1 + 1\<rparr>) });
        (aus', d2) \<leftarrow> handlePES (d1\<lparr>audioCC := cc, haveCC := True\<rparr>) payload pusi;
        Some (aus @ aus', d2) })"

definition routePacket :: "ts_demux \<Rightarrow> u16 \<Rightarrow> bool \<Rightarrow> byte \<Rightarrow> bytes \<Rightarrow> ts_result" where
  "routePacket d pid pusi cc payload =
     (if pid = patPID then do {
        (r, buf) \<leftarrow> psiSection (patSec d) payload pusi;
        let d1 = d\<lparr>patSec := buf\<rparr> in
        case r of
          None \<Rightarrow> Some ([], d1, None)
        | Some sec \<Rightarrow> do { d2 \<leftarrow> parsePAT d1 sec; Some ([], d2, None) } }
      else if havePMT d \<and> pid = pmtPID d then do {
        (r, buf) \<leftarrow> psiSection (pmtSec d) payload pusi;
        let d1 = d\<lparr>pmtSec := buf\<rparr> in
        case r of
          None \<Rightarrow> Some ([], d1, None)
        | Some sec \<Rightarrow> do { (d2, e) \<leftarrow> parsePMT d1 sec; Some ([], d2, e) } }
      else if haveAudio d \<and> pid = audioPID d then do {
        (aus, d1) \<leftarrow> audioPacket d cc payload pusi;
        Some (aus, d1, None) }
      else Some ([], d, None))"

definition handlePacket :: "ts_demux \<Rightarrow> bytes \<Rightarrow> ts_result" where
  "handlePacket d pkt = do {
     b1 \<leftarrow> idx pkt 1;
     if b1 AND 0x80 \<noteq> 0 then Some ([], d, None)
     else do {
       b3 \<leftarrow> idx pkt 3;
       if b3 AND 0xC0 \<noteq> 0 then Some ([], d, Some ErrUnsupportedPlaylist)
       else do {
         b2 \<leftarrow> idx pkt 2;
         let pusi = (b1 AND 0x40 \<noteq> 0); pid = pid_of b1 b2 in
         if pid = nullPID then Some ([], d, None)
         else do {
           disc \<leftarrow> (if haveAudio d \<and> pid = audioPID d then tsDiscIndicator pkt else Some False);
           (aus, d1) \<leftarrow>
             (if disc then do { (aus, d1) \<leftarrow> resetContinuity d; Some (aus, d1\<lparr>haveCC := False\<rparr>) }
              else Some ([], d));
           r \<leftarrow> tsPayload pkt;
           case r of
             None \<Rightarrow> Some (aus, d1, None)
           | Some payload \<Rightarrow> do {
               (aus', d2, e) \<leftarrow> routePacket d1 pid pusi (b3 AND 0x0F) payload;
               Some (aus @ aus', d2, e) } } } } }"

section \<open>Synchronization\<close>

lemma resync_from_cases:
  "\<exists>r. resync_from b i = Some r \<and> (\<forall>j. r = Some j \<longrightarrow> i \<le> j \<and> j < length b \<and> b ! j = tsSync)"
proof (induction "length b - i" arbitrary: i rule: less_induct)
  case less
  show ?case
  proof (cases "i < length b")
    case False
    then show ?thesis by (simp add: resync_from.simps [of b i])
  next
    case True
    then have "length b - (i + 1) < length b - i" by simp
    then obtain r where r: "resync_from b (i + 1) = Some r"
        "\<forall>j. r = Some j \<longrightarrow> i + 1 \<le> j \<and> j < length b \<and> b ! j = tsSync"
      using less.hyps [of "i + 1"] by blast
    then show ?thesis
      using True Suc_leD by (auto simp: resync_from.simps [of b i])
  qed
qed

lemma tsResync_later:
  assumes "tsResync b = Some (Some r)" "b \<noteq> []" "b ! 0 \<noteq> tsSync"
  shows "0 < r"
  using resync_from_cases [of b 0] assms by (cases r) (auto simp: tsResync_def)

text \<open>
  The packet loop of \<open>demux\<close>. A resynchronization skips at least the byte that is not a sync byte, so
  the loop ends.
\<close>

function demux_loop :: "ts_demux \<Rightarrow> bytes \<Rightarrow> nat \<Rightarrow> access_units \<Rightarrow> ts_result" where
  "demux_loop d seg off aus =
     (if off + tsPacketLen \<le> length seg then
        (case (slice seg off (off + tsPacketLen), idx seg off) of
           (Some pkt, Some b0) \<Rightarrow>
             if b0 \<noteq> tsSync then
               (case slice seg off (length seg) of
                  None \<Rightarrow> None
                | Some rest \<Rightarrow>
                  (case tsResync rest of
                     None \<Rightarrow> None
                   | Some None \<Rightarrow> Some (aus, d, None)
                   | Some (Some r) \<Rightarrow> demux_loop d seg (off + r) aus))
             else
               (case handlePacket d pkt of
                  None \<Rightarrow> None
                | Some (aus', d', Some e) \<Rightarrow> Some (aus @ aus', d', Some e)
                | Some (aus', d', None) \<Rightarrow> demux_loop d' seg (off + tsPacketLen) (aus @ aus'))
         | _ \<Rightarrow> None)
      else Some (aus, d, None))"
  by pat_completeness auto
termination
proof (relation "measure (\<lambda>(d, seg, off, aus). length seg - off)", simp)
  fix d :: ts_demux and seg off aus x y pkt b0 rest q r
  assume "off + tsPacketLen \<le> length seg" "(x, y) = (slice seg off (off + tsPacketLen), idx seg off)"
    "x = Some pkt" "y = Some b0" "b0 \<noteq> tsSync" "slice seg off (length seg) = Some rest"
    "tsResync rest = Some q" "q = Some r"
  moreover from this have "rest = drop off seg" "off < length seg" "b0 = seg ! off"
    by (auto simp: caps go_simps)
  ultimately show "((d, seg, off + r, aus), d, seg, off, aus) \<in> measure (\<lambda>(d, seg, off, aus). length seg - off)"
    using tsResync_later [of rest r] by auto
qed (auto simp: caps)

declare demux_loop.simps [simp del]

definition demux :: "ts_demux \<Rightarrow> bytes \<Rightarrow> bool \<Rightarrow> ts_result" where
  "demux d seg discontinuity = do {
     (aus, d0) \<leftarrow> (if discontinuity then resetDomain d else Some ([], d));
     let d1 = d0\<lparr>haveCC := False\<rparr> in do {
     r \<leftarrow> tsResync seg;
     case r of
       None \<Rightarrow> Some (aus, d1, Some ErrMalformedSegment)
     | Some start \<Rightarrow> demux_loop d1 seg start aus } }"

section \<open>Any input\<close>

lemma len12_bound: "len12 hi lo \<le> 4095"
proof -
  have "unat (hi AND 0x0F) < 16" using unat_field [of 0 hi 4] by simp
  then have "push_bit 8 (unat (hi AND 0x0F)) < 2 ^ 12" by (simp add: push_bit_eq_mult)
  moreover have "unat lo < 2 ^ 12" using unat_byte_less [of lo] by simp
  ultimately have "len12 hi lo < 2 ^ 12" unfolding len12_def by (rule nat_or_less)
  then show ?thesis by simp
qed

lemma psi_complete_bounded: "\<exists>r buf'. psi_complete sec = Some (r, buf') \<and> length buf' < 4098"
  using len12_bound [of "sec ! 1" "sec ! 2"] by (auto simp: psi_complete_def Let_def)

lemma psiSection_bounded:
  assumes "length buf < 4098"
  shows "\<exists>r buf'. psiSection buf payload pusi = Some (r, buf') \<and> length buf' < 4098"
proof (cases "pusi \<and> payload \<noteq> []")
  case True
  then show ?thesis using assms psi_complete_bounded by (auto simp: psiSection_def neq_Nil_conv Let_def)
next
  case False
  then show ?thesis using assms psi_complete_bounded by (auto simp: psiSection_def)
qed

lemma psiBody_total: "psiBody sec t \<noteq> None"
  by (cases "sec = []") (auto simp: psiBody_def Let_def)

lemma pat_loop_total: "pat_loop body i \<noteq> None"
  by (induction body i rule: pat_loop.induct) (subst pat_loop.simps, simp)

lemma parsePAT_total: "\<exists>d'. parsePAT d sec = Some d' \<and> (\<exists>p b. d' = d\<lparr>pmtPID := p, havePMT := b\<rparr>)"
proof -
  obtain r where r: "psiBody sec 0 = Some r" using psiBody_total by blast
  have "\<exists>p b. d = d\<lparr>pmtPID := p, havePMT := b\<rparr>"
    by (intro exI [of _ "pmtPID d"] exI [of _ "havePMT d"]) simp
  then show ?thesis
  proof (cases r)
    case (Some body)
    obtain p where "pat_loop body 0 = Some p" using pat_loop_total by blast
    then show ?thesis using \<open>\<exists>p b. d = _\<close> by (cases p) (auto simp: parsePAT_def r Some)
  qed (simp add: parsePAT_def r)
qed

lemma pmt_loop_total: "pmt_loop body i b \<noteq> None"
  by (induction body i b rule: pmt_loop.induct) (subst pmt_loop.simps, simp add: Let_def)

lemma parsePMT_total: "\<exists>d' e. parsePMT d sec = Some (d', e) \<and> (\<exists>p b. d' = d\<lparr>audioPID := p, haveAudio := b\<rparr>)"
proof -
  obtain r where r: "psiBody sec 2 = Some r" using psiBody_total by blast
  have self: "\<exists>p b. d = d\<lparr>audioPID := p, haveAudio := b\<rparr>" by (intro exI [of _ "audioPID d"] exI [of _ "haveAudio d"]) simp
  show ?thesis
  proof (cases r)
    case None
    then show ?thesis using self by (simp add: parsePMT_def r)
  next
    case (Some body)
    show ?thesis
    proof (cases "length body < 4")
      case True
      then show ?thesis using self by (simp add: parsePMT_def r Some)
    next
      case False
      then have ix: "idx body 2 = Some (body ! 2)" "idx body 3 = Some (body ! 3)" by auto
      obtain p where "pmt_loop body (4 + len12 (body ! 2) (body ! 3)) False = Some p" using pmt_loop_total by blast
      then show ?thesis
        using self False by (auto simp: parsePMT_def r Some ix split: sum.split)
    qed
  qed
qed

text \<open>The framer together with the configuration is again a framer, so the delivery loops end.\<close>

definition pair_Feed :: "adts_stream \<times> bytes option \<Rightarrow> bytes \<Rightarrow> adts_stream \<times> bytes option" where
  "pair_Feed fa p = (adts_Feed (fst fa) p, snd fa)"

lemma ts_next_total:
  assumes "adts_inv (fst fa)"
  shows "\<exists>r fa'. ts_next fa = Some (r, fa') \<and> adts_inv (fst fa')
    \<and> (case r of None \<Rightarrow> adts_backlog (fst fa') \<le> 8197 | Some d \<Rightarrow> adts_backlog (fst fa') < adts_backlog (fst fa))"
  using adts_NextFrame_total [OF assms] by (fastforce simp: ts_next_def split: option.splits)

interpretation ts_bounded: bounded_framer pair_Feed ts_next "apfst adts_Compact" "apfst adts_SetEOF" "apfst adts_Finish"
    "\<lambda>fa. adts_inv (fst fa)" "\<lambda>fa. adts_backlog (fst fa)" 8197
  by unfold_locales
    (use ts_next_total adts_bounded.feed_inv adts_bounded.compact_inv adts_bounded.set_eof_inv
       adts_bounded.finish_inv in \<open>auto simp: pair_Feed_def\<close>)

definition ts_inv :: "ts_demux \<Rightarrow> bool" where
  "ts_inv d \<longleftrightarrow> adts_inv (framer d) \<and> adts_backlog (framer d) \<le> 8197
     \<and> length (patSec d) < 4098 \<and> length (pmtSec d) < 4098"

text \<open>A step that returns, keeps the invariant and leaves the routing state alone.\<close>

definition ts_keeps :: "ts_demux \<Rightarrow> (access_units \<times> ts_demux) option \<Rightarrow> bool" where
  "ts_keeps d out \<longleftrightarrow> (\<exists>aus d'. out = Some (aus, d') \<and> ts_inv d')"

lemma ts_feed_keeps: "ts_inv d \<Longrightarrow> ts_keeps d (ts_feed d es)"
proof (cases "es = []")
  case False
  assume d: "ts_inv d"
  then have "adts_inv (adts_Feed (framer d) es)" using adts_bounded.feed_inv by (simp add: ts_inv_def)
  then obtain fs s' a' where "drain_loop ts_next (adts_Feed (framer d) es, asc d) [] = Some (fs, s', a')"
      "adts_inv s'" "adts_backlog s' \<le> 8197"
    using ts_bounded.drain_loop_total [of "(adts_Feed (framer d) es, asc d)" "[]"] by auto
  then show ?thesis
    using d False adts_bounded.compact_inv [of s'] by (auto simp: ts_keeps_def ts_feed_def ts_inv_def)
qed (simp add: ts_keeps_def ts_feed_def)

lemma ts_end_keeps: "ts_inv d \<Longrightarrow> ts_keeps d (ts_end d)"
proof -
  assume d: "ts_inv d"
  then have "adts_inv (adts_SetEOF (framer d))" using adts_bounded.set_eof_inv by (simp add: ts_inv_def)
  then obtain fs s' a' where "drain_loop ts_next (adts_SetEOF (framer d), asc d) [] = Some (fs, s', a')"
      "adts_inv s'" "adts_backlog s' \<le> 8197"
    using ts_bounded.drain_loop_total [of "(adts_SetEOF (framer d), asc d)" "[]"] by auto
  then show ?thesis
    using d adts_bounded.finish_inv [of s'] by (auto simp: ts_keeps_def ts_end_def ts_inv_def)
qed

lemma resetContinuity_keeps: "ts_inv d \<Longrightarrow> ts_keeps d (resetContinuity d)"
  using ts_end_keeps [of d]
  by (auto simp: ts_keeps_def resetContinuity_def ts_inv_def adts_NewStream_def adts_inv_def adts_backlog_def)

lemma resetDomain_keeps: "ts_inv d \<Longrightarrow> ts_keeps d (resetDomain d)"
  using resetContinuity_keeps [of d] by (auto simp: ts_keeps_def resetDomain_def ts_inv_def)

lemma handlePES_keeps:
  assumes "ts_inv d"
  shows "ts_keeps d (handlePES d payload pusi)"
proof -
  have any: "ts_keeps d (ts_feed (d\<lparr>pesHdrSkip := n, pesDropping := b\<rparr>) es)" for n b es
    using ts_feed_keeps [of "d\<lparr>pesHdrSkip := n, pesDropping := b\<rparr>" es] assms by (simp add: ts_keeps_def ts_inv_def)
  have stay: "ts_keeps d (Some ([], d\<lparr>pesHdrSkip := n, pesDropping := b\<rparr>))"
      "ts_keeps d (Some ([], d\<lparr>pesDropping := b, pesHdrSkip := n\<rparr>))" for n b
    using assms by (simp_all add: ts_keeps_def ts_inv_def)
  show ?thesis
  proof (cases "pusi \<and> 9 \<le> length payload")
    case True
    then have "idx payload i = Some (payload ! i)" if "i < 9" for i using that by simp
    from this [of 0] this [of 1] this [of 2] this [of 8] show ?thesis
      using True any [where n = 0 and b = False] stay [where b = False] stay [where n = 0 and b = True]
      by (auto simp: handlePES_def Let_def simp del: idx_Some)
  next
    case False
    then show ?thesis
      using any [where b = "pesDropping d"] any [where n = "pesHdrSkip d" and b = "pesDropping d"]
        stay [where n = 0 and b = True] stay(1) [where n = "pesHdrSkip d" and b = "pesDropping d"]
      by (auto simp: handlePES_def Let_def)
  qed
qed

lemma audioPacket_keeps:
  assumes "ts_inv d"
  shows "ts_keeps d (audioPacket d cc payload pusi)"
proof -
  have pes: "\<exists>aus d'. handlePES (d1\<lparr>audioCC := cc, haveCC := True\<rparr>) payload pusi = Some (aus, d') \<and> ts_inv d'"
    if "ts_inv d1" for d1
    using handlePES_keeps [of "d1\<lparr>audioCC := cc, haveCC := True\<rparr>" payload pusi] that
    by (auto simp: ts_keeps_def ts_inv_def)
  obtain aus d1 where r: "resetContinuity d = Some (aus, d1)" "ts_inv d1"
    using resetContinuity_keeps [OF assms] by (auto simp: ts_keeps_def)
  then have "ts_inv (d1\<lparr>accumGaps := accumGaps d1 + 1\<rparr>)" by (simp add: ts_inv_def)
  from pes [OF this] pes [OF assms] show ?thesis
    using r assms by (auto simp: audioPacket_def ts_keeps_def)
qed

lemma routePacket_keeps:
  assumes "ts_inv d"
  shows "\<exists>aus d' e. routePacket d pid pusi cc payload = Some (aus, d', e) \<and> ts_inv d'"
proof -
  obtain r1 buf1 where 1: "psiSection (patSec d) payload pusi = Some (r1, buf1)" "length buf1 < 4098"
    using psiSection_bounded [of "patSec d"] assms unfolding ts_inv_def by blast
  obtain r2 buf2 where 2: "psiSection (pmtSec d) payload pusi = Some (r2, buf2)" "length buf2 < 4098"
    using psiSection_bounded [of "pmtSec d"] assms unfolding ts_inv_def by blast
  obtain aus d1 where 3: "audioPacket d cc payload pusi = Some (aus, d1)" "ts_inv d1"
    using audioPacket_keeps [OF assms] unfolding ts_keeps_def by blast
  have pat: "\<exists>d'. parsePAT (d\<lparr>patSec := buf1\<rparr>) sec = Some d' \<and> ts_inv d'" for sec
    using parsePAT_total [of "d\<lparr>patSec := buf1\<rparr>" sec] 1(2) assms by (auto simp: ts_inv_def)
  have pmt: "\<exists>d' e. parsePMT (d\<lparr>pmtSec := buf2\<rparr>) sec = Some (d', e) \<and> ts_inv d'" for sec
    using parsePMT_total [of "d\<lparr>pmtSec := buf2\<rparr>" sec] 2(2) assms by (auto simp: ts_inv_def)
  consider "pid = patPID" | "pid \<noteq> patPID" "havePMT d" "pid = pmtPID d"
    | "pid \<noteq> patPID" "\<not> (havePMT d \<and> pid = pmtPID d)" by blast
  then show ?thesis
  proof cases
    case 1
    have "ts_inv (d\<lparr>patSec := buf1\<rparr>)" using assms \<open>length buf1 < _\<close> by (simp add: ts_inv_def)
    then show ?thesis
      using 1 pat [of "the r1"] \<open>psiSection (patSec d) payload pusi = _\<close>
      by (cases r1) (auto simp: routePacket_def)
  next
    case c: 2
    have "ts_inv (d\<lparr>pmtSec := buf2\<rparr>)" using assms 2(2) by (simp add: ts_inv_def)
    then show ?thesis using c pmt [of "the r2"] 2(1) by (cases r2) (auto simp: routePacket_def)
  next
    case c: 3
    then show ?thesis using 3 assms by (auto simp: routePacket_def)
  qed
qed

lemma tsPayload_total:
  assumes "length pkt = 188"
  shows "\<exists>r. tsPayload pkt = Some r"
  using assms by (auto simp: tsPayload_def Let_def caps)

lemma tsDiscIndicator_total: "length pkt = 188 \<Longrightarrow> \<exists>b. tsDiscIndicator pkt = Some b"
  by (auto simp: tsDiscIndicator_def Let_def)

lemma handlePacket_keeps:
  assumes "ts_inv d" "length pkt = 188"
  shows "\<exists>aus d' e. handlePacket d pkt = Some (aus, d', e) \<and> ts_inv d'"
proof -
  obtain r where r: "tsPayload pkt = Some r" using tsPayload_total [OF assms(2)] by blast
  obtain disc where disc: "tsDiscIndicator pkt = Some disc" using tsDiscIndicator_total [OF assms(2)] by blast
  have ix: "idx pkt 1 = Some (pkt ! 1)" "idx pkt 2 = Some (pkt ! 2)" "idx pkt 3 = Some (pkt ! 3)" using assms(2) by simp_all
  obtain aus1 d1 where r1: "resetContinuity d = Some (aus1, d1)" "ts_inv d1"
    using resetContinuity_keeps [OF assms(1)] by (auto simp: ts_keeps_def)
  then have d1: "ts_inv (d1\<lparr>haveCC := False\<rparr>)" by (simp add: ts_inv_def)
  have step: "\<exists>aus' d2 e. (case r of None \<Rightarrow> Some (aus, d0, None)
      | Some payload \<Rightarrow> do { (aus', d2, e) \<leftarrow> routePacket d0 pid pusi cc payload; Some (aus @ aus', d2, e) }) = Some (aus', d2, e)
      \<and> ts_inv d2" if "ts_inv d0" for d0 aus pid pusi cc
    using routePacket_keeps [OF that, of pid pusi cc "the r"] that by (cases r) auto
  show ?thesis
    using assms(1) r1 step [OF d1] step [OF assms(1)] unfolding handlePacket_def ix r disc
    by (auto simp: Let_def)
qed

lemma demux_loop_keeps:
  assumes "ts_inv d"
  shows "\<exists>aus' d' e. demux_loop d seg off aus = Some (aus', d', e) \<and> ts_inv d'"
  using assms
proof (induction d seg off aus rule: demux_loop.induct)
  case (1 d seg off aus)
  show ?case
  proof (cases "off + 188 \<le> length seg")
    case False
    then show ?thesis using 1(3) by (simp add: demux_loop.simps [of d] caps)
  next
    case True
    define pkt where "pkt = take 188 (drop off seg)"
    have len: "length pkt = 188" using True by (simp add: pkt_def)
    have acc: "slice seg off (off + tsPacketLen) = Some pkt" "idx seg off = Some (seg ! off)"
        "slice seg off (length seg) = Some (drop off seg)" "off + tsPacketLen \<le> length seg"
      using True by (simp_all add: pkt_def caps)
    obtain q where q: "tsResync (drop off seg) = Some q" using resync_from_cases [of "drop off seg" 0] by (auto simp: tsResync_def)
    obtain aus' d' e where h: "handlePacket d pkt = Some (aus', d', e)" "ts_inv d'"
      using handlePacket_keeps [OF 1(3) len] by blast
    show ?thesis
    proof (cases "seg ! off = tsSync")
      case sync: True
      show ?thesis
      proof (cases e)
        case None
        have "demux_loop d seg off aus = demux_loop d' seg (off + tsPacketLen) (aus @ aus')"
          using acc h(1) sync None by (simp add: demux_loop.simps [of d])
        then show ?thesis using 1(2) [OF acc(4) _ _ _ _ h(1)] acc sync None h(2) by auto
      qed (use acc h sync in \<open>simp add: demux_loop.simps [of d]\<close>)
    next
      case nosync: False
      show ?thesis
      proof (cases q)
        case (Some r)
        have "demux_loop d seg off aus = demux_loop d seg (off + r) aus"
          using acc q nosync Some by (simp add: demux_loop.simps [of d])
        then show ?thesis using 1(1) [OF acc(4) _ _ _ _ acc(3) q Some] acc nosync 1(3) by auto
      qed (use acc q nosync 1(3) in \<open>simp add: demux_loop.simps [of d]\<close>)
    qed
  qed
qed

lemma demux_keeps:
  assumes "ts_inv d"
  shows "\<exists>aus d' e. demux d seg discontinuity = Some (aus, d', e) \<and> ts_inv d'"
proof -
  obtain aus d0 where d0: "(if discontinuity then resetDomain d else Some ([], d)) = Some (aus, d0)" "ts_inv d0"
    using resetDomain_keeps [OF assms] assms by (cases discontinuity) (auto simp: ts_keeps_def)
  then have d1: "ts_inv (d0\<lparr>haveCC := False\<rparr>)" by (simp add: ts_inv_def)
  obtain q where "tsResync seg = Some q" using resync_from_cases [of seg 0] by (auto simp: tsResync_def)
  then show ?thesis using d0 d1 demux_loop_keeps [OF d1, of seg _ aus] by (cases q) (auto simp: demux_def)
qed

text \<open>The demuxer as a machine: whole segments arrive, and at some point the stream ends.\<close>

datatype ts_event = Segment bytes bool | StreamEnd

fun ts_step :: "ts_demux \<Rightarrow> ts_event \<Rightarrow> (access_units \<times> ts_error option) option \<times> ts_demux" where
  "ts_step d (Segment seg discontinuity) =
     (case demux d seg discontinuity of None \<Rightarrow> (None, d) | Some (aus, d', e) \<Rightarrow> (Some (aus, e), d'))"
| "ts_step d StreamEnd =
     (case ts_end d of None \<Rightarrow> (None, d) | Some (aus, d') \<Rightarrow> (Some (aus, None), d'))"

interpretation ts: invariant_machine ts_step ts_inv "\<lambda>out. out \<noteq> None"
proof
  fix d i
  assume d: "ts_inv d"
  have "\<exists>aus d'. ts_end d = Some (aus, d') \<and> ts_inv d'" using ts_end_keeps [OF d] by (simp add: ts_keeps_def)
  then have "fst (ts_step d i) \<noteq> None \<and> ts_inv (snd (ts_step d i))"
  proof (cases i)
    case (Segment seg disc)
    then show ?thesis using demux_keeps [OF d, of seg disc] by auto
  qed auto
  then show "ts_inv (snd (ts_step d i))" "fst (ts_step d i) \<noteq> None" by auto
qed

text \<open>
  C23. The transport-stream demuxer is robust: whatever segments arrive, whole or cut, aligned or not,
  with any program tables, it returns on each of them, never indexes out of range, and what it buffers
  stays bounded, less than 4098 bytes for each table section and 8197 bytes of elementary stream.
\<close>

theorem ts_robust:
  "None \<notin> set (fst (run ts_step newTSDemux evs))
   \<and> length (patSec (snd (run ts_step newTSDemux evs))) < 4098
   \<and> length (pmtSec (snd (run ts_step newTSDemux evs))) < 4098
   \<and> adts_backlog (framer (snd (run ts_step newTSDemux evs))) \<le> 8197"
proof -
  have init: "ts_inv newTSDemux"
    by (simp add: ts_inv_def newTSDemux_def adts_NewStream_def adts_inv_def adts_backlog_def)
  then show ?thesis using ts.run_good [OF init] ts.run_inv [OF init] by (auto simp: ts_inv_def)
qed

section \<open>The configuration is resolved once\<close>

text \<open>The configuration of the first access unit stays the demuxer's, through later units, lost packets and discontinuities.\<close>

definition asc_kept :: "ts_demux \<Rightarrow> ts_demux \<Rightarrow> bool" where
  "asc_kept d d' \<longleftrightarrow> (\<forall>a. asc d = Some a \<longrightarrow> asc d' = Some a)"

lemma asc_kept_refl: "asc d' = asc d \<Longrightarrow> asc_kept d d'"
  by (simp add: asc_kept_def)

lemma asc_kept_trans: "asc_kept d d' \<Longrightarrow> asc_kept d' d'' \<Longrightarrow> asc_kept d d''"
  by (simp add: asc_kept_def)

lemma ts_next_asc: "ts_next (s, Some a) = Some (r, s', a') \<Longrightarrow> a' = Some a"
  by (cases "adts_NextFrame s") (auto simp: ts_next_def split: option.splits prod.splits)

lemma drain_loop_asc: "drain_loop ts_next (s, Some a) acc = Some (aus, s', a') \<Longrightarrow> a' = Some a"
proof -
  have "nxt = ts_next \<and> snd x = Some a \<longrightarrow> snd (snd y) = Some a" if "drain_loop nxt x acc = Some y"
    for nxt :: "(adts_stream \<times> bytes option) next_frame" and x acc y
    using that
  proof (rule drain_loop.raw_induct [rotated])
    fix loop :: "(adts_stream \<times> bytes option) next_frame \<Rightarrow> adts_stream \<times> bytes option \<Rightarrow> access_units \<Rightarrow> (access_units \<times> adts_stream \<times> bytes option) option"
      and nxt :: "(adts_stream \<times> bytes option) next_frame" and x acc y
    assume IH: "\<And>nxt x acc y. loop nxt x acc = Some y \<Longrightarrow> nxt = ts_next \<and> snd x = Some a \<longrightarrow> snd (snd y) = Some a"
      and body: "Option.bind (nxt x) (\<lambda>(r, s'). case r of None \<Rightarrow> Some (acc, s') | Some f \<Rightarrow> loop nxt s' (acc @ [f])) = Some y"
    show "nxt = ts_next \<and> snd x = Some a \<longrightarrow> snd (snd y) = Some a"
    proof
      assume x: "nxt = ts_next \<and> snd x = Some a"
      then obtain r s' a' where n: "nxt x = Some (r, s', a')" using body by (cases "nxt x") auto
      then have "a' = Some a" using x ts_next_asc by (metis prod.collapse)
      then show "snd (snd y) = Some a" using n body IH [of nxt "(s', a')"] x by (cases r) auto
    qed
  qed
  then show "drain_loop ts_next (s, Some a) acc = Some (aus, s', a') \<Longrightarrow> a' = Some a" by fastforce
qed

lemma ts_feed_asc: "ts_feed d es = Some (aus, d') \<Longrightarrow> asc_kept d d'"
  using drain_loop_asc by (fastforce simp: ts_feed_def asc_kept_def go_simps split: if_splits)

lemma ts_end_asc: "ts_end d = Some (aus, d') \<Longrightarrow> asc_kept d d'"
  using drain_loop_asc by (fastforce simp: ts_end_def asc_kept_def go_simps)

lemma resetContinuity_asc: "resetContinuity d = Some (aus, d') \<Longrightarrow> asc_kept d d'"
  using ts_end_asc by (fastforce simp: resetContinuity_def asc_kept_def go_simps)

lemma resetDomain_asc: "resetDomain d = Some (aus, d') \<Longrightarrow> asc_kept d d'"
  using resetContinuity_asc by (fastforce simp: resetDomain_def asc_kept_def go_simps)

lemma handlePES_asc: "handlePES d payload pusi = Some (aus, d') \<Longrightarrow> asc_kept d d'"
  unfolding handlePES_def Let_def
  by (auto simp: go_simps asc_kept_def split: if_splits dest!: ts_feed_asc)

lemma audioPacket_asc: "audioPacket d cc payload pusi = Some (aus, d') \<Longrightarrow> asc_kept d d'"
  by (auto simp: audioPacket_def asc_kept_def go_simps split: if_splits dest!: handlePES_asc resetContinuity_asc)

lemma parsePAT_asc: "parsePAT d sec = Some d' \<Longrightarrow> asc d' = asc d"
  using parsePAT_total [of d sec] by auto

lemma parsePMT_asc: "parsePMT d sec = Some (d', e) \<Longrightarrow> asc d' = asc d"
  using parsePMT_total [of d sec] by auto

lemma routePacket_asc: "routePacket d pid pusi cc payload = Some (aus, d', e) \<Longrightarrow> asc_kept d d'"
  by (auto simp: routePacket_def go_simps asc_kept_def Let_def split: if_splits option.splits dest!: audioPacket_asc parsePAT_asc parsePMT_asc)

lemma handlePacket_asc: "handlePacket d pkt = Some (aus, d', e) \<Longrightarrow> asc_kept d d'"
  by (auto simp: handlePacket_def go_simps asc_kept_def Let_def split: if_splits option.splits dest!: routePacket_asc resetContinuity_asc)

lemma demux_loop_asc: "demux_loop d seg off aus = Some (aus', d', e) \<Longrightarrow> asc_kept d d'"
proof (induction d seg off aus arbitrary: aus' d' e rule: demux_loop.induct)
  case (1 d seg off aus)
  show ?case
  proof (cases "off + tsPacketLen \<le> length seg")
    case True
    then obtain pkt b0 where p: "slice seg off (off + tsPacketLen) = Some pkt" "idx seg off = Some b0" by (auto simp: caps)
    note step = trans [OF demux_loop.simps [symmetric] 1(3)]
    show ?thesis
    proof (cases "b0 = tsSync")
      case sync: True
      show ?thesis
      proof (cases "handlePacket d pkt")
        case (Some h)
        obtain aus1 d1 e1 where h: "h = (aus1, d1, e1)" by (cases h)
        have "asc_kept d d1" using Some h handlePacket_asc by blast
        then show ?thesis using step True p sync Some h 1(2) [OF True refl p _ Some [unfolded h] refl refl] asc_kept_trans by (cases e1) auto
      qed (use step True p sync in simp)
    next
      case False
      obtain rest q where q: "slice seg off (length seg) = Some rest" "tsResync rest = Some q" using step True p False by (auto split: option.splits)
      then show ?thesis using step True p False 1(1) [OF True refl p False q] by (cases q) (auto intro: asc_kept_refl)
    qed
  qed (use 1(3) in \<open>simp add: demux_loop.simps [of d] asc_kept_refl\<close>)
qed

lemma demux_asc: "demux d seg discontinuity = Some (aus, d', e) \<Longrightarrow> asc_kept d d'"
  by (auto simp: demux_def Let_def go_simps asc_kept_def split: if_splits option.splits dest!: demux_loop_asc resetDomain_asc)

end
