(* ===== verification/TS_Stream.thy ===== *)
theory TS_Stream
  imports TS_Demux
begin

text \<open>
  What the transport-stream demuxer delivers: the program tables of a standard multiplexer are parsed to
  the PIDs they announce, and the access units carried by the audio packets come out exactly.
\<close>

section \<open>Program tables\<close>

text \<open>A section as a multiplexer writes it; the five header bytes and the CRC are not looked at.\<close>

definition enc12 :: "byte \<Rightarrow> nat \<Rightarrow> bytes" where
  "enc12 msk n = [msk OR word_of_nat (n div 256), word_of_nat n]"

definition enc_pid :: "u16 \<Rightarrow> bytes" where
  "enc_pid pid = [0xE0 OR ucast (drop_bit 8 pid), ucast pid]"

definition psi_section :: "byte \<Rightarrow> bytes \<Rightarrow> bytes \<Rightarrow> bytes \<Rightarrow> bytes" where
  "psi_section tid hdr body crc = [tid] @ enc12 0xB0 (length body + 9) @ hdr @ body @ crc"

definition enc_program :: "u16 \<times> u16 \<Rightarrow> bytes" where
  "enc_program p = put16 (fst p) @ enc_pid (snd p)"

definition enc_es :: "byte \<times> u16 \<times> bytes \<Rightarrow> bytes" where
  "enc_es e = (case e of (ty, pid, info) \<Rightarrow> [ty] @ enc_pid pid @ enc12 0xF0 (length info) @ info)"

lemma enc_entry:
  "enc_program (n, p) = [ucast (drop_bit 8 n), ucast n, 0xE0 OR ucast (drop_bit 8 p), ucast p]"
  "enc_es (ty, p, info) = [ty, 0xE0 OR ucast (drop_bit 8 p), ucast p, 0xF0 OR word_of_nat (length info div 256),
     word_of_nat (length info)] @ info"
  by (simp_all add: enc_program_def enc_es_def put16_def enc_pid_def enc12_def)

definition pmt_body :: "bytes \<Rightarrow> bytes \<Rightarrow> (byte \<times> u16 \<times> bytes) list \<Rightarrow> bytes" where
  "pmt_body pcr descr es = pcr @ enc12 0xF0 (length descr) @ descr @ concat (map enc_es es)"

lemma len12_enc:
  assumes "msk AND 0x0F = 0" "n < 4096"
  shows "len12 (msk OR word_of_nat (n div 256)) (word_of_nat n) = n"
proof -
  have "n div 256 < 16" using assms(2) by simp
  then have u: "unat (word_of_nat (n div 256) AND 0x0F :: byte) = n div 256"
    using unat_field [of 0 "word_of_nat (n div 256) :: byte" 4] unat_word_of_nat_small [of "n div 256", where ?'a = 8] by simp
  have "(msk OR word_of_nat (n div 256)) AND 0x0F = (msk AND 0x0F) OR (word_of_nat (n div 256) AND 0x0F)"
    by (rule bit.conj_disj_distrib2)
  then have "unat ((msk OR word_of_nat (n div 256)) AND 0x0F) = n div 256" using assms(1) u by simp
  moreover have "unat (word_of_nat n :: byte) = n mod 256" by (simp add: unat_of_nat take_bit_eq_mod)
  ultimately show ?thesis unfolding len12_def using push_or_add [of "n mod 256" 8 "n div 256"] by simp
qed

lemma pid_of_enc:
  assumes "take_bit 13 pid = pid"
  shows "pid_of (0xE0 OR ucast (drop_bit 8 pid)) (ucast pid) = pid"
proof (rule bit_word_eqI)
  fix n :: nat
  assume "n < LENGTH(16)"
  have "n < 13" if "bit pid n" using assms that by (metis bit_take_bit_iff)
  then have hi: "bit pid n \<longrightarrow> n - 8 < 5" by linarith
  have e0: "bit (0xE0 :: byte) k \<longleftrightarrow> 5 \<le> k \<and> k < 8" "bit (0xE0 :: u16) k \<longleftrightarrow> 5 \<le> k \<and> k < 8" for k
  proof -
    have "(0xE0 :: byte) = push_bit 5 (mask 3)" "(0xE0 :: u16) = push_bit 5 (mask 3)"
      by (simp_all add: mask_eq_exp_minus_1)
    then show "bit (0xE0 :: byte) k \<longleftrightarrow> 5 \<le> k \<and> k < 8" "bit (0xE0 :: u16) k \<longleftrightarrow> 5 \<le> k \<and> k < 8"
      by (simp_all only: bit_simps) auto
  qed
  have f: "bit (0x1F :: byte) k \<longleftrightarrow> k < 5" "bit (0x1F :: u16) k \<longleftrightarrow> k < 5" for k
  proof -
    have "(0x1F :: byte) = mask 5" "(0x1F :: u16) = mask 5" by (simp_all add: mask_eq_exp_minus_1)
    then show "bit (0x1F :: byte) k \<longleftrightarrow> k < 5" "bit (0x1F :: u16) k \<longleftrightarrow> k < 5" by (simp_all only: bit_simps) auto
  qed
  show "bit (pid_of (0xE0 OR ucast (drop_bit 8 pid)) (ucast pid)) n = bit pid n"
    using hi \<open>n < LENGTH(16)\<close> by (cases "n < 8") (simp_all only: pid_of_def bit_simps f e0, auto)
qed

text \<open>A complete section that starts in one packet, with stuffing behind it.\<close>

lemma length_section: "length hdr = 5 \<Longrightarrow> length crc = 4 \<Longrightarrow> length (psi_section t hdr body crc) = length body + 12"
  by (simp add: psi_section_def enc12_def)

lemma psi_section_fields:
  assumes "length body + 9 < 4096"
  shows "len12 (psi_section t hdr body crc ! 1) (psi_section t hdr body crc ! 2) = length body + 9"
    "psi_section t hdr body crc ! 0 = t"
  using len12_enc [of "0xB0" "length body + 9"] assms by (simp_all add: psi_section_def enc12_def)

lemma psiSection_section:
  assumes "length hdr = 5" "length crc = 4" "length body + 9 < 4096"
  shows "psiSection buf ([0] @ psi_section t hdr body crc @ stuffing) True = Some (Some (psi_section t hdr body crc), [])"
proof -
  define sec where "sec = psi_section t hdr body crc"
  have len: "length sec = length body + 12" using length_section [OF assms(1,2)] by (simp add: sec_def)
  have "idx (sec @ stuffing) 1 = Some (sec ! 1)" "idx (sec @ stuffing) 2 = Some (sec ! 2)"
    using len by (simp_all add: nth_append)
  moreover have "slice (sec @ stuffing) 0 (3 + len12 (sec ! 1) (sec ! 2)) = Some sec"
    using len psi_section_fields(1) [OF assms(3)] by (simp add: sec_def)
  ultimately have "psi_complete (sec @ stuffing) = Some (Some sec, [])"
    using len psi_section_fields(1) [OF assms(3), of t hdr crc] by (simp add: psi_complete_def sec_def [symmetric])
  then show ?thesis by (simp add: psiSection_def sec_def)
qed

lemma psiBody_section:
  assumes "length hdr = 5" "length crc = 4" "length body + 9 < 4096"
  shows "psiBody (psi_section t hdr body crc) t' = Some (if t' = t then Some body else None)"
proof -
  define sec where "sec = psi_section t hdr body crc"
  have len: "length sec = length body + 12" using length_section [OF assms(1,2)] by (simp add: sec_def)
  then have ix: "idx sec 0 = Some t" "idx sec 1 = Some (sec ! 1)" "idx sec 2 = Some (sec ! 2)"
    using psi_section_fields(2) [OF assms(3)] by (auto simp: idx_def sec_def)
  have "slice sec 8 (3 + len12 (sec ! 1) (sec ! 2) - 4) = Some body"
    using assms psi_section_fields(1) [OF assms(3), of t hdr crc] len
    by (simp add: sec_def) (simp add: psi_section_def enc12_def)
  then show ?thesis
    using len psi_section_fields(1) [OF assms(3), of t hdr crc]
    by (auto simp: psiBody_def sec_def [symmetric] ix Let_def)
qed

lemma pat_loop_entries:
  assumes "\<forall>(n, p)\<in>set ps. take_bit 13 p = p" "length pre = i"
  shows "pat_loop (pre @ concat (map enc_program ps)) i = Some (map_option snd (find (\<lambda>(n, p). n \<noteq> 0) ps))"
  using assms
proof (induction ps arbitrary: pre i)
  case Nil
  then show ?case by (simp add: pat_loop.simps)
next
  case (Cons x ps)
  obtain n p where x: "x = (n, p)" by (cases x)
  have "pat_loop ((pre @ enc_program x) @ concat (map enc_program ps)) (i + 4)
      = Some (map_option snd (find (\<lambda>(n, p). n \<noteq> 0) ps))"
    using Cons.prems by (intro Cons.IH) (auto simp: x enc_entry)
  moreover have "take_bit 13 p = p" using Cons.prems x by simp
  ultimately show ?case
    using Cons.prems(2) pid_of_enc [of p]
    by (auto simp: pat_loop.simps [of _ i] x enc_entry nth_append)
qed

lemma pmt_loop_entries:
  assumes "\<forall>(ty, p, info)\<in>set es. take_bit 13 p = p \<and> length info < 4096" "length pre = i"
  shows "pmt_loop (pre @ concat (map enc_es es)) i saw = Some (case find (\<lambda>e. fst e = streamTypeAAC) es of
     Some e \<Rightarrow> Inl (fst (snd e))
   | None \<Rightarrow> Inr (saw \<or> (\<exists>e\<in>set es. fst e \<in> {streamTypeMP3a, streamTypeMP3b, streamTypeLATM})))"
  using assms
proof (induction es arbitrary: pre i saw)
  case Nil
  then show ?case by (simp add: pmt_loop.simps)
next
  case (Cons x es)
  obtain ty p info where x: "x = (ty, p, info)" by (cases x)
  define body where "body = pre @ concat (map enc_es (x # es))"
  have b: "take_bit 13 p = p" "length info < 4096" using Cons.prems x by auto
  have IH: "pmt_loop body (i + 5 + length info) saw' = Some (case find (\<lambda>e. fst e = streamTypeAAC) es of
     Some e \<Rightarrow> Inl (fst (snd e))
   | None \<Rightarrow> Inr (saw' \<or> (\<exists>e\<in>set es. fst e \<in> {streamTypeMP3a, streamTypeMP3b, streamTypeLATM})))" for saw'
    using Cons.IH [of "pre @ enc_es x" "i + 5 + length info" saw'] Cons.prems
    by (simp add: body_def x enc_entry)
  have ix: "idx body i = Some ty" "idx body (i + 1) = Some (0xE0 OR ucast (drop_bit 8 p))" "idx body (i + 2) = Some (ucast p)"
    "idx body (i + 3) = Some (0xF0 OR word_of_nat (length info div 256))" "idx body (i + 4) = Some (word_of_nat (length info))"
    "i + 5 \<le> length body"
    using Cons.prems(2) by (simp_all add: body_def x enc_entry idx_def nth_append)
  have "pmt_loop body i saw = (if ty = streamTypeAAC then Some (Inl p)
      else pmt_loop body (i + 5 + length info) (saw \<or> ty \<in> {streamTypeMP3a, streamTypeMP3b, streamTypeLATM}))"
    using pid_of_enc [OF b(1)] len12_enc [of "0xF0" "length info"] b(2)
    unfolding pmt_loop.simps [of body i] ix(1-5) by (auto simp: ix(6) Let_def)
  then show ?case unfolding body_def [symmetric] by (auto simp: IH x split: option.split)
qed

lemma length_programs: "length (concat (map enc_program ps)) = 4 * length ps"
  by (induction ps) (simp_all add: enc_entry split_paired_all)

lemma parsePAT_section:
  assumes "length hdr = 5" "length crc = 4" "\<forall>(n, p)\<in>set ps. take_bit 13 p = p" "length ps \<le> 1000"
  shows "parsePAT d (psi_section 0x00 hdr (concat (map enc_program ps)) crc) =
      Some (case find (\<lambda>(n, p). n \<noteq> 0) ps of None \<Rightarrow> d | Some (n, p) \<Rightarrow> d\<lparr>pmtPID := p, havePMT := True\<rparr>)"
proof -
  have "psiBody (psi_section 0x00 hdr (concat (map enc_program ps)) crc) 0x00 = Some (Some (concat (map enc_program ps)))"
    using psiBody_section [OF assms(1,2)] assms(4) length_programs [of ps] by simp
  then show ?thesis
    using pat_loop_entries [OF assms(3), of "[]" 0] by (auto simp: parsePAT_def split: option.split)
qed

lemma pmt_info_short:
  assumes "length (concat (map enc_es es)) < 4096" "e \<in> set es"
  shows "length (snd (snd e)) < 4096"
proof -
  obtain ty p info where e: "e = (ty, p, info)" by (cases e)
  have "length (enc_es e) \<le> length (concat (map enc_es es))"
    using member_le_sum_list [of "length (enc_es e)" "map length (map enc_es es)"] assms(2)
    by (auto simp: length_concat image_image)
  then show ?thesis using assms(1) by (simp add: e enc_entry)
qed

lemma parsePMT_section:
  assumes "length hdr = 5" "length crc = 4" "length pcr = 2" "\<forall>(ty, p, info)\<in>set es. take_bit 13 p = p"
    and "length (pmt_body pcr descr es) + 9 < 4096"
  shows "parsePMT d (psi_section 0x02 hdr (pmt_body pcr descr es) crc) =
      Some (case find (\<lambda>e. fst e = streamTypeAAC) es of
          Some e \<Rightarrow> (d\<lparr>audioPID := fst (snd e), haveAudio := True\<rparr>, None)
        | None \<Rightarrow> (d, if \<not> haveAudio d \<and> (\<exists>e\<in>set es. fst e \<in> {streamTypeMP3a, streamTypeMP3b, streamTypeLATM})
                       then Some ErrUnsupportedCodec else None))"
proof -
  define body where "body = pmt_body pcr descr es"
  have len: "length descr < 4096" "length (concat (map enc_es es)) < 4096"
    using assms(5) by (simp_all add: pmt_body_def enc12_def)
  have info: "\<forall>(ty, p, info)\<in>set es. take_bit 13 p = p \<and> length info < 4096"
    using assms(4) pmt_info_short [OF len(2)] by fastforce
  have b: "psiBody (psi_section 0x02 hdr body crc) 0x02 = Some (Some body)"
    using psiBody_section [OF assms(1,2)] assms(5) by (simp add: body_def)
  have ix: "idx body 2 = Some (0xF0 OR word_of_nat (length descr div 256))" "idx body 3 = Some (word_of_nat (length descr))"
    "\<not> length body < 4"
    using assms(3) by (simp_all add: body_def pmt_body_def enc12_def idx_def nth_append)
  have "pmt_loop body (4 + length descr) False = Some (case find (\<lambda>e. fst e = streamTypeAAC) es of
     Some e \<Rightarrow> Inl (fst (snd e))
   | None \<Rightarrow> Inr (\<exists>e\<in>set es. fst e \<in> {streamTypeMP3a, streamTypeMP3b, streamTypeLATM}))"
    using pmt_loop_entries [OF info, of "pcr @ enc12 0xF0 (length descr) @ descr" "4 + length descr" False] assms(3)
    by (simp add: body_def pmt_body_def enc12_def cong: option.case_cong)
  then show ?thesis
    using len12_enc [OF _ len(1), of "0xF0"]
    unfolding body_def [symmetric] parsePMT_def b by (auto simp: ix split: option.split)
qed

text \<open>
  C24. The program tables are read as they are written. From a PAT section the demuxer takes the PID of
  the first program whose number is not zero, and from a PMT section the PID of the first AAC stream,
  whatever descriptors surround it; a PMT that announces other audio but no AAC is an unsupported codec
  unless an AAC stream is already known, and one without audio changes nothing.
\<close>

theorem psi_tables:
  assumes "length hdr = 5" "length crc = 4"
    and "\<forall>(n, p)\<in>set ps. take_bit 13 p = p" "length ps \<le> 1000"
    and "length pcr = 2" "\<forall>(ty, p, info)\<in>set es. take_bit 13 p = p" "length (pmt_body pcr descr es) + 9 < 4096"
  shows "parsePAT d (psi_section 0x00 hdr (concat (map enc_program ps)) crc) =
      Some (case find (\<lambda>(n, p). n \<noteq> 0) ps of None \<Rightarrow> d | Some (n, p) \<Rightarrow> d\<lparr>pmtPID := p, havePMT := True\<rparr>)
    \<and> parsePMT d (psi_section 0x02 hdr (pmt_body pcr descr es) crc) =
      Some (case find (\<lambda>e. fst e = streamTypeAAC) es of
          Some e \<Rightarrow> (d\<lparr>audioPID := fst (snd e), haveAudio := True\<rparr>, None)
        | None \<Rightarrow> (d, if \<not> haveAudio d \<and> (\<exists>e\<in>set es. fst e \<in> {streamTypeMP3a, streamTypeMP3b, streamTypeLATM})
                       then Some ErrUnsupportedCodec else None))"
  using parsePAT_section [OF assms(1-4)] parsePMT_section [OF assms(1,2,5-7)] by blast

theorem psi_tables_witness:
  "parsePMT newTSDemux (psi_section 0x02 [0, 1, 0xC1, 0, 0] (pmt_body [0xE1, 0] [] [(0x1B, 0x100, []), (0x0F, 0x101, [0x0A])]) [1, 2, 3, 4])
     = Some (newTSDemux\<lparr>audioPID := 0x101, haveAudio := True\<rparr>, None)"
  using psi_tables [of "[0, 1, 0xC1, 0, 0]" "[1, 2, 3, 4]" "[(1, 0x1000)]" "[0xE1, 0]"
      "[(0x1B, 0x100, []), (0x0F, 0x101, [0x0A])]" "[]" newTSDemux]
  by (simp add: pmt_body_def enc_entry enc12_def take_bit_eq_mask mask_eq_exp_minus_1 caps)

section \<open>Transport packets\<close>

text \<open>A packet with an optional adaptation field, as a multiplexer writes it.\<close>

definition ts_packet :: "u16 \<Rightarrow> bool \<Rightarrow> byte \<Rightarrow> bytes option \<Rightarrow> bytes \<Rightarrow> bytes" where
  "ts_packet pid pusi cc af payload =
     [0x47, (if pusi then 0x40 else 0) OR ucast (drop_bit 8 pid), ucast pid, (if af = None then 0x10 else 0x30) OR cc]
     @ (case af of None \<Rightarrow> [] | Some f \<Rightarrow> word_of_nat (length f) # f) @ payload"

text \<open>What makes it one packet: 188 bytes, a payload, a 13-bit PID, a 4-bit counter and no announced splice.\<close>

definition packet_ok :: "u16 \<Rightarrow> byte \<Rightarrow> bytes option \<Rightarrow> bytes \<Rightarrow> bool" where
  "packet_ok pid cc af payload \<longleftrightarrow> length (ts_packet pid False cc af payload) = 188 \<and> payload \<noteq> []
     \<and> take_bit 13 pid = pid \<and> take_bit 4 cc = cc
     \<and> (\<forall>f. af = Some f \<longrightarrow> f = [] \<or> f ! 0 AND 0x80 = 0)"

lemma small_and_zero:
  fixes x y :: "'a::len word"
  assumes "take_bit k x = x" "take_bit k y = 0"
  shows "x AND y = 0"
proof (rule bit_eqI)
  fix n
  have "bit (take_bit k x) n \<longleftrightarrow> bit x n" "\<not> bit (take_bit k y) n" by (simp_all add: assms)
  then show "bit (x AND y) n = bit 0 n" by (auto simp: bit_simps)
qed

lemma pid_byte:
  fixes pid :: u16
  assumes "take_bit 13 pid = pid"
  shows "take_bit 5 (ucast (drop_bit 8 pid) :: byte) = ucast (drop_bit 8 pid)"
proof (rule bit_word_eqI)
  fix n :: nat
  assume n: "n < LENGTH(8)"
  have "n + 8 < 13" if "bit pid (n + 8)" using assms that by (metis bit_take_bit_iff)
  then show "bit (take_bit 5 (ucast (drop_bit 8 pid) :: byte)) n = bit (ucast (drop_bit 8 pid) :: byte) n"
    using n by (auto simp: bit_simps add.commute)
qed

lemma byte1_fields:
  fixes pid :: u16 and pusi :: bool
  assumes "take_bit 13 pid = pid"
  defines "b \<equiv> ((if pusi then 0x40 else 0) OR ucast (drop_bit 8 pid) :: byte)"
  shows "b AND 0x80 = 0" "b AND 0x40 \<noteq> 0 \<longleftrightarrow> pusi" "pid_of b (ucast pid) = pid"
proof -
  define hi :: byte where "hi = ucast (drop_bit 8 pid)"
  note sm = small_and_zero [OF pid_byte [OF assms(1)], folded hi_def]
  have z: "hi AND 0x80 = 0" "hi AND 0x40 = 0"
    by (rule sm; simp add: take_bit_eq_mask mask_eq_exp_minus_1)+
  show "b AND 0x80 = 0" "b AND 0x40 \<noteq> 0 \<longleftrightarrow> pusi"
    unfolding b_def hi_def [symmetric] by (simp_all add: bit.conj_disj_distrib2 z)
  have "(0xE0 OR hi) AND 0x1F = b AND 0x1F"
    unfolding b_def hi_def [symmetric] by (simp add: bit.conj_disj_distrib2)
  then show "pid_of b (ucast pid) = pid"
    using pid_of_enc [OF assms(1)] by (simp add: pid_of_def hi_def [symmetric])
qed

lemma byte3_fields:
  fixes cc :: byte and none :: bool
  assumes "take_bit 4 cc = cc"
  defines "b \<equiv> ((if none then 0x10 else 0x30) OR cc :: byte)"
  shows "b AND 0xC0 = 0" "b AND 0x0F = cc" "drop_bit 4 b AND 0x03 = (if none then 1 else 3)"
proof -
  note sm = small_and_zero [OF assms(1)]
  have z: "cc AND 0xC0 = 0" by (rule sm) (simp add: take_bit_eq_mask mask_eq_exp_minus_1)
  then show "b AND 0xC0 = 0" unfolding b_def by (simp add: bit.conj_disj_distrib2)
  have "cc AND 0x0F = cc" using assms(1) by (simp add: take_bit_eq_mask mask_eq_exp_minus_1)
  then show "b AND 0x0F = cc" unfolding b_def by (simp add: bit.conj_disj_distrib2)
  have "drop_bit 4 cc = 0" using assms(1) by (metis drop_bit_take_bit diff_self_eq_0 take_bit_0)
  then show "drop_bit 4 b AND 0x03 = (if none then 1 else 3)" unfolding b_def by simp
qed

lemma ts_packet_fields:
  fixes pusi :: bool
  assumes "packet_ok pid cc af payload"
  defines "pkt \<equiv> ts_packet pid pusi cc af payload"
  shows "length pkt = 188" "pkt ! 0 = tsSync" "pkt ! 1 AND 0x80 = 0" "pkt ! 3 AND 0xC0 = 0" "pkt ! 3 AND 0x0F = cc"
    "pkt ! 1 AND 0x40 \<noteq> 0 \<longleftrightarrow> pusi" "pid_of (pkt ! 1) (pkt ! 2) = pid"
    "tsPayload pkt = Some (Some payload)" "tsDiscIndicator pkt = Some False"
proof -
  note ok = assms(1) [unfolded packet_ok_def]
  show len: "length pkt = 188" using ok by (simp add: pkt_def ts_packet_def)
  show "pkt ! 0 = tsSync" by (simp add: pkt_def ts_packet_def caps)
  have b1: "pkt ! 1 = (if pusi then 0x40 else 0) OR ucast (drop_bit 8 pid)" "pkt ! 2 = ucast pid"
    and b3: "pkt ! 3 = (if af = None then 0x10 else 0x30) OR cc"
    by (simp_all add: pkt_def ts_packet_def)
  show "pkt ! 1 AND 0x80 = 0" "pkt ! 1 AND 0x40 \<noteq> 0 \<longleftrightarrow> pusi" "pid_of (pkt ! 1) (pkt ! 2) = pid"
    unfolding b1 using byte1_fields ok by blast+
  show "pkt ! 3 AND 0xC0 = 0" "pkt ! 3 AND 0x0F = cc"
    unfolding b3 using byte3_fields ok by blast+
  have afc: "drop_bit 4 (pkt ! 3) AND 0x03 = (if af = None then 1 else 3)"
    unfolding b3 using byte3_fields(3) ok by blast
  show "tsPayload pkt = Some (Some payload)"
  proof (cases af)
    case None
    then show ?thesis using len afc by (simp add: tsPayload_def) (simp add: pkt_def ts_packet_def)
  next
    case (Some f)
    have f: "length f + length payload = 183" using len Some by (simp add: pkt_def ts_packet_def)
    then have lf: "length f < 183" using ok by (cases payload) auto
    then have "unat (pkt ! 4) = length f"
      using Some unat_word_of_nat_small [of "length f", where ?'a = 8] by (simp add: pkt_def ts_packet_def)
    moreover have "drop (5 + length f) pkt = payload" using Some by (simp add: pkt_def ts_packet_def eval_nat_numeral)
    ultimately show ?thesis using len afc Some lf f by (simp add: tsPayload_def caps)
  qed
  show "tsDiscIndicator pkt = Some False"
  proof (cases af)
    case None
    then show ?thesis using len afc by (simp add: tsDiscIndicator_def)
  next
    case (Some f)
    have "length f < 183" using len Some ok by (cases payload) (auto simp: pkt_def ts_packet_def)
    then have "unat (pkt ! 4) = length f"
      using Some unat_word_of_nat_small [of "length f", where ?'a = 8] by (simp add: pkt_def ts_packet_def)
    then have n: "pkt ! 4 = 0 \<longleftrightarrow> f = []" by (metis length_0_conv unat_eq_zero)
    have "pkt ! 5 = f ! 0" if "f \<noteq> []" using that Some by (simp add: pkt_def ts_packet_def nth_append)
    then show ?thesis using len afc Some n ok by (auto simp: tsDiscIndicator_def)
  qed
qed

section \<open>The multiplex\<close>

text \<open>
  What a multiplexer interleaves: the start of a PES packet with its header, a continuation, each sent
  once or, as the standard permits, twice, and packets of other PIDs.
\<close>

datatype mux_item =
    Pes bool "bytes option" bytes bytes bytes
  | Cont bool "bytes option" bytes
  | Foreign bytes

definition pes_header :: "bytes \<Rightarrow> bytes \<Rightarrow> bytes" where
  "pes_header fixed opt = [0, 0, 1] @ fixed @ [word_of_nat (length opt)] @ opt"

fun mux :: "u16 \<Rightarrow> byte \<Rightarrow> mux_item list \<Rightarrow> bytes list" where
  "mux a cc [] = []"
| "mux a cc (Pes twice af fixed opt es # is) =
     (let pkt = ts_packet a True cc af (pes_header fixed opt @ es)
      in (if twice then [pkt, pkt] else [pkt]) @ mux a ((cc + 1) AND 0x0F) is)"
| "mux a cc (Cont twice af es # is) =
     (let pkt = ts_packet a False cc af es
      in (if twice then [pkt, pkt] else [pkt]) @ mux a ((cc + 1) AND 0x0F) is)"
| "mux a cc (Foreign pkt # is) = pkt # mux a cc is"

fun item_es :: "mux_item \<Rightarrow> bytes" where
  "item_es (Pes twice af fixed opt es) = es"
| "item_es (Cont twice af es) = es"
| "item_es (Foreign pkt) = []"

text \<open>A packet that is neither of the tables nor audio: well formed, not scrambled, of another PID.\<close>

definition foreign :: "u16 \<Rightarrow> u16 \<Rightarrow> bytes \<Rightarrow> bool" where
  "foreign m a pkt \<longleftrightarrow> length pkt = 188 \<and> pkt ! 0 = tsSync \<and> pkt ! 3 AND 0xC0 = 0
     \<and> pid_of (pkt ! 1) (pkt ! 2) \<notin> {patPID, m, a}"

fun item_ok :: "u16 \<Rightarrow> u16 \<Rightarrow> mux_item \<Rightarrow> bool" where
  "item_ok m a (Pes twice af fixed opt es) \<longleftrightarrow>
     packet_ok a 0 af (pes_header fixed opt @ es) \<and> length fixed = 5 \<and> length opt < 256"
| "item_ok m a (Cont twice af es) \<longleftrightarrow> packet_ok a 0 af es"
| "item_ok m a (Foreign pkt) \<longleftrightarrow> foreign m a pkt"

text \<open>The demuxer tuned to an audio PID, in the middle of a clean stream.\<close>

definition tuned :: "u16 \<Rightarrow> u16 \<Rightarrow> ts_demux \<Rightarrow> bool" where
  "tuned m a d \<longleftrightarrow> havePMT d \<and> pmtPID d = m \<and> haveAudio d \<and> audioPID d = a
     \<and> \<not> pesDropping d \<and> pesHdrSkip d = 0 \<and> accumGaps d = 0 \<and> a \<notin> {patPID, m, nullPID}"

definition next_cc :: "byte \<Rightarrow> ts_demux \<Rightarrow> bool" where
  "next_cc cc d \<longleftrightarrow> haveCC d \<longrightarrow> cc = (audioCC d + 1) AND 0x0F"

interpretation ts_clean: compressed_framer pair_Feed ts_next "apfst adts_Compact" "apfst adts_SetEOF" "apfst adts_Finish"
    "\<lambda>fa. as_ended (fst fa)" "\<lambda>fa. adts_backlog (fst fa) = 0" "\<lambda>fa. adts_at (fst fa)" adts_payload
proof (unfold_locales, goal_cases)
  case (2 fa fs q)
  then show ?case using adts_next_at [OF 2] by (fastforce simp: ts_next_def split: option.splits)
qed (use adts_clean.feed_at adts_clean.compact_at adts_clean.set_eof_at adts_clean.finish_at in \<open>auto simp: pair_Feed_def\<close>)

lemma ts_feed_at:
  assumes "adts_at (framer d) fs (es @ q)"
  shows "\<exists>gs hs s a. fs = gs @ hs \<and> ts_feed d es = Some (map adts_payload gs, d\<lparr>framer := s, asc := a\<rparr>) \<and> adts_at s hs q"
proof (cases "es = []")
  case True
  then show ?thesis using assms
    by (intro exI [of _ "[]"] exI [of _ fs] exI [of _ "framer d"] exI [of _ "asc d"]) (simp add: ts_feed_def)
next
  case False
  have "adts_at (adts_Feed (framer d) es) fs q" using adts_clean.feed_at [OF assms] .
  then obtain gs hs s a where "fs = gs @ hs"
      "drain_loop ts_next (adts_Feed (framer d) es, asc d) [] = Some (map adts_payload gs, s, a)" "adts_at s hs q"
    using ts_clean.drain_loop_at [of "(adts_Feed (framer d) es, asc d)" fs q "[]"] by auto
  then show ?thesis
    using False adts_clean.compact_at [of s hs q]
    by (intro exI [of _ gs] exI [of _ hs] exI [of _ "adts_Compact s"] exI [of _ a]) (simp add: ts_feed_def)
qed

lemma ts_end_at:
  assumes "adts_at (framer d) fs []"
  shows "\<exists>s a. ts_end d = Some (map adts_payload fs, d\<lparr>framer := s, asc := a\<rparr>) \<and> adts_at s [] []"
proof -
  have "adts_at (adts_SetEOF (framer d)) fs []" "as_ended (adts_SetEOF (framer d))"
    using adts_clean.set_eof_at [OF assms] by auto
  then obtain s a where "drain_loop ts_next (adts_SetEOF (framer d), asc d) [] = Some (map adts_payload fs, s, a)"
      "adts_at s [] []" "adts_backlog s = 0"
    using ts_clean.drain_loop_at [of "(adts_SetEOF (framer d), asc d)" fs "[]" "[]"] by auto
  then show ?thesis using adts_clean.finish_at [of s] by (auto simp: ts_end_def)
qed

lemma packet_ok_cc: "packet_ok a 0 af p \<Longrightarrow> take_bit 4 cc = cc \<Longrightarrow> packet_ok a cc af p"
  by (simp add: packet_ok_def ts_packet_def)

lemma pes_feed:
  assumes "tuned m a d"
  shows "length fixed = 5 \<Longrightarrow> length opt < 256 \<Longrightarrow> handlePES d (pes_header fixed opt @ es) True = ts_feed d es"
    "handlePES d es False = ts_feed d es"
proof -
  show "handlePES d es False = ts_feed d es" using assms by (simp add: handlePES_def tuned_def)
  assume len: "length fixed = 5" "length opt < 256"
  define p where "p = pes_header fixed opt @ es"
  have "length p = 9 + length opt + length es" using len by (simp add: p_def pes_header_def)
  moreover have "idx p 0 = Some 0" "idx p 1 = Some 0" "idx p 2 = Some 1" "idx p 8 = Some (word_of_nat (length opt))"
    using len by (simp_all add: p_def pes_header_def idx_def nth_append)
  moreover have "unat (word_of_nat (length opt) :: byte) = length opt"
    using len unat_word_of_nat_small [of "length opt", where ?'a = 8] by simp
  moreover have "drop (9 + length opt) p = es" using len by (simp add: p_def pes_header_def eval_nat_numeral)
  moreover have "d\<lparr>pesHdrSkip := 0, pesDropping := False\<rparr> = d" using assms by (simp add: tuned_def)
  ultimately show "handlePES d p True = ts_feed d es" by (simp add: handlePES_def del: idx_Some)
qed

lemma handlePacket_fields:
  assumes "packet_ok a cc af payload" "tuned m a d"
  shows "handlePacket d (ts_packet a pusi cc af payload) = map_option (\<lambda>(aus, d'). (aus, d', None)) (audioPacket d cc payload pusi)"
proof -
  define pkt where "pkt = ts_packet a pusi cc af payload"
  note f = ts_packet_fields [OF assms(1), of pusi, folded pkt_def]
  have ix: "idx pkt 1 = Some (pkt ! 1)" "idx pkt 2 = Some (pkt ! 2)" "idx pkt 3 = Some (pkt ! 3)" using f(1) by simp_all
  have t: "haveAudio d" "audioPID d = a" "a \<noteq> patPID" "\<not> (havePMT d \<and> a = pmtPID d)" "a \<noteq> nullPID"
    using assms(2) by (auto simp: tuned_def)
  have "routePacket d a pusi cc payload = map_option (\<lambda>(aus, d'). (aus, d', None)) (audioPacket d cc payload pusi)"
    using t by (cases "audioPacket d cc payload pusi") (auto simp: routePacket_def)
  then show ?thesis
    using f t unfolding pkt_def [symmetric] handlePacket_def ix
    by (cases "audioPacket d cc payload pusi") (auto simp: Let_def)
qed

text \<open>The delivery state that the packets of the multiplex keep.\<close>

definition mid_stream :: "u16 \<Rightarrow> u16 \<Rightarrow> ts_demux \<Rightarrow> adts_frame list \<Rightarrow> bytes \<Rightarrow> bool" where
  "mid_stream m a d fs q \<longleftrightarrow> tuned m a d \<and> adts_at (framer d) fs q"

lemma handlePacket_audio:
  assumes "packet_ok a cc af payload" "mid_stream m a d fs (es @ q)" "next_cc cc d"
    and pes: "\<And>d. tuned m a d \<Longrightarrow> handlePES d payload pusi = ts_feed d es"
  shows "\<exists>gs hs d'. fs = gs @ hs \<and> handlePacket d (ts_packet a pusi cc af payload) = Some (map adts_payload gs, d', None)
    \<and> mid_stream m a d' hs q \<and> haveCC d' \<and> audioCC d' = cc"
proof -
  have cc: "cc \<noteq> audioCC d" if "haveCC d"
  proof
    assume "cc = audioCC d"
    then have "even cc \<longleftrightarrow> even ((cc + 1) AND 0x0F)" using assms(3) that by (simp add: next_cc_def)
    then show False by (simp add: even_and_iff)
  qed
  define d1 where "d1 = d\<lparr>audioCC := cc, haveCC := True\<rparr>"
  have d1: "tuned m a d1" "adts_at (framer d1) fs (es @ q)" using assms(2) by (auto simp: d1_def mid_stream_def tuned_def)
  obtain gs hs s x where f: "fs = gs @ hs" "ts_feed d1 es = Some (map adts_payload gs, d1\<lparr>framer := s, asc := x\<rparr>)" "adts_at s hs q"
    using ts_feed_at [OF d1(2)] by blast
  have "audioPacket d cc payload pusi = handlePES d1 payload pusi"
    using cc assms(3) by (cases "handlePES d1 payload pusi") (auto simp: audioPacket_def d1_def next_cc_def)
  then have "handlePacket d (ts_packet a pusi cc af payload) = Some (map adts_payload gs, d1\<lparr>framer := s, asc := x\<rparr>, None)"
    using handlePacket_fields [OF assms(1), of m d] assms(2) pes [OF d1(1)] f(2) by (simp add: mid_stream_def)
  then show ?thesis
    using f d1(1) by (intro exI [of _ gs] exI [of _ hs] exI [of _ "d1\<lparr>framer := s, asc := x\<rparr>"])
      (simp add: mid_stream_def tuned_def d1_def)
qed

lemma handlePacket_again:
  assumes "packet_ok a cc af payload" "tuned m a d" "haveCC d" "audioCC d = cc"
  shows "handlePacket d (ts_packet a pusi cc af payload) = Some ([], d, None)"
  using handlePacket_fields [OF assms(1,2)] assms(3,4) by (simp add: audioPacket_def)

lemma handlePacket_foreign:
  assumes "foreign m a pkt" "tuned m a d"
  shows "handlePacket d pkt = Some ([], d, None)"
proof -
  have len: "length pkt = 188" using assms(1) by (simp add: foreign_def)
  obtain r where r: "tsPayload pkt = Some r" using tsPayload_total [OF len] by blast
  have t: "\<not> (haveAudio d \<and> pid_of (pkt ! 1) (pkt ! 2) = audioPID d)" "pid_of (pkt ! 1) (pkt ! 2) \<noteq> patPID"
      "\<not> (havePMT d \<and> pid_of (pkt ! 1) (pkt ! 2) = pmtPID d)" "pkt ! 3 AND 0xC0 = 0"
    using assms by (auto simp: foreign_def tuned_def)
  have "routePacket d (pid_of (pkt ! 1) (pkt ! 2)) pusi cc payload = Some ([], d, None)" for pusi cc payload
    using t by (auto simp: routePacket_def)
  then show ?thesis using t len r by (cases r) (auto simp: handlePacket_def Let_def)
qed

fun handle_all :: "ts_demux \<Rightarrow> bytes list \<Rightarrow> ts_result" where
  "handle_all d [] = Some ([], d, None)"
| "handle_all d (pkt # pkts) =
     (case handlePacket d pkt of
        None \<Rightarrow> None
      | Some (aus, d', Some e) \<Rightarrow> Some (aus, d', Some e)
      | Some (aus, d', None) \<Rightarrow>
        (case handle_all d' pkts of None \<Rightarrow> None | Some (aus', d'', e) \<Rightarrow> Some (aus @ aus', d'', e)))"

lemma demux_loop_packets:
  assumes "\<forall>pkt\<in>set pkts. length pkt = 188 \<and> pkt ! 0 = tsSync"
  shows "demux_loop d (pre @ concat pkts) (length pre) aus
    = (case handle_all d pkts of None \<Rightarrow> None | Some (aus', d', e) \<Rightarrow> Some (aus @ aus', d', e))"
  using assms
proof (induction pkts arbitrary: d pre aus)
  case Nil
  then show ?case by (simp add: demux_loop.simps caps)
next
  case (Cons pkt pkts)
  have len: "length pkt = 188" "pkt ! 0 = tsSync" "pkt \<noteq> []" using Cons.prems by auto
  have acc: "slice (pre @ concat (pkt # pkts)) (length pre) (length pre + tsPacketLen) = Some pkt"
      "idx (pre @ concat (pkt # pkts)) (length pre) = Some tsSync"
      "length pre + tsPacketLen \<le> length (pre @ concat (pkt # pkts))"
    using len by (simp_all add: caps idx_def nth_append)
  have IH: "demux_loop d' (pre @ concat (pkt # pkts)) (length pre + tsPacketLen) aus'
    = (case handle_all d' pkts of None \<Rightarrow> None | Some (aus'', d'', e) \<Rightarrow> Some (aus' @ aus'', d'', e))" for d' aus'
    using Cons.IH [of d' "pre @ pkt" aus'] Cons.prems len by (simp add: caps)
  show ?case
    unfolding demux_loop.simps [of d _ "length pre"] acc using acc(3)
    by (auto simp: IH [simplified] split: option.split)
qed

lemma handle_all_mux:
  assumes "list_all (item_ok m a) is" "take_bit 4 cc = cc" "next_cc cc d"
    and "mid_stream m a d fs (concat (map item_es is) @ q)"
  shows "\<exists>gs hs d'. fs = gs @ hs \<and> handle_all d (mux a cc is) = Some (map adts_payload gs, d', None)
    \<and> mid_stream m a d' hs q"
  using assms
proof (induction "is" arbitrary: cc d fs)
  case Nil
  then show ?case by (intro exI [of _ "[]"] exI [of _ fs] exI [of _ d]) simp
next
  case (Cons i "is")
  define cc' where "cc' = (cc + 1) AND 0x0F"
  have cc': "take_bit 4 cc' = cc'" by (simp add: cc'_def take_bit_eq_mask mask_eq_exp_minus_1)
  have audio: "\<exists>gs hs d'. fs = gs @ hs
      \<and> handle_all d ((if twice then [pkt, pkt] else [pkt]) @ mux a cc' is) = Some (map adts_payload gs, d', None)
      \<and> mid_stream m a d' hs q"
    if pkt: "pkt = ts_packet a pusi cc af payload" and ok: "packet_ok a cc af payload"
      and pes: "\<And>d. tuned m a d \<Longrightarrow> handlePES d payload pusi = ts_feed d (item_es i)"
    for pkt pusi af payload and twice :: bool
  proof -
    have mid: "mid_stream m a d fs (item_es i @ concat (map item_es is) @ q)" using Cons.prems(4) by simp
    obtain gs hs d1 where 1: "fs = gs @ hs" "handlePacket d pkt = Some (map adts_payload gs, d1, None)"
        "mid_stream m a d1 hs (concat (map item_es is) @ q)" "haveCC d1" "audioCC d1 = cc"
      using handlePacket_audio [OF ok mid Cons.prems(3) pes] pkt by blast
    have "next_cc cc' d1" using 1(5) by (simp add: next_cc_def cc'_def)
    then obtain gs' hs' d2 where 2: "hs = gs' @ hs'" "handle_all d1 (mux a cc' is) = Some (map adts_payload gs', d2, None)"
        "mid_stream m a d2 hs' q"
      using Cons.IH [OF _ cc' _ 1(3)] Cons.prems(1) by auto
    have "handlePacket d1 pkt = Some ([], d1, None)"
      using handlePacket_again [OF ok, of m d1] 1(3-5) pkt by (simp add: mid_stream_def)
    then show ?thesis using 1 2 by (intro exI [of _ "gs @ gs'"] exI [of _ hs'] exI [of _ d2]) simp
  qed
  have t: "tuned m a d" using Cons.prems(4) by (simp add: mid_stream_def)
  show ?case
  proof (cases i)
    case (Pes twice af fixed opt es)
    then have "packet_ok a cc af (pes_header fixed opt @ es)" using Cons.prems(1,2) packet_ok_cc by simp
    from audio [OF refl this] show ?thesis
      using Pes Cons.prems(1) pes_feed(1) by (simp add: cc'_def Let_def)
  next
    case (Cont twice af es)
    then have "packet_ok a cc af es" using Cons.prems(1,2) packet_ok_cc by simp
    from audio [OF refl this] show ?thesis
      using Cont pes_feed(2) by (simp add: cc'_def Let_def)
  next
    case (Foreign pkt)
    then have "handlePacket d pkt = Some ([], d, None)" using Cons.prems(1) by (intro handlePacket_foreign [OF _ t]) simp
    moreover have "\<exists>gs hs d'. fs = gs @ hs \<and> handle_all d (mux a cc is) = Some (map adts_payload gs, d', None)
        \<and> mid_stream m a d' hs q"
      using Cons.prems Foreign by (intro Cons.IH) simp_all
    moreover have "handle_all d (mux a cc (i # is)) = handle_all d (mux a cc is)"
      using calculation(1) Foreign by (auto split: option.split)
    ultimately show ?thesis by simp
  qed
qed

lemma mux_packets:
  assumes "list_all (item_ok m a) is" "take_bit 4 cc = cc" "pkt \<in> set (mux a cc is)"
  shows "length pkt = 188 \<and> pkt ! 0 = tsSync"
  using assms
proof (induction a cc "is" rule: mux.induct)
  case (2 a cc twice af fixed opt es "is")
  have "take_bit 4 ((cc + 1) AND 0x0F) = (cc + 1) AND 0x0F" by (simp add: take_bit_eq_mask mask_eq_exp_minus_1)
  moreover have "packet_ok a cc af (pes_header fixed opt @ es)" using 2(2,3) packet_ok_cc by simp
  ultimately show ?case using 2 ts_packet_fields(1,2) by (auto simp: Let_def split: if_splits)
next
  case (3 a cc twice af es "is")
  have "take_bit 4 ((cc + 1) AND 0x0F) = (cc + 1) AND 0x0F" by (simp add: take_bit_eq_mask mask_eq_exp_minus_1)
  moreover have "packet_ok a cc af es" using 3(2,3) packet_ok_cc by simp
  ultimately show ?case using 3 ts_packet_fields(1,2) by (auto simp: Let_def split: if_splits)
qed (auto simp: foreign_def)

text \<open>The packet of a table whose section starts in it and fits.\<close>

definition table_packet :: "u16 \<Rightarrow> byte \<Rightarrow> bytes option \<Rightarrow> bytes \<Rightarrow> bytes \<Rightarrow> bytes" where
  "table_packet pid cc af sec stuffing = ts_packet pid True cc af ([0] @ sec @ stuffing)"

lemma handlePacket_table:
  assumes "packet_ok pid cc af ([0] @ sec @ stuffing)" "\<not> haveAudio d" "pid \<noteq> nullPID"
  shows "handlePacket d (table_packet pid cc af sec stuffing) = routePacket d pid True cc ([0] @ sec @ stuffing)"
proof -
  define pkt where "pkt = ts_packet pid True cc af ([0] @ sec @ stuffing)"
  note f = ts_packet_fields [OF assms(1), of True, folded pkt_def]
  have ix: "idx pkt 1 = Some (pkt ! 1)" "idx pkt 2 = Some (pkt ! 2)" "idx pkt 3 = Some (pkt ! 3)" using f(1) by simp_all
  show ?thesis
    using f assms(2,3) unfolding table_packet_def pkt_def [symmetric] handlePacket_def ix
    by (cases "routePacket d pid True cc ([0] @ sec @ stuffing)") (auto simp: Let_def)
qed

lemma payload_short: "packet_ok pid cc af payload \<Longrightarrow> length payload \<le> 184"
  by (auto simp: packet_ok_def ts_packet_def)

lemma pat_acquires:
  assumes "length hdr = 5" "length crc = 4" "\<forall>(n, p)\<in>set ps. take_bit 13 p = p" "find (\<lambda>(n, p). n \<noteq> 0) ps = Some (n, m)"
    and pkt: "packet_ok patPID cc af ([0] @ psi_section 0 hdr (concat (map enc_program ps)) crc @ stuffing)" "\<not> haveAudio d"
  shows "handlePacket d (table_packet patPID cc af (psi_section 0 hdr (concat (map enc_program ps)) crc) stuffing)
    = Some ([], d\<lparr>patSec := [], pmtPID := m, havePMT := True\<rparr>, None)"
proof -
  have len: "4 * length ps + 13 \<le> 184"
    using payload_short [OF pkt(1)] length_section [OF assms(1,2)] by (simp add: length_programs)
  have "psiSection (patSec d) ([0] @ psi_section 0 hdr (concat (map enc_program ps)) crc @ stuffing) True
      = Some (Some (psi_section 0 hdr (concat (map enc_program ps)) crc), [])"
    using len by (intro psiSection_section assms(1,2)) (simp add: length_programs)
  moreover have "parsePAT (d\<lparr>patSec := []\<rparr>) (psi_section 0 hdr (concat (map enc_program ps)) crc)
      = Some (d\<lparr>patSec := [], pmtPID := m, havePMT := True\<rparr>)"
    using parsePAT_section [OF assms(1-3)] len assms(4) by simp
  moreover have "patPID \<noteq> nullPID" by (simp add: caps)
  ultimately show ?thesis using handlePacket_table [OF pkt] by (simp add: routePacket_def)
qed

lemma pmt_acquires:
  assumes "length hdr = 5" "length crc = 4" "length pcr = 2" "\<forall>(ty, p, info)\<in>set es. take_bit 13 p = p"
    and "find (\<lambda>e. fst e = streamTypeAAC) es = Some (ty, a, info)"
    and pkt: "packet_ok m cc af ([0] @ psi_section 2 hdr (pmt_body pcr descr es) crc @ stuffing)" "\<not> haveAudio d"
    and d: "havePMT d" "pmtPID d = m" "m \<notin> {patPID, nullPID}"
  shows "handlePacket d (table_packet m cc af (psi_section 2 hdr (pmt_body pcr descr es) crc) stuffing)
    = Some ([], d\<lparr>pmtSec := [], audioPID := a, haveAudio := True\<rparr>, None)"
proof -
  have len: "length (pmt_body pcr descr es) + 13 \<le> 184"
    using payload_short [OF pkt(1)] length_section [OF assms(1,2)] by simp
  have "psiSection (pmtSec d) ([0] @ psi_section 2 hdr (pmt_body pcr descr es) crc @ stuffing) True
      = Some (Some (psi_section 2 hdr (pmt_body pcr descr es) crc), [])"
    using len by (intro psiSection_section assms(1,2)) simp
  moreover have "parsePMT (d\<lparr>pmtSec := []\<rparr>) (psi_section 2 hdr (pmt_body pcr descr es) crc)
      = Some (d\<lparr>pmtSec := [], audioPID := a, haveAudio := True\<rparr>, None)"
    using parsePMT_section [OF assms(1-4)] len assms(5) by simp
  ultimately show ?thesis using handlePacket_table [OF pkt] d by (simp add: routePacket_def)
qed

text \<open>
  C25. End to end, demultiplexing inverts multiplexing. A segment that starts with a PAT and a PMT, each
  in one packet and with any other programs, streams and descriptors in them, and goes on with the
  packets of a clean ADTS stream, cut anywhere into PES packets and continuations with any adaptation
  fields, each packet once or twice, among packets of other PIDs, is delivered exactly: after the
  segment and the end of the stream every access unit has come out once, in order, with its duration,
  and no gap is counted.
\<close>

theorem ts_delivers:
  assumes "length hdr = 5" "length crc = 4" "length pcr = 2"
    and ps: "\<forall>(n, p)\<in>set ps. take_bit 13 p = p" "find (\<lambda>(n, p). n \<noteq> 0) ps = Some (n, m)"
    and es: "\<forall>(ty, p, info)\<in>set es. take_bit 13 p = p" "find (\<lambda>e. fst e = streamTypeAAC) es = Some (ty, a, info)"
    and pat: "pat = psi_section 0 hdr (concat (map enc_program ps)) crc" "packet_ok patPID cc1 af1 ([0] @ pat @ st1)"
    and pmt: "pmt = psi_section 2 hdr (pmt_body pcr descr es) crc" "packet_ok m cc2 af2 ([0] @ pmt @ st2)"
    and pids: "m \<notin> {patPID, nullPID}" "a \<notin> {patPID, m, nullPID}"
    and "is": "list_all (item_ok m a) is" "take_bit 4 cc = cc"
    and fs: "adts_frames fs" "concat (map item_es is) = concat (map fst fs)"
  shows "\<exists>aus d aus' d'. demux newTSDemux (table_packet patPID cc1 af1 pat st1 @ table_packet m cc2 af2 pmt st2
        @ concat (mux a cc is)) False = Some (aus, d, None)
     \<and> ts_end d = Some (aus', d') \<and> aus @ aus' = map adts_payload fs \<and> ts_gapCount d' = 0"
proof -
  define pkts where "pkts = table_packet patPID cc1 af1 pat st1 # table_packet m cc2 af2 pmt st2 # mux a cc is"
  define d1 where "d1 = newTSDemux\<lparr>patSec := [], pmtPID := m, havePMT := True\<rparr>"
  define d2 where "d2 = d1\<lparr>pmtSec := [], audioPID := a, haveAudio := True\<rparr>"
  have "handlePacket newTSDemux (table_packet patPID cc1 af1 pat st1) = Some ([], d1, None)"
    unfolding d1_def pat(1) using pat assms ps
    by (intro pat_acquires) (simp_all add: newTSDemux_def)
  moreover have "handlePacket d1 (table_packet m cc2 af2 pmt st2) = Some ([], d2, None)"
    unfolding d2_def pmt(1) using pmt assms(1-3) es pids
    by (intro pmt_acquires) (simp_all add: d1_def newTSDemux_def)
  moreover have "mid_stream m a d2 fs (concat (map item_es is) @ [])"
    using pids fs by (simp add: mid_stream_def tuned_def d2_def d1_def newTSDemux_def adts_at_def
        adts_NewStream_def adts_inv_def)
  then obtain gs hs d where 1: "fs = gs @ hs" "handle_all d2 (mux a cc is) = Some (map adts_payload gs, d, None)" "mid_stream m a d hs []"
    using handle_all_mux [OF "is", of d2 fs "[]"] by (auto simp: next_cc_def d2_def d1_def newTSDemux_def)
  ultimately have all: "handle_all newTSDemux pkts = Some (map adts_payload gs, d, None)" by (simp add: pkts_def)
  have sync: "\<forall>pkt\<in>set pkts. length pkt = 188 \<and> pkt ! 0 = tsSync"
    using mux_packets [OF "is"] ts_packet_fields(1,2) [OF pat(2)] ts_packet_fields(1,2) [OF pmt(2)]
    by (auto simp: pkts_def table_packet_def)
  have "tsResync (concat pkts) = Some (Some 0)"
    using sync by (simp add: tsResync_def resync_from.simps [of _ 0] pkts_def caps idx_def nth_append)
  then have "demux newTSDemux (concat pkts) False = demux_loop newTSDemux (concat pkts) 0 []"
    by (simp add: demux_def newTSDemux_def)
  also have "\<dots> = Some (map adts_payload gs, d, None)"
    using demux_loop_packets [OF sync, of newTSDemux "[]" "[]"] all by simp
  finally have dm: "demux newTSDemux (concat pkts) False = Some (map adts_payload gs, d, None)" .
  obtain s x where "ts_end d = Some (map adts_payload hs, d\<lparr>framer := s, asc := x\<rparr>)" "adts_at s [] []"
    using ts_end_at [of d hs] 1(3) unfolding mid_stream_def by blast
  moreover have "accumGaps d = 0" using 1(3) by (simp add: mid_stream_def tuned_def)
  ultimately show ?thesis
    using dm 1(1) by (auto simp: pkts_def ts_gapCount_def adts_GapCount_def adts_at_def)
qed

theorem ts_delivers_witness:
  "\<exists>aus d aus' d'. demux newTSDemux
      (table_packet patPID 0 None (psi_section 0 [0, 1, 0xC1, 0, 0] (concat (map enc_program [(0, 0x10), (1, 0x1000)])) [1, 2, 3, 4]) (replicate 163 0xFF)
       @ table_packet 0x1000 0 None (psi_section 2 [0, 1, 0xC1, 0, 0] (pmt_body [0xE1, 1] [] [(0x1B, 0x100, []), (0x0F, 0x101, [])]) [1, 2, 3, 4]) (replicate 157 0xFF)
       @ concat (mux 0x101 15 [Pes True (Some (replicate 169 0)) [0xC0, 0, 0, 0x80, 0] [] (take 5 adts_sample),
           Cont False (Some (replicate 170 0)) (drop 5 adts_sample @ adts_sample)])) False = Some (aus, d, None)
   \<and> ts_end d = Some (aus', d') \<and> aus @ aus' = [([0xAA, 0xBB], 23219954), ([0xAA, 0xBB], 23219954)] \<and> ts_gapCount d' = 0"
proof -
  define h where "h = \<lparr>AudioObjectType = 2, SampleRateIndex = 4, AH_SampleRate = 44100,
    ChannelConfig = 2, AH_Channels = 2, AH_HeaderLen = 7, AH_FrameLen = 9, NumRawBlocks = 0, MPEG2 = False\<rparr>"
  have len: "length adts_sample = 9" by (simp add: adts_sample_def)
  have pay: "map adts_payload [(adts_sample, h), (adts_sample, h)] = [([0xAA, 0xBB], 23219954), ([0xAA, 0xBB], 23219954)]"
    by (simp add: adts_payload_def h_def adts_frameDuration_def caps) (simp add: adts_sample_def)
  have fs: "adts_frames [(adts_sample, h), (adts_sample, h)]"
    using adts_sample len by (simp add: adts_frames_def h_def)
  show ?thesis
    unfolding pay [symmetric]
    by (rule ts_delivers [where n = 1 and ty = "0x0F" and info = "[]" and pcr = "[0xE1, 1]" and descr = "[]"
          and es = "[(0x1B, 0x100, []), (0x0F, 0x101, [])]" and ps = "[(0, 0x10), (1, 0x1000)]"
          and hdr = "[0, 1, 0xC1, 0, 0]" and crc = "[1, 2, 3, 4]", OF _ _ _ _ _ _ _ refl _ refl _ _ _ _ _ fs])
      (simp_all add: take_bit_eq_mask mask_eq_exp_minus_1 caps packet_ok_def ts_packet_def psi_section_def enc12_def
        enc_entry pmt_body_def pes_header_def len)
qed

end
