(* ===== verification/Supervisor.thy ===== *)
theory Supervisor
  imports Prelude
begin

text \<open>
  The reconnecting supervisor of \<open>src/supervisor/supervisor.go\<close>; its backoff schedule is in theory Backoff. The supervising goroutine is a program counter that moves by one atomic
  action at a time, a check of the context, a section under the lock, or a call into user code, and
  \<open>Close\<close> and the cancellation of a \<open>Wait\<close> from other goroutines interleave with it anywhere. What the
  user-supplied functions return is not determined by the model.
\<close>

section \<open>Errors and states\<close>

text \<open>An error is the chain of sentinels it wraps; \<open>nil\<close> is \<open>None\<close>.\<close>

datatype sentinel = ErrClosed | ErrRedirect | Canceled | DeadlineExceeded | ErrNilSource | RunPanic | OtherError nat

type_synonym go_error = "sentinel list"

definition errors_Is :: "go_error option \<Rightarrow> sentinel \<Rightarrow> bool" where
  "errors_Is e t = (case e of None \<Rightarrow> False | Some chain \<Rightarrow> t \<in> set chain)"

definition DefaultRetryable :: "go_error option \<Rightarrow> bool" where
  "DefaultRetryable e =
     (if errors_Is e Canceled \<or> errors_Is e DeadlineExceeded \<or> errors_Is e ErrClosed \<or> errors_Is e ErrRedirect
      then False else True)"

datatype sup_state = StateConnecting | StateConnected | StateReconnecting | StateClosed | StateFailed

record state_change =
  SC_State :: sup_state
  SC_Attempt :: nat
  SC_Err :: "go_error option"
  SC_Backoff :: int

definition terminal :: "sup_state \<Rightarrow> bool" where
  "terminal s \<longleftrightarrow> s = StateClosed \<or> s = StateFailed"

section \<open>The machine\<close>

text \<open>
  Where the supervising goroutine is in \<open>run\<close>, \<open>loop\<close> and the functions they call. Sources are
  identified by numbers.
\<close>

datatype pc =
    LoopTop nat
  | InFactory nat
  | FactoryErr nat go_error
  | Judge nat "go_error option"
  | Retry nat "go_error option"
  | Sleeping nat
  | GotSource nat
  | Waiting nat
  | CaptureFinal nat "go_error option"
  | CloseSource nat "go_error option"
  | ClearCurrent "go_error option"
  | SessionOver "go_error option"
  | Finish "go_error option"
  | FinishClosed
  | SetState state_change pc
  | Emit state_change pc
  | Unwind
  | UnwindClose "nat option"
  | UnwindCancel
  | Return
  | CloseDone
  | Stopped

datatype once = NotStarted | InProgress | Completed

record 'i supervisor =
  sup_pc :: pc
  sup_state :: sup_state
  termErr :: "go_error option"
  current :: "nat option"
  lastSnapshot :: "'i option"
  cancelled :: bool
  closeOnce :: once
  sup_done :: bool
  live :: "nat list"
  trace :: "state_change list"

definition sup_New :: "'i supervisor" where
  "sup_New = \<lparr>sup_pc = LoopTop 0, sup_state = StateConnecting, termErr = None, current = None, lastSnapshot = None,
     cancelled = False, closeOnce = NotStarted, sup_done = False, live = [], trace = []\<rparr>"

definition change :: "sup_state \<Rightarrow> state_change" where
  "change s = \<lparr>SC_State = s, SC_Attempt = 0, SC_Err = None, SC_Backoff = 0\<rparr>"

text \<open>The sections under the lock in \<open>finish\<close> and \<open>finishClosed\<close>.\<close>

definition sup_finish :: "'i supervisor \<Rightarrow> go_error option \<Rightarrow> 'i supervisor" where
  "sup_finish s cause =
     (let e = (if termErr s = None then cause else termErr s);
          st = (if termErr s = None then StateFailed else StateClosed)
      in s\<lparr>termErr := e, sup_state := st, sup_pc := Emit ((change st)\<lparr>SC_Err := e\<rparr>) Return\<rparr>)"

definition sup_finishClosed :: "'i supervisor \<Rightarrow> 'i supervisor" where
  "sup_finishClosed s =
     (let e = (if termErr s = None then Some [Canceled] else termErr s)
      in s\<lparr>termErr := e, sup_state := StateClosed, sup_pc := Emit ((change StateClosed)\<lparr>SC_Err := e\<rparr>) Return\<rparr>)"

definition sup_setState :: "'i supervisor \<Rightarrow> state_change \<Rightarrow> pc \<Rightarrow> 'i supervisor" where
  "sup_setState s sc k = s\<lparr>sup_state := SC_State sc, sup_pc := Emit sc k\<rparr>"

definition sup_emit :: "'i supervisor \<Rightarrow> state_change \<Rightarrow> pc \<Rightarrow> 'i supervisor" where
  "sup_emit s sc k = s\<lparr>trace := trace s @ [sc], sup_pc := k\<rparr>"

definition sup_setCurrent :: "'i supervisor \<Rightarrow> nat \<Rightarrow> 'i supervisor" where
  "sup_setCurrent s src = s\<lparr>current := Some src\<rparr>"

definition sup_clearCurrent :: "'i supervisor \<Rightarrow> 'i supervisor" where
  "sup_clearCurrent s = s\<lparr>current := None\<rparr>"

text \<open>The final statistics and identity of the source, as it returned them.\<close>

definition sup_captureFinal :: "'i supervisor \<Rightarrow> 'i \<Rightarrow> 'i supervisor" where
  "sup_captureFinal s snapshot = s\<lparr>lastSnapshot := Some snapshot\<rparr>"

text \<open>The two actions of \<open>initiateShutdown\<close>: the cause under the lock, then the cancel.\<close>

definition shutdown_record :: "'i supervisor \<Rightarrow> go_error \<Rightarrow> 'i supervisor" where
  "shutdown_record s cause =
     s\<lparr>closeOnce := InProgress, termErr := (if termErr s = None then Some cause else termErr s)\<rparr>"

definition shutdown_cancel :: "'i supervisor \<Rightarrow> 'i supervisor" where
  "shutdown_cancel s = s\<lparr>closeOnce := Completed, cancelled := True\<rparr>"

text \<open>What other goroutines read: \<open>Wait\<close> once the run goroutine is done, and \<open>Stats\<close> and \<open>Info\<close>.\<close>

definition sup_Wait :: "'i supervisor \<Rightarrow> go_error option option" where
  "sup_Wait s = (if sup_done s then Some (termErr s) else None)"

definition sup_Stats :: "(nat \<Rightarrow> 'i) \<Rightarrow> 'i \<Rightarrow> 'i supervisor \<Rightarrow> 'i" where
  "sup_Stats source_stats zero s =
     (case current s of
        Some src \<Rightarrow> source_stats src
      | None \<Rightarrow> (case lastSnapshot s of None \<Rightarrow> zero | Some i \<Rightarrow> i))"

text \<open>
  One action of the supervising goroutine. \<open>retryable\<close> and \<open>delay\<close> are the configured policy and the schedule, with
  the random number already drawn. The factory, the source and the policy may also panic; a panic of
  \<open>OnState\<close> is recovered in \<open>emit\<close> and has no effect.
\<close>

inductive loop_step :: "(go_error option \<Rightarrow> bool) \<Rightarrow> (nat \<Rightarrow> int) \<Rightarrow> 'i supervisor \<Rightarrow> 'i supervisor \<Rightarrow> bool"
  for retryable delay where
  top_closed: "sup_pc s = LoopTop n \<Longrightarrow> cancelled s \<Longrightarrow> loop_step retryable delay s (s\<lparr>sup_pc := FinishClosed\<rparr>)"
| top_open: "sup_pc s = LoopTop n \<Longrightarrow> \<not> cancelled s \<Longrightarrow>
    loop_step retryable delay s (s\<lparr>sup_pc := SetState ((change StateConnecting)\<lparr>SC_Attempt := n\<rparr>) (InFactory n)\<rparr>)"
| factory_fails: "sup_pc s = InFactory n \<Longrightarrow> loop_step retryable delay s (s\<lparr>sup_pc := FactoryErr n e\<rparr>)"
| factory_nil: "sup_pc s = InFactory n \<Longrightarrow> loop_step retryable delay s (s\<lparr>sup_pc := FactoryErr n [ErrNilSource]\<rparr>)"
| factory_source: "sup_pc s = InFactory n \<Longrightarrow>
    loop_step retryable delay s (s\<lparr>live := src # live s, sup_pc := GotSource src\<rparr>)"
| factory_panics: "sup_pc s = InFactory n \<Longrightarrow> loop_step retryable delay s (s\<lparr>sup_pc := Unwind\<rparr>)"
| failed_closed: "sup_pc s = FactoryErr n e \<Longrightarrow> cancelled s \<Longrightarrow> loop_step retryable delay s (s\<lparr>sup_pc := FinishClosed\<rparr>)"
| failed_open: "sup_pc s = FactoryErr n e \<Longrightarrow> \<not> cancelled s \<Longrightarrow> loop_step retryable delay s (s\<lparr>sup_pc := Judge n (Some e)\<rparr>)"
| judge_fatal: "sup_pc s = Judge n e \<Longrightarrow> \<not> retryable e \<Longrightarrow> loop_step retryable delay s (s\<lparr>sup_pc := Finish e\<rparr>)"
| judge_retry: "sup_pc s = Judge n e \<Longrightarrow> retryable e \<Longrightarrow> loop_step retryable delay s (s\<lparr>sup_pc := Retry (n + 1) e\<rparr>)"
| judge_panics: "sup_pc s = Judge n e \<Longrightarrow> loop_step retryable delay s (s\<lparr>sup_pc := Unwind\<rparr>)"
| backoff: "sup_pc s = Retry n e \<Longrightarrow> loop_step retryable delay s (s\<lparr>sup_pc := SetState
      \<lparr>SC_State = StateReconnecting, SC_Attempt = n, SC_Err = e, SC_Backoff = delay n\<rparr> (Sleeping n)\<rparr>)"
| slept: "sup_pc s = Sleeping n \<Longrightarrow> loop_step retryable delay s (s\<lparr>sup_pc := LoopTop n\<rparr>)"
| sleep_cut: "sup_pc s = Sleeping n \<Longrightarrow> cancelled s \<Longrightarrow> loop_step retryable delay s (s\<lparr>sup_pc := FinishClosed\<rparr>)"
| connected: "sup_pc s = GotSource src \<Longrightarrow>
    loop_step retryable delay s ((sup_setCurrent s src)\<lparr>sup_pc := SetState (change StateConnected) (Waiting src)\<rparr>)"
| wait_returns: "sup_pc s = Waiting src \<Longrightarrow> loop_step retryable delay s (s\<lparr>sup_pc := CaptureFinal src e\<rparr>)"
| wait_panics: "sup_pc s = Waiting src \<Longrightarrow> loop_step retryable delay s (s\<lparr>sup_pc := Unwind\<rparr>)"
| captured: "sup_pc s = CaptureFinal src e \<Longrightarrow>
    loop_step retryable delay s ((sup_captureFinal s snapshot)\<lparr>sup_pc := CloseSource src e\<rparr>)"
| capture_panics: "sup_pc s = CaptureFinal src e \<Longrightarrow> loop_step retryable delay s (s\<lparr>sup_pc := Unwind\<rparr>)"
| source_closed: "sup_pc s = CloseSource src e \<Longrightarrow>
    loop_step retryable delay s (s\<lparr>live := remove1 src (live s), sup_pc := ClearCurrent e\<rparr>)"
| close_panics: "sup_pc s = CloseSource src e \<Longrightarrow> loop_step retryable delay s (s\<lparr>sup_pc := Unwind\<rparr>)"
| cleared: "sup_pc s = ClearCurrent e \<Longrightarrow> loop_step retryable delay s ((sup_clearCurrent s)\<lparr>sup_pc := SessionOver e\<rparr>)"
| over_closed: "sup_pc s = SessionOver e \<Longrightarrow> cancelled s \<Longrightarrow> loop_step retryable delay s (s\<lparr>sup_pc := FinishClosed\<rparr>)"
| over_open: "sup_pc s = SessionOver e \<Longrightarrow> \<not> cancelled s \<Longrightarrow> loop_step retryable delay s (s\<lparr>sup_pc := Judge 0 e\<rparr>)"
| finish: "sup_pc s = Finish e \<Longrightarrow> loop_step retryable delay s (sup_finish s e)"
| finish_closed: "sup_pc s = FinishClosed \<Longrightarrow> loop_step retryable delay s (sup_finishClosed s)"
| set_state: "sup_pc s = SetState sc k \<Longrightarrow> loop_step retryable delay s (sup_setState s sc k)"
| emit: "sup_pc s = Emit sc k \<Longrightarrow> loop_step retryable delay s (sup_emit s sc k)"
| unwind: "sup_pc s = Unwind \<Longrightarrow> loop_step retryable delay s ((sup_clearCurrent s)\<lparr>sup_pc := UnwindClose (current s)\<rparr>)"
| unwind_close: "sup_pc s = UnwindClose cur \<Longrightarrow> loop_step retryable delay s
    (s\<lparr>live := (case cur of None \<Rightarrow> live s | Some src \<Rightarrow> remove1 src (live s)), sup_pc := UnwindCancel\<rparr>)"
| unwind_cancel: "sup_pc s = UnwindCancel \<Longrightarrow>
    loop_step retryable delay s (s\<lparr>cancelled := True, sup_pc := Finish (Some [RunPanic])\<rparr>)"
| return: "sup_pc s = Return \<Longrightarrow> loop_step retryable delay s (s\<lparr>cancelled := True, sup_pc := CloseDone\<rparr>)"
| close_done: "sup_pc s = CloseDone \<Longrightarrow> loop_step retryable delay s (s\<lparr>sup_done := True, sup_pc := Stopped\<rparr>)"

text \<open>Another goroutine calls \<open>Close\<close>, or cancels the context of its \<open>Wait\<close>; only the first gets through.\<close>

inductive shutdown_step :: "'i supervisor \<Rightarrow> 'i supervisor \<Rightarrow> bool" where
  record_cause: "closeOnce s = NotStarted \<Longrightarrow> shutdown_step s (shutdown_record s cause)"
| cancel: "closeOnce s = InProgress \<Longrightarrow> shutdown_step s (shutdown_cancel s)"

definition sup_step :: "(go_error option \<Rightarrow> bool) \<Rightarrow> (nat \<Rightarrow> int) \<Rightarrow> 'i supervisor \<Rightarrow> 'i supervisor \<Rightarrow> bool" where
  "sup_step retryable delay s s' \<longleftrightarrow> loop_step retryable delay s s' \<or> shutdown_step s s'"

inductive sup_reach :: "(go_error option \<Rightarrow> bool) \<Rightarrow> (nat \<Rightarrow> int) \<Rightarrow> 'i supervisor \<Rightarrow> 'i supervisor \<Rightarrow> bool"
  for retryable delay and s0 :: "'i supervisor" where
  reach_refl: "sup_reach retryable delay s0 s0"
| reach_step: "sup_reach retryable delay s0 s \<Longrightarrow> sup_step retryable delay s s' \<Longrightarrow> sup_reach retryable delay s0 s'"

lemmas sup_defs = sup_finish_def sup_finishClosed_def sup_setState_def sup_emit_def sup_setCurrent_def
  sup_clearCurrent_def sup_captureFinal_def shutdown_record_def shutdown_cancel_def change_def Let_def

text \<open>An invariant of the steps holds in every reachable state.\<close>

lemma reach_invariant:
  assumes "sup_reach retryable delay s0 s" "P s0"
    and "\<And>s s'. P s \<Longrightarrow> loop_step retryable delay s s' \<Longrightarrow> P s'"
    and "\<And>s s'. P s \<Longrightarrow> shutdown_step s s' \<Longrightarrow> P s'"
  shows "P s"
  using assms(1)
proof (induction rule: sup_reach.induct)
  case (reach_step s s')
  then show ?case using assms(3,4) unfolding sup_step_def by blast
qed (rule assms(2))

text \<open>What the goroutine goes on with after a transition.\<close>

fun goes_on :: "pc \<Rightarrow> bool" where
  "goes_on (InFactory n) = True"
| "goes_on (Sleeping n) = True"
| "goes_on (Waiting src) = True"
| "goes_on _ = False"

fun pc_shape :: "pc \<Rightarrow> bool" where
  "pc_shape (SetState sc k) \<longleftrightarrow> goes_on k \<and> \<not> terminal (SC_State sc)"
| "pc_shape (Emit sc k) \<longleftrightarrow> (if k = Return then terminal (SC_State sc) else goes_on k \<and> \<not> terminal (SC_State sc))"
| "pc_shape _ = True"

section \<open>Sources do not leak\<close>

text \<open>The sources that are open where the goroutine is, and the one it has published.\<close>

fun pc_live :: "pc \<Rightarrow> nat list" where
  "pc_live (GotSource src) = [src]"
| "pc_live (Waiting src) = [src]"
| "pc_live (CaptureFinal src e) = [src]"
| "pc_live (CloseSource src e) = [src]"
| "pc_live (SetState sc k) = pc_live k"
| "pc_live (Emit sc k) = pc_live k"
| "pc_live (UnwindClose cur) = (case cur of None \<Rightarrow> [] | Some src \<Rightarrow> [src])"
| "pc_live _ = []"

fun pc_current :: "pc \<Rightarrow> nat option option" where
  "pc_current (Waiting src) = Some (Some src)"
| "pc_current (CaptureFinal src e) = Some (Some src)"
| "pc_current (CloseSource src e) = Some (Some src)"
| "pc_current (SetState sc k) = pc_current k"
| "pc_current (Emit sc k) = pc_current k"
| "pc_current (ClearCurrent e) = None"
| "pc_current Unwind = None"
| "pc_current _ = Some None"

definition source_inv :: "'i supervisor \<Rightarrow> bool" where
  "source_inv s \<longleftrightarrow> pc_shape (sup_pc s) \<and> (sup_done s \<longleftrightarrow> sup_pc s = Stopped) \<and> (\<forall>c. pc_current (sup_pc s) = Some c \<longrightarrow> current s = c)
     \<and> live s = (if sup_pc s = Unwind then (case current s of None \<Rightarrow> [] | Some src \<Rightarrow> [src]) else pc_live (sup_pc s))"

lemma goes_on_not_Unwind: "goes_on k \<Longrightarrow> k \<noteq> Unwind \<and> k \<noteq> Return \<and> k \<noteq> Stopped \<and> pc_shape k"
  by (cases k) auto

lemma source_inv_loop: "source_inv s \<Longrightarrow> loop_step retryable delay s s' \<Longrightarrow> source_inv s'"
  by (erule loop_step.cases)
    (auto simp: source_inv_def sup_defs terminal_def goes_on_not_Unwind split: option.splits if_splits)

lemma source_inv_shutdown: "source_inv s \<Longrightarrow> shutdown_step s s' \<Longrightarrow> source_inv s'"
  by (erule shutdown_step.cases) (auto simp: source_inv_def sup_defs)

lemma source_inv_reach: "sup_reach retryable delay sup_New s \<Longrightarrow> source_inv s"
  by (erule reach_invariant) (auto intro: source_inv_loop source_inv_shutdown, simp add: source_inv_def sup_New_def)

text \<open>
  C30. Sources do not leak, however the calls into user code end and whenever \<open>Close\<close> comes: at most one
  source is open, none when the factory is called, none once \<open>Wait\<close> can return, and what \<open>Stats\<close> and
  \<open>Info\<close> consult is never a source that was closed before the last one ended.
\<close>

theorem sup_no_leak:
  assumes "sup_reach retryable delay sup_New s"
  shows "length (live s) \<le> 1 \<and> (sup_pc s = InFactory n \<longrightarrow> live s = [])
    \<and> (sup_done s \<longrightarrow> live s = [] \<and> current s = None)
    \<and> (live s = [src] \<and> current s \<noteq> None \<longrightarrow> current s = Some src)"
proof -
  have "source_inv s" using source_inv_reach [OF assms] .
  moreover have "length (pc_live k) \<le> 1 \<and> (pc_live k = [src] \<longrightarrow> (pc_current k \<in> {Some (Some src), Some None}))" for k
    by (induction k) (auto split: option.splits)
  ultimately show ?thesis by (fastforce simp: source_inv_def split: option.splits if_splits)
qed

theorem sup_no_leak_witness:
  "\<exists>s :: nat supervisor. sup_reach DefaultRetryable (\<lambda>n. 0) sup_New s \<and> sup_pc s = InFactory 0 \<and> live s = []"
proof -
  define sc where "sc = (change StateConnecting)\<lparr>SC_Attempt := 0\<rparr>"
  define s1 :: "nat supervisor" where "s1 = sup_New\<lparr>sup_pc := SetState sc (InFactory 0)\<rparr>"
  define s2 where "s2 = sup_setState s1 sc (InFactory 0)"
  define s3 where "s3 = sup_emit s2 sc (InFactory 0)"
  have "sup_step DefaultRetryable (\<lambda>n. 0) sup_New s1"
    unfolding s1_def sc_def by (simp add: sup_step_def) (intro disjI1 top_open; simp add: sup_New_def)
  moreover have "sup_step DefaultRetryable (\<lambda>n. 0) s1 s2" "sup_step DefaultRetryable (\<lambda>n. 0) s2 s3"
    using set_state [of s1 sc "InFactory 0"] emit [of s2 sc "InFactory 0"]
    by (simp_all add: s3_def sup_step_def s2_def s1_def sup_setState_def)
  ultimately have "sup_reach DefaultRetryable (\<lambda>n. 0) sup_New s3" by (meson reach_refl reach_step)
  moreover have "sup_pc s3 = InFactory 0" by (simp add: s3_def sup_emit_def)
  ultimately show ?thesis using sup_no_leak [of DefaultRetryable "\<lambda>n. 0" s3 0] by blast
qed

section \<open>The end\<close>

text \<open>The part of the run that follows the decision to stop.\<close>

fun pc_ending :: "pc \<Rightarrow> bool" where
  "pc_ending (Emit sc k) \<longleftrightarrow> k = Return"
| "pc_ending Return = True"
| "pc_ending CloseDone = True"
| "pc_ending Stopped = True"
| "pc_ending _ = False"

text \<open>The terminal transition \<open>t\<close> tells the truth about how the supervisor ended.\<close>

definition verdict :: "(go_error option \<Rightarrow> bool) \<Rightarrow> 'i supervisor \<Rightarrow> state_change \<Rightarrow> bool" where
  "verdict retryable s t \<longleftrightarrow> sup_state s = SC_State t
     \<and> (SC_State t = StateClosed \<and> closeOnce s \<noteq> NotStarted \<and> SC_Err t = termErr s \<and> termErr s \<noteq> None
        \<or> SC_State t = StateFailed \<and> (SC_Err t = Some [RunPanic] \<or> \<not> retryable (SC_Err t))
          \<and> (termErr s = SC_Err t \<or> SC_Err t = None \<and> closeOnce s \<noteq> NotStarted))"

definition all_running :: "state_change list \<Rightarrow> bool" where
  "all_running = list_all (\<lambda>sc. \<not> terminal (SC_State sc))"

text \<open>A recorded cause comes from a shutdown until the loop has decided to stop.\<close>

definition cause_inv :: "(go_error option \<Rightarrow> bool) \<Rightarrow> 'i supervisor \<Rightarrow> bool" where
  "cause_inv retryable s \<longleftrightarrow> pc_shape (sup_pc s)
     \<and> (closeOnce s \<noteq> NotStarted \<longrightarrow> termErr s \<noteq> None)
     \<and> (\<not> pc_ending (sup_pc s) \<and> termErr s \<noteq> None \<longrightarrow> closeOnce s \<noteq> NotStarted)
     \<and> (\<not> pc_ending (sup_pc s) \<and> cancelled s \<and> (\<forall>e. sup_pc s \<noteq> Finish e) \<longrightarrow> closeOnce s \<noteq> NotStarted)
     \<and> (sup_pc s = FinishClosed \<longrightarrow> closeOnce s \<noteq> NotStarted)
     \<and> (\<forall>e. sup_pc s = Finish e \<longrightarrow> e = Some [RunPanic] \<or> \<not> retryable e)"

lemma goes_on_not_ending: "goes_on k \<Longrightarrow> \<not> pc_ending k \<and> k \<noteq> FinishClosed \<and> k \<noteq> Finish e \<and> k \<noteq> Emit t k' \<and> k \<notin> {Return, CloseDone, Stopped}"
  by (cases k) auto

lemmas goes_on_simps = goes_on_not_Unwind goes_on_not_ending

lemma cause_inv_loop: "cause_inv retryable s \<Longrightarrow> loop_step retryable delay s s' \<Longrightarrow> cause_inv retryable s'"
  by (erule loop_step.cases; simp add: cause_inv_def sup_defs terminal_def goes_on_simps split: if_splits)

lemma cause_inv_shutdown: "cause_inv retryable s \<Longrightarrow> shutdown_step s s' \<Longrightarrow> cause_inv retryable s'"
  by (erule shutdown_step.cases; simp add: cause_inv_def sup_defs)

text \<open>The transitions so far, and the terminal one.\<close>

definition ended :: "(go_error option \<Rightarrow> bool) \<Rightarrow> 'i supervisor \<Rightarrow> bool" where
  "ended retryable s \<longleftrightarrow> trace s \<noteq> [] \<and> all_running (butlast (trace s)) \<and> verdict retryable s (last (trace s))"

definition end_inv :: "(go_error option \<Rightarrow> bool) \<Rightarrow> 'i supervisor \<Rightarrow> bool" where
  "end_inv retryable s \<longleftrightarrow>
     (case sup_pc s of
        Emit t k \<Rightarrow> all_running (trace s) \<and> (k = Return \<longrightarrow> verdict retryable s t)
      | Return \<Rightarrow> ended retryable s
      | CloseDone \<Rightarrow> ended retryable s
      | Stopped \<Rightarrow> ended retryable s
      | _ \<Rightarrow> all_running (trace s))"

lemma end_inv_goes_on: "goes_on (sup_pc s) \<Longrightarrow> end_inv retryable s \<longleftrightarrow> all_running (trace s)"
  by (cases "sup_pc s") (auto simp: end_inv_def)

lemma verdict_cong: "sup_state s' = sup_state s \<Longrightarrow> closeOnce s' = closeOnce s \<Longrightarrow> termErr s' = termErr s \<Longrightarrow>
    verdict retryable s' t = verdict retryable s t"
  by (simp add: verdict_def)

lemma end_inv_loop:
  assumes "cause_inv retryable s" "end_inv retryable s" "loop_step retryable delay s s'"
  shows "end_inv retryable s'"
  using assms(3,1,2)
proof (cases rule: loop_step.cases)
  case (finish e)
  then show ?thesis using assms(1,2) by (simp add: end_inv_def cause_inv_def sup_defs verdict_def split: if_splits)
next
  case finish_closed
  then show ?thesis using assms(1,2) by (simp add: end_inv_def cause_inv_def sup_defs verdict_def)
next
  case (set_state sc k)
  then show ?thesis using assms(1,2) goes_on_not_Unwind [of k] by (simp add: end_inv_def cause_inv_def sup_setState_def)
next
  case (emit sc k)
  show ?thesis
  proof (cases "k = Return")
    case True
    then show ?thesis using assms(2) emit
      by (simp add: end_inv_def ended_def sup_emit_def verdict_cong [of "s\<lparr>trace := trace s @ [sc], sup_pc := Return\<rparr>" s])
  next
    case False
    then show ?thesis using assms(1,2) emit
      by (simp add: cause_inv_def end_inv_goes_on sup_emit_def) (simp add: end_inv_def all_running_def)
  qed
qed (simp_all add: end_inv_def sup_defs ended_def verdict_def)

lemma verdict_shutdown:
  assumes "cause_inv retryable s" "verdict retryable s t" "shutdown_step s s'"
  shows "verdict retryable s' t"
  using assms(3,1,2)
  by (cases rule: shutdown_step.cases) (auto simp: verdict_def sup_defs)

lemma end_inv_shutdown:
  assumes "cause_inv retryable s" "end_inv retryable s" "shutdown_step s s'"
  shows "end_inv retryable s'"
proof -
  have "sup_pc s' = sup_pc s" "trace s' = trace s" using assms(3) by (auto elim!: shutdown_step.cases simp: sup_defs)
  then show ?thesis
    using assms(2) verdict_shutdown [OF assms(1) _ assms(3)] by (simp add: end_inv_def ended_def split: pc.splits)
qed

lemma end_inv_reach: "sup_reach retryable delay sup_New s \<Longrightarrow> cause_inv retryable s \<and> end_inv retryable s"
  by (erule reach_invariant [where P = "\<lambda>s. cause_inv retryable s \<and> end_inv retryable s"])
    (auto intro: cause_inv_loop cause_inv_shutdown end_inv_loop end_inv_shutdown,
     simp_all add: cause_inv_def end_inv_def all_running_def sup_New_def)

text \<open>
  C27. The supervisor ends once and says truly how: until it is over every reported transition is a running one; when \<open>Wait\<close> can return exactly one
  terminal transition has been reported, as the last one, and it is the state \<open>State\<close> returns. \<open>StateClosed\<close> means that somebody shut the
  supervisor down, and \<open>Wait\<close> returns the cause it carries. \<open>StateFailed\<close> means a recovered panic or an error the policy refuses to retry, and \<open>Wait\<close>
  returns that error, with one exception: when the reported error is \<open>nil\<close> and the supervisor is shut down, \<open>Wait\<close> may return the cause of the
  shutdown instead.
\<close>

theorem sup_terminal:
  assumes "sup_reach retryable delay sup_New s"
  shows "(case sup_Wait s of
            None \<Rightarrow> all_running (butlast (trace s))
          | Some cause \<Rightarrow> (\<exists>before t. trace s = before @ [t] \<and> all_running before \<and> sup_state s = SC_State t
              \<and> (SC_State t = StateClosed \<and> closeOnce s \<noteq> NotStarted \<and> cause \<noteq> None \<and> SC_Err t = cause
                 \<or> SC_State t = StateFailed \<and> (SC_Err t = Some [RunPanic] \<or> \<not> retryable (SC_Err t))
                   \<and> (cause = SC_Err t \<or> SC_Err t = None \<and> closeOnce s \<noteq> NotStarted))))"
proof (cases "sup_done s")
  case True
  then have "ended retryable s" using end_inv_reach [OF assms] source_inv_reach [OF assms]
    by (simp add: source_inv_def end_inv_def)
  then show ?thesis using True unfolding ended_def verdict_def sup_Wait_def
    by (auto intro!: exI [of _ "butlast (trace s)"] exI [of _ "last (trace s)"])
next
  case False
  have "all_running xs \<Longrightarrow> all_running (butlast xs)" for xs
    by (auto simp: all_running_def list_all_iff dest: in_set_butlastD)
  then show ?thesis using False end_inv_reach [OF assms]
    by (auto simp: sup_Wait_def end_inv_def ended_def split: pc.splits)
qed

text \<open>A run: the first source ends with \<open>e\<close>, and the policy refuses to go on.\<close>

definition run_state :: "pc \<Rightarrow> sup_state \<Rightarrow> go_error option \<Rightarrow> state_change list \<Rightarrow> nat supervisor" where
  "run_state p st e tr = \<lparr>sup_pc = p, sup_state = st, termErr = e, current = None, lastSnapshot = Some 7,
     cancelled = (p \<in> {CloseDone, Stopped}), closeOnce = NotStarted, sup_done = (p = Stopped), live = [], trace = tr\<rparr>"

lemma reach_loop: "sup_reach r d s0 s \<Longrightarrow> loop_step r d s s' \<Longrightarrow> sup_reach r d s0 s'"
  by (auto simp: sup_step_def intro: reach_step)

lemma run_session:
  "sup_reach r d sup_New (run_state (Judge 0 e) StateConnected None [change StateConnecting, change StateConnected])"
proof -
  have zero: "(change StateConnecting)\<lparr>SC_Attempt := 0\<rparr> = change StateConnecting" by (simp add: change_def)
  define mk where "mk p st cur sn lv tr = \<lparr>sup_pc = p, sup_state = st, termErr = None, current = cur, lastSnapshot = sn,
    cancelled = False, closeOnce = NotStarted, sup_done = False, live = lv, trace = tr\<rparr>"
    for p st cur lv tr and sn :: "nat option"
  note step = reach_loop and st = mk_def sup_New_def sup_setState_def sup_emit_def sup_setCurrent_def sup_clearCurrent_def
    sup_captureFinal_def zero
  have "sup_reach r d sup_New (mk (SetState (change StateConnecting) (InFactory 0)) StateConnecting None None [] [])"
    using step [OF reach_refl top_open [of sup_New 0], of r d] by (simp add: st)
  note this [THEN step, OF set_state]
  then have "sup_reach r d sup_New (mk (Emit (change StateConnecting) (InFactory 0)) StateConnecting None None [] [])"
    by (simp add: st) (simp add: change_def)
  note this [THEN step, OF emit]
  then have "sup_reach r d sup_New (mk (InFactory 0) StateConnecting None None [] [change StateConnecting])"
    by (simp add: st)
  note this [THEN step, OF factory_source [where src = 0]]
  then have "sup_reach r d sup_New (mk (GotSource 0) StateConnecting None None [0] [change StateConnecting])"
    by (simp add: st)
  note this [THEN step, OF connected]
  then have "sup_reach r d sup_New
      (mk (SetState (change StateConnected) (Waiting 0)) StateConnecting (Some 0) None [0] [change StateConnecting])"
    by (simp add: st)
  note this [THEN step, OF set_state]
  then have "sup_reach r d sup_New
      (mk (Emit (change StateConnected) (Waiting 0)) StateConnected (Some 0) None [0] [change StateConnecting])"
    by (simp add: st) (simp add: change_def)
  note this [THEN step, OF emit]
  then have "sup_reach r d sup_New
      (mk (Waiting 0) StateConnected (Some 0) None [0] [change StateConnecting, change StateConnected])"
    by (simp add: st)
  note this [THEN step, OF wait_returns [where e = e]]
  then have "sup_reach r d sup_New
      (mk (CaptureFinal 0 e) StateConnected (Some 0) None [0] [change StateConnecting, change StateConnected])"
    by (simp add: st)
  note this [THEN step, OF captured [where snapshot = 7]]
  then have "sup_reach r d sup_New
      (mk (CloseSource 0 e) StateConnected (Some 0) (Some 7) [0] [change StateConnecting, change StateConnected])"
    by (simp add: st)
  note this [THEN step, OF source_closed]
  then have "sup_reach r d sup_New
      (mk (ClearCurrent e) StateConnected (Some 0) (Some 7) [] [change StateConnecting, change StateConnected])"
    by (simp add: st)
  note this [THEN step, OF cleared]
  then have "sup_reach r d sup_New
      (mk (SessionOver e) StateConnected None (Some 7) [] [change StateConnecting, change StateConnected])"
    by (simp add: st)
  note this [THEN step, OF over_open]
  then show ?thesis by (simp add: mk_def run_state_def)
qed

lemma run_refused:
  assumes "\<not> r e"
  shows "sup_reach r d sup_New (run_state Stopped StateFailed e
    [change StateConnecting, change StateConnected, (change StateFailed)\<lparr>SC_Err := e\<rparr>])"
proof -
  have "sup_reach r d sup_New (run_state (Finish e) StateConnected None [change StateConnecting, change StateConnected])"
    using reach_loop [OF run_session judge_fatal] assms by (simp add: run_state_def)
  note this [THEN reach_loop, OF finish]
  then have "sup_reach r d sup_New (run_state (Emit ((change StateFailed)\<lparr>SC_Err := e\<rparr>) Return) StateFailed e
      [change StateConnecting, change StateConnected])"
    by (simp add: run_state_def sup_finish_def)
  note this [THEN reach_loop, OF emit]
  then have "sup_reach r d sup_New (run_state Return StateFailed e
      [change StateConnecting, change StateConnected, (change StateFailed)\<lparr>SC_Err := e\<rparr>])"
    by (simp add: run_state_def sup_emit_def)
  note this [THEN reach_loop, OF return]
  then have "sup_reach r d sup_New (run_state CloseDone StateFailed e
      [change StateConnecting, change StateConnected, (change StateFailed)\<lparr>SC_Err := e\<rparr>])"
    by (simp add: run_state_def)
  note this [THEN reach_loop, OF close_done]
  then show ?thesis by (simp add: run_state_def)
qed

theorem sup_terminal_witness:
  "\<exists>(s :: nat supervisor) before t. sup_reach DefaultRetryable (\<lambda>n. 0) sup_New s \<and> sup_Wait s = Some (Some [ErrRedirect])
     \<and> trace s = before @ [t] \<and> all_running before \<and> sup_state s = SC_State t \<and> SC_State t = StateFailed \<and> SC_Err t = Some [ErrRedirect]
     \<and> \<not> DefaultRetryable (SC_Err t)"
proof -
  define s where "s = run_state Stopped StateFailed (Some [ErrRedirect])
    [change StateConnecting, change StateConnected, (change StateFailed)\<lparr>SC_Err := Some [ErrRedirect]\<rparr>]"
  have "\<not> DefaultRetryable (Some [ErrRedirect])" by (simp add: DefaultRetryable_def errors_Is_def)
  then have r: "sup_reach DefaultRetryable (\<lambda>n. 0) sup_New s" unfolding s_def by (rule run_refused)
  moreover have w: "sup_Wait s = Some (Some [ErrRedirect])" "sup_state s = StateFailed" "closeOnce s = NotStarted"
    by (simp_all add: s_def run_state_def sup_Wait_def)
  moreover obtain before t where "trace s = before @ [t]" "all_running before" "sup_state s = SC_State t" "SC_Err t = Some [ErrRedirect]"
    using sup_terminal [OF r] w by auto
  ultimately show ?thesis using \<open>\<not> DefaultRetryable (Some [ErrRedirect])\<close> by metis
qed

text \<open>Once a cause is recorded it is the cause; the first one wins.\<close>

lemma first_cause_wins:
  assumes "sup_reach retryable delay s s'" "termErr s = Some c"
  shows "termErr s' = Some c"
  using assms
proof (rule reach_invariant [where P = "\<lambda>s. termErr s = Some c"])
  fix s s' :: "'a supervisor"
  show "termErr s = Some c \<Longrightarrow> loop_step retryable delay s s' \<Longrightarrow> termErr s' = Some c"
    by (erule loop_step.cases) (simp_all add: sup_defs)
  show "termErr s = Some c \<Longrightarrow> shutdown_step s s' \<Longrightarrow> termErr s' = Some c"
    by (erule shutdown_step.cases) (simp_all add: sup_defs)
qed

text \<open>
  C28. But \<open>nil\<close> is no cause: a policy that does not retry after a clean end of the session makes \<open>finish\<close> record
  \<open>nil\<close>, \<open>Wait\<close> returns \<open>nil\<close>, and after a later \<open>Close\<close> it returns \<open>ErrClosed\<close>.
\<close>

theorem sup_Wait_not_stable:
  "\<exists>s s' :: nat supervisor. sup_reach (\<lambda>e. e \<noteq> None) (\<lambda>n. 0) sup_New s \<and> sup_Wait s = Some None
     \<and> sup_reach (\<lambda>e. e \<noteq> None) (\<lambda>n. 0) s s' \<and> sup_Wait s' = Some (Some [ErrClosed])"
proof -
  define s where "s = run_state Stopped StateFailed None
    [change StateConnecting, change StateConnected, (change StateFailed)\<lparr>SC_Err := None\<rparr>]"
  have "shutdown_step s (shutdown_record s [ErrClosed])" by (rule record_cause) (simp add: s_def run_state_def)
  then have "sup_reach (\<lambda>e. e \<noteq> None) (\<lambda>n. 0) s (shutdown_record s [ErrClosed])"
    using reach_step [OF reach_refl] by (auto simp: sup_step_def)
  moreover have "sup_reach (\<lambda>e. e \<noteq> None) (\<lambda>n. 0) sup_New s" unfolding s_def by (rule run_refused) simp
  ultimately show ?thesis
    by (intro exI [of _ s] exI [of _ "shutdown_record s [ErrClosed]"])
      (simp add: s_def run_state_def sup_Wait_def shutdown_record_def)
qed

section \<open>Shutdown ends\<close>

text \<open>How many actions the goroutine has left once the context is cancelled, at most.\<close>

fun rank :: "pc \<Rightarrow> nat" where
  "rank (InFactory n) = 14"
| "rank (GotSource src) = 13"
| "rank (Waiting src) = 10"
| "rank (Judge n e) = 10"
| "rank (CaptureFinal src e) = 9"
| "rank (Retry n e) = 9"
| "rank (CloseSource src e) = 8"
| "rank Unwind = 7"
| "rank (UnwindClose cur) = 6"
| "rank (ClearCurrent e) = 6"
| "rank (Sleeping n) = 6"
| "rank (LoopTop n) = 5"
| "rank (FactoryErr n e) = 5"
| "rank (SessionOver e) = 5"
| "rank UnwindCancel = 5"
| "rank (Finish e) = 4"
| "rank FinishClosed = 4"
| "rank (SetState sc k) = rank k + 2"
| "rank (Emit sc k) = rank k + 1"
| "rank Return = 2"
| "rank CloseDone = 1"
| "rank Stopped = 0"

lemma rank_decreases: "loop_step retryable delay s s' \<Longrightarrow> cancelled s \<Longrightarrow> cancelled s' \<and> rank (sup_pc s') < rank (sup_pc s)"
  by (erule loop_step.cases) (simp_all add: sup_defs)

lemma rank_shutdown: "shutdown_step s s' \<Longrightarrow> cancelled s \<Longrightarrow> cancelled s' \<and> sup_pc s' = sup_pc s"
  by (erule shutdown_step.cases) (simp_all add: sup_defs)

lemma rank_bound: "pc_shape k \<Longrightarrow> rank k \<le> 16"
proof -
  have "goes_on k \<Longrightarrow> rank k \<le> 14 \<and> rank k \<le> 15" for k by (cases k) auto
  then show "pc_shape k \<Longrightarrow> rank k \<le> 16" by (cases k) (auto split: if_splits dest: order_trans)
qed

lemma loop_enabled: "sup_pc s \<noteq> Stopped \<Longrightarrow> \<exists>s'. loop_step retryable delay s s'"
proof (cases "sup_pc s")
  case (Judge n e)
  then show ?thesis by (cases "retryable e") (blast intro: judge_fatal judge_retry)+
next
  case (LoopTop n)
  then show ?thesis by (cases "cancelled s") (blast intro: top_closed top_open)+
next
  case (FactoryErr n e)
  then show ?thesis by (cases "cancelled s") (blast intro: failed_closed failed_open)+
next
  case (SessionOver e)
  then show ?thesis by (cases "cancelled s") (blast intro: over_closed over_open)+
qed (blast intro: loop_step.intros)+

text \<open>\<open>n\<close> actions of the goroutine, with any number of shutdowns in between.\<close>

inductive own_steps :: "(go_error option \<Rightarrow> bool) \<Rightarrow> (nat \<Rightarrow> int) \<Rightarrow> nat \<Rightarrow> 'i supervisor \<Rightarrow> 'i supervisor \<Rightarrow> bool"
  for retryable delay where
  no_steps: "own_steps retryable delay 0 s s"
| own_step: "loop_step retryable delay s s' \<Longrightarrow> own_steps retryable delay n s' s'' \<Longrightarrow> own_steps retryable delay (Suc n) s s''"
| other_step: "shutdown_step s s' \<Longrightarrow> own_steps retryable delay n s' s'' \<Longrightarrow> own_steps retryable delay n s s''"

lemma own_steps_bound: "own_steps retryable delay n s s' \<Longrightarrow> cancelled s \<Longrightarrow> n + rank (sup_pc s') \<le> rank (sup_pc s)"
  by (induction rule: own_steps.induct) (fastforce dest: rank_decreases rank_shutdown)+

lemma own_steps_reach: "own_steps retryable delay n s s' \<Longrightarrow> sup_reach retryable delay s0 s \<Longrightarrow> sup_reach retryable delay s0 s'"
proof (induction rule: own_steps.induct)
  case (own_step s s' n s'')
  then show ?case using reach_loop [of retryable delay s0 s s'] by blast
next
  case (other_step s s' n s'')
  then show ?case using reach_step [of retryable delay s0 s s'] by (simp add: sup_step_def)
qed

lemma own_steps_finish: "cancelled s \<Longrightarrow> \<exists>n s'. own_steps retryable delay n s s' \<and> sup_pc s' = Stopped"
proof (induction "rank (sup_pc s)" arbitrary: s rule: less_induct)
  case less
  show ?case
  proof (cases "sup_pc s = Stopped")
    case False
    then obtain s1 where "loop_step retryable delay s s1" using loop_enabled by blast
    then show ?thesis using less rank_decreases own_step by metis
  qed (blast intro: no_steps)
qed

text \<open>
  C29. A shutdown is never wedged by the supervisor itself: from the moment the context is cancelled, wherever the
  goroutine is and whatever the user functions return, it makes at most sixteen more actions, it is never
  stuck before \<open>done\<close> is closed, and it does close it.
\<close>

theorem sup_shutdown_ends:
  assumes "sup_reach retryable delay sup_New s" "cancelled s"
  shows "(\<forall>n s'. own_steps retryable delay n s s' \<longrightarrow> n \<le> 16 \<and> (sup_done s' \<or> (\<exists>s''. loop_step retryable delay s' s'')))
    \<and> (\<exists>n s'. n \<le> 16 \<and> own_steps retryable delay n s s' \<and> sup_done s')"
proof -
  have bound: "n \<le> 16" if "own_steps retryable delay n s s'" for n s'
    using own_steps_bound [OF that assms(2)] rank_bound source_inv_reach [OF assms(1)]
    by (fastforce simp: source_inv_def)
  have stops: "sup_done s' \<longleftrightarrow> sup_pc s' = Stopped" if "own_steps retryable delay n s s'" for n s'
    using source_inv_reach [OF own_steps_reach [OF that assms(1)]] by (simp add: source_inv_def)
  show ?thesis
    using bound stops loop_enabled own_steps_finish [OF assms(2), of retryable delay] by metis
qed

lemma run_cancelled:
  "sup_reach r d sup_New ((run_state (Judge 0 None) StateConnected None tr)\<lparr>cancelled := True, termErr := Some [ErrClosed],
     closeOnce := Completed\<rparr>)"
  if "tr = [change StateConnecting, change StateConnected]"
proof -
  define s where "s = run_state (Judge 0 None) StateConnected None tr"
  have "sup_step r d s (shutdown_record s [ErrClosed])"
    using record_cause [of s] by (simp add: sup_step_def s_def run_state_def)
  moreover have "sup_step r d (shutdown_record s [ErrClosed]) (shutdown_cancel (shutdown_record s [ErrClosed]))"
    using cancel [of "shutdown_record s [ErrClosed]"] by (simp add: sup_step_def shutdown_record_def)
  ultimately have "sup_reach r d sup_New (shutdown_cancel (shutdown_record s [ErrClosed]))"
    using run_session [of r d None] unfolding that s_def by (blast intro: reach_step)
  then show ?thesis by (simp add: s_def run_state_def shutdown_cancel_def shutdown_record_def)
qed

theorem sup_shutdown_ends_witness:
  "\<exists>n s'. n \<le> 16 \<and> sup_done s' \<and> own_steps DefaultRetryable (\<lambda>n. 0) n
     ((run_state (Judge 0 None) StateConnected None [change StateConnecting, change StateConnected])
        \<lparr>cancelled := True, termErr := Some [ErrClosed], closeOnce := Completed\<rparr>) s'"
  using sup_shutdown_ends [OF run_cancelled [of _ DefaultRetryable "\<lambda>n. 0"]] by auto

section \<open>The life cycle\<close>

text \<open>
  What \<open>OnState\<close> is promised, as an automaton over the transitions it is given: the phase it was told of last,
  and the number of consecutive failures.
\<close>

definition observe :: "(nat \<Rightarrow> int) \<Rightarrow> sup_state option \<times> nat \<Rightarrow> state_change \<Rightarrow> (sup_state option \<times> nat) option" where
  "observe delay pn sc = (case pn of (p, n) \<Rightarrow>
     (case SC_State sc of
        StateConnecting \<Rightarrow>
          (if p \<in> {None, Some StateReconnecting} \<and> sc = (change StateConnecting)\<lparr>SC_Attempt := n\<rparr>
           then Some (Some StateConnecting, n) else None)
      | StateConnected \<Rightarrow>
          (if p = Some StateConnecting \<and> sc = change StateConnected then Some (Some StateConnected, 0) else None)
      | StateReconnecting \<Rightarrow>
          (if p \<in> {Some StateConnecting, Some StateConnected} \<and> SC_Attempt sc = n + 1 \<and> SC_Backoff sc = delay (n + 1)
           then Some (Some StateReconnecting, n + 1) else None)
      | StateClosed \<Rightarrow>
          (if p \<notin> {Some StateClosed, Some StateFailed} \<and> SC_Err sc \<noteq> None \<and> SC_Attempt sc = 0 \<and> SC_Backoff sc = 0
           then Some (Some StateClosed, n) else None)
      | StateFailed \<Rightarrow>
          (if p \<in> {Some StateConnecting, Some StateConnected} \<and> SC_Attempt sc = 0 \<and> SC_Backoff sc = 0
           then Some (Some StateFailed, n) else None)))"

fun observe_all :: "(nat \<Rightarrow> int) \<Rightarrow> sup_state option \<times> nat \<Rightarrow> state_change list \<Rightarrow> (sup_state option \<times> nat) option" where
  "observe_all delay pn [] = Some pn"
| "observe_all delay pn (sc # scs) = (case observe delay pn sc of None \<Rightarrow> None | Some pn' \<Rightarrow> observe_all delay pn' scs)"

lemma observe_all_snoc:
  "observe_all delay pn (scs @ [sc]) = (case observe_all delay pn scs of None \<Rightarrow> None | Some pn' \<Rightarrow> observe delay pn' sc)"
  by (induction scs arbitrary: pn) (auto split: option.splits)

text \<open>The states of the automaton that the goroutine's position stands for.\<close>

fun agrees :: "(nat \<Rightarrow> int) \<Rightarrow> pc \<Rightarrow> sup_state option \<times> nat \<Rightarrow> bool" where
  "agrees delay (LoopTop m) pn \<longleftrightarrow> fst pn \<in> {None, Some StateReconnecting} \<and> m = snd pn"
| "agrees delay (InFactory m) pn \<longleftrightarrow> fst pn = Some StateConnecting \<and> m = snd pn"
| "agrees delay (FactoryErr m e) pn \<longleftrightarrow> fst pn = Some StateConnecting \<and> m = snd pn"
| "agrees delay (GotSource src) pn \<longleftrightarrow> fst pn = Some StateConnecting"
| "agrees delay (Judge m e) pn \<longleftrightarrow> fst pn \<in> {Some StateConnecting, Some StateConnected} \<and> m = snd pn"
| "agrees delay (Retry m e) pn \<longleftrightarrow> fst pn \<in> {Some StateConnecting, Some StateConnected} \<and> m = snd pn + 1"
| "agrees delay (Sleeping m) pn \<longleftrightarrow> fst pn = Some StateReconnecting \<and> m = snd pn"
| "agrees delay (Waiting src) pn \<longleftrightarrow> pn = (Some StateConnected, 0)"
| "agrees delay (CaptureFinal src e) pn \<longleftrightarrow> pn = (Some StateConnected, 0)"
| "agrees delay (CloseSource src e) pn \<longleftrightarrow> pn = (Some StateConnected, 0)"
| "agrees delay (ClearCurrent e) pn \<longleftrightarrow> pn = (Some StateConnected, 0)"
| "agrees delay (SessionOver e) pn \<longleftrightarrow> pn = (Some StateConnected, 0)"
| "agrees delay FinishClosed pn \<longleftrightarrow> fst pn \<notin> {Some StateClosed, Some StateFailed}"
| "agrees delay (SetState sc k) pn \<longleftrightarrow> (\<exists>pn'. observe delay pn sc = Some pn' \<and> agrees delay k pn')"
| "agrees delay (Emit sc k) pn \<longleftrightarrow> (\<exists>pn'. observe delay pn sc = Some pn' \<and> agrees delay k pn')"
| "agrees delay Return pn \<longleftrightarrow> fst pn \<in> {Some StateClosed, Some StateFailed}"
| "agrees delay CloseDone pn \<longleftrightarrow> fst pn \<in> {Some StateClosed, Some StateFailed}"
| "agrees delay Stopped pn \<longleftrightarrow> fst pn \<in> {Some StateClosed, Some StateFailed}"
| "agrees delay _ pn \<longleftrightarrow> fst pn \<in> {Some StateConnecting, Some StateConnected}"

definition refines :: "(nat \<Rightarrow> int) \<Rightarrow> 'i supervisor \<Rightarrow> bool" where
  "refines delay s \<longleftrightarrow> (\<exists>pn. observe_all delay (None, 0) (trace s) = Some pn \<and> agrees delay (sup_pc s) pn)"

text \<open>Every action of the goroutine is an action of the automaton or leaves it where it is.\<close>

lemma refines_emit:
  assumes "refines delay s" "sup_pc s = Emit sc k"
  shows "refines delay (sup_emit s sc k)"
  using assms by (auto simp: refines_def sup_emit_def observe_all_snoc)

lemma refines_loop: "refines delay s \<Longrightarrow> loop_step retryable delay s s' \<Longrightarrow> refines delay s'"
  by (erule loop_step.cases; (simp only: refines_emit)?)
    (auto simp: refines_def sup_defs observe_def split: if_splits)

lemma refines_shutdown: "refines delay s \<Longrightarrow> shutdown_step s s' \<Longrightarrow> refines delay s'"
  by (erule shutdown_step.cases) (simp_all add: refines_def sup_defs)

text \<open>
  C26. The supervisor implements the life cycle it documents, under every interleaving: the transitions given to
  \<open>OnState\<close> are a run of the automaton, so attempts count consecutive failures from the last connection, each
  \<open>StateReconnecting\<close> carries the delay of its attempt, running phases carry no error, and nothing follows a
  terminal phase. When \<open>Wait\<close> can return the automaton has ended.
\<close>

theorem sup_lifecycle:
  assumes "sup_reach retryable delay sup_New s"
  shows "\<exists>p n. observe_all delay (None, 0) (trace s) = Some (p, n)
     \<and> (sup_done s \<longrightarrow> p = Some StateClosed \<or> p = Some StateFailed)"
proof -
  have "refines delay s"
    using assms by (rule reach_invariant)
      (auto intro: refines_loop refines_shutdown, simp add: refines_def sup_New_def)
  then show ?thesis using source_inv_reach [OF assms] by (auto simp: refines_def source_inv_def)
qed

theorem sup_lifecycle_witness:
  "\<exists>p n. observe_all (\<lambda>n. 0) (None, 0)
     [change StateConnecting, change StateConnected, (change StateFailed)\<lparr>SC_Err := Some [ErrRedirect]\<rparr>] = Some (p, n)
     \<and> (p = Some StateClosed \<or> p = Some StateFailed)"
proof -
  have "\<not> DefaultRetryable (Some [ErrRedirect])" by (simp add: DefaultRetryable_def errors_Is_def)
  then show ?thesis
    using sup_lifecycle [OF run_refused [of DefaultRetryable "Some [ErrRedirect]" "\<lambda>n. 0"]]
    by (auto simp: run_state_def)
qed

end
