(* ===== verification/Float64.thy ===== *)
theory Float64
  imports Complex_Main
begin

text \<open>
  Go's \<open>float64\<close>: the binary64 numbers of IEEE 754 with the infinities and NaN. A finite value is kept as the real number it stands for, and every
  operation rounds its exact result to the nearest representable number, ties to even, with gradual underflow and overflow to the infinities; the two zeros are
  one. Each operation is rounded by itself, as on amd64 (the language lets a compiler fuse a product with a sum). Converting NaN or a value out of range to an
  integer is implementation-specific in Go, and is \<open>None\<close> here. The lemmas bound the rounding error and show which results are exact.
\<close>

datatype float64 = Fin real | PInf | NInf | NaN

section \<open>Rounding\<close>

text \<open>The exponent of the last place of a 53-bit significand, at least the one of the subnormal numbers.\<close>

definition ulp_exp :: "real \<Rightarrow> int" where
  "ulp_exp x = max (- 1074) (\<lfloor>log 2 \<bar>x\<bar>\<rfloor> - 52)"

definition round_even :: "real \<Rightarrow> int" where
  "round_even y = (let f = \<lfloor>y\<rfloor> in if y - real_of_int f < 1 / 2 then f else if y - real_of_int f > 1 / 2 then f + 1 else if even f then f else f + 1)"

definition rnd :: "real \<Rightarrow> real" where
  "rnd x = real_of_int (round_even (x / 2 powr ulp_exp x)) * 2 powr ulp_exp x"

definition fl :: "real \<Rightarrow> float64" where
  "fl x = (if rnd x \<ge> 2 ^ 1024 then PInf else if rnd x \<le> - (2 ^ 1024) then NInf else Fin (rnd x))"

section \<open>Operations\<close>

definition inf_signed :: "real \<Rightarrow> float64" where
  "inf_signed x = (if x > 0 then PInf else if x < 0 then NInf else NaN)"

fun fneg :: "float64 \<Rightarrow> float64" where
  "fneg (Fin x) = Fin (- x)"
| "fneg PInf = NInf"
| "fneg NInf = PInf"
| "fneg NaN = NaN"

fun fadd :: "float64 \<Rightarrow> float64 \<Rightarrow> float64" where
  "fadd NaN _ = NaN"
| "fadd _ NaN = NaN"
| "fadd (Fin x) (Fin y) = fl (x + y)"
| "fadd (Fin x) b = b"
| "fadd a (Fin y) = a"
| "fadd PInf PInf = PInf"
| "fadd NInf NInf = NInf"
| "fadd _ _ = NaN"

definition fsub :: "float64 \<Rightarrow> float64 \<Rightarrow> float64" where
  "fsub a b = fadd a (fneg b)"

fun fmul :: "float64 \<Rightarrow> float64 \<Rightarrow> float64" where
  "fmul NaN _ = NaN"
| "fmul _ NaN = NaN"
| "fmul (Fin x) (Fin y) = fl (x * y)"
| "fmul (Fin x) PInf = inf_signed x"
| "fmul (Fin x) NInf = inf_signed (- x)"
| "fmul PInf (Fin y) = inf_signed y"
| "fmul NInf (Fin y) = inf_signed (- y)"
| "fmul PInf b = b"
| "fmul NInf b = fneg b"

fun flt :: "float64 \<Rightarrow> float64 \<Rightarrow> bool" where
  "flt (Fin x) (Fin y) \<longleftrightarrow> x < y"
| "flt (Fin x) b \<longleftrightarrow> b = PInf"
| "flt NInf b \<longleftrightarrow> b \<noteq> NInf \<and> b \<noteq> NaN"
| "flt _ _ \<longleftrightarrow> False"

fun fle :: "float64 \<Rightarrow> float64 \<Rightarrow> bool" where
  "fle (Fin x) (Fin y) \<longleftrightarrow> x \<le> y"
| "fle (Fin x) b \<longleftrightarrow> b = PInf"
| "fle NInf b \<longleftrightarrow> b \<noteq> NaN"
| "fle PInf b \<longleftrightarrow> b = PInf"
| "fle NaN _ \<longleftrightarrow> False"

text \<open>Conversions between \<open>float64\<close> and \<open>int64\<close>: rounding one way, dropping the fraction the other.\<close>

definition float64_of :: "int \<Rightarrow> float64" where
  "float64_of i = fl (real_of_int i)"

definition to_int64 :: "float64 \<Rightarrow> int option" where
  "to_int64 a = (case a of
     Fin x \<Rightarrow> let t = (if x \<ge> 0 then \<lfloor>x\<rfloor> else \<lceil>x\<rceil>) in if - (2 ^ 63) \<le> t \<and> t < 2 ^ 63 then Some t else None
   | _ \<Rightarrow> None)"

section \<open>The rounding error\<close>

abbreviation unit_roundoff :: real where
  "unit_roundoff \<equiv> 1 / 2 ^ 53"

lemma round_even_near: "\<bar>real_of_int (round_even y) - y\<bar> \<le> 1 / 2"
proof -
  have "0 \<le> y - of_int \<lfloor>y\<rfloor>" "y - of_int \<lfloor>y\<rfloor> < 1" by linarith+
  then show ?thesis by (auto simp: round_even_def Let_def)
qed

lemma round_even_int: "round_even (real_of_int i) = i"
  by (simp add: round_even_def)

lemma round_even_ge: "real_of_int i \<le> y \<Longrightarrow> i \<le> round_even y"
  unfolding round_even_def Let_def le_floor_iff [symmetric] by auto

lemma rnd_error: "\<bar>rnd x - x\<bar> \<le> 2 powr ulp_exp x / 2"
proof -
  have "rnd x - x = (real_of_int (round_even (x / 2 powr ulp_exp x)) - x / 2 powr ulp_exp x) * 2 powr ulp_exp x"
    by (simp add: rnd_def left_diff_distrib)
  then have "\<bar>rnd x - x\<bar> = \<bar>real_of_int (round_even (x / 2 powr ulp_exp x)) - x / 2 powr ulp_exp x\<bar> * 2 powr ulp_exp x"
    by (simp add: abs_mult)
  also have "\<dots> \<le> 1 / 2 * 2 powr ulp_exp x" by (intro mult_right_mono round_even_near) simp
  finally show ?thesis by simp
qed

lemma binade: "x \<noteq> 0 \<Longrightarrow> 2 powr real_of_int \<lfloor>log 2 \<bar>x\<bar>\<rfloor> \<le> \<bar>x\<bar>"
  using powr_mono [of "real_of_int \<lfloor>log 2 \<bar>x\<bar>\<rfloor>" "log 2 \<bar>x\<bar>" 2] by simp

lemma ulp_bound: "x \<noteq> 0 \<Longrightarrow> 2 powr real_of_int (\<lfloor>log 2 \<bar>x\<bar>\<rfloor> - 52) \<le> \<bar>x\<bar> / 2 ^ 52"
  using binade [of x] by (simp add: powr_diff powr_realpow [symmetric] divide_right_mono)

lemma rnd_near: "\<bar>rnd x - x\<bar> \<le> \<bar>x\<bar> * unit_roundoff + 1 / 2 ^ 1075"
proof (cases "x = 0")
  case False
  have "2 powr real_of_int (ulp_exp x) \<le> \<bar>x\<bar> / 2 ^ 52 + 1 / 2 ^ 1074"
  proof (cases "ulp_exp x = - 1074")
    case True
    moreover have "2 powr - real n = 1 / 2 ^ n" for n by (simp add: powr_minus_divide powr_realpow)
    from this [of 1074] have "2 powr (- 1074) = (1 :: real) / 2 ^ 1074" by (simp only: of_nat_numeral)
    ultimately show ?thesis by (simp only: of_int_minus of_int_numeral) (rule add_increasing, simp_all only: zero_le_divide_iff abs_ge_zero zero_le_power order.refl, simp)
  next
    case nf: False
    then have "ulp_exp x = \<lfloor>log 2 \<bar>x\<bar>\<rfloor> - 52" by (simp add: ulp_exp_def)
    then show ?thesis using ulp_bound [OF False] by (simp add: add_increasing2)
  qed
  then show ?thesis using rnd_error [of x] by simp
qed (simp add: rnd_def round_even_def)

lemma rnd_ge_one:
  assumes "1 \<le> x"
  shows "1 \<le> rnd x" "\<bar>rnd x - x\<bar> \<le> x * unit_roundoff"
proof -
  define e where "e = \<lfloor>log 2 x\<rfloor>"
  have e: "0 \<le> e" using assms by (simp add: e_def)
  then have u: "ulp_exp x = e - 52" using assms by (simp add: ulp_exp_def e_def)
  then show "\<bar>rnd x - x\<bar> \<le> x * unit_roundoff" using rnd_error [of x] ulp_bound [of x] assms by (simp add: e_def)
  have p: "2 powr real_of_int e = 2 ^ 52 * 2 powr real_of_int (e - 52)" by (simp add: powr_diff powr_realpow [symmetric])
  have "2 ^ 52 * 2 powr real_of_int (e - 52) \<le> x" using binade [of x] assms unfolding p [symmetric] by (simp add: e_def)
  then have "real_of_int (2 ^ 52) \<le> x / 2 powr real_of_int (e - 52)" by (simp add: pos_le_divide_eq)
  then have "2 ^ 52 \<le> round_even (x / 2 powr real_of_int (e - 52))" by (rule round_even_ge)
  then have "2 ^ 52 * 2 powr real_of_int (e - 52) \<le> rnd x" unfolding rnd_def u by (intro mult_right_mono) simp_all
  moreover have "1 \<le> 2 powr real_of_int e" using e by (simp add: ge_one_powr_ge_zero)
  ultimately show "1 \<le> rnd x" using p by simp
qed

lemma rnd_multiple:
  assumes "x = real_of_int m * 2 powr real_of_int (ulp_exp x)"
  shows "rnd x = x"
proof -
  have "x / 2 powr real_of_int (ulp_exp x) = real_of_int m" by (subst assms) simp
  then show ?thesis using assms by (simp add: rnd_def round_even_int)
qed

lemma rnd_int:
  assumes "\<bar>i\<bar> \<le> 2 ^ 53"
  shows "rnd (real_of_int i) = real_of_int i"
proof (cases "i = 0")
  case False
  define x where "x = real_of_int i"
  define e where "e = \<lfloor>log 2 \<bar>x\<bar>\<rfloor>"
  have x: "1 \<le> \<bar>x\<bar>" "\<bar>x\<bar> \<le> 2 ^ 53" using False assms by (simp_all add: x_def)
  have e: "0 \<le> e" "e \<le> 53"
  proof -
    show "0 \<le> e" using x(1) by (simp add: e_def)
    have "log 2 \<bar>x\<bar> \<le> log 2 (2 ^ 53)" using x by (intro log_mono) auto
    also have "log 2 (2 ^ n) = real n" for n by (simp add: log_nat_power)
    finally show "e \<le> 53" by (simp add: e_def floor_le_iff)
  qed
  then have u: "ulp_exp x = e - 52" by (simp add: ulp_exp_def e_def)
  show ?thesis
  proof (cases "e = 53")
    case True
    have "2 powr real_of_int e \<le> \<bar>x\<bar>" using binade [of x] x by (simp add: e_def)
    then have "\<bar>x\<bar> = 2 ^ 53" using x True by (simp add: powr_realpow [symmetric])
    then have "\<bar>i\<bar> = 2 ^ 53" unfolding x_def by (metis of_int_abs of_int_eq_iff of_int_numeral of_int_power)
    then have "x = real_of_int (sgn i) * 2 ^ 53" unfolding x_def by (metis of_int_mult of_int_numeral of_int_power sgn_mult_abs)
    moreover have "ulp_exp x = 1" by (simp add: u True)
    ultimately have "x = real_of_int (sgn i * 2 ^ 52) * 2 powr real_of_int (ulp_exp x)" by simp
    then show ?thesis using rnd_multiple x_def by blast
  next
    case False
    define k where "k = nat (52 - e)"
    have "real_of_int (ulp_exp x) = - real k" using False e by (simp add: u k_def)
    then have "2 powr real_of_int (ulp_exp x) = 1 / 2 ^ k" by (simp add: powr_minus_divide powr_realpow)
    then have "x = real_of_int (i * 2 ^ k) * 2 powr real_of_int (ulp_exp x)" by (simp add: x_def)
    then show ?thesis using rnd_multiple x_def by blast
  qed
qed (simp add: rnd_def round_even_def)

lemma fl_finite:
  assumes "\<bar>x\<bar> \<le> 2 ^ 1000"
  shows "fl x = Fin (rnd x)"
proof -
  have "\<bar>rnd x\<bar> \<le> \<bar>x\<bar> + \<bar>rnd x - x\<bar>" by linarith
  also have "\<dots> \<le> \<bar>x\<bar> + (\<bar>x\<bar> * unit_roundoff + 1 / 2 ^ 1075)" using rnd_near [of x] by simp
  also have "\<dots> \<le> 2 ^ 1000 + (2 ^ 1000 * unit_roundoff + 1 / 2 ^ 1075)" using assms by (intro add_mono mult_right_mono) simp_all
  also have "\<dots> < 2 ^ 1024" by simp
  finally show ?thesis by (auto simp: fl_def)
qed

lemma float64_of_exact: "\<bar>i\<bar> \<le> 2 ^ 53 \<Longrightarrow> float64_of i = Fin (real_of_int i)"
proof -
  assume i: "\<bar>i\<bar> \<le> 2 ^ 53"
  then have "\<bar>real_of_int i\<bar> \<le> 2 ^ 53" by (metis of_int_abs of_int_le_iff of_int_numeral of_int_power)
  also have "(2 :: real) ^ 53 \<le> 2 ^ 1000" by (intro power_increasing) simp_all
  finally show ?thesis using rnd_int [OF i] by (simp add: float64_of_def fl_finite)
qed

lemma to_int64_floor: "0 \<le> x \<Longrightarrow> \<lfloor>x\<rfloor> < 2 ^ 63 \<Longrightarrow> to_int64 (Fin x) = Some \<lfloor>x\<rfloor>"
proof -
  assume x: "0 \<le> x" "\<lfloor>x\<rfloor> < 2 ^ 63"
  then have "0 \<le> \<lfloor>x\<rfloor>" by simp
  then have "- (2 ^ 63) \<le> \<lfloor>x\<rfloor>" by (rule order_trans [rotated]) simp
  then show ?thesis using x unfolding to_int64_def Let_def float64.case by (simp only: if_True simp_thms)
qed

lemma not_fle_NaN [simp]: "\<not> fle a NaN"
  by (cases a) simp_all

lemma flt_NaN [simp]: "\<not> flt a NaN" "\<not> flt NaN b"
  by (cases a; simp)+

lemma NaN_absorbs [simp]: "fmul a NaN = NaN" "fadd a NaN = NaN" "to_int64 NaN = None"
  by (cases a; simp add: to_int64_def)+

end
