(* ===== verification/Backoff.thy ===== *)
theory Backoff
  imports Float64
begin

text \<open>
  The reconnect schedule of \<open>src/supervisor/backoff.go\<close>: the configuration with its defaults and the delay of an attempt, in the \<open>float64\<close> arithmetic of
  theory Float64. A \<open>time.Duration\<close> is an integer number of nanoseconds. The lemmas follow the rounding errors through the loop and the jitter.
\<close>

section \<open>The schedule\<close>

record BackoffConfig =
  Base :: int
  Max :: int
  Factor :: float64
  Jitter :: float64

definition DefaultBase :: int where "DefaultBase = 500 * 1000000"
definition DefaultMax :: int where "DefaultMax = 30 * 1000000000"
definition DefaultFactor :: float64 where "DefaultFactor = Fin 2"
definition DefaultJitter :: float64 where "DefaultJitter = fl (2 / 10)"

definition withDefaults :: "BackoffConfig \<Rightarrow> BackoffConfig" where
  "withDefaults b =
     \<lparr>Base = (if Base b \<le> 0 then DefaultBase else Base b),
      Max = (if Max b \<le> 0 then DefaultMax else Max b),
      Factor = (if fle (Factor b) (Fin 1) then DefaultFactor else Factor b),
      Jitter = (if fle (Jitter b) (Fin 0) then DefaultJitter else if fle (Fin 1) (Jitter b) then fl (999 / 1000) else Jitter b)\<rparr>"

text \<open>The loop, with \<open>n\<close> iterations to go.\<close>

fun delay_loop :: "float64 \<Rightarrow> float64 \<Rightarrow> nat \<Rightarrow> float64 \<Rightarrow> float64" where
  "delay_loop f maxF 0 d = d"
| "delay_loop f maxF (Suc n) d = (let d = fmul d f in if fle maxF d then maxF else delay_loop f maxF n d)"

definition delay :: "BackoffConfig \<Rightarrow> int \<Rightarrow> float64 \<Rightarrow> int option" where
  "delay b attempt r =
     (let attempt = (if attempt < 1 then 1 else attempt);
          maxF = float64_of (Max b);
          d = delay_loop (Factor b) maxF (nat (attempt - 1)) (float64_of (Base b));
          d = (if flt maxF d then maxF else d);
          d = (if flt (Fin 0) (Jitter b) then fadd d (fmul (fmul d (Jitter b)) (fsub (fmul (Fin 2) r) (Fin 1))) else d);
          d = (if flt maxF d then maxF else d);
          d = (if flt d (Fin 0) then Fin 0 else d)
      in to_int64 d)"

text \<open>
  The schedule the comments of the source describe, in exact arithmetic: the base times the factor to the number of earlier failures, capped, then spread by the
  jitter and capped again. An infinite factor reaches the cap at once; a NaN jitter, which no comparison catches, spreads nothing.
\<close>

definition capped :: "BackoffConfig \<Rightarrow> nat \<Rightarrow> real" where
  "capped c n = (case Factor c of
     Fin f \<Rightarrow> min (real_of_int (Max c)) (real_of_int (Base c) * f ^ n)
   | _ \<Rightarrow> if n = 0 then min (real_of_int (Max c)) (real_of_int (Base c)) else real_of_int (Max c))"

definition spread :: "BackoffConfig \<Rightarrow> real" where
  "spread c = (case Jitter c of Fin j \<Rightarrow> j | _ \<Rightarrow> 0)"

definition ideal_delay :: "BackoffConfig \<Rightarrow> nat \<Rightarrow> real \<Rightarrow> real" where
  "ideal_delay c n r = min (real_of_int (Max c)) (capped c n * (1 + spread c * (2 * r - 1)))"

section \<open>The defaults\<close>

lemma rnd_unit:
  assumes "1 / 10 \<le> x" "x \<le> 999 / 1000"
  shows "fl x = Fin (rnd x)" "0 < rnd x" "rnd x < 1"
proof -
  have "\<bar>x\<bar> \<le> 2 ^ 1000" using assms one_le_power [of "2 :: real" 1000] by linarith
  then show "fl x = Fin (rnd x)" by (rule fl_finite)
  have "x * unit_roundoff \<le> 1 * unit_roundoff" using assms by (intro mult_right_mono) simp_all
  moreover have "(1 :: real) / 2 ^ 1075 \<le> 1 / 2 ^ 53" by (intro divide_left_mono power_increasing) simp_all
  ultimately have "\<bar>rnd x - x\<bar> \<le> 2 * unit_roundoff" using rnd_near [of x] assms by simp
  then have "\<bar>rnd x - x\<bar> < 1 / 1000" by simp
  then show "0 < rnd x" "rnd x < 1" using assms by linarith+
qed

lemma withDefaults_resolved:
  "0 < Base (withDefaults b)" "0 < Max (withDefaults b)"
  "Factor (withDefaults b) = NaN \<or> Factor (withDefaults b) = PInf \<or> (\<exists>f > 1. Factor (withDefaults b) = Fin f)"
  "Jitter (withDefaults b) = NaN \<or> (\<exists>j. 0 < j \<and> j < 1 \<and> Jitter (withDefaults b) = Fin j)"
proof -
  show "0 < Base (withDefaults b)" "0 < Max (withDefaults b)"
    by (simp_all add: withDefaults_def DefaultBase_def DefaultMax_def)
  show "Factor (withDefaults b) = NaN \<or> Factor (withDefaults b) = PInf \<or> (\<exists>f > 1. Factor (withDefaults b) = Fin f)"
    by (cases "Factor b") (auto simp: withDefaults_def DefaultFactor_def)
  show "Jitter (withDefaults b) = NaN \<or> (\<exists>j. 0 < j \<and> j < 1 \<and> Jitter (withDefaults b) = Fin j)"
    using rnd_unit [of "2 / 10"] rnd_unit [of "999 / 1000"] by (cases "Jitter b") (auto simp: withDefaults_def DefaultJitter_def)
qed

section \<open>The exponential term\<close>

text \<open>A value that is right up to \<open>k\<close> roundings.\<close>

definition approx :: "nat \<Rightarrow> real \<Rightarrow> real \<Rightarrow> bool" where
  "approx k y d \<longleftrightarrow> y * (1 - unit_roundoff) ^ k \<le> d \<and> d \<le> y * (1 + unit_roundoff) ^ k"

lemma approx_exact: "approx 0 y y"
  by (simp add: approx_def)

lemma approx_round:
  assumes "approx k y d" "1 \<le> d"
  shows "approx (Suc k) y (rnd d)"
proof -
  have "rnd d - d \<le> d * unit_roundoff" "d - rnd d \<le> d * unit_roundoff" using rnd_ge_one(2) [OF assms(2)] by linarith+
  then have d: "d * (1 - unit_roundoff) \<le> rnd d" "rnd d \<le> d * (1 + unit_roundoff)" by (simp_all add: algebra_simps)
  have "y * (1 - unit_roundoff) ^ k * (1 - unit_roundoff) \<le> d * (1 - unit_roundoff)"
    "d * (1 + unit_roundoff) \<le> y * (1 + unit_roundoff) ^ k * (1 + unit_roundoff)"
    using assms(1) by (intro mult_right_mono; simp add: approx_def)+
  then show ?thesis using d by (simp add: approx_def ac_simps)
qed

lemma approx_mult: "approx k y d \<Longrightarrow> 0 \<le> f \<Longrightarrow> approx k (y * f) (d * f)"
  using mult_right_mono [of _ _ f] by (fastforce simp: approx_def ac_simps)

lemma powers_around: "(1 - unit_roundoff) ^ k \<le> 1" "1 \<le> (1 + unit_roundoff) ^ k"
  by (simp_all add: power_le_one)

lemma approx_cap:
  assumes "approx k y d" "0 < M" "0 < y"
  shows "approx k (min M y) (min M d)"
proof -
  have p: "M * (1 - unit_roundoff) ^ k \<le> M * 1" "M * 1 \<le> M * (1 + unit_roundoff) ^ k"
    using assms(2) powers_around [of k] by (intro mult_left_mono; simp)+
  have "min M y * (1 - unit_roundoff) ^ k \<le> y * (1 - unit_roundoff) ^ k" "min M y * (1 - unit_roundoff) ^ k \<le> M * (1 - unit_roundoff) ^ k"
    by (intro mult_right_mono; simp)+
  moreover have "min M d \<le> min M y * (1 + unit_roundoff) ^ k" using assms(1) p by (cases "M \<le> y") (auto simp: approx_def min_def)
  ultimately show ?thesis using assms(1) p unfolding approx_def min.bounded_iff by linarith
qed

lemma approx_more:
  assumes "approx k y d" "0 \<le> y" "k \<le> k'"
  shows "approx k' y d"
proof -
  have "(1 - unit_roundoff) ^ k' \<le> (1 - unit_roundoff) ^ k" "(1 + unit_roundoff) ^ k \<le> (1 + unit_roundoff) ^ k'"
    using assms(3) by (intro power_decreasing power_increasing; simp)+
  then have "y * (1 - unit_roundoff) ^ k' \<le> y * (1 - unit_roundoff) ^ k" "y * (1 + unit_roundoff) ^ k \<le> y * (1 + unit_roundoff) ^ k'"
    using assms(2) by (intro mult_left_mono; simp)+
  then show ?thesis using assms(1) by (simp add: approx_def)
qed

lemma delay_loop_approx:
  assumes "approx k y d" "1 \<le> d" "0 < y" "1 < f" "0 < M" "M < 2 ^ 1024"
  shows "\<exists>L. delay_loop (Fin f) (Fin M) n (Fin d) = Fin L \<and> min 1 M \<le> L \<and> approx (k + n) (min M (y * f ^ n)) (min M L)"
  using assms
proof (induction n arbitrary: d y k)
  case 0
  then show ?case using approx_cap [of k y d M] by auto
next
  case (Suc n)
  define d' where "d' = rnd (d * f)"
  have ge: "1 \<le> d * f" using Suc.prems mult_mono [of 1 d 1 f] by simp
  have a: "approx (Suc k) (y * f) d'" unfolding d'_def using approx_round [OF approx_mult [OF Suc.prems(1), of f] ge] Suc.prems by simp
  have d': "1 \<le> d'" unfolding d'_def by (rule rnd_ge_one(1) [OF ge])
  show ?case
  proof (cases "M \<le> d'")
    case True
    have fin: "fle (Fin M) (fl (d * f))" using True Suc.prems d' by (auto simp: fl_def d'_def [symmetric])
    have pos: "0 < y * f" using Suc.prems by simp
    have "1 * (y * f) \<le> f ^ n * (y * f)" using Suc.prems pos by (intro mult_right_mono one_le_power) simp_all
    then have "min M (y * f) \<le> min M (y * f ^ Suc n)" by (simp add: ac_simps)
    moreover have "M \<le> min M (y * f) * (1 + unit_roundoff) ^ (k + Suc n)"
      using approx_more [OF approx_cap [OF a Suc.prems(5) pos], of "k + Suc n"] True Suc.prems pos by (simp add: approx_def)
    ultimately have "M \<le> min M (y * f ^ Suc n) * (1 + unit_roundoff) ^ (k + Suc n)" by (meson mult_right_mono order_trans zero_le_power add_nonneg_nonneg zero_le_one zero_le_divide_1_iff zero_le_numeral)
    moreover have "min M (y * f ^ Suc n) * (1 - unit_roundoff) ^ (k + Suc n) \<le> min M (y * f ^ Suc n) * 1"
      using Suc.prems powers_around(1) [of "k + Suc n"] by (intro mult_left_mono) simp_all
    ultimately have "approx (k + Suc n) (min M (y * f ^ Suc n)) M" by (simp add: approx_def)
    then show ?thesis using fin by simp
  next
    case False
    then have "fl (d * f) = Fin d'" using Suc.prems d' by (auto simp: fl_def d'_def)
    then show ?thesis using Suc.IH [OF a d'] Suc.prems False by (simp add: ac_simps)
  qed
qed

section \<open>The jitter\<close>

definition jittered :: "real \<Rightarrow> real \<Rightarrow> real \<Rightarrow> real" where
  "jittered d j r = rnd (d + rnd (rnd (d * j) * rnd (rnd (2 * r) - 1)))"

text \<open>One rounding of a value of magnitude at most \<open>m\<close>.\<close>

lemma rnd_within:
  assumes "\<bar>x\<bar> \<le> m" "1 \<le> m"
  shows "\<bar>rnd x - x\<bar> \<le> 2 * m * unit_roundoff"
proof -
  have "\<bar>x\<bar> * unit_roundoff \<le> m * unit_roundoff" using assms by (intro mult_right_mono) simp_all
  moreover have "(1 :: real) / 2 ^ 1075 \<le> 1 / 2 ^ 53" by (intro divide_left_mono power_increasing) simp_all
  moreover have "1 * unit_roundoff \<le> m * unit_roundoff" using assms by (intro mult_right_mono) simp_all
  ultimately show ?thesis using rnd_near [of x] by linarith
qed

lemma product_error:
  fixes a a' b b' :: real
  assumes "\<bar>a - a'\<bar> \<le> e" "\<bar>b - b'\<bar> \<le> f" "\<bar>b\<bar> \<le> 2" "\<bar>a'\<bar> \<le> m"
  shows "\<bar>a * b - a' * b'\<bar> \<le> 2 * e + m * f"
proof -
  have "a * b - a' * b' = (a - a') * b + a' * (b - b')" by algebra
  then have "\<bar>a * b - a' * b'\<bar> \<le> \<bar>a - a'\<bar> * \<bar>b\<bar> + \<bar>a'\<bar> * \<bar>b - b'\<bar>" by (metis abs_mult abs_triangle_ineq)
  also have "\<dots> \<le> e * 2 + m * f" using assms by (intro add_mono mult_mono) linarith+
  finally show ?thesis by simp
qed

lemma jittered_error:
  assumes "1 \<le> d" "0 \<le> j" "j \<le> 1" "0 \<le> r" "r \<le> 1"
  shows "\<bar>jittered d j r - d * (1 + j * (2 * r - 1))\<bar> \<le> 32 * d * unit_roundoff"
    and "\<bar>d * j\<bar> \<le> d" "\<bar>rnd (2 * r) - 1\<bar> \<le> 2" "\<bar>rnd (d * j) * rnd (rnd (2 * r) - 1)\<bar> \<le> 4 * d"
      "\<bar>d + rnd (rnd (d * j) * rnd (rnd (2 * r) - 1))\<bar> \<le> 6 * d"
proof -
  define a where "a = rnd (d * j)"
  define s where "s = rnd (2 * r)"
  define b where "b = rnd (s - 1)"
  define p where "p = rnd (a * b)"
  define du where "du = d * unit_roundoff"
  have du: "unit_roundoff \<le> du" "du \<le> d / 1000" "0 < du" using assms(1) by (simp_all add: du_def)
  have "d * j \<le> d * 1" using assms by (intro mult_left_mono) simp_all
  moreover have "0 \<le> d * j" using assms by simp
  ultimately show dj: "\<bar>d * j\<bar> \<le> d" by simp
  have a: "\<bar>a - d * j\<bar> \<le> 2 * du" using rnd_within [OF dj assms(1)] by (simp add: a_def du_def)
  have s: "\<bar>s - 2 * r\<bar> \<le> 4 * unit_roundoff" using rnd_within [of "2 * r" 2] assms by (simp add: s_def)
  moreover have "4 * unit_roundoff \<le> 1" by simp
  ultimately show s1: "\<bar>rnd (2 * r) - 1\<bar> \<le> 2" unfolding s_def [symmetric] using assms(4,5) by linarith
  have "\<bar>b - (s - 1)\<bar> \<le> 4 * unit_roundoff" using rnd_within [of "s - 1" 2] s1 by (simp add: b_def s_def)
  then have b: "\<bar>b - (2 * r - 1)\<bar> \<le> 8 * unit_roundoff" using s by linarith
  have "8 * unit_roundoff \<le> 1" by simp
  then have b2: "\<bar>b\<bar> \<le> 2" using b assms by linarith
  have ab: "\<bar>a * b - d * j * (2 * r - 1)\<bar> \<le> 12 * du"
    using product_error [OF a b b2 dj] by (simp add: du_def)
  have "\<bar>2 * r - 1\<bar> \<le> 1" using assms by simp
  then have t: "\<bar>d * j * (2 * r - 1)\<bar> \<le> d" using dj mult_mono [of "\<bar>d * j\<bar>" d "\<bar>2 * r - 1\<bar>" 1] assms(1) by (simp add: abs_mult)
  have "\<bar>a * b\<bar> \<le> 2 * d" using ab t du(2) assms(1) by linarith
  then have p: "\<bar>p - a * b\<bar> \<le> 4 * du" using rnd_within [of "a * b" "2 * d"] assms(1) by (simp add: p_def du_def)
  show "\<bar>rnd (d * j) * rnd (rnd (2 * r) - 1)\<bar> \<le> 4 * d" using \<open>\<bar>a * b\<bar> \<le> 2 * d\<close> assms(1) by (simp add: a_def b_def s_def)
  have "\<bar>d + p\<bar> \<le> 3 * d" using p ab t du(2) assms(1) by linarith
  then show "\<bar>d + rnd (rnd (d * j) * rnd (rnd (2 * r) - 1))\<bar> \<le> 6 * d" using assms(1) by (simp add: p_def a_def b_def s_def)
  have "\<bar>rnd (d + p) - (d + p)\<bar> \<le> 6 * du" using rnd_within [of "d + p" "3 * d"] \<open>\<bar>d + p\<bar> \<le> 3 * d\<close> assms(1) by (simp add: du_def)
  moreover have "jittered d j r = rnd (d + p)" by (simp add: jittered_def p_def a_def b_def s_def)
  moreover have "d * (1 + j * (2 * r - 1)) = d + d * j * (2 * r - 1)" by algebra
  ultimately have "\<bar>jittered d j r - d * (1 + j * (2 * r - 1))\<bar> \<le> 32 * du" using p ab du(3) by linarith
  then show "\<bar>jittered d j r - d * (1 + j * (2 * r - 1))\<bar> \<le> 32 * d * unit_roundoff" by (simp add: du_def)
qed

lemma jitter_float:
  assumes "1 \<le> d" "d \<le> 2 ^ 53" "0 \<le> j" "j \<le> 1" "0 \<le> r" "r \<le> 1"
  shows "fadd (Fin d) (fmul (fmul (Fin d) (Fin j)) (fsub (fmul (Fin 2) (Fin r)) (Fin 1))) = Fin (jittered d j r)"
proof -
  note e = jittered_error [OF assms(1,3-6)]
  have "(6 :: real) * 2 ^ 53 \<le> 2 ^ 3 * 2 ^ 53" by simp
  also have "\<dots> = 2 ^ 56" by simp
  also have "\<dots> \<le> 2 ^ 1000" by (intro power_increasing) simp_all
  finally have big: "\<bar>x\<bar> \<le> 2 ^ 1000" if "\<bar>x\<bar> \<le> 6 * d" for x :: real using that assms(2) by linarith
  have "fl (2 * r) = Fin (rnd (2 * r))" "fl (d * j) = Fin (rnd (d * j))" "fl (rnd (2 * r) - 1) = Fin (rnd (rnd (2 * r) - 1))"
    "fl (rnd (d * j) * rnd (rnd (2 * r) - 1)) = Fin (rnd (rnd (d * j) * rnd (rnd (2 * r) - 1)))"
    "fl (d + rnd (rnd (d * j) * rnd (rnd (2 * r) - 1))) = Fin (jittered d j r)"
    using e assms unfolding jittered_def by (intro fl_finite big; linarith)+
  then show ?thesis by (simp add: fsub_def)
qed

section \<open>The delay\<close>

lemma approx_error:
  assumes "approx k y d" "0 \<le> y"
  shows "\<bar>d - y\<bar> \<le> y * ((1 + unit_roundoff) ^ k - 1)"
proof -
  have "1 + real k * unit_roundoff \<le> (1 + unit_roundoff) ^ k" "1 + real k * (- unit_roundoff) \<le> (1 + (- unit_roundoff)) ^ k"
    by (rule Bernoulli_inequality; simp)+
  then have "1 - (1 - unit_roundoff) ^ k \<le> (1 + unit_roundoff) ^ k - 1" by simp
  then have "y * (1 - (1 - unit_roundoff) ^ k) \<le> y * ((1 + unit_roundoff) ^ k - 1)" using assms(2) by (rule mult_left_mono)
  then show ?thesis using assms(1) unfolding approx_def right_diff_distrib by linarith
qed

lemma total_error:
  assumes "approx k C D" "0 \<le> C" "\<bar>q\<bar> \<le> 2" "\<bar>x - D * q\<bar> \<le> 32 * D * unit_roundoff"
  shows "\<bar>x - C * q\<bar> \<le> 2 * C * ((1 + unit_roundoff) ^ (k + 16) - 1)"
proof -
  define P where "P = (1 + unit_roundoff) ^ k"
  have "\<bar>D * q - C * q\<bar> = \<bar>D - C\<bar> * \<bar>q\<bar>" by (simp add: abs_mult left_diff_distrib [symmetric])
  also have "\<dots> \<le> (C * (P - 1)) * 2" using approx_error [OF assms(1,2)] assms(3) by (intro mult_mono) (simp_all add: P_def)
  finally have 1: "\<bar>D * q - C * q\<bar> \<le> 2 * C * P - 2 * C" by (simp add: right_diff_distrib)
  have "D * unit_roundoff \<le> C * P * unit_roundoff" using assms(1) by (intro mult_right_mono) (simp_all add: approx_def P_def)
  then have 2: "32 * D * unit_roundoff \<le> 2 * C * P * (16 * unit_roundoff)" by simp
  have "1 + real 16 * unit_roundoff \<le> (1 + unit_roundoff) ^ 16" by (rule Bernoulli_inequality) simp
  then have "2 * C * P * (1 + 16 * unit_roundoff) \<le> 2 * C * P * (1 + unit_roundoff) ^ 16" using assms(2) by (intro mult_left_mono) (simp_all add: P_def)
  then have 3: "2 * C * P + 2 * C * P * (16 * unit_roundoff) \<le> 2 * C * (1 + unit_roundoff) ^ (k + 16)" by (simp add: P_def power_add distrib_left mult.assoc)
  have "\<bar>x - C * q\<bar> \<le> \<bar>x - D * q\<bar> + \<bar>D * q - C * q\<bar>" by linarith
  then show ?thesis using 1 2 3 assms(4) unfolding right_diff_distrib by linarith
qed

lemma loop_result:
  assumes "0 < Base c" "Base c < 2 ^ 63" "0 < Max c" "Max c \<le> 2 ^ 53"
    and "Factor c = NaN \<and> n = 0 \<or> Factor c = PInf \<or> (\<exists>f > 1. Factor c = Fin f)"
  shows "\<exists>L. delay_loop (Factor c) (float64_of (Max c)) n (float64_of (Base c)) = Fin L \<and> 1 \<le> L
    \<and> approx (Suc n) (capped c n) (min (real_of_int (Max c)) L)"
proof -
  define y M where "y = real_of_int (Base c)" and "M = real_of_int (Max c)"
  define d where "d = rnd y"
  have y: "1 \<le> y" "y \<le> 2 ^ 63" using assms(1,2) unfolding y_def by (simp_all)
  have M: "1 \<le> M" "M \<le> 2 ^ 53" using assms(3,4) unfolding M_def by simp_all
  have "(2 :: real) ^ 63 \<le> 2 ^ 1000" "(2 :: real) ^ 53 < 2 ^ 1024" by (intro power_increasing power_strict_increasing; simp)+
  then have fin: "float64_of (Base c) = Fin d" "float64_of (Max c) = Fin M" "M < 2 ^ 1024"
    using y M assms(3,4) float64_of_exact [of "Max c"] unfolding d_def y_def by (simp_all add: float64_of_def fl_finite M_def)
  have a: "approx 1 y d" "1 \<le> d" using approx_round [OF approx_exact y(1)] rnd_ge_one(1) [OF y(1)] by (simp_all add: d_def)
  have start: "approx (Suc n) (min M y) (min M d)" using approx_more [OF approx_cap [OF a(1)], of M "Suc n"] y M by simp
  consider "Factor c = NaN" "n = 0" | "Factor c = PInf" | f where "1 < f" "Factor c = Fin f" using assms(5) by blast
  then show ?thesis
  proof cases
    case 1
    then show ?thesis using start a fin by (simp add: capped_def y_def M_def)
  next
    case 2
    then show ?thesis using start a fin M approx_more [OF approx_exact [of M], of "Suc n"]
      by (cases n) (simp_all add: capped_def y_def M_def inf_signed_def)
  next
    case 3
    then show ?thesis using delay_loop_approx [OF a, of f M n] y M fin by (auto simp: capped_def y_def M_def)
  qed
qed

lemma delay_value:
  assumes "delay_loop (Factor c) (float64_of (Max c)) (nat (attempt - 1)) (float64_of (Base c)) = Fin L" "1 \<le> L"
    and "0 < Max c" "Max c \<le> 2 ^ 53" "Jitter c = NaN \<or> (\<exists>j. 0 < j \<and> j < 1 \<and> Jitter c = Fin j)" "0 \<le> r" "r < 1"
  defines "M \<equiv> real_of_int (Max c)"
  defines "D \<equiv> min M L"
  shows "\<exists>x. delay c attempt (Fin r) = Some \<lfloor>max 0 (min M x)\<rfloor> \<and> \<bar>x - D * (1 + spread c * (2 * r - 1))\<bar> \<le> 32 * D * unit_roundoff"
proof -
  have M: "1 \<le> M" "M \<le> 2 ^ 53" "float64_of (Max c) = Fin M" using assms(3,4) float64_of_exact [of "Max c"] by (simp_all add: M_def)
  note L = assms(1) [unfolded M(3)]
  have D: "1 \<le> D" "D \<le> 2 ^ 53" using M assms(2) by (simp_all add: D_def)
  define x where "x = (case Jitter c of Fin j \<Rightarrow> jittered D j r | _ \<Rightarrow> D)"
  have n: "nat ((if attempt < 1 then 1 else attempt) - 1) = nat (attempt - 1)" by simp
  have cut: "(if flt (Fin M) (Fin z) then Fin M else Fin z) = Fin (min M z)" "(if flt (Fin z) (Fin 0) then Fin 0 else Fin z) = Fin (max 0 z)" for z
    by (auto simp: min_def max_def)
  have "(if flt (Fin 0) (Jitter c) then fadd (Fin D) (fmul (fmul (Fin D) (Jitter c)) (fsub (fmul (Fin 2) (Fin r)) (Fin 1))) else Fin D) = Fin x"
    using assms(5) jitter_float [OF D, of _ r] assms(6,7) by (auto simp: x_def)
  then have "delay c attempt (Fin r) = to_int64 (Fin (max 0 (min M x)))"
    unfolding delay_def Let_def n M(3) L cut D_def [symmetric] by (simp only: cut)
  moreover have "0 \<le> \<lfloor>max 0 (min M x)\<rfloor>" "\<lfloor>max 0 (min M x)\<rfloor> < 2 ^ 63"
  proof -
    have "\<lfloor>max 0 (min M x)\<rfloor> \<le> Max c" using assms(3) by (simp add: M_def floor_le_iff)
    also have "\<dots> < 2 ^ 63" using assms(4) by simp
    finally show "\<lfloor>max 0 (min M x)\<rfloor> < 2 ^ 63" .
  qed simp
  ultimately have "delay c attempt (Fin r) = Some \<lfloor>max 0 (min M x)\<rfloor>" using to_int64_floor [of "max 0 (min M x)"] by simp
  moreover have "\<bar>x - D * (1 + spread c * (2 * r - 1))\<bar> \<le> 32 * D * unit_roundoff"
    using assms(5) jittered_error(1) [OF D(1), of _ r] assms(6,7) D(1) by (auto simp: x_def spread_def)
  ultimately show ?thesis by blast
qed

lemma delay_loop_NaN: "delay_loop NaN maxF n NaN = NaN"
  by (induction n) simp_all

lemma delay_NaN:
  assumes "Factor c = NaN" "1 < attempt"
  shows "delay c attempt r = None"
proof -
  obtain n where "nat (attempt - 1) = Suc n" using assms(2) by (cases "nat (attempt - 1)") simp_all
  then show ?thesis using assms by (simp add: delay_def Let_def delay_loop_NaN)
qed

text \<open>
  C31. The reconnect schedule is the one the comments describe, as far as \<open>float64\<close> arithmetic can follow it. Let the maximum be at most \<open>2 ^ 53\<close> nanoseconds (104
  days), so that it is a \<open>float64\<close>. For every configuration, with the defaults filled in, every attempt and every random number in \<open>[0, 1)\<close>, the delay is between
  zero and the maximum, and it differs from the exact schedule (the base times the factor to the number of earlier failures, capped, spread by the jitter, capped
  again) by less than the nanosecond that dropping the fraction costs and one relative rounding error for each operation. Only a NaN factor, which \<open>withDefaults\<close>
  lets through, breaks the schedule: from the second attempt on the delay is then the conversion of NaN to an integer, which the language leaves undefined.
\<close>

theorem backoff_schedule:
  assumes "0 \<le> r" "r < 1" "Base b < 2 ^ 63" "Max (withDefaults b) \<le> 2 ^ 53"
  shows "let c = withDefaults b; n = nat (attempt - 1) in
    if Factor c = NaN \<and> 0 < n then delay c attempt (Fin r) = None
    else \<exists>t. delay c attempt (Fin r) = Some t \<and> 0 \<le> t \<and> t \<le> Max c
      \<and> \<bar>real_of_int t - ideal_delay c n r\<bar> \<le> 1 + 2 * capped c n * ((1 + unit_roundoff) ^ (n + 17) - 1)"
proof -
  define c where "c = withDefaults b"
  define n where "n = nat (attempt - 1)"
  define M where "M = real_of_int (Max c)"
  note res = withDefaults_resolved [of b, folded c_def]
  have bounded: "Max c \<le> 2 ^ 53" using assms(4) by (simp add: c_def)
  have base: "Base c < 2 ^ 63" using assms(3) by (simp add: c_def withDefaults_def DefaultBase_def)
  have "\<exists>t. delay c attempt (Fin r) = Some t \<and> 0 \<le> t \<and> t \<le> Max c
      \<and> \<bar>real_of_int t - ideal_delay c n r\<bar> \<le> 1 + 2 * capped c n * ((1 + unit_roundoff) ^ (n + 17) - 1)" if "\<not> (Factor c = NaN \<and> 0 < n)"
  proof -
    define q where "q = 1 + spread c * (2 * r - 1)"
    have "\<bar>spread c\<bar> * \<bar>2 * r - 1\<bar> \<le> 1 * 1" using res(4) assms(1,2) by (intro mult_mono) (auto simp: spread_def)
    then have q: "0 \<le> q" "\<bar>q\<bar> \<le> 2" unfolding q_def abs_mult [symmetric] by linarith+
    have factor: "Factor c = NaN \<and> n = 0 \<or> Factor c = PInf \<or> (\<exists>f > 1. Factor c = Fin f)" using res(3) that by auto
    obtain L where L: "delay_loop (Factor c) (float64_of (Max c)) n (float64_of (Base c)) = Fin L" "1 \<le> L" "approx (Suc n) (capped c n) (min M L)"
      using loop_result [OF res(1) base res(2) bounded factor] unfolding M_def by blast
    have C: "0 \<le> capped c n" using res by (auto simp: capped_def split: float64.split)
    obtain x where x: "delay c attempt (Fin r) = Some \<lfloor>max 0 (min M x)\<rfloor>" "\<bar>x - min M L * q\<bar> \<le> 32 * min M L * unit_roundoff"
      using delay_value [OF L(1) [unfolded n_def] L(2) res(2) bounded res(4) assms(1,2)] unfolding M_def q_def by blast
    have "\<bar>x - capped c n * q\<bar> \<le> 2 * capped c n * ((1 + unit_roundoff) ^ (n + 17) - 1)" using total_error [OF L(3) C q(2) x(2)] by (simp only: add_Suc_shift) simp
    moreover have "\<bar>max 0 (min M x) - min M (capped c n * q)\<bar> \<le> \<bar>x - capped c n * q\<bar>"
      using mult_nonneg_nonneg [OF C q(1)] res(2) by (auto simp: M_def min_def max_def)
    moreover have "ideal_delay c n r = min M (capped c n * q)" by (simp add: ideal_delay_def M_def q_def)
    moreover have "\<bar>real_of_int \<lfloor>max 0 (min M x)\<rfloor> - max 0 (min M x)\<bar> \<le> 1" by linarith
    moreover have "0 \<le> \<lfloor>max 0 (min M x)\<rfloor>" "\<lfloor>max 0 (min M x)\<rfloor> \<le> Max c" using res(2) by (simp_all add: M_def floor_le_iff)
    moreover have "\<bar>t - i\<bar> \<le> 1 + E" if "\<bar>x - p\<bar> \<le> E" "\<bar>m - i\<bar> \<le> \<bar>x - p\<bar>" "\<bar>t - m\<bar> \<le> 1" for t i m p E :: real
      using that by linarith
    ultimately show ?thesis using x(1) by metis
  qed
  moreover have "delay c attempt (Fin r) = None" if "Factor c = NaN" "0 < n" using delay_NaN [of c attempt] that by (simp add: n_def)
  ultimately show ?thesis unfolding c_def [symmetric] n_def [symmetric] Let_def by presburger
qed

text \<open>The third attempt of the default schedule, in the middle of the spread: two seconds.\<close>

theorem backoff_schedule_witness:
  "\<exists>t. delay (withDefaults \<lparr>Base = 0, Max = 0, Factor = Fin 0, Jitter = Fin 0\<rparr>) 3 (Fin (1 / 2)) = Some t \<and> \<bar>t - 2000000000\<bar> \<le> 1"
proof -
  define c where "c = withDefaults \<lparr>Base = 0, Max = 0, Factor = Fin 0, Jitter = Fin 0\<rparr>"
  have c: "Base c = 500000000" "Max c = 30000000000" "Factor c = Fin 2"
    by (simp_all add: c_def withDefaults_def DefaultBase_def DefaultMax_def DefaultFactor_def)
  then have "capped c 2 = 2000000000" "ideal_delay c 2 (1 / 2) = 2000000000" by (simp_all add: capped_def ideal_delay_def)
  moreover have "2 * 2000000000 * ((1 + unit_roundoff) ^ (2 + 17) - 1) < 1 / 2" by (simp add: power_divide)
  ultimately obtain t where "delay c 3 (Fin (1 / 2)) = Some t" "\<bar>real_of_int t - 2000000000\<bar> \<le> 1 + 1 / 2"
    using backoff_schedule [of "1 / 2" "\<lparr>Base = 0, Max = 0, Factor = Fin 0, Jitter = Fin 0\<rparr>" 3] c unfolding c_def [symmetric] by (auto simp: Let_def)
  moreover from this have "\<bar>t - 2000000000\<bar> \<le> 1" by linarith
  ultimately show ?thesis unfolding c_def by blast
qed

end
