(* ===== verification/Strings.thy ===== *)
theory Strings
  imports Prelude "HOL-Library.Sublist"
begin

text \<open>
  The functions of Go's \<open>strings\<close> and \<open>strconv\<close> packages that the text protocols use. A Go string is the list of
  its bytes. \<open>TrimSpace\<close> knows the white space of Unicode in its UTF-8 encoding; \<open>ToLower\<close>, \<open>ToUpper\<close>
  and \<open>EqualFold\<close> change the ASCII letters and leave every other byte as it is, which is what they do to ASCII
  text, the only text the protocol elements they are applied to admit.
\<close>

section \<open>Literals\<close>

definition lit :: "string \<Rightarrow> bytes" where
  "lit s = map of_char s"

lemma lit_simps: "lit [] = []" "lit (c # s) = of_char c # lit s"
  by (simp_all add: lit_def)

lemma length_lit [simp]: "length (lit s) = length s"
  by (simp add: lit_def)

abbreviation LF :: byte where "LF \<equiv> 10"
abbreviation CR :: byte where "CR \<equiv> 13"
abbreviation SP :: byte where "SP \<equiv> 32"

section \<open>Letters\<close>

definition lower_byte :: "byte \<Rightarrow> byte" where
  "lower_byte c = (if 65 \<le> c \<and> c \<le> 90 then c + 32 else c)"

definition upper_byte :: "byte \<Rightarrow> byte" where
  "upper_byte c = (if 97 \<le> c \<and> c \<le> 122 then c - 32 else c)"

definition ToLower :: "bytes \<Rightarrow> bytes" where "ToLower = map lower_byte"
definition ToUpper :: "bytes \<Rightarrow> bytes" where "ToUpper = map upper_byte"

definition EqualFold :: "bytes \<Rightarrow> bytes \<Rightarrow> bool" where
  "EqualFold a b \<longleftrightarrow> ToLower a = ToLower b"

lemma ToLower_simps [simp]:
  "ToLower [] = []" "ToLower (c # s) = lower_byte c # ToLower s" "ToLower (a @ b) = ToLower a @ ToLower b"
  "length (ToLower s) = length s"
  by (simp_all add: ToLower_def)

lemma ToUpper_simps [simp]:
  "ToUpper [] = []" "ToUpper (c # s) = upper_byte c # ToUpper s" "ToUpper (a @ b) = ToUpper a @ ToUpper b"
  "length (ToUpper s) = length s"
  by (simp_all add: ToUpper_def)

lemma lower_lower [simp]: "lower_byte (lower_byte c) = lower_byte c"
  unfolding lower_byte_def by (simp add: word_le_nat_alt unat_word_ariths split: if_splits)

lemma lower_upper [simp]: "lower_byte (upper_byte c) = lower_byte c"
  unfolding lower_byte_def upper_byte_def by (simp add: word_le_nat_alt unat_word_ariths unat_sub_if' split: if_splits) arith

lemma ToLower_idem [simp]: "ToLower (ToLower s) = ToLower s"
  by (simp add: ToLower_def)

lemma EqualFold_refl [simp]: "EqualFold s s"
  by (simp add: EqualFold_def)

section \<open>Cutting and joining\<close>

text \<open>\<open>Cut\<close> and \<open>Split\<close> at a separator of one byte, and \<open>SplitN\<close>.\<close>

fun Cut :: "byte \<Rightarrow> bytes \<Rightarrow> bytes \<times> bytes \<times> bool" where
  "Cut sep [] = ([], [], False)"
| "Cut sep (c # s) = (if c = sep then ([], s, True) else let (a, b, found) = Cut sep s in (c # a, b, found))"

fun Split :: "byte \<Rightarrow> bytes \<Rightarrow> bytes list" where
  "Split sep [] = [[]]"
| "Split sep (c # s) =
     (if c = sep then [] # Split sep s else case Split sep s of [] \<Rightarrow> [[c]] | x # xs \<Rightarrow> (c # x) # xs)"

fun SplitN :: "byte \<Rightarrow> nat \<Rightarrow> bytes \<Rightarrow> bytes list" where
  "SplitN sep 0 s = []"
| "SplitN sep (Suc 0) s = [s]"
| "SplitN sep (Suc (Suc n)) s = (let (a, b, found) = Cut sep s in if found then a # SplitN sep (Suc n) b else [a])"

fun Join :: "bytes \<Rightarrow> bytes list \<Rightarrow> bytes" where
  "Join sep [] = []"
| "Join sep [s] = s"
| "Join sep (s # s' # ss) = s @ sep @ Join sep (s' # ss)"

definition TrimPrefix :: "bytes \<Rightarrow> bytes \<Rightarrow> bytes" where
  "TrimPrefix p s = (if prefix p s then drop (length p) s else s)"

definition TrimSuffix :: "bytes \<Rightarrow> bytes \<Rightarrow> bytes" where
  "TrimSuffix p s = (if suffix p s then take (length s - length p) s else s)"

lemma Cut_absent: "sep \<notin> set s \<Longrightarrow> Cut sep s = (s, [], False)"
  by (induction s) auto

lemma Cut_found: "sep \<notin> set a \<Longrightarrow> Cut sep (a @ sep # b) = (a, b, True)"
  by (induction a) auto

lemma Split_not_Nil [simp]: "Split sep s \<noteq> []"
  by (cases s) (auto split: list.split)

lemma Split_absent: "sep \<notin> set s \<Longrightarrow> Split sep s = [s]"
  by (induction s) auto

lemma Split_found: "sep \<notin> set a \<Longrightarrow> Split sep (a @ sep # b) = a # Split sep b"
  by (induction a) auto

lemma Join_Split: "Join [sep] (Split sep s) = s"
proof (induction s)
  case (Cons c s)
  obtain x xs where "Split sep s = x # xs" by (cases "Split sep s") auto
  then show ?case using Cons by (cases xs) auto
qed simp

lemma Join_map: "(\<And>s. f s = map g s) \<Longrightarrow> map g (Join sep ss) = Join (map g sep) (map f ss)"
  by (induction sep ss rule: Join.induct) auto

section \<open>White space\<close>

text \<open>The encodings of the characters \<open>unicode.IsSpace\<close> accepts.\<close>

definition spaces :: "bytes list" where
  "spaces = [[9], [10], [11], [12], [13], [32], [0xC2, 0x85], [0xC2, 0xA0], [0xE1, 0x9A, 0x80]]
     @ map (\<lambda>b. [0xE2, 0x80, b]) [0x80, 0x81, 0x82, 0x83, 0x84, 0x85, 0x86, 0x87, 0x88, 0x89, 0x8A, 0xA8, 0xA9, 0xAF]
     @ [[0xE2, 0x81, 0x9F], [0xE3, 0x80, 0x80]]"

function trim_front :: "bytes list \<Rightarrow> bytes \<Rightarrow> bytes" where
  "trim_front ps s =
     (case find (\<lambda>p. p \<noteq> [] \<and> prefix p s) ps of None \<Rightarrow> s | Some p \<Rightarrow> trim_front ps (drop (length p) s))"
  by pat_completeness auto
termination
  by (relation "measure (\<lambda>(ps, s). length s)") (auto simp: find_Some_iff prefix_def)

declare trim_front.simps [simp del]

definition TrimSpace :: "bytes \<Rightarrow> bytes" where
  "TrimSpace s = rev (trim_front (map rev spaces) (rev (trim_front spaces s)))"

lemma trim_front_none: "(\<And>p. p \<in> set ps \<Longrightarrow> p \<noteq> [] \<Longrightarrow> \<not> prefix p s) \<Longrightarrow> trim_front ps s = s"
proof -
  assume "\<And>p. p \<in> set ps \<Longrightarrow> p \<noteq> [] \<Longrightarrow> \<not> prefix p s"
  then have "find (\<lambda>p. p \<noteq> [] \<and> prefix p s) ps = None" by (auto simp: find_None_iff)
  then show ?thesis by (subst trim_front.simps) simp
qed

text \<open>Text that begins and ends with printing ASCII characters is not trimmed.\<close>

definition printing :: "byte \<Rightarrow> bool" where
  "printing c \<longleftrightarrow> 33 \<le> c \<and> c < 127"

lemma spaces_first: "p \<in> set spaces \<Longrightarrow> \<exists>c cs. p = c # cs \<and> \<not> printing c"
  by (auto simp: spaces_def printing_def)

lemma spaces_last: "p \<in> set (map rev spaces) \<Longrightarrow> \<exists>c cs. p = c # cs \<and> \<not> printing c"
  by (auto simp: spaces_def printing_def)

lemma TrimSpace_printing:
  assumes "s \<noteq> []" "printing (hd s)" "printing (last s)"
  shows "TrimSpace s = s"
proof -
  have "trim_front spaces s = s" using assms(1,2) spaces_first
    by (intro trim_front_none) (cases s; fastforce)
  moreover have "trim_front (map rev spaces) (rev s) = rev s" using assms(1,3) spaces_last
    by (intro trim_front_none) (cases "rev s"; fastforce simp: last_rev hd_rev simp flip: hd_rev)
  ultimately show ?thesis by (simp add: TrimSpace_def)
qed

section \<open>Numbers\<close>

text \<open>\<open>strconv.Itoa\<close>, and \<open>strconv.Atoi\<close>: an optional sign, decimal digits, and a value that fits 64 bits.\<close>

fun digits :: "nat \<Rightarrow> bytes" where
  "digits n = (if n < 10 then [48 + word_of_nat n] else digits (n div 10) @ [48 + word_of_nat (n mod 10)])"

declare digits.simps [simp del]

definition Itoa :: "int \<Rightarrow> bytes" where
  "Itoa i = (if i < 0 then 45 # digits (nat (- i)) else digits (nat i))"

fun atoi_digits :: "nat \<Rightarrow> bytes \<Rightarrow> nat option" where
  "atoi_digits acc [] = Some acc"
| "atoi_digits acc (c # s) = (if 48 \<le> c \<and> c \<le> 57 then atoi_digits (acc * 10 + unat (c - 48)) s else None)"

definition Atoi :: "bytes \<Rightarrow> int option" where
  "Atoi s =
     (let (neg, d) = (case s of [] \<Rightarrow> (False, []) | c # cs \<Rightarrow> if c = 45 then (True, cs) else if c = 43 then (False, cs) else (False, s))
      in if d = [] then None
         else case atoi_digits 0 d of
             None \<Rightarrow> None
           | Some n \<Rightarrow> let v = (if neg then - int n else int n) in if - (2 ^ 63) \<le> v \<and> v < 2 ^ 63 then Some v else None)"

definition is_digit :: "byte \<Rightarrow> bool" where
  "is_digit c \<longleftrightarrow> 48 \<le> c \<and> c \<le> 57"

lemma digit_byte: "n < 10 \<Longrightarrow> is_digit (48 + word_of_nat n) \<and> unat (48 + word_of_nat n :: byte) = 48 + n"
proof -
  assume "n < 10"
  then have "unat (word_of_nat n :: byte) = n" by (simp add: unat_word_of_nat_small)
  then show ?thesis using \<open>n < 10\<close> by (simp add: is_digit_def word_le_nat_alt unat_word_ariths)
qed

lemma atoi_digits_append:
  "atoi_digits acc (a @ b) = (case atoi_digits acc a of None \<Rightarrow> None | Some v \<Rightarrow> atoi_digits v b)"
  by (induction a arbitrary: acc) auto

lemma digits_roundtrip: "atoi_digits 0 (digits n) = Some n"
proof (induction n rule: digits.induct)
  case (1 n)
  have "atoi_digits acc [48 + word_of_nat d] = Some (acc * 10 + d)" if "d < 10" for acc d
    using digit_byte [OF that] that by (simp add: is_digit_def unat_word_of_nat_small)
  from this [of "n mod 10"] this [of n 0] show ?case
    using 1 by (subst digits.simps) (auto simp: atoi_digits_append)
qed

lemma digits_are_digits: "set (digits n) \<subseteq> {c. is_digit c} \<and> digits n \<noteq> []"
proof (induction n rule: digits.induct)
  case (1 n)
  then show ?case using digit_byte [of n] digit_byte [of "n mod 10"] by (subst (1 2) digits.simps) auto
qed

lemma digit_facts: "is_digit c \<Longrightarrow> printing c \<and> c \<notin> {LF, CR, SP, 43, 45, 58}"
  by (auto simp: is_digit_def printing_def word_le_nat_alt word_less_nat_alt)

text \<open>The characters of a printed number.\<close>

lemma Itoa_chars: "Itoa i \<noteq> [] \<and> (\<forall>c \<in> set (Itoa i). printing c \<and> c \<notin> {LF, CR, SP, 58})"
proof -
  have "c \<in> set (digits n) \<Longrightarrow> printing c \<and> c \<notin> {LF, CR, SP, 58}" for n c
    using digits_are_digits [of n] digit_facts [of c] by auto
  moreover have "printing 45" by (simp add: printing_def)
  ultimately show ?thesis using digits_are_digits by (simp add: Itoa_def)
qed

lemma Atoi_Itoa: "- (2 ^ 63) \<le> i \<Longrightarrow> i < 2 ^ 63 \<Longrightarrow> Atoi (Itoa i) = Some i"
proof (cases "i < 0")
  case True
  moreover assume "- (2 ^ 63) \<le> i"
  ultimately show ?thesis using digits_are_digits [of "nat (- i)"] by (simp add: Atoi_def Itoa_def digits_roundtrip)
next
  case False
  moreover assume "i < 2 ^ 63"
  moreover obtain c cs where d: "digits (nat i) = c # cs" using digits_are_digits [of "nat i"] by (cases "digits (nat i)") auto
  then have "c \<noteq> 45" "c \<noteq> 43" using digits_are_digits [of "nat i"] digit_facts [of c] by auto
  moreover have "atoi_digits 0 (c # cs) = Some (nat i)" using digits_roundtrip [of "nat i"] d by simp
  ultimately show ?thesis unfolding Atoi_def Itoa_def by (simp add: d del: atoi_digits.simps)
qed

lemma length_digits: "n < 10 ^ Suc k \<Longrightarrow> length (digits n) \<le> Suc k"
proof (induction k arbitrary: n)
  case (Suc k)
  then have "n div 10 < 10 ^ Suc k" by (simp add: div_less_iff_less_mult)
  then show ?case using Suc.IH [of "n div 10"] by (subst digits.simps) simp
qed (subst digits.simps, simp)

lemma length_Itoa: "- (2 ^ 63) \<le> i \<Longrightarrow> i < 2 ^ 63 \<Longrightarrow> length (Itoa i) \<le> 20"
  using length_digits [of "nat i" 18] length_digits [of "nat (- i)" 18] by (cases "i < 0") (simp_all add: Itoa_def nat_less_iff)

lemma TrimSpace_Itoa [simp]: "TrimSpace (Itoa i) = Itoa i"
  using Itoa_chars [of i] by (intro TrimSpace_printing) auto

end
