(* ===== verification/RTSP_Message.thy ===== *)
theory RTSP_Message
  imports Strings "HOL-Library.AList" "HOL-Library.List_Lexorder"
begin

text \<open>
  RTSP messages and interleaved frames, \<open>src/rtsp/message.go\<close>: header fields keyed by canonical name, the
  serializers of requests and responses, the parsers with their caps, the stream classifier and the interleaved
  framing. A \<open>Header\<close> map is an association list with distinct keys; its order has no meaning. The serializer
  writes the fields in the order of their canonical names.
\<close>

section \<open>Caps and errors\<close>

definition MaxHeaderBytes :: nat where [caps]: "MaxHeaderBytes = 64 * 1024"
definition MaxHeaderLines :: nat where [caps]: "MaxHeaderLines = 255"
definition MaxHeaderNameLen :: nat where [caps]: "MaxHeaderNameLen = 512"
definition MaxHeaderValueLen :: nat where [caps]: "MaxHeaderValueLen = 2048"
definition MaxMethodLen :: nat where [caps]: "MaxMethodLen = 64"
definition MaxVersionLen :: nat where [caps]: "MaxVersionLen = 64"
definition MaxRequestURILen :: nat where [caps]: "MaxRequestURILen = 2048"
definition MaxReasonLen :: nat where [caps]: "MaxReasonLen = 512"
definition MaxBodySize :: nat where [caps]: "MaxBodySize = 128 * 1024"
definition MaxInterleavedFrame :: nat where [caps]: "MaxInterleavedFrame = 65535"
definition interleavedHeaderLen :: nat where [caps]: "interleavedHeaderLen = 4"

datatype rtsp_error =
    ErrIncomplete | ErrHeadersTooLarge | ErrTooManyHeaders | ErrHeaderNameTooLong | ErrHeaderValueTooLong
  | ErrBodyTooLarge | ErrMalformedStatusLine | ErrMalformedRequestLine | ErrMalformedHeader | ErrBadContentLength
  | ErrNotInterleaved | ErrInterleavedTooLarge | ErrInvalidRequest | ErrInvalidResponse

section \<open>Header fields\<close>

definition canonicalHeaderOverrides :: "(bytes \<times> bytes) list" where
  "canonicalHeaderOverrides = map (\<lambda>(k, v). (lit k, lit v))
     [(''cseq'', ''CSeq''), (''content-length'', ''Content-Length''), (''content-type'', ''Content-Type''),
      (''content-base'', ''Content-Base''), (''content-location'', ''Content-Location''),
      (''www-authenticate'', ''WWW-Authenticate''), (''authorization'', ''Authorization''), (''session'', ''Session''),
      (''transport'', ''Transport''), (''public'', ''Public''), (''rtp-info'', ''RTP-Info''), (''location'', ''Location''),
      (''range'', ''Range''), (''user-agent'', ''User-Agent''), (''server'', ''Server''), (''date'', ''Date'')]"

definition title_token :: "bytes \<Rightarrow> bytes" where
  "title_token tok = (case tok of [] \<Rightarrow> [] | c # cs \<Rightarrow> upper_byte c # cs)"

definition canonicalHeaderName :: "bytes \<Rightarrow> bytes" where
  "canonicalHeaderName name =
     (let lower = ToLower name in
      case map_of canonicalHeaderOverrides lower of
        Some c \<Rightarrow> c
      | None \<Rightarrow> Join [45] (map title_token (Split 45 lower)))"

type_synonym rtsp_header = "(bytes \<times> bytes list) list"

definition Header_Values :: "rtsp_header \<Rightarrow> bytes \<Rightarrow> bytes list" where
  "Header_Values h name = (case map_of h (canonicalHeaderName name) of None \<Rightarrow> [] | Some vs \<Rightarrow> vs)"

definition Header_Get :: "rtsp_header \<Rightarrow> bytes \<Rightarrow> bytes" where
  "Header_Get h name = (case Header_Values h name of [] \<Rightarrow> [] | v # _ \<Rightarrow> v)"

definition Header_Set :: "rtsp_header \<Rightarrow> bytes \<Rightarrow> bytes \<Rightarrow> rtsp_header" where
  "Header_Set h name v = AList.update (canonicalHeaderName name) [v] h"

definition Header_Add :: "rtsp_header \<Rightarrow> bytes \<Rightarrow> bytes \<Rightarrow> rtsp_header" where
  "Header_Add h name v = AList.update (canonicalHeaderName name) (Header_Values h name @ [v]) h"

definition Header_Del :: "rtsp_header \<Rightarrow> bytes \<Rightarrow> rtsp_header" where
  "Header_Del h name = AList.delete (canonicalHeaderName name) h"

record rtsp_request =
  Method :: bytes
  URL :: bytes
  Req_CSeq :: int
  Req_Header :: rtsp_header
  Req_Body :: bytes

record rtsp_response =
  StatusCode :: int
  Reason :: bytes
  Resp_CSeq :: int
  Resp_Header :: rtsp_header
  Resp_Body :: bytes

section \<open>Serializing\<close>

definition hasCRLF :: "bytes \<Rightarrow> bool" where
  "hasCRLF s \<longleftrightarrow> list_ex (\<lambda>c. c = CR \<or> c = LF) s"

definition hasForbiddenURIByte :: "bytes \<Rightarrow> bool" where
  "hasForbiddenURIByte s \<longleftrightarrow> list_ex (\<lambda>c. c \<le> 0x20 \<or> c = 0x7f) s"

definition headerHasCRLF :: "rtsp_header \<Rightarrow> bool" where
  "headerHasCRLF h \<longleftrightarrow> list_ex (\<lambda>(name, vals). hasCRLF name \<or> list_ex hasCRLF vals) h"

definition writeControlHeaders :: "int \<Rightarrow> nat \<Rightarrow> bytes" where
  "writeControlHeaders cseq bodyLen =
     lit ''CSeq: '' @ Itoa cseq @ [CR, LF]
     @ (if bodyLen > 0 then lit ''Content-Length: '' @ Itoa (int bodyLen) @ [CR, LF] else [])"

definition writeSortedHeaders :: "rtsp_header \<Rightarrow> bytes" where
  "writeSortedHeaders h =
     (let fields = filter (\<lambda>(k, vs). canonicalHeaderName k \<notin> {lit ''CSeq'', lit ''Content-Length''}) h
      in concat (map (\<lambda>(k, vs). concat (map (\<lambda>v. canonicalHeaderName k @ [58, SP] @ v @ [CR, LF]) vs))
           (sort_key (\<lambda>(k, vs). canonicalHeaderName k) fields)))"

definition MarshalRequest :: "rtsp_request option \<Rightarrow> rtsp_error + bytes" where
  "MarshalRequest req = (case req of
     None \<Rightarrow> Inl ErrInvalidRequest
   | Some r \<Rightarrow>
       if Method r = [] \<or> URL r = [] then Inl ErrInvalidRequest
       else if length (Method r) > MaxMethodLen \<or> length (URL r) > MaxRequestURILen then Inl ErrInvalidRequest
       else if length (Req_Body r) > MaxBodySize then Inl ErrInvalidRequest
       else if hasCRLF (Method r) \<or> hasForbiddenURIByte (URL r) \<or> headerHasCRLF (Req_Header r) then Inl ErrInvalidRequest
       else Inr (Method r @ [SP] @ URL r @ lit '' RTSP/1.0'' @ [CR, LF]
              @ writeControlHeaders (Req_CSeq r) (length (Req_Body r)) @ writeSortedHeaders (Req_Header r)
              @ [CR, LF] @ Req_Body r))"

definition MarshalResponse :: "rtsp_response option \<Rightarrow> rtsp_error + bytes" where
  "MarshalResponse resp = (case resp of
     None \<Rightarrow> Inl ErrInvalidResponse
   | Some r \<Rightarrow>
       if StatusCode r < 100 \<or> StatusCode r > 999 then Inl ErrInvalidResponse
       else if length (Reason r) > MaxReasonLen \<or> length (Resp_Body r) > MaxBodySize then Inl ErrInvalidResponse
       else if hasCRLF (Reason r) \<or> headerHasCRLF (Resp_Header r) then Inl ErrInvalidResponse
       else Inr (lit ''RTSP/1.0 '' @ Itoa (StatusCode r) @ [SP] @ Reason r @ [CR, LF]
              @ writeControlHeaders (Resp_CSeq r) (length (Resp_Body r)) @ writeSortedHeaders (Resp_Header r)
              @ [CR, LF] @ Resp_Body r))"

section \<open>Parsing\<close>

text \<open>The loop of \<open>findHead\<close> from index \<open>i\<close>.\<close>

function head_from :: "bytes \<Rightarrow> nat \<Rightarrow> nat \<Rightarrow> (nat \<times> nat) option option" where
  "head_from buf limit i =
     (if i < limit then do {
        c \<leftarrow> idx buf i;
        if c \<noteq> LF then head_from buf limit (i + 1)
        else do {
          bare \<leftarrow> (if i \<ge> 1 then do { p \<leftarrow> idx buf (i - 1); Some (p = LF) } else Some False);
          if bare then Some (Some (i - 1, i + 1))
          else do {
            crlf \<leftarrow> (if i \<ge> 3 then do {
                       p \<leftarrow> idx buf (i - 1); q \<leftarrow> idx buf (i - 2); r \<leftarrow> idx buf (i - 3);
                       Some (p = CR \<and> q = LF \<and> r = CR) }
                     else Some False);
            if crlf then Some (Some (i - 3, i + 1)) else head_from buf limit (i + 1) } } }
      else Some None)"
  by pat_completeness auto
termination by (relation "measure (\<lambda>(buf, limit, i). limit - i)") auto

declare head_from.simps [simp del]

definition findHead :: "bytes \<Rightarrow> (rtsp_error, nat \<times> nat) go" where
  "findHead buf =
     (let limit = min (length buf) MaxHeaderBytes in
      case head_from buf limit 0 of
        None \<Rightarrow> panic
      | Some (Some found) \<Rightarrow> ok found
      | Some None \<Rightarrow> if length buf \<ge> MaxHeaderBytes then err ErrHeadersTooLarge else err ErrIncomplete)"

definition splitHeadLines :: "bytes \<Rightarrow> bytes list" where
  "splitHeadLines head = map (TrimSuffix [CR]) (Split LF head)"

definition isTokenChar :: "byte \<Rightarrow> bool" where
  "isTokenChar b \<longleftrightarrow> b \<in> set (lit ''!#$%&'' @ [39] @ lit ''*+-.^_`|~'')
     \<or> (48 \<le> b \<and> b \<le> 57) \<or> (65 \<le> b \<and> b \<le> 90) \<or> (97 \<le> b \<and> b \<le> 122)"

definition isValidHeaderName :: "bytes \<Rightarrow> bool" where
  "isValidHeaderName name \<longleftrightarrow> name \<noteq> [] \<and> list_all isTokenChar name"

fun parseHeaderLines :: "bytes list \<Rightarrow> rtsp_header \<Rightarrow> rtsp_error + rtsp_header" where
  "parseHeaderLines [] h = Inr h"
| "parseHeaderLines (line # lines) h =
     (if line = [] \<or> hd line = SP \<or> hd line = 9 then Inl ErrMalformedHeader
      else let (name, after, found) = Cut 58 line in
        if \<not> found then Inl ErrMalformedHeader
        else if \<not> isValidHeaderName name then Inl ErrMalformedHeader
        else let value = TrimPrefix [SP] after in
          if length name > MaxHeaderNameLen then Inl ErrHeaderNameTooLong
          else if length value > MaxHeaderValueLen then Inl ErrHeaderValueTooLong
          else parseHeaderLines lines (Header_Add h name value))"

definition parseHead :: "bytes \<Rightarrow> (rtsp_error, bytes \<times> rtsp_header \<times> nat) go" where
  "parseHead buf =
     go_bind (findHead buf) (\<lambda>(headEnd, bodyStart).
       do {
         head \<leftarrow> slice buf 0 headEnd;
         let lines = splitHeadLines head in
         if length lines - 1 > MaxHeaderLines then err ErrTooManyHeaders
         else do {
           rest \<leftarrow> slice lines 1 (length lines);
           case parseHeaderLines rest [] of
             Inl e \<Rightarrow> err e
           | Inr header \<Rightarrow> do { first \<leftarrow> idx lines 0; ok (first, header, bodyStart) } } })"

definition parseStatusLine :: "bytes \<Rightarrow> rtsp_error + int \<times> bytes" where
  "parseStatusLine line =
     (case SplitN SP 3 line of
        version # number # others \<Rightarrow>
          (let reason = (case others of [] \<Rightarrow> [] | r # _ \<Rightarrow> r) in
           if \<not> prefix (lit ''RTSP/'') version \<or> length version > MaxVersionLen then Inl ErrMalformedStatusLine
           else if length number \<noteq> 3 then Inl ErrMalformedStatusLine
           else case Atoi number of
               None \<Rightarrow> Inl ErrMalformedStatusLine
             | Some code \<Rightarrow>
               if code < 100 \<or> code > 999 then Inl ErrMalformedStatusLine
               else if length reason > MaxReasonLen then Inl ErrMalformedStatusLine
               else Inr (code, reason))
      | _ \<Rightarrow> Inl ErrMalformedStatusLine)"

definition parseRequestLine :: "bytes \<Rightarrow> rtsp_error + bytes \<times> bytes" where
  "parseRequestLine line =
     (case SplitN SP 3 line of
        [method, url, version] \<Rightarrow>
          if method = [] \<or> length method > MaxMethodLen then Inl ErrMalformedRequestLine
          else if url = [] \<or> length url > MaxRequestURILen then Inl ErrMalformedRequestLine
          else if \<not> prefix (lit ''RTSP/'') version \<or> length version > MaxVersionLen then Inl ErrMalformedRequestLine
          else Inr (method, url)
      | _ \<Rightarrow> Inl ErrMalformedRequestLine)"

definition parseCSeq :: "rtsp_header \<Rightarrow> int" where
  "parseCSeq h = (case Atoi (TrimSpace (Header_Get h (lit ''CSeq''))) of None \<Rightarrow> 0 | Some n \<Rightarrow> n)"

definition extractBody :: "bytes \<Rightarrow> rtsp_header \<Rightarrow> nat \<Rightarrow> (rtsp_error, bytes \<times> nat) go" where
  "extractBody buf h bodyStart =
     (case Header_Values h (lit ''Content-Length'') of
        [] \<Rightarrow> ok ([], bodyStart)
      | clStr # others \<Rightarrow>
          if list_ex (\<lambda>other. TrimSpace other \<noteq> TrimSpace clStr) others then err ErrBadContentLength
          else (case Atoi (TrimSpace clStr) of
              None \<Rightarrow> err ErrBadContentLength
            | Some cl \<Rightarrow>
              if cl < 0 then err ErrBadContentLength
              else if cl > int MaxBodySize then err ErrBodyTooLarge
              else let end' = bodyStart + nat cl in
                if end' > length buf then err ErrIncomplete
                else if cl = 0 then ok ([], bodyStart)
                else do { body \<leftarrow> slice buf bodyStart end'; ok (body, end') }))"

definition ParseResponse :: "bytes \<Rightarrow> (rtsp_error, rtsp_response \<times> nat) go" where
  "ParseResponse buf =
     go_bind (parseHead buf) (\<lambda>(firstLine, header, bodyStart).
     go_bind (Some (parseStatusLine firstLine)) (\<lambda>(code, reason).
     go_bind (extractBody buf header bodyStart) (\<lambda>(body, n).
       ok (\<lparr>StatusCode = code, Reason = reason, Resp_CSeq = parseCSeq header, Resp_Header = header, Resp_Body = body\<rparr>, n))))"

definition ParseRequest :: "bytes \<Rightarrow> (rtsp_error, rtsp_request \<times> nat) go" where
  "ParseRequest buf =
     go_bind (parseHead buf) (\<lambda>(firstLine, header, bodyStart).
     go_bind (Some (parseRequestLine firstLine)) (\<lambda>(method, url).
     go_bind (extractBody buf header bodyStart) (\<lambda>(body, n).
       ok (\<lparr>Method = method, URL = url, Req_CSeq = parseCSeq header, Req_Header = header, Req_Body = body\<rparr>, n))))"

section \<open>Classifying and interleaving\<close>

datatype FrameKind = FrameNeedMore | FrameInterleaved | FrameResponse | FrameRequest | FrameUnknown

definition request_prefixes :: "bytes list" where
  "request_prefixes = map lit [''OP'', ''GE'', ''TE'', ''AN'', ''SE'', ''RE'', ''PL'', ''PA'', ''DE'']"

definition ClassifyStream :: "bytes \<Rightarrow> FrameKind" where
  "ClassifyStream buf =
     (case buf of
        [] \<Rightarrow> FrameNeedMore
      | a # rest \<Rightarrow>
          if a = 36 then FrameInterleaved
          else (case rest of
              [] \<Rightarrow> FrameNeedMore
            | b # _ \<Rightarrow>
                if [a, b] = lit ''RT'' then FrameResponse
                else if [a, b] \<in> set request_prefixes then FrameRequest
                else FrameUnknown))"

record InterleavedFrame =
  Channel :: nat
  IPayload :: bytes

definition ParseInterleaved :: "bytes \<Rightarrow> (rtsp_error, InterleavedFrame \<times> nat) go" where
  "ParseInterleaved buf =
     (if buf = [] \<or> hd buf \<noteq> 36 then err ErrNotInterleaved
      else if length buf < interleavedHeaderLen then err ErrIncomplete
      else do {
        channel \<leftarrow> idx buf 1;
        len \<leftarrow> u16be buf 2;
        let end' = interleavedHeaderLen + unat len in
        if length buf < end' then err ErrIncomplete
        else do {
          payload \<leftarrow> slice buf interleavedHeaderLen end';
          ok (\<lparr>Channel = unat channel, IPayload = payload\<rparr>, end') } })"

definition MarshalInterleaved :: "int \<Rightarrow> bytes \<Rightarrow> rtsp_error + bytes" where
  "MarshalInterleaved channel payload =
     (if channel < 0 \<or> channel > 255 \<or> length payload > MaxInterleavedFrame then Inl ErrInterleavedTooLarge
      else Inr ([36, word_of_int channel] @ put16 (word_of_nat (length payload)) @ payload))"

section \<open>Header maps\<close>

lemma lower_title: "ToLower (title_token tok) = ToLower tok"
  by (cases tok) (simp_all add: title_token_def)

lemma overrides_lower: "map_of canonicalHeaderOverrides k = Some c \<Longrightarrow> ToLower c = k"
proof -
  have "\<forall>(k, c) \<in> set canonicalHeaderOverrides. ToLower c = k"
    by (simp add: canonicalHeaderOverrides_def lower_byte_def lit_simps)
  then show "map_of canonicalHeaderOverrides k = Some c \<Longrightarrow> ToLower c = k" by (fastforce dest: map_of_SomeD)
qed

text \<open>Canonical names are the same up to case, so they are a normal form.\<close>

lemma ToLower_canonical [simp]: "ToLower (canonicalHeaderName name) = ToLower name"
proof (cases "map_of canonicalHeaderOverrides (ToLower name)")
  case None
  have "ToLower (Join [45] (map title_token (Split 45 (ToLower name))))
      = Join [45] (map ToLower (map title_token (Split 45 (ToLower name))))"
    using Join_map [of ToLower lower_byte "[45]" "map title_token (Split 45 (ToLower name))"]
    by (simp add: ToLower_def lower_byte_def)
  also have "\<dots> = ToLower (Join [45] (Split 45 (ToLower name)))"
    using Join_map [of ToLower lower_byte "[45]" "Split 45 (ToLower name)"]
    by (simp add: ToLower_def lower_byte_def comp_def lower_title [unfolded ToLower_def])
  finally show ?thesis using None by (simp add: canonicalHeaderName_def Join_Split)
qed (simp add: canonicalHeaderName_def overrides_lower)

lemma canonical_fold: "canonicalHeaderName a = canonicalHeaderName b \<longleftrightarrow> EqualFold a b"
proof
  assume "canonicalHeaderName a = canonicalHeaderName b"
  from arg_cong [OF this, of ToLower] show "EqualFold a b" by (simp add: EqualFold_def)
qed (simp add: EqualFold_def canonicalHeaderName_def)

lemma canonical_idem [simp]: "canonicalHeaderName (canonicalHeaderName a) = canonicalHeaderName a"
  by (simp add: canonical_fold EqualFold_def)

lemma length_canonical [simp]: "length (canonicalHeaderName a) = length a"
  by (metis ToLower_canonical ToLower_simps(4))

text \<open>The invariant of the map: one entry per canonical name, each with at least one value.\<close>

definition header_ok :: "rtsp_header \<Rightarrow> bool" where
  "header_ok h \<longleftrightarrow> distinct (map fst h) \<and> (\<forall>k vs. map_of h k = Some vs \<longrightarrow> canonicalHeaderName k = k \<and> vs \<noteq> [])"

lemma header_ok_empty [simp]: "header_ok []"
  by (simp add: header_ok_def)

lemma header_ok_update:
  "header_ok h \<Longrightarrow> vs \<noteq> [] \<Longrightarrow> header_ok (AList.update (canonicalHeaderName name) vs h)"
  by (simp add: header_ok_def distinct_update update_conv')

lemma header_ok_ops:
  assumes "header_ok h"
  shows "header_ok (Header_Set h name v)" "header_ok (Header_Add h name v)" "header_ok (Header_Del h name)"
proof -
  show "header_ok (Header_Set h name v)" "header_ok (Header_Add h name v)"
    unfolding Header_Set_def Header_Add_def by (rule header_ok_update [OF assms], simp)+
  show "header_ok (Header_Del h name)"
    using assms by (auto simp: header_ok_def Header_Del_def distinct_delete delete_conv' split: if_splits)
qed

lemma Values_ops:
  "Header_Values (Header_Set h name v) other = (if EqualFold name other then [v] else Header_Values h other)"
  "Header_Values (Header_Add h name v) other = Header_Values h other @ (if EqualFold name other then [v] else [])"
  "Header_Values (Header_Del h name) other = (if EqualFold name other then [] else Header_Values h other)"
  by (auto simp: Header_Values_def Header_Set_def Header_Add_def Header_Del_def update_conv' delete_conv'
      canonical_fold [symmetric])

section \<open>The head\<close>

definition ends_head :: "bytes \<Rightarrow> nat \<Rightarrow> bool" where
  "ends_head buf i \<longleftrightarrow> buf ! i = LF \<and>
     (i \<ge> 1 \<and> buf ! (i - 1) = LF \<or> i \<ge> 3 \<and> buf ! (i - 1) = CR \<and> buf ! (i - 2) = LF \<and> buf ! (i - 3) = CR)"

definition head_end :: "bytes \<Rightarrow> nat \<Rightarrow> nat" where
  "head_end buf i = (if i \<ge> 1 \<and> buf ! (i - 1) = LF then i - 1 else i - 3)"

lemma head_from_unfold:
  assumes "limit \<le> length buf" "i < limit"
  shows "head_from buf limit i =
     (if ends_head buf i then Some (Some (head_end buf i, i + 1)) else head_from buf limit (i + 1))"
  using assms by (subst head_from.simps) (auto simp: ends_head_def head_end_def)

lemma head_from_end: "limit \<le> i \<Longrightarrow> head_from buf limit i = Some None"
  by (subst head_from.simps) simp

text \<open>The loop finds the first blank line.\<close>

lemma head_from_found:
  assumes "limit \<le> length buf" "i \<le> j" "j < limit" "ends_head buf j" "\<And>k. i \<le> k \<Longrightarrow> k < j \<Longrightarrow> \<not> ends_head buf k"
  shows "head_from buf limit i = Some (Some (head_end buf j, j + 1))"
  using assms
proof (induction "j - i" arbitrary: i)
  case 0
  then show ?case by (simp add: head_from_unfold)
next
  case (Suc n)
  then have "\<not> ends_head buf i" "i < j" by auto
  then show ?case using Suc by (simp add: head_from_unfold)
qed

lemma head_from_absent:
  assumes "limit \<le> length buf" "\<And>k. i \<le> k \<Longrightarrow> k < limit \<Longrightarrow> \<not> ends_head buf k"
  shows "head_from buf limit i = Some None"
  using assms
proof (induction "limit - i" arbitrary: i)
  case 0
  then show ?case by (simp add: head_from_end)
next
  case (Suc n)
  then show ?case by (simp add: head_from_unfold)
qed

lemma head_from_cases:
  assumes "limit \<le> length buf"
  obtains "head_from buf limit 0 = Some None" "\<And>k. k < limit \<Longrightarrow> \<not> ends_head buf k"
  | j where "j < limit" "ends_head buf j" "\<And>k. k < j \<Longrightarrow> \<not> ends_head buf k"
      "head_from buf limit 0 = Some (Some (head_end buf j, j + 1))"
proof (cases "\<exists>k < limit. ends_head buf k")
  case True
  define j where "j = (LEAST k. ends_head buf k)"
  have j: "ends_head buf j" "\<And>k. k < j \<Longrightarrow> \<not> ends_head buf k" "j < limit"
    using True unfolding j_def by (auto intro: LeastI dest: not_less_Least) (meson Least_le order.strict_trans1)
  then show ?thesis using that(2) head_from_found [OF assms, of 0 j] by simp
next
  case False
  then show ?thesis using that(1) head_from_absent [OF assms, of 0] by simp
qed

lemma head_end_le: "ends_head buf j \<Longrightarrow> head_end buf j < j"
  by (auto simp: ends_head_def head_end_def)

section \<open>Robustness\<close>

lemma findHead_ok:
  "findHead buf \<noteq> None \<and> (findHead buf = ok (e, b) \<longrightarrow> e + 2 \<le> b \<and> b \<le> length buf \<and> b \<le> MaxHeaderBytes)"
proof -
  define limit where "limit = min (length buf) MaxHeaderBytes"
  have "limit \<le> length buf" by (simp add: limit_def)
  then show ?thesis
    by (cases rule: head_from_cases) (auto simp: findHead_def limit_def [symmetric] dest!: head_end_le, simp_all add: limit_def)
qed

lemma splitHeadLines_not_Nil [simp]: "splitHeadLines s \<noteq> []"
  by (simp add: splitHeadLines_def)

lemma parseHead_ok:
  "parseHead buf \<noteq> None \<and> (parseHead buf = ok (first, h, b) \<longrightarrow> 2 \<le> b \<and> b \<le> length buf \<and> b \<le> MaxHeaderBytes
     \<and> (\<exists>lines. length lines \<le> MaxHeaderLines \<and> parseHeaderLines lines [] = Inr h))"
proof (cases "findHead buf")
  case (Some r)
  show ?thesis
  proof (cases r)
    case (Inr p)
    obtain e b' where p: "p = (e, b')" by fastforce
    then have "e + 2 \<le> b'" "b' \<le> length buf" "b' \<le> MaxHeaderBytes" using findHead_ok [of buf e b'] Some Inr by auto
    moreover define lines where "lines = splitHeadLines (take e buf)"
    then have "lines \<noteq> []" by simp
    then have cut: "slice lines 1 (length lines) = Some (drop 1 lines)" "idx lines 0 = Some (lines ! 0)"
      by (simp_all add: Suc_le_eq)
    ultimately have "parseHead buf = (if length lines - 1 > MaxHeaderLines then err ErrTooManyHeaders
        else case parseHeaderLines (drop 1 lines) [] of Inl e \<Rightarrow> err e | Inr header \<Rightarrow> ok (lines ! 0, header, b'))"
      using Some Inr p cut unfolding parseHead_def Let_def
      by (simp add: lines_def [symmetric] del: One_nat_def split: sum.split)
    then show ?thesis using \<open>e + 2 \<le> b'\<close> \<open>b' \<le> length buf\<close> \<open>b' \<le> MaxHeaderBytes\<close>
      by (auto split: sum.splits if_splits intro!: exI [of _ "drop 1 lines"])
  qed (simp add: parseHead_def Some)
qed (use findHead_ok in auto)

lemma extractBody_ok:
  assumes "b \<le> length buf"
  shows "extractBody buf h b \<noteq> None \<and> (extractBody buf h b = ok (body, n) \<longrightarrow>
     b \<le> n \<and> n \<le> length buf \<and> n = b + length body \<and> length body \<le> MaxBodySize)"
  using assms by (auto simp: extractBody_def Let_def split: list.splits option.splits if_splits)

lemma isTokenChar_lower: "isTokenChar (lower_byte c) \<longleftrightarrow> isTokenChar c"
proof (cases "65 \<le> c \<and> c \<le> 90")
  case True
  then have "97 \<le> c + 32 \<and> c + 32 \<le> 122" by (simp add: word_le_nat_alt unat_word_ariths)
  then show ?thesis using True by (simp add: isTokenChar_def lower_byte_def)
qed (auto simp: lower_byte_def)

lemma isValidHeaderName_canonical: "isValidHeaderName (canonicalHeaderName s) \<longleftrightarrow> isValidHeaderName s"
proof -
  have lower: "isValidHeaderName (ToLower s) \<longleftrightarrow> isValidHeaderName s" for s
    by (auto simp: isValidHeaderName_def ToLower_def list_all_iff isTokenChar_lower)
  show ?thesis using lower [of s] lower [of "canonicalHeaderName s"] by simp
qed

definition header_capped :: "rtsp_header \<Rightarrow> bool" where
  "header_capped h \<longleftrightarrow> (\<forall>k vs. map_of h k = Some vs \<longrightarrow>
     isValidHeaderName k \<and> length k \<le> MaxHeaderNameLen \<and> (\<forall>v \<in> set vs. length v \<le> MaxHeaderValueLen))"

definition header_lines :: "rtsp_header \<Rightarrow> nat" where
  "header_lines h = (\<Sum>(k, vs) \<leftarrow> h. length vs)"

lemma header_lines_update:
  "distinct (map fst h) \<Longrightarrow> header_lines (AList.update k ((case map_of h k of None \<Rightarrow> [] | Some vs \<Rightarrow> vs) @ [v]) h) = header_lines h + 1"
proof (induction h)
  case (Cons p h)
  then show ?case by (cases p) (auto simp: header_lines_def map_of_eq_None_iff [symmetric] split: option.splits)
qed (simp add: header_lines_def)

lemma header_capped_Add:
  assumes "header_capped h" "isValidHeaderName name" "length name \<le> MaxHeaderNameLen" "length v \<le> MaxHeaderValueLen"
  shows "header_capped (Header_Add h name v)"
  using assms
  by (cases "map_of h (canonicalHeaderName name)")
    (auto simp: header_capped_def Header_Add_def Header_Values_def update_conv' isValidHeaderName_canonical split: if_splits)

lemma parseHeaderLines_ok:
  assumes "parseHeaderLines lines h = Inr h'" "header_ok h" "header_capped h"
  shows "header_ok h' \<and> header_capped h' \<and> header_lines h' = header_lines h + length lines"
  using assms
proof (induction lines arbitrary: h)
  case (Cons line lines)
  obtain name after found where cut: "Cut 58 line = (name, after, found)" by (cases "Cut 58 line")
  define v where "v = TrimPrefix [SP] after"
  have *: "isValidHeaderName name" "length name \<le> MaxHeaderNameLen" "length v \<le> MaxHeaderValueLen"
    "parseHeaderLines lines (Header_Add h name v) = Inr h'"
    using Cons.prems(1) cut by (auto simp: Let_def v_def split: if_splits)
  moreover have "header_lines (Header_Add h name v) = header_lines h + 1"
    using Cons.prems(2) header_lines_update [of h "canonicalHeaderName name" v]
    by (simp add: header_ok_def Header_Add_def Header_Values_def)
  ultimately show ?case
    using Cons.IH [OF *(4) header_ok_ops(2) [OF Cons.prems(2)] header_capped_Add [OF Cons.prems(3)]] by simp
qed simp

text \<open>The type of a parsed head: canonical fields within their caps.\<close>

definition well_typed :: "rtsp_header \<Rightarrow> bool" where
  "well_typed h \<longleftrightarrow> header_ok h \<and> header_capped h \<and> header_lines h \<le> MaxHeaderLines"

lemma parseHead_typed: "parseHead buf = ok (first, h, b) \<Longrightarrow> well_typed h \<and> 2 \<le> b \<and> b \<le> length buf"
  using parseHead_ok [of buf first h b] parseHeaderLines_ok [of _ "[]" h]
  by (fastforce simp: well_typed_def header_capped_def header_lines_def)

lemma parseStatusLine_ok: "parseStatusLine line = Inr (code, reason) \<Longrightarrow> 100 \<le> code \<and> code \<le> 999 \<and> length reason \<le> MaxReasonLen"
  by (auto simp: parseStatusLine_def Let_def split: list.splits if_splits option.splits)

lemma parseRequestLine_ok:
  "parseRequestLine line = Inr (m, u) \<Longrightarrow> m \<noteq> [] \<and> length m \<le> MaxMethodLen \<and> u \<noteq> [] \<and> length u \<le> MaxRequestURILen"
  by (auto simp: parseRequestLine_def split: list.splits if_splits)

text \<open>Both parsers are the head, a first-line parser and the body.\<close>

lemma parse_message_ok:
  assumes "go_bind (parseHead buf) (\<lambda>(first, h, b). go_bind (Some (line first)) (\<lambda>x. go_bind (extractBody buf h b) (\<lambda>(body, n). ok (f x h body, n)))) = ok (m, n)"
  shows "\<exists>first h x body. line first = Inr x \<and> well_typed h \<and> length body \<le> MaxBodySize \<and> m = f x h body \<and> 2 \<le> n \<and> n \<le> length buf"
proof -
  from assms obtain first h b x body where *: "parseHead buf = ok (first, h, b)" "line first = Inr x"
    "extractBody buf h b = ok (body, n)" "m = f x h body"
    by (fastforce simp: go_simps)
  then show ?thesis using parseHead_typed [OF *(1)] extractBody_ok [of b buf h body n] by auto
qed

lemma parse_message_no_panic:
  "go_bind (parseHead buf) (\<lambda>(first, h, b). go_bind (Some (line first)) (\<lambda>x. go_bind (extractBody buf h b) (\<lambda>(body, n). ok (f x h body, n)))) \<noteq> None"
proof (rule go_bind_no_panic)
  show "parseHead buf \<noteq> None" using parseHead_ok by blast
  fix x :: "bytes \<times> rtsp_header \<times> nat"
  assume x: "parseHead buf = ok x"
  obtain first h b where [simp]: "x = (first, h, b)" by (cases x)
  have "b \<le> length buf" using parseHead_typed [of buf first h b] x by simp
  then have "extractBody buf h b \<noteq> None" using extractBody_ok by blast
  then show "(case x of (first, h, b) \<Rightarrow> go_bind (Some (line first)) (\<lambda>x. go_bind (extractBody buf h b) (\<lambda>(body, n). ok (f x h body, n)))) \<noteq> None"
    by (auto simp: go_simps)
qed

definition request_typed :: "nat \<Rightarrow> rtsp_request \<times> nat \<Rightarrow> bool" where
  "request_typed len = (\<lambda>(r, n). 2 \<le> n \<and> n \<le> len \<and> well_typed (Req_Header r) \<and> length (Req_Body r) \<le> MaxBodySize
     \<and> Method r \<noteq> [] \<and> length (Method r) \<le> MaxMethodLen \<and> URL r \<noteq> [] \<and> length (URL r) \<le> MaxRequestURILen)"

definition response_typed :: "nat \<Rightarrow> rtsp_response \<times> nat \<Rightarrow> bool" where
  "response_typed len = (\<lambda>(r, n). 2 \<le> n \<and> n \<le> len \<and> well_typed (Resp_Header r) \<and> length (Resp_Body r) \<le> MaxBodySize
     \<and> 100 \<le> StatusCode r \<and> StatusCode r \<le> 999 \<and> length (Reason r) \<le> MaxReasonLen)"

definition frame_typed :: "nat \<Rightarrow> InterleavedFrame \<times> nat \<Rightarrow> bool" where
  "frame_typed len = (\<lambda>(f, n). n \<le> len \<and> n = 4 + length (IPayload f) \<and> Channel f < 256
     \<and> length (IPayload f) \<le> MaxInterleavedFrame)"

text \<open>A parser result that is not a panic and, when it is a unit, satisfies \<open>P\<close>.\<close>

definition returns :: "('a \<Rightarrow> bool) \<Rightarrow> (rtsp_error, 'a) go \<Rightarrow> bool" where
  "returns P r \<longleftrightarrow> r \<noteq> None \<and> (\<forall>x. r = ok x \<longrightarrow> P x)"

lemma ParseRequest_returns: "returns (request_typed (length buf)) (ParseRequest buf)"
proof -
  define mk where "mk = (\<lambda>(method, url) header body. \<lparr>Method = method, URL = url, Req_CSeq = parseCSeq header, Req_Header = header, Req_Body = body\<rparr>)"
  have req: "ParseRequest buf = go_bind (parseHead buf) (\<lambda>(first, h, b). go_bind (Some (parseRequestLine first))
      (\<lambda>x. go_bind (extractBody buf h b) (\<lambda>(body, n). ok (mk x h body, n))))"
    by (simp add: ParseRequest_def mk_def split_def)
  show ?thesis
    using parse_message_no_panic [of buf parseRequestLine mk] parse_message_ok [of buf parseRequestLine mk]
    unfolding req [symmetric] returns_def request_typed_def by (fastforce simp: mk_def dest: parseRequestLine_ok)
qed

lemma ParseResponse_returns: "returns (response_typed (length buf)) (ParseResponse buf)"
proof -
  define mk where "mk = (\<lambda>(code, reason) header body. \<lparr>StatusCode = code, Reason = reason, Resp_CSeq = parseCSeq header, Resp_Header = header, Resp_Body = body\<rparr>)"
  have resp: "ParseResponse buf = go_bind (parseHead buf) (\<lambda>(first, h, b). go_bind (Some (parseStatusLine first))
      (\<lambda>x. go_bind (extractBody buf h b) (\<lambda>(body, n). ok (mk x h body, n))))"
    by (simp add: ParseResponse_def mk_def split_def)
  show ?thesis
    using parse_message_no_panic [of buf parseStatusLine mk] parse_message_ok [of buf parseStatusLine mk]
    unfolding resp [symmetric] returns_def response_typed_def by (fastforce simp: mk_def dest: parseStatusLine_ok)
qed

lemma ParseInterleaved_returns: "returns (frame_typed (length buf)) (ParseInterleaved buf)"
  using unat_byte_less unat_u16_less [of "be16 (buf ! 2) (buf ! 3)"]
  by (auto simp: ParseInterleaved_def returns_def frame_typed_def Let_def caps)

text \<open>
  C33. Whatever bytes arrive, the message parsers return an error or a well-typed unit, and never panic: the unit takes at
  least two of the bytes and no more than there are, its header map has one entry per canonical name with valid field names, and
  every part is within its cap.
\<close>

theorem rtsp_parsers_typed:
  "returns (request_typed (length buf)) (ParseRequest buf) \<and> returns (response_typed (length buf)) (ParseResponse buf)
   \<and> returns (frame_typed (length buf)) (ParseInterleaved buf)"
  using ParseRequest_returns ParseResponse_returns ParseInterleaved_returns by blast

end
