(* ===== verification/RTSP_Wire.thy ===== *)
theory RTSP_Wire
  imports RTSP_Message "HOL-Library.Multiset"
begin

text \<open>
  What the RTSP serializers write, the parsers read back, whatever follows on the connection; and a message of which
  only a part has arrived is recognized as incomplete. The two message kinds differ in the first line only, so the facts are
  proved for a list of lines and a body, and instantiated.
\<close>

section \<open>Lines of text\<close>

definition lines_text :: "bytes list \<Rightarrow> bytes" where
  "lines_text ls = concat (map (\<lambda>l. l @ [CR, LF]) ls)"

definition line_ok :: "bytes \<Rightarrow> bool" where
  "line_ok l \<longleftrightarrow> l \<noteq> [] \<and> CR \<notin> set l \<and> LF \<notin> set l"

lemma lines_text_simps [simp]:
  "lines_text [] = []" "lines_text (l # ls) = l @ CR # LF # lines_text ls" "lines_text (ls @ ls') = lines_text ls @ lines_text ls'"
  by (simp_all add: lines_text_def)

lemma lines_text_Join: "ls \<noteq> [] \<Longrightarrow> lines_text ls = Join [CR, LF] ls @ [CR, LF]"
  by (induction "[CR, LF]" ls rule: Join.induct) auto

lemma line_feed_at:
  "list_all line_ok ls \<Longrightarrow> i < length (lines_text ls) \<Longrightarrow> lines_text ls ! i = LF \<Longrightarrow>
     2 \<le> i \<and> lines_text ls ! (i - 1) = CR \<and> lines_text ls ! (i - 2) \<noteq> LF"
proof (induction ls arbitrary: i)
  case (Cons l ls)
  define n where "n = length l"
  have l: "l \<noteq> []" "LF \<notin> set l" using Cons.prems(1) by (auto simp: line_ok_def)
  consider "i < n" | "i = n" | "i = n + 1" | j where "i = n + 2 + j"
    by atomize_elim presburger
  then show ?case
  proof cases
    case 1
    then show ?thesis using Cons.prems(3) l nth_mem [of i l] by (simp add: nth_append n_def)
  next
    case 2
    then show ?thesis using Cons.prems(3) by (simp add: nth_append n_def)
  next
    case 3
    moreover have "l ! (n - 1) \<noteq> LF" unfolding n_def using l by (metis last_conv_nth last_in_set)
    ultimately show ?thesis using l by (auto simp: nth_append n_def Suc_le_eq)
  next
    case 4
    then have "lines_text ls ! j = LF" "j < length (lines_text ls)" using Cons.prems by (auto simp: nth_append n_def)
    then have "2 \<le> j \<and> lines_text ls ! (j - 1) = CR \<and> lines_text ls ! (j - 2) \<noteq> LF" using Cons by auto
    moreover from this have "i - 1 = n + 2 + (j - 1)" "i - 2 = n + 2 + (j - 2)" using 4 by auto
    ultimately show ?thesis using 4 by (simp add: nth_append n_def numeral_2_eq_2)
  qed
qed simp

text \<open>The head of a message ends at the blank line after its lines, and nowhere before.\<close>

lemma message_end:
  fixes ls :: "bytes list" and rest :: bytes and k :: nat
  assumes "list_all line_ok ls" "ls \<noteq> []"
  defines "t \<equiv> length (lines_text ls)" and "wire \<equiv> lines_text ls @ CR # LF # rest"
  shows "k \<le> t \<Longrightarrow> \<not> ends_head wire k" "ends_head wire (t + 1)" "head_end wire (t + 1) = t - 2"
proof -
  obtain l where l: "lines_text ls = l @ [CR, LF]" using lines_text_Join [OF assms(2)] by blast
  have "lines_text ls ! (t - 1) = LF" "t \<noteq> 0" using l by (simp_all add: t_def nth_append)
  then have "2 \<le> t - 1" using line_feed_at [OF assms(1), of "t - 1"] by (simp add: t_def)
  then have "3 \<le> t" by simp
  have *: "wire ! (t + 1) = LF" "wire ! t = CR" "wire ! (t - 1) = LF" "wire ! (t - 2) = CR"
    by (simp_all add: wire_def t_def l nth_append)
  then show "ends_head wire (t + 1)" "head_end wire (t + 1) = t - 2"
    using \<open>3 \<le> t\<close> by (simp_all add: ends_head_def head_end_def)
  show "\<not> ends_head wire k" if "k \<le> t"
  proof (cases "k < t")
    case True
    then have "wire ! k = lines_text ls ! k" "wire ! (k - 1) = lines_text ls ! (k - 1)" "wire ! (k - 2) = lines_text ls ! (k - 2)"
      by (auto simp: wire_def t_def nth_append)
    then show ?thesis using True line_feed_at [OF assms(1), of k] by (auto simp: ends_head_def t_def)
  next
    case False
    then show ?thesis using that * by (simp add: ends_head_def)
  qed
qed

lemma ends_head_take: "k < m \<Longrightarrow> m \<le> length buf \<Longrightarrow> ends_head (take m buf) k = ends_head buf k"
  by (auto simp: ends_head_def)

lemma findHead_message:
  assumes "list_all line_ok ls" "ls \<noteq> []" "length (lines_text ls) + 2 \<le> MaxHeaderBytes"
  shows "findHead (lines_text ls @ CR # LF # rest) = ok (length (lines_text ls) - 2, length (lines_text ls) + 2)"
proof -
  define t wire where "t = length (lines_text ls)" and "wire = lines_text ls @ CR # LF # rest"
  note end' = message_end [OF assms(1,2), where rest = rest, folded t_def wire_def]
  have "head_from wire (min (length wire) MaxHeaderBytes) 0 = Some (Some (head_end wire (t + 1), t + 1 + 1))"
    using end' assms(3) by (intro head_from_found) (auto simp: wire_def t_def)
  then show ?thesis using end'(3) by (simp add: findHead_def t_def wire_def)
qed

lemma findHead_prefix:
  assumes "list_all line_ok ls" "ls \<noteq> []" "length (lines_text ls) + 2 \<le> MaxHeaderBytes" "m < length (lines_text ls) + 2"
  shows "findHead (take m (lines_text ls @ CR # LF # rest)) = err ErrIncomplete"
proof -
  define t wire where "t = length (lines_text ls)" and "wire = lines_text ls @ CR # LF # rest"
  note end' = message_end [OF assms(1,2), where rest = rest, folded t_def wire_def]
  have m: "m \<le> length wire" "m < MaxHeaderBytes" using assms by (auto simp: wire_def)
  have "head_from (take m wire) (min (length (take m wire)) MaxHeaderBytes) 0 = Some None"
  proof (rule head_from_absent)
    fix k assume "k < min (length (take m wire)) MaxHeaderBytes"
    then have "k < m" "k \<le> t" using assms(4) by (auto simp: t_def)
    then show "\<not> ends_head (take m wire) k" using ends_head_take [of k m wire] end'(1) m by simp
  qed auto
  then show ?thesis using m unfolding findHead_def wire_def [symmetric] Let_def by simp
qed

lemma splitHeadLines_Join:
  assumes "list_all line_ok ls" "ls \<noteq> []"
  shows "splitHeadLines (Join [CR, LF] ls) = ls"
  using assms
proof (induction "[CR, LF]" ls rule: Join.induct)
  case (2 l)
  then have "\<not> suffix [CR] l" by (auto simp: line_ok_def suffix_def)
  then show ?case using 2 by (simp add: splitHeadLines_def Split_absent line_ok_def TrimSuffix_def)
next
  case (3 l l' ls)
  have "Split LF (l @ CR # LF # Join [CR, LF] (l' # ls)) = (l @ [CR]) # Split LF (Join [CR, LF] (l' # ls))"
    using Split_found [of LF "l @ [CR]"] 3 by (simp add: line_ok_def)
  then show ?case using 3 by (simp add: splitHeadLines_def TrimSuffix_def suffix_def)
qed simp

section \<open>Fields\<close>

text \<open>A head is a first line and its fields, a message is a head and a body.\<close>

definition field_line :: "bytes \<times> bytes \<Rightarrow> bytes" where
  "field_line = (\<lambda>(name, v). name @ 58 # SP # v)"

definition field_ok :: "bytes \<times> bytes \<Rightarrow> bool" where
  "field_ok = (\<lambda>(name, v). isValidHeaderName name \<and> length name \<le> MaxHeaderNameLen
     \<and> length v \<le> MaxHeaderValueLen \<and> \<not> hasCRLF v)"

definition add_fields :: "(bytes \<times> bytes) list \<Rightarrow> rtsp_header \<Rightarrow> rtsp_header" where
  "add_fields fs h = fold (\<lambda>(name, v) h. Header_Add h name v) fs h"

definition message_wire :: "bytes \<Rightarrow> (bytes \<times> bytes) list \<Rightarrow> bytes \<Rightarrow> bytes" where
  "message_wire first fs body = lines_text (first # map field_line fs) @ CR # LF # body"

lemma isTokenChar_facts: "isTokenChar c \<Longrightarrow> c \<notin> {LF, CR, SP, 9, 58}"
  by (auto simp: isTokenChar_def lit_simps)

lemma valid_name_facts:
  "isValidHeaderName name \<Longrightarrow> name \<noteq> [] \<and> (\<forall>c \<in> {LF, CR, SP, 9, 58}. c \<notin> set name) \<and> hd name \<notin> {SP, 9}"
  using isTokenChar_facts by (cases name) (auto simp: isValidHeaderName_def list_all_iff)

lemma field_line_ok: "field_ok f \<Longrightarrow> line_ok (field_line f)"
  using valid_name_facts [of "fst f"] by (cases f) (auto simp: field_ok_def field_line_def line_ok_def hasCRLF_def list_ex_iff)

lemma parse_field: "field_ok f \<Longrightarrow> parseHeaderLines (field_line f # ls) h = parseHeaderLines ls (add_fields [f] h)"
proof -
  obtain name v where [simp]: "f = (name, v)" by fastforce
  assume "field_ok f"
  moreover have "Cut 58 (name @ 58 # SP # v) = (name, SP # v, True)"
    using calculation valid_name_facts [of name] by (intro Cut_found) (simp add: field_ok_def)
  moreover have "hd (name @ 58 # SP # v) = hd name" if "name \<noteq> []" using that by simp
  ultimately show ?thesis using valid_name_facts [of name]
    by (simp add: field_line_def field_ok_def add_fields_def TrimPrefix_def)
qed

lemma parse_fields: "list_all field_ok fs \<Longrightarrow> parseHeaderLines (map field_line fs) h = Inr (add_fields fs h)"
proof (induction fs arbitrary: h)
  case (Cons f fs)
  then show ?case using parse_field [of f "map field_line fs" h] by (simp add: add_fields_def)
qed (simp add: add_fields_def)

lemma parseHead_message:
  assumes "list_all field_ok fs" "line_ok first" "length fs \<le> MaxHeaderLines"
    "length (message_wire first fs []) \<le> MaxHeaderBytes"
  shows "parseHead (message_wire first fs body) = ok (first, add_fields fs [], length (message_wire first fs []))"
    and "m < length (message_wire first fs []) \<Longrightarrow> parseHead (take m (message_wire first fs body)) = err ErrIncomplete"
proof -
  define ls where "ls = first # map field_line fs"
  have ls: "list_all line_ok ls" "ls \<noteq> []" using assms(1,2) field_line_ok by (auto simp: ls_def list_all_iff)
  have cap: "length (lines_text ls) + 2 \<le> MaxHeaderBytes" using assms(4) by (simp add: message_wire_def ls_def)
  obtain join where join: "lines_text ls = join @ [CR, LF]" "splitHeadLines join = ls"
    using lines_text_Join [OF ls(2)] splitHeadLines_Join [OF ls] by blast
  have "slice (lines_text ls @ CR # LF # body) 0 (length (lines_text ls) - 2) = Some join" by (simp add: join)
  moreover have "slice ls 1 (length ls) = Some (map field_line fs)" "idx ls 0 = Some first" "length ls - 1 = length fs"
    by (simp_all add: ls_def)
  ultimately show "parseHead (message_wire first fs body) = ok (first, add_fields fs [], length (message_wire first fs []))"
    using findHead_message [OF ls cap, of body] parse_fields [OF assms(1)] assms(3)
    unfolding parseHead_def message_wire_def ls_def [symmetric]
    by (simp add: join(2) Let_def del: slice_Some idx_Some)
  show "parseHead (take m (message_wire first fs body)) = err ErrIncomplete" if "m < length (message_wire first fs [])"
    using findHead_prefix [OF ls cap, of m body] that unfolding parseHead_def message_wire_def ls_def [symmetric] by simp
qed

text \<open>The fields the serializers write.\<close>

definition sorted_fields :: "rtsp_header \<Rightarrow> (bytes \<times> bytes) list" where
  "sorted_fields h = concat (map (\<lambda>(k, vs). map (Pair (canonicalHeaderName k)) vs)
     (sort_key (\<lambda>(k, vs). canonicalHeaderName k)
       (filter (\<lambda>(k, vs). canonicalHeaderName k \<notin> {lit ''CSeq'', lit ''Content-Length''}) h)))"

definition wire_fields :: "int \<Rightarrow> bytes \<Rightarrow> rtsp_header \<Rightarrow> (bytes \<times> bytes) list" where
  "wire_fields cseq body h = (lit ''CSeq'', Itoa cseq)
     # (if body = [] then [] else [(lit ''Content-Length'', Itoa (int (length body)))]) @ sorted_fields h"

lemma written_fields:
  "writeControlHeaders cseq (length body) @ writeSortedHeaders h = lines_text (map field_line (wire_fields cseq body h))"
proof -
  have "concat (map (\<lambda>(k, vs). concat (map (\<lambda>v. canonicalHeaderName k @ [58, SP] @ v @ [CR, LF]) vs)) xs)
      = lines_text (map field_line (concat (map (\<lambda>(k, vs). map (Pair (canonicalHeaderName k)) vs) xs)))" for xs
    by (induction xs) (auto simp: lines_text_def field_line_def comp_def)
  then have "writeSortedHeaders h = lines_text (map field_line (sorted_fields h))"
    by (simp add: writeSortedHeaders_def sorted_fields_def Let_def)
  then show ?thesis by (simp add: writeControlHeaders_def wire_fields_def field_line_def lit_simps)
qed

lemma written_fields_append:
  "writeControlHeaders cseq (length body) @ writeSortedHeaders h @ rest = lines_text (map field_line (wire_fields cseq body h)) @ rest"
  using written_fields [of cseq body h] by (metis append_assoc)

text \<open>Reading them back gives the same values under every name.\<close>

lemma Values_add_fields:
  "Header_Values (add_fields fs h) name = Header_Values h name @ map snd (filter (\<lambda>f. EqualFold (fst f) name) fs)"
  by (induction fs arbitrary: h) (auto simp: add_fields_def Values_ops)

lemma Values_as_concat:
  assumes "distinct (map fst h)" "\<And>k vs. (k, vs) \<in> set h \<Longrightarrow> canonicalHeaderName k = k"
  shows "Header_Values h name = concat (map (\<lambda>(k, vs). if EqualFold k name then vs else []) h)"
  using assms
proof (induction h)
  case (Cons p h)
  obtain k vs where p: "p = (k, vs)" by fastforce
  have k: "canonicalHeaderName k = k" using Cons.prems(2) [of k vs] p by simp
  have IH: "Header_Values h name = concat (map (\<lambda>(k, vs). if EqualFold k name then vs else []) h)" using Cons by auto
  show ?case
  proof (cases "EqualFold k name")
    case True
    then have "canonicalHeaderName name = k" using k canonical_fold [of k name] by simp
    moreover from this have "map_of h (canonicalHeaderName name) = None"
      using Cons.prems(1) p by (auto simp: map_of_eq_None_iff)
    then have "concat (map (\<lambda>(k, vs). if EqualFold k name then vs else []) h) = []"
      unfolding IH [symmetric] by (simp add: Header_Values_def)
    ultimately show ?thesis using True p by (simp add: Header_Values_def)
  next
    case False
    then have "canonicalHeaderName name \<noteq> k" using k canonical_fold [of k name] by auto
    then show ?thesis using False p IH by (simp add: Header_Values_def)
  qed
qed (simp add: Header_Values_def)

lemma header_ok_entry: "header_ok h \<Longrightarrow> (k, vs) \<in> set h \<Longrightarrow> canonicalHeaderName k = k \<and> vs \<noteq> []"
  by (auto simp: header_ok_def)

lemma map_of_filter_key: "map_of (filter (\<lambda>(k, vs). Q k) h) c = (if Q c then map_of h c else None)"
  by (induction h) auto

lemma control_names:
  "canonicalHeaderName (lit ''CSeq'') = lit ''CSeq''" "canonicalHeaderName (lit ''Content-Length'') = lit ''Content-Length''"
  by code_simp+

lemma sorted_fields_values:
  assumes "header_ok h"
  shows "map snd (filter (\<lambda>f. EqualFold (fst f) name) (sorted_fields h)) =
    (if EqualFold (lit ''CSeq'') name \<or> EqualFold (lit ''Content-Length'') name then [] else Header_Values h name)"
proof -
  define P where "P = (\<lambda>(k :: bytes, vs :: bytes list). canonicalHeaderName k \<notin> {lit ''CSeq'', lit ''Content-Length''})"
  define h' where "h' = sort_key (\<lambda>(k, vs). canonicalHeaderName k) (filter P h)"
  have canon: "canonicalHeaderName k = k" if "(k, vs) \<in> set h'" for k vs
    using header_ok_entry [OF assms, of k vs] that by (simp add: h'_def)
  have dist: "distinct (map fst (filter P h))" using assms by (simp add: header_ok_def distinct_map_filter)
  then have dist': "distinct (map fst h')" by (simp add: h'_def distinct_map)
  have "map snd (filter (\<lambda>f. EqualFold (fst f) name) (concat (map (\<lambda>(k, vs). map (Pair (canonicalHeaderName k)) vs) xs)))
      = concat (map (\<lambda>(k, vs). if EqualFold (canonicalHeaderName k) name then vs else []) xs)" for xs
    by (induction xs) (auto simp: filter_concat comp_def filter_map)
  then have "map snd (filter (\<lambda>f. EqualFold (fst f) name) (sorted_fields h))
      = concat (map (\<lambda>(k, vs). if EqualFold k name then vs else []) h')"
    by (simp add: sorted_fields_def h'_def P_def EqualFold_def)
  also have "\<dots> = Header_Values h' name" using Values_as_concat [OF dist' canon] by simp
  also have "map_of h' = map_of (filter P h)"
    using dist dist' by (intro map_of_inject_set [THEN iffD2]) (simp_all add: h'_def)
  then have "Header_Values h' name = Header_Values (filter P h) name" by (simp add: Header_Values_def)
  also have "\<dots> = (if EqualFold (lit ''CSeq'') name \<or> EqualFold (lit ''Content-Length'') name then [] else Header_Values h name)"
    unfolding Header_Values_def P_def map_of_filter_key [where Q = "\<lambda>k. canonicalHeaderName k \<notin> {lit ''CSeq'', lit ''Content-Length''}"]
    using canonical_fold [of "lit ''CSeq''" name] canonical_fold [of "lit ''Content-Length''" name] control_names by auto
  finally show ?thesis .
qed

lemma length_sorted_fields: "length (sorted_fields h) \<le> header_lines h"
proof -
  define P where "P = (\<lambda>(k :: bytes, vs :: bytes list). canonicalHeaderName k \<notin> {lit ''CSeq'', lit ''Content-Length''})"
  have "length (concat (map (\<lambda>(k, vs). map (Pair (canonicalHeaderName k)) vs) xs)) = sum_list (map (length \<circ> snd) xs)"
    for xs :: rtsp_header by (induction xs) auto
  then have "length (sorted_fields h) = sum_list (map (length \<circ> snd) (sort_key (\<lambda>(k, vs). canonicalHeaderName k) (filter P h)))"
    by (simp add: sorted_fields_def P_def)
  also have "\<dots> = sum_list (map (length \<circ> snd) (filter P h))"
    by (simp only: sum_mset_sum_list [symmetric] mset_map mset_sort)
  also have "\<dots> \<le> header_lines h" by (induction h) (auto simp: header_lines_def)
  finally show ?thesis .
qed

text \<open>What the caller has to respect for a message to be readable.\<close>

definition message_ok :: "int \<Rightarrow> bytes \<Rightarrow> rtsp_header \<Rightarrow> bool" where
  "message_ok cseq body h \<longleftrightarrow> header_ok h \<and> header_capped h \<and> header_lines h + 2 \<le> MaxHeaderLines
     \<and> - (2 ^ 63) \<le> cseq \<and> cseq < 2 ^ 63"

lemma wire_fields_ok:
  assumes "message_ok cseq body h" "\<not> headerHasCRLF h" "length body \<le> MaxBodySize"
  shows "list_all field_ok (wire_fields cseq body h)" "length (wire_fields cseq body h) \<le> MaxHeaderLines"
proof -
  have num: "\<not> hasCRLF (Itoa i)" for i using Itoa_chars [of i] by (auto simp: hasCRLF_def list_ex_iff)
  have names: "isValidHeaderName (lit ''CSeq'')" "isValidHeaderName (lit ''Content-Length'')" by code_simp+
  have "field_ok (lit ''CSeq'', Itoa cseq)"
    using assms(1) num names length_Itoa [of cseq] by (simp add: message_ok_def field_ok_def caps)
  moreover have "field_ok (lit ''Content-Length'', Itoa (int (length body)))"
    using assms(3) num names length_Itoa [of "int (length body)"] by (simp add: field_ok_def caps)
  moreover have "field_ok f" if "f \<in> set (sorted_fields h)" for f
  proof -
    from that obtain k vs v where "(k, vs) \<in> set h" "v \<in> set vs" "f = (canonicalHeaderName k, v)"
      by (auto simp: sorted_fields_def)
    moreover from this have "map_of h k = Some vs" using assms(1) by (simp add: message_ok_def header_ok_def)
    ultimately show ?thesis using assms(1,2)
      by (fastforce simp: message_ok_def header_capped_def field_ok_def isValidHeaderName_canonical headerHasCRLF_def list_ex_iff)
  qed
  ultimately show "list_all field_ok (wire_fields cseq body h)" by (auto simp: wire_fields_def list_all_iff)
  show "length (wire_fields cseq body h) \<le> MaxHeaderLines"
    using assms(1) length_sorted_fields [of h] by (auto simp: message_ok_def wire_fields_def)
qed

definition wire_header :: "int \<Rightarrow> bytes \<Rightarrow> rtsp_header \<Rightarrow> rtsp_header" where
  "wire_header cseq body h = add_fields (wire_fields cseq body h) []"

lemma wire_header_values:
  assumes "header_ok h"
  shows "Header_Values (wire_header cseq body h) name =
    (if EqualFold (lit ''CSeq'') name then [Itoa cseq]
     else if EqualFold (lit ''Content-Length'') name then (if body = [] then [] else [Itoa (int (length body))])
     else Header_Values h name)"
proof -
  have "\<not> EqualFold (lit ''CSeq'') (lit ''Content-Length'')" by code_simp
  then show ?thesis
    using sorted_fields_values [OF assms, of name]
    by (auto simp: wire_header_def Values_add_fields wire_fields_def Header_Values_def [of "[]"] EqualFold_def)
qed

section \<open>Messages\<close>

lemma EqualFold_names: "\<not> EqualFold (lit ''CSeq'') (lit ''Content-Length'')" "EqualFold (lit ''Content-Length'') (lit ''Content-Length'')"
  by code_simp+

lemma wire_header_CSeq: "message_ok cseq body h \<Longrightarrow> parseCSeq (wire_header cseq body h) = cseq"
  using wire_header_values [of h cseq body "lit ''CSeq''"] Atoi_Itoa [of cseq]
  by (simp add: parseCSeq_def Header_Get_def message_ok_def)

lemma wire_header_body:
  assumes "header_ok h" "length body \<le> MaxBodySize"
  shows "length head + length body \<le> length buf \<Longrightarrow> take (length body) (drop (length head) buf) = body \<Longrightarrow>
      extractBody buf (wire_header cseq body h) (length head) = ok (body, length head + length body)"
    and "length buf < length head + length body \<Longrightarrow> length head \<le> length buf \<Longrightarrow>
      extractBody buf (wire_header cseq body h) (length head) = err ErrIncomplete"
proof -
  have vals: "Header_Values (wire_header cseq body h) (lit ''Content-Length'') = (if body = [] then [] else [Itoa (int (length body))])"
    using wire_header_values [OF assms(1), of cseq body "lit ''Content-Length''"] EqualFold_names by simp
  have num: "Atoi (Itoa (int (length body))) = Some (int (length body))"
    using assms(2) by (intro Atoi_Itoa) (simp_all add: caps)
  show "extractBody buf (wire_header cseq body h) (length head) = ok (body, length head + length body)"
    if "length head + length body \<le> length buf" "take (length body) (drop (length head) buf) = body"
    using that assms(2) num by (simp add: extractBody_def vals Let_def)
  show "extractBody buf (wire_header cseq body h) (length head) = err ErrIncomplete"
    if "length buf < length head + length body" "length head \<le> length buf"
    using that assms(2) num by (cases "body = []") (simp_all add: extractBody_def vals Let_def)
qed

text \<open>A message, complete and with anything behind it, or cut short.\<close>

lemma parse_wire:
  fixes cseq :: int and body first :: bytes and h :: rtsp_header
  assumes "message_ok cseq body h" "\<not> headerHasCRLF h" "length body \<le> MaxBodySize" "line_ok first" "line first = Inr x"
  defines "fs \<equiv> wire_fields cseq body h"
  assumes "length (message_wire first fs []) \<le> MaxHeaderBytes"
  shows "go_bind (parseHead (message_wire first fs body @ rest)) (\<lambda>(fl, h, b). go_bind (Some (line fl))
      (\<lambda>x. go_bind (extractBody (message_wire first fs body @ rest) h b) (\<lambda>(body, n). ok (f x h body, n))))
      = ok (f x (wire_header cseq body h) body, length (message_wire first fs body))"
    and "m < length (message_wire first fs body) \<Longrightarrow>
      go_bind (parseHead (take m (message_wire first fs body))) (\<lambda>(fl, h, b). go_bind (Some (line fl))
      (\<lambda>x. go_bind (extractBody (take m (message_wire first fs body)) h b) (\<lambda>(body, n). ok (f x h body, n))))
      = err ErrIncomplete"
proof -
  define head where "head = message_wire first fs []"
  have wire: "message_wire first fs b = head @ b" for b by (simp add: head_def message_wire_def)
  have hdr: "add_fields fs [] = wire_header cseq body h" by (simp add: fs_def wire_header_def)
  note head = parseHead_message [OF wire_fields_ok(1) [OF assms(1-3)] assms(4) wire_fields_ok(2) [OF assms(1-3)],
      folded fs_def, OF assms(7), unfolded wire hdr]
  have ok: "header_ok h" using assms(1) by (simp add: message_ok_def)
  have full: "parseHead (head @ b) = ok (first, wire_header cseq body h, length head)" for b using head(1) [of b] by simp
  show "go_bind (parseHead (message_wire first fs body @ rest)) (\<lambda>(fl, h, b). go_bind (Some (line fl))
      (\<lambda>x. go_bind (extractBody (message_wire first fs body @ rest) h b) (\<lambda>(body, n). ok (f x h body, n))))
      = ok (f x (wire_header cseq body h) body, length (message_wire first fs body))"
    using wire_header_body(1) [OF ok assms(3), of head "head @ body @ rest" cseq] by (simp add: wire full assms(5))
  show "go_bind (parseHead (take m (message_wire first fs body))) (\<lambda>(fl, h, b). go_bind (Some (line fl))
      (\<lambda>x. go_bind (extractBody (take m (message_wire first fs body)) h b) (\<lambda>(body, n). ok (f x h body, n))))
      = err ErrIncomplete" if "m < length (message_wire first fs body)"
  proof (cases "m < length head")
    case True
    then show ?thesis using head(2) [of m body] by (simp add: wire)
  next
    case False
    then obtain j where j: "m = length head + j" by (metis le_add_diff_inverse linorder_not_less)
    then show ?thesis
      using that wire_header_body(2) [OF ok assms(3), of "head @ take j body" head cseq] by (simp add: wire full assms(5))
  qed
qed

lemma ParseRequest_message: "ParseRequest buf = go_bind (parseHead buf) (\<lambda>(first, h, b). go_bind (Some (parseRequestLine first))
    (\<lambda>x. go_bind (extractBody buf h b) (\<lambda>(body, n). ok (\<lparr>Method = fst x, URL = snd x, Req_CSeq = parseCSeq h, Req_Header = h, Req_Body = body\<rparr>, n))))"
  by (simp add: ParseRequest_def split_def)

lemma ParseResponse_message: "ParseResponse buf = go_bind (parseHead buf) (\<lambda>(first, h, b). go_bind (Some (parseStatusLine first))
    (\<lambda>x. go_bind (extractBody buf h b) (\<lambda>(body, n). ok (\<lparr>StatusCode = fst x, Reason = snd x, Resp_CSeq = parseCSeq h, Resp_Header = h, Resp_Body = body\<rparr>, n))))"
  by (simp add: ParseResponse_def split_def)

definition request_line :: "rtsp_request \<Rightarrow> bytes" where
  "request_line r = Method r @ SP # URL r @ lit '' RTSP/1.0''"

definition status_line :: "rtsp_response \<Rightarrow> bytes" where
  "status_line r = lit ''RTSP/1.0 '' @ Itoa (StatusCode r) @ SP # Reason r"

lemma MarshalRequest_wire:
  assumes "MarshalRequest (Some r) = Inr wire"
  shows "wire = message_wire (request_line r) (wire_fields (Req_CSeq r) (Req_Body r) (Req_Header r)) (Req_Body r)"
    "Method r \<noteq> []" "URL r \<noteq> []" "length (Method r) \<le> MaxMethodLen" "length (URL r) \<le> MaxRequestURILen"
    "length (Req_Body r) \<le> MaxBodySize" "\<not> hasCRLF (Method r)" "\<not> hasForbiddenURIByte (URL r)" "\<not> headerHasCRLF (Req_Header r)"
  using assms by (auto simp: written_fields_append MarshalRequest_def message_wire_def request_line_def split: if_splits)

lemma MarshalResponse_wire:
  assumes "MarshalResponse (Some r) = Inr wire"
  shows "wire = message_wire (status_line r) (wire_fields (Resp_CSeq r) (Resp_Body r) (Resp_Header r)) (Resp_Body r)"
    "100 \<le> StatusCode r" "StatusCode r \<le> 999" "length (Reason r) \<le> MaxReasonLen"
    "length (Resp_Body r) \<le> MaxBodySize" "\<not> hasCRLF (Reason r)" "\<not> headerHasCRLF (Resp_Header r)"
  using assms by (auto simp: written_fields_append MarshalResponse_def message_wire_def status_line_def split: if_splits)

lemma forbidden_bytes: "\<not> hasForbiddenURIByte u \<Longrightarrow> {SP, CR, LF} \<inter> set u = {}"
  by (auto simp: hasForbiddenURIByte_def list_ex_iff)

lemma request_line_parses:
  assumes "MarshalRequest (Some r) = Inr wire" "SP \<notin> set (Method r)"
  shows "line_ok (request_line r)" "parseRequestLine (request_line r) = Inr (Method r, URL r)"
proof -
  note r = MarshalRequest_wire [OF assms(1)]
  have u: "SP \<notin> set (URL r)" "CR \<notin> set (URL r)" "LF \<notin> set (URL r)" using forbidden_bytes [OF r(8)] by auto
  have v: "lit '' RTSP/1.0'' = SP # lit ''RTSP/1.0''" "CR \<notin> set (lit ''RTSP/1.0'')" "LF \<notin> set (lit ''RTSP/1.0'')"
    "prefix (lit ''RTSP/'') (lit ''RTSP/1.0'')" by (simp_all add: lit_simps)
  show "line_ok (request_line r)"
    using r(2,7) u v by (auto simp: line_ok_def request_line_def hasCRLF_def list_ex_iff)
  have "SplitN SP 3 (request_line r) = [Method r, URL r, lit ''RTSP/1.0'']"
    using Cut_found [OF assms(2), of "URL r @ SP # lit ''RTSP/1.0''"] Cut_found [OF u(1), of "lit ''RTSP/1.0''"]
    by (simp add: request_line_def v(1) numeral_3_eq_3)
  then show "parseRequestLine (request_line r) = Inr (Method r, URL r)"
    using r v(4) by (simp add: parseRequestLine_def caps)
qed

lemma status_line_parses:
  assumes "MarshalResponse (Some r) = Inr wire"
  shows "line_ok (status_line r)" "parseStatusLine (status_line r) = Inr (StatusCode r, Reason r)"
proof -
  note r = MarshalResponse_wire [OF assms]
  have v: "lit ''RTSP/1.0 '' = lit ''RTSP/1.0'' @ [SP]" "{SP, CR, LF} \<inter> set (lit ''RTSP/1.0'') = {}"
    "prefix (lit ''RTSP/'') (lit ''RTSP/1.0'')" by (simp_all add: lit_simps)
  have i: "{SP, CR, LF} \<inter> set (Itoa (StatusCode r)) = {}" using Itoa_chars [of "StatusCode r"] by auto
  show "line_ok (status_line r)"
    using r(6) v i by (auto simp: line_ok_def status_line_def hasCRLF_def list_ex_iff)
  have "SplitN SP 3 (status_line r) = [lit ''RTSP/1.0'', Itoa (StatusCode r), Reason r]"
    using Cut_found [of SP "lit ''RTSP/1.0''" "Itoa (StatusCode r) @ SP # Reason r"] Cut_found [of SP "Itoa (StatusCode r)" "Reason r"] v i
    by (simp add: status_line_def numeral_3_eq_3)
  moreover have "length (Itoa (StatusCode r)) = 3"
  proof -
    have three: "length (digits n) = 3" if "100 \<le> n" "n < 1000" for n
    proof -
      have "\<not> n < 10" "\<not> n div 10 < 10" using that by simp_all
      moreover have "n div 10 div 10 < 10" using that by (simp add: div_less_iff_less_mult)
      ultimately show ?thesis by (simp add: digits.simps [of n] digits.simps [of "n div 10"] digits.simps [of "n div 10 div 10"])
    qed
    show ?thesis using three [of "nat (StatusCode r)"] r(2,3) by (simp add: Itoa_def nat_less_iff)
  qed
  moreover have "Atoi (Itoa (StatusCode r)) = Some (StatusCode r)" using r(2,3) by (intro Atoi_Itoa) auto
  ultimately show "parseStatusLine (status_line r) = Inr (StatusCode r, Reason r)"
    using r v(3) by (simp add: parseStatusLine_def caps)
qed

text \<open>The messages that can be read back: valid field names within the caps, and a head that fits.\<close>

definition request_ok :: "rtsp_request \<Rightarrow> bytes \<Rightarrow> bool" where
  "request_ok r wire \<longleftrightarrow> MarshalRequest (Some r) = Inr wire \<and> message_ok (Req_CSeq r) (Req_Body r) (Req_Header r)
     \<and> SP \<notin> set (Method r) \<and> length wire \<le> MaxHeaderBytes + length (Req_Body r)"

definition response_ok :: "rtsp_response \<Rightarrow> bytes \<Rightarrow> bool" where
  "response_ok r wire \<longleftrightarrow> MarshalResponse (Some r) = Inr wire \<and> message_ok (Resp_CSeq r) (Resp_Body r) (Resp_Header r)
     \<and> length wire \<le> MaxHeaderBytes + length (Resp_Body r)"

definition received_request :: "rtsp_request \<Rightarrow> rtsp_request" where
  "received_request r = r\<lparr>Req_Header := wire_header (Req_CSeq r) (Req_Body r) (Req_Header r)\<rparr>"

definition received_response :: "rtsp_response \<Rightarrow> rtsp_response" where
  "received_response r = r\<lparr>Resp_Header := wire_header (Resp_CSeq r) (Resp_Body r) (Resp_Header r)\<rparr>"

lemma length_message_wire: "length (message_wire first fs body) = length (message_wire first fs []) + length body"
  by (simp add: message_wire_def)

lemma request_received:
  assumes "request_ok r wire"
  shows "ParseRequest (wire @ rest) = ok (received_request r, length wire)"
    and "m < length wire \<Longrightarrow> ParseRequest (take m wire) = err ErrIncomplete"
proof -
  have m: "MarshalRequest (Some r) = Inr wire" "message_ok (Req_CSeq r) (Req_Body r) (Req_Header r)" "SP \<notin> set (Method r)"
    using assms by (simp_all add: request_ok_def)
  note wire = MarshalRequest_wire [OF m(1)] and first = request_line_parses [OF m(1,3)]
  have fits: "length (message_wire (request_line r) (wire_fields (Req_CSeq r) (Req_Body r) (Req_Header r)) []) \<le> MaxHeaderBytes"
    using assms wire(1) length_message_wire [of "request_line r" _ "Req_Body r"] by (simp add: request_ok_def)
  note parse = parse_wire [where line = parseRequestLine, OF m(2) wire(9,6) first fits, folded wire(1)]
  show "ParseRequest (wire @ rest) = ok (received_request r, length wire)"
    unfolding ParseRequest_message parse(1) using wire_header_CSeq [OF m(2)] by (simp add: received_request_def)
  show "ParseRequest (take m wire) = err ErrIncomplete" if "m < length wire"
    unfolding ParseRequest_message by (rule parse(2)) (rule that)
qed

lemma response_received:
  assumes "response_ok r wire"
  shows "ParseResponse (wire @ rest) = ok (received_response r, length wire)"
    and "m < length wire \<Longrightarrow> ParseResponse (take m wire) = err ErrIncomplete"
proof -
  have m: "MarshalResponse (Some r) = Inr wire" "message_ok (Resp_CSeq r) (Resp_Body r) (Resp_Header r)"
    using assms by (simp_all add: response_ok_def)
  note wire = MarshalResponse_wire [OF m(1)] and first = status_line_parses [OF m(1)]
  have fits: "length (message_wire (status_line r) (wire_fields (Resp_CSeq r) (Resp_Body r) (Resp_Header r)) []) \<le> MaxHeaderBytes"
    using assms wire(1) length_message_wire [of "status_line r" _ "Resp_Body r"] by (simp add: response_ok_def)
  note parse = parse_wire [where line = parseStatusLine, OF m(2) wire(7,5) first fits, folded wire(1)]
  show "ParseResponse (wire @ rest) = ok (received_response r, length wire)"
    unfolding ParseResponse_message parse(1) using wire_header_CSeq [OF m(2)] by (simp add: received_response_def)
  show "ParseResponse (take m wire) = err ErrIncomplete" if "m < length wire"
    unfolding ParseResponse_message by (rule parse(2)) (rule that)
qed

lemma interleaved_received:
  assumes "MarshalInterleaved ch payload = Inr wire"
  shows "ParseInterleaved (wire @ rest) = ok (\<lparr>Channel = nat ch, IPayload = payload\<rparr>, length wire)"
    and "0 < m \<Longrightarrow> m < length wire \<Longrightarrow> ParseInterleaved (take m wire) = err ErrIncomplete"
proof -
  define n where "n = length payload"
  have w: "wire = 36 # word_of_int ch # put16 (word_of_nat n) @ payload" "0 \<le> ch" "ch \<le> 255" "n \<le> 65535"
    using assms by (auto simp: MarshalInterleaved_def n_def caps split: if_splits)
  have len: "be16 (ucast (drop_bit 8 (word_of_nat n :: u16))) (ucast (word_of_nat n :: u16)) = word_of_nat n" by simp
  have ch: "unat (word_of_int ch :: byte) = nat ch" using w(2,3) by (simp add: unat_eq_nat_uint uint_word_of_int_eq take_bit_int_eq_self)
  have un: "unat (word_of_nat n :: u16) = n" using w(4) by (simp add: unat_word_of_nat_small)
  show "ParseInterleaved (wire @ rest) = ok (\<lparr>Channel = nat ch, IPayload = payload\<rparr>, length wire)"
    using un ch by (simp add: ParseInterleaved_def w(1) caps put16_def n_def [symmetric])
  show "ParseInterleaved (take m wire) = err ErrIncomplete" if "0 < m" "m < length wire"
  proof (cases "m < 4")
    case True
    then show ?thesis using that by (cases m) (simp_all add: ParseInterleaved_def w(1) caps)
  next
    case False
    then have "m = Suc (Suc (Suc (Suc (m - 4))))" by simp
    then obtain j where "m = Suc (Suc (Suc (Suc j)))" by blast
    then show ?thesis using that un by (simp add: ParseInterleaved_def w(1) caps put16_def n_def [symmetric])
  qed
qed

text \<open>
  A request that \<open>MarshalRequest\<close> accepts, with valid field names within the caps, is what \<open>ParseRequest\<close> reads back
  from the wire, whatever bytes follow, and it takes exactly the bytes that were written: method, URI, sequence number and
  body are the same and every other field has the same values, so nothing in a URI or a value can forge a field or a second
  message. Every proper prefix of it is reported as incomplete.
\<close>

theorem rtsp_request_roundtrip:
  assumes "request_ok r wire"
  shows "(\<exists>h. ParseRequest (wire @ rest) = ok (r\<lparr>Req_Header := h\<rparr>, length wire)
      \<and> (\<forall>name. Header_Values h name =
            (if EqualFold (lit ''CSeq'') name then [Itoa (Req_CSeq r)]
             else if EqualFold (lit ''Content-Length'') name then (if Req_Body r = [] then [] else [Itoa (int (length (Req_Body r)))])
             else Header_Values (Req_Header r) name)))
    \<and> (m < length wire \<longrightarrow> ParseRequest (take m wire) = err ErrIncomplete)"
proof -
  have "header_ok (Req_Header r)" using assms by (simp add: request_ok_def message_ok_def)
  then show ?thesis
    using request_received(1) [OF assms, of rest] request_received(2) [OF assms, of m] wire_header_values [of "Req_Header r"]
    unfolding received_request_def by (intro conjI exI [of _ "wire_header (Req_CSeq r) (Req_Body r) (Req_Header r)"]) simp_all
qed

definition sample_request :: rtsp_request where
  "sample_request = \<lparr>Method = lit ''DESCRIBE'', URL = lit ''rtsp://cam/1'', Req_CSeq = 2,
     Req_Header = [(lit ''Accept'', [lit ''application/sdp''])], Req_Body = [1, 2]\<rparr>"

definition sample_response :: rtsp_response where
  "sample_response = \<lparr>StatusCode = 200, Reason = lit ''OK'', Resp_CSeq = 2,
     Resp_Header = [(lit ''Session'', [lit ''12;timeout=60''])], Resp_Body = [1, 2]\<rparr>"

lemma sample_header_ok:
  assumes "canonicalHeaderName k = k" "isValidHeaderName k" "length k \<le> 512" "length v \<le> 2048"
  shows "message_ok 2 body [(k, [v])]"
  using assms by (simp add: message_ok_def header_ok_def header_capped_def header_lines_def caps)

lemmas sample_simps = hasCRLF_def hasForbiddenURIByte_def headerHasCRLF_def writeControlHeaders_def writeSortedHeaders_def
  Itoa_def digits.simps caps

lemma sample_request_ok: "\<exists>wire. request_ok sample_request wire"
proof -
  have k: "canonicalHeaderName (lit ''Accept'') = lit ''Accept''" "isValidHeaderName (lit ''Accept'')"
    "lit ''Accept'' \<noteq> lit ''CSeq''" "lit ''Accept'' \<noteq> lit ''Content-Length''" by code_simp+
  have "message_ok 2 [1, 2] [(lit ''Accept'', [lit ''application/sdp''])]"
    by (rule sample_header_ok) (simp_all add: k)
  moreover have "\<exists>wire. MarshalRequest (Some sample_request) = Inr wire \<and> length wire \<le> 65536"
    by (simp add: MarshalRequest_def sample_request_def sample_simps k) (simp add: lit_simps)
  ultimately show ?thesis by (auto simp: request_ok_def sample_request_def lit_simps caps)
qed

theorem rtsp_request_roundtrip_witness:
  "\<exists>wire h. MarshalRequest (Some sample_request) = Inr wire
     \<and> ParseRequest (wire @ [36, 0]) = ok (sample_request\<lparr>Req_Header := h\<rparr>, length wire)"
proof -
  obtain wire where "request_ok sample_request wire" using sample_request_ok by blast
  then show ?thesis using rtsp_request_roundtrip [of sample_request wire "[36, 0]"] by (auto simp: request_ok_def)
qed

text \<open>
  C32. The same for responses: status code, reason phrase, sequence number, body and fields come back as they were sent, and a
  response cut short is incomplete.
\<close>

theorem rtsp_response_roundtrip:
  assumes "response_ok r wire"
  shows "(\<exists>h. ParseResponse (wire @ rest) = ok (r\<lparr>Resp_Header := h\<rparr>, length wire)
      \<and> (\<forall>name. Header_Values h name =
            (if EqualFold (lit ''CSeq'') name then [Itoa (Resp_CSeq r)]
             else if EqualFold (lit ''Content-Length'') name then (if Resp_Body r = [] then [] else [Itoa (int (length (Resp_Body r)))])
             else Header_Values (Resp_Header r) name)))
    \<and> (m < length wire \<longrightarrow> ParseResponse (take m wire) = err ErrIncomplete)"
proof -
  have "header_ok (Resp_Header r)" using assms by (simp add: response_ok_def message_ok_def)
  then show ?thesis
    using response_received(1) [OF assms, of rest] response_received(2) [OF assms, of m] wire_header_values [of "Resp_Header r"]
    unfolding received_response_def by (intro conjI exI [of _ "wire_header (Resp_CSeq r) (Resp_Body r) (Resp_Header r)"]) simp_all
qed

lemma sample_response_ok: "\<exists>wire. response_ok sample_response wire"
proof -
  have k: "canonicalHeaderName (lit ''Session'') = lit ''Session''" "isValidHeaderName (lit ''Session'')"
    "lit ''Session'' \<noteq> lit ''CSeq''" "lit ''Session'' \<noteq> lit ''Content-Length''" by code_simp+
  have "message_ok 2 [1, 2] [(lit ''Session'', [lit ''12;timeout=60''])]"
    by (rule sample_header_ok) (simp_all add: k)
  moreover have "\<exists>wire. MarshalResponse (Some sample_response) = Inr wire \<and> length wire \<le> 65536"
    by (simp add: MarshalResponse_def sample_response_def sample_simps k) (simp add: lit_simps)
  ultimately show ?thesis by (auto simp: response_ok_def sample_response_def lit_simps caps)
qed

theorem rtsp_response_roundtrip_witness:
  "\<exists>wire h. MarshalResponse (Some sample_response) = Inr wire
     \<and> ParseResponse (wire @ [36, 0]) = ok (sample_response\<lparr>Resp_Header := h\<rparr>, length wire)"
proof -
  obtain wire where "response_ok sample_response wire" using sample_response_ok by blast
  then show ?thesis using rtsp_response_roundtrip [of sample_response wire "[36, 0]"] by (auto simp: response_ok_def)
qed

end
