(* ===== verification/RTSP_Reader.thy ===== *)
theory RTSP_Reader
  imports RTSP_Wire
begin

text \<open>
  The framing loop of the RTSP control connection, \<open>src/rtsp/reader.go\<close>: one goroutine reads chunks, cuts the byte stream into
  interleaved frames, responses and requests, hands each to its handler, and resynchronizes on garbage within a budget. The
  handlers are an argument, as the steps are in the source; the client state they work on is a type variable.
\<close>

section \<open>State\<close>

definition readChunk :: nat where [caps]: "readChunk = 4096"
definition maxReadBuffer :: nat where [caps]: "maxReadBuffer = MaxHeaderBytes + MaxBodySize"
definition maxResyncBytes :: nat where [caps]: "maxResyncBytes = 4096"

text \<open>What a socket read returns: some bytes, a timeout, or another error.\<close>

datatype read_event = ReadData bytes | ReadTimeout | ReadBroken

datatype read_cause = Framing rtsp_error | ResyncExceeded | BufferFull | TimedOut | ConnectionClosed | ReaderPanic

record 'c handlers =
  handleInterleaved :: "InterleavedFrame \<Rightarrow> 'c \<Rightarrow> bool \<times> 'c"
  dispatchResponse :: "rtsp_response \<Rightarrow> 'c \<Rightarrow> 'c"
  handleServerRequest :: "rtsp_request \<Rightarrow> 'c \<Rightarrow> 'c"
  bound :: "'c \<Rightarrow> nat \<Rightarrow> bool"
  closing :: "'c \<Rightarrow> bool"
  playing :: "'c \<Rightarrow> bool"
  initiateShutdown :: "read_cause \<Rightarrow> 'c \<Rightarrow> 'c"

record 'c reader =
  rbuf :: bytes
  start :: nat
  resync :: nat
  client :: 'c

text \<open>
  An iteration of the loop goes on, or ends it after a shutdown; it may also block in a read for which nothing has arrived.
\<close>

datatype 'c outcome = Go_on "'c reader" "read_event list" | Return "'c reader" | Blocked "'c reader"

definition shutdown :: "'c handlers \<Rightarrow> read_cause \<Rightarrow> 'c reader \<Rightarrow> 'c outcome" where
  "shutdown H cause s = Return (s\<lparr>client := initiateShutdown H cause (client s)\<rparr>)"

section \<open>Reading\<close>

definition classifyReadErr :: "'c handlers \<Rightarrow> read_event \<Rightarrow> 'c \<Rightarrow> read_cause" where
  "classifyReadErr H e c = (if playing H c \<and> e = ReadTimeout then TimedOut else ConnectionClosed)"

definition fillMore :: "'c handlers \<Rightarrow> 'c reader \<Rightarrow> read_event list \<Rightarrow> 'c outcome" where
  "fillMore H s0 reads =
     (let s = (if start s0 > 0 then s0\<lparr>rbuf := drop (start s0) (rbuf s0), start := 0\<rparr> else s0) in
      if length (rbuf s) \<ge> maxReadBuffer then shutdown H BufferFull s
      else case reads of
          [] \<Rightarrow> Blocked s
        | ReadData chunk # reads' \<Rightarrow> Go_on (s\<lparr>rbuf := rbuf s @ chunk\<rparr>) reads'
        | e # reads' \<Rightarrow> shutdown H (classifyReadErr H e (client s)) s)"

definition resyncOne :: "'c handlers \<Rightarrow> 'c reader \<Rightarrow> read_event list \<Rightarrow> 'c outcome" where
  "resyncOne H s reads =
     (let s' = s\<lparr>resync := resync s + 1\<rparr> in
      if resync s' > maxResyncBytes then shutdown H ResyncExceeded s'
      else Go_on (s'\<lparr>start := start s' + 1\<rparr>) reads)"

section \<open>Steps\<close>

type_synonym 'c step = "bytes \<Rightarrow> 'c \<Rightarrow> (rtsp_error, nat \<times> bool) go \<times> 'c"

definition stepInterleaved :: "'c handlers \<Rightarrow> 'c step" where
  "stepInterleaved H buf c =
     (case ParseInterleaved buf of
        None \<Rightarrow> (panic, c)
      | Some (Inl e) \<Rightarrow> (err e, c)
      | Some (Inr (f, n)) \<Rightarrow> (let (usable, c') = handleInterleaved H f c in (ok (n, usable), c')))"

definition stepResponse :: "'c handlers \<Rightarrow> 'c step" where
  "stepResponse H buf c =
     (case ParseResponse buf of
        None \<Rightarrow> (panic, c)
      | Some (Inl e) \<Rightarrow> (err e, c)
      | Some (Inr (resp, n)) \<Rightarrow> (ok (n, True), dispatchResponse H resp c))"

definition stepRequest :: "'c handlers \<Rightarrow> 'c step" where
  "stepRequest H buf c =
     (case ParseRequest buf of
        None \<Rightarrow> (panic, c)
      | Some (Inl e) \<Rightarrow> (err e, c)
      | Some (Inr (req, n)) \<Rightarrow> (ok (n, True), handleServerRequest H req c))"

datatype resync_verdict = resyncAccept | resyncFill | resyncDiscard

definition gateResyncFrame :: "'c handlers \<Rightarrow> 'c reader \<Rightarrow> resync_verdict" where
  "gateResyncFrame H s =
     (case drop (start s) (rbuf s) of
        _ # channel # _ \<Rightarrow> if bound H (client s) (unat channel) then resyncAccept else resyncDiscard
      | _ \<Rightarrow> resyncFill)"

text \<open>The step itself, once the gate has let the unit through.\<close>

definition run_step :: "'c handlers \<Rightarrow> 'c step \<Rightarrow> bool \<Rightarrow> bool \<Rightarrow> 'c reader \<Rightarrow> read_event list \<Rightarrow> 'c outcome" where
  "run_step H step resyncing gated s reads =
     (case step (drop (start s) (rbuf s)) (client s) of (r, c) \<Rightarrow>
        let s = s\<lparr>client := c\<rparr> in
        (case r of
          None \<Rightarrow> shutdown H ReaderPanic s
        | Some (Inl ErrIncomplete) \<Rightarrow> fillMore H s reads
        | Some (Inl e) \<Rightarrow> if resyncing then resyncOne H s reads else shutdown H (Framing e) s
        | Some (Inr (n, usable)) \<Rightarrow>
            Go_on (s\<lparr>start := start s + n, resync := (if \<not> gated \<or> usable then 0 else resync s)\<rparr>) reads))"

definition consume :: "'c handlers \<Rightarrow> 'c step \<Rightarrow> bool \<Rightarrow> 'c reader \<Rightarrow> read_event list \<Rightarrow> 'c outcome" where
  "consume H step validated s reads =
     (let resyncing = resync s > 0 in
      if resyncing \<and> \<not> validated then
        (case gateResyncFrame H s of
           resyncAccept \<Rightarrow> run_step H step resyncing True s reads
         | resyncFill \<Rightarrow> fillMore H s reads
         | resyncDiscard \<Rightarrow> resyncOne H s reads)
      else run_step H step resyncing False s reads)"

text \<open>One iteration of \<open>readLoop\<close>.\<close>

definition read_iter :: "'c handlers \<Rightarrow> 'c reader \<Rightarrow> read_event list \<Rightarrow> 'c outcome" where
  "read_iter H s reads =
     (if closing H (client s) then Return s
      else case ClassifyStream (drop (start s) (rbuf s)) of
          FrameNeedMore \<Rightarrow> fillMore H s reads
        | FrameInterleaved \<Rightarrow> consume H (stepInterleaved H) False s reads
        | FrameResponse \<Rightarrow> consume H (stepResponse H) True s reads
        | FrameRequest \<Rightarrow> consume H (stepRequest H) True s reads
        | FrameUnknown \<Rightarrow> resyncOne H s reads)"

text \<open>The bytes that are still to be consumed, and the reads still to be made.\<close>

definition event_bytes :: "read_event \<Rightarrow> bytes" where
  "event_bytes e = (case e of ReadData b \<Rightarrow> b | _ \<Rightarrow> [])"

definition ahead_bytes :: "'c reader \<Rightarrow> read_event list \<Rightarrow> bytes" where
  "ahead_bytes s reads = drop (start s) (rbuf s) @ concat (map event_bytes reads)"

definition pending :: "'c reader \<Rightarrow> read_event list \<Rightarrow> nat" where
  "pending s reads = length (ahead_bytes s reads) + length reads"

text \<open>A step consumes at least one byte, and no more than there are.\<close>

definition consuming :: "'c step \<Rightarrow> bool" where
  "consuming step \<longleftrightarrow> (\<forall>buf c n usable. fst (step buf c) = ok (n, usable) \<longrightarrow> 0 < n \<and> n \<le> length buf)"

lemma steps_consuming: "consuming (stepInterleaved H)" "consuming (stepResponse H)" "consuming (stepRequest H)"
proof -
  show "consuming (stepResponse H)"
    using ParseResponse_returns by (fastforce simp: consuming_def stepResponse_def returns_def response_typed_def split: option.splits sum.splits)
  show "consuming (stepRequest H)"
    using ParseRequest_returns by (fastforce simp: consuming_def stepRequest_def returns_def request_typed_def split: option.splits sum.splits)
  show "consuming (stepInterleaved H)"
    using ParseInterleaved_returns
    by (fastforce simp: consuming_def stepInterleaved_def returns_def frame_typed_def split: option.splits sum.splits prod.splits)
qed

text \<open>Every iteration that goes on makes progress: it consumes bytes or a read.\<close>

lemma fillMore_progress: "fillMore H s reads = Go_on s' reads' \<Longrightarrow> pending s' reads' < pending s reads"
  by (auto simp: fillMore_def Let_def shutdown_def pending_def ahead_bytes_def event_bytes_def
      split: if_splits list.splits read_event.splits)

lemma resyncOne_progress:
  "resyncOne H s reads = Go_on s' reads' \<Longrightarrow> start s < length (rbuf s) \<Longrightarrow> pending s' reads' < pending s reads"
  by (auto simp: resyncOne_def Let_def shutdown_def pending_def ahead_bytes_def split: if_splits)

lemma run_step_progress:
  assumes "run_step H step resyncing gated s reads = Go_on s' reads'" "consuming step" "start s < length (rbuf s)"
  shows "pending s' reads' < pending s reads"
proof -
  obtain r c where step: "step (drop (start s) (rbuf s)) (client s) = (r, c)" by fastforce
  have same: "pending (s\<lparr>client := c\<rparr>) reads = pending s reads" by (simp add: pending_def ahead_bytes_def)
  show ?thesis
  proof (cases r)
    case (Some x)
    show ?thesis
    proof (cases x)
      case (Inl e)
      then show ?thesis using assms(1,3) step Some fillMore_progress [of H "s\<lparr>client := c\<rparr>" reads]
          resyncOne_progress [of H "s\<lparr>client := c\<rparr>" reads] same
        by (cases "e = ErrIncomplete") (auto simp: run_step_def Let_def shutdown_def split: rtsp_error.splits if_splits)
    next
      case (Inr p)
      obtain n usable where p: "p = (n, usable)" by fastforce
      have "0 < n" "n \<le> length (rbuf s) - start s"
        using assms(2) step Some Inr p unfolding consuming_def by (metis fst_conv length_drop)+
      then show ?thesis using assms(1) step Some Inr p
        by (auto simp: run_step_def Let_def pending_def ahead_bytes_def)
    qed
  qed (use assms(1) step in \<open>simp add: run_step_def shutdown_def Let_def\<close>)
qed

lemma read_iter_progress:
  assumes "read_iter H s reads = Go_on s' reads'"
  shows "pending s' reads' < pending s reads"
proof (cases "start s < length (rbuf s)")
  case True
  have "consume H step validated s reads = Go_on s' reads' \<Longrightarrow> consuming step \<Longrightarrow> pending s' reads' < pending s reads" for step validated
    using True by (auto simp: consume_def Let_def split: if_splits resync_verdict.splits
        dest: run_step_progress fillMore_progress resyncOne_progress)
  then show ?thesis using assms True steps_consuming [of H]
    by (auto simp: read_iter_def split: if_splits FrameKind.splits dest: fillMore_progress resyncOne_progress)
next
  case False
  then have "ClassifyStream (drop (start s) (rbuf s)) = FrameNeedMore" by (simp add: ClassifyStream_def)
  then show ?thesis using assms by (auto simp: read_iter_def split: if_splits dest: fillMore_progress)
qed

function readLoop :: "'c handlers \<Rightarrow> 'c reader \<Rightarrow> read_event list \<Rightarrow> 'c outcome" where
  "readLoop H s reads =
     (case read_iter H s reads of
        Go_on s' reads' \<Rightarrow> readLoop H s' reads'
      | Return s' \<Rightarrow> Return s'
      | Blocked s' \<Rightarrow> Blocked s')"
  by pat_completeness auto
termination
  by (relation "measure (\<lambda>(H, s, reads). pending s reads)") (auto dest: read_iter_progress)

declare readLoop.simps [simp del]

section \<open>Robustness\<close>

text \<open>The buffer is bounded and the resynchronization budget is kept.\<close>

definition reader_ok :: "'c reader \<Rightarrow> bool" where
  "reader_ok s \<longleftrightarrow> start s \<le> length (rbuf s) \<and> length (rbuf s) < maxReadBuffer + readChunk \<and> resync s \<le> maxResyncBytes"

definition reads_ok :: "read_event list \<Rightarrow> bool" where
  "reads_ok reads \<longleftrightarrow> (\<forall>e \<in> set reads. length (event_bytes e) \<le> readChunk)"

fun final :: "'c outcome \<Rightarrow> 'c reader" where
  "final (Go_on s reads) = s"
| "final (Return s) = s"
| "final (Blocked s) = s"

text \<open>While the loop runs or waits the state satisfies \<open>P\<close>; once it has returned the client still does.\<close>

fun outcome_ok :: "('c \<Rightarrow> bool) \<Rightarrow> 'c outcome \<Rightarrow> bool" where
  "outcome_ok P (Go_on s reads) \<longleftrightarrow> reader_ok s \<and> P (client s) \<and> reads_ok reads"
| "outcome_ok P (Return s) \<longleftrightarrow> length (rbuf s) < maxReadBuffer + readChunk \<and> P (client s)"
| "outcome_ok P (Blocked s) \<longleftrightarrow> reader_ok s \<and> P (client s)"

text \<open>
  What the handlers keep of the client state, whatever well-typed unit they are given. A shutdown for a panic of the parsers is not among the
  causes they are asked about.
\<close>

locale reader_client =
  fixes H :: "'c handlers" and inv :: "'c \<Rightarrow> bool"
  assumes frame_inv: "inv c \<Longrightarrow> Channel f < 256 \<Longrightarrow> inv (snd (handleInterleaved H f c))"
    and response_inv: "inv c \<Longrightarrow> inv (dispatchResponse H resp c)"
    and request_inv: "inv c \<Longrightarrow> inv (handleServerRequest H req c)"
    and shutdown_inv: "inv c \<Longrightarrow> cause \<noteq> ReaderPanic \<Longrightarrow> inv (initiateShutdown H cause c)"
begin

definition keeps :: "'c step \<Rightarrow> bool" where
  "keeps step \<longleftrightarrow> (\<forall>buf c. inv c \<longrightarrow> fst (step buf c) \<noteq> None \<and> inv (snd (step buf c)))"

lemma steps_keep: "keeps (stepInterleaved H)" "keeps (stepResponse H)" "keeps (stepRequest H)"
proof -
  have "inv c \<Longrightarrow> fst (stepResponse H buf c) \<noteq> None \<and> inv (snd (stepResponse H buf c))" for buf c
    using ParseResponse_returns [of buf] response_inv
    by (auto simp: stepResponse_def returns_def split: option.splits sum.splits)
  then show "keeps (stepResponse H)" by (simp add: keeps_def)
  have "inv c \<Longrightarrow> fst (stepRequest H buf c) \<noteq> None \<and> inv (snd (stepRequest H buf c))" for buf c
    using ParseRequest_returns [of buf] request_inv
    by (auto simp: stepRequest_def returns_def split: option.splits sum.splits)
  then show "keeps (stepRequest H)" by (simp add: keeps_def)
  show "keeps (stepInterleaved H)" unfolding keeps_def
  proof (intro allI impI)
    fix buf c assume "inv c"
    moreover have "returns (frame_typed (length buf)) (ParseInterleaved buf)" by (rule ParseInterleaved_returns)
    ultimately show "fst (stepInterleaved H buf c) \<noteq> None \<and> inv (snd (stepInterleaved H buf c))"
      using frame_inv by (auto simp: stepInterleaved_def returns_def frame_typed_def split_def Let_def split: option.splits sum.splits)
  qed
qed

lemma fillMore_ok:
  assumes "reader_ok s" "inv (client s)" "reads_ok reads"
  shows "outcome_ok inv (fillMore H s reads)"
proof -
  define s1 where "s1 = (if start s > 0 then s\<lparr>rbuf := drop (start s) (rbuf s), start := 0\<rparr> else s)"
  have s1: "reader_ok s1" "start s1 = 0" "inv (client s1)" using assms by (auto simp: s1_def reader_ok_def)
  show ?thesis
  proof (cases "length (rbuf s1) \<ge> maxReadBuffer")
    case True
    then show ?thesis using s1 shutdown_inv by (simp add: fillMore_def s1_def [symmetric] shutdown_def reader_ok_def)
  next
    case False
    then show ?thesis using s1 assms(3) shutdown_inv
      by (auto simp: fillMore_def s1_def [symmetric] reader_ok_def reads_ok_def event_bytes_def classifyReadErr_def shutdown_def
          split: list.split read_event.split)
  qed
qed

lemma resyncOne_ok:
  "reader_ok s \<Longrightarrow> inv (client s) \<Longrightarrow> reads_ok reads \<Longrightarrow> start s < length (rbuf s) \<Longrightarrow> outcome_ok inv (resyncOne H s reads)"
  using shutdown_inv by (auto simp: resyncOne_def Let_def reader_ok_def shutdown_def)

lemma run_step_ok:
  assumes "reader_ok s" "inv (client s)" "reads_ok reads" "start s < length (rbuf s)" "keeps step" "consuming step"
  shows "outcome_ok inv (run_step H step resyncing gated s reads)"
proof -
  obtain r c where step: "step (drop (start s) (rbuf s)) (client s) = (r, c)" by fastforce
  have r: "r \<noteq> None" "inv c" using assms(2,5) step unfolding keeps_def by (metis fst_conv snd_conv)+
  define s1 where "s1 = s\<lparr>client := c\<rparr>"
  have s1: "reader_ok s1" "inv (client s1)" "start s1 < length (rbuf s1)" using assms r by (simp_all add: s1_def reader_ok_def)
  consider e where "r = err e" | n usable where "r = ok (n, usable)" using r(1) by (metis not_None_eq obj_sumE prod.collapse)
  then show ?thesis
  proof cases
    case 1
    have "outcome_ok inv (shutdown H (Framing e) s1)" using s1 shutdown_inv by (simp add: shutdown_def reader_ok_def)
    then show ?thesis using 1 step s1 fillMore_ok [OF s1(1,2) assms(3)] resyncOne_ok [OF s1(1,2) assms(3) s1(3)]
      by (cases e) (auto simp: run_step_def Let_def s1_def)
  next
    case 2
    then have "n \<le> length (rbuf s) - start s" using assms(6) step unfolding consuming_def by (metis fst_conv length_drop)
    then show ?thesis using 2 step s1 assms(1,3) by (auto simp: run_step_def reader_ok_def s1_def Let_def)
  qed
qed

lemma read_iter_ok:
  assumes "reader_ok s" "inv (client s)" "reads_ok reads"
  shows "outcome_ok inv (read_iter H s reads)"
proof (cases "start s < length (rbuf s)")
  case True
  have "keeps step \<Longrightarrow> consuming step \<Longrightarrow> outcome_ok inv (consume H step validated s reads)" for step validated
    using run_step_ok [OF assms True] fillMore_ok [OF assms] resyncOne_ok [OF assms True]
    by (auto simp: consume_def Let_def split: resync_verdict.splits)
  then show ?thesis using assms steps_keep steps_consuming [of H] fillMore_ok [OF assms] resyncOne_ok [OF assms True]
    by (auto simp: read_iter_def reader_ok_def split: FrameKind.splits)
next
  case False
  then have "ClassifyStream (drop (start s) (rbuf s)) = FrameNeedMore" by (simp add: ClassifyStream_def)
  then show ?thesis using assms fillMore_ok [OF assms] by (simp add: read_iter_def reader_ok_def)
qed

lemma readLoop_ok: "reader_ok s \<Longrightarrow> inv (client s) \<Longrightarrow> reads_ok reads \<Longrightarrow> outcome_ok inv (readLoop H s reads)"
proof (induction "pending s reads" arbitrary: s reads rule: less_induct)
  case less
  have "outcome_ok inv (read_iter H s reads)" using read_iter_ok less.prems by blast
  then show ?case using less.hyps read_iter_progress [of H s reads]
    by (subst readLoop.simps) (auto split: outcome.split)
qed

end

section \<open>Delivery\<close>

text \<open>
  The contract of a framing: while only a proper prefix of a unit is buffered the reader waits for more, and a unit at the front
  of the buffer is taken off it and acted on.
\<close>

locale framing =
  fixes H :: "'c handlers" and sends :: "'u \<Rightarrow> bytes \<Rightarrow> bool" and act :: "'u \<Rightarrow> 'c \<Rightarrow> 'c"
  assumes unit_size: "sends u w \<Longrightarrow> w \<noteq> [] \<and> length w \<le> maxReadBuffer"
    and unit_part: "sends u w \<Longrightarrow> \<not> closing H (client s) \<Longrightarrow> resync s = 0 \<Longrightarrow> m < length w \<Longrightarrow>
      drop (start s) (rbuf s) = take m w \<Longrightarrow> read_iter H s reads = fillMore H s reads"
    and unit_whole: "sends u w \<Longrightarrow> \<not> closing H (client s) \<Longrightarrow> resync s = 0 \<Longrightarrow>
      drop (start s) (rbuf s) = w @ rest \<Longrightarrow>
      read_iter H s reads = Go_on (s\<lparr>start := start s + length w, client := act u (client s)\<rparr>) reads"
begin

lemma wait_for_more:
  assumes "resync s = 0" "start s \<le> length (rbuf s)" "length (drop (start s) (rbuf s)) < maxReadBuffer" "reads = ReadData b # reads'"
  obtains s' where "fillMore H s reads = Go_on s' reads'" "ahead_bytes s' reads' = ahead_bytes s reads" "resync s' = 0"
    "client s' = client s" "start s' \<le> length (rbuf s')"
proof -
  define s1 where "s1 = (if start s > 0 then s\<lparr>rbuf := drop (start s) (rbuf s), start := 0\<rparr> else s)"
  have s1: "start s1 = 0" "rbuf s1 = drop (start s) (rbuf s)" "resync s1 = 0" "client s1 = client s" using assms by (auto simp: s1_def)
  show thesis
  proof (rule that)
    show "fillMore H s reads = Go_on (s1\<lparr>rbuf := rbuf s1 @ b\<rparr>) reads'"
      using assms s1(2) by (simp add: fillMore_def s1_def [symmetric])
  qed (use assms s1 in \<open>simp_all add: ahead_bytes_def event_bytes_def\<close>)
qed

lemma stream_delivered:
  assumes "list_all2 sends us ws" "ahead_bytes s reads = concat ws" "\<forall>e \<in> set reads. \<exists>b. e = ReadData b"
    "resync s = 0" "start s \<le> length (rbuf s)" "\<forall>k \<le> length us. \<not> closing H (fold act (take k us) (client s))"
  shows "\<exists>s'. readLoop H s reads = Blocked s' \<and> client s' = fold act us (client s) \<and> ahead_bytes s' [] = [] \<and> resync s' = 0"
  using assms
proof (induction "pending s reads" arbitrary: s reads us ws rule: less_induct)
  case less
  have open': "\<not> closing H (client s)" using less.prems(6) by (auto dest: spec [of _ 0])
  have fill: ?case if iter: "read_iter H s reads = fillMore H s reads" and small: "length (drop (start s) (rbuf s)) < maxReadBuffer"
    and more: "reads = e # reads'" for e reads'
  proof -
    obtain b where b: "e = ReadData b" using less.prems(3) more by auto
    obtain s' where s': "read_iter H s reads = Go_on s' reads'" "ahead_bytes s' reads' = ahead_bytes s reads" "resync s' = 0"
      "client s' = client s" "start s' \<le> length (rbuf s')"
      using wait_for_more [OF less.prems(4,5) small, of reads b reads'] iter more b by auto
    then show ?case
      using less.hyps [OF read_iter_progress [OF s'(1)] less.prems(1)] less.prems more by (subst readLoop.simps) simp
  qed
  show ?case
  proof (cases us)
    case Nil
    then have "ws = []" using less.prems(1) by simp
    then have empty: "drop (start s) (rbuf s) = []" using less.prems(2) by (simp add: ahead_bytes_def)
    then have iter: "read_iter H s reads = fillMore H s reads" using open' by (simp add: read_iter_def ClassifyStream_def)
    show ?thesis
    proof (cases reads)
      case Nil
      then show ?thesis using iter empty less.prems(4) \<open>us = []\<close>
        by (subst readLoop.simps) (auto simp: fillMore_def ahead_bytes_def caps)
    qed (use fill iter empty in \<open>simp add: caps\<close>)
  next
    case (Cons u us')
    then obtain w ws' where ws: "ws = w # ws'" "sends u w" "list_all2 sends us' ws'" using less.prems(1) by (auto simp: list_all2_Cons1)
    define B where "B = drop (start s) (rbuf s)"
    have all: "B @ concat (map event_bytes reads) = w @ concat ws'" using less.prems(2) ws by (simp add: ahead_bytes_def B_def)
    show ?thesis
    proof (cases "length B < length w")
      case True
      then have B: "B = take (length B) w" using all by (metis append_eq_append_conv_if append_take_drop_id less_imp_le take_all_iff linorder_not_less)
      then have iter: "read_iter H s reads = fillMore H s reads"
        using unit_part [OF ws(2) open' less.prems(4) True, of reads] unfolding B_def [symmetric] by blast
      have "reads \<noteq> []" using all True by (auto dest: arg_cong [of _ _ length])
      then show ?thesis using fill iter unit_size [OF ws(2)] True by (cases reads) (auto simp: B_def)
    next
      case False
      then have le: "length w \<le> length B" by simp
      define rest where "rest = drop (length w) B"
      have B: "B = w @ rest" "rest @ concat (map event_bytes reads) = concat ws'"
        using append_front [OF all le] append_take_drop_id [of "length w" B] by (simp_all add: rest_def)
      define s' where "s' = s\<lparr>start := start s + length w, client := act u (client s)\<rparr>"
      have iter: "read_iter H s reads = Go_on s' reads" using unit_whole [OF ws(2) open' less.prems(4)] B(1) by (simp add: B_def s'_def)
      have "length (rbuf s) - start s = length w + length rest" using arg_cong [OF B(1), of length] by (simp add: B_def)
      then have start: "start s' \<le> length (rbuf s')" using less.prems(5) by (simp add: s'_def)
      have "drop (start s') (rbuf s') = rest"
        using arg_cong [OF B(1), of "drop (length w)"] by (simp add: B_def s'_def add.commute)
      then have ahead: "ahead_bytes s' reads = concat ws'" using B(2) by (simp add: ahead_bytes_def)
      have "\<not> closing H (fold act (take k us') (client s'))" if "k \<le> length us'" for k
        using less.prems(6) that Cons by (auto dest: spec [of _ "Suc k"] simp: s'_def)
      then show ?thesis
        using less.hyps [OF read_iter_progress [OF iter] ws(3) ahead less.prems(3) _ start] less.prems(4) iter Cons
        by (subst readLoop.simps) (simp add: s'_def)
    qed
  qed
qed

end

text \<open>The units of an RTSP connection: what is sent, and what the client does with it.\<close>

datatype wire_unit = UFrame int bytes | UResponse rtsp_response | URequest rtsp_request

fun unit_sent :: "wire_unit \<Rightarrow> bytes \<Rightarrow> bool" where
  "unit_sent (UFrame ch payload) w \<longleftrightarrow> MarshalInterleaved ch payload = Inr w"
| "unit_sent (UResponse r) w \<longleftrightarrow> response_ok r w"
| "unit_sent (URequest r) w \<longleftrightarrow> request_ok r w \<and> take 2 (Method r) \<in> set request_prefixes"

fun unit_act :: "'c handlers \<Rightarrow> wire_unit \<Rightarrow> 'c \<Rightarrow> 'c" where
  "unit_act H (UFrame ch payload) c = snd (handleInterleaved H \<lparr>Channel = nat ch, IPayload = payload\<rparr> c)"
| "unit_act H (UResponse r) c = dispatchResponse H (received_response r) c"
| "unit_act H (URequest r) c = handleServerRequest H (received_request r) c"

text \<open>The first two bytes of a message tell its kind.\<close>

lemma classify_two:
  assumes "w = a # b # w'" "a \<noteq> 36" "m \<le> length w"
  shows "ClassifyStream (take m w) = (if m < 2 then FrameNeedMore else if [a, b] = lit ''RT'' then FrameResponse
     else if [a, b] \<in> set request_prefixes then FrameRequest else FrameUnknown)"
proof -
  consider "m = 0" | "m = 1" | k where "m = Suc (Suc k)" by (metis One_nat_def not0_implies_Suc)
  then show ?thesis using assms by cases (auto simp: ClassifyStream_def)
qed

lemma request_start:
  assumes "request_ok r w" "take 2 (Method r) \<in> set request_prefixes"
  obtains a b w' where "w = a # b # w'" "[a, b] \<in> set request_prefixes" "a \<noteq> 36" "[a, b] \<noteq> lit ''RT''"
proof -
  have "\<forall>p \<in> set request_prefixes. \<exists>a b. p = [a, b] \<and> a \<noteq> 36 \<and> p \<noteq> lit ''RT''"
    by (simp add: request_prefixes_def lit_simps)
  with assms(2) obtain a b where ab: "take 2 (Method r) = [a, b]" "a \<noteq> 36" "[a, b] \<noteq> lit ''RT''" "[a, b] \<in> set request_prefixes" by fastforce
  then obtain m' where "Method r = a # b # m'" by (cases "Method r"; cases "tl (Method r)") (auto simp: take_Suc_conv_app_nth)
  moreover have "w = request_line r @ drop (length (request_line r)) w"
    using MarshalRequest_wire(1) [of r w] assms(1) by (simp add: request_ok_def message_wire_def)
  ultimately show thesis using that ab by (metis Cons_eq_appendI request_line_def)
qed

lemma response_start:
  assumes "response_ok r w"
  obtains w' where "w = 82 # 84 # w'"
proof -
  have "w = status_line r @ drop (length (status_line r)) w"
    using MarshalResponse_wire(1) [of r w] assms by (simp add: response_ok_def message_wire_def)
  then show thesis using that by (simp add: status_line_def lit_simps)
qed

lemma same_client: "(s :: 'c reader)\<lparr>client := client s\<rparr> = s"
  by simp

lemma consume_part:
  assumes "resync s = 0" "step (drop (start s) (rbuf s)) (client s) = (err ErrIncomplete, client s)"
  shows "consume H step validated s reads = fillMore H s reads"
  using assms by (simp add: consume_def run_step_def Let_def same_client)

lemma consume_whole:
  assumes "resync s = 0" "step (drop (start s) (rbuf s)) (client s) = (ok (n, usable), c)"
  shows "consume H step validated s reads = Go_on (s\<lparr>start := start s + n, client := c\<rparr>) reads"
  using assms by (cases s) (simp add: consume_def run_step_def Let_def)

lemma frame_part:
  assumes "MarshalInterleaved ch payload = Inr w" "\<not> closing H (client s)" "resync s = 0" "m < length w" "drop (start s) (rbuf s) = take m w"
  shows "read_iter H s reads = fillMore H s reads"
proof (cases "m = 0")
  case True
  then show ?thesis using assms by (simp add: read_iter_def ClassifyStream_def)
next
  case False
  then have "hd (take m w) = 36" "take m w \<noteq> []" using assms(1,4) by (auto simp: MarshalInterleaved_def split: if_splits)
  then have "ClassifyStream (take m w) = FrameInterleaved" by (cases "take m w") (simp_all add: ClassifyStream_def)
  moreover have "stepInterleaved H (take m w) (client s) = (err ErrIncomplete, client s)"
    using interleaved_received(2) [OF assms(1)] False assms(4) by (simp add: stepInterleaved_def)
  ultimately show ?thesis using assms consume_part [OF assms(3), of "stepInterleaved H"] by (simp add: read_iter_def)
qed

lemma frame_whole:
  assumes "MarshalInterleaved ch payload = Inr w" "\<not> closing H (client s)" "resync s = 0" "drop (start s) (rbuf s) = w @ rest"
  shows "read_iter H s reads = Go_on (s\<lparr>start := start s + length w, client := unit_act H (UFrame ch payload) (client s)\<rparr>) reads"
proof -
  have "ClassifyStream (w @ rest) = FrameInterleaved"
    using assms(1) by (auto simp: MarshalInterleaved_def ClassifyStream_def split: if_splits)
  moreover obtain usable where "stepInterleaved H (w @ rest) (client s) = (ok (length w, usable), unit_act H (UFrame ch payload) (client s))"
    using interleaved_received(1) [OF assms(1), of rest]
    by (cases "handleInterleaved H \<lparr>Channel = nat ch, IPayload = payload\<rparr> (client s)") (auto simp: stepInterleaved_def)
  ultimately show ?thesis using assms consume_whole [OF assms(3), of "stepInterleaved H"] by (simp add: read_iter_def)
qed

lemma response_part:
  assumes "response_ok r w" "\<not> closing H (client s)" "resync s = 0" "m < length w" "drop (start s) (rbuf s) = take m w"
  shows "read_iter H s reads = fillMore H s reads"
proof -
  obtain w' where w: "w = 82 # 84 # w'" using response_start [OF assms(1)] .
  have "stepResponse H (take m w) (client s) = (err ErrIncomplete, client s)"
    using response_received(2) [OF assms(1,4)] by (simp add: stepResponse_def)
  then show ?thesis
    using assms classify_two [OF w, of m] consume_part [OF assms(3), of "stepResponse H"]
    by (cases "m < 2") (simp_all add: read_iter_def lit_simps)
qed

lemma response_whole:
  assumes "response_ok r w" "\<not> closing H (client s)" "resync s = 0" "drop (start s) (rbuf s) = w @ rest"
  shows "read_iter H s reads = Go_on (s\<lparr>start := start s + length w, client := unit_act H (UResponse r) (client s)\<rparr>) reads"
proof -
  obtain w' where w: "w @ rest = 82 # 84 # w'" using response_start [OF assms(1)] by (metis append_Cons)
  have "stepResponse H (w @ rest) (client s) = (ok (length w, True), unit_act H (UResponse r) (client s))"
    using response_received(1) [OF assms(1)] by (simp add: stepResponse_def)
  moreover have "ClassifyStream (w @ rest) = FrameResponse" by (simp add: w ClassifyStream_def lit_simps)
  ultimately show ?thesis using assms consume_whole [OF assms(3), of "stepResponse H"] by (simp add: read_iter_def)
qed

lemma request_part:
  assumes "request_ok r w" "take 2 (Method r) \<in> set request_prefixes" "\<not> closing H (client s)" "resync s = 0" "m < length w"
    "drop (start s) (rbuf s) = take m w"
  shows "read_iter H s reads = fillMore H s reads"
proof -
  obtain a b w' where w: "w = a # b # w'" "[a, b] \<in> set request_prefixes" "a \<noteq> 36" "[a, b] \<noteq> lit ''RT''"
    using request_start [OF assms(1,2)] .
  have "stepRequest H (take m w) (client s) = (err ErrIncomplete, client s)"
    using request_received(2) [OF assms(1,5)] by (simp add: stepRequest_def)
  then show ?thesis
    using assms classify_two [OF w(1,3), of m] w(2,4) consume_part [OF assms(4), of "stepRequest H"]
    by (cases "m < 2") (simp_all add: read_iter_def)
qed

lemma request_whole:
  assumes "request_ok r w" "take 2 (Method r) \<in> set request_prefixes" "\<not> closing H (client s)" "resync s = 0"
    "drop (start s) (rbuf s) = w @ rest"
  shows "read_iter H s reads = Go_on (s\<lparr>start := start s + length w, client := unit_act H (URequest r) (client s)\<rparr>) reads"
proof -
  obtain a b w' where w: "w = a # b # w'" "[a, b] \<in> set request_prefixes" "a \<noteq> 36" "[a, b] \<noteq> lit ''RT''"
    using request_start [OF assms(1,2)] .
  have "stepRequest H (w @ rest) (client s) = (ok (length w, True), unit_act H (URequest r) (client s))"
    using request_received(1) [OF assms(1)] by (simp add: stepRequest_def)
  moreover have "ClassifyStream (w @ rest) = FrameRequest" using w by (simp add: ClassifyStream_def)
  ultimately show ?thesis using assms consume_whole [OF assms(4), of "stepRequest H"] by (simp add: read_iter_def)
qed

lemma unit_length:
  assumes "unit_sent u w"
  shows "w \<noteq> [] \<and> length w \<le> maxReadBuffer"
proof (cases u)
  case (UFrame ch payload)
  then show ?thesis using assms by (auto simp: MarshalInterleaved_def caps split: if_splits)
next
  case (UResponse r)
  then show ?thesis using assms response_start [of r w] MarshalResponse_wire(5) [of r w]
    by (auto simp: response_ok_def caps)
next
  case (URequest r)
  then show ?thesis using assms request_start [of r w] MarshalRequest_wire(6) [of r w]
    by (auto simp: request_ok_def caps)
qed

interpretation rtsp_stream: framing H unit_sent "unit_act H" for H :: "'c handlers"
proof
  fix u w m rest reads and s :: "'c reader"
  show "unit_sent u w \<Longrightarrow> w \<noteq> [] \<and> length w \<le> maxReadBuffer" by (rule unit_length)
  show "read_iter H s reads = fillMore H s reads"
    if "unit_sent u w" "\<not> closing H (client s)" "resync s = 0" "m < length w" "drop (start s) (rbuf s) = take m w"
    using that frame_part response_part request_part by (cases u) auto
  show "read_iter H s reads = Go_on (s\<lparr>start := start s + length w, client := unit_act H u (client s)\<rparr>) reads"
    if "unit_sent u w" "\<not> closing H (client s)" "resync s = 0" "drop (start s) (rbuf s) = w @ rest"
    using that frame_whole response_whole request_whole by (cases u) auto
qed

definition fresh_reader :: "'c \<Rightarrow> 'c reader" where
  "fresh_reader c = \<lparr>rbuf = [], start = 0, resync = 0, client = c\<rparr>"

text \<open>
  The reader cuts the byte stream where the sender put the units together, however the network cuts it into reads: when any
  sequence of interleaved frames, responses and requests arrives in chunks of any size, each unit is handled once, whole and in
  order, nothing else is, and the loop then waits for more with an empty buffer. This holds as long as no handler has ended the
  session.
\<close>

theorem reader_delivers:
  assumes "list_all2 unit_sent us ws" "concat chunks = concat ws"
    "\<forall>k \<le> length us. \<not> closing H (fold (unit_act H) (take k us) c)"
  shows "\<exists>s. readLoop H (fresh_reader c) (map ReadData chunks) = Blocked s
     \<and> client s = fold (unit_act H) us c \<and> ahead_bytes s [] = [] \<and> resync s = 0"
proof -
  have "ahead_bytes (fresh_reader c) (map ReadData chunks) = concat ws"
    using assms(2) by (simp add: ahead_bytes_def fresh_reader_def event_bytes_def comp_def)
  then show ?thesis
    using rtsp_stream.stream_delivered [OF assms(1), of "fresh_reader c" "map ReadData chunks" H] assms(3)
    by (auto simp: fresh_reader_def)
qed

definition log_handlers :: "nat list handlers" where
  "log_handlers = \<lparr>handleInterleaved = (\<lambda>f c. (True, c @ [Channel f])), dispatchResponse = (\<lambda>r c. c @ [nat (StatusCode r)]),
     handleServerRequest = (\<lambda>r c. c @ [1000]), bound = (\<lambda>c ch. False), closing = (\<lambda>c. False), playing = (\<lambda>c. True),
     initiateShutdown = (\<lambda>cause c. c)\<rparr>"

theorem reader_delivers_witness:
  "\<exists>w1 w2 s. MarshalInterleaved 7 [1, 2, 3] = Inr w1 \<and> MarshalResponse (Some sample_response) = Inr w2
     \<and> readLoop log_handlers (fresh_reader []) (map ReadData (map (\<lambda>b. [b]) (w1 @ w2))) = Blocked s \<and> client s = [7, 200]"
proof -
  obtain w2 where w2: "response_ok sample_response w2" using sample_response_ok by blast
  obtain w1 where w1: "MarshalInterleaved 7 [1, 2, 3] = Inr w1" by (simp add: MarshalInterleaved_def caps)
  have "concat (map (\<lambda>b. [b]) (w1 @ w2)) = concat [w1, w2]" by (simp add: concat_map_singleton)
  with w1 w2 show ?thesis
    using reader_delivers [of "[UFrame 7 [1, 2, 3], UResponse sample_response]" "[w1, w2]" "map (\<lambda>b. [b]) (w1 @ w2)" log_handlers "[]"]
    by (auto simp: response_ok_def log_handlers_def received_response_def sample_response_def)
qed

end
