(* ===== verification/G726.thy ===== *)
theory G726
  imports Bits
begin

text \<open>
  The ITU-T G.726 ADPCM decoder, \<open>src/depacket/g726/g726.go\<close>. Its arithmetic is on 32-bit signed integers: \<open>w\<close> stands for the
  wrap-around of an expression, \<open>i32\<close> in the program. Additions, subtractions and multiplications commute with wrapping, so it is
  written where the value of such an expression is stored, shifted or compared. The arrays of two elements are two fields.
\<close>

section \<open>Tables\<close>

datatype G726BitRate = G726Rate16 | G726Rate24 | G726Rate32 | G726Rate40 | UnknownRate

datatype G726Packing = G726PackingRFC3551 | G726PackingAAL2 | UnknownPacking

datatype g726_error = G726ErrShortBuffer | ErrUnknownBitRate | ErrUnknownPacking | ErrIncompletePayload

record rate_table =
  code_bits :: nat
  iquant :: "int list"
  w_table :: "int list"
  f_table :: "int list"

definition int16Min :: int where "int16Min = - 32768"

fun rateTables :: "G726BitRate \<Rightarrow> rate_table option" where
  "rateTables G726Rate16 = Some \<lparr>code_bits = 2, iquant = [116, 365, 365, 116], w_table = [- 22, 439, 439, - 22], f_table = [0, 7, 7, 0]\<rparr>"
| "rateTables G726Rate24 = Some \<lparr>code_bits = 3,
     iquant = [int16Min, 135, 273, 373, 373, 273, 135, int16Min],
     w_table = [- 4, 30, 137, 582, 582, 137, 30, - 4],
     f_table = [0, 1, 2, 7, 7, 2, 1, 0]\<rparr>"
| "rateTables G726Rate32 = Some \<lparr>code_bits = 4,
     iquant = [int16Min, 4, 135, 213, 273, 323, 373, 425, 425, 373, 323, 273, 213, 135, 4, int16Min],
     w_table = [- 12, 18, 41, 64, 112, 198, 355, 1122, 1122, 355, 198, 112, 64, 41, 18, - 12],
     f_table = [0, 0, 0, 1, 1, 1, 3, 7, 7, 3, 1, 1, 1, 0, 0, 0]\<rparr>"
| "rateTables G726Rate40 = Some \<lparr>code_bits = 5,
     iquant = [int16Min, - 66, 28, 104, 169, 224, 274, 318, 358, 395, 429, 459, 488, 514, 539, 566,
               566, 539, 514, 488, 459, 429, 395, 358, 318, 274, 224, 169, 104, 28, - 66, int16Min],
     w_table = [14, 14, 24, 39, 40, 41, 58, 100, 141, 179, 219, 280, 358, 440, 529, 696,
                696, 529, 440, 358, 280, 219, 179, 141, 100, 58, 41, 40, 39, 24, 14, 14],
     f_table = [0, 0, 0, 0, 0, 1, 1, 1, 1, 1, 2, 3, 4, 5, 6, 6, 6, 6, 5, 4, 3, 2, 1, 1, 1, 1, 1, 0, 0, 0, 0, 0]\<rparr>"
| "rateTables UnknownRate = None"

section \<open>State\<close>

record float11 =
  fsign :: int
  fexp :: int
  fmant :: int

definition float0 :: float11 where
  "float0 = \<lparr>fsign = 0, fexp = 0, fmant = 32\<rparr>"

record g726 =
  g_rt :: rate_table
  msbFirst :: bool
  g_sr0 :: float11
  g_sr1 :: float11
  g_dq :: "float11 list"
  g_a0 :: int
  g_a1 :: int
  g_b :: "int list"
  g_pk0 :: int
  g_pk1 :: int
  g_ap :: int
  g_yu :: int
  g_yl :: int
  g_dms :: int
  g_dml :: int
  g_td :: int
  g_se :: int
  g_sez :: int
  g_y :: int

definition g726_Reset :: "g726 \<Rightarrow> g726" where
  "g726_Reset d = d\<lparr>g_sr0 := float0, g_sr1 := float0, g_dq := replicate 6 float0, g_a0 := 0, g_a1 := 0,
     g_b := replicate 6 0, g_pk0 := 1, g_pk1 := 1, g_ap := 0, g_yu := 544, g_yl := 34816, g_dms := 0, g_dml := 0,
     g_td := 0, g_se := 0, g_sez := 0, g_y := 544\<rparr>"

definition g726_New :: "G726BitRate \<Rightarrow> G726Packing \<Rightarrow> g726_error + g726" where
  "g726_New br packing =
     (case rateTables br of
        None \<Rightarrow> Inl ErrUnknownBitRate
      | Some rt \<Rightarrow>
          let zero = \<lparr>g_rt = rt, msbFirst = False, g_sr0 = float0, g_sr1 = float0, g_dq = [], g_a0 = 0, g_a1 = 0, g_b = [],
                      g_pk0 = 0, g_pk1 = 0, g_ap = 0, g_yu = 0, g_yl = 0, g_dms = 0, g_dml = 0, g_td = 0, g_se = 0,
                      g_sez = 0, g_y = 0\<rparr>
          in (case packing of
                G726PackingRFC3551 \<Rightarrow> Inr (g726_Reset (zero\<lparr>msbFirst := False\<rparr>))
              | G726PackingAAL2 \<Rightarrow> Inr (g726_Reset (zero\<lparr>msbFirst := True\<rparr>))
              | UnknownPacking \<Rightarrow> Inl ErrUnknownPacking))"

section \<open>Arithmetic\<close>

definition i32 :: "int \<Rightarrow> int" where "i32 x = signed_take_bit 31 x"
definition i16 :: "int \<Rightarrow> int" where "i16 x = signed_take_bit 15 x"

definition sgn32 :: "int \<Rightarrow> int" where
  "sgn32 v = (if v < 0 then - 1 else 1)"

definition clip :: "int \<Rightarrow> int \<Rightarrow> int \<Rightarrow> int" where
  "clip v lo hi = (if v < lo then lo else if v > hi then hi else v)"

definition clipIntp2 :: "int \<Rightarrow> nat \<Rightarrow> int" where
  "clipIntp2 v p = clip v (- (2 ^ p)) (2 ^ p - 1)"

definition abs32 :: "int \<Rightarrow> int" where
  "abs32 v = (if v < 0 then - v else v)"

text \<open>\<open>bits.Len32\<close>, and \<open>log2Of\<close> from it.\<close>

fun len_bits :: "nat \<Rightarrow> nat" where
  "len_bits n = (if n = 0 then 0 else Suc (len_bits (n div 2)))"

declare len_bits.simps [simp del]

definition log2Of :: "int \<Rightarrow> int" where
  "log2Of v = int (len_bits (nat v)) - 1"

definition i2f :: "(int \<Rightarrow> int) \<Rightarrow> int \<Rightarrow> float11" where
  "i2f w i =
     (let sign = (if i < 0 then 1 else 0); i = (if i < 0 then w (- i) else i) in
      if i = 0 then \<lparr>fsign = sign, fexp = 0, fmant = 32\<rparr>
      else let exp = log2Of i + 1 in
        \<lparr>fsign = sign, fexp = exp, fmant = drop_bit (nat exp) (w (push_bit 6 i))\<rparr>)"

definition mult :: "(int \<Rightarrow> int) \<Rightarrow> float11 \<Rightarrow> float11 \<Rightarrow> int" where
  "mult w f1 f2 =
     (let exp = fexp f1 + fexp f2;
          res = drop_bit 4 (w (fmant f1 * fmant f2 + 0x30));
          res = (if exp > 19 then w (push_bit (nat (exp - 19)) res) else drop_bit (nat (19 - exp)) res);
          res = (if fsign f1 \<noteq> fsign f2 then w (- res) else res)
      in i16 res)"

definition inverseQuant :: "(int \<Rightarrow> int) \<Rightarrow> int \<Rightarrow> int \<Rightarrow> int" where
  "inverseQuant w q y =
     (let dql = w (q + drop_bit 2 y) in
      if dql < 0 then 0
      else let dex = drop_bit 7 dql mod 16; dqt = 128 + dql mod 128 in drop_bit 7 (w (push_bit (nat dex) dqt)))"

section \<open>One sample\<close>

text \<open>The transition detector.\<close>

definition transition :: "(int \<Rightarrow> int) \<Rightarrow> g726 \<Rightarrow> int \<Rightarrow> bool" where
  "transition w d dq =
     (let ylint = drop_bit 15 (g_yl d);
          ylfrac = drop_bit 10 (g_yl d) mod 32;
          thr2 = (if ylint > 9 then 31 * 1024 else w (push_bit (nat ylint) (32 + ylfrac)))
      in g_td d = 1 \<and> dq > drop_bit 2 (w (3 * thr2)))"

text \<open>The predictor coefficients.\<close>

definition adapt_predictor :: "(int \<Rightarrow> int) \<Rightarrow> g726 \<Rightarrow> bool \<Rightarrow> int \<Rightarrow> int \<Rightarrow> g726" where
  "adapt_predictor w d tr pk0 dq0 =
     (if tr then d\<lparr>g_a0 := 0, g_a1 := 0, g_b := replicate 6 0\<rparr>
      else
        let fa1 = clipIntp2 (drop_bit 5 (w (- g_a0 d * g_pk0 d * pk0))) 8;
            a1 = clip (w (g_a1 d + (128 * pk0 * g_pk1 d + fa1 - drop_bit 7 (g_a1 d)))) (- 12288) 12288;
            lim = w (15360 - a1);
            a0 = clip (w (g_a0 d + (64 * 3 * pk0 * g_pk0 d - drop_bit 8 (g_a0 d)))) (- lim) lim;
            b = map2 (\<lambda>bi h. w (bi + (128 * dq0 * sgn32 (- fsign h) - drop_bit 8 bi))) (g_b d) (g_dq d)
        in d\<lparr>g_a0 := a0, g_a1 := a1, g_b := b\<rparr>)"

text \<open>The signal history and the tone detector.\<close>

definition shift_history :: "(int \<Rightarrow> int) \<Rightarrow> g726 \<Rightarrow> int \<Rightarrow> int \<Rightarrow> int \<Rightarrow> int \<Rightarrow> g726" where
  "shift_history w d pk0 reSignal dq sign =
     d\<lparr>g_pk1 := g_pk0 d, g_pk0 := (if pk0 \<noteq> 0 then pk0 else 1),
       g_sr1 := g_sr0 d, g_sr0 := i2f w reSignal,
       g_dq := (i2f w dq)\<lparr>fsign := sign\<rparr> # butlast (g_dq d),
       g_td := (if g_a1 d < - 11776 then 1 else 0)\<rparr>"

text \<open>Speed control and the quantizer scale factors.\<close>

definition speed_control :: "(int \<Rightarrow> int) \<Rightarrow> g726 \<Rightarrow> bool \<Rightarrow> int \<Rightarrow> g726" where
  "speed_control w d tr f =
     (let dms = w (g_dms d + (16 * f + drop_bit 5 (- g_dms d)));
          dml = w (g_dml d + (16 * f + drop_bit 7 (- g_dml d)));
          ap1 = w (g_ap d + drop_bit 4 (- g_ap d));
          ap = (if tr then 256
                else if g_y d \<le> 1535 \<or> g_td d \<noteq> 0 \<or> abs32 (w (push_bit 2 dms - dml)) \<ge> drop_bit 3 dml then w (ap1 + 0x20)
                else ap1)
      in d\<lparr>g_dms := dms, g_dml := dml, g_ap := ap\<rparr>)"

definition scale_factors :: "(int \<Rightarrow> int) \<Rightarrow> g726 \<Rightarrow> int \<Rightarrow> g726" where
  "scale_factors w d wv =
     (let yu = clip (w (g_y d + wv + drop_bit 5 (- g_y d))) 544 5120;
          yl = w (g_yl d + (yu + drop_bit 6 (- g_yl d)));
          al = (if g_ap d \<ge> 256 then 64 else drop_bit 2 (g_ap d))
      in d\<lparr>g_yu := yu, g_yl := yl, g_y := drop_bit 6 (w (yl + (yu - drop_bit 6 yl) * al))\<rparr>)"

text \<open>The estimate for the next sample.\<close>

definition estimate :: "(int \<Rightarrow> int) \<Rightarrow> g726 \<Rightarrow> g726" where
  "estimate w d =
     (let z = w (sum_list (map2 (\<lambda>bi h. mult w (i2f w (drop_bit 2 bi)) h) (g_b d) (g_dq d)));
          p = w (z + mult w (i2f w (drop_bit 2 (g_a0 d))) (g_sr0 d) + mult w (i2f w (drop_bit 2 (g_a1 d))) (g_sr1 d))
      in d\<lparr>g_sez := drop_bit 1 z, g_se := drop_bit 1 p\<rparr>)"

definition decodeSample :: "(int \<Rightarrow> int) \<Rightarrow> g726 \<Rightarrow> nat \<Rightarrow> (int \<times> g726) option" where
  "decodeSample w d code = do {
     q \<leftarrow> idx (iquant (g_rt d)) code;
     let sign = int (drop_bit (code_bits (g_rt d) - 1) code);
         mag = inverseQuant w q (g_y d);
         tr = transition w d mag;
         dq = (if sign \<noteq> 0 then w (- mag) else mag);
         reSignal = i16 (w (g_se d + dq));
         pk0 = (if w (g_sez d + dq) \<noteq> 0 then sgn32 (w (g_sez d + dq)) else 0);
         dq0 = (if dq \<noteq> 0 then sgn32 dq else 0);
         d = adapt_predictor w d tr pk0 dq0;
         d = shift_history w d pk0 reSignal dq sign
     in do {
       f \<leftarrow> idx (f_table (g_rt d)) code;
       wv \<leftarrow> idx (w_table (g_rt d)) code;
       let d = estimate w (scale_factors w (speed_control w d tr f) wv) in
       Some (i16 (clip (w (reSignal * 4)) (- 0xFFFF) 0xFFFF), d) } }"

section \<open>Payloads\<close>

fun lsb_loop :: "bytes \<Rightarrow> nat \<Rightarrow> nat \<Rightarrow> nat \<Rightarrow> nat \<Rightarrow> nat option" where
  "lsb_loop payload pos 0 i v = Some v"
| "lsb_loop payload pos (Suc n) i v = do {
     b \<leftarrow> idx payload ((pos + i) div 8);
     lsb_loop payload pos n (i + 1) (v OR push_bit i (of_bool (bit b ((pos + i) mod 8)))) }"

definition readCodewordLSB :: "bytes \<Rightarrow> nat \<Rightarrow> nat \<Rightarrow> nat option" where
  "readCodewordLSB payload pos width = lsb_loop payload pos width 0 0"

fun msb_loop :: "bytes \<Rightarrow> nat \<Rightarrow> nat \<Rightarrow> nat \<Rightarrow> nat \<Rightarrow> nat option" where
  "msb_loop payload pos 0 i v = Some v"
| "msb_loop payload pos (Suc n) i v = do {
     b \<leftarrow> idx payload ((pos + i) div 8);
     msb_loop payload pos n (i + 1) (push_bit 1 v OR of_bool (bit b (7 - (pos + i) mod 8))) }"

definition readCodewordMSB :: "bytes \<Rightarrow> nat \<Rightarrow> nat \<Rightarrow> nat option" where
  "readCodewordMSB payload pos width = msb_loop payload pos width 0 0"

definition wholeCodewords :: "g726 \<Rightarrow> bytes \<Rightarrow> bool" where
  "wholeCodewords d payload \<longleftrightarrow> (length payload * 8) mod code_bits (g_rt d) = 0"

definition OutputLen :: "g726 \<Rightarrow> bytes \<Rightarrow> nat" where
  "OutputLen d payload = 2 * (length payload * 8 div code_bits (g_rt d))"

text \<open>The loop over the codewords, with \<open>n\<close> to go; the output is what is written to \<open>dst\<close>.\<close>

fun decode_loop :: "(int \<Rightarrow> int) \<Rightarrow> g726 \<Rightarrow> bytes \<Rightarrow> nat \<Rightarrow> nat \<Rightarrow> (bytes \<times> g726) option" where
  "decode_loop w d payload 0 pos = Some ([], d)"
| "decode_loop w d payload (Suc n) pos = do {
     code \<leftarrow> (if msbFirst d then readCodewordMSB else readCodewordLSB) payload pos (code_bits (g_rt d));
     (sample, d') \<leftarrow> decodeSample w d code;
     (out, d'') \<leftarrow> decode_loop w d' payload n (pos + code_bits (g_rt d));
     Some (rev (put16 (word_of_int sample)) @ out, d'') }"

definition g726_Decode :: "(int \<Rightarrow> int) \<Rightarrow> g726 \<Rightarrow> nat \<Rightarrow> bytes \<Rightarrow> (g726_error, bytes) go \<times> g726" where
  "g726_Decode w d dstLen payload =
     (if length payload = 0 then (ok [], d)
      else if \<not> wholeCodewords d payload then (err ErrIncompletePayload, d)
      else let nsamp = length payload * 8 div code_bits (g_rt d); need = 2 * nsamp in
        if dstLen < need then (err G726ErrShortBuffer, d)
        else case decode_loop w d payload nsamp 0 of
            None \<Rightarrow> (panic, d)
          | Some (out, d') \<Rightarrow> (ok out, d'))"

definition g726_DecodeAlloc :: "(int \<Rightarrow> int) \<Rightarrow> g726 \<Rightarrow> bytes \<Rightarrow> (g726_error, bytes) go \<times> g726" where
  "g726_DecodeAlloc w d payload =
     (if \<not> wholeCodewords d payload then (err ErrIncompletePayload, d)
      else g726_Decode w d (OutputLen d payload) payload)"

section \<open>Ranges\<close>

text \<open>The program's arithmetic is the integers' as long as nothing leaves 32 bits.\<close>

lemma i32_id: "- (2 ^ 31) \<le> x \<Longrightarrow> x < 2 ^ 31 \<Longrightarrow> i32 x = x"
  by (simp add: i32_def signed_take_bit_int_eq_self)

lemma i32_small: "\<bar>x\<bar> \<le> 1000000000 \<Longrightarrow> i32 x = x"
  by (rule i32_id) auto

lemma i16_range: "- 32768 \<le> i16 x \<and> i16 x \<le> 32767"
  using signed_take_bit_int_greater_eq_minus_exp [of 15 x] signed_take_bit_int_less_exp [of 15 x] by (simp add: i16_def)

lemma shift_simps: "drop_bit n (x :: int) = x div 2 ^ n" "push_bit n (x :: int) = x * 2 ^ n"
  by (simp_all add: drop_bit_eq_div push_bit_eq_mult)

definition float_ok :: "float11 \<Rightarrow> bool" where
  "float_ok f \<longleftrightarrow> fsign f \<in> {0, 1} \<and> 0 \<le> fexp f \<and> fexp f \<le> 16 \<and> 32 \<le> fmant f \<and> fmant f \<le> 63"

lemma len_bits_bounds: "0 < n \<Longrightarrow> 0 < len_bits n \<and> 2 ^ (len_bits n - 1) \<le> n \<and> n < 2 ^ len_bits n"
proof (induction n rule: len_bits.induct)
  case (1 n)
  show ?case
  proof (cases "n = 1")
    case True
    then show ?thesis by (simp add: len_bits.simps)
  next
    case False
    then have "0 < n div 2" "n \<noteq> 0" using 1(2) by auto
    then have IH: "0 < len_bits (n div 2)" "2 ^ (len_bits (n div 2) - 1) \<le> n div 2" "n div 2 < 2 ^ len_bits (n div 2)" using 1 by auto
    have len: "len_bits n = Suc (len_bits (n div 2))" using \<open>n \<noteq> 0\<close> by (subst len_bits.simps) simp
    have "2 * 2 ^ (len_bits (n div 2) - 1) = (2 :: nat) ^ len_bits (n div 2)"
      using IH(1) by (simp flip: power_Suc)
    moreover have "n = 2 * (n div 2) + n mod 2" "n mod 2 < 2" by simp_all
    ultimately have "2 ^ len_bits (n div 2) \<le> n" "n < 2 * 2 ^ len_bits (n div 2)" using IH by linarith+
    then show ?thesis using len by simp
  qed
qed

lemma len_bits_le: "n < 2 ^ k \<Longrightarrow> len_bits n \<le> k"
proof (cases "n = 0")
  case False
  assume "n < 2 ^ k"
  have "2 ^ (len_bits n - 1) \<le> n" using len_bits_bounds [of n] False by simp
  then have "(2 :: nat) ^ (len_bits n - 1) < 2 ^ k" using \<open>n < 2 ^ k\<close> by (rule le_less_trans)
  then show ?thesis using len_bits_bounds [of n] False by simp
qed (simp add: len_bits.simps)

lemma i2f_ok:
  assumes "\<bar>i\<bar> \<le> 2 ^ k" "k < 16"
  shows "i2f i32 i = i2f id i \<and> float_ok (i2f id i) \<and> fexp (i2f id i) \<le> int k + 1"
proof -
  have "(2 :: int) ^ k \<le> 2 ^ 15" using assms(2) by (intro power_increasing) auto
  then have small: "\<bar>i\<bar> \<le> 32768" using assms(1) by simp
  define n where "n = nat \<bar>i\<bar>"
  define e where "e = len_bits n"
  have i: "\<bar>i\<bar> = int n" by (simp add: n_def)
  show ?thesis
  proof (cases "n = 0")
    case True
    then show ?thesis using i by (simp add: i2f_def float_ok_def)
  next
    case False
    have b: "2 ^ (e - 1) \<le> n" "n < 2 ^ e" "0 < e" using len_bits_bounds [of n] False by (simp_all add: e_def)
    have "int n \<le> int (2 ^ k)" using assms(1) i by simp
    then have "n \<le> 2 ^ k" by (simp only: of_nat_le_iff)
    moreover have "(2 :: nat) ^ k < 2 ^ Suc k" by simp
    ultimately have "n < 2 ^ Suc k" by (rule le_less_trans)
    then have e: "e \<le> k + 1" using len_bits_le by (simp add: e_def)
    define m where "m = int n * 64 div 2 ^ e"
    have two: "(2 :: int) ^ e = 2 * 2 ^ (e - 1)" using b(3) by (simp flip: power_Suc)
    have "int n < int (2 ^ e)" "int (2 ^ (e - 1)) \<le> int n" using b by (simp_all only: of_nat_less_iff of_nat_le_iff)
    then have "int n < 2 ^ e" "2 ^ (e - 1) \<le> int n" by simp_all
    then have "int n * 64 < 64 * 2 ^ e" "32 * 2 ^ e \<le> int n * 64" using two by simp_all
    moreover from this have "32 * 2 ^ e div 2 ^ e \<le> m" unfolding m_def by (intro zdiv_mono1) simp_all
    moreover have "m * 2 ^ e \<le> int n * 64" 
    proof -
      have "0 \<le> int n * 64 mod 2 ^ e" by (rule pos_mod_sign) simp
      then show ?thesis using div_mult_mod_eq [of "int n * 64" "2 ^ e"] unfolding m_def by linarith
    qed
    ultimately have "m * 2 ^ e < 64 * 2 ^ e" "32 \<le> m" by (linarith, simp)
    then have "m < 64" "32 \<le> m" by (simp_all only: mult_less_cancel_right_pos zero_less_power zero_less_numeral)
    moreover have "i2f w i = \<lparr>fsign = (if i < 0 then 1 else 0), fexp = int e, fmant = m\<rparr>"
      if "w (\<bar>i\<bar> * 64) = \<bar>i\<bar> * 64" "w \<bar>i\<bar> = \<bar>i\<bar>" for w
    proof (cases "i < 0")
      case True
      then have "- i = int n" using i by simp
      then show ?thesis using that True False by (simp add: i2f_def log2Of_def shift_simps m_def e_def)
    next
      case False
      then have "i = int n" using i by simp
      then show ?thesis using that \<open>n \<noteq> 0\<close> by (simp add: i2f_def log2Of_def shift_simps m_def e_def)
    qed
    moreover have "i32 (\<bar>i\<bar> * 64) = \<bar>i\<bar> * 64" "i32 \<bar>i\<bar> = \<bar>i\<bar>" using small by (auto intro!: i32_small)
    ultimately show ?thesis using e assms(2) by (simp add: float_ok_def)
  qed
qed

lemma mult_ok:
  assumes "float_ok f1" "float_ok f2"
  shows "mult i32 f1 f2 = mult id f1 f2"
proof -
  define e where "e = fexp f1 + fexp f2"
  define p where "p = fmant f1 * fmant f2"
  have "0 \<le> e" "e \<le> 32" using assms by (auto simp: e_def float_ok_def)
  have "0 \<le> p" "p \<le> 63 * 63" using assms unfolding p_def float_ok_def by (simp, intro mult_mono) auto
  define r where "r = (p + 48) div 16"
  have r: "0 \<le> r" "r \<le> 251" using \<open>0 \<le> p\<close> \<open>p \<le> 63 * 63\<close> unfolding r_def by auto
  have "(2 :: int) ^ nat (e - 19) \<le> 2 ^ 13" using \<open>e \<le> 32\<close> by (intro power_increasing) auto
  then have "r * 2 ^ nat (e - 19) \<le> 251 * 2 ^ 13" using r by (intro mult_mono) auto
  moreover have "r div 2 ^ nat (19 - e) \<le> r" "0 \<le> r div 2 ^ nat (19 - e)"
    using r zdiv_mono2 [of r 1 "2 ^ nat (19 - e)"] by (simp_all add: pos_imp_zdiv_nonneg_iff)
  moreover have "i32 (p + 48) = p + 48" using \<open>0 \<le> p\<close> \<open>p \<le> 63 * 63\<close> by (intro i32_small) auto
  ultimately show ?thesis using r
    by (simp add: mult_def Let_def shift_simps e_def [symmetric] p_def [symmetric] r_def [symmetric] i32_small)
qed

lemma inverseQuant_ok:
  assumes "- 32768 \<le> q" "q \<le> 566" "544 \<le> y" "y \<le> 5120"
  shows "inverseQuant i32 q y = inverseQuant id q y \<and> 0 \<le> inverseQuant id q y \<and> inverseQuant id q y \<le> 32767"
proof -
  define dql where "dql = q + y div 4"
  have dql: "- 32768 \<le> dql" "dql \<le> 1846" using assms by (auto simp: dql_def)
  define dex where "dex = dql div 128 mod 16"
  define p where "p = (128 + dql mod 128) * 2 ^ nat dex"
  have "i32 dql = dql" using dql by (intro i32_small) auto
  show ?thesis
  proof (cases "dql < 0")
    case True
    then show ?thesis using \<open>i32 dql = dql\<close> by (simp add: inverseQuant_def shift_simps dql_def)
  next
    case False
    have "0 \<le> dql div 128" "dql div 128 \<le> 14" using dql False by auto
    then have "dex \<le> 14" "0 \<le> dex" by (auto simp: dex_def)
    then have "(2 :: int) ^ nat dex \<le> 2 ^ 14" by (intro power_increasing) auto
    moreover have "0 \<le> 128 + dql mod 128" "128 + dql mod 128 \<le> 255" by auto
    ultimately have "0 \<le> p" "p \<le> 255 * 2 ^ 14" unfolding p_def by (simp, intro mult_mono) auto
    moreover from this have "i32 p = p" "0 \<le> p div 128" "p div 128 \<le> 32767" by (auto intro!: i32_small)
    ultimately show ?thesis using False \<open>i32 dql = dql\<close>
      by (simp add: inverseQuant_def shift_simps dql_def [symmetric] dex_def [symmetric] p_def [symmetric])
  qed
qed

text \<open>The ranges of the decoder's variables.\<close>

definition rate_ok :: "rate_table \<Rightarrow> bool" where
  "rate_ok rt \<longleftrightarrow> 1 \<le> code_bits rt \<and> code_bits rt \<le> 5 \<and> length (iquant rt) = 2 ^ code_bits rt
     \<and> length (w_table rt) = 2 ^ code_bits rt \<and> length (f_table rt) = 2 ^ code_bits rt
     \<and> list_all (\<lambda>q. - 32768 \<le> q \<and> q \<le> 566) (iquant rt) \<and> list_all (\<lambda>v. - 22 \<le> v \<and> v \<le> 1122) (w_table rt)
     \<and> list_all (\<lambda>f. 0 \<le> f \<and> f \<le> 7) (f_table rt)"

lemma rateTables_ok: "rateTables br = Some rt \<Longrightarrow> rate_ok rt"
  by (cases br) (auto simp: rate_ok_def int16Min_def)

definition g726_ok :: "g726 \<Rightarrow> bool" where
  "g726_ok d \<longleftrightarrow> rate_ok (g_rt d)
     \<and> float_ok (g_sr0 d) \<and> float_ok (g_sr1 d) \<and> length (g_dq d) = 6 \<and> list_all float_ok (g_dq d)
     \<and> \<bar>g_a1 d\<bar> \<le> 12288 \<and> \<bar>g_a0 d\<bar> \<le> 27648
     \<and> length (g_b d) = 6 \<and> list_all (\<lambda>b. \<bar>b\<bar> \<le> 32768) (g_b d)
     \<and> g_pk0 d \<in> {- 1, 1} \<and> g_pk1 d \<in> {- 1, 1}
     \<and> 0 \<le> g_ap d \<and> g_ap d \<le> 512
     \<and> 34816 \<le> g_yl d \<and> g_yl d \<le> 327680 \<and> 544 \<le> g_y d \<and> g_y d \<le> 5120
     \<and> 0 \<le> g_dms d \<and> g_dms d \<le> 3584 \<and> 0 \<le> g_dml d \<and> g_dml d \<le> 14336
     \<and> \<bar>g_se d\<bar> \<le> 131072 \<and> \<bar>g_sez d\<bar> \<le> 98304"

lemma list_all_replicate: "P x \<Longrightarrow> list_all P (replicate n x)"
  by (simp add: list_all_iff)

lemma g726_Reset_ok: "rate_ok (g_rt d) \<Longrightarrow> g726_ok (g726_Reset d)"
  by (simp add: g726_ok_def g726_Reset_def float_ok_def float0_def list_all_replicate)

lemma transition_ok:
  assumes "g726_ok d"
  shows "transition i32 d dq = transition id d dq"
proof -
  define ylint where "ylint = g_yl d div 2 ^ 15"
  define f where "f = 32 + g_yl d div 2 ^ 10 mod 32"
  have "0 \<le> f" "f \<le> 63" by (auto simp: f_def)
  have "i32 (f * 2 ^ nat ylint) = f * 2 ^ nat ylint \<and> i32 (3 * (f * 2 ^ nat ylint)) = 3 * (f * 2 ^ nat ylint)" if "\<not> 9 < ylint"
  proof -
    have "(2 :: int) ^ nat ylint \<le> 2 ^ 9" using that by (intro power_increasing) auto
    then have "f * 2 ^ nat ylint \<le> 63 * 2 ^ 9" "0 \<le> f * 2 ^ nat ylint"
      using \<open>0 \<le> f\<close> \<open>f \<le> 63\<close> by (intro mult_mono; simp) (simp add: \<open>0 \<le> f\<close>)
    then show ?thesis by (auto intro!: i32_small)
  qed
  moreover have "i32 (3 * (31 * 1024)) = 3 * (31 * 1024)" by (rule i32_small) simp
  ultimately show ?thesis
    unfolding transition_def Let_def shift_simps ylint_def [symmetric] f_def [symmetric] by simp
qed

lemma clip_range: "lo \<le> hi \<Longrightarrow> lo \<le> clip v lo hi \<and> clip v lo hi \<le> hi"
  by (simp add: clip_def)

lemma sgn32_range: "sgn32 v \<in> {- 1, 1}"
  by (simp add: sgn32_def)

text \<open>A zero coefficient leaks a 256th of itself and moves by at most 128.\<close>

lemma zero_coefficient:
  assumes "\<bar>b\<bar> \<le> 32768" "\<bar>t\<bar> \<le> 128"
  shows "\<bar>b + (t - b div 256)\<bar> \<le> (32768 :: int)"
proof -
  define q where "q = b div 256"
  have q: "256 * q \<le> b" "b \<le> 256 * q + 255" by (simp_all add: q_def)
  show ?thesis unfolding q_def [symmetric] using assms q by (cases "q \<le> 127") (auto simp: abs_le_iff)
qed

lemma adapt_predictor_ok:
  assumes "g726_ok d" "pk0 \<in> {- 1, 0, 1}" "dq0 \<in> {- 1, 0, 1}"
  shows "adapt_predictor i32 d tr pk0 dq0 = adapt_predictor id d tr pk0 dq0 \<and> g726_ok (adapt_predictor id d tr pk0 dq0)"
proof (cases tr)
  case True
  then show ?thesis using assms by (simp add: adapt_predictor_def g726_ok_def list_all_replicate)
next
  case False
  have a: "\<bar>g_a1 d\<bar> \<le> 12288" "\<bar>g_a0 d\<bar> \<le> 27648" "g_pk0 d \<in> {- 1, 1}" "g_pk1 d \<in> {- 1, 1}" using assms(1) by (simp_all add: g726_ok_def)
  define x where "x = - g_a0 d * g_pk0 d * pk0"
  have x: "\<bar>x\<bar> \<le> 27648" using a assms(2) by (auto simp: x_def)
  define fa1 where "fa1 = clipIntp2 (x div 2 ^ 5) 8"
  have fa1: "\<bar>fa1\<bar> \<le> 256" using clip_range [of "- 256" 255 "x div 32"] by (auto simp: fa1_def clipIntp2_def)
  define u1 where "u1 = g_a1 d + (128 * pk0 * g_pk1 d + fa1 - g_a1 d div 2 ^ 7)"
  have "\<bar>g_a1 d div 128\<bar> \<le> 96" using a(1) by auto
  then have u1: "\<bar>u1\<bar> \<le> 100000" using a assms(2) fa1 by (auto simp: u1_def)
  define a1 where "a1 = clip u1 (- 12288) 12288"
  have a1: "\<bar>a1\<bar> \<le> 12288" using clip_range [of "- 12288" 12288 u1] by (auto simp: a1_def)
  define u0 where "u0 = g_a0 d + (64 * 3 * pk0 * g_pk0 d - g_a0 d div 2 ^ 8)"
  have "\<bar>g_a0 d div 256\<bar> \<le> 108" using a(2) by auto
  then have u0: "\<bar>u0\<bar> \<le> 100000" using a assms(2) by (auto simp: u0_def)
  define a0 where "a0 = clip u0 (- (15360 - a1)) (15360 - a1)"
  have "- (15360 - a1) \<le> a0 \<and> a0 \<le> 15360 - a1" unfolding a0_def using a1 by (intro clip_range) linarith
  then have a0: "\<bar>a0\<bar> \<le> 27648" using a1 by linarith
  have wrap: "i32 x = x" "i32 u1 = u1" "i32 u0 = u0" "i32 (15360 - a1) = 15360 - a1" using x u1 u0 a1 by (auto intro!: i32_small)
  define nb where "nb = (\<lambda>(w :: int \<Rightarrow> int) bi (h :: float11). w (bi + (128 * dq0 * sgn32 (- fsign h) - bi div 2 ^ 8)))"
  have "nb i32 bi h = nb id bi h \<and> \<bar>nb id bi h\<bar> \<le> 32768" if "\<bar>bi\<bar> \<le> 32768" for bi h
  proof -
    have "\<bar>128 * dq0 * sgn32 (- fsign h)\<bar> \<le> 128" using assms(3) sgn32_range [of "- fsign h"] by auto
    from zero_coefficient [OF that this] show ?thesis by (auto simp: nb_def intro!: i32_small)
  qed
  then have "map2 (nb i32) bs hs = map2 (nb id) bs hs \<and> list_all (\<lambda>b. \<bar>b\<bar> \<le> 32768) (map2 (nb id) bs hs)"
    if "list_all (\<lambda>b. \<bar>b\<bar> \<le> 32768) bs" for bs hs
    using that by (induction bs hs rule: list_induct2') auto
  then have b: "map2 (nb i32) (g_b d) (g_dq d) = map2 (nb id) (g_b d) (g_dq d)" "list_all (\<lambda>b. \<bar>b\<bar> \<le> 32768) (map2 (nb id) (g_b d) (g_dq d))"
    using assms(1) unfolding g726_ok_def by blast+
  have "adapt_predictor w d tr pk0 dq0 = d\<lparr>g_a0 := a0, g_a1 := a1, g_b := map2 (nb w) (g_b d) (g_dq d)\<rparr>"
    if "w x = x" "w u1 = u1" "w u0 = u0" "w (15360 - a1) = 15360 - a1" for w
    using False unfolding adapt_predictor_def Let_def shift_simps x_def [symmetric] that(1) fa1_def [symmetric] u1_def [symmetric]
      that(2) a1_def [symmetric] u0_def [symmetric] that(3,4) a0_def [symmetric] nb_def by simp
  from this [OF wrap] this [of id] show ?thesis using b a0 a1 assms(1) by (simp add: g726_ok_def)
qed

lemma shift_history_ok:
  assumes "g726_ok d" "pk0 \<in> {- 1, 0, 1}" "\<bar>reSignal\<bar> \<le> 32768" "\<bar>dq\<bar> \<le> 32768" "sign \<in> {0, 1}"
  shows "shift_history i32 d pk0 reSignal dq sign = shift_history id d pk0 reSignal dq sign
    \<and> g726_ok (shift_history id d pk0 reSignal dq sign)"
proof -
  have "list_all float_ok (butlast (g_dq d))" using assms(1) by (auto simp: g726_ok_def list_all_iff dest: in_set_butlastD)
  moreover have "float_ok ((i2f id dq)\<lparr>fsign := sign\<rparr>)" using i2f_ok [of dq 15] assms(4,5) by (auto simp: float_ok_def)
  ultimately show ?thesis using i2f_ok [of dq 15] i2f_ok [of reSignal 15] assms by (auto simp: shift_history_def g726_ok_def)
qed

text \<open>A leaking integrator stays between zero and its fixed point.\<close>

lemma leak_nonneg: "0 \<le> x \<Longrightarrow> 0 < k \<Longrightarrow> 0 \<le> x + (- x) div (k :: int)"
proof (cases "x = 0")
  case False
  assume "0 \<le> x" "0 < k"
  then have "(- x) div 1 \<le> (- x) div k" using False by (intro zdiv_mono2_neg) auto
  then show ?thesis by simp
qed simp

lemma leak_down:
  assumes "0 \<le> x" "x \<le> k * m" "0 \<le> t" "t \<le> m" "0 < k"
  shows "0 \<le> x + (t + (- x) div k) \<and> x + (t + (- x) div k) \<le> k * (m :: int)"
proof -
  define c where "c = k * m - x"
  have "0 \<le> c" using assms by (simp add: c_def)
  have "(- x) div k = (c + k * (- m)) div k" by (simp add: c_def)
  also have "\<dots> = - m + c div k" using assms(5) by (subst div_mult_self2) simp_all
  finally have "(- x) div k = c div k - m" by simp
  moreover have "c div k \<le> c" using \<open>0 \<le> c\<close> assms(5) zdiv_mono2 [of c 1 k] by simp
  ultimately show ?thesis using leak_nonneg [OF assms(1,5)] assms(3,4) by (simp add: c_def)
qed

lemma speed_control_ok:
  assumes "g726_ok d" "0 \<le> f" "f \<le> 7"
  shows "speed_control i32 d tr f = speed_control id d tr f \<and> g726_ok (speed_control id d tr f)"
proof -
  have r: "0 \<le> g_dms d" "g_dms d \<le> 32 * 112" "0 \<le> g_dml d" "g_dml d \<le> 128 * 112" "0 \<le> g_ap d" "g_ap d \<le> 16 * 32"
    using assms(1) by (simp_all add: g726_ok_def)
  define dms where "dms = g_dms d + (16 * f + (- g_dms d) div 2 ^ 5)"
  define dml where "dml = g_dml d + (16 * f + (- g_dml d) div 2 ^ 7)"
  define ap1 where "ap1 = g_ap d + (- g_ap d) div 2 ^ 4"
  have dms: "0 \<le> dms \<and> dms \<le> 3584" using leak_down [OF r(1,2), of "16 * f"] assms(2,3) by (simp add: dms_def)
  have dml: "0 \<le> dml \<and> dml \<le> 14336" using leak_down [OF r(3,4), of "16 * f"] assms(2,3) by (simp add: dml_def)
  have ap1: "0 \<le> ap1" "ap1 + 32 \<le> 512" using leak_down [OF r(5,6), of 0] leak_down [OF r(5,6), of 32] by (simp_all add: ap1_def)
  have wrap: "i32 dms = dms" "i32 dml = dml" "i32 ap1 = ap1" "i32 (ap1 + 32) = ap1 + 32" "i32 (dms * 2 ^ 2 - dml) = dms * 2 ^ 2 - dml"
    using dms dml ap1 by (auto intro!: i32_small)
  have "speed_control w d tr f = d\<lparr>g_dms := dms, g_dml := dml, g_ap := (if tr then 256
      else if g_y d \<le> 1535 \<or> g_td d \<noteq> 0 \<or> abs32 (dms * 2 ^ 2 - dml) \<ge> dml div 2 ^ 3 then ap1 + 32 else ap1)\<rparr>"
    if "w dms = dms" "w dml = dml" "w ap1 = ap1" "w (ap1 + 32) = ap1 + 32" "w (dms * 2 ^ 2 - dml) = dms * 2 ^ 2 - dml" for w
    using that unfolding speed_control_def Let_def shift_simps dms_def [symmetric] dml_def [symmetric] ap1_def [symmetric] by simp
  from this [OF wrap] this [of id] show ?thesis using dms dml ap1 assms(1) by (simp add: g726_ok_def)
qed

lemma scale_factors_ok:
  assumes "g726_ok d" "- 22 \<le> v" "v \<le> 1122"
  shows "scale_factors i32 d v = scale_factors id d v \<and> g726_ok (scale_factors id d v)"
proof -
  have r: "34816 \<le> g_yl d" "g_yl d \<le> 64 * 5120" "544 \<le> g_y d" "g_y d \<le> 5120" "0 \<le> g_ap d"
    using assms(1) by (simp_all add: g726_ok_def)
  define u where "u = g_y d + v + (- g_y d) div 2 ^ 5"
  have u: "\<bar>u\<bar> \<le> 100000" using r assms(2,3) by (auto simp: u_def)
  define yu where "yu = clip u 544 5120"
  have yu: "544 \<le> yu" "yu \<le> 5120" using clip_range [of 544 5120 u] by (simp_all add: yu_def)
  define yl where "yl = g_yl d + (yu + (- g_yl d) div 2 ^ 6)"
  have "(- g_yl d) div 64 = (- (g_yl d - 34816) + 64 * (- 544)) div 64" by simp
  also have "\<dots> = - 544 + (- (g_yl d - 34816)) div 64" by (subst div_mult_self2) simp_all
  finally have "34816 \<le> yl" using leak_nonneg [of "g_yl d - 34816" 64] r(1) yu(1) by (simp add: yl_def)
  moreover have "yl \<le> 327680" using leak_down [of "g_yl d" 64 5120 yu] r yu by (simp add: yl_def)
  ultimately have yl: "34816 \<le> yl" "yl \<le> 327680" by simp_all
  define al where "al = (if g_ap d \<ge> 256 then 64 else g_ap d div 2 ^ 2)"
  have al: "0 \<le> al" "al \<le> 64" using r(5) by (auto simp: al_def)
  define m where "m = yl + (yu - yl div 2 ^ 6) * al"
  have m: "34816 \<le> m \<and> m < 64 * 5120 + 64"
  proof -
    define q where "q = yl div 64"
    have q: "64 * q \<le> yl" "yl < 64 * q + 64" by (simp_all add: q_def)
    then have "544 \<le> q" "q \<le> 5120" using yl by linarith+
    have "(yu - q) * al \<le> (if yu \<ge> q then (yu - q) * 64 else 0)" "(yu - q) * al \<ge> (if yu \<ge> q then 0 else (yu - q) * 64)"
      using al mult_left_mono [of al 64 "yu - q"] mult_left_mono_neg [of al 64 "yu - q"]
      by (auto simp: mult_nonpos_nonneg simp del: left_diff_distrib_numeral)
    then show ?thesis using q yl yu \<open>q \<le> 5120\<close> \<open>544 \<le> q\<close> unfolding m_def by (auto simp: q_def [symmetric] algebra_simps split: if_splits)
  qed
  have wrap: "i32 u = u" "i32 yl = yl" "i32 m = m" using u yl m by (auto intro!: i32_small)
  have "scale_factors w d v = d\<lparr>g_yu := yu, g_yl := yl, g_y := m div 2 ^ 6\<rparr>" if "w u = u" "w yl = yl" "w m = m" for w
    unfolding scale_factors_def Let_def shift_simps u_def [symmetric] that(1) yu_def [symmetric] yl_def [symmetric] that(2)
      al_def [symmetric] m_def [symmetric] that(3) ..
  from this [OF wrap] this [of id] show ?thesis using yl m assms(1) by (auto simp: g726_ok_def)
qed

lemma estimate_ok:
  assumes "g726_ok d"
  shows "estimate i32 d = estimate id d \<and> g726_ok (estimate id d)"
proof -
  define t where "t = (\<lambda>w bi h. mult w (i2f w (drop_bit 2 bi)) h)"
  have t: "t i32 bi h = t id bi h \<and> \<bar>t id bi h\<bar> \<le> 32768" if "\<bar>bi\<bar> \<le> 32768" "float_ok h" for bi h
  proof -
    have "\<bar>drop_bit 2 bi\<bar> \<le> 2 ^ 14" using that(1) by (auto simp: shift_simps)
    then have i: "i2f i32 (drop_bit 2 bi) = i2f id (drop_bit 2 bi)" "float_ok (i2f id (drop_bit 2 bi))" using i2f_ok [of _ 14] by auto
    have "\<bar>i16 x\<bar> \<le> 32768" for x using i16_range [of x] by linarith
    then show ?thesis using i mult_ok [OF i(2) that(2)] by (simp add: t_def mult_def [of id] Let_def)
  qed
  have sums: "map2 (t i32) bs hs = map2 (t id) bs hs \<and> \<bar>sum_list (map2 (t id) bs hs)\<bar> \<le> 32768 * int (length bs)"
    if "list_all (\<lambda>b. \<bar>b\<bar> \<le> 32768) bs" "list_all float_ok hs" for bs hs
    using that
  proof (induction bs hs rule: list_induct2')
    case (4 b bs h hs)
    then show ?case using t [of b h] by (auto simp: id_def)
  qed auto
  define z where "z = sum_list (map2 (t id) (g_b d) (g_dq d))"
  have z: "map2 (t i32) (g_b d) (g_dq d) = map2 (t id) (g_b d) (g_dq d)" "\<bar>z\<bar> \<le> 196608"
    using sums [of "g_b d" "g_dq d"] assms by (auto simp: g726_ok_def z_def)
  have a: "t i32 (g_a0 d) (g_sr0 d) = t id (g_a0 d) (g_sr0 d)" "\<bar>t id (g_a0 d) (g_sr0 d)\<bar> \<le> 32768"
    "t i32 (g_a1 d) (g_sr1 d) = t id (g_a1 d) (g_sr1 d)" "\<bar>t id (g_a1 d) (g_sr1 d)\<bar> \<le> 32768"
    using t [of "g_a0 d" "g_sr0 d"] t [of "g_a1 d" "g_sr1 d"] assms by (simp_all add: g726_ok_def)
  define p where "p = z + t id (g_a0 d) (g_sr0 d) + t id (g_a1 d) (g_sr1 d)"
  have p: "\<bar>p\<bar> \<le> 262144" using z(2) a by (auto simp: p_def)
  have wrap: "i32 z = z" "i32 p = p" using z p by (auto intro!: i32_small)
  have est: "estimate w d = d\<lparr>g_sez := drop_bit 1 z, g_se := drop_bit 1 p\<rparr>"
    if "w z = z" "w p = p" "map2 (t w) (g_b d) (g_dq d) = map2 (t id) (g_b d) (g_dq d)" "t w (g_a0 d) (g_sr0 d) = t id (g_a0 d) (g_sr0 d)"
      "t w (g_a1 d) (g_sr1 d) = t id (g_a1 d) (g_sr1 d)" for w
  proof -
    have "estimate w d = (let z = w (sum_list (map2 (t w) (g_b d) (g_dq d)));
        p = w (z + t w (g_a0 d) (g_sr0 d) + t w (g_a1 d) (g_sr1 d)) in d\<lparr>g_sez := drop_bit 1 z, g_se := drop_bit 1 p\<rparr>)"
      by (simp add: estimate_def t_def)
    then show ?thesis unfolding that(3-5) z_def [symmetric] that(1) Let_def p_def [symmetric] that(2) .
  qed
  have "\<bar>drop_bit 1 z\<bar> \<le> 98304" "\<bar>drop_bit 1 p\<bar> \<le> 131072" using z(2) p by (auto simp: shift_simps)
  then show ?thesis using est [OF wrap z(1) a(1) a(3)] est [of id] assms by (simp add: g726_ok_def)
qed

text \<open>One sample: in range, no overflow, no index out of range.\<close>

lemma decodeSample_ok:
  assumes "g726_ok d" "code < 2 ^ code_bits (g_rt d)"
  shows "decodeSample i32 d code = decodeSample id d code \<and> (\<exists>v d'. decodeSample id d code = Some (v, d')
    \<and> g726_ok d' \<and> g_rt d' = g_rt d \<and> msbFirst d' = msbFirst d)"
proof -
  define rt where "rt = g_rt d"
  have rt: "rate_ok rt" using assms(1) by (simp add: g726_ok_def rt_def)
  have len: "code < length (iquant rt)" "code < length (f_table rt)" "code < length (w_table rt)" using rt assms(2) by (simp_all add: rate_ok_def rt_def)
  have q: "- 32768 \<le> iquant rt ! code" "iquant rt ! code \<le> 566" using rt len(1) by (simp_all add: rate_ok_def list_all_length)
  have f: "0 \<le> f_table rt ! code" "f_table rt ! code \<le> 7" using rt len(2) by (simp_all add: rate_ok_def list_all_length)
  have v: "- 22 \<le> w_table rt ! code" "w_table rt ! code \<le> 1122" using rt len(3) by (simp_all add: rate_ok_def list_all_length)
  have y: "544 \<le> g_y d" "g_y d \<le> 5120" "\<bar>g_se d\<bar> \<le> 131072" "\<bar>g_sez d\<bar> \<le> 98304" using assms(1) by (simp_all add: g726_ok_def)
  define mag where "mag = inverseQuant id (iquant rt ! code) (g_y d)"
  have mag: "inverseQuant i32 (iquant rt ! code) (g_y d) = mag" "0 \<le> mag" "mag \<le> 32767" using inverseQuant_ok [OF q y(1,2)] by (simp_all add: mag_def)
  define sign where "sign = int (drop_bit (code_bits rt - 1) code)"
  have sign: "sign \<in> {0, 1}"
  proof -
    have "code div 2 ^ (code_bits rt - 1) < 2"
      using assms(2) rt by (intro less_mult_imp_div_less) (simp add: rt_def rate_ok_def flip: power_Suc)
    then show ?thesis by (auto simp: sign_def drop_bit_eq_div)
  qed
  define dq where "dq = (if sign \<noteq> 0 then - mag else mag)"
  have dq: "\<bar>dq\<bar> \<le> 32768" using mag by (auto simp: dq_def)
  define re where "re = i16 (g_se d + dq)"
  have re: "\<bar>re\<bar> \<le> 32768" using i16_range [of "g_se d + dq"] by (auto simp: re_def)
  define pk0 where "pk0 = (if g_sez d + dq \<noteq> 0 then sgn32 (g_sez d + dq) else 0)"
  define dq0 where "dq0 = (if dq \<noteq> 0 then sgn32 dq else 0)"
  have pk: "pk0 \<in> {- 1, 0, 1}" "dq0 \<in> {- 1, 0, 1}" using sgn32_range by (auto simp: pk0_def dq0_def sgn32_def)
  define tr where "tr = transition id d mag"
  define d1 where "d1 = adapt_predictor id d tr pk0 dq0"
  define d2 where "d2 = shift_history id d1 pk0 re dq sign"
  define d3 where "d3 = speed_control id d2 tr (f_table rt ! code)"
  define d4 where "d4 = scale_factors id d3 (w_table rt ! code)"
  define d5 where "d5 = estimate id d4"
  have d1: "adapt_predictor i32 d tr pk0 dq0 = d1" "g726_ok d1" using adapt_predictor_ok [OF assms(1) pk] by (simp_all add: d1_def)
  have d2: "shift_history i32 d1 pk0 re dq sign = d2" "g726_ok d2" using shift_history_ok [OF d1(2) pk(1) re dq sign] by (simp_all add: d2_def)
  have d3: "speed_control i32 d2 tr (f_table rt ! code) = d3" "g726_ok d3" using speed_control_ok [OF d2(2) f] by (simp_all add: d3_def)
  have d4: "scale_factors i32 d3 (w_table rt ! code) = d4" "g726_ok d4" using scale_factors_ok [OF d3(2) v] by (simp_all add: d4_def)
  have d5: "estimate i32 d4 = d5" "g726_ok d5" using estimate_ok [OF d4(2)] by (simp_all add: d5_def)
  have rt2: "g_rt d2 = rt" "g_rt d5 = rt" "msbFirst d5 = msbFirst d"
    by (simp_all add: d5_def d4_def d3_def d2_def d1_def estimate_def scale_factors_def speed_control_def shift_history_def adapt_predictor_def Let_def rt_def)
  have wrap: "i32 (- mag) = - mag" "i32 (g_se d + dq) = g_se d + dq" "i32 (g_sez d + dq) = g_sez d + dq" "i32 (re * 4) = re * 4"
    using mag dq re y by (auto intro!: i32_small)
  have idx: "idx (iquant rt) code = Some (iquant rt ! code)" "idx (f_table rt) code = Some (f_table rt ! code)"
    "idx (w_table rt) code = Some (w_table rt ! code)" using len by simp_all
  have dec: "decodeSample w d code = Some (i16 (clip (re * 4) (- 0xFFFF) 0xFFFF), d5)"
    if w: "inverseQuant w (iquant rt ! code) (g_y d) = mag" "transition w d mag = tr" "w (- mag) = - mag" "w (g_se d + dq) = g_se d + dq"
      "w (g_sez d + dq) = g_sez d + dq" "w (re * 4) = re * 4" "adapt_predictor w d tr pk0 dq0 = d1" "shift_history w d1 pk0 re dq sign = d2"
      "speed_control w d2 tr (f_table rt ! code) = d3" "scale_factors w d3 (w_table rt ! code) = d4" "estimate w d4 = d5" for w
    unfolding decodeSample_def rt_def [symmetric] idx Option.bind.simps Let_def sign_def [symmetric] w(1,2,3) dq_def [symmetric] w(4,5)
      re_def [symmetric] pk0_def [symmetric] dq0_def [symmetric] w(7,8) rt2(1) w(9,10,11,6) by (simp add: idx)
  have "decodeSample i32 d code = Some (i16 (clip (re * 4) (- 0xFFFF) 0xFFFF), d5)"
    by (rule dec) (use mag wrap d1 d2 d3 d4 d5 transition_ok [OF assms(1)] in \<open>simp_all add: tr_def\<close>)
  moreover have "decodeSample id d code = Some (i16 (clip (re * 4) (- 0xFFFF) 0xFFFF), d5)"
    by (rule dec) (simp_all add: mag_def tr_def d1_def d2_def d3_def d4_def d5_def)
  ultimately show ?thesis using d5(2) rt2 by (simp add: rt_def)
qed

section \<open>Streams\<close>

lemma or_bound: "v < 2 ^ n \<Longrightarrow> u < 2 ^ n \<Longrightarrow> (v OR u :: nat) < 2 ^ n"
  by (metis take_bit_nat_eq_self_iff take_bit_or)

lemma lsb_loop_total:
  "pos + i + n \<le> 8 * length payload \<Longrightarrow> v < 2 ^ i \<Longrightarrow> \<exists>u. lsb_loop payload pos n i v = Some u \<and> u < 2 ^ (i + n)"
proof (induction n arbitrary: i v)
  case (Suc n)
  have "v OR push_bit i (of_bool b) < 2 ^ Suc i" for b
  proof (rule or_bound)
    show "v < 2 ^ Suc i" using Suc.prems(2) by simp
    show "push_bit i (of_bool b :: nat) < 2 ^ Suc i" by (simp add: push_bit_eq_mult)
  qed
  moreover have "(pos + i) div 8 < length payload" using Suc.prems(1) by linarith
  ultimately show ?case using Suc.IH [of "i + 1"] Suc.prems(1) by simp
qed simp

lemma msb_loop_total:
  "pos + i + n \<le> 8 * length payload \<Longrightarrow> v < 2 ^ i \<Longrightarrow> \<exists>u. msb_loop payload pos n i v = Some u \<and> u < 2 ^ (i + n)"
proof (induction n arbitrary: i v)
  case (Suc n)
  have "push_bit 1 v OR of_bool b < 2 ^ Suc i" for b
    using Suc.prems(2) by (intro or_bound) (simp_all add: push_bit_eq_mult of_bool_def)
  moreover have "(pos + i) div 8 < length payload" using Suc.prems(1) by linarith
  ultimately show ?case using Suc.IH [of "i + 1"] Suc.prems(1) by simp
qed simp

lemma readCodeword_total:
  assumes "pos + width \<le> 8 * length payload"
  shows "\<exists>v. (if m then readCodewordMSB else readCodewordLSB) payload pos width = Some v \<and> v < 2 ^ width"
  using lsb_loop_total [of pos 0 width payload 0] msb_loop_total [of pos 0 width payload 0] assms
  by (auto simp: readCodewordMSB_def readCodewordLSB_def)

lemma decode_loop_ok:
  assumes "g726_ok d" "pos + n * code_bits (g_rt d) \<le> 8 * length payload"
  shows "decode_loop i32 d payload n pos = decode_loop id d payload n pos
    \<and> (\<exists>out d'. decode_loop id d payload n pos = Some (out, d') \<and> length out = 2 * n \<and> g726_ok d' \<and> g_rt d' = g_rt d \<and> msbFirst d' = msbFirst d)"
  using assms
proof (induction n arbitrary: d pos)
  case (Suc n)
  obtain code where code: "(if msbFirst d then readCodewordMSB else readCodewordLSB) payload pos (code_bits (g_rt d)) = Some code"
    "code < 2 ^ code_bits (g_rt d)" using readCodeword_total [of pos "code_bits (g_rt d)" payload "msbFirst d"] Suc.prems(2) by auto
  obtain v d' where d': "decodeSample i32 d code = Some (v, d')" "decodeSample id d code = Some (v, d')" "g726_ok d'" "g_rt d' = g_rt d" "msbFirst d' = msbFirst d"
    using decodeSample_ok [OF Suc.prems(1) code(2)] by auto
  have "pos + code_bits (g_rt d) + n * code_bits (g_rt d') \<le> 8 * length payload" using Suc.prems(2) d'(4) by simp
  from Suc.IH [OF d'(3) this] show ?case using code(1) d' by (auto simp: put16_def id_def)
qed simp

text \<open>What a caller does with a decoder.\<close>

datatype g726_op = Feed nat bytes | Restart

fun g726_step :: "(int \<Rightarrow> int) \<Rightarrow> g726 \<Rightarrow> g726_op \<Rightarrow> (g726_error, bytes) go \<times> g726" where
  "g726_step w d (Feed dstLen payload) = g726_Decode w d dstLen payload"
| "g726_step w d Restart = (ok [], g726_Reset d)"

lemma g726_step_ok:
  assumes "g726_ok d"
  shows "g726_step i32 d op = g726_step id d op \<and> fst (g726_step id d op) \<noteq> None \<and> g726_ok (snd (g726_step id d op))"
proof (cases op)
  case (Feed dstLen payload)
  have "length payload * 8 div code_bits (g_rt d) * code_bits (g_rt d) \<le> 8 * length payload"
    by (metis div_times_less_eq_dividend mult.commute)
  then show ?thesis
    using Feed assms decode_loop_ok [OF assms, of 0 "length payload * 8 div code_bits (g_rt d)" payload]
    by (auto simp: g726_Decode_def Let_def)
next
  case Restart
  then show ?thesis using assms g726_Reset_ok by (simp add: g726_ok_def)
qed

interpretation g726: invariant_machine "g726_step i32" g726_ok "\<lambda>out. out \<noteq> None"
  by unfold_locales (use g726_step_ok in auto)

lemma g726_New_ok: "g726_New br packing = Inr d \<Longrightarrow> g726_ok d"
  by (auto simp: g726_New_def Let_def split: option.splits G726Packing.splits intro!: g726_Reset_ok dest: rateTables_ok)

text \<open>
  C34. The G.726 decoder never overflows: over any sequence of payloads and restarts, with destination buffers of any size,
  computing in wrapping 32-bit integers gives the same samples and the same state as computing in the integers. No table is indexed
  out of range, and every variable stays in the range the recommendation gives it.
\<close>

theorem g726_no_overflow:
  assumes "g726_New br packing = Inr d"
  shows "run (g726_step i32) d ops = run (g726_step id) d ops
    \<and> (\<forall>out \<in> set (fst (run (g726_step i32) d ops)). out \<noteq> None) \<and> g726_ok (snd (run (g726_step i32) d ops))"
proof -
  have "g726_ok d \<Longrightarrow> run (g726_step i32) d ops = run (g726_step id) d ops" for d
  proof (induction ops arbitrary: d)
    case (Cons op ops)
    then show ?case using g726_step_ok [OF Cons.prems, of op] by (simp add: run.simps(2) Let_def split_def id_def)
  qed simp
  then show ?thesis using g726_New_ok [OF assms] g726.run_inv g726.run_good by blast
qed

theorem g726_no_overflow_witness:
  "\<exists>d. g726_New G726Rate32 G726PackingRFC3551 = Inr d
     \<and> run (g726_step i32) d [Feed 320 (replicate 80 0x77), Restart] = run (g726_step id) d [Feed 320 (replicate 80 0x77), Restart]"
proof -
  obtain d where "g726_New G726Rate32 G726PackingRFC3551 = Inr d" by (simp add: g726_New_def)
  then show ?thesis using g726_no_overflow by blast
qed

text \<open>A payload may be cut between two codewords that fill whole bytes.\<close>

lemma sample_steps_keep:
  "g_rt (estimate w d) = g_rt d" "msbFirst (estimate w d) = msbFirst d"
  "g_rt (scale_factors w d v) = g_rt d" "msbFirst (scale_factors w d v) = msbFirst d"
  "g_rt (speed_control w d tr f) = g_rt d" "msbFirst (speed_control w d tr f) = msbFirst d"
  "g_rt (shift_history w d pk0 re dq sign) = g_rt d" "msbFirst (shift_history w d pk0 re dq sign) = msbFirst d"
  "g_rt (adapt_predictor w d tr pk0 dq0) = g_rt d" "msbFirst (adapt_predictor w d tr pk0 dq0) = msbFirst d"
  by (simp_all add: estimate_def scale_factors_def speed_control_def shift_history_def adapt_predictor_def Let_def)

lemma decodeSample_keeps:
  assumes "decodeSample w d code = Some (v, d')"
  shows "g_rt d' = g_rt d \<and> msbFirst d' = msbFirst d"
  using assms unfolding decodeSample_def Let_def bind_eq_Some_conv option.inject prod.inject
  by (elim exE conjE) (hypsubst, simp only: sample_steps_keep simp_thms)

lemma lsb_loop_prefix: "pos + i + n \<le> 8 * length p \<Longrightarrow> lsb_loop (p @ q) pos n i v = lsb_loop p pos n i v"
proof (induction n arbitrary: i v)
  case (Suc n)
  have "(pos + i) div 8 < length p" using Suc.prems by linarith
  then show ?case using Suc.IH [of "i + 1"] Suc.prems by (simp add: idx_def nth_append)
qed simp

lemma msb_loop_prefix: "pos + i + n \<le> 8 * length p \<Longrightarrow> msb_loop (p @ q) pos n i v = msb_loop p pos n i v"
proof (induction n arbitrary: i v)
  case (Suc n)
  have "(pos + i) div 8 < length p" using Suc.prems by linarith
  then show ?case using Suc.IH [of "i + 1"] Suc.prems by (simp add: idx_def nth_append)
qed simp

lemma shifted_bit: "(8 * length p + m) div 8 = length p + m div 8" "(8 * length p + m) mod 8 = m mod 8" for m :: nat
  by auto

lemma lsb_loop_shift: "lsb_loop (p @ q) (8 * length p + pos) n i v = lsb_loop q pos n i v"
  by (induction n arbitrary: i v) (simp_all add: idx_def nth_append shifted_bit add.assoc)

lemma msb_loop_shift: "msb_loop (p @ q) (8 * length p + pos) n i v = msb_loop q pos n i v"
  by (induction n arbitrary: i v) (simp_all add: idx_def nth_append shifted_bit add.assoc)

lemma decode_loop_prefix:
  "pos + n * code_bits (g_rt d) \<le> 8 * length p \<Longrightarrow> decode_loop w d (p @ q) n pos = decode_loop w d p n pos"
proof (induction n arbitrary: d pos)
  case (Suc n)
  have "(if msbFirst d then readCodewordMSB else readCodewordLSB) (p @ q) pos (code_bits (g_rt d))
      = (if msbFirst d then readCodewordMSB else readCodewordLSB) p pos (code_bits (g_rt d))"
    using Suc.prems by (simp add: readCodewordMSB_def readCodewordLSB_def lsb_loop_prefix msb_loop_prefix)
  moreover have "decode_loop w d' (p @ q) n (pos + code_bits (g_rt d)) = decode_loop w d' p n (pos + code_bits (g_rt d))"
    if "decodeSample w d code = Some (v, d')" for code v d'
    using Suc.IH [of "pos + code_bits (g_rt d)" d'] Suc.prems decodeSample_keeps [OF that] by simp
  ultimately show ?case by (auto intro!: Option.bind_cong)
qed simp

lemma decode_loop_shift: "decode_loop w d (p @ q) n (8 * length p + pos) = decode_loop w d q n pos"
proof (induction n arbitrary: d pos)
  case (Suc n)
  then show ?case by (auto simp: readCodewordMSB_def readCodewordLSB_def lsb_loop_shift msb_loop_shift add.assoc intro!: Option.bind_cong)
qed simp

lemma decode_loop_append:
  assumes "decode_loop w d p n pos = Some (o1, d1)" "decode_loop w d1 p m (pos + n * code_bits (g_rt d)) = Some (o2, d2)"
  shows "decode_loop w d p (n + m) pos = Some (o1 @ o2, d2)"
  using assms
proof (induction n arbitrary: d pos o1)
  case (Suc n)
  from Suc.prems(1) obtain code v d' out where *:
    "(if msbFirst d then readCodewordMSB else readCodewordLSB) p pos (code_bits (g_rt d)) = Some code" "decodeSample w d code = Some (v, d')"
    "decode_loop w d' p n (pos + code_bits (g_rt d)) = Some (out, d1)" "o1 = rev (put16 (word_of_int v)) @ out"
    by (auto split: bind_splits if_splits)
  then show ?case using Suc.IH [OF *(3)] Suc.prems(2) decodeSample_keeps [OF *(2)] by (simp add: add.assoc)
qed simp

lemma decode_loop_keeps: "decode_loop w d p n pos = Some (out, d') \<Longrightarrow> g_rt d' = g_rt d"
  by (induction n arbitrary: d pos out) (auto dest!: decodeSample_keeps split: bind_splits)

text \<open>
  The decoder's state carries over between packets: whatever way a stream of whole codewords is cut into payloads, decoding
  the payloads one after the other gives the samples, and leaves the state, of decoding them as one.
\<close>

theorem g726_Decode_append:
  assumes "g726_DecodeAlloc i32 d p = (ok o1, d1)" "g726_DecodeAlloc i32 d1 q = (ok o2, d2)"
  shows "g726_DecodeAlloc i32 d (p @ q) = (ok (o1 @ o2), d2)"
proof -
  have alloc: "g726_DecodeAlloc i32 d p = (ok out, d') \<longleftrightarrow> (length p * 8) mod code_bits (g_rt d) = 0
      \<and> decode_loop i32 d p (length p * 8 div code_bits (g_rt d)) 0 = Some (out, d')" for d p out d'
    by (auto simp: g726_DecodeAlloc_def g726_Decode_def wholeCodewords_def OutputLen_def Let_def split: option.splits)
  define k where "k = code_bits (g_rt d)"
  have 1: "(length p * 8) mod k = 0" "decode_loop i32 d p (length p * 8 div k) 0 = Some (o1, d1)" using assms(1) alloc by (auto simp: k_def)
  have k1: "g_rt d1 = g_rt d" using decode_loop_keeps [OF 1(2)] .
  have 2: "(length q * 8) mod k = 0" "decode_loop i32 d1 q (length q * 8 div k) 0 = Some (o2, d2)" using assms(2) k1 alloc by (auto simp: k_def)
  have whole: "length p * 8 div k * k = 8 * length p" using 1(1) by (auto simp: mult.commute)
  then have "decode_loop i32 d (p @ q) (length p * 8 div k) 0 = Some (o1, d1)" using 1(2) decode_loop_prefix [of 0 _ d] by (simp add: k_def)
  moreover have "decode_loop i32 d1 (p @ q) (length q * 8 div k) (0 + length p * 8 div k * k) = Some (o2, d2)"
    using 2(2) decode_loop_shift [of i32 d1 p q _ 0] whole by simp
  ultimately have "decode_loop i32 d (p @ q) (length p * 8 div k + length q * 8 div k) 0 = Some (o1 @ o2, d2)"
    using decode_loop_append by (simp add: k_def)
  moreover have "length (p @ q) * 8 div k = length p * 8 div k + length q * 8 div k" "(length (p @ q) * 8) mod k = 0"
    using 1(1) 2(1) by (auto simp: div_add dvd_eq_mod_eq_0 distrib_right)
  ultimately show ?thesis using alloc by (simp add: k_def)
qed

lemma DecodeAlloc_total:
  assumes "g726_ok d" "wholeCodewords d payload"
  shows "\<exists>out d'. g726_DecodeAlloc i32 d payload = (ok out, d') \<and> g726_ok d' \<and> g_rt d' = g_rt d"
proof -
  have "length payload * 8 div code_bits (g_rt d) * code_bits (g_rt d) \<le> 8 * length payload"
    by (metis div_times_less_eq_dividend mult.commute)
  then show ?thesis using assms decode_loop_ok [OF assms(1), of 0 "length payload * 8 div code_bits (g_rt d)" payload]
    by (auto simp: g726_DecodeAlloc_def g726_Decode_def OutputLen_def Let_def)
qed

theorem g726_Decode_append_witness:
  "\<exists>d o1 d1 o2 d2. g726_New G726Rate32 G726PackingAAL2 = Inr d \<and> g726_DecodeAlloc i32 d [0x12, 0x34] = (ok o1, d1)
     \<and> g726_DecodeAlloc i32 d1 [0x56] = (ok o2, d2) \<and> g726_DecodeAlloc i32 d [0x12, 0x34, 0x56] = (ok (o1 @ o2), d2)"
proof -
  obtain d where d: "g726_New G726Rate32 G726PackingAAL2 = Inr d" "code_bits (g_rt d) = 4" by (simp add: g726_New_def g726_Reset_def)
  have whole: "wholeCodewords d' p" if "code_bits (g_rt d') = 4" for d' p
  proof -
    have "length p * 8 = 4 * (2 * length p)" by simp
    then show ?thesis unfolding wholeCodewords_def that by (metis mod_mult_self1_is_0)
  qed
  obtain o1 d1 where 1: "g726_DecodeAlloc i32 d [0x12, 0x34] = (ok o1, d1)" "g726_ok d1" "g_rt d1 = g_rt d"
    using DecodeAlloc_total [OF g726_New_ok [OF d(1)] whole] d(2) by blast
  obtain o2 d2 where "g726_DecodeAlloc i32 d1 [0x56] = (ok o2, d2)"
    using DecodeAlloc_total [OF 1(2) whole] 1(3) d(2) by metis
  then show ?thesis using d(1) 1(1) g726_Decode_append [of d "[0x12, 0x34]" o1 d1 "[0x56]" o2 d2] by auto
qed

end
