(* ===== verification/LATM.thy ===== *)
theory LATM
  imports AAC
begin

text \<open>
  The RFC 3016 depacketizer of \<open>src/depacket/latm\<close>: the bit reader, the StreamMuxConfig and AudioSpecificConfig parsers, and the
  extraction of access units from out-of-band and in-band AudioMuxElements. A bit reader is a buffer and a bit position. The slices
  the Go struct recycles (\<open>aus\<close>, \<open>inBandData\<close>, \<open>ascBuf\<close>) hold no value between calls: what they hold is built by value. The
  unused parameters \<open>marker\<close> and \<open>rtpTime\<close> of \<open>Depacketize\<close> are left out.
\<close>

section \<open>Data\<close>

definition MaxSubFrames :: nat where [caps]: "MaxSubFrames = 64"
definition MaxMuxSlotBytes :: nat where [caps]: "MaxMuxSlotBytes = 64 * 1024"
definition MaxStreamMuxConfigBytes :: nat where [caps]: "MaxStreamMuxConfigBytes = 512"
definition MaxMuxElements :: nat where [caps]: "MaxMuxElements = 64"

datatype latm_error = LATMErrConfigInvalid | ErrUnsupportedMux | ErrUnsupportedASC | ErrNoConfig | LATMErrTruncated | ErrPayloadOverflow

record latm_config =
  MuxConfigPresent :: bool
  StreamMuxConfig :: bytes
  latm_SamplesPerFrame :: int

record streamMuxConfig =
  numSubFrames :: nat
  frameLengthType :: nat

record latm =
  latm_cfg :: latm_config
  smc :: streamMuxConfig
  haveSMC :: bool
  latm_asc :: bytes
  frameLength :: u32

section \<open>Bits\<close>

text \<open>The inner \<open>None\<close> is the result \<open>ok = false\<close>.\<close>

definition latm_read :: "bytes \<Rightarrow> nat \<Rightarrow> nat \<Rightarrow> (nat \<times> nat) option option" where
  "latm_read buf pos n =
     (if n = 0 then Some (Some (0, pos))
      else if pos + n > length buf * 8 then Some None
      else let firstByte = pos div 8; lastByte = (pos + n - 1) div 8 in do {
        span \<leftarrow> slice buf firstByte (lastByte + 1);
        let acc = foldl (\<lambda>acc x. push_bit 8 acc OR ucast x) (0 :: u64) span;
            rightPad = (lastByte + 1) * 8 - (pos + n)
        in Some (Some (unat (drop_bit rightPad acc AND (push_bit n 1 - 1)), pos + n)) })"

text \<open>The idiom \<open>v, ok := r.read(n); if !ok { return ErrTruncated }\<close>.\<close>

definition rd :: "bytes \<Rightarrow> nat \<Rightarrow> nat \<Rightarrow> (latm_error, nat \<times> nat) go" where
  "rd buf pos n = (case latm_read buf pos n of None \<Rightarrow> panic | Some None \<Rightarrow> err LATMErrTruncated | Some (Some r) \<Rightarrow> ok r)"

definition byteAlign :: "nat \<Rightarrow> nat" where
  "byteAlign pos = (let rem = pos mod 8 in if rem \<noteq> 0 then pos + (8 - rem) else pos)"

fun blit_loop :: "bytes \<Rightarrow> nat \<Rightarrow> nat \<Rightarrow> nat \<Rightarrow> nat \<Rightarrow> bytes option" where
  "blit_loop buf sb shift 0 j = Some []"
| "blit_loop buf sb shift (Suc k) j = do {
     x \<leftarrow> idx buf (sb + j);
     lo \<leftarrow> (if sb + j + 1 < length buf then do { y \<leftarrow> idx buf (sb + j + 1); Some (drop_bit (8 - shift) y) } else Some 0);
     rest \<leftarrow> blit_loop buf sb shift k (j + 1);
     Some ((push_bit shift x OR lo) # rest) }"

text \<open>The bytes \<open>blitBits\<close> leaves in a \<open>dst\<close> of \<open>(n + 7) / 8\<close> bytes.\<close>

definition blitBits :: "bytes \<Rightarrow> nat \<Rightarrow> nat \<Rightarrow> bytes option" where
  "blitBits buf start n =
     (if n = 0 then Some []
      else let sb = start div 8; shift = start mod 8; size = (n + 7) div 8 in do {
        dst \<leftarrow> (if shift = 0 then slice buf sb (sb + size) else blit_loop buf sb shift size 0);
        if n mod 8 \<noteq> 0 then do { x \<leftarrow> idx dst (size - 1); Some (dst[size - 1 := x AND NOT (drop_bit (n mod 8) 0xFF)]) }
        else Some dst })"

definition extractBitsInto :: "bytes \<Rightarrow> nat \<Rightarrow> nat \<Rightarrow> bytes option" where
  "extractBitsInto buf start n = blitBits buf start n"

definition appendBits :: "bytes \<Rightarrow> bytes \<Rightarrow> nat \<Rightarrow> nat \<Rightarrow> bytes option" where
  "appendBits dst buf start n = do { new \<leftarrow> blitBits buf start n; Some (dst @ new) }"

section \<open>Configurations\<close>

definition parseASC :: "bytes \<Rightarrow> nat \<Rightarrow> (latm_error, (bytes \<times> u32) \<times> nat) go" where
  "parseASC buf start =
     go_bind (rd buf start 5) (\<lambda>(aot, pos).
     go_bind (if aot = 31 then go_bind (rd buf pos 6) (\<lambda>(escAOT, pos). ok (32 + escAOT, pos)) else ok (aot, pos)) (\<lambda>(aot, pos).
     if aot \<notin> {1, 2, 3, 4, 6, 7} then err ErrUnsupportedASC else
     go_bind (rd buf pos 4) (\<lambda>(sfi, pos).
     go_bind (if sfi = 15 then go_bind (rd buf pos 24) (\<lambda>(_, pos). ok pos) else ok pos) (\<lambda>pos.
     go_bind (rd buf pos 4) (\<lambda>(channelConfiguration, pos).
     if channelConfiguration = 0 then err ErrUnsupportedASC else
     go_bind (rd buf pos 1) (\<lambda>(frameLengthFlag, pos).
     go_bind (rd buf pos 1) (\<lambda>(dependsOnCoreCoder, pos).
     go_bind (if dependsOnCoreCoder = 1 then go_bind (rd buf pos 14) (\<lambda>(_, pos). ok pos) else ok pos) (\<lambda>pos.
     go_bind (rd buf pos 1) (\<lambda>(extensionFlag, pos).
     if extensionFlag = 1 then err ErrUnsupportedASC else
     case extractBitsInto buf start (pos - start) of
       None \<Rightarrow> panic
     | Some asc \<Rightarrow> ok ((asc, if frameLengthFlag = 1 then 960 else 1024), pos))))))))))"

lemma rd_advances: "rd buf pos n = ok (v, pos') \<Longrightarrow> 0 < n \<Longrightarrow> pos' = pos + n \<and> pos' \<le> 8 * length buf"
  by (auto simp: rd_def latm_read_def Let_def go_simps split: option.splits if_splits)

text \<open>The loop over the escape-coded \<open>otherDataLen\<close>.\<close>

function other_data :: "bytes \<Rightarrow> nat \<Rightarrow> (latm_error, nat) go" where
  "other_data buf pos =
     go_bind (rd buf pos 1) (\<lambda>(esc, pos1).
     go_bind (rd buf pos1 8) (\<lambda>(_, pos2).
     if esc = 0 then ok pos2 else other_data buf pos2))"
  by pat_completeness auto
termination
  by (relation "measure (\<lambda>(buf, pos). 8 * length buf - pos)") (auto dest!: rd_advances)

declare other_data.simps [simp del]

definition parseStreamMuxConfigBits :: "bytes \<Rightarrow> nat \<Rightarrow> (latm_error, (streamMuxConfig \<times> bytes \<times> u32) \<times> nat) go" where
  "parseStreamMuxConfigBits buf pos =
     go_bind (rd buf pos 1) (\<lambda>(audioMuxVersion, pos).
     if audioMuxVersion \<noteq> 0 then err ErrUnsupportedMux else
     go_bind (rd buf pos 1) (\<lambda>(allStreamsSameTimeFraming, pos).
     if allStreamsSameTimeFraming \<noteq> 1 then err ErrUnsupportedMux else
     go_bind (rd buf pos 6) (\<lambda>(numSub, pos).
     if numSub + 1 > MaxSubFrames then err ErrUnsupportedMux else
     go_bind (rd buf pos 4) (\<lambda>(numProgram, pos).
     if numProgram \<noteq> 0 then err ErrUnsupportedMux else
     go_bind (rd buf pos 3) (\<lambda>(numLayer, pos).
     if numLayer \<noteq> 0 then err ErrUnsupportedMux else
     go_bind (parseASC buf pos) (\<lambda>((asc, frameLen), pos).
     go_bind (rd buf pos 3) (\<lambda>(flt, pos).
     if flt \<noteq> 0 then err ErrUnsupportedMux else
     go_bind (rd buf pos 8) (\<lambda>(_, pos).
     go_bind (rd buf pos 1) (\<lambda>(otherDataPresent, pos).
     go_bind (if otherDataPresent = 1 then other_data buf pos else ok pos) (\<lambda>pos.
     go_bind (rd buf pos 1) (\<lambda>(crcCheckPresent, pos).
     go_bind (if crcCheckPresent = 1 then go_bind (rd buf pos 8) (\<lambda>(_, pos). ok pos) else ok pos) (\<lambda>pos.
     ok ((\<lparr>numSubFrames = numSub, frameLengthType = flt\<rparr>, asc, frameLen), pos)))))))))))))"

definition parseStreamMuxConfig :: "bytes \<Rightarrow> (latm_error, streamMuxConfig \<times> bytes \<times> u32) go" where
  "parseStreamMuxConfig buf = do {
     buf \<leftarrow> (if length buf > MaxStreamMuxConfigBytes then slice buf 0 MaxStreamMuxConfigBytes else Some buf);
     go_bind (parseStreamMuxConfigBits buf 0) (\<lambda>(r, _). ok r) }"

definition install :: "latm \<Rightarrow> streamMuxConfig \<times> bytes \<times> u32 \<Rightarrow> latm" where
  "install d r = (case r of (c, asc, fl) \<Rightarrow> d\<lparr>smc := c, latm_asc := asc, frameLength := fl, haveSMC := True\<rparr>)"

definition applySeed :: "latm \<Rightarrow> latm option" where
  "applySeed d =
     (if length (StreamMuxConfig (latm_cfg d)) = 0 then Some d
      else case parseStreamMuxConfig (StreamMuxConfig (latm_cfg d)) of
          None \<Rightarrow> None
        | Some (Inl e) \<Rightarrow> Some d
        | Some (Inr r) \<Rightarrow> Some (install d r))"

definition smc0 :: streamMuxConfig where
  "smc0 = \<lparr>numSubFrames = 0, frameLengthType = 0\<rparr>"

definition latm_New :: "latm_config \<Rightarrow> (latm_error, latm) go" where
  "latm_New c =
     (if latm_SamplesPerFrame c < 0 \<or> latm_SamplesPerFrame c > 8192 then err LATMErrConfigInvalid
      else let d = \<lparr>latm_cfg = c, smc = smc0, haveSMC = False, latm_asc = [], frameLength = 0\<rparr> in
        if MuxConfigPresent c then map_option Inr (applySeed d)
        else if length (StreamMuxConfig c) = 0 then err LATMErrConfigInvalid
        else go_bind (parseStreamMuxConfig (StreamMuxConfig c)) (\<lambda>r. ok (install d r)))"

definition latm_AudioSpecificConfig :: "latm \<Rightarrow> bytes option" where
  "latm_AudioSpecificConfig d = (if \<not> haveSMC d then None else Some (latm_asc d))"

definition latm_Reset :: "latm \<Rightarrow> latm option" where
  "latm_Reset d =
     (if \<not> MuxConfigPresent (latm_cfg d) then Some d
      else applySeed (d\<lparr>haveSMC := False, smc := smc0, latm_asc := [], frameLength := 0\<rparr>))"

section \<open>Access units\<close>

function mux_length :: "bytes \<Rightarrow> nat \<Rightarrow> nat \<Rightarrow> (latm_error, nat \<times> nat) go" where
  "mux_length payload offset len =
     (if offset \<ge> length payload then err LATMErrTruncated
      else do {
        b \<leftarrow> idx payload offset;
        let len = len + unat b in
        if len > MaxMuxSlotBytes then err ErrPayloadOverflow
        else if b \<noteq> 0xFF then ok (len, offset + 1)
        else mux_length payload (offset + 1) len })"
  by pat_completeness auto
termination
  by (relation "measure (\<lambda>(payload, offset, len). length payload - offset)") auto

declare mux_length.simps [simp del]

definition readMuxSlot :: "bytes \<Rightarrow> nat \<Rightarrow> (latm_error, bytes \<times> nat) go" where
  "readMuxSlot payload offset =
     go_bind (mux_length payload offset 0) (\<lambda>(len, offset).
       if offset + len > length payload then err ErrPayloadOverflow
       else do { data \<leftarrow> slice payload offset (offset + len); ok (data, offset + len) })"

definition subFrameLayout :: "latm \<Rightarrow> (latm_error, u32) go" where
  "subFrameLayout d =
     (if numSubFrames (smc d) + 1 > MaxSubFrames then err ErrUnsupportedMux
      else let t = word_of_int (latm_SamplesPerFrame (latm_cfg d)) in ok (if t = 0 then frameLength d else t))"

definition allZero :: "bytes \<Rightarrow> bool" where
  "allZero b = list_all (\<lambda>x. x = 0) b"

text \<open>
  The subframes of an element, \<open>n\<close> of them to go. A failure drops what the element has appended, which is what both callers do with it.
\<close>

fun oob_subframes :: "bytes \<Rightarrow> u32 \<Rightarrow> u32 \<Rightarrow> nat \<Rightarrow> nat \<Rightarrow> nat \<Rightarrow> (latm_error, access_unit list \<times> nat) go" where
  "oob_subframes payload ticks base 0 i offset = ok ([], offset)"
| "oob_subframes payload ticks base (Suc n) i offset =
     go_bind (readMuxSlot payload offset) (\<lambda>(data, offset).
     go_bind (oob_subframes payload ticks base n (i + 1) offset) (\<lambda>(aus, offset).
       ok (\<lparr>AU_Data = data, RTPOffset = base + word_of_nat i * ticks\<rparr> # aus, offset)))"

function oob_elements :: "bytes \<Rightarrow> u32 \<Rightarrow> nat \<Rightarrow> nat \<Rightarrow> nat \<Rightarrow> u32 \<Rightarrow> (latm_error, access_unit list) go" where
  "oob_elements payload ticks n elem offset base =
     (if elem \<ge> MaxMuxElements then ok []
      else case oob_subframes payload ticks base (n + 1) 0 offset of
          None \<Rightarrow> panic
        | Some (Inl e) \<Rightarrow> (if elem = 0 then err e else ok [])
        | Some (Inr (aus, offset)) \<Rightarrow>
            if offset \<ge> length payload then ok aus
            else do {
              rest \<leftarrow> slice payload offset (length payload);
              if allZero rest then ok aus
              else go_bind (oob_elements payload ticks n (elem + 1) offset (base + word_of_nat (n + 1) * ticks)) (\<lambda>more. ok (aus @ more)) })"
  by pat_completeness auto
termination
  by (relation "measure (\<lambda>(payload, ticks, n, elem, offset, base). MaxMuxElements - elem)") auto

declare oob_elements.simps [simp del]

function bit_length :: "bytes \<Rightarrow> nat \<Rightarrow> nat \<Rightarrow> (latm_error, nat \<times> nat) go" where
  "bit_length buf pos len =
     go_bind (rd buf pos 8) (\<lambda>(b, pos1).
       let len = len + b in
       if len > MaxMuxSlotBytes then err ErrPayloadOverflow
       else if b \<noteq> 0xFF then ok (len, pos1)
       else bit_length buf pos1 len)"
  by pat_completeness auto
termination
  by (relation "measure (\<lambda>(buf, pos, len). 8 * length buf - pos)") (auto dest!: rd_advances)

declare bit_length.simps [simp del]

fun inband_subframes :: "bytes \<Rightarrow> u32 \<Rightarrow> u32 \<Rightarrow> nat \<Rightarrow> nat \<Rightarrow> nat \<Rightarrow> (latm_error, access_unit list \<times> nat) go" where
  "inband_subframes buf ticks base 0 i pos = ok ([], pos)"
| "inband_subframes buf ticks base (Suc n) i pos =
     go_bind (bit_length buf pos 0) (\<lambda>(len, pos).
     if pos + len * 8 > length buf * 8 then err ErrPayloadOverflow
     else do {
       data \<leftarrow> appendBits [] buf pos (len * 8);
       go_bind (inband_subframes buf ticks base n (i + 1) (pos + len * 8)) (\<lambda>(aus, pos).
         ok (\<lparr>AU_Data = data, RTPOffset = base + word_of_nat i * ticks\<rparr> # aus, pos)) })"

text \<open>The configuration an element announces or reuses, and then its access units, its span and the position behind it.\<close>

definition inband_config :: "latm \<Rightarrow> bytes \<Rightarrow> nat \<Rightarrow> (latm_error, latm \<times> nat) go" where
  "inband_config d buf pos =
     go_bind (rd buf pos 1) (\<lambda>(useSameStreamMux, pos).
       if useSameStreamMux = 0 then go_bind (parseStreamMuxConfigBits buf pos) (\<lambda>(r, pos). ok (install d r, pos))
       else if \<not> haveSMC d then err ErrNoConfig
       else ok (d, pos))"

definition depacketizeInBandElement :: "latm \<Rightarrow> bytes \<Rightarrow> nat \<Rightarrow> u32 \<Rightarrow> (latm_error, access_unit list \<times> u32 \<times> nat) go \<times> latm" where
  "depacketizeInBandElement d buf pos base =
     (case inband_config d buf pos of
        None \<Rightarrow> (panic, d)
      | Some (Inl e) \<Rightarrow> (err e, d)
      | Some (Inr (d, pos)) \<Rightarrow>
          (go_bind (subFrameLayout d) (\<lambda>ticks.
             go_bind (inband_subframes buf ticks base (numSubFrames (smc d) + 1) 0 pos) (\<lambda>(aus, pos).
               ok (aus, word_of_nat (numSubFrames (smc d) + 1) * ticks, byteAlign pos))), d))"

function inband_elements :: "latm \<Rightarrow> bytes \<Rightarrow> nat \<Rightarrow> nat \<Rightarrow> u32 \<Rightarrow> (latm_error, access_unit list) go \<times> latm" where
  "inband_elements d payload elem pos base =
     (if elem \<ge> MaxMuxElements then (ok [], d)
      else case depacketizeInBandElement d payload pos base of
          (None, d) \<Rightarrow> (panic, d)
        | (Some (Inl e), d) \<Rightarrow> (if elem = 0 then err e else ok [], d)
        | (Some (Inr (aus, span, pos)), d) \<Rightarrow>
            if pos \<ge> length payload * 8 then (ok aus, d)
            else (case slice payload (pos div 8) (length payload) of
                None \<Rightarrow> (panic, d)
              | Some rest \<Rightarrow>
                  if allZero rest then (ok aus, d)
                  else (case inband_elements d payload (elem + 1) pos (base + span) of
                      (r, d) \<Rightarrow> (go_bind r (\<lambda>more. ok (aus @ more)), d))))"
  by pat_completeness auto
termination
  by (relation "measure (\<lambda>(d, payload, elem, pos, base). MaxMuxElements - elem)") auto

declare inband_elements.simps [simp del]

definition depacketizeInBand :: "latm \<Rightarrow> bytes \<Rightarrow> (latm_error, access_unit list) go \<times> latm" where
  "depacketizeInBand d payload = inband_elements d payload 0 0 0"

definition latm_Depacketize :: "latm \<Rightarrow> bytes \<Rightarrow> (latm_error, access_unit list) go \<times> latm" where
  "latm_Depacketize d payload =
     (if MuxConfigPresent (latm_cfg d) then depacketizeInBand d payload
      else if \<not> haveSMC d then (err ErrNoConfig, d)
      else (go_bind (subFrameLayout d) (\<lambda>ticks. oob_elements payload ticks (numSubFrames (smc d)) 0 0 0), d))"

section \<open>The bit reader and the bit copy\<close>

lemma rd_field: "pos + n \<le> 8 * length buf \<Longrightarrow> n \<le> 32 \<Longrightarrow> rd buf pos n = ok (bits_nat (take n (drop pos (bits_of buf))), pos + n)"
  using readBits_field [of pos n buf]
  by (auto simp: rd_def latm_read_def aac_readBits_def Let_def go_simps split: option.splits if_splits)

lemma rd_short: "0 < n \<Longrightarrow> 8 * length buf < pos + n \<Longrightarrow> rd buf pos n = err LATMErrTruncated"
  by (simp add: rd_def latm_read_def)

lemma rd_no_panic: "n \<le> 32 \<Longrightarrow> rd buf pos n \<noteq> None"
  using rd_field [of pos n buf] rd_short [of n buf pos] by (cases "n = 0"; cases "pos + n \<le> 8 * length buf") (auto simp: rd_def latm_read_def)

lemma rd_bits:
  assumes "bits_of buf = pre @ fld @ suf" "length fld \<le> 32"
  shows "rd buf (length pre) (length fld) = ok (bits_nat fld, length pre + length fld)"
proof -
  have "8 * length buf = length pre + length fld + length suf" using assms(1) by (metis add.assoc length_append length_bits_of)
  then show ?thesis using rd_field [of "length pre" "length fld" buf] assms by simp
qed

lemma rd_less: "rd buf pos n = ok (v, pos') \<Longrightarrow> 0 < n \<Longrightarrow> n \<le> 32 \<Longrightarrow> v < 2 ^ n"
  using rd_field [of pos n buf] rd_advances [of buf pos n v pos'] bits_nat_less [of "take n (drop pos (bits_of buf))"] by auto

lemma nth_bits_of: "k < 8 * length bs \<Longrightarrow> bits_of bs ! k \<longleftrightarrow> bit (bs ! (k div 8)) (7 - k mod 8)"
proof (induction bs arbitrary: k)
  case (Cons b bs)
  show ?case
  proof (cases "k < 8")
    case True
    then show ?thesis by (simp add: nth_append byte_bits_def rev_nth)
  next
    case False
    then obtain m where "k = m + 8" by (metis add.commute le_Suc_ex not_le)
    then show ?thesis using Cons.IH [of m] Cons.prems by (simp add: nth_append div_add_self2)
  qed
qed simp

lemma div8: "m < 8 \<Longrightarrow> (8 * a + m) div 8 = a" "m < 8 \<Longrightarrow> (8 * a + m) mod 8 = (m :: nat)"
  by auto

lemma ceil8: "(n + 7) div 8 = (if n mod 8 = 0 then n div 8 else n div 8 + 1)" for n :: nat
proof -
  define q r where "q = n div 8" and "r = n mod 8"
  have n: "n = 8 * q + r" "r < 8" by (simp_all add: q_def r_def)
  show ?thesis
  proof (cases "r = 0")
    case True
    then show ?thesis using n div8(1) [of 7 q] by simp
  next
    case False
    then have e: "n + 7 = 8 * (q + 1) + (r - 1)" using n by simp
    have "(n + 7) div 8 = q + 1" unfolding e by (rule div8) (use n in linarith)
    then show ?thesis using False unfolding q_def r_def by simp
  qed
qed

lemma blit_loop_nth:
  assumes "sb + j + k \<le> length buf"
  shows "\<exists>bs. blit_loop buf sb shift k j = Some bs \<and> length bs = k
    \<and> (\<forall>i<k. bs ! i = push_bit shift (buf ! (sb + j + i))
         OR (if sb + j + i + 1 < length buf then drop_bit (8 - shift) (buf ! (sb + j + i + 1)) else 0))"
  using assms
proof (induction k arbitrary: j)
  case (Suc k)
  from Suc.IH [of "j + 1"] Suc.prems obtain bs where bs: "blit_loop buf sb shift k (j + 1) = Some bs" "length bs = k"
    "\<And>i. i < k \<Longrightarrow> bs ! i = push_bit shift (buf ! (sb + (j + 1) + i))
         OR (if sb + (j + 1) + i + 1 < length buf then drop_bit (8 - shift) (buf ! (sb + (j + 1) + i + 1)) else 0)"
    by auto
  show ?case using Suc.prems bs by (auto simp: nth_Cons split: nat.split)
qed simp

lemma blit_byte_bit:
  fixes x y :: byte
  assumes "0 < s" "s < 8" "m < 8"
  shows "bit (push_bit s x OR drop_bit (8 - s) y) (7 - m) \<longleftrightarrow> (if m + s < 8 then bit x (7 - (m + s)) else bit y (15 - (m + s)))"
proof -
  have y: "\<not> bit y n" if "8 \<le> n" for n using bit_imp_le_length [of y n] that by auto
  have hi: "bit (push_bit s x) (7 - m) \<longleftrightarrow> m + s < 8 \<and> bit x (7 - (m + s))" using assms by (auto simp: bit_simps)
  have "8 - s + (7 - m) = 15 - (m + s)" using assms by simp
  then have lo: "bit (drop_bit (8 - s) y) (7 - m) \<longleftrightarrow> \<not> m + s < 8 \<and> bit y (15 - (m + s))" using y [of "15 - (m + s)"] by (cases "m + s < 8") (simp_all add: bit_drop_bit_eq)
  show ?thesis unfolding bit_or_iff hi lo by auto
qed


lemma last_byte_kept:
  assumes "m < 8" "0 < r"
  shows "bit (NOT (drop_bit r 0xFF) :: byte) (7 - m) \<longleftrightarrow> m < r"
proof -
  have "(0xFF :: byte) = Bit_Operations.mask 8" by (simp add: mask_eq_exp_minus_1)
  then have ff: "bit (0xFF :: byte) n \<longleftrightarrow> n < 8" for n by (simp only: bit_mask_iff) simp
  have "bit (NOT (drop_bit r F)) (7 - m) \<longleftrightarrow> m < r" if "\<And>n. bit F n \<longleftrightarrow> n < 8" for F :: byte
    using assms by (auto simp: bit_not_iff bit_drop_bit_eq that)
  from this [OF ff] show ?thesis .
qed

definition pad_bits :: "nat \<Rightarrow> bool list \<Rightarrow> bool list" where
  "pad_bits n bs = bs @ replicate (8 * ((n + 7) div 8) - n) False"

lemma blitBits_field:
  assumes "start + n \<le> 8 * length buf"
  shows "\<exists>bs. blitBits buf start n = Some bs \<and> length bs = (n + 7) div 8 \<and> bits_of bs = pad_bits n (take n (drop start (bits_of buf)))"
proof (cases "n = 0")
  case True
  then show ?thesis by (simp add: blitBits_def pad_bits_def)
next
  case False
  define sb s size where "sb = start div 8" and "s = start mod 8" and "size = (n + 7) div 8"
  have start: "start = 8 * sb + s" "s < 8" by (simp_all add: sb_def s_def)
  have size: "8 * size \<ge> n" "8 * size < n + 8" "0 < size" using False by (auto simp: size_def)
  have fit: "sb + size \<le> length buf" using assms start size by linarith
  obtain dst where dst: "(if s = 0 then slice buf sb (sb + size) else blit_loop buf sb s size 0) = Some dst" "length dst = size"
    "\<And>i m. i < size \<Longrightarrow> m < 8 \<Longrightarrow> 8 * i + m < n \<Longrightarrow> bit (dst ! i) (7 - m) \<longleftrightarrow> bits_of buf ! (start + (8 * i + m))"
  proof (cases "s = 0")
    case True
    have "bits_of buf ! (start + (8 * i + m)) \<longleftrightarrow> bit (take size (drop sb buf) ! i) (7 - m)" if "i < size" "m < 8" "8 * i + m < n" for i m
    proof -
      have "(start + (8 * i + m)) div 8 = sb + i" "(start + (8 * i + m)) mod 8 = m" using True start that by auto
      then show ?thesis using nth_bits_of [of "start + (8 * i + m)" buf] that assms fit by simp
    qed
    then show ?thesis using that [of "take size (drop sb buf)"] True fit by simp
  next
    case False
    obtain bs where bs: "blit_loop buf sb s size 0 = Some bs" "length bs = size"
      "\<And>i. i < size \<Longrightarrow> bs ! i = push_bit s (buf ! (sb + i)) OR (if sb + i + 1 < length buf then drop_bit (8 - s) (buf ! (sb + i + 1)) else 0)"
      using blit_loop_nth [of sb 0 size buf s] fit by auto
    have "bit (bs ! i) (7 - m) \<longleftrightarrow> bits_of buf ! (start + (8 * i + m))" if "i < size" "m < 8" "8 * i + m < n" for i m
    proof -
      have src: "bits_of buf ! (start + (8 * i + m)) \<longleftrightarrow> bit (buf ! ((start + (8 * i + m)) div 8)) (7 - (start + (8 * i + m)) mod 8)"
        using that assms by (intro nth_bits_of) linarith
      have split: "start + (8 * i + m) = 8 * (sb + i) + (m + s)" using start by simp
      show ?thesis
      proof (cases "m + s < 8")
        case True
        then have "(start + (8 * i + m)) div 8 = sb + i" "(start + (8 * i + m)) mod 8 = m + s" unfolding split by (simp_all only: div8)
        then show ?thesis using src bs(3) [OF that(1)] blit_byte_bit [of s m "buf ! (sb + i)" "if sb + i + 1 < length buf then buf ! (sb + i + 1) else 0"] False start(2) that(2) True
          by (auto split: if_splits)
      next
        case high: False
        then have "start + (8 * i + m) = 8 * (sb + i + 1) + (m + s - 8)" "m + s - 8 < 8" unfolding split using start(2) that(2) by auto
        then have d: "(start + (8 * i + m)) div 8 = sb + i + 1" "(start + (8 * i + m)) mod 8 = m + s - 8"
          by (simp_all only: div8)
        have "start + (8 * i + m) < 8 * length buf" using assms that by linarith
        then have "sb + i + 1 < length buf" using d(1) less_mult_imp_div_less [of "start + (8 * i + m)" "length buf" 8] by (simp add: mult.commute)
        then show ?thesis using src d bs(3) [OF that(1)] blit_byte_bit [of s m "buf ! (sb + i)" "buf ! (sb + i + 1)"] False start(2) that(2) high by auto
      qed
    qed
    then show ?thesis using that [of bs] bs(1,2) False by simp
  qed
  define out where "out = (if n mod 8 \<noteq> 0 then dst[size - 1 := dst ! (size - 1) AND NOT (drop_bit (n mod 8) 0xFF)] else dst)"
  have run: "blitBits buf start n = Some out"
    unfolding blitBits_def Let_def sb_def [symmetric] s_def [symmetric] size_def [symmetric] dst(1)
    using False dst(2) size(3) by (simp add: out_def)
  have len: "length out = size" using dst(2) by (simp add: out_def)
  have bits: "bits_of out ! k \<longleftrightarrow> k < n \<and> bits_of buf ! (start + k)" if k: "k < 8 * size" for k
  proof -
    define i m where "i = k div 8" and "m = k mod 8"
    have im: "k = 8 * i + m" "m < 8" "i < size" using k by (auto simp: i_def m_def)
    have get: "bits_of out ! k \<longleftrightarrow> bit (out ! i) (7 - m)" using nth_bits_of [of k out] k len by (simp add: i_def m_def)
    show ?thesis
    proof (cases "i = size - 1 \<and> n mod 8 \<noteq> 0")
      case True
      have "(n + 7) div 8 = n div 8 + 1" using True ceil8 [of n] by simp
      then have "n div 8 = i" using True by (simp add: size_def)
      then have n: "n = 8 * i + n mod 8" by (metis mult_div_mod_eq)
      have "out ! i = dst ! i AND NOT (drop_bit (n mod 8) 0xFF)" using True dst(2) size(3) by (simp add: out_def)
      moreover have "bit (NOT (drop_bit (n mod 8) 0xFF) :: byte) (7 - m) \<longleftrightarrow> m < n mod 8"
        using last_byte_kept [of m "n mod 8"] im(2) True by simp
      ultimately have "bits_of out ! k \<longleftrightarrow> bit (dst ! i) (7 - m) \<and> m < n mod 8" using get by (simp add: bit_and_iff)
      then show ?thesis using dst(3) [OF im(3,2)] im(1) n by auto
    next
      case False
      then have "out ! i = dst ! i" by (auto simp: out_def)
      moreover have "k < n"
      proof (cases "n mod 8 = 0")
        case True
        then have "8 * size = n" using ceil8 [of n] by (auto simp: size_def)
        then show ?thesis using k by simp
      next
        case False
        then have "i < size - 1" using \<open>\<not> (i = size - 1 \<and> n mod 8 \<noteq> 0)\<close> im(3) by simp
        then show ?thesis using im(1,2) size(2) by linarith
      qed
      ultimately show ?thesis using get dst(3) [OF im(3,2)] im(1) by simp
    qed
  qed
  have "bits_of out = pad_bits n (take n (drop start (bits_of buf)))"
  proof (rule nth_equalityI)
    show lens: "length (bits_of out) = length (pad_bits n (take n (drop start (bits_of buf))))"
      using assms len size(1) by (simp add: pad_bits_def size_def)
    fix k assume "k < length (bits_of out)"
    then have "k < 8 * size" using len by simp
    then show "bits_of out ! k = pad_bits n (take n (drop start (bits_of buf))) ! k"
      using bits [of k] assms by (auto simp: pad_bits_def nth_append size_def)
  qed
  then show ?thesis using run len by (simp add: size_def)
qed

section \<open>Robustness\<close>

lemma rd_sat [sat_simps]: "0 < n \<Longrightarrow> n \<le> 32 \<Longrightarrow>
    go_sat Q (rd buf pos n) \<longleftrightarrow> (pos + n \<le> 8 * length buf \<longrightarrow> Q (bits_nat (take n (drop pos (bits_of buf))), pos + n))"
  by (cases "pos + n \<le> 8 * length buf") (simp_all add: rd_field rd_short)

lemma rd_wp [sat_intros]:
  assumes "\<And>v. v < 2 ^ n \<Longrightarrow> pos + n \<le> 8 * length buf \<Longrightarrow> Q (v, pos + n)" "0 < n" "n \<le> 32"
  shows "go_sat Q (rd buf pos n)"
proof -
  have "bits_nat (take n (drop pos (bits_of buf))) < 2 ^ n" if "pos + n \<le> 8 * length buf"
    using bits_nat_less [of "take n (drop pos (bits_of buf))"] that by simp
  then show ?thesis using assms by (simp add: rd_sat)
qed

lemma blit_length: "start + n \<le> 8 * length buf \<Longrightarrow> \<exists>bs. blitBits buf start n = Some bs \<and> length bs = (n + 7) div 8"
  using blitBits_field by blast

lemma extract_sat:
  assumes "start + n \<le> 8 * length buf" "n \<le> 64" "\<And>asc. length asc \<le> 8 \<Longrightarrow> Q ((asc, fl), pos)"
  shows "go_sat Q (case extractBitsInto buf start n of None \<Rightarrow> panic | Some asc \<Rightarrow> ok ((asc, fl), pos))"
  using blit_length [of start n buf] assms by (auto simp: extractBitsInto_def)

lemma parseASC_wp:
  assumes "\<And>asc fl pos. start < pos \<Longrightarrow> pos \<le> 8 * length buf \<Longrightarrow> length asc \<le> 8 \<Longrightarrow> Q ((asc, fl), pos)"
  shows "go_sat Q (parseASC buf start)"
  unfolding parseASC_def by (auto intro!: sat_intros extract_sat assms)

lemma other_data_wp:
  assumes "\<And>pos'. pos < pos' \<Longrightarrow> pos' \<le> 8 * length buf \<Longrightarrow> Q pos'"
  shows "go_sat Q (other_data buf pos)"
  using assms
proof (induction buf pos rule: other_data.induct)
  case (1 buf pos)
  show ?case
  proof (cases "pos + 9 \<le> 8 * length buf")
    case True
    then have "go_sat Q (other_data buf (9 + pos))" if "bits_nat (take 1 (drop pos (bits_of buf))) \<noteq> 0"
      using "1.IH" [of "(_, pos + 1)" _ "pos + 1" "(_, pos + 9)" _ "pos + 9"] "1.prems" that by (simp add: rd_field add.commute)
    then show ?thesis using True "1.prems" by (subst other_data.simps) (auto simp: rd_field)
  next
    case False
    then show ?thesis by (subst other_data.simps) (auto simp: sat_simps)
  qed
qed

lemma parseStreamMuxConfigBits_wp:
  assumes "\<And>c asc fl pos'. pos < pos' \<Longrightarrow> pos' \<le> 8 * length buf \<Longrightarrow> numSubFrames c < 64 \<Longrightarrow> length asc \<le> 8 \<Longrightarrow> Q ((c, asc, fl), pos')"
  shows "go_sat Q (parseStreamMuxConfigBits buf pos)"
  unfolding parseStreamMuxConfigBits_def by (auto intro!: sat_intros parseASC_wp other_data_wp assms simp: caps)

lemma parseStreamMuxConfig_wp:
  assumes "\<And>c asc fl. numSubFrames c < 64 \<Longrightarrow> length asc \<le> 8 \<Longrightarrow> Q (c, asc, fl)"
  shows "go_sat Q (parseStreamMuxConfig buf)"
  unfolding parseStreamMuxConfig_def by (auto intro!: sat_intros parseStreamMuxConfigBits_wp assms)

definition latm_inv :: "latm \<Rightarrow> bool" where
  "latm_inv d \<longleftrightarrow> numSubFrames (smc d) < 64 \<and> length (latm_asc d) \<le> 8 \<and> (MuxConfigPresent (latm_cfg d) \<or> haveSMC d)"

lemma install_inv: "latm_inv (d\<lparr>haveSMC := True\<rparr>) \<Longrightarrow> numSubFrames c < 64 \<Longrightarrow> length asc \<le> 8 \<Longrightarrow> latm_inv (install d (c, asc, fl))"
  by (simp add: latm_inv_def install_def)

lemma applySeed_total:
  assumes "latm_inv d"
  shows "\<exists>d'. applySeed d = Some d' \<and> latm_inv d' \<and> latm_cfg d' = latm_cfg d"
proof -
  have "go_sat (\<lambda>(c, asc, fl). numSubFrames c < 64 \<and> length asc \<le> 8) (parseStreamMuxConfig (StreamMuxConfig (latm_cfg d)))"
    by (rule parseStreamMuxConfig_wp) simp
  then show ?thesis using assms
    by (auto simp: applySeed_def go_sat_def install_def latm_inv_def split: option.splits sum.splits)
qed

lemma latm_Reset_total: "latm_inv d \<Longrightarrow> \<exists>d'. latm_Reset d = Some d' \<and> latm_inv d' \<and> latm_cfg d' = latm_cfg d"
  using applySeed_total [of "d\<lparr>haveSMC := False, smc := smc0, latm_asc := [], frameLength := 0\<rparr>"]
  by (auto simp: latm_Reset_def latm_inv_def smc0_def)

lemma latm_New_sat: "go_sat (\<lambda>d. latm_inv d \<and> latm_cfg d = c) (latm_New c)"
proof -
  let ?d = "\<lparr>latm_cfg = c, smc = smc0, haveSMC = False, latm_asc = [], frameLength = 0\<rparr>"
  have "\<exists>d'. applySeed ?d = Some d' \<and> latm_inv d' \<and> latm_cfg d' = c" if "MuxConfigPresent c"
    using applySeed_total [of ?d] that by (simp add: latm_inv_def smc0_def)
  then show ?thesis unfolding latm_New_def Let_def
    by (auto intro!: sat_intros parseStreamMuxConfig_wp simp: latm_inv_def smc0_def install_def)
qed

lemma mux_length_wp:
  assumes "\<And>len' off. offset < off \<Longrightarrow> off \<le> length payload \<Longrightarrow> len' \<le> MaxMuxSlotBytes \<Longrightarrow> Q (len', off)"
  shows "go_sat Q (mux_length payload offset len)"
  using assms
proof (induction payload offset len rule: mux_length.induct)
  case (1 payload offset len)
  have "go_sat Q (mux_length payload (Suc offset) (len + 255))"
    if "offset < length payload" "payload ! offset = 255" "len + 255 \<le> MaxMuxSlotBytes"
    using "1.IH" [of 255 "len + 255"] "1.prems" that by auto
  then show ?case using "1.prems" by (subst mux_length.simps) (auto simp: Let_def)
qed

lemma readMuxSlot_wp [sat_intros]:
  assumes "\<And>data off. offset < off \<Longrightarrow> off \<le> length payload \<Longrightarrow> Q (data, off)"
  shows "go_sat Q (readMuxSlot payload offset)"
  unfolding readMuxSlot_def by (auto intro!: sat_intros mux_length_wp assms)

lemma oob_subframes_sat: "go_sat (\<lambda>(aus, off). offset \<le> off \<and> off \<le> max offset (length payload) \<and> length aus = n) (oob_subframes payload ticks base n i offset)"
proof (induction n arbitrary: i offset)
  case (Suc n)
  show ?case by (auto intro!: sat_intros go_sat_mono [OF Suc.IH] simp: max_def)
qed simp

lemma oob_elements_sat: "go_sat (\<lambda>_. True) (oob_elements payload ticks n elem offset base)"
proof (induction payload ticks n elem offset base rule: oob_elements.induct)
  case (1 payload ticks n elem offset base)
  consider "elem \<ge> MaxMuxElements" | e where "oob_subframes payload ticks base (n + 1) 0 offset = err e"
    | aus off where "oob_subframes payload ticks base (n + 1) 0 offset = ok (aus, off)"
    using oob_subframes_sat [of offset payload "n + 1" ticks base 0]
    by (cases "oob_subframes payload ticks base (n + 1) 0 offset" rule: go_cases) (auto simp del: oob_subframes.simps)
  then show ?case
  proof cases
    case (3 aus off)
    show ?thesis using "1.IH" [of "Inr (aus, off)" "(aus, off)" aus off "drop off payload"] 3
      by (cases "elem \<ge> MaxMuxElements"; subst oob_elements.simps) (auto intro!: sat_intros elim: go_sat_mono)
  qed (subst oob_elements.simps, simp)+
qed

lemma bit_length_wp:
  assumes "\<And>len' p. pos < p \<Longrightarrow> p \<le> 8 * length buf \<Longrightarrow> len' \<le> MaxMuxSlotBytes \<Longrightarrow> Q (len', p)"
  shows "go_sat Q (bit_length buf pos len)"
  using assms
proof (induction buf pos len rule: bit_length.induct)
  case (1 buf pos len)
  show ?case
  proof (cases "pos + 8 \<le> 8 * length buf")
    case True
    then show ?thesis using "1.prems" by (subst bit_length.simps) (auto simp: rd_field Let_def intro!: "1.IH")
  next
    case False
    then show ?thesis by (subst bit_length.simps) (auto simp: sat_simps)
  qed
qed

lemma inband_subframes_sat:
  "pos \<le> 8 * length buf \<Longrightarrow> go_sat (\<lambda>(aus, p). pos \<le> p \<and> p \<le> 8 * length buf \<and> length aus = n) (inband_subframes buf ticks base n i pos)"
proof (induction n arbitrary: i pos)
  case (Suc n)
  have "\<exists>bs. appendBits [] buf p (len * 8) = Some bs" if "p + len * 8 \<le> length buf * 8" for p len
    using blit_length [of p "len * 8" buf] that by (auto simp: appendBits_def)
  then have "go_sat (\<lambda>(aus, p). pos \<le> p \<and> p \<le> 8 * length buf \<and> length aus = Suc n) (do {
      data \<leftarrow> appendBits [] buf p (len * 8);
      go_bind (inband_subframes buf ticks base n (i + 1) (p + len * 8)) (\<lambda>(aus, pos).
        ok (\<lparr>AU_Data = data, RTPOffset = base + word_of_nat i * ticks\<rparr> # aus, pos)) })" if "pos < p" "p + len * 8 \<le> length buf * 8" for p len
    using that Suc.IH [of "p + len * 8" "i + 1"] by (fastforce simp: sat_simps elim: go_sat_mono)
  then show ?case by (auto intro!: sat_intros bit_length_wp)
qed simp


lemma inband_config_sat:
  assumes "latm_inv d"
  shows "go_sat (\<lambda>(d', p). latm_inv d' \<and> latm_cfg d' = latm_cfg d \<and> pos < p \<and> p \<le> 8 * length buf) (inband_config d buf pos)"
  unfolding inband_config_def using assms
  by (auto intro!: sat_intros parseStreamMuxConfigBits_wp simp: latm_inv_def install_def)

lemma byteAlign_mod: "byteAlign p = 8 * ((p + 7) div 8)"
proof -
  have p: "8 * (p div 8) + p mod 8 = p" by simp
  show ?thesis unfolding byteAlign_def Let_def ceil8 by (cases "p mod 8 = 0") (use p in \<open>simp_all, linarith?\<close>)
qed

lemma byteAlign_bound: "p \<le> 8 * n \<Longrightarrow> byteAlign p \<le> 8 * n \<and> p \<le> byteAlign p \<and> byteAlign p mod 8 = 0"
  unfolding byteAlign_mod by auto

lemma subFrameLayout_ok: "latm_inv d \<Longrightarrow> \<exists>t. subFrameLayout d = ok t"
  by (simp add: subFrameLayout_def latm_inv_def caps Let_def)

lemma element_sat:
  assumes "latm_inv d"
  shows "go_sat (\<lambda>(aus, span, p). p \<le> 8 * length buf \<and> pos < p \<and> p mod 8 = 0) (fst (depacketizeInBandElement d buf pos base))
    \<and> latm_inv (snd (depacketizeInBandElement d buf pos base)) \<and> latm_cfg (snd (depacketizeInBandElement d buf pos base)) = latm_cfg d"
proof (cases "inband_config d buf pos" rule: go_cases)
  case (Ok x)
  obtain d' p where x: "x = (d', p)" by (cases x)
  have d': "latm_inv d'" "latm_cfg d' = latm_cfg d" "pos < p" "p \<le> 8 * length buf"
    using inband_config_sat [OF assms, of pos buf] Ok x by auto
  obtain t where t: "subFrameLayout d' = ok t" using subFrameLayout_ok [OF d'(1)] by blast
  have "go_sat (\<lambda>(aus, span, p). p \<le> 8 * length buf \<and> pos < p \<and> p mod 8 = 0)
     (go_bind (inband_subframes buf t base (numSubFrames (smc d') + 1) 0 p) (\<lambda>(aus, p).
        ok (aus, word_of_nat (numSubFrames (smc d') + 1) * t, byteAlign p)))"
    unfolding go_sat_bind
    by (rule go_sat_mono [OF inband_subframes_sat [OF d'(4)]]) (use d'(3) byteAlign_bound [of _ "length buf"] in fastforce)
  then show ?thesis using Ok x d' t by (simp add: depacketizeInBandElement_def del: inband_subframes.simps)
qed (use inband_config_sat [OF assms, of pos buf] assms in \<open>auto simp: depacketizeInBandElement_def\<close>)

lemma inband_elements_sat:
  "latm_inv d \<Longrightarrow> fst (inband_elements d payload elem pos base) \<noteq> None
    \<and> latm_inv (snd (inband_elements d payload elem pos base)) \<and> latm_cfg (snd (inband_elements d payload elem pos base)) = latm_cfg d"
proof (induction d payload elem pos base rule: inband_elements.induct)
  case (1 d payload elem pos base)
  obtain r d' where r: "depacketizeInBandElement d payload pos base = (r, d')" by fastforce
  note E = element_sat [OF "1.prems", of payload pos base, unfolded r fst_conv snd_conv]
  show ?case
  proof (cases "elem \<ge> MaxMuxElements")
    case False
    note elem = False
    show ?thesis
    proof (cases r rule: go_cases)
      case (Ok x)
      obtain aus span p where x: "x = (aus, span, p)" by (cases x)
      have p: "p \<le> 8 * length payload" using E Ok x by simp
      show ?thesis
      proof (cases "p \<ge> length payload * 8 \<or> allZero (drop (p div 8) payload)")
        case True
        then show ?thesis using elem r Ok x E p by (subst (1 2 3) inband_elements.simps) auto
      next
        case False
        have "fst (inband_elements d' payload (elem + 1) p (base + span)) \<noteq> None
          \<and> latm_inv (snd (inband_elements d' payload (elem + 1) p (base + span)))
          \<and> latm_cfg (snd (inband_elements d' payload (elem + 1) p (base + span))) = latm_cfg d'"
          using "1.IH" [of r d' "Inr (aus, span, p)" "(aus, span, p)" aus "(span, p)" span p "drop (p div 8) payload"] elem r Ok x False p E by auto
        moreover have "inband_elements d payload elem pos base = (case inband_elements d' payload (elem + 1) p (base + span) of
            (r, d) \<Rightarrow> (go_bind r (\<lambda>more. ok (aus @ more)), d))"
          using elem r Ok x p False by (subst inband_elements.simps) auto
        ultimately show ?thesis using E by (auto simp: split_def go_bind_None_iff)
      qed
    qed (use elem r E in \<open>auto simp: inband_elements.simps\<close>)
  qed (use "1.prems" in \<open>auto simp: inband_elements.simps\<close>)
qed

text \<open>What the pipeline does with a depacketizer: hand it a payload, or reset it when the source changes.\<close>

fun latm_step :: "latm \<Rightarrow> bytes depacket_event \<Rightarrow> (latm_error, access_unit list) go \<times> latm" where
  "latm_step d (Arrive payload) = latm_Depacketize d payload"
| "latm_step d Discontinuity = (case latm_Reset d of None \<Rightarrow> (panic, d) | Some d' \<Rightarrow> (ok [], d'))"

lemma latm_Depacketize_ok:
  assumes "latm_inv d"
  shows "fst (latm_Depacketize d payload) \<noteq> None \<and> latm_inv (snd (latm_Depacketize d payload)) \<and> latm_cfg (snd (latm_Depacketize d payload)) = latm_cfg d"
proof -
  obtain t where "subFrameLayout d = ok t" using subFrameLayout_ok [OF assms] by blast
  then show ?thesis
    using assms inband_elements_sat [OF assms, of payload 0 0 0] go_satD(1) [OF oob_elements_sat, of payload t "numSubFrames (smc d)" 0 0 0]
    by (auto simp: latm_Depacketize_def depacketizeInBand_def iff del: not_None_eq)
qed

interpretation latm: invariant_machine latm_step latm_inv "\<lambda>out. out \<noteq> None"
proof
  fix d ev assume inv: "latm_inv d"
  show "latm_inv (snd (latm_step d ev))" "fst (latm_step d ev) \<noteq> None"
    using latm_Depacketize_ok [OF inv] latm_Reset_total [OF inv] by (cases ev; force)+
qed


section \<open>What a sender writes\<close>

definition nat_bits :: "nat \<Rightarrow> nat \<Rightarrow> bool list" where
  "nat_bits k v = map (bit v) (rev [0..<k])"

lemma nat_bits_simps [simp]: "length (nat_bits k v) = k" "v < 2 ^ k \<Longrightarrow> bits_nat (nat_bits k v) = v"
  by (simp_all add: nat_bits_def bits_nat_take_bit take_bit_nat_eq_self)

lemma bits_nat_inj: "length xs = length ys \<Longrightarrow> bits_nat xs = bits_nat ys \<Longrightarrow> xs = ys"
proof (induction xs arbitrary: ys rule: rev_induct)
  case (snoc x xs)
  then obtain y ys' where ys: "ys = ys' @ [y]" by (metis length_0_conv rev_exhaust snoc_eq_iff_butlast)
  then have "bits_nat xs = bits_nat ys' \<and> x = y" using snoc.prems(2) by (cases x; cases y) (auto, presburger+)
  then show ?case using snoc ys by simp
qed simp

lemma byte_bits_of_nat: "length bs = 8 \<Longrightarrow> byte_bits (word_of_nat (bits_nat bs)) = bs"
proof (rule bits_nat_inj)
  assume "length bs = 8"
  then have "bits_nat bs < 2 ^ 8" using bits_nat_less [of bs] by simp
  then show "bits_nat (byte_bits (word_of_nat (bits_nat bs))) = bits_nat bs" by (simp add: unat_bits unat_word_of_nat_small)
qed simp

lemma bits_of_inj: "bits_of xs = bits_of ys \<Longrightarrow> xs = ys"
proof (induction xs arbitrary: ys)
  case (Cons x xs)
  obtain y ys' where ys: "ys = y # ys'" using Cons.prems by (cases ys) (auto dest: arg_cong [of _ _ length])
  then have "byte_bits x = byte_bits y" "bits_of xs = bits_of ys'" using Cons.prems by simp_all
  then show ?case using Cons.IH ys by (metis unat_bits unsigned_word_eqI)
qed (auto dest: arg_cong [of _ _ length])

text \<open>Bits packed into bytes, the last one filled up with zeros.\<close>

function pack :: "bool list \<Rightarrow> bytes" where
  "pack bs = (if bs = [] then [] else word_of_nat (bits_nat (take 8 bs @ replicate (8 - length bs) False)) # pack (drop 8 bs))"
  by pat_completeness auto
termination
  by (relation "measure length") auto

declare pack.simps [simp del]

lemma pack_bits: "bits_of (pack bs) = pad_bits (length bs) bs"
proof (induction bs rule: pack.induct)
  case (1 bs)
  show ?case
  proof (cases "length bs \<le> 8")
    case True
    then have "bits_of (pack bs) = bs @ replicate (8 - length bs) False" if "bs \<noteq> []"
      using that by (subst pack.simps) (simp add: byte_bits_of_nat pack.simps [of "[]"])
    moreover have "(length bs + 7) div 8 = 1" if "bs \<noteq> []" using True that by (cases bs) auto
    ultimately show ?thesis by (cases "bs = []") (simp_all add: pad_bits_def pack.simps [of "[]"])
  next
    case False
    then have "bits_of (pack bs) = take 8 bs @ pad_bits (length bs - 8) (drop 8 bs)"
      using "1.IH" by (subst pack.simps) (auto simp: byte_bits_of_nat)
    moreover have "(length bs + 7) div 8 = (length bs - 8 + 7) div 8 + 1"
      using False div_add_self2 [of 8 "length bs - 8 + 7"] by simp
    ultimately show ?thesis using False append_take_drop_id [of 8 bs] by (simp add: pad_bits_def add.commute flip: append_assoc)
  qed
qed

lemma pack_length: "length (pack bs) = (length bs + 7) div 8"
  using arg_cong [OF pack_bits, of length] by (simp add: pad_bits_def)

lemma blit_pack: "start + n \<le> 8 * length buf \<Longrightarrow> blitBits buf start n = Some (pack (take n (drop start (bits_of buf))))"
  using blitBits_field [of start n buf] pack_bits [of "take n (drop start (bits_of buf))"] bits_of_inj by fastforce

text \<open>Reading a buffer whose bits from \<open>pos\<close> on are known.\<close>

definition at :: "bytes \<Rightarrow> nat \<Rightarrow> bool list \<Rightarrow> bool" where
  "at buf pos bs \<longleftrightarrow> pos \<le> 8 * length buf \<and> drop pos (bits_of buf) = bs"

lemma at_append: "at buf pos (xs @ ys) \<Longrightarrow> at buf (pos + length xs) ys"
proof -
  assume *: "at buf pos (xs @ ys)"
  have "drop (length xs) (drop pos (bits_of buf)) = ys" using * unfolding at_def by (metis append_eq_conv_conj)
  moreover have "length (drop pos (bits_of buf)) = length xs + length ys" using * unfolding at_def by (metis length_append)
  ultimately show ?thesis using * by (auto simp: at_def add.commute)
qed

lemma at_Cons: "at buf pos (x # ys) \<Longrightarrow> at buf (pos + 1) ys"
  using at_append [of buf pos "[x]" ys] by simp

lemma at_length: "at buf pos bs \<Longrightarrow> pos + length bs = 8 * length buf"
  by (auto simp: at_def)

lemma rd_at:
  assumes "at buf pos (fld @ rest)" "length fld = n" "n \<le> 32"
  shows "rd buf pos n = ok (bits_nat fld, pos + n)"
  using assms rd_field [of pos n buf] at_length [OF assms(1)] by (auto simp: at_def)

lemma rd_nat: "at buf pos (nat_bits n v @ rest) \<Longrightarrow> v < 2 ^ n \<Longrightarrow> n \<le> 32 \<Longrightarrow> rd buf pos n = ok (v, pos + n)"
  using rd_at [of buf pos "nat_bits n v" rest n] by simp

lemma rd_bit: "at buf pos (b # rest) \<Longrightarrow> rd buf pos 1 = ok (of_bool b, pos + 1)"
  using rd_at [of buf pos "[b]" rest 1] by simp


record asc_spec =
  as_aot :: nat
  as_sfi :: nat
  as_freq :: nat
  as_chan :: nat
  as_short :: bool
  as_core :: "nat option"

record mux_spec =
  ms_sub :: nat
  ms_asc :: asc_spec
  ms_full :: nat
  ms_other :: "nat list"
  ms_crc :: "nat option"

definition asc_bits :: "asc_spec \<Rightarrow> bool list" where
  "asc_bits a = nat_bits 5 (as_aot a) @ nat_bits 4 (as_sfi a) @ (if as_sfi a = 15 then nat_bits 24 (as_freq a) else [])
     @ nat_bits 4 (as_chan a) @ [as_short a] @ (case as_core a of None \<Rightarrow> [False] | Some n \<Rightarrow> True # nat_bits 14 n) @ [False]"

fun other_bits :: "nat list \<Rightarrow> bool list" where
  "other_bits [] = []"
| "other_bits [n] = False # nat_bits 8 n"
| "other_bits (n # ns) = True # nat_bits 8 n @ other_bits ns"

definition mux_bits :: "mux_spec \<Rightarrow> bool list" where
  "mux_bits m = [False, True] @ nat_bits 6 (ms_sub m) @ nat_bits 4 0 @ nat_bits 3 0 @ asc_bits (ms_asc m) @ nat_bits 3 0 @ nat_bits 8 (ms_full m)
     @ [ms_other m \<noteq> []] @ other_bits (ms_other m) @ [ms_crc m \<noteq> None] @ (case ms_crc m of None \<Rightarrow> [] | Some c \<Rightarrow> nat_bits 8 c)"

definition asc_ok :: "asc_spec \<Rightarrow> bool" where
  "asc_ok a \<longleftrightarrow> as_aot a \<in> {1, 2, 3, 4, 6, 7} \<and> as_sfi a < 16 \<and> as_freq a < 2 ^ 24 \<and> 0 < as_chan a \<and> as_chan a < 16
     \<and> (\<forall>n. as_core a = Some n \<longrightarrow> n < 2 ^ 14)"

definition mux_ok :: "mux_spec \<Rightarrow> bool" where
  "mux_ok m \<longleftrightarrow> ms_sub m < 64 \<and> asc_ok (ms_asc m) \<and> ms_full m < 256 \<and> list_all (\<lambda>n. n < 256) (ms_other m)
     \<and> (\<forall>c. ms_crc m = Some c \<longrightarrow> c < 256)"

definition frame_len :: "asc_spec \<Rightarrow> u32" where
  "frame_len a = (if as_short a then 960 else 1024)"

lemma extract_at: "at buf start (bs @ rest) \<Longrightarrow> extractBitsInto buf start (length bs) = Some (pack bs)"
  using blit_pack [of start "length bs" buf] at_length [of buf start "bs @ rest"] by (auto simp: extractBitsInto_def at_def)

lemma parseASC_at:
  assumes "at buf start (asc_bits a @ rest)" "asc_ok a"
  shows "parseASC buf start = ok ((pack (asc_bits a), frame_len a), start + length (asc_bits a))"
proof -
  define f c where "f = (if as_sfi a = 15 then nat_bits 24 (as_freq a) else [])"
    and "c = (case as_core a of None \<Rightarrow> [False] | Some n \<Rightarrow> True # nat_bits 14 n)"
  have bits: "asc_bits a = nat_bits 5 (as_aot a) @ nat_bits 4 (as_sfi a) @ f @ nat_bits 4 (as_chan a) @ [as_short a] @ c @ [False]"
    by (simp add: asc_bits_def f_def c_def)
  have v: "as_aot a < 2 ^ 5" "as_sfi a < 2 ^ 4" "as_chan a < 2 ^ 4" "as_aot a \<noteq> 31" "as_aot a \<in> {1, 2, 3, 4, 6, 7}" "as_chan a \<noteq> 0"
    using assms(2) by (auto simp: asc_ok_def)
  define p2 p3 p5 p6 where "p2 = start + 5 + 4" and "p3 = p2 + length f" and "p5 = p3 + 4 + 1" and "p6 = p5 + length c"
  have a0: "at buf start (nat_bits 5 (as_aot a) @ nat_bits 4 (as_sfi a) @ f @ nat_bits 4 (as_chan a) @ as_short a # c @ False # rest)"
    using assms(1) bits by simp
  then have a1: "at buf (start + 5) (nat_bits 4 (as_sfi a) @ f @ nat_bits 4 (as_chan a) @ as_short a # c @ False # rest)"
    by (auto dest: at_append)
  then have a2: "at buf p2 (f @ nat_bits 4 (as_chan a) @ as_short a # c @ False # rest)" by (auto dest: at_append simp: p2_def)
  then have a3: "at buf p3 (nat_bits 4 (as_chan a) @ as_short a # c @ False # rest)" by (auto dest: at_append simp: p3_def)
  then have a4: "at buf (p3 + 4) (as_short a # c @ False # rest)" by (auto dest: at_append)
  then have a5: "at buf p5 (c @ False # rest)" by (auto dest: at_Cons simp: p5_def)
  then have a6: "at buf p6 (False # rest)" by (auto dest: at_append simp: p6_def)
  have freq: "(if as_sfi a = 15 then go_bind (rd buf p2 24) (\<lambda>(_, pos). ok pos) else ok p2) = ok p3"
    using rd_nat [of buf p2 24 "as_freq a"] a2 assms(2) by (auto simp: f_def p3_def asc_ok_def)
  have core: "go_bind (rd buf p5 1) (\<lambda>(dep, pos). go_bind (if dep = 1 then go_bind (rd buf pos 14) (\<lambda>(_, pos). ok pos) else ok pos) k) = k p6" for k :: "nat \<Rightarrow> (latm_error, (bytes \<times> u32) \<times> nat) go"
  proof (cases "as_core a")
    case None
    then show ?thesis using rd_bit [of buf p5 False "False # rest"] a5 by (simp add: c_def p6_def)
  next
    case (Some n)
    then have "at buf (p5 + 1) (nat_bits 14 n @ False # rest)" "n < 2 ^ 14" using a5 at_Cons assms(2) by (auto simp: c_def asc_ok_def)
    then show ?thesis using Some rd_bit [of buf p5 True "nat_bits 14 n @ False # rest"] rd_nat [of buf "p5 + 1" 14 n] a5 by (simp add: c_def p6_def add.commute)
  qed
  have len: "p6 + 1 = start + length (asc_bits a)" by (simp add: bits p2_def p3_def p5_def p6_def)
  have ext: "extractBitsInto buf start (p6 + 1 - start) = Some (pack (asc_bits a))"
    using extract_at [OF assms(1)] len by simp
  show ?thesis
    unfolding parseASC_def
    using rd_nat [OF a0 v(1)] rd_nat [OF a1 v(2)] rd_nat [OF a3 v(3)] rd_bit [OF a4, folded p5_def] rd_bit [OF a6] freq core ext v(4-6) len
    by (simp add: p2_def [symmetric] p5_def [symmetric] frame_len_def)
qed


lemma other_data_at:
  "at buf pos (other_bits ns @ rest) \<Longrightarrow> ns \<noteq> [] \<Longrightarrow> list_all (\<lambda>n. n < 256) ns \<Longrightarrow> other_data buf pos = ok (pos + length (other_bits ns))"
proof (induction ns arbitrary: pos rule: other_bits.induct)
  case (2 n)
  then have "at buf pos (False # nat_bits 8 n @ rest)" "at buf (pos + 1) (nat_bits 8 n @ rest)" using at_Cons by auto
  then show ?case using rd_bit rd_nat [of buf "pos + 1" 8 n rest] "2.prems" by (subst other_data.simps) simp
next
  case (3 n m ns)
  then have a: "at buf pos (True # nat_bits 8 n @ other_bits (m # ns) @ rest)" by simp
  then have b: "at buf (pos + 1) (nat_bits 8 n @ other_bits (m # ns) @ rest)" by (rule at_Cons)
  then have c: "at buf (pos + 1 + 8) (other_bits (m # ns) @ rest)" using at_append [of buf "pos + 1" "nat_bits 8 n"] by simp
  show ?case using rd_bit [OF a] rd_nat [OF b] "3.IH" [OF c] "3.prems" by (subst other_data.simps) simp
qed simp

lemma parseStreamMuxConfigBits_at:
  assumes "at buf pos (mux_bits m @ rest)" "mux_ok m"
  shows "parseStreamMuxConfigBits buf pos = ok ((\<lparr>numSubFrames = ms_sub m, frameLengthType = 0\<rparr>, pack (asc_bits (ms_asc m)), frame_len (ms_asc m)),
    pos + length (mux_bits m))"
proof -
  define A c where "A = asc_bits (ms_asc m)" and "c = (case ms_crc m of None \<Rightarrow> [] | Some c \<Rightarrow> nat_bits 8 c)"
  define ob where "ob = other_bits (ms_other m)"
  have v: "ms_sub m < 2 ^ 6" "ms_full m < 2 ^ 8" using assms(2) by (auto simp: mux_ok_def)
  have a0: "at buf pos (False # True # nat_bits 6 (ms_sub m) @ nat_bits 4 0 @ nat_bits 3 0 @ A @ nat_bits 3 0 @ nat_bits 8 (ms_full m)
     @ (ms_other m \<noteq> []) # ob @ (ms_crc m \<noteq> None) # c @ rest)"
    using assms(1) by (simp add: mux_bits_def A_def c_def ob_def)
  note a1 = at_Cons [OF a0]
  note a2 = at_Cons [OF a1]
  note a3 = at_append [OF a2, unfolded nat_bits_simps]
  note a4 = at_append [OF a3, unfolded nat_bits_simps]
  note a5 = at_append [OF a4, unfolded nat_bits_simps]
  define q where "q = pos + 1 + 1 + 6 + 4 + 3"
  note a6 = at_append [OF a5 [folded q_def]]
  define r where "r = q + length A"
  note a7 = at_append [OF a6 [folded r_def], unfolded nat_bits_simps]
  note a8 = at_append [OF a7, unfolded nat_bits_simps]
  note a9 = at_Cons [OF a8]
  define s where "s = r + 3 + 8 + 1"
  note a10 = at_append [OF a9 [folded s_def]]
  define t where "t = s + length ob"
  note a11 = at_Cons [OF a10 [folded t_def]]
  have asc: "parseASC buf q = ok ((pack A, frame_len (ms_asc m)), r)"
    using parseASC_at [OF a5 [folded q_def, unfolded A_def]] assms(2) by (simp add: mux_ok_def A_def r_def)
  have other: "(if of_bool (ms_other m \<noteq> []) = (1 :: nat) then other_data buf s else ok s) = ok t"
    using other_data_at [of buf s "ms_other m"] a9 [folded s_def] assms(2) by (auto simp: mux_ok_def ob_def t_def)
  have crc: "(if of_bool (ms_crc m \<noteq> None) = (1 :: nat) then go_bind (rd buf (t + 1) 8) (\<lambda>(_, pos). ok pos) else ok (t + 1)) = ok (t + 1 + length c)"
  proof (cases "ms_crc m")
    case (Some x)
    then show ?thesis using rd_nat [of buf "t + 1" 8 x rest] a11 assms(2) by (simp add: c_def mux_ok_def)
  qed (simp add: c_def)
  have len: "t + 1 + length c = pos + length (mux_bits m)"
    by (simp add: mux_bits_def t_def s_def r_def q_def A_def c_def ob_def)
  show ?thesis
    unfolding parseStreamMuxConfigBits_def
    using rd_bit [OF a0] rd_bit [OF a1] rd_nat [OF a2 v(1)] rd_nat [OF a3] rd_nat [OF a4, folded q_def] asc rd_nat [OF a6 [folded r_def]]
      rd_nat [OF a7 v(2)] rd_bit [OF a8, folded s_def] other rd_bit [OF a10 [folded t_def]] crc len v(1)
    by (cases "ms_crc m") (simp_all add: caps A_def)
qed


text \<open>An access unit in its slot: the length as a sum of bytes, then the unit.\<close>

definition slot_len :: "nat \<Rightarrow> bytes" where
  "slot_len n = replicate (n div 255) 255 @ [word_of_nat (n mod 255)]"

definition mux_slot :: "bytes \<Rightarrow> bytes" where
  "mux_slot au = slot_len (length au) @ au"

lemma last_len_byte: "unat (word_of_nat (n mod 255) :: byte) = n mod 255" "(word_of_nat (n mod 255) :: byte) \<noteq> 255"
proof -
  show u: "unat (word_of_nat (n mod 255) :: byte) = n mod 255" by (rule unat_word_of_nat_small) (simp add: less_trans [of _ 255])
  show "(word_of_nat (n mod 255) :: byte) \<noteq> 255"
  proof
    assume "(word_of_nat (n mod 255) :: byte) = 255"
    then have "n mod 255 = unat (255 :: byte)" using u by simp
    then show False using mod_less_divisor [of 255 n] by simp
  qed
qed

lemma mux_length_slot:
  assumes "len + 255 * k + n mod 255 \<le> MaxMuxSlotBytes"
  shows "mux_length (pre @ replicate k 255 @ word_of_nat (n mod 255) # rest) (length pre) len = ok (len + 255 * k + n mod 255, length pre + k + 1)"
  using assms
proof (induction k arbitrary: pre len)
  case 0
  then show ?case using last_len_byte [of n] by (subst mux_length.simps) (simp add: nth_append)
next
  case (Suc k)
  have "mux_length ((pre @ [255]) @ replicate k 255 @ word_of_nat (n mod 255) # rest) (length (pre @ [255])) (len + 255)
      = ok (len + 255 + 255 * k + n mod 255, length (pre @ [255]) + k + 1)"
    by (rule Suc.IH) (use Suc.prems in simp)
  then show ?case using Suc.prems by (subst mux_length.simps) (simp add: nth_append)
qed

lemma readMuxSlot_slot:
  assumes "length au \<le> MaxMuxSlotBytes"
  shows "readMuxSlot (pre @ mux_slot au @ rest) (length pre) = ok (au, length pre + length (mux_slot au))"
proof -
  define k where "k = length au div 255"
  have len: "255 * k + length au mod 255 = length au" by (simp add: k_def)
  have m: "mux_length (pre @ replicate k 255 @ word_of_nat (length au mod 255) # au @ rest) (length pre) 0 = ok (length au, length pre + k + 1)"
    using mux_length_slot [of 0 k "length au" pre "au @ rest"] assms len by simp
  have "slice ((pre @ slot_len (length au)) @ au @ rest) (length (pre @ slot_len (length au))) (length (pre @ slot_len (length au)) + length au) = Some au"
    by (rule slice_append3)
  then show ?thesis using m by (simp add: readMuxSlot_def mux_slot_def slot_len_def k_def [symmetric] add.assoc)
qed

text \<open>The access units a receiver is to see: the \<open>i\<close>-th one \<open>i\<close> frame lengths after the base.\<close>

fun stamped :: "u32 \<Rightarrow> u32 \<Rightarrow> nat \<Rightarrow> bytes list \<Rightarrow> access_unit list" where
  "stamped ticks base i [] = []"
| "stamped ticks base i (au # aus) = \<lparr>AU_Data = au, RTPOffset = base + word_of_nat i * ticks\<rparr> # stamped ticks base (i + 1) aus"

lemma oob_subframes_slots:
  "list_all (\<lambda>au. length au \<le> MaxMuxSlotBytes) aus \<Longrightarrow>
     oob_subframes (pre @ concat (map mux_slot aus) @ rest) ticks base (length aus) i (length pre)
       = ok (stamped ticks base i aus, length pre + length (concat (map mux_slot aus)))"
proof (induction aus arbitrary: pre i)
  case (Cons au aus)
  have "oob_subframes ((pre @ mux_slot au) @ concat (map mux_slot aus) @ rest) ticks base (length aus) (i + 1) (length (pre @ mux_slot au))
      = ok (stamped ticks base (i + 1) aus, length (pre @ mux_slot au) + length (concat (map mux_slot aus)))"
    by (rule Cons.IH) (use Cons.prems in simp)
  then show ?case using readMuxSlot_slot [of au pre "concat (map mux_slot aus) @ rest"] Cons.prems by (simp add: add.assoc)
qed simp

lemma bit_length_slot:
  assumes "at buf pos (bits_of (replicate k 255 @ [word_of_nat (n mod 255)]) @ rest)" "len + 255 * k + n mod 255 \<le> MaxMuxSlotBytes"
  shows "bit_length buf pos len = ok (len + 255 * k + n mod 255, pos + 8 * (k + 1))"
  using assms
proof (induction k arbitrary: pos len)
  case 0
  then have "at buf pos (byte_bits (word_of_nat (n mod 255)) @ rest)" by simp
  moreover have "n mod 255 \<noteq> 255" by (metis less_irrefl mod_less_divisor zero_less_numeral)
  ultimately show ?case using rd_at [of buf pos "byte_bits (word_of_nat (n mod 255))" rest 8] last_len_byte(1) [of n] 0
    by (subst bit_length.simps) (simp add: unat_bits Let_def)
next
  case (Suc k)
  have a: "at buf pos (byte_bits 255 @ bits_of (replicate k 255 @ [word_of_nat (n mod 255)]) @ rest)" using Suc.prems(1) by simp
  have "at buf (pos + 8) (bits_of (replicate k 255 @ [word_of_nat (n mod 255)]) @ rest)" using at_append [OF a] by simp
  from Suc.IH [OF this, of "len + 255"] show ?case using rd_at [OF a, of 8] Suc.prems(2)
    by (subst bit_length.simps) (simp add: unat_bits)
qed

lemma pack_bits_of: "pack (bits_of bs) = bs"
proof (rule bits_of_inj)
  have "(8 * length bs + 7) div 8 = length bs" by (simp add: ceil8)
  then show "bits_of (pack (bits_of bs)) = bits_of bs" by (simp add: pack_bits pad_bits_def)
qed

lemma inband_subframes_slots:
  assumes "at buf pos (bits_of (concat (map mux_slot aus)) @ rest)" "list_all (\<lambda>au. length au \<le> MaxMuxSlotBytes) aus"
  shows "inband_subframes buf ticks base (length aus) i pos = ok (stamped ticks base i aus, pos + 8 * length (concat (map mux_slot aus)))"
  using assms
proof (induction aus arbitrary: pos i)
  case (Cons au aus)
  define k rest' where "k = length au div 255" and "rest' = bits_of (concat (map mux_slot aus)) @ rest"
  have len: "255 * k + length au mod 255 = length au" by (simp add: k_def)
  have a: "at buf pos (bits_of (replicate k 255 @ [word_of_nat (length au mod 255)]) @ bits_of au @ rest')"
    using Cons.prems(1) by (simp add: mux_slot_def [of au] slot_len_def k_def rest'_def)
  have l: "bit_length buf pos 0 = ok (length au, pos + 8 * (k + 1))"
    using bit_length_slot [OF a, of 0] Cons.prems(2) len by simp
  have b: "at buf (pos + 8 * (k + 1)) (bits_of au @ rest')" using at_append [OF a] by (simp add: add.commute)
  have e: "appendBits [] buf (pos + 8 * (k + 1)) (length au * 8) = Some au"
    using extract_at [OF b] by (simp add: appendBits_def extractBitsInto_def pack_bits_of mult.commute)
  have c: "at buf (pos + 8 * (k + 1) + length au * 8) (bits_of (concat (map mux_slot aus)) @ rest)"
    using at_append [OF b] by (simp add: rest'_def mult.commute)
  have fit: "\<not> length buf * 8 < pos + 8 * (k + 1) + length au * 8" using at_length [OF c] by simp
  have size: "8 * length (mux_slot au) = 8 * (k + 1) + length au * 8" by (simp add: mux_slot_def slot_len_def k_def)
  show ?case using l e fit Cons.IH [OF c, of "i + 1"] Cons.prems(2) size by simp
qed simp


section \<open>Round trips\<close>

lemma stamped_append: "stamped ticks base i (xs @ ys) = stamped ticks base i xs @ stamped ticks base (i + length xs) ys"
  by (induction xs arbitrary: i) simp_all

lemma stamped_shift: "stamped ticks (base + word_of_nat k * ticks) i xs = stamped ticks base (k + i) xs"
  by (induction xs arbitrary: i) (simp_all add: algebra_simps)

lemma mux_slot_nonzero: "au \<noteq> [] \<Longrightarrow> \<not> allZero (mux_slot au @ rest)"
proof -
  assume "au \<noteq> []"
  have "\<exists>x \<in> set (slot_len (length au)). x \<noteq> 0"
  proof (cases "length au div 255 = 0")
    case True
    then have "length au mod 255 \<noteq> 0" using \<open>au \<noteq> []\<close> by (metis add.right_neutral div_mult_mod_eq length_0_conv mult_0)
    then have "unat (word_of_nat (length au mod 255) :: byte) \<noteq> 0" using last_len_byte(1) [of "length au"] by simp
    then have "(word_of_nat (length au mod 255) :: byte) \<noteq> 0" by (metis unsigned_0)
    then show ?thesis by (simp add: slot_len_def)
  qed (simp add: slot_len_def)
  then show ?thesis by (auto simp: allZero_def mux_slot_def list_all_iff)
qed

lemma element_nonzero: "\<exists>au\<in>set aus. au \<noteq> [] \<Longrightarrow> \<not> allZero (concat (map mux_slot aus) @ rest)"
proof -
  assume "\<exists>au\<in>set aus. au \<noteq> []"
  then obtain au where au: "au \<in> set aus" "au \<noteq> []" by blast
  then obtain x where "x \<in> set (mux_slot au)" "x \<noteq> 0" using mux_slot_nonzero [of au "[]"] by (auto simp: allZero_def list_all_iff)
  then show ?thesis using au by (force simp: allZero_def list_all_iff)
qed

definition oob_payload :: "bytes list list \<Rightarrow> bytes" where
  "oob_payload es = concat (map (\<lambda>aus. concat (map mux_slot aus)) es)"

definition sendable :: "nat \<Rightarrow> bytes list \<Rightarrow> bool" where
  "sendable n aus \<longleftrightarrow> length aus = n + 1 \<and> (\<exists>au\<in>set aus. au \<noteq> []) \<and> list_all (\<lambda>au. length au \<le> MaxMuxSlotBytes) aus"

lemma oob_elements_payload:
  assumes "list_all (sendable n) es" "es \<noteq> []" "elem + length es \<le> MaxMuxElements" "list_all (\<lambda>x. x = 0) pad"
  shows "oob_elements (pre @ oob_payload es @ pad) ticks n elem (length pre) base = ok (stamped ticks base 0 (concat es))"
  using assms
proof (induction es arbitrary: pre elem base)
  case (Cons aus es)
  define rest where "rest = oob_payload es @ pad"
  have send: "length aus = n + 1" "list_all (\<lambda>au. length au \<le> MaxMuxSlotBytes) aus" using Cons.prems(1) by (auto simp: sendable_def)
  have sub: "oob_subframes (pre @ concat (map mux_slot aus) @ rest) ticks base (n + 1) 0 (length pre)
      = ok (stamped ticks base 0 aus, length (pre @ concat (map mux_slot aus)))"
    using oob_subframes_slots [OF send(2), of pre rest ticks base 0] send(1) by simp
  have payload: "pre @ oob_payload (aus # es) @ pad = (pre @ concat (map mux_slot aus)) @ rest" by (simp add: oob_payload_def rest_def)
  have low: "\<not> elem \<ge> MaxMuxElements" using Cons.prems(3) by simp
  show ?case
  proof (cases "es = []")
    case True
    then have "rest = pad" by (simp add: rest_def oob_payload_def)
    then show ?thesis using sub low Cons.prems(4) True unfolding payload
      by (subst oob_elements.simps) (simp add: allZero_def del: oob_subframes.simps)
  next
    case False
    then obtain aus' es' where "es = aus' # es'" by (cases es) auto
    then have nz: "\<not> allZero rest"
      using element_nonzero [of aus' "oob_payload es' @ pad"] Cons.prems(1) by (auto simp: sendable_def rest_def oob_payload_def)
    then have "rest \<noteq> []" by (auto simp: allZero_def)
    have "oob_elements ((pre @ concat (map mux_slot aus)) @ rest) ticks n (elem + 1) (length (pre @ concat (map mux_slot aus))) (base + word_of_nat (n + 1) * ticks)
        = ok (stamped ticks (base + word_of_nat (n + 1) * ticks) 0 (concat es))"
      unfolding rest_def by (rule Cons.IH) (use Cons.prems False in simp_all)
    with \<open>rest \<noteq> []\<close> show ?thesis using sub low nz send(1) unfolding payload
      by (subst oob_elements.simps) (simp add: stamped_append stamped_shift [of ticks base "Suc n" 0, simplified] del: oob_subframes.simps)
  qed
qed simp


text \<open>In-band elements: each announces a configuration or reuses the retained one.\<close>

type_synonym inband_element = "mux_spec option \<times> bytes list"

definition elem_bits :: "inband_element \<Rightarrow> bool list" where
  "elem_bits e = (case fst e of None \<Rightarrow> [True] | Some m \<Rightarrow> False # mux_bits m) @ bits_of (concat (map mux_slot (snd e)))"

definition inband_payload :: "inband_element list \<Rightarrow> bytes" where
  "inband_payload es = concat (map (\<lambda>e. pack (elem_bits e)) es)"

definition retained :: "latm \<Rightarrow> mux_spec option \<Rightarrow> latm" where
  "retained d h = (case h of None \<Rightarrow> d
     | Some m \<Rightarrow> install d (\<lparr>numSubFrames = ms_sub m, frameLengthType = 0\<rparr>, pack (asc_bits (ms_asc m)), frame_len (ms_asc m)))"

definition ticks_of :: "latm \<Rightarrow> u32" where
  "ticks_of d = (let t = word_of_int (latm_SamplesPerFrame (latm_cfg d)) in if t = 0 then frameLength d else t)"

fun sendable_seq :: "latm \<Rightarrow> inband_element list \<Rightarrow> bool" where
  "sendable_seq d [] \<longleftrightarrow> True"
| "sendable_seq d ((h, aus) # es) \<longleftrightarrow>
     (case h of None \<Rightarrow> haveSMC d | Some m \<Rightarrow> mux_ok m)
     \<and> length aus = numSubFrames (smc (retained d h)) + 1 \<and> list_all (\<lambda>au. length au \<le> MaxMuxSlotBytes) aus
     \<and> sendable_seq (retained d h) es"

fun received :: "latm \<Rightarrow> u32 \<Rightarrow> inband_element list \<Rightarrow> access_unit list \<times> latm" where
  "received d base [] = ([], d)"
| "received d base ((h, aus) # es) =
     (let d' = retained d h; (more, d'') = received d' (base + word_of_nat (length aus) * ticks_of d') es
      in (stamped (ticks_of d') base 0 aus @ more, d''))"

lemma allZero_bits: "allZero bs \<Longrightarrow> True \<notin> set (bits_of bs)"
  by (induction bs) (auto simp: allZero_def byte_bits_def)

lemma elem_nonzero: "\<not> allZero (pack (elem_bits e) @ rest)"
proof
  assume "allZero (pack (elem_bits e) @ rest)"
  then have "True \<notin> set (bits_of (pack (elem_bits e)))" using allZero_bits [of "pack (elem_bits e)"] by (simp add: allZero_def)
  moreover have "True \<in> set (elem_bits e)" by (cases "fst e") (simp_all add: elem_bits_def mux_bits_def)
  ultimately show False by (simp add: pack_bits pad_bits_def)
qed

lemma element_roundtrip:
  assumes "sendable_seq d [(h, aus)]" "latm_inv d"
  shows "depacketizeInBandElement d (pre @ pack (elem_bits (h, aus)) @ rest) (8 * length pre) base
    = (ok (stamped (ticks_of (retained d h)) base 0 aus, word_of_nat (length aus) * ticks_of (retained d h), 8 * length (pre @ pack (elem_bits (h, aus)))), retained d h)"
proof -
  define buf where "buf = pre @ pack (elem_bits (h, aus)) @ rest"
  define S tl where "S = bits_of (concat (map mux_slot aus))" and "tl = drop (length (elem_bits (h, aus))) (bits_of (pack (elem_bits (h, aus)))) @ bits_of rest"
  have "bits_of (pack (elem_bits (h, aus))) = elem_bits (h, aus) @ drop (length (elem_bits (h, aus))) (bits_of (pack (elem_bits (h, aus))))"
    by (simp add: pack_bits pad_bits_def)
  then have a: "at buf (8 * length pre) (elem_bits (h, aus) @ tl)" by (simp add: at_def buf_def tl_def)
  define H where "H = (case h of None \<Rightarrow> [True] | Some m \<Rightarrow> False # mux_bits m)"
  have bits: "elem_bits (h, aus) = H @ S" by (simp add: elem_bits_def H_def S_def)
  have config: "inband_config d buf (8 * length pre) = ok (retained d h, 8 * length pre + length H)"
  proof (cases h)
    case None
    then have "at buf (8 * length pre) (True # S @ tl)" using a bits by (simp add: H_def)
    then show ?thesis using rd_bit None assms(1) by (simp add: inband_config_def retained_def H_def)
  next
    case (Some m)
    then have m: "at buf (8 * length pre) (False # mux_bits m @ S @ tl)" using a bits by (simp add: H_def)
    show ?thesis using rd_bit [OF m] parseStreamMuxConfigBits_at [OF at_Cons [OF m]] Some assms(1)
      by (simp add: inband_config_def retained_def H_def)
  qed
  have inv: "latm_inv (retained d h)" using inband_config_sat [OF assms(2), of "8 * length pre" buf] config by simp
  have layout: "subFrameLayout (retained d h) = ok (ticks_of (retained d h))"
    using inv by (simp add: subFrameLayout_def ticks_of_def latm_inv_def caps Let_def)
  have "at buf (8 * length pre + length H) (bits_of (concat (map mux_slot aus)) @ tl)" using at_append [of buf "8 * length pre" H "S @ tl"] a bits by (simp add: S_def)
  from inband_subframes_slots [OF this, of "ticks_of (retained d h)" base 0]
  have sub: "inband_subframes buf (ticks_of (retained d h)) base (numSubFrames (smc (retained d h)) + 1) 0 (8 * length pre + length H)
      = ok (stamped (ticks_of (retained d h)) base 0 aus, 8 * length pre + length (elem_bits (h, aus)))"
    using assms(1) bits by (simp add: S_def del: inband_subframes.simps)
  have "byteAlign (8 * length pre + length (elem_bits (h, aus))) = 8 * length (pre @ pack (elem_bits (h, aus)))"
    by (simp add: byteAlign_mod pack_length add.assoc)
  then show ?thesis using config layout sub assms(1) unfolding buf_def [symmetric]
    by (simp add: depacketizeInBandElement_def del: inband_subframes.simps)
qed

lemma inband_elements_payload:
  assumes "sendable_seq d es" "latm_inv d" "es \<noteq> []" "elem + length es \<le> MaxMuxElements" "list_all (\<lambda>x. x = 0) pad"
  shows "inband_elements d (pre @ inband_payload es @ pad) elem (8 * length pre) base
    = (ok (fst (received d base es)), snd (received d base es))"
  using assms
proof (induction es arbitrary: d pre elem base)
  case (Cons e es)
  obtain h aus where e: "e = (h, aus)" by (cases e)
  define d' rest where "d' = retained d h" and "rest = inband_payload es @ pad"
  have payload: "pre @ inband_payload (e # es) @ pad = pre @ pack (elem_bits (h, aus)) @ rest" by (simp add: inband_payload_def rest_def e)
  have one: "sendable_seq d [(h, aus)]" and more: "sendable_seq d' es" using Cons.prems(1) by (simp_all add: e d'_def)
  note E = element_roundtrip [OF one Cons.prems(2), of pre rest base, folded d'_def]
  have inv: "latm_inv d'" using element_sat [OF Cons.prems(2), of "pre @ pack (elem_bits (h, aus)) @ rest" "8 * length pre" base] E by simp
  have low: "\<not> elem \<ge> MaxMuxElements" using Cons.prems(4) by simp
  show ?case
  proof (cases "es = []")
    case True
    then have "rest = pad" by (simp add: rest_def inband_payload_def)
    then show ?thesis using E low Cons.prems(5) True unfolding payload
      by (subst inband_elements.simps) (simp add: e d'_def Let_def allZero_def)
  next
    case False
    then obtain e' es' where "es = e' # es'" by (cases es) auto
    then have nz: "\<not> allZero rest" using elem_nonzero [of e' "inband_payload es' @ pad"] by (simp add: rest_def inband_payload_def)
    then have ne: "rest \<noteq> []" by (auto simp: allZero_def)
    let ?b = "base + word_of_nat (length aus) * ticks_of d'"
    have "inband_elements d' ((pre @ pack (elem_bits (h, aus))) @ inband_payload es @ pad) (elem + 1) (8 * length (pre @ pack (elem_bits (h, aus)))) ?b
        = (ok (fst (received d' ?b es)), snd (received d' ?b es))"
      by (rule Cons.IH [OF more inv]) (use Cons.prems False in simp_all)
    then show ?thesis using E low nz ne unfolding payload
      by (subst inband_elements.simps) (auto simp: e d'_def [symmetric] Let_def split_def rest_def)
  qed
qed simp


text \<open>
  Out of band, the depacketizer gives back what was multiplexed: a payload of up to \<open>MaxMuxElements\<close> elements, each of the number
  of subframes the configuration announces, followed by any zero padding, yields exactly the access units, in order, the \<open>i\<close>-th one
  stamped \<open>i\<close> frame lengths after the packet, and leaves the state alone. A unit may be empty as long as not every unit of its
  element is.
\<close>

theorem latm_outofband_roundtrip:
  assumes "latm_New c = ok d" "\<not> MuxConfigPresent c" "es \<noteq> []" "length es \<le> MaxMuxElements"
    "list_all (sendable (numSubFrames (smc d))) es" "list_all (\<lambda>x. x = 0) pad"
  shows "latm_Depacketize d (oob_payload es @ pad) = (ok (stamped (ticks_of d) 0 0 (concat es)), d)"
proof -
  have d: "latm_inv d" "latm_cfg d = c" using go_satD(2) [OF latm_New_sat assms(1)] by simp_all
  then have "subFrameLayout d = ok (ticks_of d)" by (simp add: subFrameLayout_def ticks_of_def latm_inv_def caps Let_def)
  then show ?thesis using oob_elements_payload [of "numSubFrames (smc d)" es 0 pad "[]" "ticks_of d" 0] assms d
    by (simp add: latm_Depacketize_def latm_inv_def)
qed

text \<open>
  C36. In band, each element of a payload announces a configuration or reuses the one the depacketizer holds. A payload of up to
  \<open>MaxMuxElements\<close> such elements, none of which is aligned to bytes inside, and any zero padding behind them, yields exactly the access
  units that were sent, repacked to bytes and stamped with the frame length of the configuration each was sent under; the depacketizer
  is left with the last configuration announced, its AudioSpecificConfig included.
\<close>

theorem latm_inband_roundtrip:
  assumes "latm_inv d" "MuxConfigPresent (latm_cfg d)" "es \<noteq> []" "length es \<le> MaxMuxElements" "sendable_seq d es"
    "list_all (\<lambda>x. x = 0) pad"
  shows "latm_Depacketize d (inband_payload es @ pad) = (ok (fst (received d 0 es)), snd (received d 0 es))"
  using inband_elements_payload [of d es 0 pad "[]" 0] assms by (simp add: latm_Depacketize_def depacketizeInBand_def)

definition lc_48k :: mux_spec where
  "lc_48k = \<lparr>ms_sub = 0, ms_asc = \<lparr>as_aot = 2, as_sfi = 3, as_freq = 0, as_chan = 2, as_short = False, as_core = None\<rparr>, ms_full = 255,
     ms_other = [], ms_crc = None\<rparr>"

definition fresh_inband :: latm where
  "fresh_inband = \<lparr>latm_cfg = \<lparr>MuxConfigPresent = True, StreamMuxConfig = [], latm_SamplesPerFrame = 0\<rparr>, smc = smc0, haveSMC = False,
     latm_asc = [], frameLength = 0\<rparr>"

theorem latm_inband_roundtrip_witness:
  "latm_Depacketize fresh_inband (inband_payload [(Some lc_48k, [[1, 2, 3]]), (None, [[4]])] @ [0])
    = (ok [\<lparr>AU_Data = [1, 2, 3], RTPOffset = 0\<rparr>, \<lparr>AU_Data = [4], RTPOffset = 1024\<rparr>], retained fresh_inband (Some lc_48k))"
proof -
  have "sendable_seq fresh_inband [(Some lc_48k, [[1, 2, 3]]), (None, [[4]])]"
    by (simp add: fresh_inband_def lc_48k_def mux_ok_def asc_ok_def retained_def install_def smc0_def caps)
  moreover have "received fresh_inband 0 [(Some lc_48k, [[1, 2, 3]]), (None, [[4]])]
      = ([\<lparr>AU_Data = [1, 2, 3], RTPOffset = 0\<rparr>, \<lparr>AU_Data = [4], RTPOffset = 1024\<rparr>], retained fresh_inband (Some lc_48k))"
    by (simp add: fresh_inband_def lc_48k_def retained_def install_def ticks_of_def frame_len_def Let_def)
  ultimately show ?thesis
    using latm_inband_roundtrip [of fresh_inband "[(Some lc_48k, [[1, 2, 3]]), (None, [[4]])]" "[0]"]
    by (simp add: latm_inv_def caps) (simp add: fresh_inband_def smc0_def)
qed

text \<open>
  Whatever payloads arrive and however often the source changes, the depacketizer does not panic: started from any configuration
  \<open>New\<close> accepts, every call returns access units or a sentinel error, the retained AudioSpecificConfig is at most eight bytes and
  an out-of-band configuration is never lost.
\<close>

theorem latm_robust:
  assumes "latm_New c = ok d"
  shows "None \<notin> set (fst (run latm_step d evs)) \<and> latm_inv (snd (run latm_step d evs))"
  using latm.run_good [of d _ evs] latm.run_inv [of d evs] go_satD(2) [OF latm_New_sat assms] by blast


end
