(* ===== verification/RTSP_Transport.thy ===== *)
theory RTSP_Transport
  imports RTSP_Message
begin

text \<open>
  The header values and verdicts of the RTSP client that are not framing: \<open>src/rtsp/transport.go\<close> (the Transport and Session headers, the
  keepalive method), \<open>src/rtsp/status.go\<close> (what a status code means) and \<open>src/rtsp/state.go\<close> (which method is legal when).
\<close>

section \<open>Transport\<close>

datatype transport_error = ErrMalformedTransport | ErrNoInterleaved | ErrBadChannelPair | ErrChannelConflict

record TransportHeader =
  Protocol :: bytes
  Interleaved :: bool
  RTPChannel :: int
  RTCPChannel :: int
  Unicast :: bool
  Mode :: bytes
  T_SSRC :: bytes
  Source :: bytes
  Destination :: bytes
  ClientRTPPort :: int
  ClientRTCPPort :: int
  ServerRTPPort :: int
  ServerRTCPPort :: int
  HasClientPort :: bool
  HasServerPort :: bool

definition transport0 :: TransportHeader where
  "transport0 = \<lparr>Protocol = [], Interleaved = False, RTPChannel = 0, RTCPChannel = 0, Unicast = False, Mode = [], T_SSRC = [], Source = [],
     Destination = [], ClientRTPPort = 0, ClientRTCPPort = 0, ServerRTPPort = 0, ServerRTCPPort = 0, HasClientPort = False, HasServerPort = False\<rparr>"

text \<open>The three targets of \<open>parsePortPair\<close> are a triple, returned updated.\<close>

definition parsePortPair :: "bytes \<Rightarrow> int \<times> int \<times> bool \<Rightarrow> int \<times> int \<times> bool" where
  "parsePortPair val t =
     (case t of (rtp, rtcp, has) \<Rightarrow>
      case Cut 45 val of (rtpStr, rtcpStr, hasDash) \<Rightarrow>
        if hasDash then
          (case (Atoi (TrimSpace rtpStr), Atoi (TrimSpace rtcpStr)) of
             (Some r, Some c) \<Rightarrow> (r, c, True)
           | _ \<Rightarrow> (rtp, rtcp, has))
        else (case Atoi (TrimSpace val) of Some r \<Rightarrow> (r, rtcp, has) | None \<Rightarrow> (rtp, rtcp, has)))"

definition Trim :: "byte \<Rightarrow> bytes \<Rightarrow> bytes" where
  "Trim c s = rev (dropWhile (\<lambda>x. x = c) (rev (dropWhile (\<lambda>x. x = c) s)))"

definition applyTransportParam :: "bytes \<Rightarrow> TransportHeader \<Rightarrow> TransportHeader" where
  "applyTransportParam param t =
     (if param = [] then t
      else case Cut 61 param of (n, v, hasEq) \<Rightarrow>
        let name = ToLower (TrimSpace n); val = TrimSpace v in
        if \<not> hasEq \<and> name = lit ''unicast'' then t\<lparr>Unicast := True\<rparr>
        else if \<not> hasEq \<and> name = lit ''multicast'' then t
        else if hasEq \<and> name = lit ''interleaved'' then
          (case parsePortPair val (RTPChannel t, RTCPChannel t, Interleaved t) of
             (a, b, h) \<Rightarrow> t\<lparr>RTPChannel := a, RTCPChannel := b, Interleaved := h\<rparr>)
        else if hasEq \<and> name = lit ''client_port'' then
          (case parsePortPair val (ClientRTPPort t, ClientRTCPPort t, HasClientPort t) of
             (a, b, h) \<Rightarrow> t\<lparr>ClientRTPPort := a, ClientRTCPPort := b, HasClientPort := h\<rparr>)
        else if hasEq \<and> name = lit ''server_port'' then
          (case parsePortPair val (ServerRTPPort t, ServerRTCPPort t, HasServerPort t) of
             (a, b, h) \<Rightarrow> t\<lparr>ServerRTPPort := a, ServerRTCPPort := b, HasServerPort := h\<rparr>)
        else if hasEq \<and> name = lit ''mode'' then t\<lparr>Mode := ToUpper (Trim 34 val)\<rparr>
        else if hasEq \<and> name = lit ''ssrc'' then t\<lparr>T_SSRC := val\<rparr>
        else if hasEq \<and> name = lit ''source'' then t\<lparr>Source := val\<rparr>
        else if hasEq \<and> name = lit ''destination'' then t\<lparr>Destination := val\<rparr>
        else t)"

definition ParseTransport :: "bytes \<Rightarrow> transport_error + TransportHeader" where
  "ParseTransport value =
     (let parts = Split 59 value; protocol = TrimSpace (hd parts) in
      if protocol = [] then Inl ErrMalformedTransport
      else Inr (fold (\<lambda>raw. applyTransportParam (TrimSpace raw)) (tl parts) (transport0\<lparr>Protocol := protocol\<rparr>)))"

definition maxInterleavedChannel :: int where [caps]: "maxInterleavedChannel = 255"
definition minUDPPort :: int where [caps]: "minUDPPort = 1"
definition maxUDPPort :: int where [caps]: "maxUDPPort = 65535"

definition InterleavedChannels :: "int set \<Rightarrow> TransportHeader \<Rightarrow> transport_error + int \<times> int" where
  "InterleavedChannels claimed t =
     (if \<not> Interleaved t then Inl ErrNoInterleaved
      else if RTCPChannel t \<noteq> RTPChannel t + 1 \<or> RTPChannel t < 0 \<or> RTPChannel t > maxInterleavedChannel
         \<or> RTCPChannel t < 0 \<or> RTCPChannel t > maxInterleavedChannel then Inl ErrBadChannelPair
      else if RTPChannel t \<in> claimed \<or> RTCPChannel t \<in> claimed then Inl ErrChannelConflict
      else Inr (RTPChannel t, RTCPChannel t))"

definition ServerPorts :: "TransportHeader \<Rightarrow> (int \<times> int) option" where
  "ServerPorts t =
     (if \<not> HasServerPort t then None
      else if ServerRTCPPort t \<noteq> ServerRTPPort t + 1 \<or> ServerRTPPort t < minUDPPort \<or> ServerRTPPort t > maxUDPPort
         \<or> ServerRTCPPort t < minUDPPort \<or> ServerRTCPPort t > maxUDPPort then None
      else Some (ServerRTPPort t, ServerRTCPPort t))"

definition BuildTransport :: "int \<Rightarrow> int \<Rightarrow> bytes" where
  "BuildTransport rtpChannel rtcpChannel = lit ''RTP/AVP/TCP;unicast;interleaved='' @ Itoa rtpChannel @ lit ''-'' @ Itoa rtcpChannel"

definition BuildTransportUDP :: "int \<Rightarrow> int \<Rightarrow> bytes" where
  "BuildTransportUDP clientRTPPort clientRTCPPort = lit ''RTP/AVP;unicast;client_port='' @ Itoa clientRTPPort @ lit ''-'' @ Itoa clientRTCPPort"

section \<open>Session\<close>

definition DefaultSessionTimeout :: int where [caps]: "DefaultSessionTimeout = 60 * 10 ^ 9"
definition maxTimeoutSeconds :: int where [caps]: "maxTimeoutSeconds = (2 ^ 63 - 1) div 10 ^ 9"

record SessionHeader =
  SH_ID :: bytes
  SH_Timeout :: int

definition session_param :: "bytes \<Rightarrow> SessionHeader \<Rightarrow> SessionHeader" where
  "session_param raw h =
     (case Cut 61 (TrimSpace raw) of (name, val, hasEq) \<Rightarrow>
        if \<not> hasEq \<or> \<not> EqualFold (TrimSpace name) (lit ''timeout'') then h
        else (case Atoi (TrimSpace val) of
            None \<Rightarrow> h
          | Some secs \<Rightarrow> if secs \<le> 0 \<or> secs > maxTimeoutSeconds then h else h\<lparr>SH_Timeout := secs * 10 ^ 9\<rparr>))"

definition ParseSession :: "bytes \<Rightarrow> SessionHeader" where
  "ParseSession value =
     (let parts = Split 59 value in
      fold session_param (tl parts) \<lparr>SH_ID = TrimSpace (hd parts), SH_Timeout = DefaultSessionTimeout\<rparr>)"

definition ParsePublic :: "bytes \<Rightarrow> bytes list" where
  "ParsePublic value = filter (\<lambda>tok. tok \<noteq> []) (map (\<lambda>tok. ToUpper (TrimSpace tok)) (Split 44 value))"

definition methodOptions :: bytes where "methodOptions = lit ''OPTIONS''"
definition methodDescribe :: bytes where "methodDescribe = lit ''DESCRIBE''"
definition methodSetup :: bytes where "methodSetup = lit ''SETUP''"
definition methodPlay :: bytes where "methodPlay = lit ''PLAY''"
definition methodTeardown :: bytes where "methodTeardown = lit ''TEARDOWN''"
definition methodGetParameter :: bytes where "methodGetParameter = lit ''GET_PARAMETER''"

definition KeepaliveMethod :: "bytes list \<Rightarrow> bytes" where
  "KeepaliveMethod publicMethods = (if \<exists>m \<in> set publicMethods. EqualFold m methodGetParameter then methodGetParameter else lit ''OPTIONS'')"

definition keepaliveInterval :: "int \<Rightarrow> int" where
  "keepaliveInterval sessionTimeout =
     (let timeout = (if sessionTimeout \<le> 0 then DefaultSessionTimeout else sessionTimeout) in max (timeout div 2) (10 ^ 9))"

section \<open>Status\<close>

datatype status_error = ErrNilResponse | RedirectError bytes | UnauthorizedError "bytes list" | ResponseError int bytes

definition StatusOK :: int where "StatusOK = 200"
definition StatusUnauthorized :: int where "StatusUnauthorized = 401"

definition ClassifyStatus :: "rtsp_response option \<Rightarrow> status_error option" where
  "ClassifyStatus resp =
     (case resp of
        None \<Rightarrow> Some ErrNilResponse
      | Some r \<Rightarrow>
          let code = StatusCode r in
          if code \<ge> 100 \<and> code < 300 then None
          else if code \<ge> 300 \<and> code < 400 then Some (RedirectError (Header_Get (Resp_Header r) (lit ''Location'')))
          else if code = StatusUnauthorized then Some (UnauthorizedError (Header_Values (Resp_Header r) (lit ''WWW-Authenticate'')))
          else Some (ResponseError code (Reason r)))"

section \<open>Life cycle\<close>

datatype client_state = stateIdle | stateDescribed | stateSetup | statePlaying | stateClosed

definition legalIn :: "bytes \<Rightarrow> client_state \<Rightarrow> bool" where
  "legalIn method s =
     (if s = stateClosed then False
      else if method = methodDescribe then s = stateIdle
      else if method = methodSetup then s = stateDescribed \<or> s = stateSetup
      else if method = methodPlay then s = stateSetup
      else False)"

definition destState :: "bytes \<Rightarrow> client_state option" where
  "destState method =
     (if method = methodDescribe then Some stateDescribed
      else if method = methodSetup then Some stateSetup
      else if method = methodPlay then Some statePlaying
      else None)"

section \<open>What the headers promise\<close>

lemma digits_clean: "c \<in> set (digits n) \<Longrightarrow> c \<noteq> 59 \<and> c \<noteq> 61 \<and> c \<noteq> 45 \<and> c \<noteq> 44"
  using digits_are_digits [of n] by (auto simp: is_digit_def word_le_nat_alt)

lemma Itoa_clean: "0 \<le> i \<Longrightarrow> c \<in> set (Itoa i) \<Longrightarrow> c \<noteq> 59 \<and> c \<noteq> 61 \<and> c \<noteq> 45 \<and> c \<noteq> 44"
  by (simp add: Itoa_def digits_clean)

text \<open>A pair printed as a range is read back.\<close>

lemma parsePortPair_printed:
  assumes "0 \<le> a" "a < 2 ^ 63" "0 \<le> b" "b < 2 ^ 63"
  shows "parsePortPair (Itoa a @ 45 # Itoa b) t = (a, b, True)"
proof -
  have "Cut 45 (Itoa a @ 45 # Itoa b) = (Itoa a, Itoa b, True)" using Itoa_clean [OF assms(1)] by (intro Cut_found) blast
  then show ?thesis using assms Atoi_Itoa [of a] Atoi_Itoa [of b] by (cases t) (simp add: parsePortPair_def)
qed

lemma printing_text: "printing c \<Longrightarrow> c \<noteq> SP"
  by (auto simp: printing_def)

lemma pair_text:
  assumes "0 \<le> a" "0 \<le> b"
  shows "59 \<notin> set (Itoa a @ 45 # Itoa b)" "TrimSpace (Itoa a @ 45 # Itoa b) = Itoa a @ 45 # Itoa b"
proof -
  show "59 \<notin> set (Itoa a @ 45 # Itoa b)" using Itoa_clean assms by auto
  have "printing 45" by (simp add: printing_def)
  then show "TrimSpace (Itoa a @ 45 # Itoa b) = Itoa a @ 45 # Itoa b"
    using Itoa_chars [of a] Itoa_chars [of b] by (intro TrimSpace_printing) auto
qed

lemma ParseTransport_Build:
  assumes "0 \<le> a" "a < 2 ^ 63" "0 \<le> b" "b < 2 ^ 63"
  shows "ParseTransport (BuildTransport a b)
    = Inr (transport0\<lparr>Protocol := lit ''RTP/AVP/TCP'', Unicast := True, RTPChannel := a, RTCPChannel := b, Interleaved := True\<rparr>)"
proof -
  define v where "v = Itoa a @ 45 # Itoa b"
  have v: "59 \<notin> set v" "TrimSpace v = v" using pair_text [OF assms(1,3)] by (simp_all add: v_def)
  have param: "TrimSpace (lit ''interleaved='' @ v) = lit ''interleaved='' @ v"
    using Itoa_chars [of a] Itoa_chars [of b] by (intro TrimSpace_printing) (auto simp: v_def lit_simps printing_def)
  have "BuildTransport a b = lit ''RTP/AVP/TCP'' @ 59 # lit ''unicast'' @ 59 # lit ''interleaved='' @ v"
    by (simp add: BuildTransport_def v_def lit_simps)
  then have "Split 59 (BuildTransport a b) = [lit ''RTP/AVP/TCP'', lit ''unicast'', lit ''interleaved='' @ v]"
    using v(1) by (simp add: Split_found Split_absent lit_simps)
  moreover have "TrimSpace (lit ''RTP/AVP/TCP'') = lit ''RTP/AVP/TCP''" "TrimSpace (lit ''unicast'') = lit ''unicast''"
    "TrimSpace (lit ''interleaved'') = lit ''interleaved''"
    by (intro TrimSpace_printing; simp add: lit_simps printing_def)+
  moreover have "Cut 61 (lit ''interleaved='' @ v) = (lit ''interleaved'', v, True)"
    using Cut_found [of 61 "lit ''interleaved''" v] by (simp add: lit_simps)
  moreover have "applyTransportParam (lit ''unicast'') t = t\<lparr>Unicast := True\<rparr>" for t
    using Cut_absent [of 61 "lit ''unicast''"] calculation(3) by (simp add: applyTransportParam_def lit_simps lower_byte_def)
  moreover have "applyTransportParam (lit ''interleaved='' @ v) t = t\<lparr>RTPChannel := a, RTCPChannel := b, Interleaved := True\<rparr>" for t
    using parsePortPair_printed [OF assms] calculation(4,5) v(2)
    by (simp add: applyTransportParam_def lit_simps lower_byte_def v_def)
  ultimately show ?thesis using param unfolding ParseTransport_def Let_def by (simp add: lit_simps)
qed

lemma ParseSession_timeout: "0 < SH_Timeout (ParseSession v) \<and> SH_Timeout (ParseSession v) < 2 ^ 63"
proof -
  have "0 < SH_Timeout h \<and> SH_Timeout h < 2 ^ 63 \<Longrightarrow> 0 < SH_Timeout (fold session_param ps h) \<and> SH_Timeout (fold session_param ps h) < 2 ^ 63" for ps h
    by (induction ps arbitrary: h) (auto simp: session_param_def caps split: prod.splits option.splits)
  then show ?thesis by (simp add: ParseSession_def Let_def caps)
qed

text \<open>
  No Session header, however malformed or hostile, can make the keepalive timer fire continuously or overflow: the interval derived from
  any header is at least one second and fits 64 bits, and when the session lasts at least two seconds it is at most half of it, so
  a keepalive is sent before the session expires.
\<close>

theorem session_keepalive_bounds:
  "10 ^ 9 \<le> keepaliveInterval (SH_Timeout (ParseSession v)) \<and> keepaliveInterval (SH_Timeout (ParseSession v)) < 2 ^ 63
   \<and> 2 * keepaliveInterval (SH_Timeout (ParseSession v)) \<le> max (SH_Timeout (ParseSession v)) (2 * 10 ^ 9)"
proof -
  obtain t where t: "t = SH_Timeout (ParseSession v)" "0 < t" "t < 2 ^ 63" using ParseSession_timeout [of v] by blast
  then have "t div 2 < 2 ^ 63" "2 * (t div 2) \<le> t" by linarith+
  then show ?thesis using t(2) unfolding keepaliveInterval_def t(1) [symmetric] by (auto simp: max_def)
qed

end
