(* ===== verification/Pipeline.thy ===== *)
theory Pipeline
  imports RTP_Stream RTCP FLAC MP3 PCM G726 LATM Strings
begin

text \<open>
  The per-track delivery pipeline of the RTSP client, \<open>src/rtsp/pipeline.go\<close>, with the packet path \<open>process\<close> and \<open>handleRTCP\<close>
  of \<open>src/rtsp/reader.go\<close>. It composes the sequence tracker and the depacketizers. A frame handed to \<open>OnFrame\<close> and a codec handed to
  \<open>OnCodecUpdate\<close> are events; a nil callback gives none. \<open>None\<close> is a panic, a call on a nil depacketizer included. Times are
  nanosecond counts. Log messages are left out.
\<close>

section \<open>Data\<close>

datatype Codec = CodecAAC bytes | CodecOpus | CodecMP3 | CodecG711 law | CodecG726 G726BitRate G726Packing int int
  | CodecL16 int int | CodecUnknown bytes | CodecMP4ALATM bytes bool "bytes option" | CodecFLAC "bytes option"

datatype MediaKind = MediaUnknown | MediaAudio | MediaVideo | MediaOther

record frame =
  fr_TrackID :: int
  fr_Data :: bytes
  fr_RTPTime :: u32
  fr_PTS :: int
  fr_ReceivedAt :: int
  fr_SeqGap :: int

datatype event = EvFrame frame | EvCodec int Codec

datatype codecKind = DeliverRaw | DeliverAAC | DeliverOpus | DeliverG711 | DeliverL16 | DeliverLATM | DeliverG726 | DeliverFLAC | DeliverMP3

record track =
  tr_id :: int
  tr_kind :: codecKind
  tr_clockRate :: u64
  tr_law :: law
  tr_discard :: bool
  tr_rtcpChannel :: int
  tr_control :: bytes
  tr_sdpPayloadType :: int
  tr_stream :: stream
  tr_aac :: "aac_depacketizer option"
  tr_flac :: "flac_depacketizer option"
  tr_mp3 :: "mpa_depacketizer option"
  tr_latm :: "latm option"
  tr_g726 :: "g726 option"
  tr_latmASC :: "bytes option"
  tr_pendingGap :: int
  tr_wirePayloadType :: byte
  tr_wirePTSet :: bool
  tr_ptCandidate :: byte
  tr_ptRun :: nat
  tr_baseTS :: u64
  tr_baseSet :: bool
  tr_baselineFixed :: bool
  tr_pcmBuf :: bytes
  tr_l16FrameSize :: int
  tr_seed :: u64
  tr_hasSeed :: bool
  tr_packets :: u64
  tr_payloadBytes :: u64
  tr_wireBytes :: u64
  tr_seqGaps :: u64
  tr_duplicates :: u64
  tr_reorderDrops :: u64
  tr_malformed :: u64
  tr_ssrcResets :: u64
  tr_sourceFiltered :: u64
  tr_lastFrameUnixNano :: int
  tr_rrHighestSeq :: u32
  tr_rrCumulativeLost :: u32
  tr_senderSSRC :: u32
  tr_lastSR :: u32
  tr_lastSRUnixNano :: int
  tr_srClock :: "sender_clock option"

definition track0 :: track where
  "track0 = \<lparr>tr_id = 0, tr_kind = DeliverRaw, tr_clockRate = 0, tr_law = MuLaw, tr_discard = False, tr_rtcpChannel = 0, tr_control = [],
     tr_sdpPayloadType = 0, tr_stream = stream0, tr_aac = None, tr_flac = None, tr_mp3 = None, tr_latm = None, tr_g726 = None,
     tr_latmASC = None, tr_pendingGap = 0, tr_wirePayloadType = 0, tr_wirePTSet = False, tr_ptCandidate = 0, tr_ptRun = 0,
     tr_baseTS = 0, tr_baseSet = False, tr_baselineFixed = False, tr_pcmBuf = [], tr_l16FrameSize = 0, tr_seed = 0, tr_hasSeed = False,
     tr_packets = 0, tr_payloadBytes = 0, tr_wireBytes = 0, tr_seqGaps = 0, tr_duplicates = 0, tr_reorderDrops = 0, tr_malformed = 0,
     tr_ssrcResets = 0, tr_sourceFiltered = 0, tr_lastFrameUnixNano = 0, tr_rrHighestSeq = 0, tr_rrCumulativeLost = 0,
     tr_senderSSRC = 0, tr_lastSR = 0, tr_lastSRUnixNano = 0, tr_srClock = None\<rparr>"

section \<open>Building a track\<close>

definition aacHbrMode :: bytes where "aacHbrMode = lit ''AAC-hbr''"
definition aacSamplesPerFrame :: int where "aacSamplesPerFrame = 1024"
definition payloadTypeUnknown :: int where "payloadTypeUnknown = - 1"

record aac_params =
  P_SizeLength :: int
  P_IndexLength :: int
  P_IndexDeltaLength :: int
  P_Mode :: bytes
  P_Config :: bytes

record described_track =
  dt_control :: bytes
  dt_codec :: Codec
  dt_payloadType :: int
  dt_clockRate :: int
  dt_media :: MediaKind
  dt_aac :: "aac_params option"
  dt_latmDepack :: "latm option"
  dt_latmResolved :: bool

datatype G726PackingOverride = G726PackingFromSDP | G726PackingForceRFC3551 | G726PackingForceAAL2 | G726PackingOverrideOther

record setup_options =
  so_Discard :: bool
  so_G726Packing :: G726PackingOverride

fun resolve :: "G726PackingOverride \<Rightarrow> G726Packing \<Rightarrow> G726Packing \<times> bool" where
  "resolve G726PackingFromSDP fromSDP = (fromSDP, True)"
| "resolve G726PackingForceRFC3551 fromSDP = (G726PackingRFC3551, True)"
| "resolve G726PackingForceAAL2 fromSDP = (G726PackingAAL2, True)"
| "resolve G726PackingOverrideOther fromSDP = (fromSDP, False)"

definition clockRateTicks :: "int \<Rightarrow> u64" where
  "clockRateTicks rate = (if rate \<le> 0 \<or> rate > 2 ^ 32 - 1 then 0 else word_of_int rate)"

definition configFromAAC :: "aac_params \<Rightarrow> aac_config" where
  "configFromAAC p = \<lparr>SizeLength = P_SizeLength p, IndexLength = P_IndexLength p, IndexDeltaLength = P_IndexDeltaLength p,
     SamplesPerFrame = aacSamplesPerFrame\<rparr>"

definition configureAAC :: "aac_params option \<Rightarrow> track \<Rightarrow> track" where
  "configureAAC params tr =
     (case params of
        None \<Rightarrow> tr\<lparr>tr_kind := DeliverRaw\<rparr>
      | Some p \<Rightarrow>
          if \<not> EqualFold (P_Mode p) aacHbrMode then tr\<lparr>tr_kind := DeliverRaw\<rparr>
          else (case aac_New (configFromAAC p) of
              Inl e \<Rightarrow> tr\<lparr>tr_kind := DeliverRaw\<rparr>
            | Inr dp \<Rightarrow> tr\<lparr>tr_kind := DeliverAAC, tr_aac := Some dp\<rparr>))"

definition configureG726 :: "G726BitRate \<Rightarrow> G726Packing \<Rightarrow> G726PackingOverride \<Rightarrow> track \<Rightarrow> track" where
  "configureG726 bitRate codecPacking override tr =
     (let (packing, _) = resolve override codecPacking in
      case g726_New bitRate packing of
        Inl e \<Rightarrow> tr\<lparr>tr_kind := DeliverRaw\<rparr>
      | Inr dec \<Rightarrow> tr\<lparr>tr_kind := DeliverG726, tr_g726 := Some dec\<rparr>)"

definition configureLATM :: "bytes \<Rightarrow> bool \<Rightarrow> latm option \<Rightarrow> bool \<Rightarrow> track \<Rightarrow> track option" where
  "configureLATM muxConfig present resolved alreadyResolved tr =
     (let adopt = (\<lambda>dp. case dp of
            None \<Rightarrow> tr\<lparr>tr_kind := DeliverRaw\<rparr>
          | Some d \<Rightarrow> tr\<lparr>tr_kind := DeliverLATM, tr_latm := Some d,
                         tr_latmASC := (case latm_AudioSpecificConfig d of None \<Rightarrow> tr_latmASC tr | Some asc \<Rightarrow> Some asc)\<rparr>)
      in if \<not> alreadyResolved then
           (case latm_New \<lparr>MuxConfigPresent = present, StreamMuxConfig = muxConfig, latm_SamplesPerFrame = 0\<rparr> of
              None \<Rightarrow> None
            | Some (Inl e) \<Rightarrow> Some (tr\<lparr>tr_kind := DeliverRaw\<rparr>)
            | Some (Inr d) \<Rightarrow> Some (adopt (Some d)))
         else Some (adopt resolved))"

definition resolveLATMASC :: "Codec \<Rightarrow> (Codec \<times> latm option \<times> bool) option" where
  "resolveLATMASC codec =
     (case codec of
        CodecMP4ALATM muxConfig present asc \<Rightarrow>
          if present then Some (codec, None, False)
          else (case latm_New \<lparr>MuxConfigPresent = False, StreamMuxConfig = muxConfig, latm_SamplesPerFrame = 0\<rparr> of
              None \<Rightarrow> None
            | Some (Inl e) \<Rightarrow> Some (codec, None, True)
            | Some (Inr dp) \<Rightarrow> Some (CodecMP4ALATM muxConfig present (latm_AudioSpecificConfig dp), Some dp, True))
      | _ \<Rightarrow> Some (codec, None, False))"

definition newTrack :: "int \<Rightarrow> described_track \<Rightarrow> setup_options \<Rightarrow> int \<Rightarrow> track option" where
  "newTrack i desc opts rtcpCh =
     (let tr = track0\<lparr>tr_id := i, tr_clockRate := clockRateTicks (dt_clockRate desc), tr_discard := so_Discard opts,
                      tr_rtcpChannel := rtcpCh, tr_control := dt_control desc, tr_sdpPayloadType := dt_payloadType desc\<rparr> in
      if dt_media desc \<noteq> MediaAudio then Some tr
      else (case dt_codec desc of
          CodecAAC _ \<Rightarrow> Some (configureAAC (dt_aac desc) tr)
        | CodecMP4ALATM c present _ \<Rightarrow> configureLATM c present (dt_latmDepack desc) (dt_latmResolved desc) tr
        | CodecOpus \<Rightarrow> Some (tr\<lparr>tr_kind := DeliverOpus\<rparr>)
        | CodecG711 l \<Rightarrow> Some (tr\<lparr>tr_kind := DeliverG711, tr_law := l\<rparr>)
        | CodecL16 _ channels \<Rightarrow> Some (tr\<lparr>tr_kind := DeliverL16, tr_l16FrameSize := 2 * channels\<rparr>)
        | CodecG726 bitRate packing _ _ \<Rightarrow> Some (configureG726 bitRate packing (so_G726Packing opts) tr)
        | CodecFLAC _ \<Rightarrow> Some (tr\<lparr>tr_kind := DeliverFLAC, tr_flac := Some flac_New\<rparr>)
        | CodecMP3 \<Rightarrow> Some (tr\<lparr>tr_kind := DeliverMP3, tr_mp3 := Some (mpa_New (ucast (tr_clockRate tr)))\<rparr>)
        | CodecUnknown _ \<Rightarrow> Some tr))"

section \<open>Payload types\<close>

definition ptAdoptThreshold :: nat where [caps]: "ptAdoptThreshold = 5"

definition acceptPayloadType :: "byte \<Rightarrow> track \<Rightarrow> bool \<times> track" where
  "acceptPayloadType pt tr =
     (if tr_sdpPayloadType tr = payloadTypeUnknown then
        let tr = (if \<not> tr_wirePTSet tr then tr\<lparr>tr_wirePayloadType := pt, tr_wirePTSet := True\<rparr> else tr)
        in (pt = tr_wirePayloadType tr, tr)
      else if uint pt = tr_sdpPayloadType tr then (True, tr\<lparr>tr_wirePayloadType := pt, tr_wirePTSet := True, tr_ptRun := 0\<rparr>)
      else if tr_wirePTSet tr then (pt = tr_wirePayloadType tr, tr)
      else
        let tr = (if tr_ptRun tr > 0 \<and> pt = tr_ptCandidate tr then tr\<lparr>tr_ptRun := tr_ptRun tr + 1\<rparr>
                  else tr\<lparr>tr_ptCandidate := pt, tr_ptRun := 1\<rparr>)
        in if tr_ptRun tr < ptAdoptThreshold then (False, tr)
           else (True, tr\<lparr>tr_wirePayloadType := pt, tr_wirePTSet := True\<rparr>))"

section \<open>Delivery\<close>

definition ptsOf :: "track \<Rightarrow> u64 \<Rightarrow> int" where
  "ptsOf tr ts =
     (let rate = tr_clockRate tr in
      if rate = 0 \<or> ts < tr_baseTS tr then 0
      else let delta = ts - tr_baseTS tr; sec = delta div rate in
        if sec \<ge> word_of_int maxPTSSeconds then sint (word_of_int maxPTSSeconds * 10 ^ 9 :: u64)
        else let frac = (delta mod rate) * 10 ^ 9 div rate in sint (sec * 10 ^ 9 + frac))"

definition mk_frame :: "track \<Rightarrow> bytes \<Rightarrow> rtp_packet \<Rightarrow> u64 \<Rightarrow> int \<Rightarrow> int \<Rightarrow> event" where
  "mk_frame tr data pkt ts now gap =
     EvFrame \<lparr>fr_TrackID = tr_id tr, fr_Data = data, fr_RTPTime = Timestamp (Header pkt), fr_PTS = ptsOf tr ts,
              fr_ReceivedAt = now, fr_SeqGap = gap\<rparr>"

definition count_malformed :: "track \<Rightarrow> track" where
  "count_malformed tr = tr\<lparr>tr_malformed := tr_malformed tr + 1\<rparr>"

definition fold_gap :: "update \<Rightarrow> track \<Rightarrow> track" where
  "fold_gap up tr = tr\<lparr>tr_pendingGap := tr_pendingGap tr + Gap up\<rparr>"

text \<open>The loop over the access units of a packet: data and offset of each.\<close>

fun deliver_units :: "rtp_packet \<Rightarrow> update \<Rightarrow> int \<Rightarrow> bool \<Rightarrow> nat \<Rightarrow> (bytes \<times> u32) list \<Rightarrow> track \<Rightarrow> event list \<times> track" where
  "deliver_units pkt up now onFrame i [] tr = ([], tr)"
| "deliver_units pkt up now onFrame i ((data, off) # us) tr =
     (let gap = (if i = 0 then tr_pendingGap tr else 0);
          tr = (if i = 0 then tr\<lparr>tr_pendingGap := 0\<rparr> else tr);
          out = (if onFrame then [mk_frame tr data pkt (UTimestamp up + ucast off) now gap] else []);
          (more, tr) = deliver_units pkt up now onFrame (i + 1) us tr
      in (out @ more, tr))"

definition deliverOne :: "bytes \<Rightarrow> rtp_packet \<Rightarrow> update \<Rightarrow> int \<Rightarrow> bool \<Rightarrow> track \<Rightarrow> event list \<times> track" where
  "deliverOne data pkt up now onFrame tr =
     (let gap = tr_pendingGap tr; tr = tr\<lparr>tr_pendingGap := 0\<rparr> in
      if \<not> onFrame then ([], tr) else ([mk_frame tr data pkt (UTimestamp up) now gap], tr))"

definition deliverAAC :: "rtp_packet \<Rightarrow> update \<Rightarrow> int \<Rightarrow> bool \<Rightarrow> track \<Rightarrow> (event list \<times> track) option" where
  "deliverAAC pkt up now onFrame tr =
     (let tr = fold_gap up tr in
      case tr_aac tr of
        None \<Rightarrow> None
      | Some d \<Rightarrow>
          (case aac_Depacketize d (Payload pkt, Marker (Header pkt)) of
             (None, d) \<Rightarrow> None
           | (Some (Inl e), d) \<Rightarrow> Some ([], count_malformed (tr\<lparr>tr_aac := Some d\<rparr>))
           | (Some (Inr aus), d) \<Rightarrow>
               Some (deliver_units pkt up now onFrame 0 (map (\<lambda>a. (AU_Data a, RTPOffset a)) aus) (tr\<lparr>tr_aac := Some d\<rparr>))))"

text \<open>The comparison \<open>bytes.Equal\<close> takes nil for the empty slice.\<close>

definition nil_bytes :: "bytes option \<Rightarrow> bytes" where
  "nil_bytes b = (case b of None \<Rightarrow> [] | Some bs \<Rightarrow> bs)"

definition deliverLATM :: "rtp_packet \<Rightarrow> update \<Rightarrow> int \<Rightarrow> bool \<Rightarrow> bool \<Rightarrow> track \<Rightarrow> (event list \<times> track) option" where
  "deliverLATM pkt up now onFrame onCodecUpdate tr =
     (let tr = fold_gap up tr in
      case tr_latm tr of
        None \<Rightarrow> None
      | Some d \<Rightarrow>
          (case latm_Depacketize d (Payload pkt) of
             (None, d) \<Rightarrow> None
           | (Some (Inl e), d) \<Rightarrow> Some ([], count_malformed (tr\<lparr>tr_latm := Some d\<rparr>))
           | (Some (Inr aus), d) \<Rightarrow>
               let tr = tr\<lparr>tr_latm := Some d\<rparr>;
                   changed = (latm_AudioSpecificConfig d \<noteq> None \<and> nil_bytes (latm_AudioSpecificConfig d) \<noteq> nil_bytes (tr_latmASC tr));
                   tr = (if changed then tr\<lparr>tr_latmASC := latm_AudioSpecificConfig d\<rparr> else tr);
                   ann = (if changed \<and> onCodecUpdate
                          then [EvCodec (tr_id tr) (CodecMP4ALATM [] True (latm_AudioSpecificConfig d))] else []);
                   (out, tr) = deliver_units pkt up now onFrame 0 (map (\<lambda>a. (AU_Data a, RTPOffset a)) aus) tr
               in Some (ann @ out, tr)))"

definition deliverOpus :: "rtp_packet \<Rightarrow> update \<Rightarrow> int \<Rightarrow> bool \<Rightarrow> track \<Rightarrow> (event list \<times> track) option" where
  "deliverOpus pkt up now onFrame tr =
     (let tr = fold_gap up tr in
      case opus_Depacketize (Payload pkt) of
        Inl e \<Rightarrow> Some ([], count_malformed tr)
      | Inr data \<Rightarrow> Some (deliverOne data pkt up now onFrame tr))"

text \<open>\<open>pcmBuf\<close> is the whole backing array; \<open>scratch\<close> makes it long enough, its first \<open>n\<close> bytes being the slice.\<close>

definition scratch :: "nat \<Rightarrow> track \<Rightarrow> track" where
  "scratch n tr = (if length (tr_pcmBuf tr) < n then tr\<lparr>tr_pcmBuf := replicate (n + n div 4) 0\<rparr> else tr)"

definition store_pcm :: "bytes \<Rightarrow> track \<Rightarrow> track" where
  "store_pcm dst tr = tr\<lparr>tr_pcmBuf := dst @ drop (length dst) (tr_pcmBuf tr)\<rparr>"

definition deliverG711 :: "rtp_packet \<Rightarrow> update \<Rightarrow> int \<Rightarrow> bool \<Rightarrow> track \<Rightarrow> (event list \<times> track) option" where
  "deliverG711 pkt up now onFrame tr =
     (if \<not> onFrame then Some ([], tr)
      else let n = 2 * length (Payload pkt); tr = scratch n (fold_gap up tr) in
        case g711_Depacketize (take n (tr_pcmBuf tr)) (Payload pkt) (tr_law tr) of
          None \<Rightarrow> None
        | Some (dst, n, Some e) \<Rightarrow> Some ([], count_malformed (store_pcm dst tr))
        | Some (dst, n, None) \<Rightarrow>
            do { data \<leftarrow> slice dst 0 n; Some (deliverOne data pkt up now onFrame (store_pcm dst tr)) })"

function l16_loop :: "bytes \<Rightarrow> nat \<Rightarrow> bytes \<Rightarrow> nat \<Rightarrow> bytes option" where
  "l16_loop src n dst i =
     (if i + 1 < n then do {
        a \<leftarrow> idx src (i + 1);
        b \<leftarrow> idx src i;
        if i + 1 < length dst then l16_loop src n (dst[i := a, i + 1 := b]) (i + 2) else None }
      else Some dst)"
  by pat_completeness auto
termination
  by (relation "measure (\<lambda>(src, n, dst, i). n - i)") auto

declare l16_loop.simps [simp del]

definition deliverL16 :: "rtp_packet \<Rightarrow> update \<Rightarrow> int \<Rightarrow> bool \<Rightarrow> track \<Rightarrow> (event list \<times> track) option" where
  "deliverL16 pkt up now onFrame tr =
     (let n = length (Payload pkt); frame = max (tr_l16FrameSize tr) 2 in
      if n = 0 \<or> int n mod frame \<noteq> 0 then
        let tr = count_malformed tr in Some ([], if onFrame then fold_gap up tr else tr)
      else if \<not> onFrame then Some ([], tr)
      else let tr = scratch n (fold_gap up tr) in do {
        dst \<leftarrow> l16_loop (Payload pkt) n (take n (tr_pcmBuf tr)) 0;
        data \<leftarrow> slice dst 0 n;
        Some (deliverOne data pkt up now onFrame (store_pcm dst tr)) })"

definition deliverG726 :: "rtp_packet \<Rightarrow> update \<Rightarrow> int \<Rightarrow> bool \<Rightarrow> track \<Rightarrow> (event list \<times> track) option" where
  "deliverG726 pkt up now onFrame tr =
     (if \<not> onFrame then Some ([], tr)
      else let tr = fold_gap up tr in
        case tr_g726 tr of
          None \<Rightarrow> None
        | Some d \<Rightarrow>
            let n = OutputLen d (Payload pkt); tr = scratch n tr in
            (case g726_Decode i32 d n (Payload pkt) of
               (None, d) \<Rightarrow> None
             | (Some (Inl e), d) \<Rightarrow> Some ([], count_malformed (tr\<lparr>tr_g726 := Some d\<rparr>))
             | (Some (Inr out), d) \<Rightarrow> Some (deliverOne out pkt up now onFrame (store_pcm out (tr\<lparr>tr_g726 := Some d\<rparr>)))))"

definition deliverFLAC :: "rtp_packet \<Rightarrow> update \<Rightarrow> int \<Rightarrow> bool \<Rightarrow> track \<Rightarrow> (event list \<times> track) option" where
  "deliverFLAC pkt up now onFrame tr =
     (let tr = fold_gap up tr in
      case tr_flac tr of
        None \<Rightarrow> None
      | Some d \<Rightarrow>
          (case flac_Depacketize d (Payload pkt, Marker (Header pkt), Timestamp (Header pkt)) of
             (None, d) \<Rightarrow> None
           | (Some (Inl e), d) \<Rightarrow> Some ([], count_malformed (tr\<lparr>tr_flac := Some d\<rparr>))
           | (Some (Inr None), d) \<Rightarrow> Some ([], tr\<lparr>tr_flac := Some d\<rparr>)
           | (Some (Inr (Some data)), d) \<Rightarrow> Some (deliverOne data pkt up now onFrame (tr\<lparr>tr_flac := Some d\<rparr>))))"

definition deliverMP3 :: "rtp_packet \<Rightarrow> update \<Rightarrow> int \<Rightarrow> bool \<Rightarrow> track \<Rightarrow> (event list \<times> track) option" where
  "deliverMP3 pkt up now onFrame tr =
     (let tr = fold_gap up tr in
      case tr_mp3 tr of
        None \<Rightarrow> None
      | Some d \<Rightarrow>
          (case mpa_Depacketize d (Payload pkt, Timestamp (Header pkt)) of
             (None, d) \<Rightarrow> None
           | (Some (Inl e), d) \<Rightarrow> Some ([], count_malformed (tr\<lparr>tr_mp3 := Some d\<rparr>))
           | (Some (Inr frames), d) \<Rightarrow>
               Some (deliver_units pkt up now onFrame 0 (map (\<lambda>f. (MF_Data f, MF_RTPOffset f)) frames) (tr\<lparr>tr_mp3 := Some d\<rparr>))))"

definition deliverRaw :: "rtp_packet \<Rightarrow> update \<Rightarrow> int \<Rightarrow> bool \<Rightarrow> track \<Rightarrow> (event list \<times> track) option" where
  "deliverRaw pkt up now onFrame tr = Some (deliverOne (Payload pkt) pkt up now onFrame (fold_gap up tr))"

definition deliver :: "rtp_packet \<Rightarrow> update \<Rightarrow> int \<Rightarrow> bool \<Rightarrow> track \<Rightarrow> (event list \<times> track) option" where
  "deliver pkt up now onFrame tr =
     (case tr_kind tr of
        DeliverAAC \<Rightarrow> deliverAAC pkt up now onFrame tr
      | DeliverOpus \<Rightarrow> deliverOpus pkt up now onFrame tr
      | DeliverG711 \<Rightarrow> deliverG711 pkt up now onFrame tr
      | DeliverL16 \<Rightarrow> deliverL16 pkt up now onFrame tr
      | DeliverG726 \<Rightarrow> deliverG726 pkt up now onFrame tr
      | DeliverFLAC \<Rightarrow> deliverFLAC pkt up now onFrame tr
      | DeliverMP3 \<Rightarrow> deliverMP3 pkt up now onFrame tr
      | DeliverLATM \<Rightarrow> deliverLATM pkt up now onFrame False tr
      | DeliverRaw \<Rightarrow> deliverRaw pkt up now onFrame tr)"

section \<open>One packet\<close>

definition resetDepacketizer :: "bool \<Rightarrow> track \<Rightarrow> track option" where
  "resetDepacketizer onSSRCChange tr =
     (let tr = (if onSSRCChange then tr\<lparr>tr_pendingGap := 0\<rparr> else tr);
          tr = tr\<lparr>tr_aac := map_option aac_Reset (tr_aac tr)\<rparr>;
          tr = tr\<lparr>tr_flac := map_option flac_Reset (tr_flac tr)\<rparr>;
          tr = tr\<lparr>tr_mp3 := map_option mpa_Reset (tr_mp3 tr)\<rparr>;
          tr = (if onSSRCChange then tr\<lparr>tr_g726 := map_option g726_Reset (tr_g726 tr)\<rparr> else tr)
      in if onSSRCChange then
           (case tr_latm tr of
              None \<Rightarrow> Some tr
            | Some d \<Rightarrow> do { d \<leftarrow> latm_Reset d; Some (tr\<lparr>tr_latm := Some d, tr_latmASC := latm_AudioSpecificConfig d\<rparr>) })
         else Some tr)"

definition cumulativeLost :: "u64 \<Rightarrow> u32" where
  "cumulativeLost n = (if n > 0x7FFFFF then 0x7FFFFF else ucast n)"

definition publishRRSnapshot :: "track \<Rightarrow> track" where
  "publishRRSnapshot tr =
     (let st = Stream_Stats (tr_stream tr) in
      tr\<lparr>tr_rrHighestSeq := ExtendedHighestSeq st, tr_rrCumulativeLost := cumulativeLost (SeqGaps st), tr_duplicates := Duplicates st\<rparr>)"

definition seededOrigin :: "track \<Rightarrow> u64 \<Rightarrow> u64" where
  "seededOrigin tr firstTS =
     (if \<not> tr_baselineFixed tr \<and> tr_hasSeed tr \<and> tr_seed tr \<le> firstTS then tr_seed tr else firstTS)"

record callbacks =
  cb_OnFrame :: bool
  cb_OnCodecUpdate :: bool

text \<open>The stages of \<open>process\<close>: a new source, the baseline, a gap, the delivery and the counters.\<close>

definition source_change :: "update \<Rightarrow> track \<Rightarrow> track option" where
  "source_change up tr =
     (if SSRCReset up then
        map_option (\<lambda>tr. tr\<lparr>tr_srClock := None\<rparr>)
          (resetDepacketizer True (tr\<lparr>tr_ssrcResets := tr_ssrcResets tr + 1, tr_baseSet := False\<rparr>))
      else Some tr)"

definition baseline :: "rtp_packet \<Rightarrow> update \<Rightarrow> track \<Rightarrow> track" where
  "baseline pkt up tr =
     (if \<not> tr_baseSet tr then
        tr\<lparr>tr_senderSSRC := SSRC (Header pkt), tr_baseTS := seededOrigin tr (UTimestamp up), tr_baseSet := True, tr_baselineFixed := True\<rparr>
      else tr)"

definition gap_reset :: "update \<Rightarrow> track \<Rightarrow> track option" where
  "gap_reset up tr =
     (if Gap up > 0 then resetDepacketizer False (tr\<lparr>tr_seqGaps := tr_seqGaps tr + word_of_int (Gap up)\<rparr>) else Some tr)"

definition dispatch :: "callbacks \<Rightarrow> rtp_packet \<Rightarrow> update \<Rightarrow> int \<Rightarrow> track \<Rightarrow> (event list \<times> track) option" where
  "dispatch cb pkt up now tr =
     (if tr_kind tr = DeliverLATM then deliverLATM pkt up now (cb_OnFrame cb) (cb_OnCodecUpdate cb) tr
      else deliver pkt up now (cb_OnFrame cb) tr)"

definition count_packet :: "rtp_packet \<Rightarrow> track \<Rightarrow> track" where
  "count_packet pkt tr =
     publishRRSnapshot (tr\<lparr>tr_packets := tr_packets tr + 1, tr_payloadBytes := tr_payloadBytes tr + word_of_nat (length (Payload pkt))\<rparr>)"

definition process :: "callbacks \<Rightarrow> rtp_packet \<Rightarrow> int \<Rightarrow> track \<Rightarrow> (bool \<times> event list \<times> track) option" where
  "process cb pkt now tr =
     (case acceptPayloadType (PayloadType (Header pkt)) tr of
        (False, tr) \<Rightarrow> Some (False, [], count_malformed tr)
      | (True, tr) \<Rightarrow>
          (case Observe (tr_stream tr) (Header pkt) of (up, st) \<Rightarrow> do {
             tr \<leftarrow> source_change up (tr\<lparr>tr_stream := st\<rparr>);
             tr \<leftarrow> gap_reset up (baseline pkt up tr);
             (out, tr) \<leftarrow> dispatch cb pkt up now tr;
             Some (True, out, count_packet pkt tr) }))"

definition handleRTCP :: "bytes \<Rightarrow> int \<Rightarrow> track \<Rightarrow> (bool \<times> track) option" where
  "handleRTCP payload now tr =
     (case ParseCompound payload of
        None \<Rightarrow> None
      | Some (Inl e) \<Rightarrow> Some (False, tr)
      | Some (Inr []) \<Rightarrow> Some (False, tr)
      | Some (Inr (r # rs)) \<Rightarrow>
          let sr = (if tr_senderSSRC tr \<noteq> 0 then List.find (\<lambda>x. SR_SSRC x = tr_senderSSRC tr) (r # rs) else Some r) in
          (case sr of
             None \<Rightarrow> Some (True, tr)
           | Some sr \<Rightarrow>
               let tr = tr\<lparr>tr_senderSSRC := SR_SSRC sr, tr_lastSR := ucast (drop_bit 16 (NTPTimestamp sr)), tr_lastSRUnixNano := now\<rparr>
               in Some (True, if tr_baseSet tr then tr\<lparr>tr_srClock := SenderClockFrom sr now (uint (tr_clockRate tr))\<rparr> else tr)))"


section \<open>What every packet keeps\<close>

definition track_ok :: "track \<Rightarrow> bool" where
  "track_ok tr \<longleftrightarrow>
     (tr_kind tr = DeliverAAC \<longrightarrow> tr_aac tr \<noteq> None) \<and> (tr_kind tr = DeliverFLAC \<longrightarrow> tr_flac tr \<noteq> None)
   \<and> (tr_kind tr = DeliverMP3 \<longrightarrow> tr_mp3 tr \<noteq> None) \<and> (tr_kind tr = DeliverLATM \<longrightarrow> tr_latm tr \<noteq> None)
   \<and> (tr_kind tr = DeliverG726 \<longrightarrow> tr_g726 tr \<noteq> None)
   \<and> pred_option aac_inv (tr_aac tr) \<and> pred_option flac_inv (tr_flac tr) \<and> pred_option mpa_inv (tr_mp3 tr)
   \<and> pred_option latm_inv (tr_latm tr) \<and> pred_option g726_ok (tr_g726 tr)
   \<and> 0 \<le> tr_pendingGap tr \<and> (tr_baseSet tr \<longrightarrow> tr_baselineFixed tr)"

text \<open>What no delivery touches.\<close>

definition core :: "track \<Rightarrow> _" where
  "core tr = (tr_id tr, tr_kind tr, tr_clockRate tr, tr_sdpPayloadType tr, tr_stream tr, tr_wirePayloadType tr, tr_wirePTSet tr,
     tr_baseTS tr, tr_baseSet tr, tr_seqGaps tr, tr_hasSeed tr, tr_baselineFixed tr,
     tr_rtcpChannel tr, tr_control tr, tr_discard tr)"

text \<open>What nothing touches once the track is built.\<close>

definition fixed :: "track \<Rightarrow> _" where
  "fixed tr = (tr_id tr, tr_kind tr, tr_clockRate tr, tr_sdpPayloadType tr, tr_rtcpChannel tr, tr_control tr, tr_discard tr)"

lemma core_fixed: "core a = core b \<Longrightarrow> fixed a = fixed b"
  by (simp add: core_def fixed_def)

fun gap_of :: "event \<Rightarrow> int" where
  "gap_of (EvFrame f) = fr_SeqGap f"
| "gap_of (EvCodec i c) = 0"

fun ev_track :: "event \<Rightarrow> int" where
  "ev_track (EvFrame f) = fr_TrackID f"
| "ev_track (EvCodec i c) = i"

definition gaps_of :: "event list \<Rightarrow> int" where
  "gaps_of evs = sum_list (map gap_of evs)"

lemma gaps_of_simps [simp]: "gaps_of [] = 0" "gaps_of (e # es) = gap_of e + gaps_of es" "gaps_of (xs @ ys) = gaps_of xs + gaps_of ys"
  by (simp_all add: gaps_of_def)

lemma gap_mk_frame [simp]: "gap_of (mk_frame tr data pkt ts now gap) = gap"
  by (simp add: mk_frame_def)

text \<open>A delivery succeeds, keeps the invariant, neither loses nor repeats a gap, and speaks for its own track only.\<close>

definition delivers :: "update \<Rightarrow> bool \<Rightarrow> track \<Rightarrow> (event list \<times> track) option \<Rightarrow> bool" where
  "delivers up onFrame tr r \<longleftrightarrow> (\<exists>out tr'. r = Some (out, tr') \<and> track_ok tr' \<and> core tr' = core tr
     \<and> (onFrame \<longrightarrow> gaps_of out + tr_pendingGap tr' = tr_pendingGap tr + Gap up) \<and> (\<not> onFrame \<longrightarrow> (\<forall>f. EvFrame f \<notin> set out))
     \<and> (\<forall>e \<in> set out. ev_track e = tr_id tr))"

lemma deliver_units_state: "snd (deliver_units pkt up now onFrame i us tr) = (if us \<noteq> [] \<and> i = 0 then tr\<lparr>tr_pendingGap := 0\<rparr> else tr)"
  by (induction pkt up now onFrame i us tr rule: deliver_units.induct) (auto simp: Let_def split_def)

lemma deliver_units_gaps:
  "onFrame \<Longrightarrow> gaps_of (fst (deliver_units pkt up now onFrame i us tr)) = (if us \<noteq> [] \<and> i = 0 then tr_pendingGap tr else 0)"
  by (induction pkt up now onFrame i us tr rule: deliver_units.induct) (auto simp: Let_def split_def)

lemma deliver_units_silent: "\<not> onFrame \<Longrightarrow> fst (deliver_units pkt up now onFrame i us tr) = []"
  by (induction pkt up now onFrame i us tr rule: deliver_units.induct) (auto simp: Let_def split_def)

lemma deliver_units_owner: "e \<in> set (fst (deliver_units pkt up now onFrame i us tr)) \<Longrightarrow> ev_track e = tr_id tr"
  by (induction pkt up now onFrame i us tr rule: deliver_units.induct) (auto simp: Let_def split_def mk_frame_def split: if_splits)

lemma core_id: "core a = core b \<Longrightarrow> tr_id a = tr_id b"
  by (simp add: core_def)

lemma track_ok_gap: "track_ok tr \<Longrightarrow> track_ok (tr\<lparr>tr_pendingGap := 0\<rparr>)"
  by (simp add: track_ok_def)

lemma core_gap: "core (tr\<lparr>tr_pendingGap := n\<rparr>) = core tr"
  by (simp add: core_def)

lemma delivers_units:
  assumes "track_ok tr'" "core tr' = core tr" "tr_pendingGap tr' = tr_pendingGap tr + Gap up" "gaps_of ann = 0" "\<And>f. EvFrame f \<notin> set ann"
    "\<And>e. e \<in> set ann \<Longrightarrow> ev_track e = tr_id tr"
  shows "delivers up onFrame tr (case deliver_units pkt up now onFrame 0 us tr' of (out, tr) \<Rightarrow> Some (ann @ out, tr))"
proof -
  obtain out tr'' where r: "deliver_units pkt up now onFrame 0 us tr' = (out, tr'')" by fastforce
  have "tr'' = (if us \<noteq> [] then tr'\<lparr>tr_pendingGap := 0\<rparr> else tr')" using deliver_units_state [of pkt up now onFrame 0 us tr'] r by simp
  moreover have "e \<in> set out \<Longrightarrow> ev_track e = tr_id tr" for e
    using deliver_units_owner [of e pkt up now onFrame 0 us tr'] core_id [OF assms(2)] r by simp
  ultimately show ?thesis using r assms deliver_units_gaps [of onFrame pkt up now 0 us tr'] deliver_units_silent [of onFrame pkt up now 0 us tr']
    by (cases onFrame) (auto simp: delivers_def track_ok_gap core_gap)
qed

lemma delivers_One:
  assumes "track_ok tr'" "core tr' = core tr" "tr_pendingGap tr' = tr_pendingGap tr + Gap up"
  shows "delivers up onFrame tr (Some (deliverOne data pkt up now onFrame tr'))"
  using assms core_id [OF assms(2)] by (auto simp: delivers_def deliverOne_def Let_def track_ok_gap core_gap mk_frame_def)

lemma delivers_nothing:
  assumes "track_ok tr'" "core tr' = core tr" "onFrame \<longrightarrow> tr_pendingGap tr' = tr_pendingGap tr + Gap up"
  shows "delivers up onFrame tr (Some ([], tr'))"
  using assms by (simp add: delivers_def)

lemma track_ok_fold: "track_ok tr \<Longrightarrow> 0 \<le> Gap up \<Longrightarrow> track_ok (fold_gap up tr)"
  by (simp add: track_ok_def fold_gap_def)

lemmas track_simps = fold_gap_def count_malformed_def store_pcm_def scratch_def core_def

lemma deliverAAC_ok:
  assumes "track_ok tr" "0 \<le> Gap up" "tr_kind tr = DeliverAAC"
  shows "delivers up onFrame tr (deliverAAC pkt up now onFrame tr)"
proof -
  obtain d where d: "tr_aac tr = Some d" "aac_inv d" using assms by (auto simp: track_ok_def)
  obtain r d' where r: "aac_Depacketize d (Payload pkt, Marker (Header pkt)) = (r, d')" by fastforce
  have d': "aac_inv d'" "r \<noteq> None" using aac_step_inv [OF d(2), of "(Payload pkt, Marker (Header pkt))"] aac_step_no_panic [OF d(2)] r
    by (metis snd_conv, metis fst_conv)
  have ok: "track_ok (fold_gap up tr\<lparr>tr_aac := Some d'\<rparr>)" using track_ok_fold [OF assms(1,2)] d'(1) by (simp add: track_ok_def)
  show ?thesis
  proof (cases r rule: go_cases)
    case (Err e)
    then show ?thesis using d r ok by (auto simp: deliverAAC_def track_simps track_ok_def intro!: delivers_nothing)
  next
    case (Ok aus)
    then show ?thesis using d r delivers_units [OF ok, of tr up "[]" onFrame pkt now] by (simp add: deliverAAC_def track_simps)
  qed (use d' in simp)
qed

lemma deliverFLAC_ok:
  assumes "track_ok tr" "0 \<le> Gap up" "tr_kind tr = DeliverFLAC"
  shows "delivers up onFrame tr (deliverFLAC pkt up now onFrame tr)"
proof -
  obtain d where d: "tr_flac tr = Some d" "flac_inv d" using assms by (auto simp: track_ok_def)
  obtain r d' where r: "flac_Depacketize d (Payload pkt, Marker (Header pkt), Timestamp (Header pkt)) = (r, d')" by fastforce
  have d': "flac_inv d'" "r \<noteq> None" using flac.step_inv [OF d(2), of "(Payload pkt, Marker (Header pkt), Timestamp (Header pkt))"]
      flac.step_no_panic [OF d(2), of "(Payload pkt, Marker (Header pkt), Timestamp (Header pkt))"] r by auto
  have ok: "track_ok (fold_gap up tr\<lparr>tr_flac := Some d'\<rparr>)" using track_ok_fold [OF assms(1,2)] d'(1) by (simp add: track_ok_def)
  show ?thesis
  proof (cases r rule: go_cases)
    case (Err e)
    then show ?thesis using d r ok by (auto simp: deliverFLAC_def track_simps track_ok_def intro!: delivers_nothing)
  next
    case (Ok x)
    then show ?thesis using d r ok delivers_One [OF ok, of tr up onFrame _ pkt now] delivers_nothing [OF ok, of tr onFrame up]
      by (cases x) (simp_all add: deliverFLAC_def track_simps)
  qed (use d' in simp)
qed

lemma deliverMP3_ok:
  assumes "track_ok tr" "0 \<le> Gap up" "tr_kind tr = DeliverMP3"
  shows "delivers up onFrame tr (deliverMP3 pkt up now onFrame tr)"
proof -
  obtain d where d: "tr_mp3 tr = Some d" "mpa_inv d" using assms by (auto simp: track_ok_def)
  obtain r d' where r: "mpa_Depacketize d (Payload pkt, Timestamp (Header pkt)) = (r, d')" by fastforce
  have d': "mpa_inv d'" "r \<noteq> None" using mpa.step_inv [OF d(2), of "(Payload pkt, Timestamp (Header pkt))"]
      mpa.step_no_panic [OF d(2), of "(Payload pkt, Timestamp (Header pkt))"] r by auto
  have ok: "track_ok (fold_gap up tr\<lparr>tr_mp3 := Some d'\<rparr>)" using track_ok_fold [OF assms(1,2)] d'(1) by (simp add: track_ok_def)
  show ?thesis
  proof (cases r rule: go_cases)
    case (Err e)
    then show ?thesis using d r ok by (auto simp: deliverMP3_def track_simps track_ok_def intro!: delivers_nothing)
  next
    case (Ok frames)
    then show ?thesis using d r delivers_units [OF ok, of tr up "[]" onFrame pkt now] by (simp add: deliverMP3_def track_simps)
  qed (use d' in simp)
qed

lemma deliverLATM_ok:
  assumes "track_ok tr" "0 \<le> Gap up" "tr_kind tr = DeliverLATM"
  shows "delivers up onFrame tr (deliverLATM pkt up now onFrame onCodecUpdate tr)"
proof -
  obtain d where d: "tr_latm tr = Some d" "latm_inv d" using assms by (auto simp: track_ok_def)
  obtain r d' where r: "latm_Depacketize d (Payload pkt) = (r, d')" by fastforce
  have d': "latm_inv d'" "r \<noteq> None" using latm_Depacketize_ok [OF d(2), of "Payload pkt"] r by auto
  have ok: "track_ok (fold_gap up tr\<lparr>tr_latm := Some d', tr_latmASC := asc\<rparr>)" for asc
    using track_ok_fold [OF assms(1,2)] d'(1) by (simp add: track_ok_def)
  show ?thesis
  proof (cases r rule: go_cases)
    case (Err e)
    then show ?thesis using d r ok [of "tr_latmASC tr"] by (auto simp: deliverLATM_def track_simps track_ok_def intro!: delivers_nothing)
  next
    case (Ok aus)
    define asc changed where "asc = latm_AudioSpecificConfig d'" and "changed = (asc \<noteq> None \<and> nil_bytes asc \<noteq> nil_bytes (tr_latmASC tr))"
    define ann where "ann = (if changed \<and> onCodecUpdate then [EvCodec (tr_id tr) (CodecMP4ALATM [] True asc)] else [])"
    define tr' where "tr' = (if changed then fold_gap up tr\<lparr>tr_latm := Some d', tr_latmASC := asc\<rparr> else fold_gap up tr\<lparr>tr_latm := Some d'\<rparr>)"
    have tr': "track_ok tr'" "core tr' = core tr" "tr_pendingGap tr' = tr_pendingGap tr + Gap up"
      using ok [of asc] ok [of "tr_latmASC tr"] by (auto simp: tr'_def track_simps)
    have "deliverLATM pkt up now onFrame onCodecUpdate tr
        = (case deliver_units pkt up now onFrame 0 (map (\<lambda>a. (AU_Data a, RTPOffset a)) aus) tr' of (out, tr) \<Rightarrow> Some (ann @ out, tr))"
      using d r Ok by (simp add: deliverLATM_def Let_def tr'_def ann_def changed_def asc_def fold_gap_def split_def)
    then show ?thesis using delivers_units [OF tr', of ann onFrame pkt now] by (simp add: ann_def)
  qed (use d' in simp)
qed

lemma deliverG711_ok:
  assumes "track_ok tr" "0 \<le> Gap up"
  shows "delivers up onFrame tr (deliverG711 pkt up now onFrame tr)"
proof (cases onFrame)
  case True
  define n tr' where "n = 2 * length (Payload pkt)" and "tr' = scratch n (fold_gap up tr)"
  have tr': "track_ok tr'" "core tr' = core tr" "tr_pendingGap tr' = tr_pendingGap tr + Gap up" "n \<le> length (tr_pcmBuf tr')"
    using assms by (auto simp: tr'_def track_simps track_ok_def)
  have keep: "track_ok (store_pcm dst tr')" "core (store_pcm dst tr') = core tr" "tr_pendingGap (store_pcm dst tr') = tr_pendingGap tr + Gap up" for dst
    using tr' by (auto simp: track_simps track_ok_def)
  have len: "length (concat (map (\<lambda>b. le_sample (expand l b)) bs)) = 2 * length bs" for l bs
    by (induction bs) (simp_all add: le_sample_def Let_def)
  obtain dst m e where g: "g711_Depacketize (take n (tr_pcmBuf tr')) (Payload pkt) (tr_law tr') = Some (dst, m, e)" "m \<le> length dst"
    using g711_Depacketize_spec [of "take n (tr_pcmBuf tr')" "Payload pkt" "tr_law tr'"] by (auto simp: len split: if_splits)
  show ?thesis
  proof (cases e)
    case None
    then show ?thesis using True g delivers_One [OF keep, where onFrame = True] by (simp add: deliverG711_def Let_def tr'_def [symmetric] n_def [symmetric])
  next
    case (Some x)
    then show ?thesis using True g keep
      by (auto simp: deliverG711_def Let_def tr'_def [symmetric] n_def [symmetric] track_ok_def count_malformed_def core_def intro!: delivers_nothing)
  qed
qed (use assms in \<open>auto simp: deliverG711_def intro!: delivers_nothing\<close>)


lemma l16_loop_total: "n \<le> length src \<Longrightarrow> n \<le> length dst \<Longrightarrow> \<exists>out. l16_loop src n dst i = Some out \<and> length out = length dst"
proof (induction src n dst i rule: l16_loop.induct)
  case (1 src n dst i)
  show ?case
  proof (cases "i + 1 < n")
    case True
    then have "\<exists>out. l16_loop src n (dst[i := src ! (i + 1), i + 1 := src ! i]) (i + 2) = Some out \<and> length out = length dst"
      using "1.IH" [of "src ! (i + 1)" "src ! i"] "1.prems" by simp
    then show ?thesis using True "1.prems" by (subst l16_loop.simps) simp
  qed (subst l16_loop.simps, simp)
qed

lemma deliverL16_ok:
  assumes "track_ok tr" "0 \<le> Gap up"
  shows "delivers up onFrame tr (deliverL16 pkt up now onFrame tr)"
proof -
  define n tr' where "n = length (Payload pkt)" and "tr' = scratch n (fold_gap up tr)"
  have tr': "track_ok tr'" "core tr' = core tr" "tr_pendingGap tr' = tr_pendingGap tr + Gap up" "n \<le> length (tr_pcmBuf tr')"
    using assms by (auto simp: tr'_def track_simps track_ok_def)
  have keep: "track_ok (store_pcm dst tr')" "core (store_pcm dst tr') = core tr" "tr_pendingGap (store_pcm dst tr') = tr_pendingGap tr + Gap up" for dst
    using tr' by (auto simp: track_simps track_ok_def)
  obtain dst where dst: "l16_loop (Payload pkt) n (take n (tr_pcmBuf tr')) 0 = Some dst" "length dst = n"
    using l16_loop_total [of n "Payload pkt" "take n (tr_pcmBuf tr')" 0] tr'(4) by (auto simp: n_def)
  have bad: "delivers up onFrame tr (Some ([], if onFrame then fold_gap up (count_malformed tr) else count_malformed tr))"
    using assms by (auto simp: track_simps track_ok_def intro!: delivers_nothing)
  show ?thesis
    unfolding deliverL16_def Let_def n_def [symmetric] tr'_def [symmetric]
    using bad dst delivers_One [OF keep [of dst], of onFrame _ pkt now] delivers_nothing [OF assms(1), of tr onFrame up] by auto
qed

lemma deliverG726_ok:
  assumes "track_ok tr" "0 \<le> Gap up" "tr_kind tr = DeliverG726"
  shows "delivers up onFrame tr (deliverG726 pkt up now onFrame tr)"
proof (cases onFrame)
  case True
  obtain d where d: "tr_g726 tr = Some d" "g726_ok d" using assms by (auto simp: track_ok_def)
  define n where "n = OutputLen d (Payload pkt)"
  obtain r d' where r: "g726_Decode i32 d n (Payload pkt) = (r, d')" by fastforce
  have d': "g726_ok d'" "r \<noteq> None" using g726.step_inv [OF d(2), of "Feed n (Payload pkt)"] g726.step_good [OF d(2), of "Feed n (Payload pkt)"] r by auto
  have ok: "track_ok (scratch n (fold_gap up tr)\<lparr>tr_g726 := Some d'\<rparr>)" using assms d'(1) by (auto simp: track_ok_def track_simps)
  then have ok': "track_ok (store_pcm out (scratch n (fold_gap up tr)\<lparr>tr_g726 := Some d'\<rparr>))" for out
    by (simp add: track_ok_def store_pcm_def)
  show ?thesis
  proof (cases r rule: go_cases)
    case (Err e)
    then show ?thesis using True d r ok by (auto simp: deliverG726_def n_def [symmetric] Let_def track_simps track_ok_def intro!: delivers_nothing)
  next
    case (Ok out)
    then show ?thesis using True d r delivers_One [OF ok' [of out], of tr up True out pkt now]
      by (auto simp: deliverG726_def n_def [symmetric] Let_def track_simps)
  qed (use d' in simp)
qed (use assms in \<open>auto simp: deliverG726_def intro!: delivers_nothing\<close>)

lemma deliver_ok:
  assumes "track_ok tr" "0 \<le> Gap up"
  shows "delivers up onFrame tr (if tr_kind tr = DeliverLATM then deliverLATM pkt up now onFrame onCodecUpdate tr else deliver pkt up now onFrame tr)"
proof (cases "tr_kind tr")
  case DeliverOpus
  then show ?thesis using assms delivers_One [of "fold_gap up tr" tr up onFrame _ pkt now]
      delivers_nothing [of "count_malformed (fold_gap up tr)" tr onFrame up]
    by (auto simp: deliver_def deliverOpus_def Let_def track_simps track_ok_def split: sum.split)
next
  case DeliverRaw
  then show ?thesis using delivers_One [OF track_ok_fold [OF assms], of tr up onFrame _ pkt now]
    by (simp add: deliver_def deliverRaw_def track_simps)
qed (simp_all add: deliver_def deliverAAC_ok deliverFLAC_ok deliverMP3_ok deliverLATM_ok deliverG711_ok deliverL16_ok deliverG726_ok assms)

lemma reset_ok:
  assumes "track_ok tr"
  shows "\<exists>tr'. resetDepacketizer b tr = Some tr' \<and> track_ok tr' \<and> core tr' = core tr
    \<and> tr_pendingGap tr' = (if b then 0 else tr_pendingGap tr) \<and> tr_malformed tr' = tr_malformed tr"
proof -
  have "pred_option aac_inv (map_option aac_Reset (tr_aac tr))" using assms aac.reset_inv by (cases "tr_aac tr") (simp_all add: track_ok_def)
  moreover have "pred_option flac_inv (map_option flac_Reset (tr_flac tr))" using assms flac.reset_inv by (cases "tr_flac tr") (simp_all add: track_ok_def)
  moreover have "pred_option mpa_inv (map_option mpa_Reset (tr_mp3 tr))" using assms mpa.reset_inv by (cases "tr_mp3 tr") (simp_all add: track_ok_def)
  moreover have "pred_option g726_ok (map_option g726_Reset (tr_g726 tr))"
    using assms g726.step_inv [of _ Restart] by (cases "tr_g726 tr") (simp_all add: track_ok_def)
  ultimately have inv: "pred_option aac_inv (map_option aac_Reset (tr_aac tr))" "pred_option flac_inv (map_option flac_Reset (tr_flac tr))"
    "pred_option mpa_inv (map_option mpa_Reset (tr_mp3 tr))" "pred_option g726_ok (map_option g726_Reset (tr_g726 tr))" by auto
  show ?thesis
  proof (cases "b \<and> tr_latm tr \<noteq> None")
    case True
    then obtain d where d: "tr_latm tr = Some d" by auto
    then obtain d' where "latm_Reset d = Some d'" "latm_inv d'" using latm_Reset_total [of d] assms by (auto simp: track_ok_def)
    then show ?thesis using True d inv assms by (simp add: resetDepacketizer_def Let_def track_ok_def core_def)
  next
    case False
    then show ?thesis using inv assms by (auto simp: resetDepacketizer_def Let_def track_ok_def core_def)
  qed
qed


lemma latm_New_cases:
  obtains e where "latm_New c = err e" | d where "latm_New c = ok d" "latm_inv d"
  using latm_New_sat [of c] by (cases "latm_New c" rule: go_cases) auto

lemma resolveLATMASC_ok: "\<exists>c dp b. resolveLATMASC codec = Some (c, dp, b) \<and> pred_option latm_inv dp"
proof (cases codec)
  case (CodecMP4ALATM m present asc)
  then show ?thesis
    by (cases rule: latm_New_cases [of "\<lparr>MuxConfigPresent = False, StreamMuxConfig = m, latm_SamplesPerFrame = 0\<rparr>"])
      (auto simp: resolveLATMASC_def)
qed (auto simp: resolveLATMASC_def)

lemma mpa_New_ok: "mpa_inv (mpa_New r)"
  by (simp add: mpa_inv_def mpa_New_def)

lemma newTrack_ok:
  assumes "resolveLATMASC codec = Some (dt_codec desc, dt_latmDepack desc, dt_latmResolved desc)"
  shows "\<exists>tr. newTrack i desc opts ch = Some tr \<and> track_ok tr \<and> tr_stream tr = stream0 \<and> tr_seqGaps tr = 0 \<and> tr_pendingGap tr = 0
    \<and> \<not> tr_baseSet tr \<and> \<not> tr_baselineFixed tr \<and> \<not> tr_hasSeed tr \<and> \<not> tr_wirePTSet tr \<and> tr_id tr = i
    \<and> tr_clockRate tr = clockRateTicks (dt_clockRate desc) \<and> tr_sdpPayloadType tr = dt_payloadType desc"
proof -
  define tr where "tr = track0\<lparr>tr_id := i, tr_clockRate := clockRateTicks (dt_clockRate desc), tr_discard := so_Discard opts,
                      tr_rtcpChannel := ch, tr_control := dt_control desc, tr_sdpPayloadType := dt_payloadType desc\<rparr>"
  define fresh where "fresh = (\<lambda>t. track_ok t \<and> tr_stream t = stream0 \<and> tr_seqGaps t = 0 \<and> tr_pendingGap t = 0
    \<and> \<not> tr_baseSet t \<and> \<not> tr_baselineFixed t \<and> \<not> tr_hasSeed t \<and> \<not> tr_wirePTSet t \<and> tr_id t = i
    \<and> tr_clockRate t = clockRateTicks (dt_clockRate desc) \<and> tr_sdpPayloadType t = dt_payloadType desc)"
  note f = fresh_def track_ok_def tr_def track0_def
  have dp: "pred_option latm_inv (dt_latmDepack desc)" using resolveLATMASC_ok [of codec] assms by auto
  have aac: "fresh (configureAAC p tr)" for p
    using aac_New_inv by (auto simp: configureAAC_def f split: option.split sum.split)
  have g726: "fresh (configureG726 b pk ov tr)" for b pk ov
    using g726_New_ok by (auto simp: configureG726_def f split: sum.split prod.split)
  have latm: "\<exists>t. configureLATM m p (dt_latmDepack desc) r tr = Some t \<and> fresh t" for m p r
  proof (cases rule: latm_New_cases [of "\<lparr>MuxConfigPresent = p, StreamMuxConfig = m, latm_SamplesPerFrame = 0\<rparr>"])
    case (1 e)
    then show ?thesis using dp by (auto simp: configureLATM_def Let_def f split: option.split)
  next
    case (2 d)
    then show ?thesis using dp by (auto simp: configureLATM_def Let_def f split: option.split)
  qed
  have "\<exists>t. newTrack i desc opts ch = Some t \<and> fresh t"
  proof (cases "dt_media desc = MediaAudio")
    case True
    then show ?thesis unfolding newTrack_def tr_def [symmetric] Let_def
      using aac g726 latm mpa_New_ok by (cases "dt_codec desc") (auto simp: f flac_New_def flac_inv_def)
  qed (auto simp: newTrack_def f Let_def)
  then show ?thesis by (simp add: fresh_def)
qed

section \<open>One packet\<close>

lemma Observe_gap: "Observe s h = (up, s') \<Longrightarrow> 0 \<le> Gap up \<and> st_seqGaps s' = st_seqGaps s + word_of_int (Gap up)"
proof -
  assume obs: "Observe s h = (up, s')"
  have "0 < uint (a - b)" if "a \<noteq> b" for a b :: u16
  proof -
    have "uint (a - b) \<noteq> 0" using that uint_0_iff [of "a - b"] by auto
    then show ?thesis using uint_ge_0 [of "a - b"] by linarith
  qed
  then show ?thesis using obs by (auto simp: Observe_def Let_def split: if_splits prod.splits)
qed

lemma Observe_ssrc:
  "Observe s h = (up, s') \<Longrightarrow> st_init s' \<and> st_ssrc s' = SSRC h \<and> (SSRCReset up \<longleftrightarrow> st_init s \<and> st_ssrc s \<noteq> SSRC h)"
  by (auto simp: Observe_def Let_def split: if_splits prod.splits)

lemma accept_fields:
  "acceptPayloadType pt tr = (b, tr') \<Longrightarrow> \<exists>w s c r. tr' = tr\<lparr>tr_wirePayloadType := w, tr_wirePTSet := s, tr_ptCandidate := c, tr_ptRun := r\<rparr>"
  by (rule exI [of _ "tr_wirePayloadType tr'"], rule exI [of _ "tr_wirePTSet tr'"], rule exI [of _ "tr_ptCandidate tr'"], rule exI [of _ "tr_ptRun tr'"])
    (auto simp: acceptPayloadType_def Let_def split: if_splits)

lemma accept_keeps:
  assumes "acceptPayloadType pt tr = (b, tr')"
  shows "track_ok tr' = track_ok tr" "tr_stream tr' = tr_stream tr" "tr_pendingGap tr' = tr_pendingGap tr" "tr_seqGaps tr' = tr_seqGaps tr"
    "tr_kind tr' = tr_kind tr" "fixed tr' = fixed tr"
proof -
  obtain w s c r where tr': "tr' = tr\<lparr>tr_wirePayloadType := w, tr_wirePTSet := s, tr_ptCandidate := c, tr_ptRun := r\<rparr>"
    using accept_fields [OF assms] by blast
  show "track_ok tr' = track_ok tr" "tr_stream tr' = tr_stream tr" "tr_pendingGap tr' = tr_pendingGap tr" "tr_seqGaps tr' = tr_seqGaps tr"
    "tr_kind tr' = tr_kind tr" "fixed tr' = fixed tr" unfolding tr' by (simp_all add: track_ok_def fixed_def)
qed

lemma stats_keep:
  "track_ok (publishRRSnapshot (tr\<lparr>tr_packets := a, tr_payloadBytes := b\<rparr>)) = track_ok tr"
  "tr_stream (publishRRSnapshot (tr\<lparr>tr_packets := a, tr_payloadBytes := b\<rparr>)) = tr_stream tr"
  "tr_seqGaps (publishRRSnapshot (tr\<lparr>tr_packets := a, tr_payloadBytes := b\<rparr>)) = tr_seqGaps tr"
  "tr_pendingGap (publishRRSnapshot (tr\<lparr>tr_packets := a, tr_payloadBytes := b\<rparr>)) = tr_pendingGap tr"
  "fixed (publishRRSnapshot (tr\<lparr>tr_packets := a, tr_payloadBytes := b\<rparr>)) = fixed tr"
  by (simp_all add: publishRRSnapshot_def Let_def track_ok_def fixed_def)

lemma source_change_ok:
  assumes "track_ok tr"
  shows "\<exists>tr'. source_change up tr = Some tr' \<and> track_ok tr' \<and> tr_stream tr' = tr_stream tr \<and> tr_seqGaps tr' = tr_seqGaps tr
    \<and> (\<not> SSRCReset up \<longrightarrow> tr_pendingGap tr' = tr_pendingGap tr) \<and> fixed tr' = fixed tr"
proof (cases "SSRCReset up")
  case True
  have "track_ok (tr\<lparr>tr_ssrcResets := tr_ssrcResets tr + 1, tr_baseSet := False\<rparr>)" using assms by (simp add: track_ok_def)
  from reset_ok [OF this, of True] obtain t where t: "resetDepacketizer True (tr\<lparr>tr_ssrcResets := tr_ssrcResets tr + 1, tr_baseSet := False\<rparr>) = Some t"
    "track_ok t" "core t = core (tr\<lparr>tr_ssrcResets := tr_ssrcResets tr + 1, tr_baseSet := False\<rparr>)" by blast
  then have "track_ok (t\<lparr>tr_srClock := None\<rparr>)" by (simp add: track_ok_def)
  then show ?thesis using True t by (simp add: source_change_def core_def fixed_def)
qed (use assms in \<open>simp add: source_change_def\<close>)

lemma baseline_keep:
  "track_ok tr \<Longrightarrow> track_ok (baseline pkt up tr)" "tr_stream (baseline pkt up tr) = tr_stream tr"
  "tr_seqGaps (baseline pkt up tr) = tr_seqGaps tr" "tr_pendingGap (baseline pkt up tr) = tr_pendingGap tr"
  "fixed (baseline pkt up tr) = fixed tr"
  by (simp_all add: baseline_def track_ok_def fixed_def)

lemma gap_reset_ok:
  assumes "track_ok tr" "0 \<le> Gap up"
  shows "\<exists>tr'. gap_reset up tr = Some tr' \<and> track_ok tr' \<and> tr_stream tr' = tr_stream tr \<and> tr_seqGaps tr' = tr_seqGaps tr + word_of_int (Gap up)
    \<and> tr_pendingGap tr' = tr_pendingGap tr \<and> fixed tr' = fixed tr"
proof (cases "Gap up > 0")
  case True
  have "track_ok (tr\<lparr>tr_seqGaps := tr_seqGaps tr + word_of_int (Gap up)\<rparr>)" using assms(1) by (simp add: track_ok_def)
  from reset_ok [OF this, of False] show ?thesis using True by (auto simp: gap_reset_def core_def fixed_def)
next
  case False
  then have "Gap up = 0" using assms(2) by simp
  then show ?thesis using assms(1) by (simp add: gap_reset_def)
qed

lemma process_ok:
  assumes "track_ok tr"
  shows "\<exists>b out tr'. process cb pkt now tr = Some (b, out, tr') \<and> track_ok tr' \<and> fixed tr' = fixed tr \<and> (\<forall>e \<in> set out. ev_track e = tr_id tr)
    \<and> (b \<longrightarrow> tr_stream tr' = snd (Observe (tr_stream tr) (Header pkt)))
    \<and> (\<not> b \<longrightarrow> out = [] \<and> tr_stream tr' = tr_stream tr \<and> tr_pendingGap tr' = tr_pendingGap tr \<and> tr_seqGaps tr' = tr_seqGaps tr)
    \<and> (b \<longrightarrow> tr_seqGaps tr' = tr_seqGaps tr + word_of_int (Gap (fst (Observe (tr_stream tr) (Header pkt)))))
    \<and> (b \<and> cb_OnFrame cb \<and> \<not> SSRCReset (fst (Observe (tr_stream tr) (Header pkt))) \<longrightarrow>
         gaps_of out + tr_pendingGap tr' = tr_pendingGap tr + Gap (fst (Observe (tr_stream tr) (Header pkt))))"
proof -
  obtain b tr1 where acc: "acceptPayloadType (PayloadType (Header pkt)) tr = (b, tr1)" by fastforce
  note keep = accept_keeps [OF acc]
  show ?thesis
  proof (cases b)
    case False
    then have "process cb pkt now tr = Some (False, [], count_malformed tr1)" using acc by (simp add: process_def)
    moreover have "track_ok (count_malformed tr1)" using keep(1) assms by (simp add: count_malformed_def track_ok_def)
    ultimately show ?thesis using keep by (intro exI [of _ False]) (simp add: count_malformed_def fixed_def)
  next
    case True
    obtain up st where obs: "Observe (tr_stream tr) (Header pkt) = (up, st)" by fastforce
    note gap = Observe_gap [OF obs]
    have ok1: "track_ok (tr1\<lparr>tr_stream := st\<rparr>)" using keep(1) assms by (simp add: track_ok_def)
    obtain tr2 where A: "source_change up (tr1\<lparr>tr_stream := st\<rparr>) = Some tr2" "track_ok tr2" "tr_stream tr2 = st" "tr_seqGaps tr2 = tr_seqGaps tr"
      "\<not> SSRCReset up \<Longrightarrow> tr_pendingGap tr2 = tr_pendingGap tr" "fixed tr2 = fixed tr"
      using source_change_ok [OF ok1, of up] keep by (auto simp: fixed_def)
    obtain tr4 where B: "gap_reset up (baseline pkt up tr2) = Some tr4" "track_ok tr4" "tr_stream tr4 = st"
      "tr_seqGaps tr4 = tr_seqGaps tr + word_of_int (Gap up)" "tr_pendingGap tr4 = tr_pendingGap tr2" "fixed tr4 = fixed tr"
      using gap_reset_ok [of "baseline pkt up tr2" up] baseline_keep(1) [OF A(2), of pkt up] baseline_keep(2-5) [of pkt up tr2] A gap by auto
    have "delivers up (cb_OnFrame cb) tr4 (dispatch cb pkt up now tr4)" unfolding dispatch_def using deliver_ok B(2) gap by blast
    then obtain out tr5 where D: "dispatch cb pkt up now tr4 = Some (out, tr5)" "track_ok tr5" "core tr5 = core tr4"
      "cb_OnFrame cb \<Longrightarrow> gaps_of out + tr_pendingGap tr5 = tr_pendingGap tr4 + Gap up" "\<And>e. e \<in> set out \<Longrightarrow> ev_track e = tr_id tr4"
      by (auto simp: delivers_def)
    have id: "tr_id tr4 = tr_id tr" using B(6) by (simp add: fixed_def)
    have "process cb pkt now tr = Some (True, out, count_packet pkt tr5)" using acc True keep(2) obs A(1) B(1) D(1) by (simp add: process_def)
    moreover have "tr_stream tr5 = st" "tr_seqGaps tr5 = tr_seqGaps tr + word_of_int (Gap up)" using D(3) B(3,4) by (simp_all add: core_def)
    ultimately show ?thesis using D(2,4,5) id core_fixed [OF D(3)] B(5,6) A(5) obs by (intro exI [of _ True]) (simp add: count_packet_def stats_keep)
  qed
qed

end
