(* ===== verification/Pipeline_Run.thy ===== *)
theory Pipeline_Run
  imports Pipeline
begin

text \<open>
  Whole packet sequences through a track of \<open>Pipeline\<close>: losses are conserved for every codec and any payloads, and an Opus sender's packets
  come out as the frames the sender meant.
\<close>

section \<open>A session's packets\<close>

fun run_process :: "callbacks \<Rightarrow> (rtp_packet \<times> int) list \<Rightarrow> track \<Rightarrow> (event list \<times> track) option" where
  "run_process cb [] tr = Some ([], tr)"
| "run_process cb ((pkt, now) # pkts) tr = do {
     (_, out, tr) \<leftarrow> process cb pkt now tr;
     (more, tr) \<leftarrow> run_process cb pkts tr;
     Some (out @ more, tr) }"

definition from_source :: "u32 \<Rightarrow> track \<Rightarrow> bool" where
  "from_source src tr \<longleftrightarrow> (st_init (tr_stream tr) \<longrightarrow> st_ssrc (tr_stream tr) = src)"

lemma run_process_gaps:
  assumes "track_ok tr" "from_source src tr" "cb_OnFrame cb" "list_all (\<lambda>(pkt, now). SSRC (Header pkt) = src) pkts"
    "tr_seqGaps tr = st_seqGaps (tr_stream tr)"
  shows "\<exists>evs tr'. run_process cb pkts tr = Some (evs, tr') \<and> track_ok tr' \<and> tr_seqGaps tr' = st_seqGaps (tr_stream tr')
    \<and> tr_seqGaps tr' = tr_seqGaps tr + word_of_int (gaps_of evs + tr_pendingGap tr' - tr_pendingGap tr)"
  using assms
proof (induction pkts arbitrary: tr)
  case (Cons p pkts)
  obtain pkt now where p: "p = (pkt, now)" by fastforce
  obtain up st where obs: "Observe (tr_stream tr) (Header pkt) = (up, st)" by fastforce
  have src: "SSRC (Header pkt) = src" using Cons.prems(4) p by simp
  have nr: "\<not> SSRCReset up" "st_init st" "st_ssrc st = src" using Observe_ssrc [OF obs] Cons.prems(2) src by (auto simp: from_source_def)
  note gap = Observe_gap [OF obs]
  obtain b out tr1 where pr: "process cb pkt now tr = Some (b, out, tr1)" "track_ok tr1"
    "b \<Longrightarrow> tr_stream tr1 = st" "b \<Longrightarrow> tr_seqGaps tr1 = tr_seqGaps tr + word_of_int (Gap up)"
    "b \<Longrightarrow> gaps_of out + tr_pendingGap tr1 = tr_pendingGap tr + Gap up"
    "\<not> b \<Longrightarrow> out = [] \<and> tr_stream tr1 = tr_stream tr \<and> tr_pendingGap tr1 = tr_pendingGap tr \<and> tr_seqGaps tr1 = tr_seqGaps tr"
    using process_ok [OF Cons.prems(1), of cb pkt now] obs nr Cons.prems(3) by auto
  have step: "tr_seqGaps tr1 = tr_seqGaps tr + word_of_int (gaps_of out + tr_pendingGap tr1 - tr_pendingGap tr)"
    "from_source src tr1" "tr_seqGaps tr1 = st_seqGaps (tr_stream tr1)"
    using pr nr gap Cons.prems(2,5) by (cases b; simp add: from_source_def)+
  obtain evs tr' where IH: "run_process cb pkts tr1 = Some (evs, tr')" "track_ok tr'" "tr_seqGaps tr' = st_seqGaps (tr_stream tr')"
    "tr_seqGaps tr' = tr_seqGaps tr1 + word_of_int (gaps_of evs + tr_pendingGap tr' - tr_pendingGap tr1)"
    using Cons.IH [OF pr(2) step(2) Cons.prems(3) _ step(3)] Cons.prems(4) by auto
  have "tr_seqGaps tr' = tr_seqGaps tr + word_of_int ((gaps_of out + tr_pendingGap tr1 - tr_pendingGap tr) + (gaps_of evs + tr_pendingGap tr' - tr_pendingGap tr1))"
    unfolding of_int_add using IH(4) step(1) by simp
  then show ?case using p pr(1) IH by (simp add: algebra_simps)
qed simp

text \<open>
  C35. No packet can take the pipeline down and no loss is lost: for a track built by \<open>newTrack\<close> for whatever the SDP described, and any packets
  of one source, however malformed their payloads, nothing panics, and the losses reported on the delivered frames together with the
  losses still waiting for a frame are exactly the losses the sequence tracker counted and the statistics show (modulo the counter's 64 bits).
\<close>

theorem pipeline_gaps_conserved:
  assumes "resolveLATMASC codec = Some (dt_codec desc, dt_latmDepack desc, dt_latmResolved desc)" "cb_OnFrame cb"
    "list_all (\<lambda>(pkt, now). SSRC (Header pkt) = src) pkts"
  shows "\<exists>tr evs tr'. newTrack i desc opts ch = Some tr \<and> run_process cb pkts tr = Some (evs, tr') \<and> 0 \<le> tr_pendingGap tr'
    \<and> tr_seqGaps tr' = word_of_int (gaps_of evs + tr_pendingGap tr') \<and> tr_seqGaps tr' = SeqGaps (Stream_Stats (tr_stream tr'))"
proof -
  obtain tr where tr: "newTrack i desc opts ch = Some tr" "track_ok tr" "tr_stream tr = stream0" "tr_seqGaps tr = 0" "tr_pendingGap tr = 0"
    using newTrack_ok [OF assms(1), of i opts ch] by blast
  then have "from_source src tr" "tr_seqGaps tr = st_seqGaps (tr_stream tr)" by (simp_all add: from_source_def stream0_def)
  then show ?thesis using run_process_gaps [OF tr(2) _ assms(2,3)] tr by (fastforce simp: Stream_Stats_def track_ok_def)
qed

definition mono_l16 :: described_track where
  "mono_l16 = \<lparr>dt_control = [], dt_codec = CodecL16 44100 1, dt_payloadType = 11, dt_clockRate = 44100, dt_media = MediaAudio, dt_aac = None,
     dt_latmDepack = None, dt_latmResolved = False\<rparr>"

definition packet_of :: "byte \<Rightarrow> u32 \<Rightarrow> (nat \<times> nat) \<times> bytes \<Rightarrow> rtp_packet" where
  "packet_of pt src p = \<lparr>Header = (wire src (fst p))\<lparr>PayloadType := pt\<rparr>, Payload = snd p\<rparr>"

theorem pipeline_gaps_conserved_witness:
  "\<exists>tr evs tr'. newTrack 0 mono_l16 \<lparr>so_Discard = False, so_G726Packing = G726PackingFromSDP\<rparr> 1 = Some tr
    \<and> run_process \<lparr>cb_OnFrame = True, cb_OnCodecUpdate = False\<rparr>
        [(packet_of 11 7 ((1, 0), [1, 2]), 0), (packet_of 11 7 ((3, 10), [1]), 1), (packet_of 11 7 ((5, 20), [3, 4]), 2)] tr = Some (evs, tr')
    \<and> tr_seqGaps tr' = word_of_int (gaps_of evs + tr_pendingGap tr')"
proof -
  define pkts where "pkts = [(packet_of 11 7 ((1, 0), [1, 2]), 0 :: int), (packet_of 11 7 ((3, 10), [1]), 1), (packet_of 11 7 ((5, 20), [3, 4]), 2)]"
  have "resolveLATMASC (CodecL16 44100 1) = Some (dt_codec mono_l16, dt_latmDepack mono_l16, dt_latmResolved mono_l16)"
    by (simp add: resolveLATMASC_def mono_l16_def)
  moreover have "list_all (\<lambda>(pkt, now). SSRC (Header pkt) = 7) pkts" by (simp add: pkts_def packet_of_def wire_def)
  ultimately show ?thesis unfolding pkts_def [symmetric]
    using pipeline_gaps_conserved [of "CodecL16 44100 1" mono_l16 "\<lparr>cb_OnFrame = True, cb_OnCodecUpdate = False\<rparr>" 7 pkts 0
        "\<lparr>so_Discard = False, so_G726Packing = G726PackingFromSDP\<rparr>" 1] by (auto simp: callbacks.simps)
qed

section \<open>From sender to frames\<close>

lemma ptsOf_exact:
  assumes "tr_clockRate tr = clockRateTicks rate" "0 < rate" "rate < 2 ^ 32" "tr_baseTS tr \<le> ts"
  shows "ptsOf tr ts = min (uint (ts - tr_baseTS tr) * 10 ^ 9 div rate) (maxPTSSeconds * 10 ^ 9)"
proof -
  have r: "tr_clockRate tr = word_of_int rate" using assms(1-3) by (simp add: clockRateTicks_def)
  have "uint (word_of_int rate :: u64) = rate" using assms(2,3) by (intro uint_of_int_u64) simp_all
  then have "(word_of_int rate :: u64) \<noteq> 0" using assms(2) by auto
  then have "ptsOf tr ts = PTSFromSamples (ts - tr_baseTS tr) rate"
    using assms(2) leD [OF assms(4)] r by (simp add: ptsOf_def PTSFromSamples_def Let_def)
  then show ?thesis using PTSFromSamples_floor [of rate "ts - tr_baseTS tr"] assms(2,3) by simp
qed

lemma Observe_header: "SSRC h = SSRC h' \<Longrightarrow> SequenceNumber h = SequenceNumber h' \<Longrightarrow> Timestamp h = Timestamp h' \<Longrightarrow> Observe s h = Observe s h'"
  by (simp only: Observe_def)

text \<open>An Opus track that has settled on the sender's payload type, its baseline at \<open>t0\<close>.\<close>

definition opus_running :: "byte \<Rightarrow> u32 \<Rightarrow> nat \<Rightarrow> int \<Rightarrow> nat \<times> nat \<Rightarrow> track \<Rightarrow> bool" where
  "opus_running pt src t0 rate p tr \<longleftrightarrow> tr_kind tr = DeliverOpus \<and> tr_sdpPayloadType tr = uint pt \<and> tr_clockRate tr = clockRateTicks rate
     \<and> tracks src p (tr_stream tr) \<and> tr_baseSet tr \<and> tr_baseTS tr = word_of_nat t0 \<and> tr_pendingGap tr = 0
     \<and> tr_aac tr = None \<and> tr_flac tr = None \<and> tr_mp3 tr = None"

definition opus_frame :: "int \<Rightarrow> nat \<Rightarrow> int \<Rightarrow> (nat \<times> nat) \<times> bytes \<Rightarrow> int \<Rightarrow> nat \<Rightarrow> event" where
  "opus_frame i t0 rate p now gap = EvFrame \<lparr>fr_TrackID = i, fr_Data = snd p, fr_RTPTime = word_of_nat (snd (fst p)),
     fr_PTS = min (int (snd (fst p) - t0) * 10 ^ 9 div rate) (maxPTSSeconds * 10 ^ 9), fr_ReceivedAt = now, fr_SeqGap = int gap\<rparr>"

lemma unat_u64_small: "t < 2 ^ 64 \<Longrightarrow> unat (word_of_nat t :: u64) = t"
  by (simp add: unat_of_nat)

lemma uint_u64_diff: "t0 \<le> t \<Longrightarrow> t < 2 ^ 64 \<Longrightarrow> uint (word_of_nat t - word_of_nat t0 :: u64) = int (t - t0)"
  unfolding of_nat_diff [symmetric, where 'a = u64] uint_nat by (simp only: of_nat_eq_iff) (rule unat_u64_small, simp)

lemma opus_pts:
  assumes "tr_clockRate tr = clockRateTicks rate" "0 < rate" "rate < 2 ^ 32" "tr_baseTS tr = word_of_nat t0" "t0 \<le> t" "t < 2 ^ 64"
  shows "ptsOf tr (word_of_nat t) = min (int (t - t0) * 10 ^ 9 div rate) (maxPTSSeconds * 10 ^ 9)"
proof -
  have "(word_of_nat t0 :: u64) \<le> word_of_nat t" using assms(5,6) unfolding word_le_nat_alt by (simp add: unat_u64_small)
  then show ?thesis using ptsOf_exact [OF assms(1-3), of "word_of_nat t"] uint_u64_diff [OF assms(5,6)] assms(4) by simp
qed

lemma pt_known: "uint (pt :: byte) \<noteq> payloadTypeUnknown"
  using uint_ge_0 [of pt] unfolding payloadTypeUnknown_def by linarith

lemma opus_step:
  assumes run: "opus_running pt src t0 rate p tr" and f: "forward p q" and t: "t0 \<le> snd q" "snd q < 2 ^ 64" "0 < rate" "rate < 2 ^ 32"
    and data: "data \<noteq> []" and cb: "cb_OnFrame cb"
  shows "\<exists>tr'. process cb (packet_of pt src (q, data)) now tr
      = Some (True, [opus_frame (tr_id tr) t0 rate (q, data) now (fst q - fst p - 1)], tr')
    \<and> opus_running pt src t0 rate q tr' \<and> tr_id tr' = tr_id tr"
proof -
  define pkt where "pkt = packet_of pt src (q, data)"
  define tr1 where "tr1 = tr\<lparr>tr_wirePayloadType := pt, tr_wirePTSet := True, tr_ptRun := 0\<rparr>"
  have acc: "acceptPayloadType (PayloadType (Header pkt)) tr = (True, tr1)"
    using run pt_known [of pt] by (simp add: acceptPayloadType_def opus_running_def pkt_def packet_of_def tr1_def)
  obtain up st where obs: "Observe (tr_stream tr) (wire src q) = (up, st)" by fastforce
  have "Observe (tr_stream tr1) (Header pkt) = Observe (tr_stream tr) (wire src q)"
    by (simp add: tr1_def) (rule Observe_header, simp_all add: pkt_def packet_of_def wire_def)
  then have obs1: "Observe (tr_stream tr1) (Header pkt) = (up, st)" using obs by simp
  have tracks: "tracks src p (tr_stream tr)" using run by (simp add: opus_running_def)
  note fw = Observe_forward [OF tracks f obs]
  have gap: "Gap up = int (fst q - fst p - 1)" using fw(2) f by (auto simp: forward_def of_nat_diff)
  define tr2 where "tr2 = tr1\<lparr>tr_stream := st\<rparr>"
  define tr3 where "tr3 = (if Gap up > 0 then tr2\<lparr>tr_seqGaps := tr_seqGaps tr2 + word_of_int (Gap up)\<rparr> else tr2)"
  have none: "tr_aac tr2 = None" "tr_flac tr2 = None" "tr_mp3 tr2 = None" using run by (simp_all add: opus_running_def tr2_def tr1_def)
  have A: "source_change up tr2 = Some tr2" using fw(4) by (simp add: source_change_def)
  have B: "baseline pkt up tr2 = tr2" using run by (simp add: baseline_def opus_running_def tr2_def tr1_def)
  have "resetDepacketizer False (tr2\<lparr>tr_seqGaps := x\<rparr>) = Some (tr2\<lparr>tr_seqGaps := x\<rparr>)" for x
    using none by (simp add: resetDepacketizer_def Let_def)
  then have C: "gap_reset up tr2 = Some tr3" by (simp add: gap_reset_def tr3_def)
  have tr3: "tr_kind tr3 = DeliverOpus" "tr_pendingGap tr3 = 0" "tr_clockRate tr3 = clockRateTicks rate" "tr_baseTS tr3 = word_of_nat t0" "tr_id tr3 = tr_id tr"
    using run by (simp_all add: tr3_def tr2_def tr1_def opus_running_def)
  have pts: "ptsOf (tr3\<lparr>tr_pendingGap := 0\<rparr>) (UTimestamp up) = min (int (snd q - t0) * 10 ^ 9 div rate) (maxPTSSeconds * 10 ^ 9)"
    using opus_pts [of "tr3\<lparr>tr_pendingGap := 0\<rparr>" rate t0 "snd q"] tr3 t fw(3) by simp
  have D: "dispatch cb pkt up now tr3 = Some ([opus_frame (tr_id tr) t0 rate (q, data) now (fst q - fst p - 1)], tr3\<lparr>tr_pendingGap := 0\<rparr>)"
    using tr3 cb data pts gap
    by (simp add: dispatch_def deliver_def deliverOpus_def opus_Depacketize_def deliverOne_def Let_def fold_gap_def mk_frame_def opus_frame_def
        pkt_def packet_of_def wire_def)
  have "process cb pkt now tr = Some (True, [opus_frame (tr_id tr) t0 rate (q, data) now (fst q - fst p - 1)], count_packet pkt (tr3\<lparr>tr_pendingGap := 0\<rparr>))"
    using acc obs1 A B C D by (simp add: process_def tr2_def [symmetric])
  moreover have "opus_running pt src t0 rate q (count_packet pkt (tr3\<lparr>tr_pendingGap := 0\<rparr>))"
    using run fw(1) by (simp add: opus_running_def count_packet_def publishRRSnapshot_def Let_def tr3_def tr2_def tr1_def)
  ultimately show ?thesis using tr3(5) by (simp add: pkt_def count_packet_def publishRRSnapshot_def Let_def)
qed

type_synonym arrival = "((nat \<times> nat) \<times> bytes) \<times> int"

definition arrive :: "byte \<Rightarrow> u32 \<Rightarrow> arrival \<Rightarrow> rtp_packet \<times> int" where
  "arrive pt src a = (packet_of pt src (fst a), snd a)"

definition opus_after :: "int \<Rightarrow> nat \<Rightarrow> int \<Rightarrow> arrival \<Rightarrow> arrival \<Rightarrow> event" where
  "opus_after i t0 rate a b = opus_frame i t0 rate (fst b) (snd b) (fst (fst (fst b)) - fst (fst (fst a)) - 1)"

lemma forward_snd: "forward p q \<Longrightarrow> snd p \<le> snd q"
  by (simp add: forward_def)

lemma opus_run:
  assumes "opus_running pt src t0 rate (fst (fst a)) tr" "successively forward (map (fst \<circ> fst) (a # as))" "t0 \<le> snd (fst (fst a))"
    "list_all (\<lambda>b. snd (fst (fst b)) < 2 ^ 64 \<and> snd (fst b) \<noteq> []) as" "0 < rate" "rate < 2 ^ 32" "cb_OnFrame cb"
  shows "\<exists>tr'. run_process cb (map (arrive pt src) as) tr = Some (map2 (opus_after (tr_id tr) t0 rate) (a # as) as, tr')
    \<and> opus_running pt src t0 rate (fst (fst (last (a # as)))) tr'"
  using assms
proof (induction as arbitrary: a tr)
  case (Cons b as)
  obtain q data now where b: "b = ((q, data), now)" by (metis prod.collapse)
  have f: "forward (fst (fst a)) q" "successively forward (map (fst \<circ> fst) (b # as))" using Cons.prems(2) b by (auto simp: comp_def)
  have t: "t0 \<le> snd q" "snd q < 2 ^ 64" "data \<noteq> []" using forward_snd [OF f(1)] Cons.prems(3,4) b by auto
  obtain tr1 where pr: "process cb (packet_of pt src (q, data)) now tr
      = Some (True, [opus_frame (tr_id tr) t0 rate (q, data) now (fst q - fst (fst (fst a)) - 1)], tr1)"
    "opus_running pt src t0 rate q tr1" "tr_id tr1 = tr_id tr"
    using opus_step [OF Cons.prems(1) f(1) t(1,2) Cons.prems(5,6) t(3) Cons.prems(7), of now] by blast
  obtain tr' where IH: "run_process cb (map (arrive pt src) as) tr1 = Some (map2 (opus_after (tr_id tr1) t0 rate) (b # as) as, tr')"
    "opus_running pt src t0 rate (fst (fst (last (b # as)))) tr'"
    using Cons.IH [OF _ f(2) _ _ Cons.prems(5-7), of tr1] pr(2) t(1) Cons.prems(4) b by auto
  have "arrive pt src b = (packet_of pt src (q, data), now)"
    "opus_after (tr_id tr) t0 rate a b = opus_frame (tr_id tr) t0 rate (q, data) now (fst q - fst (fst (fst a)) - 1)"
    by (simp_all add: arrive_def opus_after_def b)
  then show ?case using pr(1,3) IH by auto
qed simp

text \<open>An Opus track before its first packet.\<close>

definition opus_fresh :: "byte \<Rightarrow> int \<Rightarrow> track \<Rightarrow> bool" where
  "opus_fresh pt rate tr \<longleftrightarrow> tr_kind tr = DeliverOpus \<and> tr_sdpPayloadType tr = uint pt \<and> tr_clockRate tr = clockRateTicks rate
     \<and> tr_stream tr = stream0 \<and> \<not> tr_baseSet tr \<and> \<not> tr_hasSeed tr \<and> tr_pendingGap tr = 0
     \<and> tr_aac tr = None \<and> tr_flac tr = None \<and> tr_mp3 tr = None"

lemma newTrack_opus:
  assumes "newTrack i desc opts ch = Some tr" "dt_codec desc = CodecOpus" "dt_media desc = MediaAudio" "dt_payloadType desc = uint pt"
  shows "opus_fresh pt (dt_clockRate desc) tr" "tr_id tr = i"
  using assms by (auto simp: newTrack_def opus_fresh_def track0_def)

lemma opus_first:
  assumes "opus_fresh pt rate tr" "fst q < 2 ^ 16" "snd q < 2 ^ 32" "data \<noteq> []" "cb_OnFrame cb" "0 < rate" "rate < 2 ^ 32"
  shows "\<exists>tr'. process cb (packet_of pt src (q, data)) now tr = Some (True, [opus_frame (tr_id tr) (snd q) rate (q, data) now 0], tr')
    \<and> opus_running pt src (snd q) rate q tr' \<and> tr_id tr' = tr_id tr"
proof -
  define pkt where "pkt = packet_of pt src (q, data)"
  define tr1 where "tr1 = tr\<lparr>tr_wirePayloadType := pt, tr_wirePTSet := True, tr_ptRun := 0\<rparr>"
  note tr = assms(1) [unfolded opus_fresh_def]
  have acc: "acceptPayloadType (PayloadType (Header pkt)) tr = (True, tr1)"
    using pt_known [of pt] tr by (simp add: acceptPayloadType_def pkt_def packet_of_def tr1_def)
  obtain up st where obs: "Observe stream0 (wire src q) = (up, st)" by fastforce
  note first = Observe_first [OF assms(2,3) obs]
  have up: "Gap up = 0" "\<not> SSRCReset up" using obs by (auto simp: Observe_def stream0_def)
  have "Observe (tr_stream tr1) (Header pkt) = Observe stream0 (wire src q)"
    using tr by (simp add: tr1_def) (rule Observe_header, simp_all add: pkt_def packet_of_def wire_def)
  then have obs1: "Observe (tr_stream tr1) (Header pkt) = (up, st)" using obs by simp
  define tr2 where "tr2 = tr1\<lparr>tr_stream := st\<rparr>"
  define tr3 where "tr3 = tr2\<lparr>tr_senderSSRC := src, tr_baseTS := word_of_nat (snd q), tr_baseSet := True, tr_baselineFixed := True\<rparr>"
  have B: "baseline pkt up tr2 = tr3"
    using first(2) tr by (simp add: baseline_def seededOrigin_def tr3_def tr2_def tr1_def pkt_def packet_of_def wire_def)
  have tr3: "tr_kind tr3 = DeliverOpus" "tr_pendingGap tr3 = 0" "tr_id tr3 = tr_id tr" "tr_clockRate tr3 = clockRateTicks rate"
    "tr_baseTS tr3 = word_of_nat (snd q)"
    using tr by (simp_all add: tr3_def tr2_def tr1_def)
  have pts: "ptsOf (tr3\<lparr>tr_pendingGap := 0\<rparr>) (UTimestamp up) = min (int (snd q - snd q) * 10 ^ 9 div rate) (maxPTSSeconds * 10 ^ 9)"
    using opus_pts [of "tr3\<lparr>tr_pendingGap := 0\<rparr>" rate "snd q" "snd q"] tr3 assms(3,6,7) first(2) by simp
  have D: "dispatch cb pkt up now tr3 = Some ([opus_frame (tr_id tr) (snd q) rate (q, data) now 0], tr3\<lparr>tr_pendingGap := 0\<rparr>)"
    using tr3 assms(4,5) pts up
    by (simp add: dispatch_def deliver_def deliverOpus_def opus_Depacketize_def deliverOne_def Let_def fold_gap_def mk_frame_def opus_frame_def
        pkt_def packet_of_def wire_def)
  have "process cb pkt now tr = Some (True, [opus_frame (tr_id tr) (snd q) rate (q, data) now 0], count_packet pkt (tr3\<lparr>tr_pendingGap := 0\<rparr>))"
    using acc obs1 up B D by (simp add: process_def source_change_def gap_reset_def tr2_def [symmetric])
  moreover have "opus_running pt src (snd q) rate q (count_packet pkt (tr3\<lparr>tr_pendingGap := 0\<rparr>))"
    using first(1) tr by (simp add: opus_running_def count_packet_def publishRRSnapshot_def Let_def tr3_def tr2_def tr1_def)
  ultimately show ?thesis using tr3(3) by (simp add: pkt_def count_packet_def publishRRSnapshot_def Let_def)
qed

text \<open>
  From sender to application: on an Opus track, for any run of packets of one source in sending order, packets missing in between
  and both wire counters wrapping as often as they like, the application gets one frame per packet, in order, with the packet's
  payload and RTP time, the presentation time the sender's clock gives counted from the first packet (rounded down to a nanosecond,
  saturated at the largest duration), and the number of packets lost just before it.
\<close>

theorem pipeline_opus_delivers:
  assumes "dt_codec desc = CodecOpus" "dt_media desc = MediaAudio" "dt_payloadType desc = uint pt" "0 < dt_clockRate desc" "dt_clockRate desc < 2 ^ 32"
    "cb_OnFrame cb" "fst (fst (fst a)) < 2 ^ 16" "snd (fst (fst a)) < 2 ^ 32" "successively forward (map (fst \<circ> fst) (a # as))"
    "list_all (\<lambda>b. snd (fst (fst b)) < 2 ^ 64 \<and> snd (fst b) \<noteq> []) (a # as)"
  shows "\<exists>tr tr'. newTrack i desc opts ch = Some tr
    \<and> run_process cb (map (arrive pt src) (a # as)) tr
      = Some (opus_frame i (snd (fst (fst a))) (dt_clockRate desc) (fst a) (snd a) 0
              # map2 (opus_after i (snd (fst (fst a))) (dt_clockRate desc)) (a # as) as, tr')"
proof -
  obtain q data now where a: "a = ((q, data), now)" by (metis prod.collapse)
  obtain tr where tr: "newTrack i desc opts ch = Some tr" using assms(1,2) by (simp add: newTrack_def)
  obtain tr1 where first: "process cb (packet_of pt src (q, data)) now tr = Some (True, [opus_frame i (snd q) (dt_clockRate desc) (q, data) now 0], tr1)"
    "opus_running pt src (snd q) (dt_clockRate desc) q tr1" "tr_id tr1 = i"
    using opus_first [OF newTrack_opus(1) [OF tr assms(1-3)], of q data cb src now] newTrack_opus(2) [OF tr assms(1-3)] assms(4-8,10) a by auto
  show ?thesis using opus_run [of pt src "snd q" "dt_clockRate desc" a tr1 as cb] first tr assms(4-6,9,10) a by (auto simp: arrive_def)
qed

definition opus_desc :: described_track where
  "opus_desc = mono_l16\<lparr>dt_codec := CodecOpus, dt_payloadType := 96, dt_clockRate := 48000\<rparr>"

theorem pipeline_opus_delivers_witness:
  "\<exists>tr tr'. newTrack 3 opus_desc \<lparr>so_Discard = False, so_G726Packing = G726PackingFromSDP\<rparr> 1 = Some tr
    \<and> run_process \<lparr>cb_OnFrame = True, cb_OnCodecUpdate = False\<rparr>
        (map (arrive 96 7) [(((65535, 2 ^ 32 - 480), [1]), 0), (((65538, 2 ^ 32 + 2400), [2, 3]), 5)]) tr
      = Some ([EvFrame \<lparr>fr_TrackID = 3, fr_Data = [1], fr_RTPTime = 2 ^ 32 - 480, fr_PTS = 0, fr_ReceivedAt = 0, fr_SeqGap = 0\<rparr>,
               EvFrame \<lparr>fr_TrackID = 3, fr_Data = [2, 3], fr_RTPTime = 2400, fr_PTS = 60000000, fr_ReceivedAt = 5, fr_SeqGap = 2\<rparr>], tr')"
proof -
  define a b :: arrival where "a = (((65535, 2 ^ 32 - 480), [1 :: byte]), 0) " and "b = (((65538, 2 ^ 32 + 2400), [2, 3 :: byte]), 5)"
  have wrap: "(4294969696 :: u32) = 2400" by (rule word_unat_eq_iff [THEN iffD2]) simp
  show ?thesis
    using pipeline_opus_delivers [of opus_desc 96 "\<lparr>cb_OnFrame = True, cb_OnCodecUpdate = False\<rparr>" a "[b]" 3
        "\<lparr>so_Discard = False, so_G726Packing = G726PackingFromSDP\<rparr>" 1 7]
    by (simp add: a_def b_def opus_desc_def mono_l16_def forward_def opus_frame_def opus_after_def caps wrap)
qed

end
