(* ===== verification/RTSP_Client.thy ===== *)
theory RTSP_Client
  imports RTSP_Transport RTSP_Reader Pipeline_Run
begin

text \<open>
  The RTSP client around the reader: its shared state (\<open>src/rtsp/client.go\<close>), the routing of interleaved frames to tracks and the handling of
  responses and requests (\<open>src/rtsp/reader.go\<close>), the channel table (\<open>src/rtsp/pipeline.go\<close>) and Setup and Play (\<open>src/rtsp/setup.go\<close>,
  \<open>src/rtsp/play.go\<close>). What the environment decides is a parameter: the clock, whether a write succeeds, the value of an Authorization
  header, how a control URL resolves against its base, and what a request is answered with. A pointer to a track is its position in the list of tracks, which only grows. Frames and
  codec updates handed to the callbacks are appended to a list of events.
\<close>

section \<open>State\<close>

datatype term_cause = ReaderCause read_cause | ErrServerTeardown | ErrWriteFailed | ErrClosed | ErrRequestFailed | ErrReceiverPanic

definition panics :: "term_cause \<Rightarrow> bool" where
  "panics cause \<longleftrightarrow> cause = ReaderCause ReaderPanic \<or> cause = ErrReceiverPanic"

lemma panics_simps [simp]:
  "panics (ReaderCause r) \<longleftrightarrow> r = ReaderPanic" "\<not> panics ErrServerTeardown" "\<not> panics ErrWriteFailed" "\<not> panics ErrClosed"
  "\<not> panics ErrRequestFailed" "panics ErrReceiverPanic"
  by (simp_all add: panics_def)

record channelBinding =
  cb_track :: nat
  cb_isRTCP :: bool

type_synonym channelTable = "int \<rightharpoonup> channelBinding"

record ChannelPair =
  CP_TrackID :: int
  CP_RTP :: int
  CP_RTCP :: int

record media_sockets =
  m_id :: nat
  m_clientRTPPort :: int
  m_clientRTCPPort :: int
  m_rtpPeer :: "(bytes \<times> int) option"
  m_rtcpPeer :: "(bytes \<times> int) option"

record UDPEndpoint =
  UE_TrackID :: int
  UE_ClientRTPPort :: int
  UE_ClientRTCPPort :: int
  UE_ServerRTPPort :: int
  UE_ServerRTCPPort :: int

record rtsp_client =
  c_state :: client_state
  c_termErr :: "term_cause option"
  c_closing :: bool
  c_playing :: bool
  c_lastFrameAt :: int
  c_sessionID :: bytes
  c_sessionTimeout :: int
  c_sessionTransport :: bytes
  c_baseURL :: bytes
  c_described :: "described_track list"
  c_tracks :: "track list"
  c_channelPairs :: "ChannelPair list"
  c_channels :: channelTable
  c_udpPinned :: bool
  c_udpEndpoints :: "UDPEndpoint list"
  c_media :: "int \<rightharpoonup> media_sockets"
  c_opened :: nat
  c_closedSockets :: "nat set"
  c_pending :: "int set"
  c_cseq :: u32
  c_authActive :: bool
  c_nc :: u32
  c_delivered :: "rtsp_response list"
  c_written :: "bytes list"
  c_udpSent :: "((bytes \<times> int) option \<times> bytes) list"
  c_writes :: nat
  c_ticks :: nat
  c_events :: "event list"

record environment =
  env_clock :: "nat \<Rightarrow> int"
  env_write :: "nat \<Rightarrow> bool"
  env_authorize :: "u32 \<Rightarrow> bytes \<Rightarrow> bytes \<Rightarrow> bytes option"
  env_userAgent :: bytes
  env_resolveURL :: "bytes \<Rightarrow> bytes \<Rightarrow> bytes option"
  env_callbacks :: callbacks

definition newClient :: "bytes \<Rightarrow> rtsp_client" where
  "newClient requestURL = \<lparr>c_state = stateIdle, c_termErr = None, c_closing = False, c_playing = False, c_lastFrameAt = 0, c_sessionID = [],
     c_sessionTimeout = 0, c_sessionTransport = [], c_baseURL = requestURL, c_described = [], c_tracks = [], c_channelPairs = [], c_channels = Map.empty,
     c_udpPinned = False, c_udpEndpoints = [], c_media = Map.empty, c_opened = 0, c_closedSockets = {},
     c_pending = {}, c_cseq = 0, c_authActive = False, c_nc = 0, c_delivered = [], c_written = [], c_udpSent = [], c_writes = 0, c_ticks = 0, c_events = []\<rparr>"

section \<open>Shutdown, clock and writes\<close>

definition setTermErr :: "term_cause \<Rightarrow> rtsp_client \<Rightarrow> rtsp_client" where
  "setTermErr cause c = c\<lparr>c_termErr := (case c_termErr c of None \<Rightarrow> Some cause | Some e \<Rightarrow> Some e), c_state := stateClosed\<rparr>"

text \<open>\<open>closeOnce\<close> has run exactly when \<open>closing\<close> is closed.\<close>

definition c_initiateShutdown :: "term_cause \<Rightarrow> rtsp_client \<Rightarrow> rtsp_client" where
  "c_initiateShutdown cause c = (if c_closing c then c else (setTermErr cause c)\<lparr>c_closing := True\<rparr>)"

definition c_Close :: "rtsp_client \<Rightarrow> rtsp_client" where
  "c_Close c = c_initiateShutdown ErrClosed c"

definition now_of :: "environment \<Rightarrow> rtsp_client \<Rightarrow> int \<times> rtsp_client" where
  "now_of env c = (env_clock env (c_ticks c), c\<lparr>c_ticks := Suc (c_ticks c)\<rparr>)"

definition writeMessage :: "environment \<Rightarrow> bytes \<Rightarrow> rtsp_client \<Rightarrow> bool \<times> rtsp_client" where
  "writeMessage env raw c =
     (let n = c_writes c; c = c\<lparr>c_writes := n + 1\<rparr> in
      if env_write env n then (True, c\<lparr>c_written := c_written c @ [raw]\<rparr>) else (False, c))"

section \<open>Channels\<close>

definition lookup :: "channelTable \<Rightarrow> int \<Rightarrow> channelBinding option" where
  "lookup t channel = t channel"

definition newChannelTable :: "channelTable \<Rightarrow> nat \<Rightarrow> int \<Rightarrow> int \<Rightarrow> channelTable" where
  "newChannelTable old tr rtpCh rtcpCh =
     old(rtpCh \<mapsto> \<lparr>cb_track = tr, cb_isRTCP = False\<rparr>, rtcpCh \<mapsto> \<lparr>cb_track = tr, cb_isRTCP = True\<rparr>)"

section \<open>The reader's handlers\<close>

definition rtp_header_shape :: "bytes \<Rightarrow> bool" where
  "rtp_header_shape payload = (length payload \<ge> HeaderSize \<and> drop_bit 6 (payload ! 0) = 2)"

definition set_track :: "nat \<Rightarrow> track \<Rightarrow> rtsp_client \<Rightarrow> rtsp_client" where
  "set_track k tr c = c\<lparr>c_tracks := (c_tracks c)[k := tr]\<rparr>"

text \<open>A panic of the reader goroutine is recovered: it ends the session.\<close>

definition recoverReader :: "rtsp_client \<Rightarrow> bool \<times> rtsp_client" where
  "recoverReader c = (False, c_initiateShutdown (ReaderCause ReaderPanic) c)"

definition c_handleRTP :: "environment \<Rightarrow> nat \<Rightarrow> bytes \<Rightarrow> int \<Rightarrow> rtsp_client \<Rightarrow> bool \<times> rtsp_client" where
  "c_handleRTP env k payload now c =
     (let tr = c_tracks c ! k;
          tr = tr\<lparr>tr_lastFrameUnixNano := now, tr_wireBytes := tr_wireBytes tr + word_of_nat (interleavedHeaderLen + length payload)\<rparr>
      in if tr_discard tr then
           let usable = rtp_header_shape payload in
           (usable, set_track k (if usable then tr\<lparr>tr_packets := tr_packets tr + 1\<rparr> else tr) c)
         else (case ParsePacket payload of
             None \<Rightarrow> recoverReader c
           | Some (Inl e) \<Rightarrow> (False, set_track k (count_malformed tr) c)
           | Some (Inr pkt) \<Rightarrow>
               (case process (env_callbacks env) pkt now tr of
                  None \<Rightarrow> recoverReader c
                | Some (usable, evs, tr) \<Rightarrow> (usable, (set_track k tr c)\<lparr>c_events := c_events c @ evs\<rparr>))))"

definition c_handleRTCP :: "nat \<Rightarrow> bytes \<Rightarrow> int \<Rightarrow> rtsp_client \<Rightarrow> bool \<times> rtsp_client" where
  "c_handleRTCP k payload now c =
     (let tr = c_tracks c ! k in
      if tr_discard tr then (rtp_header_shape payload, c)
      else (case handleRTCP payload now tr of
          None \<Rightarrow> recoverReader c
        | Some (usable, tr) \<Rightarrow> (usable, set_track k tr c)))"

definition c_handleInterleaved :: "environment \<Rightarrow> InterleavedFrame \<Rightarrow> rtsp_client \<Rightarrow> bool \<times> rtsp_client" where
  "c_handleInterleaved env f c0 =
     (let (now, c) = now_of env c0; c = c\<lparr>c_lastFrameAt := now\<rparr> in
      case lookup (c_channels c) (int (Channel f)) of
        None \<Rightarrow> (False, c)
      | Some bnd \<Rightarrow>
          if cb_isRTCP bnd then c_handleRTCP (cb_track bnd) (IPayload f) now c
          else c_handleRTP env (cb_track bnd) (IPayload f) now c)"

definition c_dispatchResponse :: "rtsp_response \<Rightarrow> rtsp_client \<Rightarrow> rtsp_client" where
  "c_dispatchResponse resp c =
     (if Resp_CSeq resp \<in> c_pending c
      then c\<lparr>c_pending := c_pending c - {Resp_CSeq resp}, c_delivered := c_delivered c @ [resp]\<rparr> else c)"

definition c_handleServerRequest :: "environment \<Rightarrow> rtsp_request \<Rightarrow> rtsp_client \<Rightarrow> rtsp_client" where
  "c_handleServerRequest env req c =
     (if EqualFold (Method req) methodTeardown then c_initiateShutdown ErrServerTeardown c
      else (case MarshalResponse (Some \<lparr>StatusCode = StatusOK, Reason = lit ''OK'', Resp_CSeq = Req_CSeq req, Resp_Header = [], Resp_Body = []\<rparr>) of
          Inl e \<Rightarrow> c
        | Inr raw \<Rightarrow> (case writeMessage env raw c of
            (True, c) \<Rightarrow> c
          | (False, c) \<Rightarrow> c_initiateShutdown ErrWriteFailed c)))"

definition client_handlers :: "environment \<Rightarrow> rtsp_client handlers" where
  "client_handlers env = \<lparr>handleInterleaved = c_handleInterleaved env, dispatchResponse = c_dispatchResponse,
     handleServerRequest = c_handleServerRequest env, bound = (\<lambda>c ch. lookup (c_channels c) (int ch) \<noteq> None), closing = c_closing,
     playing = c_playing, initiateShutdown = (\<lambda>cause. c_initiateShutdown (ReaderCause cause))\<rparr>"

section \<open>Requests\<close>

definition attachAuthorization :: "environment \<Rightarrow> rtsp_request \<Rightarrow> rtsp_client \<Rightarrow> rtsp_request \<times> rtsp_client" where
  "attachAuthorization env req c =
     (if \<not> c_authActive c then (req, c)
      else let c = c\<lparr>c_nc := c_nc c + 1\<rparr> in
        case env_authorize env (c_nc c) (Method req) (URL req) of
          None \<Rightarrow> (req\<lparr>Req_Header := Header_Del (Req_Header req) (lit ''Authorization'')\<rparr>, c)
        | Some value \<Rightarrow> (req\<lparr>Req_Header := Header_Set (Req_Header req) (lit ''Authorization'') value\<rparr>, c))"

definition standard_headers :: "environment \<Rightarrow> rtsp_header \<Rightarrow> rtsp_client \<Rightarrow> rtsp_header" where
  "standard_headers env h c =
     (let h = Header_Set h (lit ''User-Agent'') (env_userAgent env)
      in if c_sessionID c \<noteq> [] then Header_Set h (lit ''Session'') (c_sessionID c) else h)"

definition marshalBareRequest :: "environment \<Rightarrow> bytes \<Rightarrow> bytes \<Rightarrow> rtsp_client \<Rightarrow> (rtsp_error + bytes) \<times> rtsp_client" where
  "marshalBareRequest env method url c =
     (let c = c\<lparr>c_cseq := c_cseq c + 1\<rparr>;
          req = \<lparr>Method = method, URL = url, Req_CSeq = uint (c_cseq c), Req_Header = standard_headers env [] c, Req_Body = []\<rparr>;
          (req, c) = attachAuthorization env req c
      in (MarshalRequest (Some req), c))"

definition writeAuthorizedRequest :: "environment \<Rightarrow> rtsp_request \<Rightarrow> rtsp_client \<Rightarrow> bool \<times> rtsp_client" where
  "writeAuthorizedRequest env req c =
     (let (req, c) = attachAuthorization env req c in
      case MarshalRequest (Some req) of
        Inl e \<Rightarrow> (False, c)
      | Inr raw \<Rightarrow> writeMessage env raw c)"

text \<open>The two halves of \<open>roundTrip\<close>, before and after its wait.\<close>

definition roundTrip_send :: "environment \<Rightarrow> bytes \<Rightarrow> bytes \<Rightarrow> rtsp_header \<Rightarrow> rtsp_client \<Rightarrow> int option \<times> rtsp_client" where
  "roundTrip_send env method url h c =
     (let c = c\<lparr>c_cseq := c_cseq c + 1\<rparr>; cseq = uint (c_cseq c);
          req = \<lparr>Method = method, URL = url, Req_CSeq = cseq, Req_Header = standard_headers env h c, Req_Body = []\<rparr>;
          c = c\<lparr>c_pending := insert cseq (c_pending c)\<rparr>
      in case writeAuthorizedRequest env req c of
           (True, c) \<Rightarrow> (Some cseq, c)
         | (False, c) \<Rightarrow> (None, (c_initiateShutdown ErrRequestFailed c)\<lparr>c_pending := c_pending c - {cseq}\<rparr>))"

definition roundTrip_done :: "int \<Rightarrow> rtsp_client \<Rightarrow> rtsp_client" where
  "roundTrip_done cseq c = c\<lparr>c_pending := c_pending c - {cseq}\<rparr>"

definition roundTrip_expired :: "int \<Rightarrow> rtsp_client \<Rightarrow> rtsp_client" where
  "roundTrip_expired cseq c = roundTrip_done cseq (c_initiateShutdown ErrRequestFailed c)"

section \<open>Setup\<close>

datatype setup_error = StateError | ErrUnknownTrack | ErrTrackAlreadySetUp | ErrNoChannelsLeft | ErrTransport transport_error
  | ErrTerminated term_cause | ErrUDPSocket | ErrUDPSetupRejected | ErrReply | SetupPanic

definition requireState :: "bytes \<Rightarrow> rtsp_client \<Rightarrow> bool" where
  "requireState method c = legalIn method (c_state c)"

definition commitState :: "bytes \<Rightarrow> rtsp_client \<Rightarrow> rtsp_client" where
  "commitState method c = (case destState method of None \<Rightarrow> c | Some dest \<Rightarrow> c\<lparr>c_state := dest\<rparr>)"

definition describedTrackFor :: "int \<Rightarrow> bytes \<Rightarrow> rtsp_client \<Rightarrow> setup_error + described_track" where
  "describedTrackFor trk_ID trk_Control c =
     (if \<not> requireState methodSetup c then Inl StateError
      else if trk_ID < 0 \<or> trk_ID \<ge> int (length (c_described c)) then Inl ErrUnknownTrack
      else let desc = c_described c ! nat trk_ID in
        if trk_Control \<noteq> dt_control desc then Inl ErrUnknownTrack
        else if \<exists>t \<in> set (c_tracks c). tr_id t = trk_ID then Inl ErrTrackAlreadySetUp
        else Inr desc)"

datatype TransportPreference = PreferTCP | PreferUDP | PreferUDPThenTCP

definition transportPinTCP :: bytes where "transportPinTCP = lit ''TCP''"
definition transportPinUDP :: bytes where "transportPinUDP = lit ''UDP''"

definition resolveTransport :: "TransportPreference \<Rightarrow> bytes \<Rightarrow> bool \<times> bool" where
  "resolveTransport pref pin =
     (if pin = transportPinTCP then (False, False)
      else if pin = transportPinUDP then (True, False)
      else case pref of PreferUDP \<Rightarrow> (True, False) | PreferUDPThenTCP \<Rightarrow> (True, True) | PreferTCP \<Rightarrow> (False, False))"

definition base_above :: "ChannelPair \<Rightarrow> int \<Rightarrow> int" where
  "base_above p base =
     (let base = (if CP_RTP p \<ge> base then CP_RTP p + 1 else base) in if CP_RTCP p \<ge> base then CP_RTCP p + 1 else base)"

definition nextChannelPair :: "rtsp_client \<Rightarrow> setup_error + int \<times> int" where
  "nextChannelPair c =
     (let base = fold base_above (c_channelPairs c) 0;
          base = (if base mod 2 \<noteq> 0 then base + 1 else base)
      in if base + 1 > maxInterleavedChannel then Inl ErrNoChannelsLeft else Inr (base, base + 1))"

definition claimedChannels :: "rtsp_client \<Rightarrow> int set" where
  "claimedChannels c = set (concat (map (\<lambda>p. [CP_RTP p, CP_RTCP p]) (c_channelPairs c)))"

definition recordSession :: "SessionHeader \<Rightarrow> rtsp_client \<Rightarrow> rtsp_client" where
  "recordSession sh c =
     (if c_sessionID c \<noteq> [] then c
      else if SH_ID sh = [] then c
      else c\<lparr>c_sessionID := SH_ID sh, c_sessionTimeout := SH_Timeout sh\<rparr>)"

definition publishTrack :: "track \<Rightarrow> int \<Rightarrow> int \<Rightarrow> rtsp_client \<Rightarrow> setup_error option \<times> rtsp_client" where
  "publishTrack tr rtpCh rtcpCh c =
     (case c_termErr c of
        Some e \<Rightarrow> (Some (ErrTerminated e), c)
      | None \<Rightarrow> (None, commitState methodSetup (c\<lparr>c_channels := newChannelTable (c_channels c) (length (c_tracks c)) rtpCh rtcpCh,
          c_tracks := c_tracks c @ [tr],
          c_channelPairs := c_channelPairs c @ [\<lparr>CP_TrackID = tr_id tr, CP_RTP = rtpCh, CP_RTCP = rtcpCh\<rparr>],
          c_sessionTransport := transportPinTCP\<rparr>)))"

definition teardownRejectedStream :: "environment \<Rightarrow> bytes \<Rightarrow> rtsp_client \<Rightarrow> rtsp_client" where
  "teardownRejectedStream env control c =
     (case marshalBareRequest env methodTeardown control c of
        (Inl e, c) \<Rightarrow> c
      | (Inr raw, c) \<Rightarrow> snd (writeMessage env raw c))"

text \<open>\<open>setupTCP\<close> before its request and after the answer.\<close>

definition setupTCP_send :: "environment \<Rightarrow> bytes \<Rightarrow> rtsp_client \<Rightarrow> setup_error + (int option \<times> rtsp_client)" where
  "setupTCP_send env control c =
     (case nextChannelPair c of
        Inl e \<Rightarrow> Inl e
      | Inr (rtpCh, rtcpCh) \<Rightarrow>
          Inr (roundTrip_send env methodSetup control (Header_Set [] (lit ''Transport'') (BuildTransport rtpCh rtcpCh)) c))"

definition setupTCP_answer :: "environment \<Rightarrow> int \<Rightarrow> bytes \<Rightarrow> described_track \<Rightarrow> setup_options \<Rightarrow> rtsp_response \<Rightarrow> rtsp_client
    \<Rightarrow> setup_error option \<times> rtsp_client" where
  "setupTCP_answer env trk_ID control desc opts resp c =
     (let c = recordSession (ParseSession (Header_Get (Resp_Header resp) (lit ''Session''))) c in
      case ParseTransport (Header_Get (Resp_Header resp) (lit ''Transport'')) of
        Inl e \<Rightarrow> (Some (ErrTransport e), teardownRejectedStream env control c)
      | Inr th \<Rightarrow>
          (case InterleavedChannels (claimedChannels c) th of
             Inl e \<Rightarrow> (Some (ErrTransport e), teardownRejectedStream env control c)
           | Inr (gotRTP, gotRTCP) \<Rightarrow>
               (case newTrack trk_ID desc opts gotRTCP of
                  None \<Rightarrow> (Some SetupPanic, c)
                | Some tr \<Rightarrow> publishTrack tr gotRTP gotRTCP c)))"

section \<open>Setup over UDP\<close>

text \<open>A socket pair is known by a number; the ports it got, or that none could be bound, are given.\<close>

definition openMediaSockets :: "int option \<Rightarrow> rtsp_client \<Rightarrow> (media_sockets \<times> rtsp_client) option" where
  "openMediaSockets port c =
     (case port of
        None \<Rightarrow> None
      | Some p \<Rightarrow> Some (\<lparr>m_id = c_opened c, m_clientRTPPort = p, m_clientRTCPPort = p + 1, m_rtpPeer = None, m_rtcpPeer = None\<rparr>,
          c\<lparr>c_opened := Suc (c_opened c)\<rparr>))"

definition m_Close :: "media_sockets \<Rightarrow> rtsp_client \<Rightarrow> rtsp_client" where
  "m_Close m c = c\<lparr>c_closedSockets := insert (m_id m) (c_closedSockets c)\<rparr>"

definition resolveServerPeers :: "TransportHeader \<Rightarrow> bytes option \<Rightarrow> media_sockets \<Rightarrow> media_sockets option" where
  "resolveServerPeers th controlPeerIP m =
     (case controlPeerIP of
        None \<Rightarrow> None
      | Some ip \<Rightarrow>
          (case ServerPorts th of
             None \<Rightarrow> None
           | Some (rtpPort, rtcpPort) \<Rightarrow> Some (m\<lparr>m_rtpPeer := Some (ip, rtpPort), m_rtcpPeer := Some (ip, rtcpPort)\<rparr>)))"

definition endpoint :: "int \<Rightarrow> media_sockets \<Rightarrow> UDPEndpoint" where
  "endpoint trackID m =
     \<lparr>UE_TrackID = trackID, UE_ClientRTPPort = m_clientRTPPort m, UE_ClientRTCPPort = m_clientRTCPPort m,
      UE_ServerRTPPort = (case m_rtpPeer m of None \<Rightarrow> 0 | Some (_, p) \<Rightarrow> p),
      UE_ServerRTCPPort = (case m_rtcpPeer m of None \<Rightarrow> 0 | Some (_, p) \<Rightarrow> p)\<rparr>"

text \<open>The two critical sections of \<open>publishUDPTrack\<close>.\<close>

definition publishUDPTrack :: "track \<Rightarrow> int \<Rightarrow> media_sockets \<Rightarrow> rtsp_client \<Rightarrow> setup_error option \<times> rtsp_client" where
  "publishUDPTrack tr trackID m c =
     (case c_termErr c of
        Some e \<Rightarrow> (Some (ErrTerminated e), m_Close m c)
      | None \<Rightarrow> (None, commitState methodSetup (c\<lparr>c_tracks := c_tracks c @ [tr], c_udpPinned := True,
          c_sessionTransport := transportPinUDP, c_udpEndpoints := c_udpEndpoints c @ [endpoint trackID m]\<rparr>)))"

definition registerMediaSockets :: "int \<Rightarrow> media_sockets \<Rightarrow> rtsp_client \<Rightarrow> rtsp_client" where
  "registerMediaSockets trackID m c = (if c_closing c then m_Close m c else c\<lparr>c_media := (c_media c)(trackID \<mapsto> m)\<rparr>)"

definition setupUDP_answer :: "environment \<Rightarrow> bytes option \<Rightarrow> int \<Rightarrow> bytes \<Rightarrow> described_track \<Rightarrow> setup_options \<Rightarrow> media_sockets
    \<Rightarrow> rtsp_response \<Rightarrow> rtsp_client \<Rightarrow> (setup_error + media_sockets) \<times> rtsp_client" where
  "setupUDP_answer env peer trk_ID control desc opts m resp c =
     (let c = recordSession (ParseSession (Header_Get (Resp_Header resp) (lit ''Session''))) c in
      case ParseTransport (Header_Get (Resp_Header resp) (lit ''Transport'')) of
        Inl e \<Rightarrow> (Inl (ErrTransport e), teardownRejectedStream env control (m_Close m c))
      | Inr th \<Rightarrow>
          (case resolveServerPeers th peer m of
             None \<Rightarrow> (Inl ErrUDPSetupRejected, teardownRejectedStream env control (m_Close m c))
           | Some m \<Rightarrow>
               (case newTrack trk_ID desc opts 0 of
                  None \<Rightarrow> (Inl SetupPanic, c)
                | Some tr \<Rightarrow>
                    (case publishUDPTrack tr trk_ID m c of
                       (Some e, c) \<Rightarrow> (Inl e, c)
                     | (None, c) \<Rightarrow> (Inr m, c)))))"

definition closeMediaSockets :: "rtsp_client \<Rightarrow> rtsp_client" where
  "closeMediaSockets c = c\<lparr>c_closedSockets := c_closedSockets c \<union> m_id ` ran (c_media c)\<rparr>"

definition sessionEstablished :: "rtsp_client \<Rightarrow> bool" where
  "sessionEstablished c \<longleftrightarrow> c_sessionID c \<noteq> []"

definition sendTeardownBestEffort :: "environment \<Rightarrow> rtsp_client \<Rightarrow> rtsp_client" where
  "sendTeardownBestEffort env c =
     (case marshalBareRequest env methodTeardown (c_baseURL c) c of
        (Inl e, c) \<Rightarrow> c
      | (Inr raw, c) \<Rightarrow> snd (writeMessage env raw c))"

definition teardownAndJoin :: "environment \<Rightarrow> rtsp_client \<Rightarrow> rtsp_client" where
  "teardownAndJoin env c = closeMediaSockets (if sessionEstablished c then sendTeardownBestEffort env c else c)"

section \<open>Describe and Play\<close>

text \<open>A track as \<open>resolveTracks\<close> records it, from what the SDP said of it and its resolved control URL.\<close>

definition describe_track :: "bytes \<Rightarrow> Codec \<Rightarrow> int \<Rightarrow> int \<Rightarrow> MediaKind \<Rightarrow> aac_params option \<Rightarrow> described_track option" where
  "describe_track control codec payloadType clockRate media aac =
     (case resolveLATMASC codec of
        None \<Rightarrow> None
      | Some (codec, latmDepack, latmResolved) \<Rightarrow>
          Some \<lparr>dt_control = control, dt_codec = codec, dt_payloadType = payloadType, dt_clockRate = clockRate, dt_media = media,
                dt_aac = aac, dt_latmDepack = latmDepack, dt_latmResolved = latmResolved\<rparr>)"

definition describe_commit :: "bytes \<Rightarrow> described_track list \<Rightarrow> rtsp_client \<Rightarrow> setup_error option \<times> rtsp_client" where
  "describe_commit base described c =
     (case c_termErr c of
        Some e \<Rightarrow> (Some (ErrTerminated e), c)
      | None \<Rightarrow> (None, commitState methodDescribe (c\<lparr>c_baseURL := base, c_described := described\<rparr>)))"

definition ParseUint32 :: "bytes \<Rightarrow> nat option" where
  "ParseUint32 s = (if s = [] then None else case atoi_digits 0 s of None \<Rightarrow> None | Some n \<Rightarrow> if n < 2 ^ 32 then Some n else None)"

record rtp_info =
  ri_url :: bytes
  ri_seq :: "nat option"
  ri_rtptime :: "nat option"

definition rtp_info_part :: "bytes \<Rightarrow> rtp_info \<Rightarrow> rtp_info" where
  "rtp_info_part part r =
     (case Cut 61 (TrimSpace part) of (n, v, has) \<Rightarrow>
        if \<not> has then r
        else let name = ToLower (TrimSpace n); val = TrimSpace v in
          if name = lit ''url'' then r\<lparr>ri_url := val\<rparr>
          else if name = lit ''seq'' then (case ParseUint32 val of None \<Rightarrow> r | Some x \<Rightarrow> r\<lparr>ri_seq := Some x\<rparr>)
          else if name = lit ''rtptime'' then (case ParseUint32 val of None \<Rightarrow> r | Some x \<Rightarrow> r\<lparr>ri_rtptime := Some x\<rparr>)
          else r)"

definition parseRTPInfoEntry :: "bytes \<Rightarrow> (bytes \<times> nat \<times> nat) option" where
  "parseRTPInfoEntry entry =
     (let r = fold rtp_info_part (Split 59 entry) \<lparr>ri_url = [], ri_seq = None, ri_rtptime = None\<rparr> in
      if CR \<in> set (ri_url r) \<or> LF \<in> set (ri_url r) \<or> 0 \<in> set (ri_url r) then None
      else case (ri_seq r, ri_rtptime r) of (Some seq, Some rtptime) \<Rightarrow> Some (ri_url r, seq, rtptime) | _ \<Rightarrow> None)"

definition matchTrack :: "environment \<Rightarrow> track list \<Rightarrow> bytes \<Rightarrow> bytes \<Rightarrow> nat \<Rightarrow> nat option" where
  "matchTrack env trs base rawURL pos =
     (if rawURL \<noteq> [] then
        let resolved = (case env_resolveURL env base rawURL of None \<Rightarrow> rawURL | Some r \<Rightarrow> r)
        in List.find (\<lambda>k. tr_control (trs ! k) = resolved \<or> tr_control (trs ! k) = rawURL) [0..<length trs]
      else if pos < length trs then Some pos else None)"

definition seed_entry :: "environment \<Rightarrow> nat \<times> bytes \<Rightarrow> rtsp_client \<Rightarrow> rtsp_client" where
  "seed_entry env e c =
     (case parseRTPInfoEntry (snd e) of
        None \<Rightarrow> c
      | Some (url, _, rtptime) \<Rightarrow>
          (case matchTrack env (c_tracks c) (c_baseURL c) url (fst e) of
             None \<Rightarrow> c
           | Some k \<Rightarrow> set_track k ((c_tracks c ! k)\<lparr>tr_seed := word_of_nat rtptime, tr_hasSeed := True\<rparr>) c))"

definition seedFromRTPInfo :: "environment \<Rightarrow> bytes \<Rightarrow> rtsp_client \<Rightarrow> rtsp_client" where
  "seedFromRTPInfo env header c =
     (if header = [] then c else if c_tracks c = [] then c else fold (seed_entry env) (List.enumerate 0 (Split 44 header)) c)"

definition playRange :: bytes where "playRange = lit ''npt=0.000-''"

text \<open>The watchdog of every receiver is seeded before it starts.\<close>

definition startUDPReceivers :: "environment \<Rightarrow> rtsp_client \<Rightarrow> rtsp_client" where
  "startUDPReceivers env c =
     (let (now, c) = now_of env c
      in c\<lparr>c_tracks := map (\<lambda>tr. if c_media c (tr_id tr) = None then tr else tr\<lparr>tr_lastFrameUnixNano := now\<rparr>) (c_tracks c)\<rparr>)"

text \<open>\<open>Play\<close> before its request and after the answer.\<close>

definition play_send :: "environment \<Rightarrow> rtsp_client \<Rightarrow> setup_error + (int option \<times> rtsp_client)" where
  "play_send env c =
     (if \<not> requireState methodPlay c then Inl StateError
      else Inr (roundTrip_send env methodPlay (c_baseURL c) (Header_Set [] (lit ''Range'') playRange) c))"

definition play_answer :: "environment \<Rightarrow> rtsp_response \<Rightarrow> rtsp_client \<Rightarrow> setup_error option \<times> rtsp_client" where
  "play_answer env resp c0 =
     (let (now, c) = now_of env (seedFromRTPInfo env (Header_Get (Resp_Header resp) (lit ''RTP-Info'')) c0); c = c\<lparr>c_lastFrameAt := now\<rparr> in
      case c_termErr c of
        Some e \<Rightarrow> (Some (ErrTerminated e), c)
      | None \<Rightarrow>
          let c = (commitState methodPlay c)\<lparr>c_playing := True\<rparr>
          in (None, if c_udpPinned c then startUDPReceivers env c else c))"

section \<open>Keepalives and receiver reports\<close>

definition maxDLSRSeconds :: int where [caps]: "maxDLSRSeconds = 2 ^ 16"

definition dlsrUnits :: "int \<Rightarrow> u32" where
  "dlsrUnits elapsed =
     (if elapsed \<le> 0 then 0
      else if elapsed \<ge> maxDLSRSeconds * 10 ^ 9 then 2 ^ 32 - 1
      else let sec = (word_of_int (elapsed div 10 ^ 9) :: u64); frac = (word_of_int (elapsed mod 10 ^ 9) :: u64)
        in ucast (push_bit 16 sec + push_bit 16 frac div 10 ^ 9))"

definition buildReceiverReport :: "u32 \<Rightarrow> int \<Rightarrow> track \<Rightarrow> receiver_report" where
  "buildReceiverReport reporterSSRC now tr =
     \<lparr>ReporterSSRC = reporterSSRC,
      Blocks = [\<lparr>RB_SSRC = tr_senderSSRC tr, FractionLost = 0, CumulativeLost = tr_rrCumulativeLost tr, HighestSequence = tr_rrHighestSeq tr,
        Jitter = 0, LastSR = tr_lastSR tr,
        DelaySinceLastSR = (if tr_lastSRUnixNano tr \<noteq> 0 then dlsrUnits (now - tr_lastSRUnixNano tr) else 0)\<rparr>]\<rparr>"

definition sendKeepalive :: "environment \<Rightarrow> bytes \<Rightarrow> rtsp_client \<Rightarrow> rtsp_client" where
  "sendKeepalive env keepaliveMethod c =
     (let method = (if keepaliveMethod = [] then methodOptions else keepaliveMethod) in
      case marshalBareRequest env method (c_baseURL c) c of
        (Inl e, c) \<Rightarrow> c
      | (Inr raw, c) \<Rightarrow> snd (writeMessage env raw c))"

definition sendReceiverReports :: "environment \<Rightarrow> u32 \<Rightarrow> rtsp_client \<Rightarrow> rtsp_client" where
  "sendReceiverReports env reporter c =
     (let (now, c) = now_of env c in
      fold (\<lambda>tr c. if tr_discard tr then c
          else (case MarshalInterleaved (tr_rtcpChannel tr) (ReceiverReport_Marshal (buildReceiverReport reporter now tr)) of
              Inl e \<Rightarrow> c
            | Inr raw \<Rightarrow> snd (writeMessage env raw c))) (c_tracks c) c)"

definition sendReceiverReportsUDP :: "u32 \<Rightarrow> int \<Rightarrow> rtsp_client \<Rightarrow> rtsp_client" where
  "sendReceiverReportsUDP reporter now c =
     fold (\<lambda>tr c. if tr_discard tr then c
        else (case c_media c (tr_id tr) of
            None \<Rightarrow> c
          | Some m \<Rightarrow> c\<lparr>c_udpSent := c_udpSent c @ [(m_rtcpPeer m, ReceiverReport_Marshal (buildReceiverReport reporter now tr))]\<rparr>)) (c_tracks c) c"

section \<open>What the handlers keep\<close>

text \<open>Every binding names a track, every track is sound, and no panic has ended the session.\<close>

definition client_ok :: "rtsp_client \<Rightarrow> bool" where
  "client_ok c \<longleftrightarrow> (\<forall>ch b. c_channels c ch = Some b \<longrightarrow> cb_track b < length (c_tracks c)) \<and> list_all track_ok (c_tracks c)
     \<and> pred_option (\<lambda>cause. \<not> panics cause) (c_termErr c) \<and> (c_termErr c \<noteq> None \<longleftrightarrow> c_closing c) \<and> (c_closing c \<longleftrightarrow> c_state c = stateClosed)"

lemma client_ok_set_track: "client_ok c \<Longrightarrow> track_ok tr \<Longrightarrow> client_ok (set_track k tr c)"
  by (auto simp: client_ok_def set_track_def list_all_iff dest!: set_update_subset_insert [THEN subsetD])

lemma client_ok_track: "client_ok c \<Longrightarrow> k < length (c_tracks c) \<Longrightarrow> track_ok (c_tracks c ! k)"
  by (simp add: client_ok_def list_all_length)

lemma client_ok_shutdown: "client_ok c \<Longrightarrow> \<not> panics cause \<Longrightarrow> client_ok (c_initiateShutdown cause c)"
  by (auto simp: client_ok_def c_initiateShutdown_def setTermErr_def split: option.splits)

lemma track_ok_counters [simp]:
  "track_ok (tr\<lparr>tr_lastFrameUnixNano := t\<rparr>) = track_ok tr" "track_ok (tr\<lparr>tr_wireBytes := n\<rparr>) = track_ok tr"
  "track_ok (tr\<lparr>tr_packets := n\<rparr>) = track_ok tr" "track_ok (count_malformed tr) = track_ok tr" "track_ok (tr\<lparr>tr_senderSSRC := x\<rparr>) = track_ok tr"
  "track_ok (tr\<lparr>tr_lastSR := x\<rparr>) = track_ok tr" "track_ok (tr\<lparr>tr_lastSRUnixNano := t\<rparr>) = track_ok tr"
  "track_ok (tr\<lparr>tr_srClock := sc\<rparr>) = track_ok tr"
  by (simp_all add: track_ok_def count_malformed_def)

lemma handleRTCP_ok:
  assumes "track_ok tr"
  shows "\<exists>usable tr'. handleRTCP payload now tr = Some (usable, tr') \<and> track_ok tr'"
proof (cases "ParseCompound payload" rule: go_cases)
  case Panic
  then show ?thesis using ParseCompound_no_panic [of payload] by simp
next
  case (Ok rs)
  then show ?thesis using assms by (cases rs) (auto simp: handleRTCP_def Let_def split: option.split)
qed (use assms in \<open>auto simp: handleRTCP_def\<close>)

lemma c_handleRTCP_ok: "client_ok c \<Longrightarrow> k < length (c_tracks c) \<Longrightarrow> client_ok (snd (c_handleRTCP k payload now c))"
  using handleRTCP_ok [OF client_ok_track, of c k payload now] client_ok_set_track by (auto simp: c_handleRTCP_def Let_def)

lemma c_handleRTP_ok:
  assumes "client_ok c" "k < length (c_tracks c)"
  shows "client_ok (snd (c_handleRTP env k payload now c))"
proof -
  define tr where "tr = c_tracks c ! k"
  define tr1 where "tr1 = tr\<lparr>tr_lastFrameUnixNano := now, tr_wireBytes := tr_wireBytes tr + word_of_nat (interleavedHeaderLen + length payload)\<rparr>"
  have tr1: "track_ok tr1" using client_ok_track [OF assms] by (simp add: tr1_def tr_def)
  have events: "client_ok (c'\<lparr>c_events := e\<rparr>)" if "client_ok c'" for c' e using that by (simp add: client_ok_def)
  have H: "c_handleRTP env k payload now c =
     (if tr_discard tr1 then
           let usable = rtp_header_shape payload in
           (usable, set_track k (if usable then tr1\<lparr>tr_packets := tr_packets tr1 + 1\<rparr> else tr1) c)
         else (case ParsePacket payload of
             None \<Rightarrow> recoverReader c
           | Some (Inl e) \<Rightarrow> (False, set_track k (count_malformed tr1) c)
           | Some (Inr pkt) \<Rightarrow>
               (case process (env_callbacks env) pkt now tr1 of
                  None \<Rightarrow> recoverReader c
                | Some (usable, evs, tr) \<Rightarrow> (usable, (set_track k tr c)\<lparr>c_events := c_events c @ evs\<rparr>))))"
    by (simp only: c_handleRTP_def Let_def tr_def tr1_def)
  show ?thesis
  proof (cases "tr_discard tr1")
    case True
    then show ?thesis using client_ok_set_track [OF assms(1)] tr1 by (simp add: H Let_def)
  next
    case False
    show ?thesis
    proof (cases "ParsePacket payload" rule: go_cases)
      case Panic
      then show ?thesis using ParsePacket_no_panic [of payload] by simp
    next
      case (Err e)
      then show ?thesis using client_ok_set_track [OF assms(1)] tr1 False by (simp add: H)
    next
      case (Ok pkt)
      obtain b out tr' where p: "process (env_callbacks env) pkt now tr1 = Some (b, out, tr')" "track_ok tr'"
        using process_ok [OF tr1, of "env_callbacks env" pkt now] by (auto split: prod.splits)
      then show ?thesis using client_ok_set_track [OF assms(1) p(2)] events False Ok by (simp add: H)
    qed
  qed
qed

lemma c_handleInterleaved_ok:
  assumes "client_ok c"
  shows "client_ok (snd (c_handleInterleaved env f c))"
proof -
  define now where "now = env_clock env (c_ticks c)"
  define c1 where "c1 = c\<lparr>c_ticks := Suc (c_ticks c), c_lastFrameAt := now\<rparr>"
  have c1: "client_ok c1" "c_channels c1 = c_channels c" "c_tracks c1 = c_tracks c" using assms by (simp_all add: c1_def client_ok_def)
  have H: "c_handleInterleaved env f c = (case lookup (c_channels c) (int (Channel f)) of
        None \<Rightarrow> (False, c1)
      | Some bnd \<Rightarrow>
          if cb_isRTCP bnd then c_handleRTCP (cb_track bnd) (IPayload f) now c1
          else c_handleRTP env (cb_track bnd) (IPayload f) now c1)"
    unfolding c1_def now_def by (simp add: c_handleInterleaved_def now_of_def Let_def)
  show ?thesis
  proof (cases "lookup (c_channels c) (int (Channel f))")
    case (Some b)
    then have "cb_track b < length (c_tracks c1)" using assms c1 by (auto simp: client_ok_def lookup_def)
    then show ?thesis using Some c_handleRTCP_ok [OF c1(1)] c_handleRTP_ok [OF c1(1)] by (simp add: H)
  qed (use c1 in \<open>simp add: H\<close>)
qed

lemma writeMessage_ok: "client_ok c \<Longrightarrow> client_ok (snd (writeMessage env raw c))"
  by (simp add: writeMessage_def Let_def client_ok_def)

lemma c_handleServerRequest_ok:
  assumes "client_ok c"
  shows "client_ok (c_handleServerRequest env req c)"
proof -
  have "client_ok (case writeMessage env raw c of (True, c) \<Rightarrow> c | (False, c) \<Rightarrow> c_initiateShutdown ErrWriteFailed c)" for raw
    using writeMessage_ok [OF assms, of env raw] client_ok_shutdown [of _ ErrWriteFailed] by (cases "writeMessage env raw c") (auto split: bool.split)
  then show ?thesis using assms client_ok_shutdown [OF assms, of ErrServerTeardown] by (simp add: c_handleServerRequest_def split: sum.split)
qed

interpretation client_reader: reader_client "client_handlers env" client_ok for env
proof
  fix c f resp req cause
  assume c: "client_ok c"
  show "client_ok (snd (handleInterleaved (client_handlers env) f c))" using c_handleInterleaved_ok [OF c] by (simp add: client_handlers_def)
  show "client_ok (dispatchResponse (client_handlers env) resp c)" using c by (simp add: client_handlers_def c_dispatchResponse_def client_ok_def)
  show "client_ok (handleServerRequest (client_handlers env) req c)" using c_handleServerRequest_ok [OF c] by (simp add: client_handlers_def)
  show "client_ok (initiateShutdown (client_handlers env) cause c)" if "cause \<noteq> ReaderPanic"
    using client_ok_shutdown [OF c] that by (simp add: client_handlers_def)
qed

end
