(* ===== verification/UDP_Receive.thy ===== *)
theory UDP_Receive
  imports RTSP_Client RTP_Reorder
begin

text \<open>
  The UDP receive goroutines of \<open>src/rtsp/udprecv.go\<close>: every datagram is checked against the negotiated peer, counted, resequenced and
  drained through the packet path the interleaved reader uses. A datagram is the source address the socket reports with the bytes read; the
  local variables of \<open>runRTPReceiver\<close> are a record. One pass of a receive loop is one step.
\<close>

section \<open>The source address\<close>

text \<open>Go's \<open>net.IP.Equal\<close>: an IPv4 address equals its 16-byte form.\<close>

definition v4InV6Prefix :: bytes where
  "v4InV6Prefix = replicate 10 0 @ [255, 255]"

definition ip_equal :: "bytes \<Rightarrow> bytes \<Rightarrow> bool" where
  "ip_equal ip x \<longleftrightarrow> (if length ip = length x then ip = x
     else if length ip = 4 \<and> length x = 16 then x = v4InV6Prefix @ ip
     else if length ip = 16 \<and> length x = 4 then ip = v4InV6Prefix @ x
     else False)"

definition fromPeer :: "bytes option \<Rightarrow> bytes \<Rightarrow> bool" where
  "fromPeer addr peerIP \<longleftrightarrow> (case addr of None \<Rightarrow> False | Some ip \<Rightarrow> ip_equal ip peerIP)"

record datagram =
  dg_addr :: "bytes option"
  dg_data :: bytes

section \<open>The receive loops\<close>

record rtp_receiver =
  rr_reorder :: reorderer
  rr_lastSSRC :: u32
  rr_haveSSRC :: bool

definition rtp_receiver0 :: rtp_receiver where
  "rtp_receiver0 = \<lparr>rr_reorder = reorderer0, rr_lastSSRC = 0, rr_haveSSRC = False\<rparr>"

fun drainReleased :: "callbacks \<Rightarrow> released list \<Rightarrow> int \<Rightarrow> track \<Rightarrow> (event list \<times> track) option" where
  "drainReleased cb [] now tr = Some ([], tr)"
| "drainReleased cb (r # rs) now tr =
     (case ParsePacket (RPayload r) of
        None \<Rightarrow> None
      | Some (Inl e) \<Rightarrow> drainReleased cb rs now (count_malformed tr)
      | Some (Inr pkt) \<Rightarrow>
          (case process cb pkt now tr of
             None \<Rightarrow> None
           | Some (_, evs, tr) \<Rightarrow> map_option (\<lambda>(evs', tr). (evs @ evs', tr)) (drainReleased cb rs now tr)))"

text \<open>A parsed datagram: a change of source flushes and resets the resequencer first.\<close>

definition source_flush :: "u32 \<Rightarrow> rtp_receiver \<Rightarrow> released list \<times> reorderer" where
  "source_flush ssrc rr =
     (if rr_haveSSRC rr \<and> ssrc \<noteq> rr_lastSSRC rr then (case Flush (rr_reorder rr) of (out, r) \<Rightarrow> (out, Reset r))
      else ([], rr_reorder rr))"

definition count_drops :: "u64 \<Rightarrow> u64 \<Rightarrow> track \<Rightarrow> track" where
  "count_drops lateBefore lateAfter tr =
     (if lateAfter > lateBefore then tr\<lparr>tr_reorderDrops := tr_reorderDrops tr + (lateAfter - lateBefore)\<rparr> else tr)"

definition resequence :: "callbacks \<Rightarrow> rtp_packet \<Rightarrow> bytes \<Rightarrow> int \<Rightarrow> rtp_receiver \<Rightarrow> track \<Rightarrow> (rtp_receiver \<times> event list \<times> track) option" where
  "resequence cb pkt data now rr tr =
     (case source_flush (SSRC (Header pkt)) rr of (flushed, r) \<Rightarrow>
        (case drainReleased cb flushed now tr of
           None \<Rightarrow> None
         | Some (evs, tr) \<Rightarrow>
             (case Push r (SequenceNumber (Header pkt), data) of (out, r') \<Rightarrow>
                (case drainReleased cb out now (count_drops (late r) (late r') tr) of
                   None \<Rightarrow> None
                 | Some (evs', tr) \<Rightarrow> Some (\<lparr>rr_reorder = r', rr_lastSSRC = SSRC (Header pkt), rr_haveSSRC = True\<rparr>, evs @ evs', tr)))))"

definition recoverReceiver :: "rtsp_client \<Rightarrow> rtsp_client" where
  "recoverReceiver c = c_initiateShutdown ErrReceiverPanic c"

definition count_filtered :: "track \<Rightarrow> track" where
  "count_filtered tr = tr\<lparr>tr_sourceFiltered := tr_sourceFiltered tr + 1\<rparr>"

definition count_wire :: "int \<Rightarrow> nat \<Rightarrow> track \<Rightarrow> track" where
  "count_wire now n tr = tr\<lparr>tr_lastFrameUnixNano := now, tr_wireBytes := tr_wireBytes tr + word_of_nat n\<rparr>"

definition rtp_datagram :: "environment \<Rightarrow> nat \<Rightarrow> bytes \<Rightarrow> datagram \<Rightarrow> rtp_receiver \<Rightarrow> rtsp_client \<Rightarrow> rtp_receiver \<times> rtsp_client" where
  "rtp_datagram env k peerIP d rr c0 =
     (if \<not> fromPeer (dg_addr d) peerIP then (rr, set_track k (count_filtered (c_tracks c0 ! k)) c0)
      else
        let (now, c) = now_of env c0; c = c\<lparr>c_lastFrameAt := now\<rparr>;
            tr = count_wire now (length (dg_data d)) (c_tracks c ! k)
        in case ParsePacket (dg_data d) of
             None \<Rightarrow> (rr, recoverReceiver c)
           | Some (Inl e) \<Rightarrow> (rr, set_track k (count_malformed tr) c)
           | Some (Inr pkt) \<Rightarrow>
               (case resequence (env_callbacks env) pkt (dg_data d) now rr tr of
                  None \<Rightarrow> (rr, recoverReceiver c)
                | Some (rr, evs, tr) \<Rightarrow> (rr, (set_track k tr c)\<lparr>c_events := c_events c @ evs\<rparr>)))"

definition rtcp_datagram :: "environment \<Rightarrow> nat \<Rightarrow> bytes \<Rightarrow> datagram \<Rightarrow> rtsp_client \<Rightarrow> rtsp_client" where
  "rtcp_datagram env k peerIP d c0 =
     (if \<not> fromPeer (dg_addr d) peerIP then set_track k (count_filtered (c_tracks c0 ! k)) c0
      else
        let (now, c) = now_of env c0
        in case handleRTCP (dg_data d) now (c_tracks c ! k) of
             None \<Rightarrow> recoverReceiver c
           | Some (usable, tr) \<Rightarrow> set_track k tr c)"

definition discard_datagram :: "environment \<Rightarrow> nat \<Rightarrow> bytes \<Rightarrow> bool \<Rightarrow> datagram \<Rightarrow> rtsp_client \<Rightarrow> rtsp_client" where
  "discard_datagram env k peerIP isRTCP d c0 =
     (if \<not> fromPeer (dg_addr d) peerIP then set_track k (count_filtered (c_tracks c0 ! k)) c0
      else if isRTCP then c0
      else
        let (now, c) = now_of env c0; c = c\<lparr>c_lastFrameAt := now\<rparr>;
            tr = count_wire now (length (dg_data d)) (c_tracks c ! k)
        in set_track k (if rtp_header_shape (dg_data d) then tr\<lparr>tr_packets := tr_packets tr + 1\<rparr> else tr) c)"

text \<open>A read that fails ends the goroutine and, on an RTP socket, the session.\<close>

datatype media_read = Got datagram | Failed read_event

definition classifyMediaReadErr :: "environment \<Rightarrow> read_event \<Rightarrow> rtsp_client \<Rightarrow> rtsp_client" where
  "classifyMediaReadErr env e c = c_initiateShutdown (ReaderCause (classifyReadErr (client_handlers env) e c)) c"

fun runRTPReceiver :: "environment \<Rightarrow> nat \<Rightarrow> bytes \<Rightarrow> media_read list \<Rightarrow> rtp_receiver \<Rightarrow> rtsp_client \<Rightarrow> rtp_receiver \<times> rtsp_client" where
  "runRTPReceiver env k peerIP [] rr c = (rr, c)"
| "runRTPReceiver env k peerIP (ev # evs) rr c =
     (if c_closing c then (rr, c)
      else case ev of
          Failed e \<Rightarrow> (rr, classifyMediaReadErr env e c)
        | Got d \<Rightarrow> (case rtp_datagram env k peerIP d rr c of (rr, c) \<Rightarrow> runRTPReceiver env k peerIP evs rr c))"

fun runRTCPReceiver :: "environment \<Rightarrow> nat \<Rightarrow> bytes \<Rightarrow> media_read list \<Rightarrow> rtsp_client \<Rightarrow> rtsp_client" where
  "runRTCPReceiver env k peerIP [] c = c"
| "runRTCPReceiver env k peerIP (ev # evs) c =
     (if c_closing c then c
      else case ev of
          Failed e \<Rightarrow> c
        | Got d \<Rightarrow> runRTCPReceiver env k peerIP evs (rtcp_datagram env k peerIP d c))"

fun runDiscardReceiver :: "environment \<Rightarrow> nat \<Rightarrow> bytes \<Rightarrow> bool \<Rightarrow> media_read list \<Rightarrow> rtsp_client \<Rightarrow> rtsp_client" where
  "runDiscardReceiver env k peerIP isRTCP [] c = c"
| "runDiscardReceiver env k peerIP isRTCP (ev # evs) c =
     (if c_closing c then c
      else case ev of
          Failed e \<Rightarrow> if isRTCP then c else classifyMediaReadErr env e c
        | Got d \<Rightarrow> runDiscardReceiver env k peerIP isRTCP evs (discard_datagram env k peerIP isRTCP d c))"

section \<open>No datagram panics\<close>

lemma track_ok_wire [simp]:
  "track_ok (count_wire now n tr) = track_ok tr" "track_ok (count_filtered tr) = track_ok tr" "track_ok (count_drops a b tr) = track_ok tr"
  "fixed (count_wire now n tr) = fixed tr" "fixed (count_filtered tr) = fixed tr" "fixed (count_drops a b tr) = fixed tr"
  "fixed (count_malformed tr) = fixed tr"
  by (simp_all add: count_wire_def count_filtered_def count_drops_def track_ok_def fixed_def count_malformed_def)

lemma fixed_id: "fixed a = fixed b \<Longrightarrow> tr_id a = tr_id b"
  by (simp add: fixed_def)

lemma drainReleased_ok:
  assumes "track_ok tr"
  shows "\<exists>evs tr'. drainReleased cb rs now tr = Some (evs, tr') \<and> track_ok tr' \<and> fixed tr' = fixed tr \<and> (\<forall>e \<in> set evs. ev_track e = tr_id tr)"
  using assms
proof (induction rs arbitrary: tr)
  case (Cons r rs)
  show ?case
  proof (cases "ParsePacket (RPayload r)" rule: go_cases)
    case Panic
    then show ?thesis using ParsePacket_no_panic [of "RPayload r"] by simp
  next
    case (Err e)
    then show ?thesis using Cons.IH [of "count_malformed tr"] Cons.prems fixed_id [of "count_malformed tr" tr] by simp
  next
    case (Ok pkt)
    obtain b out tr1 where p: "process cb pkt now tr = Some (b, out, tr1)" "track_ok tr1" "fixed tr1 = fixed tr" "\<forall>e \<in> set out. ev_track e = tr_id tr"
      using process_ok [OF Cons.prems, of cb pkt now] by (auto split: prod.splits)
    obtain evs tr' where "drainReleased cb rs now tr1 = Some (evs, tr')" "track_ok tr'" "fixed tr' = fixed tr1" "\<forall>e \<in> set evs. ev_track e = tr_id tr1"
      using Cons.IH [OF p(2)] by blast
    then show ?thesis using Ok p fixed_id [OF p(3)] by auto
  qed
qed simp

lemma resequence_ok:
  assumes "track_ok tr"
  shows "\<exists>rr' evs tr'. resequence cb pkt data now rr tr = Some (rr', evs, tr') \<and> track_ok tr' \<and> fixed tr' = fixed tr
    \<and> (\<forall>e \<in> set evs. ev_track e = tr_id tr)"
proof -
  obtain flushed r where f: "source_flush (SSRC (Header pkt)) rr = (flushed, r)" by fastforce
  obtain evs tr1 where d: "drainReleased cb flushed now tr = Some (evs, tr1)" "track_ok tr1" "fixed tr1 = fixed tr" "\<forall>e \<in> set evs. ev_track e = tr_id tr"
    using drainReleased_ok [OF assms] by blast
  obtain out r' where p: "Push r (SequenceNumber (Header pkt), data) = (out, r')" by fastforce
  obtain evs' tr2 where d2: "drainReleased cb out now (count_drops (late r) (late r') tr1) = Some (evs', tr2)" "track_ok tr2" "fixed tr2 = fixed tr1"
      "\<forall>e \<in> set evs'. ev_track e = tr_id (count_drops (late r) (late r') tr1)"
    using drainReleased_ok [of "count_drops (late r) (late r') tr1" cb out now] d(2) by auto
  have "tr_id (count_drops (late r) (late r') tr1) = tr_id tr" using fixed_id [of "count_drops (late r) (late r') tr1" tr] d(3) by simp
  then show ?thesis using f d p d2 by (auto simp: resequence_def)
qed

end
