(* ===== verification/RTSP_Session.thy ===== *)
theory RTSP_Session
  imports UDP_Receive
begin

text \<open>
  The goroutines of an RTSP client together: the caller's Describe, Setup and Play, the reader, the UDP receivers, the keepalive timer and whoever ends the
  session, as a step relation over the shared state of \<open>RTSP_Client\<close>. The lifecycle lock admits one call at a time; the other goroutines
  act while a call waits for its answer. The round trips of one exchange with authentication count as one.
\<close>

section \<open>Steps\<close>

datatype purpose = ForDescribe | ForSetupTCP int bytes described_track setup_options
  | ForSetupUDP int bytes described_track setup_options bool media_sockets | ForPlay

datatype call = NoCall | Waiting int purpose | Registering int media_sockets

record session =
  s_client :: rtsp_client
  s_call :: call
  s_torn :: bool
  s_receivers :: "nat \<Rightarrow> rtp_receiver"

datatype operation = CallDescribe | CallSetup int bytes setup_options "int option" | CallPlay

definition Setup_send :: "environment \<Rightarrow> TransportPreference \<Rightarrow> int \<Rightarrow> bytes \<Rightarrow> setup_options \<Rightarrow> int option \<Rightarrow> rtsp_client
    \<Rightarrow> setup_error + purpose \<times> int option \<times> rtsp_client" where
  "Setup_send env pref trk_ID control opts port c =
     (case describedTrackFor trk_ID control c of
        Inl e \<Rightarrow> Inl e
      | Inr desc \<Rightarrow>
          (case resolveTransport pref (c_sessionTransport c) of (attemptUDP, allowFallback) \<Rightarrow>
             if attemptUDP then
               (case openMediaSockets port c of
                  None \<Rightarrow> Inl ErrUDPSocket
                | Some (m, c) \<Rightarrow>
                    Inr (ForSetupUDP trk_ID control desc opts allowFallback m,
                      roundTrip_send env methodSetup control
                        (Header_Set [] (lit ''Transport'') (BuildTransportUDP (m_clientRTPPort m) (m_clientRTCPPort m))) c))
             else (case setupTCP_send env control c of Inl e \<Rightarrow> Inl e | Inr r \<Rightarrow> Inr (ForSetupTCP trk_ID control desc opts, r))))"

definition call_begin :: "environment \<Rightarrow> TransportPreference \<Rightarrow> operation \<Rightarrow> rtsp_client \<Rightarrow> setup_error + purpose \<times> int option \<times> rtsp_client" where
  "call_begin env pref oper c =
     (case oper of
        CallDescribe \<Rightarrow>
          if \<not> requireState methodDescribe c then Inl StateError
          else Inr (ForDescribe, roundTrip_send env methodDescribe (c_baseURL c) (Header_Set [] (lit ''Accept'') (lit ''application/sdp'')) c)
      | CallSetup trk_ID control opts port \<Rightarrow> Setup_send env pref trk_ID control opts port c
      | CallPlay \<Rightarrow> (case play_send env c of Inl e \<Rightarrow> Inl e | Inr r \<Rightarrow> Inr (ForPlay, r)))"

text \<open>A call that gets no usable answer releases the sockets it holds.\<close>

definition give_up :: "purpose \<Rightarrow> rtsp_client \<Rightarrow> rtsp_client" where
  "give_up p c = (case p of ForSetupUDP _ _ _ _ _ m \<Rightarrow> m_Close m c | _ \<Rightarrow> c)"

text \<open>A call with its answer; \<open>tracks\<close> of a description are what \<open>resolveTracks\<close> makes of the session description.\<close>

definition call_answer :: "environment \<Rightarrow> bytes option \<Rightarrow> bytes \<Rightarrow> described_track list \<Rightarrow> purpose \<Rightarrow> rtsp_response \<Rightarrow> rtsp_client \<Rightarrow> rtsp_client \<times> call" where
  "call_answer env peer base described p resp c =
     (case p of
        ForDescribe \<Rightarrow> (snd (describe_commit base described c), NoCall)
      | ForSetupTCP trk_ID control desc opts \<Rightarrow> (snd (setupTCP_answer env trk_ID control desc opts resp c), NoCall)
      | ForSetupUDP trk_ID control desc opts fallback m \<Rightarrow>
          (case setupUDP_answer env peer trk_ID control desc opts m resp c of
             (Inl e, c) \<Rightarrow> (c, NoCall)
           | (Inr m, c) \<Rightarrow> (c, Registering trk_ID m))
      | ForPlay \<Rightarrow> (snd (play_answer env resp c), NoCall))"

definition described_ok :: "described_track \<Rightarrow> bool" where
  "described_ok desc \<longleftrightarrow> (\<exists>control codec pt rate media aac. describe_track control codec pt rate media aac = Some desc)"

inductive session_step :: "environment \<Rightarrow> TransportPreference \<Rightarrow> bytes option \<Rightarrow> session \<Rightarrow> session \<Rightarrow> bool"
  for env pref peer where
  frame: "session_step env pref peer s (s\<lparr>s_client := snd (c_handleInterleaved env f (s_client s))\<rparr>)"
| response: "session_step env pref peer s (s\<lparr>s_client := c_dispatchResponse resp (s_client s)\<rparr>)"
| request: "session_step env pref peer s (s\<lparr>s_client := c_handleServerRequest env req (s_client s)\<rparr>)"
| rtp_data: "k < length (c_tracks (s_client s)) \<Longrightarrow> \<not> tr_discard (c_tracks (s_client s) ! k) \<Longrightarrow>
    c_media (s_client s) (tr_id (c_tracks (s_client s) ! k)) = Some m \<Longrightarrow> m_rtpPeer m = Some (ip, port) \<Longrightarrow>
    rtp_datagram env k ip d (s_receivers s k) (s_client s) = (rr, c) \<Longrightarrow>
    session_step env pref peer s (s\<lparr>s_client := c, s_receivers := (s_receivers s)(k := rr)\<rparr>)"
| rtcp_data: "k < length (c_tracks (s_client s)) \<Longrightarrow> \<not> tr_discard (c_tracks (s_client s) ! k) \<Longrightarrow>
    c_media (s_client s) (tr_id (c_tracks (s_client s) ! k)) = Some m \<Longrightarrow> m_rtcpPeer m = Some (ip, port) \<Longrightarrow>
    session_step env pref peer s (s\<lparr>s_client := rtcp_datagram env k ip d (s_client s)\<rparr>)"
| discard_data: "k < length (c_tracks (s_client s)) \<Longrightarrow> tr_discard (c_tracks (s_client s) ! k) \<Longrightarrow>
    c_media (s_client s) (tr_id (c_tracks (s_client s) ! k)) = Some m \<Longrightarrow> (if isRTCP then m_rtcpPeer m else m_rtpPeer m) = Some (ip, port) \<Longrightarrow>
    session_step env pref peer s (s\<lparr>s_client := discard_datagram env k ip isRTCP d (s_client s)\<rparr>)"
| stop: "\<not> panics cause \<Longrightarrow> session_step env pref peer s (s\<lparr>s_client := c_initiateShutdown cause (s_client s)\<rparr>)"
| teardown: "c_closing (s_client s) \<Longrightarrow> session_step env pref peer s (s\<lparr>s_client := teardownAndJoin env (s_client s), s_torn := True\<rparr>)"
| keepalive: "session_step env pref peer s (s\<lparr>s_client := sendKeepalive env m (s_client s)\<rparr>)"
| reports: "session_step env pref peer s (s\<lparr>s_client := sendReceiverReports env reporter (s_client s)\<rparr>)"
| reports_udp: "session_step env pref peer s (s\<lparr>s_client := sendReceiverReportsUDP reporter now (s_client s)\<rparr>)"
| begins: "s_call s = NoCall \<Longrightarrow> call_begin env pref oper (s_client s) = Inr (p, Some cseq, c) \<Longrightarrow>
    session_step env pref peer s (s\<lparr>s_client := c, s_call := Waiting cseq p\<rparr>)"
| unsent: "s_call s = NoCall \<Longrightarrow> call_begin env pref oper (s_client s) = Inr (p, None, c) \<Longrightarrow>
    session_step env pref peer s (s\<lparr>s_client := give_up p c\<rparr>)"
| answered: "s_call s = Waiting cseq p \<Longrightarrow> resp \<in> set (c_delivered (s_client s)) \<Longrightarrow> Resp_CSeq resp = cseq \<Longrightarrow>
    ClassifyStatus (Some resp) = None \<Longrightarrow> list_all described_ok described \<Longrightarrow>
    call_answer env peer base described p resp (roundTrip_done cseq (s_client s)) = (c, call) \<Longrightarrow>
    session_step env pref peer s (s\<lparr>s_client := c, s_call := call\<rparr>)"
| refused: "s_call s = Waiting cseq p \<Longrightarrow>
    session_step env pref peer s (s\<lparr>s_client := give_up p (roundTrip_done cseq (s_client s)), s_call := NoCall\<rparr>)"
| expired: "s_call s = Waiting cseq p \<Longrightarrow>
    session_step env pref peer s (s\<lparr>s_client := give_up p (roundTrip_expired cseq (s_client s)), s_call := NoCall\<rparr>)"
| fallback: "s_call s = Waiting cseq (ForSetupUDP trk_ID control desc opts True m) \<Longrightarrow>
    setupTCP_send env control (m_Close m (roundTrip_done cseq (s_client s))) = Inr (sent, c) \<Longrightarrow>
    session_step env pref peer s (s\<lparr>s_client := c,
      s_call := (case sent of None \<Rightarrow> NoCall | Some cseq' \<Rightarrow> Waiting cseq' (ForSetupTCP trk_ID control desc opts))\<rparr>)"
| registers: "s_call s = Registering trk_ID m \<Longrightarrow>
    session_step env pref peer s (s\<lparr>s_client := registerMediaSockets trk_ID m (s_client s), s_call := NoCall\<rparr>)"

definition session0 :: "bytes \<Rightarrow> session" where
  "session0 url = \<lparr>s_client = newClient url, s_call = NoCall, s_torn = False, s_receivers = (\<lambda>k. rtp_receiver0)\<rparr>"

inductive session_reach :: "environment \<Rightarrow> TransportPreference \<Rightarrow> bytes option \<Rightarrow> session \<Rightarrow> bool" for env pref peer where
  start: "session_reach env pref peer (session0 url)"
| step: "session_reach env pref peer s \<Longrightarrow> session_step env pref peer s s' \<Longrightarrow> session_reach env pref peer s'"

section \<open>What the other goroutines leave alone\<close>

definition routing :: "rtsp_client \<Rightarrow> _" where
  "routing c = (c_channels c, c_channelPairs c, map fixed (c_tracks c), c_sessionTransport c, c_udpPinned c, c_udpEndpoints c, c_described c)"

definition sockets :: "rtsp_client \<Rightarrow> _" where
  "sockets c = (c_media c, c_opened c, c_closedSockets c)"

definition quiet :: "rtsp_client \<Rightarrow> rtsp_client \<Rightarrow> bool" where
  "quiet c c' \<longleftrightarrow> client_ok c' \<and> routing c' = routing c \<and> sockets c' = sockets c \<and> (c_closing c \<longrightarrow> c_closing c')"

lemma quietI: "client_ok c \<Longrightarrow> quiet c c"
  by (simp add: quiet_def)

lemma quiet_trans: "quiet a b \<Longrightarrow> quiet b c \<Longrightarrow> quiet a c"
  by (simp add: quiet_def)

lemma quietD: "quiet c c' \<Longrightarrow> client_ok c'"
  by (simp add: quiet_def)

lemma quiet_set_track: "client_ok c \<Longrightarrow> track_ok tr \<Longrightarrow> fixed tr = fixed (c_tracks c ! k) \<Longrightarrow> quiet c (set_track k tr c)"
proof -
  assume a: "client_ok c" "track_ok tr" "fixed tr = fixed (c_tracks c ! k)"
  have "map fixed ((c_tracks c)[k := tr]) = map fixed (c_tracks c)"
    using a(3) by (cases "k < length (c_tracks c)") (simp_all add: map_update list_update_same_conv list_update_beyond)
  then show ?thesis using client_ok_set_track [OF a(1,2)] by (simp add: quiet_def routing_def sockets_def set_track_def)
qed

lemma quiet_fields:
  assumes "client_ok c"
  shows "quiet c (c\<lparr>c_ticks := n\<rparr>)" "quiet c (c\<lparr>c_lastFrameAt := t\<rparr>)" "quiet c (c\<lparr>c_events := evs\<rparr>)" "quiet c (c\<lparr>c_pending := ps\<rparr>)"
    "quiet c (c\<lparr>c_delivered := ds\<rparr>)" "quiet c (c\<lparr>c_cseq := q\<rparr>)" "quiet c (c\<lparr>c_nc := q\<rparr>)" "quiet c (c\<lparr>c_writes := n\<rparr>)"
    "quiet c (c\<lparr>c_written := ws\<rparr>)" "quiet c (c\<lparr>c_udpSent := ds'\<rparr>)" "quiet c (c\<lparr>c_sessionID := i\<rparr>)" "quiet c (c\<lparr>c_sessionTimeout := t\<rparr>)"
  using assms by (simp_all add: quiet_def client_ok_def routing_def sockets_def)

lemma quiet_shutdown: "client_ok c \<Longrightarrow> \<not> panics cause \<Longrightarrow> quiet c (c_initiateShutdown cause c)"
  using client_ok_shutdown [of c cause] by (simp add: quiet_def routing_def sockets_def c_initiateShutdown_def setTermErr_def)

lemma quiet_write: "client_ok c \<Longrightarrow> quiet c (snd (writeMessage env raw c))"
  using writeMessage_ok [of c env raw] by (simp add: quiet_def routing_def sockets_def writeMessage_def Let_def)

lemma quiet_authorization: "client_ok c \<Longrightarrow> quiet c (snd (attachAuthorization env req c))"
  by (simp add: attachAuthorization_def Let_def quiet_def client_ok_def routing_def sockets_def split: option.split)

lemma quiet_bare:
  assumes "client_ok c"
  shows "quiet c (snd (marshalBareRequest env mname url c))"
proof -
  have "quiet (c\<lparr>c_cseq := c_cseq c + 1\<rparr>) (snd (attachAuthorization env req (c\<lparr>c_cseq := c_cseq c + 1\<rparr>)))" for req
    using quiet_authorization [OF quietD [OF quiet_fields(6) [OF assms]]] .
  from quiet_trans [OF quiet_fields(6) [OF assms] this] show ?thesis by (simp add: marshalBareRequest_def Let_def split_def)
qed

lemma quiet_bare_write:
  assumes "client_ok c"
  shows "quiet c (case marshalBareRequest env mname url c of (Inl e, c) \<Rightarrow> c | (Inr raw, c) \<Rightarrow> snd (writeMessage env raw c))"
proof -
  obtain r c1 where r: "marshalBareRequest env mname url c = (r, c1)" by fastforce
  have q: "quiet c c1" using quiet_bare [OF assms, of env mname url] r by simp
  show ?thesis using q quiet_trans [OF q quiet_write [OF quietD [OF q]]] by (cases r) (simp_all add: r)
qed

lemma quiet_roundTrip:
  assumes "client_ok c"
  shows "quiet c (snd (roundTrip_send env method url h c))" "quiet c (roundTrip_done cseq c)" "quiet c (roundTrip_expired cseq c)"
proof -
  show "quiet c (roundTrip_done cseq c)" unfolding roundTrip_done_def by (rule quiet_fields(4) [OF assms])
  have "quiet c (c_initiateShutdown ErrRequestFailed c)" using quiet_shutdown [OF assms] by simp
  then show "quiet c (roundTrip_expired cseq c)"
    unfolding roundTrip_expired_def roundTrip_done_def using quiet_trans quiet_fields(4) quietD by blast
  have w: "quiet c' (snd (writeAuthorizedRequest env req c'))" if "client_ok c'" for req c'
    using quiet_authorization [OF that, of env req] quiet_write quiet_trans quietD
    by (fastforce simp: writeAuthorizedRequest_def Let_def split_def split: sum.split)
  define c1 where "c1 = c\<lparr>c_cseq := c_cseq c + 1\<rparr>"
  define cseq where "cseq = uint (c_cseq c1)"
  define c2 where "c2 = c1\<lparr>c_pending := insert cseq (c_pending c1)\<rparr>"
  define req where "req = \<lparr>Method = method, URL = url, Req_CSeq = cseq, Req_Header = standard_headers env h c1, Req_Body = []\<rparr>"
  obtain b c3 where r: "writeAuthorizedRequest env req c2 = (b, c3)" by fastforce
  have "quiet c c1" unfolding c1_def by (rule quiet_fields(6) [OF assms])
  moreover have "quiet c1 c2" unfolding c2_def using quiet_fields(4) quietD [OF calculation] by blast
  moreover have "quiet c2 c3" using w [OF quietD [OF calculation(2)], of req] r by simp
  ultimately have q: "quiet c c3" using quiet_trans by blast
  have "quiet c3 (c_initiateShutdown ErrRequestFailed c3)" using quiet_shutdown [OF quietD [OF q]] by simp
  then have "quiet c ((c_initiateShutdown ErrRequestFailed c3)\<lparr>c_pending := ps\<rparr>)" for ps
    using q quiet_trans quiet_fields(4) quietD by blast
  moreover have "snd (roundTrip_send env method url h c)
      = (if b then c3 else (c_initiateShutdown ErrRequestFailed c3)\<lparr>c_pending := c_pending c3 - {cseq}\<rparr>)"
    using r unfolding roundTrip_send_def Let_def c1_def [symmetric] cseq_def [symmetric] c2_def [symmetric] req_def [symmetric] by simp
  ultimately show "quiet c (snd (roundTrip_send env method url h c))" using q by simp
qed

lemma handleRTCP_fixed: "handleRTCP payload now tr = Some (usable, tr') \<Longrightarrow> fixed tr' = fixed tr"
  by (auto simp: handleRTCP_def Let_def fixed_def split: option.splits sum.splits list.splits if_splits)

lemma quiet_rtp:
  assumes "client_ok c" "track_ok (c_tracks c ! k)"
  shows "quiet c (snd (c_handleRTP env k payload now c))"
proof -
  define tr where "tr = c_tracks c ! k"
  define tr1 where "tr1 = tr\<lparr>tr_lastFrameUnixNano := now, tr_wireBytes := tr_wireBytes tr + word_of_nat (interleavedHeaderLen + length payload)\<rparr>"
  have tr1: "track_ok tr1" "fixed tr1 = fixed (c_tracks c ! k)" using assms(2) by (simp_all add: tr1_def tr_def fixed_def)
  have quiet: "quiet c (set_track k tr2 c)" "quiet c ((set_track k tr2 c)\<lparr>c_events := evs\<rparr>)"
    if "track_ok tr2" "fixed tr2 = fixed tr1" for tr2 evs
    using that tr1(2) quiet_set_track [OF assms(1), of tr2 k] quiet_trans quiet_fields(3) quietD by fastforce+
  show ?thesis
  proof (cases "tr_discard tr1")
    case True
    then show ?thesis using quiet(1) tr1 unfolding c_handleRTP_def Let_def tr_def [symmetric] tr1_def [symmetric] by (simp add: fixed_def)
  next
    case False
    show ?thesis
    proof (cases "ParsePacket payload" rule: go_cases)
      case Panic
      then show ?thesis using ParsePacket_no_panic [of payload] by simp
    next
      case (Err e)
      then show ?thesis using quiet(1) tr1 False unfolding c_handleRTP_def Let_def tr_def [symmetric] tr1_def [symmetric]
        by (simp add: fixed_def count_malformed_def track_ok_counters [unfolded count_malformed_def])
    next
      case (Ok pkt)
      obtain b out tr' where p: "process (env_callbacks env) pkt now tr1 = Some (b, out, tr')" "track_ok tr'" "fixed tr' = fixed tr1"
        using process_ok [OF tr1(1), of "env_callbacks env" pkt now] by (auto split: prod.splits)
      then show ?thesis using quiet(2) [OF p(2,3)] False Ok unfolding c_handleRTP_def Let_def tr_def [symmetric] tr1_def [symmetric] by simp
    qed
  qed
qed

lemma quiet_frame:
  assumes "client_ok c"
  shows "quiet c (snd (c_handleInterleaved env f c))"
proof -
  define now where "now = env_clock env (c_ticks c)"
  define c1 where "c1 = c\<lparr>c_ticks := Suc (c_ticks c), c_lastFrameAt := now\<rparr>"
  have c1: "quiet c c1" using assms by (simp add: c1_def quiet_def client_ok_def routing_def sockets_def)
  note ok1 = quietD [OF c1]
  have H: "c_handleInterleaved env f c = (case lookup (c_channels c) (int (Channel f)) of
        None \<Rightarrow> (False, c1)
      | Some bnd \<Rightarrow>
          if cb_isRTCP bnd then c_handleRTCP (cb_track bnd) (IPayload f) now c1
          else c_handleRTP env (cb_track bnd) (IPayload f) now c1)"
    unfolding c1_def now_def by (simp add: c_handleInterleaved_def now_of_def Let_def)
  show ?thesis
  proof (cases "lookup (c_channels c) (int (Channel f))")
    case (Some b)
    define k where "k = cb_track b"
    have k: "track_ok (c_tracks c1 ! k)"
      using Some assms client_ok_track [OF ok1, of k] by (auto simp: client_ok_def lookup_def k_def c1_def)
    have "quiet c1 (snd (c_handleRTCP k (IPayload f) now c1))"
      using handleRTCP_ok [OF k, of "IPayload f" now] handleRTCP_fixed quiet_set_track [OF ok1] quietI [OF ok1]
      by (fastforce simp: c_handleRTCP_def Let_def)
    moreover have "quiet c1 (snd (c_handleRTP env k (IPayload f) now c1))" using quiet_rtp [OF ok1 k] .
    ultimately show ?thesis using Some quiet_trans [OF c1] by (simp add: H k_def)
  qed (use c1 in \<open>simp add: H\<close>)
qed

lemma quiet_response: "client_ok c \<Longrightarrow> quiet c (c_dispatchResponse resp c)"
  by (simp add: c_dispatchResponse_def quiet_def client_ok_def routing_def sockets_def)

lemma quiet_request:
  assumes "client_ok c"
  shows "quiet c (c_handleServerRequest env req c)"
proof -
  have "quiet c (case writeMessage env raw c of (True, c) \<Rightarrow> c | (False, c) \<Rightarrow> c_initiateShutdown ErrWriteFailed c)" for raw
    using quiet_write [OF assms, of env raw] quiet_shutdown [of _ ErrWriteFailed] quiet_trans quietD
    by (cases "writeMessage env raw c") (fastforce split: bool.split)
  then show ?thesis using quietI [OF assms] quiet_shutdown [OF assms, of ErrServerTeardown] by (simp add: c_handleServerRequest_def split: sum.split)
qed

lemma quiet_record: "client_ok c \<Longrightarrow> quiet c (recordSession sh c)"
  by (simp add: recordSession_def quiet_def client_ok_def routing_def sockets_def)

lemma quiet_teardown: "client_ok c \<Longrightarrow> quiet c (teardownRejectedStream env control c)"
  unfolding teardownRejectedStream_def by (rule quiet_bare_write)

lemma quiet_keepalive: "client_ok c \<Longrightarrow> quiet c (sendKeepalive env m c)"
  unfolding sendKeepalive_def Let_def by (rule quiet_bare_write)

lemma quiet_reports:
  assumes "client_ok c"
  shows "quiet c (sendReceiverReports env reporter c)"
proof -
  define now where "now = env_clock env (c_ticks c)"
  define c1 where "c1 = c\<lparr>c_ticks := Suc (c_ticks c)\<rparr>"
  define send where "send = (\<lambda>tr c. if tr_discard tr then c
          else (case MarshalInterleaved (tr_rtcpChannel tr) (ReceiverReport_Marshal (buildReceiverReport reporter now tr)) of
              Inl e \<Rightarrow> c | Inr raw \<Rightarrow> snd (writeMessage env raw c)))"
  have step: "quiet c' (send tr c')" if "client_ok c'" for tr c'
    using quietI [OF that] quiet_write [OF that] by (simp add: send_def split: sum.split)
  have "client_ok c' \<Longrightarrow> quiet c' (fold send trs c')" for trs c'
    by (induction trs arbitrary: c') (auto intro: quietI quiet_trans step quietD)
  moreover have "quiet c c1" unfolding c1_def by (rule quiet_fields(1) [OF assms])
  ultimately have "quiet c (fold send (c_tracks c1) c1)" using quiet_trans quietD by blast
  then show ?thesis unfolding send_def now_def c1_def by (simp add: sendReceiverReports_def now_of_def Let_def)
qed

lemma quiet_reports_udp:
  assumes "client_ok c"
  shows "quiet c (sendReceiverReportsUDP reporter now c)"
proof -
  define send where "send = (\<lambda>tr (c :: rtsp_client). if tr_discard tr then c
        else (case c_media c (tr_id tr) of
            None \<Rightarrow> c
          | Some m \<Rightarrow> c\<lparr>c_udpSent := c_udpSent c @ [(m_rtcpPeer m, ReceiverReport_Marshal (buildReceiverReport reporter now tr))]\<rparr>))"
  have step: "quiet c' (send tr c')" if "client_ok c'" for tr c'
    using quietI [OF that] quiet_fields(10) [OF that] by (simp add: send_def split: option.split)
  have "client_ok c' \<Longrightarrow> quiet c' (fold send trs c')" for trs c'
    by (induction trs arbitrary: c') (auto intro: quietI quiet_trans step quietD)
  then show ?thesis using assms unfolding sendReceiverReportsUDP_def send_def by blast
qed

lemma quiet_now: "client_ok c \<Longrightarrow> quiet c (c\<lparr>c_ticks := n, c_lastFrameAt := t\<rparr>)"
  by (simp add: quiet_def client_ok_def routing_def sockets_def)

lemma quiet_events:
  assumes "quiet c c1" "track_ok tr" "fixed tr = fixed (c_tracks c1 ! k)"
  shows "quiet c (set_track k tr c1)" "quiet c ((set_track k tr c1)\<lparr>c_events := evs\<rparr>)"
proof -
  show "quiet c (set_track k tr c1)" using quiet_trans [OF assms(1) quiet_set_track [OF quietD [OF assms(1)] assms(2,3)]] .
  then show "quiet c ((set_track k tr c1)\<lparr>c_events := evs\<rparr>)" using quiet_trans quiet_fields(3) quietD by blast
qed

lemma quiet_rtp_datagram:
  assumes "client_ok c" "k < length (c_tracks c)"
  shows "quiet c (snd (rtp_datagram env k ip d rr c))"
proof -
  define now where "now = env_clock env (c_ticks c)"
  define c1 where "c1 = c\<lparr>c_ticks := Suc (c_ticks c), c_lastFrameAt := now\<rparr>"
  define tr where "tr = count_wire now (length (dg_data d)) (c_tracks c1 ! k)"
  have q: "quiet c c1" unfolding c1_def by (rule quiet_now [OF assms(1)])
  have tr: "track_ok tr" "fixed tr = fixed (c_tracks c1 ! k)" using client_ok_track [OF assms] by (simp_all add: tr_def c1_def)
  have H: "rtp_datagram env k ip d rr c = (if \<not> fromPeer (dg_addr d) ip then (rr, set_track k (count_filtered (c_tracks c ! k)) c)
      else case ParsePacket (dg_data d) of
             None \<Rightarrow> (rr, recoverReceiver c1)
           | Some (Inl e) \<Rightarrow> (rr, set_track k (count_malformed tr) c1)
           | Some (Inr pkt) \<Rightarrow>
               (case resequence (env_callbacks env) pkt (dg_data d) now rr tr of
                  None \<Rightarrow> (rr, recoverReceiver c1)
                | Some (rr, evs, tr) \<Rightarrow> (rr, (set_track k tr c1)\<lparr>c_events := c_events c1 @ evs\<rparr>)))"
    by (simp only: rtp_datagram_def now_of_def Let_def prod.case c1_def tr_def now_def)
  show ?thesis
  proof (cases "fromPeer (dg_addr d) ip")
    case False
    then show ?thesis using quiet_set_track [OF assms(1)] client_ok_track [OF assms] by (simp add: H)
  next
    case True
    show ?thesis
    proof (cases "ParsePacket (dg_data d)" rule: go_cases)
      case Panic
      then show ?thesis using ParsePacket_no_panic [of "dg_data d"] by simp
    next
      case (Err e)
      then show ?thesis using quiet_events(1) [OF q, of "count_malformed tr"] tr True by (simp add: H)
    next
      case (Ok pkt)
      obtain rr' evs tr' where r: "resequence (env_callbacks env) pkt (dg_data d) now rr tr = Some (rr', evs, tr')" "track_ok tr'" "fixed tr' = fixed tr"
        using resequence_ok [OF tr(1)] by blast
      then show ?thesis using quiet_events(2) [OF q r(2)] tr(2) True Ok by (simp add: H)
    qed
  qed
qed

lemma quiet_rtcp_datagram:
  assumes "client_ok c" "k < length (c_tracks c)"
  shows "quiet c (rtcp_datagram env k ip d c)"
proof -
  define c1 where "c1 = c\<lparr>c_ticks := Suc (c_ticks c)\<rparr>"
  have q: "quiet c c1" unfolding c1_def by (rule quiet_fields(1) [OF assms(1)])
  obtain u tr where r: "handleRTCP (dg_data d) (env_clock env (c_ticks c)) (c_tracks c ! k) = Some (u, tr)" "track_ok tr"
    using handleRTCP_ok [OF client_ok_track [OF assms]] by blast
  have "quiet c (set_track k tr c1)" using quiet_events(1) [OF q r(2)] handleRTCP_fixed [OF r(1)] by (simp add: c1_def)
  then show ?thesis using r quiet_set_track [OF assms(1)] client_ok_track [OF assms] by (simp add: rtcp_datagram_def now_of_def c1_def)
qed

lemma quiet_discard_datagram:
  assumes "client_ok c" "k < length (c_tracks c)"
  shows "quiet c (discard_datagram env k ip isRTCP d c)"
proof -
  define c1 where "c1 = c\<lparr>c_ticks := Suc (c_ticks c), c_lastFrameAt := env_clock env (c_ticks c)\<rparr>"
  have q: "quiet c c1" unfolding c1_def by (rule quiet_now [OF assms(1)])
  have "quiet c (set_track k tr c1)" if "track_ok tr" "fixed tr = fixed (c_tracks c ! k)" for tr using quiet_events(1) [OF q that(1)] that(2) by (simp add: c1_def)
  then show ?thesis using quietI [OF assms(1)] quiet_set_track [OF assms(1)] client_ok_track [OF assms]
    by (simp add: discard_datagram_def now_of_def c1_def [symmetric] Let_def) (simp add: c1_def fixed_def count_wire_def)
qed

lemma quiet_sendTeardown: "client_ok c \<Longrightarrow> quiet c (sendTeardownBestEffort env c)"
  unfolding sendTeardownBestEffort_def by (rule quiet_bare_write)

lemma quiet_startUDP:
  assumes "client_ok c"
  shows "quiet c (startUDPReceivers env c)"
proof -
  have "list_all track_ok (map (\<lambda>tr. if c_media c (tr_id tr) = None then tr else tr\<lparr>tr_lastFrameUnixNano := t\<rparr>) (c_tracks c))" for t
    using assms by (auto simp: client_ok_def list_all_iff)
  moreover have "map fixed (map (\<lambda>tr. if c_media c (tr_id tr) = None then tr else tr\<lparr>tr_lastFrameUnixNano := t\<rparr>) (c_tracks c)) = map fixed (c_tracks c)" for t
    by (simp add: fixed_def)
  ultimately show ?thesis using assms unfolding startUDPReceivers_def now_of_def
    by (simp add: quiet_def client_ok_def routing_def sockets_def del: map_map)
qed

lemma quiet_seed:
  assumes "client_ok c"
  shows "quiet c (seedFromRTPInfo env header c)"
proof -
  have entry: "quiet c' (seed_entry env e c')" if c': "client_ok c'" for e c'
  proof -
    have "matchTrack env (c_tracks c') base url pos = Some k \<Longrightarrow> k < length (c_tracks c')" for base url pos k
      by (auto simp: matchTrack_def Let_def find_Some_iff split: if_splits)
    then have "quiet c' (set_track k ((c_tracks c' ! k)\<lparr>tr_seed := x, tr_hasSeed := True\<rparr>) c')"
      if "matchTrack env (c_tracks c') base url pos = Some k" for base url pos k x
      using that client_ok_track [OF c'] by (intro quiet_set_track [OF c']) (simp_all add: track_ok_def fixed_def)
    then show ?thesis using quietI [OF c'] by (auto simp: seed_entry_def split: option.split)
  qed
  have "client_ok c' \<Longrightarrow> quiet c' (fold (seed_entry env) es c')" for es c'
    by (induction es arbitrary: c') (auto intro: quietI quiet_trans entry quietD)
  then show ?thesis using assms quietI [OF assms] by (simp add: seedFromRTPInfo_def)
qed

section \<open>Invariant\<close>

text \<open>The channel table is what the claimed pairs say, and the pairs do not overlap.\<close>

definition pair_channels :: "ChannelPair \<Rightarrow> int list" where
  "pair_channels p = [CP_RTP p, CP_RTCP p]"

definition table_of :: "ChannelPair list \<Rightarrow> channelTable" where
  "table_of ps = fold (\<lambda>(k, p) t. newChannelTable t k (CP_RTP p) (CP_RTCP p)) (List.enumerate 0 ps) Map.empty"

definition pair_ok :: "ChannelPair \<Rightarrow> bool" where
  "pair_ok p \<longleftrightarrow> 0 \<le> CP_RTP p \<and> CP_RTCP p = CP_RTP p + 1 \<and> CP_RTCP p \<le> maxInterleavedChannel"

text \<open>A session is pinned to one transport, and every track was set up over it.\<close>

definition pinned :: "rtsp_client \<Rightarrow> bool" where
  "pinned c \<longleftrightarrow>
     (if c_sessionTransport c = transportPinTCP then
        map CP_TrackID (c_channelPairs c) = map tr_id (c_tracks c) \<and> map CP_RTCP (c_channelPairs c) = map tr_rtcpChannel (c_tracks c)
        \<and> c_udpEndpoints c = [] \<and> \<not> c_udpPinned c
      else if c_sessionTransport c = transportPinUDP then
        map UE_TrackID (c_udpEndpoints c) = map tr_id (c_tracks c) \<and> c_channelPairs c = [] \<and> c_udpPinned c
      else c_tracks c = [] \<and> c_channelPairs c = [] \<and> c_udpEndpoints c = [] \<and> \<not> c_udpPinned c)"

definition routing_ok :: "rtsp_client \<Rightarrow> bool" where
  "routing_ok c \<longleftrightarrow> c_channels c = table_of (c_channelPairs c) \<and> list_all pair_ok (c_channelPairs c)
     \<and> distinct (concat (map pair_channels (c_channelPairs c))) \<and> distinct (map tr_id (c_tracks c)) \<and> pinned c
     \<and> list_all described_ok (c_described c)"

definition ids :: "rtsp_client \<Rightarrow> int set" where
  "ids c = tr_id ` set (c_tracks c)"

definition purpose_ok :: "rtsp_client \<Rightarrow> purpose \<Rightarrow> bool" where
  "purpose_ok c p \<longleftrightarrow>
     (case p of
        ForSetupTCP trk_ID control desc opts \<Rightarrow> described_ok desc \<and> trk_ID \<notin> ids c \<and> c_sessionTransport c \<noteq> transportPinUDP
      | ForSetupUDP trk_ID control desc opts fallback m \<Rightarrow>
          described_ok desc \<and> trk_ID \<notin> ids c \<and> c_sessionTransport c \<noteq> transportPinTCP \<and> (fallback \<longrightarrow> c_sessionTransport c \<noteq> transportPinUDP)
      | _ \<Rightarrow> True)"

definition call_ok :: "rtsp_client \<Rightarrow> call \<Rightarrow> bool" where
  "call_ok c k \<longleftrightarrow>
     (case k of NoCall \<Rightarrow> True | Waiting cseq p \<Rightarrow> purpose_ok c p | Registering trk_ID m \<Rightarrow> trk_ID \<in> ids c \<and> trk_ID \<notin> dom (c_media c))"

definition held :: "call \<Rightarrow> nat set" where
  "held k = (case k of Waiting _ (ForSetupUDP _ _ _ _ _ m) \<Rightarrow> {m_id m} | Registering _ m \<Rightarrow> {m_id m} | _ \<Rightarrow> {})"

text \<open>Every socket pair that was opened is registered, closed, or held by the call in progress.\<close>

definition sockets_ok :: "rtsp_client \<Rightarrow> nat set \<Rightarrow> bool \<Rightarrow> bool" where
  "sockets_ok c h torn \<longleftrightarrow> {..<c_opened c} \<subseteq> c_closedSockets c \<union> m_id ` ran (c_media c) \<union> h \<and> dom (c_media c) \<subseteq> ids c
     \<and> (torn \<longrightarrow> c_closing c \<and> m_id ` ran (c_media c) \<subseteq> c_closedSockets c)"

definition session_inv :: "session \<Rightarrow> bool" where
  "session_inv s \<longleftrightarrow> client_ok (s_client s) \<and> routing_ok (s_client s) \<and> call_ok (s_client s) (s_call s)
     \<and> sockets_ok (s_client s) (held (s_call s)) (s_torn s)"

lemma map_fixed:
  assumes "map fixed xs = map fixed ys"
  shows "map tr_id xs = map tr_id ys" "map tr_rtcpChannel xs = map tr_rtcpChannel ys"
proof -
  have "map tr_id zs = map fst (map fixed zs)" "map tr_rtcpChannel zs = map (\<lambda>(i, k, r, p, ch, rest). ch) (map fixed zs)" for zs
    by (simp_all add: fixed_def)
  then show "map tr_id xs = map tr_id ys" "map tr_rtcpChannel xs = map tr_rtcpChannel ys" using assms by metis+
qed

lemma quiet_keeps:
  assumes "quiet c c'"
  shows "routing_ok c' = routing_ok c" "ids c' = ids c" "purpose_ok c' p = purpose_ok c p" "call_ok c' k = call_ok c k"
    "sockets_ok c h torn \<Longrightarrow> sockets_ok c' h torn" "c_sessionTransport c' = c_sessionTransport c" "c_channelPairs c' = c_channelPairs c"
proof -
  have r: "c_channels c' = c_channels c" "c_channelPairs c' = c_channelPairs c" "map fixed (c_tracks c') = map fixed (c_tracks c)"
    "c_sessionTransport c' = c_sessionTransport c" "c_udpPinned c' = c_udpPinned c" "c_udpEndpoints c' = c_udpEndpoints c"
    "c_described c' = c_described c" "c_media c' = c_media c" "c_opened c' = c_opened c" "c_closedSockets c' = c_closedSockets c"
    "c_closing c \<longrightarrow> c_closing c'"
    using assms by (simp_all add: quiet_def routing_def sockets_def)
  note m = map_fixed [OF r(3)]
  have "c_tracks c' = [] \<longleftrightarrow> c_tracks c = []" using r(3) by (metis map_is_Nil_conv)
  then show "routing_ok c' = routing_ok c" using r m by (simp add: routing_ok_def pinned_def)
  show i: "ids c' = ids c" using m(1) by (metis ids_def list.set_map)
  show p: "purpose_ok c' p = purpose_ok c p" for p using r i by (simp add: purpose_ok_def split: purpose.split)
  show "call_ok c' k = call_ok c k" using r i p by (simp add: call_ok_def split: call.split)
  show "sockets_ok c h torn \<Longrightarrow> sockets_ok c' h torn" using r i by (auto simp: sockets_ok_def)
  show "c_sessionTransport c' = c_sessionTransport c" "c_channelPairs c' = c_channelPairs c" using r by simp_all
qed

lemma quiet_inv: "session_inv s \<Longrightarrow> quiet (s_client s) c \<Longrightarrow> session_inv (s\<lparr>s_client := c\<rparr>)"
  using quiet_keeps [of "s_client s" c] quietD by (auto simp: session_inv_def)

lemma table_of_snoc: "table_of (ps @ [p]) = newChannelTable (table_of ps) (length ps) (CP_RTP p) (CP_RTCP p)"
  by (simp add: table_of_def enumerate_append_eq)

lemma newTrack_fields:
  assumes "newTrack i desc opts ch = Some tr"
  shows "tr_id tr = i" "tr_rtcpChannel tr = ch"
proof -
  have "tr_id tr = i \<and> tr_rtcpChannel tr = ch"
    using assms by (auto simp: newTrack_def Let_def configureAAC_def configureG726_def configureLATM_def track0_def
        split: if_splits Codec.splits option.splits sum.splits prod.splits)
  then show "tr_id tr = i" "tr_rtcpChannel tr = ch" by simp_all
qed

lemma newTrack_described:
  assumes "described_ok desc"
  obtains tr where "newTrack i desc opts ch = Some tr" "track_ok tr" "tr_id tr = i" "tr_rtcpChannel tr = ch"
proof -
  obtain codec where "resolveLATMASC codec = Some (dt_codec desc, dt_latmDepack desc, dt_latmResolved desc)"
    using assms by (fastforce simp: described_ok_def describe_track_def split: option.splits)
  then show thesis using newTrack_ok [of codec desc i opts ch] newTrack_fields that by blast
qed

lemma channels_found:
  assumes "InterleavedChannels claimed th = Inr (a, b)"
  shows "0 \<le> a" "b = a + 1" "b \<le> maxInterleavedChannel" "a \<notin> claimed" "b \<notin> claimed"
  using assms by (auto simp: InterleavedChannels_def split: if_splits)

lemma pins: "transportPinTCP \<noteq> transportPinUDP" "transportPinTCP \<noteq> []" "transportPinUDP \<noteq> []"
  by (simp_all add: transportPinTCP_def transportPinUDP_def lit_simps)

lemma commit_keeps: "commitState method c = c\<lparr>c_state := (case destState method of None \<Rightarrow> c_state c | Some d \<Rightarrow> d)\<rparr>"
  by (simp add: commitState_def split: option.split)

lemma dest_open: "destState method = Some d \<Longrightarrow> d \<noteq> stateClosed"
  by (auto simp: destState_def split: if_splits)

text \<open>Binding a track to a pair nobody has claimed.\<close>

lemma publishTrack_inv:
  assumes "client_ok c" "routing_ok c" "track_ok tr" "tr_id tr \<notin> ids c" "tr_rtcpChannel tr = b" "c_sessionTransport c \<noteq> transportPinUDP"
    "InterleavedChannels (claimedChannels c) th = Inr (a, b)" "publishTrack tr a b c = (e, c')"
  shows "client_ok c' \<and> routing_ok c' \<and> (sockets_ok c h torn \<longrightarrow> sockets_ok c' h torn)"
proof (cases "c_termErr c")
  case None
  note ch = channels_found [OF assms(7)]
  define p where "p = \<lparr>CP_TrackID = tr_id tr, CP_RTP = a, CP_RTCP = b\<rparr>"
  have claimed: "claimedChannels c = set (concat (map pair_channels (c_channelPairs c)))" by (simp add: claimedChannels_def pair_channels_def)
  have c': "c' = c\<lparr>c_channels := newChannelTable (c_channels c) (length (c_tracks c)) a b, c_tracks := c_tracks c @ [tr],
      c_channelPairs := c_channelPairs c @ [p], c_sessionTransport := transportPinTCP, c_state := stateSetup\<rparr>"
    using assms(8) None by (auto simp: publishTrack_def commit_keeps p_def destState_def methodSetup_def methodDescribe_def lit_simps)
  have tcp: "map CP_TrackID (c_channelPairs c) = map tr_id (c_tracks c)" "map CP_RTCP (c_channelPairs c) = map tr_rtcpChannel (c_tracks c)"
      "c_udpEndpoints c = []" "\<not> c_udpPinned c"
    using assms(2,6) by (auto simp: routing_ok_def pinned_def split: if_splits)
  then have "pinned c'" using assms(5) by (simp add: pinned_def c' p_def)
  moreover have "length (c_channelPairs c) = length (c_tracks c)" using tcp(1) by (metis length_map)
  ultimately have "routing_ok c'"
    using assms(2,4) ch table_of_snoc [of "c_channelPairs c" p] claimed
    unfolding routing_ok_def c' by (auto simp: p_def pair_channels_def pair_ok_def ids_def)
  moreover have "client_ok c'"
    using assms(1,3) None unfolding client_ok_def c' by (auto simp: newChannelTable_def less_Suc_eq)
  moreover have "sockets_ok c h torn \<longrightarrow> sockets_ok c' h torn" by (auto simp: sockets_ok_def c' ids_def)
  ultimately show ?thesis by blast
qed (use assms in \<open>simp add: publishTrack_def\<close>)

lemma publishUDPTrack_inv:
  assumes "client_ok c" "routing_ok c" "track_ok tr" "tr_id tr = i" "i \<notin> ids c" "c_sessionTransport c \<noteq> transportPinTCP"
    "publishUDPTrack tr i m c = (None, c')"
  shows "client_ok c' \<and> routing_ok c' \<and> (sockets_ok c h torn \<longrightarrow> sockets_ok c' h torn) \<and> i \<in> ids c' \<and> c_media c' = c_media c"
proof -
  have None: "c_termErr c = None" using assms(7) by (auto simp: publishUDPTrack_def split: option.splits)
  then have c': "c' = c\<lparr>c_tracks := c_tracks c @ [tr], c_udpPinned := True, c_sessionTransport := transportPinUDP,
      c_udpEndpoints := c_udpEndpoints c @ [endpoint i m], c_state := stateSetup\<rparr>"
    using assms(7) by (auto simp: publishUDPTrack_def commit_keeps destState_def methodSetup_def methodDescribe_def lit_simps)
  have pairs: "c_channelPairs c = []" using assms(2,6) by (auto simp: routing_ok_def pinned_def split: if_splits)
  have "routing_ok c'"
    using assms(2,4,5,6) pins pairs unfolding routing_ok_def pinned_def c' by (auto simp: ids_def endpoint_def split: if_splits)
  moreover have "client_ok c'" using assms(1,3) None unfolding client_ok_def c' by (auto simp: less_Suc_eq)
  moreover have "sockets_ok c h torn \<longrightarrow> sockets_ok c' h torn" by (auto simp: sockets_ok_def c' ids_def)
  ultimately show ?thesis using assms(4) by (simp add: c' ids_def)
qed

section \<open>Every step keeps it\<close>

definition good :: "rtsp_client \<Rightarrow> nat set \<Rightarrow> bool \<Rightarrow> bool" where
  "good c h torn \<longleftrightarrow> client_ok c \<and> routing_ok c \<and> sockets_ok c h torn"

lemma session_inv_good: "session_inv s \<longleftrightarrow> good (s_client s) (held (s_call s)) (s_torn s) \<and> call_ok (s_client s) (s_call s)"
  by (auto simp: session_inv_def good_def)

lemma good_quiet: "good c h torn \<Longrightarrow> quiet c c' \<Longrightarrow> good c' h torn"
  using quiet_keeps [of c c'] quietD [of c c'] by (auto simp: good_def)

lemma good_ok: "good c h torn \<Longrightarrow> client_ok c"
  by (simp add: good_def)

lemma good_Close: "good c {m_id m} torn \<Longrightarrow> good (m_Close m c) {} torn"
  by (auto simp: good_def m_Close_def client_ok_def routing_ok_def pinned_def sockets_ok_def ids_def)

lemma good_give_up: "good c (held (Waiting cseq p)) torn \<Longrightarrow> good (give_up p c) {} torn"
  using good_Close by (cases p) (simp_all add: give_up_def held_def)

lemma setupTCP_answer_good:
  assumes "good c {} torn" "described_ok desc" "i \<notin> ids c" "c_sessionTransport c \<noteq> transportPinUDP"
  shows "good (snd (setupTCP_answer env i control desc opts resp c)) {} torn"
proof -
  define c1 where "c1 = recordSession (ParseSession (Header_Get (Resp_Header resp) (lit ''Session''))) c"
  have q: "quiet c c1" unfolding c1_def by (rule quiet_record [OF good_ok [OF assms(1)]])
  note c1 = good_quiet [OF assms(1) q] quiet_keeps(2,6) [OF q]
  have torn': "good (teardownRejectedStream env control c1) {} torn" using good_quiet [OF c1(1)] quiet_teardown good_ok [OF c1(1)] by blast
  show ?thesis
  proof (cases "ParseTransport (Header_Get (Resp_Header resp) (lit ''Transport''))")
    case (Inr th)
    show ?thesis
    proof (cases "InterleavedChannels (claimedChannels c1) th")
      case (Inr ab)
      obtain a b where ab: "ab = (a, b)" by fastforce
      obtain tr where tr: "newTrack i desc opts b = Some tr" "track_ok tr" "tr_id tr = i" "tr_rtcpChannel tr = b"
        using newTrack_described [OF assms(2)] .
      obtain e c' where p: "publishTrack tr a b c1 = (e, c')" by fastforce
      have "client_ok c' \<and> routing_ok c' \<and> (sockets_ok c1 {} torn \<longrightarrow> sockets_ok c' {} torn)"
        using publishTrack_inv [OF _ _ tr(2) _ tr(4) _ _ p, of th "{}" torn] c1 assms(3,4) tr(3) Inr ab by (auto simp: good_def)
      then show ?thesis
        using c1(1) Inr ab p tr(1) \<open>ParseTransport _ = Inr th\<close> by (simp add: setupTCP_answer_def c1_def [symmetric] good_def)
    qed (use torn' Inr in \<open>simp add: setupTCP_answer_def c1_def [symmetric]\<close>)
  qed (use torn' in \<open>simp add: setupTCP_answer_def c1_def [symmetric]\<close>)
qed

lemma setupUDP_answer_good:
  assumes "good c {m_id m} torn" "described_ok desc" "i \<notin> ids c" "c_sessionTransport c \<noteq> transportPinTCP"
    "setupUDP_answer env peer i control desc opts m resp c = (r, c')"
  shows "case r of Inl e \<Rightarrow> good c' {} torn | Inr m' \<Rightarrow> good c' {m_id m'} torn \<and> call_ok c' (Registering i m')"
proof -
  define c1 where "c1 = recordSession (ParseSession (Header_Get (Resp_Header resp) (lit ''Session''))) c"
  have q: "quiet c c1" unfolding c1_def by (rule quiet_record [OF good_ok [OF assms(1)]])
  note c1 = good_quiet [OF assms(1) q] quiet_keeps(2,6) [OF q]
  have reject: "good (teardownRejectedStream env control (m_Close m c1)) {} torn"
    using good_quiet [OF good_Close [OF c1(1)]] quiet_teardown good_ok [OF good_Close [OF c1(1)]] by blast
  show ?thesis
  proof (cases "ParseTransport (Header_Get (Resp_Header resp) (lit ''Transport''))")
    case (Inr th)
    show ?thesis
    proof (cases "resolveServerPeers th peer m")
      case (Some m')
      have id: "m_id m' = m_id m" using Some by (auto simp: resolveServerPeers_def split: option.splits)
      obtain tr where tr: "newTrack i desc opts 0 = Some tr" "track_ok tr" "tr_id tr = i" using newTrack_described [OF assms(2)] .
      obtain e c2 where p: "publishUDPTrack tr i m' c1 = (e, c2)" by fastforce
      show ?thesis
      proof (cases e)
        case None
        have i: "i \<notin> ids c1" "c_sessionTransport c1 \<noteq> transportPinTCP" using c1 assms(3,4) by simp_all
        have "client_ok c2 \<and> routing_ok c2 \<and> (sockets_ok c1 {m_id m} torn \<longrightarrow> sockets_ok c2 {m_id m} torn) \<and> i \<in> ids c2 \<and> c_media c2 = c_media c1"
          using publishUDPTrack_inv [OF _ _ tr(2,3) i p [unfolded None], of "{m_id m}" torn] c1(1) by (auto simp: good_def)
        moreover have "i \<notin> dom (c_media c1)" using c1(1) i(1) by (auto simp: good_def sockets_ok_def)
        ultimately show ?thesis using assms(5) Inr Some tr(1) p None id c1(1)
          by (auto simp: setupUDP_answer_def c1_def [symmetric] good_def call_ok_def)
      next
        case (Some e')
        then have "c2 = m_Close m' c1" using p by (auto simp: publishUDPTrack_def split: option.splits)
        then show ?thesis using assms(5) Inr \<open>resolveServerPeers th peer m = Some m'\<close> tr(1) p Some id good_Close [of c1 m'] c1(1)
          by (auto simp: setupUDP_answer_def c1_def [symmetric])
      qed
    qed (use reject assms(5) Inr in \<open>auto simp: setupUDP_answer_def c1_def [symmetric]\<close>)
  qed (use reject assms(5) in \<open>auto simp: setupUDP_answer_def c1_def [symmetric]\<close>)
qed

lemma commit_good:
  assumes "good c h torn" "c_termErr c = None" "destState method = Some d"
  shows "good (commitState method c) h torn"
  using assms dest_open [OF assms(3)] by (auto simp: good_def commit_keeps client_ok_def routing_ok_def pinned_def sockets_ok_def ids_def)

lemma dest_values: "destState methodDescribe = Some stateDescribed" "destState methodSetup = Some stateSetup" "destState methodPlay = Some statePlaying"
  by (simp_all add: destState_def methodSetup_def methodDescribe_def methodPlay_def lit_simps)

lemma describe_commit_good:
  assumes "good c h torn" "list_all described_ok described"
  shows "good (snd (describe_commit base described c)) h torn"
proof -
  have "good (c\<lparr>c_baseURL := base, c_described := described\<rparr>) h torn"
    using assms by (auto simp: good_def client_ok_def routing_ok_def pinned_def sockets_ok_def ids_def)
  then show ?thesis using assms commit_good [OF _ _ dest_values(1)] by (auto simp: describe_commit_def split: option.split)
qed

lemma play_answer_good:
  assumes "good c h torn"
  shows "good (snd (play_answer env resp c)) h torn"
proof -
  define c1 where "c1 = seedFromRTPInfo env (Header_Get (Resp_Header resp) (lit ''RTP-Info'')) c"
  define c2 where "c2 = c1\<lparr>c_ticks := Suc (c_ticks c1), c_lastFrameAt := env_clock env (c_ticks c1)\<rparr>"
  have "quiet c c1" unfolding c1_def by (rule quiet_seed [OF good_ok [OF assms]])
  moreover have "quiet c1 c2" using quietD [OF calculation] by (simp add: c2_def quiet_def client_ok_def routing_def sockets_def)
  ultimately have c2: "good c2 h torn" using good_quiet [OF assms] quiet_trans by blast
  have "good (c'\<lparr>c_playing := True\<rparr>) h torn" if "good c' h torn" for c'
    using that by (auto simp: good_def client_ok_def routing_ok_def pinned_def sockets_ok_def ids_def)
  moreover have "good (if c_udpPinned c' then startUDPReceivers env c' else c') h torn" if "good c' h torn" for c'
    using that good_quiet [OF that quiet_startUDP [OF good_ok [OF that]]] by simp
  ultimately have "good (if c_udpPinned c3 then startUDPReceivers env c3 else c3) h torn"
    if "c_termErr c2 = None" "c3 = (commitState methodPlay c2)\<lparr>c_playing := True\<rparr>" for c3
    using that commit_good [OF c2 _ dest_values(3)] by blast
  moreover have "play_answer env resp c = (case c_termErr c2 of Some e \<Rightarrow> (Some (ErrTerminated e), c2)
      | None \<Rightarrow> let c = (commitState methodPlay c2)\<lparr>c_playing := True\<rparr> in (None, if c_udpPinned c then startUDPReceivers env c else c))"
    by (simp only: play_answer_def c1_def [symmetric] now_of_def Let_def prod.case c2_def)
  ultimately show ?thesis using c2 by (auto simp: Let_def split: option.split)
qed

lemma answer_good:
  assumes "good c (held (Waiting cseq p)) torn" "purpose_ok c p" "list_all described_ok described"
    "call_answer env peer base described p resp c = (c', call)"
  shows "good c' (held call) torn \<and> call_ok c' call"
proof (cases p)
  case ForDescribe
  then show ?thesis using assms describe_commit_good [of c "{}" torn described base] by (auto simp: call_answer_def held_def call_ok_def)
next
  case (ForSetupTCP i control desc opts)
  then show ?thesis using assms setupTCP_answer_good [of c torn desc i env control opts resp]
    by (auto simp: call_answer_def held_def call_ok_def purpose_ok_def)
next
  case (ForSetupUDP i control desc opts fallback m)
  obtain r c2 where r: "setupUDP_answer env peer i control desc opts m resp c = (r, c2)" by fastforce
  then show ?thesis using assms ForSetupUDP setupUDP_answer_good [OF _ _ _ _ r, of torn]
    by (cases r) (auto simp: call_answer_def held_def purpose_ok_def call_ok_def)
next
  case ForPlay
  then show ?thesis using assms play_answer_good [of c "{}" torn env resp] by (auto simp: call_answer_def held_def call_ok_def)
qed

lemma described_track_found:
  assumes "describedTrackFor i control c = Inr desc" "routing_ok c"
  shows "described_ok desc \<and> i \<notin> ids c"
  using assms by (auto simp: describedTrackFor_def Let_def ids_def routing_ok_def list_all_iff split: if_splits)

lemma openMediaSockets_good:
  assumes "good c {} torn" "openMediaSockets port c = Some (m, c')"
  shows "good c' {m_id m} torn" "ids c' = ids c" "c_sessionTransport c' = c_sessionTransport c"
proof -
  have c': "c' = c\<lparr>c_opened := Suc (c_opened c)\<rparr>" "m_id m = c_opened c" using assms(2) by (auto simp: openMediaSockets_def split: option.splits)
  have "sockets_ok c' {m_id m} torn" using assms(1) by (auto simp: good_def sockets_ok_def c' ids_def less_Suc_eq)
  moreover have "client_ok c'" "routing_ok c'" using assms(1) by (simp_all add: good_def client_ok_def routing_ok_def pinned_def c')
  ultimately show "good c' {m_id m} torn" by (simp add: good_def)
  show "ids c' = ids c" "c_sessionTransport c' = c_sessionTransport c" by (simp_all add: c' ids_def)
qed

lemma Setup_send_good:
  assumes "good c {} torn" "Setup_send env pref i control opts port c = Inr (p, r, c')"
  shows "good c' (held (Waiting cseq p)) torn \<and> purpose_ok c' p"
proof -
  obtain desc where d: "describedTrackFor i control c = Inr desc" using assms(2) by (auto simp: Setup_send_def split: sum.splits)
  note d' = described_track_found [OF d] assms(1)
  obtain attemptUDP fb where rt: "resolveTransport pref (c_sessionTransport c) = (attemptUDP, fb)" by fastforce
  show ?thesis
  proof (cases attemptUDP)
    case True
    obtain m c1 where m: "openMediaSockets port c = Some (m, c1)" using assms(2) d rt True by (auto simp: Setup_send_def split: option.splits)
    note c1 = openMediaSockets_good [OF assms(1) m]
    have p: "p = ForSetupUDP i control desc opts fb m" "quiet c1 c'"
      using assms(2) d rt True m quiet_roundTrip(1) [OF good_ok [OF c1(1)]] by (auto simp: Setup_send_def) (metis snd_conv)
    moreover have "c_sessionTransport c \<noteq> transportPinTCP" "fb \<longrightarrow> c_sessionTransport c \<noteq> transportPinUDP"
      using rt True pins by (auto simp: resolveTransport_def split: if_splits TransportPreference.splits)
    ultimately show ?thesis using good_quiet [OF c1(1) p(2)] quiet_keeps(2,6) [OF p(2)] c1(2,3) d'
      by (simp add: held_def purpose_ok_def good_def)
  next
    case False
    obtain h where p: "p = ForSetupTCP i control desc opts" "roundTrip_send env methodSetup control h c = (r, c')"
      using assms(2) d rt False by (auto simp: Setup_send_def setupTCP_send_def split: sum.splits)
    then have q: "quiet c c'" using quiet_roundTrip(1) [OF good_ok [OF assms(1)]] by (metis snd_conv)
    moreover have "c_sessionTransport c \<noteq> transportPinUDP"
      using rt False pins by (auto simp: resolveTransport_def split: if_splits TransportPreference.splits)
    ultimately show ?thesis using good_quiet [OF assms(1) q] quiet_keeps(2,6) [OF q] d' p(1) by (simp add: held_def purpose_ok_def good_def)
  qed
qed

lemma call_begin_good:
  assumes "good c {} torn" "call_begin env pref oper c = Inr (p, r, c')"
  shows "good c' (held (Waiting cseq p)) torn \<and> purpose_ok c' p"
proof (cases oper)
  case (CallSetup i control opts port)
  then show ?thesis using assms Setup_send_good [OF assms(1)] by (auto simp: call_begin_def)
qed (use assms good_quiet [OF assms(1) quiet_roundTrip(1) [OF good_ok [OF assms(1)]]] in
    \<open>auto simp: call_begin_def play_send_def held_def purpose_ok_def split: if_splits\<close>, (metis snd_conv)+)

lemma step_inv:
  assumes "session_step env pref peer s s'" "session_inv s"
  shows "session_inv s'"
  using assms
proof (induction rule: session_step.induct)
  case (frame s f)
  then show ?case using quiet_inv [OF frame quiet_frame] by (simp add: session_inv_def)
next
  case (response s resp)
  then show ?case using quiet_inv [OF response quiet_response] by (simp add: session_inv_def)
next
  case (request s req)
  then show ?case using quiet_inv [OF request quiet_request] by (simp add: session_inv_def)
next
  case (rtp_data k s m ip port d rr c)
  have "quiet (s_client s) c" using quiet_rtp_datagram [of "s_client s" k env ip d "s_receivers s k"] rtp_data by (simp add: session_inv_def)
  from quiet_inv [OF rtp_data(6) this] show ?case by (simp add: session_inv_def)
next
  case (rtcp_data k s m ip port d)
  then show ?case using quiet_inv [OF rtcp_data(5) quiet_rtcp_datagram] by (simp add: session_inv_def)
next
  case (discard_data k s m isRTCP ip port d)
  then show ?case using quiet_inv [OF discard_data(5) quiet_discard_datagram] by (simp add: session_inv_def)
next
  case (stop cause s)
  then show ?case using quiet_inv [OF stop(2) quiet_shutdown [OF _ stop(1)]] by (simp add: session_inv_def)
next
  case (teardown s)
  have keep: "client_ok (closeMediaSockets c) = client_ok c" "routing_ok (closeMediaSockets c) = routing_ok c" "ids (closeMediaSockets c) = ids c"
    "purpose_ok (closeMediaSockets c) p = purpose_ok c p" "call_ok (closeMediaSockets c) k = call_ok c k" for c p k
    by (auto simp: closeMediaSockets_def client_ok_def routing_ok_def pinned_def ids_def purpose_ok_def call_ok_def split: purpose.splits call.splits)
  define c1 where "c1 = (if sessionEstablished (s_client s) then sendTeardownBestEffort env (s_client s) else s_client s)"
  have q: "quiet (s_client s) c1" using teardown(2) quietI quiet_sendTeardown by (simp add: c1_def session_inv_def)
  have c1: "session_inv (s\<lparr>s_client := c1\<rparr>)" "c_closing c1" using quiet_inv [OF teardown(2) q] q teardown(1) by (simp_all add: quiet_def)
  then have "sockets_ok (closeMediaSockets c1) (held (s_call s)) True"
    by (auto simp: session_inv_def sockets_ok_def closeMediaSockets_def ids_def)
  then show ?case using c1 keep by (simp add: session_inv_def teardownAndJoin_def c1_def [symmetric])
next
  case (keepalive s m)
  then show ?case using quiet_inv [OF keepalive quiet_keepalive] by (simp add: session_inv_def)
next
  case (reports s reporter)
  then show ?case using quiet_inv [OF reports quiet_reports] by (simp add: session_inv_def)
next
  case (reports_udp s reporter now)
  then show ?case using quiet_inv [OF reports_udp quiet_reports_udp] by (simp add: session_inv_def)
next
  case (begins s oper p cseq c)
  then have "good (s_client s) {} (s_torn s)" by (simp add: session_inv_good held_def)
  from call_begin_good [OF this begins(2)] show ?case by (simp add: session_inv_good call_ok_def)
next
  case (unsent s oper p c)
  then have "good (s_client s) {} (s_torn s)" by (simp add: session_inv_good held_def)
  then have "good c (held (Waiting 0 p)) (s_torn s)" using call_begin_good [OF _ unsent(2)] by blast
  then show ?case using good_give_up unsent(1) by (simp add: session_inv_good call_ok_def held_def)
next
  case (answered s cseq p resp described base c call)
  have q: "quiet (s_client s) (roundTrip_done cseq (s_client s))" using answered.prems quiet_roundTrip(2) by (simp add: session_inv_def)
  have "good (roundTrip_done cseq (s_client s)) (held (Waiting cseq p)) (s_torn s)" "purpose_ok (roundTrip_done cseq (s_client s)) p"
    using answered.prems good_quiet [OF _ q] quiet_keeps(3) [OF q] answered.hyps(1) by (auto simp: session_inv_good call_ok_def)
  from answer_good [OF this answered.hyps(5,6)] show ?case by (simp add: session_inv_good)
next
  case (refused s cseq p)
  have "quiet (s_client s) (roundTrip_done cseq (s_client s))" using refused.prems quiet_roundTrip(2) by (simp add: session_inv_def)
  then have "good (roundTrip_done cseq (s_client s)) (held (Waiting cseq p)) (s_torn s)" using refused good_quiet by (fastforce simp: session_inv_good)
  then show ?case using good_give_up by (simp add: session_inv_good call_ok_def held_def)
next
  case (expired s cseq p)
  have "quiet (s_client s) (roundTrip_expired cseq (s_client s))" using expired.prems quiet_roundTrip(3) by (simp add: session_inv_def)
  then have "good (roundTrip_expired cseq (s_client s)) (held (Waiting cseq p)) (s_torn s)" using expired good_quiet by (fastforce simp: session_inv_good)
  then show ?case using good_give_up by (simp add: session_inv_good call_ok_def held_def)
next
  case (fallback s cseq i control desc opts m sent c)
  have q: "quiet (s_client s) (roundTrip_done cseq (s_client s))" using fallback.prems quiet_roundTrip(2) by (simp add: session_inv_def)
  define c1 where "c1 = m_Close m (roundTrip_done cseq (s_client s))"
  have "good (roundTrip_done cseq (s_client s)) {m_id m} (s_torn s)" "purpose_ok (roundTrip_done cseq (s_client s)) (ForSetupUDP i control desc opts True m)"
    using fallback.prems good_quiet [OF _ q] quiet_keeps(3) [OF q] fallback.hyps(1) by (auto simp: session_inv_good call_ok_def held_def)
  then have c1: "good c1 {} (s_torn s)" "purpose_ok c1 (ForSetupTCP i control desc opts)"
    using good_Close by (auto simp: c1_def purpose_ok_def m_Close_def ids_def)
  obtain h where "roundTrip_send env methodSetup control h c1 = (sent, c)"
    using fallback.hyps(2) unfolding c1_def [symmetric] by (auto simp: setupTCP_send_def split: sum.splits)
  then have "quiet c1 c" using quiet_roundTrip(1) [OF good_ok [OF c1(1)]] by (metis snd_conv)
  then show ?case using good_quiet [OF c1(1)] quiet_keeps(3) c1(2) by (simp add: session_inv_good call_ok_def held_def split: option.split)
next
  case (registers s i m)
  have r: "good (s_client s) {m_id m} (s_torn s)" "i \<in> ids (s_client s)" "i \<notin> dom (c_media (s_client s))"
    using registers by (auto simp: session_inv_good call_ok_def held_def)
  have "good (registerMediaSockets i m (s_client s)) {} (s_torn s)"
  proof (cases "c_closing (s_client s)")
    case True
    then show ?thesis using good_Close [OF r(1)] by (simp add: registerMediaSockets_def)
  next
    case False
    have "ran ((c_media (s_client s))(i \<mapsto> m)) = insert m (ran (c_media (s_client s)))" using r(3) by (auto simp: ran_def)
    then show ?thesis using False r(1,2) by (auto simp: registerMediaSockets_def good_def client_ok_def routing_ok_def pinned_def sockets_ok_def ids_def)
  qed
  then show ?case by (simp add: session_inv_good call_ok_def held_def)
qed

lemma reach_inv: "session_reach env pref peer s \<Longrightarrow> session_inv s"
proof (induction rule: session_reach.induct)
  case start
  then show ?case by (auto simp: session0_def newClient_def session_inv_def client_ok_def routing_ok_def table_of_def pinned_def pins
        sockets_ok_def call_ok_def transportPinTCP_def transportPinUDP_def lit_simps)
qed (rule step_inv)

section \<open>Properties\<close>

lemma table_of_lookup:
  "distinct (concat (map pair_channels ps)) \<Longrightarrow>
    table_of ps ch = Some b \<longleftrightarrow> cb_track b < length ps \<and> ch = (if cb_isRTCP b then CP_RTCP (ps ! cb_track b) else CP_RTP (ps ! cb_track b))"
proof (induction ps rule: rev_induct)
  case Nil
  then show ?case by (simp add: table_of_def)
next
  case (snoc p ps)
  have IH: "table_of ps ch = Some b \<longleftrightarrow> cb_track b < length ps \<and> ch = (if cb_isRTCP b then CP_RTCP (ps ! cb_track b) else CP_RTP (ps ! cb_track b))"
    using snoc by simp
  have new: "CP_RTP p \<noteq> CP_RTCP p" "\<And>q. q \<in> set ps \<Longrightarrow> CP_RTP q \<notin> {CP_RTP p, CP_RTCP p} \<and> CP_RTCP q \<notin> {CP_RTP p, CP_RTCP p}"
    using snoc.prems by (auto simp: pair_channels_def)
  have old: "ps ! cb_track b \<in> set ps" if "cb_track b < length ps" using that by simp
  show ?case
  proof (cases "cb_track b < length ps")
    case True
    then have "table_of (ps @ [p]) ch = Some b \<longleftrightarrow> ch \<noteq> CP_RTP p \<and> ch \<noteq> CP_RTCP p \<and> table_of ps ch = Some b"
      by (cases b) (auto simp: table_of_snoc newChannelTable_def)
    then show ?thesis using True IH new(2) [OF old [OF True]] by (auto simp: nth_append)
  next
    case False
    then have "table_of ps ch \<noteq> Some b" using IH by simp
    then show ?thesis using False new(1) by (cases b) (auto simp: table_of_snoc newChannelTable_def nth_append less_Suc_eq)
  qed
qed

text \<open>
  C5. Frames reach the track that claimed their channel and no other. In every state a client can get into, under every interleaving of
  the caller's Setup calls with the reader, shutdowns and timers and whatever pairs the server assigns, the channels of all tracks are
  pairwise different and lie in the range a frame header can carry, and the routing table binds exactly the claimed channels, each
  to the track whose Setup claimed it.
\<close>

theorem session_routing:
  assumes "session_reach env pref peer s"
  shows "distinct (concat (map pair_channels (c_channelPairs (s_client s))))
    \<and> list_all pair_ok (c_channelPairs (s_client s)) \<and> distinct (map tr_id (c_tracks (s_client s)))
    \<and> (\<forall>ch b. c_channels (s_client s) ch = Some b \<longleftrightarrow> cb_track b < length (c_channelPairs (s_client s))
         \<and> ch = (if cb_isRTCP b then CP_RTCP (c_channelPairs (s_client s) ! cb_track b) else CP_RTP (c_channelPairs (s_client s) ! cb_track b)))
    \<and> (c_channelPairs (s_client s) = [] \<or> map CP_TrackID (c_channelPairs (s_client s)) = map tr_id (c_tracks (s_client s)))"
proof -
  have r: "routing_ok (s_client s)" using reach_inv [OF assms] by (simp add: session_inv_def)
  then have d: "distinct (concat (map pair_channels (c_channelPairs (s_client s))))" "c_channels (s_client s) = table_of (c_channelPairs (s_client s))"
    by (simp_all add: routing_ok_def)
  moreover have "c_channelPairs (s_client s) = [] \<or> map CP_TrackID (c_channelPairs (s_client s)) = map tr_id (c_tracks (s_client s))"
    using r by (auto simp: routing_ok_def pinned_def split: if_splits)
  ultimately show ?thesis using r table_of_lookup [OF d(1)] by (simp add: routing_ok_def)
qed

text \<open>
  C7. No UDP socket leaks: once the session has been torn down and the call in progress, if any, has returned, every socket pair that was
  ever opened is closed, also one whose Setup got its answer, or was registered, while the teardown ran.
\<close>

theorem session_sockets_closed:
  assumes "session_reach env pref peer s" "s_torn s" "s_call s = NoCall"
  shows "{..<c_opened (s_client s)} \<subseteq> c_closedSockets (s_client s)"
proof -
  have "sockets_ok (s_client s) {} True" using reach_inv [OF assms(1)] assms(2,3) by (simp add: session_inv_def held_def)
  then show ?thesis unfolding sockets_ok_def by blast
qed

lemma outcome_ok_mono: "outcome_ok P r \<Longrightarrow> (\<And>c. P c \<Longrightarrow> Q c) \<Longrightarrow> outcome_ok Q r"
  by (cases r) auto

text \<open>
  C6. Whatever bytes arrive, in whatever pieces, in whatever state of its life the client is: the reader never panics, its buffer and its
  resynchronization stay within their bounds, and every track keeps a depacketizer that fits its codec.
\<close>

theorem session_no_panic:
  assumes "session_reach env pref peer s" "reads_ok reads"
  shows "outcome_ok (\<lambda>c. c_termErr c \<noteq> Some (ReaderCause ReaderPanic) \<and> list_all track_ok (c_tracks c))
    (readLoop (client_handlers env) (fresh_reader (s_client s)) reads)"
proof -
  have "client_ok (s_client s)" using reach_inv [OF assms(1)] by (simp add: session_inv_def)
  then have "outcome_ok client_ok (readLoop (client_handlers env) (fresh_reader (s_client s)) reads)"
    using client_reader.readLoop_ok [of "fresh_reader (s_client s)" reads env] assms(2) by (simp add: fresh_reader_def reader_ok_def caps)
  then show ?thesis by (rule outcome_ok_mono) (auto simp: client_ok_def)
qed

section \<open>A session\<close>

text \<open>One call together with its answer, and the two sessions the witnesses run.\<close>

definition exchange :: "environment \<Rightarrow> TransportPreference \<Rightarrow> bytes option \<Rightarrow> operation \<Rightarrow> described_track list \<Rightarrow> rtsp_response \<Rightarrow> session \<Rightarrow> session option" where
  "exchange env pref peer oper described resp s =
     (case call_begin env pref oper (s_client s) of
        Inr (p, Some cseq, c) \<Rightarrow>
          if s_call s = NoCall \<and> Resp_CSeq resp = cseq \<and> cseq \<in> c_pending c \<and> ClassifyStatus (Some resp) = None then
            (case call_answer env peer (c_baseURL c) described p resp (roundTrip_done cseq (c_dispatchResponse resp c)) of
               (c', call) \<Rightarrow> Some (s\<lparr>s_client := c', s_call := call\<rparr>))
          else None
      | _ \<Rightarrow> None)"

lemma exchange_reach:
  assumes "exchange env pref peer oper described resp s = Some s'" "session_reach env pref peer s" "list_all described_ok described"
  shows "session_reach env pref peer s'"
proof -
  obtain p cseq c c' call where beg: "call_begin env pref oper (s_client s) = Inr (p, Some cseq, c)" and ok: "s_call s = NoCall"
    "Resp_CSeq resp = cseq" "cseq \<in> c_pending c" "ClassifyStatus (Some resp) = None"
    and ans: "call_answer env peer (c_baseURL c) described p resp (roundTrip_done cseq (c_dispatchResponse resp c)) = (c', call)"
    and s': "s' = s\<lparr>s_client := c', s_call := call\<rparr>"
    using assms(1) by (auto simp: exchange_def split: sum.splits option.splits if_splits prod.splits)
  define s1 where "s1 = s\<lparr>s_client := c, s_call := Waiting cseq p\<rparr>"
  define s2 where "s2 = s1\<lparr>s_client := c_dispatchResponse resp c\<rparr>"
  have "session_reach env pref peer s1" unfolding s1_def using session_reach.step [OF assms(2) session_step.begins [OF ok(1) beg]] .
  then have r2: "session_reach env pref peer s2" unfolding s2_def using session_step.response [of env pref peer s1 resp] session_reach.step by (simp add: s1_def)
  have "resp \<in> set (c_delivered (s_client s2))" using ok(2,3) by (simp add: s2_def c_dispatchResponse_def)
  then have "session_step env pref peer s2 (s2\<lparr>s_client := c', s_call := call\<rparr>)"
    using session_step.answered [of s2 cseq p resp described env peer "c_baseURL c" c' call pref] ok ans assms(3) by (simp add: s2_def s1_def)
  from session_reach.step [OF r2 this] show ?thesis by (simp add: s' s2_def s1_def)
qed

definition open_env :: environment where
  "open_env = \<lparr>env_clock = (\<lambda>n. int n), env_write = (\<lambda>n. True), env_authorize = (\<lambda>nc m u. None), env_userAgent = lit ''ua'',
     env_resolveURL = (\<lambda>b u. None), env_callbacks = \<lparr>cb_OnFrame = True, cb_OnCodecUpdate = True\<rparr>\<rparr>"

definition camera :: described_track where
  "camera = \<lparr>dt_control = lit ''rtsp://cam/a'', dt_codec = CodecOpus, dt_payloadType = 96, dt_clockRate = 48000, dt_media = MediaAudio, dt_aac = None,
     dt_latmDepack = None, dt_latmResolved = False\<rparr>"

definition answer_with :: "int \<Rightarrow> bytes \<Rightarrow> rtsp_response" where
  "answer_with cseq transport = \<lparr>StatusCode = 200, Reason = lit ''OK'', Resp_CSeq = cseq,
     Resp_Header = [(lit ''Session'', [lit ''7'']), (lit ''Transport'', [transport])], Resp_Body = []\<rparr>"

definition plain_options :: setup_options where
  "plain_options = \<lparr>so_Discard = False, so_G726Packing = G726PackingFromSDP\<rparr>"

lemma open_roundTrip:
  assumes "\<not> c_authActive c" "method \<noteq> []" "url \<noteq> []" "length method \<le> MaxMethodLen" "length url \<le> MaxRequestURILen" "\<not> hasCRLF method"
    "\<not> hasForbiddenURIByte url" "\<not> headerHasCRLF (Header_Set h (lit ''User-Agent'') (lit ''ua''))" "c_sessionID c = []"
  shows "\<exists>raw. roundTrip_send open_env method url h c = (Some (uint (c_cseq c + 1)),
    c\<lparr>c_cseq := c_cseq c + 1, c_pending := insert (uint (c_cseq c + 1)) (c_pending c), c_writes := Suc (c_writes c), c_written := c_written c @ [raw]\<rparr>)"
  using assms by (simp add: roundTrip_send_def writeAuthorizedRequest_def attachAuthorization_def MarshalRequest_def standard_headers_def
      writeMessage_def open_env_def Let_def del: of_nat_Suc) (rule exI, rule refl)

text \<open>A client that has described a camera with one Opus track.\<close>

definition described_session :: "bytes \<Rightarrow> session" where
  "described_session raw = (session0 (lit ''rtsp://cam''))\<lparr>s_client := (newClient (lit ''rtsp://cam''))\<lparr>c_cseq := 1, c_writes := 1, c_written := [raw],
     c_delivered := [answer_with 1 []], c_described := [camera], c_state := stateDescribed\<rparr>\<rparr>"

lemma described_reach: "\<exists>raw. session_reach open_env pref peer (described_session raw)"
proof -
  define h where "h = Header_Set [] (lit ''Accept'') (lit ''application/sdp'')"
  have h: "\<not> headerHasCRLF (Header_Set h (lit ''User-Agent'') (lit ''ua''))" unfolding h_def by code_simp
  obtain raw where raw: "roundTrip_send open_env methodDescribe (lit ''rtsp://cam'') h (newClient (lit ''rtsp://cam''))
      = (Some 1, (newClient (lit ''rtsp://cam''))\<lparr>c_cseq := 1, c_pending := {1}, c_writes := Suc 0, c_written := [raw]\<rparr>)"
    using open_roundTrip [of "newClient (lit ''rtsp://cam'')" methodDescribe "lit ''rtsp://cam''" h] h
    by (auto simp: newClient_def methodDescribe_def lit_simps caps hasCRLF_def hasForbiddenURIByte_def)
  have "described_ok camera"
    unfolding described_ok_def by (rule exI [of _ "lit ''rtsp://cam/a''"], rule exI [of _ CodecOpus]) (auto simp: describe_track_def resolveLATMASC_def camera_def)
  moreover have "exchange open_env pref peer CallDescribe [camera] (answer_with 1 []) (session0 (lit ''rtsp://cam'')) = Some (described_session raw)"
    using raw by (simp add: exchange_def call_begin_def requireState_def legalIn_def session0_def newClient_def h_def answer_with_def ClassifyStatus_def
        call_answer_def describe_commit_def commit_keeps dest_values roundTrip_done_def c_dispatchResponse_def described_session_def)
  ultimately show ?thesis using exchange_reach [OF _ session_reach.start] by fastforce
qed


lemma resolve_unpinned: "resolveTransport PreferTCP [] = (False, False)" "resolveTransport PreferUDP [] = (True, False)"
  by (simp_all add: resolveTransport_def transportPinTCP_def transportPinUDP_def lit_simps)

lemma setup_begins:
  "describedTrackFor 0 (lit ''rtsp://cam/a'') (s_client (described_session raw)) = Inr camera"
  by (simp add: describedTrackFor_def requireState_def legalIn_def described_session_def newClient_def camera_def methodSetup_def methodDescribe_def lit_simps)

lemma record_keeps [simp]:
  "c_channelPairs (recordSession sh c) = c_channelPairs c" "c_channels (recordSession sh c) = c_channels c" "c_tracks (recordSession sh c) = c_tracks c"
  "c_termErr (recordSession sh c) = c_termErr c" "c_media (recordSession sh c) = c_media c" "c_opened (recordSession sh c) = c_opened c"
  "c_closedSockets (recordSession sh c) = c_closedSockets c" "c_closing (recordSession sh c) = c_closing c"
  "c_events (recordSession sh c) = c_events c" "c_ticks (recordSession sh c) = c_ticks c"
  by (simp_all add: recordSession_def)

lemma answer_facts: "Resp_CSeq (answer_with n t) = n" "ClassifyStatus (Some (answer_with n t)) = None" "s_call (described_session raw) = NoCall"
  by (simp_all add: answer_with_def ClassifyStatus_def described_session_def session0_def)

text \<open>The camera's track set up over the control connection, on channels the server chose.\<close>

lemma setup_session:
  obtains s tr where "session_reach open_env PreferTCP None s" "c_channelPairs (s_client s) = [\<lparr>CP_TrackID = 0, CP_RTP = 4, CP_RTCP = 5\<rparr>]"
    "newTrack 0 camera plain_options 5 = Some tr" "c_tracks (s_client s) = [tr]" "\<not> c_closing (s_client s)" "c_events (s_client s) = []"
    "c_ticks (s_client s) = 0"
proof -
  obtain raw where r: "session_reach open_env PreferTCP None (described_session raw)" using described_reach by blast
  define c0 where "c0 = s_client (described_session raw)"
  define h where "h = Header_Set [] (lit ''Transport'') (BuildTransport 0 1)"
  have h: "\<not> headerHasCRLF (Header_Set h (lit ''User-Agent'') (lit ''ua''))" unfolding h_def by code_simp
  have c0: "\<not> c_authActive c0" "c_sessionID c0 = []" "c_cseq c0 = 1" "c_pending c0 = {}" "c_channelPairs c0 = []" "c_termErr c0 = None"
    "c_tracks c0 = []" "c_sessionTransport c0 = []" "c_channels c0 = Map.empty" "\<not> c_closing c0" "c_events c0 = []" "c_ticks c0 = 0"
    by (simp_all add: c0_def described_session_def newClient_def)
  obtain raw2 where sent: "roundTrip_send open_env methodSetup (lit ''rtsp://cam/a'') h c0
      = (Some 2, c0\<lparr>c_cseq := 2, c_pending := {2}, c_writes := Suc (c_writes c0), c_written := c_written c0 @ [raw2]\<rparr>)"
    using open_roundTrip [of c0 methodSetup "lit ''rtsp://cam/a''" h] h c0
    by (auto simp: methodSetup_def lit_simps caps hasCRLF_def hasForbiddenURIByte_def)
  have pair: "nextChannelPair c0 = Inr (0, 1)" by (simp add: nextChannelPair_def c0 caps)
  have beg: "call_begin open_env PreferTCP (CallSetup 0 (lit ''rtsp://cam/a'') plain_options None) c0
     = Inr (ForSetupTCP 0 (lit ''rtsp://cam/a'') camera plain_options, Some 2,
         c0\<lparr>c_cseq := 2, c_pending := {2}, c_writes := Suc (c_writes c0), c_written := c_written c0 @ [raw2]\<rparr>)"
    using setup_begins [of raw] sent pair c0(8) by (simp add: call_begin_def Setup_send_def resolve_unpinned setupTCP_send_def c0_def h_def)
  define resp where "resp = answer_with 2 (BuildTransport 4 5)"
  have get: "Header_Get (Resp_Header resp) (lit ''Transport'') = BuildTransport 4 5" unfolding resp_def by code_simp
  have th: "InterleavedChannels {} (transport0\<lparr>Protocol := x, Unicast := True, RTPChannel := 4, RTCPChannel := 5, Interleaved := True\<rparr>) = Inr (4, 5)" for x
    by (simp add: InterleavedChannels_def caps)
  obtain tr where tr: "newTrack 0 camera plain_options 5 = Some tr" "tr_id tr = 0"
    using newTrack_fields(1) [of 0 camera plain_options 5] by (simp add: newTrack_def camera_def)
  obtain s where s: "exchange open_env PreferTCP None (CallSetup 0 (lit ''rtsp://cam/a'') plain_options None) [] resp (described_session raw) = Some s"
    "c_channelPairs (s_client s) = [\<lparr>CP_TrackID = 0, CP_RTP = 4, CP_RTCP = 5\<rparr>]" "c_tracks (s_client s) = [tr]" "\<not> c_closing (s_client s)"
    "c_events (s_client s) = []" "c_ticks (s_client s) = 0"
    using beg ParseTransport_Build [of 4 5] th get tr c0 answer_facts(1,2) [of 2 "BuildTransport 4 5", folded resp_def] answer_facts(3)
    by (simp add: exchange_def c0_def [symmetric] call_answer_def setupTCP_answer_def roundTrip_done_def c_dispatchResponse_def Let_def
        publishTrack_def commit_keeps claimedChannels_def)
  then show thesis using that exchange_reach [OF s(1) r] tr(1) by auto
qed

theorem session_routing_witness:
  "\<exists>s. session_reach open_env PreferTCP None s \<and> c_channelPairs (s_client s) = [\<lparr>CP_TrackID = 0, CP_RTP = 4, CP_RTCP = 5\<rparr>]
    \<and> c_channels (s_client s) 5 = Some \<lparr>cb_track = 0, cb_isRTCP = True\<rparr>"
proof -
  obtain s where s: "session_reach open_env PreferTCP None s" "c_channelPairs (s_client s) = [\<lparr>CP_TrackID = 0, CP_RTP = 4, CP_RTCP = 5\<rparr>]"
    by (rule setup_session)
  then show ?thesis using session_routing [OF s(1)] by (intro exI [of _ s]) simp
qed

text \<open>The camera's track set up over UDP, its sockets not registered yet.\<close>

lemma udp_setup:
  obtains s tr m where "session_reach open_env PreferUDP (Some [10, 0, 0, 1]) s" "s_call s = Registering 0 m" "m_id m = 0" "c_opened (s_client s) = 1"
    "c_closedSockets (s_client s) = {}" "c_media (s_client s) = Map.empty" "\<not> c_closing (s_client s)" "newTrack 0 camera plain_options 0 = Some tr"
    "c_tracks (s_client s) = [tr]" "c_events (s_client s) = []"
proof -
  define peer where "peer = Some [10, 0, 0, 1 :: byte]"
  obtain raw where r: "session_reach open_env PreferUDP peer (described_session raw)" using described_reach by blast
  define c0 where "c0 = s_client (described_session raw)"
  define c1 where "c1 = c0\<lparr>c_opened := 1\<rparr>"
  define m :: media_sockets where "m = \<lparr>m_id = 0, m_clientRTPPort = 6, m_clientRTCPPort = 7, m_rtpPeer = None, m_rtcpPeer = None\<rparr>"
  define h where "h = Header_Set [] (lit ''Transport'') (BuildTransportUDP 6 7)"
  have h: "\<not> headerHasCRLF (Header_Set h (lit ''User-Agent'') (lit ''ua''))" unfolding h_def by code_simp
  have c0: "c_opened c0 = 0" "c_sessionTransport c0 = []" by (simp_all add: c0_def described_session_def newClient_def)
  have c1: "\<not> c_authActive c1" "c_sessionID c1 = []" "c_cseq c1 = 1" "c_pending c1 = {}" "c_termErr c1 = None" "\<not> c_closing c1" "c_events c1 = []"
    "c_tracks c1 = []" "c_media c1 = Map.empty" "c_opened c1 = 1" "c_closedSockets c1 = {}"
    by (simp_all add: c1_def c0_def described_session_def newClient_def)
  have opened: "openMediaSockets (Some 6) c0 = Some (m, c1)" by (simp add: openMediaSockets_def c0 c1_def m_def)
  obtain raw2 where sent: "roundTrip_send open_env methodSetup (lit ''rtsp://cam/a'') h c1
      = (Some 2, c1\<lparr>c_cseq := 2, c_pending := {2}, c_writes := Suc (c_writes c1), c_written := c_written c1 @ [raw2]\<rparr>)"
    using open_roundTrip [of c1 methodSetup "lit ''rtsp://cam/a''" h] h c1
    by (auto simp: methodSetup_def lit_simps caps hasCRLF_def hasForbiddenURIByte_def)
  have beg: "call_begin open_env PreferUDP (CallSetup 0 (lit ''rtsp://cam/a'') plain_options (Some 6)) c0
     = Inr (ForSetupUDP 0 (lit ''rtsp://cam/a'') camera plain_options False m, Some 2,
         c1\<lparr>c_cseq := 2, c_pending := {2}, c_writes := Suc (c_writes c1), c_written := c_written c1 @ [raw2]\<rparr>)"
    using setup_begins [of raw] sent opened c0(2) by (simp add: call_begin_def Setup_send_def resolve_unpinned c0_def h_def m_def)
  define resp where "resp = answer_with 2 (lit ''RTP/AVP;unicast;server_port=6000-6001'')"
  have get: "map_sum id ServerPorts (ParseTransport (Header_Get (Resp_Header resp) (lit ''Transport''))) = Inr (Some (6000, 6001))"
    unfolding resp_def by code_simp
  then obtain th where th: "ParseTransport (Header_Get (Resp_Header resp) (lit ''Transport'')) = Inr th" "ServerPorts th = Some (6000, 6001)"
    by (auto simp: map_sum_def split: sum.splits)
  obtain m' where m': "resolveServerPeers th peer m = Some m'" "m_id m' = 0" by (simp add: resolveServerPeers_def peer_def th(2) m_def)
  obtain tr where tr: "newTrack 0 camera plain_options 0 = Some tr" by (simp add: newTrack_def camera_def)
  obtain s where s: "exchange open_env PreferUDP peer (CallSetup 0 (lit ''rtsp://cam/a'') plain_options (Some 6)) [] resp (described_session raw) = Some s"
    "s_call s = Registering 0 m'" "c_opened (s_client s) = 1" "c_closedSockets (s_client s) = {}" "c_media (s_client s) = Map.empty" "\<not> c_closing (s_client s)" "c_tracks (s_client s) = [tr]" "c_events (s_client s) = []"
    using beg th(1) m'(1) tr c1 answer_facts(1,2) [of 2 "lit ''RTP/AVP;unicast;server_port=6000-6001''", folded resp_def] answer_facts(3)
    by (simp add: exchange_def c0_def [symmetric] call_answer_def setupUDP_answer_def roundTrip_done_def c_dispatchResponse_def Let_def
        publishUDPTrack_def commit_keeps)
  have "session_reach open_env PreferUDP (Some [10, 0, 0, 1]) s" using exchange_reach [OF s(1) r] by (simp add: peer_def)
  then show thesis using that s m'(2) tr by blast
qed

lemma udp_session:
  obtains s tr where "session_reach open_env PreferUDP (Some [10, 0, 0, 1]) s" "newTrack 0 camera plain_options 0 = Some tr" "c_tracks (s_client s) = [tr]"
    "\<not> c_closing (s_client s)" "c_events (s_client s) = []"
proof -
  obtain s tr m where s: "session_reach open_env PreferUDP (Some [10, 0, 0, 1]) s" "s_call s = Registering 0 m" "m_id m = 0" "c_opened (s_client s) = 1"
    "c_closedSockets (s_client s) = {}" "c_media (s_client s) = Map.empty" "\<not> c_closing (s_client s)" "newTrack 0 camera plain_options 0 = Some tr"
    "c_tracks (s_client s) = [tr]" "c_events (s_client s) = []" by (rule udp_setup)
  show thesis using that [OF session_reach.step [OF s(1) session_step.registers [OF s(2)]] s(8)] s(7,9,10) by (simp add: registerMediaSockets_def)
qed

text \<open>The race the registration guards against: the session is torn down between the answer and the registration of the sockets.\<close>

theorem session_sockets_closed_witness:
  "\<exists>s. session_reach open_env PreferUDP (Some [10, 0, 0, 1]) s \<and> s_torn s \<and> s_call s = NoCall \<and> c_opened (s_client s) = 1
    \<and> c_closedSockets (s_client s) = {0}"
proof -
  obtain s tr m where s: "session_reach open_env PreferUDP (Some [10, 0, 0, 1]) s" "s_call s = Registering 0 m" "m_id m = 0" "c_opened (s_client s) = 1"
    "c_closedSockets (s_client s) = {}" "c_media (s_client s) = Map.empty" "\<not> c_closing (s_client s)" "newTrack 0 camera plain_options 0 = Some tr"
    "c_tracks (s_client s) = [tr]" "c_events (s_client s) = []" by (rule udp_setup)
  define s1 where "s1 = s\<lparr>s_client := c_initiateShutdown ErrClosed (s_client s)\<rparr>"
  define s2 where "s2 = s1\<lparr>s_client := teardownAndJoin open_env (s_client s1), s_torn := True\<rparr>"
  define s3 where "s3 = s2\<lparr>s_client := registerMediaSockets 0 m (s_client s2), s_call := NoCall\<rparr>"
  have r1: "session_reach open_env PreferUDP (Some [10, 0, 0, 1]) s1" unfolding s1_def by (rule session_reach.step [OF s(1)]) (rule session_step.stop, simp)
  have cl: "c_closing (s_client s1)" using s(7) by (simp add: s1_def c_initiateShutdown_def)
  from r1 have r2: "session_reach open_env PreferUDP (Some [10, 0, 0, 1]) s2" unfolding s2_def by (rule session_reach.step) (rule session_step.teardown [OF cl])
  have call: "s_call s2 = Registering 0 m" using s(2) by (simp add: s2_def s1_def)
  from r2 have r3: "session_reach open_env PreferUDP (Some [10, 0, 0, 1]) s3" unfolding s3_def by (rule session_reach.step) (rule session_step.registers [OF call])
  define c2 where "c2 = (if sessionEstablished (s_client s1) then sendTeardownBestEffort open_env (s_client s1) else s_client s1)"
  have "client_ok (s_client s1)" using reach_inv [OF r1] by (simp add: session_inv_def)
  then have "quiet (s_client s1) c2" using quietI quiet_sendTeardown by (simp add: c2_def)
  then have c2: "s_client s2 = closeMediaSockets c2" "sockets c2 = sockets (s_client s1)" "c_closing c2" using cl by (auto simp: quiet_def s2_def teardownAndJoin_def c2_def)
  have s3: "s_torn s3" "s_call s3 = NoCall" "c_opened (s_client s3) = 1" "c_closedSockets (s_client s3) \<subseteq> {0}"
    using s c2 unfolding s3_def
    by (simp_all add: registerMediaSockets_def closeMediaSockets_def m_Close_def sockets_def s1_def c_initiateShutdown_def setTermErr_def)
      (simp_all add: s2_def)
  have "c_closedSockets (s_client s3) = {0}" using session_sockets_closed [OF r3 s3(1,2)] s3(3,4) by auto
  then show ?thesis using r3 s3(1-3) by blast
qed

theorem session_no_panic_witness:
  "\<exists>raw. outcome_ok (\<lambda>c. c_termErr c \<noteq> Some (ReaderCause ReaderPanic) \<and> list_all track_ok (c_tracks c))
    (readLoop (client_handlers open_env) (fresh_reader (s_client (described_session raw))) [ReadData [36, 0, 0, 1], ReadData [7, 82, 84, 0], ReadBroken])"
proof -
  obtain raw where r: "session_reach open_env PreferTCP None (described_session raw)" using described_reach by blast
  have "reads_ok [ReadData [36, 0, 0, 1], ReadData [7, 82, 84, 0], ReadBroken]" by (simp add: reads_ok_def event_bytes_def caps)
  from session_no_panic [OF r this] show ?thesis by blast
qed

end
