(* ===== verification/RTSP_Delivery.thy ===== *)
theory RTSP_Delivery
  imports RTSP_Session
begin

text \<open>
  The whole receive path of an interleaved session, from the bytes on the control connection to the frames the application is handed:
  the reader, the router, the RTP parser, the sequence tracker and the pipeline together.
\<close>

section \<open>One unit at a time\<close>

text \<open>What a server puts on the connection: media packets of the Opus track under consideration, and anything else.\<close>

datatype sent = Media "nat \<times> nat" bytes | Other wire_unit

fun sent_unit :: "byte \<Rightarrow> u32 \<Rightarrow> int \<Rightarrow> sent \<Rightarrow> wire_unit" where
  "sent_unit pt src ch (Media q data) = UFrame ch (packet_wire (Header (packet_of pt src (q, data))) data)"
| "sent_unit pt src ch (Other u) = u"

text \<open>Other tracks may get whatever they like; a request must not end the session.\<close>

fun harmless :: "int \<Rightarrow> wire_unit \<Rightarrow> bool" where
  "harmless ch (UFrame ch' payload) \<longleftrightarrow> 0 \<le> ch' \<and> ch' \<noteq> ch"
| "harmless ch (UResponse r) \<longleftrightarrow> True"
| "harmless ch (URequest r) \<longleftrightarrow> \<not> EqualFold (Method r) methodTeardown"

fun harmless_sent :: "int \<Rightarrow> sent \<Rightarrow> bool" where
  "harmless_sent ch (Media q data) = True"
| "harmless_sent ch (Other u) = harmless ch u"

text \<open>The packets of the track with the time each is read at, frames being the units that read the clock.\<close>

fun arrivals :: "environment \<Rightarrow> nat \<Rightarrow> sent list \<Rightarrow> arrival list" where
  "arrivals env t [] = []"
| "arrivals env t (Media q data # xs) = ((q, data), env_clock env t) # arrivals env (Suc t) xs"
| "arrivals env t (Other (UFrame ch payload) # xs) = arrivals env (Suc t) xs"
| "arrivals env t (Other u # xs) = arrivals env t xs"

definition own_events :: "int \<Rightarrow> rtsp_client \<Rightarrow> event list" where
  "own_events i c = filter (\<lambda>e. ev_track e = i) (c_events c)"

text \<open>A running client whose track \<open>k\<close> is bound to \<open>ch\<close> and satisfies \<open>P\<close>.\<close>

definition receiving :: "int \<Rightarrow> nat \<Rightarrow> int \<Rightarrow> (track \<Rightarrow> bool) \<Rightarrow> rtsp_client \<Rightarrow> bool" where
  "receiving ch k i P c \<longleftrightarrow> client_ok c \<and> routing_ok c \<and> \<not> c_closing c \<and> c_channels c ch = Some \<lparr>cb_track = k, cb_isRTCP = False\<rparr>
     \<and> tr_id (c_tracks c ! k) = i \<and> \<not> tr_discard (c_tracks c ! k) \<and> P (c_tracks c ! k)"

text \<open>A property of tracks that neither the counters nor RTCP touch.\<close>

definition steady :: "(track \<Rightarrow> bool) \<Rightarrow> bool" where
  "steady P \<longleftrightarrow> (\<forall>tr t n. P tr \<longrightarrow> P (tr\<lparr>tr_lastFrameUnixNano := t, tr_wireBytes := n\<rparr>))
     \<and> (\<forall>tr a b t sc. P tr \<longrightarrow> P (tr\<lparr>tr_senderSSRC := a, tr_lastSR := b, tr_lastSRUnixNano := t\<rparr>)
        \<and> P (tr\<lparr>tr_senderSSRC := a, tr_lastSR := b, tr_lastSRUnixNano := t, tr_srClock := sc\<rparr>))"

lemma steady_opus: "steady (opus_fresh pt rate)" "steady (opus_running pt src t0 rate p)"
  by (simp_all add: steady_def opus_fresh_def opus_running_def)

lemma receiving_k:
  assumes "receiving ch k i P c"
  shows "k < length (c_tracks c)" "track_ok (c_tracks c ! k)"
proof -
  have "c_channels c ch = Some \<lparr>cb_track = k, cb_isRTCP = False\<rparr>" "client_ok c" using assms by (simp_all add: receiving_def)
  then show "k < length (c_tracks c)" by (metis channelBinding.select_convs(1) client_ok_def)
  then show "track_ok (c_tracks c ! k)" using client_ok_track assms by (simp add: receiving_def)
qed

lemma handleRTCP_steady:
  assumes "steady P" "P tr" "handleRTCP payload now tr = Some (usable, tr')"
  shows "P tr'"
proof (cases "ParseCompound payload" rule: go_cases)
  case (Ok rs)
  show ?thesis
  proof (cases rs)
    case (Cons r rest)
    define found where "found = (if tr_senderSSRC tr \<noteq> 0 then List.find (\<lambda>x. SR_SSRC x = tr_senderSSRC tr) (r # rest) else Some r)"
    have H: "handleRTCP payload now tr = (case found of
             None \<Rightarrow> Some (True, tr)
           | Some sr \<Rightarrow>
               let tr = tr\<lparr>tr_senderSSRC := SR_SSRC sr, tr_lastSR := ucast (drop_bit 16 (NTPTimestamp sr)), tr_lastSRUnixNano := now\<rparr>
               in Some (True, if tr_baseSet tr then tr\<lparr>tr_srClock := SenderClockFrom sr now (uint (tr_clockRate tr))\<rparr> else tr))"
      unfolding handleRTCP_def Ok Cons found_def by (simp only: option.case sum.case list.case Let_def)
    show ?thesis
    proof (cases found)
      case (Some sr)
      then show ?thesis using assms(3) assms(1,2) by (auto simp: H Let_def steady_def)
    qed (use assms(2,3) in \<open>simp add: H\<close>)
  qed (use assms(2,3) Ok in \<open>simp add: handleRTCP_def\<close>)
qed (use assms(2,3) in \<open>simp_all add: handleRTCP_def\<close>)

text \<open>A track's RTP channel is its own.\<close>

lemma rtp_channel_unique:
  assumes "routing_ok c" "c_channels c ch = Some b" "c_channels c ch' = Some b"
  shows "ch = ch'"
proof -
  have "distinct (concat (map pair_channels (c_channelPairs c)))" "c_channels c = table_of (c_channelPairs c)" using assms(1) by (simp_all add: routing_ok_def)
  then show ?thesis using table_of_lookup assms(2,3) by metis
qed


text \<open>A frame touches its own track and reports on it only.\<close>

lemma rtp_effect:
  assumes "track_ok (c_tracks c ! k)"
  shows "\<exists>tr' evs. snd (c_handleRTP env k payload now c) = (set_track k tr' c)\<lparr>c_events := c_events c @ evs\<rparr>
    \<and> (\<forall>e \<in> set evs. ev_track e = tr_id (c_tracks c ! k))"
proof -
  define tr where "tr = c_tracks c ! k"
  define tr1 where "tr1 = tr\<lparr>tr_lastFrameUnixNano := now, tr_wireBytes := tr_wireBytes tr + word_of_nat (interleavedHeaderLen + length payload)\<rparr>"
  have tr1: "track_ok tr1" "tr_id tr1 = tr_id tr" using assms by (simp_all add: tr1_def tr_def)
  have none: "set_track k tr' c = (set_track k tr' c)\<lparr>c_events := c_events c @ []\<rparr>" for tr' by (simp add: set_track_def)
  show ?thesis
  proof (cases "tr_discard tr1")
    case True
    then have "\<exists>tr'. snd (c_handleRTP env k payload now c) = set_track k tr' c"
      unfolding c_handleRTP_def Let_def tr_def [symmetric] tr1_def [symmetric] by auto
    then show ?thesis using none by (metis empty_iff list.set(1))
  next
    case False
    show ?thesis
    proof (cases "ParsePacket payload" rule: go_cases)
      case Panic
      then show ?thesis using ParsePacket_no_panic [of payload] by simp
    next
      case (Err e)
      then have "\<exists>tr'. snd (c_handleRTP env k payload now c) = set_track k tr' c"
        using False unfolding c_handleRTP_def Let_def tr_def [symmetric] tr1_def [symmetric] by auto
      then show ?thesis using none by (metis empty_iff list.set(1))
    next
      case (Ok pkt)
      obtain b out tr' where p: "process (env_callbacks env) pkt now tr1 = Some (b, out, tr')" "\<forall>e \<in> set out. ev_track e = tr_id tr1"
        using process_ok [OF tr1(1), of "env_callbacks env" pkt now] by (auto split: prod.splits)
      then have "snd (c_handleRTP env k payload now c) = (set_track k tr' c)\<lparr>c_events := c_events c @ out\<rparr>"
        using False Ok unfolding c_handleRTP_def Let_def tr_def [symmetric] tr1_def [symmetric] by simp
      then show ?thesis using p(2) tr1(2) by (auto simp: tr_def)
    qed
  qed
qed

lemma interleaved_frame:
  "c_handleInterleaved env f c = (case lookup (c_channels c) (int (Channel f)) of
        None \<Rightarrow> (False, c\<lparr>c_ticks := Suc (c_ticks c), c_lastFrameAt := env_clock env (c_ticks c)\<rparr>)
      | Some bnd \<Rightarrow>
          if cb_isRTCP bnd then c_handleRTCP (cb_track bnd) (IPayload f) (env_clock env (c_ticks c))
            (c\<lparr>c_ticks := Suc (c_ticks c), c_lastFrameAt := env_clock env (c_ticks c)\<rparr>)
          else c_handleRTP env (cb_track bnd) (IPayload f) (env_clock env (c_ticks c))
            (c\<lparr>c_ticks := Suc (c_ticks c), c_lastFrameAt := env_clock env (c_ticks c)\<rparr>))"
  by (simp add: c_handleInterleaved_def now_of_def Let_def)

lemma rtcp_effect:
  assumes "track_ok (c_tracks c ! k)" "steady P"
  shows "\<exists>tr'. snd (c_handleRTCP k payload now c) = set_track k tr' c \<and> fixed tr' = fixed (c_tracks c ! k) \<and> (P (c_tracks c ! k) \<longrightarrow> P tr')"
proof (cases "tr_discard (c_tracks c ! k)")
  case True
  then show ?thesis by (intro exI [of _ "c_tracks c ! k"]) (simp add: c_handleRTCP_def set_track_def)
next
  case False
  obtain u tr' where r: "handleRTCP payload now (c_tracks c ! k) = Some (u, tr')" using handleRTCP_ok [OF assms(1)] by blast
  then show ?thesis using False handleRTCP_fixed [OF r] handleRTCP_steady [OF assms(2) _ r] by (auto simp: c_handleRTCP_def)
qed

lemma other_frame:
  assumes "receiving ch k i P c" "steady P" "0 \<le> ch'" "ch' \<noteq> ch"
  shows "receiving ch k i P (snd (c_handleInterleaved env \<lparr>Channel = nat ch', IPayload = payload\<rparr> c))"
    "own_events i (snd (c_handleInterleaved env \<lparr>Channel = nat ch', IPayload = payload\<rparr> c)) = own_events i c"
    "c_ticks (snd (c_handleInterleaved env \<lparr>Channel = nat ch', IPayload = payload\<rparr> c)) = Suc (c_ticks c)"
proof -
  define c' where "c' = snd (c_handleInterleaved env \<lparr>Channel = nat ch', IPayload = payload\<rparr> c)"
  define c1 where "c1 = c\<lparr>c_ticks := Suc (c_ticks c), c_lastFrameAt := env_clock env (c_ticks c)\<rparr>"
  note R = assms(1) [unfolded receiving_def]
  have k: "k < length (c_tracks c)" using receiving_k [OF assms(1)] by simp
  have q: "quiet c c'" unfolding c'_def using R quiet_frame by blast
  have base: "receiving ch k i P c' \<and> own_events i c' = own_events i c \<and> c_ticks c' = Suc (c_ticks c)"
    if t: "c_tracks c' ! k = tr'" "fixed tr' = fixed (c_tracks c ! k)" "P tr'" and e: "own_events i c' = own_events i c"
      and same: "c_closing c' = c_closing c" "c_channels c' = c_channels c" "c_ticks c' = Suc (c_ticks c)" for tr'
    using R t e same quietD [OF q] quiet_keeps(1) [OF q] by (simp add: receiving_def fixed_def)
  have "receiving ch k i P c' \<and> own_events i c' = own_events i c \<and> c_ticks c' = Suc (c_ticks c)"
  proof (cases "c_channels c ch'")
    case None
    then have "c' = c1" using assms(3) by (simp add: c'_def interleaved_frame lookup_def c1_def)
    then show ?thesis using R by (intro base [of "c_tracks c ! k"]) (simp_all add: c1_def own_events_def)
  next
    case (Some b)
    define k' where "k' = cb_track b"
    have k': "k' < length (c_tracks c)" using R Some by (auto simp: client_ok_def k'_def)
    then have ok: "track_ok (c_tracks c1 ! k')" using R client_ok_track by (simp add: c1_def)
    show ?thesis
    proof (cases "cb_isRTCP b")
      case True
      obtain tr' where tr': "snd (c_handleRTCP k' payload (env_clock env (c_ticks c)) c1) = set_track k' tr' c1" "fixed tr' = fixed (c_tracks c ! k')"
        "P (c_tracks c ! k') \<longrightarrow> P tr'"
        using rtcp_effect [OF ok assms(2)] by (auto simp: c1_def)
      then have c': "c' = set_track k' tr' c1" using Some True assms(3) by (simp add: c'_def interleaved_frame lookup_def c1_def k'_def)
      show ?thesis using R tr' k k' by (intro base [of "if k' = k then tr' else c_tracks c ! k"]) (auto simp: c' c1_def own_events_def set_track_def)
    next
      case False
      have "k' \<noteq> k"
      proof
        assume "k' = k"
        then have "c_channels c ch' = Some \<lparr>cb_track = k, cb_isRTCP = False\<rparr>" using Some False by (cases b) (simp add: k'_def)
        then show False using rtp_channel_unique [of c ch' _ ch] R assms(4) by blast
      qed
      obtain tr' evs where e: "snd (c_handleRTP env k' payload (env_clock env (c_ticks c)) c1) = (set_track k' tr' c1)\<lparr>c_events := c_events c1 @ evs\<rparr>"
        "\<forall>e \<in> set evs. ev_track e = tr_id (c_tracks c1 ! k')" using rtp_effect [OF ok] by blast
      have "tr_id (c_tracks c ! k') \<noteq> i"
        using R \<open>k' \<noteq> k\<close> k k' by (auto simp: routing_ok_def distinct_conv_nth)
      then have none: "filter (\<lambda>e. ev_track e = i) evs = []" using e(2) by (auto simp: filter_empty_conv c1_def)
      have c': "c' = (set_track k' tr' c1)\<lparr>c_events := c_events c1 @ evs\<rparr>"
        using e(1) Some False assms(3) by (simp add: c'_def interleaved_frame lookup_def c1_def k'_def)
      show ?thesis using R \<open>k' \<noteq> k\<close> none by (intro base [of "c_tracks c ! k"]) (auto simp: c' c1_def own_events_def set_track_def)
    qed
  qed
  then show "receiving ch k i P (snd (c_handleInterleaved env \<lparr>Channel = nat ch', IPayload = payload\<rparr> c))"
    "own_events i (snd (c_handleInterleaved env \<lparr>Channel = nat ch', IPayload = payload\<rparr> c)) = own_events i c"
    "c_ticks (snd (c_handleInterleaved env \<lparr>Channel = nat ch', IPayload = payload\<rparr> c)) = Suc (c_ticks c)"
    unfolding c'_def by simp_all
qed

text \<open>Responses and requests leave the tracks alone.\<close>

lemma other_unit:
  assumes "receiving ch k i P c" "steady P" "harmless ch u" "\<forall>n. env_write env n"
  shows "receiving ch k i P (unit_act (client_handlers env) u c)"
    "own_events i (unit_act (client_handlers env) u c) = own_events i c"
    "c_ticks (unit_act (client_handlers env) u c) = (case u of UFrame _ _ \<Rightarrow> Suc (c_ticks c) | _ \<Rightarrow> c_ticks c)"
proof -
  define c' where "c' = unit_act (client_handlers env) u c"
  note R = assms(1) [unfolded receiving_def]
  have same: "receiving ch k i P c'' \<and> own_events i c'' = own_events i c \<and> c_ticks c'' = c_ticks c"
    if q: "quiet c c''" and s: "c_tracks c'' = c_tracks c" "c_closing c'' = c_closing c" "c_events c'' = c_events c" "c_ticks c'' = c_ticks c" for c''
    using R s quietD [OF q] quiet_keeps(1) [OF q] q by (simp add: receiving_def own_events_def quiet_def routing_def)
  have "receiving ch k i P c' \<and> own_events i c' = own_events i c \<and> c_ticks c' = (case u of UFrame _ _ \<Rightarrow> Suc (c_ticks c) | _ \<Rightarrow> c_ticks c)"
  proof (cases u)
    case (UFrame ch' payload)
    then show ?thesis using other_frame [OF assms(1,2), of ch' env payload] assms(3) by (simp add: c'_def client_handlers_def)
  next
    case (UResponse r)
    then show ?thesis using same [of c'] R quiet_response [of c] by (simp add: c'_def client_handlers_def c_dispatchResponse_def)
  next
    case (URequest r)
    then have "\<not> EqualFold (Method (received_request r)) methodTeardown" using assms(3) by (simp add: received_request_def)
    then have "c_tracks c' = c_tracks c \<and> c_closing c' = c_closing c \<and> c_events c' = c_events c \<and> c_ticks c' = c_ticks c"
      using assms(4) by (simp add: URequest c'_def client_handlers_def c_handleServerRequest_def writeMessage_def Let_def split: sum.split)
    then show ?thesis using URequest same [of c'] R quiet_request [of c env] by (simp add: c'_def client_handlers_def)
  qed
  then show "receiving ch k i P (unit_act (client_handlers env) u c)"
    "own_events i (unit_act (client_handlers env) u c) = own_events i c"
    "c_ticks (unit_act (client_handlers env) u c) = (case u of UFrame _ _ \<Rightarrow> Suc (c_ticks c) | _ \<Rightarrow> c_ticks c)"
    unfolding c'_def by simp_all
qed

lemma receiving_channel: "receiving ch k i P c \<Longrightarrow> 0 \<le> ch"
  using table_of_lookup [of "c_channelPairs c" ch "\<lparr>cb_track = k, cb_isRTCP = False\<rparr>"]
  by (auto simp: receiving_def routing_ok_def pair_ok_def list_all_length)

text \<open>A packet of the track is parsed back, processed, and its frame reported.\<close>

lemma media_unit:
  assumes "receiving ch k i P c" "steady P" "pt AND 0x7f = pt"
    and pr: "\<And>tr. P tr \<Longrightarrow> tr_id tr = i \<Longrightarrow>
      \<exists>tr'. process (env_callbacks env) (packet_of pt src (q, data)) (env_clock env (c_ticks c)) tr = Some (True, [e], tr') \<and> Q tr'"
  shows "receiving ch k i Q (unit_act (client_handlers env) (sent_unit pt src ch (Media q data)) c)"
    "own_events i (unit_act (client_handlers env) (sent_unit pt src ch (Media q data)) c) = own_events i c @ [e]"
    "c_ticks (unit_act (client_handlers env) (sent_unit pt src ch (Media q data)) c) = Suc (c_ticks c)"
proof -
  define payload where "payload = packet_wire (Header (packet_of pt src (q, data))) data"
  define f where "f = \<lparr>Channel = nat ch, IPayload = payload\<rparr>"
  define c1 where "c1 = c\<lparr>c_ticks := Suc (c_ticks c), c_lastFrameAt := env_clock env (c_ticks c)\<rparr>"
  define tr1 where "tr1 = (c_tracks c ! k)\<lparr>tr_lastFrameUnixNano := env_clock env (c_ticks c),
     tr_wireBytes := tr_wireBytes (c_tracks c ! k) + word_of_nat (interleavedHeaderLen + length payload)\<rparr>"
  note R = assms(1) [unfolded receiving_def]
  note k = receiving_k [OF assms(1)]
  have act: "unit_act (client_handlers env) (sent_unit pt src ch (Media q data)) c = snd (c_handleInterleaved env f c)"
    by (simp add: client_handlers_def f_def payload_def)
  have tr1: "track_ok tr1" "tr_id tr1 = i" "P tr1" "\<not> tr_discard tr1" "fixed tr1 = fixed (c_tracks c ! k)"
    using k R assms(2) by (simp_all add: tr1_def steady_def fixed_def)
  obtain tr' where p: "process (env_callbacks env) (packet_of pt src (q, data)) (env_clock env (c_ticks c)) tr1 = Some (True, [e], tr')" "Q tr'"
    using pr [OF tr1(3,2)] by blast
  then have tr': "track_ok tr'" "fixed tr' = fixed (c_tracks c ! k)" "ev_track e = i"
    using process_ok [OF tr1(1), of "env_callbacks env" "packet_of pt src (q, data)" "env_clock env (c_ticks c)"] tr1(2,5) by auto
  have parse: "ParsePacket payload = ok (packet_of pt src (q, data))"
    unfolding payload_def using ParsePacket_wire [of "Header (packet_of pt src (q, data))" data] assms(3)
    by (simp add: packet_of_def wire_def caps)
  have H: "snd (c_handleInterleaved env f c) = (set_track k tr' c1)\<lparr>c_events := c_events c @ [e]\<rparr>"
    using R receiving_channel [OF assms(1)] tr1(4) parse p(1) unfolding interleaved_frame c_handleRTP_def Let_def
    by (simp add: f_def lookup_def c1_def [symmetric]) (simp add: c1_def tr1_def)
  have q: "quiet c (snd (c_handleInterleaved env f c))" using R quiet_frame by blast
  show "receiving ch k i Q (unit_act (client_handlers env) (sent_unit pt src ch (Media q data)) c)"
    unfolding act using R k p(2) tr' quietD [OF q] quiet_keeps(1) [OF q]
    by (simp add: H receiving_def set_track_def c1_def fixed_def)
  show "own_events i (unit_act (client_handlers env) (sent_unit pt src ch (Media q data)) c) = own_events i c @ [e]"
    "c_ticks (unit_act (client_handlers env) (sent_unit pt src ch (Media q data)) c) = Suc (c_ticks c)"
    unfolding act using tr'(3) by (simp_all add: H own_events_def set_track_def c1_def)
qed

section \<open>A run of units\<close>

lemma open_Cons: "(\<forall>n \<le> length (u # us). \<not> cl (fold f (take n (u # us)) c)) \<longleftrightarrow> \<not> cl c \<and> (\<forall>n \<le> length us. \<not> cl (fold f (take n us) (f u c)))"
proof
  assume a: "\<forall>n \<le> length (u # us). \<not> cl (fold f (take n (u # us)) c)"
  then have "\<not> cl (fold f (take (Suc n) (u # us)) c)" if "n \<le> length us" for n using that by (metis Suc_le_mono length_Cons)
  then show "\<not> cl c \<and> (\<forall>n \<le> length us. \<not> cl (fold f (take n us) (f u c)))" using a [rule_format, of 0] by simp
next
  assume "\<not> cl c \<and> (\<forall>n \<le> length us. \<not> cl (fold f (take n us) (f u c)))"
  then show "\<forall>n \<le> length (u # us). \<not> cl (fold f (take n (u # us)) c)" by (auto simp: take_Cons' Suc_le_eq)
qed

lemma arrivals_Other: "arrivals env t (Other u # xs) = arrivals env (case u of UFrame _ _ \<Rightarrow> Suc t | _ \<Rightarrow> t) xs"
  by (cases u) simp_all

text \<open>What the run of units \<open>us\<close> does to the events of track \<open>i\<close>, the client staying open throughout.\<close>

definition reports :: "environment \<Rightarrow> int \<Rightarrow> wire_unit list \<Rightarrow> rtsp_client \<Rightarrow> event list \<Rightarrow> bool" where
  "reports env i us c evs \<longleftrightarrow> own_events i (fold (unit_act (client_handlers env)) us c) = own_events i c @ evs
     \<and> (\<forall>n \<le> length us. \<not> c_closing (fold (unit_act (client_handlers env)) (take n us) c))"

lemma reports_Cons:
  assumes "\<not> c_closing c" "own_events i (unit_act (client_handlers env) u c) = own_events i c @ evs" "reports env i us (unit_act (client_handlers env) u c) evs'"
  shows "reports env i (u # us) c (evs @ evs')"
  using assms open_Cons [of u us c_closing "unit_act (client_handlers env)" c] by (simp add: reports_def)

lemma running_run:
  assumes "receiving ch k i (opus_running pt src t0 rate (fst (fst a))) c" "list_all (harmless_sent ch) xs"
    "successively forward (map (fst \<circ> fst) (a # arrivals env (c_ticks c) xs))" "t0 \<le> snd (fst (fst a))"
    "list_all (\<lambda>b. snd (fst (fst b)) < 2 ^ 64 \<and> snd (fst b) \<noteq> []) (arrivals env (c_ticks c) xs)"
    "\<forall>n. env_write env n" "cb_OnFrame (env_callbacks env)" "pt AND 0x7f = pt" "0 < rate" "rate < 2 ^ 32"
  shows "reports env i (map (sent_unit pt src ch) xs) c (map2 (opus_after i t0 rate) (a # arrivals env (c_ticks c) xs) (arrivals env (c_ticks c) xs))"
  using assms(1-5)
proof (induction xs arbitrary: a c)
  case Nil
  then show ?case by (simp add: reports_def receiving_def)
next
  case (Cons x xs)
  have closing: "\<not> c_closing c" using Cons.prems(1) by (simp add: receiving_def)
  show ?case
  proof (cases x)
    case (Other u)
    note o = other_unit [OF Cons.prems(1) steady_opus(2) _ assms(6), of u]
    have u: "harmless ch u" using Cons.prems(2) Other by simp
    have "reports env i (map (sent_unit pt src ch) xs) (unit_act (client_handlers env) u c)
       (map2 (opus_after i t0 rate) (a # arrivals env (c_ticks c) (x # xs)) (arrivals env (c_ticks c) (x # xs)))"
      using Cons.IH [OF o(1) [OF u]] Cons.prems o(3) [OF u] by (simp add: Other arrivals_Other)
    then show ?thesis using reports_Cons [OF closing, of i env u "[]"] o(2) [OF u] Other by simp
  next
    case (Media q data)
    define b where "b = ((q, data), env_clock env (c_ticks c))"
    have arr: "arrivals env (c_ticks c) (x # xs) = b # arrivals env (Suc (c_ticks c)) xs" by (simp add: Media b_def)
    have f: "forward (fst (fst a)) q" "t0 \<le> snd q" "snd q < 2 ^ 64" "data \<noteq> []"
      using Cons.prems(3-5) forward_snd [of "fst (fst a)" q] unfolding arr by (auto simp: b_def)
    have pr: "\<exists>tr'. process (env_callbacks env) (packet_of pt src (q, data)) (env_clock env (c_ticks c)) tr = Some (True, [opus_after i t0 rate a b], tr')
        \<and> opus_running pt src t0 rate (fst (fst b)) tr'" if "opus_running pt src t0 rate (fst (fst a)) tr" "tr_id tr = i" for tr
      using opus_step [OF that(1) f(1-3) assms(9,10) f(4) assms(7), of "env_clock env (c_ticks c)"] that(2) by (auto simp: b_def opus_after_def)
    note m = media_unit [OF Cons.prems(1) steady_opus(2) assms(8) pr]
    have "reports env i (map (sent_unit pt src ch) xs) (unit_act (client_handlers env) (sent_unit pt src ch x) c)
       (map2 (opus_after i t0 rate) (b # arrivals env (Suc (c_ticks c)) xs) (arrivals env (Suc (c_ticks c)) xs))"
      using Cons.IH [OF m(1)] Cons.prems(2-5) m(3) f(2) unfolding arr by (simp add: Media b_def)
    then show ?thesis using reports_Cons [OF closing m(2)] by (simp add: b_def Media)
  qed
qed

lemma fresh_run:
  assumes "receiving ch k i (opus_fresh pt rate) c" "list_all (harmless_sent ch) xs" "arrivals env (c_ticks c) xs = a # as"
    "successively forward (map (fst \<circ> fst) (a # as))" "fst (fst (fst a)) < 2 ^ 16" "snd (fst (fst a)) < 2 ^ 32"
    "list_all (\<lambda>b. snd (fst (fst b)) < 2 ^ 64 \<and> snd (fst b) \<noteq> []) (a # as)"
    "\<forall>n. env_write env n" "cb_OnFrame (env_callbacks env)" "pt AND 0x7f = pt" "0 < rate" "rate < 2 ^ 32"
  shows "reports env i (map (sent_unit pt src ch) xs) c
    (opus_frame i (snd (fst (fst a))) rate (fst a) (snd a) 0 # map2 (opus_after i (snd (fst (fst a))) rate) (a # as) as)"
  using assms(1-3)
proof (induction xs arbitrary: c)
  case (Cons x xs)
  have closing: "\<not> c_closing c" using Cons.prems(1) by (simp add: receiving_def)
  show ?case
  proof (cases x)
    case (Other u)
    note o = other_unit [OF Cons.prems(1) steady_opus(1) _ assms(8), of u]
    have u: "harmless ch u" using Cons.prems(2) Other by simp
    have "reports env i (map (sent_unit pt src ch) xs) (unit_act (client_handlers env) u c)
       (opus_frame i (snd (fst (fst a))) rate (fst a) (snd a) 0 # map2 (opus_after i (snd (fst (fst a))) rate) (a # as) as)"
      using Cons.IH [OF o(1) [OF u]] Cons.prems o(3) [OF u] by (simp add: Other arrivals_Other)
    then show ?thesis using reports_Cons [OF closing, of i env u "[]"] o(2) [OF u] Other by simp
  next
    case (Media q data)
    have a: "a = ((q, data), env_clock env (c_ticks c))" "as = arrivals env (Suc (c_ticks c)) xs" using Cons.prems(3) by (simp_all add: Media)
    have pr: "\<exists>tr'. process (env_callbacks env) (packet_of pt src (q, data)) (env_clock env (c_ticks c)) tr
        = Some (True, [opus_frame i (snd q) rate (fst a) (snd a) 0], tr') \<and> opus_running pt src (snd q) rate (fst (fst a)) tr'"
      if "opus_fresh pt rate tr" "tr_id tr = i" for tr
      using opus_first [OF that(1), of q data "env_callbacks env" src "env_clock env (c_ticks c)"] that(2) assms(5-7,9,11,12) by (auto simp: a(1))
    note m = media_unit [OF Cons.prems(1) steady_opus(1) assms(10) pr]
    have "reports env i (map (sent_unit pt src ch) xs) (unit_act (client_handlers env) (sent_unit pt src ch x) c) (map2 (opus_after i (snd q) rate) (a # as) as)"
      using running_run [OF m(1), of xs] assms(4,7-12) Cons.prems(2) m(3) by (simp add: Media a)
    then show ?thesis using reports_Cons [OF closing m(2)] by (simp add: Media a(1))
  qed
qed simp

text \<open>
  C1. End to end, from the bytes of the control connection to the frames of the application: take any state a running client can get into
  with an Opus track on channel \<open>ch\<close> that has received nothing yet. Let the server send packets of that track in sending order, with losses
  and wrapping counters, and between them anything else at all (frames of other channels with arbitrary contents, reports, responses
  and requests other than TEARDOWN), and let the network cut the bytes anywhere. Then the reader waits for more, and what it has told the application about the
  track is one frame per packet, in order, each with its payload, RTP time, exact presentation time, the time it was read at and
  the number of packets lost before it.
\<close>

theorem session_delivers:
  assumes "session_reach env pref peer s" "\<not> c_closing (s_client s)" "c_channels (s_client s) ch = Some \<lparr>cb_track = k, cb_isRTCP = False\<rparr>"
    "opus_fresh pt rate (c_tracks (s_client s) ! k)" "\<not> tr_discard (c_tracks (s_client s) ! k)" "tr_id (c_tracks (s_client s) ! k) = i"
    "\<forall>n. env_write env n" "cb_OnFrame (env_callbacks env)" "pt AND 0x7f = pt" "0 < rate" "rate < 2 ^ 32"
    "list_all (harmless_sent ch) xs" "list_all2 unit_sent (map (sent_unit pt src ch) xs) ws" "concat chunks = concat ws"
    "arrivals env (c_ticks (s_client s)) xs = a # as" "successively forward (map (fst \<circ> fst) (a # as))"
    "fst (fst (fst a)) < 2 ^ 16" "snd (fst (fst a)) < 2 ^ 32" "list_all (\<lambda>b. snd (fst (fst b)) < 2 ^ 64 \<and> snd (fst b) \<noteq> []) (a # as)"
  shows "\<exists>r. readLoop (client_handlers env) (fresh_reader (s_client s)) (map ReadData chunks) = Blocked r
    \<and> own_events i (client r) = own_events i (s_client s)
        @ opus_frame i (snd (fst (fst a))) rate (fst a) (snd a) 0 # map2 (opus_after i (snd (fst (fst a))) rate) (a # as) as"
proof -
  have "receiving ch k i (opus_fresh pt rate) (s_client s)" using assms(2-6) reach_inv [OF assms(1)] by (simp add: receiving_def session_inv_def)
  from fresh_run [OF this assms(12,15-19,7-11), of src]
  have run: "own_events i (fold (unit_act (client_handlers env)) (map (sent_unit pt src ch) xs) (s_client s)) = own_events i (s_client s)
        @ opus_frame i (snd (fst (fst a))) rate (fst a) (snd a) 0 # map2 (opus_after i (snd (fst (fst a))) rate) (a # as) as"
    "\<forall>n \<le> length (map (sent_unit pt src ch) xs). \<not> c_closing (fold (unit_act (client_handlers env)) (take n (map (sent_unit pt src ch) xs)) (s_client s))"
    by (auto simp only: reports_def)
  have "ahead_bytes (fresh_reader (s_client s)) (map ReadData chunks) = concat ws"
    using assms(14) by (simp add: ahead_bytes_def fresh_reader_def event_bytes_def comp_def)
  from rtsp_stream.stream_delivered [OF assms(13) this, of "client_handlers env"] run show ?thesis
    by (auto simp: fresh_reader_def client_handlers_def)
qed

text \<open>A response, a packet, a frame on a channel nobody claimed and, two losses and a wrap of both counters later, another packet, read byte by byte.\<close>

theorem session_delivers_witness:
  "\<exists>s r w1 w2 w3 w4. session_reach open_env PreferTCP None s
    \<and> MarshalResponse (Some sample_response) = Inr w1 \<and> MarshalInterleaved 9 [0] = Inr w3
    \<and> MarshalInterleaved 4 (packet_wire (Header (packet_of 96 7 ((65535, 2 ^ 32 - 480), [1]))) [1]) = Inr w2
    \<and> MarshalInterleaved 4 (packet_wire (Header (packet_of 96 7 ((65538, 2 ^ 32 + 2400), [2, 3]))) [2, 3]) = Inr w4
    \<and> readLoop (client_handlers open_env) (fresh_reader (s_client s)) (map ReadData (map (\<lambda>b. [b]) (w1 @ w2 @ w3 @ w4))) = Blocked r
    \<and> own_events 0 (client r) =
      [EvFrame \<lparr>fr_TrackID = 0, fr_Data = [1], fr_RTPTime = 2 ^ 32 - 480, fr_PTS = 0, fr_ReceivedAt = 0, fr_SeqGap = 0\<rparr>,
       EvFrame \<lparr>fr_TrackID = 0, fr_Data = [2, 3], fr_RTPTime = 2400, fr_PTS = 60000000, fr_ReceivedAt = 2, fr_SeqGap = 2\<rparr>]"
proof -
  define p1 p2 :: "nat \<times> nat" where "p1 = (65535, 2 ^ 32 - 480)" and "p2 = (65538, 2 ^ 32 + 2400)"
  define xs where "xs = [Other (UResponse sample_response), Media p1 [1], Other (UFrame 9 [0]), Media p2 [2, 3]]"
  define a b :: arrival where "a = ((p1, [1]), 0)" and "b = ((p2, [2, 3]), 2)"
  obtain w1 where w1: "response_ok sample_response w1" using sample_response_ok by blast
  have len: "length (packet_wire (Header (packet_of 96 7 (q, data))) data) = 12 + length data" for q data
    by (simp add: packet_wire_def packet_of_def wire_def put16_def put32_def)
  obtain w2 w3 w4 where w: "MarshalInterleaved 4 (packet_wire (Header (packet_of 96 7 (p1, [1]))) [1]) = Inr w2"
    "MarshalInterleaved 9 [0] = Inr w3" "MarshalInterleaved 4 (packet_wire (Header (packet_of 96 7 (p2, [2, 3]))) [2, 3]) = Inr w4"
    using len by (simp add: MarshalInterleaved_def caps)
  obtain s tr where s: "session_reach open_env PreferTCP None s" "c_channelPairs (s_client s) = [\<lparr>CP_TrackID = 0, CP_RTP = 4, CP_RTCP = 5\<rparr>]"
    "newTrack 0 camera plain_options 5 = Some tr" "c_tracks (s_client s) = [tr]" "\<not> c_closing (s_client s)" "c_events (s_client s) = []"
    "c_ticks (s_client s) = 0" by (rule setup_session)
  have r: "distinct (concat (map pair_channels (c_channelPairs (s_client s))))" "c_channels (s_client s) = table_of (c_channelPairs (s_client s))"
    using reach_inv [OF s(1)] by (simp_all add: session_inv_def routing_ok_def)
  have ch: "c_channels (s_client s) 4 = Some \<lparr>cb_track = 0, cb_isRTCP = False\<rparr>" using r(2) table_of_lookup [OF r(1), of 4] s(2) by simp
  have tr: "opus_fresh 96 48000 tr" "tr_id tr = 0" "\<not> tr_discard tr"
    using newTrack_opus [OF s(3), of 96] s(3) by (auto simp: camera_def newTrack_def plain_options_def track0_def)
  have arr: "arrivals open_env (c_ticks (s_client s)) xs = [a, b]" by (simp add: xs_def s(7) a_def b_def open_env_def)
  have sent: "list_all2 unit_sent (map (sent_unit 96 7 4) xs) [w1, w2, w3, w4]" using w1 w by (simp add: xs_def)
  have bytes: "concat (map (\<lambda>b. [b]) (w1 @ w2 @ w3 @ w4)) = concat [w1, w2, w3, w4]" by (simp add: concat_map_singleton)
  have wrap: "(4294969696 :: u32) = 2400" by (rule word_unat_eq_iff [THEN iffD2]) simp
  have ok: "list_all (harmless_sent 4) xs" "successively forward (map (fst \<circ> fst) [a, b])"
    "list_all (\<lambda>b. snd (fst (fst b)) < 2 ^ 64 \<and> snd (fst b) \<noteq> []) [a, b]" "fst (fst (fst a)) < 2 ^ 16" "snd (fst (fst a)) < 2 ^ 32"
    by (simp_all add: xs_def a_def b_def p1_def p2_def forward_def)
  have env: "\<forall>n. env_write open_env n" "cb_OnFrame (env_callbacks open_env)" by (simp_all add: open_env_def)
  have fresh: "opus_fresh 96 48000 (c_tracks (s_client s) ! 0)" "\<not> tr_discard (c_tracks (s_client s) ! 0)" "tr_id (c_tracks (s_client s) ! 0) = 0"
    using tr s(4) by simp_all
  obtain r where r: "readLoop (client_handlers open_env) (fresh_reader (s_client s)) (map ReadData (map (\<lambda>b. [b]) (w1 @ w2 @ w3 @ w4))) = Blocked r"
    "own_events 0 (client r) = own_events 0 (s_client s) @ opus_frame 0 (snd p1) 48000 (p1, [1]) 0 0 # map2 (opus_after 0 (snd p1) 48000) [a, b] [b]"
    using session_delivers [OF s(1,5) ch fresh env _ _ _ ok(1) sent bytes arr ok(2,4,5,3)] by (auto simp: a_def)
  have "own_events 0 (client r) =
      [EvFrame \<lparr>fr_TrackID = 0, fr_Data = [1], fr_RTPTime = 2 ^ 32 - 480, fr_PTS = 0, fr_ReceivedAt = 0, fr_SeqGap = 0\<rparr>,
       EvFrame \<lparr>fr_TrackID = 0, fr_Data = [2, 3], fr_RTPTime = 2400, fr_PTS = 60000000, fr_ReceivedAt = 2, fr_SeqGap = 2\<rparr>]"
    unfolding r(2) by (simp add: own_events_def s(6) opus_frame_def opus_after_def a_def b_def p1_def p2_def caps wrap)
  then show ?thesis using s(1) w1 w r(1) unfolding p1_def p2_def response_ok_def by blast
qed

end
