(* ===== verification/UDP_Delivery.thy ===== *)
theory UDP_Delivery
  imports RTSP_Delivery
begin

text \<open>
  The UDP receive path end to end: datagrams that arrive in another order than they were sent, forged and malformed ones between them, come
  out of the resequencer and the pipeline as the frames that were sent.
\<close>

section \<open>The sender's packets\<close>

text \<open>Packet number \<open>e\<close> of a source has timestamp \<open>ts e\<close> and payload \<open>data e\<close>.\<close>

definition numbered :: "(int \<Rightarrow> nat) \<Rightarrow> (int \<Rightarrow> bytes) \<Rightarrow> int \<Rightarrow> (nat \<times> nat) \<times> bytes" where
  "numbered ts data e = ((nat e, ts e), data e)"

definition wire_bytes :: "byte \<Rightarrow> u32 \<Rightarrow> (int \<Rightarrow> nat) \<Rightarrow> (int \<Rightarrow> bytes) \<Rightarrow> int \<Rightarrow> bytes" where
  "wire_bytes pt src ts data e = packet_wire (Header (packet_of pt src (numbered ts data e))) (data e)"

definition flow :: "int \<Rightarrow> nat \<Rightarrow> (int \<Rightarrow> nat) \<Rightarrow> (int \<Rightarrow> bytes) \<Rightarrow> bool" where
  "flow a n ts data \<longleftrightarrow> 0 \<le> a \<and> a < 2 ^ 16 \<and> ts a < 2 ^ 32
     \<and> list_all (\<lambda>e. data e \<noteq> [] \<and> ts e < 2 ^ 64 \<and> ts a \<le> ts e \<and> (e = a \<or> ts (e - 1) \<le> ts e \<and> ts e - ts (e - 1) < 2 ^ 31)) [a..a + int n - 1]"

text \<open>What arrives: a packet, or noise that is forged or does not parse.\<close>

datatype arrives = Pkt "bytes option" int | Noise datagram

fun read_of :: "(int \<Rightarrow> bytes) \<Rightarrow> arrives \<Rightarrow> media_read" where
  "read_of pay (Pkt addr e) = Got \<lparr>dg_addr = addr, dg_data = pay e\<rparr>"
| "read_of pay (Noise d) = Got d"

fun numbers :: "arrives list \<Rightarrow> int list" where
  "numbers [] = []"
| "numbers (Pkt addr e # xs) = e # numbers xs"
| "numbers (Noise d # xs) = numbers xs"

fun acceptable :: "bytes \<Rightarrow> arrives \<Rightarrow> bool" where
  "acceptable ip (Pkt addr e) \<longleftrightarrow> fromPeer addr ip \<and> 0 \<le> e"
| "acceptable ip (Noise d) \<longleftrightarrow> \<not> fromPeer (dg_addr d) ip \<or> (case ParsePacket (dg_data d) of Some (Inl e) \<Rightarrow> True | _ \<Rightarrow> False)"

fun untimed :: "event \<Rightarrow> event" where
  "untimed (EvFrame f) = EvFrame (f\<lparr>fr_ReceivedAt := 0\<rparr>)"
| "untimed (EvCodec i c) = EvCodec i c"

definition plain_frame :: "int \<Rightarrow> int \<Rightarrow> int \<Rightarrow> (int \<Rightarrow> nat) \<Rightarrow> (int \<Rightarrow> bytes) \<Rightarrow> int \<Rightarrow> event" where
  "plain_frame i a rate ts data e = opus_frame i (ts a) rate (numbered ts data e) 0 0"

lemma untimed_frame [simp]: "untimed (opus_frame i t0 rate p now g) = opus_frame i t0 rate p 0 g"
  by (simp add: opus_frame_def)

lemma plain_frame_track: "ev_track (untimed e) = ev_track e" "ev_track (plain_frame i a rate ts data n) = i"
  by (cases e) (simp_all add: plain_frame_def opus_frame_def)

lemma counters_id [simp]:
  "tr_id (count_wire now m tr) = tr_id tr" "tr_id (count_drops x y tr) = tr_id tr" "tr_id (count_malformed tr) = tr_id tr" "tr_id (count_filtered tr) = tr_id tr"
  by (simp_all add: count_wire_def count_drops_def count_malformed_def count_filtered_def)

text \<open>An Opus track that has got every packet before \<open>b\<close>.\<close>

definition opus_at :: "byte \<Rightarrow> u32 \<Rightarrow> int \<Rightarrow> int \<Rightarrow> (int \<Rightarrow> nat) \<Rightarrow> int \<Rightarrow> track \<Rightarrow> bool" where
  "opus_at pt src rate a ts b tr \<longleftrightarrow> a \<le> b \<and> (if b = a then opus_fresh pt rate tr else opus_running pt src (ts a) rate (nat (b - 1), ts (b - 1)) tr)"

lemma opus_at_counters:
  "opus_at pt src rate a ts b (count_wire now m tr) = opus_at pt src rate a ts b tr"
  "opus_at pt src rate a ts b (count_drops x y tr) = opus_at pt src rate a ts b tr"
  "opus_at pt src rate a ts b (count_malformed tr) = opus_at pt src rate a ts b tr"
  "opus_at pt src rate a ts b (count_filtered tr) = opus_at pt src rate a ts b tr"
  by (simp_all add: opus_at_def opus_fresh_def opus_running_def count_wire_def count_drops_def count_malformed_def count_filtered_def)

lemma flow_at:
  assumes "flow a n ts data" "a \<le> e" "e < a + int n"
  shows "data e \<noteq> []" "ts e < 2 ^ 64" "ts a \<le> ts e" "e \<noteq> a \<Longrightarrow> forward (nat (e - 1), ts (e - 1)) (nat e, ts e)"
proof -
  have "e \<in> set [a..a + int n - 1]" using assms(2,3) by simp
  then have "data e \<noteq> [] \<and> ts e < 2 ^ 64 \<and> ts a \<le> ts e \<and> (e = a \<or> ts (e - 1) \<le> ts e \<and> ts e - ts (e - 1) < 2 ^ 31)"
    using assms(1) unfolding flow_def list_all_iff by blast
  moreover have "0 \<le> a" using assms(1) by (simp add: flow_def)
  ultimately show "data e \<noteq> []" "ts e < 2 ^ 64" "ts a \<le> ts e" "e \<noteq> a \<Longrightarrow> forward (nat (e - 1), ts (e - 1)) (nat e, ts e)"
    using assms(2) by (auto simp: forward_def nat_diff_distrib)
qed

lemma opus_at_step:
  assumes "opus_at pt src rate a ts b tr" "flow a n ts data" "b < a + int n" "cb_OnFrame cb" "0 < rate" "rate < 2 ^ 32"
  shows "\<exists>e tr'. process cb (packet_of pt src (numbered ts data b)) now tr = Some (True, [e], tr')
    \<and> untimed e = plain_frame (tr_id tr) a rate ts data b \<and> opus_at pt src rate a ts (b + 1) tr' \<and> tr_id tr' = tr_id tr"
proof (cases "b = a")
  case True
  have "a < 2 ^ 16" "0 \<le> a" "ts a < 2 ^ 32" using assms(2) by (simp_all add: flow_def)
  then have "nat a < 65536" "ts a < 2 ^ 32" "0 \<le> a" by simp_all
  then show ?thesis
    using opus_first [of pt rate tr "(nat a, ts a)" "data a" cb src now] assms True flow_at(1) [OF assms(2), of a]
    by (auto simp: opus_at_def numbered_def plain_frame_def)
next
  case False
  have b: "a \<le> b" "opus_running pt src (ts a) rate (nat (b - 1), ts (b - 1)) tr" using assms(1) False by (simp_all add: opus_at_def)
  note f = flow_at [OF assms(2) b(1) assms(3)]
  have "0 \<le> a" using assms(2) by (simp add: flow_def)
  then have "nat b - nat (b - 1) - 1 = 0" by simp
  then show ?thesis
    using opus_step [OF b(2) f(4) [OF False], of "data b" cb now] f(1-3) assms(4-6) b(1)
    by (auto simp: opus_at_def numbered_def plain_frame_def)
qed

lemma parse_numbered: "pt AND 0x7f = pt \<Longrightarrow> ParsePacket (wire_bytes pt src ts data e) = ok (packet_of pt src (numbered ts data e))"
  using ParsePacket_wire [of "Header (packet_of pt src (numbered ts data e))" "data e"]
  by (simp add: wire_bytes_def packet_of_def wire_def caps numbered_def)

definition rel :: "(int \<Rightarrow> bytes) \<Rightarrow> int \<Rightarrow> released" where
  "rel pay e = \<lparr>Seq = word_of_int e, RPayload = pay e\<rparr>"

lemma drain_opus:
  assumes "opus_at pt src rate a ts b tr" "flow a n ts data" "b \<le> c" "c \<le> a + int n" "cb_OnFrame cb" "0 < rate" "rate < 2 ^ 32" "pt AND 0x7f = pt"
  shows "\<exists>evs tr'. drainReleased cb (map (rel (wire_bytes pt src ts data)) [b..c - 1]) now tr = Some (evs, tr')
    \<and> map untimed evs = map (plain_frame (tr_id tr) a rate ts data) [b..c - 1] \<and> opus_at pt src rate a ts c tr' \<and> tr_id tr' = tr_id tr"
  using assms(1,3)
proof (induction "nat (c - b)" arbitrary: b tr)
  case (Suc m)
  then have b: "b < c" "m = nat (c - (b + 1))" by simp_all
  obtain e tr1 where e: "process cb (packet_of pt src (numbered ts data b)) now tr = Some (True, [e], tr1)"
    "untimed e = plain_frame (tr_id tr) a rate ts data b" "opus_at pt src rate a ts (b + 1) tr1" "tr_id tr1 = tr_id tr"
    using opus_at_step [OF Suc.prems(1) assms(2) _ assms(5-7)] b(1) assms(4) by fastforce
  moreover obtain evs tr' where "drainReleased cb (map (rel (wire_bytes pt src ts data)) [b + 1..c - 1]) now tr1 = Some (evs, tr')"
    "map untimed evs = map (plain_frame (tr_id tr) a rate ts data) [b + 1..c - 1]" "opus_at pt src rate a ts c tr'" "tr_id tr' = tr_id tr"
    using Suc.hyps(1) [OF b(2) e(3)] b(1) e(4) by auto
  moreover have "[b..c - 1] = b # [b + 1..c - 1]" using b(1) by (simp add: upto_rec1)
  ultimately show ?case by (simp add: parse_numbered [OF assms(8)] rel_def)
qed simp

section \<open>The receive loop\<close>

definition udp_receiving :: "nat \<Rightarrow> int \<Rightarrow> (track \<Rightarrow> bool) \<Rightarrow> rtsp_client \<Rightarrow> bool" where
  "udp_receiving k i P c \<longleftrightarrow> k < length (c_tracks c) \<and> \<not> c_closing c \<and> tr_id (c_tracks c ! k) = i \<and> P (c_tracks c ! k)"

lemma own_events_append: "own_events i (c\<lparr>c_events := c_events c' @ evs\<rparr>) = filter (\<lambda>e. ev_track e = i) (c_events c') @ filter (\<lambda>e. ev_track e = i) evs"
  by (simp add: own_events_def)

lemma plain_owner: "map untimed evs = map (plain_frame i a rate ts data) es \<Longrightarrow> filter (\<lambda>e. ev_track e = i) evs = evs"
proof -
  assume m: "map untimed evs = map (plain_frame i a rate ts data) es"
  have "ev_track e = i" if "e \<in> set evs" for e
  proof -
    have "untimed e \<in> set (map (plain_frame i a rate ts data) es)" using that unfolding m [symmetric] by simp
    then show ?thesis using plain_frame_track(1) [of e] plain_frame_track(2) by auto
  qed
  then show ?thesis by (simp add: filter_id_conv)
qed

lemma rtp_datagram_eq:
  "rtp_datagram env k ip d rr c = (let c1 = c\<lparr>c_ticks := Suc (c_ticks c), c_lastFrameAt := env_clock env (c_ticks c)\<rparr>;
        tr = count_wire (env_clock env (c_ticks c)) (length (dg_data d)) (c_tracks c ! k) in
      if \<not> fromPeer (dg_addr d) ip then (rr, set_track k (count_filtered (c_tracks c ! k)) c)
      else case ParsePacket (dg_data d) of
             None \<Rightarrow> (rr, recoverReceiver c1)
           | Some (Inl e) \<Rightarrow> (rr, set_track k (count_malformed tr) c1)
           | Some (Inr pkt) \<Rightarrow>
               (case resequence (env_callbacks env) pkt (dg_data d) (env_clock env (c_ticks c)) rr tr of
                  None \<Rightarrow> (rr, recoverReceiver c1)
                | Some (rr, evs, tr) \<Rightarrow> (rr, (set_track k tr c1)\<lparr>c_events := c_events c @ evs\<rparr>)))"
  by (simp add: rtp_datagram_def now_of_def Let_def split: option.split sum.split prod.split)

lemma noise_read:
  assumes "udp_receiving k i (opus_at pt src rate a ts b) c" "acceptable ip (Noise d)" "rtp_datagram env k ip d rr c = (rr', c')"
  shows "udp_receiving k i (opus_at pt src rate a ts b) c'" "own_events i c' = own_events i c" "rr' = rr"
  using assms by (auto simp: rtp_datagram_eq Let_def udp_receiving_def set_track_def own_events_def opus_at_counters split: if_splits option.splits sum.splits)

lemma packet_read:
  assumes "udp_receiving k i (opus_at pt src rate a ts b) c" "acceptable ip (Pkt addr e)" "rr_haveSSRC rr \<longrightarrow> rr_lastSSRC rr = src"
    "Push (rr_reorder rr) (word_of_int e, wire_bytes pt src ts data e) = (map (rel (wire_bytes pt src ts data)) [b..c0 - 1], r')"
    "flow a n ts data" "b \<le> c0" "c0 \<le> a + int n" "cb_OnFrame (env_callbacks env)" "0 < rate" "rate < 2 ^ 32" "pt AND 0x7f = pt"
  shows "\<exists>c'. rtp_datagram env k ip \<lparr>dg_addr = addr, dg_data = wire_bytes pt src ts data e\<rparr> rr c = (\<lparr>rr_reorder = r', rr_lastSSRC = src, rr_haveSSRC = True\<rparr>, c')
    \<and> udp_receiving k i (opus_at pt src rate a ts c0) c'
    \<and> map untimed (own_events i c') = map untimed (own_events i c) @ map (plain_frame i a rate ts data) [b..c0 - 1]"
proof -
  define tr where "tr = count_drops (late (rr_reorder rr)) (late r') (count_wire (env_clock env (c_ticks c)) (length (wire_bytes pt src ts data e)) (c_tracks c ! k))"
  have tr: "opus_at pt src rate a ts b tr" "tr_id tr = i" using assms(1) by (simp_all add: tr_def udp_receiving_def opus_at_counters)
  obtain evs tr' where d: "drainReleased (env_callbacks env) (map (rel (wire_bytes pt src ts data)) [b..c0 - 1]) (env_clock env (c_ticks c)) tr = Some (evs, tr')"
    "map untimed evs = map (plain_frame i a rate ts data) [b..c0 - 1]" "opus_at pt src rate a ts c0 tr'" "tr_id tr' = i"
    using drain_opus [OF tr(1) assms(5-11)] tr(2) by blast
  have hd: "SSRC (Header (packet_of pt src (numbered ts data e))) = src" "SequenceNumber (Header (packet_of pt src (numbered ts data e))) = word_of_int e"
    using assms(2) by (simp_all add: packet_of_def wire_def numbered_def)
  have "source_flush src rr = ([], rr_reorder rr)" using assms(3) by (auto simp: source_flush_def)
  then have "resequence (env_callbacks env) (packet_of pt src (numbered ts data e)) (wire_bytes pt src ts data e) (env_clock env (c_ticks c)) rr
      (count_wire (env_clock env (c_ticks c)) (length (wire_bytes pt src ts data e)) (c_tracks c ! k))
      = Some (\<lparr>rr_reorder = r', rr_lastSSRC = src, rr_haveSSRC = True\<rparr>, evs, tr')"
    using d(1) assms(4) by (simp add: resequence_def hd tr_def)
  then show ?thesis using assms(1,2) parse_numbered [OF assms(11), of src ts data e] d(2-4) plain_owner [OF d(2)]
    by (simp add: rtp_datagram_eq udp_receiving_def set_track_def own_events_def)
qed

lemma upto_prefix:
  assumes "xs @ ys = map f [b..d - 1]" "b \<le> d"
  obtains c where "b \<le> c" "c \<le> d" "xs = map f [b..c - 1]" "ys = map f [c..d - 1]"
proof
  have len: "length xs \<le> nat (d - b)" using arg_cong [OF assms(1), of length] by simp
  define c where "c = b + int (length xs)"
  have c: "b \<le> c" "c \<le> d" using len assms(2) by (simp_all add: c_def)
  have split: "[b..d - 1] = [b..c - 1] @ [c..d - 1]"
  proof (cases "c = d")
    case False
    then show ?thesis using c upto_split1 [of b c "d - 1"] by simp
  qed simp
  have "length xs = length (map f [b..c - 1])" by (simp add: c_def)
  then show "xs = map f [b..b + int (length xs) - 1]" "ys = map f [b + int (length xs)..d - 1]"
    using assms(1) unfolding split c_def by (simp_all add: append_eq_append_conv)
qed (use assms in \<open>auto dest: arg_cong [of _ _ length]\<close>)

lemma udp_run:
  assumes "udp_receiving k i (opus_at pt src rate a ts b) c" "list_all (acceptable ip) xs" "rr_haveSSRC rr \<longrightarrow> rr_lastSSRC rr = src"
    "concat (fst (run Push (rr_reorder rr) (map (\<lambda>e. (word_of_int e, wire_bytes pt src ts data e)) (numbers xs)))) = map (rel (wire_bytes pt src ts data)) [b..d - 1]"
    "b \<le> d" "d \<le> a + int n" "flow a n ts data" "cb_OnFrame (env_callbacks env)" "0 < rate" "rate < 2 ^ 32" "pt AND 0x7f = pt"
  shows "map untimed (own_events i (snd (runRTPReceiver env k ip (map (read_of (wire_bytes pt src ts data)) xs) rr c)))
    = map untimed (own_events i c) @ map (plain_frame i a rate ts data) [b..d - 1]"
  using assms(1-5)
proof (induction xs arbitrary: rr c b)
  case Nil
  then show ?case by simp
next
  case (Cons x xs)
  have open': "\<not> c_closing c" using Cons.prems(1) by (simp add: udp_receiving_def)
  show ?case
  proof (cases x)
    case (Noise dg)
    obtain rr' c' where r: "rtp_datagram env k ip dg rr c = (rr', c')" by fastforce
    note n = noise_read [OF Cons.prems(1) _ r]
    show ?thesis using Cons.IH [of b c' rr] n Cons.prems(2-5) open' r by (simp add: Noise)
  next
    case (Pkt addr e)
    obtain out r' where p: "Push (rr_reorder rr) (word_of_int e, wire_bytes pt src ts data e) = (out, r')" by fastforce
    have out: "out @ concat (fst (run Push r' (map (\<lambda>e. (word_of_int e, wire_bytes pt src ts data e)) (numbers xs)))) = map (rel (wire_bytes pt src ts data)) [b..d - 1]"
      using Cons.prems(4) p by (simp add: Pkt split: prod.splits)
    obtain m where m: "b \<le> m" "m \<le> d" "out = map (rel (wire_bytes pt src ts data)) [b..m - 1]"
      "concat (fst (run Push r' (map (\<lambda>e. (word_of_int e, wire_bytes pt src ts data e)) (numbers xs)))) = map (rel (wire_bytes pt src ts data)) [m..d - 1]"
      by (rule upto_prefix [OF out Cons.prems(5)])
    have ok: "acceptable ip (Pkt addr e)" "m \<le> a + int n" using Cons.prems(2) m(2) assms(6) Pkt by simp_all
    obtain c' where c': "rtp_datagram env k ip \<lparr>dg_addr = addr, dg_data = wire_bytes pt src ts data e\<rparr> rr c = (\<lparr>rr_reorder = r', rr_lastSSRC = src, rr_haveSSRC = True\<rparr>, c')"
      "udp_receiving k i (opus_at pt src rate a ts m) c'"
      "map untimed (own_events i c') = map untimed (own_events i c) @ map (plain_frame i a rate ts data) [b..m - 1]"
      using packet_read [OF Cons.prems(1) ok(1) Cons.prems(3) p [unfolded m(3)] assms(7) m(1) ok(2) assms(8-11)] by blast
    have "[b..d - 1] = [b..m - 1] @ [m..d - 1]"
      using m(1,2) upto_split1 [of b m "d - 1"] by (cases "m = d") simp_all
    then show ?thesis using Cons.IH [OF c'(2), of "\<lparr>rr_reorder = r', rr_lastSSRC = src, rr_haveSSRC = True\<rparr>"] Cons.prems(2) m(2,4) c'(1,3) open'
      by (simp add: Pkt)
  qed
qed

lemma runRTPReceiver_ok:
  assumes "client_ok c" "k < length (c_tracks c)"
  shows "client_ok (snd (runRTPReceiver env k ip reads rr c))"
  using assms
proof (induction reads arbitrary: rr c)
  case (Cons ev evs)
  show ?case
  proof (cases ev)
    case (Failed e)
    have "classifyReadErr (client_handlers env) e c \<noteq> ReaderPanic" by (simp add: classifyReadErr_def)
    then show ?thesis using Cons.prems(1) client_ok_shutdown [OF Cons.prems(1)] Failed by (simp add: classifyMediaReadErr_def)
  next
    case (Got d)
    obtain rr' c' where r: "rtp_datagram env k ip d rr c = (rr', c')" by fastforce
    have q: "quiet c c'" using quiet_rtp_datagram [OF Cons.prems, of env ip d rr] r by simp
    then have "map fixed (c_tracks c') = map fixed (c_tracks c)" by (simp add: quiet_def routing_def)
    then have "length (c_tracks c') = length (c_tracks c)" by (rule map_eq_imp_length_eq)
    then show ?thesis using Cons.IH [OF quietD [OF q], of rr'] Cons.prems r Got by simp
  qed
qed simp

text \<open>
  C2. UDP end to end: let the packets \<open>a\<close> to \<open>a + n - 1\<close> of an Opus source arrive in any order that starts with \<open>a\<close> and in which none is
  overtaken by one \<open>MaxReorderWindow\<close> or more ahead of it, 16-bit sequence numbers and 32-bit timestamps wrapping, with forged datagrams from
  other hosts and malformed ones from anywhere in between. Then, in any state a session can get into, the receiver of a track that has
  received nothing yet hands the application exactly one frame per packet, in sending order, with its payload, RTP time and
  exact presentation time and no loss.
\<close>

theorem udp_delivers:
  assumes "session_reach env pref peer s" "\<not> c_closing (s_client s)" "k < length (c_tracks (s_client s))"
    "opus_fresh pt rate (c_tracks (s_client s) ! k)" "tr_id (c_tracks (s_client s) ! k) = i"
    "cb_OnFrame (env_callbacks env)" "pt AND 0x7f = pt" "0 < rate" "rate < 2 ^ 32" "flow a n ts data" "list_all (acceptable ip) xs"
    "numbers xs = a # es" "distinct (a # es)" "set (a # es) = {a..<a + int n}" "sorted_wrt (\<lambda>x y. x < y + MaxReorderWindow) (a # es)"
  shows "list_all track_ok (c_tracks (snd (runRTPReceiver env k ip (map (read_of (wire_bytes pt src ts data)) xs) rtp_receiver0 (s_client s))))
    \<and> map untimed (own_events i (snd (runRTPReceiver env k ip (map (read_of (wire_bytes pt src ts data)) xs) rtp_receiver0 (s_client s))))
    = map untimed (own_events i (s_client s)) @ map (plain_frame i a rate ts data) [a..a + int n - 1]"
proof -
  have start: "udp_receiving k i (opus_at pt src rate a ts a) (s_client s)" using assms(2-5) by (simp add: udp_receiving_def opus_at_def)
  have "concat (fst (run Push (rr_reorder rtp_receiver0) (map (\<lambda>e. (word_of_int e, wire_bytes pt src ts data e)) (numbers xs))))
      = map (rel (wire_bytes pt src ts data)) [a..a + int n - 1]"
    using Push_window_order [OF assms(13-15), of "wire_bytes pt src ts data"] unfolding assms(12) rtp_receiver0_def rel_def by (simp del: run_Cons)
  from udp_run [OF start assms(11) _ this _ _ assms(10,6,8,9,7)]
  have "map untimed (own_events i (snd (runRTPReceiver env k ip (map (read_of (wire_bytes pt src ts data)) xs) rtp_receiver0 (s_client s))))
    = map untimed (own_events i (s_client s)) @ map (plain_frame i a rate ts data) [a..a + int n - 1]"
    by (simp add: rtp_receiver0_def)
  moreover have "client_ok (s_client s)" using reach_inv [OF assms(1)] by (simp add: session_inv_def)
  ultimately show ?thesis using runRTPReceiver_ok assms(3) by (simp add: client_ok_def)
qed

text \<open>Four packets around the wrap of the sequence number arrive as first, fourth, second, third, with a forgery and a malformed datagram.\<close>

theorem udp_delivers_witness:
  "\<exists>s. session_reach open_env PreferUDP (Some [10, 0, 0, 1]) s \<and> c_tracks (s_client s) \<noteq> []
    \<and> map untimed (own_events 0 (snd (runRTPReceiver open_env 0 [10, 0, 0, 1]
          (map (read_of (wire_bytes 96 7 (\<lambda>e. nat (e - 65534) * 960) (\<lambda>e. [word_of_int (e - 65534)])))
            [Pkt (Some [10, 0, 0, 1]) 65534, Pkt (Some (v4InV6Prefix @ [10, 0, 0, 1])) 65537, Noise \<lparr>dg_addr = Some [10, 0, 0, 9], dg_data = [128]\<rparr>,
             Pkt (Some [10, 0, 0, 1]) 65535, Noise \<lparr>dg_addr = Some [10, 0, 0, 1], dg_data = []\<rparr>, Pkt (Some [10, 0, 0, 1]) 65536]) rtp_receiver0 (s_client s))))
      = map (\<lambda>(d, t). EvFrame \<lparr>fr_TrackID = 0, fr_Data = d, fr_RTPTime = t, fr_PTS = uint t * 10 ^ 9 div 48000, fr_ReceivedAt = 0, fr_SeqGap = 0\<rparr>)
          [([0], 0), ([1], 960), ([2], 1920), ([3], 2880)]"
proof -
  obtain s tr where s: "session_reach open_env PreferUDP (Some [10, 0, 0, 1]) s" "newTrack 0 camera plain_options 0 = Some tr" "c_tracks (s_client s) = [tr]"
    "\<not> c_closing (s_client s)" "c_events (s_client s) = []"
    by (rule udp_session)
  define ts :: "int \<Rightarrow> nat" where "ts = (\<lambda>e. nat (e - 65534) * 960)"
  define data :: "int \<Rightarrow> bytes" where "data = (\<lambda>e. [word_of_int (e - 65534)])"
  define xs where "xs = [Pkt (Some [10, 0, 0, 1 :: byte]) 65534, Pkt (Some (v4InV6Prefix @ [10, 0, 0, 1])) 65537, Noise \<lparr>dg_addr = Some [10, 0, 0, 9], dg_data = [128]\<rparr>,
             Pkt (Some [10, 0, 0, 1]) 65535, Noise \<lparr>dg_addr = Some [10, 0, 0, 1], dg_data = []\<rparr>, Pkt (Some [10, 0, 0, 1]) 65536]"
  have upto: "[65534..65537 :: int] = [65534, 65535, 65536, 65537]" by (simp add: upto_rec1)
  have tr: "opus_fresh 96 48000 tr" "tr_id tr = 0" using newTrack_opus [OF s(2), of 96] by (simp_all add: camera_def)
  have flow: "flow 65534 4 ts data" by (simp add: flow_def upto ts_def data_def)
  have ok: "list_all (acceptable [10, 0, 0, 1]) xs" by (simp add: xs_def fromPeer_def ip_equal_def v4InV6Prefix_def ParsePacket_def caps)
  have es: "numbers xs = 65534 # [65537, 65535, 65536]" "set (65534 # [65537, 65535, 65536]) = {65534..<65534 + int 4}" by (auto simp: xs_def)
  have "map untimed (own_events 0 (snd (runRTPReceiver open_env 0 [10, 0, 0, 1] (map (read_of (wire_bytes 96 7 ts data)) xs) rtp_receiver0 (s_client s))))
      = map (plain_frame 0 65534 48000 ts data) [65534..65534 + int 4 - 1]"
    using udp_delivers [OF s(1,4) _ _ _ _ _ _ _ flow ok es(1) _ es(2), of 0 96 48000 0 7] s(3,5) tr
    by (simp add: open_env_def own_events_def caps)
  then show ?thesis using s(1,3) unfolding ts_def data_def xs_def
    by (intro exI [of _ s]) (simp add: upto plain_frame_def opus_frame_def numbered_def caps)
qed

end
