(* ===== verification/MP4.thy ===== *)
theory MP4
  imports Strings
begin

text \<open>
  The fragmented MP4 reader of \<open>src/internal/mp4/mp4.go\<close> and the demuxer on top of it (\<open>src/hlssource/fmp4demux.go\<close>). A closure passed to \<open>eachBox\<close> is a
  function on the variables it captures, which says whether the walk goes on; none of the closures returns any other error, so an error of the walk is always one
  of its own, and what a closure did before it stays done. Samples handed to \<open>onSample\<close> are appended to a list; the demuxer's callback cannot fail.
\<close>

section \<open>Boxes\<close>

datatype mp4_error = ErrNoAudioTrack | ErrNoASC | ErrUnsupportedSampleEntry | ErrMalformedBox | ErrShortMdat

record boxSpan =
  box_typ :: bytes
  box_start :: nat
  bodyOff :: nat
  bodyEnd :: nat

datatype 's walk = Continue 's | Stop 's

definition box_at :: "bytes \<Rightarrow> nat \<Rightarrow> (mp4_error, boxSpan) go" where
  "box_at data off = do {
     size \<leftarrow> u32be data off;
     t \<leftarrow> slice data (off + 4) (off + 8);
     if size = 0 then ok \<lparr>box_typ = t, box_start = off, bodyOff = off + 8, bodyEnd = off + (length data - off)\<rparr>
     else if size = 1 then
       if off + 16 > length data then err ErrMalformedBox
       else do {
         large \<leftarrow> u64be data (off + 8);
         if unat large < 16 \<or> unat large > length data - off then err ErrMalformedBox
         else ok \<lparr>box_typ = t, box_start = off, bodyOff = off + 16, bodyEnd = off + unat large\<rparr> }
     else if unat size < 8 \<or> unat size > length data - off then err ErrMalformedBox
     else ok \<lparr>box_typ = t, box_start = off, bodyOff = off + 8, bodyEnd = off + unat size\<rparr> }"

definition box_span_ok :: "bytes \<Rightarrow> nat \<Rightarrow> boxSpan \<Rightarrow> bool" where
  "box_span_ok data off b \<longleftrightarrow> box_start b = off \<and> off + 8 \<le> bodyOff b \<and> bodyOff b \<le> bodyEnd b \<and> bodyEnd b \<le> length data"

lemma box_at_ok: "off + 8 \<le> length data \<Longrightarrow> go_sat (box_span_ok data off) (box_at data off)"
  by (auto simp: box_at_def sat_simps box_span_ok_def Let_def)

lemma span_progress: "box_span_ok data off b \<Longrightarrow> length data - bodyEnd b < length data - off"
  unfolding box_span_ok_def by linarith

function eachBox :: "bytes \<Rightarrow> (boxSpan \<Rightarrow> 's \<Rightarrow> 's walk option) \<Rightarrow> nat \<Rightarrow> 's \<Rightarrow> (mp4_error option \<times> 's) option" where
  "eachBox data fn off s =
     (if off + 8 \<le> length data then
        (case box_at data off of
           None \<Rightarrow> None
         | Some (Inl e) \<Rightarrow> Some (Some e, s)
         | Some (Inr b) \<Rightarrow>
             (case fn b s of
                None \<Rightarrow> None
              | Some (Stop s) \<Rightarrow> Some (None, s)
              | Some (Continue s) \<Rightarrow> eachBox data fn (bodyEnd b) s))
      else Some (None, s))"
  by pat_completeness auto
termination
proof (relation "measure (\<lambda>(data, fn, off, s). length data - off)", simp)
  fix data fn off b and s s' :: 's and r x w
  assume a: "off + 8 \<le> length data" "box_at data off = Some r" "r = Inr b"
  then have "box_span_ok data off b" using box_at_ok [OF a(1)] by (simp add: go_sat_def)
  then show "((data, fn, bodyEnd b, s'), data, fn, off, s) \<in> measure (\<lambda>(data, fn, off, s). length data - off)" using span_progress by simp
qed

declare eachBox.simps [simp del]

fun walk_state :: "'s walk \<Rightarrow> 's" where
  "walk_state (Continue s) = s"
| "walk_state (Stop s) = s"

text \<open>A walk does not panic, and keeps what its closure keeps.\<close>

lemma eachBox_inv:
  assumes step: "\<And>b s. box_span_ok data (box_start b) b \<Longrightarrow> I s \<Longrightarrow> \<exists>w. fn b s = Some w \<and> I (walk_state w)" and "I s"
  shows "\<exists>e s'. eachBox data fn off s = Some (e, s') \<and> I s'"
  using assms(2)
proof (induction "length data - off" arbitrary: off s rule: less_induct)
  case less
  show ?case
  proof (cases "off + 8 \<le> length data")
    case False
    then show ?thesis using less.prems by (subst eachBox.simps) simp
  next
    case True
    show ?thesis
    proof (cases "box_at data off" rule: go_cases)
      case Panic
      then show ?thesis using box_at_ok [OF True] by simp
    next
      case (Err e)
      then show ?thesis using less.prems True by (subst eachBox.simps) simp
    next
      case (Ok b)
      then have b: "box_span_ok data off b" using box_at_ok [OF True] by simp
      then obtain w where w: "fn b s = Some w" "I (walk_state w)" using step [of b s] less.prems by (auto simp: box_span_ok_def)
      show ?thesis
      proof (cases w)
        case (Continue s')
        then show ?thesis using less.hyps [of "bodyEnd b" s'] w span_progress [OF b] True Ok by (subst eachBox.simps) simp
      qed (use w True Ok in \<open>subst eachBox.simps, simp\<close>)
    qed
  qed
qed

definition firstChild :: "bytes \<Rightarrow> bytes \<Rightarrow> (mp4_error, bytes option) go" where
  "firstChild data t =
     (case eachBox data (\<lambda>b s. if box_typ b = t then map_option (\<lambda>body. Stop (Some body)) (slice data (bodyOff b) (bodyEnd b)) else Some (Continue s)) 0 None of
        None \<Rightarrow> None
      | Some (Some e, _) \<Rightarrow> err e
      | Some (None, body) \<Rightarrow> ok body)"

section \<open>The initialization segment\<close>

record AudioInit =
  ai_ASC :: bytes
  ai_Timescale :: u32
  ai_TrackID :: u32
  ai_DefaultSize :: u32
  ai_DefaultDur :: u32

definition trex_box :: "bytes \<Rightarrow> boxSpan \<Rightarrow> (u32 \<rightharpoonup> u32 \<times> u32) \<Rightarrow> (u32 \<rightharpoonup> u32 \<times> u32) walk option" where
  "trex_box mvex b out =
     (if box_typ b \<noteq> lit ''trex'' then Some (Continue out)
      else do {
        body \<leftarrow> slice mvex (bodyOff b) (bodyEnd b);
        if length body < 20 then Some (Continue out)
        else do {
          i \<leftarrow> u32be body 4; dur \<leftarrow> u32be body 12; size \<leftarrow> u32be body 16;
          Some (Continue (out(i \<mapsto> (dur, size)))) } })"

definition parseTrex :: "bytes \<Rightarrow> (mp4_error, u32 \<rightharpoonup> u32 \<times> u32) go" where
  "parseTrex moov =
     go_bind (firstChild moov (lit ''mvex'')) (\<lambda>mvex. case mvex of
        None \<Rightarrow> ok Map.empty
      | Some mvex \<Rightarrow>
          (case eachBox mvex (trex_box mvex) 0 Map.empty of
             None \<Rightarrow> None
           | Some (Some e, _) \<Rightarrow> err e
           | Some (None, out) \<Rightarrow> ok out))"

text \<open>The layouts of \<open>tkhd\<close> and \<open>mdhd\<close> agree up to the field the parsers read.\<close>

definition versioned_field :: "bytes \<Rightarrow> u32 option option" where
  "versioned_field body =
     (if length body < 4 then Some None
      else do {
        v \<leftarrow> idx body 0;
        let off = (if v = 1 then 4 + 8 + 8 else 4 + 4 + 4) in
        if off + 4 > length body then Some None else map_option Some (u32be body off) })"

definition parseTKHD :: "bytes \<Rightarrow> u32 option option" where
  "parseTKHD body = versioned_field body"

definition parseMDHD :: "bytes \<Rightarrow> u32 option option" where
  "parseMDHD body = versioned_field body"

definition parseHDLR :: "bytes \<Rightarrow> bytes option" where
  "parseHDLR body = (if length body < 12 then Some [] else slice body 8 12)"

definition parseMdia :: "bytes \<Rightarrow> (mp4_error, bytes \<times> u32 \<times> bytes option) go" where
  "parseMdia mdia =
     go_bind (firstChild mdia (lit ''mdhd'')) (\<lambda>mdhd.
     Option.bind (case mdhd of None \<Rightarrow> Some 0 | Some body \<Rightarrow> map_option (\<lambda>v. case v of None \<Rightarrow> 0 | Some t \<Rightarrow> t) (parseMDHD body)) (\<lambda>timescale.
     go_bind (firstChild mdia (lit ''hdlr'')) (\<lambda>hdlr.
     Option.bind (case hdlr of None \<Rightarrow> Some [] | Some body \<Rightarrow> parseHDLR body) (\<lambda>handler.
     go_bind (firstChild mdia (lit ''minf'')) (\<lambda>minf. case minf of
        None \<Rightarrow> ok (handler, timescale, None)
      | Some minf \<Rightarrow> go_bind (firstChild minf (lit ''stbl'')) (\<lambda>stbl. case stbl of
           None \<Rightarrow> ok (handler, timescale, None)
         | Some stbl \<Rightarrow> go_bind (firstChild stbl (lit ''stsd'')) (\<lambda>stsd. ok (handler, timescale, stsd))))))))"

text \<open>The length of a descriptor: at most four bytes of seven bits; \<open>size\<lless>7 | x\<close> is \<open>size * 128 + x\<close> since the low bits are clear.\<close>

fun desc_len :: "nat \<Rightarrow> bytes \<Rightarrow> nat \<Rightarrow> nat \<Rightarrow> (mp4_error, nat \<times> nat) go" where
  "desc_len 0 b i sz = ok (i, sz)"
| "desc_len (Suc n) b i sz =
     (if i \<ge> length b then err ErrMalformedBox
      else do {
        c \<leftarrow> idx b i;
        let sz = sz * 128 + unat (c AND 0x7F) in
        if c AND 0x80 = 0 then ok (i + 1, sz) else desc_len n b (i + 1) sz })"

definition readDescriptor :: "bytes \<Rightarrow> (mp4_error, byte \<times> bytes \<times> bytes) go" where
  "readDescriptor b =
     (if length b < 2 then err ErrMalformedBox
      else do {
        tag \<leftarrow> idx b 0;
        go_bind (desc_len 4 b 1 0) (\<lambda>(i, size).
          if i + size > length b then err ErrMalformedBox
          else do { content \<leftarrow> slice b i (i + size); rest \<leftarrow> slice b (i + size) (length b); ok (tag, content, rest) }) })"

definition tagESDescriptor :: byte where [caps]: "tagESDescriptor = 0x03"
definition tagDecoderConfig :: byte where [caps]: "tagDecoderConfig = 0x04"
definition tagDecoderSpecific :: byte where [caps]: "tagDecoderSpecific = 0x05"
definition objectTypeAAC :: byte where [caps]: "objectTypeAAC = 0x40"
definition decoderConfigFixed :: nat where [caps]: "decoderConfigFixed = 13"
definition esDescriptorMinFixed :: nat where [caps]: "esDescriptorMinFixed = 3"

text \<open>Any failure to read a descriptor of the expected tag is \<open>ErrNoASC\<close>.\<close>

definition descriptor_of :: "byte \<Rightarrow> bytes \<Rightarrow> (mp4_error, bytes) go" where
  "descriptor_of tag b = (case readDescriptor b of
     None \<Rightarrow> None | Some (Inl e) \<Rightarrow> err ErrNoASC | Some (Inr (t, content, rest)) \<Rightarrow> if t \<noteq> tag then err ErrNoASC else ok content)"

text \<open>The optional fields between the flags of an ES descriptor and its children.\<close>

definition es_fields :: "bytes \<Rightarrow> (mp4_error, nat) go" where
  "es_fields es = do {
     flags \<leftarrow> idx es 2;
     let off = esDescriptorMinFixed; off = (if flags AND 0x80 \<noteq> 0 then off + 2 else off) in
     if flags AND 0x40 \<noteq> 0 \<and> off \<ge> length es then err ErrNoASC
     else do {
       off \<leftarrow> (if flags AND 0x40 \<noteq> 0 then do { n \<leftarrow> idx es off; Some (off + (1 + unat n)) } else Some off);
       ok (if flags AND 0x20 \<noteq> 0 then off + 2 else off) } }"

definition parseESDS :: "bytes \<Rightarrow> (mp4_error, bytes) go" where
  "parseESDS esds =
     (if length esds < 4 then err ErrMalformedBox
      else do {
        b \<leftarrow> slice esds 4 (length esds);
        go_bind (descriptor_of tagESDescriptor b) (\<lambda>es.
          if length es < esDescriptorMinFixed then err ErrNoASC
          else go_bind (es_fields es) (\<lambda>off.
            if off > length es then err ErrNoASC
            else do {
              b \<leftarrow> slice es off (length es);
              go_bind (descriptor_of tagDecoderConfig b) (\<lambda>dcd.
                if length dcd < decoderConfigFixed then err ErrNoASC
                else do {
                  oti \<leftarrow> idx dcd 0;
                  if oti \<noteq> objectTypeAAC then err ErrUnsupportedSampleEntry
                  else do {
                    b \<leftarrow> slice dcd decoderConfigFixed (length dcd);
                    go_bind (descriptor_of tagDecoderSpecific b) (\<lambda>dsi. if dsi = [] then err ErrNoASC else ok dsi) } }) })) })"

definition audioSampleEntryLen :: nat where [caps]: "audioSampleEntryLen = 28"

definition parseMP4A :: "bytes \<Rightarrow> (mp4_error, bytes) go" where
  "parseMP4A body =
     (if length body < audioSampleEntryLen then err ErrMalformedBox
      else do {
        b \<leftarrow> slice body audioSampleEntryLen (length body);
        go_bind (firstChild b (lit ''esds'')) (\<lambda>esds. case esds of None \<Rightarrow> err ErrNoASC | Some esds \<Rightarrow> parseESDS esds) })"

record stsd_scan =
  sc_asc :: "bytes option"
  sc_entryErr :: "mp4_error option"
  sc_sawEncrypted :: bool
  sc_firstType :: "bytes option"

definition encrypted_types :: "bytes list" where
  "encrypted_types = map lit [''enca'', ''encv'', ''encs'', ''drms'', ''drmi'']"

definition stsd_entry :: "bytes \<Rightarrow> boxSpan \<Rightarrow> stsd_scan \<Rightarrow> stsd_scan walk option" where
  "stsd_entry entries b s =
     (let s = (if sc_firstType s = None then s\<lparr>sc_firstType := Some (box_typ b)\<rparr> else s) in
      if box_typ b = lit ''mp4a'' then do {
        body \<leftarrow> slice entries (bodyOff b) (bodyEnd b);
        (case parseMP4A body of
           None \<Rightarrow> None
         | Some (Inl e) \<Rightarrow> Some (Stop (s\<lparr>sc_entryErr := Some e\<rparr>))
         | Some (Inr a) \<Rightarrow> Some (Stop (s\<lparr>sc_asc := Some a\<rparr>))) }
      else if box_typ b \<in> set encrypted_types then Some (Continue (s\<lparr>sc_sawEncrypted := True\<rparr>))
      else Some (Continue s))"

definition parseSTSDForASC :: "bytes option \<Rightarrow> (mp4_error, bytes) go" where
  "parseSTSDForASC stsd =
     (case stsd of
        None \<Rightarrow> err ErrNoASC
      | Some stsd \<Rightarrow>
          if length stsd < 8 then err ErrMalformedBox
          else do {
            entries \<leftarrow> slice stsd 8 (length stsd);
            (case eachBox entries (stsd_entry entries) 0 \<lparr>sc_asc = None, sc_entryErr = None, sc_sawEncrypted = False, sc_firstType = None\<rparr> of
               None \<Rightarrow> None
             | Some (Some e, _) \<Rightarrow> err e
             | Some (None, s) \<Rightarrow>
                 (case sc_entryErr s of
                    Some e \<Rightarrow> err e
                  | None \<Rightarrow>
                      (case sc_asc s of
                         Some a \<Rightarrow> ok a
                       | None \<Rightarrow> if sc_sawEncrypted s \<or> sc_firstType s \<noteq> None then err ErrUnsupportedSampleEntry else err ErrNoASC))) })"

definition trak_box :: "bytes \<Rightarrow> boxSpan \<Rightarrow> u32 option \<times> bytes option \<Rightarrow> (u32 option \<times> bytes option) walk option" where
  "trak_box trak b s =
     (if box_typ b = lit ''tkhd'' then do {
        body \<leftarrow> slice trak (bodyOff b) (bodyEnd b);
        r \<leftarrow> parseTKHD body;
        Some (Continue (case r of None \<Rightarrow> s | Some i \<Rightarrow> (Some i, snd s))) }
      else if box_typ b = lit ''mdia'' then do {
        body \<leftarrow> slice trak (bodyOff b) (bodyEnd b);
        Some (Continue (fst s, Some body)) }
      else Some (Continue s))"

text \<open>\<open>None\<close> for a track that is not audio.\<close>

definition parseTrak :: "bytes \<Rightarrow> (mp4_error, AudioInit option) go" where
  "parseTrak trak =
     (case eachBox trak (trak_box trak) 0 (None, None) of
        None \<Rightarrow> None
      | Some (Some e, _) \<Rightarrow> err e
      | Some (None, trackID, mdia) \<Rightarrow>
          (case mdia of
             None \<Rightarrow> ok None
           | Some mdia \<Rightarrow> go_bind (parseMdia mdia) (\<lambda>(handler, timescale, stsd).
               if handler \<noteq> lit ''soun'' then ok None
               else case trackID of
                   None \<Rightarrow> err ErrMalformedBox
                 | Some i \<Rightarrow> go_bind (parseSTSDForASC stsd) (\<lambda>asc.
                     ok (Some \<lparr>ai_ASC = asc, ai_Timescale = timescale, ai_TrackID = i, ai_DefaultSize = 0, ai_DefaultDur = 0\<rparr>)))))"

definition init_box :: "bytes \<Rightarrow> boxSpan \<Rightarrow> (mp4_error + AudioInit) option \<Rightarrow> (mp4_error + AudioInit) option walk option" where
  "init_box moov b s =
     (if box_typ b \<noteq> lit ''trak'' then Some (Continue s)
      else do {
        body \<leftarrow> slice moov (bodyOff b) (bodyEnd b);
        (case parseTrak body of
           None \<Rightarrow> None
         | Some (Inl e) \<Rightarrow> Some (Stop (Some (Inl e)))
         | Some (Inr (Some info)) \<Rightarrow> Some (Stop (Some (Inr info)))
         | Some (Inr None) \<Rightarrow> Some (Continue s)) })"

definition ParseInit :: "bytes \<Rightarrow> (mp4_error, AudioInit) go" where
  "ParseInit data =
     go_bind (firstChild data (lit ''moov'')) (\<lambda>moov. case moov of
        None \<Rightarrow> err ErrMalformedBox
      | Some moov \<Rightarrow> go_bind (parseTrex moov) (\<lambda>trex.
          (case eachBox moov (init_box moov) 0 None of
             None \<Rightarrow> None
           | Some (Some e, _) \<Rightarrow> err e
           | Some (None, None) \<Rightarrow> err ErrNoAudioTrack
           | Some (None, Some (Inl e)) \<Rightarrow> err e
           | Some (None, Some (Inr ai)) \<Rightarrow>
               if ai_Timescale ai = 0 \<or> unat (ai_Timescale ai) > 2 ^ 31 - 1 then err ErrMalformedBox
               else (case trex (ai_TrackID ai) of
                   None \<Rightarrow> ok ai
                 | Some (dur, z) \<Rightarrow> ok (ai\<lparr>ai_DefaultDur := dur, ai_DefaultSize := z\<rparr>)))))"

section \<open>Media fragments\<close>

record mp4_sample =
  sm_Data :: bytes
  sm_Dur :: u32

text \<open>What has been delivered, and how much more the fragment may deliver.\<close>

record frag_out =
  fo_samples :: "mp4_sample list"
  fo_budget :: nat

definition guarded :: "mp4_sample \<Rightarrow> frag_out \<Rightarrow> mp4_error option \<times> frag_out" where
  "guarded s out =
     (if fo_budget out = 0 then (Some ErrMalformedBox, out)
      else (None, out\<lparr>fo_samples := fo_samples out @ [s], fo_budget := fo_budget out - 1\<rparr>))"

definition tfhdBaseDataOffset :: u32 where [caps]: "tfhdBaseDataOffset = 0x000001"
definition tfhdSampleDescIndex :: u32 where [caps]: "tfhdSampleDescIndex = 0x000002"
definition tfhdDefaultDuration :: u32 where [caps]: "tfhdDefaultDuration = 0x000008"
definition tfhdDefaultSize :: u32 where [caps]: "tfhdDefaultSize = 0x000010"

definition flags24 :: "bytes \<Rightarrow> u32 option" where
  "flags24 b = do { x \<leftarrow> idx b 1; y \<leftarrow> idx b 2; z \<leftarrow> idx b 3; Some (push_bit 16 (ucast x) OR push_bit 8 (ucast y) OR ucast z) }"

definition tfhdTrackID :: "bytes \<Rightarrow> u32 option option" where
  "tfhdTrackID tfhd = (if length tfhd < 8 then Some None else map_option Some (u32be tfhd 4))"

definition traf_search :: "bytes \<Rightarrow> u32 \<Rightarrow> boxSpan \<Rightarrow> (mp4_error + bytes) option \<Rightarrow> (mp4_error + bytes) option walk option" where
  "traf_search moof trackID b s =
     (if box_typ b \<noteq> lit ''traf'' then Some (Continue s)
      else do {
        body \<leftarrow> slice moof (bodyOff b) (bodyEnd b);
        (case firstChild body (lit ''tfhd'') of
           None \<Rightarrow> None
         | Some (Inl e) \<Rightarrow> Some (Stop (Some (Inl e)))
         | Some (Inr None) \<Rightarrow> Some (Continue s)
         | Some (Inr (Some tfhd)) \<Rightarrow> do {
             r \<leftarrow> tfhdTrackID tfhd;
             Some (if r = Some trackID then Stop (Some (Inr body)) else Continue s) }) })"

definition findAudioTraf :: "bytes \<Rightarrow> u32 \<Rightarrow> (mp4_error, bytes option) go" where
  "findAudioTraf moof trackID =
     (case eachBox moof (traf_search moof trackID) 0 None of
        None \<Rightarrow> None
      | Some (Some e, _) \<Rightarrow> err e
      | Some (None, None) \<Rightarrow> ok None
      | Some (None, Some (Inl e)) \<Rightarrow> err e
      | Some (None, Some (Inr body)) \<Rightarrow> ok (Some body))"

definition parseTFHD :: "bytes \<Rightarrow> nat \<Rightarrow> (mp4_error, int \<times> u32 \<times> u32 \<times> bool) go" where
  "parseTFHD tfhd moofStart =
     (if length tfhd < 8 then err ErrMalformedBox
      else do {
        flags \<leftarrow> flags24 tfhd;
        go_bind (if flags AND tfhdBaseDataOffset \<noteq> 0 then
             if 8 + 8 > length tfhd then err ErrMalformedBox
             else do {
               v \<leftarrow> u64be tfhd 8;
               if unat v > 2 ^ 31 - 1 then err ErrMalformedBox else ok (int (unat v), True, 16) }
           else ok (int moofStart, False, 8)) (\<lambda>(base, baseExplicit, off).
        go_bind (if flags AND tfhdSampleDescIndex \<noteq> 0 then if off + 4 > length tfhd then err ErrMalformedBox else ok (off + 4) else ok off) (\<lambda>off.
        go_bind (if flags AND tfhdDefaultDuration \<noteq> 0 then
             if off + 4 > length tfhd then err ErrMalformedBox else do { d \<leftarrow> u32be tfhd off; ok (d, off + 4) }
           else ok (0, off)) (\<lambda>(defDur, off).
        go_bind (if flags AND tfhdDefaultSize \<noteq> 0 then
             if off + 4 > length tfhd then err ErrMalformedBox else do { z \<leftarrow> u32be tfhd off; ok z }
           else ok 0) (\<lambda>defSize. ok (base, defDur, defSize, baseExplicit))))) })"

definition trunDataOffset :: u32 where [caps]: "trunDataOffset = 0x000001"
definition trunFirstSampleFlags :: u32 where [caps]: "trunFirstSampleFlags = 0x000004"
definition trunSampleDuration :: u32 where [caps]: "trunSampleDuration = 0x000100"
definition trunSampleSize :: u32 where [caps]: "trunSampleSize = 0x000200"
definition trunSampleFlags :: u32 where [caps]: "trunSampleFlags = 0x000400"
definition trunSampleCTO :: u32 where [caps]: "trunSampleCTO = 0x000800"

definition perSample :: "u32 \<Rightarrow> nat" where
  "perSample flags = (if flags AND trunSampleDuration \<noteq> 0 then 4 else 0) + (if flags AND trunSampleSize \<noteq> 0 then 4 else 0)
     + (if flags AND trunSampleFlags \<noteq> 0 then 4 else 0) + (if flags AND trunSampleCTO \<noteq> 0 then 4 else 0)"

text \<open>The fixed part of a \<open>trun\<close>: its flags, the sample count, the offset of the first record, the data pointer and whether it was given.\<close>

definition trun_header :: "bytes \<Rightarrow> int \<Rightarrow> int \<Rightarrow> bool \<Rightarrow> nat \<Rightarrow> (mp4_error, u32 \<times> nat \<times> nat \<times> int \<times> bool) go" where
  "trun_header trun base running located fragLen =
     (if length trun < 8 then err ErrMalformedBox
      else do {
        flags \<leftarrow> flags24 trun;
        sampleCount \<leftarrow> u32be trun 4;
        let hadOffset = (flags AND trunDataOffset \<noteq> 0) in
        go_bind (if hadOffset then
             if 8 + 4 > length trun then err ErrMalformedBox
             else do { dataOffset \<leftarrow> u32be trun 8; ok (12, base + sint dataOffset) }
           else if \<not> located then err ErrMalformedBox else ok (8, running)) (\<lambda>(off, dataPtr).
        go_bind (if flags AND trunFirstSampleFlags \<noteq> 0 then if off + 4 > length trun then err ErrMalformedBox else ok (off + 4) else ok off) (\<lambda>off.
          let remaining = length trun - off in
          if (if perSample flags > 0 then unat sampleCount > remaining div perSample flags else unat sampleCount > fragLen) then err ErrMalformedBox
          else ok (flags, unat sampleCount, off, dataPtr, hadOffset))) })"

fun trun_samples :: "nat \<Rightarrow> u32 \<Rightarrow> bytes \<Rightarrow> u32 \<Rightarrow> u32 \<Rightarrow> bytes \<Rightarrow> nat \<Rightarrow> int \<Rightarrow> frag_out \<Rightarrow> ((mp4_error + int \<times> bool) \<times> frag_out) option" where
  "trun_samples 0 flags trun defDur defSize frag off dataPtr out = Some (Inr (dataPtr, False), out)"
| "trun_samples (Suc n) flags trun defDur defSize frag off dataPtr out = do {
     dur \<leftarrow> (if flags AND trunSampleDuration \<noteq> 0 then u32be trun off else Some defDur);
     let off = (if flags AND trunSampleDuration \<noteq> 0 then off + 4 else off) in do {
     z \<leftarrow> (if flags AND trunSampleSize \<noteq> 0 then u32be trun off else Some defSize);
     let off = (if flags AND trunSampleSize \<noteq> 0 then off + 4 else off);
         off = (if flags AND trunSampleFlags \<noteq> 0 then off + 4 else off);
         off = (if flags AND trunSampleCTO \<noteq> 0 then off + 4 else off);
         end' = dataPtr + int (unat z)
     in if z = 0 \<or> dataPtr < 0 then Some (Inr (dataPtr, True), out)
        else if end' < dataPtr \<or> end' > int (length frag) then Some (Inr (dataPtr, True), out)
        else do {
          d \<leftarrow> slice frag (nat dataPtr) (nat end');
          (case guarded \<lparr>sm_Data = d, sm_Dur = dur\<rparr> out of
             (Some e, out) \<Rightarrow> Some (Inl e, out)
           | (None, out) \<Rightarrow> trun_samples n flags trun defDur defSize frag off end' out) } } }"

record traf_walk =
  tw_dataPtr :: int
  tw_located :: bool
  tw_inner :: "mp4_error option"
  tw_short :: bool
  tw_out :: frag_out

definition trun_box :: "bytes \<Rightarrow> int \<Rightarrow> u32 \<Rightarrow> u32 \<Rightarrow> bytes \<Rightarrow> boxSpan \<Rightarrow> traf_walk \<Rightarrow> traf_walk walk option" where
  "trun_box traf base defDur defSize frag b w =
     (if box_typ b \<noteq> lit ''trun'' then Some (Continue w)
      else do {
        trun \<leftarrow> slice traf (bodyOff b) (bodyEnd b);
        (case trun_header trun base (tw_dataPtr w) (tw_located w) (length frag) of
           None \<Rightarrow> None
         | Some (Inl e) \<Rightarrow> Some (Stop (w\<lparr>tw_inner := Some e\<rparr>))
         | Some (Inr (flags, sampleCount, off, dataPtr, hadOffset)) \<Rightarrow>
             (case trun_samples sampleCount flags trun defDur defSize frag off dataPtr (tw_out w) of
                None \<Rightarrow> None
              | Some (Inl e, out) \<Rightarrow> Some (Stop (w\<lparr>tw_inner := Some e, tw_out := out\<rparr>))
              | Some (Inr (next, wasShort), out) \<Rightarrow>
                  let w = w\<lparr>tw_located := tw_located w \<or> hadOffset, tw_dataPtr := next, tw_out := out\<rparr>
                  in if wasShort then Some (Stop (w\<lparr>tw_short := True\<rparr>)) else Some (Continue w))) })"

definition parseTraf :: "bytes \<Rightarrow> nat \<Rightarrow> bytes \<Rightarrow> AudioInit \<Rightarrow> frag_out \<Rightarrow> (mp4_error option \<times> frag_out) option" where
  "parseTraf traf moofStart frag ai out =
     (case firstChild traf (lit ''tfhd'') of
        None \<Rightarrow> None
      | Some (Inl e) \<Rightarrow> Some (Some e, out)
      | Some (Inr None) \<Rightarrow> Some (Some ErrMalformedBox, out)
      | Some (Inr (Some tfhd)) \<Rightarrow>
          (case parseTFHD tfhd moofStart of
             None \<Rightarrow> None
           | Some (Inl e) \<Rightarrow> Some (Some e, out)
           | Some (Inr (base, defDur, defSize, baseExplicit)) \<Rightarrow>
               let defDur = (if defDur = 0 then ai_DefaultDur ai else defDur);
                   defSize = (if defSize = 0 then ai_DefaultSize ai else defSize)
               in (case eachBox traf (trun_box traf base defDur defSize frag) 0
                         \<lparr>tw_dataPtr = base, tw_located = baseExplicit, tw_inner = None, tw_short = False, tw_out = out\<rparr> of
                     None \<Rightarrow> None
                   | Some (Some e, w) \<Rightarrow> Some (Some e, tw_out w)
                   | Some (None, w) \<Rightarrow>
                       Some (case tw_inner w of Some e \<Rightarrow> Some e | None \<Rightarrow> if tw_short w then Some ErrShortMdat else None, tw_out w))))"

definition moof_search :: "bytes \<Rightarrow> boxSpan \<Rightarrow> (nat \<times> bytes) option \<Rightarrow> (nat \<times> bytes) option walk option" where
  "moof_search frag b s =
     (if box_typ b = lit ''moof'' then map_option (\<lambda>body. Stop (Some (box_start b, body))) (slice frag (bodyOff b) (bodyEnd b))
      else Some (Continue s))"

definition ParseFragment :: "AudioInit \<Rightarrow> bytes \<Rightarrow> (mp4_error option \<times> mp4_sample list) option" where
  "ParseFragment ai frag =
     (case eachBox frag (moof_search frag) 0 None of
        None \<Rightarrow> None
      | Some (Some e, _) \<Rightarrow> Some (Some e, [])
      | Some (None, None) \<Rightarrow> Some (Some ErrMalformedBox, [])
      | Some (None, Some (moofStart, moof)) \<Rightarrow>
          (case findAudioTraf moof (ai_TrackID ai) of
             None \<Rightarrow> None
           | Some (Inl e) \<Rightarrow> Some (Some e, [])
           | Some (Inr None) \<Rightarrow> Some (Some ErrMalformedBox, [])
           | Some (Inr (Some traf)) \<Rightarrow>
               map_option (\<lambda>(e, out). (e, fo_samples out)) (parseTraf traf moofStart frag ai \<lparr>fo_samples = [], fo_budget = length frag\<rparr>)))"

section \<open>No input panics\<close>

abbreviation (input) total :: "('e, 'a) go \<Rightarrow> bool" where
  "total m \<equiv> go_sat (\<lambda>_. True) m"

lemma total_bind: "total m \<Longrightarrow> (\<And>x. go_sat Q (f x)) \<Longrightarrow> go_sat Q (go_bind m f)"
  by (auto simp: sat_simps elim: go_sat_mono)

lemma opt_bind: "m = Some x \<Longrightarrow> go_sat Q (f x) \<Longrightarrow> go_sat Q (Option.bind m f)"
  by simp

lemma span_slice:
  assumes "box_span_ok data (box_start b) b"
  obtains body where "slice data (bodyOff b) (bodyEnd b) = Some body" "sublist body data"
  using assms by (auto simp: box_span_ok_def intro: sublist_order.order_trans [OF sublist_take sublist_drop])

lemma eachBox_total:
  assumes "\<And>b s. box_span_ok data (box_start b) b \<Longrightarrow> fn b s \<noteq> None"
  shows "\<exists>e s'. eachBox data fn off s = Some (e, s')"
  using eachBox_inv [of data "\<lambda>_. True" fn s off] assms by auto

text \<open>What follows a walk: its own error, or the rest of the caller.\<close>

lemma walked:
  assumes "\<And>b s. box_span_ok data (box_start b) b \<Longrightarrow> fn b s \<noteq> None" "\<And>e s. go_sat Q (K (e, s))"
  shows "go_sat Q (case eachBox data fn off s of None \<Rightarrow> None | Some r \<Rightarrow> K r)"
proof -
  obtain e s' where "eachBox data fn off s = Some (e, s')" using eachBox_total [of data fn off s, OF assms(1)] by blast
  then show ?thesis using assms(2) by simp
qed

lemma firstChild_total: "total (firstChild data t)"
  unfolding firstChild_def by (rule walked) (auto elim: span_slice split: option.split)

lemma versioned_field_total: "\<exists>r. versioned_field body = Some r"
proof (cases "length body < 4")
  case False
  then have "0 < length body" by linarith
  then have "idx body 0 = Some (body ! 0)" by simp
  then show ?thesis using False by (cases "body ! 0 = 1") (simp_all add: versioned_field_def Let_def)
qed (simp add: versioned_field_def)

lemma parseTrex_total: "total (parseTrex moov)"
proof -
  have box: "trex_box mvex b out \<noteq> None" if s: "box_span_ok mvex (box_start b) b" for mvex b out
  proof -
    obtain body where "slice mvex (bodyOff b) (bodyEnd b) = Some body" using span_slice [OF s] .
    then show ?thesis by (simp add: trex_box_def)
  qed
  show ?thesis unfolding parseTrex_def
  proof (rule total_bind [OF firstChild_total])
    fix m
    show "total (case m of None \<Rightarrow> ok Map.empty | Some mvex \<Rightarrow> (case eachBox mvex (trex_box mvex) 0 Map.empty of
             None \<Rightarrow> None | Some (Some e, _) \<Rightarrow> err e | Some (None, out) \<Rightarrow> ok out))"
      by (cases m) (simp, simp only: option.case, rule walked, rule box, auto split: option.split)
  qed
qed

lemma parseMdia_total: "total (parseMdia mdia)"
proof -
  have t: "\<exists>t. (case mdhd of None \<Rightarrow> Some 0 | Some body \<Rightarrow> map_option (\<lambda>v. case v of None \<Rightarrow> 0 | Some t \<Rightarrow> t) (parseMDHD body)) = Some t" for mdhd
    using versioned_field_total by (fastforce simp: parseMDHD_def split: option.split)
  have h: "\<exists>h. (case hdlr of None \<Rightarrow> Some [] | Some body \<Rightarrow> parseHDLR body) = Some h" for hdlr
    by (auto simp: parseHDLR_def split: option.split)
  show ?thesis unfolding parseMdia_def
    by (intro total_bind [OF firstChild_total] opt_bind [OF someI_ex [OF t]] opt_bind [OF someI_ex [OF h]]) (auto split: option.split intro!: total_bind firstChild_total)
qed

lemma desc_len_sat: "go_sat (\<lambda>(j, z). i \<le> j) (desc_len n b i z)"
proof (induction n arbitrary: i z)
  case (Suc n)
  have "go_sat (\<lambda>(j, z). i \<le> j) (desc_len n b (i + 1) z')" for z' by (rule go_sat_mono [OF Suc.IH]) auto
  then show ?case by (cases "i < length b") (simp_all add: Let_def)
qed simp

lemma readDescriptor_total: "total (readDescriptor b)"
proof (cases "length b < 2")
  case False
  then have "0 < length b" by linarith
  moreover have "total (go_bind (desc_len 4 b 1 0) (\<lambda>(i, z). if i + z > length b then err ErrMalformedBox
          else do { content \<leftarrow> slice b i (i + z); rest \<leftarrow> slice b (i + z) (length b); ok (tag, content, rest) }))" for tag
    by (rule total_bind, rule go_sat_mono [OF desc_len_sat]) (auto split: prod.split)
  ultimately show ?thesis using False by (simp add: readDescriptor_def)
qed (simp add: readDescriptor_def)

lemma descriptor_of_total: "total (descriptor_of tag b)"
  using readDescriptor_total [of b] by (auto simp: descriptor_of_def go_sat_def split: option.splits sum.splits prod.splits)

lemma es_fields_total: "3 \<le> length es \<Longrightarrow> total (es_fields es)"
  by (auto simp: es_fields_def Let_def caps)

lemma parseESDS_sat: "go_sat (\<lambda>asc. asc \<noteq> []) (parseESDS esds)"
proof (cases "length esds < 4")
  case False
  have specific: "go_sat (\<lambda>asc. asc \<noteq> []) (go_bind (descriptor_of tagDecoderSpecific b) (\<lambda>dsi. if dsi = [] then err ErrNoASC else ok dsi))" for b
    by (rule total_bind [OF descriptor_of_total]) simp
  have config: "go_sat (\<lambda>asc. asc \<noteq> []) (if length dcd < decoderConfigFixed then err ErrNoASC
                else do {
                  oti \<leftarrow> idx dcd 0;
                  if oti \<noteq> objectTypeAAC then err ErrUnsupportedSampleEntry
                  else do {
                    b \<leftarrow> slice dcd decoderConfigFixed (length dcd);
                    go_bind (descriptor_of tagDecoderSpecific b) (\<lambda>dsi. if dsi = [] then err ErrNoASC else ok dsi) } })" for dcd
  proof (cases "length dcd < decoderConfigFixed")
    case False
    then have "0 < length dcd" by (cases dcd) (simp_all add: caps)
    then show ?thesis using False specific by simp
  qed simp
  show ?thesis using False unfolding parseESDS_def
    by (simp, intro total_bind [OF descriptor_of_total])
      (auto intro!: total_bind [OF descriptor_of_total] total_bind [OF es_fields_total] config simp: esDescriptorMinFixed_def)
qed (simp add: parseESDS_def)

lemma parseMP4A_sat: "go_sat (\<lambda>asc. asc \<noteq> []) (parseMP4A body)"
proof (cases "length body < audioSampleEntryLen")
  case False
  then show ?thesis unfolding parseMP4A_def
    by simp (rule total_bind [OF firstChild_total], simp add: parseESDS_sat split: option.split)
qed (simp add: parseMP4A_def)

lemma parseSTSD_sat: "go_sat (\<lambda>asc. asc \<noteq> []) (parseSTSDForASC stsd)"
proof (cases stsd)
  case (Some b)
  define s0 where "s0 = \<lparr>sc_asc = None, sc_entryErr = None, sc_sawEncrypted = False, sc_firstType = None\<rparr>"
  define entries where "entries = drop 8 b"
  have entry: "\<exists>w. stsd_entry entries bx s = Some w \<and> sc_asc (walk_state w) \<noteq> Some []"
    if sp: "box_span_ok entries (box_start bx) bx" and s: "sc_asc s \<noteq> Some []" for bx s
  proof -
    obtain body where "slice entries (bodyOff bx) (bodyEnd bx) = Some body" using span_slice [OF sp] .
    then show ?thesis using parseMP4A_sat [of body] s
      by (auto simp: stsd_entry_def Let_def go_sat_def split: option.splits sum.splits)
  qed
  obtain e s where "eachBox entries (stsd_entry entries) 0 s0 = Some (e, s)" "sc_asc s \<noteq> Some []"
    using eachBox_inv [of entries "\<lambda>s. sc_asc s \<noteq> Some []" "stsd_entry entries" s0 0, OF entry] by (auto simp: s0_def)
  then show ?thesis by (auto simp: parseSTSDForASC_def Some entries_def s0_def split: option.split)
qed (simp add: parseSTSDForASC_def)

lemma parseTrak_sat: "go_sat (pred_option (\<lambda>ai. ai_ASC ai \<noteq> [])) (parseTrak trak)"
proof -
  have box: "trak_box trak b s \<noteq> None" if sp: "box_span_ok trak (box_start b) b" for b s
  proof -
    obtain body r where "slice trak (bodyOff b) (bodyEnd b) = Some body" "parseTKHD body = Some r"
      using span_slice [OF sp] versioned_field_total unfolding parseTKHD_def by metis
    then show ?thesis by (simp add: trak_box_def)
  qed
  have "go_sat (pred_option (\<lambda>ai. ai_ASC ai \<noteq> [])) (go_bind (parseMdia mdia) (\<lambda>(handler, timescale, stsd).
               if handler \<noteq> lit ''soun'' then ok None
               else case trackID of
                   None \<Rightarrow> err ErrMalformedBox
                 | Some i \<Rightarrow> go_bind (parseSTSDForASC stsd) (\<lambda>asc.
                     ok (Some \<lparr>ai_ASC = asc, ai_Timescale = timescale, ai_TrackID = i, ai_DefaultSize = 0, ai_DefaultDur = 0\<rparr>))))" for mdia trackID
    by (rule total_bind [OF parseMdia_total]) (auto split: option.split intro!: go_sat_bindI go_sat_mono [OF parseSTSD_sat])
  then show ?thesis unfolding parseTrak_def by (intro walked box) (auto split: option.split)
qed

definition init_ok :: "AudioInit \<Rightarrow> bool" where
  "init_ok ai \<longleftrightarrow> ai_ASC ai \<noteq> [] \<and> ai_Timescale ai \<noteq> 0 \<and> unat (ai_Timescale ai) < 2 ^ 31"

lemma ParseInit_sat: "go_sat init_ok (ParseInit data)"
proof -
  have rest: "go_sat init_ok (case eachBox moov (init_box moov) 0 None of
             None \<Rightarrow> None
           | Some (Some e, _) \<Rightarrow> err e
           | Some (None, None) \<Rightarrow> err ErrNoAudioTrack
           | Some (None, Some (Inl e)) \<Rightarrow> err e
           | Some (None, Some (Inr ai)) \<Rightarrow>
               if ai_Timescale ai = 0 \<or> unat (ai_Timescale ai) > 2 ^ 31 - 1 then err ErrMalformedBox
               else (case trex (ai_TrackID ai) of
                   None \<Rightarrow> ok ai
                 | Some (dur, z) \<Rightarrow> ok (ai\<lparr>ai_DefaultDur := dur, ai_DefaultSize := z\<rparr>)))" for moov trex
  proof -
    define I where "I = (\<lambda>s. \<forall>ai. s = Some (Inr ai :: mp4_error + AudioInit) \<longrightarrow> ai_ASC ai \<noteq> [])"
    have "\<exists>w. init_box moov b s = Some w \<and> I (walk_state w)" if sp: "box_span_ok moov (box_start b) b" and s: "I s" for b s
    proof -
      obtain body where "slice moov (bodyOff b) (bodyEnd b) = Some body" using span_slice [OF sp] .
      then show ?thesis using parseTrak_sat [of body] s by (auto simp: init_box_def I_def go_sat_def split: option.splits sum.splits)
    qed
    then obtain e s where "eachBox moov (init_box moov) 0 None = Some (e, s)" "I s" using eachBox_inv [of moov I "init_box moov" None 0] by (auto simp: I_def)
    then show ?thesis by (auto simp: I_def init_ok_def split: option.split sum.split prod.split)
  qed
  show ?thesis unfolding ParseInit_def
    by (rule total_bind [OF firstChild_total]) (auto split: option.split intro!: total_bind [OF parseTrex_total] rest)
qed

lemma flags24_total: "4 \<le> length b \<Longrightarrow> \<exists>f. flags24 b = Some f"
  by (simp add: flags24_def)

lemma findAudioTraf_total: "total (findAudioTraf moof trackID)"
proof -
  have "traf_search moof trackID b s \<noteq> None" if sp: "box_span_ok moof (box_start b) b" for b s
  proof -
    obtain body where "slice moof (bodyOff b) (bodyEnd b) = Some body" using span_slice [OF sp] .
    then show ?thesis using firstChild_total [of body "lit ''tfhd''"]
      by (cases "firstChild body (lit ''tfhd'')" rule: go_cases) (auto simp: traf_search_def tfhdTrackID_def split: option.split)
  qed
  then show ?thesis unfolding findAudioTraf_def by (rule walked) (auto split: option.split sum.split)
qed

lemma parseTFHD_total: "total (parseTFHD tfhd moofStart)"
proof (cases "length tfhd < 8")
  case False
  then obtain flags where f: "flags24 tfhd = Some flags" using flags24_total [of tfhd] by auto
  show ?thesis using False unfolding parseTFHD_def f by (auto simp: sat_simps)
qed (simp add: parseTFHD_def)

lemma trun_header_sat:
  "go_sat (\<lambda>(flags, n, off, dataPtr, hadOffset). off + n * perSample flags \<le> length trun) (trun_header trun base running located fragLen)"
proof (cases "length trun < 8")
  case False
  then obtain flags where f: "flags24 trun = Some flags" using flags24_total [of trun] by auto
  have div: "off + n * p \<le> m" if "0 < p" "n \<le> (m - off) div p" "off \<le> m" for off n p m :: nat
  proof -
    have "n * p \<le> (m - off) div p * p" using that(2) by simp
    then show ?thesis using that(3) div_times_less_eq_dividend [of "m - off" p] by linarith
  qed
  show ?thesis using False unfolding trun_header_def f
    by (auto simp: sat_simps Let_def intro!: div)
qed (simp add: trun_header_def)

text \<open>What is delivered are pieces of the fragment, never more than it has bytes.\<close>

definition out_ok :: "bytes \<Rightarrow> frag_out \<Rightarrow> bool" where
  "out_ok frag out \<longleftrightarrow> length (fo_samples out) + fo_budget out \<le> length frag
     \<and> list_all (\<lambda>s. sm_Data s \<noteq> [] \<and> sublist (sm_Data s) frag) (fo_samples out)"

lemma guarded_ok:
  assumes "guarded s out = (e, out')" "out_ok frag out" "sm_Data s \<noteq> []" "sublist (sm_Data s) frag"
  shows "out_ok frag out'"
  using assms by (auto simp: guarded_def out_ok_def split: if_splits)

lemma trun_samples_ok:
  assumes "off + n * perSample flags \<le> length trun" "out_ok frag out"
  shows "\<exists>r out'. trun_samples n flags trun defDur defSize frag off dataPtr out = Some (r, out') \<and> out_ok frag out'"
  using assms
proof (induction n arbitrary: off dataPtr out)
  case (Suc n)
  define off1 where "off1 = (if flags AND trunSampleDuration \<noteq> 0 then off + 4 else off)"
  define off2 where "off2 = (if flags AND trunSampleSize \<noteq> 0 then off1 + 4 else off1)"
  define off3 where "off3 = (if flags AND trunSampleFlags \<noteq> 0 then off2 + 4 else off2)"
  define off4 where "off4 = (if flags AND trunSampleCTO \<noteq> 0 then off3 + 4 else off3)"
  have off4: "off4 = off + perSample flags" by (simp add: off4_def off3_def off2_def off1_def perSample_def)
  have room: "off + perSample flags \<le> length trun" "off4 + n * perSample flags \<le> length trun" using Suc.prems(1) by (simp_all add: off4)
  obtain dur where dur: "(if flags AND trunSampleDuration \<noteq> 0 then u32be trun off else Some defDur) = Some dur"
    using room(1) by (cases "flags AND trunSampleDuration = 0") (simp_all add: perSample_def)
  obtain z where z: "(if flags AND trunSampleSize \<noteq> 0 then u32be trun off1 else Some defSize) = Some z"
    using room(1) by (cases "flags AND trunSampleSize = 0"; cases "flags AND trunSampleDuration = 0") (simp_all add: perSample_def off1_def)
  define end' where "end' = dataPtr + int (unat z)"
  have eq: "trun_samples (Suc n) flags trun defDur defSize frag off dataPtr out
     = (if z = 0 \<or> dataPtr < 0 then Some (Inr (dataPtr, True), out)
        else if end' < dataPtr \<or> end' > int (length frag) then Some (Inr (dataPtr, True), out)
        else do {
          d \<leftarrow> slice frag (nat dataPtr) (nat end');
          (case guarded \<lparr>sm_Data = d, sm_Dur = dur\<rparr> out of
             (Some e, out) \<Rightarrow> Some (Inl e, out)
           | (None, out) \<Rightarrow> trun_samples n flags trun defDur defSize frag off4 end' out) })"
    using dur z by (simp only: trun_samples.simps Let_def bind.bind_lunit off1_def [symmetric] off2_def [symmetric] off3_def [symmetric] off4_def [symmetric] end'_def)
  show ?case
  proof (cases "z = 0 \<or> dataPtr < 0 \<or> end' < dataPtr \<or> end' > int (length frag)")
    case True
    then show ?thesis unfolding eq using Suc.prems(2) by (cases "z = 0 \<or> dataPtr < 0") simp_all
  next
    case False
    then have "0 < unat z" using unat_gt_0 by blast
    then have "dataPtr < end'" unfolding end'_def by linarith
    then have range: "nat dataPtr < nat end'" "nat end' \<le> length frag" using False by linarith+
    have sl: "slice frag (nat dataPtr) (nat end') = Some (take (nat end' - nat dataPtr) (drop (nat dataPtr) frag))"
      by (rule slice_Some) (use range in linarith)+
    have "take (nat end' - nat dataPtr) (drop (nat dataPtr) frag) \<noteq> []" "sublist (take (nat end' - nat dataPtr) (drop (nat dataPtr) frag)) frag"
      using range by (auto intro: sublist_order.order_trans [OF sublist_take sublist_drop])
    moreover obtain e out' where g: "guarded \<lparr>sm_Data = take (nat end' - nat dataPtr) (drop (nat dataPtr) frag), sm_Dur = dur\<rparr> out = (e, out')" by fastforce
    ultimately have "out_ok frag out'" using guarded_ok [OF g Suc.prems(2)] by simp
    then show ?thesis using Suc.IH [OF room(2), of out'] g sl False unfolding eq by (cases e) simp_all
  qed
qed simp

lemma parseTraf_ok:
  assumes "out_ok frag out"
  shows "\<exists>e out'. parseTraf traf moofStart frag ai out = Some (e, out') \<and> out_ok frag out'"
proof -
  have box: "\<exists>w'. trun_box traf base defDur defSize frag b w = Some w' \<and> out_ok frag (tw_out (walk_state w'))"
    if sp: "box_span_ok traf (box_start b) b" and w: "out_ok frag (tw_out w)" for base defDur defSize b w
  proof -
    obtain trun where t: "slice traf (bodyOff b) (bodyEnd b) = Some trun" using span_slice [OF sp] .
    show ?thesis
    proof (cases "trun_header trun base (tw_dataPtr w) (tw_located w) (length frag)" rule: go_cases)
      case Panic
      then show ?thesis using trun_header_sat [of trun base "tw_dataPtr w" "tw_located w" "length frag"] by simp
    next
      case (Err e)
      then show ?thesis using t w by (simp add: trun_box_def)
    next
      case (Ok x)
      obtain flags n off dataPtr had where x: "x = (flags, n, off, dataPtr, had)" by (metis prod_cases5)
      have "off + n * perSample flags \<le> length trun"
        using trun_header_sat [of trun base "tw_dataPtr w" "tw_located w" "length frag"] Ok x by simp
      from trun_samples_ok [OF this w] obtain r out' where "trun_samples n flags trun defDur defSize frag off dataPtr (tw_out w) = Some (r, out')" "out_ok frag out'"
        by blast
      then show ?thesis using t w Ok x by (cases r) (auto simp: trun_box_def Let_def)
    qed
  qed
  have walk: "\<exists>e w. eachBox traf (trun_box traf base defDur defSize frag) 0 w0 = Some (e, w) \<and> out_ok frag (tw_out w)"
    if "out_ok frag (tw_out w0)" for base defDur defSize w0
    using eachBox_inv [of traf "\<lambda>w. out_ok frag (tw_out w)" "trun_box traf base defDur defSize frag" w0 0] box that by blast
  show ?thesis
  proof (cases "firstChild traf (lit ''tfhd'')" rule: go_cases)
    case Panic
    then show ?thesis using firstChild_total [of traf "lit ''tfhd''"] by simp
  next
    case (Err e)
    then show ?thesis using assms by (simp add: parseTraf_def)
  next
    case (Ok c)
    show ?thesis
    proof (cases c)
      case None
      then show ?thesis using Ok assms by (simp add: parseTraf_def)
    next
      case (Some tfhd)
      show ?thesis
      proof (cases "parseTFHD tfhd moofStart" rule: go_cases)
        case Panic
        then show ?thesis using parseTFHD_total [of tfhd moofStart] by simp
      next
        case (Err e)
        then show ?thesis using Ok Some assms by (simp add: parseTraf_def)
      next
        case (Ok y)
        obtain base dd ds ex where y: "y = (base, dd, ds, ex)" by (metis prod_cases4)
        define w0 where "w0 = \<lparr>tw_dataPtr = base, tw_located = ex, tw_inner = None, tw_short = False, tw_out = out\<rparr>"
        obtain e w where "eachBox traf (trun_box traf base (if dd = 0 then ai_DefaultDur ai else dd) (if ds = 0 then ai_DefaultSize ai else ds) frag) 0 w0 = Some (e, w)"
          "out_ok frag (tw_out w)" using walk [of w0] assms unfolding w0_def by fastforce
        then show ?thesis using Ok Some y \<open>firstChild traf (lit ''tfhd'') = ok c\<close> by (cases e) (simp_all add: parseTraf_def w0_def)
      qed
    qed
  qed
qed

lemma ParseFragment_ok:
  "\<exists>e samples. ParseFragment ai frag = Some (e, samples) \<and> length samples \<le> length frag
     \<and> list_all (\<lambda>s. sm_Data s \<noteq> [] \<and> sublist (sm_Data s) frag) samples"
proof -
  have "moof_search frag b s \<noteq> None" if "box_span_ok frag (box_start b) b" for b s
    using span_slice [OF that] by (auto simp: moof_search_def)
  then obtain e s where w: "eachBox frag (moof_search frag) 0 None = Some (e, s)" using eachBox_total [of frag "moof_search frag" 0 None] by blast
  show ?thesis
  proof (cases "e = None \<and> s \<noteq> None")
    case True
    then obtain start moof where s: "s = Some (start, moof)" by auto
    show ?thesis
    proof (cases "findAudioTraf moof (ai_TrackID ai)" rule: go_cases)
      case Panic
      then show ?thesis using findAudioTraf_total [of moof "ai_TrackID ai"] by simp
    next
      case (Ok c)
      obtain e' out where "\<And>traf. c = Some traf \<Longrightarrow> parseTraf traf start frag ai \<lparr>fo_samples = [], fo_budget = length frag\<rparr> = Some (e', out) \<and> out_ok frag out"
        using parseTraf_ok [of frag "\<lparr>fo_samples = [], fo_budget = length frag\<rparr>" "the c" start ai] by (cases c) (auto simp: out_ok_def)
      then show ?thesis using w True s Ok by (cases c) (auto simp: ParseFragment_def out_ok_def)
    qed (use w True s in \<open>simp add: ParseFragment_def\<close>)
  qed (use w in \<open>cases e; cases s; simp add: ParseFragment_def\<close>)
qed

section \<open>Boxes as a muxer writes them\<close>

definition box :: "bytes \<Rightarrow> bytes \<Rightarrow> bytes" where
  "box t body = put32 (word_of_nat (8 + length body)) @ t @ body"

definition boxes :: "(bytes \<times> bytes) list \<Rightarrow> bytes" where
  "boxes bs = concat (map (\<lambda>(t, body). box t body) bs)"

definition boxes_ok :: "(bytes \<times> bytes) list \<Rightarrow> bool" where
  "boxes_ok bs \<longleftrightarrow> list_all (\<lambda>(t, body). length t = 4 \<and> 8 + length body < 2 ^ 32) bs"

lemma boxes_simps [simp]: "boxes [] = []" "boxes ((t, body) # bs) = box t body @ boxes bs" "boxes (bs @ bs') = boxes bs @ boxes bs'"
  by (simp_all add: boxes_def)

lemma boxes_ok_simps [simp]:
  "boxes_ok []" "boxes_ok ((t, body) # bs) \<longleftrightarrow> length t = 4 \<and> 8 + length body < 2 ^ 32 \<and> boxes_ok bs" "boxes_ok (bs @ bs') \<longleftrightarrow> boxes_ok bs \<and> boxes_ok bs'"
  by (simp_all add: boxes_ok_def)

lemma length_box [simp]: "length t = 4 \<Longrightarrow> length (box t body) = 8 + length body"
  by (simp add: box_def)

lemma box_body: "length t = 4 \<Longrightarrow> slice (pre @ box t body @ post) (length pre + 8) (length pre + 8 + length body) = Some body"
  using slice_append3 [of "pre @ put32 (word_of_nat (8 + length body)) @ t" body post] by (simp add: box_def add.assoc)

lemma box_at_box:
  assumes "length t = 4" "8 + length body < 2 ^ 32"
  shows "box_at (pre @ box t body @ post) (length pre)
    = ok \<lparr>box_typ = t, box_start = length pre, bodyOff = length pre + 8, bodyEnd = length pre + 8 + length body\<rparr>"
proof -
  define v :: u32 where "v = word_of_nat (8 + length body)"
  have v: "unat v = 8 + length body" unfolding v_def using assms(2) by (intro unat_word_of_nat_small) simp
  then have "v \<noteq> 0" "v \<noteq> 1" by auto
  moreover have "u32be (pre @ box t body @ post) (length pre) = Some v" using u32_codec.dec_enc [of pre v "t @ body @ post"] by (simp add: box_def v_def)
  moreover have "slice (pre @ box t body @ post) (length pre + 4) (length pre + 8) = Some t"
    using slice_append3 [of "pre @ put32 v" t "body @ post"] assms(1) by (simp add: box_def v_def add.assoc)
  ultimately show ?thesis using v assms(1) by (simp add: box_at_def add.assoc)
qed

text \<open>The walk over boxes that were written, with a closure that looks at type, position and content.\<close>

fun walk_list :: "(bytes \<Rightarrow> nat \<Rightarrow> bytes \<Rightarrow> 's \<Rightarrow> 's walk option) \<Rightarrow> nat \<Rightarrow> (bytes \<times> bytes) list \<Rightarrow> 's \<Rightarrow> (mp4_error option \<times> 's) option" where
  "walk_list g off [] s = Some (None, s)"
| "walk_list g off ((t, body) # bs) s = (case g t off body s of
     None \<Rightarrow> None | Some (Stop s) \<Rightarrow> Some (None, s) | Some (Continue s) \<Rightarrow> walk_list g (off + 8 + length body) bs s)"

lemma eachBox_boxes:
  assumes "boxes_ok bs"
    and "\<And>t off body s. slice (pre @ boxes bs) (off + 8) (off + 8 + length body) = Some body \<Longrightarrow>
      fn \<lparr>box_typ = t, box_start = off, bodyOff = off + 8, bodyEnd = off + 8 + length body\<rparr> s = g t off body s"
  shows "eachBox (pre @ boxes bs) fn (length pre) s = walk_list g (length pre) bs s"
  using assms
proof (induction bs arbitrary: pre s)
  case Nil
  show ?case by (subst eachBox.simps) simp
next
  case (Cons x bs)
  obtain t body where x: "x = (t, body)" by fastforce
  then have t: "length t = 4" "8 + length body < 2 ^ 32" using Cons.prems(1) by simp_all
  have at: "box_at (pre @ boxes (x # bs)) (length pre) = ok \<lparr>box_typ = t, box_start = length pre, bodyOff = length pre + 8, bodyEnd = length pre + 8 + length body\<rparr>"
    using box_at_box [OF t, of pre "boxes bs"] by (simp add: x)
  have fn: "fn \<lparr>box_typ = t, box_start = length pre, bodyOff = length pre + 8, bodyEnd = length pre + 8 + length body\<rparr> s = g t (length pre) body s"
    using Cons.prems(2) box_body [OF t(1), of pre body "boxes bs"] by (simp add: x)
  have "eachBox ((pre @ box t body) @ boxes bs) fn (length (pre @ box t body)) s' = walk_list g (length (pre @ box t body)) bs s'" for s'
    using Cons.prems by (intro Cons.IH) (simp_all add: x)
  then have IH: "eachBox (pre @ boxes (x # bs)) fn (length pre + 8 + length body) s' = walk_list g (length pre + 8 + length body) bs s'" for s'
    using t(1) by (simp add: x add.assoc)
  have "length pre + 8 \<le> length (pre @ boxes (x # bs))" using t(1) by (simp add: x)
  then show ?case
    using at fn IH by (subst eachBox.simps) (simp add: x split: option.split walk.split)
qed

lemma walk_boxes:
  assumes "boxes_ok bs"
    and "\<And>t off body s. slice (boxes bs) (off + 8) (off + 8 + length body) = Some body \<Longrightarrow>
      fn \<lparr>box_typ = t, box_start = off, bodyOff = off + 8, bodyEnd = off + 8 + length body\<rparr> s = g t off body s"
  shows "eachBox (boxes bs) fn 0 s = walk_list g 0 bs s"
  using eachBox_boxes [of bs "[]" fn g s] assms by simp

text \<open>A closure that only uses the content of the box at hand.\<close>

definition body_only :: "(bytes \<Rightarrow> boxSpan \<Rightarrow> 's \<Rightarrow> 's walk option) \<Rightarrow> bool" where
  "body_only fn \<longleftrightarrow> (\<forall>data t off body s. slice data (off + 8) (off + 8 + length body) = Some body \<longrightarrow>
      fn data \<lparr>box_typ = t, box_start = off, bodyOff = off + 8, bodyEnd = off + 8 + length body\<rparr> s
      = fn body \<lparr>box_typ = t, box_start = off, bodyOff = 0, bodyEnd = length body\<rparr> s)"

definition on_body :: "(bytes \<Rightarrow> boxSpan \<Rightarrow> 's \<Rightarrow> 's walk option) \<Rightarrow> bytes \<Rightarrow> nat \<Rightarrow> bytes \<Rightarrow> 's \<Rightarrow> 's walk option" where
  "on_body fn t off body = fn body \<lparr>box_typ = t, box_start = off, bodyOff = 0, bodyEnd = length body\<rparr>"

lemma walk_boxes_local: "boxes_ok bs \<Longrightarrow> body_only fn \<Longrightarrow> eachBox (boxes bs) (fn (boxes bs)) 0 s = walk_list (on_body fn) 0 bs s"
  by (rule walk_boxes) (simp_all add: on_body_def body_only_def)

lemma body_onlyI:
  "(\<And>data t off body s. slice data (off + 8) (off + 8 + length body) = Some body \<Longrightarrow>
      fn data \<lparr>box_typ = t, box_start = off, bodyOff = off + 8, bodyEnd = off + 8 + length body\<rparr> s
      = fn body \<lparr>box_typ = t, box_start = off, bodyOff = 0, bodyEnd = length body\<rparr> s) \<Longrightarrow> body_only fn"
  by (simp add: body_only_def)

lemma firstChild_boxes:
  assumes "boxes_ok bs"
  shows "firstChild (boxes bs) t = ok (map_of bs t)"
proof -
  define g where "g = (\<lambda>t' (off :: nat) body s. if t' = t then Some (Stop (Some body)) else Some (Continue (s :: bytes option)))"
  have "walk_list g off bs None = Some (None, map_of bs t)" for off
    by (induction bs arbitrary: off) (auto simp: g_def)
  moreover have "eachBox (boxes bs) (\<lambda>b s. if box_typ b = t then map_option (\<lambda>body. Stop (Some body)) (slice (boxes bs) (bodyOff b) (bodyEnd b)) else Some (Continue s)) 0 None
      = walk_list g 0 bs None"
    by (rule walk_boxes [OF assms]) (simp add: g_def)
  ultimately show ?thesis by (simp add: firstChild_def)
qed

section \<open>The format of an initialization segment\<close>

text \<open>
  Boxes by content. A container is a sequence of boxes; of a box the format names, readers take the first, and everything else in a container is skipped.
\<close>

definition in_box :: "((bytes \<times> bytes) list \<Rightarrow> bool) \<Rightarrow> bytes \<Rightarrow> bool" where
  "in_box Q body \<longleftrightarrow> (\<exists>bs. body = boxes bs \<and> boxes_ok bs \<and> Q bs)"

definition has_box :: "bytes \<Rightarrow> (bytes \<Rightarrow> bool) \<Rightarrow> (bytes \<times> bytes) list \<Rightarrow> bool" where
  "has_box t P bs \<longleftrightarrow> (\<exists>body. map_of bs t = Some body \<and> P body)"

definition opt_box :: "bytes \<Rightarrow> (bytes \<Rightarrow> bool) \<Rightarrow> (bytes \<times> bytes) list \<Rightarrow> bool" where
  "opt_box t P bs \<longleftrightarrow> pred_option P (map_of bs t)"

definition bodies :: "bytes \<Rightarrow> (bytes \<times> bytes) list \<Rightarrow> bytes list" where
  "bodies t bs = map snd (filter (\<lambda>b. fst b = t) bs)"

text \<open>A \<open>tkhd\<close> or \<open>mdhd\<close> with the field \<open>v\<close>, in the 32-bit or the 64-bit version, and an \<open>hdlr\<close>; what surrounds the fields is arbitrary.\<close>

definition versioned_for :: "u32 \<Rightarrow> bytes \<Rightarrow> bool" where
  "versioned_for v body \<longleftrightarrow> (\<exists>ver pre rest. body = ver # pre @ put32 v @ rest \<and> length pre = (if ver = 1 then 19 else 11))"

definition handler_for :: "bytes \<Rightarrow> bytes \<Rightarrow> bool" where
  "handler_for h body \<longleftrightarrow> (\<exists>pre rest. body = pre @ h @ rest \<and> length pre = 8 \<and> length h = 4)"

text \<open>A descriptor whose length, less than 128, is written with \<open>k\<close> leading zero digits.\<close>

definition desc :: "nat \<Rightarrow> byte \<Rightarrow> bytes \<Rightarrow> bytes" where
  "desc k tag content = tag # replicate k 0x80 @ word_of_nat (length content) # content"

definition esds_for :: "bytes \<Rightarrow> bytes \<Rightarrow> bool" where
  "esds_for asc body \<longleftrightarrow> (\<exists>hd k1 k2 k3 es_id flags dcd r1 r2 r3 es.
     body = hd @ desc k1 3 es @ r1 \<and> es = es_id @ flags # desc k2 4 (0x40 # dcd @ desc k3 5 asc @ r3) @ r2
     \<and> length hd = 4 \<and> k1 \<le> 3 \<and> k2 \<le> 3 \<and> k3 \<le> 3 \<and> length es_id = 2 \<and> flags AND 0xE0 = 0 \<and> length dcd = 12 \<and> asc \<noteq> [] \<and> length es < 128)"

definition entry_for :: "bytes \<Rightarrow> bytes \<Rightarrow> bool" where
  "entry_for asc body \<longleftrightarrow> (\<exists>hd bs. body = hd @ boxes bs \<and> length hd = 28 \<and> boxes_ok bs \<and> has_box (lit ''esds'') (esds_for asc) bs)"

definition stsd_for :: "bytes \<Rightarrow> bytes \<Rightarrow> bool" where
  "stsd_for asc body \<longleftrightarrow> (\<exists>hd bs. body = hd @ boxes bs \<and> length hd = 8 \<and> boxes_ok bs \<and> has_box (lit ''mp4a'') (entry_for asc) bs)"

definition mdia_for :: "u32 \<Rightarrow> bytes \<Rightarrow> bytes \<Rightarrow> bool" where
  "mdia_for timescale asc = in_box (\<lambda>bs. has_box (lit ''mdhd'') (versioned_for timescale) bs \<and> has_box (lit ''hdlr'') (handler_for (lit ''soun'')) bs
     \<and> has_box (lit ''minf'') (in_box (has_box (lit ''stbl'') (in_box (has_box (lit ''stsd'') (stsd_for asc))))) bs)"

text \<open>The audio track, and a track of another kind (video, subtitles, a track without media).\<close>

definition trak_for :: "u32 \<Rightarrow> u32 \<Rightarrow> bytes \<Rightarrow> bytes \<Rightarrow> bool" where
  "trak_for trackID timescale asc = in_box (\<lambda>bs. \<exists>tkhd mdia. bodies (lit ''tkhd'') bs = [tkhd] \<and> versioned_for trackID tkhd
     \<and> bodies (lit ''mdia'') bs = [mdia] \<and> mdia_for timescale asc mdia)"

definition other_mdia :: "bytes \<Rightarrow> bool" where
  "other_mdia = in_box (\<lambda>bs. opt_box (lit ''hdlr'') (\<lambda>body. \<exists>h. h \<noteq> lit ''soun'' \<and> handler_for h body) bs
     \<and> opt_box (lit ''minf'') (in_box (opt_box (lit ''stbl'') (in_box (\<lambda>_. True)))) bs)"

definition other_trak :: "bytes \<Rightarrow> bool" where
  "other_trak = in_box (\<lambda>bs. list_all other_mdia (bodies (lit ''mdia'') bs))"

text \<open>The defaults of the tracks, one \<open>trex\<close> for a track.\<close>

definition trex_for :: "bytes \<Rightarrow> u32 \<times> u32 \<times> u32 \<Rightarrow> bool" where
  "trex_for body e \<longleftrightarrow> (\<exists>hd sdi rest. body = hd @ put32 (fst e) @ sdi @ put32 (fst (snd e)) @ put32 (snd (snd e)) @ rest \<and> length hd = 4 \<and> length sdi = 4)"

definition mvex_for :: "AudioInit \<Rightarrow> bytes \<Rightarrow> bool" where
  "mvex_for ai = in_box (\<lambda>bs. \<exists>es. list_all2 trex_for (bodies (lit ''trex'') bs) es \<and> distinct (map fst es)
     \<and> (ai_DefaultDur ai, ai_DefaultSize ai) = (case map_of es (ai_TrackID ai) of None \<Rightarrow> (0, 0) | Some d \<Rightarrow> d))"

text \<open>The tracks in front of the audio track are of other kinds; what comes behind it, and where \<open>mvex\<close> is, does not matter.\<close>

definition moov_for :: "AudioInit \<Rightarrow> bytes \<Rightarrow> bool" where
  "moov_for ai = in_box (\<lambda>bs. (\<exists>before trak after. bs = before @ (lit ''trak'', trak) # after \<and> list_all other_trak (bodies (lit ''trak'') before)
       \<and> trak_for (ai_TrackID ai) (ai_Timescale ai) (ai_ASC ai) trak)
     \<and> (case map_of bs (lit ''mvex'') of None \<Rightarrow> ai_DefaultDur ai = 0 \<and> ai_DefaultSize ai = 0 | Some mvex \<Rightarrow> mvex_for ai mvex))"

definition init_for :: "AudioInit \<Rightarrow> bytes \<Rightarrow> bool" where
  "init_for ai = in_box (has_box (lit ''moov'') (moov_for ai))"

section \<open>Reading an initialization segment\<close>

lemma in_boxI: "boxes_ok bs \<Longrightarrow> Q bs \<Longrightarrow> in_box Q (boxes bs)"
  by (auto simp: in_box_def)

lemma firstChild_has: "boxes_ok bs \<Longrightarrow> has_box t P bs \<Longrightarrow> \<exists>body. firstChild (boxes bs) t = ok (Some body) \<and> P body"
  by (auto simp: has_box_def firstChild_boxes)

lemma firstChild_opt: "boxes_ok bs \<Longrightarrow> opt_box t P bs \<Longrightarrow> \<exists>r. firstChild (boxes bs) t = ok r \<and> pred_option P r"
  by (simp add: opt_box_def firstChild_boxes)

lemma low_length:
  assumes "n < 128"
  shows "unat (word_of_nat n :: byte) = n" "(word_of_nat n :: byte) AND 0x7F = word_of_nat n" "(word_of_nat n :: byte) AND 0x80 = 0"
proof -
  show "unat (word_of_nat n :: byte) = n" using assms by (intro unat_word_of_nat_small) simp
  have "take_bit 7 (word_of_nat n :: byte) = word_of_nat n" using assms by (simp add: take_bit_of_nat take_bit_nat_eq_self)
  then show low: "(word_of_nat n :: byte) AND 0x7F = word_of_nat n" by (simp add: take_bit_eq_mask mask_eq_exp_minus_1)
  have "(word_of_nat n :: byte) AND 0x80 = (word_of_nat n AND 0x7F) AND 0x80" unfolding low ..
  also have "\<dots> = word_of_nat n AND (0x7F AND 0x80)" by (simp only: and.assoc)
  finally show "(word_of_nat n :: byte) AND 0x80 = 0" by simp
qed

lemma desc_len_padded:
  assumes "k < n" "length content < 128"
  shows "desc_len n (pre @ replicate k 0x80 @ word_of_nat (length content) # content @ rest) (length pre) 0 = ok (length pre + k + 1, length content)"
  using assms(1)
proof (induction k arbitrary: n pre)
  case 0
  then show ?case using low_length [OF assms(2)] by (cases n) (simp_all add: nth_append)
next
  case (Suc k)
  then obtain m where n: "n = Suc m" "k < m" by (cases n) auto
  have "desc_len m ((pre @ [0x80]) @ replicate k 0x80 @ word_of_nat (length content) # content @ rest) (length (pre @ [0x80])) 0
      = ok (length (pre @ [0x80]) + k + 1, length content)" by (rule Suc.IH [OF n(2)])
  then show ?case by (simp add: n nth_append)
qed

lemma readDescriptor_desc:
  assumes "k \<le> 3" "length content < 128"
  shows "readDescriptor (desc k tag content @ rest) = ok (tag, content, rest)"
proof -
  have l: "desc_len 4 (desc k tag content @ rest) 1 0 = ok (k + 2, length content)"
    using desc_len_padded [of k 4 content "[tag]" rest] assms by (simp add: desc_def)
  moreover have "slice (desc k tag content @ rest) (k + 2) (k + 2 + length content) = Some content"
    using slice_append3 [of "tag # replicate k 0x80 @ [word_of_nat (length content)]" content rest] by (simp add: desc_def)
  moreover have "length (desc k tag content) = k + 2 + length content" by (simp add: desc_def)
  moreover from this have "drop (k + 2 + length content) (desc k tag content @ rest) = rest" by simp
  ultimately show ?thesis by (simp add: readDescriptor_def slice_all del: slice_Some) (simp add: desc_def)
qed

lemma descriptor_of_desc: "k \<le> 3 \<Longrightarrow> length content < 128 \<Longrightarrow> descriptor_of tag (desc k tag content @ rest) = ok content"
  by (simp add: descriptor_of_def readDescriptor_desc)

lemma parseESDS_for:
  assumes "esds_for asc body"
  shows "parseESDS body = ok asc"
proof -
  obtain hd k1 k2 k3 es_id flags dcd0 r1 r2 r3 es where
    b: "body = hd @ desc k1 3 es @ r1" "es = es_id @ flags # desc k2 4 (0x40 # dcd0 @ desc k3 5 asc @ r3) @ r2" and
    c: "length hd = 4" "k1 \<le> 3" "k2 \<le> 3" "k3 \<le> 3" "length es_id = 2" "flags AND 0xE0 = 0" "length dcd0 = 12" "asc \<noteq> []" "length es < 128"
    using assms unfolding esds_for_def by blast
  define dcd where "dcd = 0x40 # dcd0 @ desc k3 5 asc @ r3"
  have es: "es = es_id @ flags # desc k2 4 dcd @ r2" by (simp add: b(2) dcd_def)
  have "length dcd < 128" "length asc < 128" using c(9) by (simp_all add: es dcd_def desc_def)
  then have "descriptor_of 3 (desc k1 3 es @ r1) = ok es" "descriptor_of 4 (desc k2 4 dcd @ r2) = ok dcd" "descriptor_of 5 (desc k3 5 asc @ r3) = ok asc"
    using c by (simp_all add: descriptor_of_desc)
  moreover have "es_fields es = ok 3"
  proof -
    have m: "flags AND 0x80 = 0" "flags AND 0x40 = 0" "flags AND 0x20 = 0"
    proof -
      have "flags AND k = 0" if "0xE0 AND k = k" for k
      proof -
        have "flags AND k = flags AND (0xE0 AND k)" by (simp only: that)
        also have "\<dots> = (flags AND 0xE0) AND k" by (simp only: and.assoc)
        finally show ?thesis by (simp add: c(6))
      qed
      then show "flags AND 0x80 = 0" "flags AND 0x40 = 0" "flags AND 0x20 = 0" by simp_all
    qed
    have "idx es 2 = Some flags" using c(5) by (simp add: es nth_append)
    then show ?thesis by (simp add: es_fields_def m caps)
  qed
  moreover have "drop 3 es = desc k2 4 dcd @ r2" "3 \<le> length es" using c(5) by (simp_all add: es numeral_eq_Suc)
  moreover have "idx dcd 0 = Some 0x40" "drop 13 dcd = desc k3 5 asc @ r3" "13 \<le> length dcd" using c(7) by (simp_all add: dcd_def)
  moreover have "drop 4 body = desc k1 3 es @ r1" "\<not> length body < 4" using c(1) by (simp_all add: b(1))
  ultimately show ?thesis using c(8) by (simp add: parseESDS_def caps slice_all del: slice_Some)
qed

lemma stsd_entry_local: "body_only stsd_entry"
proof (rule body_onlyI)
  fix data t body :: bytes and off s
  assume "slice data (off + 8) (off + 8 + length body) = Some body"
  then show "stsd_entry data \<lparr>box_typ = t, box_start = off, bodyOff = off + 8, bodyEnd = off + 8 + length body\<rparr> s
    = stsd_entry body \<lparr>box_typ = t, box_start = off, bodyOff = 0, bodyEnd = length body\<rparr> s"
    by (cases "parseMP4A body" rule: go_cases) (simp_all add: stsd_entry_def Let_def)
qed

lemma parseMP4A_for: "entry_for asc body \<Longrightarrow> parseMP4A body = ok asc"
proof -
  assume "entry_for asc body"
  then obtain hd bs where b: "body = hd @ boxes bs" "length hd = 28" "boxes_ok bs" "has_box (lit ''esds'') (esds_for asc) bs" by (auto simp: entry_for_def)
  obtain e where "firstChild (boxes bs) (lit ''esds'') = ok (Some e)" "esds_for asc e" using firstChild_has [OF b(3,4)] by blast
  then show ?thesis using parseESDS_for b(1,2) by (simp add: parseMP4A_def caps)
qed

lemma stsd_walk:
  assumes "map_of bs (lit ''mp4a'') = Some body" "parseMP4A body = ok asc" "sc_entryErr s = None"
  shows "\<exists>s'. walk_list (on_body stsd_entry) off bs s = Some (None, s') \<and> sc_entryErr s' = None \<and> sc_asc s' = Some asc"
  using assms
proof (induction bs arbitrary: off s)
  case (Cons x bs)
  obtain t b where x: "x = (t, b)" by fastforce
  show ?case
  proof (cases "t = lit ''mp4a''")
    case True
    then show ?thesis using Cons.prems by (simp add: x on_body_def stsd_entry_def slice_all Let_def del: slice_Some)
  next
    case False
    then have m: "map_of bs (lit ''mp4a'') = Some body" using Cons.prems(1) by (simp add: x)
    show ?thesis using False Cons.IH [OF m Cons.prems(2)] Cons.prems(3) by (simp add: x on_body_def stsd_entry_def Let_def)
  qed
qed simp

lemma parseSTSD_for: "stsd_for asc body \<Longrightarrow> parseSTSDForASC (Some body) = ok asc"
proof -
  assume "stsd_for asc body"
  then obtain hd bs e where b: "body = hd @ boxes bs" "length hd = 8" "boxes_ok bs" "map_of bs (lit ''mp4a'') = Some e" "entry_for asc e" by (auto simp: stsd_for_def has_box_def)
  have "drop 8 body = boxes bs" "8 \<le> length body" using b(1,2) by simp_all
  then show ?thesis
    using walk_boxes_local [OF b(3) stsd_entry_local] stsd_walk [OF b(4) parseMP4A_for [OF b(5)], of "\<lparr>sc_asc = None, sc_entryErr = None, sc_sawEncrypted = False, sc_firstType = None\<rparr>" 0]
    by (auto simp: parseSTSDForASC_def slice_all simp del: slice_Some)
qed

lemma versioned_field_for: "versioned_for v body \<Longrightarrow> versioned_field body = Some (Some v)"
proof -
  assume "versioned_for v body"
  then obtain ver pre rest where b: "body = ver # pre @ put32 v @ rest" "length pre = (if ver = 1 then 19 else 11)" by (auto simp: versioned_for_def)
  have "u32be body (length (ver # pre)) = Some v" using u32_codec.dec_enc [of "ver # pre" v rest] by (simp add: b(1))
  then show ?thesis using b(2) by (simp add: versioned_field_def b(1) split: if_splits)
qed

lemma parseHDLR_for: "handler_for h body \<Longrightarrow> parseHDLR body = Some h"
  using slice_append3 [of _ h] by (auto simp: handler_for_def parseHDLR_def)

lemma parseMdia_for:
  assumes "mdia_for timescale asc mdia"
  shows "\<exists>stsd. parseMdia mdia = ok (lit ''soun'', timescale, Some stsd) \<and> stsd_for asc stsd"
proof -
  obtain bs where b: "mdia = boxes bs" "boxes_ok bs" "has_box (lit ''mdhd'') (versioned_for timescale) bs" "has_box (lit ''hdlr'') (handler_for (lit ''soun'')) bs"
      "has_box (lit ''minf'') (in_box (has_box (lit ''stbl'') (in_box (has_box (lit ''stsd'') (stsd_for asc))))) bs"
    using assms by (auto simp: mdia_for_def in_box_def)
  obtain mdhd hdlr minf where m: "firstChild mdia (lit ''mdhd'') = ok (Some mdhd)" "versioned_for timescale mdhd"
      "firstChild mdia (lit ''hdlr'') = ok (Some hdlr)" "handler_for (lit ''soun'') hdlr"
      "firstChild mdia (lit ''minf'') = ok (Some minf)" "in_box (has_box (lit ''stbl'') (in_box (has_box (lit ''stsd'') (stsd_for asc)))) minf"
    using firstChild_has [OF b(2,3)] firstChild_has [OF b(2,4)] firstChild_has [OF b(2,5)] by (auto simp: b(1))
  obtain stbl where s: "firstChild minf (lit ''stbl'') = ok (Some stbl)" "in_box (has_box (lit ''stsd'') (stsd_for asc)) stbl"
    using m(6) firstChild_has unfolding in_box_def by blast
  obtain stsd where "firstChild stbl (lit ''stsd'') = ok (Some stsd)" "stsd_for asc stsd" using s(2) firstChild_has unfolding in_box_def by blast
  then show ?thesis using m s(1) by (simp add: parseMdia_def parseMDHD_def versioned_field_for parseHDLR_for)
qed

lemma parseMdia_other:
  assumes "other_mdia mdia"
  shows "\<exists>h ts stsd. parseMdia mdia = ok (h, ts, stsd) \<and> h \<noteq> lit ''soun''"
proof -
  obtain bs where b: "mdia = boxes bs" "boxes_ok bs" "opt_box (lit ''hdlr'') (\<lambda>body. \<exists>h. h \<noteq> lit ''soun'' \<and> handler_for h body) bs"
      "opt_box (lit ''minf'') (in_box (opt_box (lit ''stbl'') (in_box (\<lambda>_. True)))) bs"
    using assms by (auto simp: other_mdia_def in_box_def)
  obtain mdhd where 1: "firstChild mdia (lit ''mdhd'') = ok mdhd" using firstChild_boxes [OF b(2)] by (simp add: b(1))
  obtain hdlr where 2: "firstChild mdia (lit ''hdlr'') = ok hdlr" "pred_option (\<lambda>body. \<exists>h. h \<noteq> lit ''soun'' \<and> handler_for h body) hdlr"
    using firstChild_opt [OF b(2,3)] by (auto simp: b(1))
  obtain minf where 3: "firstChild mdia (lit ''minf'') = ok minf" "pred_option (in_box (opt_box (lit ''stbl'') (in_box (\<lambda>_. True)))) minf"
    using firstChild_opt [OF b(2,4)] by (auto simp: b(1))
  obtain ts where ts: "(case mdhd of None \<Rightarrow> Some 0 | Some body \<Rightarrow> map_option (\<lambda>v. case v of None \<Rightarrow> 0 | Some t \<Rightarrow> t) (parseMDHD body)) = Some ts"
  proof (cases mdhd)
    case (Some body)
    obtain r where "versioned_field body = Some r" using versioned_field_total by blast
    then show ?thesis using that Some by (simp add: parseMDHD_def)
  qed (use that in simp)
  obtain h where h: "(case hdlr of None \<Rightarrow> Some [] | Some body \<Rightarrow> parseHDLR body) = Some h" "h \<noteq> lit ''soun''"
    using 2(2) parseHDLR_for by (cases hdlr) (auto simp: lit_simps)
  show ?thesis
  proof (cases minf)
    case None
    then show ?thesis using 1 2 3 ts h by (simp add: parseMdia_def)
  next
    case (Some m)
    then obtain stbl where 4: "firstChild m (lit ''stbl'') = ok stbl" "pred_option (in_box (\<lambda>_. True)) stbl" using 3(2) firstChild_opt [of _ "lit ''stbl''" "in_box (\<lambda>_. True)"] by (auto simp: in_box_def)
    show ?thesis
    proof (cases stbl)
      case None
      then show ?thesis using 1 2 3 4 ts h Some by (simp add: parseMdia_def)
    next
      case s: (Some s)
      then obtain stsd where "firstChild s (lit ''stsd'') = ok stsd" using 4(2) firstChild_boxes by (auto simp: in_box_def)
      then show ?thesis using 1 2 3 4 ts h Some s by (simp add: parseMdia_def)
    qed
  qed
qed

lemma walk_list_pass:
  assumes "list_all (\<lambda>(t, body). length t = 4 \<and> (\<forall>off s. g t off body s = Some (Continue s))) xs"
  shows "walk_list g off (xs @ ys) s = walk_list g (off + length (boxes xs)) ys s"
  using assms by (induction xs arbitrary: off) (auto simp: add.assoc)

lemma trak_box_local: "body_only trak_box"
  by (rule body_onlyI) (simp add: trak_box_def)

lemma init_box_local: "body_only init_box"
proof (rule body_onlyI)
  fix data t body :: bytes and off s
  assume "slice data (off + 8) (off + 8 + length body) = Some body"
  then show "init_box data \<lparr>box_typ = t, box_start = off, bodyOff = off + 8, bodyEnd = off + 8 + length body\<rparr> s
    = init_box body \<lparr>box_typ = t, box_start = off, bodyOff = 0, bodyEnd = length body\<rparr> s"
    by (cases "parseTrak body" rule: go_cases) (simp_all add: init_box_def)
qed

lemma trex_box_local: "body_only trex_box"
  by (rule body_onlyI) (simp add: trex_box_def)

lemma bodies_simps [simp]:
  "bodies t [] = []" "bodies t ((t', body) # bs) = (if t' = t then body # bodies t bs else bodies t bs)" "bodies t (bs @ bs') = bodies t bs @ bodies t bs'"
  by (simp_all add: bodies_def)

text \<open>The walk over a track leaves the last header that could be read and the last media box.\<close>

lemma trak_walk:
  "walk_list (on_body trak_box) off bs s =
     Some (None, fold (\<lambda>h i. case versioned_field h of Some (Some v) \<Rightarrow> Some v | _ \<Rightarrow> i) (bodies (lit ''tkhd'') bs) (fst s),
       fold (\<lambda>m _. Some m) (bodies (lit ''mdia'') bs) (snd s))"
proof (induction bs arbitrary: off s)
  case (Cons x bs)
  obtain t body where x: "x = (t, body)" by fastforce
  obtain r where r: "versioned_field body = Some r" using versioned_field_total by blast
  have "lit ''tkhd'' \<noteq> lit ''mdia''" by (simp add: lit_simps)
  then show ?case using Cons.IH r by (cases r) (auto simp: x on_body_def trak_box_def parseTKHD_def slice_all simp del: slice_Some)
qed simp

lemma parseTrak_for:
  assumes "trak_for i ts asc trak"
  shows "parseTrak trak = ok (Some \<lparr>ai_ASC = asc, ai_Timescale = ts, ai_TrackID = i, ai_DefaultSize = 0, ai_DefaultDur = 0\<rparr>)"
proof -
  obtain bs tkhd mdia where b: "trak = boxes bs" "boxes_ok bs" "bodies (lit ''tkhd'') bs = [tkhd]" "versioned_for i tkhd"
      "bodies (lit ''mdia'') bs = [mdia]" "mdia_for ts asc mdia" using assms by (auto simp: trak_for_def in_box_def)
  obtain stsd where "parseMdia mdia = ok (lit ''soun'', ts, Some stsd)" "stsd_for asc stsd" using parseMdia_for [OF b(6)] by blast
  then show ?thesis using walk_boxes_local [OF b(2) trak_box_local] b parseSTSD_for by (simp add: parseTrak_def trak_walk versioned_field_for)
qed

lemma parseTrak_other: "other_trak trak \<Longrightarrow> parseTrak trak = ok None"
proof -
  assume "other_trak trak"
  then obtain bs where b: "trak = boxes bs" "boxes_ok bs" "list_all other_mdia (bodies (lit ''mdia'') bs)" by (auto simp: other_trak_def in_box_def)
  define tk where "tk = fold (\<lambda>h i. case versioned_field h of Some (Some v) \<Rightarrow> Some v | _ \<Rightarrow> i) (bodies (lit ''tkhd'') bs) None"
  have walk: "eachBox trak (trak_box trak) 0 (None, None) = Some (None, tk, fold (\<lambda>m _. Some m) (bodies (lit ''mdia'') bs) None)"
    using walk_boxes_local [OF b(2) trak_box_local] by (simp add: b(1) trak_walk tk_def)
  show ?thesis
  proof (cases "bodies (lit ''mdia'') bs" rule: rev_cases)
    case (snoc ms m)
    then have "other_mdia m" using b(3) by simp
    then obtain h ts stsd where "parseMdia m = ok (h, ts, stsd)" "h \<noteq> lit ''soun''" using parseMdia_other by blast
    then show ?thesis using walk snoc by (simp add: parseTrak_def)
  qed (use walk in \<open>simp add: parseTrak_def\<close>)
qed

lemma trex_for_reads:
  assumes "trex_for body (i, d, z)"
  shows "20 \<le> length body" "u32be body 4 = Some i" "u32be body 12 = Some d" "u32be body 16 = Some z"
proof -
  obtain hd sdi rest where b: "body = hd @ put32 i @ sdi @ put32 d @ put32 z @ rest" "length hd = 4" "length sdi = 4" using assms by (auto simp: trex_for_def)
  show "20 \<le> length body" using b by simp
  show "u32be body 4 = Some i" "u32be body 12 = Some d" "u32be body 16 = Some z"
    using u32_codec.dec_enc [of hd i "sdi @ put32 d @ put32 z @ rest"] u32_codec.dec_enc [of "hd @ put32 i @ sdi" d "put32 z @ rest"]
      u32_codec.dec_enc [of "hd @ put32 i @ sdi @ put32 d" z rest] b by simp_all
qed

lemma trex_walk:
  "list_all2 trex_for (bodies (lit ''trex'') bs) es \<Longrightarrow> walk_list (on_body trex_box) off bs m = Some (None, m ++ map_of (rev es))"
proof (induction bs arbitrary: off m es)
  case (Cons x bs)
  obtain t body where x: "x = (t, body)" by fastforce
  show ?case
  proof (cases "t = lit ''trex''")
    case True
    then obtain i d z es' where e: "es = (i, d, z) # es'" "trex_for body (i, d, z)" "list_all2 trex_for (bodies (lit ''trex'') bs) es'"
      using Cons.prems by (auto simp: x list_all2_Cons1)
    have "on_body trex_box t off body m = Some (Continue (m(i \<mapsto> (d, z))))"
      using trex_for_reads [OF e(2)] by (simp add: on_body_def trex_box_def True slice_all del: slice_Some u32be_Some)
    then show ?thesis using Cons.IH [OF e(3)] by (simp add: x e(1) map_add_def fun_eq_iff split: option.splits)
  next
    case False
    then show ?thesis using Cons by (simp add: x on_body_def trex_box_def)
  qed
qed simp

lemma map_of_rev_distinct: "distinct (map fst es) \<Longrightarrow> map_of (rev es) = map_of es"
proof (rule ext)
  fix k
  assume "distinct (map fst es)"
  then have "map_of (rev es) k = Some v \<longleftrightarrow> map_of es k = Some v" for v by (simp add: rev_map [symmetric])
  then show "map_of (rev es) k = map_of es k" by (metis not_None_eq)
qed

lemma parseTrex_for:
  assumes "boxes_ok bs" "case map_of bs (lit ''mvex'') of None \<Rightarrow> ai_DefaultDur ai = 0 \<and> ai_DefaultSize ai = 0 | Some mvex \<Rightarrow> mvex_for ai mvex"
  shows "\<exists>m. parseTrex (boxes bs) = ok m \<and> (ai_DefaultDur ai, ai_DefaultSize ai) = (case m (ai_TrackID ai) of None \<Rightarrow> (0, 0) | Some d \<Rightarrow> d)"
proof (cases "map_of bs (lit ''mvex'')")
  case None
  then show ?thesis using assms firstChild_boxes by (simp add: parseTrex_def)
next
  case (Some mvex)
  then obtain xs es where x: "mvex = boxes xs" "boxes_ok xs" "list_all2 trex_for (bodies (lit ''trex'') xs) es" "distinct (map fst es)"
      "(ai_DefaultDur ai, ai_DefaultSize ai) = (case map_of es (ai_TrackID ai) of None \<Rightarrow> (0, 0) | Some d \<Rightarrow> d)"
    using assms(2) by (auto simp: mvex_for_def in_box_def)
  have "eachBox mvex (trex_box mvex) 0 Map.empty = Some (None, map_of es)"
    using walk_boxes_local [OF x(2) trex_box_local] trex_walk [OF x(3)] x(4) by (simp add: x(1) map_of_rev_distinct)
  then show ?thesis using firstChild_boxes [OF assms(1)] Some x(5) by (simp add: parseTrex_def)
qed

lemma init_walk:
  assumes "boxes_ok bs" "bs = before @ (lit ''trak'', trak) # after" "list_all other_trak (bodies (lit ''trak'') before)" "parseTrak trak = ok (Some info)"
  shows "eachBox (boxes bs) (init_box (boxes bs)) 0 None = Some (None, Some (Inr info))"
proof -
  have "list_all (\<lambda>(t, body). t = lit ''trak'' \<longrightarrow> other_trak body) before"
    using assms(3) by (induction before) (auto simp: bodies_def list_all_iff split: if_splits)
  then have pass: "walk_list (on_body init_box) off (before @ ys) None = walk_list (on_body init_box) (off + length (boxes before)) ys None" for off ys
    using assms(1,2) parseTrak_other
    by (intro walk_list_pass) (fastforce simp: list_all_iff boxes_ok_def on_body_def init_box_def slice_all simp del: slice_Some)
  show ?thesis unfolding walk_boxes_local [OF assms(1) init_box_local] unfolding assms(2) pass
    using assms(4) by (simp add: on_body_def init_box_def slice_all del: slice_Some)
qed

text \<open>The parser finds the audio track and reads what the segment says of it.\<close>

lemma ParseInit_for:
  assumes "init_for ai data" "init_ok ai"
  shows "ParseInit data = ok ai"
proof -
  obtain bs moov where b: "data = boxes bs" "boxes_ok bs" "firstChild data (lit ''moov'') = ok (Some moov)" "moov_for ai moov"
    using assms(1) firstChild_has [of _ "lit ''moov''" "moov_for ai"] unfolding init_for_def in_box_def by blast
  then obtain ms before trak after where m: "moov = boxes ms" "boxes_ok ms" "ms = before @ (lit ''trak'', trak) # after"
      "list_all other_trak (bodies (lit ''trak'') before)" "trak_for (ai_TrackID ai) (ai_Timescale ai) (ai_ASC ai) trak"
      "case map_of ms (lit ''mvex'') of None \<Rightarrow> ai_DefaultDur ai = 0 \<and> ai_DefaultSize ai = 0 | Some mvex \<Rightarrow> mvex_for ai mvex"
    unfolding moov_for_def in_box_def by blast
  obtain d where d: "parseTrex moov = ok d" "(ai_DefaultDur ai, ai_DefaultSize ai) = (case d (ai_TrackID ai) of None \<Rightarrow> (0, 0) | Some d \<Rightarrow> d)"
    using parseTrex_for [OF m(2,6)] by (auto simp: m(1))
  have "eachBox moov (init_box moov) 0 None = Some (None, Some (Inr (ai\<lparr>ai_DefaultDur := 0, ai_DefaultSize := 0\<rparr>)))"
    using init_walk [OF m(2-4) parseTrak_for [OF m(5)]] by (simp add: m(1))
  then show ?thesis using b(3) d assms(2) by (cases ai) (auto simp: ParseInit_def init_ok_def split: option.splits)
qed

section \<open>The format of a media fragment\<close>

text \<open>The version and the 24 flag bits that open a box, and a field that is there if a flag says so.\<close>

definition fullbox :: "byte \<Rightarrow> u32 \<Rightarrow> bytes" where
  "fullbox ver fl = [ver, ucast (drop_bit 16 fl), ucast (drop_bit 8 fl), ucast fl]"

definition field_if :: "u32 \<Rightarrow> u32 \<Rightarrow> bytes \<Rightarrow> bytes" where
  "field_if fl k x = (if fl AND k \<noteq> 0 then x else [])"

text \<open>A track fragment header: the track, where data offsets count from and whether it says so itself, and the default duration and size, zero if not given.\<close>

definition tfhd_for :: "u32 \<Rightarrow> nat \<Rightarrow> int \<times> bool \<times> u32 \<times> u32 \<Rightarrow> bytes \<Rightarrow> bool" where
  "tfhd_for trackID start r body \<longleftrightarrow> (\<exists>ver fl bo sdi dd dz rest.
     body = fullbox ver fl @ put32 trackID @ field_if fl tfhdBaseDataOffset (put64 bo) @ field_if fl tfhdSampleDescIndex sdi
       @ field_if fl tfhdDefaultDuration (put32 dd) @ field_if fl tfhdDefaultSize (put32 dz) @ rest
     \<and> take_bit 24 fl = fl \<and> length sdi = 4 \<and> unat bo < 2 ^ 31
     \<and> r = (if fl AND tfhdBaseDataOffset \<noteq> 0 then int (unat bo) else int start, fl AND tfhdBaseDataOffset \<noteq> 0,
         if fl AND tfhdDefaultDuration \<noteq> 0 then dd else 0, if fl AND tfhdDefaultSize \<noteq> 0 then dz else 0))"

text \<open>A sample in a track run, with the defaults where the run does not list its duration or size.\<close>

definition record_for :: "u32 \<Rightarrow> u32 \<Rightarrow> u32 \<Rightarrow> mp4_sample \<Rightarrow> bytes \<Rightarrow> bool" where
  "record_for fl dd dz s rec \<longleftrightarrow>
     (\<exists>f c. rec = field_if fl trunSampleDuration (put32 (sm_Dur s)) @ field_if fl trunSampleSize (put32 (word_of_nat (length (sm_Data s))))
         @ field_if fl trunSampleFlags f @ field_if fl trunSampleCTO c \<and> length f = 4 \<and> length c = 4)
     \<and> sm_Data s \<noteq> [] \<and> length (sm_Data s) < 2 ^ 32
     \<and> (fl AND trunSampleDuration \<noteq> 0 \<or> sm_Dur s = dd) \<and> (fl AND trunSampleSize \<noteq> 0 \<or> length (sm_Data s) = unat dz)"

text \<open>A track run: its flags, its data offset and its samples.\<close>

type_synonym track_run = "u32 \<times> u32 \<times> mp4_sample list"

definition trun_for :: "u32 \<Rightarrow> u32 \<Rightarrow> track_run \<Rightarrow> bytes \<Rightarrow> bool" where
  "trun_for dd dz r body \<longleftrightarrow> (case r of (fl, off, ss) \<Rightarrow> \<exists>ver fsf recs rest.
     body = fullbox ver fl @ put32 (word_of_nat (length ss)) @ field_if fl trunDataOffset (put32 off) @ field_if fl trunFirstSampleFlags fsf @ concat recs @ rest
     \<and> take_bit 24 fl = fl \<and> length fsf = 4 \<and> length ss < 2 ^ 32 \<and> list_all2 (record_for fl dd dz) ss recs)"

definition payload :: "mp4_sample list \<Rightarrow> bytes" where
  "payload ss = concat (map sm_Data ss)"

text \<open>The data of the runs lies where their offsets say, or behind the data of the run before.\<close>

fun runs_at :: "bytes \<Rightarrow> int \<Rightarrow> int \<Rightarrow> bool \<Rightarrow> track_run list \<Rightarrow> bool" where
  "runs_at frag base ptr located [] = True"
| "runs_at frag base ptr located ((fl, off, ss) # rs) =
     (let given = (fl AND trunDataOffset \<noteq> 0); p = (if given then base + sint off else ptr)
      in (given \<or> located) \<and> 0 \<le> p \<and> slice frag (nat p) (nat p + length (payload ss)) = Some (payload ss)
         \<and> runs_at frag base (p + int (length (payload ss))) True rs)"

definition traf_for :: "AudioInit \<Rightarrow> nat \<Rightarrow> bytes \<Rightarrow> mp4_sample list \<Rightarrow> bytes \<Rightarrow> bool" where
  "traf_for ai start frag ss = in_box (\<lambda>bs. \<exists>tfhd base given dd dz runs.
     map_of bs (lit ''tfhd'') = Some tfhd \<and> tfhd_for (ai_TrackID ai) start (base, given, dd, dz) tfhd
     \<and> list_all2 (trun_for (if dd = 0 then ai_DefaultDur ai else dd) (if dz = 0 then ai_DefaultSize ai else dz)) runs (bodies (lit ''trun'') bs)
     \<and> runs_at frag base base given runs \<and> ss = concat (map (snd \<circ> snd) runs))"

definition other_traf :: "u32 \<Rightarrow> bytes \<Rightarrow> bool" where
  "other_traf trackID = in_box (opt_box (lit ''tfhd'') (\<lambda>body. \<exists>hd i rest. body = hd @ put32 i @ rest \<and> length hd = 4 \<and> i \<noteq> trackID))"

definition moof_for :: "AudioInit \<Rightarrow> nat \<Rightarrow> bytes \<Rightarrow> mp4_sample list \<Rightarrow> bytes \<Rightarrow> bool" where
  "moof_for ai start frag ss = in_box (\<lambda>bs. \<exists>before traf after. bs = before @ (lit ''traf'', traf) # after
     \<and> list_all (other_traf (ai_TrackID ai)) (bodies (lit ''traf'') before) \<and> traf_for ai start frag ss traf)"

text \<open>
  A fragment that carries the samples \<open>ss\<close> of the track: other tracks' fragments in front of the track's, any boxes besides, the track's data anywhere, in one or
  several runs, and no more samples than the fragment has bytes.
\<close>

definition fragment_for :: "AudioInit \<Rightarrow> mp4_sample list \<Rightarrow> bytes \<Rightarrow> bool" where
  "fragment_for ai ss frag \<longleftrightarrow> length ss \<le> length frag
     \<and> (\<exists>before moof after. frag = boxes (before @ (lit ''moof'', moof) # after) \<and> boxes_ok (before @ (lit ''moof'', moof) # after)
          \<and> lit ''moof'' \<notin> fst ` set before \<and> moof_for ai (length (boxes before)) frag ss moof)"

section \<open>Reading a media fragment\<close>

lemma length_fullbox [simp]: "length (fullbox ver fl) = 4"
  by (simp add: fullbox_def)

lemma bytes24: "push_bit 16 (ucast (ucast (drop_bit 16 fl) :: byte)) OR push_bit 8 (ucast (ucast (drop_bit 8 fl) :: byte)) OR ucast (ucast fl :: byte) = take_bit 24 (fl :: u32)"
  (is "?l = ?r")
proof (rule bit_word_eqI)
  fix n :: nat
  consider "n < 8" | "8 \<le> n" "n < 16" | "16 \<le> n" "n < 24" | "24 \<le> n" by linarith
  then show "bit ?l n = bit ?r n" by cases (auto simp: bit_simps dest: bit_imp_le_length)
qed

lemma flags24_fullbox: "take_bit 24 fl = fl \<Longrightarrow> flags24 (fullbox ver fl @ rest) = Some fl"
  using bytes24 [of fl] by (simp add: flags24_def fullbox_def)

lemma length_field_if: "length (field_if fl k x) = (if fl AND k \<noteq> 0 then length x else 0)"
  by (simp add: field_if_def)

lemma parseTFHD_for:
  assumes "tfhd_for trackID start (base, given, dd, dz) body"
  shows "parseTFHD body start = ok (base, dd, dz, given)" "tfhdTrackID body = Some (Some trackID)"
proof -
  obtain ver fl bo sdi d z rest where b: "body = fullbox ver fl @ put32 trackID @ field_if fl tfhdBaseDataOffset (put64 bo) @ field_if fl tfhdSampleDescIndex sdi
       @ field_if fl tfhdDefaultDuration (put32 d) @ field_if fl tfhdDefaultSize (put32 z) @ rest"
     "take_bit 24 fl = fl" "length sdi = 4" "unat bo < 2 ^ 31"
     "base = (if fl AND tfhdBaseDataOffset \<noteq> 0 then int (unat bo) else int start)" "given = (fl AND tfhdBaseDataOffset \<noteq> 0)"
     "dd = (if fl AND tfhdDefaultDuration \<noteq> 0 then d else 0)" "dz = (if fl AND tfhdDefaultSize \<noteq> 0 then z else 0)"
    using assms unfolding tfhd_for_def prod.inject by blast
  have id: "u32be body 4 = Some trackID" "8 \<le> length body"
    using u32_codec.dec_enc [of "fullbox ver fl" trackID "field_if fl tfhdBaseDataOffset (put64 bo) @ field_if fl tfhdSampleDescIndex sdi
       @ field_if fl tfhdDefaultDuration (put32 d) @ field_if fl tfhdDefaultSize (put32 z) @ rest"] by (simp_all add: b(1))
  then show "tfhdTrackID body = Some (Some trackID)" by (simp add: tfhdTrackID_def)
  define p1 where "p1 = fullbox ver fl @ put32 trackID @ field_if fl tfhdBaseDataOffset (put64 bo)"
  define p2 where "p2 = p1 @ field_if fl tfhdSampleDescIndex sdi"
  define p3 where "p3 = p2 @ field_if fl tfhdDefaultDuration (put32 d)"
  define p4 where "p4 = p3 @ field_if fl tfhdDefaultSize (put32 z)"
  have l: "length p1 = 8 + (if fl AND tfhdBaseDataOffset \<noteq> 0 then 8 else 0)" "length p2 = length p1 + (if fl AND tfhdSampleDescIndex \<noteq> 0 then 4 else 0)"
      "length p3 = length p2 + (if fl AND tfhdDefaultDuration \<noteq> 0 then 4 else 0)" "length p4 = length p3 + (if fl AND tfhdDefaultSize \<noteq> 0 then 4 else 0)"
      "length p4 \<le> length body"
    using b(3) by (simp_all add: p1_def p2_def p3_def p4_def length_field_if) (simp add: b(1) length_field_if)
  have r1: "u64be body 8 = Some bo" if "fl AND tfhdBaseDataOffset \<noteq> 0"
    using u64_codec.dec_enc [of "fullbox ver fl @ put32 trackID" bo] that by (simp add: b(1) field_if_def)
  have r2: "u32be body (length p2) = Some d" if "fl AND tfhdDefaultDuration \<noteq> 0"
    using u32_codec.dec_enc [of p2 d "field_if fl tfhdDefaultSize (put32 z) @ rest"] that by (simp add: b(1) p2_def p1_def) (simp add: field_if_def)
  have r3: "u32be body (length p3) = Some z" if "fl AND tfhdDefaultSize \<noteq> 0"
    using u32_codec.dec_enc [of p3 z rest] that by (simp add: b(1) p3_def p2_def p1_def) (simp add: field_if_def)
  have le: "length p2 \<le> length body" "length p3 \<le> length body" using l(3-5) by linarith+
  have "16 \<le> length body" if "fl AND tfhdBaseDataOffset \<noteq> 0" using l(2-5) that unfolding l(1) by simp
  then have 1: "(if fl AND tfhdBaseDataOffset \<noteq> 0 then
             if 8 + 8 > length body then err ErrMalformedBox
             else do { v \<leftarrow> u64be body 8; if unat v > 2 ^ 31 - 1 then err ErrMalformedBox else ok (int (unat v), True, 16) }
           else ok (int start, False, 8)) = ok (base, given, length p1)"
    using l(1) r1 b(4-6) by (cases "fl AND tfhdBaseDataOffset = 0") (simp_all del: u64be_Some)
  have 2: "(if fl AND tfhdSampleDescIndex \<noteq> 0 then if length p1 + 4 > length body then err ErrMalformedBox else ok (length p1 + 4) else ok (length p1)) = ok (length p2)"
    using l(2) le(1) by (cases "fl AND tfhdSampleDescIndex = 0") simp_all
  have 3: "(if fl AND tfhdDefaultDuration \<noteq> 0 then
             if length p2 + 4 > length body then err ErrMalformedBox else do { d \<leftarrow> u32be body (length p2); ok (d, length p2 + 4) }
           else ok (0, length p2)) = ok (dd, length p3)"
    using l(3) le(2) r2 b(7) by (cases "fl AND tfhdDefaultDuration = 0") (simp_all del: u32be_Some)
  have 4: "(if fl AND tfhdDefaultSize \<noteq> 0 then if length p3 + 4 > length body then err ErrMalformedBox else do { z \<leftarrow> u32be body (length p3); ok z } else ok 0) = ok dz"
    using l(4,5) r3 b(8) by (cases "fl AND tfhdDefaultSize = 0") (simp_all del: u32be_Some)
  have fl: "flags24 body = Some fl" using flags24_fullbox [OF b(2)] by (simp add: b(1))
  show "parseTFHD body start = ok (base, dd, dz, given)"
    using id(2) unfolding parseTFHD_def fl Option.bind.simps 1 go_bind_simps prod.case 2 3 4 by simp
qed

lemma payload_simps [simp]: "payload [] = []" "payload (s # ss) = sm_Data s @ payload ss"
  by (simp_all add: payload_def)

lemma record_for_reads:
  assumes "record_for fl dd dz s rec"
  shows "length rec = perSample fl" "sm_Data s \<noteq> []"
    and "(if fl AND trunSampleDuration \<noteq> 0 then u32be (pre @ rec @ post) (length pre) else Some dd) = Some (sm_Dur s)"
    and "\<exists>z. (if fl AND trunSampleSize \<noteq> 0 then u32be (pre @ rec @ post) (length pre + (if fl AND trunSampleDuration \<noteq> 0 then 4 else 0)) else Some dz) = Some z
      \<and> unat z = length (sm_Data s)"
proof -
  obtain f c where r: "rec = field_if fl trunSampleDuration (put32 (sm_Dur s)) @ field_if fl trunSampleSize (put32 (word_of_nat (length (sm_Data s))))
         @ field_if fl trunSampleFlags f @ field_if fl trunSampleCTO c" "length f = 4" "length c = 4" "sm_Data s \<noteq> []" "length (sm_Data s) < 2 ^ 32"
      "fl AND trunSampleDuration \<noteq> 0 \<or> sm_Dur s = dd" "fl AND trunSampleSize \<noteq> 0 \<or> length (sm_Data s) = unat dz"
    using assms unfolding record_for_def by blast
  show "length rec = perSample fl" using r(2,3) by (simp add: r(1) perSample_def length_field_if)
  show "sm_Data s \<noteq> []" by (rule r(4))
  show "(if fl AND trunSampleDuration \<noteq> 0 then u32be (pre @ rec @ post) (length pre) else Some dd) = Some (sm_Dur s)"
    using u32_codec.dec_enc [of pre "sm_Dur s"] r(6) by (auto simp: r(1) field_if_def)
  show "\<exists>z. (if fl AND trunSampleSize \<noteq> 0 then u32be (pre @ rec @ post) (length pre + (if fl AND trunSampleDuration \<noteq> 0 then 4 else 0)) else Some dz) = Some z
      \<and> unat z = length (sm_Data s)"
  proof (cases "fl AND trunSampleSize = 0")
    case False
    define p where "p = pre @ field_if fl trunSampleDuration (put32 (sm_Dur s))"
    have p: "pre @ rec @ post = p @ put32 (word_of_nat (length (sm_Data s))) @ field_if fl trunSampleFlags f @ field_if fl trunSampleCTO c @ post"
      unfolding r(1) p_def using False by (simp add: field_if_def)
    have l: "length p = length pre + (if fl AND trunSampleDuration \<noteq> 0 then 4 else 0)" by (simp add: p_def length_field_if)
    have "unat (word_of_nat (length (sm_Data s)) :: u32) = length (sm_Data s)" using r(5) by (intro unat_word_of_nat_small) simp
    then show ?thesis using False unfolding p l [symmetric] u32_codec.dec_enc by simp
  qed (use r(7) in simp)
qed

lemma trun_samples_for:
  assumes "list_all2 (record_for fl dd dz) ss recs" "frag = fpre @ payload ss @ fpost" "length ss \<le> fo_budget out"
  shows "trun_samples (length ss) fl (pre @ concat recs @ rest) dd dz frag (length pre) (int (length fpre)) out
    = Some (Inr (int (length fpre + length (payload ss)), False), out\<lparr>fo_samples := fo_samples out @ ss, fo_budget := fo_budget out - length ss\<rparr>)"
  using assms
proof (induction ss recs arbitrary: pre fpre out rule: list_all2_induct)
  case (Cons s ss rec recs)
  define trun where "trun = pre @ concat (rec # recs) @ rest"
  have t: "trun = pre @ rec @ concat recs @ rest" "trun = (pre @ rec) @ concat recs @ rest" by (simp_all add: trun_def)
  note r = record_for_reads(1,2) [OF Cons.hyps(1)] record_for_reads(3,4) [OF Cons.hyps(1), of pre "concat recs @ rest", folded t(1)]
  obtain z where z: "(if fl AND trunSampleSize \<noteq> 0 then u32be trun (length pre + (if fl AND trunSampleDuration \<noteq> 0 then 4 else 0)) else Some dz) = Some z"
      "unat z = length (sm_Data s)" using r(4) by blast
  have z0: "z \<noteq> 0" using z(2) r(2) by auto
  have sl: "slice frag (length fpre) (length fpre + length (sm_Data s)) = Some (sm_Data s)"
    using slice_append3 [of fpre "sm_Data s" "payload ss @ fpost"] Cons.prems(1) by simp
  define out' where "out' = out\<lparr>fo_samples := fo_samples out @ [s], fo_budget := fo_budget out - 1\<rparr>"
  have g: "guarded \<lparr>sm_Data = sm_Data s, sm_Dur = sm_Dur s\<rparr> out = (None, out')" using Cons.prems(2) by (simp add: guarded_def out'_def)
  have IH: "trun_samples (length ss) fl trun dd dz frag (length pre + perSample fl) (int (length fpre + length (sm_Data s))) out'
    = Some (Inr (int (length fpre + length (sm_Data s) + length (payload ss)), False), out'\<lparr>fo_samples := fo_samples out' @ ss, fo_budget := fo_budget out' - length ss\<rparr>)"
    using Cons.IH [of "fpre @ sm_Data s" out' "pre @ rec"] Cons.prems by (simp add: t(2) r(1) out'_def)
  have off: "length pre + perSample fl = (let off = length pre; off = (if fl AND trunSampleDuration \<noteq> 0 then off + 4 else off); off = (if fl AND trunSampleSize \<noteq> 0 then off + 4 else off);
      off = (if fl AND trunSampleFlags \<noteq> 0 then off + 4 else off) in if fl AND trunSampleCTO \<noteq> 0 then off + 4 else off)" by (simp add: perSample_def Let_def)
  have off1: "(if fl AND trunSampleDuration \<noteq> 0 then length pre + 4 else length pre) = length pre + (if fl AND trunSampleDuration \<noteq> 0 then 4 else 0)" by simp
  have num: "int (length fpre) + int (unat z) = int (length fpre + length (sm_Data s))" "nat (int (length fpre + length (sm_Data s))) = length fpre + length (sm_Data s)"
      "length fpre + length (sm_Data s) \<le> length frag" "nat (int (length fpre)) = length fpre" "\<not> int (length fpre) < 0"
    using Cons.prems(1) by (simp_all only: z(2)) simp_all
  have "trun_samples (Suc (length ss)) fl trun dd dz frag (length pre) (int (length fpre)) out
    = trun_samples (length ss) fl trun dd dz frag (length pre + perSample fl) (int (length fpre + length (sm_Data s))) out'"
    unfolding trun_samples.simps(2) r(3) Let_def off1 Option.bind.simps z(1) num sl
    using z0 num(3) by (simp add: g off Let_def del: slice_Some)
  then show ?case unfolding IH by (simp add: trun_def out'_def add.assoc)
qed simp

lemma trun_header_for:
  assumes "trun_for dd dz (fl, off, ss) body" "fl AND trunDataOffset \<noteq> 0 \<or> located" "length ss \<le> fragLen"
  shows "\<exists>pre recs rest. body = pre @ concat recs @ rest \<and> list_all2 (record_for fl dd dz) ss recs
    \<and> trun_header body base ptr located fragLen
        = ok (fl, length ss, length pre, if fl AND trunDataOffset \<noteq> 0 then base + sint off else ptr, fl AND trunDataOffset \<noteq> 0)"
proof -
  obtain ver fsf recs rest where b: "body = fullbox ver fl @ put32 (word_of_nat (length ss)) @ field_if fl trunDataOffset (put32 off) @ field_if fl trunFirstSampleFlags fsf @ concat recs @ rest"
      "take_bit 24 fl = fl" "length fsf = 4" "length ss < 2 ^ 32" "list_all2 (record_for fl dd dz) ss recs"
    using assms(1) unfolding trun_for_def by auto
  define p1 where "p1 = fullbox ver fl @ put32 (word_of_nat (length ss)) @ field_if fl trunDataOffset (put32 off)"
  define pre where "pre = p1 @ field_if fl trunFirstSampleFlags fsf"
  have body: "body = pre @ concat recs @ rest" by (simp add: b(1) pre_def p1_def)
  have l: "length p1 = (if fl AND trunDataOffset \<noteq> 0 then 12 else 8)" "length pre = length p1 + (if fl AND trunFirstSampleFlags \<noteq> 0 then 4 else 0)" "length pre \<le> length body"
    using b(3) by (simp_all add: p1_def pre_def length_field_if body)
  have n: "u32be body 4 = Some (word_of_nat (length ss))" "unat (word_of_nat (length ss) :: u32) = length ss"
    using u32_codec.dec_enc [of "fullbox ver fl" "word_of_nat (length ss)"] b(4) by (simp_all add: b(1) unat_word_of_nat_small)
  have o: "u32be body 8 = Some off" if "fl AND trunDataOffset \<noteq> 0"
    using u32_codec.dec_enc [of "fullbox ver fl @ put32 (word_of_nat (length ss))" off] that by (simp add: b(1) field_if_def)
  have "length rec = perSample fl" if "rec \<in> set recs" for rec using b(5) that record_for_reads(1) by (auto simp: list_all2_conv_all_nth in_set_conv_nth)
  then have "length (concat recs) = length recs * perSample fl" by (induction recs) auto
  then have "length (concat recs) = length ss * perSample fl" using list_all2_lengthD [OF b(5)] by simp
  then have "length ss * perSample fl \<le> length body - length pre" by (simp add: body)
  then have count: "\<not> length ss > (length body - length pre) div perSample fl" if "perSample fl > 0" using that by (simp add: not_less less_eq_div_iff_mult_less_eq)
  have "12 \<le> length body" if "fl AND trunDataOffset \<noteq> 0" using l(2,3) that unfolding l(1) by simp
  then have 1: "(if fl AND trunDataOffset \<noteq> 0 then
             if 8 + 4 > length body then err ErrMalformedBox
             else do { dataOffset \<leftarrow> u32be body 8; ok (12, base + sint dataOffset) }
           else if \<not> located then err ErrMalformedBox else ok (8, ptr)) = ok (length p1, if fl AND trunDataOffset \<noteq> 0 then base + sint off else ptr)"
    using l(1) o assms(2) by (cases "fl AND trunDataOffset = 0") (simp_all del: u32be_Some)
  have 2: "(if fl AND trunFirstSampleFlags \<noteq> 0 then if length p1 + 4 > length body then err ErrMalformedBox else ok (length p1 + 4) else ok (length p1)) = ok (length pre)"
    using l(2,3) by (cases "fl AND trunFirstSampleFlags = 0") simp_all
  have fl: "flags24 body = Some fl" using flags24_fullbox [OF b(2)] by (simp add: b(1))
  have "\<not> length body < 8" using l by (simp split: if_splits)
  then have "trun_header body base ptr located fragLen
      = ok (fl, length ss, length pre, if fl AND trunDataOffset \<noteq> 0 then base + sint off else ptr, fl AND trunDataOffset \<noteq> 0)"
    unfolding trun_header_def fl n(1) Option.bind.simps Let_def 1 go_bind_simps prod.case 2 n(2) using count assms(3) by (cases "perSample fl > 0") simp_all
  then show ?thesis using body b(5) by blast
qed

lemma trun_box_local: "body_only (\<lambda>data. trun_box data base defDur defSize frag)"
proof (rule body_onlyI)
  fix data t body :: bytes and off w
  assume "slice data (off + 8) (off + 8 + length body) = Some body"
  then show "trun_box data base defDur defSize frag \<lparr>box_typ = t, box_start = off, bodyOff = off + 8, bodyEnd = off + 8 + length body\<rparr> w
    = trun_box body base defDur defSize frag \<lparr>box_typ = t, box_start = off, bodyOff = 0, bodyEnd = length body\<rparr> w"
    by (simp add: trun_box_def slice_all del: slice_Some)
qed

lemma traf_search_local: "body_only (\<lambda>data. traf_search data trackID)"
proof (rule body_onlyI)
  fix data t body :: bytes and off s
  assume "slice data (off + 8) (off + 8 + length body) = Some body"
  then show "traf_search data trackID \<lparr>box_typ = t, box_start = off, bodyOff = off + 8, bodyEnd = off + 8 + length body\<rparr> s
    = traf_search body trackID \<lparr>box_typ = t, box_start = off, bodyOff = 0, bodyEnd = length body\<rparr> s"
    by (simp add: traf_search_def slice_all del: slice_Some)
qed

lemma slice_split: "slice xs lo hi = Some ys \<Longrightarrow> \<exists>pre post. xs = pre @ ys @ post \<and> length pre = lo"
proof -
  assume s: "slice xs lo hi = Some ys"
  then have "drop lo xs = ys @ drop hi xs" by (auto simp: slice_def split: if_splits) (metis append_take_drop_id drop_drop le_add_diff_inverse2)
  then have "xs = take lo xs @ ys @ drop hi xs" by (metis append_take_drop_id)
  moreover have "length (take lo xs) = lo" using s by (simp add: slice_def split: if_splits)
  ultimately show ?thesis by blast
qed

text \<open>One run, and the runs of a track fragment in order, with the data pointer handed on.\<close>

lemma trun_box_for:
  assumes "trun_for dd dz (fl, off, ss) body" "runs_at frag base (tw_dataPtr w) (tw_located w) ((fl, off, ss) # rs)"
    and "length ss \<le> fo_budget (tw_out w)" "fo_budget (tw_out w) \<le> length frag"
  shows "\<exists>w'. on_body (\<lambda>data. trun_box data base dd dz frag) (lit ''trun'') i body w = Some (Continue w')
    \<and> tw_inner w' = tw_inner w \<and> tw_short w' = tw_short w \<and> fo_samples (tw_out w') = fo_samples (tw_out w) @ ss
    \<and> fo_budget (tw_out w') = fo_budget (tw_out w) - length ss \<and> runs_at frag base (tw_dataPtr w') (tw_located w') rs"
proof -
  define p where "p = (if fl AND trunDataOffset \<noteq> 0 then base + sint off else tw_dataPtr w)"
  have p: "fl AND trunDataOffset \<noteq> 0 \<or> tw_located w" "0 \<le> p" "slice frag (nat p) (nat p + length (payload ss)) = Some (payload ss)"
      "runs_at frag base (p + int (length (payload ss))) True rs"
    using assms(2) by (simp_all add: p_def Let_def del: slice_Some)
  obtain fpre fpost where f: "frag = fpre @ payload ss @ fpost" "length fpre = nat p" using slice_split [OF p(3)] by auto
  obtain pre recs rest where b: "body = pre @ concat recs @ rest" "list_all2 (record_for fl dd dz) ss recs"
      "trun_header body base (tw_dataPtr w) (tw_located w) (length frag) = ok (fl, length ss, length pre, p, fl AND trunDataOffset \<noteq> 0)"
    using trun_header_for [OF assms(1) p(1), of "length frag" base "tw_dataPtr w"] assms(3,4) by (auto simp: p_def)
  have "trun_samples (length ss) fl body dd dz frag (length pre) p (tw_out w)
      = Some (Inr (p + int (length (payload ss)), False), (tw_out w)\<lparr>fo_samples := fo_samples (tw_out w) @ ss, fo_budget := fo_budget (tw_out w) - length ss\<rparr>)"
    using trun_samples_for [OF b(2) f(1) assms(3), of pre rest] p(2) by (simp add: b(1) f(2))
  then show ?thesis using b(3) p(1,4) by (auto simp: on_body_def trun_box_def slice_all Let_def simp del: slice_Some)
qed

lemma trun_walk:
  assumes "list_all2 (trun_for dd dz) runs (bodies (lit ''trun'') bs)" "runs_at frag base (tw_dataPtr w) (tw_located w) runs"
    and "length (concat (map (snd \<circ> snd) runs)) \<le> fo_budget (tw_out w)" "fo_budget (tw_out w) \<le> length frag"
  shows "\<exists>w'. walk_list (on_body (\<lambda>data. trun_box data base dd dz frag)) i bs w = Some (None, w')
    \<and> tw_inner w' = tw_inner w \<and> tw_short w' = tw_short w \<and> fo_samples (tw_out w') = fo_samples (tw_out w) @ concat (map (snd \<circ> snd) runs)"
  using assms
proof (induction bs arbitrary: i w runs)
  case (Cons x bs)
  obtain t body where x: "x = (t, body)" by fastforce
  show ?case
  proof (cases "t = lit ''trun''")
    case True
    then obtain fl off ss rs where r: "runs = (fl, off, ss) # rs" "trun_for dd dz (fl, off, ss) body" "list_all2 (trun_for dd dz) rs (bodies (lit ''trun'') bs)"
      using Cons.prems(1) by (auto simp: x list_all2_Cons2)
    obtain w' where w': "on_body (\<lambda>data. trun_box data base dd dz frag) t i body w = Some (Continue w')"
        "tw_inner w' = tw_inner w" "tw_short w' = tw_short w" "fo_samples (tw_out w') = fo_samples (tw_out w) @ ss"
        "fo_budget (tw_out w') = fo_budget (tw_out w) - length ss" "runs_at frag base (tw_dataPtr w') (tw_located w') rs"
      using trun_box_for [OF r(2), of frag base w rs i] Cons.prems by (auto simp: r(1) True simp del: runs_at.simps)
    show ?thesis using Cons.IH [OF r(3) w'(6), of "i + 8 + length body"] Cons.prems(3,4) w'(1-5) by (auto simp: x r(1))
  next
    case False
    then show ?thesis using Cons.IH [of runs w] Cons.prems by (simp add: x on_body_def trun_box_def)
  qed
qed simp

lemma parseTraf_for:
  assumes "traf_for ai start frag ss traf" "length ss \<le> length frag"
  shows "\<exists>out. parseTraf traf start frag ai \<lparr>fo_samples = [], fo_budget = length frag\<rparr> = Some (None, out) \<and> fo_samples out = ss"
    and "\<exists>tfhd. firstChild traf (lit ''tfhd'') = ok (Some tfhd) \<and> tfhdTrackID tfhd = Some (Some (ai_TrackID ai))"
proof -
  obtain bs tfhd base given dd dz runs where t: "traf = boxes bs" "boxes_ok bs" "map_of bs (lit ''tfhd'') = Some tfhd" "tfhd_for (ai_TrackID ai) start (base, given, dd, dz) tfhd"
      "list_all2 (trun_for (if dd = 0 then ai_DefaultDur ai else dd) (if dz = 0 then ai_DefaultSize ai else dz)) runs (bodies (lit ''trun'') bs)"
      "runs_at frag base base given runs" "ss = concat (map (snd \<circ> snd) runs)"
    using assms(1) unfolding traf_for_def in_box_def by blast
  have c: "firstChild traf (lit ''tfhd'') = ok (Some tfhd)" using firstChild_boxes [OF t(2)] t(3) by (simp add: t(1))
  then show "\<exists>tfhd. firstChild traf (lit ''tfhd'') = ok (Some tfhd) \<and> tfhdTrackID tfhd = Some (Some (ai_TrackID ai))" using parseTFHD_for(2) [OF t(4)] by blast
  let ?w = "\<lparr>tw_dataPtr = base, tw_located = given, tw_inner = None, tw_short = False, tw_out = \<lparr>fo_samples = [], fo_budget = length frag\<rparr>\<rparr>"
  obtain w' where "walk_list (on_body (\<lambda>data. trun_box data base (if dd = 0 then ai_DefaultDur ai else dd) (if dz = 0 then ai_DefaultSize ai else dz) frag)) 0 bs ?w = Some (None, w')"
      "tw_inner w' = None" "\<not> tw_short w'" "fo_samples (tw_out w') = ss"
    using trun_walk [OF t(5), of frag base ?w 0] t(6,7) assms(2) by auto
  then show "\<exists>out. parseTraf traf start frag ai \<lparr>fo_samples = [], fo_budget = length frag\<rparr> = Some (None, out) \<and> fo_samples out = ss"
    using walk_boxes_local [OF t(2) trun_box_local] c parseTFHD_for(1) [OF t(4)] by (simp add: parseTraf_def t(1))
qed

lemma traf_search_other: "other_traf trackID body \<Longrightarrow> on_body (\<lambda>data. traf_search data trackID) t i body s = Some (Continue s)"
proof -
  assume "other_traf trackID body"
  then obtain bs where b: "body = boxes bs" "boxes_ok bs" "opt_box (lit ''tfhd'') (\<lambda>body. \<exists>hd i rest. body = hd @ put32 i @ rest \<and> length hd = 4 \<and> i \<noteq> trackID) bs"
    by (auto simp: other_traf_def in_box_def)
  obtain r where r: "firstChild body (lit ''tfhd'') = ok r" "pred_option (\<lambda>body. \<exists>hd i rest. body = hd @ put32 i @ rest \<and> length hd = 4 \<and> i \<noteq> trackID) r"
    using firstChild_opt [OF b(2,3)] by (auto simp: b(1))
  show ?thesis
  proof (cases r)
    case None
    then show ?thesis using r(1) by (simp add: on_body_def traf_search_def slice_all del: slice_Some)
  next
    case (Some tfhd)
    then obtain hd j rest where h: "tfhd = hd @ put32 j @ rest" "length hd = 4" "j \<noteq> trackID" using r(2) by auto
    then have "tfhdTrackID tfhd = Some (Some j)" using u32_codec.dec_enc [of hd j rest] by (simp add: tfhdTrackID_def)
    then show ?thesis using Some r(1) h(3) by (simp add: on_body_def traf_search_def slice_all del: slice_Some)
  qed
qed

lemma findAudioTraf_for:
  assumes "moof_for ai start frag ss moof" "length ss \<le> length frag"
  shows "\<exists>traf. findAudioTraf moof (ai_TrackID ai) = ok (Some traf) \<and> traf_for ai start frag ss traf"
proof -
  obtain bs before traf after where b: "moof = boxes bs" "boxes_ok bs" "bs = before @ (lit ''traf'', traf) # after"
      "list_all (other_traf (ai_TrackID ai)) (bodies (lit ''traf'') before)" "traf_for ai start frag ss traf"
    using assms(1) unfolding moof_for_def in_box_def by blast
  let ?g = "on_body (\<lambda>data. traf_search data (ai_TrackID ai))"
  have "list_all (\<lambda>(t, body). t = lit ''traf'' \<longrightarrow> other_traf (ai_TrackID ai) body) before"
    using b(4) by (induction before) (auto simp: bodies_def list_all_iff split: if_splits)
  moreover have "?g t off body s = Some (Continue s)" if "t \<noteq> lit ''traf''" for t off body s using that by (simp add: on_body_def traf_search_def)
  ultimately have "list_all (\<lambda>(t, body). length t = 4 \<and> (\<forall>off s. ?g t off body s = Some (Continue s))) before"
    using b(2,3) traf_search_other unfolding list_all_iff boxes_ok_def by fastforce
  note pass = walk_list_pass [OF this]
  have "eachBox moof (traf_search moof (ai_TrackID ai)) 0 None = Some (None, Some (Inr traf))"
    unfolding b(1) walk_boxes_local [OF b(2) traf_search_local] unfolding b(3) pass
    using parseTraf_for(2) [OF b(5) assms(2)] by (auto simp: on_body_def traf_search_def slice_all simp del: slice_Some)
  then show ?thesis using b(5) by (simp add: findAudioTraf_def)
qed

text \<open>The parser delivers the samples the fragment carries, in order, and no error.\<close>

lemma ParseFragment_for:
  assumes "fragment_for ai ss frag"
  shows "ParseFragment ai frag = Some (None, ss)"
proof -
  obtain before moof after where f: "length ss \<le> length frag" "frag = boxes (before @ (lit ''moof'', moof) # after)" "boxes_ok (before @ (lit ''moof'', moof) # after)"
      "lit ''moof'' \<notin> fst ` set before" "moof_for ai (length (boxes before)) frag ss moof"
    using assms unfolding fragment_for_def by blast
  define g where "g = (\<lambda>t i body (s :: (nat \<times> bytes) option). if t = lit ''moof'' then Some (Stop (Some (i, body))) else Some (Continue s))"
  have "list_all (\<lambda>(t, body). length t = 4 \<and> (\<forall>off s. g t off body s = Some (Continue s))) before"
    using f(3,4) by (force simp: list_all_iff boxes_ok_def g_def)
  note pass = walk_list_pass [OF this]
  have "eachBox frag (moof_search frag) 0 None = walk_list g 0 (before @ (lit ''moof'', moof) # after) None"
    unfolding f(2) by (rule walk_boxes [OF f(3)]) (simp add: moof_search_def g_def)
  then have "eachBox frag (moof_search frag) 0 None = Some (None, Some (length (boxes before), moof))" unfolding pass by (simp add: g_def)
  then show ?thesis using findAudioTraf_for [OF f(5,1)] parseTraf_for(1) [OF _ f(1)] by (fastforce simp: ParseFragment_def)
qed

section \<open>Any file\<close>

text \<open>
  C38. The fragmented MP4 reader is safe on any bytes: on every initialization segment it returns, with an error or with a track whose audio configuration is not
  empty and whose timescale is positive and fits 31 bits; on every fragment it returns without reading out of range, and what it hands over are non-empty pieces of
  the fragment, no more of them than the fragment has bytes, whatever sizes, counts and offsets the boxes claim.
\<close>

theorem mp4_robust:
  "go_sat init_ok (ParseInit data)
   \<and> (\<exists>e samples. ParseFragment ai frag = Some (e, samples) \<and> length samples \<le> length frag
        \<and> list_all (\<lambda>s. sm_Data s \<noteq> [] \<and> sublist (sm_Data s) frag) samples)"
  using ParseInit_sat ParseFragment_ok by blast

end
