(* ===== verification/FMP4.thy ===== *)
theory FMP4
  imports MP4 TS_Demux PCM
begin

text \<open>
  The fragmented MP4 demuxer of \<open>src/hlssource/fmp4demux.go\<close> on top of the reader of theory MP4, and the interface \<open>segmentDemuxer\<close> of
  \<open>src/hlssource/client.go\<close> that it shares with the transport-stream demuxer: what the segment loop relies on is a locale, interpreted on both demuxers and
  on the interface value, which is one or the other.
\<close>

section \<open>The demuxer\<close>

record fmp4Demux =
  fm_init :: AudioInit
  fm_gaps :: u64

definition mapMP4Err :: "mp4_error \<Rightarrow> ts_error" where
  "mapMP4Err e = (if e = ErrUnsupportedSampleEntry then ErrUnsupportedCodec else ErrMalformedSegment)"

definition newFMP4Demux :: "bytes \<Rightarrow> (ts_error, fmp4Demux) go" where
  "newFMP4Demux initSeg = (case ParseInit initSeg of
     None \<Rightarrow> None
   | Some (Inl e) \<Rightarrow> err (mapMP4Err e)
   | Some (Inr ai) \<Rightarrow> ok \<lparr>fm_init = ai, fm_gaps = 0\<rparr>)"

definition sample_duration :: "fmp4Demux \<Rightarrow> mp4_sample \<Rightarrow> int" where
  "sample_duration d s = PTSFromSamples (ucast (sm_Dur s)) (uint (ai_Timescale (fm_init d)))"

definition fmp4_demux :: "fmp4Demux \<Rightarrow> bytes \<Rightarrow> bool \<Rightarrow> (access_units \<times> fmp4Demux \<times> ts_error option) option" where
  "fmp4_demux d seg discontinuity = (case ParseFragment (fm_init d) seg of
     None \<Rightarrow> None
   | Some (r, samples) \<Rightarrow>
       let aus = map (\<lambda>s. (sm_Data s, sample_duration d s)) samples in
       (case r of
          None \<Rightarrow> Some (aus, d, None)
        | Some e \<Rightarrow>
            if e = ErrShortMdat then Some (aus, d\<lparr>fm_gaps := fm_gaps d + 1\<rparr>, None)
            else Some (aus, d, Some (mapMP4Err e))))"

definition fmp4_end :: "fmp4Demux \<Rightarrow> (access_units \<times> fmp4Demux) option" where
  "fmp4_end d = Some ([], d)"

definition fmp4_audioSpecificConfig :: "fmp4Demux \<Rightarrow> bytes option" where
  "fmp4_audioSpecificConfig d = Some (ai_ASC (fm_init d))"

definition fmp4_gapCount :: "fmp4Demux \<Rightarrow> u64" where
  "fmp4_gapCount d = fm_gaps d"

section \<open>Delivery\<close>

text \<open>The duration of a sample is exact: no 32-bit duration at a positive timescale reaches the clamp.\<close>

lemma sample_duration_exact:
  assumes "init_ok (fm_init d)"
  shows "sample_duration d s = uint (sm_Dur s) * 10 ^ 9 div uint (ai_Timescale (fm_init d))"
proof -
  define t where "t = uint (ai_Timescale (fm_init d))"
  obtain n where "t = int n" "0 < n" "n < 2 ^ 31"
  proof
    show "t = int (unat (ai_Timescale (fm_init d)))" "0 < unat (ai_Timescale (fm_init d))" "unat (ai_Timescale (fm_init d)) < 2 ^ 31"
      using assms by (simp_all add: init_ok_def t_def unat_gt_0)
  qed
  then have t: "0 < t" "t \<le> 18446744073" by simp_all
  have u: "uint (ucast (sm_Dur s) :: u64) = uint (sm_Dur s)" by (simp add: uint_up_ucast is_up)
  have b: "0 \<le> uint (sm_Dur s)" "uint (sm_Dur s) < 2 ^ 32" using uint_lt2p [of "sm_Dur s"] by simp_all
  have "uint (sm_Dur s) * 10 ^ 9 div t \<le> uint (sm_Dur s) * 10 ^ 9 div 1" using t b by (intro zdiv_mono2) simp_all
  then have "uint (sm_Dur s) * 10 ^ 9 div t \<le> maxPTSSeconds * 10 ^ 9" using b by (simp add: caps)
  then show ?thesis using PTSFromSamples_floor [OF t] unfolding sample_duration_def t_def [symmetric] u by (simp add: u min_def)
qed

lemma fmp4_demux_fragment: "fragment_for (fm_init d) ss frag \<Longrightarrow> fmp4_demux d frag disc = Some (map (\<lambda>s. (sm_Data s, sample_duration d s)) ss, d, None)"
  using ParseFragment_for [of "fm_init d" ss frag] by (simp add: fmp4_demux_def)

text \<open>
  A presentation with a video track in front of the audio track: the audio track has a 64-bit media header, its default duration in \<open>trex\<close>, and its samples in two
  runs, the second without a data offset, behind the video's data.
\<close>

definition sample_esds :: bytes where
  "sample_esds = [0, 0, 0, 0] @ desc 3 3 ([0, 2] @ 0 # desc 0 4 (0x40 # replicate 12 0 @ desc 1 5 [0x12, 0x10] @ []) @ [6, 1, 2]) @ []"

definition sample_video :: bytes where
  "sample_video = boxes [(lit ''tkhd'', 0 # replicate 11 0 @ put32 1 @ []),
     (lit ''mdia'', boxes [(lit ''hdlr'', replicate 8 0 @ lit ''vide'' @ []), (lit ''minf'', boxes [(lit ''vmhd'', [])])])]"

definition sample_minf :: bytes where
  "sample_minf = boxes [(lit ''smhd'', []), (lit ''stbl'', boxes [(lit ''stsd'', replicate 8 0 @ boxes [
     (lit ''mp4a'', replicate 28 0 @ boxes [(lit ''esds'', sample_esds)])])])]"

definition sample_audio :: bytes where
  "sample_audio = boxes [
     (lit ''mdia'', boxes [(lit ''mdhd'', 1 # replicate 19 0 @ put32 44100 @ [0]), (lit ''hdlr'', replicate 8 0 @ lit ''soun'' @ [0]), (lit ''minf'', sample_minf)]),
     (lit ''tkhd'', 0 # replicate 11 0 @ put32 2 @ [0])]"

definition sample_init :: bytes where
  "sample_init = boxes [(lit ''ftyp'', lit ''iso5''), (lit ''moov'', boxes [(lit ''mvhd'', [0]), (lit ''trak'', sample_video), (lit ''trak'', sample_audio),
     (lit ''mvex'', boxes [(lit ''trex'', replicate 4 0 @ put32 2 @ replicate 4 0 @ put32 1024 @ put32 0 @ [])])])]"

definition sample_traf :: bytes where
  "sample_traf = boxes [(lit ''tfhd'', fullbox 0 0x20000 @ put32 2 @ []), (lit ''tfdt'', [0]),
     (lit ''trun'', fullbox 0 0x201 @ put32 2 @ put32 145 @ put32 3 @ put32 1 @ []),
     (lit ''trun'', fullbox 0 0x300 @ put32 1 @ put32 960 @ put32 2 @ [])]"

definition sample_moof :: bytes where
  "sample_moof = boxes [(lit ''mfhd'', [0]), (lit ''traf'', boxes [(lit ''tfhd'', replicate 4 0 @ put32 1 @ []), (lit ''trun'', [7])]), (lit ''traf'', sample_traf)]"

definition sample_fragment :: bytes where
  "sample_fragment = boxes [(lit ''styp'', []), (lit ''moof'', sample_moof), (lit ''mdat'', [9, 9, 1, 2, 3, 4, 5, 6])]"

definition sample_track :: AudioInit where
  "sample_track = \<lparr>ai_ASC = [0x12, 0x10], ai_Timescale = 44100, ai_TrackID = 2, ai_DefaultSize = 0, ai_DefaultDur = 1024\<rparr>"

definition sample_samples :: "mp4_sample list" where
  "sample_samples = [\<lparr>sm_Data = [1, 2, 3], sm_Dur = 1024\<rparr>, \<lparr>sm_Data = [4], sm_Dur = 1024\<rparr>, \<lparr>sm_Data = [5, 6], sm_Dur = 960\<rparr>]"

lemma sample_esds_for: "esds_for [0x12, 0x10] sample_esds"
  unfolding esds_for_def sample_esds_def by (intro exI conjI, rule refl, rule refl) (simp_all add: desc_def)

lemma sample_lengths:
  "length sample_esds = 35" "length sample_minf = 111" "length sample_video = 68" "length sample_audio = 206" "length sample_traf = 77" "length sample_moof = 127"
  by (simp_all add: sample_esds_def sample_minf_def sample_video_def sample_audio_def sample_traf_def sample_moof_def desc_def)

lemma sample_video_other: "other_trak sample_video"
proof -
  have h: "handler_for (lit ''vide'') (replicate 8 0 @ lit ''vide'' @ [])" unfolding handler_for_def by (intro exI conjI, rule refl) simp_all
  then have "\<exists>h. h \<noteq> lit ''soun'' \<and> handler_for h (replicate 8 0 @ lit ''vide'' @ [])" by (rule exI [of _ "lit ''vide''", OF conjI, rotated]) (simp add: lit_simps)
  moreover have "in_box (opt_box (lit ''stbl'') (in_box (\<lambda>_. True))) (boxes [(lit ''vmhd'', [])])" by (rule in_boxI) (simp_all add: opt_box_def lit_simps)
  ultimately have "other_mdia (boxes [(lit ''hdlr'', replicate 8 0 @ lit ''vide'' @ []), (lit ''minf'', boxes [(lit ''vmhd'', [])])])"
    unfolding other_mdia_def by (intro in_boxI) (simp, simp add: opt_box_def lit_simps del: boxes_simps append_Nil2)
  then show ?thesis unfolding other_trak_def sample_video_def by (intro in_boxI) (simp, simp add: lit_simps del: boxes_simps)
qed

lemma sample_minf_for: "in_box (has_box (lit ''stbl'') (in_box (has_box (lit ''stsd'') (stsd_for [0x12, 0x10])))) sample_minf"
proof -
  have "entry_for [0x12, 0x10] (replicate 28 0 @ boxes [(lit ''esds'', sample_esds)])"
    unfolding entry_for_def by (intro exI conjI, rule refl) (use sample_esds_for sample_lengths in \<open>simp_all add: has_box_def\<close>)
  then have "stsd_for [0x12, 0x10] (replicate 8 0 @ boxes [(lit ''mp4a'', replicate 28 0 @ boxes [(lit ''esds'', sample_esds)])])"
    unfolding stsd_for_def by - (intro exI conjI, rule refl, simp_all add: has_box_def sample_lengths)
  then have "in_box (has_box (lit ''stsd'') (stsd_for [0x12, 0x10])) (boxes [(lit ''stsd'', replicate 8 0 @ boxes [(lit ''mp4a'', replicate 28 0 @ boxes [(lit ''esds'', sample_esds)])])])"
    by (intro in_boxI) (simp add: sample_lengths, simp add: has_box_def del: boxes_simps)
  then show ?thesis unfolding sample_minf_def by (intro in_boxI) (simp add: sample_lengths, simp add: has_box_def lit_simps del: boxes_simps)
qed

lemma sample_audio_for: "trak_for 2 44100 [0x12, 0x10] sample_audio"
proof -
  have v: "versioned_for 44100 (1 # replicate 19 0 @ put32 44100 @ [0])" "versioned_for 2 (0 # replicate 11 0 @ put32 2 @ [0])"
    unfolding versioned_for_def by (intro exI conjI, rule refl, simp)+
  have h: "handler_for (lit ''soun'') (replicate 8 0 @ lit ''soun'' @ [0])" unfolding handler_for_def by (intro exI conjI, rule refl) simp_all
  have "mdia_for 44100 [0x12, 0x10] (boxes [(lit ''mdhd'', 1 # replicate 19 0 @ put32 44100 @ [0]), (lit ''hdlr'', replicate 8 0 @ lit ''soun'' @ [0]), (lit ''minf'', sample_minf)])"
    unfolding mdia_for_def using v(1) h sample_minf_for by (intro in_boxI) (simp add: sample_lengths, simp add: has_box_def lit_simps del: boxes_simps)
  then show ?thesis unfolding trak_for_def sample_audio_def using v(2) by (intro in_boxI) (simp add: sample_lengths, simp add: lit_simps del: boxes_simps)
qed

lemma sample_init_for: "init_for sample_track sample_init"
proof -
  define ms where "ms = [(lit ''mvhd'', [0]), (lit ''trak'', sample_video), (lit ''trak'', sample_audio),
     (lit ''mvex'', boxes [(lit ''trex'', replicate 4 0 @ put32 2 @ replicate 4 0 @ put32 1024 @ put32 0 @ [])])]"
  have "trex_for (replicate 4 0 @ put32 2 @ replicate 4 0 @ put32 1024 @ put32 0 @ []) (2, 1024, 0)" unfolding trex_for_def fst_conv snd_conv by (intro exI conjI, rule refl) simp_all
  then have "mvex_for sample_track (boxes [(lit ''trex'', replicate 4 0 @ put32 2 @ replicate 4 0 @ put32 1024 @ put32 0 @ [])])"
    unfolding mvex_for_def by (intro in_boxI exI [of _ "[(2, 1024, 0)]"]) (simp, simp add: sample_track_def)
  then have "case map_of ms (lit ''mvex'') of None \<Rightarrow> ai_DefaultDur sample_track = 0 \<and> ai_DefaultSize sample_track = 0 | Some mvex \<Rightarrow> mvex_for sample_track mvex"
    by (simp add: ms_def lit_simps del: boxes_simps)
  moreover have "ms = [(lit ''mvhd'', [0]), (lit ''trak'', sample_video)] @ (lit ''trak'', sample_audio) # drop 3 ms" by (simp add: ms_def)
  moreover have "list_all other_trak (bodies (lit ''trak'') [(lit ''mvhd'', [0]), (lit ''trak'', sample_video)])" using sample_video_other by (simp add: lit_simps)
  moreover have "trak_for (ai_TrackID sample_track) (ai_Timescale sample_track) (ai_ASC sample_track) sample_audio" using sample_audio_for by (simp add: sample_track_def)
  moreover have "boxes_ok ms" by (simp add: ms_def sample_lengths)
  ultimately have m: "moov_for sample_track (boxes ms)" unfolding moov_for_def by (intro in_boxI) blast+
  have "length (boxes ms) < 1000" by (simp add: ms_def sample_lengths)
  then show ?thesis using m unfolding init_for_def sample_init_def ms_def [symmetric] by (intro in_boxI) (simp_all add: has_box_def lit_simps)
qed

lemma sample_traf_for: "traf_for sample_track 8 sample_fragment sample_samples sample_traf"
proof -
  let ?s1 = "[\<lparr>sm_Data = [1, 2, 3], sm_Dur = 1024\<rparr>, \<lparr>sm_Data = [4], sm_Dur = 1024\<rparr>]" and ?s2 = "[\<lparr>sm_Data = [5, 6], sm_Dur = 960\<rparr>]"
  define runs where "runs = [(0x201 :: u32, 145 :: u32, ?s1), (0x300, 0, ?s2)]"
  have "trun_for 1024 0 (0x201, 145, ?s1) (fullbox 0 0x201 @ put32 2 @ put32 145 @ put32 3 @ put32 1 @ [])"
    unfolding trun_for_def prod.case
    by (rule exI [of _ 0], rule exI [of _ "replicate 4 0"], rule exI [of _ "[put32 3, put32 1]"], rule exI [of _ "[]"])
      (auto simp: field_if_def record_for_def caps intro!: exI [of _ "replicate 4 0"])
  moreover have "trun_for 1024 0 (0x300, 0, ?s2) (fullbox 0 0x300 @ put32 1 @ put32 960 @ put32 2 @ [])"
    unfolding trun_for_def prod.case
    by (rule exI [of _ 0], rule exI [of _ "replicate 4 0"], rule exI [of _ "[put32 960 @ put32 2]"], rule exI [of _ "[]"])
      (auto simp: field_if_def record_for_def caps intro!: exI [of _ "replicate 4 0"])
  ultimately have r: "list_all2 (trun_for 1024 0) runs [fullbox 0 0x201 @ put32 2 @ put32 145 @ put32 3 @ put32 1 @ [], fullbox 0 0x300 @ put32 1 @ put32 960 @ put32 2 @ []]"
    by (simp add: runs_def)
  have t: "tfhd_for 2 8 (8, False, 0, 0) (fullbox 0 0x20000 @ put32 2 @ [])" unfolding tfhd_for_def
    by (rule exI [of _ 0], rule exI [of _ "0x20000"], rule exI [of _ 0], rule exI [of _ "replicate 4 0"], rule exI [of _ 0], rule exI [of _ 0], rule exI [of _ "[]"])
      (simp add: field_if_def caps)
  have s: "sample_fragment = (boxes [(lit ''styp'', []), (lit ''moof'', sample_moof)] @ put32 16 @ lit ''mdat'' @ [9, 9]) @ [1, 2, 3, 4, 5, 6]"
    by (simp add: sample_fragment_def box_def)
  have "drop 153 sample_fragment = [1, 2, 3, 4, 5, 6]" "length sample_fragment = 159" unfolding s by (simp_all add: sample_lengths)
  moreover from this(1) have "drop 157 sample_fragment = [5, 6]" using drop_drop [of 4 153 sample_fragment] by simp
  ultimately have "runs_at sample_fragment 8 8 False runs" by (simp add: runs_def caps)
  then show ?thesis unfolding traf_for_def sample_traf_def using r t
    by (intro in_boxI exI conjI) (simp, simp, simp add: sample_track_def, simp add: sample_track_def lit_simps, assumption, simp add: runs_def sample_samples_def)
qed

lemma sample_fragment_for: "fragment_for sample_track sample_samples sample_fragment"
proof -
  let ?ms = "[(lit ''mfhd'', [0]), (lit ''traf'', boxes [(lit ''tfhd'', replicate 4 0 @ put32 1 @ []), (lit ''trun'', [7])])]"
  have "\<exists>hd i rest. replicate 4 0 @ put32 1 @ [] = hd @ put32 i @ rest \<and> length hd = 4 \<and> i \<noteq> 2" by (intro exI conjI, rule refl) simp_all
  then have "other_traf 2 (boxes [(lit ''tfhd'', replicate 4 0 @ put32 1 @ []), (lit ''trun'', [7])])"
    unfolding other_traf_def by (intro in_boxI) (simp, simp add: opt_box_def del: append_Nil2)
  then have "list_all (other_traf (ai_TrackID sample_track)) (bodies (lit ''traf'') ?ms)" by (simp add: sample_track_def lit_simps del: boxes_simps)
  moreover have "sample_moof = boxes (?ms @ [(lit ''traf'', sample_traf)])" "boxes_ok (?ms @ [(lit ''traf'', sample_traf)])" by (simp_all add: sample_moof_def sample_lengths)
  ultimately have "moof_for sample_track 8 sample_fragment sample_samples sample_moof"
    unfolding moof_for_def in_box_def using sample_traf_for by blast
  then show ?thesis unfolding fragment_for_def
    by (intro conjI exI [of _ "[(lit ''styp'', [])]"] exI [of _ sample_moof] exI [of _ "[(lit ''mdat'', [9, 9, 1, 2, 3, 4, 5, 6])]"])
      (simp_all add: sample_fragment_def sample_samples_def sample_lengths lit_simps)
qed

text \<open>
  C37. What a muxer writes comes out, also next to other tracks: from an initialization segment whose movie has an AAC track, possibly behind tracks of other kinds
  (video, subtitles, tracks without a handler) and with anything after it, the demuxer is built with that track's identity, timescale, configuration and defaults,
  and from every fragment that carries samples of that track, possibly behind the fragments of other tracks, it then delivers exactly these samples, in order, each
  with its duration in nanoseconds rounded down, with no error and no gap counted. The format leaves a muxer its choices: any further boxes anywhere, the
  32-bit or the 64-bit version of a track or media header, descriptor lengths in one to four bytes, an explicit base offset or one relative to the fragment, sizes and durations listed per sample or taken
  from the defaults of \<open>tfhd\<close> or \<open>trex\<close>, and the samples in one or several runs, with data offsets or one behind the other. Box sizes are in the
  32-bit form, and the elementary stream descriptor has no optional fields and is shorter than 128 bytes.
\<close>

theorem fmp4_delivers:
  assumes "init_for ai init" "init_ok ai" "fragment_for ai ss frag"
  shows "\<exists>d. newFMP4Demux init = ok d \<and> fmp4_audioSpecificConfig d = Some (ai_ASC ai)
    \<and> fmp4_demux d frag disc = Some (map (\<lambda>s. (sm_Data s, uint (sm_Dur s) * 10 ^ 9 div uint (ai_Timescale ai))) ss, d, None)"
proof -
  define d where "d = \<lparr>fm_init = ai, fm_gaps = 0\<rparr>"
  have "newFMP4Demux init = ok d" using ParseInit_for [OF assms(1,2)] by (simp add: newFMP4Demux_def d_def)
  then show ?thesis using fmp4_demux_fragment [of d ss frag disc] sample_duration_exact [of d] assms(2,3)
    by (simp add: d_def fmp4_audioSpecificConfig_def)
qed

theorem fmp4_delivers_witness:
  "\<exists>d. newFMP4Demux sample_init = ok d \<and> fmp4_audioSpecificConfig d = Some [0x12, 0x10]
    \<and> fmp4_demux d sample_fragment True = Some ([([1, 2, 3], 23219954), ([4], 23219954), ([5, 6], 21768707)], d, None)"
  using fmp4_delivers [OF sample_init_for _ sample_fragment_for, of True] by (simp add: sample_track_def sample_samples_def init_ok_def)

section \<open>The interface of the segment loop\<close>

locale segment_demuxer =
  fixes dmx :: "'d \<Rightarrow> bytes \<Rightarrow> bool \<Rightarrow> (access_units \<times> 'd \<times> ts_error option) option"
    and fin :: "'d \<Rightarrow> (access_units \<times> 'd) option"
    and inv :: "'d \<Rightarrow> bool"
  assumes demux_returns: "inv d \<Longrightarrow> \<exists>aus d' e. dmx d seg disc = Some (aus, d', e) \<and> inv d'"
    and end_returns: "inv d \<Longrightarrow> \<exists>aus d'. fin d = Some (aus, d') \<and> inv d'"
begin

text \<open>Some segments, then the end of the stream or of the demuxer: what the loop does with one demuxer.\<close>

lemma demux_then_end: "inv d \<Longrightarrow> \<exists>aus d' e aus' d''. dmx d seg disc = Some (aus, d', e) \<and> fin d' = Some (aus', d'') \<and> inv d''"
  using demux_returns end_returns by meson

end

definition fmp4_inv :: "fmp4Demux \<Rightarrow> bool" where
  "fmp4_inv d \<longleftrightarrow> init_ok (fm_init d)"

lemma newFMP4Demux_inv: "go_sat fmp4_inv (newFMP4Demux initSeg)"
  using ParseInit_sat [of initSeg] by (cases "ParseInit initSeg" rule: go_cases) (simp_all add: newFMP4Demux_def fmp4_inv_def)

interpretation fmp4: segment_demuxer fmp4_demux fmp4_end fmp4_inv
proof
  fix d seg disc
  assume "fmp4_inv d"
  moreover obtain e samples where "ParseFragment (fm_init d) seg = Some (e, samples)" using ParseFragment_ok by blast
  ultimately show "\<exists>aus d' e. fmp4_demux d seg disc = Some (aus, d', e) \<and> fmp4_inv d'"
    by (cases e) (simp_all add: fmp4_demux_def fmp4_inv_def Let_def)
qed (simp add: fmp4_end_def)

interpretation tsd: segment_demuxer demux ts_end ts_inv
  using demux_keeps ts_end_keeps by unfold_locales (auto simp: ts_keeps_def)

text \<open>The interface value: one of the two, each call dispatched to it.\<close>

datatype segmentDemuxer = TSDemuxer ts_demux | FMP4Demuxer fmp4Demux

fun sd_demux :: "segmentDemuxer \<Rightarrow> bytes \<Rightarrow> bool \<Rightarrow> (access_units \<times> segmentDemuxer \<times> ts_error option) option" where
  "sd_demux (TSDemuxer d) seg disc = map_option (\<lambda>(aus, d, e). (aus, TSDemuxer d, e)) (demux d seg disc)"
| "sd_demux (FMP4Demuxer d) seg disc = map_option (\<lambda>(aus, d, e). (aus, FMP4Demuxer d, e)) (fmp4_demux d seg disc)"

fun sd_end :: "segmentDemuxer \<Rightarrow> (access_units \<times> segmentDemuxer) option" where
  "sd_end (TSDemuxer d) = map_option (\<lambda>(aus, d). (aus, TSDemuxer d)) (ts_end d)"
| "sd_end (FMP4Demuxer d) = map_option (\<lambda>(aus, d). (aus, FMP4Demuxer d)) (fmp4_end d)"

fun sd_audioSpecificConfig :: "segmentDemuxer \<Rightarrow> bytes option" where
  "sd_audioSpecificConfig (TSDemuxer d) = asc d"
| "sd_audioSpecificConfig (FMP4Demuxer d) = fmp4_audioSpecificConfig d"

fun sd_gapCount :: "segmentDemuxer \<Rightarrow> u64" where
  "sd_gapCount (TSDemuxer d) = ts_gapCount d"
| "sd_gapCount (FMP4Demuxer d) = fmp4_gapCount d"

fun sd_inv :: "segmentDemuxer \<Rightarrow> bool" where
  "sd_inv (TSDemuxer d) = ts_inv d"
| "sd_inv (FMP4Demuxer d) = fmp4_inv d"

interpretation sd: segment_demuxer sd_demux sd_end sd_inv
proof
  fix d seg disc
  show "sd_inv d \<Longrightarrow> \<exists>aus d' e. sd_demux d seg disc = Some (aus, d', e) \<and> sd_inv d'"
    using tsd.demux_returns [of _ seg disc] fmp4.demux_returns [of _ seg disc] by (cases d) fastforce+
  show "sd_inv d \<Longrightarrow> \<exists>aus d'. sd_end d = Some (aus, d') \<and> sd_inv d'"
    using tsd.end_returns fmp4.end_returns by (cases d) fastforce+
qed

end
