(* ===== verification/HLS_Playlist.thy ===== *)
theory HLS_Playlist
  imports FMP4
begin

text \<open>
  The playlist parser of \<open>src/hlssource/playlist.go\<close>: the media and master playlists, the parser's state and one operation per tag, the choice of a media playlist
  from a master. The packages \<open>net/url\<close> and the float arithmetic behind \<open>EXTINF\<close> are parameters (record \<open>golib\<close>): URLs are an opaque type with its
  parser, printer and resolution, floats an opaque type with the comparisons the code makes and the conversion to a duration.
\<close>

section \<open>Data\<close>

datatype hls_error =
    ErrInvalidURL | ErrConnectionClosed | ErrRequestTimeout | ErrStreamEnded | ErrBadStatus int | ErrMalformedPlaylist | ErrNoPlayableSegment
  | ErrPlaylistTooLarge | ErrSegmentTooLarge | Demux_Error ts_error | ErrReadTimeout | ErrClosed | Context_Error

abbreviation unsupported :: hls_error where
  "unsupported \<equiv> Demux_Error ErrUnsupportedPlaylist"

record ('u, 'f) golib =
  url_Parse :: "bytes \<Rightarrow> 'u option"
  url_String :: "'u \<Rightarrow> bytes"
  url_ResolveReference :: "'u \<Rightarrow> 'u \<Rightarrow> 'u"
  ParseFloat :: "bytes \<Rightarrow> 'f option"
  IsNaN :: "'f \<Rightarrow> bool"
  float_less :: "'f \<Rightarrow> 'f \<Rightarrow> bool"
  float_of_int :: "int \<Rightarrow> 'f"
  float_Duration :: "'f \<Rightarrow> int"

definition MaxSegmentsPerPlaylist :: nat where [caps]: "MaxSegmentsPerPlaylist = 131072"
definition maxPlaylistSeconds :: int where [caps]: "maxPlaylistSeconds = 24 * 60 * 60"

record mediaSegment =
  seg_uri :: bytes
  seg_initURI :: bytes
  seg_seq :: u64
  seg_duration :: int
  seg_discontinuity :: bool
  seg_gap :: bool

record mediaPlaylist =
  mp_version :: int
  mp_targetDuration :: int
  mp_mediaSequence :: u64
  mp_discontinuitySequence :: u64
  mp_endList :: bool
  mp_segments :: "mediaSegment list"

record variant =
  va_uri :: bytes
  va_bandwidth :: int
  va_audioGroup :: bytes

record rendition =
  re_uri :: bytes
  re_groupID :: bytes
  re_isDefault :: bool

record masterPlaylist =
  ma_variants :: "variant list"
  ma_audio :: "rendition list"

datatype playlist = Media mediaPlaylist | Master masterPlaylist

section \<open>Text\<close>

text \<open>The width of the character a string begins with; \<open>None\<close> when the bytes are not UTF-8.\<close>

definition cont :: "byte \<Rightarrow> bool" where
  "cont b \<longleftrightarrow> 0x80 \<le> b \<and> b \<le> 0xBF"

definition rune_width :: "bytes \<Rightarrow> nat option" where
  "rune_width s = (case s of
     [] \<Rightarrow> None
   | b0 # r \<Rightarrow>
       if b0 < 0x80 then Some 1
       else (case r of
          [] \<Rightarrow> None
        | b1 # r \<Rightarrow>
            if 0xC2 \<le> b0 \<and> b0 \<le> 0xDF then if cont b1 then Some 2 else None
            else (case r of
               [] \<Rightarrow> None
             | b2 # r \<Rightarrow>
                 if 0xE0 \<le> b0 \<and> b0 \<le> 0xEF then
                   if (if b0 = 0xE0 then 0xA0 else 0x80) \<le> b1 \<and> b1 \<le> (if b0 = 0xED then 0x9F else 0xBF) \<and> cont b2 then Some 3 else None
                 else (case r of
                    [] \<Rightarrow> None
                  | b3 # _ \<Rightarrow>
                      if 0xF0 \<le> b0 \<and> b0 \<le> 0xF4 \<and> (if b0 = 0xF0 then 0x90 else 0x80) \<le> b1 \<and> b1 \<le> (if b0 = 0xF4 then 0x8F else 0xBF)
                        \<and> cont b2 \<and> cont b3 then Some 4 else None))))"

text \<open>Ranging over a string yields its characters; a byte that is not UTF-8 yields U+FFFD.\<close>

function runes :: "bytes \<Rightarrow> bytes list" where
  "runes s = (if s = [] then [] else case rune_width s of
     Some n \<Rightarrow> take n s # runes (drop n s)
   | None \<Rightarrow> [0xEF, 0xBF, 0xBD] # runes (tl s))"
  by pat_completeness auto
termination
proof (relation "measure length", simp)
  fix s :: bytes and n
  assume "s \<noteq> []" "rune_width s = Some n"
  then show "(drop n s, s) \<in> measure length" by (auto simp: rune_width_def split: list.splits if_splits)
qed simp

declare runes.simps [simp del]

fun split_attr_runes :: "bytes list \<Rightarrow> bool \<Rightarrow> bytes \<Rightarrow> bytes list" where
  "split_attr_runes [] inQuote b = (if length b > 0 then [b] else [])"
| "split_attr_runes (r # rs) inQuote b =
     (if r = [34] then split_attr_runes rs (\<not> inQuote) (b @ r)
      else if r = [44] \<and> \<not> inQuote then b # split_attr_runes rs inQuote []
      else split_attr_runes rs inQuote (b @ r))"

definition splitAttrs :: "bytes \<Rightarrow> bytes list" where
  "splitAttrs attrs = split_attr_runes (runes attrs) False []"

definition Trim_quotes :: "bytes \<Rightarrow> bytes" where
  "Trim_quotes s = rev (dropWhile (\<lambda>c. c = 34) (rev (dropWhile (\<lambda>c. c = 34) s)))"

fun lookupAttr :: "bytes list \<Rightarrow> bytes \<Rightarrow> bytes" where
  "lookupAttr [] key = []"
| "lookupAttr (kv # pairs) key =
     (let (k, v, has) = Cut 61 kv in if has \<and> EqualFold (TrimSpace k) key then Trim_quotes (TrimSpace v) else lookupAttr pairs key)"

definition attrValue :: "bytes \<Rightarrow> bytes \<Rightarrow> bytes" where
  "attrValue attrs key = lookupAttr (splitAttrs attrs) key"

fun ReplaceCRLF :: "bytes \<Rightarrow> bytes" where
  "ReplaceCRLF (a # b # s) = (if a = CR \<and> b = LF then LF # ReplaceCRLF s else a # ReplaceCRLF (b # s))"
| "ReplaceCRLF s = s"

definition splitLines :: "bytes \<Rightarrow> bytes list" where
  "splitLines s = Split LF (ReplaceCRLF (TrimPrefix [0xEF, 0xBB, 0xBF] s))"

text \<open>
  \<open>strconv.ParseUint\<close> at base 10 and 64 bits, and the value of \<open>strconv.Atoi\<close> when its error is ignored: zero for a text that is no number, and the nearest
  number in range for one that is too large. The scan stops at the digit that overflows, so what follows that digit is not looked at.
\<close>

fun uint_scan :: "nat \<Rightarrow> bytes \<Rightarrow> nat option" where
  "uint_scan n [] = Some n"
| "uint_scan n (c # s) =
     (if 48 \<le> c \<and> c \<le> 57 then
        let n = n * 10 + unat (c - 48) in if n \<ge> 2 ^ 64 then Some (2 ^ 64) else uint_scan n s
      else None)"

definition ParseUint64 :: "bytes \<Rightarrow> u64 option" where
  "ParseUint64 s = (if s = [] then None else case atoi_digits 0 s of None \<Rightarrow> None | Some n \<Rightarrow> if n < 2 ^ 64 then Some (word_of_nat n) else None)"

definition Atoi_value :: "bytes \<Rightarrow> int" where
  "Atoi_value s =
     (let (neg, d) = (case s of [] \<Rightarrow> (False, []) | c # cs \<Rightarrow> if c = 45 then (True, cs) else if c = 43 then (False, cs) else (False, s))
      in if d = [] then 0
         else case uint_scan 0 d of
             None \<Rightarrow> 0
           | Some n \<Rightarrow> if neg then max (- (2 ^ 63)) (- int n) else min (2 ^ 63 - 1) (int n))"

definition resolveURI :: "('u, 'f) golib \<Rightarrow> 'u option \<Rightarrow> bytes \<Rightarrow> bytes" where
  "resolveURI lib base ref = (case url_Parse lib (TrimSpace ref) of
     None \<Rightarrow> ref
   | Some u \<Rightarrow> (case base of None \<Rightarrow> url_String lib u | Some b \<Rightarrow> url_String lib (url_ResolveReference lib b u)))"

definition parseExtinf :: "('u, 'f) golib \<Rightarrow> bytes \<Rightarrow> hls_error + int" where
  "parseExtinf lib attr = (let (field, _, _) = Cut 44 attr in
     case ParseFloat lib (TrimSpace field) of
       None \<Rightarrow> Inl ErrMalformedPlaylist
     | Some secs \<Rightarrow>
         if IsNaN lib secs \<or> float_less lib secs (float_of_int lib 0) \<or> float_less lib (float_of_int lib maxPlaylistSeconds) secs then Inl ErrMalformedPlaylist
         else Inr (float_Duration lib secs))"

section \<open>The parser\<close>

record playlistParser =
  pp_media :: mediaPlaylist
  pp_master :: masterPlaylist
  pp_isMedia :: bool
  pp_isMaster :: bool
  pp_haveTgt :: bool
  pp_pendExtinf :: bool
  pp_pendDur :: int
  pp_pendDisc :: bool
  pp_pendGap :: bool
  pp_pendVariant :: "variant option"
  pp_curInitURI :: bytes

definition parser0 :: playlistParser where
  "parser0 = \<lparr>pp_media = \<lparr>mp_version = 0, mp_targetDuration = 0, mp_mediaSequence = 0, mp_discontinuitySequence = 0, mp_endList = False, mp_segments = []\<rparr>,
     pp_master = \<lparr>ma_variants = [], ma_audio = []\<rparr>, pp_isMedia = False, pp_isMaster = False, pp_haveTgt = False,
     pp_pendExtinf = False, pp_pendDur = 0, pp_pendDisc = False, pp_pendGap = False, pp_pendVariant = None, pp_curInitURI = []\<rparr>"

definition handleURI :: "('u, 'f) golib \<Rightarrow> 'u option \<Rightarrow> bytes \<Rightarrow> playlistParser \<Rightarrow> hls_error + playlistParser" where
  "handleURI lib base line p =
     (case pp_pendVariant p of
        Some v \<Rightarrow>
          Inr (p\<lparr>pp_master := (pp_master p)\<lparr>ma_variants := ma_variants (pp_master p) @ [v\<lparr>va_uri := resolveURI lib base line\<rparr>]\<rparr>,
                 pp_pendVariant := None, pp_isMaster := True\<rparr>)
      | None \<Rightarrow>
          if pp_pendExtinf p then
            if length (mp_segments (pp_media p)) \<ge> MaxSegmentsPerPlaylist then Inl unsupported
            else
              let m = pp_media p;
                  seg = \<lparr>seg_uri = resolveURI lib base line, seg_initURI = pp_curInitURI p,
                    seg_seq = mp_mediaSequence m + word_of_nat (length (mp_segments m)), seg_duration = pp_pendDur p,
                    seg_discontinuity = pp_pendDisc p, seg_gap = pp_pendGap p\<rparr>
              in Inr (p\<lparr>pp_media := m\<lparr>mp_segments := mp_segments m @ [seg]\<rparr>, pp_pendExtinf := False, pp_pendDisc := False, pp_pendGap := False\<rparr>)
          else Inl ErrMalformedPlaylist)"

definition handleTag :: "('u, 'f) golib \<Rightarrow> 'u option \<Rightarrow> bytes \<Rightarrow> bytes \<Rightarrow> playlistParser \<Rightarrow> hls_error + playlistParser" where
  "handleTag lib base tag attr p =
     (let m = pp_media p in
      if tag = lit ''#EXT-X-VERSION'' then Inr (p\<lparr>pp_media := m\<lparr>mp_version := Atoi_value (TrimSpace attr)\<rparr>\<rparr>)
      else if tag = lit ''#EXT-X-TARGETDURATION'' then
        (case Atoi (TrimSpace attr) of
           None \<Rightarrow> Inl ErrMalformedPlaylist
         | Some secs \<Rightarrow>
             if secs \<le> 0 \<or> secs > maxPlaylistSeconds then Inl ErrMalformedPlaylist
             else Inr (p\<lparr>pp_isMedia := True, pp_media := m\<lparr>mp_targetDuration := secs * 10 ^ 9\<rparr>, pp_haveTgt := True\<rparr>))
      else if tag = lit ''#EXT-X-MEDIA-SEQUENCE'' then
        (case ParseUint64 (TrimSpace attr) of
           None \<Rightarrow> Inl ErrMalformedPlaylist
         | Some seq \<Rightarrow>
             if unat seq > 2 ^ 64 - 1 - (MaxSegmentsPerPlaylist - 1) then Inl ErrMalformedPlaylist
             else Inr (p\<lparr>pp_media := m\<lparr>mp_mediaSequence := seq\<rparr>\<rparr>))
      else if tag = lit ''#EXT-X-DISCONTINUITY-SEQUENCE'' then
        (case ParseUint64 (TrimSpace attr) of
           None \<Rightarrow> Inl ErrMalformedPlaylist
         | Some dseq \<Rightarrow> Inr (p\<lparr>pp_media := m\<lparr>mp_discontinuitySequence := dseq\<rparr>\<rparr>))
      else if tag = lit ''#EXT-X-ENDLIST'' then Inr (p\<lparr>pp_isMedia := True, pp_media := m\<lparr>mp_endList := True\<rparr>\<rparr>)
      else if tag = lit ''#EXTINF'' then
        (case parseExtinf lib attr of
           Inl e \<Rightarrow> Inl e
         | Inr dur \<Rightarrow> Inr (p\<lparr>pp_isMedia := True, pp_pendExtinf := True, pp_pendDur := dur\<rparr>))
      else if tag = lit ''#EXT-X-DISCONTINUITY'' then Inr (p\<lparr>pp_pendDisc := True\<rparr>)
      else if tag = lit ''#EXT-X-GAP'' then Inr (p\<lparr>pp_pendGap := True\<rparr>)
      else if tag = lit ''#EXT-X-KEY'' then if EqualFold (attrValue attr (lit ''METHOD'')) (lit ''NONE'') then Inr p else Inl unsupported
      else if tag = lit ''#EXT-X-MAP'' then
        let pairs = splitAttrs attr; uri = lookupAttr pairs (lit ''URI'') in
        if lookupAttr pairs (lit ''BYTERANGE'') \<noteq> [] then Inl unsupported
        else if uri = [] then Inl ErrMalformedPlaylist
        else Inr (p\<lparr>pp_isMedia := True, pp_curInitURI := resolveURI lib base uri\<rparr>)
      else if tag = lit ''#EXT-X-BYTERANGE'' then Inl unsupported
      else if tag = lit ''#EXT-X-STREAM-INF'' then
        let pairs = splitAttrs attr in
        Inr (p\<lparr>pp_isMaster := True,
               pp_pendVariant := Some \<lparr>va_uri = [], va_bandwidth = Atoi_value (lookupAttr pairs (lit ''BANDWIDTH'')), va_audioGroup = lookupAttr pairs (lit ''AUDIO'')\<rparr>\<rparr>)
      else if tag = lit ''#EXT-X-MEDIA'' then
        let pairs = splitAttrs attr; uri = lookupAttr pairs (lit ''URI'');
            r = \<lparr>re_uri = (if uri \<noteq> [] then resolveURI lib base uri else uri), re_groupID = lookupAttr pairs (lit ''GROUP-ID''),
              re_isDefault = EqualFold (lookupAttr pairs (lit ''DEFAULT'')) (lit ''YES'')\<rparr>
        in if EqualFold (lookupAttr pairs (lit ''TYPE'')) (lit ''AUDIO'')
           then Inr (p\<lparr>pp_isMaster := True, pp_master := (pp_master p)\<lparr>ma_audio := ma_audio (pp_master p) @ [r]\<rparr>\<rparr>)
           else Inr (p\<lparr>pp_isMaster := True\<rparr>)
      else Inr p)"

definition handle_line :: "('u, 'f) golib \<Rightarrow> 'u option \<Rightarrow> bytes \<Rightarrow> playlistParser \<Rightarrow> hls_error + playlistParser" where
  "handle_line lib base raw p =
     (let line = TrimSpace raw in
      if line = [] then Inr p
      else if \<not> prefix (lit ''#'') line then handleURI lib base line p
      else let (tag, attr, _) = Cut 58 line in handleTag lib base tag attr p)"

fun handle_lines :: "('u, 'f) golib \<Rightarrow> 'u option \<Rightarrow> bytes list \<Rightarrow> playlistParser \<Rightarrow> hls_error + playlistParser" where
  "handle_lines lib base [] p = Inr p"
| "handle_lines lib base (raw # lines) p = (case handle_line lib base raw p of Inl e \<Rightarrow> Inl e | Inr p \<Rightarrow> handle_lines lib base lines p)"

definition result :: "playlistParser \<Rightarrow> hls_error + playlist" where
  "result p =
     (if pp_isMaster p \<and> pp_isMedia p then Inl ErrMalformedPlaylist
      else if pp_isMaster p then Inr (Master (pp_master p))
      else if pp_isMedia p then if \<not> pp_haveTgt p then Inl ErrMalformedPlaylist else Inr (Media (pp_media p))
      else Inl ErrMalformedPlaylist)"

definition parsePlaylist :: "('u, 'f) golib \<Rightarrow> bytes \<Rightarrow> 'u option \<Rightarrow> hls_error + playlist" where
  "parsePlaylist lib body base = (case splitLines body of
     [] \<Rightarrow> Inl ErrMalformedPlaylist
   | l # ls \<Rightarrow>
       if TrimSpace l \<noteq> lit ''#EXTM3U'' then Inl ErrMalformedPlaylist
       else (case handle_lines lib base ls parser0 of Inl e \<Rightarrow> Inl e | Inr p \<Rightarrow> result p))"

section \<open>Choosing a media playlist\<close>

fun pick_audio_from :: "rendition option \<Rightarrow> rendition list \<Rightarrow> bytes \<Rightarrow> rendition option" where
  "pick_audio_from first [] grp = first"
| "pick_audio_from first (r # rs) grp =
     (if grp \<noteq> [] \<and> re_groupID r \<noteq> grp then pick_audio_from first rs grp
      else if re_isDefault r then Some r
      else pick_audio_from (if first = None then Some r else first) rs grp)"

definition pickAudio :: "rendition list \<Rightarrow> bytes \<Rightarrow> rendition option" where
  "pickAudio renditions grp = pick_audio_from None renditions grp"

definition selectMediaURL :: "masterPlaylist \<Rightarrow> hls_error + bytes" where
  "selectMediaURL m =
     (case ma_variants m of
        [] \<Rightarrow> (case pickAudio (ma_audio m) [] of
                 Some r \<Rightarrow> if re_uri r \<noteq> [] then Inr (re_uri r) else Inl unsupported
               | None \<Rightarrow> Inl unsupported)
      | v # vs \<Rightarrow>
          let lowest = fold (\<lambda>v lowest. if va_bandwidth v < va_bandwidth lowest then v else lowest) vs v;
              own = (if va_uri lowest = [] then Inl unsupported else Inr (va_uri lowest))
          in if va_audioGroup lowest \<noteq> [] then
               (case pickAudio (ma_audio m) (va_audioGroup lowest) of
                  Some r \<Rightarrow> if re_uri r \<noteq> [] then Inr (re_uri r) else own
                | None \<Rightarrow> own)
             else own)"


lemma of_char_byte: "unat (of_char c :: byte) = of_char c"
  by (cases c) (simp add: of_char_Char ) 
lemma lit_inj: "lit s = lit t \<longleftrightarrow> s = t"
proof -
  have "inj (of_char :: char \<Rightarrow> byte)" by (rule injI) (metis of_char_byte of_char_eq_iff)
  then show ?thesis by (simp add: lit_def inj_map_eq_map)
qed

section \<open>What any playlist parses to\<close>

text \<open>The documented behaviour of float conversion: a number between 0 and a day is a duration between 0 and a day.\<close>

definition float_law :: "('u, 'f) golib \<Rightarrow> bool" where
  "float_law lib \<longleftrightarrow> (\<forall>f. \<not> IsNaN lib f \<longrightarrow> \<not> float_less lib f (float_of_int lib 0) \<longrightarrow> \<not> float_less lib (float_of_int lib maxPlaylistSeconds) f
     \<longrightarrow> 0 \<le> float_Duration lib f \<and> float_Duration lib f \<le> maxPlaylistSeconds * 10 ^ 9)"

definition duration_ok :: "int \<Rightarrow> bool" where
  "duration_ok d \<longleftrightarrow> 0 \<le> d \<and> d \<le> maxPlaylistSeconds * 10 ^ 9"

text \<open>A segment's number does not wrap: it is at least its index, that is the base it was counted from plus the index.\<close>

definition segments_ok :: "mediaSegment list \<Rightarrow> bool" where
  "segments_ok segs \<longleftrightarrow> length segs \<le> MaxSegmentsPerPlaylist
     \<and> list_all (\<lambda>(i, s). i \<le> unat (seg_seq s) \<and> duration_ok (seg_duration s)) (enumerate 0 segs)"

definition parser_ok :: "playlistParser \<Rightarrow> bool" where
  "parser_ok p \<longleftrightarrow> segments_ok (mp_segments (pp_media p)) \<and> unat (mp_mediaSequence (pp_media p)) \<le> 2 ^ 64 - MaxSegmentsPerPlaylist
     \<and> duration_ok (pp_pendDur p) \<and> (pp_haveTgt p \<longrightarrow> 10 ^ 9 \<le> mp_targetDuration (pp_media p) \<and> duration_ok (mp_targetDuration (pp_media p)))"

lemma parseExtinf_ok: "float_law lib \<Longrightarrow> parseExtinf lib attr = Inr d \<Longrightarrow> duration_ok d"
  by (auto simp: parseExtinf_def float_law_def duration_ok_def split: prod.splits option.splits if_splits)

lemma segments_ok_snoc:
  assumes "segments_ok segs" "length segs < MaxSegmentsPerPlaylist" "length segs \<le> unat (seg_seq s)" "duration_ok (seg_duration s)"
  shows "segments_ok (segs @ [s])"
  using assms by (simp add: segments_ok_def enumerate_append_eq)

abbreviation (input) keeps_ok :: "hls_error + playlistParser \<Rightarrow> bool" where
  "keeps_ok r \<equiv> pred_sum (\<lambda>_. True) parser_ok r"

lemma keeps_if: "(c \<Longrightarrow> keeps_ok a) \<Longrightarrow> (\<not> c \<Longrightarrow> keeps_ok b) \<Longrightarrow> keeps_ok (if c then a else b)"
  by simp

lemma keeps_option: "(r = None \<Longrightarrow> keeps_ok a) \<Longrightarrow> (\<And>x. r = Some x \<Longrightarrow> keeps_ok (f x)) \<Longrightarrow> keeps_ok (case r of None \<Rightarrow> a | Some x \<Rightarrow> f x)"
  by (cases r) simp_all

lemma keeps_sum: "(\<And>x. r = Inr x \<Longrightarrow> keeps_ok (f x)) \<Longrightarrow> keeps_ok (case r of Inl e \<Rightarrow> Inl e | Inr x \<Rightarrow> f x)"
  by (cases r) simp_all

lemma handleURI_ok:
  assumes "parser_ok p"
  shows "keeps_ok (handleURI lib base line p)"
  unfolding handleURI_def Let_def
proof (intro keeps_option keeps_if)
  define m where "m = pp_media p"
  assume l: "\<not> MaxSegmentsPerPlaylist \<le> length (mp_segments (pp_media p))"
  have "unat (mp_mediaSequence m) + length (mp_segments m) < 2 ^ 64" using assms l by (simp add: parser_ok_def m_def caps)
  then have "unat (mp_mediaSequence m + word_of_nat (length (mp_segments m))) = unat (mp_mediaSequence m) + length (mp_segments m)"
    using l by (subst unat_add_lem [THEN iffD1]) (simp_all add: unat_word_of_nat_small caps m_def)
  then have "segments_ok (mp_segments m @ [\<lparr>seg_uri = u, seg_initURI = i, seg_seq = mp_mediaSequence m + word_of_nat (length (mp_segments m)),
      seg_duration = pp_pendDur p, seg_discontinuity = d, seg_gap = g\<rparr>])" for u i d g
    using assms l by (intro segments_ok_snoc) (simp_all add: parser_ok_def m_def)
  then show "keeps_ok (Inr (p\<lparr>pp_media := (pp_media p)\<lparr>mp_segments := mp_segments (pp_media p) @ [\<lparr>seg_uri = resolveURI lib base line, seg_initURI = pp_curInitURI p,
        seg_seq = mp_mediaSequence (pp_media p) + word_of_nat (length (mp_segments (pp_media p))), seg_duration = pp_pendDur p,
        seg_discontinuity = pp_pendDisc p, seg_gap = pp_pendGap p\<rparr>]\<rparr>, pp_pendExtinf := False, pp_pendDisc := False, pp_pendGap := False\<rparr>))"
    using assms unfolding m_def by (simp add: parser_ok_def)
qed (use assms in \<open>simp_all add: parser_ok_def\<close>)

lemma parser_ok_updates:
  assumes "parser_ok p"
  shows "parser_ok (p\<lparr>pp_media := (pp_media p)\<lparr>mp_version := v\<rparr>\<rparr>)" "parser_ok (p\<lparr>pp_media := (pp_media p)\<lparr>mp_discontinuitySequence := n\<rparr>\<rparr>)"
    "parser_ok (p\<lparr>pp_media := (pp_media p)\<lparr>mp_endList := b\<rparr>\<rparr>)" "parser_ok (p\<lparr>pp_isMedia := b\<rparr>)" "parser_ok (p\<lparr>pp_isMaster := b\<rparr>)" "parser_ok (p\<lparr>pp_pendExtinf := b\<rparr>)"
    "parser_ok (p\<lparr>pp_pendDisc := b\<rparr>)" "parser_ok (p\<lparr>pp_pendGap := b\<rparr>)" "parser_ok (p\<lparr>pp_pendVariant := w\<rparr>)" "parser_ok (p\<lparr>pp_curInitURI := u\<rparr>)" "parser_ok (p\<lparr>pp_master := a\<rparr>)"
    "unat q \<le> 2 ^ 64 - MaxSegmentsPerPlaylist \<Longrightarrow> parser_ok (p\<lparr>pp_media := (pp_media p)\<lparr>mp_mediaSequence := q\<rparr>\<rparr>)"
  using assms by (simp_all add: parser_ok_def)

lemma handleTag_ok:
  assumes "float_law lib" "parser_ok p"
  shows "keeps_ok (handleTag lib base tag attr p)"
proof -
  have ended: "parser_ok (p\<lparr>pp_isMedia := True, pp_media := (pp_media p)\<lparr>mp_endList := True\<rparr>\<rparr>)"
    and inf: "duration_ok d \<Longrightarrow> parser_ok (p\<lparr>pp_isMedia := True, pp_pendExtinf := True, pp_pendDur := d\<rparr>)"
    and tgt: "\<not> d \<le> 0 \<Longrightarrow> \<not> maxPlaylistSeconds < d \<Longrightarrow> parser_ok (p\<lparr>pp_isMedia := True, pp_media := (pp_media p)\<lparr>mp_targetDuration := d * 1000000000\<rparr>, pp_haveTgt := True\<rparr>)" for d
    using assms(2) by (simp_all add: parser_ok_def duration_ok_def)
  have seq: "unat q \<le> 2 ^ 64 - MaxSegmentsPerPlaylist" if "\<not> 2 ^ 64 - 1 - (MaxSegmentsPerPlaylist - 1) < unat q" for q :: u64
    using that by (simp add: caps)
  show ?thesis unfolding handleTag_def Let_def
    by (intro keeps_if keeps_option keeps_sum) (simp_all add: assms(2) parser_ok_updates ended inf tgt seq parseExtinf_ok [OF assms(1)])
qed

lemma handle_line_ok: "float_law lib \<Longrightarrow> parser_ok p \<Longrightarrow> keeps_ok (handle_line lib base raw p)"
  unfolding handle_line_def Let_def by (intro keeps_if) (simp_all add: handleURI_ok handleTag_ok split: prod.split)

lemma handle_lines_ok: "float_law lib \<Longrightarrow> parser_ok p \<Longrightarrow> keeps_ok (handle_lines lib base ls p)"
proof (induction ls arbitrary: p)
  case (Cons l ls)
  then show ?case using handle_line_ok [of lib p base l] by (cases "handle_line lib base l p") simp_all
qed simp


definition playlist_ok :: "mediaPlaylist \<Rightarrow> bool" where
  "playlist_ok m \<longleftrightarrow> segments_ok (mp_segments m) \<and> 10 ^ 9 \<le> mp_targetDuration m \<and> duration_ok (mp_targetDuration m)"

lemma parsePlaylist_ok:
  assumes "float_law lib" "parsePlaylist lib body base = Inr (Media m)"
  shows "playlist_ok m"
proof -
  obtain ls p where p: "handle_lines lib base ls parser0 = Inr p" "result p = Inr (Media m)"
    using assms(2) by (auto simp: parsePlaylist_def split: list.splits if_splits sum.splits)
  have "parser_ok parser0" by (simp add: parser_ok_def parser0_def segments_ok_def duration_ok_def caps)
  then have "parser_ok p" using handle_lines_ok [OF assms(1), of parser0 base ls] p(1) by simp
  then show ?thesis using p(2) by (auto simp: result_def parser_ok_def playlist_ok_def split: if_splits)
qed

section \<open>A playlist as a packager writes it\<close>

text \<open>A URL or a number of seconds as it stands in a playlist.\<close>

definition field_text :: "bytes \<Rightarrow> bool" where
  "field_text u \<longleftrightarrow> u \<noteq> [] \<and> list_all (\<lambda>c. printing c \<and> c \<noteq> 34) u"

definition url_text :: "bytes \<Rightarrow> bool" where
  "url_text u \<longleftrightarrow> field_text u \<and> hd u \<noteq> 35"

definition segment_lines :: "bytes \<Rightarrow> bytes \<times> mediaSegment \<Rightarrow> bytes list" where
  "segment_lines cur ts = (case ts of (txt, s) \<Rightarrow>
     (if seg_initURI s \<noteq> cur then [lit ''#EXT-X-MAP:URI='' @ [34] @ seg_initURI s @ [34]] else [])
     @ (if seg_discontinuity s then [lit ''#EXT-X-DISCONTINUITY''] else [])
     @ (if seg_gap s then [lit ''#EXT-X-GAP''] else [])
     @ [lit ''#EXTINF:'' @ txt @ lit '','', seg_uri s])"

fun segments_lines :: "bytes \<Rightarrow> (bytes \<times> mediaSegment) list \<Rightarrow> bytes list" where
  "segments_lines cur [] = []"
| "segments_lines cur (ts # tss) = segment_lines cur ts @ segments_lines (seg_initURI (snd ts)) tss"

definition media_lines :: "mediaPlaylist \<Rightarrow> bytes list \<Rightarrow> bytes list" where
  "media_lines m txts =
     [lit ''#EXT-X-VERSION:'' @ Itoa (mp_version m), lit ''#EXT-X-TARGETDURATION:'' @ Itoa (mp_targetDuration m div 10 ^ 9),
      lit ''#EXT-X-MEDIA-SEQUENCE:'' @ digits (unat (mp_mediaSequence m)), lit ''#EXT-X-DISCONTINUITY-SEQUENCE:'' @ digits (unat (mp_discontinuitySequence m))]
     @ segments_lines [] (zip txts (mp_segments m)) @ (if mp_endList m then [lit ''#EXT-X-ENDLIST''] else [])"

definition print_media :: "mediaPlaylist \<Rightarrow> bytes list \<Rightarrow> bytes" where
  "print_media m txts = concat (map (\<lambda>l. l @ [LF]) (lit ''#EXTM3U'' # media_lines m txts))"

text \<open>The URLs are absolute and the durations printed as the float parser reads them; segments are numbered in order, and a track once in fragmented MP4 stays so.\<close>

definition segment_text_ok :: "('u, 'f) golib \<Rightarrow> 'u option \<Rightarrow> bytes \<times> mediaSegment \<Rightarrow> bool" where
  "segment_text_ok lib base ts \<longleftrightarrow> (case ts of (txt, s) \<Rightarrow>
     field_text txt \<and> 44 \<notin> set txt \<and> parseExtinf lib txt = Inr (seg_duration s)
     \<and> url_text (seg_uri s) \<and> resolveURI lib base (seg_uri s) = seg_uri s
     \<and> (seg_initURI s \<noteq> [] \<longrightarrow> field_text (seg_initURI s) \<and> resolveURI lib base (seg_initURI s) = seg_initURI s))"

fun init_sticky :: "bytes \<Rightarrow> mediaSegment list \<Rightarrow> bool" where
  "init_sticky cur [] = True"
| "init_sticky cur (s # segs) = ((cur \<noteq> [] \<longrightarrow> seg_initURI s \<noteq> []) \<and> init_sticky (seg_initURI s) segs)"

definition seg_numbered :: "u64 \<Rightarrow> nat \<Rightarrow> mediaSegment list \<Rightarrow> bool" where
  "seg_numbered base i segs \<longleftrightarrow> map seg_seq segs = map (\<lambda>k. base + word_of_nat k) [i ..< i + length segs]"

definition media_ok :: "('u, 'f) golib \<Rightarrow> 'u option \<Rightarrow> mediaPlaylist \<Rightarrow> bytes list \<Rightarrow> bool" where
  "media_ok lib base m txts \<longleftrightarrow> length txts = length (mp_segments m) \<and> length (mp_segments m) \<le> MaxSegmentsPerPlaylist
     \<and> - (2 ^ 63) \<le> mp_version m \<and> mp_version m < 2 ^ 63
     \<and> 10 ^ 9 \<le> mp_targetDuration m \<and> duration_ok (mp_targetDuration m) \<and> mp_targetDuration m mod 10 ^ 9 = 0
     \<and> unat (mp_mediaSequence m) \<le> 2 ^ 64 - MaxSegmentsPerPlaylist
     \<and> list_all (segment_text_ok lib base) (zip txts (mp_segments m)) \<and> init_sticky [] (mp_segments m) \<and> seg_numbered (mp_mediaSequence m) 0 (mp_segments m)"

lemma printing_facts: "printing c \<Longrightarrow> c \<noteq> LF \<and> c \<noteq> CR \<and> c < 0x80"
  by (auto simp: printing_def word_less_nat_alt)

lemma Split_lines: "list_all (\<lambda>l. LF \<notin> set l) ls \<Longrightarrow> Split LF (concat (map (\<lambda>l. l @ [LF]) ls)) = ls @ [[]]"
  by (induction ls) (auto simp: Split_found)

lemma ReplaceCRLF_none: "CR \<notin> set s \<Longrightarrow> ReplaceCRLF s = s"
  by (induction s rule: ReplaceCRLF.induct) auto

text \<open>A tag line is trimmed to itself and split at its colon.\<close>

lemma tag_line:
  assumes "58 \<notin> set t" "t \<noteq> []" "hd t = 35" "attr \<noteq> []" "printing (last attr)"
  shows "handle_line lib base (t @ 58 # attr) p = handleTag lib base t attr p"
proof -
  have "TrimSpace (t @ 58 # attr) = t @ 58 # attr" using assms(2-5) by (intro TrimSpace_printing) (simp_all add: printing_def)
  moreover have "prefix (lit ''#'') (t @ 58 # attr)" using assms(2,3) by (cases t) (simp_all add: lit_simps)
  ultimately show ?thesis using Cut_found [OF assms(1), of attr] assms(2) by (simp add: handle_line_def)
qed

lemma bare_tag_line:
  assumes "58 \<notin> set t" "t \<noteq> []" "hd t = 35" "printing (last t)"
  shows "handle_line lib base t p = handleTag lib base t [] p"
proof -
  have "TrimSpace t = t" using assms(2-4) by (intro TrimSpace_printing) (simp_all add: printing_def)
  moreover have "prefix (lit ''#'') t" using assms(2,3) by (cases t) (simp_all add: lit_simps)
  ultimately show ?thesis using Cut_absent [OF assms(1)] assms(2) by (simp add: handle_line_def)
qed

lemma TrimSpace_Nil: "TrimSpace [] = []"
proof -
  have "trim_front ps [] = []" for ps by (rule trim_front_none) simp
  then show ?thesis by (simp add: TrimSpace_def)
qed

lemma field_ends: "field_text u \<Longrightarrow> u \<noteq> [] \<and> printing (hd u) \<and> printing (last u) \<and> 34 \<notin> set u"
  by (auto simp: field_text_def list_all_iff)

lemma uri_line: "url_text u \<Longrightarrow> handle_line lib base u p = handleURI lib base u p"
proof -
  assume u: "url_text u"
  then have "TrimSpace u = u" using field_ends [of u] by (intro TrimSpace_printing) (simp_all add: url_text_def)
  moreover have "\<not> prefix (lit ''#'') u" using u by (cases u) (simp_all add: url_text_def lit_simps)
  ultimately show ?thesis using u by (simp add: handle_line_def url_text_def field_text_def)
qed

lemma runes_ascii: "list_all (\<lambda>c. c < 0x80) s \<Longrightarrow> runes s = map (\<lambda>c. [c]) s"
proof (induction s)
  case (Cons c s)
  then have "rune_width (c # s) = Some 1" by (simp add: rune_width_def)
  then show ?case using Cons by (subst runes.simps) simp
qed (simp add: runes.simps)

lemma split_attr_quoted: "34 \<notin> set u \<Longrightarrow> split_attr_runes (map (\<lambda>c. [c]) u @ rs) True b = split_attr_runes rs True (b @ u)"
  by (induction u arbitrary: b) auto

lemma map_attrs:
  assumes "field_text u"
  shows "splitAttrs (lit ''URI='' @ [34] @ u @ [34]) = [lit ''URI='' @ [34] @ u @ [34]]"
    and "lookupAttr [lit ''URI='' @ [34] @ u @ [34]] (lit ''URI'') = u" "lookupAttr [lit ''URI='' @ [34] @ u @ [34]] (lit ''BYTERANGE'') = []"
proof -
  note u = field_ends [OF assms]
  have "list_all (\<lambda>c. c < 0x80) (lit ''URI='' @ [34] @ u @ [34])" using assms printing_facts by (auto simp: field_text_def list_all_iff lit_simps)
  then show "splitAttrs (lit ''URI='' @ [34] @ u @ [34]) = [lit ''URI='' @ [34] @ u @ [34]]"
    using u split_attr_quoted [of u "[[34]]"] by (simp add: splitAttrs_def runes_ascii lit_simps)
  have cut: "Cut 61 (lit ''URI='' @ [34] @ u @ [34]) = (lit ''URI'', [34] @ u @ [34], True)" using Cut_found [of 61 "lit ''URI''" "[34] @ u @ [34]"] by (simp add: lit_simps)
  have trims: "TrimSpace (lit ''URI'') = lit ''URI''" "TrimSpace ([34] @ u @ [34]) = [34] @ u @ [34]"
    by (rule TrimSpace_printing, simp_all add: lit_simps printing_def)+
  have stop: "dropWhile (\<lambda>c. c = 34) (v @ w) = v @ w" if "v \<noteq> []" "34 \<notin> set v" for v w :: bytes using that by (cases v) simp_all
  have "Trim_quotes ([34] @ u @ [34]) = u" using u stop [of u "[34]"] stop [of "rev u" "[]"] by (simp add: Trim_quotes_def)
  then show "lookupAttr [lit ''URI='' @ [34] @ u @ [34]] (lit ''URI'') = u" using cut trims by simp
  have "\<not> EqualFold (lit ''URI'') (lit ''BYTERANGE'')" by (simp add: EqualFold_def lit_simps)
  then show "lookupAttr [lit ''URI='' @ [34] @ u @ [34]] (lit ''BYTERANGE'') = []" using cut trims by simp
qed


text \<open>One line of each kind, and then one segment, read by the parser.\<close>

lemma last_field: "field_text u \<Longrightarrow> printing (last (v @ u))"
  using field_ends [of u] by simp

lemma map_line:
  assumes "field_text u" "resolveURI lib base u = u"
  shows "handle_line lib base (lit ''#EXT-X-MAP:URI='' @ [34] @ u @ [34]) p = Inr (p\<lparr>pp_isMedia := True, pp_curInitURI := u\<rparr>)"
proof -
  have "lit ''#EXT-X-MAP:URI='' @ [34] @ u @ [34] = lit ''#EXT-X-MAP'' @ 58 # (lit ''URI='' @ [34] @ u @ [34])" by (simp add: lit_simps)
  moreover have "handle_line lib base (lit ''#EXT-X-MAP'' @ 58 # (lit ''URI='' @ [34] @ u @ [34])) p = handleTag lib base (lit ''#EXT-X-MAP'') (lit ''URI='' @ [34] @ u @ [34]) p"
    by (rule tag_line) (simp_all add: lit_simps printing_def)
  moreover have "u \<noteq> []" using field_ends [OF assms(1)] by simp
  ultimately show ?thesis using map_attrs [OF assms(1)] assms(2) by (simp add: handleTag_def lit_inj del: lookupAttr.simps)
qed

lemma flag_lines:
  "handle_line lib base (lit ''#EXT-X-DISCONTINUITY'') p = Inr (p\<lparr>pp_pendDisc := True\<rparr>)"
  "handle_line lib base (lit ''#EXT-X-GAP'') p = Inr (p\<lparr>pp_pendGap := True\<rparr>)"
  "handle_line lib base (lit ''#EXT-X-ENDLIST'') p = Inr (p\<lparr>pp_isMedia := True, pp_media := (pp_media p)\<lparr>mp_endList := True\<rparr>\<rparr>)"
  by (subst bare_tag_line, simp_all add: lit_simps printing_def, simp add: handleTag_def lit_simps)+

lemma extinf_line:
  assumes "field_text txt" "44 \<notin> set txt" "parseExtinf lib txt = Inr d"
  shows "handle_line lib base (lit ''#EXTINF:'' @ txt @ lit '','') p = Inr (p\<lparr>pp_isMedia := True, pp_pendExtinf := True, pp_pendDur := d\<rparr>)"
proof -
  have "lit ''#EXTINF:'' @ txt @ lit '','' = lit ''#EXTINF'' @ 58 # (txt @ [44])" by (simp add: lit_simps)
  moreover have "handle_line lib base (lit ''#EXTINF'' @ 58 # (txt @ [44])) p = handleTag lib base (lit ''#EXTINF'') (txt @ [44]) p"
    by (rule tag_line) (simp_all add: lit_simps printing_def)
  moreover have "parseExtinf lib (txt @ [44]) = parseExtinf lib txt"
    using Cut_found [OF assms(2), of "[]"] Cut_absent [OF assms(2)] by (simp add: parseExtinf_def)
  ultimately show ?thesis using assms(3) by (simp add: handleTag_def lit_inj)
qed

text \<open>The parser between two segments, when so many have been read.\<close>

definition between :: "mediaPlaylist \<Rightarrow> bytes \<Rightarrow> mediaSegment list \<Rightarrow> playlistParser \<Rightarrow> bool" where
  "between m cur segs p \<longleftrightarrow> pp_media p = m\<lparr>mp_endList := False, mp_segments := segs\<rparr> \<and> pp_isMedia p \<and> \<not> pp_isMaster p \<and> pp_haveTgt p
     \<and> \<not> pp_pendDisc p \<and> \<not> pp_pendGap p \<and> pp_pendVariant p = None \<and> pp_curInitURI p = cur"

lemma handle_lines_append:
  "handle_lines lib base (xs @ ys) p = (case handle_lines lib base xs p of Inl e \<Rightarrow> Inl e | Inr p \<Rightarrow> handle_lines lib base ys p)"
  by (induction xs arbitrary: p) (simp_all split: sum.split)

lemma segment_lines_read:
  assumes "between m cur segs p" "segment_text_ok lib base (txt, s)" "cur \<noteq> [] \<longrightarrow> seg_initURI s \<noteq> []"
    and "seg_seq s = mp_mediaSequence m + word_of_nat (length segs)" "length segs < MaxSegmentsPerPlaylist"
  shows "\<exists>p'. handle_lines lib base (segment_lines cur (txt, s)) p = Inr p' \<and> between m (seg_initURI s) (segs @ [s]) p'"
proof -
  define p1 where "p1 = (if seg_initURI s \<noteq> cur then p\<lparr>pp_isMedia := True, pp_curInitURI := seg_initURI s\<rparr> else p)"
  define p2 where "p2 = (if seg_discontinuity s then p1\<lparr>pp_pendDisc := True\<rparr> else p1)"
  define p3 where "p3 = (if seg_gap s then p2\<lparr>pp_pendGap := True\<rparr> else p2)"
  define p4 where "p4 = p3\<lparr>pp_isMedia := True, pp_pendExtinf := True, pp_pendDur := seg_duration s\<rparr>"
  note t = assms(2) [unfolded segment_text_ok_def prod.case]
  have "seg_initURI s \<noteq> cur \<Longrightarrow> seg_initURI s \<noteq> []" using assms(3) by auto
  then have m: "handle_lines lib base (if seg_initURI s \<noteq> cur then [lit ''#EXT-X-MAP:URI='' @ [34] @ seg_initURI s @ [34]] else []) p = Inr p1"
    using t map_line [of "seg_initURI s" lib base p] by (simp add: p1_def)
  have d: "handle_lines lib base (if seg_discontinuity s then [lit ''#EXT-X-DISCONTINUITY''] else []) p1 = Inr p2" by (simp add: p2_def flag_lines)
  have g: "handle_lines lib base (if seg_gap s then [lit ''#EXT-X-GAP''] else []) p2 = Inr p3" by (simp add: p3_def flag_lines)
  have e: "handle_line lib base (lit ''#EXTINF:'' @ txt @ lit '','') p3 = Inr p4" using t by (simp add: p4_def extinf_line)
  have b: "pp_media p4 = m\<lparr>mp_endList := False, mp_segments := segs\<rparr>" "pp_isMedia p4" "\<not> pp_isMaster p4" "pp_haveTgt p4"
      "pp_pendDisc p4 = seg_discontinuity s" "pp_pendGap p4 = seg_gap s" "pp_pendVariant p4 = None" "pp_curInitURI p4 = seg_initURI s" "pp_pendExtinf p4" "pp_pendDur p4 = seg_duration s"
    using assms(1) by (auto simp: between_def p4_def p3_def p2_def p1_def)
  obtain p' where u: "handle_line lib base (seg_uri s) p4 = Inr p'" "between m (seg_initURI s) (segs @ [s]) p'"
  proof
    have "handleURI lib base (seg_uri s) p4 = Inr (p4\<lparr>pp_media := m\<lparr>mp_endList := False, mp_segments := segs @ [s]\<rparr>, pp_pendExtinf := False, pp_pendDisc := False, pp_pendGap := False\<rparr>)"
      using b t assms(4,5) by (simp add: handleURI_def)
    then show "handle_line lib base (seg_uri s) p4 = Inr (p4\<lparr>pp_media := m\<lparr>mp_endList := False, mp_segments := segs @ [s]\<rparr>, pp_pendExtinf := False, pp_pendDisc := False, pp_pendGap := False\<rparr>)"
      using t by (simp add: uri_line)
    show "between m (seg_initURI s) (segs @ [s]) (p4\<lparr>pp_media := m\<lparr>mp_endList := False, mp_segments := segs @ [s]\<rparr>, pp_pendExtinf := False, pp_pendDisc := False, pp_pendGap := False\<rparr>)"
      using b by (simp add: between_def)
  qed
  then show ?thesis using m d g e by (simp add: segment_lines_def handle_lines_append)
qed


lemma seg_numbered_Cons: "seg_numbered b i (s # segs) \<longleftrightarrow> seg_seq s = b + word_of_nat i \<and> seg_numbered b (Suc i) segs"
  by (simp add: seg_numbered_def upt_conv_Cons del: upt_Suc)

lemma segments_lines_read:
  assumes "between m cur segs p" "list_all (segment_text_ok lib base) (zip txts rest)" "length txts = length rest" "init_sticky cur rest"
    and "seg_numbered (mp_mediaSequence m) (length segs) rest" "length segs + length rest \<le> MaxSegmentsPerPlaylist"
  shows "\<exists>p' cur'. handle_lines lib base (segments_lines cur (zip txts rest)) p = Inr p' \<and> between m cur' (segs @ rest) p'"
  using assms(3,1,2,4-6)
proof (induction txts rest arbitrary: cur segs p rule: list_induct2)
  case (Cons tx txts s rest)
  obtain p1 where p1: "handle_lines lib base (segment_lines cur (tx, s)) p = Inr p1" "between m (seg_initURI s) (segs @ [s]) p1"
    using segment_lines_read [OF Cons.prems(1), of lib base tx s] Cons.prems by (auto simp: seg_numbered_Cons)
  have "\<exists>p' cur'. handle_lines lib base (segments_lines (seg_initURI s) (zip txts rest)) p1 = Inr p' \<and> between m cur' ((segs @ [s]) @ rest) p'"
    using Cons.prems by (intro Cons.IH [OF p1(2)]) (simp_all add: seg_numbered_Cons)
  then show ?case using p1(1) by (auto simp: handle_lines_append)
qed auto

text \<open>The numbers of the head of the playlist.\<close>

lemma digits_text: "digits n \<noteq> []" "printing (last (digits n))" "TrimSpace (digits n) = digits n"
proof -
  have d: "set (digits n) \<subseteq> {c. is_digit c}" "digits n \<noteq> []" using digits_are_digits [of n] by simp_all
  then have p: "printing c" if "c \<in> set (digits n)" for c using that digit_facts by auto
  show "digits n \<noteq> []" "printing (last (digits n))" "TrimSpace (digits n) = digits n" using d p by (auto intro!: TrimSpace_printing)
qed

lemma ParseUint64_digits: "ParseUint64 (digits (unat x)) = Some x"
proof -
  have "unat x < 2 ^ LENGTH(64)" by (rule unsigned_less)
  then show ?thesis using digits_text(1) [of "unat x"] by (simp add: ParseUint64_def digits_roundtrip)
qed

lemma uint_scan_small: "atoi_digits n s = Some m \<Longrightarrow> m < 2 ^ 64 \<Longrightarrow> n \<le> m \<and> uint_scan n s = Some m"
proof (induction s arbitrary: n)
  case (Cons c s)
  then have c: "48 \<le> c \<and> c \<le> 57" and rest: "atoi_digits (n * 10 + unat (c - 48)) s = Some m" by (simp_all split: if_splits)
  have "n * 10 + unat (c - 48) \<le> m" "uint_scan (n * 10 + unat (c - 48)) s = Some m" using Cons.IH [OF rest Cons.prems(2)] by simp_all
  then show ?case using c Cons.prems(2) by (simp add: Let_def)
qed simp

lemma Atoi_value_Itoa:
  assumes "- (2 ^ 63) \<le> i" "i < 2 ^ 63"
  shows "Atoi_value (Itoa i) = i"
proof -
  define neg d where "neg = (Itoa i \<noteq> [] \<and> hd (Itoa i) = 45)" and "d = (case Itoa i of [] \<Rightarrow> [] | c # cs \<Rightarrow> if c = 45 \<or> c = 43 then cs else c # cs)"
  have split: "(case Itoa i of [] \<Rightarrow> (False, []) | c # cs \<Rightarrow> if c = 45 then (True, cs) else if c = 43 then (False, cs) else (False, Itoa i)) = (neg, d)"
    by (auto simp: neg_def d_def split: list.split)
  obtain n where n: "d \<noteq> []" "atoi_digits 0 d = Some n" "i = (if neg then - int n else int n)"
    using Atoi_Itoa [OF assms] unfolding Atoi_def split by (auto simp: Let_def split: if_splits option.splits)
  then have "n < 2 ^ 64" using assms by (auto split: if_splits)
  then have "uint_scan 0 d = Some n" using uint_scan_small [OF n(2)] by simp
  then show ?thesis using n assms unfolding Atoi_value_def split by (auto simp: Let_def)
qed

lemma head_lines:
  assumes "media_ok lib base m txts"
  shows "\<exists>p. handle_lines lib base
      [lit ''#EXT-X-VERSION:'' @ Itoa (mp_version m), lit ''#EXT-X-TARGETDURATION:'' @ Itoa (mp_targetDuration m div 10 ^ 9),
       lit ''#EXT-X-MEDIA-SEQUENCE:'' @ digits (unat (mp_mediaSequence m)), lit ''#EXT-X-DISCONTINUITY-SEQUENCE:'' @ digits (unat (mp_discontinuitySequence m))] parser0 = Inr p
    \<and> between m [] [] p"
proof -
  have itoa: "Itoa i \<noteq> []" "printing (last (Itoa i))" for i using Itoa_chars [of i] by auto
  note ok = assms [unfolded media_ok_def]
  define secs where "secs = mp_targetDuration m div 10 ^ 9"
  have secs: "1 \<le> secs" "secs \<le> maxPlaylistSeconds" "secs * 1000000000 = mp_targetDuration m"
    using ok by (auto simp: secs_def duration_ok_def caps)
  then have "Atoi (Itoa secs) = Some secs" by (intro Atoi_Itoa) (simp_all add: caps)
  moreover have "Atoi_value (Itoa (mp_version m)) = mp_version m" using ok by (intro Atoi_value_Itoa) simp_all
  moreover have "\<not> 2 ^ 64 - 1 - (MaxSegmentsPerPlaylist - 1) < unat (mp_mediaSequence m)" using ok by (simp add: caps)
  moreover have "handle_line lib base (lit ''#EXT-X-VERSION:'' @ Itoa i) p = handleTag lib base (lit ''#EXT-X-VERSION'') (Itoa i) p"
    "handle_line lib base (lit ''#EXT-X-TARGETDURATION:'' @ Itoa i) p = handleTag lib base (lit ''#EXT-X-TARGETDURATION'') (Itoa i) p"
    "handle_line lib base (lit ''#EXT-X-MEDIA-SEQUENCE:'' @ digits n) p = handleTag lib base (lit ''#EXT-X-MEDIA-SEQUENCE'') (digits n) p"
    "handle_line lib base (lit ''#EXT-X-DISCONTINUITY-SEQUENCE:'' @ digits n) p = handleTag lib base (lit ''#EXT-X-DISCONTINUITY-SEQUENCE'') (digits n) p" for i n p
    using tag_line [of "lit ''#EXT-X-VERSION''" "Itoa i" lib base p] tag_line [of "lit ''#EXT-X-TARGETDURATION''" "Itoa i" lib base p]
      tag_line [of "lit ''#EXT-X-MEDIA-SEQUENCE''" "digits n" lib base p] tag_line [of "lit ''#EXT-X-DISCONTINUITY-SEQUENCE''" "digits n" lib base p]
    by (simp_all add: lit_simps itoa digits_text)
  ultimately show ?thesis using secs unfolding secs_def [symmetric]
    by (simp add: handleTag_def lit_inj ParseUint64_digits digits_text parser0_def between_def)
qed

lemma media_lines_clean:
  assumes "media_ok lib base m txts"
  shows "list_all (\<lambda>l. LF \<notin> set l \<and> CR \<notin> set l) (lit ''#EXTM3U'' # media_lines m txts)"
proof -
  have field: "LF \<notin> set u \<and> CR \<notin> set u" if "field_text u" for u using that printing_facts by (auto simp: field_text_def list_all_iff)
  have num: "LF \<notin> set (Itoa i)" "CR \<notin> set (Itoa i)" "LF \<notin> set (digits n)" "CR \<notin> set (digits n)" for i n
    using Itoa_chars [of i] digits_are_digits [of n] digit_facts by auto
  have "list_all (\<lambda>l. LF \<notin> set l \<and> CR \<notin> set l) (segments_lines cur tss)" if "list_all (segment_text_ok lib base) tss" "init_sticky cur (map snd tss)" for cur tss
    using that
  proof (induction tss arbitrary: cur)
    case (Cons ts tss)
    obtain tx s where ts: "ts = (tx, s)" by fastforce
    then have "field_text tx" "field_text (seg_uri s)" "seg_initURI s \<noteq> cur \<Longrightarrow> field_text (seg_initURI s)"
      using Cons.prems by (auto simp: segment_text_ok_def url_text_def)
    then show ?case using Cons field by (auto simp: ts segment_lines_def lit_simps)
  qed simp
  from this [of "zip txts (mp_segments m)" "[]"] have "list_all (\<lambda>l. LF \<notin> set l \<and> CR \<notin> set l) (segments_lines [] (zip txts (mp_segments m)))"
    using assms by (simp add: media_ok_def)
  then show ?thesis using num by (simp add: media_lines_def lit_simps)
qed

text \<open>What a packager writes is what the parser reads.\<close>

lemma parsePlaylist_print:
  assumes "media_ok lib base m txts"
  shows "parsePlaylist lib (print_media m txts) base = Inr (Media m)"
proof -
  note ok = assms [unfolded media_ok_def]
  have clean: "list_all (\<lambda>l. LF \<notin> set l) (lit ''#EXTM3U'' # media_lines m txts)" and cr: "CR \<notin> set (print_media m txts)"
    using media_lines_clean [OF assms] by (auto simp: list_all_iff print_media_def)
  have bom: "TrimPrefix [0xEF, 0xBB, 0xBF] (print_media m txts) = print_media m txts" by (simp add: TrimPrefix_def print_media_def lit_simps)
  have "Split LF (print_media m txts) = lit ''#EXTM3U'' # media_lines m txts @ [[]]" unfolding print_media_def using Split_lines [OF clean] by (simp only: append_Cons)
  then have lines: "splitLines (print_media m txts) = lit ''#EXTM3U'' # media_lines m txts @ [[]]" by (simp only: splitLines_def bom ReplaceCRLF_none [OF cr])
  obtain p where p: "handle_lines lib base
      [lit ''#EXT-X-VERSION:'' @ Itoa (mp_version m), lit ''#EXT-X-TARGETDURATION:'' @ Itoa (mp_targetDuration m div 10 ^ 9),
       lit ''#EXT-X-MEDIA-SEQUENCE:'' @ digits (unat (mp_mediaSequence m)), lit ''#EXT-X-DISCONTINUITY-SEQUENCE:'' @ digits (unat (mp_discontinuitySequence m))] parser0 = Inr p"
    "between m [] [] p" using head_lines [OF assms] by blast
  obtain p' cur where p': "handle_lines lib base (segments_lines [] (zip txts (mp_segments m))) p = Inr p'" "between m cur (mp_segments m) p'"
    using segments_lines_read [OF p(2), of lib base txts "mp_segments m"] ok by auto
  define p'' where "p'' = (if mp_endList m then p'\<lparr>pp_isMedia := True, pp_media := (pp_media p')\<lparr>mp_endList := True\<rparr>\<rparr> else p')"
  have "handle_lines lib base (if mp_endList m then [lit ''#EXT-X-ENDLIST''] else []) p' = Inr p''" by (simp add: p''_def flag_lines)
  moreover have "handle_line lib base [] p'' = Inr p''" by (simp add: handle_line_def TrimSpace_Nil)
  ultimately have "handle_lines lib base (media_lines m txts @ [[]]) parser0 = Inr p''"
    unfolding media_lines_def append_assoc handle_lines_append [of _ _ "[_, _, _, _]"] p(1) handle_lines_append [of _ _ "segments_lines _ _"]
    by (simp add: p'(1) handle_lines_append)
  moreover have "result p'' = Inr (Media m)" using p'(2) by (cases m) (auto simp: between_def p''_def result_def)
  moreover have "TrimSpace (lit ''#EXTM3U'') = lit ''#EXTM3U''" by (rule TrimSpace_printing) (simp_all add: lit_simps printing_def)
  ultimately show ?thesis by (simp add: parsePlaylist_def lines)
qed


section \<open>Properties\<close>

text \<open>The parameters at a concrete instance: absolute URLs, and whole seconds for floats.\<close>

definition plain_lib :: "(bytes, int) golib" where
  "plain_lib = \<lparr>url_Parse = Some, url_String = (\<lambda>u. u), url_ResolveReference = (\<lambda>_ u. u), ParseFloat = Atoi, IsNaN = (\<lambda>_. False),
     float_less = (<), float_of_int = (\<lambda>i. i), float_Duration = (\<lambda>s. s * 10 ^ 9)\<rparr>"

lemma plain_float_law: "float_law plain_lib"
  by (simp add: float_law_def plain_lib_def caps)

definition sample_media :: mediaPlaylist where
  "sample_media = \<lparr>mp_version = 7, mp_targetDuration = 6 * 10 ^ 9, mp_mediaSequence = 2 ^ 32, mp_discontinuitySequence = 1, mp_endList = True, mp_segments =
     [\<lparr>seg_uri = lit ''http://h/1.ts'', seg_initURI = [], seg_seq = 2 ^ 32, seg_duration = 6 * 10 ^ 9, seg_discontinuity = False, seg_gap = False\<rparr>,
      \<lparr>seg_uri = lit ''http://h/2.m4s'', seg_initURI = lit ''http://h/i.mp4'', seg_seq = 2 ^ 32 + 1, seg_duration = 5 * 10 ^ 9, seg_discontinuity = True, seg_gap = True\<rparr>]\<rparr>"

lemma sample_media_ok: "media_ok plain_lib None sample_media [lit ''6'', lit ''5'']"
proof -
  have seconds: "parseExtinf plain_lib (lit ''6'') = Inr (6 * 10 ^ 9)" "parseExtinf plain_lib (lit ''5'') = Inr (5 * 10 ^ 9)" by code_simp+
  have "TrimSpace u = u" if "field_text u" for u using field_ends [OF that] by (intro TrimSpace_printing) auto
  then have urls: "resolveURI plain_lib None u = u" if "field_text u" for u using that by (simp add: resolveURI_def plain_lib_def)
  have "field_text (lit ''http://h/1.ts'')" "field_text (lit ''http://h/2.m4s'')" "field_text (lit ''http://h/i.mp4'')" "field_text (lit ''6'')" "field_text (lit ''5'')" by code_simp+
  then show ?thesis using seconds urls
    by (simp add: media_ok_def sample_media_def segment_text_ok_def url_text_def seg_numbered_def duration_ok_def caps) (simp add: lit_simps)
qed

text \<open>
  C39. A media playlist as a packager writes it is read back exactly: version, target duration, the numbering, the end marker and, for every segment, its URL, its
  initialization segment, its number, its duration and its discontinuity and gap marks, for any number of segments up to the limit. That includes playlists that go over
  from transport-stream to fragmented MP4 segments, as the one of the witness does: the parser accepts them, and it is \<open>processSegment\<close> that refuses the first segment
  of the other container when it comes to it.
\<close>

theorem playlist_roundtrip:
  assumes "media_ok lib base m txts"
  shows "parsePlaylist lib (print_media m txts) base = Inr (Media m)"
  using assms by (rule parsePlaylist_print)

theorem playlist_roundtrip_witness: "parsePlaylist plain_lib (print_media sample_media [lit ''6'', lit ''5'']) None = Inr (Media sample_media)"
  using playlist_roundtrip [OF sample_media_ok] .

text \<open>
  C40. Whatever text a server sends as a playlist, one that is accepted as a media playlist is within bounds: at most 131072 segments, whose numbers have not
  wrapped past 64 bits, and a target duration of a second to a day, segment durations of zero to a day, so that none overflows as nanoseconds.
\<close>

theorem playlist_bounds:
  assumes "float_law lib" "parsePlaylist lib body base = Inr (Media m)"
  shows "playlist_ok m"
  using assms by (rule parsePlaylist_ok)

theorem playlist_bounds_witness: "float_law plain_lib \<and> playlist_ok sample_media"
  using playlist_bounds [OF plain_float_law parsePlaylist_print [OF sample_media_ok]] plain_float_law by simp

end
