(* ===== verification/HLS_Client.thy ===== *)
theory HLS_Client
  imports HLS_Playlist
begin

text \<open>
  The HLS client of \<open>src/hlssource/client.go\<close>: its requests, the open handshake and the reader's segment loop with its bookkeeping (numbering, lost segments,
  presentation time, a change of the initialization segment). The network is a parameter (record \<open>world\<close>): the reply to the n-th request, and whether another
  goroutine (\<open>Close\<close>, \<open>Wait\<close>, the watchdog) shut the client down during it or during the wait before it. The callbacks' calls are a log. The reload loop
  runs for as many passes as its first argument says; \<open>None\<close> is a panic of the reader goroutine.
\<close>

section \<open>State\<close>

record hls_config =
  cfg_OnFrame :: bool
  cfg_OnCodecUpdate :: bool
  cfg_MaxSegmentBytes :: nat
  cfg_MaxPlaylistBytes :: nat

record hls_frame =
  hf_Data :: bytes
  hf_PTS :: int
  hf_SeqGap :: int

datatype hls_event = OnFrame hls_frame | OnCodecUpdate bytes

text \<open>The media clock and the pending loss are Go's 64-bit signed integers, kept as words and read by \<open>sint\<close>.\<close>

record 'u hls_client =
  h_cfg :: hls_config
  h_demux :: segmentDemuxer
  h_media :: mediaPlaylist
  h_mediaURL :: "'u option"
  h_initURI :: bytes
  h_asc :: bytes
  h_codec :: bytes
  h_malformedBase :: u64
  h_pending :: access_units
  h_lastSeq :: u64
  h_mediaPTS :: u64
  h_pendingSeqGap :: u64
  h_pendingDisc :: bool
  h_termErr :: "hls_error option"
  h_packets :: u64
  h_payload :: u64
  h_malformed :: u64
  h_log :: "hls_event list"
  h_requests :: nat
  h_delay :: int

section \<open>Requests\<close>

record request_failure =
  rf_deadlineExceeded :: bool
  rf_baseErr :: "hls_error option"
  rf_netTimeout :: bool

datatype http_reply = Failed request_failure | Response int bytes "request_failure option"

record world =
  w_reply :: "nat \<Rightarrow> bytes \<Rightarrow> http_reply"
  w_shutdown :: "nat \<Rightarrow> hls_error option"
  w_wait :: "nat \<Rightarrow> hls_error option"

definition h_closed :: "'u hls_client \<Rightarrow> bool" where
  "h_closed c \<longleftrightarrow> h_termErr c \<noteq> None"

definition h_initiateShutdown :: "hls_error \<Rightarrow> 'u hls_client \<Rightarrow> 'u hls_client" where
  "h_initiateShutdown cause c = (if h_termErr c = None then c\<lparr>h_termErr := Some cause\<rparr> else c)"

definition h_interrupt :: "hls_error option \<Rightarrow> 'u hls_client \<Rightarrow> 'u hls_client" where
  "h_interrupt r c = (case r of None \<Rightarrow> c | Some cause \<Rightarrow> h_initiateShutdown cause c)"

definition classifyRequestErr :: "request_failure \<Rightarrow> hls_error" where
  "classifyRequestErr f =
     (if rf_deadlineExceeded f then ErrRequestTimeout
      else case rf_baseErr f of
          Some e \<Rightarrow> e
        | None \<Rightarrow> if rf_netTimeout f then ErrRequestTimeout else ErrConnectionClosed)"

definition http_result :: "nat \<Rightarrow> hls_error \<Rightarrow> http_reply \<Rightarrow> hls_error + bytes" where
  "http_result limit tooLarge reply =
     (case reply of
        Failed f \<Rightarrow> Inl (classifyRequestErr f)
      | Response code body rerr \<Rightarrow>
          if code \<noteq> 200 then Inl (ErrBadStatus code)
          else let body = take (limit + 1) body in
            if length body > limit then Inl tooLarge
            else case rerr of Some f \<Rightarrow> Inl (classifyRequestErr f) | None \<Rightarrow> Inr body)"

definition h_get :: "('u, 'f) golib \<Rightarrow> world \<Rightarrow> bytes \<Rightarrow> nat \<Rightarrow> hls_error \<Rightarrow> 'u hls_client \<Rightarrow> (hls_error + bytes) \<times> 'u hls_client" where
  "h_get lib w rawURL limit tooLarge c =
     (case url_Parse lib rawURL of
        None \<Rightarrow> (Inl ErrInvalidURL, c)
      | Some _ \<Rightarrow>
          let n = h_requests c
          in (http_result limit tooLarge (w_reply w n rawURL), h_interrupt (w_shutdown w n) (c\<lparr>h_requests := n + 1\<rparr>)))"

definition fetchInitSegment :: "('u, 'f) golib \<Rightarrow> world \<Rightarrow> bytes \<Rightarrow> 'u hls_client \<Rightarrow> (hls_error + bytes) \<times> 'u hls_client" where
  "fetchInitSegment lib w initURI c = h_get lib w initURI (cfg_MaxSegmentBytes (h_cfg c)) ErrSegmentTooLarge c"

definition get_playlist :: "('u, 'f) golib \<Rightarrow> world \<Rightarrow> bytes \<Rightarrow> 'u hls_client \<Rightarrow> (hls_error + bytes) \<times> 'u hls_client" where
  "get_playlist lib w rawURL c = h_get lib w rawURL (cfg_MaxPlaylistBytes (h_cfg c)) ErrPlaylistTooLarge c"

definition fetchMediaPlaylist :: "('u, 'f) golib \<Rightarrow> world \<Rightarrow> bytes \<Rightarrow> 'u hls_client \<Rightarrow> (hls_error + mediaPlaylist \<times> 'u option) \<times> 'u hls_client" where
  "fetchMediaPlaylist lib w rawURL c =
     (case get_playlist lib w rawURL c of
        (Inl e, c) \<Rightarrow> (Inl e, c)
      | (Inr body, c) \<Rightarrow>
          (case url_Parse lib rawURL of
             None \<Rightarrow> (Inl ErrInvalidURL, c)
           | Some base \<Rightarrow>
               (case parsePlaylist lib body (Some base) of
                  Inl e \<Rightarrow> (Inl e, c)
                | Inr (Media m) \<Rightarrow> (Inr (m, Some base), c)
                | Inr (Master ma) \<Rightarrow>
                    (case selectMediaURL ma of
                       Inl e \<Rightarrow> (Inl e, c)
                     | Inr mediaURLStr \<Rightarrow>
                         (case get_playlist lib w mediaURLStr c of
                            (Inl e, c) \<Rightarrow> (Inl e, c)
                          | (Inr mBody, c) \<Rightarrow>
                              let mBase = url_Parse lib mediaURLStr in
                              (case parsePlaylist lib mBody mBase of
                                 Inl e \<Rightarrow> (Inl e, c)
                               | Inr (Master _) \<Rightarrow> (Inl ErrMalformedPlaylist, c)
                               | Inr (Media m) \<Rightarrow> (Inr (m, mBase), c)))))))"

section \<open>Delivery\<close>

definition deliverAU :: "bytes \<times> int \<Rightarrow> 'u hls_client \<Rightarrow> 'u hls_client" where
  "deliverAU au c =
     (let (data, dur) = au;
          c = c\<lparr>h_packets := h_packets c + 1, h_payload := h_payload c + word_of_nat (length data)\<rparr>;
          pts = h_mediaPTS c;
          c = (if dur > 0 then c\<lparr>h_mediaPTS := h_mediaPTS c + word_of_int dur\<rparr> else c);
          seqGap = h_pendingSeqGap c;
          c = c\<lparr>h_pendingSeqGap := 0\<rparr>
      in if \<not> cfg_OnFrame (h_cfg c) then c
         else c\<lparr>h_log := h_log c @ [OnFrame \<lparr>hf_Data = data, hf_PTS = sint pts, hf_SeqGap = sint seqGap\<rparr>]\<rparr>)"

definition deliver_aus :: "access_units \<Rightarrow> 'u hls_client \<Rightarrow> 'u hls_client" where
  "deliver_aus aus c = fold deliverAU aus c"

definition syncMalformed :: "'u hls_client \<Rightarrow> 'u hls_client" where
  "syncMalformed c = c\<lparr>h_malformed := h_malformedBase c + sd_gapCount (h_demux c)\<rparr>"

definition end_demux :: "'u hls_client \<Rightarrow> 'u hls_client option" where
  "end_demux c = map_option (\<lambda>(aus, d). deliver_aus aus (c\<lparr>h_demux := d\<rparr>)) (sd_end (h_demux c))"

section \<open>Segments\<close>

text \<open>A replacement initialization segment. Everything that can fail comes before the first change.\<close>

definition swap_demuxer :: "fmp4Demux \<Rightarrow> bytes \<Rightarrow> bytes \<Rightarrow> 'u hls_client \<Rightarrow> 'u hls_client option" where
  "swap_demuxer d initURI a c =
     (let changed = (a \<noteq> h_asc c) in
      map_option (\<lambda>c.
        let c = syncMalformed (c\<lparr>h_malformedBase := h_malformedBase c + sd_gapCount (h_demux c), h_demux := FMP4Demuxer d, h_initURI := initURI\<rparr>)
        in if \<not> changed then c else c\<lparr>h_asc := a, h_log := h_log c @ [OnCodecUpdate a]\<rparr>) (end_demux c))"

definition reinitFMP4 :: "('u, 'f) golib \<Rightarrow> world \<Rightarrow> bytes \<Rightarrow> 'u hls_client \<Rightarrow> (hls_error option \<times> 'u hls_client) option" where
  "reinitFMP4 lib w initURI c =
     (case fetchInitSegment lib w initURI c of
        (Inl e, c) \<Rightarrow> Some (Some e, c)
      | (Inr initBody, c) \<Rightarrow>
          (case newFMP4Demux initBody of
             None \<Rightarrow> None
           | Some (Inl e) \<Rightarrow> Some (Some (Demux_Error e), c)
           | Some (Inr d) \<Rightarrow>
               (case fmp4_audioSpecificConfig d of
                  None \<Rightarrow> Some (Some (Demux_Error ErrMalformedSegment), c)
                | Some a \<Rightarrow>
                    if a \<noteq> h_asc c \<and> \<not> cfg_OnCodecUpdate (h_cfg c) then Some (Some unsupported, c)
                    else map_option (Pair None) (swap_demuxer d initURI a c))))"

text \<open>The segment proper: its body is fetched, demultiplexed and delivered.\<close>

definition play_segment :: "('u, 'f) golib \<Rightarrow> world \<Rightarrow> mediaSegment \<Rightarrow> bool \<Rightarrow> 'u hls_client \<Rightarrow> (hls_error option \<times> 'u hls_client) option" where
  "play_segment lib w seg disc c =
     (case h_get lib w (seg_uri seg) (cfg_MaxSegmentBytes (h_cfg c)) ErrSegmentTooLarge c of
        (Inl e, c) \<Rightarrow> Some (Some e, c)
      | (Inr body, c) \<Rightarrow>
          (case sd_demux (h_demux c) body disc of
             None \<Rightarrow> None
           | Some (aus, d, derr) \<Rightarrow> Some (map_option Demux_Error derr, syncMalformed (deliver_aus aus (c\<lparr>h_demux := d\<rparr>)))))"

definition processSegment :: "('u, 'f) golib \<Rightarrow> world \<Rightarrow> mediaSegment \<Rightarrow> bool \<Rightarrow> 'u hls_client \<Rightarrow> (hls_error option \<times> 'u hls_client) option" where
  "processSegment lib w seg disc c =
     (if seg_gap seg then Some (None, c\<lparr>h_mediaPTS := h_mediaPTS c + word_of_int (seg_duration seg), h_pendingSeqGap := h_pendingSeqGap c + 1\<rparr>)
      else if seg_initURI seg \<noteq> h_initURI c then
        if seg_initURI seg = [] then Some (Some unsupported, c)
        else if h_initURI c = [] then Some (Some unsupported, c)
        else (case reinitFMP4 lib w (seg_initURI seg) c of
            None \<Rightarrow> None
          | Some (Some e, c) \<Rightarrow> Some (Some e, c)
          | Some (None, c) \<Rightarrow> play_segment lib w seg disc c)
      else play_segment lib w seg disc c)"

definition note_window_drop :: "u64 \<Rightarrow> 'u hls_client \<Rightarrow> 'u hls_client" where
  "note_window_drop seq c =
     (let gap = seq - h_lastSeq c - 1;
          missed = (if gap > word_of_int (2 ^ 63 - 1) then word_of_int (2 ^ 63 - 1) else gap)
      in c\<lparr>h_pendingSeqGap := h_pendingSeqGap c + missed, h_pendingDisc := True\<rparr>)"

fun new_segments :: "('u, 'f) golib \<Rightarrow> world \<Rightarrow> mediaSegment list \<Rightarrow> bool \<Rightarrow> 'u hls_client \<Rightarrow> (bool \<times> 'u hls_client) option" where
  "new_segments lib w [] delivered c = Some (delivered, c)"
| "new_segments lib w (seg # segs) delivered c =
     (if seg_seq seg \<le> h_lastSeq c then new_segments lib w segs delivered c
      else
        let c = (if \<not> delivered \<and> seg_seq seg > h_lastSeq c + 1 then note_window_drop (seg_seq seg) c else c);
            disc = (h_pendingDisc c \<or> seg_discontinuity seg)
        in (case processSegment lib w seg disc c of
              None \<Rightarrow> None
            | Some (Some e, c) \<Rightarrow> Some (delivered, h_initiateShutdown e c)
            | Some (None, c) \<Rightarrow>
                let c = c\<lparr>h_pendingDisc := seg_gap seg, h_lastSeq := seg_seq seg\<rparr>
                in if h_closed c then Some (True, c) else new_segments lib w segs True c))"

definition processNewSegments :: "('u, 'f) golib \<Rightarrow> world \<Rightarrow> 'u hls_client \<Rightarrow> (bool \<times> 'u hls_client) option" where
  "processNewSegments lib w c = new_segments lib w (mp_segments (h_media c)) False c"

definition DefaultTimeout :: int where [caps]: "DefaultTimeout = 10 * 10 ^ 9"

definition reloadDelayFor :: "int \<Rightarrow> bool \<Rightarrow> int" where
  "reloadDelayFor target delivered =
     (let target = (if target \<le> 0 then DefaultTimeout else target) in if \<not> delivered then target div 2 else target)"

fun runSegments :: "('u, 'f) golib \<Rightarrow> world \<Rightarrow> nat \<Rightarrow> 'u hls_client \<Rightarrow> 'u hls_client option" where
  "runSegments lib w 0 c = Some c"
| "runSegments lib w (Suc n) c =
     (case processNewSegments lib w c of
        None \<Rightarrow> None
      | Some (delivered, c) \<Rightarrow>
          if h_closed c then Some c
          else if mp_endList (h_media c) then map_option (\<lambda>c. h_initiateShutdown ErrStreamEnded (syncMalformed c)) (end_demux c)
          else let c = c\<lparr>h_delay := reloadDelayFor (mp_targetDuration (h_media c)) delivered\<rparr> in
            (case w_wait w (h_requests c) of
               Some cause \<Rightarrow> Some (h_initiateShutdown cause c)
             | None \<Rightarrow>
                 (case h_mediaURL c of
                    None \<Rightarrow> None
                  | Some u \<Rightarrow>
                      (case fetchMediaPlaylist lib w (url_String lib u) c of
                         (Inl e, c) \<Rightarrow> Some (h_initiateShutdown e c)
                       | (Inr (media, mediaURL), c) \<Rightarrow> runSegments lib w n (c\<lparr>h_media := media, h_mediaURL := mediaURL\<rparr>)))))"

section \<open>Open and the reader\<close>

definition firstPlayable :: "mediaPlaylist \<Rightarrow> mediaSegment option" where
  "firstPlayable m = find (\<lambda>s. \<not> seg_gap s) (mp_segments m)"

definition buildDemuxer :: "('u, 'f) golib \<Rightarrow> world \<Rightarrow> mediaSegment \<Rightarrow> 'u hls_client \<Rightarrow> ((hls_error + segmentDemuxer) \<times> 'u hls_client) option" where
  "buildDemuxer lib w seg c =
     (if seg_initURI seg = [] then Some (Inr (TSDemuxer newTSDemux), c)
      else (case fetchInitSegment lib w (seg_initURI seg) c of
          (Inl e, c) \<Rightarrow> Some (Inl e, c)
        | (Inr initBody, c) \<Rightarrow>
            (case newFMP4Demux initBody of
               None \<Rightarrow> None
             | Some (Inl e) \<Rightarrow> Some (Inl (Demux_Error e), c)
             | Some (Inr d) \<Rightarrow> Some (Inr (FMP4Demuxer d), c))))"

definition openHandshake :: "('u, 'f) golib \<Rightarrow> world \<Rightarrow> bytes \<Rightarrow> 'u hls_client \<Rightarrow> (hls_error option \<times> 'u hls_client) option" where
  "openHandshake lib w requestURL c =
     (case fetchMediaPlaylist lib w requestURL c of
        (Inl e, c) \<Rightarrow> Some (Some e, c)
      | (Inr (media, mediaURL), c) \<Rightarrow>
          (case firstPlayable media of
             None \<Rightarrow> Some (Some (if mp_endList media then ErrMalformedPlaylist else ErrNoPlayableSegment), c)
           | Some seg \<Rightarrow>
               (case buildDemuxer lib w seg c of
                  None \<Rightarrow> None
                | Some (Inl e, c) \<Rightarrow> Some (Some e, c)
                | Some (Inr d, c) \<Rightarrow>
                    (case h_get lib w (seg_uri seg) (cfg_MaxSegmentBytes (h_cfg c)) ErrSegmentTooLarge c of
                       (Inl e, c) \<Rightarrow> Some (Some e, c)
                     | (Inr body, c) \<Rightarrow>
                         (case sd_demux d body False of
                            None \<Rightarrow> None
                          | Some (aus, d, Some derr) \<Rightarrow> Some (Some (Demux_Error derr), c\<lparr>h_pending := aus\<rparr>)
                          | Some (aus, d, None) \<Rightarrow>
                              (case sd_audioSpecificConfig d of
                                 None \<Rightarrow> Some (Some (Demux_Error ErrMalformedSegment), c\<lparr>h_pending := aus\<rparr>)
                               | Some a \<Rightarrow> Some (None, c\<lparr>h_pending := aus, h_codec := a, h_asc := a, h_demux := d, h_initURI := seg_initURI seg,
                                   h_media := media, h_mediaURL := mediaURL, h_lastSeq := seg_seq seg\<rparr>)))))))"

definition deliverPending :: "'u hls_client \<Rightarrow> 'u hls_client" where
  "deliverPending c = syncMalformed ((deliver_aus (h_pending c) c)\<lparr>h_pending := []\<rparr>)"

definition h_reader :: "('u, 'f) golib \<Rightarrow> world \<Rightarrow> nat \<Rightarrow> 'u hls_client \<Rightarrow> 'u hls_client option" where
  "h_reader lib w n c = runSegments lib w n (deliverPending c)"

definition new_hls_client :: "hls_config \<Rightarrow> 'u hls_client" where
  "new_hls_client cfg = \<lparr>h_cfg = cfg, h_demux = TSDemuxer newTSDemux,
     h_media = \<lparr>mp_version = 0, mp_targetDuration = 0, mp_mediaSequence = 0, mp_discontinuitySequence = 0, mp_endList = False, mp_segments = []\<rparr>,
     h_mediaURL = None, h_initURI = [], h_asc = [], h_codec = [], h_malformedBase = 0, h_pending = [], h_lastSeq = 0, h_mediaPTS = 0, h_pendingSeqGap = 0, h_pendingDisc = False,
     h_termErr = None, h_packets = 0, h_payload = 0, h_malformed = 0, h_log = [], h_requests = 0, h_delay = 0\<rparr>"

text \<open>A whole session: the error of the open phase, or the client after so many passes of the reader.\<close>

definition hls_session :: "('u, 'f) golib \<Rightarrow> world \<Rightarrow> hls_config \<Rightarrow> bytes \<Rightarrow> nat \<Rightarrow> (hls_error, 'u hls_client) go" where
  "hls_session lib w cfg requestURL n =
     (case openHandshake lib w requestURL (new_hls_client cfg) of
        None \<Rightarrow> panic
      | Some (Some e, c) \<Rightarrow> err e
      | Some (None, c) \<Rightarrow> (case h_reader lib w n c of None \<Rightarrow> panic | Some c \<Rightarrow> ok c))"


section \<open>The reader does not panic\<close>

text \<open>Requests and shutdowns leave the playback state alone.\<close>

definition same_play :: "'u hls_client \<Rightarrow> 'u hls_client \<Rightarrow> bool" where
  "same_play c c' \<longleftrightarrow> h_demux c' = h_demux c \<and> h_mediaURL c' = h_mediaURL c \<and> h_cfg c' = h_cfg c \<and> h_asc c' = h_asc c \<and> h_codec c' = h_codec c \<and> h_log c' = h_log c
     \<and> h_initURI c' = h_initURI c"

lemma same_play_trans: "same_play a b \<Longrightarrow> same_play b c \<Longrightarrow> same_play a c"
  by (simp add: same_play_def)

lemma h_get_state:
  assumes "h_get lib w u limit e c = (r, c')"
  shows "same_play c c'" "r = Inr body \<Longrightarrow> url_Parse lib u \<noteq> None"
  using assms by (auto simp: h_get_def h_interrupt_def h_initiateShutdown_def same_play_def Let_def split: option.splits)

lemma fetchMediaPlaylist_state:
  assumes "fetchMediaPlaylist lib w u c = (r, c')"
  shows "same_play c c'" "r = Inr (m, base) \<Longrightarrow> base \<noteq> None"
proof -
  have one: "same_play c1 c2 \<and> (\<forall>body. q = Inr body \<longrightarrow> url_Parse lib v \<noteq> None)" if "get_playlist lib w v c1 = (q, c2)" for v c1 q c2
    using h_get_state [OF that [unfolded get_playlist_def]] by blast
  show "same_play c c'" "r = Inr (m, base) \<Longrightarrow> base \<noteq> None"
    using assms one same_play_trans unfolding fetchMediaPlaylist_def
    by (auto simp: Let_def split: prod.splits sum.splits option.splits playlist.splits) blast+
qed

text \<open>The audio configuration in force: the one of the open phase, or the last that was announced.\<close>

definition announced :: "bytes \<Rightarrow> hls_event list \<Rightarrow> bytes" where
  "announced a log = fold (\<lambda>e a. case e of OnFrame _ \<Rightarrow> a | OnCodecUpdate b \<Rightarrow> b) log a"

definition updates :: "hls_event list \<Rightarrow> bytes list" where
  "updates log = concat (map (\<lambda>e. case e of OnFrame _ \<Rightarrow> [] | OnCodecUpdate b \<Rightarrow> [b]) log)"

text \<open>The container of a session, which the initialization segment in use tells.\<close>

fun container_ok :: "bytes \<Rightarrow> segmentDemuxer \<Rightarrow> bool" where
  "container_ok initURI (TSDemuxer d) \<longleftrightarrow> initURI = []"
| "container_ok initURI (FMP4Demuxer d) \<longleftrightarrow> initURI \<noteq> []"

definition codec_ok :: "'u hls_client \<Rightarrow> bool" where
  "codec_ok c \<longleftrightarrow> announced (h_codec c) (h_log c) = h_asc c \<and> sd_audioSpecificConfig (h_demux c) = Some (h_asc c)
     \<and> (cfg_OnCodecUpdate (h_cfg c) \<or> h_asc c = h_codec c) \<and> container_ok (h_initURI c) (h_demux c)
     \<and> (h_initURI c = [] \<longrightarrow> updates (h_log c) = [])"

definition hls_inv :: "'u hls_client \<Rightarrow> bool" where
  "hls_inv c \<longleftrightarrow> sd_inv (h_demux c) \<and> h_mediaURL c \<noteq> None \<and> codec_ok c"

lemma hls_inv_same: "same_play c c' \<Longrightarrow> hls_inv c \<Longrightarrow> hls_inv c'"
  by (simp add: hls_inv_def same_play_def codec_ok_def)

lemma announced_append: "announced a (log @ log') = announced (announced a log) log'"
  by (simp add: announced_def)

lemma deliverAU_state:
  "h_demux (deliverAU au c) = h_demux c" "h_mediaURL (deliverAU au c) = h_mediaURL c" "h_cfg (deliverAU au c) = h_cfg c" "h_asc (deliverAU au c) = h_asc c"
  "h_codec (deliverAU au c) = h_codec c" "announced a (h_log (deliverAU au c)) = announced a (h_log c)"
  "h_initURI (deliverAU au c) = h_initURI c" "updates (h_log (deliverAU au c)) = updates (h_log c)"
  by (cases au, simp add: deliverAU_def Let_def announced_def updates_def)+

lemma deliver_aus_state:
  "h_demux (deliver_aus aus c) = h_demux c" "h_mediaURL (deliver_aus aus c) = h_mediaURL c" "h_cfg (deliver_aus aus c) = h_cfg c" "h_asc (deliver_aus aus c) = h_asc c"
  "h_codec (deliver_aus aus c) = h_codec c" "announced a (h_log (deliver_aus aus c)) = announced a (h_log c)"
  "h_initURI (deliver_aus aus c) = h_initURI c" "updates (h_log (deliver_aus aus c)) = updates (h_log c)"
  by (induction aus arbitrary: c) (simp_all add: deliver_aus_def deliverAU_state)

lemma deliver_aus_inv:
  assumes "hls_inv c" "sd_inv d" "\<And>a. sd_audioSpecificConfig (h_demux c) = Some a \<Longrightarrow> sd_audioSpecificConfig d = Some a"
    and "container_ok u d = container_ok u (h_demux c)" "u = h_initURI c"
  shows "hls_inv (deliver_aus aus (c\<lparr>h_demux := d\<rparr>))"
  using assms by (simp add: hls_inv_def codec_ok_def deliver_aus_state)

lemma sd_demux_config:
  "sd_demux d body disc = Some (aus, d', e) \<Longrightarrow> sd_audioSpecificConfig d = Some a \<Longrightarrow> sd_audioSpecificConfig d' = Some a"
  "sd_demux d body disc = Some (aus, d', e) \<Longrightarrow> container_ok u d' = container_ok u d"
  using demux_asc by (cases d; fastforce simp: fmp4_demux_def fmp4_audioSpecificConfig_def asc_kept_def Let_def split: option.splits if_splits)+

lemma sd_end_config:
  "sd_end d = Some (aus, d') \<Longrightarrow> sd_audioSpecificConfig d = Some a \<Longrightarrow> sd_audioSpecificConfig d' = Some a"
  "sd_end d = Some (aus, d') \<Longrightarrow> container_ok u d' = container_ok u d"
  using ts_end_asc by (cases d; fastforce simp: fmp4_end_def asc_kept_def)+

lemma end_demux_inv: "hls_inv c \<Longrightarrow> \<exists>c'. end_demux c = Some c' \<and> hls_inv c'"
proof -
  assume c: "hls_inv c"
  obtain aus d where d: "sd_end (h_demux c) = Some (aus, d)" "sd_inv d" using sd.end_returns [of "h_demux c"] c by (auto simp: hls_inv_def)
  then show ?thesis using deliver_aus_inv [OF c d(2) sd_end_config [OF d(1)]] by (simp add: end_demux_def)
qed

lemma swap_demuxer_inv:
  assumes "hls_inv c" "fmp4_inv d" "ai_ASC (fm_init d) = a" "a \<noteq> h_asc c \<longrightarrow> cfg_OnCodecUpdate (h_cfg c)" "u \<noteq> []"
  shows "\<exists>c'. swap_demuxer d u a c = Some c' \<and> hls_inv c'"
proof -
  obtain c' where c': "end_demux c = Some c'" "hls_inv c'" using end_demux_inv [OF assms(1)] by blast
  moreover have "h_asc c' = h_asc c" "h_cfg c' = h_cfg c" using c'(1) by (auto simp: end_demux_def deliver_aus_state)
  ultimately show ?thesis using assms
    by (cases "a = h_asc c") (simp_all add: swap_demuxer_def syncMalformed_def hls_inv_def codec_ok_def announced_append fmp4_audioSpecificConfig_def, simp_all add: announced_def)
qed

lemma reinitFMP4_inv:
  assumes "hls_inv c" "u \<noteq> []"
  shows "\<exists>r c'. reinitFMP4 lib w u c = Some (r, c') \<and> hls_inv c'"
proof -
  obtain r c1 where g: "fetchInitSegment lib w u c = (r, c1)" by fastforce
  then have c1: "hls_inv c1" using assms h_get_state(1) hls_inv_same unfolding fetchInitSegment_def by blast
  show ?thesis
  proof (cases r)
    case (Inr body)
    show ?thesis
    proof (cases "newFMP4Demux body" rule: go_cases)
      case Panic
      then show ?thesis using newFMP4Demux_inv [of body] by simp
    next
      case (Ok d)
      then have "fmp4_inv d" using newFMP4Demux_inv [of body] by simp
      then show ?thesis using swap_demuxer_inv [OF c1, of d "ai_ASC (fm_init d)" u] assms(2) c1 g Inr Ok by (auto simp: reinitFMP4_def fmp4_audioSpecificConfig_def)
    qed (use g Inr c1 in \<open>simp add: reinitFMP4_def\<close>)
  qed (use g c1 in \<open>simp add: reinitFMP4_def\<close>)
qed

lemma play_segment_inv:
  assumes "hls_inv c"
  shows "\<exists>r c'. play_segment lib w seg disc c = Some (r, c') \<and> hls_inv c'"
proof -
  obtain r c1 where g: "h_get lib w (seg_uri seg) (cfg_MaxSegmentBytes (h_cfg c)) ErrSegmentTooLarge c = (r, c1)" by fastforce
  then have c1: "hls_inv c1" using assms h_get_state(1) [OF g] by (blast intro: hls_inv_same)
  show ?thesis
  proof (cases r)
    case (Inr body)
    obtain aus d e where d: "sd_demux (h_demux c1) body disc = Some (aus, d, e)" "sd_inv d" using sd.demux_returns [of "h_demux c1" body disc] c1 by (auto simp: hls_inv_def)
    have "hls_inv (syncMalformed (deliver_aus aus (c1\<lparr>h_demux := d\<rparr>)))"
      using deliver_aus_inv [OF c1 d(2) sd_demux_config [OF d(1)], of "h_initURI c1" aus] by (simp add: syncMalformed_def hls_inv_def codec_ok_def)
    then show ?thesis using g Inr d(1) by (simp add: play_segment_def)
  qed (use g c1 in \<open>simp add: play_segment_def\<close>)
qed

lemma processSegment_inv:
  assumes "hls_inv c"
  shows "\<exists>r c'. processSegment lib w seg disc c = Some (r, c') \<and> hls_inv c'"
proof -
  have gap: "hls_inv (c\<lparr>h_mediaPTS := p, h_pendingSeqGap := g\<rparr>)" for p g using assms by (simp add: hls_inv_def codec_ok_def)
  show ?thesis
  proof (cases "seg_initURI seg = []")
    case False
    obtain r c1 where r: "reinitFMP4 lib w (seg_initURI seg) c = Some (r, c1)" "hls_inv c1" using reinitFMP4_inv [OF assms False] by blast
    show ?thesis using play_segment_inv [OF assms, of lib w seg disc] play_segment_inv [OF r(2), of lib w seg disc] r assms gap
      by (cases r) (auto simp: processSegment_def)
  qed (use play_segment_inv [OF assms, of lib w seg disc] assms gap in \<open>auto simp: processSegment_def\<close>)
qed

lemma new_segments_inv: "hls_inv c \<Longrightarrow> \<exists>b c'. new_segments lib w segs delivered c = Some (b, c') \<and> hls_inv c'"
proof (induction segs arbitrary: delivered c)
  case (Cons seg segs)
  define c1 where "c1 = (if \<not> delivered \<and> seg_seq seg > h_lastSeq c + 1 then note_window_drop (seg_seq seg) c else c)"
  have "hls_inv c1" using Cons.prems by (simp add: c1_def note_window_drop_def hls_inv_def codec_ok_def Let_def)
  then obtain r c2 where p: "processSegment lib w seg (h_pendingDisc c1 \<or> seg_discontinuity seg) c1 = Some (r, c2)" "hls_inv c2"
    using processSegment_inv [of c1 lib w seg] by blast
  then have "hls_inv (c2\<lparr>h_pendingDisc := seg_gap seg, h_lastSeq := seg_seq seg\<rparr>)" "hls_inv (h_initiateShutdown e c2)" for e
    by (simp_all add: hls_inv_def codec_ok_def h_initiateShutdown_def)
  then show ?case using Cons.IH Cons.prems p by (cases r) (auto simp: c1_def [symmetric] Let_def)
qed simp

lemma runSegments_inv: "hls_inv c \<Longrightarrow> \<exists>c'. runSegments lib w n c = Some c' \<and> hls_inv c'"
proof (induction n arbitrary: c)
  case (Suc n)
  obtain b c1 where p: "processNewSegments lib w c = Some (b, c1)" "hls_inv c1" using new_segments_inv [OF Suc.prems, of lib w "mp_segments (h_media c)" False] by (auto simp: processNewSegments_def)
  obtain u where u: "h_mediaURL c1 = Some u" using p(2) by (auto simp: hls_inv_def)
  obtain c2 where e: "end_demux c1 = Some c2" "hls_inv c2" using end_demux_inv [OF p(2)] by blast
  define cd where "cd = c1\<lparr>h_delay := reloadDelayFor (mp_targetDuration (h_media c1)) b\<rparr>"
  have cd: "same_play c1 cd" "h_requests cd = h_requests c1" "h_mediaURL cd = Some u" by (simp_all add: cd_def same_play_def u)
  then have cdi: "hls_inv cd" using p(2) by (blast intro: hls_inv_same)
  obtain r c3 where f: "fetchMediaPlaylist lib w (url_String lib u) cd = (r, c3)" by fastforce
  have c3: "hls_inv c3" "r = Inr (m, base) \<Longrightarrow> base \<noteq> None" for m base using cdi fetchMediaPlaylist_state [OF f] by (auto intro: hls_inv_same)
  have shut: "hls_inv (h_initiateShutdown cause c') = hls_inv c'" "hls_inv (syncMalformed c') = hls_inv c'" for cause c'
    by (simp_all add: h_initiateShutdown_def syncMalformed_def hls_inv_def codec_ok_def)
  have reload: "\<exists>c'. runSegments lib w n (c3\<lparr>h_media := m, h_mediaURL := base\<rparr>) = Some c' \<and> hls_inv c'" if "r = Inr (m, base)" for m base
    using c3(1) c3(2) [OF that] by (intro Suc.IH) (simp add: hls_inv_def codec_ok_def)
  show ?case
  proof (cases "h_closed c1 \<or> mp_endList (h_media c1) \<or> w_wait w (h_requests c1) \<noteq> None")
    case True
    then show ?thesis using p e shut cdi cd(2) by (auto simp: cd_def [symmetric] Let_def)
  next
    case False
    then show ?thesis using p(1) cd f c3(1) shut reload by (cases r) (auto simp: cd_def [symmetric] Let_def)
  qed
qed simp

lemma openHandshake_inv:
  assumes "h_log c = []"
  shows "\<exists>r c'. openHandshake lib w u c = Some (r, c') \<and> (r = None \<longrightarrow> hls_inv c')"
proof -
  obtain r c1 where f: "fetchMediaPlaylist lib w u c = (r, c1)" by fastforce
  have ts: "sd_inv (TSDemuxer newTSDemux)" by (simp add: ts_inv_def newTSDemux_def adts_NewStream_def adts_inv_def adts_backlog_def)
  have build: "\<exists>d c'. buildDemuxer lib w seg c = Some (d, c') \<and> same_play c c' \<and> (\<forall>x. d = Inr x \<longrightarrow> sd_inv x \<and> container_ok (seg_initURI seg) x)" for seg c
  proof -
    obtain r c1 where g: "fetchInitSegment lib w (seg_initURI seg) c = (r, c1)" by fastforce
    then have same: "same_play c c1" "same_play c c" using h_get_state(1) [of lib w] by (auto simp: fetchInitSegment_def same_play_def)
    show ?thesis
    proof (cases "seg_initURI seg = []")
      case False
      show ?thesis
      proof (cases r)
        case (Inr body)
        then show ?thesis using False g same newFMP4Demux_inv [of body] by (cases "newFMP4Demux body" rule: go_cases) (auto simp: buildDemuxer_def)
      qed (use False g same in \<open>simp add: buildDemuxer_def\<close>)
    qed (use ts same in \<open>simp add: buildDemuxer_def\<close>)
  qed
  have first: "\<exists>r c'. (case h_get lib w (seg_uri s) (cfg_MaxSegmentBytes (h_cfg c)) ErrSegmentTooLarge c of
                       (Inl e, c) \<Rightarrow> Some (Some e, c)
                     | (Inr body, c) \<Rightarrow>
                         (case sd_demux d body False of
                            None \<Rightarrow> None
                          | Some (aus, d, Some derr) \<Rightarrow> Some (Some (Demux_Error derr), c\<lparr>h_pending := aus\<rparr>)
                          | Some (aus, d, None) \<Rightarrow>
                              (case sd_audioSpecificConfig d of
                                 None \<Rightarrow> Some (Some (Demux_Error ErrMalformedSegment), c\<lparr>h_pending := aus\<rparr>)
                               | Some a \<Rightarrow> Some (None, c\<lparr>h_pending := aus, h_codec := a, h_asc := a, h_demux := d, h_initURI := seg_initURI s,
                                   h_media := media, h_mediaURL := Some base, h_lastSeq := seg_seq s\<rparr>)))) = Some (r, c') \<and> (r = None \<longrightarrow> hls_inv c')"
    if "sd_inv d" "h_log c = []" "container_ok (seg_initURI s) d" for s d media base and c :: "'a hls_client"
  proof -
    obtain q c2 where g: "h_get lib w (seg_uri s) (cfg_MaxSegmentBytes (h_cfg c)) ErrSegmentTooLarge c = (q, c2)" by fastforce
    then have "h_log c2 = []" using h_get_state(1) [OF g] that(2) by (simp add: same_play_def)
    then show ?thesis
    proof (cases q)
      case (Inr body)
      obtain aus d' e where "sd_demux d body False = Some (aus, d', e)" "sd_inv d'" using sd.demux_returns [OF \<open>sd_inv d\<close>] by blast
      then show ?thesis using g Inr \<open>h_log c2 = []\<close> that(3) sd_demux_config(2) [of d body False aus d' e]
        by (cases e; cases "sd_audioSpecificConfig d'") (simp_all add: hls_inv_def codec_ok_def announced_def updates_def)
    qed (simp add: g)
  qed
  show ?thesis
  proof (cases r)
    case (Inr mb)
    obtain media base where mb: "mb = (media, Some base)" using fetchMediaPlaylist_state(2) [OF f] Inr by (cases mb) auto
    show ?thesis
    proof (cases "firstPlayable media")
      case (Some s)
      obtain d c2 where b: "buildDemuxer lib w s c1 = Some (d, c2)" "same_play c1 c2" "\<And>x. d = Inr x \<Longrightarrow> sd_inv x \<and> container_ok (seg_initURI s) x" using build by blast
      then have log: "h_log c2 = []" using fetchMediaPlaylist_state(1) [OF f] assms by (simp add: same_play_def)
      show ?thesis
      proof (cases d)
        case (Inr x)
        show ?thesis using first [OF _ log, of x s] b(3) [OF Inr] f \<open>r = Inr mb\<close> mb Some b(1) Inr unfolding openHandshake_def by simp
      qed (use f Inr mb Some b in \<open>simp add: openHandshake_def\<close>)
    qed (use f Inr mb in \<open>simp add: openHandshake_def\<close>)
  qed (use f in \<open>simp add: openHandshake_def\<close>)
qed

lemma hls_session_inv: "go_sat hls_inv (hls_session lib w cfg u n)"
proof -
  obtain r c where o: "openHandshake lib w u (new_hls_client cfg) = Some (r, c)" "r = None \<longrightarrow> hls_inv c"
    using openHandshake_inv [of "new_hls_client cfg" lib w u] by (auto simp: new_hls_client_def)
  show ?thesis
  proof (cases r)
    case None
    then have "hls_inv (deliverPending c)" using o(2) by (simp add: deliverPending_def syncMalformed_def hls_inv_def codec_ok_def deliver_aus_state)
    then show ?thesis using runSegments_inv [of "deliverPending c" lib w n] o None by (auto simp: hls_session_def h_reader_def)
  qed (use o in \<open>simp add: hls_session_def\<close>)
qed


section \<open>What a live stream delivers\<close>

text \<open>The abstract stream: numbered segments, each present with its access units or marked absent with a duration.\<close>

datatype item = Absent int | Units access_units

definition units_total :: "access_units \<Rightarrow> int" where
  "units_total aus = sum_list (map snd aus)"

fun item_duration :: "item \<Rightarrow> int" where
  "item_duration (Absent dur) = dur"
| "item_duration (Units aus) = units_total aus"

fun stream_item_ok :: "item \<Rightarrow> bool" where
  "stream_item_ok (Absent dur) \<longleftrightarrow> 0 \<le> dur"
| "stream_item_ok (Units aus) \<longleftrightarrow> list_all (\<lambda>(data, dur). 0 \<le> dur) aus"

text \<open>The frames of a run of segments, from a presentation time and a pending loss: the loss goes to the first frame.\<close>

fun unit_frames :: "int \<Rightarrow> int \<Rightarrow> access_units \<Rightarrow> hls_frame list" where
  "unit_frames pts gap [] = []"
| "unit_frames pts gap ((data, dur) # aus) = \<lparr>hf_Data = data, hf_PTS = pts, hf_SeqGap = gap\<rparr> # unit_frames (pts + dur) 0 aus"

fun item_frames :: "int \<Rightarrow> int \<Rightarrow> item \<Rightarrow> hls_frame list" where
  "item_frames pts gap (Absent dur) = []"
| "item_frames pts gap (Units aus) = unit_frames pts gap aus"

fun gap_after :: "int \<Rightarrow> item \<Rightarrow> int" where
  "gap_after gap (Absent dur) = gap + 1"
| "gap_after gap (Units aus) = (if aus = [] then gap else 0)"

fun stream_frames :: "int \<Rightarrow> int \<Rightarrow> item list \<Rightarrow> hls_frame list" where
  "stream_frames pts gap [] = []"
| "stream_frames pts gap (x # xs) = item_frames pts gap x @ stream_frames (pts + item_duration x) (gap_after gap x) xs"

definition pts_after :: "int \<Rightarrow> item list \<Rightarrow> int" where
  "pts_after pts xs = pts + sum_list (map item_duration xs)"

lemma sint_add:
  fixes w :: u64
  assumes "0 \<le> sint w" "0 \<le> d" "sint w + d < 2 ^ 63"
  shows "sint (w + word_of_int d) = sint w + d"
proof -
  have eq: "w + word_of_int d = word_of_int (sint w + d)" by simp
  show ?thesis unfolding eq using assms by (subst signed_of_int) (simp add: signed_take_bit_int_eq_self)
qed

text \<open>Where the client is on the abstract clock.\<close>

definition clock :: "int \<Rightarrow> int \<Rightarrow> 'u hls_client \<Rightarrow> bool" where
  "clock pts gap c \<longleftrightarrow> sint (h_mediaPTS c) = pts \<and> sint (h_pendingSeqGap c) = gap"

text \<open>What delivery leaves as it was.\<close>

definition same_place :: "'u hls_client \<Rightarrow> 'u hls_client \<Rightarrow> bool" where
  "same_place c c' \<longleftrightarrow> h_cfg c' = h_cfg c \<and> h_demux c' = h_demux c \<and> h_media c' = h_media c \<and> h_mediaURL c' = h_mediaURL c \<and> h_initURI c' = h_initURI c
     \<and> h_lastSeq c' = h_lastSeq c \<and> h_pendingDisc c' = h_pendingDisc c \<and> h_termErr c' = h_termErr c \<and> h_requests c' = h_requests c"

lemma same_place_trans: "same_place a b \<Longrightarrow> same_place b c \<Longrightarrow> same_place a c"
  by (simp add: same_place_def)

lemma deliver_aus_frames:
  assumes "list_all (\<lambda>(data, dur). 0 \<le> dur) aus" "clock pts gap c" "0 \<le> pts" "pts + units_total aus < 2 ^ 63" "cfg_OnFrame (h_cfg c)"
  shows "same_place c (deliver_aus aus c) \<and> clock (pts + units_total aus) (if aus = [] then gap else 0) (deliver_aus aus c)
    \<and> h_log (deliver_aus aus c) = h_log c @ map OnFrame (unit_frames pts gap aus)"
  using assms
proof (induction aus arbitrary: c pts gap)
  case (Cons au aus)
  obtain data dur where au: "au = (data, dur)" by fastforce
  have t: "units_total ((data, dur) # aus) = dur + units_total aus" by (simp add: units_total_def)
  have nn: "0 \<le> units_total aus" using Cons.prems(1) by (fastforce simp: units_total_def list_all_iff intro!: sum_list_nonneg)
  have dur: "0 \<le> dur" "pts + dur < 2 ^ 63" using Cons.prems nn by (simp_all add: au t)
  then have "sint (h_mediaPTS c + word_of_int dur) = pts + dur" using Cons.prems(2,3) by (subst sint_add) (simp_all add: clock_def)
  then have c1: "clock (pts + dur) 0 (deliverAU au c)" "same_place c (deliverAU au c)"
      "h_log (deliverAU au c) = h_log c @ [OnFrame \<lparr>hf_Data = data, hf_PTS = pts, hf_SeqGap = gap\<rparr>]"
    using Cons.prems(2,5) dur(1) by (auto simp: au deliverAU_def Let_def clock_def same_place_def)
  have "cfg_OnFrame (h_cfg (deliverAU au c))" using c1(2) Cons.prems(5) by (simp add: same_place_def)
  then have "same_place (deliverAU au c) (deliver_aus aus (deliverAU au c)) \<and> clock (pts + dur + units_total aus) 0 (deliver_aus aus (deliverAU au c))
    \<and> h_log (deliver_aus aus (deliverAU au c)) = h_log (deliverAU au c) @ map OnFrame (unit_frames (pts + dur) 0 aus)"
    using Cons.IH [OF _ c1(1)] Cons.prems dur by (simp add: au t algebra_simps)
  then show ?case using c1 same_place_trans [OF c1(2)] by (simp add: deliver_aus_def au t algebra_simps)
qed (simp add: deliver_aus_def same_place_def units_total_def)


text \<open>What the network serves for a segment: nothing is asked for an absent one, the others have a body that holds their access units.\<close>

definition served :: "('u, 'f) golib \<Rightarrow> world \<Rightarrow> nat \<Rightarrow> fmp4Demux \<Rightarrow> bytes \<Rightarrow> mediaSegment \<Rightarrow> item \<Rightarrow> bool" where
  "served lib w limit d iu s x \<longleftrightarrow> (case x of
     Absent dur \<Rightarrow> seg_gap s \<and> seg_duration s = dur
   | Units aus \<Rightarrow> \<not> seg_gap s \<and> seg_initURI s = iu \<and> url_Parse lib (seg_uri s) \<noteq> None
       \<and> (\<exists>body. length body \<le> limit \<and> (\<forall>n. w_reply w n (seg_uri s) = Response 200 body None) \<and> (\<forall>disc. fmp4_demux d body disc = Some (aus, d, None))))"

definition playing :: "hls_config \<Rightarrow> fmp4Demux \<Rightarrow> bytes \<Rightarrow> 'u \<Rightarrow> 'u hls_client \<Rightarrow> bool" where
  "playing cfg d iu u c \<longleftrightarrow> h_cfg c = cfg \<and> h_demux c = FMP4Demuxer d \<and> h_initURI c = iu \<and> h_mediaURL c = Some u \<and> h_termErr c = None"

lemma h_get_served:
  assumes "url_Parse lib uri \<noteq> None" "w_reply w (h_requests c) uri = Response 200 body None" "length body \<le> limit" "w_shutdown w (h_requests c) = None"
  shows "h_get lib w uri limit e c = (Inr body, c\<lparr>h_requests := h_requests c + 1\<rparr>)"
  using assms by (auto simp: h_get_def http_result_def h_interrupt_def)

lemma processSegment_served:
  assumes "served lib w (cfg_MaxSegmentBytes cfg) d iu s x" "playing cfg d iu u c" "cfg_OnFrame cfg" "\<And>n. w_shutdown w n = None"
    and "stream_item_ok x" "clock pts gap c" "0 \<le> pts" "pts + item_duration x < 2 ^ 63" "0 \<le> gap" "gap < 2 ^ 62"
  shows "\<exists>c'. processSegment lib w s disc c = Some (None, c') \<and> playing cfg d iu u c' \<and> clock (pts + item_duration x) (gap_after gap x) c'
    \<and> h_log c' = h_log c @ map OnFrame (item_frames pts gap x) \<and> h_requests c \<le> h_requests c' \<and> h_media c' = h_media c"
proof (cases x)
  case (Absent dur)
  have "sint (h_mediaPTS c + word_of_int dur) = pts + dur" "sint (h_pendingSeqGap c + word_of_int 1) = gap + 1"
    using assms(5-10) Absent by (subst sint_add; simp add: clock_def)+
  then show ?thesis using assms(1,2) Absent by (simp add: served_def processSegment_def playing_def clock_def)
next
  case (Units aus)
  obtain body where s: "\<not> seg_gap s" "seg_initURI s = iu" "url_Parse lib (seg_uri s) \<noteq> None" "length body \<le> cfg_MaxSegmentBytes cfg"
      "\<And>n. w_reply w n (seg_uri s) = Response 200 body None" "\<And>disc. fmp4_demux d body disc = Some (aus, d, None)"
    using assms(1) Units by (auto simp: served_def)
  define c1 where "c1 = c\<lparr>h_requests := h_requests c + 1\<rparr>"
  have c1: "playing cfg d iu u c1" "clock pts gap c1" "h_log c1 = h_log c" "h_media c1 = h_media c" "h_demux c1 = FMP4Demuxer d"
    using assms(2,6) by (simp_all add: c1_def playing_def clock_def)
  have "h_get lib w (seg_uri s) (cfg_MaxSegmentBytes (h_cfg c)) ErrSegmentTooLarge c = (Inr body, c1)"
    unfolding c1_def using s assms(2,4) by (intro h_get_served) (simp_all add: playing_def)
  moreover have same: "c1\<lparr>h_demux := FMP4Demuxer d\<rparr> = c1" using c1(5) by simp
  ultimately have "processSegment lib w s disc c = Some (None, syncMalformed (deliver_aus aus c1))"
    using s assms(2) by (simp add: processSegment_def play_segment_def playing_def c1(5) same)
  moreover have "same_place c1 (deliver_aus aus c1) \<and> clock (pts + units_total aus) (if aus = [] then gap else 0) (deliver_aus aus c1)
    \<and> h_log (deliver_aus aus c1) = h_log c1 @ map OnFrame (unit_frames pts gap aus)"
    using assms(3,5,7,8) c1 Units by (intro deliver_aus_frames) (simp_all add: playing_def)
  ultimately show ?thesis using c1 Units by (auto simp: syncMalformed_def playing_def clock_def same_place_def c1_def)
qed

text \<open>The stream as a whole: up to a bound, segment \<open>i\<close> has number \<open>i\<close> and is served, and the clock does not overflow.\<close>

definition stream_ok :: "('u, 'f) golib \<Rightarrow> world \<Rightarrow> hls_config \<Rightarrow> fmp4Demux \<Rightarrow> bytes \<Rightarrow> (nat \<Rightarrow> mediaSegment) \<Rightarrow> (nat \<Rightarrow> item) \<Rightarrow> nat \<Rightarrow> bool" where
  "stream_ok lib w cfg d iu sg it H \<longleftrightarrow> cfg_OnFrame cfg \<and> (\<forall>n. w_shutdown w n = None) \<and> (\<forall>n. w_wait w n = None) \<and> H < 2 ^ 62
     \<and> (\<forall>i < H. seg_seq (sg i) = word_of_nat i \<and> stream_item_ok (it i) \<and> served lib w (cfg_MaxSegmentBytes cfg) d iu (sg i) (it i))
     \<and> (\<Sum>i < H. item_duration (it i)) < 2 ^ 62"

definition upto_duration :: "(nat \<Rightarrow> item) \<Rightarrow> nat \<Rightarrow> int" where
  "upto_duration it n = (\<Sum>i < n. item_duration (it i))"

lemma item_duration_nonneg: "stream_item_ok x \<Longrightarrow> 0 \<le> item_duration x"
proof (cases x)
  case (Units aus)
  moreover assume "stream_item_ok x"
  ultimately show ?thesis by (fastforce simp: units_total_def list_all_iff intro!: sum_list_nonneg)
qed simp

lemma upto_duration_bound:
  assumes "stream_ok lib w cfg d iu sg it H" "i \<le> H"
  shows "upto_duration it i < 2 ^ 62"
proof -
  have "upto_duration it i \<le> upto_duration it H"
    using assms item_duration_nonneg unfolding upto_duration_def stream_ok_def by (intro sum_mono2) auto
  then show ?thesis using assms(1) by (simp add: stream_ok_def upto_duration_def)
qed

text \<open>
  The client is in step with the stream when it has played everything before number \<open>i\<close>: its clock is within what the stream has
  lasted so far, and the pending loss within the number of segments.
\<close>

definition in_step :: "hls_config \<Rightarrow> fmp4Demux \<Rightarrow> bytes \<Rightarrow> 'u \<Rightarrow> (nat \<Rightarrow> item) \<Rightarrow> nat \<Rightarrow> int \<Rightarrow> int \<Rightarrow> 'u hls_client \<Rightarrow> bool" where
  "in_step cfg d iu u it i pts gap c \<longleftrightarrow> playing cfg d iu u c \<and> clock pts gap c \<and> 0 < i \<and> h_lastSeq c = word_of_nat (i - 1)
     \<and> 0 \<le> pts \<and> pts \<le> upto_duration it i \<and> 0 \<le> gap \<and> gap \<le> int i"

lemma gap_after_bound: "0 \<le> gap \<Longrightarrow> 0 \<le> gap_after gap x \<and> gap_after gap x \<le> gap + 1"
  by (cases x) simp_all

lemma word_number: "i < 2 ^ 62 \<Longrightarrow> unat (word_of_nat i :: u64) = i"
  by (intro unat_word_of_nat_small) simp

lemma word_numbers:
  fixes i j :: nat
  assumes "i < 2 ^ 62" "j < 2 ^ 62"
  shows "(word_of_nat i :: u64) \<le> word_of_nat j \<longleftrightarrow> i \<le> j" "(word_of_nat i :: u64) < word_of_nat j \<longleftrightarrow> i < j"
  using assms by (simp_all add: word_le_nat_alt word_less_nat_alt word_number)

text \<open>One segment that the client has not seen, after the check for a dropped window, and then a run of them.\<close>

lemma new_segment:
  assumes ok: "stream_ok lib w cfg d iu sg it H" and "i < H" "\<not> seg_seq (sg i) \<le> h_lastSeq c"
    and c1: "c1 = (if \<not> delivered \<and> seg_seq (sg i) > h_lastSeq c + 1 then note_window_drop (seg_seq (sg i)) c else c)"
    and "playing cfg d iu u c1" "clock pts gap c1" "0 \<le> pts" "pts \<le> upto_duration it i" "0 \<le> gap" "gap \<le> int i"
  shows "\<exists>c'. new_segments lib w (sg i # segs) delivered c = new_segments lib w segs True c'
    \<and> in_step cfg d iu u it (Suc i) (pts + item_duration (it i)) (gap_after gap (it i)) c'
    \<and> h_log c' = h_log c1 @ map OnFrame (item_frames pts gap (it i)) \<and> h_requests c1 \<le> h_requests c' \<and> h_media c' = h_media c1"
proof -
  have i: "i < 2 ^ 62" using ok assms(2) by (simp add: stream_ok_def)
  have sg: "seg_seq (sg i) = word_of_nat i" "stream_item_ok (it i)" "served lib w (cfg_MaxSegmentBytes cfg) d iu (sg i) (it i)" using ok assms(2) by (simp_all add: stream_ok_def)
  have up: "upto_duration it (Suc i) = upto_duration it i + item_duration (it i)" by (simp add: upto_duration_def)
  have "pts + item_duration (it i) < 2 ^ 62" using upto_duration_bound [OF ok, of "Suc i"] assms(2,8) up by simp
  then obtain c2 where c2: "processSegment lib w (sg i) (h_pendingDisc c1 \<or> seg_discontinuity (sg i)) c1 = Some (None, c2)" "playing cfg d iu u c2"
      "clock (pts + item_duration (it i)) (gap_after gap (it i)) c2" "h_log c2 = h_log c1 @ map OnFrame (item_frames pts gap (it i))" "h_requests c1 \<le> h_requests c2" "h_media c2 = h_media c1"
    using processSegment_served [OF sg(3) assms(5), of pts gap "h_pendingDisc c1 \<or> seg_discontinuity (sg i)"] ok assms(6-) sg(2) i by (auto simp: stream_ok_def)
  define c' where "c' = c2\<lparr>h_pendingDisc := seg_gap (sg i), h_lastSeq := seg_seq (sg i)\<rparr>"
  have "\<not> h_closed c'" using c2(2) by (simp add: c'_def h_closed_def playing_def)
  then have "new_segments lib w (sg i # segs) delivered c = new_segments lib w segs True c'"
    using assms(3) c2(1) by (simp add: c1 [symmetric] c'_def Let_def)
  moreover have "in_step cfg d iu u it (Suc i) (pts + item_duration (it i)) (gap_after gap (it i)) c'"
    using c2(2,3) assms(7-) sg gap_after_bound [of gap "it i"] item_duration_nonneg [OF sg(2)] up by (auto simp: in_step_def c'_def playing_def clock_def)
  ultimately show ?thesis using c2(4-6) by (auto simp: c'_def)
qed

lemma fresh_segments:
  assumes ok: "stream_ok lib w cfg d iu sg it H" and "i \<le> hi" "hi \<le> H" "in_step cfg d iu u it i pts gap c"
  shows "\<exists>b c'. new_segments lib w (map sg [i ..< hi]) delivered c = Some (b, c') \<and> h_log c' = h_log c @ map OnFrame (stream_frames pts gap (map it [i ..< hi]))
    \<and> in_step cfg d iu u it hi (pts_after pts (map it [i ..< hi])) (fold (\<lambda>x g. gap_after g x) (map it [i ..< hi]) gap) c'
    \<and> h_requests c \<le> h_requests c' \<and> h_media c' = h_media c"
  using assms(2-)
proof (induction "hi - i" arbitrary: i pts gap c delivered)
  case 0
  then show ?case by (simp add: pts_after_def)
next
  case (Suc n)
  then have i: "i < hi" "i < H" "i < 2 ^ 62" using ok by (simp_all add: stream_ok_def)
  have sg: "seg_seq (sg i) = word_of_nat i" using ok i(2) by (simp add: stream_ok_def)
  note st = Suc.prems(3) [unfolded in_step_def]
  have "\<not> (word_of_nat i :: u64) \<le> word_of_nat (i - 1)" by (subst word_numbers) (use i(3) st in linarith)+
  then have old: "\<not> seg_seq (sg i) \<le> h_lastSeq c" using st sg by (simp only: simp_thms)
  obtain k where k: "i = Suc k" using st by (cases i) simp_all
  then have "h_lastSeq c + 1 = word_of_nat i" using st by simp
  then have nodrop: "c = (if \<not> delivered \<and> seg_seq (sg i) > h_lastSeq c + 1 then note_window_drop (seg_seq (sg i)) c else c)" using sg by simp
  obtain c1 where c1: "new_segments lib w (sg i # map sg [Suc i ..< hi]) delivered c = new_segments lib w (map sg [Suc i ..< hi]) True c1"
      "in_step cfg d iu u it (Suc i) (pts + item_duration (it i)) (gap_after gap (it i)) c1"
      "h_log c1 = h_log c @ map OnFrame (item_frames pts gap (it i))" "h_requests c \<le> h_requests c1" "h_media c1 = h_media c"
    using new_segment [OF ok i(2) old nodrop, of u pts gap "map sg [Suc i ..< hi]"] st by blast
  moreover have "n = hi - Suc i" "Suc i \<le> hi" using Suc.hyps(2) i by simp_all
  ultimately obtain b c' where IH: "new_segments lib w (map sg [Suc i ..< hi]) True c1 = Some (b, c')"
      "h_log c' = h_log c1 @ map OnFrame (stream_frames (pts + item_duration (it i)) (gap_after gap (it i)) (map it [Suc i ..< hi]))"
      "in_step cfg d iu u it hi (pts_after (pts + item_duration (it i)) (map it [Suc i ..< hi])) (fold (\<lambda>x g. gap_after g x) (map it [Suc i ..< hi]) (gap_after gap (it i))) c'"
      "h_requests c1 \<le> h_requests c'" "h_media c' = h_media c1"
    using Suc.hyps(1) [of "Suc i" "pts + item_duration (it i)" "gap_after gap (it i)" c1 True] Suc.prems(2) by auto
  moreover have "[i ..< hi] = i # [Suc i ..< hi]" using i(1) by (simp add: upt_conv_Cons del: upt_Suc)
  ultimately show ?case using c1 by (simp add: pts_after_def add.assoc del: new_segments.simps)
qed

text \<open>
  What a sequence of playlist windows \<open>[lo, hi)\<close> over the stream delivers, from the next expected number \<open>i\<close>: what was seen before is skipped, and what the window
  has already dropped is counted as lost.
\<close>

fun windows_frames :: "(nat \<Rightarrow> item) \<Rightarrow> nat \<Rightarrow> int \<Rightarrow> int \<Rightarrow> (nat \<times> nat) list \<Rightarrow> hls_frame list" where
  "windows_frames it i pts gap [] = []"
| "windows_frames it i pts gap ((lo, hi) # ws) =
     (if hi \<le> max lo i then windows_frames it i pts gap ws
      else let first = max lo i; gap = gap + int (first - i); xs = map it [first ..< hi]
           in stream_frames pts gap xs @ windows_frames it hi (pts_after pts xs) (fold (\<lambda>x g. gap_after g x) xs gap) ws)"

lemma new_segments_seen: "list_all (\<lambda>s. seg_seq s \<le> h_lastSeq c) xs \<Longrightarrow> new_segments lib w (xs @ ys) delivered c = new_segments lib w ys delivered c"
  by (induction xs) simp_all

lemma seen_prefix:
  assumes "stream_ok lib w cfg d iu sg it H" "hi \<le> i" "hi \<le> H" "h_lastSeq c = word_of_nat (i - 1)" "i \<le> H"
  shows "list_all (\<lambda>s. seg_seq s \<le> h_lastSeq c) (map sg [lo ..< hi])"
  unfolding list_all_iff set_map set_upt
proof safe
  fix j
  assume "j \<in> {lo ..< hi}"
  then have j: "j < hi" by simp
  have "seg_seq (sg j) = word_of_nat j" "H < 2 ^ 62" using assms(1,3) j by (simp_all add: stream_ok_def)
  moreover from this(2) have "(word_of_nat j :: u64) \<le> word_of_nat (i - 1)" by (subst word_numbers) (use assms j in linarith)+
  ultimately show "seg_seq (sg j) \<le> h_lastSeq c" using assms(4) by (simp only: simp_thms)
qed

lemma window_dropped:
  assumes "stream_ok lib w cfg d iu sg it H" "in_step cfg d iu u it i pts gap c" "i < lo" "lo < H"
  shows "h_lastSeq c + 1 < seg_seq (sg lo) \<and> \<not> seg_seq (sg lo) \<le> h_lastSeq c
    \<and> playing cfg d iu u (note_window_drop (seg_seq (sg lo)) c) \<and> clock pts (gap + int (lo - i)) (note_window_drop (seg_seq (sg lo)) c)"
proof -
  have lo: "lo < 2 ^ 62" "seg_seq (sg lo) = word_of_nat lo" using assms(1,4) by (simp_all add: stream_ok_def)
  note st = assms(2) [unfolded in_step_def]
  obtain k where k: "i = Suc k" using st by (cases i) simp_all
  then have last: "h_lastSeq c = word_of_nat k" "h_lastSeq c + 1 = word_of_nat i" using st by simp_all
  have b: "i < 2 ^ 62" "k < 2 ^ 62" "\<not> lo \<le> k" using lo(1) assms(3) k by linarith+
  have far: "(word_of_nat i :: u64) < word_of_nat lo" "\<not> (word_of_nat lo :: u64) \<le> word_of_nat k"
    unfolding word_numbers(2) [OF b(1) lo(1)] word_numbers(1) [OF lo(1) b(2)] using assms(3) b(3) by simp_all
  have "seg_seq (sg lo) - h_lastSeq c - 1 = word_of_nat lo - (h_lastSeq c + 1)" using lo(2) by simp
  also have "\<dots> = word_of_int (int (lo - i))" unfolding last(2) using assms(3) by (simp add: of_nat_diff)
  finally have g: "seg_seq (sg lo) - h_lastSeq c - 1 = word_of_int (int (lo - i))" .
  have "\<not> (word_of_int (int (lo - i)) :: u64) > word_of_int (2 ^ 63 - 1)"
  proof -
    have "uint (word_of_int (int (lo - i)) :: u64) = int (lo - i)" by (rule uint_of_int_u64) (use lo(1) in simp_all)
    moreover have "uint (word_of_int (2 ^ 63 - 1) :: u64) = 2 ^ 63 - 1" by simp
    ultimately show ?thesis using lo(1) by (simp add: word_less_def)
  qed
  moreover have "sint (h_pendingSeqGap c + word_of_int (int (lo - i))) = gap + int (lo - i)"
    using st lo(1) assms(3) by (subst sint_add) (auto simp: clock_def)
  ultimately show ?thesis using far last lo(2) st g unfolding note_window_drop_def Let_def g by (auto simp: playing_def clock_def)
qed


fun windows_state :: "(nat \<Rightarrow> item) \<Rightarrow> nat \<Rightarrow> int \<Rightarrow> int \<Rightarrow> (nat \<times> nat) list \<Rightarrow> nat \<times> int \<times> int" where
  "windows_state it i pts gap [] = (i, pts, gap)"
| "windows_state it i pts gap ((lo, hi) # ws) =
     (if hi \<le> max lo i then windows_state it i pts gap ws
      else let first = max lo i; gap = gap + int (first - i); xs = map it [first ..< hi]
           in windows_state it hi (pts_after pts xs) (fold (\<lambda>x g. gap_after g x) xs gap) ws)"

text \<open>One pass of the reader over a playlist.\<close>

lemma one_window:
  assumes ok: "stream_ok lib w cfg d iu sg it H" and st: "in_step cfg d iu u it i pts gap c" and "i \<le> H" "lo \<le> hi" "hi \<le> H"
    and "windows_state it i pts gap [(lo, hi)] = (i', pts', gap')"
  shows "\<exists>b c'. new_segments lib w (map sg [lo ..< hi]) False c = Some (b, c') \<and> h_log c' = h_log c @ map OnFrame (windows_frames it i pts gap [(lo, hi)])
    \<and> in_step cfg d iu u it i' pts' gap' c' \<and> i' \<le> H \<and> h_requests c \<le> h_requests c' \<and> h_media c' = h_media c"
proof -
  have last: "h_lastSeq c = word_of_nat (i - 1)" using st by (simp add: in_step_def)
  consider "hi \<le> i" | "i < hi" "lo \<le> i" | "i < lo" "lo < hi" | "i < lo" "lo = hi" using assms(4) by linarith
  then show ?thesis
  proof cases
    case 1
    have "new_segments lib w (map sg [lo ..< hi]) False c = Some (False, c)"
      using new_segments_seen [OF seen_prefix [OF ok 1 assms(5) last assms(3)], of lib w lo "[]" False] by simp
    moreover have "hi \<le> max lo i" using 1 by simp
    ultimately show ?thesis using assms(6) st assms(3) by auto
  next
    case 2
    have "[lo ..< hi] = [lo ..< i] @ [i ..< hi]" using 2 upt_add_eq_append [of lo i "hi - i"] by simp
    then have "new_segments lib w (map sg [lo ..< hi]) False c = new_segments lib w (map sg [i ..< hi]) False c"
      using new_segments_seen [OF seen_prefix [OF ok _ _ last assms(3), of i lo], of lib w "map sg [i ..< hi]" False] assms(3) by simp
    then show ?thesis using fresh_segments [OF ok, of i hi u pts gap c False] 2 assms(5,6) st by (auto simp: max_def Let_def)
  next
    case 3
    have l: "lo < H" using 3 assms(5) by simp
    define c1 where "c1 = note_window_drop (seg_seq (sg lo)) c"
    note drop = window_dropped [OF ok st 3(1) l, folded c1_def]
    have "c1 = (if \<not> False \<and> seg_seq (sg lo) > h_lastSeq c + 1 then note_window_drop (seg_seq (sg lo)) c else c)" using drop by (simp add: c1_def)
    moreover have "pts \<le> upto_duration it lo"
    proof -
      have "upto_duration it i \<le> upto_duration it lo" unfolding upto_duration_def
        using ok 3 l item_duration_nonneg by (intro sum_mono2) (auto simp: stream_ok_def)
      then show ?thesis using st by (simp add: in_step_def)
    qed
    moreover have "0 \<le> pts" "0 \<le> gap + int (lo - i)" "gap + int (lo - i) \<le> int lo" using st 3 by (auto simp: in_step_def)
    ultimately obtain c2 where c2: "new_segments lib w (sg lo # map sg [Suc lo ..< hi]) False c = new_segments lib w (map sg [Suc lo ..< hi]) True c2"
        "in_step cfg d iu u it (Suc lo) (pts + item_duration (it lo)) (gap_after (gap + int (lo - i)) (it lo)) c2"
        "h_log c2 = h_log c1 @ map OnFrame (item_frames pts (gap + int (lo - i)) (it lo))" "h_requests c1 \<le> h_requests c2" "h_media c2 = h_media c1"
      using new_segment [OF ok l, of c c1 False u pts "gap + int (lo - i)" "map sg [Suc lo ..< hi]"] drop by blast
    have "[lo ..< hi] = lo # [Suc lo ..< hi]" using 3 by (simp add: upt_conv_Cons del: upt_Suc)
    moreover have "h_log c1 = h_log c" "h_requests c1 = h_requests c" "h_media c1 = h_media c" by (simp_all add: c1_def note_window_drop_def Let_def)
    moreover have "max lo i = lo" "\<not> hi \<le> i" using 3 by simp_all
    ultimately show ?thesis using fresh_segments [OF ok _ assms(5) c2(2), of True] c2 3 assms(5,6) by (auto simp: Let_def pts_after_def add.assoc)
  next
    case 4
    then show ?thesis using assms(6) st assms(3) by auto
  qed
qed


text \<open>A live server: at request \<open>n\<close> the playlist shows the window \<open>W n\<close> of the stream.\<close>

definition live_playlists :: "('u, 'f) golib \<Rightarrow> world \<Rightarrow> hls_config \<Rightarrow> 'u \<Rightarrow> (nat \<Rightarrow> mediaSegment) \<Rightarrow> (nat \<Rightarrow> nat \<times> nat) \<Rightarrow> nat \<Rightarrow> bool" where
  "live_playlists lib w cfg u sg W H \<longleftrightarrow> url_Parse lib (url_String lib u) = Some u
     \<and> (\<forall>n. fst (W n) \<le> snd (W n) \<and> snd (W n) \<le> H
          \<and> (\<exists>body m. w_reply w n (url_String lib u) = Response 200 body None \<and> length body \<le> cfg_MaxPlaylistBytes cfg
               \<and> parsePlaylist lib body (Some u) = Inr (Media m) \<and> mp_segments m = map sg [fst (W n) ..< snd (W n)] \<and> \<not> mp_endList m))"

lemma windows_frames_Cons:
  "windows_frames it i pts gap (x # ws) = windows_frames it i pts gap [x] @ (case windows_state it i pts gap [x] of (i', pts', gap') \<Rightarrow> windows_frames it i' pts' gap' ws)"
  by (cases x) (simp add: Let_def)

lemma reloads:
  assumes ok: "stream_ok lib w cfg d iu sg it H" and live: "live_playlists lib w cfg u sg W H"
    and "in_step cfg d iu u it i pts gap c" "i \<le> H" "mp_segments (h_media c) = map sg [fst x ..< snd x]" "fst x \<le> snd x" "snd x \<le> H" "\<not> mp_endList (h_media c)"
  shows "\<exists>c' ns. runSegments lib w k c = Some c' \<and> length ns = k \<and> sorted_wrt (<) ns \<and> list_all (\<lambda>n. h_requests c \<le> n) ns \<and> h_termErr c' = None
    \<and> h_log c' = h_log c @ map OnFrame (windows_frames it i pts gap (butlast (x # map W ns)))"
  using assms(3-)
proof (induction k arbitrary: i pts gap c x)
  case 0
  then show ?case by (simp add: in_step_def playing_def)
next
  case (Suc k)
  obtain i1 pts1 gap1 where w1: "windows_state it i pts gap [x] = (i1, pts1, gap1)" by (metis prod_cases3)
  then have w1': "windows_state it i pts gap [(fst x, snd x)] = (i1, pts1, gap1)" by simp
  obtain b c1 where p: "new_segments lib w (map sg [fst x ..< snd x]) False c = Some (b, c1)"
      "h_log c1 = h_log c @ map OnFrame (windows_frames it i pts gap [x])" "in_step cfg d iu u it i1 pts1 gap1 c1" "i1 \<le> H" "h_requests c \<le> h_requests c1" "h_media c1 = h_media c"
    using one_window [OF ok Suc.prems(1,2,4,5) w1'] by auto
  then have pass: "processNewSegments lib w c = Some (b, c1)" using Suc.prems(3) by (simp add: processNewSegments_def)
  have pl: "playing cfg d iu u c1" using p(3) by (simp add: in_step_def)
  define n where "n = h_requests c1"
  obtain body m where srv: "w_reply w n (url_String lib u) = Response 200 body None" "length body \<le> cfg_MaxPlaylistBytes cfg"
      "parsePlaylist lib body (Some u) = Inr (Media m)" "mp_segments m = map sg [fst (W n) ..< snd (W n)]" "\<not> mp_endList m"
    using live unfolding live_playlists_def by meson
  have W: "fst (W n) \<le> snd (W n)" "snd (W n) \<le> H" "url_Parse lib (url_String lib u) = Some u" using live by (simp_all add: live_playlists_def)
  have quiet: "w_shutdown w n' = None" "w_wait w n' = None" for n' using ok by (simp_all add: stream_ok_def)
  define cd where "cd = c1\<lparr>h_delay := reloadDelayFor (mp_targetDuration (h_media c1)) b\<rparr>"
  have "get_playlist lib w (url_String lib u) cd = (Inr body, cd\<lparr>h_requests := h_requests cd + 1\<rparr>)"
    unfolding get_playlist_def using srv(1,2) W(3) quiet pl by (intro h_get_served) (simp_all add: n_def playing_def cd_def)
  then have fetch: "fetchMediaPlaylist lib w (url_String lib u) cd = (Inr (m, Some u), cd\<lparr>h_requests := n + 1\<rparr>)"
    using srv(3) W(3) by (simp add: fetchMediaPlaylist_def cd_def n_def)
  define c2 where "c2 = cd\<lparr>h_requests := n + 1, h_media := m, h_mediaURL := Some u\<rparr>"
  have run: "runSegments lib w (Suc k) c = runSegments lib w k c2"
    using pass pl Suc.prems(6) p(6) quiet fetch by (simp add: playing_def h_closed_def c2_def cd_def [symmetric] Let_def) (simp add: cd_def)
  have "in_step cfg d iu u it i1 pts1 gap1 c2" using p(3) by (simp add: in_step_def playing_def clock_def c2_def cd_def)
  moreover have "h_media c2 = m" by (simp add: c2_def)
  ultimately obtain c' ns where IH: "runSegments lib w k c2 = Some c'" "length ns = k" "sorted_wrt (<) ns" "list_all (\<lambda>n. h_requests c2 \<le> n) ns" "h_termErr c' = None"
      "h_log c' = h_log c2 @ map OnFrame (windows_frames it i1 pts1 gap1 (butlast (W n # map W ns)))"
    using Suc.IH [of i1 pts1 gap1 c2 "W n"] p(4) srv(4,5) W by auto
  have after: "list_all (\<lambda>j. n + 1 \<le> j) ns" using IH(4) by (simp add: c2_def)
  have logs: "h_log c' = h_log c @ map OnFrame (windows_frames it i pts gap (butlast (x # map W (n # ns))))"
    using IH(6) p(2) w1 windows_frames_Cons [of it i pts gap x "butlast (W n # map W ns)"] by (simp add: c2_def cd_def)
  have "list_all (\<lambda>j. h_requests c \<le> j) (n # ns)" "sorted_wrt (<) (n # ns)"
    using after p(5) IH(3) by (auto simp: list_all_iff n_def)
  then show ?case using run IH(1,2,5) logs by (intro exI [of _ c'] exI [of _ "n # ns"]) simp
qed

text \<open>Windows that never slide past what the client has seen show every segment once.\<close>

fun keeps_up :: "nat \<Rightarrow> (nat \<times> nat) list \<Rightarrow> bool" where
  "keeps_up i [] \<longleftrightarrow> True"
| "keeps_up i ((lo, hi) # ws) \<longleftrightarrow> lo \<le> i \<and> keeps_up (max i hi) ws"

definition newest :: "nat \<Rightarrow> (nat \<times> nat) list \<Rightarrow> nat" where
  "newest i ws = fold (\<lambda>x j. max j (snd x)) ws i"

lemma stream_frames_append:
  "stream_frames pts gap (xs @ ys) = stream_frames pts gap xs @ stream_frames (pts_after pts xs) (fold (\<lambda>x g. gap_after g x) xs gap) ys"
  by (induction xs arbitrary: pts gap) (simp_all add: pts_after_def add.assoc)

lemma newest_ge: "i \<le> newest i ws"
proof (induction ws arbitrary: i)
  case (Cons x ws)
  have "i \<le> max i (snd x)" by simp
  also have "\<dots> \<le> newest (max i (snd x)) ws" by (rule Cons.IH)
  finally show ?case by (simp add: newest_def)
qed (simp add: newest_def)

lemma windows_once: "keeps_up i ws \<Longrightarrow> windows_frames it i pts gap ws = stream_frames pts gap (map it [i ..< newest i ws])"
proof (induction ws arbitrary: i pts gap)
  case (Cons x ws)
  obtain lo hi where x: "x = (lo, hi)" by fastforce
  show ?case
  proof (cases "hi \<le> i")
    case True
    then show ?thesis using Cons x by (simp add: newest_def max_def)
  next
    case False
    then have m: "max i hi = hi" "max lo i = i" using Cons.prems x by simp_all
    have n: "newest i (x # ws) = newest hi ws" by (simp add: newest_def x m)
    have "[i ..< newest hi ws] = [i ..< hi] @ [hi ..< newest hi ws]" using False newest_ge [of hi ws] upt_add_eq_append [of i hi "newest hi ws - hi"] by simp
    then show ?thesis unfolding n using Cons.IH [of hi] Cons.prems False by (simp add: x m stream_frames_append Let_def)
  qed
qed (simp add: newest_def)


section \<open>Properties\<close>

text \<open>
  C4. Whatever the network answers and whenever the client is shut down, a session never panics, through playlists, masters, segments of either container, replaced
  initialization segments and garbage alike; and the configuration in the demuxer is always one the application was told. After any number of passes of the reader,
  what \<open>audioSpecificConfig\<close> of the demuxer in use returns is the configuration that \<open>Format\<close> reported when the source was opened or, after it, the last one given to
  \<open>OnCodecUpdate\<close>, and without that callback it is the one from the opening. The transport-stream demuxer
  takes its configuration from the first access unit and keeps it, so such a session announces nothing, also when the ADTS headers of a later part of the
  stream say otherwise; a session of fragmented MP4 announces every change.
\<close>

theorem hls_config_announced:
  "go_sat (\<lambda>c. sd_audioSpecificConfig (h_demux c) = Some (announced (h_codec c) (h_log c))
       \<and> (cfg_OnCodecUpdate (h_cfg c) \<or> announced (h_codec c) (h_log c) = h_codec c)
       \<and> (case h_demux c of TSDemuxer d \<Rightarrow> h_initURI c = [] \<and> updates (h_log c) = [] | FMP4Demuxer d \<Rightarrow> h_initURI c \<noteq> []))
     (hls_session lib w cfg requestURL n)"
  by (rule go_sat_mono [OF hls_session_inv]) (auto simp: hls_inv_def codec_ok_def split: segmentDemuxer.split)

text \<open>
  C3. A live stream is delivered as it was cut into segments. Let a client play a fragmented MP4 stream whose segments are served and whose playlist shows, at every
  request, some window of it. Then any number of passes of the reader ends with the client running and having handed over, in order, the access units of
  every segment it found in the windows it saw: what a window shows again is not delivered twice, the presentation time runs on over segments marked absent, and the
  first frame after a loss carries the number of segments that were absent or had left the window. If no window slides past what the client has
  seen, the frames are those of the whole stream up to the newest segment shown, each once.
\<close>

theorem hls_live_delivers:
  assumes "stream_ok lib w cfg d iu sg it H" "live_playlists lib w cfg u sg W H"
    and "in_step cfg d iu u it i pts gap c" "i \<le> H" "mp_segments (h_media c) = map sg [lo ..< hi]" "lo \<le> hi" "hi \<le> H" "\<not> mp_endList (h_media c)"
  shows "\<exists>c' ns. runSegments lib w k c = Some c' \<and> h_termErr c' = None
    \<and> length ns = k \<and> sorted_wrt (<) ns
    \<and> h_log c' = h_log c @ map OnFrame (windows_frames it i pts gap (butlast ((lo, hi) # map W ns)))
    \<and> (keeps_up i (butlast ((lo, hi) # map W ns)) \<longrightarrow>
         h_log c' = h_log c @ map OnFrame (stream_frames pts gap (map it [i ..< newest i (butlast ((lo, hi) # map W ns))])))"
proof -
  obtain c' ns where r: "runSegments lib w k c = Some c'" "length ns = k" "sorted_wrt (<) ns" "h_termErr c' = None"
      "h_log c' = h_log c @ map OnFrame (windows_frames it i pts gap (butlast ((lo, hi) # map W ns)))"
    using reloads [OF assms(1-4), of "(lo, hi)" k] assms(5-8) by auto
  moreover have "keeps_up i (butlast ((lo, hi) # map W ns)) \<longrightarrow>
      h_log c' = h_log c @ map OnFrame (stream_frames pts gap (map it [i ..< newest i (butlast ((lo, hi) # map W ns))]))"
    unfolding r(5) using windows_once [of i "butlast ((lo, hi) # map W ns)" it pts gap] by simp
  ultimately show ?thesis by blast
qed

text \<open>A session with one playlist window of two segments, the second of which is new at every reload.\<close>

definition wit_init :: AudioInit where
  "wit_init = \<lparr>ai_ASC = [0x12, 0x10], ai_Timescale = 44100, ai_TrackID = 1, ai_DefaultSize = 0, ai_DefaultDur = 0\<rparr>"

definition wit_body :: bytes where
  "wit_body = boxes [(lit ''moof'', boxes [(lit ''traf'', boxes [(lit ''tfhd'', fullbox 0 0x20000 @ put32 1),
     (lit ''trun'', fullbox 0 0x301 @ put32 1 @ put32 68 @ put32 1024 @ put32 3)])]), (lit ''mdat'', [1, 2, 3])]"

definition wit_segment :: "nat \<Rightarrow> mediaSegment" where
  "wit_segment i = \<lparr>seg_uri = lit ''http://h/s.m4s'', seg_initURI = lit ''http://h/i.mp4'', seg_seq = word_of_nat i, seg_duration = 10 ^ 9,
     seg_discontinuity = False, seg_gap = False\<rparr>"

definition wit_item :: "nat \<Rightarrow> item" where
  "wit_item i = Units [([1, 2, 3], 23219954)]"

definition wit_media :: mediaPlaylist where
  "wit_media = \<lparr>mp_version = 7, mp_targetDuration = 10 ^ 9, mp_mediaSequence = 6, mp_discontinuitySequence = 0, mp_endList = False, mp_segments = map wit_segment [6 ..< 8]\<rparr>"

definition wit_world :: world where
  "wit_world = \<lparr>w_reply = (\<lambda>n uri. Response 200 (if uri = lit ''http://h/p'' then print_media wit_media [lit ''1'', lit ''1''] else wit_body) None),
     w_shutdown = (\<lambda>n. None), w_wait = (\<lambda>n. None)\<rparr>"

definition wit_config :: hls_config where
  "wit_config = \<lparr>cfg_OnFrame = True, cfg_OnCodecUpdate = False, cfg_MaxSegmentBytes = 1000, cfg_MaxPlaylistBytes = 1000\<rparr>"

definition wit_client :: "bytes hls_client" where
  "wit_client = (new_hls_client wit_config)\<lparr>h_demux := FMP4Demuxer \<lparr>fm_init = wit_init, fm_gaps = 0\<rparr>, h_mediaURL := Some (lit ''http://h/p''),
     h_initURI := lit ''http://h/i.mp4'', h_lastSeq := 5, h_media := wit_media\<lparr>mp_mediaSequence := 5, mp_segments := map wit_segment [5 ..< 7]\<rparr>\<rparr>"

lemma wit_media_ok: "media_ok plain_lib (Some (lit ''http://h/p'')) wit_media [lit ''1'', lit ''1'']"
proof -
  have seconds: "parseExtinf plain_lib (lit ''1'') = Inr (10 ^ 9)" by code_simp
  have "TrimSpace u = u" if "field_text u" for u using field_ends [OF that] by (intro TrimSpace_printing) auto
  then have urls: "resolveURI plain_lib b u = u" if "field_text u" for b u using that by (cases b) (simp_all add: resolveURI_def plain_lib_def)
  have "field_text (lit ''http://h/s.m4s'')" "field_text (lit ''http://h/i.mp4'')" "field_text (lit ''1'')" by code_simp+
  then show ?thesis using seconds urls
    by (simp add: media_ok_def wit_media_def wit_segment_def segment_text_ok_def url_text_def seg_numbered_def duration_ok_def caps) (simp add: lit_simps)
qed

lemma wit_served: "fmp4_demux \<lparr>fm_init = wit_init, fm_gaps = 0\<rparr> wit_body disc = Some ([([1, 2, 3], 23219954)], \<lparr>fm_init = wit_init, fm_gaps = 0\<rparr>, None)"
proof -
  have "ParseFragment wit_init wit_body = Some (None, [\<lparr>sm_Data = [1, 2, 3], sm_Dur = 1024\<rparr>])" by code_simp
  then show ?thesis using sample_duration_exact [of "\<lparr>fm_init = wit_init, fm_gaps = 0\<rparr>"]
    by (simp add: fmp4_demux_def) (simp add: wit_init_def init_ok_def)
qed

lemma wit_stream: "stream_ok plain_lib wit_world wit_config \<lparr>fm_init = wit_init, fm_gaps = 0\<rparr> (lit ''http://h/i.mp4'') wit_segment wit_item 8"
proof -
  have "length wit_body \<le> 1000" by (simp add: wit_body_def)
  then show ?thesis using wit_served
    by (simp add: stream_ok_def wit_world_def wit_config_def wit_item_def wit_segment_def served_def units_total_def plain_lib_def) (simp add: lit_simps)
qed

lemma wit_live: "live_playlists plain_lib wit_world wit_config (lit ''http://h/p'') wit_segment (\<lambda>n. (6, 8)) 8"
proof -
  have "length (print_media wit_media [lit ''1'', lit ''1'']) \<le> 1000" by code_simp
  moreover have "parsePlaylist plain_lib (print_media wit_media [lit ''1'', lit ''1'']) (Some (lit ''http://h/p'')) = Inr (Media wit_media)"
    by (rule parsePlaylist_print [OF wit_media_ok])
  moreover have "mp_segments wit_media = map wit_segment [6 ..< 8]" "\<not> mp_endList wit_media" by (simp_all add: wit_media_def)
  moreover have "url_Parse plain_lib (url_String plain_lib (lit ''http://h/p'')) = Some (lit ''http://h/p'')" by (simp add: plain_lib_def)
  moreover have "w_reply wit_world n (url_String plain_lib (lit ''http://h/p'')) = Response 200 (print_media wit_media [lit ''1'', lit ''1'']) None" for n
    by (simp add: wit_world_def plain_lib_def)
  ultimately show ?thesis unfolding live_playlists_def by (simp add: wit_config_def)
qed

theorem hls_live_delivers_witness:
  "\<exists>c'. runSegments plain_lib wit_world 2 wit_client = Some c' \<and> h_termErr c' = None
    \<and> h_log c' = [OnFrame \<lparr>hf_Data = [1, 2, 3], hf_PTS = 0, hf_SeqGap = 0\<rparr>, OnFrame \<lparr>hf_Data = [1, 2, 3], hf_PTS = 23219954, hf_SeqGap = 0\<rparr>]"
proof -
  have st: "in_step wit_config \<lparr>fm_init = wit_init, fm_gaps = 0\<rparr> (lit ''http://h/i.mp4'') (lit ''http://h/p'') wit_item 6 0 0 wit_client"
    by (simp add: in_step_def playing_def clock_def wit_client_def new_hls_client_def upto_duration_def wit_item_def units_total_def)
  have m: "mp_segments (h_media wit_client) = map wit_segment [5 ..< 7]" "\<not> mp_endList (h_media wit_client)" by (simp_all add: wit_client_def wit_media_def)
  have n: "(6 :: nat) \<le> 8" "(5 :: nat) \<le> 7" "(7 :: nat) \<le> 8" by simp_all
  obtain c' and ns :: "nat list" where r: "runSegments plain_lib wit_world 2 wit_client = Some c'" "h_termErr c' = None" "length ns = 2"
      "h_log c' = h_log wit_client @ map OnFrame (windows_frames wit_item 6 0 0 (butlast ((5, 7) # map (\<lambda>n. (6, 8)) ns)))"
    using hls_live_delivers [OF wit_stream wit_live st n(1) m(1) n(2,3) m(2), of 2] by blast
  obtain a b where "ns = [a, b]" using r(3) by (auto simp: numeral_2_eq_2 length_Suc_conv)
  then have "h_log c' = [OnFrame \<lparr>hf_Data = [1, 2, 3], hf_PTS = 0, hf_SeqGap = 0\<rparr>, OnFrame \<lparr>hf_Data = [1, 2, 3], hf_PTS = 23219954, hf_SeqGap = 0\<rparr>]"
    using r(4) by (simp add: wit_item_def units_total_def pts_after_def wit_client_def new_hls_client_def)
  then show ?thesis using r by blast
qed

text \<open>
  The clamp of a jump in the numbering does not keep the reported loss positive: added to a loss that is already pending it overflows, and the
  next frame reports a negative number of lost segments.
\<close>

lemma window_drop_overflow:
  "h_log (deliverAU (data, dur) (note_window_drop (2 ^ 63 + 1) ((new_hls_client wit_config)\<lparr>h_pendingSeqGap := 1\<rparr>)))
    = [OnFrame \<lparr>hf_Data = data, hf_PTS = 0, hf_SeqGap = - (2 ^ 63)\<rparr>]"
  by (simp add: deliverAU_def note_window_drop_def new_hls_client_def wit_config_def Let_def)

end
