(* ===== verification/Spec2Isabelle.thy ===== *)
theory Spec2Isabelle
  imports RTP_Packet RTP_Stream RTP_Reorder RTCP AAC FLAC PCM MP3 MP3_Frame TS_Stream Supervisor Backoff RTSP_Reader G726 LATM UDP_Delivery HLS_Client
begin

text \<open>
  go-audio-stream receives live audio over RTSP, HTTP, HLS and UDP and hands timed frames to a callback. This development models
  its core in Isabelle/HOL and proves what the parts promise. Every definition follows one function of the Go source, in the
  source's order and under its name where that is free; the remaining ones are prefixed by their package.

  \<^bold>\<open>How the program is put together.\<close> A source package (\<open>src/rtsp\<close>, \<open>src/httpsource\<close>, \<open>src/hlssource\<close>, \<open>src/udpsource\<close>) owns a
  transport. The RTSP client reads one byte stream that mixes interleaved frames, responses and server requests
  (\<open>rtsp/reader.go\<close>), parses RTP (\<open>rtsp/rtp\<close>), unwraps sequence numbers and timestamps, puts UDP packets back in order, and
  reassembles access units in a depacketizer (\<open>depacket/*\<close>). The HTTP and HLS sources cut a body into ADTS or MPEG audio frames
  (\<open>httpsource/framer.go\<close>) or demultiplex MPEG-TS segments (\<open>hlssource/tsdemux.go\<close>). A supervisor (\<open>supervisor\<close>) reconnects any
  source with a backoff schedule.

  \<^bold>\<open>Conventions\<close> (\<open>Prelude\<close>, \<open>Bits\<close>, \<open>Strings\<close>). Bytes are \<open>8 word\<close>; fields of a wire format keep their width; lengths are \<open>nat\<close>.
  A Go expression that can panic (an index or a slice out of range) has type \<open>'a option\<close>, with \<open>None\<close> for the panic; a function
  that also returns an \<open>error\<close> has type \<open>('e, 'a) go\<close>, built from \<open>ok\<close>, \<open>err\<close> and \<open>panic\<close>. A method takes its receiver as a record and
  returns it updated. \<open>run\<close> feeds a list of inputs to a step function, and the locale \<open>invariant_machine\<close> carries an invariant
  through a run; the components interpret it. \<open>Strings\<close> models what the source uses of Go's \<open>strings\<close> and \<open>strconv\<close>.

  \<^bold>\<open>Theories.\<close>
  \<^item> \<open>RTP_Packet\<close>, \<open>RTP_Stream\<close>, \<open>RTP_Reorder\<close>, \<open>RTCP\<close>: \<open>rtsp/rtp/*.go\<close> and \<open>stats.go\<close>. The packet parser is total, accepts
    exactly the packets of the format and inverts the marshaller; the tracker unwraps 16 and 32-bit counters exactly; the reorderer releases in ascending order, loses
    and duplicates nothing it does not count, and undoes any reordering within its window; compound RTCP round trips; NTP and wall
    clock arithmetic is exact within 64 bits.
  \<^item> \<open>Depacketizer\<close>: the contract of a depacketizer as a locale. \<open>AAC\<close>, \<open>FLAC\<close>, \<open>MP3\<close>, \<open>PCM\<close>, \<open>G726\<close>, \<open>LATM\<close>: the packages under \<open>depacket/\<close> and
    \<open>packet/\<close>. No sequence of packets and resets panics or grows the reassembly buffer past its bound; complete, aggregated and
    fragmented packets give back the access units that were sent; the G.726 decoder's 32-bit arithmetic never overflows; LATM payloads
    are taken apart across byte boundaries, their configurations parsed and retained.
  \<^item> \<open>ADTS\<close>, \<open>MP3_Header\<close>, \<open>Framer\<close>, \<open>ADTS_Frame\<close>, \<open>MP3_Frame\<close>: \<open>internal/adts\<close>, \<open>internal/adtsframe\<close>, \<open>internal/mp3\<close>,
    \<open>httpsource/framer.go\<close> and \<open>httpsource/mp3.go\<close>. The reader loop terminates on every body with a bounded backlog, and delivers a
    clean stream exactly whatever the chunking.
  \<^item> \<open>TS_Demux\<close>, \<open>TS_Stream\<close>: \<open>hlssource/tsdemux.go\<close>. Total and bounded on any segments; tables are read as written; a well-formed
    multiplex is delivered exactly.
  \<^item> \<open>MP4\<close>, \<open>FMP4\<close>: \<open>internal/mp4/mp4.go\<close> and \<open>hlssource/fmp4demux.go\<close>. The box walk terminates and no bytes make the reader panic or deliver anything
    that is not a piece of the fragment. What an initialization segment and a fragment may look like is stated as predicates on bytes (\<open>init_for\<close>,
    \<open>fragment_for\<close>) that leave a muxer its choices, and every such pair is read back, next to any other tracks. The interface \<open>segmentDemuxer\<close> of the HLS client is a locale, interpreted on both demuxers.
  \<^item> \<open>HLS_Playlist\<close>, \<open>HLS_Client\<close>: \<open>hlssource/playlist.go\<close> and \<open>hlssource/client.go\<close>. The playlist parser inverts what a packager writes and accepts nothing
    out of bounds; the client's handshake and segment loop never panic, announce every configuration a replaced initialization segment brings, and refine an abstract
    player of numbered segments over any sequence of playlist windows. URLs, floats and the network are parameters.
  \<^item> \<open>RTSP_Message\<close>, \<open>RTSP_Wire\<close>, \<open>RTSP_Reader\<close>: \<open>rtsp/message.go\<close> and the framing loop of \<open>rtsp/reader.go\<close>. Parsers are total and
    return well-formed messages; requests and responses round trip; the reader delivers every message of a well-formed stream
    once and in order under any chunking, through interfaces stated as locales.
  \<^item> \<open>Pipeline\<close>, \<open>Pipeline_Run\<close>: \<open>rtsp/pipeline.go\<close> and the packet path of \<open>rtsp/reader.go\<close>, which compose the tracker and the depacketizers
    into a track. No packet panics a track, losses are conserved on the way to the frames, and a sender's packets come out as the frames
    it meant with exact presentation times.
  \<^item> \<open>RTSP_Transport\<close>, \<open>RTSP_Client\<close>, \<open>UDP_Receive\<close>, \<open>RTSP_Session\<close>, \<open>RTSP_Delivery\<close>, \<open>UDP_Delivery\<close>: the RTSP client. Headers, status codes and the table of legal methods
    (\<open>rtsp/transport.go\<close>, \<open>status.go\<close>, \<open>state.go\<close>); the client's shared state, the reader's handlers, requests, Setup over TCP and UDP, Play
    and the timers (\<open>client.go\<close>, \<open>reader.go\<close>, \<open>request.go\<close>, \<open>setup.go\<close>, \<open>udp.go\<close>, \<open>play.go\<close>, \<open>describe.go\<close>, \<open>keepalive.go\<close>); the UDP
    receive loops (\<open>udprecv.go\<close>); all of it as a step relation in which the caller's calls interleave with the reader, the receivers, the timers
    and shutdowns. In every reachable state the routing
    table is exactly what the tracks claimed, no input panics the reader and no socket leaks; and the bytes of the control connection, and the
    datagrams of a UDP session in any order within the window, come out as the frames that were sent. The locale of the reader's client (\<open>reader_client\<close>) is interpreted on these handlers.
  \<^item> \<open>Supervisor\<close>: \<open>supervisor/supervisor.go\<close> as a step relation over the run goroutine and the callers of \<open>Close\<close>. Its reported transitions
    refine the documented life cycle, it holds at most one source, and it ends after a cancellation.
  \<^item> \<open>Float64\<close>, \<open>Backoff\<close>: \<open>supervisor/backoff.go\<close> in IEEE binary64 arithmetic, with infinities and NaN and each operation rounded to nearest. The delays stay
    in their range and follow the capped exponential up to rounding.

  \<^bold>\<open>Loops and fuel.\<close> Loops are structural or carry a termination proof. Where a loop's measure is in the data (bytes left in a
  buffer, packets left in a segment) the functions are total and no fuel is used. The HLS reload loop of a live stream does not end by itself: its first argument
  is the number of passes, and its theorems hold for every number.

  \<^bold>\<open>Not modelled.\<close> Sockets, goroutine scheduling other than the supervisor's, the RTSP client's and the shutdowns of the HLS client, deadlines, TLS, authentication, URL resolution, HTTP transports, the HTTP and UDP sources' clients, logging, command line
  tools, the in-process test server, and the parsers the manifest lists as not modelled.

  \<^bold>\<open>Limits of the model.\<close> \<open>EqualFold\<close> folds ASCII letters only. The losses a track has pending are an unbounded integer. A pair of media sockets is one unit that is
  opened, with the port it was bound to given from outside, and closed as a whole; the hole punch after a UDP Setup is left out. Credentials are never activated in the sessions, so
  requests carry no Authorization header there. A read error of a client that is already closing is classified like any other, which changes nothing, because the first
  cause of a shutdown is kept. The Content-Type test of Describe is one of the reasons for which its answer may be refused. Products and sums of floats are rounded one by one, as on
  platforms that do not fuse them.
\<close>

end
